(* ===== verification/Cbgp_Prelude.thy ===== *)
theory Cbgp_Prelude
  imports Main "HOL-Library.Word" "HOL-Library.Monad_Syntax"
begin

text \<open>
  The vocabulary the component theories share.

  A C function that can stop the process (a failed \<open>assert\<close>, \<open>abort()\<close>, \<open>cbgp_fatal()\<close> or
  a dereference of NULL) is modelled by a function into \<open>'a option\<close>: \<^term>\<open>None\<close> is the stopped
  process and \<^term>\<open>Some\<close> carries what the function returns.  Error codes that the program
  returns as values (\<open>ENET_*\<close>, \<open>EBGP_*\<close>, -1) are ordinary results of type \<^typ>\<open>int\<close>.  Unsigned C
  integers are words of their width.  The dynamic arrays of the program are HOL lists.

  The theory also models the pieces of the C library the sources use: \<open>%u\<close> of \<open>printf\<close> and
  \<open>strtoul\<close> in base 10 on a 64-bit \<open>unsigned long\<close>.
\<close>

unbundle bit_operations_syntax

section \<open>Types and named collections\<close>

type_synonym net_addr = "32 word"
type_synonym net_mask = "8 word"
type_synonym asn = "16 word"

named_theorems spec_simps \<open>unfolding rules of small operations\<close>
named_theorems keeps \<open>an operation keeps a field or an invariant\<close>

definition assert_opt :: "bool \<Rightarrow> unit option" where
  "assert_opt b = (if b then Some () else None)"

lemma assert_opt_simps [simp]:
  "assert_opt True = Some ()"
  "assert_opt False = None"
  "assert_opt b = Some u \<longleftrightarrow> b"
  "assert_opt b = None \<longleftrightarrow> \<not> b"
  by (simp_all add: assert_opt_def)

lemma assert_opt_bind [simp]:
  "(assert_opt b \<bind> f = Some x) \<longleftrightarrow> b \<and> f () = Some x"
  by (cases b) simp_all

lemma bind_SomeE: "m \<bind> f = Some y \<Longrightarrow> (\<And>x. m = Some x \<Longrightarrow> f x = Some y \<Longrightarrow> P) \<Longrightarrow> P"
  by (auto simp: bind_eq_Some_conv)

section \<open>Error codes of net/error.h\<close>

definition ESUCCESS :: int where "ESUCCESS = 0"
definition EUNEXPECTED :: int where "EUNEXPECTED = -1"
definition EUNSUPPORTED :: int where "EUNSUPPORTED = -2"
definition EUNSPECIFIED :: int where "EUNSPECIFIED = -3"
definition ENET_HOST_UNREACH :: int where "ENET_HOST_UNREACH = -101"
definition ENET_PROTO_UNREACH :: int where "ENET_PROTO_UNREACH = -102"
definition ENET_TIME_EXCEEDED :: int where "ENET_TIME_EXCEEDED = -103"
definition ENET_LINK_DOWN :: int where "ENET_LINK_DOWN = -104"
definition ENET_LINK_LOOP :: int where "ENET_LINK_LOOP = -105"
definition ENET_LINK_DUPLICATE :: int where "ENET_LINK_DUPLICATE = -106"
definition ENET_NODE_DUPLICATE :: int where "ENET_NODE_DUPLICATE = -200"
definition ENET_SUBNET_DUPLICATE :: int where "ENET_SUBNET_DUPLICATE = -201"
definition ENET_IFACE_UNKNOWN :: int where "ENET_IFACE_UNKNOWN = -300"
definition ENET_IFACE_DUPLICATE :: int where "ENET_IFACE_DUPLICATE = -301"
definition ENET_IFACE_INVALID_ID :: int where "ENET_IFACE_INVALID_ID = -302"
definition ENET_IFACE_INVALID_TYPE :: int where "ENET_IFACE_INVALID_TYPE = -303"
definition ENET_IFACE_NOT_SUPPORTED :: int where "ENET_IFACE_NOT_SUPPORTED = -304"
definition ENET_IFACE_INCOMPATIBLE :: int where "ENET_IFACE_INCOMPATIBLE = -305"
definition ENET_IFACE_CONNECTED :: int where "ENET_IFACE_CONNECTED = -306"
definition ENET_IFACE_NOT_CONNECTED :: int where "ENET_IFACE_NOT_CONNECTED = -307"
definition ENET_NODE_INVALID_ID :: int where "ENET_NODE_INVALID_ID = -700"
definition EBGP_PEER_DUPLICATE :: int where "EBGP_PEER_DUPLICATE = -400"
definition EBGP_PEER_INVALID_ADDR :: int where "EBGP_PEER_INVALID_ADDR = -401"
definition EBGP_PEER_UNKNOWN :: int where "EBGP_PEER_UNKNOWN = -402"
definition EBGP_PEER_INCOMPATIBLE :: int where "EBGP_PEER_INCOMPATIBLE = -403"
definition EBGP_PEER_UNREACHABLE :: int where "EBGP_PEER_UNREACHABLE = -404"
definition EBGP_PEER_INVALID_STATE :: int where "EBGP_PEER_INVALID_STATE = -405"
definition EBGP_PEER_OUT_OF_SEQ :: int where "EBGP_PEER_OUT_OF_SEQ = -406"
definition EBGP_NETWORK_DUPLICATE :: int where "EBGP_NETWORK_DUPLICATE = -420"
definition ENET_RT_NH_UNREACH :: int where "ENET_RT_NH_UNREACH = -500"
definition ENET_RT_IFACE_UNKNOWN :: int where "ENET_RT_IFACE_UNKNOWN = -501"
definition ENET_RT_DUPLICATE :: int where "ENET_RT_DUPLICATE = -502"
definition ENET_RT_UNKNOWN :: int where "ENET_RT_UNKNOWN = -503"
definition ENET_RT_NO_GW_NO_OIF :: int where "ENET_RT_NO_GW_NO_OIF = -504"
definition ESIM_TIME_LIMIT :: int where "ESIM_TIME_LIMIT = -1000"

lemmas error_codes =
  ESUCCESS_def EUNEXPECTED_def EUNSUPPORTED_def EUNSPECIFIED_def EBGP_PEER_DUPLICATE_def
  EBGP_PEER_INVALID_ADDR_def EBGP_PEER_UNKNOWN_def EBGP_PEER_INCOMPATIBLE_def
  EBGP_PEER_UNREACHABLE_def EBGP_PEER_INVALID_STATE_def EBGP_PEER_OUT_OF_SEQ_def
  EBGP_NETWORK_DUPLICATE_def ENET_RT_NH_UNREACH_def ENET_RT_IFACE_UNKNOWN_def
  ENET_RT_DUPLICATE_def ENET_RT_UNKNOWN_def ENET_RT_NO_GW_NO_OIF_def ESIM_TIME_LIMIT_def

lemmas net_error_codes =
  ENET_HOST_UNREACH_def ENET_PROTO_UNREACH_def ENET_TIME_EXCEEDED_def ENET_LINK_DOWN_def
  ENET_LINK_LOOP_def ENET_LINK_DUPLICATE_def ENET_NODE_DUPLICATE_def ENET_SUBNET_DUPLICATE_def
  ENET_IFACE_UNKNOWN_def ENET_IFACE_DUPLICATE_def ENET_IFACE_INVALID_ID_def ENET_IFACE_INVALID_TYPE_def
  ENET_IFACE_NOT_SUPPORTED_def ENET_IFACE_INCOMPATIBLE_def ENET_IFACE_CONNECTED_def ENET_IFACE_NOT_CONNECTED_def
  ENET_NODE_INVALID_ID_def

section \<open>Arrays\<close>

definition remove_at :: "nat \<Rightarrow> 'a list \<Rightarrow> 'a list" where
  "remove_at i xs = take i xs @ drop (Suc i) xs"

lemma remove_at_simps [simp]:
  "remove_at i [] = []"
  "remove_at 0 (x # xs) = xs"
  "remove_at (Suc i) (x # xs) = x # remove_at i xs"
  by (simp_all add: remove_at_def)

lemma length_remove_at: "i < length xs \<Longrightarrow> length (remove_at i xs) = length xs - 1"
  by (simp add: remove_at_def)

lemma set_remove_at_subset: "set (remove_at i xs) \<subseteq> set xs"
  by (auto simp: remove_at_def dest: in_set_takeD in_set_dropD)

lemma remove_at_append [simp]: "remove_at (length xs) (xs @ y # ys) = xs @ ys"
  by (simp add: remove_at_def)

text \<open>The position of the first element that satisfies a test, as the search loops compute it.\<close>

primrec find_index_from :: "nat \<Rightarrow> ('a \<Rightarrow> bool) \<Rightarrow> 'a list \<Rightarrow> nat option" where
  "find_index_from i P [] = None"
| "find_index_from i P (x # xs) = (if P x then Some i else find_index_from (Suc i) P xs)"

lemma find_index_from_None: "find_index_from i P xs = None \<longleftrightarrow> (\<forall>x\<in>set xs. \<not> P x)"
  by (induction xs arbitrary: i) auto

lemma find_index_from_Some:
  "find_index_from i P xs = Some k \<Longrightarrow>
     \<exists>ys y zs. xs = ys @ y # zs \<and> k = i + length ys \<and> P y \<and> (\<forall>x\<in>set ys. \<not> P x)"
proof (induction xs arbitrary: i)
  case (Cons x xs)
  show ?case
  proof (cases "P x")
    case True
    with Cons.prems show ?thesis by (intro exI [of _ "[]"]) auto
  next
    case False
    with Cons obtain ys y zs where
      "xs = ys @ y # zs" "k = Suc i + length ys" "P y" "\<forall>x\<in>set ys. \<not> P x"
      by fastforce
    with False show ?thesis by (intro exI [of _ "x # ys"]) auto
  qed
qed simp

text \<open>The loop that keeps the elements that pass a test in place: \<open>last_index\<close> is where the next kept
  element goes, and the array is cut to \<open>last_index\<close> at the end.\<close>

function compact_from :: "('a \<Rightarrow> bool) \<Rightarrow> nat \<Rightarrow> nat \<Rightarrow> 'a list \<Rightarrow> 'a list" where
  "compact_from keep index last_index vals =
     (if index < length vals then
        (if keep (vals ! index) then
           compact_from keep (Suc index) (Suc last_index)
             (if index \<noteq> last_index then vals[last_index := vals ! index] else vals)
         else compact_from keep (Suc index) last_index vals)
      else take last_index vals)"
  by auto
termination
  by (relation "measure (\<lambda>(_, index, _, vals). length vals - index)") auto

declare compact_from.simps [simp del]

lemma compact_from_eq:
  assumes "last_index \<le> index" "index \<le> length vals"
  shows "compact_from keep index last_index vals
       = take last_index vals @ filter keep (drop index vals)"
  using assms
proof (induction keep index last_index vals rule: compact_from.induct)
  case (1 keep i l xs)
  show ?case
  proof (cases "i < length xs")
    case True
    have d: "drop i xs = xs ! i # drop (Suc i) xs"
      using True by (simp add: Cons_nth_drop_Suc)
    show ?thesis
    proof (cases "keep (xs ! i)")
      case keep: True
      let ?ys = "if i \<noteq> l then xs[l := xs ! i] else xs"
      have "compact_from keep i l xs = compact_from keep (Suc i) (Suc l) ?ys"
        using True keep by (subst compact_from.simps) simp
      also have "\<dots> = take (Suc l) ?ys @ filter keep (drop (Suc i) ?ys)"
        using "1.prems" True by (intro "1.IH"(1) [OF True keep]) auto
      also have "take (Suc l) ?ys = take l xs @ [xs ! i]"
        using "1.prems" True by (auto simp: take_Suc_conv_app_nth)
      also have "drop (Suc i) ?ys = drop (Suc i) xs"
        using "1.prems" by simp
      finally show ?thesis using keep d by simp
    next
      case False
      then have "compact_from keep i l xs = compact_from keep (Suc i) l xs"
        using True by (subst compact_from.simps) simp
      also have "\<dots> = take l xs @ filter keep (drop (Suc i) xs)"
        using "1.prems" True by (intro "1.IH"(2) [OF True False]) auto
      finally show ?thesis using False d by simp
    qed
  next
    case False
    then show ?thesis by (subst compact_from.simps) simp
  qed
qed

lemma compact_eq_filter [simp]: "compact_from keep 0 0 xs = filter keep xs"
  by (simp add: compact_from_eq)

text \<open>The loop \<open>while (index < size) if (remove?) remove_at (index) else index++\<close>, where the test may stop
  the process.\<close>

function remove_loop :: "('a \<Rightarrow> bool option) \<Rightarrow> nat \<Rightarrow> 'a list \<Rightarrow> 'a list option" where
  "remove_loop test index xs =
     (if index < length xs then
        (case test (xs ! index) of
           None \<Rightarrow> None
         | Some True \<Rightarrow> remove_loop test index (remove_at index xs)
         | Some False \<Rightarrow> remove_loop test (Suc index) xs)
      else Some xs)"
  by auto
termination
  by (relation "measure (\<lambda>(_, index, xs). length xs - index)") (auto simp: length_remove_at)

declare remove_loop.simps [simp del]

lemma remove_loop_append:
  "remove_loop test (length ys) (ys @ xs) =
     (if \<exists>x\<in>set xs. test x = None then None
      else Some (ys @ filter (\<lambda>x. test x = Some False) xs))"
proof (induction xs arbitrary: ys)
  case Nil
  then show ?case by (simp add: remove_loop.simps)
next
  case (Cons x xs)
  have "remove_loop test (Suc (length ys)) (ys @ x # xs) = remove_loop test (length (ys @ [x])) ((ys @ [x]) @ xs)"
    by simp
  then show ?case
    using Cons [of ys] Cons [of "ys @ [x]"]
    by (subst remove_loop.simps) (auto split: option.splits bool.splits)
qed

lemma remove_loop_eq:
  "remove_loop test 0 xs =
     (if \<exists>x\<in>set xs. test x = None then None else Some (filter (\<lambda>x. test x = Some False) xs))"
  using remove_loop_append [of test "[]" xs] by simp

text \<open>The loop that computes the lowest value of a key, starting from the initial value of the
  accumulator.\<close>

fun lowest_loop :: "('a \<Rightarrow> ('k :: linorder) option) \<Rightarrow> 'k \<Rightarrow> 'a list \<Rightarrow> 'k option" where
  "lowest_loop key acc [] = Some acc"
| "lowest_loop key acc (x # xs) =
     (case key x of
        None \<Rightarrow> None
      | Some k \<Rightarrow> lowest_loop key (if k < acc then k else acc) xs)"

lemma lowest_loop_None: "lowest_loop key acc xs = None \<longleftrightarrow> (\<exists>x\<in>set xs. key x = None)"
  by (induction xs arbitrary: acc) (auto split: option.splits)

lemma lowest_loop_Some:
  assumes "lowest_loop key acc xs = Some m"
  shows "m \<le> acc" and "x \<in> set xs \<Longrightarrow> \<exists>k. key x = Some k \<and> m \<le> k"
    and "m = acc \<or> (\<exists>x\<in>set xs. key x = Some m)"
proof -
  have "m \<le> acc \<and> (\<forall>x\<in>set xs. \<exists>k. key x = Some k \<and> m \<le> k)
      \<and> (m = acc \<or> (\<exists>x\<in>set xs. key x = Some m))"
    using assms
  proof (induction xs arbitrary: acc)
    case (Cons x xs)
    then obtain k where k: "key x = Some k"
      and m: "lowest_loop key (if k < acc then k else acc) xs = Some m"
      by (auto split: option.splits)
    from Cons.IH [OF m] show ?case
      by (auto simp: k split: if_splits)
  qed simp
  then show "m \<le> acc" and "x \<in> set xs \<Longrightarrow> \<exists>k. key x = Some k \<and> m \<le> k"
    and "m = acc \<or> (\<exists>x\<in>set xs. key x = Some m)"
    by auto
qed

section \<open>Decimal numbers in strings\<close>

definition digit_char :: "nat \<Rightarrow> char" where
  "digit_char d = char_of (48 + d)"

definition is_digit :: "char \<Rightarrow> bool" where
  "is_digit c \<longleftrightarrow> 48 \<le> (of_char c :: nat) \<and> (of_char c :: nat) \<le> 57"

definition digit_of :: "char \<Rightarrow> nat" where
  "digit_of c = of_char c - 48"

definition isspace :: "char \<Rightarrow> bool" where
  "isspace c \<longleftrightarrow> (of_char c :: nat) = 32 \<or> (9 \<le> (of_char c :: nat) \<and> (of_char c :: nat) \<le> 13)"

text \<open>\<open>%u\<close>\<close>

fun print_u :: "nat \<Rightarrow> string" where
  "print_u n = (if n < 10 then [digit_char n] else print_u (n div 10) @ [digit_char (n mod 10)])"

declare print_u.simps [simp del]

text \<open>\<open>strtoul (str, &end, 10)\<close>: optional white space, an optional sign and digits; a value too
  large saturates to \<open>ULONG_MAX\<close>, a minus sign negates modulo \<open>2 ^ 64\<close>, and when there is no digit
  the end pointer is the start of the string.\<close>

fun read_digits :: "nat \<Rightarrow> string \<Rightarrow> nat \<times> string" where
  "read_digits n [] = (n, [])"
| "read_digits n (c # cs) =
     (if is_digit c then read_digits (10 * n + digit_of c) cs else (n, c # cs))"

definition strtoul :: "string \<Rightarrow> 64 word \<times> string" where
  "strtoul str =
     (let s = dropWhile isspace str;
          neg = (s \<noteq> [] \<and> hd s = CHR ''-'');
          s = (if s \<noteq> [] \<and> (hd s = CHR ''-'' \<or> hd s = CHR ''+'') then tl s else s)
      in if s \<noteq> [] \<and> is_digit (hd s) then
           (let (n, rest) = read_digits 0 s
            in ((if n \<ge> 2 ^ 64 then - 1 \<comment> \<open>ULONG_MAX\<close>
                 else if neg then - of_nat n else of_nat n), rest))
         else (0, str))"

lemma is_digit_digit_char [simp]: "d < 10 \<Longrightarrow> is_digit (digit_char d)"
  by (simp add: is_digit_def digit_char_def)

lemma digit_of_digit_char [simp]: "d < 10 \<Longrightarrow> digit_of (digit_char d) = d"
  by (simp add: digit_of_def digit_char_def)

lemma read_digits_append:
  "(\<And>c. c \<in> set xs \<Longrightarrow> is_digit c) \<Longrightarrow>
   read_digits n (xs @ ys) = read_digits (fst (read_digits n xs)) ys"
  by (induction xs arbitrary: n) auto

lemma print_u_digits: "c \<in> set (print_u n) \<Longrightarrow> is_digit c"
proof (induction n rule: print_u.induct)
  case (1 n)
  then show ?case
    by (subst (asm) print_u.simps) (auto split: if_splits)
qed

lemma print_u_not_Nil [simp]: "print_u n \<noteq> []"
  by (subst print_u.simps) simp

lemma read_digits_print_u: "fst (read_digits 0 (print_u n)) = n"
proof (induction n rule: print_u.induct)
  case (1 n)
  show ?case
  proof (cases "n < 10")
    case True
    then show ?thesis by (subst print_u.simps) simp
  next
    case False
    have "fst (read_digits 0 (print_u (n div 10) @ [digit_char (n mod 10)])) = n"
      using 1 [OF False] by (subst read_digits_append) (auto intro: print_u_digits)
    with False show ?thesis by (subst print_u.simps) simp
  qed
qed

lemma is_digit_not_special:
  "is_digit c \<Longrightarrow> \<not> isspace c \<and> c \<noteq> CHR ''-'' \<and> c \<noteq> CHR ''+''"
  by (auto simp: is_digit_def isspace_def)

text \<open>Reading back a printed number leaves the text after it, when that does not start with a
  digit.\<close>

lemma strtoul_print_u:
  assumes "n < 2 ^ 64" and "rest = [] \<or> \<not> is_digit (hd rest)"
  shows "strtoul (print_u n @ rest) = (of_nat n, rest)"
proof -
  obtain c cs where cs: "print_u n = c # cs"
    using print_u_not_Nil [of n] by (cases "print_u n") auto
  then have c: "is_digit c"
    using print_u_digits [of c n] by simp
  have "read_digits 0 (print_u n @ rest) = read_digits n rest"
    by (subst read_digits_append) (auto intro: print_u_digits simp: read_digits_print_u)
  also have "\<dots> = (n, rest)"
    using assms(2) by (cases rest) auto
  finally have "read_digits 0 (c # cs @ rest) = (n, rest)"
    by (simp add: cs)
  then show ?thesis
    using is_digit_not_special [OF c] c assms(1)
    by (simp add: strtoul_def cs Let_def)
qed

lemma length_print_u_le3: "n < 1000 \<Longrightarrow> length (print_u n) \<le> 3"
  by (simp add: print_u.simps)

end
