(* ===== verification/Net_Prefix.thy ===== *)
theory Net_Prefix
  imports Cbgp_Prelude
begin

text \<open>
  IPv4 addresses, prefixes and destinations: \<open>src/net/ip.h\<close> and \<open>src/net/prefix.c\<close>.

  The definitions are the textual conversions in both directions, the comparison functions and
  the containment tests.  The lemmas show that printing and parsing are inverse to each other,
  that the containment tests decide inclusion of the sets of addresses, and that \<open>ip_prefix_cmp\<close>
  is a total order whose equality is equality of these sets.
\<close>

unbundle bit_operations_syntax

section \<open>Data\<close>

record ip_pfx =
  network :: net_addr
  mask :: net_mask

datatype ip_dest =
    NET_DEST_INVALID
  | NET_DEST_ADDRESS net_addr
  | NET_DEST_PREFIX ip_pfx
  | NET_DEST_ANY

definition IP_ADDR_ANY :: net_addr where "IP_ADDR_ANY = 0"
definition MAX_ADDR :: net_addr where "MAX_ADDR = - 1"

definition IPV4 :: "nat \<Rightarrow> nat \<Rightarrow> nat \<Rightarrow> nat \<Rightarrow> net_addr" where
  "IPV4 a b c d = ((of_nat a * 256 + of_nat b) * 256 + of_nat c) * 256 + of_nat d"

definition uint32_to_prefix :: "net_addr \<Rightarrow> net_mask \<Rightarrow> ip_pfx" where
  "uint32_to_prefix addr m = \<lparr>network = addr, mask = m\<rparr>"

section \<open>Conversions to text\<close>

definition ip_address_dump :: "net_addr \<Rightarrow> string" where
  "ip_address_dump addr =
     print_u (unat (drop_bit 24 addr)) @ ''.'' @
     print_u (unat (drop_bit 16 addr AND 255)) @ ''.'' @
     print_u (unat (drop_bit 8 addr AND 255)) @ ''.'' @
     print_u (unat (addr AND 255))"

text \<open>\<open>snprintf\<close> into a buffer of the given size: \<^term>\<open>None\<close> is the result -1 (buffer too small).\<close>

definition snprintf_result :: "string \<Rightarrow> nat \<Rightarrow> string option" where
  "snprintf_result s dst_size = (if length s \<ge> dst_size then None else Some s)"

definition ip_address_to_string :: "net_addr \<Rightarrow> nat \<Rightarrow> string option" where
  "ip_address_to_string addr dst_size = snprintf_result (ip_address_dump addr) dst_size"

definition ip_prefix_dump :: "ip_pfx \<Rightarrow> string" where
  "ip_prefix_dump pfx = ip_address_dump (network pfx) @ ''/'' @ print_u (unat (mask pfx))"

definition ip_prefix_to_string :: "ip_pfx \<Rightarrow> nat \<Rightarrow> string option" where
  "ip_prefix_to_string pfx str_size = snprintf_result (ip_prefix_dump pfx) str_size"

definition ip_dest_dump :: "ip_dest \<Rightarrow> string" where
  "ip_dest_dump dest = (case dest of
      NET_DEST_ADDRESS addr \<Rightarrow> ip_address_dump addr
    | NET_DEST_PREFIX pfx \<Rightarrow> ip_prefix_dump pfx
    | NET_DEST_ANY \<Rightarrow> ''*''
    | NET_DEST_INVALID \<Rightarrow> ''???'')"

section \<open>Parsing\<close>

text \<open>The loops count down the digits that remain.  The result is the address and the text at the
  end pointer; \<^term>\<open>None\<close> is the result -1.\<close>

fun parse_address_digits :: "nat \<Rightarrow> net_addr \<Rightarrow> string \<Rightarrow> (net_addr \<times> string) option" where
  "parse_address_digits 0 addr str = Some (addr, str)"
| "parse_address_digits (Suc n) addr str =
     (let (digit, rest) = strtoul str in
      if rest = str \<or> digit > 255 \<or> (n > 0 \<and> (rest = [] \<or> hd rest \<noteq> CHR ''.'')) then None
      else if n = 0 then Some (push_bit 8 addr + ucast digit, rest)
      else parse_address_digits n (push_bit 8 addr + ucast digit) (tl rest))"

definition ip_string_to_address :: "string \<Rightarrow> (net_addr \<times> string) option" where
  "ip_string_to_address str = parse_address_digits 4 0 str"

text \<open>The first loop of \<open>ip_string_to_prefix\<close>: the digits up to the slash.  The result is the network
  read so far, the number of bytes not read and the text after the slash.\<close>

fun parse_prefix_digits :: "nat \<Rightarrow> net_addr \<Rightarrow> string \<Rightarrow> (net_addr \<times> nat \<times> string) option" where
  "parse_prefix_digits 0 net str = None"
| "parse_prefix_digits (Suc n) net str =
     (let (digit, rest) = strtoul str in
      if digit > 255 \<or> rest = str then None
      else if rest \<noteq> [] \<and> hd rest = CHR ''/'' then Some (push_bit 8 net + ucast digit, n, tl rest)
      else if rest = [] \<or> hd rest \<noteq> CHR ''.'' then None
      else parse_prefix_digits n (push_bit 8 net + ucast digit) (tl rest))"

definition ip_string_to_prefix :: "string \<Rightarrow> (ip_pfx \<times> string) option" where
  "ip_string_to_prefix str =
     (case parse_prefix_digits 4 0 str of
        None \<Rightarrow> None
      | Some (net, num_digits, str) \<Rightarrow>
          (let net = ((push_bit 8) ^^ num_digits) net;
               (digit, rest) = strtoul str
           in if digit > 32 then None
              else Some (\<lparr>network = net, mask = ucast digit\<rparr>, rest)))"

definition ip_string_to_dest :: "string \<Rightarrow> ip_dest \<times> int" where
  "ip_string_to_dest str =
     (if str = ''*'' then (NET_DEST_ANY, 0)
      else case ip_string_to_prefix str of
        Some (pfx, []) \<Rightarrow> (NET_DEST_PREFIX pfx, 0)
      | _ \<Rightarrow> (case ip_string_to_address str of
          Some (addr, []) \<Rightarrow> (NET_DEST_ADDRESS addr, 0)
        | _ \<Rightarrow> (NET_DEST_INVALID, -1)))"

definition ip_prefix_to_dest :: "ip_pfx \<Rightarrow> ip_dest" where
  "ip_prefix_to_dest pfx =
     (if mask pfx = 32 then NET_DEST_ADDRESS (network pfx) else NET_DEST_PREFIX pfx)"

definition ip_address_to_dest :: "net_addr \<Rightarrow> ip_dest" where
  "ip_address_to_dest addr = NET_DEST_ADDRESS addr"

section \<open>Comparison and containment\<close>

definition ip_address_cmp :: "net_addr \<Rightarrow> net_addr \<Rightarrow> int" where
  "ip_address_cmp addr1 addr2 =
     (if addr1 > addr2 then 1 else if addr1 < addr2 then -1 else 0)"

definition ip_address_mask :: "net_mask \<Rightarrow> net_addr option" where
  "ip_address_mask m = do {
     assert_opt (m \<le> 32);
     if m = 0 then Some 0
     else Some (push_bit (32 - unat m) 0xffffffff)
   }"

text \<open>\<open>ip_prefix_cmp\<close> on two distinct objects (on one and the same object it returns 0 at once).\<close>

definition ip_prefix_cmp :: "ip_pfx \<Rightarrow> ip_pfx \<Rightarrow> int option" where
  "ip_prefix_cmp prefix1 prefix2 =
     (if mask prefix1 < mask prefix2 then Some (-1)
      else if mask prefix1 > mask prefix2 then Some 1
      else do {
        m \<leftarrow> ip_address_mask (mask prefix1);
        Some (ip_address_cmp (network prefix1 AND m) (network prefix2 AND m))
      })"

definition ip_address_in_prefix :: "net_addr \<Rightarrow> ip_pfx \<Rightarrow> bool option" where
  "ip_address_in_prefix addr pfx = do {
     assert_opt (mask pfx \<le> 32);
     if mask pfx = 0 then Some True
     else Some (drop_bit (32 - unat (mask pfx)) addr
              = drop_bit (32 - unat (mask pfx)) (network pfx))
   }"

definition ip_prefix_in_prefix :: "ip_pfx \<Rightarrow> ip_pfx \<Rightarrow> bool option" where
  "ip_prefix_in_prefix prefix1 prefix2 = do {
     assert_opt (mask prefix2 \<le> 32);
     if mask prefix2 = 0 then Some True
     else if mask prefix1 < mask prefix2 then Some False
     else Some (drop_bit (32 - unat (mask prefix2)) (network prefix1)
              = drop_bit (32 - unat (mask prefix2)) (network prefix2))
   }"

definition ip_prefix_ge_prefix :: "ip_pfx \<Rightarrow> ip_pfx \<Rightarrow> 8 word \<Rightarrow> bool option" where
  "ip_prefix_ge_prefix prefix1 prefix2 m = do {
     b \<leftarrow> ip_prefix_in_prefix prefix1 prefix2;
     if \<not> b then Some False else Some (mask prefix1 \<ge> m)
   }"

definition ip_prefix_le_prefix :: "ip_pfx \<Rightarrow> ip_pfx \<Rightarrow> 8 word \<Rightarrow> bool option" where
  "ip_prefix_le_prefix prefix1 prefix2 m = do {
     b \<leftarrow> ip_prefix_in_prefix prefix1 prefix2;
     if \<not> b then Some False else Some (mask prefix1 \<le> m)
   }"

definition ip_prefix_mask :: "ip_pfx \<Rightarrow> ip_pfx option" where
  "ip_prefix_mask pfx = do {
     m \<leftarrow> ip_address_mask (mask pfx);
     Some (pfx\<lparr>network := network pfx AND m\<rparr>)
   }"

section \<open>Reference notions\<close>

text \<open>A mask length the program accepts, the addresses a prefix stands for and the normal form of a
  prefix with its host bits cleared.\<close>

definition pfx_wf :: "ip_pfx \<Rightarrow> bool" where
  "pfx_wf p \<longleftrightarrow> mask p \<le> 32"

definition pfx_addrs :: "ip_pfx \<Rightarrow> net_addr set" where
  "pfx_addrs p = {a. \<forall>i < 32. 32 - unat (mask p) \<le> i \<longrightarrow> bit a i = bit (network p) i}"

definition pfx_norm :: "ip_pfx \<Rightarrow> ip_pfx" where
  "pfx_norm p = p\<lparr>network := push_bit (32 - unat (mask p)) (drop_bit (32 - unat (mask p)) (network p))\<rparr>"

section \<open>Containment and comparison\<close>

lemma unat_le_32: "pfx_wf p \<longleftrightarrow> unat (mask p) \<le> 32"
  by (simp add: pfx_wf_def word_le_nat_alt)

lemma drop_bit_eq_iff_bits:
  "drop_bit k a = drop_bit k b \<longleftrightarrow> (\<forall>i < 32. k \<le> i \<longrightarrow> bit a i = bit b i)"
  for a b :: "32 word"
proof
  assume eq: "drop_bit k a = drop_bit k b"
  show "\<forall>i < 32. k \<le> i \<longrightarrow> bit a i = bit b i"
  proof (intro allI impI)
    fix i assume "i < 32" "k \<le> i"
    then show "bit a i = bit b i"
      using arg_cong [OF eq, of "\<lambda>w. bit w (i - k)"] by (simp add: bit_drop_bit_eq)
  qed
next
  assume *: "\<forall>i < 32. k \<le> i \<longrightarrow> bit a i = bit b i"
  show "drop_bit k a = drop_bit k b"
  proof (rule bit_word_eqI)
    fix n
    show "bit (drop_bit k a) n = bit (drop_bit k b) n"
      using * [rule_format, of "k + n"] bit_imp_le_length [of a "k + n"]
        bit_imp_le_length [of b "k + n"] by (auto simp: bit_drop_bit_eq)
  qed
qed

lemma push_drop_eq_iff:
  "push_bit k (drop_bit k a) = push_bit k (drop_bit k b) \<longleftrightarrow> drop_bit k a = drop_bit k b"
  for a b :: "32 word"
proof
  assume eq: "push_bit k (drop_bit k a) = push_bit k (drop_bit k b)"
  show "drop_bit k a = drop_bit k b"
    unfolding drop_bit_eq_iff_bits
  proof (intro allI impI)
    fix i assume "i < 32" "k \<le> i"
    then show "bit a i = bit b i"
      using arg_cong [OF eq, of "\<lambda>w. bit w i"] by (simp add: bit_drop_bit_eq bit_push_bit_iff)
  qed
qed simp

lemma and_ip_address_mask:
  "m \<le> 32 \<Longrightarrow> ip_address_mask m = Some w \<Longrightarrow>
     a AND w = push_bit (32 - unat m) (drop_bit (32 - unat m) a)"
proof -
  assume m: "m \<le> 32" and w: "ip_address_mask m = Some w"
  have bit_w: "bit w i \<longleftrightarrow> i < 32 \<and> 32 - unat m \<le> i" for i
  proof -
    have ones: "(0xffffffff :: 32 word) = - 1" by simp
    show ?thesis
      using m w by (auto simp: ip_address_mask_def ones bit_not_iff bit_mask_iff split: if_splits)
  qed
  show ?thesis
  proof (rule bit_word_eqI)
    fix n assume "n < LENGTH(32)"
    then show "bit (a AND w) n = bit (push_bit (32 - unat m) (drop_bit (32 - unat m) a)) n"
      by (cases "32 - unat m \<le> n")
        (simp_all add: bit_and_iff bit_w bit_push_bit_iff bit_drop_bit_eq)
  qed
qed

lemma ip_address_mask_Some: "m \<le> 32 \<Longrightarrow> \<exists>w. ip_address_mask m = Some w"
  by (simp add: ip_address_mask_def assert_opt_def)

lemma ip_address_in_prefix_iff:
  "pfx_wf p \<Longrightarrow> ip_address_in_prefix a p = Some (a \<in> pfx_addrs p)"
  by (auto simp: ip_address_in_prefix_def pfx_addrs_def pfx_wf_def drop_bit_eq_iff_bits assert_opt_def)

lemma network_in_pfx_addrs [simp]: "network p \<in> pfx_addrs p"
  by (simp add: pfx_addrs_def)

lemma pfx_addrs_subset_iff:
  assumes "pfx_wf p" "pfx_wf q"
  shows "pfx_addrs p \<subseteq> pfx_addrs q \<longleftrightarrow>
    mask q \<le> mask p \<and> network p \<in> pfx_addrs q" (is "?l = ?r")
proof
  assume sub: ?l
  have net: "network p \<in> pfx_addrs q" using sub by auto
  have "mask q \<le> mask p"
  proof (rule ccontr)
    assume "\<not> mask q \<le> mask p"
    then have less: "unat (mask p) < unat (mask q)"
      by (simp add: word_less_nat_alt word_le_nat_alt)
    define i where "i = 32 - unat (mask q)"
    define a where "a = flip_bit i (network p)"
    from less assms have i: "i < 32" "i < 32 - unat (mask p)"
      by (auto simp: i_def unat_le_32)
    have "a \<in> pfx_addrs p"
      using i by (auto simp: pfx_addrs_def a_def bit_flip_bit_iff)
    with sub have "a \<in> pfx_addrs q" by blast
    with i(1) have "bit a i = bit (network q) i" "bit (network p) i = bit (network q) i"
      using net by (auto simp: pfx_addrs_def i_def)
    then show False using i(1) by (simp add: a_def bit_flip_bit_iff)
  qed
  with net show ?r by simp
next
  assume ?r
  then show ?l
    by (auto simp: pfx_addrs_def word_le_nat_alt)
qed

lemma ip_prefix_in_prefix_iff:
  assumes "pfx_wf p" "pfx_wf q"
  shows "ip_prefix_in_prefix p q = Some (pfx_addrs p \<subseteq> pfx_addrs q)"
  using assms unfolding pfx_addrs_subset_iff [OF assms]
  by (auto simp: ip_prefix_in_prefix_def pfx_wf_def assert_opt_def pfx_addrs_def drop_bit_eq_iff_bits not_less)

lemma pfx_norm_eq_iff:
  "pfx_norm p = pfx_norm q \<longleftrightarrow> mask p = mask q \<and> network p \<in> pfx_addrs q"
  by (cases p; cases q) (auto simp: pfx_norm_def pfx_addrs_def push_drop_eq_iff drop_bit_eq_iff_bits)

lemma pfx_norm_eq_iff_addrs:
  assumes "pfx_wf p" "pfx_wf q"
  shows "pfx_norm p = pfx_norm q \<longleftrightarrow> pfx_addrs p = pfx_addrs q"
  unfolding set_eq_subset pfx_addrs_subset_iff [OF assms] pfx_addrs_subset_iff [OF assms(2,1)]
    pfx_norm_eq_iff
  by (auto simp: pfx_addrs_def)

lemma ip_prefix_cmp_wf:
  assumes "pfx_wf p" "pfx_wf q"
  shows "ip_prefix_cmp p q = Some
    (if mask p < mask q then - 1 else if mask p > mask q then 1
     else ip_address_cmp (network (pfx_norm p)) (network (pfx_norm q)))"
proof (cases "mask p = mask q")
  case True
  have "mask p \<le> 32" using assms by (simp add: pfx_wf_def)
  moreover from this obtain w where "ip_address_mask (mask p) = Some w"
    using ip_address_mask_Some by blast
  ultimately show ?thesis
    using True and_ip_address_mask [of "mask p" w] by (simp add: ip_prefix_cmp_def pfx_norm_def)
qed (auto simp: ip_prefix_cmp_def)

lemma ip_address_cmp_0 [simp]: "ip_address_cmp a b = 0 \<longleftrightarrow> a = b"
  by (auto simp: ip_address_cmp_def)

lemma pfx_norm_simps [simp]: "mask (pfx_norm p) = mask p" "pfx_wf (pfx_norm p) = pfx_wf p"
  by (simp_all add: pfx_norm_def pfx_wf_def)

lemma ip_prefix_cmp_0_iff:
  assumes "pfx_wf p" "pfx_wf q"
  shows "ip_prefix_cmp p q = Some 0 \<longleftrightarrow> pfx_norm p = pfx_norm q"
proof -
  have "pfx_norm p = pfx_norm q \<longleftrightarrow>
     mask p = mask q \<and> network (pfx_norm p) = network (pfx_norm q)"
    by (metis ip_pfx.equality old.unit.exhaust pfx_norm_simps(1))
  then show ?thesis
    by (auto simp: ip_prefix_cmp_wf [OF assms])
qed

section \<open>Printing and parsing\<close>

lemma and_255_less: "unat (w AND 255) < 256" for w :: "32 word"
proof -
  have "w AND 255 \<le> 255" by (simp add: word_and_le1)
  then show ?thesis by (simp add: word_le_nat_alt)
qed

lemma address_bytes:
  "push_bit 8 (push_bit 8 (push_bit 8 (drop_bit 24 a) + (drop_bit 16 a AND 255))
     + (drop_bit 8 a AND 255)) + (a AND 255) = (a :: 32 word)"
proof -
  have m: "(255 :: 32 word) = Bit_Operations.mask 8" by (simp add: mask_eq_exp_minus_1)
  have split: "push_bit 8 (drop_bit 8 b) + (b AND 255) = b" for b :: "32 word"
    unfolding m by (simp add: take_bit_eq_mask [symmetric] bits_ident)
  show ?thesis
    using split [of a] split [of "drop_bit 8 a"] split [of "drop_bit 16 a"]
    by (simp add: drop_bit_drop_bit)
qed

lemma drop_24_less: "unat (drop_bit 24 a) < 256" for a :: "32 word"
proof -
  have "unat a < 2 ^ 32" using unsigned_less [of a] by simp
  then show ?thesis by (simp add: drop_bit_eq_div unat_div)
qed

lemma strtoul_byte:
  assumes "unat b < 256" and "rest = [] \<or> \<not> is_digit (hd rest)"
  shows "strtoul (print_u (unat (b :: 32 word)) @ rest) = (ucast b, rest)"
  using strtoul_print_u [of "unat b" rest] assms by simp

lemma ucast_byte_le: "unat (b :: 32 word) < 256 \<Longrightarrow> (ucast b :: 64 word) \<le> 255"
  using take_bit_nat_less_eq_self [of 64 "unat b"]
  by (simp add: word_le_nat_alt unsigned_ucast_eq del: take_bit_nat_less_eq_self)

lemma ucast_ucast_id [simp]: "ucast (ucast (b :: 32 word) :: 64 word) = b"
  by (intro bit_word_eqI) (auto simp: bit_ucast_iff)

lemma not_is_digit_sep [simp]: "\<not> is_digit CHR ''.''" "\<not> is_digit CHR ''/''"
  by (simp_all add: is_digit_def)

lemma print_u_append_neq [simp]: "rest \<noteq> print_u n @ rest"
  by simp

lemma parse_address_last:
  assumes "unat b < 256" and "rest = [] \<or> \<not> is_digit (hd rest)"
  shows "parse_address_digits (Suc 0) net (print_u (unat (b :: 32 word)) @ rest)
       = Some (push_bit 8 net + b, rest)"
  using assms ucast_byte_le [of b] by (auto simp: strtoul_byte)

lemma parse_address_step:
  assumes "unat b < 256"
  shows "parse_address_digits (Suc (Suc n)) net (print_u (unat (b :: 32 word)) @ CHR ''.'' # rest)
       = parse_address_digits (Suc n) (push_bit 8 net + b) rest"
  using assms ucast_byte_le [of b] by (auto simp: strtoul_byte not_less)

lemma parse_prefix_last:
  assumes "unat b < 256"
  shows "parse_prefix_digits (Suc n) net (print_u (unat (b :: 32 word)) @ CHR ''/'' # rest)
       = Some (push_bit 8 net + b, n, rest)"
  using assms ucast_byte_le [of b] by (auto simp: strtoul_byte not_less)

lemma parse_prefix_step:
  assumes "unat b < 256"
  shows "parse_prefix_digits (Suc n) net (print_u (unat (b :: 32 word)) @ CHR ''.'' # rest)
       = parse_prefix_digits n (push_bit 8 net + b) rest"
  using assms ucast_byte_le [of b] by (auto simp: strtoul_byte not_less)

lemma four_Suc: "(4 :: nat) = Suc (Suc (Suc (Suc 0)))"
  by simp

lemma ip_string_to_address_dump:
  assumes "rest = [] \<or> \<not> is_digit (hd rest)"
  shows "ip_string_to_address (ip_address_dump a @ rest) = Some (a, rest)"
  unfolding ip_string_to_address_def ip_address_dump_def four_Suc
  by (simp add: parse_address_step parse_address_last assms drop_24_less
      and_255_less address_bytes del: parse_address_digits.simps)

lemma ip_string_to_prefix_dump:
  assumes "pfx_wf p" and "rest = [] \<or> \<not> is_digit (hd rest)"
  shows "ip_string_to_prefix (ip_prefix_dump p @ rest) = Some (p, rest)"
proof -
  have "unat (mask p) \<le> 32" using assms(1) by (simp add: unat_le_32)
  then have "strtoul (print_u (unat (mask p)) @ rest) = (ucast (mask p), rest)"
    using strtoul_print_u [of "unat (mask p)" rest] assms(2) by simp
  moreover have "(ucast (mask p) :: 64 word) \<le> 32"
    using \<open>unat (mask p) \<le> 32\<close> take_bit_nat_less_eq_self [of 64 "unat (mask p)"]
    by (simp add: word_le_nat_alt unsigned_ucast_eq del: take_bit_nat_less_eq_self)
  moreover have "ucast (ucast (mask p) :: 64 word) = mask p"
    by (intro bit_word_eqI) (auto simp: bit_ucast_iff)
  moreover have "parse_prefix_digits 4 0 (ip_prefix_dump p @ rest) =
      Some (network p, 0, print_u (unat (mask p)) @ rest)"
    unfolding ip_prefix_dump_def ip_address_dump_def four_Suc
    by (simp add: parse_prefix_step parse_prefix_last drop_24_less
      and_255_less address_bytes del: parse_prefix_digits.simps)
  ultimately show ?thesis
    by (simp add: ip_string_to_prefix_def not_less)
qed

lemma ip_string_to_prefix_star: "ip_string_to_prefix ''*'' = None"
  by code_simp

lemma ip_string_to_prefix_address: "ip_string_to_prefix (ip_address_dump a) = None"
proof -
  have last: "parse_prefix_digits (Suc n) net (print_u (unat (b :: 32 word))) = None" if "unat b < 256" for n net b
    using strtoul_byte [OF that, of "[]"] by simp
  show ?thesis
    unfolding ip_string_to_prefix_def ip_address_dump_def four_Suc
    by (simp add: parse_prefix_step last drop_24_less and_255_less del: parse_prefix_digits.simps)
qed

text \<open>A destination the parsers can produce has a legal mask length.\<close>

definition dest_wf :: "ip_dest \<Rightarrow> bool" where
  "dest_wf d \<longleftrightarrow> (case d of NET_DEST_PREFIX p \<Rightarrow> pfx_wf p | _ \<Rightarrow> True)"

lemma ip_string_to_prefix_wf: "ip_string_to_prefix str = Some (p, rest) \<Longrightarrow> pfx_wf p"
proof -
  have "(ucast (d :: 64 word) :: 8 word) \<le> 32" if "\<not> d > 32" for d
  proof -
    have "unat d \<le> 32" using that by (simp add: word_less_nat_alt)
    then show ?thesis by (simp add: word_le_nat_alt unsigned_ucast_eq take_bit_nat_eq_self)
  qed
  then show "ip_string_to_prefix str = Some (p, rest) \<Longrightarrow> pfx_wf p"
    by (auto simp: ip_string_to_prefix_def pfx_wf_def Let_def split: option.splits prod.splits if_splits)
qed

lemma ip_string_to_dest_wf: "dest_wf (fst (ip_string_to_dest str))"
  using ip_string_to_prefix_wf [of str]
  by (auto simp: ip_string_to_dest_def dest_wf_def split: option.splits list.splits)

lemma ip_string_to_dest_dump:
  assumes "dest_wf d"
  shows "ip_string_to_dest (ip_dest_dump d) = (d, if d = NET_DEST_INVALID then -1 else 0)"
proof (cases d)
  case NET_DEST_INVALID
  have "ip_string_to_dest ''???'' = (NET_DEST_INVALID, -1)" by code_simp
  with NET_DEST_INVALID show ?thesis by (simp add: ip_dest_dump_def)
next
  case (NET_DEST_ADDRESS a)
  have parse: "ip_string_to_address (ip_address_dump a) = Some (a, [])"
    using ip_string_to_address_dump [of "[]" a] by simp
  moreover have "ip_string_to_address ''*'' = None" by code_simp
  ultimately have "ip_address_dump a \<noteq> ''*''" by auto
  with parse NET_DEST_ADDRESS show ?thesis
    by (simp add: ip_string_to_dest_def ip_dest_dump_def ip_string_to_prefix_address)
next
  case (NET_DEST_PREFIX p)
  then have parse: "ip_string_to_prefix (ip_prefix_dump p) = Some (p, [])"
    using ip_string_to_prefix_dump [of p "[]"] assms by (simp add: dest_wf_def)
  then have "ip_prefix_dump p \<noteq> ''*''"
    using ip_string_to_prefix_star by auto
  with parse NET_DEST_PREFIX show ?thesis
    by (simp add: ip_string_to_dest_def ip_dest_dump_def)
qed (simp add: ip_string_to_dest_def ip_dest_dump_def)

lemma length_ip_address_dump: "length (ip_address_dump a) \<le> 15"
  using length_print_u_le3 [of "unat (drop_bit 24 a)"]
    length_print_u_le3 [of "unat (drop_bit 16 a AND 255)"]
    length_print_u_le3 [of "unat (drop_bit 8 a AND 255)"]
    length_print_u_le3 [of "unat (a AND 255)"]
    drop_24_less [of a] and_255_less [of a] and_255_less [of "drop_bit 8 a"]
    and_255_less [of "drop_bit 16 a"]
  by (simp add: ip_address_dump_def)

section \<open>Properties\<close>

text \<open>\<open>ip_prefix_in_prefix\<close> and \<open>ip_address_in_prefix\<close> decide inclusion and membership of the sets of
  addresses that the prefixes stand for, whatever the host bits of the two network fields.\<close>

theorem prefix_containment_correct:
  assumes "pfx_wf p" "pfx_wf q"
  shows "ip_address_in_prefix a p = Some (a \<in> pfx_addrs p)
    \<and> ip_prefix_in_prefix p q = Some (pfx_addrs p \<subseteq> pfx_addrs q)"
  using assms by (simp add: ip_address_in_prefix_iff ip_prefix_in_prefix_iff)

theorem prefix_containment_correct_witness:
  "ip_prefix_in_prefix \<lparr>network = IPV4 10 1 2 3, mask = 24\<rparr> \<lparr>network = IPV4 10 1 9 9, mask = 16\<rparr>
     = Some (pfx_addrs \<lparr>network = IPV4 10 1 2 3, mask = 24\<rparr>
             \<subseteq> pfx_addrs \<lparr>network = IPV4 10 1 9 9, mask = 16\<rparr>)"
  by (rule conjunct2 [OF prefix_containment_correct]) (simp_all add: pfx_wf_def)

text \<open>\<open>ip_prefix_cmp\<close> is a total order on prefixes with legal mask lengths: it never stops the
  process, it is antisymmetric and transitive, and it answers 0 exactly when the two prefixes stand
  for the same set of addresses.\<close>

theorem ip_prefix_cmp_total_order:
  assumes "pfx_wf p" "pfx_wf q" "pfx_wf r"
  shows "(ip_prefix_cmp p q = Some 0 \<longleftrightarrow> pfx_addrs p = pfx_addrs q)
    \<and> ip_prefix_cmp p q = map_option uminus (ip_prefix_cmp q p)
    \<and> ip_prefix_cmp p q \<noteq> None
    \<and> (ip_prefix_cmp p q = Some (-1) \<longrightarrow> ip_prefix_cmp q r = Some (-1) \<longrightarrow>
          ip_prefix_cmp p r = Some (-1))"
proof (intro conjI impI)
  show "ip_prefix_cmp p q = Some 0 \<longleftrightarrow> pfx_addrs p = pfx_addrs q"
    using assms by (simp add: ip_prefix_cmp_0_iff pfx_norm_eq_iff_addrs)
  show "ip_prefix_cmp p q = map_option uminus (ip_prefix_cmp q p)" "ip_prefix_cmp p q \<noteq> None"
    using assms by (auto simp: ip_prefix_cmp_wf ip_address_cmp_def)
  assume "ip_prefix_cmp p q = Some (-1)" "ip_prefix_cmp q r = Some (-1)"
  then show "ip_prefix_cmp p r = Some (-1)"
    using assms by (auto simp: ip_prefix_cmp_wf ip_address_cmp_def split: if_splits)
qed

theorem ip_prefix_cmp_total_order_witness:
  "ip_prefix_cmp \<lparr>network = 0x0a000000, mask = 8\<rparr> \<lparr>network = 0x0b000000, mask = 16\<rparr> = Some (-1)
   \<and> ip_prefix_cmp \<lparr>network = 0x0b000000, mask = 16\<rparr> \<lparr>network = 0x0b010000, mask = 16\<rparr> = Some (-1)
   \<and> ip_prefix_cmp \<lparr>network = 0x0a000000, mask = 8\<rparr> \<lparr>network = 0x0b010000, mask = 16\<rparr> = Some (-1)"
proof -
  have 1: "ip_prefix_cmp \<lparr>network = 0x0a000000, mask = 8\<rparr> \<lparr>network = 0x0b000000, mask = 16\<rparr> = Some (-1)"
    by (simp add: ip_prefix_cmp_def)
  have 2: "ip_prefix_cmp \<lparr>network = 0x0b000000, mask = 16\<rparr> \<lparr>network = 0x0b010000, mask = 16\<rparr> = Some (-1)"
    by code_simp
  show ?thesis
    using 1 2 ip_prefix_cmp_total_order [of "\<lparr>network = 0x0a000000, mask = 8\<rparr>"
        "\<lparr>network = 0x0b000000, mask = 16\<rparr>" "\<lparr>network = 0x0b010000, mask = 16\<rparr>"]
    by (simp add: pfx_wf_def)
qed

text \<open>C40: Parsing reverses printing: a printed address, or a printed prefix with a legal mask length, followed by any text that does
  not start with a digit parses back to the same value and leaves that text, and a printed destination of any kind (an address, a
  prefix, any or invalid) is recognised as that destination.  Printing does not reverse parsing, since the parsers accept several spellings,
  but the result of the parser of destinations is always legal, so that its printed form is recognised as the same destination.\<close>

theorem address_prefix_roundtrip:
  assumes "pfx_wf p" and "dest_wf d" and "rest = [] \<or> \<not> is_digit (hd rest)"
  shows "ip_string_to_address (ip_address_dump a @ rest) = Some (a, rest)
    \<and> ip_string_to_prefix (ip_prefix_dump p @ rest) = Some (p, rest)
    \<and> ip_string_to_dest (ip_dest_dump d) = (d, if d = NET_DEST_INVALID then -1 else 0)
    \<and> fst (ip_string_to_dest (ip_dest_dump (fst (ip_string_to_dest str)))) = fst (ip_string_to_dest str)
    \<and> ip_address_to_string a 16 = Some (ip_address_dump a)"
  using assms length_ip_address_dump [of a]
  by (simp add: ip_string_to_address_dump ip_string_to_prefix_dump ip_string_to_dest_dump ip_string_to_dest_wf
      ip_address_to_string_def snprintf_result_def)

theorem address_prefix_roundtrip_witness:
  "ip_string_to_prefix (ip_prefix_dump \<lparr>network = 0x0a000000, mask = 8\<rparr> @ '' |'')
     = Some (\<lparr>network = 0x0a000000, mask = 8\<rparr>, '' |'')
   \<and> ip_string_to_dest (ip_dest_dump (NET_DEST_ADDRESS 0x0a000001)) = (NET_DEST_ADDRESS 0x0a000001, 0)"
  using address_prefix_roundtrip [of "\<lparr>network = 0x0a000000, mask = 8\<rparr>" "NET_DEST_ADDRESS 0x0a000001" "'' |''"]
  by (simp add: pfx_wf_def dest_wf_def is_digit_def)

end
