(* ===== verification/Bgp_Path.thy ===== *)
theory Bgp_Path
  imports Cbgp_Prelude
begin

text \<open>
  AS-Paths: \<open>src/bgp/attr/path_segment.c\<close>, \<open>src/bgp/attr/path.c\<close> and \<open>str2asn\<close> of \<open>src/net/util.c\<close>.

  A segment is a record of its type and its AS numbers (the array \<open>asns\<close> whose size is the 8-bit
  field \<open>length\<close>); a path is the list of its segments, and the pointer NULL is \<^term>\<open>None\<close>.  The
  last segment holds the AS numbers prepended last.  Comparison functions are modelled on distinct
  objects (on one and the same object they answer "equal" at once).  The tokenizer and the number
  parser of libgds are parameters of the parsing functions.
\<close>

unbundle bit_operations_syntax

section \<open>Data\<close>

datatype seg_type =
    AS_PATH_SEGMENT_SET
  | AS_PATH_SEGMENT_SEQUENCE
  | AS_PATH_SEGMENT_CONFED_SET
  | AS_PATH_SEGMENT_CONFED_SEQUENCE

record bgp_path_seg =
  seg_type :: seg_type
  asns :: "asn list"

type_synonym bgp_path = "bgp_path_seg list"

definition MAX_PATH_SEQUENCE_LENGTH :: nat where "MAX_PATH_SEQUENCE_LENGTH = 255"

definition MAX_AS :: nat where "MAX_AS = 65536"

definition seg_type_value :: "seg_type \<Rightarrow> 32 word" where
  "seg_type_value t = (case t of
      AS_PATH_SEGMENT_SET \<Rightarrow> 1
    | AS_PATH_SEGMENT_SEQUENCE \<Rightarrow> 2
    | AS_PATH_SEGMENT_CONFED_SET \<Rightarrow> 3
    | AS_PATH_SEGMENT_CONFED_SEQUENCE \<Rightarrow> 4)"

section \<open>Segments\<close>

definition path_segment_copy :: "bgp_path_seg \<Rightarrow> bgp_path_seg" where
  "path_segment_copy seg = \<lparr>seg_type = seg_type seg, asns = asns seg\<rparr>"

text \<open>A buffer is the text written so far and the room left.  \<open>put\<close> is one \<open>snprintf\<close> followed by the
  test \<open>iWritten >= dst_size\<close>; \<^term>\<open>None\<close> is the result -1.\<close>

type_synonym buffer = "string \<times> nat"

definition put :: "string \<Rightarrow> buffer \<Rightarrow> buffer option" where
  "put s b = (if length s \<ge> snd b then None else Some (fst b @ s, snd b - length s))"

fun put_asns :: "bool \<Rightarrow> asn list \<Rightarrow> buffer \<Rightarrow> buffer option" where
  "put_asns first [] b = Some b"
| "put_asns first (a # as) b = do {
     b \<leftarrow> put ((if first then '''' else '' '') @ print_u (unat a)) b;
     put_asns False as b
   }"

text \<open>The outer option is the process that stops: a failed \<open>assert\<close>, the out-of-range read
  \<open>asns[index-1]\<close> of the forward loop at index 0, and the underflow of \<open>dst_size\<close> that the test
  \<open>iWritten == dst_size\<close> lets through for an empty buffer.  The inner one is the result -1.\<close>

definition path_segment_to_string ::
    "bgp_path_seg \<Rightarrow> bool \<Rightarrow> buffer \<Rightarrow> buffer option option" where
  "path_segment_to_string seg reverse b = do {
     assert_opt (length (asns seg) > 0);
     let delim = (seg_type seg \<noteq> AS_PATH_SEGMENT_SEQUENCE) in
     if delim \<and> snd b = 0 then None
     else if delim \<and> snd b = 1 then Some None
     else
       (let b = (if delim then (fst b @ ''}'', snd b - 1) else b) in
        if \<not> reverse then None
        else Some (do {
          b \<leftarrow> put_asns True (rev (asns seg)) b;
          if delim then put ''}'' b else Some b
        }))
   }"

text \<open>\<open>str2asn\<close>, over the number parser of libgds.\<close>

definition str2asn :: "(string \<Rightarrow> nat option) \<Rightarrow> string \<Rightarrow> asn option" where
  "str2asn str_as_uint str =
     (case str_as_uint str of
        None \<Rightarrow> None
      | Some u_asn \<Rightarrow> if u_asn > MAX_AS then None else Some (of_nat u_asn))"

definition path_segment_add :: "bgp_path_seg \<Rightarrow> asn \<Rightarrow> int \<times> bgp_path_seg" where
  "path_segment_add seg a =
     (if length (asns seg) \<ge> MAX_PATH_SEQUENCE_LENGTH then (-1, seg)
      else (0, seg\<lparr>asns := asns seg @ [a]\<rparr>))"

text \<open>The loop of \<open>path_segment_from_string\<close> runs over the tokens from the last to the first.\<close>

fun seg_add_tokens ::
    "(string \<Rightarrow> nat option) \<Rightarrow> string list \<Rightarrow> bgp_path_seg \<Rightarrow> bgp_path_seg option" where
  "seg_add_tokens num [] seg = Some seg"
| "seg_add_tokens num (t # ts) seg =
     (case str2asn num t of
        None \<Rightarrow> None
      | Some a \<Rightarrow> seg_add_tokens num ts (snd (path_segment_add seg a)))"

definition path_segment_from_string ::
    "(string \<Rightarrow> string list option) \<Rightarrow> (string \<Rightarrow> nat option) \<Rightarrow> string \<Rightarrow> bgp_path_seg option" where
  "path_segment_from_string tokenizer_run str_as_uint seg_str =
     (case tokenizer_run seg_str of
        None \<Rightarrow> None
      | Some tokens \<Rightarrow>
          seg_add_tokens str_as_uint (rev tokens) \<lparr>seg_type = AS_PATH_SEGMENT_SET, asns = []\<rparr>)"

fun join_asns :: "asn list \<Rightarrow> string" where
  "join_asns [] = []"
| "join_asns [a] = print_u (unat a)"
| "join_asns (a # b # as) = print_u (unat a) @ '' '' @ join_asns (b # as)"

definition path_segment_dump :: "bgp_path_seg \<Rightarrow> bool \<Rightarrow> string option" where
  "path_segment_dump seg reverse =
     (let content = join_asns (if reverse then rev (asns seg) else asns seg) in
      case seg_type seg of
        AS_PATH_SEGMENT_SEQUENCE \<Rightarrow> Some content
      | AS_PATH_SEGMENT_SET \<Rightarrow> Some (''{'' @ content @ ''}'')
      | _ \<Rightarrow> None)"

definition path_segment_contains :: "bgp_path_seg \<Rightarrow> asn \<Rightarrow> int" where
  "path_segment_contains seg a = (if list_ex (\<lambda>b. b = a) (asns seg) then 1 else 0)"

definition path_segment_equals :: "bgp_path_seg \<Rightarrow> bgp_path_seg \<Rightarrow> bool option" where
  "path_segment_equals seg1 seg2 =
     (if seg_type seg1 \<noteq> seg_type seg2 \<or> length (asns seg1) \<noteq> length (asns seg2) then Some False
      else case seg_type seg1 of
        AS_PATH_SEGMENT_SEQUENCE \<Rightarrow> Some (asns seg1 = asns seg2)
      | AS_PATH_SEGMENT_SET \<Rightarrow>
          Some (\<not> list_ex (\<lambda>a. path_segment_contains seg2 a < -1) (asns seg1))
      | _ \<Rightarrow> None)"

fun asns_cmp :: "asn list \<Rightarrow> asn list \<Rightarrow> int" where
  "asns_cmp (a # as) (b # bs) =
     (if a < b then -1 else if a > b then 1 else asns_cmp as bs)"
| "asns_cmp _ _ = 0"

definition path_segment_cmp :: "bgp_path_seg \<Rightarrow> bgp_path_seg \<Rightarrow> int" where
  "path_segment_cmp seg1 seg2 =
     (if length (asns seg1) < length (asns seg2) then -1
      else if length (asns seg1) > length (asns seg2) then 1
      else asns_cmp (asns seg1) (asns seg2))"

text \<open>The loop of \<open>path_segment_remove_private\<close>: \<open>index\<close> advances over a kept number and stays over a
  removed one.\<close>

function remove_private_from :: "nat \<Rightarrow> asn list \<Rightarrow> asn list" where
  "remove_private_from index as =
     (if index < length as then
        (if as ! index \<ge> 64512 then remove_private_from index (remove_at index as)
         else remove_private_from (Suc index) as)
      else as)"
  by auto
termination
  by (relation "measure (\<lambda>(index, as). length as - index)")
    (auto simp: length_remove_at)

declare remove_private_from.simps [simp del]

definition path_segment_remove_private :: "bgp_path_seg \<Rightarrow> bgp_path_seg option" where
  "path_segment_remove_private seg =
     (let as = remove_private_from 0 (asns seg);
          resize = (length as \<noteq> length (asns seg))
      in if resize \<and> as = [] then None else Some (seg\<lparr>asns := as\<rparr>))"

section \<open>Paths\<close>

definition path_num_segments :: "bgp_path option \<Rightarrow> nat" where
  "path_num_segments path = (case path of None \<Rightarrow> 0 | Some segs \<Rightarrow> length segs)"

definition path_add_segment :: "bgp_path \<Rightarrow> bgp_path_seg \<Rightarrow> bgp_path" where
  "path_add_segment path seg = path @ [seg]"

definition path_copy :: "bgp_path option \<Rightarrow> bgp_path option" where
  "path_copy path =
     (case path of
        None \<Rightarrow> None
      | Some segs \<Rightarrow> Some (foldl path_add_segment [] (map path_segment_copy segs)))"

fun segs_length :: "bgp_path \<Rightarrow> nat option" where
  "segs_length [] = Some 0"
| "segs_length (seg # segs) =
     (case seg_type seg of
        AS_PATH_SEGMENT_SEQUENCE \<Rightarrow> map_option (\<lambda>n. length (asns seg) + n) (segs_length segs)
      | AS_PATH_SEGMENT_SET \<Rightarrow> map_option Suc (segs_length segs)
      | _ \<Rightarrow> None)"

definition path_length :: "bgp_path option \<Rightarrow> nat option" where
  "path_length path = (case path of None \<Rightarrow> Some 0 | Some segs \<Rightarrow> segs_length segs)"

text \<open>The first component is the value returned, the second the path afterwards.\<close>

definition path_append :: "bgp_path \<Rightarrow> asn \<Rightarrow> (int \<times> bgp_path) option" where
  "path_append path a =
     (let n = path_num_segments (Some path);
          new_seg = \<lparr>seg_type = AS_PATH_SEGMENT_SEQUENCE, asns = [a]\<rparr>
      in if n \<le> 0 then Some (int n, path_add_segment path new_seg)
         else case seg_type (path ! (n - 1)) of
           AS_PATH_SEGMENT_SEQUENCE \<Rightarrow>
             (let (r, seg) = path_segment_add (path ! (n - 1)) a in
              if r \<noteq> 0 then Some (-1, path)
              else Some (int n, path[n - 1 := seg]))
         | AS_PATH_SEGMENT_SET \<Rightarrow> Some (int n + 1, path_add_segment path new_seg)
         | _ \<Rightarrow> None)"

definition path_max_value :: "bgp_path option" where
  "path_max_value = map_option snd (path_append [] 65535)"

definition path_contains :: "bgp_path option \<Rightarrow> asn \<Rightarrow> bool" where
  "path_contains path a =
     (case path of None \<Rightarrow> False
      | Some segs \<Rightarrow> list_ex (\<lambda>seg. path_segment_contains seg a \<noteq> 0) segs)"

text \<open>\<open>path_at\<close>: the inner loop over a sequence has the condition \<open>seg_index\<close>, which is 0 at once.\<close>

fun path_at_loop :: "bgp_path \<Rightarrow> int \<Rightarrow> int option" where
  "path_at_loop [] pos = Some (-1)"
| "path_at_loop (seg # segs) pos =
     (if pos > 0 then
        (case seg_type seg of
           AS_PATH_SEGMENT_SEQUENCE \<Rightarrow> path_at_loop segs pos
         | AS_PATH_SEGMENT_SET \<Rightarrow>
             if pos = 0 then Some (uint (hd (asns seg))) else path_at_loop segs (pos + 1)
         | _ \<Rightarrow> None)
      else Some (-1))"

definition path_at :: "bgp_path option \<Rightarrow> int \<Rightarrow> int option" where
  "path_at path pos = path_at_loop (case path of None \<Rightarrow> [] | Some segs \<Rightarrow> segs) pos"

definition path_last_as :: "bgp_path option \<Rightarrow> int option" where
  "path_last_as path = do {
     n \<leftarrow> path_length path;
     if n \<le> 0 then Some (-1)
     else do {
       segs \<leftarrow> path;
       assert_opt (segs \<noteq> []);
       let seg = last segs in do {
         assert_opt (seg_type seg = AS_PATH_SEGMENT_SEQUENCE);
         assert_opt (length (asns seg) > 0);
         Some (uint (last (asns seg)))
       }
     }
   }"

definition path_first_as :: "bgp_path option \<Rightarrow> int option" where
  "path_first_as path = do {
     n \<leftarrow> path_length path;
     if n \<le> 0 then Some (-1)
     else do {
       segs \<leftarrow> path;
       assert_opt (segs \<noteq> []);
       let seg = hd segs in do {
         assert_opt (seg_type seg = AS_PATH_SEGMENT_SEQUENCE);
         assert_opt (length (asns seg) > 0);
         Some (uint (hd (asns seg)))
       }
     }
   }"

text \<open>The two loops of \<open>path_to_string\<close> over the segments in the order they are written.\<close>

fun put_segs :: "bool \<Rightarrow> bool \<Rightarrow> bgp_path \<Rightarrow> buffer \<Rightarrow> buffer option option" where
  "put_segs reverse first [] b = Some (Some b)"
| "put_segs reverse first (seg # segs) b =
     (case (if first then Some b else put '' '' b) of
        None \<Rightarrow> Some None
      | Some b \<Rightarrow>
          (case path_segment_to_string seg reverse b of
             None \<Rightarrow> None
           | Some None \<Rightarrow> Some None
           | Some (Some b) \<Rightarrow> put_segs reverse False segs b))"

definition path_to_string :: "bgp_path option \<Rightarrow> bool \<Rightarrow> nat \<Rightarrow> string option option" where
  "path_to_string path reverse dst_size =
     (if path_num_segments path = 0 then Some (if dst_size < 1 then None else Some '''')
      else do {
        segs \<leftarrow> path;
        r \<leftarrow> put_segs reverse True (if reverse then rev segs else segs) ('''', dst_size);
        Some (map_option fst r)
      })"

text \<open>\<open>path_from_string\<close> over the tokenizers of libgds (of the path and of a segment) and its number
  parsers.\<close>

fun path_add_tokens ::
    "(string \<Rightarrow> string list option) \<Rightarrow> (string \<Rightarrow> nat option) \<Rightarrow> (string \<Rightarrow> nat option)
     \<Rightarrow> string list \<Rightarrow> bgp_path \<Rightarrow> bgp_path option option" where
  "path_add_tokens seg_tok num unum [] path = Some (Some path)"
| "path_add_tokens seg_tok num unum (t # ts) path =
     (case num t of
        Some a \<Rightarrow>
          if a > MAX_AS then Some None
          else (case path_append path (of_nat a) of
                  None \<Rightarrow> None
                | Some (_, path) \<Rightarrow> path_add_tokens seg_tok num unum ts path)
      | None \<Rightarrow>
          (case path_segment_from_string seg_tok unum t of
             None \<Rightarrow> Some None
           | Some seg \<Rightarrow> path_add_tokens seg_tok num unum ts (path_add_segment path seg)))"

definition path_from_string ::
    "(string \<Rightarrow> string list option) \<Rightarrow> (string \<Rightarrow> string list option) \<Rightarrow> (string \<Rightarrow> nat option)
     \<Rightarrow> (string \<Rightarrow> nat option) \<Rightarrow> string \<Rightarrow> bgp_path option option" where
  "path_from_string path_tok seg_tok num unum path_str =
     (case path_tok path_str of
        None \<Rightarrow> Some None
      | Some tokens \<Rightarrow> path_add_tokens seg_tok num unum (rev tokens) [])"

text \<open>\<open>path_match\<close> over the regular expression search (\<open>regex_search\<close> > 0), NULL for no expression.\<close>

definition path_match :: "bgp_path option \<Rightarrow> (string \<Rightarrow> bool) option \<Rightarrow> bool option" where
  "path_match path pRegEx = do {
     r \<leftarrow> path_to_string path True 1000;
     acBuffer \<leftarrow> r;
     case pRegEx of
       None \<Rightarrow> Some False
     | Some regex_search \<Rightarrow>
         Some (acBuffer \<noteq> ''null'' \<and> regex_search acBuffer)
   }"

fun dump_segs :: "bool \<Rightarrow> bgp_path \<Rightarrow> string option" where
  "dump_segs reverse [] = Some []"
| "dump_segs reverse [seg] = path_segment_dump seg reverse"
| "dump_segs reverse (seg # seg' # segs) = do {
     s \<leftarrow> path_segment_dump seg reverse;
     s' \<leftarrow> dump_segs reverse (seg' # segs);
     Some (s @ '' '' @ s')
   }"

definition path_dump :: "bgp_path option \<Rightarrow> bool \<Rightarrow> string option" where
  "path_dump path reverse =
     (case path of
        None \<Rightarrow> Some ''''
      | Some segs \<Rightarrow> dump_segs reverse (if reverse then rev segs else segs))"

text \<open>The hash functions.  All three fold over the AS numbers in 32-bit arithmetic.\<close>

definition path_hash_step :: "32 word \<times> 32 word \<Rightarrow> asn \<Rightarrow> 32 word \<times> 32 word" where
  "path_hash_step ha asn' =
     ((snd ha * fst ha + ucast asn') mod 65521, (snd ha * 27183) mod (65521 - 1))"

definition path_hash :: "bgp_path option \<Rightarrow> 32 word" where
  "path_hash path =
     (case path of
        None \<Rightarrow> 0
      | Some segs \<Rightarrow> fst (foldl path_hash_step (0, 31415) (concat (map asns segs))))"

definition zebra_seg :: "32 word \<Rightarrow> bgp_path_seg \<Rightarrow> 32 word" where
  "zebra_seg hash seg =
     foldl (\<lambda>hash a. hash + ucast (a AND 255) + ucast (drop_bit 8 a))
       (hash + seg_type_value (seg_type seg)) (asns seg)"

definition path_hash_zebra :: "bgp_path option \<Rightarrow> 32 word" where
  "path_hash_zebra path =
     (case path of None \<Rightarrow> 0 | Some segs \<Rightarrow> foldl zebra_seg 0 segs)"

definition oat_mix :: "32 word \<Rightarrow> 32 word \<Rightarrow> 32 word" where
  "oat_mix hash v =
     (let hash = hash + v; hash = hash + push_bit 10 hash in hash XOR drop_bit 6 hash)"

definition oat_seg :: "32 word \<Rightarrow> bgp_path_seg \<Rightarrow> 32 word" where
  "oat_seg hash seg =
     foldl (\<lambda>hash a. oat_mix (oat_mix hash (ucast (a AND 255))) (ucast (drop_bit 8 a)))
       (oat_mix hash (seg_type_value (seg_type seg))) (asns seg)"

definition path_hash_OAT :: "bgp_path option \<Rightarrow> 32 word \<Rightarrow> 32 word" where
  "path_hash_OAT path hash_size =
     (let hash = (case path of None \<Rightarrow> 0 | Some segs \<Rightarrow> foldl oat_seg 0 segs);
          hash = hash + push_bit 3 hash;
          hash = hash XOR drop_bit 11 hash;
          hash = hash + push_bit 15 hash
      in hash mod hash_size)"

fun segs_equals :: "bgp_path \<Rightarrow> bgp_path \<Rightarrow> bool option" where
  "segs_equals (s1 # ss1) (s2 # ss2) = do {
     b \<leftarrow> path_segment_equals s1 s2;
     if \<not> b then Some False else segs_equals ss1 ss2
   }"
| "segs_equals _ _ = Some True"

definition path_equals :: "bgp_path option \<Rightarrow> bgp_path option \<Rightarrow> bool option" where
  "path_equals path1 path2 =
     (if path_num_segments path1 \<noteq> path_num_segments path2 then Some False
      else segs_equals (case path1 of None \<Rightarrow> [] | Some ss \<Rightarrow> ss)
                       (case path2 of None \<Rightarrow> [] | Some ss \<Rightarrow> ss))"

fun path_comparison_loop ::
    "bgp_path option \<Rightarrow> bgp_path option \<Rightarrow> nat \<Rightarrow> nat \<Rightarrow> int option" where
  "path_comparison_loop path1 path2 index 0 =
     map_option (\<lambda>b. if b then 1 else 0) (path_equals path1 path2)"
| "path_comparison_loop path1 path2 index (Suc n) = do {
     a1 \<leftarrow> path_at path1 (int index);
     a2 \<leftarrow> path_at path2 (int index);
     if a1 < a2 then Some (-1) else if a1 > a2 then Some 1
     else path_comparison_loop path1 path2 (Suc index) n
   }"

definition path_comparison :: "bgp_path option \<Rightarrow> bgp_path option \<Rightarrow> int option" where
  "path_comparison path1 path2 = do {
     n1 \<leftarrow> path_length path1;
     n2 \<leftarrow> path_length path2;
     path_comparison_loop path1 path2 0 (if n1 < n2 then n1 else n2)
   }"

fun segs_cmp :: "bgp_path \<Rightarrow> bgp_path \<Rightarrow> int" where
  "segs_cmp (s1 # ss1) (s2 # ss2) =
     (let c = path_segment_cmp s1 s2 in if c \<noteq> 0 then c else segs_cmp ss1 ss2)"
| "segs_cmp _ _ = 0"

definition path_cmp :: "bgp_path option \<Rightarrow> bgp_path option \<Rightarrow> int" where
  "path_cmp path1 path2 =
     (if path1 = None \<and> path2 = None then 0
      else if (path1 = None \<and> path_num_segments path2 = 0)
            \<or> (path2 = None \<and> path_num_segments path1 = 0) then 0
      else case path1 of
        None \<Rightarrow> -1
      | Some ss1 \<Rightarrow>
          (case path2 of
             None \<Rightarrow> 1
           | Some ss2 \<Rightarrow>
               if path_num_segments path1 < path_num_segments path2 then -1
               else if path_num_segments path1 > path_num_segments path2 then 1
               else segs_cmp ss1 ss2))"

text \<open>The loop of \<open>path_remove_private\<close>.\<close>

function path_remove_private_from :: "nat \<Rightarrow> bgp_path \<Rightarrow> bgp_path" where
  "path_remove_private_from index path =
     (if index < length path then
        (case path_segment_remove_private (path ! index) of
           None \<Rightarrow> path_remove_private_from index (remove_at index path)
         | Some new_seg \<Rightarrow> path_remove_private_from (Suc index) (path[index := new_seg]))
      else path)"
  by auto
termination
  by (relation "measure (\<lambda>(index, path). length path - index)")
    (auto simp: length_remove_at)

declare path_remove_private_from.simps [simp del]

definition path_remove_private :: "bgp_path \<Rightarrow> bgp_path" where
  "path_remove_private path = path_remove_private_from 0 path"

section \<open>Invariant\<close>

text \<open>The paths the program builds: segments are sets or sequences, not empty, of at most 255 AS
  numbers.\<close>

definition seg_wf :: "bgp_path_seg \<Rightarrow> bool" where
  "seg_wf seg \<longleftrightarrow>
     (seg_type seg = AS_PATH_SEGMENT_SET \<or> seg_type seg = AS_PATH_SEGMENT_SEQUENCE)
     \<and> asns seg \<noteq> [] \<and> length (asns seg) \<le> MAX_PATH_SEQUENCE_LENGTH"

definition path_wf :: "bgp_path \<Rightarrow> bool" where
  "path_wf path \<longleftrightarrow> list_all seg_wf path"

definition path_asns :: "bgp_path \<Rightarrow> asn list" where
  "path_asns path = concat (map asns path)"

section \<open>Lemmas\<close>

lemma path_contains_iff: "path_contains (Some p) a \<longleftrightarrow> a \<in> set (path_asns p)"
  by (auto simp: path_contains_def path_segment_contains_def path_asns_def list_ex_iff)

lemma path_contains_None [simp]: "\<not> path_contains None a"
  by (simp add: path_contains_def)

lemma path_copy_id [simp]: "path_copy p = p"
proof -
  have "foldl path_add_segment acc (map path_segment_copy segs) = acc @ segs" for acc segs
    by (induction segs arbitrary: acc) (simp_all add: path_add_segment_def path_segment_copy_def)
  then show ?thesis by (cases p) (simp_all add: path_copy_def)
qed

lemma segs_length_append:
  "segs_length (p @ q) = do { m \<leftarrow> segs_length p; n \<leftarrow> segs_length q; Some (m + n) }"
  by (induction p) (cases "segs_length q"; auto split: seg_type.split option.splits simp: map_option_case)+

lemma segs_length_wf: "path_wf p \<Longrightarrow> \<exists>n. segs_length p = Some n \<and> length p \<le> n"
proof (induction p)
  case (Cons s p)
  then obtain n where "segs_length p = Some n" "length p \<le> n"
    by (auto simp: path_wf_def)
  moreover have "seg_wf s" using Cons.prems by (simp add: path_wf_def)
  ultimately show ?case
    by (cases "asns s") (auto simp: seg_wf_def)
qed simp

lemma path_append_cases:
  assumes "path_append p a = Some (r, q)"
  obtains (first) "p = []" "r = 0" "q = [\<lparr>seg_type = AS_PATH_SEGMENT_SEQUENCE, asns = [a]\<rparr>]"
  | (full) p' s where "p = p' @ [s]" "seg_type s = AS_PATH_SEGMENT_SEQUENCE"
      "length (asns s) \<ge> 255" "r = -1" "q = p"
  | (add) p' s where "p = p' @ [s]" "seg_type s = AS_PATH_SEGMENT_SEQUENCE"
      "length (asns s) < 255" "r = int (length p)" "q = p' @ [s\<lparr>asns := asns s @ [a]\<rparr>]"
  | (new) p' s where "p = p' @ [s]" "seg_type s = AS_PATH_SEGMENT_SET"
      "r = int (length p) + 1" "q = p @ [\<lparr>seg_type = AS_PATH_SEGMENT_SEQUENCE, asns = [a]\<rparr>]"
proof (cases p rule: rev_exhaust)
  case Nil
  then show ?thesis
    using assms first by (simp add: path_append_def path_num_segments_def path_add_segment_def)
next
  case (snoc p' s)
  then show ?thesis
    using assms full [of p' s] add [of p' s] new [of p' s]
    by (auto simp: path_append_def path_num_segments_def path_add_segment_def Let_def
        path_segment_add_def MAX_PATH_SEQUENCE_LENGTH_def split: seg_type.splits if_splits)
qed

lemma path_append_total: "path_wf p \<Longrightarrow> \<exists>r q. path_append p a = Some (r, q)"
  by (cases p rule: rev_exhaust)
    (auto simp: path_append_def path_num_segments_def Let_def path_wf_def seg_wf_def
      split: prod.splits)

lemma path_append_wf [keeps]:
  assumes "path_append p a = Some (r, q)" "path_wf p"
  shows "path_wf q"
  using assms(1) assms(2)
  by (cases rule: path_append_cases) (auto simp: path_wf_def seg_wf_def MAX_PATH_SEQUENCE_LENGTH_def)

lemma path_append_asns:
  assumes "path_append p a = Some (r, q)"
  shows "path_asns q = (if r = -1 then path_asns p else path_asns p @ [a])"
  using assms by (cases rule: path_append_cases) (auto simp: path_asns_def)

lemma path_append_length:
  assumes "path_append p a = Some (r, q)" "r \<noteq> -1"
  shows "segs_length q = map_option Suc (segs_length p)"
  using assms(1,2)
proof (cases rule: path_append_cases)
  case (add p' s)
  then show ?thesis by (cases "segs_length p'") (simp_all add: segs_length_append)
next
  case (new p' s)
  then show ?thesis by (cases "segs_length p'") (simp_all add: segs_length_append)
qed simp_all

lemma path_append_last_as:
  assumes "path_append p a = Some (r, q)" "r \<noteq> -1" "segs_length p = Some n"
  shows "path_last_as (Some q) = Some (uint a)"
  using assms(1,2) path_append_length [OF assms(1,2)] assms(3)
  by (cases rule: path_append_cases) (auto simp: path_last_as_def path_length_def)

text \<open>Removal of private AS numbers.\<close>

lemma remove_private_from_eq:
  "remove_private_from i as = take i as @ filter (\<lambda>a. a < 64512) (drop i as)"
proof (induction i as rule: remove_private_from.induct)
  case (1 i as)
  show ?case
  proof (cases "i < length as")
    case True
    then have d: "drop i as = as ! i # drop (Suc i) as" by (simp add: Cons_nth_drop_Suc)
    have len: "i \<le> length as" using True by simp
    show ?thesis
    proof (cases "as ! i \<ge> 64512")
      case priv: True
      then have "remove_private_from i as = remove_private_from i (remove_at i as)"
        using True by (subst remove_private_from.simps) simp
      also have "\<dots> = take i as @ filter (\<lambda>a. a < 64512) (drop (Suc i) as)"
        using 1(1) [OF True priv] len by (simp add: remove_at_def)
      finally show ?thesis using priv d by simp
    next
      case False
      then have "remove_private_from i as = remove_private_from (Suc i) as"
        using True by (subst remove_private_from.simps) simp
      then show ?thesis
        using 1(2) [OF True False] True False d by (simp add: take_Suc_conv_app_nth not_le)
    qed
  next
    case False
    then show ?thesis by (subst remove_private_from.simps) simp
  qed
qed

definition seg_public :: "bgp_path_seg \<Rightarrow> bgp_path_seg" where
  "seg_public seg = seg\<lparr>asns := filter (\<lambda>a. a < 64512) (asns seg)\<rparr>"

lemma filter_shorter: "length (filter P xs) \<noteq> length xs \<and> filter P xs = [] \<longleftrightarrow> filter P xs = [] \<and> xs \<noteq> []"
  by auto

lemma path_segment_remove_private_eq:
  "path_segment_remove_private seg =
     (if asns (seg_public seg) = [] \<and> asns seg \<noteq> [] then None else Some (seg_public seg))"
  by (auto simp: path_segment_remove_private_def remove_private_from_eq seg_public_def Let_def)

lemma path_remove_private_from_eq:
  "path_remove_private_from i p =
     take i p @ map seg_public (filter (\<lambda>s. asns (seg_public s) \<noteq> [] \<or> asns s = []) (drop i p))"
proof (induction i p rule: path_remove_private_from.induct)
  case (1 i p)
  show ?case
  proof (cases "i < length p")
    case True
    then have d: "drop i p = p ! i # drop (Suc i) p" by (simp add: Cons_nth_drop_Suc)
    have len: "i \<le> length p" using True by simp
    show ?thesis
    proof (cases "path_segment_remove_private (p ! i)")
      case None
      then have "path_remove_private_from i p = path_remove_private_from i (remove_at i p)"
        using True by (subst path_remove_private_from.simps) simp
      also have "\<dots> = take i p @ map seg_public
          (filter (\<lambda>s. asns (seg_public s) \<noteq> [] \<or> asns s = []) (drop (Suc i) p))"
        using 1(1) [OF True None] len by (simp add: remove_at_def)
      finally show ?thesis
        using None d by (simp add: path_segment_remove_private_eq split: if_splits)
    next
      case (Some s)
      then have "path_remove_private_from i p = path_remove_private_from (Suc i) (p[i := s])"
        using True by (subst path_remove_private_from.simps) simp
      then show ?thesis
        using 1(2) [OF True Some] True Some d
        by (simp add: take_Suc_conv_app_nth path_segment_remove_private_eq split: if_splits)
    qed
  next
    case False
    then show ?thesis by (subst path_remove_private_from.simps) simp
  qed
qed

lemma path_remove_private_eq:
  "path_remove_private p =
     map seg_public (filter (\<lambda>s. asns (seg_public s) \<noteq> [] \<or> asns s = []) p)"
  by (simp add: path_remove_private_def path_remove_private_from_eq)

lemma path_remove_private_asns:
  "path_asns (path_remove_private p) = filter (\<lambda>a. a < 64512) (path_asns p)"
  by (induction p) (auto simp: path_remove_private_eq path_asns_def seg_public_def)

lemma path_remove_private_wf [keeps]: "path_wf p \<Longrightarrow> path_wf (path_remove_private p)"
  by (auto simp: path_remove_private_eq path_wf_def list_all_iff seg_wf_def seg_public_def
      intro: le_trans [OF length_filter_le])

text \<open>Comparison.\<close>

lemma asns_cmp_0: "length as = length bs \<Longrightarrow> asns_cmp as bs = 0 \<longleftrightarrow> as = bs"
  by (induction as bs rule: asns_cmp.induct) auto

lemma asns_cmp_neg: "length as = length bs \<Longrightarrow> asns_cmp bs as = - asns_cmp as bs"
  by (induction as bs rule: asns_cmp.induct) auto

lemma path_segment_cmp_0: "path_segment_cmp s1 s2 = 0 \<longleftrightarrow> asns s1 = asns s2"
  using asns_cmp_0 [of "asns s1" "asns s2"] by (auto simp: path_segment_cmp_def)

lemma path_segment_cmp_neg: "path_segment_cmp s2 s1 = - path_segment_cmp s1 s2"
  using asns_cmp_neg [of "asns s1" "asns s2"] by (auto simp: path_segment_cmp_def)

lemma segs_cmp_0: "length p = length q \<Longrightarrow> segs_cmp p q = 0 \<longleftrightarrow> map asns p = map asns q"
  by (induction p q rule: segs_cmp.induct) (auto simp: path_segment_cmp_0 Let_def)

lemma segs_cmp_neg: "length p = length q \<Longrightarrow> segs_cmp q p = - segs_cmp p q"
proof (induction p q rule: segs_cmp.induct)
  case (1 s1 ss1 s2 ss2)
  then show ?case using path_segment_cmp_neg [of s2 s1] by (auto simp: Let_def)
qed auto

lemma path_cmp_0_iff:
  "path_cmp p q = 0 \<longleftrightarrow>
     map asns (case p of None \<Rightarrow> [] | Some ss \<Rightarrow> ss) = map asns (case q of None \<Rightarrow> [] | Some ss \<Rightarrow> ss)"
  using segs_cmp_0
  by (auto simp: path_cmp_def path_num_segments_def split: option.splits dest: map_eq_imp_length_eq)

lemma path_cmp_neg: "path_cmp q p = - path_cmp p q"
proof (cases "p = None \<or> q = None")
  case True
  then show ?thesis by (cases p; cases q) (auto simp: path_cmp_def path_num_segments_def)
next
  case False
  then obtain ss1 ss2 where "p = Some ss1" "q = Some ss2" by auto
  then show ?thesis
    using segs_cmp_neg [of ss1 ss2] by (simp add: path_cmp_def path_num_segments_def)
qed

lemma path_cmp_0_contains:
  assumes "path_cmp (Some p) (Some q) = 0"
  shows "path_asns p = path_asns q"
  using assms by (auto simp: path_cmp_0_iff path_asns_def)

lemma path_segment_equals_refl:
  "seg_wf s \<Longrightarrow> path_segment_equals s s = Some True"
  by (auto simp: path_segment_equals_def seg_wf_def path_segment_contains_def list_ex_iff)

lemma segs_equals_refl: "path_wf p \<Longrightarrow> segs_equals p p = Some True"
  by (induction p) (auto simp: path_wf_def path_segment_equals_refl)

lemma path_equals_refl: "path_wf (case p of None \<Rightarrow> [] | Some ss \<Rightarrow> ss) \<Longrightarrow> path_equals p p = Some True"
  by (simp add: path_equals_def segs_equals_refl)

lemma path_segment_equals_wf:
  assumes "seg_wf s" "seg_wf t"
  shows "path_segment_equals s t = Some
    (seg_type s = seg_type t \<and> length (asns s) = length (asns t)
     \<and> (seg_type s = AS_PATH_SEGMENT_SEQUENCE \<longrightarrow> asns s = asns t))"
  using assms
  by (auto simp: path_segment_equals_def seg_wf_def path_segment_contains_def list_ex_iff)

lemma segs_equals_wf:
  assumes "path_wf p" "path_wf q" "length p = length q"
  shows "segs_equals p q = Some (list_all2 (\<lambda>s t. seg_type s = seg_type t
     \<and> length (asns s) = length (asns t)
     \<and> (seg_type s = AS_PATH_SEGMENT_SEQUENCE \<longrightarrow> asns s = asns t)) p q)"
  using assms(3,1,2)
  by (induction p q rule: list_induct2) (auto simp: path_wf_def path_segment_equals_wf)

text \<open>Text.\<close>

definition sep_asns :: "asn list \<Rightarrow> string" where
  "sep_asns as = concat (map (\<lambda>a. '' '' @ print_u (unat a)) as)"

definition put_all :: "string \<Rightarrow> buffer \<Rightarrow> buffer option" where
  "put_all s b = (if s = [] then Some b else put s b)"

lemma put_all_append:
  "(put_all s b \<bind> put_all t) = put_all (s @ t) b"
  by (cases b) (auto simp: put_all_def put_def)

lemma join_asns_Cons: "join_asns (a # as) = print_u (unat a) @ sep_asns as"
  by (induction as arbitrary: a) (auto simp: sep_asns_def)

lemma put_asns_sep: "put_asns False as b = put_all (sep_asns as) b"
proof (induction as arbitrary: b)
  case (Cons a as)
  have "put_asns False (a # as) b = (put_all ('' '' @ print_u (unat a)) b \<bind> put_all (sep_asns as))"
    using ext [of "put_asns False as", OF Cons.IH] by (simp add: put_all_def [of "_ # _"])
  then show ?case by (simp add: put_all_append sep_asns_def)
qed (simp add: put_all_def sep_asns_def)

lemma put_asns_join: "put_asns True as b = put_all (join_asns as) b"
proof (cases as)
  case (Cons a as')
  have "put_asns True as b = (put_all (print_u (unat a)) b \<bind> put_all (sep_asns as'))"
    using ext [of "put_asns False as'", OF put_asns_sep]
    by (simp add: Cons put_all_def [of "print_u _"])
  then show ?thesis by (simp add: put_all_append Cons join_asns_Cons)
qed (simp add: put_all_def)

definition seq_path :: "bgp_path \<Rightarrow> bool" where
  "seq_path p \<longleftrightarrow> (\<forall>s\<in>set p. seg_type s = AS_PATH_SEGMENT_SEQUENCE)"

lemma seq_segment_to_string:
  assumes "seg_type seg = AS_PATH_SEGMENT_SEQUENCE" "asns seg \<noteq> []"
  shows "path_segment_to_string seg True b = Some (put_all (join_asns (rev (asns seg))) b)"
  using assms by (simp add: path_segment_to_string_def put_asns_join)

lemma join_asns_not_Nil: "as \<noteq> [] \<Longrightarrow> join_asns as \<noteq> []"
  by (cases as) (simp_all add: join_asns_Cons)

fun sep_segs :: "bgp_path \<Rightarrow> string" where
  "sep_segs [] = []"
| "sep_segs (s # ss) = '' '' @ join_asns (rev (asns s)) @ sep_segs ss"

lemma put_segs_sep:
  assumes "seq_path p" "path_wf p"
  shows "put_segs True False p b = Some (put_all (sep_segs p) b)"
  using assms
proof (induction p arbitrary: b)
  case (Cons s p)
  then have s: "seg_type s = AS_PATH_SEGMENT_SEQUENCE" "asns s \<noteq> []"
    and p: "seq_path p" "path_wf p"
    by (auto simp: seq_path_def path_wf_def seg_wf_def)
  have "put_all (sep_segs (s # p)) b =
      (put_all '' '' b \<bind> put_all (join_asns (rev (asns s))) \<bind> put_all (sep_segs p))"
    by (simp add: put_all_append)
  then show ?case
    using Cons.IH [OF p]
    by (cases "put '' '' b")
      (auto simp: seq_segment_to_string [OF s] put_all_def [of "'' ''"] split: option.splits)
qed (simp add: put_all_def)

lemma dump_segs_sep:
  assumes "seq_path (s # p)"
  shows "dump_segs True (s # p) = Some (join_asns (rev (asns s)) @ sep_segs p)"
  using assms by (induction p arbitrary: s) (auto simp: seq_path_def path_segment_dump_def)

lemma path_to_string_seq:
  assumes "seq_path p" "path_wf p"
  shows "\<exists>s. path_dump (Some p) True = Some s
    \<and> path_to_string (Some p) True n = Some (if length s < n then Some s else None)"
proof (cases "rev p")
  case Nil
  then show ?thesis
    by (simp add: path_dump_def path_to_string_def path_num_segments_def)
next
  case (Cons seg segs)
  have "set (seg # segs) = set p" using Cons by (metis set_rev)
  with assms have sq: "seq_path (seg # segs)" and wf: "path_wf (seg # segs)"
    by (simp_all add: seq_path_def path_wf_def list_all_iff)
  then have s: "seg_type seg = AS_PATH_SEGMENT_SEQUENCE" "asns seg \<noteq> []"
    and ss: "seq_path segs" "path_wf segs"
    by (auto simp: seq_path_def path_wf_def seg_wf_def)
  let ?s = "join_asns (rev (asns seg)) @ sep_segs segs"
  have "put_all ?s ([], n) = (put_all (join_asns (rev (asns seg))) ([], n) \<bind> put_all (sep_segs segs))"
    by (simp add: put_all_append)
  then have "put_segs True True (seg # segs) ([], n) = Some (put_all ?s ([], n))"
    by (simp add: seq_segment_to_string [OF s] put_segs_sep [OF ss] split: option.splits)
  moreover have "p \<noteq> []" using Cons by auto
  moreover have "join_asns (rev (asns seg)) \<noteq> []"
    using s by (simp add: join_asns_not_Nil)
  ultimately have "path_to_string (Some p) True n = Some (if length ?s < n then Some ?s else None)"
    by (auto simp: path_to_string_def path_num_segments_def Cons put_all_def put_def)
  moreover have "path_dump (Some p) True = Some ?s"
    by (simp add: path_dump_def Cons dump_segs_sep [OF sq])
  ultimately show ?thesis by blast
qed

lemma path_segment_to_string_forward: "path_segment_to_string seg False b \<noteq> Some (Some b')"
  by (auto simp: path_segment_to_string_def Let_def bind_eq_Some_conv)

lemma path_at_loop_result: "path_at_loop p pos = Some r \<Longrightarrow> r = -1"
  by (induction p pos rule: path_at_loop.induct) (auto split: if_splits seg_type.splits)

section \<open>Properties\<close>

text \<open>Prepending an AS number to a well-formed AS-Path never stops the process and keeps the path
  well formed.  It fails (-1, path unchanged) only when the last segment is a full sequence of 255
  numbers; otherwise the number is added after all the others, it becomes the last AS of the path,
  and the AS-Path length grows by exactly one.\<close>

theorem path_append_correct:
  assumes "path_wf p"
  shows "\<exists>r q. path_append p a = Some (r, q) \<and> path_wf q
    \<and> (if r = -1 then q = p \<and> (\<exists>p' s. p = p' @ [s] \<and> length (asns s) = 255)
       else path_asns q = path_asns p @ [a]
         \<and> path_last_as (Some q) = Some (uint a)
         \<and> path_length (Some q) = map_option Suc (path_length (Some p)))"
proof -
  obtain r q where app: "path_append p a = Some (r, q)"
    using path_append_total [OF assms] by blast
  obtain n where n: "segs_length p = Some n"
    using segs_length_wf [OF assms] by blast
  have "r = -1 \<Longrightarrow> q = p \<and> (\<exists>p' s. p = p' @ [s] \<and> length (asns s) = 255)"
    using app assms
    by (cases rule: path_append_cases)
      (auto simp: path_wf_def seg_wf_def MAX_PATH_SEQUENCE_LENGTH_def intro: le_antisym)
  then show ?thesis
    using app path_append_wf [OF app assms] path_append_asns [OF app] n
      path_append_last_as [OF app _ n] path_append_length [OF app]
    by (auto simp: path_length_def)
qed

theorem path_append_correct_witness:
  "\<exists>r q. path_append [\<lparr>seg_type = AS_PATH_SEGMENT_SET, asns = [1, 2]\<rparr>] 7 = Some (r, q) \<and> path_wf q
    \<and> path_asns q = [1, 2, 7] \<and> path_last_as (Some q) = Some 7"
proof -
  have "path_wf [\<lparr>seg_type = AS_PATH_SEGMENT_SET, asns = [1, 2]\<rparr>]"
    by (simp add: path_wf_def seg_wf_def MAX_PATH_SEQUENCE_LENGTH_def)
  from path_append_correct [OF this, of 7] show ?thesis
    by (auto simp: path_asns_def Cons_eq_append_conv split: if_splits)
qed

text \<open>\<open>path_remove_private\<close> removes exactly the AS numbers from 64512 on, in every segment, keeps the
  order and the type of the segments, drops the segments it empties and no other, and keeps the
  path well formed.\<close>

theorem path_remove_private_correct:
  assumes "path_wf p"
  shows "path_wf (path_remove_private p)
    \<and> path_asns (path_remove_private p) = filter (\<lambda>a. a < 64512) (path_asns p)
    \<and> path_remove_private p = map seg_public (filter (\<lambda>s. \<exists>a\<in>set (asns s). a < 64512) p)"
proof (intro conjI)
  show "path_wf (path_remove_private p)"
    and "path_asns (path_remove_private p) = filter (\<lambda>a. a < 64512) (path_asns p)"
    using assms by (simp_all add: path_remove_private_wf path_remove_private_asns)
  have "filter (\<lambda>s. asns (seg_public s) \<noteq> [] \<or> asns s = []) p
      = filter (\<lambda>s. \<exists>a\<in>set (asns s). a < 64512) p"
    using assms by (intro filter_cong)
      (auto simp: seg_public_def filter_empty_conv path_wf_def list_all_iff seg_wf_def)
  then show "path_remove_private p = map seg_public (filter (\<lambda>s. \<exists>a\<in>set (asns s). a < 64512) p)"
    by (simp add: path_remove_private_eq)
qed

theorem path_remove_private_correct_witness:
  "path_asns (path_remove_private [\<lparr>seg_type = AS_PATH_SEGMENT_SEQUENCE, asns = [3, 64512]\<rparr>,
       \<lparr>seg_type = AS_PATH_SEGMENT_SET, asns = [65000]\<rparr>]) = [3]"
  by (subst conjunct1 [OF conjunct2 [OF path_remove_private_correct]])
    (simp_all add: path_wf_def seg_wf_def MAX_PATH_SEQUENCE_LENGTH_def path_asns_def)

text \<open>\<open>path_equals\<close> on well-formed paths: it compares the number, the types and the lengths of the
  segments and the contents of the sequences, but not the contents of the AS-SETs.  On paths of
  sequences it is equality; two AS-SETs of the same length are taken as equal whatever they hold,
  because the membership test is compared with a value it never returns.\<close>

theorem path_equals_correct:
  assumes "path_wf p" "path_wf q"
  shows "path_equals (Some p) (Some q) = Some (list_all2 (\<lambda>s t. seg_type s = seg_type t
           \<and> length (asns s) = length (asns t)
           \<and> (seg_type s = AS_PATH_SEGMENT_SEQUENCE \<longrightarrow> asns s = asns t)) p q)
    \<and> (seq_path p \<longrightarrow> seq_path q \<longrightarrow> path_equals (Some p) (Some q) = Some (p = q))"
proof (intro conjI impI)
  show eq: "path_equals (Some p) (Some q) = Some (list_all2 (\<lambda>s t. seg_type s = seg_type t
           \<and> length (asns s) = length (asns t)
           \<and> (seg_type s = AS_PATH_SEGMENT_SEQUENCE \<longrightarrow> asns s = asns t)) p q)"
    using segs_equals_wf [OF assms] list_all2_lengthD
    by (auto simp: path_equals_def path_num_segments_def)
  assume "seq_path p" "seq_path q"
  then have "list_all2 (\<lambda>s t. seg_type s = seg_type t
           \<and> length (asns s) = length (asns t)
           \<and> (seg_type s = AS_PATH_SEGMENT_SEQUENCE \<longrightarrow> asns s = asns t)) p q \<longleftrightarrow> p = q"
    by (auto simp: list_all2_conv_all_nth seq_path_def intro!: nth_equalityI bgp_path_seg.equality)
  with eq show "path_equals (Some p) (Some q) = Some (p = q)" by simp
qed

theorem path_equals_correct_witness:
  "path_equals (Some [\<lparr>seg_type = AS_PATH_SEGMENT_SET, asns = [1, 2]\<rparr>])
     (Some [\<lparr>seg_type = AS_PATH_SEGMENT_SET, asns = [3, 4]\<rparr>]) = Some True"
  by (subst conjunct1 [OF path_equals_correct])
    (simp_all add: path_wf_def seg_wf_def MAX_PATH_SEQUENCE_LENGTH_def)

text \<open>\<open>path_cmp\<close>, the comparison behind the interning of paths, is antisymmetric and answers 0
  exactly when the two paths have segments with the same AS numbers; the segment types do not
  matter, and NULL is the same as the empty path.  Paths it identifies have the same \<open>path_hash\<close>
  and contain the same AS numbers.\<close>

theorem path_cmp_correct:
  fixes p q :: "bgp_path option"
  defines "segs \<equiv> \<lambda>r :: bgp_path option. case r of None \<Rightarrow> [] | Some ss \<Rightarrow> ss"
  shows "(path_cmp p q = 0 \<longleftrightarrow> map asns (segs p) = map asns (segs q))
    \<and> path_cmp q p = - path_cmp p q
    \<and> (path_cmp p q = 0 \<longrightarrow> path_hash p = path_hash q \<and> path_contains p = path_contains q)"
proof (intro conjI [of "_ \<longleftrightarrow> _"] conjI [of "_ = - _"] impI)
  show iff: "path_cmp p q = 0 \<longleftrightarrow> map asns (segs p) = map asns (segs q)"
    by (simp add: path_cmp_0_iff segs_def)
  show "path_cmp q p = - path_cmp p q" by (rule path_cmp_neg)
  have hash: "path_hash r = fst (foldl path_hash_step (0, 31415) (path_asns (segs r)))"
    and cont: "path_contains r a = (a \<in> set (path_asns (segs r)))" for r a
    by (cases r; simp add: path_hash_def segs_def path_asns_def path_contains_iff)+
  assume "path_cmp p q = 0"
  then have "path_asns (segs p) = path_asns (segs q)"
    using iff by (simp add: path_asns_def)
  then show "path_hash p = path_hash q \<and> path_contains p = path_contains q"
    by (auto simp: hash cont)
qed

theorem path_cmp_correct_witness:
  "path_hash (Some [\<lparr>seg_type = AS_PATH_SEGMENT_SET, asns = [1, 2]\<rparr>])
     = path_hash (Some [\<lparr>seg_type = AS_PATH_SEGMENT_SEQUENCE, asns = [1, 2]\<rparr>])"
proof -
  have "path_cmp (Some [\<lparr>seg_type = AS_PATH_SEGMENT_SET, asns = [1, 2]\<rparr>])
     (Some [\<lparr>seg_type = AS_PATH_SEGMENT_SEQUENCE, asns = [1, 2]\<rparr>]) = 0"
    by code_simp
  with path_cmp_correct show ?thesis by blast
qed

text \<open>The text of an AS-Path of sequences, as the interning and the path filters use it (last AS
  first): \<open>path_to_string\<close> never stops the process, it gives exactly what \<open>path_dump\<close> prints when that
  fits in the buffer with its end mark, and -1 otherwise.\<close>

theorem path_to_string_correct:
  assumes "seq_path p" "path_wf p"
  shows "\<exists>s. path_dump (Some p) True = Some s
    \<and> path_to_string (Some p) True n = Some (if length s < n then Some s else None)"
  using assms by (rule path_to_string_seq)

theorem path_to_string_correct_witness:
  "path_to_string (Some [\<lparr>seg_type = AS_PATH_SEGMENT_SEQUENCE, asns = [1, 20]\<rparr>]) True 5
     = Some (Some ''20 1'')"
proof -
  have "path_dump (Some [\<lparr>seg_type = AS_PATH_SEGMENT_SEQUENCE, asns = [1, 20]\<rparr>]) True = Some ''20 1''"
    by code_simp
  then show ?thesis
    using path_to_string_correct [of "[\<lparr>seg_type = AS_PATH_SEGMENT_SEQUENCE, asns = [1, 20]\<rparr>]" 5]
    by (simp add: seq_path_def path_wf_def seg_wf_def MAX_PATH_SEQUENCE_LENGTH_def)
qed

text \<open>What the code does where it goes wrong: \<open>path_at\<close> never finds an AS number, the forward direction
  of \<open>path_segment_to_string\<close> never produces a text, and an AS-SET is printed with a closing brace on
  both sides.\<close>

lemma path_at_never_finds: "path_at p pos = Some r \<Longrightarrow> r = -1"
  by (cases p) (auto simp: path_at_def dest: path_at_loop_result)

lemma path_segment_to_string_set_delims:
  "path_segment_to_string \<lparr>seg_type = AS_PATH_SEGMENT_SET, asns = [7]\<rparr> True ([], 10)
     = Some (Some (''}7}'', 7))"
  by code_simp

end
