(* ===== verification/Bgp_Comm.thy ===== *)
theory Bgp_Comm
  imports Bgp_Path
begin

text \<open>
  Origins, Communities and Extended Communities: \<open>src/bgp/attr/origin.c\<close>, \<open>src/bgp/attr/comm.c\<close>
  and \<open>src/bgp/attr/ecomm.c\<close>.

  A Communities attribute is the list of its 32-bit values, an Extended Communities attribute the
  list of its 8-byte values; NULL is \<^term>\<open>None\<close>.  The lemmas show that removal of a value and
  stripping of the non-transitive values, in-place compaction loops in the code, are filters.
\<close>

unbundle bit_operations_syntax

section \<open>Origin\<close>

datatype bgp_origin = BGP_ORIGIN_IGP | BGP_ORIGIN_EGP | BGP_ORIGIN_INCOMPLETE

definition origin_value :: "bgp_origin \<Rightarrow> nat" where
  "origin_value o' = (case o' of BGP_ORIGIN_IGP \<Rightarrow> 0 | BGP_ORIGIN_EGP \<Rightarrow> 1 | BGP_ORIGIN_INCOMPLETE \<Rightarrow> 2)"

definition bgp_origin_to_str :: "bgp_origin \<Rightarrow> string" where
  "bgp_origin_to_str o' = [''IGP'', ''EGP'', ''INCOMPLETE''] ! origin_value o'"

definition bgp_origin_from_str :: "string \<Rightarrow> bgp_origin option" where
  "bgp_origin_from_str str =
     find (\<lambda>o'. str = bgp_origin_to_str o') [BGP_ORIGIN_IGP, BGP_ORIGIN_EGP, BGP_ORIGIN_INCOMPLETE]"

section \<open>Communities\<close>

type_synonym bgp_comm = "32 word"
type_synonym bgp_comms = "bgp_comm list"

definition COMM_NO_EXPORT :: bgp_comm where "COMM_NO_EXPORT = 0xffffff01"
definition COMM_NO_ADVERTISE :: bgp_comm where "COMM_NO_ADVERTISE = 0xffffff02"

definition comms_add :: "bgp_comms \<Rightarrow> bgp_comm \<Rightarrow> (int \<times> bgp_comms) option" where
  "comms_add comms comm = do {
     assert_opt (length comms < 255);
     Some (0, comms @ [comm])
   }"

definition comms_remove :: "bgp_comms option \<Rightarrow> bgp_comm \<Rightarrow> bgp_comms option" where
  "comms_remove comms comm =
     (case comms of
        None \<Rightarrow> None
      | Some vs \<Rightarrow>
          (let vs' = compact_from (\<lambda>v. v \<noteq> comm) 0 0 vs in
           if length vs = length vs' then Some vs
           else if vs' = [] then None
           else Some vs'))"

definition comms_contains :: "bgp_comms option \<Rightarrow> bgp_comm \<Rightarrow> bool" where
  "comms_contains comms comm =
     (case comms of None \<Rightarrow> False | Some vs \<Rightarrow> list_ex (\<lambda>v. v = comm) vs)"

definition comms_equals :: "bgp_comms option \<Rightarrow> bgp_comms option \<Rightarrow> bool" where
  "comms_equals comms1 comms2 =
     (if comms1 = None \<and> comms2 = None then True
      else case (comms1, comms2) of
        (Some v1, Some v2) \<Rightarrow> length v1 = length v2 \<and> v1 = v2
      | _ \<Rightarrow> False)"

definition comm_value_dump :: "bgp_comm \<Rightarrow> bool \<Rightarrow> string" where
  "comm_value_dump comm text' =
     (if text' \<and> comm = COMM_NO_EXPORT then ''no-export''
      else if text' \<and> comm = COMM_NO_ADVERTISE then ''no-advertise''
      else print_u (unat (drop_bit 16 comm)) @ '':'' @ print_u (unat (comm AND 65535)))"

fun comm_dump :: "bgp_comms \<Rightarrow> bool \<Rightarrow> string" where
  "comm_dump [] text' = []"
| "comm_dump [c] text' = comm_value_dump c text'"
| "comm_dump (c # d # cs) text' = comm_value_dump c text' @ '' '' @ comm_dump (d # cs) text'"

fun put_comms :: "bool \<Rightarrow> bgp_comms \<Rightarrow> buffer \<Rightarrow> buffer option" where
  "put_comms first [] b = Some b"
| "put_comms first (c # cs) b = do {
     b \<leftarrow> put ((if first then [] else '' '') @ print_u (unat c)) b;
     put_comms False cs b
   }"

definition comm_to_string :: "bgp_comms option \<Rightarrow> nat \<Rightarrow> string option" where
  "comm_to_string comms tBufferSize =
     (case comms of
        None \<Rightarrow> if tBufferSize < 1 then None else Some []
      | Some [] \<Rightarrow> if tBufferSize < 1 then None else Some []
      | Some vs \<Rightarrow> map_option fst (put_comms True vs ([], tBufferSize)))"

fun values_cmp :: "bgp_comms \<Rightarrow> bgp_comms \<Rightarrow> int" where
  "values_cmp (a # as) (b # bs) =
     (if a < b then -1 else if a > b then 1 else values_cmp as bs)"
| "values_cmp _ _ = 0"

definition comms_cmp :: "bgp_comms option \<Rightarrow> bgp_comms option \<Rightarrow> int" where
  "comms_cmp comm1 comm2 =
     (if comm1 = None \<and> comm2 = None then 0
      else if (comm1 = None \<and> comm2 = Some []) \<or> (comm2 = None \<and> comm1 = Some []) then 0
      else case comm1 of
        None \<Rightarrow> -1
      | Some v1 \<Rightarrow>
          (case comm2 of
             None \<Rightarrow> 1
           | Some v2 \<Rightarrow>
               if length v1 < length v2 then -1
               else if length v1 > length v2 then 1
               else values_cmp v1 v2))"

text \<open>The hash key in Zebra's style, \<open>_comm_hash_item_compute_zebra\<close> of \<open>comm_hash.c\<close>.\<close>

definition comm_hash_item_compute_zebra :: "bgp_comms \<Rightarrow> 32 word \<Rightarrow> 32 word" where
  "comm_hash_item_compute_zebra comms hash_size =
     foldl (\<lambda>key comm. key + (comm AND 255) + (drop_bit 8 comm AND 255)
              + (drop_bit 16 comm AND 255) + drop_bit 24 comm) 0 comms mod hash_size"

section \<open>Extended communities\<close>

record bgp_ecomm =
  iana_authority :: bool
  transitive :: bool
  type_high :: "8 word"
  type_low :: "8 word"
  ecomm_value :: "8 word list"

type_synonym bgp_ecomms = "bgp_ecomm list"

definition ECOMM_RED :: "8 word" where "ECOMM_RED = 3"
definition ECOMM_RED_ACTION_PREPEND :: "8 word" where "ECOMM_RED_ACTION_PREPEND = 0"
definition ECOMM_RED_ACTION_NO_EXPORT :: "8 word" where "ECOMM_RED_ACTION_NO_EXPORT = 1"
definition ECOMM_RED_ACTION_IGNORE :: "8 word" where "ECOMM_RED_ACTION_IGNORE = 2"
definition ECOMM_RED_FILTER_AS :: "8 word" where "ECOMM_RED_FILTER_AS = 0"

definition ecomms_length :: "bgp_ecomms \<Rightarrow> nat" where
  "ecomms_length comms = length comms"

definition ecomms_get_at :: "bgp_ecomms \<Rightarrow> nat \<Rightarrow> bgp_ecomm option" where
  "ecomms_get_at comms index = (if index \<ge> length comms then None else Some (comms ! index))"

text \<open>The counter \<open>num\<close> is an unsigned char: at 255 values it wraps to 0 and the value is written
  before the array.\<close>

definition ecomms_add :: "bgp_ecomms \<Rightarrow> bgp_ecomm \<Rightarrow> (int \<times> bgp_ecomms) option" where
  "ecomms_add comms comm = do {
     assert_opt (length comms < 255);
     Some (0, comms @ [comm])
   }"

definition ecomms_strip_non_transitive :: "bgp_ecomms option \<Rightarrow> bgp_ecomms option" where
  "ecomms_strip_non_transitive comms =
     (case comms of
        None \<Rightarrow> None
      | Some vs \<Rightarrow>
          (let vs' = compact_from transitive 0 0 vs in
           if length vs = length vs' then Some vs
           else if vs' = [] then None
           else Some vs'))"

definition ecomm_equals :: "bgp_ecomms option \<Rightarrow> bgp_ecomms option \<Rightarrow> bool" where
  "ecomm_equals comms1 comms2 =
     (if comms1 = None \<and> comms2 = None then True
      else case (comms1, comms2) of
        (Some v1, Some v2) \<Rightarrow> length v1 = length v2 \<and> v1 = v2
      | _ \<Rightarrow> False)"

text \<open>The two bytes of an AS number in memory, on a little-endian host.\<close>

definition asn_bytes :: "asn \<Rightarrow> 8 word list" where
  "asn_bytes a = [ucast a, ucast (drop_bit 8 a)]"

definition ecomm_red_create_as :: "8 word \<Rightarrow> 8 word \<Rightarrow> asn \<Rightarrow> bgp_ecomm" where
  "ecomm_red_create_as action_type action_param a =
     \<lparr>iana_authority = False, transitive = False, type_high = ECOMM_RED,
      type_low = push_bit 3 (action_type AND 7) + (action_param AND 7),
      ecomm_value = [ECOMM_RED_FILTER_AS, 0, 0, 0] @ asn_bytes a\<rparr>"

text \<open>The second argument is the AS number of the peer.\<close>

definition ecomm_red_match :: "bgp_ecomm \<Rightarrow> asn \<Rightarrow> bool" where
  "ecomm_red_match comm peer_asn \<longleftrightarrow>
     ecomm_value comm ! 0 = ECOMM_RED_FILTER_AS \<and>
     take 2 (drop 4 (ecomm_value comm)) = asn_bytes peer_asn"

section \<open>Lemmas\<close>

lemma filter_length_same: "length xs = length (filter P xs) \<longleftrightarrow> filter P xs = xs"
  by (metis length_filter_less filter_id_conv less_irrefl)

lemma comms_remove_eq:
  "comms_remove (Some vs) c =
     (let vs' = filter (\<lambda>v. v \<noteq> c) vs in if vs' = [] \<and> vs \<noteq> [] then None else Some vs')"
  using filter_length_same [of vs "\<lambda>v. v \<noteq> c"] by (auto simp: comms_remove_def Let_def)

lemma ecomms_strip_eq:
  "ecomms_strip_non_transitive (Some vs) =
     (let vs' = filter transitive vs in if vs' = [] \<and> vs \<noteq> [] then None else Some vs')"
  using filter_length_same [of vs transitive] by (auto simp: ecomms_strip_non_transitive_def Let_def)

lemma comms_contains_iff: "comms_contains cs c \<longleftrightarrow> (\<exists>vs. cs = Some vs \<and> c \<in> set vs)"
  by (auto simp: comms_contains_def list_ex_iff split: option.splits)

lemma comms_equals_iff [simp]: "comms_equals c1 c2 \<longleftrightarrow> c1 = c2"
  by (auto simp: comms_equals_def split: option.splits)

lemma ecomm_equals_iff [simp]: "ecomm_equals c1 c2 \<longleftrightarrow> c1 = c2"
  by (auto simp: ecomm_equals_def split: option.splits)

lemma values_cmp_0: "length as = length bs \<Longrightarrow> values_cmp as bs = 0 \<longleftrightarrow> as = bs"
  by (induction as bs rule: values_cmp.induct) auto

lemma comms_cmp_0_iff:
  "comms_cmp c1 c2 = 0 \<longleftrightarrow>
     (case c1 of None \<Rightarrow> [] | Some vs \<Rightarrow> vs) = (case c2 of None \<Rightarrow> [] | Some vs \<Rightarrow> vs)"
  using values_cmp_0 by (auto simp: comms_cmp_def split: option.splits)

lemma comms_cmp_0_contains: "comms_cmp c1 c2 = 0 \<Longrightarrow> comms_contains c1 = comms_contains c2"
  by (auto simp: comms_cmp_0_iff comms_contains_def fun_eq_iff split: option.splits)

lemma bgp_origin_roundtrip: "bgp_origin_from_str (bgp_origin_to_str o') = Some o'"
  by (cases o') (simp_all add: bgp_origin_from_str_def bgp_origin_to_str_def origin_value_def)

lemma asn_bytes_inject [simp]: "asn_bytes a = asn_bytes b \<longleftrightarrow> a = b"
proof
  assume eq: "asn_bytes a = asn_bytes b"
  show "a = b"
  proof (rule bit_word_eqI)
    fix n assume n: "n < LENGTH(16)"
    have lo: "(ucast a :: 8 word) = ucast b" and hi: "(ucast (drop_bit 8 a) :: 8 word) = ucast (drop_bit 8 b)"
      using eq by (simp_all add: asn_bytes_def)
    show "bit a n = bit b n"
    proof (cases "n < 8")
      case True
      then show ?thesis using arg_cong [OF lo, of "\<lambda>w. bit w n"] by (simp add: bit_ucast_iff)
    next
      case False
      with n have "n - 8 < 8" by simp
      with False show ?thesis
        using arg_cong [OF hi, of "\<lambda>w. bit w (n - 8)"] by (simp add: bit_ucast_iff bit_drop_bit_eq)
    qed
  qed
qed simp

section \<open>Properties\<close>

text \<open>Removing a community value removes all its occurrences and nothing else, in order, and the
  attribute disappears exactly when nothing is left of it; afterwards the value is not contained,
  and any other value is contained as before.\<close>

theorem comms_remove_correct:
  assumes "vs \<noteq> []"
  shows "comms_remove (Some vs) c =
     (let vs' = filter (\<lambda>v. v \<noteq> c) vs in if vs' = [] then None else Some vs')
    \<and> \<not> comms_contains (comms_remove (Some vs) c) c
    \<and> (d \<noteq> c \<longrightarrow> comms_contains (comms_remove (Some vs) c) d = comms_contains (Some vs) d)"
  using assms
  by (auto simp: comms_remove_eq comms_contains_iff Let_def filter_empty_conv split: if_splits)

theorem comms_remove_correct_witness:
  "comms_remove (Some [5, 7, 5]) 5 = Some [7]"
  by (subst conjunct1 [OF comms_remove_correct]) simp_all

text \<open>A redistribution community built for an AS number matches exactly the peers of that AS, is
  not transitive, and is therefore removed when the non-transitive values are stripped.\<close>

theorem ecomm_red_correct:
  "(ecomm_red_match (ecomm_red_create_as t prm a) peer_asn \<longleftrightarrow> peer_asn = a)
   \<and> ecomms_strip_non_transitive (Some [ecomm_red_create_as t prm a]) = None"
proof (intro conjI)
  have "take 2 (asn_bytes a) = asn_bytes a" by (simp add: asn_bytes_def)
  then show "ecomm_red_match (ecomm_red_create_as t prm a) peer_asn \<longleftrightarrow> peer_asn = a"
    by (auto simp: ecomm_red_match_def ecomm_red_create_as_def)
  show "ecomms_strip_non_transitive (Some [ecomm_red_create_as t prm a]) = None"
    by (simp add: ecomms_strip_eq ecomm_red_create_as_def)
qed

end
