(* ===== verification/Bgp_Attr.thy ===== *)
theory Bgp_Attr
  imports Net_Prefix Bgp_Comm
begin

text \<open>
  The attributes of a route: \<open>src/bgp/attr.c\<close> and \<open>src/bgp/route_reflector.c\<close>.

  AS-Paths and Communities are interned in hash sets of libgds (\<open>path_hash_add\<close>, \<open>comm_hash_add\<close>).
  The two functions are parameters, the fields of \<open>attr_env\<close>; the locale \<open>attr_repository\<close> states
  what the code relies on: the interned value compares equal to the given one under the comparison
  function the set was created with, an interned value is its own representative, and NULL stays
  NULL.  Inside the locale the attribute operations are shown to have the effect their callers
  expect.  The locale is interpreted on a repository that searches a list of values with
  \<open>path_cmp\<close> and \<open>comms_cmp\<close>.

  The default hash function of the paths (\<open>path_hash.c\<close>) asserts that the printed path fits a buffer of 1024 characters.
  This assertion is not part of the model: interning is total here, while the program stops on a path whose text is longer, which
  takes at least 171 AS numbers.  Statements that an operation on a route does not stop the program are meant for shorter paths.
\<close>

section \<open>Data\<close>

type_synonym bgp_cluster_id = "32 word"

record bgp_attr =
  next_hop :: net_addr
  origin :: bgp_origin
  local_pref :: "32 word"
  med :: "32 word"
  path_ref :: "bgp_path option"
  comms :: "bgp_comms option"
  ecomms :: "bgp_ecomms option"
  originator :: "net_addr option"
  cluster_list :: "bgp_cluster_id list option"

record attr_env =
  path_hash_add :: "bgp_path option \<Rightarrow> bgp_path option"
  comm_hash_add :: "bgp_comms option \<Rightarrow> bgp_comms option"

section \<open>Route-reflection attributes\<close>

definition cluster_list_append :: "bgp_cluster_id list \<Rightarrow> bgp_cluster_id \<Rightarrow> bgp_cluster_id list" where
  "cluster_list_append cl cluster_id = cl @ [cluster_id]"

fun ids_equal :: "bgp_cluster_id list \<Rightarrow> bgp_cluster_id list \<Rightarrow> bool" where
  "ids_equal (a # as) (b # bs) = (if a \<noteq> b then False else ids_equal as bs)"
| "ids_equal _ _ = True"

definition cluster_list_equals ::
    "bgp_cluster_id list option \<Rightarrow> bgp_cluster_id list option \<Rightarrow> bool" where
  "cluster_list_equals cl1 cl2 =
     (if cl1 = None \<and> cl2 = None then True
      else case (cl1, cl2) of
        (Some l1, Some l2) \<Rightarrow> if length l1 \<noteq> length l2 then False else ids_equal l1 l2
      | _ \<Rightarrow> False)"

definition cluster_list_contains :: "bgp_cluster_id list \<Rightarrow> bgp_cluster_id \<Rightarrow> bool" where
  "cluster_list_contains cl cluster_id = list_ex (\<lambda>c. c = cluster_id) cl"

definition originator_equals :: "net_addr option \<Rightarrow> net_addr option \<Rightarrow> bool" where
  "originator_equals orig1 orig2 =
     (if orig1 = None \<and> orig2 = None then True
      else case (orig1, orig2) of
        (Some o1, Some o2) \<Rightarrow> o1 = o2
      | _ \<Rightarrow> False)"

section \<open>Operations on attributes\<close>

definition bgp_attr_set_nexthop :: "net_addr \<Rightarrow> bgp_attr \<Rightarrow> bgp_attr" where
  "bgp_attr_set_nexthop nh attr = attr\<lparr>next_hop := nh\<rparr>"

definition bgp_attr_set_origin :: "bgp_origin \<Rightarrow> bgp_attr \<Rightarrow> bgp_attr" where
  "bgp_attr_set_origin o' attr = attr\<lparr>origin := o'\<rparr>"

text \<open>The assertion that the interned object is the given one becomes equality of values.\<close>

definition bgp_attr_path_copy ::
    "'e attr_env_scheme \<Rightarrow> bgp_attr \<Rightarrow> bgp_path option \<Rightarrow> bgp_attr option" where
  "bgp_attr_path_copy env attr path = do {
     assert_opt (path_hash_add env path = path);
     Some (attr\<lparr>path_ref := path_hash_add env path\<rparr>)
   }"

definition bgp_attr_set_path ::
    "'e attr_env_scheme \<Rightarrow> bgp_path option \<Rightarrow> bgp_attr \<Rightarrow> bgp_attr option" where
  "bgp_attr_set_path env path attr =
     (case path of
        None \<Rightarrow> Some (attr\<lparr>path_ref := None\<rparr>)
      | Some p \<Rightarrow> do {
          assert_opt (path_hash_add env (Some p) \<noteq> None);
          Some (attr\<lparr>path_ref := path_hash_add env (Some p)\<rparr>)
        })"

text \<open>The loop \<open>while (amount-- > 0)\<close>: \<^term>\<open>None\<close> is the stopped process, \<^term>\<open>Some None\<close> the failure of
  \<open>path_append\<close>.\<close>

fun path_append_times :: "nat \<Rightarrow> asn \<Rightarrow> bgp_path \<Rightarrow> bgp_path option option" where
  "path_append_times 0 a path = Some (Some path)"
| "path_append_times (Suc n) a path =
     (case path_append path a of
        None \<Rightarrow> None
      | Some (r, path') \<Rightarrow> if r < 0 then Some None else path_append_times n a path')"

definition bgp_attr_path_prepend ::
    "'e attr_env_scheme \<Rightarrow> asn \<Rightarrow> 8 word \<Rightarrow> bgp_attr \<Rightarrow> (int \<times> bgp_attr) option" where
  "bgp_attr_path_prepend env a amount attr =
     (let path = (case path_copy (path_ref attr) of None \<Rightarrow> [] | Some p \<Rightarrow> p) in
      case path_append_times (unat amount) a path of
        None \<Rightarrow> None
      | Some None \<Rightarrow> Some (-1, attr)
      | Some (Some path) \<Rightarrow> do {
          attr \<leftarrow> bgp_attr_set_path env (Some path) attr;
          Some (0, attr)
        })"

definition bgp_attr_path_rem_private ::
    "'e attr_env_scheme \<Rightarrow> bgp_attr \<Rightarrow> (int \<times> bgp_attr) option" where
  "bgp_attr_path_rem_private env attr =
     (let path = (case path_copy (path_ref attr) of None \<Rightarrow> [] | Some p \<Rightarrow> p) in do {
        attr \<leftarrow> bgp_attr_set_path env (Some (path_remove_private path)) attr;
        Some (0, attr)
      })"

definition bgp_attr_comm_copy ::
    "'e attr_env_scheme \<Rightarrow> bgp_attr \<Rightarrow> bgp_comms option \<Rightarrow> bgp_attr option" where
  "bgp_attr_comm_copy env attr cs = do {
     assert_opt (comm_hash_add env cs = cs);
     Some (attr\<lparr>comms := comm_hash_add env cs\<rparr>)
   }"

definition bgp_attr_set_comm ::
    "'e attr_env_scheme \<Rightarrow> bgp_comms option \<Rightarrow> bgp_attr \<Rightarrow> bgp_attr option" where
  "bgp_attr_set_comm env cs attr =
     (case cs of
        None \<Rightarrow> Some (attr\<lparr>comms := None\<rparr>)
      | Some vs \<Rightarrow> do {
          assert_opt (comm_hash_add env (Some vs) \<noteq> None);
          Some (attr\<lparr>comms := comm_hash_add env (Some vs)\<rparr>)
        })"

definition bgp_attr_comm_append ::
    "'e attr_env_scheme \<Rightarrow> bgp_comm \<Rightarrow> bgp_attr \<Rightarrow> (int \<times> bgp_attr) option" where
  "bgp_attr_comm_append env comm attr =
     (let cs = (case comms attr of None \<Rightarrow> [] | Some vs \<Rightarrow> vs) in do {
        (r, cs) \<leftarrow> comms_add cs comm;
        if r \<noteq> 0 then Some (-1, attr)
        else do {
          attr \<leftarrow> bgp_attr_set_comm env (Some cs) attr;
          Some (0, attr)
        }
      })"

definition bgp_attr_comm_remove ::
    "'e attr_env_scheme \<Rightarrow> bgp_comm \<Rightarrow> bgp_attr \<Rightarrow> bgp_attr option" where
  "bgp_attr_comm_remove env comm attr =
     (case comms attr of
        None \<Rightarrow> Some attr
      | Some vs \<Rightarrow> bgp_attr_set_comm env (comms_remove (Some vs) comm) attr)"

definition bgp_attr_comm_strip :: "bgp_attr \<Rightarrow> bgp_attr" where
  "bgp_attr_comm_strip attr = attr\<lparr>comms := None\<rparr>"

definition bgp_attr_ecomm_append :: "bgp_ecomm \<Rightarrow> bgp_attr \<Rightarrow> (int \<times> bgp_attr) option" where
  "bgp_attr_ecomm_append ecomm attr =
     (let cs = (case ecomms attr of None \<Rightarrow> [] | Some vs \<Rightarrow> vs) in do {
        (r, cs) \<leftarrow> ecomms_add cs ecomm;
        Some (r, attr\<lparr>ecomms := Some cs\<rparr>)
      })"

definition bgp_attr_originator_destroy :: "bgp_attr \<Rightarrow> bgp_attr" where
  "bgp_attr_originator_destroy attr = attr\<lparr>originator := None\<rparr>"

definition bgp_attr_cluster_list_destroy :: "bgp_attr \<Rightarrow> bgp_attr" where
  "bgp_attr_cluster_list_destroy attr = attr\<lparr>cluster_list := None\<rparr>"

definition bgp_attr_create ::
    "net_addr \<Rightarrow> bgp_origin \<Rightarrow> 32 word \<Rightarrow> 32 word \<Rightarrow> bgp_attr" where
  "bgp_attr_create nh o' pref m =
     \<lparr>next_hop = nh, origin = o', local_pref = pref, med = m, path_ref = None, comms = None,
      ecomms = None, originator = None, cluster_list = None\<rparr>"

definition bgp_attr_copy :: "'e attr_env_scheme \<Rightarrow> bgp_attr \<Rightarrow> bgp_attr option" where
  "bgp_attr_copy env attr = do {
     c \<leftarrow> bgp_attr_path_copy env
            (bgp_attr_create (next_hop attr) (origin attr) (local_pref attr) (med attr))
            (path_ref attr);
     c \<leftarrow> bgp_attr_comm_copy env c (comms attr);
     Some (c\<lparr>ecomms := ecomms attr, originator := originator attr,
             cluster_list := cluster_list attr\<rparr>)
   }"

text \<open>The result is true when the attributes are equal.\<close>

definition bgp_attr_cmp :: "bgp_attr \<Rightarrow> bgp_attr \<Rightarrow> bool option" where
  "bgp_attr_cmp attr1 attr2 =
     (if next_hop attr1 \<noteq> next_hop attr2 then Some False
      else if local_pref attr1 \<noteq> local_pref attr2 then Some False
      else do {
        b \<leftarrow> path_equals (path_ref attr1) (path_ref attr2);
        if \<not> b then Some False
        else if origin attr1 \<noteq> origin attr2 then Some False
        else if med attr1 \<noteq> med attr2 then Some False
        else if \<not> comms_equals (comms attr1) (comms attr2) then Some False
        else if \<not> ecomm_equals (ecomms attr1) (ecomms attr2) then Some False
        else if \<not> originator_equals (originator attr1) (originator attr2) then Some False
        else if \<not> cluster_list_equals (cluster_list attr1) (cluster_list attr2) then Some False
        else Some True
      })"

section \<open>The interface of the repositories\<close>

text \<open>The well-formed paths an attribute may hold; NULL and the empty path are allowed.\<close>

definition path_ref_wf :: "bgp_path option \<Rightarrow> bool" where
  "path_ref_wf p \<longleftrightarrow> (case p of None \<Rightarrow> True | Some segs \<Rightarrow> path_wf segs)"

definition ref_asns :: "bgp_path option \<Rightarrow> asn list" where
  "ref_asns p = (case p of None \<Rightarrow> [] | Some segs \<Rightarrow> path_asns segs)"

definition interned :: "'e attr_env_scheme \<Rightarrow> bgp_attr \<Rightarrow> bool" where
  "interned env attr \<longleftrightarrow>
     path_hash_add env (path_ref attr) = path_ref attr \<and> comm_hash_add env (comms attr) = comms attr"

locale attr_repository =
  fixes env :: "'e attr_env_scheme"
  assumes path_add_null: "path_hash_add env None = None"
    and path_add_cmp: "path_cmp (path_hash_add env p) p = 0"
    and path_add_some: "path_hash_add env (Some segs) \<noteq> None"
    and path_add_rep: "path_hash_add env (path_hash_add env p) = path_hash_add env p"
    and comm_add_null: "comm_hash_add env None = None"
    and comm_add_cmp: "comms_cmp (comm_hash_add env c) c = 0"
    and comm_add_some: "comm_hash_add env (Some vs) \<noteq> None"
    and comm_add_rep: "comm_hash_add env (comm_hash_add env c) = comm_hash_add env c"

lemma ref_asns_simps [simp]: "ref_asns None = []" "ref_asns (Some p) = path_asns p"
  by (simp_all add: ref_asns_def)

lemma path_contains_ref: "path_contains p a \<longleftrightarrow> a \<in> set (ref_asns p)"
  by (cases p) (simp_all add: path_contains_iff)

lemma path_cmp_0_ref_asns: "path_cmp p q = 0 \<Longrightarrow> ref_asns p = ref_asns q"
  by (auto simp: path_cmp_0_iff ref_asns_def path_asns_def split: option.splits)

lemma path_append_times_asns:
  "path_append_times n a p = Some (Some q) \<Longrightarrow> path_asns q = path_asns p @ replicate n a"
proof (induction n arbitrary: p)
  case (Suc n)
  then obtain r p' where app: "path_append p a = Some (r, p')" and "\<not> r < 0"
    and "path_append_times n a p' = Some (Some q)"
    by (auto split: option.splits if_splits)
  with Suc.IH [of p'] path_append_asns [OF app] show ?case
    by (auto simp: replicate_append_same)
qed simp

lemma path_append_times_wf:
  "path_append_times n a p = Some (Some q) \<Longrightarrow> path_wf p \<Longrightarrow> path_wf q"
proof (induction n arbitrary: p)
  case (Suc n)
  then obtain r p' where "path_append p a = Some (r, p')" "path_append_times n a p' = Some (Some q)"
    by (auto split: option.splits if_splits)
  with Suc show ?case by (blast intro: path_append_wf)
qed simp

lemma path_append_times_total:
  "path_wf p \<Longrightarrow> path_append_times n a p \<noteq> None"
proof (induction n arbitrary: p)
  case (Suc n)
  obtain r q where "path_append p a = Some (r, q)"
    using path_append_total [OF Suc.prems] by blast
  with Suc show ?case by (auto dest: path_append_wf)
qed simp

lemma cluster_list_equals_iff [simp]: "cluster_list_equals c1 c2 \<longleftrightarrow> c1 = c2"
proof -
  have "length l1 = length l2 \<Longrightarrow> ids_equal l1 l2 \<longleftrightarrow> l1 = l2" for l1 l2
    by (induction l1 l2 rule: ids_equal.induct) auto
  then show ?thesis by (auto simp: cluster_list_equals_def split: option.splits)
qed

lemma originator_equals_iff [simp]: "originator_equals o1 o2 \<longleftrightarrow> o1 = o2"
  by (auto simp: originator_equals_def split: option.splits)

lemma bgp_attr_cmp_refl: "path_ref_wf (path_ref a) \<Longrightarrow> bgp_attr_cmp a a = Some True"
  by (cases "path_ref a")
    (auto simp: bgp_attr_cmp_def path_ref_wf_def path_equals_def segs_equals_refl)

lemma bgp_attr_cmp_True:
  assumes "bgp_attr_cmp a b = Some True"
  shows "b\<lparr>path_ref := path_ref a\<rparr> = a \<and> path_equals (path_ref a) (path_ref b) = Some True"
  using assms
  by (cases a; cases b) (auto simp: bgp_attr_cmp_def bind_eq_Some_conv split: if_splits)

context attr_repository
begin

lemma path_add_asns [simp]: "ref_asns (path_hash_add env p) = ref_asns p"
  by (rule path_cmp_0_ref_asns) (rule path_add_cmp)

lemma comm_add_contains [simp]: "comms_contains (comm_hash_add env c) = comms_contains c"
  by (rule comms_cmp_0_contains) (rule comm_add_cmp)

lemma set_path_effect:
  "\<exists>q. bgp_attr_set_path env (Some p) attr = Some (attr\<lparr>path_ref := q\<rparr>)
     \<and> ref_asns q = path_asns p \<and> path_hash_add env q = q"
  using path_add_some [of p] path_add_asns [of "Some p"] path_add_rep [of "Some p"]
  by (intro exI [of _ "path_hash_add env (Some p)"])
    (auto simp: bgp_attr_set_path_def simp del: path_add_asns)

lemma prepend_effect:
  assumes "path_ref_wf (path_ref attr)"
  shows "(\<exists>q. bgp_attr_path_prepend env a n attr = Some (0, attr\<lparr>path_ref := q\<rparr>)
            \<and> ref_asns q = ref_asns (path_ref attr) @ replicate (unat n) a \<and> path_hash_add env q = q)
       \<or> bgp_attr_path_prepend env a n attr = Some (-1, attr)"
proof -
  let ?p = "case path_ref attr of None \<Rightarrow> [] | Some p \<Rightarrow> p"
  have p: "path_wf ?p" "path_asns ?p = ref_asns (path_ref attr)"
    using assms by (auto simp: path_ref_wf_def path_wf_def path_asns_def ref_asns_def split: option.splits)
  show ?thesis
  proof (cases "path_append_times (unat n) a ?p")
    case None
    then show ?thesis using path_append_times_total [OF p(1)] by blast
  next
    case (Some r)
    show ?thesis
    proof (cases r)
      case None
      then show ?thesis using Some by (simp add: bgp_attr_path_prepend_def)
    next
      case (Some q)
      with \<open>path_append_times (unat n) a ?p = Some r\<close>
      have app: "path_append_times (unat n) a ?p = Some (Some q)" by simp
      then show ?thesis
        using set_path_effect [of q attr] path_append_times_asns [OF app] p
        by (auto simp: bgp_attr_path_prepend_def)
    qed
  qed
qed

lemma rem_private_effect:
  "\<exists>q. bgp_attr_path_rem_private env attr = Some (0, attr\<lparr>path_ref := q\<rparr>)
     \<and> ref_asns q = filter (\<lambda>a. a < 64512) (ref_asns (path_ref attr)) \<and> path_hash_add env q = q"
proof -
  let ?p = "case path_ref attr of None \<Rightarrow> [] | Some p \<Rightarrow> p"
  have "path_asns ?p = ref_asns (path_ref attr)"
    by (auto simp: path_asns_def ref_asns_def split: option.splits)
  then show ?thesis
    using set_path_effect [of "path_remove_private ?p" attr]
    by (auto simp: bgp_attr_path_rem_private_def path_remove_private_asns)
qed

lemma set_comm_effect:
  "\<exists>d. bgp_attr_set_comm env c attr = Some (attr\<lparr>comms := d\<rparr>)
     \<and> comms_contains d = comms_contains c \<and> comm_hash_add env d = d"
  using comm_add_some comm_add_contains [of c] comm_add_rep [of c] comm_add_null
  by (intro exI [of _ "comm_hash_add env c"]; cases c)
    (auto simp: bgp_attr_set_comm_def simp del: comm_add_contains)

lemma comm_append_effect:
  assumes "length (case comms attr of None \<Rightarrow> [] | Some vs \<Rightarrow> vs) < 255"
  shows "\<exists>d. bgp_attr_comm_append env c attr = Some (0, attr\<lparr>comms := d\<rparr>)
     \<and> (\<forall>x. comms_contains d x \<longleftrightarrow> x = c \<or> comms_contains (comms attr) x)
     \<and> comm_hash_add env d = d"
proof -
  let ?vs = "case comms attr of None \<Rightarrow> [] | Some vs \<Rightarrow> vs"
  obtain d where "bgp_attr_set_comm env (Some (?vs @ [c])) attr = Some (attr\<lparr>comms := d\<rparr>)"
    and "comms_contains d = comms_contains (Some (?vs @ [c]))" "comm_hash_add env d = d"
    using set_comm_effect by blast
  with assms show ?thesis
    by (intro exI [of _ d])
      (auto simp: bgp_attr_comm_append_def comms_add_def assert_opt_def comms_contains_def
        list_ex_iff split: option.splits)
qed

lemma comm_remove_effect:
  "\<exists>d. bgp_attr_comm_remove env c attr = Some (attr\<lparr>comms := d\<rparr>)
     \<and> (\<forall>x. comms_contains d x \<longleftrightarrow> x \<noteq> c \<and> comms_contains (comms attr) x)"
proof (cases "comms attr")
  case None
  then show ?thesis
    by (intro exI [of _ None]) (simp add: bgp_attr_comm_remove_def comms_contains_def)
next
  case (Some vs)
  obtain d where "bgp_attr_set_comm env (comms_remove (Some vs) c) attr = Some (attr\<lparr>comms := d\<rparr>)"
    and "comms_contains d = comms_contains (comms_remove (Some vs) c)"
    using set_comm_effect by blast
  with Some show ?thesis
    by (intro exI [of _ d])
      (auto simp: bgp_attr_comm_remove_def comms_remove_eq comms_contains_def list_ex_iff Let_def
        filter_empty_conv split: if_splits)
qed

lemma copy_effect: "interned env attr \<Longrightarrow> bgp_attr_copy env attr = Some attr"
  by (cases attr)
    (simp add: interned_def bgp_attr_copy_def bgp_attr_path_copy_def bgp_attr_comm_copy_def
      bgp_attr_create_def assert_opt_def)

end

section \<open>A repository\<close>

text \<open>A repository that holds a list of values: an added value is represented by the first one in the
  list that compares equal to it, and by itself when there is none.\<close>

definition list_repository :: "bgp_path list \<Rightarrow> bgp_comms list \<Rightarrow> attr_env" where
  "list_repository ps cs =
     \<lparr>path_hash_add = (\<lambda>p. case p of None \<Rightarrow> None
        | Some segs \<Rightarrow> (case find (\<lambda>q. path_cmp (Some q) p = 0) ps of None \<Rightarrow> p | Some q \<Rightarrow> Some q)),
      comm_hash_add = (\<lambda>c. case c of None \<Rightarrow> None
        | Some vs \<Rightarrow> (case find (\<lambda>d. comms_cmp (Some d) c = 0) cs of None \<Rightarrow> c | Some d \<Rightarrow> Some d))\<rparr>"

lemma find_Some_holds: "find P xs = Some x \<Longrightarrow> P x"
  by (induction xs) (auto split: if_splits)

lemma find_cong_pred: "(\<And>x. P x = Q x) \<Longrightarrow> find P xs = find Q xs"
  by (induction xs) auto

interpretation list_repo: attr_repository "list_repository ps cs"
proof
  fix p segs c vs
  have pc: "path_cmp (Some q) r = 0 \<Longrightarrow> path_cmp (Some x) (Some q) = 0 \<longleftrightarrow> path_cmp (Some x) r = 0" for q r x
    by (auto simp: path_cmp_0_iff)
  have cc: "comms_cmp (Some q) r = 0 \<Longrightarrow> comms_cmp (Some x) (Some q) = 0 \<longleftrightarrow> comms_cmp (Some x) r = 0" for q r x
    by (auto simp: comms_cmp_0_iff)
  show "path_hash_add (list_repository ps cs) None = None"
    and "comm_hash_add (list_repository ps cs) None = None"
    and "path_hash_add (list_repository ps cs) (Some segs) \<noteq> None"
    and "comm_hash_add (list_repository ps cs) (Some vs) \<noteq> None"
    by (simp_all add: list_repository_def split: option.splits)
  show "path_cmp (path_hash_add (list_repository ps cs) p) p = 0"
    by (auto simp: list_repository_def path_cmp_0_iff split: option.splits dest: find_Some_holds)
  show "comms_cmp (comm_hash_add (list_repository ps cs) c) c = 0"
    by (auto simp: list_repository_def comms_cmp_0_iff split: option.splits dest: find_Some_holds)
  have pf: "find (\<lambda>x. path_cmp (Some x) (Some q) = 0) ps = find (\<lambda>x. path_cmp (Some x) r = 0) ps"
    if "find (\<lambda>x. path_cmp (Some x) r = 0) ps = Some q" for q r
    using pc [OF find_Some_holds [OF that]] by (rule find_cong_pred)
  have cf: "find (\<lambda>x. comms_cmp (Some x) (Some q) = 0) cs = find (\<lambda>x. comms_cmp (Some x) r = 0) cs"
    if "find (\<lambda>x. comms_cmp (Some x) r = 0) cs = Some q" for q r
    using cc [OF find_Some_holds [OF that]] by (rule find_cong_pred)
  show "path_hash_add (list_repository ps cs) (path_hash_add (list_repository ps cs) p)
      = path_hash_add (list_repository ps cs) p"
    by (auto simp: list_repository_def split: option.splits simp: pf)
  show "comm_hash_add (list_repository ps cs) (comm_hash_add (list_repository ps cs) c)
      = comm_hash_add (list_repository ps cs) c"
    by (auto simp: list_repository_def split: option.splits simp: cf)
qed

end
