(* ===== verification/Gds_Trie.thy ===== *)
theory Gds_Trie
  imports Net_Prefix "HOL-Library.AList"
begin

text \<open>
  The interface of the Patricia trie of libgds, on which the RIBs (\<open>src/bgp/rib.c\<close>) and the routing
  tables (\<open>src/net/routing.c\<close>) are built.

  The trie is not part of the repository, so its operations are parameters: the fields of the
  record \<open>trie_ops\<close>, passed to the definitions that use them.  The locale \<open>gds_trie\<close> states what the
  callers rely on: a value inserted for a prefix is found for every prefix with the same network
  and mask length and nothing else changes, a removed one is not found, the traversal visits every
  entry exactly once, and the best match is a longest stored prefix that covers the key.  The
  locale is interpreted on an implementation by association lists, which the witnesses use.
  The second interface is the sorted array without duplicates of libgds.
\<close>

section \<open>Tries\<close>

record ('t, 'v) trie_ops =
  trie_create :: 't
  trie_insert :: "'t \<Rightarrow> ip_pfx \<Rightarrow> 'v \<Rightarrow> bool \<Rightarrow> 't \<times> int"
    \<comment> \<open>the flag is \<open>TRIE_INSERT_OR_REPLACE\<close>\<close>
  trie_find_exact :: "'t \<Rightarrow> ip_pfx \<Rightarrow> 'v option"
  trie_find_best :: "'t \<Rightarrow> ip_pfx \<Rightarrow> 'v option"
  trie_remove :: "'t \<Rightarrow> ip_pfx \<Rightarrow> 't \<times> int"
  trie_entries :: "'t \<Rightarrow> (ip_pfx \<times> 'v) list"
    \<comment> \<open>the entries in the order \<open>trie_for_each\<close> visits them\<close>

definition pfx_covers :: "ip_pfx \<Rightarrow> ip_pfx \<Rightarrow> bool" where
  "pfx_covers q p \<longleftrightarrow> ip_prefix_in_prefix p q = Some True"

locale gds_trie =
  fixes ops :: "('t, 'v) trie_ops" and inv :: "'t \<Rightarrow> bool"
  assumes inv_create: "inv (trie_create ops)"
    and inv_insert: "inv t \<Longrightarrow> pfx_wf p \<Longrightarrow> inv (fst (trie_insert ops t p v r))"
    and inv_remove: "inv t \<Longrightarrow> pfx_wf p \<Longrightarrow> inv (fst (trie_remove ops t p))"
    and find_create: "trie_find_exact ops (trie_create ops) p = None"
    and find_insert: "inv t \<Longrightarrow> pfx_wf p \<Longrightarrow> r \<or> trie_find_exact ops t p = None \<Longrightarrow>
        trie_find_exact ops (fst (trie_insert ops t p v r)) q
          = (if pfx_norm q = pfx_norm p then Some v else trie_find_exact ops t q)"
    and insert_result: "inv t \<Longrightarrow> pfx_wf p \<Longrightarrow> r \<or> trie_find_exact ops t p = None \<Longrightarrow>
        snd (trie_insert ops t p v r) = 0"
    and find_remove: "inv t \<Longrightarrow> pfx_wf p \<Longrightarrow>
        trie_find_exact ops (fst (trie_remove ops t p)) q
          = (if pfx_norm q = pfx_norm p then None else trie_find_exact ops t q)"
    and remove_result: "inv t \<Longrightarrow> pfx_wf p \<Longrightarrow>
        snd (trie_remove ops t p) = 0 \<longleftrightarrow> trie_find_exact ops t p \<noteq> None"
    and find_norm: "inv t \<Longrightarrow> trie_find_exact ops t (pfx_norm p) = trie_find_exact ops t p"
    and entries_iff: "inv t \<Longrightarrow> (k, v) \<in> set (trie_entries ops t) \<longleftrightarrow>
        pfx_wf k \<and> pfx_norm k = k \<and> trie_find_exact ops t k = Some v"
    and entries_distinct: "inv t \<Longrightarrow> distinct (map fst (trie_entries ops t))"
    and find_best: "inv t \<Longrightarrow> pfx_wf p \<Longrightarrow>
        (case trie_find_best ops t p of
           None \<Rightarrow> \<forall>q. pfx_wf q \<and> pfx_covers q p \<longrightarrow> trie_find_exact ops t q = None
         | Some v \<Rightarrow> \<exists>q. pfx_wf q \<and> pfx_covers q p \<and> trie_find_exact ops t q = Some v \<and>
             (\<forall>q'. pfx_wf q' \<and> pfx_covers q' p \<and> trie_find_exact ops t q' \<noteq> None
                \<longrightarrow> mask q' \<le> mask q))"
begin

lemma find_same_norm: "inv t \<Longrightarrow> pfx_norm p = pfx_norm q \<Longrightarrow> trie_find_exact ops t p = trie_find_exact ops t q"
  by (metis find_norm)

lemma insert_same [simp]:
  "inv t \<Longrightarrow> pfx_wf p \<Longrightarrow> trie_find_exact ops (fst (trie_insert ops t p v True)) p = Some v"
  by (simp add: find_insert)

lemma remove_same [simp]:
  "inv t \<Longrightarrow> pfx_wf p \<Longrightarrow> trie_find_exact ops (fst (trie_remove ops t p)) p = None"
  by (simp add: find_remove)

lemma find_best_covers:
  assumes "inv t" "pfx_wf p" "trie_find_best ops t p = Some v"
  shows "\<exists>q. pfx_wf q \<and> pfx_covers q p \<and> trie_find_exact ops t q = Some v"
  using find_best [OF assms(1,2)] assms(3) by auto

end

section \<open>Association lists\<close>

type_synonym 'v alist_trie = "(ip_pfx \<times> 'v) list"

fun longest_match :: "ip_pfx \<Rightarrow> (ip_pfx \<times> 'v) list \<Rightarrow> (ip_pfx \<times> 'v) option" where
  "longest_match p [] = None"
| "longest_match p ((k, v) # es) =
     (case longest_match p es of
        None \<Rightarrow> if pfx_covers k p then Some (k, v) else None
      | Some (k', v') \<Rightarrow>
          if pfx_covers k p \<and> mask k' < mask k then Some (k, v) else Some (k', v'))"

definition alist_trie_ops :: "('v alist_trie, 'v) trie_ops" where
  "alist_trie_ops =
     \<lparr>trie_create = [],
      trie_insert = (\<lambda>t p v r.
        if r \<or> map_of t (pfx_norm p) = None then (AList.update (pfx_norm p) v t, 0) else (t, -1)),
      trie_find_exact = (\<lambda>t p. map_of t (pfx_norm p)),
      trie_find_best = (\<lambda>t p. map_option snd (longest_match p t)),
      trie_remove = (\<lambda>t p.
        (AList.delete (pfx_norm p) t, if map_of t (pfx_norm p) = None then -1 else 0)),
      trie_entries = (\<lambda>t. t)\<rparr>"

definition alist_trie_inv :: "'v alist_trie \<Rightarrow> bool" where
  "alist_trie_inv t \<longleftrightarrow> distinct (map fst t) \<and> (\<forall>(k, v)\<in>set t. pfx_wf k \<and> pfx_norm k = k)"

lemma pfx_norm_norm [simp]: "pfx_norm (pfx_norm p) = pfx_norm p"
  using pfx_norm_eq_iff [of "pfx_norm p" p]
  by (simp add: pfx_norm_def pfx_addrs_def bit_push_bit_iff bit_drop_bit_eq)

lemma pfx_covers_wf:
  "pfx_wf p \<Longrightarrow> pfx_wf q \<Longrightarrow> pfx_covers q p \<longleftrightarrow> pfx_addrs p \<subseteq> pfx_addrs q"
  by (simp add: pfx_covers_def ip_prefix_in_prefix_iff)

lemma pfx_addrs_norm [simp]: "pfx_wf p \<Longrightarrow> pfx_addrs (pfx_norm p) = pfx_addrs p"
  using pfx_norm_eq_iff_addrs [of "pfx_norm p" p] by simp

lemma pfx_covers_norm [simp]: "pfx_wf p \<Longrightarrow> pfx_wf q \<Longrightarrow> pfx_covers (pfx_norm q) p = pfx_covers q p"
  by (simp add: pfx_covers_wf)

lemma longest_match_spec:
  "case longest_match p es of
     None \<Rightarrow> \<forall>(k, v)\<in>set es. \<not> pfx_covers k p
   | Some (k, v) \<Rightarrow> (k, v) \<in> set es \<and> pfx_covers k p
       \<and> (\<forall>(k', v')\<in>set es. pfx_covers k' p \<longrightarrow> mask k' \<le> mask k)"
proof (induction es)
  case (Cons e es)
  obtain k v where e: "e = (k, v)" by (cases e)
  show ?case
  proof (cases "longest_match p es")
    case None
    with Cons show ?thesis by (auto simp: e)
  next
    case (Some kv)
    obtain k' v' where kv: "kv = (k', v')" by (cases kv)
    from Cons Some have IH: "(k', v') \<in> set es" "pfx_covers k' p"
      "pfx_covers k'' p \<Longrightarrow> mask k'' \<le> mask k'" if "(k'', v'') \<in> set es" for k'' v''
      using that by (auto simp: kv)
    with Cons Some show ?thesis
      by (auto simp: e kv not_less dest!: IH(3) intro: order.trans less_imp_le)
  qed
qed simp

interpretation alist: gds_trie alist_trie_ops alist_trie_inv
proof
  fix t :: "'v alist_trie" and p q k :: ip_pfx and v :: 'v and r :: bool
  show "alist_trie_inv (trie_create (alist_trie_ops :: ('v alist_trie, 'v) trie_ops))"
    by (simp add: alist_trie_ops_def alist_trie_inv_def)
  show "trie_find_exact alist_trie_ops (trie_create alist_trie_ops) p = (None :: 'v option)"
    by (simp add: alist_trie_ops_def)
  show "trie_find_exact alist_trie_ops t (pfx_norm p) = trie_find_exact alist_trie_ops t p"
    by (simp add: alist_trie_ops_def)
  assume inv: "alist_trie_inv t"
  then have dist: "distinct (map fst t)"
    and keys: "(k', v') \<in> set t \<Longrightarrow> pfx_wf k' \<and> pfx_norm k' = k'" for k' v'
    by (auto simp: alist_trie_inv_def)
  have of_iff: "map_of t k' = Some v' \<longleftrightarrow> (k', v') \<in> set t" for k' v'
    using dist by (simp add: map_of_eq_Some_iff)
  show "distinct (map fst (trie_entries alist_trie_ops t))"
    using dist by (simp add: alist_trie_ops_def)
  show "(k, v) \<in> set (trie_entries alist_trie_ops t) \<longleftrightarrow>
      pfx_wf k \<and> pfx_norm k = k \<and> trie_find_exact alist_trie_ops t k = Some v"
    using keys by (auto simp: alist_trie_ops_def of_iff)
  assume p: "pfx_wf p"
  show "alist_trie_inv (fst (trie_insert alist_trie_ops t p v r))"
  proof -
    have "(k', v') \<in> set (AList.update (pfx_norm p) v t) \<Longrightarrow> pfx_wf k' \<and> pfx_norm k' = k'" for k' v'
      using p keys map_of_eq_Some_iff [of "AList.update (pfx_norm p) v t" k' v'] of_iff [of k' v']
      by (auto simp: distinct_update dist update_conv' split: if_splits)
    then show ?thesis
      using inv by (auto simp: alist_trie_ops_def alist_trie_inv_def distinct_update)
  qed
  show "alist_trie_inv (fst (trie_remove alist_trie_ops t p))"
    using distinct_delete [OF dist, of "pfx_norm p"] keys
    by (auto simp: alist_trie_ops_def alist_trie_inv_def AList.delete_eq)
  show "trie_find_exact alist_trie_ops (fst (trie_remove alist_trie_ops t p)) q
      = (if pfx_norm q = pfx_norm p then None else trie_find_exact alist_trie_ops t q)"
    by (simp add: alist_trie_ops_def delete_conv')
  show "snd (trie_remove alist_trie_ops t p) = 0 \<longleftrightarrow> trie_find_exact alist_trie_ops t p \<noteq> None"
    by (simp add: alist_trie_ops_def)
  show "case trie_find_best alist_trie_ops t p of
           None \<Rightarrow> \<forall>q. pfx_wf q \<and> pfx_covers q p \<longrightarrow> trie_find_exact alist_trie_ops t q = None
         | Some v \<Rightarrow> \<exists>q. pfx_wf q \<and> pfx_covers q p \<and> trie_find_exact alist_trie_ops t q = Some v \<and>
             (\<forall>q'. pfx_wf q' \<and> pfx_covers q' p \<and> trie_find_exact alist_trie_ops t q' \<noteq> None
                \<longrightarrow> mask q' \<le> mask q)"
  proof (cases "longest_match p t")
    case None
    then have "\<forall>(k, v)\<in>set t. \<not> pfx_covers k p"
      using longest_match_spec [of t p] by simp
    then have "map_of t (pfx_norm q) = None" if "pfx_wf q" "pfx_covers q p" for q
      using that p by (force simp: map_of_eq_None_iff)
    with None show ?thesis by (simp add: alist_trie_ops_def)
  next
    case (Some kv)
    obtain k v where kv: "kv = (k, v)" by (cases kv)
    then have k: "(k, v) \<in> set t" "pfx_covers k p"
      and best: "\<forall>(k', v')\<in>set t. pfx_covers k' p \<longrightarrow> mask k' \<le> mask k"
      using longest_match_spec [of t p] Some by auto
    have "mask q' \<le> mask k"
      if q': "pfx_wf q'" "pfx_covers q' p" and found: "map_of t (pfx_norm q') \<noteq> None" for q'
    proof -
      from found obtain v' where "(pfx_norm q', v') \<in> set t" by (auto simp: of_iff)
      with best q' p show ?thesis by force
    qed
    then show ?thesis
      using Some kv k keys [OF k(1)] of_iff [of k v]
      by (auto simp: alist_trie_ops_def intro!: exI [of _ k])
  qed
  assume free: "r \<or> trie_find_exact alist_trie_ops t p = None"
  then show "trie_find_exact alist_trie_ops (fst (trie_insert alist_trie_ops t p v r)) q
      = (if pfx_norm q = pfx_norm p then Some v else trie_find_exact alist_trie_ops t q)"
    by (simp add: alist_trie_ops_def update_conv')
  show "snd (trie_insert alist_trie_ops t p v r) = 0"
    using free by (simp add: alist_trie_ops_def)
qed

section \<open>Sorted arrays\<close>

text \<open>\<open>ptr_array_add\<close> on an array with the options \<open>SORTED\<close> and \<open>UNIQUE\<close>: \<^term>\<open>None\<close> is a negative result
  (the element is a duplicate).\<close>

type_synonym 'a sorted_add = "'a list \<Rightarrow> 'a \<Rightarrow> 'a list option"

definition strict_sorted_by :: "('a \<Rightarrow> 'a \<Rightarrow> int) \<Rightarrow> 'a list \<Rightarrow> bool" where
  "strict_sorted_by cmp xs \<longleftrightarrow> sorted_wrt (\<lambda>x y. cmp x y < 0) xs"

text \<open>A comparison function that orders the elements of a set.\<close>

definition cmp_on :: "('a \<Rightarrow> 'a \<Rightarrow> int) \<Rightarrow> 'a set \<Rightarrow> bool" where
  "cmp_on cmp A \<longleftrightarrow>
     (\<forall>x\<in>A. \<forall>y\<in>A. cmp y x < 0 \<longleftrightarrow> cmp x y > 0)
   \<and> (\<forall>x\<in>A. \<forall>y\<in>A. \<forall>z\<in>A. cmp x y < 0 \<longrightarrow> cmp y z \<le> 0 \<longrightarrow> cmp x z < 0)
   \<and> (\<forall>x\<in>A. \<forall>y\<in>A. \<forall>z\<in>A. cmp x y \<le> 0 \<longrightarrow> cmp y z < 0 \<longrightarrow> cmp x z < 0)"

locale gds_sorted_array =
  fixes cmp :: "'a \<Rightarrow> 'a \<Rightarrow> int" and add :: "'a sorted_add"
  assumes add_new: "strict_sorted_by cmp xs \<Longrightarrow> cmp_on cmp (insert x (set xs)) \<Longrightarrow>
        \<forall>y\<in>set xs. cmp y x \<noteq> 0 \<Longrightarrow>
        \<exists>ys zs. xs = ys @ zs \<and> add xs x = Some (ys @ x # zs) \<and> strict_sorted_by cmp (ys @ x # zs)"
    and add_duplicate: "strict_sorted_by cmp xs \<Longrightarrow> cmp_on cmp (insert x (set xs)) \<Longrightarrow>
        \<exists>y\<in>set xs. cmp y x = 0 \<Longrightarrow> add xs x = None"
begin

lemma add_Some:
  assumes "strict_sorted_by cmp xs" "cmp_on cmp (insert x (set xs))" "add xs x = Some xs'"
  shows "set xs' = insert x (set xs) \<and> strict_sorted_by cmp xs' \<and> (\<forall>y\<in>set xs. cmp y x \<noteq> 0)"
proof -
  have "\<forall>y\<in>set xs. cmp y x \<noteq> 0"
    using add_duplicate [OF assms(1,2)] assms(3) by auto
  with add_new [OF assms(1,2)] assms(3) show ?thesis by auto
qed

end

fun insort_unique :: "('a \<Rightarrow> 'a \<Rightarrow> int) \<Rightarrow> 'a list \<Rightarrow> 'a \<Rightarrow> 'a list option" where
  "insort_unique cmp [] x = Some [x]"
| "insort_unique cmp (y # ys) x =
     (if cmp y x = 0 then None
      else if cmp x y < 0 then Some (x # y # ys)
      else map_option (\<lambda>zs. y # zs) (insort_unique cmp ys x))"

lemma cmp_on_subset: "cmp_on cmp B \<Longrightarrow> A \<subseteq> B \<Longrightarrow> cmp_on cmp A"
  unfolding cmp_on_def by blast

lemma cmp_onD:
  assumes "cmp_on cmp A" "x \<in> A" "y \<in> A"
  shows "cmp y x < 0 \<longleftrightarrow> cmp x y > 0"
    and "z \<in> A \<Longrightarrow> cmp x y < 0 \<Longrightarrow> cmp y z \<le> 0 \<Longrightarrow> cmp x z < 0"
    and "z \<in> A \<Longrightarrow> cmp x y \<le> 0 \<Longrightarrow> cmp y z < 0 \<Longrightarrow> cmp x z < 0"
  using assms unfolding cmp_on_def by blast+

lemma insort_unique_new:
  "strict_sorted_by cmp xs \<Longrightarrow> cmp_on cmp (insert x (set xs)) \<Longrightarrow> \<forall>y\<in>set xs. cmp y x \<noteq> 0 \<Longrightarrow>
     \<exists>ys zs. xs = ys @ zs \<and> insort_unique cmp xs x = Some (ys @ x # zs)
       \<and> (\<forall>y\<in>set ys. cmp y x < 0) \<and> (\<forall>z\<in>set zs. cmp x z < 0)"
proof (induction xs)
  case (Cons y xs)
  show ?case
  proof (cases "cmp x y < 0")
    case True
    have "\<forall>z\<in>set xs. cmp x z < 0"
    proof
      fix z assume "z \<in> set xs"
      moreover from this have "cmp y z < 0" using Cons.prems(1) by (simp add: strict_sorted_by_def)
      ultimately show "cmp x z < 0"
        using cmp_onD(2) [OF Cons.prems(2), of x y z] True by simp
    qed
    with True Cons.prems show ?thesis
      by (intro exI [of _ "[]"] exI [of _ "y # xs"] conjI) auto
  next
    case False
    then have yx: "cmp y x < 0"
      using cmp_onD(1) [OF Cons.prems(2), of y x] Cons.prems(3) by fastforce
    have "cmp_on cmp (insert x (set xs))"
      by (rule cmp_on_subset [OF Cons.prems(2)]) auto
    then obtain ys zs where "xs = ys @ zs" "insort_unique cmp xs x = Some (ys @ x # zs)"
      "\<forall>y\<in>set ys. cmp y x < 0" "\<forall>z\<in>set zs. cmp x z < 0"
      using Cons by (auto simp: strict_sorted_by_def)
    with yx False Cons.prems(3) show ?thesis
      by (intro exI [of _ "y # ys"] exI [of _ zs] conjI) auto
  qed
qed simp

lemma insort_unique_duplicate:
  "strict_sorted_by cmp xs \<Longrightarrow> cmp_on cmp (insert x (set xs)) \<Longrightarrow> \<exists>y\<in>set xs. cmp y x = 0 \<Longrightarrow>
     insort_unique cmp xs x = None"
proof (induction xs)
  case (Cons y xs)
  show ?case
  proof (cases "cmp y x = 0")
    case False
    then obtain z where z: "z \<in> set xs" "cmp z x = 0" using Cons.prems by auto
    have "cmp y z < 0" using Cons.prems(1) z by (auto simp: strict_sorted_by_def)
    then have "cmp y x < 0"
      using cmp_onD(2) [OF Cons.prems(2), of y z x] z by simp
    then have "\<not> cmp x y < 0"
      using cmp_onD(1) [OF Cons.prems(2), of y x] by simp
    moreover have "cmp_on cmp (insert x (set xs))"
      by (rule cmp_on_subset [OF Cons.prems(2)]) auto
    ultimately show ?thesis using Cons z False by (auto simp: strict_sorted_by_def)
  qed simp
qed simp

interpretation insort: gds_sorted_array cmp "insort_unique cmp" for cmp
proof
  fix xs x
  assume sorted: "strict_sorted_by cmp xs" and cmp: "cmp_on cmp (insert x (set xs))"
  show "\<exists>y\<in>set xs. cmp y x = 0 \<Longrightarrow> insort_unique cmp xs x = None"
    by (rule insort_unique_duplicate [OF sorted cmp])
  assume "\<forall>y\<in>set xs. cmp y x \<noteq> 0"
  from insort_unique_new [OF sorted cmp this]
  obtain ys zs where *: "xs = ys @ zs" "insort_unique cmp xs x = Some (ys @ x # zs)"
    "\<forall>y\<in>set ys. cmp y x < 0" "\<forall>z\<in>set zs. cmp x z < 0" by blast
  then have "strict_sorted_by cmp (ys @ x # zs)"
    using sorted by (auto simp: strict_sorted_by_def sorted_wrt_append)
  with * show "\<exists>ys zs. xs = ys @ zs \<and> insort_unique cmp xs x = Some (ys @ x # zs)
      \<and> strict_sorted_by cmp (ys @ x # zs)" by blast
qed

end
