(* ===== verification/Bgp_Route.thy ===== *)
theory Bgp_Route
  imports Bgp_Attr Gds_Trie
begin

text \<open>
  BGP routes and RIBs: \<open>src/bgp/route.c\<close>, \<open>src/bgp/routes_list.c\<close> and \<open>src/bgp/rib.c\<close>.

  The peer of a route is a reference; it is modelled by the address of the peer, which identifies
  it in its router (\<^term>\<open>None\<close> is NULL, a route of the router itself).  A RIB is a trie of routes.
  The build without the experimental options is modelled; \<open>__BGP_ROUTE_INFO_DP__\<close> is defined in
  \<open>types.h\<close>, so a route has a rank.
\<close>

unbundle bit_operations_syntax

section \<open>Data\<close>

record bgp_route =
  pfx :: ip_pfx
  peer :: "net_addr option"
  attr :: bgp_attr
  flags :: "16 word"
  rank :: "8 word"

type_synonym bgp_routes = "bgp_route list"

definition ROUTE_FLAG_FEASIBLE :: "16 word" where "ROUTE_FLAG_FEASIBLE = 0x0001"
definition ROUTE_FLAG_ELIGIBLE :: "16 word" where "ROUTE_FLAG_ELIGIBLE = 0x0002"
definition ROUTE_FLAG_BEST :: "16 word" where "ROUTE_FLAG_BEST = 0x0004"
definition ROUTE_FLAG_ADVERTISED :: "16 word" where "ROUTE_FLAG_ADVERTISED = 0x0008"
definition ROUTE_FLAG_DP_IGP :: "16 word" where "ROUTE_FLAG_DP_IGP = 0x0010"
definition ROUTE_FLAG_INTERNAL :: "16 word" where "ROUTE_FLAG_INTERNAL = 0x0020"
definition ROUTE_FLAG_RR_CLIENT :: "16 word" where "ROUTE_FLAG_RR_CLIENT = 0x1000"

definition ROUTE_PREF_DEFAULT :: "32 word" where "ROUTE_PREF_DEFAULT = 100"
definition ROUTE_MED_MISSING :: "32 word" where "ROUTE_MED_MISSING = - 1"
definition ROUTE_MED_DEFAULT :: "32 word" where "ROUTE_MED_DEFAULT = 0"

lemmas route_flag_defs =
  ROUTE_FLAG_FEASIBLE_def ROUTE_FLAG_ELIGIBLE_def ROUTE_FLAG_BEST_def ROUTE_FLAG_ADVERTISED_def
  ROUTE_FLAG_DP_IGP_def ROUTE_FLAG_INTERNAL_def ROUTE_FLAG_RR_CLIENT_def

section \<open>Routes\<close>

definition route_create2 :: "ip_pfx \<Rightarrow> net_addr option \<Rightarrow> bgp_attr \<Rightarrow> bgp_route" where
  "route_create2 p pr a = \<lparr>pfx = p, peer = pr, attr = a, flags = 0, rank = 0\<rparr>"

definition route_create :: "ip_pfx \<Rightarrow> net_addr option \<Rightarrow> net_addr \<Rightarrow> bgp_origin \<Rightarrow> bgp_route" where
  "route_create p pr nh o' =
     route_create2 p pr (bgp_attr_create nh o' ROUTE_PREF_DEFAULT ROUTE_MED_DEFAULT)"

definition route_flag_set :: "16 word \<Rightarrow> bool \<Rightarrow> bgp_route \<Rightarrow> bgp_route" where
  "route_flag_set flag state route =
     route\<lparr>flags := (if state then flags route OR flag else flags route AND NOT flag)\<rparr>"

definition route_flag_get :: "bgp_route \<Rightarrow> 16 word \<Rightarrow> bool" where
  "route_flag_get route flag \<longleftrightarrow> flags route AND flag \<noteq> 0"

definition route_peer_set :: "net_addr option \<Rightarrow> bgp_route \<Rightarrow> bgp_route" where
  "route_peer_set pr route = route\<lparr>peer := pr\<rparr>"

definition route_peer_get :: "bgp_route \<Rightarrow> net_addr option" where
  "route_peer_get route = do {
     assert_opt (peer route \<noteq> None);
     peer route
   }"

definition route_set_nexthop :: "net_addr \<Rightarrow> bgp_route \<Rightarrow> bgp_route" where
  "route_set_nexthop nh route = route\<lparr>attr := bgp_attr_set_nexthop nh (attr route)\<rparr>"

definition route_get_nexthop :: "bgp_route \<Rightarrow> net_addr" where
  "route_get_nexthop route = next_hop (attr route)"

definition route_set_origin :: "bgp_origin \<Rightarrow> bgp_route \<Rightarrow> bgp_route" where
  "route_set_origin o' route = route\<lparr>attr := bgp_attr_set_origin o' (attr route)\<rparr>"

definition route_get_origin :: "bgp_route \<Rightarrow> bgp_origin" where
  "route_get_origin route = origin (attr route)"

definition route_set_path ::
    "'e attr_env_scheme \<Rightarrow> bgp_path option \<Rightarrow> bgp_route \<Rightarrow> bgp_route option" where
  "route_set_path env path route = do {
     a \<leftarrow> bgp_attr_set_path env path (attr route);
     Some (route\<lparr>attr := a\<rparr>)
   }"

definition route_get_path :: "bgp_route \<Rightarrow> bgp_path option" where
  "route_get_path route = path_ref (attr route)"

definition route_path_prepend ::
    "'e attr_env_scheme \<Rightarrow> asn \<Rightarrow> 8 word \<Rightarrow> bgp_route \<Rightarrow> (int \<times> bgp_route) option" where
  "route_path_prepend env a amount route = do {
     (r, att) \<leftarrow> bgp_attr_path_prepend env a amount (attr route);
     Some (r, route\<lparr>attr := att\<rparr>)
   }"

definition route_path_rem_private ::
    "'e attr_env_scheme \<Rightarrow> bgp_route \<Rightarrow> (int \<times> bgp_route) option" where
  "route_path_rem_private env route = do {
     (r, att) \<leftarrow> bgp_attr_path_rem_private env (attr route);
     Some (r, route\<lparr>attr := att\<rparr>)
   }"

definition route_path_contains :: "bgp_route \<Rightarrow> asn \<Rightarrow> bool" where
  "route_path_contains route a \<longleftrightarrow>
     path_ref (attr route) \<noteq> None \<and> path_contains (path_ref (attr route)) a"

definition route_path_length :: "bgp_route \<Rightarrow> nat option" where
  "route_path_length route =
     (if path_ref (attr route) \<noteq> None then path_length (path_ref (attr route)) else Some 0)"

definition route_path_last_as :: "bgp_route \<Rightarrow> int option" where
  "route_path_last_as route =
     (if path_ref (attr route) \<noteq> None then path_last_as (path_ref (attr route)) else Some (-1))"

definition route_set_comm ::
    "'e attr_env_scheme \<Rightarrow> bgp_comms option \<Rightarrow> bgp_route \<Rightarrow> bgp_route option" where
  "route_set_comm env cs route = do {
     a \<leftarrow> bgp_attr_set_comm env cs (attr route);
     Some (route\<lparr>attr := a\<rparr>)
   }"

definition route_comm_append ::
    "'e attr_env_scheme \<Rightarrow> bgp_comm \<Rightarrow> bgp_route \<Rightarrow> (int \<times> bgp_route) option" where
  "route_comm_append env comm route = do {
     (r, a) \<leftarrow> bgp_attr_comm_append env comm (attr route);
     Some (r, route\<lparr>attr := a\<rparr>)
   }"

definition route_comm_strip :: "bgp_route \<Rightarrow> bgp_route" where
  "route_comm_strip route = route\<lparr>attr := bgp_attr_comm_strip (attr route)\<rparr>"

definition route_comm_remove ::
    "'e attr_env_scheme \<Rightarrow> bgp_comm \<Rightarrow> bgp_route \<Rightarrow> bgp_route option" where
  "route_comm_remove env comm route = do {
     a \<leftarrow> bgp_attr_comm_remove env comm (attr route);
     Some (route\<lparr>attr := a\<rparr>)
   }"

definition route_comm_contains :: "bgp_route \<Rightarrow> bgp_comm \<Rightarrow> bool" where
  "route_comm_contains route comm \<longleftrightarrow>
     comms (attr route) \<noteq> None \<and> comms_contains (comms (attr route)) comm"

definition route_ecomm_append :: "bgp_ecomm \<Rightarrow> bgp_route \<Rightarrow> (int \<times> bgp_route) option" where
  "route_ecomm_append comm route = do {
     (r, a) \<leftarrow> bgp_attr_ecomm_append comm (attr route);
     Some (r, route\<lparr>attr := a\<rparr>)
   }"

definition route_ecomm_strip_non_transitive :: "bgp_route \<Rightarrow> bgp_route" where
  "route_ecomm_strip_non_transitive route =
     route\<lparr>attr := (attr route)\<lparr>ecomms := ecomms_strip_non_transitive (ecomms (attr route))\<rparr>\<rparr>"

definition route_localpref_set :: "32 word \<Rightarrow> bgp_route \<Rightarrow> bgp_route" where
  "route_localpref_set pref route = route\<lparr>attr := (attr route)\<lparr>local_pref := pref\<rparr>\<rparr>"

definition route_localpref_get :: "bgp_route \<Rightarrow> 32 word" where
  "route_localpref_get route = local_pref (attr route)"

definition route_med_clear :: "bgp_route \<Rightarrow> bgp_route" where
  "route_med_clear route = route\<lparr>attr := (attr route)\<lparr>med := ROUTE_MED_MISSING\<rparr>\<rparr>"

definition route_med_set :: "32 word \<Rightarrow> bgp_route \<Rightarrow> bgp_route" where
  "route_med_set m route = route\<lparr>attr := (attr route)\<lparr>med := m\<rparr>\<rparr>"

definition route_med_get :: "bgp_route \<Rightarrow> 32 word" where
  "route_med_get route = med (attr route)"

definition route_originator_set :: "net_addr \<Rightarrow> bgp_route \<Rightarrow> bgp_route option" where
  "route_originator_set orig route = do {
     assert_opt (originator (attr route) = None);
     Some (route\<lparr>attr := (attr route)\<lparr>originator := Some orig\<rparr>\<rparr>)
   }"

text \<open>\<^term>\<open>None\<close> is the result -1.\<close>

definition route_originator_get :: "bgp_route \<Rightarrow> net_addr option" where
  "route_originator_get route = originator (attr route)"

definition route_originator_clear :: "bgp_route \<Rightarrow> bgp_route" where
  "route_originator_clear route = route\<lparr>attr := bgp_attr_originator_destroy (attr route)\<rparr>"

definition route_originator_equals :: "bgp_route \<Rightarrow> bgp_route \<Rightarrow> bool" where
  "route_originator_equals route1 route2 =
     originator_equals (originator (attr route1)) (originator (attr route2))"

definition route_cluster_list_set :: "bgp_route \<Rightarrow> bgp_route option" where
  "route_cluster_list_set route = do {
     assert_opt (cluster_list (attr route) = None);
     Some (route\<lparr>attr := (attr route)\<lparr>cluster_list := Some []\<rparr>\<rparr>)
   }"

definition route_cluster_list_append :: "bgp_cluster_id \<Rightarrow> bgp_route \<Rightarrow> bgp_route option" where
  "route_cluster_list_append cluster_id route = do {
     route \<leftarrow> (if cluster_list (attr route) = None then route_cluster_list_set route else Some route);
     cl \<leftarrow> cluster_list (attr route);
     Some (route\<lparr>attr := (attr route)\<lparr>cluster_list := Some (cluster_list_append cl cluster_id)\<rparr>\<rparr>)
   }"

definition route_cluster_list_clear :: "bgp_route \<Rightarrow> bgp_route" where
  "route_cluster_list_clear route = route\<lparr>attr := bgp_attr_cluster_list_destroy (attr route)\<rparr>"

definition route_cluster_list_equals :: "bgp_route \<Rightarrow> bgp_route \<Rightarrow> bool" where
  "route_cluster_list_equals route1 route2 =
     cluster_list_equals (cluster_list (attr route1)) (cluster_list (attr route2))"

definition route_cluster_list_contains :: "bgp_route \<Rightarrow> bgp_cluster_id \<Rightarrow> bool" where
  "route_cluster_list_contains route cluster_id =
     (case cluster_list (attr route) of
        Some cl \<Rightarrow> cluster_list_contains cl cluster_id
      | None \<Rightarrow> False)"

definition route_equals :: "bgp_route \<Rightarrow> bgp_route \<Rightarrow> bool option" where
  "route_equals route1 route2 = do {
     c \<leftarrow> ip_prefix_cmp (pfx route1) (pfx route2);
     if c \<noteq> 0 then Some False else bgp_attr_cmp (attr route1) (attr route2)
   }"

text \<open>The guard around the copy of the rank names a macro that is not defined
  (\<open>__BGP_ROUTE_DP_INFO__\<close>), so the copy has rank 0.\<close>

definition route_copy :: "'e attr_env_scheme \<Rightarrow> bgp_route \<Rightarrow> bgp_route option" where
  "route_copy env route = do {
     a \<leftarrow> bgp_attr_copy env (attr route);
     Some ((route_create2 (pfx route) (peer route) a)\<lparr>flags := flags route\<rparr>)
   }"

definition routes_list_append :: "bgp_routes \<Rightarrow> bgp_route \<Rightarrow> bgp_routes" where
  "routes_list_append routes route = routes @ [route]"

definition routes_list_remove_at :: "bgp_routes \<Rightarrow> nat \<Rightarrow> bgp_routes" where
  "routes_list_remove_at routes index = remove_at index routes"

section \<open>RIBs\<close>

type_synonym 't rib_ops = "('t, bgp_route) trie_ops"

definition rib_create :: "'t rib_ops \<Rightarrow> 't" where
  "rib_create ops = trie_create ops"

definition rib_find_best :: "'t rib_ops \<Rightarrow> 't \<Rightarrow> ip_pfx \<Rightarrow> bgp_route option" where
  "rib_find_best ops rib p = trie_find_best ops rib p"

definition rib_find_exact :: "'t rib_ops \<Rightarrow> 't \<Rightarrow> ip_pfx \<Rightarrow> bgp_route option" where
  "rib_find_exact ops rib p = trie_find_exact ops rib p"

definition rib_add_route :: "'t rib_ops \<Rightarrow> 't \<Rightarrow> bgp_route \<Rightarrow> int \<times> 't" where
  "rib_add_route ops rib route =
     (let (rib', result) = trie_insert ops rib (pfx route) route True
      in (if result = 0 then 0 else -1, rib'))"

definition rib_replace_route :: "'t rib_ops \<Rightarrow> 't \<Rightarrow> bgp_route \<Rightarrow> int \<times> 't" where
  "rib_replace_route ops rib route =
     (let (rib', result) = trie_insert ops rib (pfx route) route True in (result, rib'))"

definition rib_remove_route :: "'t rib_ops \<Rightarrow> 't \<Rightarrow> ip_pfx \<Rightarrow> int \<times> 't" where
  "rib_remove_route ops rib p = (let (rib', result) = trie_remove ops rib p in (result, rib'))"

text \<open>The routes in the order \<open>rib_for_each\<close> visits them.\<close>

definition rib_routes :: "'t rib_ops \<Rightarrow> 't \<Rightarrow> bgp_routes" where
  "rib_routes ops rib = map snd (trie_entries ops rib)"

section \<open>Lemmas\<close>

lemma route_flag_get_set:
  "route_flag_get (route_flag_set f b r) f \<longleftrightarrow> b \<and> f \<noteq> 0"
proof -
  have "(flags r OR f) AND f = f"
    by (rule bit_word_eqI) (auto simp: bit_and_iff bit_or_iff)
  moreover have "(flags r AND NOT f) AND f = 0"
    by (rule bit_word_eqI) (auto simp: bit_and_iff bit_not_iff)
  ultimately show ?thesis by (simp add: route_flag_get_def route_flag_set_def)
qed

lemma route_flag_get_set_other:
  assumes "f AND g = 0"
  shows "route_flag_get (route_flag_set f b r) g = route_flag_get r g"
proof -
  have fg: "\<not> (bit f n \<and> bit g n)" for n
    using arg_cong [OF assms, of "\<lambda>w. bit w n"] by (simp add: bit_and_iff)
  have "(flags r OR f) AND g = flags r AND g" "(flags r AND NOT f) AND g = flags r AND g"
    using fg by (auto intro!: bit_word_eqI simp: bit_and_iff bit_or_iff bit_not_iff)
  then show ?thesis by (simp add: route_flag_get_def route_flag_set_def)
qed

lemma route_flag_set_fields [simp]:
  "pfx (route_flag_set f b r) = pfx r" "peer (route_flag_set f b r) = peer r"
  "attr (route_flag_set f b r) = attr r" "rank (route_flag_set f b r) = rank r"
  by (simp_all add: route_flag_set_def)

lemma route_path_contains_ref: "route_path_contains r a \<longleftrightarrow> a \<in> set (ref_asns (path_ref (attr r)))"
  by (cases "path_ref (attr r)") (simp_all add: route_path_contains_def path_contains_ref)

lemma route_comm_contains_iff [simp]: "route_comm_contains r c = comms_contains (comms (attr r)) c"
  by (cases "comms (attr r)") (simp_all add: route_comm_contains_def comms_contains_def)

text \<open>A route the program handles: legal prefix, well-formed path, interned attributes.\<close>

definition route_wf :: "'e attr_env_scheme \<Rightarrow> bgp_route \<Rightarrow> bool" where
  "route_wf env r \<longleftrightarrow> pfx_wf (pfx r) \<and> path_ref_wf (path_ref (attr r)) \<and> interned env (attr r)"

lemma route_copy_interned:
  assumes "attr_repository env" "interned env (attr r)"
  shows "route_copy env r = Some (r\<lparr>rank := 0\<rparr>)"
  using attr_repository.copy_effect [OF assms] by (cases r) (simp add: route_copy_def route_create2_def)

lemma route_equals_refl: "route_wf env r \<Longrightarrow> route_equals r r = Some True"
  by (auto simp: route_wf_def route_equals_def bgp_attr_cmp_refl ip_prefix_cmp_0_iff bind_eq_Some_conv)

lemma ip_prefix_cmp_defined: "pfx_wf p \<Longrightarrow> pfx_wf q \<Longrightarrow> \<exists>c. ip_prefix_cmp p q = Some c"
  by (simp add: ip_prefix_cmp_wf)

lemma route_equals_Some_True:
  assumes "pfx_wf (pfx r)" "pfx_wf (pfx s)" "route_equals r s = Some True"
  shows "pfx_norm (pfx r) = pfx_norm (pfx s)"
    and "(attr s)\<lparr>path_ref := path_ref (attr r)\<rparr> = attr r"
    and "path_equals (path_ref (attr r)) (path_ref (attr s)) = Some True"
proof -
  obtain c where c: "ip_prefix_cmp (pfx r) (pfx s) = Some c"
    using ip_prefix_cmp_defined [OF assms(1,2)] by blast
  with assms(3) have "c = 0" "bgp_attr_cmp (attr r) (attr s) = Some True"
    by (auto simp: route_equals_def split: if_splits)
  then show "pfx_norm (pfx r) = pfx_norm (pfx s)"
    and "(attr s)\<lparr>path_ref := path_ref (attr r)\<rparr> = attr r"
    and "path_equals (path_ref (attr r)) (path_ref (attr s)) = Some True"
    using c ip_prefix_cmp_0_iff [OF assms(1,2)] bgp_attr_cmp_True by auto
qed

section \<open>RIBs as finite maps\<close>

locale bgp_rib =
  gds_trie ops rinv for ops :: "'t rib_ops" and rinv :: "'t \<Rightarrow> bool"
begin

lemma rib_find_create [simp]: "rib_find_exact ops (rib_create ops) q = None"
  by (simp add: rib_find_exact_def rib_create_def find_create)

lemma rib_add_effect:
  assumes "rinv rib" "pfx_wf (pfx r)"
  obtains rib' where "rib_add_route ops rib r = (0, rib')" "rib_replace_route ops rib r = (0, rib')" "rinv rib'"
    "\<And>q. rib_find_exact ops rib' q
       = (if pfx_norm q = pfx_norm (pfx r) then Some r else rib_find_exact ops rib q)"
proof
  let ?rib = "fst (trie_insert ops rib (pfx r) r True)"
  show "rib_add_route ops rib r = (0, ?rib)" "rib_replace_route ops rib r = (0, ?rib)"
    using insert_result [OF assms, of True r]
    by (auto simp: rib_add_route_def rib_replace_route_def split: prod.splits)
  show "rinv ?rib" using assms by (simp add: inv_insert)
  show "rib_find_exact ops ?rib q
       = (if pfx_norm q = pfx_norm (pfx r) then Some r else rib_find_exact ops rib q)" for q
    using assms by (simp add: rib_find_exact_def find_insert)
qed

lemma rib_remove_effect:
  assumes "rinv rib" "pfx_wf p"
  obtains result rib' where "rib_remove_route ops rib p = (result, rib')" "rinv rib'"
    "result = 0 \<longleftrightarrow> rib_find_exact ops rib p \<noteq> None"
    "\<And>q. rib_find_exact ops rib' q = (if pfx_norm q = pfx_norm p then None else rib_find_exact ops rib q)"
proof
  show "rib_remove_route ops rib p = (snd (trie_remove ops rib p), fst (trie_remove ops rib p))"
    by (simp add: rib_remove_route_def split: prod.splits)
qed (simp_all add: assms inv_remove remove_result find_remove rib_find_exact_def)

lemma rib_routes_iff:
  assumes "rinv rib"
  shows "s \<in> set (rib_routes ops rib) \<longleftrightarrow>
    (\<exists>q. pfx_wf q \<and> pfx_norm q = q \<and> rib_find_exact ops rib q = Some s)"
  using entries_iff [OF assms] by (force simp: rib_routes_def rib_find_exact_def)

end

interpretation alist_rib: bgp_rib alist_trie_ops alist_trie_inv
  by (simp add: bgp_rib_def alist.gds_trie_axioms)

section \<open>Properties\<close>

text \<open>A RIB behaves as a finite map from prefixes to routes: after a route is added (or replaced)
  it is found for its prefix, with any host bits, and every other prefix is unchanged; after a
  removal the prefix has no route, the others are unchanged, and the result tells whether there was
  one; the traversal visits exactly the stored routes.\<close>

theorem rib_map_laws:
  assumes "bgp_rib ops rinv" and "rinv rib" "pfx_wf (pfx r)" "pfx_wf p"
  shows "(\<exists>rib'. rib_add_route ops rib r = (0, rib') \<and> rinv rib'
      \<and> (\<forall>q. rib_find_exact ops rib' q
           = (if pfx_norm q = pfx_norm (pfx r) then Some r else rib_find_exact ops rib q)))
    \<and> (\<exists>result rib'. rib_remove_route ops rib p = (result, rib') \<and> rinv rib'
      \<and> (result = 0 \<longleftrightarrow> rib_find_exact ops rib p \<noteq> None)
      \<and> (\<forall>q. rib_find_exact ops rib' q
           = (if pfx_norm q = pfx_norm p then None else rib_find_exact ops rib q)))
    \<and> (s \<in> set (rib_routes ops rib) \<longleftrightarrow>
      (\<exists>q. pfx_wf q \<and> pfx_norm q = q \<and> rib_find_exact ops rib q = Some s))"
proof (intro conjI)
  show "\<exists>rib'. rib_add_route ops rib r = (0, rib') \<and> rinv rib'
      \<and> (\<forall>q. rib_find_exact ops rib' q
           = (if pfx_norm q = pfx_norm (pfx r) then Some r else rib_find_exact ops rib q))"
    using bgp_rib.rib_add_effect [OF assms(1-3)] by metis
  show "\<exists>result rib'. rib_remove_route ops rib p = (result, rib') \<and> rinv rib'
      \<and> (result = 0 \<longleftrightarrow> rib_find_exact ops rib p \<noteq> None)
      \<and> (\<forall>q. rib_find_exact ops rib' q
           = (if pfx_norm q = pfx_norm p then None else rib_find_exact ops rib q))"
    using bgp_rib.rib_remove_effect [OF assms(1,2,4)] by metis
  show "s \<in> set (rib_routes ops rib) \<longleftrightarrow>
      (\<exists>q. pfx_wf q \<and> pfx_norm q = q \<and> rib_find_exact ops rib q = Some s)"
    by (rule bgp_rib.rib_routes_iff [OF assms(1,2)])
qed

theorem rib_map_laws_witness:
  "\<exists>rib'. rib_add_route alist_trie_ops [] (route_create \<lparr>network = 1, mask = 8\<rparr> None 7 BGP_ORIGIN_IGP) = (0, rib')
     \<and> rib_find_exact alist_trie_ops rib' \<lparr>network = 2, mask = 8\<rparr>
       = Some (route_create \<lparr>network = 1, mask = 8\<rparr> None 7 BGP_ORIGIN_IGP)"
proof -
  let ?r = "route_create \<lparr>network = 1, mask = 8\<rparr> None 7 BGP_ORIGIN_IGP"
  have "pfx ?r = \<lparr>network = 1, mask = 8\<rparr>" by (simp add: route_create_def route_create2_def)
  moreover have "pfx_norm \<lparr>network = 1, mask = 8\<rparr> = pfx_norm \<lparr>network = 2, mask = 8\<rparr>" by code_simp
  ultimately show ?thesis
    using conjunct1 [OF rib_map_laws [OF alist_rib.bgp_rib_axioms, of "[]" ?r "\<lparr>network = 1, mask = 8\<rparr>"]]
    by (auto simp: alist_trie_inv_def pfx_wf_def)
qed

text \<open>\<open>route_equals\<close>, which decides whether an update has to be sent again, is reflexive on the
  routes the program handles, and routes it equates have the same prefix up to host bits and the
  same attributes, except that AS-SETs of the same length are not told apart.  The peer, the flags
  and the rank are not compared.\<close>

theorem route_equals_correct:
  assumes "route_wf env r" "route_wf env s"
  shows "route_equals r r = Some True
    \<and> (route_equals r s = Some True \<longrightarrow> pfx_norm (pfx r) = pfx_norm (pfx s)
      \<and> (attr s)\<lparr>path_ref := path_ref (attr r)\<rparr> = attr r
      \<and> path_equals (path_ref (attr r)) (path_ref (attr s)) = Some True)"
  using assms route_equals_refl route_equals_Some_True [of r s] by (auto simp: route_wf_def)

theorem route_equals_correct_witness:
  "route_equals (route_create \<lparr>network = 1, mask = 8\<rparr> None 7 BGP_ORIGIN_IGP)
     (route_create \<lparr>network = 1, mask = 8\<rparr> None 7 BGP_ORIGIN_IGP) = Some True"
  by (rule conjunct1 [OF route_equals_correct [where env = "list_repository [] []"
      and s = "route_create \<lparr>network = 1, mask = 8\<rparr> None 7 BGP_ORIGIN_IGP"]])
    (simp_all add: route_wf_def route_create_def route_create2_def bgp_attr_create_def pfx_wf_def
      path_ref_wf_def interned_def list_repository_def)

text \<open>The copy of a route has rank 0, whatever the rank of the original.\<close>

lemma route_copy_loses_rank: "route_copy env r = Some r' \<Longrightarrow> rank r' = 0"
  by (auto simp: route_copy_def route_create2_def bind_eq_Some_conv)

end
