(* ===== verification/Net_Routing.thy ===== *)
theory Net_Routing
  imports Gds_Trie
begin

text \<open>
  The routing table of a node: \<open>src/net/routing.c\<close>, \<open>src/net/rt_filter.c\<close> and the routing table
  functions of \<open>src/net/node.c\<close>.

  A routing table is a trie of lists of routes (\<open>rt_info\<close>), one list per prefix, ordered by type and
  metric; a route has a list of entries (outgoing interface and gateway) for equal-cost paths.  The
  trie and the two sorted arrays are the parameters collected in \<open>rt_env\<close>.  The invariant \<open>rt_inv\<close>
  says that every list in the table is ordered, free of duplicates and not empty; the lookup
  functions assert the latter.  The locale \<open>routing_table\<close> gathers the laws of the trie and of the
  array of routes; in it every operation is shown to keep the invariant and to change the table
  as documented.
\<close>

unbundle bit_operations_syntax

section \<open>Data\<close>

definition NET_ROUTE_ANY :: "8 word" where "NET_ROUTE_ANY = 0xFF"
definition NET_ROUTE_DIRECT :: "8 word" where "NET_ROUTE_DIRECT = 0x01"
definition NET_ROUTE_STATIC :: "8 word" where "NET_ROUTE_STATIC = 0x02"
definition NET_ROUTE_IGP :: "8 word" where "NET_ROUTE_IGP = 0x04"
definition NET_ROUTE_BGP :: "8 word" where "NET_ROUTE_BGP = 0x08"

text \<open>What the routing table uses of an interface: its identity and its address.\<close>

record iface_ref =
  if_id :: nat
  if_addr :: net_addr

record rt_entry =
  oif :: "iface_ref option"
  gateway :: net_addr

record rt_info =
  rt_prefix :: ip_pfx
  metric :: "32 word"
  entries :: "rt_entry list"
  rt_type :: "8 word"

record rt_filter =
  flt_prefix :: "ip_pfx option"
  flt_oif :: "iface_ref option"
  flt_gateway :: "net_addr option"
  flt_type :: "8 word"
  matches :: nat
  del_list :: "ip_pfx list option"

record 't rt_env =
  rt_trie :: "('t, rt_info list) trie_ops"
  infos_add :: "rt_info sorted_add"
  entries_add :: "rt_entry sorted_add"

section \<open>Entries and routes\<close>

definition rt_entry_compare :: "rt_entry \<Rightarrow> rt_entry \<Rightarrow> int" where
  "rt_entry_compare entry1 entry2 =
     (if gateway entry1 > gateway entry2 then 1
      else if gateway entry1 < gateway entry2 then -1
      else case oif entry1 of
        None \<Rightarrow> 1
      | Some o1 \<Rightarrow>
          (case oif entry2 of
             None \<Rightarrow> -1
           | Some o2 \<Rightarrow>
               if if_addr o1 > if_addr o2 then 1
               else if if_addr o1 < if_addr o2 then -1
               else 0))"

definition rt_entries_add :: "('t, 'z) rt_env_scheme \<Rightarrow> rt_entry list \<Rightarrow> rt_entry \<Rightarrow> int \<times> rt_entry list" where
  "rt_entries_add env es entry =
     (case entries_add env es entry of
        Some es' \<Rightarrow> (ESUCCESS, es')
      | None \<Rightarrow> (ENET_RT_DUPLICATE, es))"

definition rt_info_create :: "ip_pfx \<Rightarrow> 32 word \<Rightarrow> 8 word \<Rightarrow> rt_info" where
  "rt_info_create pfx m t = \<lparr>rt_prefix = pfx, metric = m, entries = [], rt_type = t\<rparr>"

definition rt_info_add_entry ::
    "('t, 'z) rt_env_scheme \<Rightarrow> rt_info \<Rightarrow> iface_ref option \<Rightarrow> net_addr \<Rightarrow> int \<times> rt_info" where
  "rt_info_add_entry env rtinfo oif' gw =
     (let (result, es) = rt_entries_add env (entries rtinfo) \<lparr>oif = oif', gateway = gw\<rparr>
      in (result, rtinfo\<lparr>entries := es\<rparr>))"

definition rt_info_list_cmp :: "rt_info \<Rightarrow> rt_info \<Rightarrow> int" where
  "rt_info_list_cmp rtinfo1 rtinfo2 =
     (if rt_type rtinfo1 > rt_type rtinfo2 then 1
      else if rt_type rtinfo1 < rt_type rtinfo2 then -1
      else if metric rtinfo1 > metric rtinfo2 then 1
      else if metric rtinfo1 < metric rtinfo2 then -1
      else 0)"

definition rt_info_list_add ::
    "('t, 'z) rt_env_scheme \<Rightarrow> rt_info list \<Rightarrow> rt_info \<Rightarrow> int \<times> rt_info list" where
  "rt_info_list_add env infos rtinfo =
     (case infos_add env infos rtinfo of
        None \<Rightarrow> (ENET_RT_DUPLICATE, infos)
      | Some infos' \<Rightarrow> (ESUCCESS, infos'))"

section \<open>Filters\<close>

definition rt_filter_create :: "rt_filter" where
  "rt_filter_create =
     \<lparr>flt_prefix = None, flt_oif = None, flt_gateway = None, flt_type = NET_ROUTE_ANY,
      matches = 0, del_list = None\<rparr>"

text \<open>The test of \<open>rt_filter_matches\<close>; the entry at index 0 is dereferenced only when the filter has an
  interface or a gateway.\<close>

definition rt_filter_test :: "rt_filter \<Rightarrow> rt_info \<Rightarrow> bool option" where
  "rt_filter_test flt rtinfo = do {
     assert_opt (entries rtinfo \<noteq> [] \<or> (flt_oif flt = None \<and> flt_gateway flt = None));
     let rtentry = hd (entries rtinfo) in
     if flt_oif flt \<noteq> None \<and> map_option if_id (flt_oif flt) \<noteq> map_option if_id (oif rtentry)
     then Some False
     else if flt_gateway flt \<noteq> None \<and> flt_gateway flt \<noteq> Some (gateway rtentry) then Some False
     else if flt_type flt \<noteq> NET_ROUTE_ANY \<and> flt_type flt \<noteq> rt_type rtinfo then Some False
     else Some True
   }"

definition net_info_schedule_removal :: "rt_filter \<Rightarrow> ip_pfx \<Rightarrow> rt_filter" where
  "net_info_schedule_removal flt pfx =
     flt\<lparr>del_list := Some ((case del_list flt of None \<Rightarrow> [] | Some ps \<Rightarrow> ps) @ [pfx])\<rparr>"

text \<open>The result code, the list afterwards and the filter afterwards (its counter of matches and its
  list of prefixes to remove).\<close>

definition rt_info_list_del ::
    "rt_info list \<Rightarrow> rt_filter \<Rightarrow> ip_pfx \<Rightarrow> (int \<times> rt_info list \<times> rt_filter) option" where
  "rt_info_list_del infos flt pfx = do {
     infos' \<leftarrow> remove_loop (rt_filter_test flt) 0 infos;
     let del_count = length infos - length infos';
         flt' = flt\<lparr>matches := matches flt + del_count\<rparr>;
         flt' = (if infos' = [] then net_info_schedule_removal flt' pfx else flt')
     in Some (if del_count > 0 then ESUCCESS else ENET_RT_UNKNOWN, infos', flt')
   }"

section \<open>The table\<close>

definition rt_create :: "('t, 'z) rt_env_scheme \<Rightarrow> 't" where
  "rt_create env = trie_create (rt_trie env)"

definition first_of_type :: "8 word \<Rightarrow> rt_info list \<Rightarrow> rt_info option option" where
  "first_of_type t infos = do {
     assert_opt (length infos \<noteq> 0);
     Some (find (\<lambda>rtinfo. rt_type rtinfo AND t \<noteq> 0) infos)
   }"

definition rt_find_best ::
    "('t, 'z) rt_env_scheme \<Rightarrow> 't \<Rightarrow> net_addr \<Rightarrow> 8 word \<Rightarrow> rt_info option option" where
  "rt_find_best env rt addr t =
     (case trie_find_best (rt_trie env) rt \<lparr>network = addr, mask = 32\<rparr> of
        None \<Rightarrow> Some None
      | Some infos \<Rightarrow> first_of_type t infos)"

definition rt_find_exact ::
    "('t, 'z) rt_env_scheme \<Rightarrow> 't \<Rightarrow> ip_pfx \<Rightarrow> 8 word \<Rightarrow> rt_info option option" where
  "rt_find_exact env rt pfx t =
     (case trie_find_exact (rt_trie env) rt pfx of
        None \<Rightarrow> Some None
      | Some infos \<Rightarrow> first_of_type t infos)"

text \<open>The list of routes of a prefix is stored by reference: a change of the list is a replacement of
  the value in the trie.\<close>

definition rt_add_route ::
    "('t, 'z) rt_env_scheme \<Rightarrow> 't \<Rightarrow> ip_pfx \<Rightarrow> rt_info \<Rightarrow> (int \<times> 't) option" where
  "rt_add_route env rt pfx rtinfo =
     (case trie_find_exact (rt_trie env) rt pfx of
        None \<Rightarrow>
          (let (result, infos) = rt_info_list_add env [] rtinfo in do {
             assert_opt (result = ESUCCESS);
             Some (ESUCCESS, fst (trie_insert (rt_trie env) rt pfx infos False))
           })
      | Some infos \<Rightarrow>
          (let (result, infos') = rt_info_list_add env infos rtinfo
           in Some (result, fst (trie_insert (rt_trie env) rt pfx infos' True))))"

definition rt_del_for_each ::
    "ip_pfx \<Rightarrow> rt_info list option \<Rightarrow> rt_filter \<Rightarrow> (int \<times> rt_info list option \<times> rt_filter) option" where
  "rt_del_for_each pfx infos flt =
     (case infos of
        None \<Rightarrow> Some (-1, None, flt)
      | Some is \<Rightarrow> do {
          (result, is', flt') \<leftarrow> rt_info_list_del is flt pfx;
          Some (if flt_prefix flt \<noteq> None \<and> flt_oif flt \<noteq> None \<and> flt_gateway flt \<noteq> None
                then result else 0, Some is', flt')
        })"

definition write_back ::
    "('t, 'z) rt_env_scheme \<Rightarrow> ip_pfx \<Rightarrow> rt_info list option \<Rightarrow> 't \<Rightarrow> 't" where
  "write_back env pfx infos rt =
     (case infos of None \<Rightarrow> rt | Some is \<Rightarrow> fst (trie_insert (rt_trie env) rt pfx is True))"

text \<open>\<open>trie_for_each\<close> with \<open>_rt_del_for_each\<close>; the traversal ends at the first result that is not 0.\<close>

fun rt_del_all ::
    "('t, 'z) rt_env_scheme \<Rightarrow> (ip_pfx \<times> rt_info list) list \<Rightarrow> 't \<Rightarrow> rt_filter \<Rightarrow> (int \<times> 't \<times> rt_filter) option" where
  "rt_del_all env [] rt flt = Some (0, rt, flt)"
| "rt_del_all env ((pfx, infos) # es) rt flt = do {
     (result, infos', flt) \<leftarrow> rt_del_for_each pfx (Some infos) flt;
     let rt = write_back env pfx infos' rt in
     if result \<noteq> 0 then Some (result, rt, flt) else rt_del_all env es rt flt
   }"

fun net_info_removal_loop :: "('t, 'z) rt_env_scheme \<Rightarrow> ip_pfx list \<Rightarrow> 't \<Rightarrow> 't" where
  "net_info_removal_loop env [] rt = rt"
| "net_info_removal_loop env (p # ps) rt =
     (let (rt', result) = trie_remove (rt_trie env) rt p in
      if result \<noteq> 0 then rt' else net_info_removal_loop env ps rt')"

definition net_info_removal :: "('t, 'z) rt_env_scheme \<Rightarrow> rt_filter \<Rightarrow> 't \<Rightarrow> 't" where
  "net_info_removal env flt rt =
     (case del_list flt of None \<Rightarrow> rt | Some ps \<Rightarrow> net_info_removal_loop env ps rt)"

definition rt_del_routes ::
    "('t, 'z) rt_env_scheme \<Rightarrow> 't \<Rightarrow> rt_filter \<Rightarrow> (int \<times> 't) option" where
  "rt_del_routes env rt flt =
     (case flt_prefix flt of
        Some pfx \<Rightarrow> do {
          (error, infos, flt) \<leftarrow> rt_del_for_each pfx (trie_find_exact (rt_trie env) rt pfx) flt;
          Some (error, net_info_removal env flt (write_back env pfx infos rt))
        }
      | None \<Rightarrow> do {
          (error, rt, flt) \<leftarrow> rt_del_all env (trie_entries (rt_trie env) rt) rt flt;
          Some (error, net_info_removal env flt rt)
        })"

definition rt_del_route ::
    "('t, 'z) rt_env_scheme \<Rightarrow> 't \<Rightarrow> ip_pfx option \<Rightarrow> iface_ref option \<Rightarrow> net_addr option \<Rightarrow> 8 word
     \<Rightarrow> (int \<times> 't) option" where
  "rt_del_route env rt pfx oif' gw t =
     rt_del_routes env rt
       (rt_filter_create\<lparr>flt_prefix := pfx, flt_oif := oif', flt_gateway := gw, flt_type := t\<rparr>)"

text \<open>\<open>node_rt_lookup\<close> and \<open>node_rt_lookup2\<close> of a node with a routing table.\<close>

definition node_rt_lookup2 :: "('t, 'z) rt_env_scheme \<Rightarrow> 't \<Rightarrow> net_addr \<Rightarrow> rt_info option option" where
  "node_rt_lookup2 env rt dst_addr = rt_find_best env rt dst_addr NET_ROUTE_ANY"

definition node_rt_lookup :: "('t, 'z) rt_env_scheme \<Rightarrow> 't \<Rightarrow> net_addr \<Rightarrow> rt_entry list option option" where
  "node_rt_lookup env rt dst_addr =
     map_option (map_option entries) (rt_find_best env rt dst_addr NET_ROUTE_ANY)"

section \<open>Invariant\<close>

definition infos_ok :: "rt_info list \<Rightarrow> bool" where
  "infos_ok infos \<longleftrightarrow> infos \<noteq> [] \<and> strict_sorted_by rt_info_list_cmp infos"

definition rt_inv :: "('t, 'z) rt_env_scheme \<Rightarrow> 't \<Rightarrow> bool" where
  "rt_inv env rt \<longleftrightarrow>
     (\<forall>p infos. trie_find_exact (rt_trie env) rt p = Some infos \<longrightarrow> infos_ok infos)"

text \<open>The routes of the table towards a prefix.\<close>

definition rt_routes :: "('t, 'z) rt_env_scheme \<Rightarrow> 't \<Rightarrow> ip_pfx \<Rightarrow> rt_info list" where
  "rt_routes env rt p =
     (case trie_find_exact (rt_trie env) rt p of None \<Rightarrow> [] | Some infos \<Rightarrow> infos)"

section \<open>Lemmas\<close>

lemma rt_info_cmp_on: "cmp_on rt_info_list_cmp A"
  unfolding cmp_on_def rt_info_list_cmp_def by (auto split: if_splits)

lemma strict_sorted_filter: "strict_sorted_by cmp xs \<Longrightarrow> strict_sorted_by cmp (filter P xs)"
  by (simp add: strict_sorted_by_def sorted_wrt_filter)

lemma first_of_type_ok:
  assumes "infos_ok infos"
  shows "first_of_type t infos = Some (find (\<lambda>i. rt_type i AND t \<noteq> 0) infos)"
  using assms by (simp add: first_of_type_def infos_ok_def assert_opt_def)

lemma find_sorted_first:
  assumes "strict_sorted_by cmp xs" "find P xs = Some x"
  shows "x \<in> set xs \<and> P x \<and> (\<forall>y\<in>set xs. P y \<longrightarrow> y = x \<or> cmp x y < 0)"
  using assms
  by (induction xs) (auto simp: strict_sorted_by_def split: if_splits)

lemma pfx_addrs_host: "pfx_addrs \<lparr>network = a, mask = 32\<rparr> = {a}"
  by (auto simp: pfx_addrs_def intro: bit_word_eqI)

lemma pfx_covers_host: "pfx_wf q \<Longrightarrow> pfx_covers q \<lparr>network = a, mask = 32\<rparr> \<longleftrightarrow> a \<in> pfx_addrs q"
  by (simp add: pfx_covers_wf pfx_addrs_host pfx_wf_def)

lemma and_any: "t AND NET_ROUTE_ANY = t"
proof -
  have "NET_ROUTE_ANY = - 1" by (simp add: NET_ROUTE_ANY_def)
  then have "t AND NET_ROUTE_ANY = t AND - 1" by (simp only:)
  also have "\<dots> = t" by simp
  finally show ?thesis .
qed

locale routing_table =
  gds_trie "rt_trie env" tinv + infos: gds_sorted_array rt_info_list_cmp "infos_add env"
  for env :: "('t, 'z) rt_env_scheme" and tinv :: "'t \<Rightarrow> bool"
begin

lemma rt_inv_create: "rt_inv env (rt_create env)"
  by (simp add: rt_inv_def rt_create_def find_create)

lemma rt_routes_insert:
  "tinv rt \<Longrightarrow> pfx_wf p \<Longrightarrow> r \<or> trie_find_exact (rt_trie env) rt p = None \<Longrightarrow>
   rt_routes env (fst (trie_insert (rt_trie env) rt p infos r)) q
     = (if pfx_norm q = pfx_norm p then infos else rt_routes env rt q)"
  by (simp add: rt_routes_def find_insert)

lemma rt_inv_insert:
  "tinv rt \<Longrightarrow> pfx_wf p \<Longrightarrow> rt_inv env rt \<Longrightarrow> infos_ok infos \<Longrightarrow>
   r \<or> trie_find_exact (rt_trie env) rt p = None \<Longrightarrow>
   rt_inv env (fst (trie_insert (rt_trie env) rt p infos r))"
  by (auto simp: rt_inv_def find_insert split: if_splits)

lemma list_add_cases:
  assumes "infos = [] \<or> infos_ok infos"
  obtains (dup) "rt_info_list_add env infos i = (ENET_RT_DUPLICATE, infos)"
      "\<exists>j\<in>set infos. rt_type j = rt_type i \<and> metric j = metric i"
  | (new) infos' where "rt_info_list_add env infos i = (ESUCCESS, infos')" "infos_ok infos'"
      "set infos' = insert i (set infos)"
      "\<not> (\<exists>j\<in>set infos. rt_type j = rt_type i \<and> metric j = metric i)"
proof -
  have sorted: "strict_sorted_by rt_info_list_cmp infos"
    using assms by (auto simp: infos_ok_def strict_sorted_by_def)
  have same: "rt_info_list_cmp j i = 0 \<longleftrightarrow> rt_type j = rt_type i \<and> metric j = metric i" for j
    by (auto simp: rt_info_list_cmp_def)
  show thesis
  proof (cases "infos_add env infos i")
    case None
    then have "\<exists>j\<in>set infos. rt_info_list_cmp j i = 0"
      using infos.add_new [OF sorted rt_info_cmp_on, of i] by fastforce
    with None show thesis by (intro dup) (auto simp: rt_info_list_add_def same)
  next
    case (Some infos')
    from infos.add_Some [OF sorted rt_info_cmp_on Some] Some show thesis
      by (intro new [of infos']) (auto simp: rt_info_list_add_def same infos_ok_def)
  qed
qed

lemma find_ok:
  "rt_inv env rt \<Longrightarrow> trie_find_exact (rt_trie env) rt p = Some infos \<Longrightarrow> infos_ok infos"
  by (auto simp: rt_inv_def)

lemma routes_ok: "rt_inv env rt \<Longrightarrow> rt_routes env rt p = [] \<or> infos_ok (rt_routes env rt p)"
  by (auto simp: rt_routes_def dest: find_ok split: option.splits)

lemma add_route_effect:
  assumes rt: "tinv rt" "rt_inv env rt" and p: "pfx_wf p"
  obtains rt' where "rt_add_route env rt p i = Some (ESUCCESS, rt')" "tinv rt'" "rt_inv env rt'"
      "set (rt_routes env rt' p) = insert i (set (rt_routes env rt p))"
      "\<forall>q. pfx_norm q \<noteq> pfx_norm p \<longrightarrow> rt_routes env rt' q = rt_routes env rt q"
      "\<not> (\<exists>j\<in>set (rt_routes env rt p). rt_type j = rt_type i \<and> metric j = metric i)"
  | rt' where "rt_add_route env rt p i = Some (ENET_RT_DUPLICATE, rt')" "tinv rt'" "rt_inv env rt'"
      "\<forall>q. rt_routes env rt' q = rt_routes env rt q"
      "\<exists>j\<in>set (rt_routes env rt p). rt_type j = rt_type i \<and> metric j = metric i"
proof (cases "trie_find_exact (rt_trie env) rt p")
  case None
  from list_add_cases [of "[]" i] obtain infos where
    "rt_info_list_add env [] i = (ESUCCESS, infos)" "infos_ok infos" "set infos = {i}"
    by auto
  with None that(1) rt p show thesis
    by (auto simp: rt_add_route_def assert_opt_def rt_routes_def find_insert inv_insert rt_inv_insert)
next
  case (Some infos)
  then have ok: "infos_ok infos" using rt by (simp add: find_ok)
  then have "infos = [] \<or> infos_ok infos" by simp
  then show thesis
  proof (cases rule: list_add_cases [of infos i])
    case dup
    let ?rt = "fst (trie_insert (rt_trie env) rt p infos True)"
    have "trie_find_exact (rt_trie env) rt q = Some infos" if "pfx_norm q = pfx_norm p" for q
      using find_same_norm [OF rt(1) that] Some by simp
    then have "rt_routes env ?rt q = rt_routes env rt q" for q
      using rt p by (simp add: rt_routes_def find_insert)
    with dup Some rt p ok show thesis
      by (intro that(2) [of ?rt])
        (simp_all add: rt_add_route_def inv_insert rt_inv_insert rt_routes_def)
  next
    case (new infos')
    with Some that(1) rt p show thesis
      by (auto simp: rt_add_route_def rt_routes_def find_insert inv_insert rt_inv_insert)
  qed
qed

lemma find_best_cases:
  assumes rt: "tinv rt" "rt_inv env rt"
  obtains (none) "trie_find_best (rt_trie env) rt \<lparr>network = a, mask = 32\<rparr> = None"
      "\<forall>q. pfx_wf q \<and> a \<in> pfx_addrs q \<longrightarrow> rt_routes env rt q = []"
  | (some) q where
      "trie_find_best (rt_trie env) rt \<lparr>network = a, mask = 32\<rparr> = Some (rt_routes env rt q)"
      "pfx_wf q" "a \<in> pfx_addrs q" "infos_ok (rt_routes env rt q)"
      "\<forall>q'. pfx_wf q' \<and> a \<in> pfx_addrs q' \<and> rt_routes env rt q' \<noteq> [] \<longrightarrow> mask q' \<le> mask q"
proof -
  let ?host = "\<lparr>network = a, mask = 32\<rparr>"
  have wf: "pfx_wf ?host" by (simp add: pfx_wf_def)
  show thesis
  proof (cases "trie_find_best (rt_trie env) rt ?host")
    case None
    then show thesis
      using none find_best [OF rt(1) wf] by (auto simp: pfx_covers_host rt_routes_def)
  next
    case (Some infos)
    then obtain q where q: "pfx_wf q" "a \<in> pfx_addrs q" "trie_find_exact (rt_trie env) rt q = Some infos"
      and max: "\<forall>q'. pfx_wf q' \<and> pfx_covers q' ?host \<and> trie_find_exact (rt_trie env) rt q' \<noteq> None
                \<longrightarrow> mask q' \<le> mask q"
      using find_best [OF rt(1) wf] by (auto simp: pfx_covers_host)
    have "mask q' \<le> mask q" if "pfx_wf q'" "a \<in> pfx_addrs q'" "rt_routes env rt q' \<noteq> []" for q'
      using max that by (auto simp: pfx_covers_host rt_routes_def split: option.splits)
    then show thesis
      using some [of q] q Some find_ok [OF rt(2) q(3)] by (auto simp: rt_routes_def)
  qed
qed

lemma find_best_total: "tinv rt \<Longrightarrow> rt_inv env rt \<Longrightarrow> \<exists>r. rt_find_best env rt a t = Some r"
  by (erule (1) find_best_cases [of _ a]) (simp_all add: rt_find_best_def first_of_type_ok)

lemma find_best_effect:
  assumes "tinv rt" "rt_inv env rt" "rt_find_best env rt a t = Some (Some i)"
  shows "\<exists>q. pfx_wf q \<and> a \<in> pfx_addrs q \<and> i \<in> set (rt_routes env rt q) \<and> rt_type i AND t \<noteq> 0
        \<and> (\<forall>j\<in>set (rt_routes env rt q). rt_type j AND t \<noteq> 0 \<longrightarrow> j = i \<or> rt_info_list_cmp i j < 0)
        \<and> (\<forall>q'. pfx_wf q' \<and> a \<in> pfx_addrs q' \<and> rt_routes env rt q' \<noteq> [] \<longrightarrow> mask q' \<le> mask q)"
  using assms(1,2)
proof (cases rule: find_best_cases [of rt a])
  case none
  then show ?thesis using assms(3) by (simp add: rt_find_best_def)
next
  case (some q)
  then have "find (\<lambda>i. rt_type i AND t \<noteq> 0) (rt_routes env rt q) = Some i"
    using assms(3) by (simp add: rt_find_best_def first_of_type_ok)
  with some show ?thesis
    using find_sorted_first [of rt_info_list_cmp "rt_routes env rt q" "\<lambda>i. rt_type i AND t \<noteq> 0" i]
    by (intro exI [of _ q]) (auto simp: infos_ok_def)
qed

lemma find_best_none:
  assumes "tinv rt" "rt_inv env rt" "rt_find_best env rt a NET_ROUTE_ANY = Some None"
    and types: "\<forall>q. \<forall>j\<in>set (rt_routes env rt q). rt_type j \<noteq> 0"
    and q: "pfx_wf q" "a \<in> pfx_addrs q"
  shows "rt_routes env rt q = []"
  using assms(1,2)
proof (cases rule: find_best_cases [of rt a])
  case none
  then show ?thesis using q by simp
next
  case (some p)
  then have "find (\<lambda>i. rt_type i \<noteq> 0) (rt_routes env rt p) = None"
    using assms(3) by (simp add: rt_find_best_def first_of_type_ok and_any)
  then have "\<forall>j\<in>set (rt_routes env rt p). rt_type j = 0" by (simp add: find_None_iff)
  with types have "set (rt_routes env rt p) = {}" by fastforce
  with some show ?thesis by (simp add: infos_ok_def)
qed

lemma find_exact_total: "rt_inv env rt \<Longrightarrow>
   rt_find_exact env rt p t = Some (find (\<lambda>i. rt_type i AND t \<noteq> 0) (rt_routes env rt p))"
  by (auto simp: rt_find_exact_def rt_routes_def first_of_type_ok find_ok split: option.splits)

lemma del_prefix_effect:
  assumes rt: "tinv rt" "rt_inv env rt" and p: "pfx_wf p"
  obtains rt' where "rt_del_route env rt (Some p) None None t
        = Some (if rt_routes env rt p = [] then -1 else 0, rt')" "tinv rt'" "rt_inv env rt'"
    "rt_routes env rt' p = filter (\<lambda>i. t \<noteq> NET_ROUTE_ANY \<and> rt_type i \<noteq> t) (rt_routes env rt p)"
    "\<forall>q. pfx_norm q \<noteq> pfx_norm p \<longrightarrow> rt_routes env rt' q = rt_routes env rt q"
proof (cases "trie_find_exact (rt_trie env) rt p")
  case None
  then show thesis
    using rt that [of rt]
    by (auto simp: rt_del_route_def rt_del_routes_def rt_del_for_each_def rt_filter_create_def
        write_back_def net_info_removal_def rt_routes_def)
next
  case (Some infos)
  have ok: "infos_ok infos" using rt Some by (simp add: find_ok)
  define flt where "flt = rt_filter_create\<lparr>flt_prefix := Some p, flt_oif := None, flt_gateway := None, flt_type := t\<rparr>"
  define infos' where "infos' = filter (\<lambda>i. t \<noteq> NET_ROUTE_ANY \<and> rt_type i \<noteq> t) infos"
  define rt1 where "rt1 = fst (trie_insert (rt_trie env) rt p infos' True)"
  define rt2 where "rt2 = (if infos' = [] then fst (trie_remove (rt_trie env) rt1 p) else rt1)"
  have test: "rt_filter_test flt i = Some (t = NET_ROUTE_ANY \<or> rt_type i = t)" for i
    by (auto simp: rt_filter_test_def flt_def rt_filter_create_def assert_opt_def Let_def)
  have loop: "remove_loop (rt_filter_test flt) 0 infos = Some infos'"
    by (auto simp: remove_loop_eq test infos'_def intro: filter_cong)
  have flds: "flt_prefix flt = Some p" "flt_oif flt = None" "del_list flt = None"
    by (simp_all add: flt_def rt_filter_create_def)
  have for_each: "\<exists>flt'. rt_del_for_each p (Some infos) flt = Some (0, Some infos', flt')
      \<and> del_list flt' = (if infos' = [] then Some [p] else None)"
    by (simp add: rt_del_for_each_def rt_info_list_del_def loop Let_def flds
        net_info_schedule_removal_def)
  have run: "rt_del_route env rt (Some p) None None t = Some (0, rt2)"
    using Some for_each
    by (auto simp: rt_del_route_def flt_def [symmetric] rt_del_routes_def flds write_back_def
        rt1_def rt2_def net_info_removal_def split: prod.splits)
  have t1: "tinv rt1" "trie_find_exact (rt_trie env) rt1 q =
      (if pfx_norm q = pfx_norm p then Some infos' else trie_find_exact (rt_trie env) rt q)" for q
    using rt p by (simp_all add: rt1_def inv_insert find_insert)
  have t2: "tinv rt2" "trie_find_exact (rt_trie env) rt2 q =
      (if pfx_norm q = pfx_norm p then (if infos' = [] then None else Some infos')
       else trie_find_exact (rt_trie env) rt q)" for q
    using t1 p by (simp_all add: rt2_def inv_remove find_remove)
  have "infos' \<noteq> [] \<Longrightarrow> infos_ok infos'"
    using ok by (auto simp: infos_ok_def infos'_def strict_sorted_filter)
  then have "rt_inv env rt2"
    using rt by (auto simp: rt_inv_def t2 split: if_splits)
  with t2 run ok Some show thesis
    by (intro that [of rt2]) (auto simp: rt_routes_def infos'_def infos_ok_def)
qed

end

section \<open>The table over association lists\<close>

definition alist_rt_env :: "(rt_info list) alist_trie rt_env" where
  "alist_rt_env = \<lparr>rt_trie = alist_trie_ops, infos_add = insort_unique rt_info_list_cmp,
     entries_add = insort_unique rt_entry_compare\<rparr>"

interpretation alist_rt: routing_table alist_rt_env alist_trie_inv
  unfolding routing_table_def alist_rt_env_def
  by (simp add: alist.gds_trie_axioms insort.gds_sorted_array_axioms)

section \<open>Properties\<close>

text \<open>Lookup of the best route for an address, on a table whose lists are ordered and not empty:
  it never runs into the assertion on empty lists; a route it finds belongs to a prefix that covers
  the address and is at least as long as every other prefix with routes that covers it, has one of
  the requested types, and comes before every other route of that prefix with a requested type in
  the order by type and metric.\<close>

theorem rt_find_best_correct:
  assumes "routing_table env tinv" and "tinv rt" "rt_inv env rt"
  shows "(\<exists>r. rt_find_best env rt a t = Some r) \<and> (rt_find_best env rt a t = Some (Some i) \<longrightarrow>
      (\<exists>q. pfx_wf q \<and> a \<in> pfx_addrs q \<and> i \<in> set (rt_routes env rt q) \<and> rt_type i AND t \<noteq> 0
        \<and> (\<forall>j\<in>set (rt_routes env rt q). rt_type j AND t \<noteq> 0 \<longrightarrow> j = i \<or> rt_info_list_cmp i j < 0)
        \<and> (\<forall>q'. pfx_wf q' \<and> a \<in> pfx_addrs q' \<and> rt_routes env rt q' \<noteq> [] \<longrightarrow> mask q' \<le> mask q)))"
  using routing_table.find_best_total [OF assms] routing_table.find_best_effect [OF assms]
  by blast

theorem rt_find_best_correct_witness:
  "\<exists>q. pfx_wf q \<and> 0x0a000001 \<in> pfx_addrs q
     \<and> \<lparr>rt_prefix = \<lparr>network = 0x0a000000, mask = 8\<rparr>, metric = 5,
        entries = [\<lparr>oif = None, gateway = 9\<rparr>], rt_type = 4\<rparr>
       \<in> set (rt_routes alist_rt_env
           [(\<lparr>network = 0x0a000000, mask = 8\<rparr>, [\<lparr>rt_prefix = \<lparr>network = 0x0a000000, mask = 8\<rparr>, metric = 5,
        entries = [\<lparr>oif = None, gateway = 9\<rparr>], rt_type = 4\<rparr>])] q)"
proof -
  let ?p = "\<lparr>network = 0x0a000000, mask = 8\<rparr>"
  let ?i = "\<lparr>rt_prefix = ?p, metric = 5, entries = [\<lparr>oif = None, gateway = 9\<rparr>], rt_type = 4\<rparr> :: rt_info"
  let ?rt = "[(?p, [?i])]"
  have "pfx_norm ?p = ?p" by code_simp
  then have 1: "alist_trie_inv ?rt" by (simp add: alist_trie_inv_def pfx_wf_def)
  have 2: "rt_inv alist_rt_env ?rt"
    by (auto simp: rt_inv_def alist_rt_env_def alist_trie_ops_def infos_ok_def strict_sorted_by_def
        split: if_splits)
  have "rt_find_best alist_rt_env ?rt 0x0a000001 NET_ROUTE_ANY = Some (Some ?i)"
    by code_simp
  then show ?thesis
    using rt_find_best_correct [OF alist_rt.routing_table_axioms 1 2] by blast
qed

text \<open>Adding a route to the table either succeeds, and then the routes of that prefix are the old
  ones and the new one, or reports a duplicate, exactly when the prefix already has a route of the
  same type and metric, and changes nothing; in both cases the other prefixes keep their routes
  and the lists stay ordered and not empty.\<close>

theorem rt_add_route_correct:
  assumes "routing_table env tinv" and "tinv rt" "rt_inv env rt" "pfx_wf p"
  shows "\<exists>result rt'. rt_add_route env rt p i = Some (result, rt') \<and> tinv rt' \<and> rt_inv env rt'
    \<and> (\<forall>q. pfx_norm q \<noteq> pfx_norm p \<longrightarrow> rt_routes env rt' q = rt_routes env rt q)
    \<and> (if \<exists>j\<in>set (rt_routes env rt p). rt_type j = rt_type i \<and> metric j = metric i
       then result = ENET_RT_DUPLICATE \<and> rt_routes env rt' p = rt_routes env rt p
       else result = ESUCCESS \<and> set (rt_routes env rt' p) = insert i (set (rt_routes env rt p)))"
  using assms(1,2,3,4)
  by (rule routing_table.add_route_effect [of env tinv rt p i]) (auto 5 0)

theorem rt_add_route_correct_witness:
  "\<exists>rt'. rt_add_route alist_rt_env [] \<lparr>network = 0, mask = 0\<rparr> (rt_info_create \<lparr>network = 0, mask = 0\<rparr> 1 2)
       = Some (ESUCCESS, rt')
     \<and> set (rt_routes alist_rt_env rt' \<lparr>network = 0, mask = 0\<rparr>) = {rt_info_create \<lparr>network = 0, mask = 0\<rparr> 1 2}"
proof -
  have none: "rt_routes alist_rt_env [] \<lparr>network = 0, mask = 0\<rparr> = []"
    by (simp add: rt_routes_def alist_rt_env_def alist_trie_ops_def)
  have "rt_inv alist_rt_env []"
    by (simp add: rt_inv_def alist_rt_env_def alist_trie_ops_def)
  from rt_add_route_correct [OF alist_rt.routing_table_axioms _ this,
      of "\<lparr>network = 0, mask = 0\<rparr>" "rt_info_create \<lparr>network = 0, mask = 0\<rparr> 1 2"]
  show ?thesis by (auto simp: none alist_trie_inv_def pfx_wf_def)
qed

text \<open>Deleting the routes of a prefix and a type, whatever their interface and gateway (as BGP does
  when it replaces or removes its route): exactly the routes of that type leave the list of the
  prefix, in order, a list that becomes empty leaves the table, nothing else changes, and the
  result is -1 only when the prefix had no route at all.\<close>

theorem rt_del_route_correct:
  assumes "routing_table env tinv" and "tinv rt" "rt_inv env rt" "pfx_wf p"
  shows "\<exists>rt'. rt_del_route env rt (Some p) None None t
        = Some (if rt_routes env rt p = [] then -1 else 0, rt') \<and> tinv rt' \<and> rt_inv env rt'
    \<and> rt_routes env rt' p = filter (\<lambda>i. t \<noteq> NET_ROUTE_ANY \<and> rt_type i \<noteq> t) (rt_routes env rt p)
    \<and> (\<forall>q. pfx_norm q \<noteq> pfx_norm p \<longrightarrow> rt_routes env rt' q = rt_routes env rt q)"
  using assms(1,2,3,4)
  by (rule routing_table.del_prefix_effect [of env tinv rt p t]) auto

theorem rt_del_route_correct_witness:
  "\<exists>rt'. rt_del_route alist_rt_env [] (Some \<lparr>network = 0, mask = 0\<rparr>) None None NET_ROUTE_BGP
       = Some (-1, rt')"
proof -
  have "rt_routes alist_rt_env [] \<lparr>network = 0, mask = 0\<rparr> = []"
    by (simp add: rt_routes_def alist_rt_env_def alist_trie_ops_def)
  moreover have "rt_inv alist_rt_env []"
    by (simp add: rt_inv_def alist_rt_env_def alist_trie_ops_def)
  ultimately show ?thesis
    using rt_del_route_correct [OF alist_rt.routing_table_axioms, of "[]" "\<lparr>network = 0, mask = 0\<rparr>" NET_ROUTE_BGP]
    by (auto simp: alist_trie_inv_def pfx_wf_def)
qed

text \<open>The order of the entries places an unspecified interface last among the entries with the same
  gateway, and does not recognise two such entries as equal.\<close>

lemma rt_entry_compare_unspecified:
  "rt_entry_compare \<lparr>oif = None, gateway = g\<rparr> \<lparr>oif = None, gateway = g\<rparr> = 1"
  "rt_entry_compare \<lparr>oif = None, gateway = g\<rparr> \<lparr>oif = Some i, gateway = g\<rparr> = 1"
  by (simp_all add: rt_entry_compare_def)

end
