(* ===== verification/Net_Types.thy ===== *)
theory Net_Types
  imports Net_Routing
begin

text \<open>
  The data of the network: \<open>src/net/net_types.h\<close> (interfaces, nodes, subnets, the network) and the tests on
  the addresses of a node that other components use.

  Pointers to nodes, interfaces and subnets are represented by the keys under which the program files
  these objects: a node by its identifier (\<open>network_add_node\<close> refuses duplicates), an interface by its owner and
  its address (the list of a node has at most one for an address), a subnet by its masked prefix.  Interfaces,
  nodes and subnets are never removed and these keys never change, so that equality of pointers is equality of keys.
  The destination of an interface is a C union that is not initialised before the interface is connected: it is
  \<^term>\<open>None\<close> until then.
\<close>

section \<open>Interfaces, nodes, subnets\<close>

datatype iface_type =
    NET_IFACE_LOOPBACK | NET_IFACE_RTR | NET_IFACE_PTP | NET_IFACE_PTMP | NET_IFACE_VIRTUAL

type_synonym iface_ptr = "net_addr \<times> net_addr"

datatype iface_dst = DstIface iface_ptr | DstSubnet ip_pfx | DstEndPoint net_addr

record net_iface =
  iface_type :: iface_type
  iface_addr :: net_addr
  iface_mask :: net_mask
  iface_connected :: bool
  iface_dest :: "iface_dst option"
  iface_delay :: "32 word"
  iface_capacity :: "32 word"
  iface_load :: "32 word"
  iface_flags :: "8 word"
  iface_weights :: "32 word list"

record 't net_node =
  node_rid :: net_addr
  ifaces :: "net_iface list"
  node_rt :: 't
  node_domains :: "16 word list"

datatype subnet_type = NET_SUBNET_TYPE_TRANSIT | NET_SUBNET_TYPE_STUB

record net_subnet =
  subnet_prefix :: ip_pfx
  subnet_type :: subnet_type
  subnet_ifaces :: "iface_ptr list"

record 't network_t =
  net_nodes :: "net_addr \<rightharpoonup> 't net_node"
  net_subnets :: "ip_pfx \<rightharpoonup> net_subnet"

datatype net_elem = LINK iface_ptr | NODE net_addr | SUBNET ip_pfx

section \<open>Addresses of a node\<close>

definition net_iface_has_address :: "net_iface \<Rightarrow> net_addr \<Rightarrow> bool" where
  "net_iface_has_address iface a =
     (if iface_type iface = NET_IFACE_RTR then False else iface_addr iface = a)"

definition node_has_address :: "'t net_node \<Rightarrow> net_addr \<Rightarrow> bool" where
  "node_has_address node a = list_ex (\<lambda>iface. net_iface_has_address iface a) (ifaces node)"

end
