(* ===== verification/Bgp_Filter.thy ===== *)
theory Bgp_Filter
  imports Bgp_Route Net_Types
begin

text \<open>
  Route filters: \<open>src/bgp/filter/types.h\<close>, \<open>src/bgp/filter/filter.c\<close>.

  A predicate is stored by the program as a code and a parameter area of at most 255 bytes that
  holds the children of a compound predicate; here it is a datatype, and \<open>ft_size\<close> is the size of
  that area.  An action is the list of actions linked by \<open>next_action\<close>.  The actions \<open>jump\<close> and \<open>call\<close>
  hold a reference to the sequence of rules of another filter; references are numbers, resolved by
  the field \<open>filter_seqs\<close> of the environment.  Since the references may form a cycle, evaluation has
  a bound on the depth of jumps and calls (\<open>filter_depth\<close>); a filter whose references are ranked below
  the bound is shown to return the same result for every larger bound.
\<close>

unbundle bit_operations_syntax

section \<open>Data\<close>

datatype ft_matcher =
    FT_MATCH_ANY
  | FT_MATCH_OP_AND ft_matcher ft_matcher
  | FT_MATCH_OP_OR ft_matcher ft_matcher
  | FT_MATCH_OP_NOT ft_matcher
  | FT_MATCH_COMM_CONTAINS bgp_comm
  | FT_MATCH_PATH_MATCHES nat
  | FT_MATCH_NEXTHOP_IS net_addr
  | FT_MATCH_NEXTHOP_IN ip_pfx
  | FT_MATCH_PREFIX_IS ip_pfx
  | FT_MATCH_PREFIX_IN ip_pfx
  | FT_MATCH_PREFIX_GE ip_pfx "8 word"
  | FT_MATCH_PREFIX_LE ip_pfx "8 word"

type_synonym filter_ref = nat

datatype ft_action =
    FT_ACTION_NOP
  | FT_ACTION_ACCEPT
  | FT_ACTION_DENY
  | FT_ACTION_COMM_APPEND bgp_comm
  | FT_ACTION_COMM_STRIP
  | FT_ACTION_COMM_REMOVE bgp_comm
  | FT_ACTION_PATH_INSERT asn "8 word"
  | FT_ACTION_PATH_PREPEND "8 word"
  | FT_ACTION_PATH_REM_PRIVATE
  | FT_ACTION_PREF_SET "32 word"
  | FT_ACTION_ECOMM_APPEND bgp_ecomm
  | FT_ACTION_METRIC_SET "32 word"
  | FT_ACTION_METRIC_INTERNAL
  | FT_ACTION_JUMP filter_ref
  | FT_ACTION_CALL filter_ref

record ft_rule =
  matcher :: "ft_matcher option"
  action :: "ft_action list"

type_synonym bgp_filter = "ft_rule list"

record 't flt_env = attr_env +
  rtenv :: "'t rt_env"
  path_exprs :: "(string \<Rightarrow> bool) option list"
  filter_seqs :: "filter_ref \<Rightarrow> bgp_filter"
  filter_depth :: nat

section \<open>Predicates\<close>

definition BGP_FT_MATCHER_SIZE_MAX :: nat where "BGP_FT_MATCHER_SIZE_MAX = 255"

text \<open>\<open>sizeof (bgp_ft_matcher_t)\<close> (packed: a 4-byte code and a 1-byte size) and the size of the
  parameters; \<open>ip_pfx_t\<close> takes 8 bytes.\<close>

definition ft_header_size :: nat where "ft_header_size = 5"

primrec ft_size :: "ft_matcher \<Rightarrow> nat" where
  "ft_size FT_MATCH_ANY = 0"
| "ft_size (FT_MATCH_OP_AND m1 m2) = (ft_size m1 + ft_header_size) + (ft_size m2 + ft_header_size)"
| "ft_size (FT_MATCH_OP_OR m1 m2) = (ft_size m1 + ft_header_size) + (ft_size m2 + ft_header_size)"
| "ft_size (FT_MATCH_OP_NOT m) = ft_size m + ft_header_size"
| "ft_size (FT_MATCH_COMM_CONTAINS c) = 4"
| "ft_size (FT_MATCH_PATH_MATCHES i) = 4"
| "ft_size (FT_MATCH_NEXTHOP_IS a) = 4"
| "ft_size (FT_MATCH_NEXTHOP_IN p) = 8"
| "ft_size (FT_MATCH_PREFIX_IS p) = 8"
| "ft_size (FT_MATCH_PREFIX_IN p) = 8"
| "ft_size (FT_MATCH_PREFIX_GE p l) = 9"
| "ft_size (FT_MATCH_PREFIX_LE p l) = 9"

primrec matcher_apply :: "('t, 'z) flt_env_scheme \<Rightarrow> ft_matcher \<Rightarrow> bgp_route \<Rightarrow> bool option" where
  "matcher_apply env FT_MATCH_ANY route = Some True"
| "matcher_apply env (FT_MATCH_OP_AND m1 m2) route = do {
     b1 \<leftarrow> matcher_apply env m1 route;
     if \<not> b1 then Some False else matcher_apply env m2 route
   }"
| "matcher_apply env (FT_MATCH_OP_OR m1 m2) route = do {
     b1 \<leftarrow> matcher_apply env m1 route;
     if b1 then Some True else matcher_apply env m2 route
   }"
| "matcher_apply env (FT_MATCH_OP_NOT m) route = map_option Not (matcher_apply env m route)"
| "matcher_apply env (FT_MATCH_COMM_CONTAINS c) route = Some (route_comm_contains route c)"
| "matcher_apply env (FT_MATCH_PATH_MATCHES i) route = do {
     assert_opt (i < length (path_exprs env));
     path_match (route_get_path route) (path_exprs env ! i)
   }"
| "matcher_apply env (FT_MATCH_NEXTHOP_IS a) route = Some (next_hop (attr route) = a)"
| "matcher_apply env (FT_MATCH_NEXTHOP_IN p) route = ip_address_in_prefix (next_hop (attr route)) p"
| "matcher_apply env (FT_MATCH_PREFIX_IS p) route = map_option (\<lambda>c. c = 0) (ip_prefix_cmp (pfx route) p)"
| "matcher_apply env (FT_MATCH_PREFIX_IN p) route = ip_prefix_in_prefix (pfx route) p"
| "matcher_apply env (FT_MATCH_PREFIX_GE p l) route = ip_prefix_ge_prefix (pfx route) p l"
| "matcher_apply env (FT_MATCH_PREFIX_LE p l) route = ip_prefix_le_prefix (pfx route) p l"

definition filter_matcher_apply ::
    "('t, 'z) flt_env_scheme \<Rightarrow> ft_matcher option \<Rightarrow> bgp_route \<Rightarrow> bool option" where
  "filter_matcher_apply env m route =
     (case m of None \<Rightarrow> Some True | Some m \<Rightarrow> matcher_apply env m route)"

text \<open>The constructors that combine predicates; the outer option is the stopped process, the inner one
  NULL.\<close>

definition ft_match_compound1 :: "ft_matcher option \<Rightarrow> ft_matcher option option" where
  "ft_match_compound1 m = do {
     m \<leftarrow> m;
     assert_opt (ft_size m + ft_header_size \<le> BGP_FT_MATCHER_SIZE_MAX);
     Some (Some (FT_MATCH_OP_NOT m))
   }"

definition ft_match_compound2 ::
    "(ft_matcher \<Rightarrow> ft_matcher \<Rightarrow> ft_matcher) \<Rightarrow> ft_matcher \<Rightarrow> ft_matcher \<Rightarrow> ft_matcher option option" where
  "ft_match_compound2 code m1 m2 = do {
     assert_opt ((ft_size m1 + ft_header_size) + (ft_size m2 + ft_header_size)
                 \<le> BGP_FT_MATCHER_SIZE_MAX);
     Some (Some (code m1 m2))
   }"

definition filter_match_and :: "ft_matcher option \<Rightarrow> ft_matcher option \<Rightarrow> ft_matcher option option" where
  "filter_match_and m1 m2 =
     (if m1 = None \<or> m1 = Some FT_MATCH_ANY then Some m2
      else if m2 = None \<or> m2 = Some FT_MATCH_ANY then Some m1
      else ft_match_compound2 FT_MATCH_OP_AND (the m1) (the m2))"

definition filter_match_or :: "ft_matcher option \<Rightarrow> ft_matcher option \<Rightarrow> ft_matcher option option" where
  "filter_match_or m1 m2 =
     (if m1 = None \<or> m1 = Some FT_MATCH_ANY \<or> m2 = None \<or> m2 = Some FT_MATCH_ANY then Some None
      else ft_match_compound2 FT_MATCH_OP_OR (the m1) (the m2))"

definition filter_match_not :: "ft_matcher option \<Rightarrow> ft_matcher option option" where
  "filter_match_not m =
     (case m of
        Some (FT_MATCH_OP_NOT m') \<Rightarrow> Some (Some m')
      | _ \<Rightarrow> ft_match_compound1 m)"

section \<open>Actions, rules and filters\<close>

text \<open>What the actions read of the router: its AS number and its node.\<close>

record 't flt_router =
  flt_asn :: asn
  flt_node :: "'t net_node"

definition set_metric_internal ::
    "('t, 'z) flt_env_scheme \<Rightarrow> 't flt_router \<Rightarrow> bgp_route \<Rightarrow> bgp_route option" where
  "set_metric_internal env router route =
     (if \<not> node_has_address (flt_node router) (next_hop (attr route)) then do {
        rtinfo \<leftarrow> rt_find_best (rtenv env) (node_rt (flt_node router)) (next_hop (attr route)) NET_ROUTE_ANY;
        rtinfo \<leftarrow> rtinfo;
        Some (route_med_set (metric rtinfo) route)
      } else Some (route_med_set 0 route))"

text \<open>An action that does not end the evaluation; the result code of the operation is ignored.\<close>

fun action_effect ::
    "('t, 'z) flt_env_scheme \<Rightarrow> 't flt_router \<Rightarrow> ft_action \<Rightarrow> bgp_route \<Rightarrow> bgp_route option" where
  "action_effect env router (FT_ACTION_COMM_APPEND c) route = map_option snd (route_comm_append env c route)"
| "action_effect env router FT_ACTION_COMM_STRIP route = Some (route_comm_strip route)"
| "action_effect env router (FT_ACTION_COMM_REMOVE c) route = route_comm_remove env c route"
| "action_effect env router (FT_ACTION_PATH_PREPEND n) route =
     map_option snd (route_path_prepend env (flt_asn router) n route)"
| "action_effect env router (FT_ACTION_PATH_INSERT a n) route =
     map_option snd (route_path_prepend env a n route)"
| "action_effect env router FT_ACTION_PATH_REM_PRIVATE route =
     map_option snd (route_path_rem_private env route)"
| "action_effect env router (FT_ACTION_PREF_SET p) route = Some (route_localpref_set p route)"
| "action_effect env router (FT_ACTION_METRIC_SET m) route = Some (route_med_set m route)"
| "action_effect env router FT_ACTION_METRIC_INTERNAL route = set_metric_internal env router route"
| "action_effect env router (FT_ACTION_ECOMM_APPEND e) route = map_option snd (route_ecomm_append e route)"
| "action_effect env router _ route = None"

text \<open>Results: 0 deny, 1 accept, 2 continue with the next rule.  The first argument evaluates the rules
  of a referenced filter.\<close>

fun action_apply ::
    "(filter_ref \<Rightarrow> bgp_route \<Rightarrow> (nat \<times> bgp_route) option) \<Rightarrow> ('t, 'z) flt_env_scheme \<Rightarrow> 't flt_router
     \<Rightarrow> ft_action list \<Rightarrow> bgp_route \<Rightarrow> (nat \<times> bgp_route) option" where
  "action_apply call env router [] route = Some (2, route)"
| "action_apply call env router (a # as) route =
     (case a of
        FT_ACTION_ACCEPT \<Rightarrow> Some (1, route)
      | FT_ACTION_DENY \<Rightarrow> Some (0, route)
      | FT_ACTION_JUMP f \<Rightarrow> map_option (\<lambda>(r, route). (if r = 2 then 1 else r, route)) (call f route)
      | FT_ACTION_CALL f \<Rightarrow> call f route
      | FT_ACTION_NOP \<Rightarrow> None
      | _ \<Rightarrow> do {
          route \<leftarrow> action_effect env router a route;
          action_apply call env router as route
        })"

fun rules_apply ::
    "(filter_ref \<Rightarrow> bgp_route \<Rightarrow> (nat \<times> bgp_route) option) \<Rightarrow> ('t, 'z) flt_env_scheme \<Rightarrow> 't flt_router
     \<Rightarrow> bgp_filter \<Rightarrow> bgp_route \<Rightarrow> (nat \<times> bgp_route) option" where
  "rules_apply call env router [] route = Some (2, route)"
| "rules_apply call env router (rule # rules) route = do {
     b \<leftarrow> filter_matcher_apply env (matcher rule) route;
     (r, route) \<leftarrow> (if \<not> b then Some (2, route) else action_apply call env router (action rule) route);
     if r = 0 \<or> r = 1 then Some (r, route) else rules_apply call env router rules route
   }"

text \<open>\<open>filter_call\<close>: the rules of a referenced filter, 2 when none decides.  \<open>filter_jump\<close> is \<open>filter_apply\<close>, where
  that result is 1; \<open>action_apply\<close> makes the difference.\<close>

primrec filter_call ::
    "nat \<Rightarrow> ('t, 'z) flt_env_scheme \<Rightarrow> 't flt_router \<Rightarrow> filter_ref \<Rightarrow> bgp_route \<Rightarrow> (nat \<times> bgp_route) option" where
  "filter_call 0 env router f route = None"
| "filter_call (Suc n) env router f route =
     rules_apply (filter_call n env router) env router (filter_seqs env f) route"

text \<open>The filter of a peer: NULL accepts every route.\<close>

definition filter_apply ::
    "('t, 'z) flt_env_scheme \<Rightarrow> filter_ref option \<Rightarrow> 't flt_router \<Rightarrow> bgp_route \<Rightarrow> (bool \<times> bgp_route) option" where
  "filter_apply env f router route =
     (case f of
        None \<Rightarrow> Some (True, route)
      | Some f \<Rightarrow> do {
          (r, route) \<leftarrow> filter_call (filter_depth env) env router f route;
          Some (r \<noteq> 0, route)
        })"

definition filter_add_rule :: "bgp_filter \<Rightarrow> ft_matcher option \<Rightarrow> ft_action list \<Rightarrow> bgp_filter" where
  "filter_add_rule flt m a = flt @ [\<lparr>matcher = m, action = a\<rparr>]"

definition filter_insert_rule :: "bgp_filter \<Rightarrow> nat \<Rightarrow> ft_rule \<Rightarrow> int \<times> bgp_filter" where
  "filter_insert_rule flt index rule =
     (if index > length flt then (-1, flt) else (0, take index flt @ rule # drop index flt))"

definition filter_remove_rule :: "bgp_filter \<Rightarrow> nat \<Rightarrow> int \<times> bgp_filter" where
  "filter_remove_rule flt index =
     (if index \<ge> length flt then (-1, flt) else (0, remove_at index flt))"

section \<open>Lemmas\<close>

text \<open>The children of a stored predicate fit in the parameter area.\<close>

primrec ft_ok :: "ft_matcher \<Rightarrow> bool" where
  "ft_ok FT_MATCH_ANY = True"
| "ft_ok (FT_MATCH_OP_AND m1 m2) \<longleftrightarrow>
     ft_ok m1 \<and> ft_ok m2 \<and> ft_size (FT_MATCH_OP_AND m1 m2) \<le> BGP_FT_MATCHER_SIZE_MAX"
| "ft_ok (FT_MATCH_OP_OR m1 m2) \<longleftrightarrow>
     ft_ok m1 \<and> ft_ok m2 \<and> ft_size (FT_MATCH_OP_OR m1 m2) \<le> BGP_FT_MATCHER_SIZE_MAX"
| "ft_ok (FT_MATCH_OP_NOT m) \<longleftrightarrow> ft_ok m \<and> ft_size (FT_MATCH_OP_NOT m) \<le> BGP_FT_MATCHER_SIZE_MAX"
| "ft_ok (FT_MATCH_COMM_CONTAINS c) = True"
| "ft_ok (FT_MATCH_PATH_MATCHES i) = True"
| "ft_ok (FT_MATCH_NEXTHOP_IS a) = True"
| "ft_ok (FT_MATCH_NEXTHOP_IN p) = True"
| "ft_ok (FT_MATCH_PREFIX_IS p) = True"
| "ft_ok (FT_MATCH_PREFIX_IN p) = True"
| "ft_ok (FT_MATCH_PREFIX_GE p l) = True"
| "ft_ok (FT_MATCH_PREFIX_LE p l) = True"

definition ft_opt_ok :: "ft_matcher option \<Rightarrow> bool" where
  "ft_opt_ok m = (case m of None \<Rightarrow> True | Some m \<Rightarrow> ft_ok m)"

lemma filter_match_and_sem:
  assumes "filter_match_and m1 m2 = Some m"
    and "filter_matcher_apply env m1 r = Some b1" "filter_matcher_apply env m2 r = Some b2"
  shows "filter_matcher_apply env m r = Some (b1 \<and> b2)"
  using assms
  by (auto simp: filter_match_and_def ft_match_compound2_def filter_matcher_apply_def
      split: if_splits option.splits)

lemma filter_match_or_sem:
  assumes "filter_match_or m1 m2 = Some m"
    and "filter_matcher_apply env m1 r = Some b1" "filter_matcher_apply env m2 r = Some b2"
  shows "filter_matcher_apply env m r = Some (b1 \<or> b2)"
  using assms
  by (auto simp: filter_match_or_def ft_match_compound2_def filter_matcher_apply_def
      split: if_splits option.splits)

lemma filter_match_not_sem:
  assumes "filter_match_not m = Some m'" and "filter_matcher_apply env m r = Some b"
  shows "filter_matcher_apply env m' r = Some (\<not> b)"
  using assms
  by (auto simp: filter_match_not_def ft_match_compound1_def filter_matcher_apply_def bind_eq_Some_conv
      split: option.splits ft_matcher.splits)

lemma filter_match_ok:
  assumes "ft_opt_ok m1" "ft_opt_ok m2"
  shows "filter_match_and m1 m2 = Some m \<Longrightarrow> ft_opt_ok m"
    and "filter_match_or m1 m2 = Some m \<Longrightarrow> ft_opt_ok m"
    and "filter_match_not m1 = Some m \<Longrightarrow> ft_opt_ok m"
  using assms
  by (auto simp: filter_match_and_def filter_match_or_def filter_match_not_def ft_match_compound1_def
      ft_match_compound2_def ft_opt_ok_def bind_eq_Some_conv split: if_splits option.splits ft_matcher.splits)

text \<open>What a filter may change of a route.\<close>

definition filter_frame :: "bgp_route \<Rightarrow> bgp_route \<Rightarrow> bool" where
  "filter_frame r r' \<longleftrightarrow>
     pfx r' = pfx r \<and> peer r' = peer r \<and> flags r' = flags r \<and> rank r' = rank r
   \<and> next_hop (attr r') = next_hop (attr r) \<and> origin (attr r') = origin (attr r)
   \<and> originator (attr r') = originator (attr r) \<and> cluster_list (attr r') = cluster_list (attr r)"

lemma filter_frame_refl [simp]: "filter_frame r r"
  by (simp add: filter_frame_def)

lemma filter_frame_trans: "filter_frame r s \<Longrightarrow> filter_frame s t \<Longrightarrow> filter_frame r t"
  by (simp add: filter_frame_def)

lemma bgp_attr_set_path_frame:
  "bgp_attr_set_path env p a = Some a' \<Longrightarrow> \<exists>q. a' = a\<lparr>path_ref := q\<rparr>"
  by (auto simp: bgp_attr_set_path_def split: option.splits)

lemma bgp_attr_set_comm_frame:
  "bgp_attr_set_comm env c a = Some a' \<Longrightarrow> \<exists>d. a' = a\<lparr>comms := d\<rparr>"
  by (auto simp: bgp_attr_set_comm_def split: option.splits)

lemma path_prepend_frame:
  "route_path_prepend env a n r = Some (x, r') \<Longrightarrow> filter_frame r r'"
  by (auto simp: route_path_prepend_def bgp_attr_path_prepend_def Let_def bind_eq_Some_conv
      filter_frame_def dest: bgp_attr_set_path_frame split: option.splits)

lemma action_effect_frame: "action_effect env router a r = Some r' \<Longrightarrow> filter_frame r r'"
proof (induction env router a r rule: action_effect.induct)
  case (4 env router n r)
  then show ?case by (auto intro: path_prepend_frame)
next
  case (5 env router a n r)
  then show ?case by (auto intro: path_prepend_frame)
qed (auto simp: filter_frame_def route_comm_append_def bgp_attr_comm_append_def route_comm_strip_def
    bgp_attr_comm_strip_def route_comm_remove_def bgp_attr_comm_remove_def route_path_rem_private_def
    bgp_attr_path_rem_private_def route_localpref_set_def route_med_set_def set_metric_internal_def
    route_ecomm_append_def bgp_attr_ecomm_append_def Let_def bind_eq_Some_conv
    dest!: bgp_attr_set_path_frame bgp_attr_set_comm_frame split: option.splits if_splits)

lemma action_apply_frame:
  assumes "action_apply call env router as r = Some (x, r')"
    and call: "\<And>f s y s'. call f s = Some (y, s') \<Longrightarrow> filter_frame s s'"
  shows "filter_frame r r'"
  using assms(1)
proof (induction as arbitrary: r)
  case (Cons a as)
  show ?case
  proof (cases "a \<in> {FT_ACTION_ACCEPT, FT_ACTION_DENY, FT_ACTION_NOP} \<or> (\<exists>f. a = FT_ACTION_JUMP f \<or> a = FT_ACTION_CALL f)")
    case True
    with Cons.prems call show ?thesis by auto
  next
    case False
    with Cons.prems obtain s where "action_effect env router a r = Some s"
      and "action_apply call env router as s = Some (x, r')"
      by (cases a) (auto simp: bind_eq_Some_conv)
    then show ?thesis
      using Cons.IH action_effect_frame filter_frame_trans by blast
  qed
qed simp

lemma rules_apply_frame:
  assumes "rules_apply call env router rs r = Some (x, r')"
    and call: "\<And>f s y s'. call f s = Some (y, s') \<Longrightarrow> filter_frame s s'"
  shows "filter_frame r r'"
  using assms(1)
proof (induction rs arbitrary: r)
  case (Cons rule rs)
  then obtain b y s where "(if \<not> b then Some (2, r) else action_apply call env router (action rule) r) = Some (y, s)"
    and rest: "(if y = 0 \<or> y = 1 then Some (y, s) else rules_apply call env router rs s) = Some (x, r')"
    by (auto simp: bind_eq_Some_conv)
  then have "filter_frame r s"
    using action_apply_frame [OF _ call] by (auto split: if_splits)
  moreover have "filter_frame s r'"
    using rest Cons.IH by (auto split: if_splits)
  ultimately show ?case by (rule filter_frame_trans)
qed simp

lemma filter_call_frame: "filter_call n env router f r = Some (x, r') \<Longrightarrow> filter_frame r r'"
  by (induction n arbitrary: f r x r') (auto intro: rules_apply_frame)

text \<open>The bound on the depth.\<close>

definition refs_of :: "bgp_filter \<Rightarrow> filter_ref set" where
  "refs_of rules = {f. \<exists>rule\<in>set rules. FT_ACTION_JUMP f \<in> set (action rule) \<or> FT_ACTION_CALL f \<in> set (action rule)}"

lemma action_apply_cong:
  assumes "\<forall>f s. FT_ACTION_JUMP f \<in> set as \<or> FT_ACTION_CALL f \<in> set as \<longrightarrow> call f s = call' f s"
  shows "action_apply call env router as r = action_apply call' env router as r"
  using assms
proof (induction as arbitrary: r)
  case (Cons a as)
  have "action_apply call env router as s = action_apply call' env router as s" for s
    by (rule Cons.IH) (use Cons.prems in auto)
  then have "action_apply call env router as = action_apply call' env router as" by (rule ext)
  with Cons.prems show ?case by (cases a) auto
qed simp

lemma rules_apply_cong:
  assumes "\<forall>f s. f \<in> refs_of rs \<longrightarrow> call f s = call' f s"
  shows "rules_apply call env router rs r = rules_apply call' env router rs r"
  using assms
proof (induction rs arbitrary: r)
  case (Cons rule rs)
  have "action_apply call env router (action rule) s = action_apply call' env router (action rule) s" for s
    by (rule action_apply_cong) (use Cons.prems in \<open>auto simp: refs_of_def\<close>)
  moreover have "rules_apply call env router rs s = rules_apply call' env router rs s" for s
    by (rule Cons.IH) (use Cons.prems in \<open>auto simp: refs_of_def\<close>)
  ultimately have "action_apply call env router (action rule) = action_apply call' env router (action rule)"
    "rules_apply call env router rs = rules_apply call' env router rs"
    by (auto intro: ext)
  then show ?case by (simp cong: if_cong)
qed simp

lemma filter_call_depth:
  assumes rk: "\<And>f g. g \<in> refs_of (filter_seqs env f) \<Longrightarrow> rk g < rk f"
  shows "rk f < n \<Longrightarrow> filter_call n env router f r = filter_call (Suc (rk f)) env router f r"
proof (induction "rk f" arbitrary: f n r rule: less_induct)
  case less
  obtain m where n: "n = Suc m" "rk f \<le> m" using less.prems by (cases n) auto
  have "filter_call m env router g s = filter_call (rk f) env router g s"
    if "g \<in> refs_of (filter_seqs env f)" for g s
  proof -
    have "rk g < rk f" using rk [OF that] .
    with n have "rk g < m" by simp
    show ?thesis
      using less.hyps [OF \<open>rk g < rk f\<close> \<open>rk g < m\<close>, of s] less.hyps [OF \<open>rk g < rk f\<close> \<open>rk g < rk f\<close>, of s]
      by (rule trans [OF _ sym])
  qed
  then have "rules_apply (filter_call m env router) env router (filter_seqs env f) r
      = rules_apply (filter_call (rk f) env router) env router (filter_seqs env f) r"
    by (intro rules_apply_cong) blast
  then show ?case unfolding n(1) filter_call.simps(2) .
qed

text \<open>First match.\<close>

lemma rules_apply_skip:
  assumes "\<forall>rule\<in>set rs. filter_matcher_apply env (matcher rule) r = Some False"
  shows "rules_apply call env router (rs @ rs') r = rules_apply call env router rs' r"
  using assms by (induction rs) auto

lemma action_apply_result:
  assumes "action_apply call env router as r = Some (x, r')"
    and "\<And>f s y s'. call f s = Some (y, s') \<Longrightarrow> y \<le> 2"
  shows "x \<le> 2"
  using assms(1)
proof (induction as arbitrary: r)
  case (Cons a as)
  then show ?case
    using assms(2) by (cases a) (auto simp: bind_eq_Some_conv split: if_splits)
qed simp

section \<open>Properties\<close>

text \<open>The constructors of compound predicates, with their simplifications (a conjunction with "any",
  a disjunction with "any", a double negation), mean conjunction, disjunction and negation, and
  the predicates they build fit in the 255-byte parameter area when their arguments do.\<close>

theorem filter_match_correct:
  assumes "filter_matcher_apply env m1 r = Some b1" "filter_matcher_apply env m2 r = Some b2"
    and "ft_opt_ok m1" "ft_opt_ok m2"
  shows "(filter_match_and m1 m2 = Some m \<longrightarrow> filter_matcher_apply env m r = Some (b1 \<and> b2) \<and> ft_opt_ok m)
    \<and> (filter_match_or m1 m2 = Some m \<longrightarrow> filter_matcher_apply env m r = Some (b1 \<or> b2) \<and> ft_opt_ok m)
    \<and> (filter_match_not m1 = Some m \<longrightarrow> filter_matcher_apply env m r = Some (\<not> b1) \<and> ft_opt_ok m)"
  using filter_match_and_sem [OF _ assms(1,2)] filter_match_or_sem [OF _ assms(1,2)]
    filter_match_not_sem [OF _ assms(1)] filter_match_ok [OF assms(3,4)] by blast

definition sample_flt_env :: "(rt_info list) alist_trie flt_env" where
  "sample_flt_env = attr_env.extend (list_repository [] [])
     \<lparr>rtenv = alist_rt_env, path_exprs = [],
      filter_seqs = (\<lambda>f. if f = 0 then [\<lparr>matcher = None, action = [FT_ACTION_PREF_SET 7, FT_ACTION_CALL 1]\<rparr>]
                     else [\<lparr>matcher = Some (FT_MATCH_COMM_CONTAINS 5), action = [FT_ACTION_DENY]\<rparr>]),
      filter_depth = 2\<rparr>"

theorem filter_match_correct_witness:
  "filter_match_not (Some (FT_MATCH_NEXTHOP_IS 7)) = Some (Some (FT_MATCH_OP_NOT (FT_MATCH_NEXTHOP_IS 7)))
   \<and> filter_matcher_apply sample_flt_env (Some (FT_MATCH_OP_NOT (FT_MATCH_NEXTHOP_IS 7)))
       (route_create \<lparr>network = 1, mask = 8\<rparr> None 7 BGP_ORIGIN_IGP) = Some False"
proof -
  let ?r = "route_create \<lparr>network = 1, mask = 8\<rparr> None 7 BGP_ORIGIN_IGP"
  have 1: "filter_matcher_apply sample_flt_env (Some (FT_MATCH_NEXTHOP_IS 7)) ?r = Some True"
    by (simp add: filter_matcher_apply_def route_create_def route_create2_def bgp_attr_create_def)
  have 2: "filter_match_not (Some (FT_MATCH_NEXTHOP_IS 7)) = Some (Some (FT_MATCH_OP_NOT (FT_MATCH_NEXTHOP_IS 7)))"
    by (simp add: filter_match_not_def ft_match_compound1_def ft_header_size_def BGP_FT_MATCHER_SIZE_MAX_def)
  have "ft_opt_ok (Some (FT_MATCH_NEXTHOP_IS 7))" by (simp add: ft_opt_ok_def)
  from filter_match_correct [OF 1 1 this this] 2 show ?thesis by simp
qed

text \<open>C39: A filter changes at most the LOCAL-PREF, the MED, the AS-Path and the (extended) communities
  of a route: the prefix, the peer, the flags, the rank, the next hop, the origin, the originator
  and the cluster list are those of the route given to it.\<close>

theorem filter_apply_frame:
  assumes "filter_apply env f router r = Some (b, r')"
  shows "filter_frame r r'"
  using assms
  by (auto simp: filter_apply_def bind_eq_Some_conv split: option.splits intro: filter_call_frame)

theorem filter_apply_frame_witness:
  "filter_frame (route_create \<lparr>network = 1, mask = 8\<rparr> None 7 BGP_ORIGIN_IGP)
     (route_localpref_set 7 (route_create \<lparr>network = 1, mask = 8\<rparr> None 7 BGP_ORIGIN_IGP))"
  by (rule filter_apply_frame [of sample_flt_env "Some 0"
        "\<lparr>flt_asn = 1, flt_node = \<lparr>node_rid = 9, ifaces = [], node_rt = [], node_domains = []\<rparr>\<rparr>" _ True]) code_simp

text \<open>When the jumps and calls between filters do not form a cycle (they go from a filter to one of
  lower rank), a depth above the rank is enough: evaluation of the filter with any such bound gives
  the same result, so the bound does not matter.\<close>

theorem filter_depth_irrelevant:
  assumes "\<And>f g. g \<in> refs_of (filter_seqs env f) \<Longrightarrow> rk g < rk f"
    and "rk f < n" "rk f < filter_depth env"
  shows "filter_apply env (Some f) router r
       = map_option (\<lambda>(d, r'). (d \<noteq> 0, r')) (filter_call n env router f r)"
  using filter_call_depth [of env rk f n router r, OF assms(1,2)]
    filter_call_depth [of env rk f "filter_depth env" router r, OF assms(1,3)]
  by (cases "filter_call (Suc (rk f)) env router f r") (auto simp: filter_apply_def)

theorem filter_depth_irrelevant_witness:
  "\<forall>router r. filter_apply sample_flt_env (Some 0) router r
     = map_option (\<lambda>(d, r'). (d \<noteq> 0, r')) (filter_call 7 sample_flt_env router 0 r)"
  by (intro allI filter_depth_irrelevant [where rk = "\<lambda>f. if f = 0 then 1 else 0"])
    (auto simp: sample_flt_env_def refs_of_def attr_env.defs list_repository_def split: if_splits)

text \<open>The first rule whose predicate matches and whose actions decide gives the result: rules
  before it that do not match are skipped, and rules after it are not evaluated.\<close>

theorem filter_first_match:
  assumes "filter_seqs env f = before @ rule # after" and "filter_depth env = Suc n"
    and "\<forall>x\<in>set before. filter_matcher_apply env (matcher x) r = Some False"
    and "filter_matcher_apply env (matcher rule) r = Some True"
    and "action_apply (filter_call n env router) env router (action rule) r = Some (d, r')" "d = 0 \<or> d = 1"
  shows "filter_apply env (Some f) router r = Some (d = 1, r')"
  using assms(6) by (auto simp: filter_apply_def assms rules_apply_skip)

theorem filter_first_match_witness:
  "filter_apply (sample_flt_env\<lparr>filter_seqs := \<lambda>f. [\<lparr>matcher = Some (FT_MATCH_NEXTHOP_IS 8), action = [FT_ACTION_ACCEPT]\<rparr>,
       \<lparr>matcher = None, action = [FT_ACTION_DENY]\<rparr>, \<lparr>matcher = None, action = [FT_ACTION_NOP]\<rparr>]\<rparr>) (Some 0)
     \<lparr>flt_asn = 1, flt_node = \<lparr>node_rid = 9, ifaces = [], node_rt = [], node_domains = []\<rparr>\<rparr>
     (route_create \<lparr>network = 1, mask = 8\<rparr> None 7 BGP_ORIGIN_IGP)
   = Some (0 = (1 :: nat), route_create \<lparr>network = 1, mask = 8\<rparr> None 7 BGP_ORIGIN_IGP)"
  by (rule filter_first_match [where n = 1 and before = "[\<lparr>matcher = Some (FT_MATCH_NEXTHOP_IS 8), action = [FT_ACTION_ACCEPT]\<rparr>]"
        and rule = "\<lparr>matcher = None, action = [FT_ACTION_DENY]\<rparr>"
        and after = "[\<lparr>matcher = None, action = [FT_ACTION_NOP]\<rparr>]"])
    (simp_all add: sample_flt_env_def attr_env.defs list_repository_def filter_matcher_apply_def
      route_create_def route_create2_def bgp_attr_create_def)

text \<open>Negation of the predicate that \<open>filter_match_or\<close> simplifies to NULL stops the process.\<close>

lemma filter_match_not_null: "filter_match_not None = None"
  by (simp add: filter_match_not_def ft_match_compound1_def)

end
