(* ===== verification/Bgp_Types.thy ===== *)
theory Bgp_Types
  imports Bgp_Filter
begin

text \<open>
  Routers, peers and messages: \<open>src/bgp/types.h\<close>, \<open>src/bgp/peer.h\<close>, \<open>src/bgp/peer-list.c\<close>,
  \<open>src/bgp/message.c\<close> and the parts of \<open>src/bgp/peer.c\<close> and \<open>src/bgp/as.c\<close> that configure a peer or send a
  message to it.

  A router holds its peers; a pointer to a peer is the address of the peer, which is unique in the
  array (dereferencing an address that is not there stops the process).  A write through a pointer
  to a route of an Adj-RIB or of the Loc-RIB is an update of the RIB at that prefix (\<open>rib_modify\<close>).

  The record \<open>bgp_env\<close> collects what is outside the BGP code: the RIBs of libgds, the delivery of a
  message by the network (\<open>node_send_msg\<close>, its result code only; the message itself is recorded in
  \<open>outbox\<close>) and the reachability probes of \<open>bgp_peer_session_ok\<close>; and the options of the program.
\<close>

unbundle bit_operations_syntax

section \<open>Data\<close>

datatype bgp_peer_state =
  SESSION_STATE_IDLE | SESSION_STATE_OPENWAIT | SESSION_STATE_ESTABLISHED | SESSION_STATE_ACTIVE

datatype bgp_filter_dir = FILTER_IN | FILTER_OUT

datatype bgp_rib_dir = RIB_IN | RIB_OUT

datatype bgp_med_type = BGP_MED_TYPE_DETERMINISTIC | BGP_MED_TYPE_ALWAYS_COMPARE

datatype bgp_msg_payload =
    BGP_MSG_TYPE_UPDATE bgp_route
  | BGP_MSG_TYPE_WITHDRAW ip_pfx
  | BGP_MSG_TYPE_CLOSE
  | BGP_MSG_TYPE_OPEN net_addr

record bgp_msg =
  peer_asn :: asn
  seq_num :: "32 word"
  payload :: bgp_msg_payload

record 'r bgp_peer =
  p_addr :: net_addr
  p_asn :: asn
  p_flags :: "8 word"
  router_id :: net_addr
  filter_in :: "filter_ref option"
  filter_out :: "filter_ref option"
  adj_rib_in :: 'r
  adj_rib_out :: 'r
  session_state :: bgp_peer_state
  p_next_hop :: net_addr
  src_addr :: net_addr
  send_seq_num :: "32 word"
  recv_seq_num :: "32 word"
  last_error :: int
  record_stream :: bool

text \<open>The field \<open>outbox\<close> is not in the struct: it lists the messages handed to the network, each with the
  address of the peer it is sent to.\<close>

record ('t, 'r) bgp_router =
  r_asn :: asn
  rid :: net_addr
  peers :: "'r bgp_peer list"
  loc_rib :: 'r
  local_nets :: bgp_routes
  cluster_id :: bgp_cluster_id
  reflector :: bool
  node :: "'t net_node"
  outbox :: "(net_addr \<times> bgp_msg) list"

record ('t, 'r) bgp_env = "'t flt_env" +
  rib_trie :: "'r rib_ops"
  peers_array_add :: "'r bgp_peer sorted_add"
  node_send_msg :: "'t net_node \<Rightarrow> net_addr \<Rightarrow> net_addr \<Rightarrow> bgp_msg \<Rightarrow> int"
  icmp_trace_ok :: "'t net_node \<Rightarrow> net_addr \<Rightarrow> bool"
  icmp_ping_ok :: "'t net_node \<Rightarrow> net_addr \<Rightarrow> bool"
  med_type :: bgp_med_type
  options_local_pref :: "32 word"

definition PEER_FLAG_RR_CLIENT :: "8 word" where "PEER_FLAG_RR_CLIENT = 0x01"
definition PEER_FLAG_NEXT_HOP_SELF :: "8 word" where "PEER_FLAG_NEXT_HOP_SELF = 0x02"
definition PEER_FLAG_VIRTUAL :: "8 word" where "PEER_FLAG_VIRTUAL = 0x04"
definition PEER_FLAG_SOFT_RESTART :: "8 word" where "PEER_FLAG_SOFT_RESTART = 0x08"

definition NET_ADDR_ANY :: net_addr where "NET_ADDR_ANY = 0"
definition MAX_ADDR :: net_addr where "MAX_ADDR = - 1"

section \<open>Peers\<close>

definition bgp_peer_create :: "('t, 'r, 'z) bgp_env_scheme \<Rightarrow> asn \<Rightarrow> net_addr \<Rightarrow> 'r bgp_peer" where
  "bgp_peer_create env a addr =
     \<lparr>p_addr = addr, p_asn = a, p_flags = 0, router_id = NET_ADDR_ANY, filter_in = None, filter_out = None,
      adj_rib_in = rib_create (rib_trie env), adj_rib_out = rib_create (rib_trie env),
      session_state = SESSION_STATE_IDLE, p_next_hop = NET_ADDR_ANY, src_addr = NET_ADDR_ANY,
      send_seq_num = 0, recv_seq_num = 0, last_error = ESUCCESS, record_stream = False\<rparr>"

definition bgp_peer_flag_set :: "8 word \<Rightarrow> bool \<Rightarrow> 'r bgp_peer \<Rightarrow> 'r bgp_peer" where
  "bgp_peer_flag_set flag state p =
     p\<lparr>p_flags := (if state then p_flags p OR flag else p_flags p AND NOT flag)\<rparr>"

definition bgp_peer_flag_get :: "'r bgp_peer \<Rightarrow> 8 word \<Rightarrow> bool" where
  "bgp_peer_flag_get p flag \<longleftrightarrow> p_flags p AND flag \<noteq> 0"

definition bgp_peers_compare :: "'r bgp_peer \<Rightarrow> 'r bgp_peer \<Rightarrow> int" where
  "bgp_peers_compare peer1 peer2 =
     (if p_addr peer1 < p_addr peer2 then -1 else if p_addr peer1 > p_addr peer2 then 1 else 0)"

definition bgp_peers_add ::
    "('t, 'r, 'z) bgp_env_scheme \<Rightarrow> 'r bgp_peer list \<Rightarrow> 'r bgp_peer \<Rightarrow> int \<times> 'r bgp_peer list" where
  "bgp_peers_add env ps p =
     (case peers_array_add env ps p of
        None \<Rightarrow> (EBGP_PEER_DUPLICATE, ps)
      | Some ps' \<Rightarrow> (ESUCCESS, ps'))"

definition bgp_peers_find :: "'r bgp_peer list \<Rightarrow> net_addr \<Rightarrow> 'r bgp_peer option" where
  "bgp_peers_find ps addr = find (\<lambda>p. p_addr p = addr) ps"

definition bgp_router_find_peer :: "('t, 'r) bgp_router \<Rightarrow> net_addr \<Rightarrow> 'r bgp_peer option" where
  "bgp_router_find_peer router addr = bgp_peers_find (peers router) addr"

text \<open>A write through a pointer to a peer.\<close>

definition peer_modify ::
    "net_addr \<Rightarrow> ('r bgp_peer \<Rightarrow> 'r bgp_peer) \<Rightarrow> ('t, 'r) bgp_router \<Rightarrow> ('t, 'r) bgp_router" where
  "peer_modify addr f router =
     router\<lparr>peers := map (\<lambda>p. if p_addr p = addr then f p else p) (peers router)\<rparr>"

text \<open>A write through a pointer to a route of a RIB, if the RIB has a route for the prefix.\<close>

definition rib_modify :: "'r rib_ops \<Rightarrow> ip_pfx \<Rightarrow> (bgp_route \<Rightarrow> bgp_route) \<Rightarrow> 'r \<Rightarrow> 'r" where
  "rib_modify ops p f rib =
     (case rib_find_exact ops rib p of
        None \<Rightarrow> rib
      | Some route \<Rightarrow> fst (trie_insert ops rib p (f route) True))"

definition adj_in_modify ::
    "('t, 'r, 'z) bgp_env_scheme \<Rightarrow> net_addr \<Rightarrow> ip_pfx \<Rightarrow> (bgp_route \<Rightarrow> bgp_route)
     \<Rightarrow> ('t, 'r) bgp_router \<Rightarrow> ('t, 'r) bgp_router" where
  "adj_in_modify env addr p f router =
     peer_modify addr (\<lambda>pr. pr\<lparr>adj_rib_in := rib_modify (rib_trie env) p f (adj_rib_in pr)\<rparr>) router"

definition loc_rib_modify ::
    "('t, 'r, 'z) bgp_env_scheme \<Rightarrow> ip_pfx \<Rightarrow> (bgp_route \<Rightarrow> bgp_route) \<Rightarrow> ('t, 'r) bgp_router
     \<Rightarrow> ('t, 'r) bgp_router" where
  "loc_rib_modify env p f router = router\<lparr>loc_rib := rib_modify (rib_trie env) p f (loc_rib router)\<rparr>"

text \<open>What a filter reads of the router.\<close>

definition flt_router_of :: "('t, 'r) bgp_router \<Rightarrow> 't flt_router" where
  "flt_router_of router = \<lparr>flt_asn = r_asn router, flt_node = node router\<rparr>"

section \<open>Configuration\<close>

definition bgp_router_create ::
    "('t, 'r, 'z) bgp_env_scheme \<Rightarrow> asn \<Rightarrow> net_addr \<Rightarrow> 't net_node \<Rightarrow> ('t, 'r) bgp_router" where
  "bgp_router_create env a rid' n =
     \<lparr>r_asn = a, rid = rid', peers = [], loc_rib = rib_create (rib_trie env), local_nets = [],
      cluster_id = rid', reflector = False, node = n, outbox = []\<rparr>"

definition bgp_router_add_peer ::
    "('t, 'r, 'z) bgp_env_scheme \<Rightarrow> asn \<Rightarrow> net_addr \<Rightarrow> ('t, 'r) bgp_router \<Rightarrow> int \<times> ('t, 'r) bgp_router" where
  "bgp_router_add_peer env a addr router =
     (if node_has_address (node router) addr then (EBGP_PEER_INVALID_ADDR, router)
      else let (result, ps) = bgp_peers_add env (peers router) (bgp_peer_create env a addr)
           in (result, router\<lparr>peers := ps\<rparr>))"

definition bgp_peer_set_filter :: "bgp_filter_dir \<Rightarrow> filter_ref option \<Rightarrow> 'r bgp_peer \<Rightarrow> 'r bgp_peer" where
  "bgp_peer_set_filter dir f p =
     (case dir of FILTER_IN \<Rightarrow> p\<lparr>filter_in := f\<rparr> | FILTER_OUT \<Rightarrow> p\<lparr>filter_out := f\<rparr>)"

definition bgp_router_peer_set_filter ::
    "net_addr \<Rightarrow> bgp_filter_dir \<Rightarrow> filter_ref option \<Rightarrow> ('t, 'r) bgp_router \<Rightarrow> int \<times> ('t, 'r) bgp_router" where
  "bgp_router_peer_set_filter addr dir f router =
     (if bgp_peers_find (peers router) addr \<noteq> None
      then (ESUCCESS, peer_modify addr (bgp_peer_set_filter dir f) router)
      else (EBGP_PEER_UNKNOWN, router))"

definition bgp_peer_set_nexthop ::
    "net_addr \<Rightarrow> net_addr \<Rightarrow> ('t, 'r) bgp_router \<Rightarrow> int \<times> ('t, 'r) bgp_router" where
  "bgp_peer_set_nexthop addr nh router =
     (if \<not> node_has_address (node router) nh then (-1, router)
      else (0, peer_modify addr (\<lambda>p. p\<lparr>p_next_hop := nh\<rparr>) router))"

definition bgp_peer_set_source ::
    "net_addr \<Rightarrow> net_addr \<Rightarrow> ('t, 'r) bgp_router \<Rightarrow> int \<times> ('t, 'r) bgp_router" where
  "bgp_peer_set_source addr src router = (0, peer_modify addr (\<lambda>p. p\<lparr>src_addr := src\<rparr>) router)"

section \<open>Messages\<close>

text \<open>The constructors leave the sequence number to \<open>bgp_peer_send\<close>.\<close>

definition bgp_msg_update_create :: "asn \<Rightarrow> bgp_route \<Rightarrow> bgp_msg" where
  "bgp_msg_update_create a route = \<lparr>peer_asn = a, seq_num = 0, payload = BGP_MSG_TYPE_UPDATE route\<rparr>"

definition bgp_msg_withdraw_create :: "asn \<Rightarrow> ip_pfx \<Rightarrow> bgp_msg" where
  "bgp_msg_withdraw_create a p = \<lparr>peer_asn = a, seq_num = 0, payload = BGP_MSG_TYPE_WITHDRAW p\<rparr>"

definition bgp_msg_close_create :: "asn \<Rightarrow> bgp_msg" where
  "bgp_msg_close_create a = \<lparr>peer_asn = a, seq_num = 0, payload = BGP_MSG_TYPE_CLOSE\<rparr>"

definition bgp_msg_open_create :: "asn \<Rightarrow> net_addr \<Rightarrow> bgp_msg" where
  "bgp_msg_open_create a id' = \<lparr>peer_asn = a, seq_num = 0, payload = BGP_MSG_TYPE_OPEN id'\<rparr>"

text \<open>A message to a virtual peer is discarded.\<close>

definition bgp_peer_send ::
    "('t, 'r, 'z) bgp_env_scheme \<Rightarrow> net_addr \<Rightarrow> bgp_msg \<Rightarrow> ('t, 'r) bgp_router
     \<Rightarrow> (int \<times> ('t, 'r) bgp_router) option" where
  "bgp_peer_send env addr msg router = do {
     p \<leftarrow> bgp_router_find_peer router addr;
     let msg = msg\<lparr>seq_num := send_seq_num p\<rparr>;
         router = peer_modify addr (\<lambda>p. p\<lparr>send_seq_num := send_seq_num p + 1\<rparr>) router
     in if \<not> bgp_peer_flag_get p PEER_FLAG_VIRTUAL
        then Some (node_send_msg env (node router) (src_addr p) (p_addr p) msg,
                   router\<lparr>outbox := outbox router @ [(addr, msg)]\<rparr>)
        else Some (EBGP_PEER_INCOMPATIBLE, router)
   }"

definition bgp_peer_send_enabled :: "'r bgp_peer \<Rightarrow> bool" where
  "bgp_peer_send_enabled p \<longleftrightarrow> \<not> bgp_peer_flag_get p PEER_FLAG_VIRTUAL \<or> record_stream p"

definition bgp_peer_announce_route ::
    "('t, 'r, 'z) bgp_env_scheme \<Rightarrow> net_addr \<Rightarrow> bgp_route \<Rightarrow> ('t, 'r) bgp_router
     \<Rightarrow> ('t, 'r) bgp_router option" where
  "bgp_peer_announce_route env addr route router =
     map_option snd
       (bgp_peer_send env addr (bgp_msg_update_create (r_asn router) (route_peer_set (Some addr) route)) router)"

definition bgp_peer_withdraw_prefix ::
    "('t, 'r, 'z) bgp_env_scheme \<Rightarrow> net_addr \<Rightarrow> ip_pfx \<Rightarrow> ('t, 'r) bgp_router \<Rightarrow> ('t, 'r) bgp_router option" where
  "bgp_peer_withdraw_prefix env addr p router =
     map_option snd (bgp_peer_send env addr (bgp_msg_withdraw_create (r_asn router) p) router)"

definition bgp_peer_session_ok :: "('t, 'r, 'z) bgp_env_scheme \<Rightarrow> 'r bgp_peer \<Rightarrow> ('t, 'r) bgp_router \<Rightarrow> bool" where
  "bgp_peer_session_ok env p router =
     (if bgp_peer_flag_get p PEER_FLAG_VIRTUAL then icmp_trace_ok env (node router) (p_addr p)
      else icmp_ping_ok env (node router) (p_addr p))"

section \<open>Lemmas\<close>

lemma peer_modify_fields [simp]:
  "r_asn (peer_modify a f router) = r_asn router" "rid (peer_modify a f router) = rid router"
  "loc_rib (peer_modify a f router) = loc_rib router" "local_nets (peer_modify a f router) = local_nets router"
  "cluster_id (peer_modify a f router) = cluster_id router" "reflector (peer_modify a f router) = reflector router"
  "node (peer_modify a f router) = node router" "outbox (peer_modify a f router) = outbox router"
  by (simp_all add: peer_modify_def)

lemma find_peer_addr: "bgp_router_find_peer router a = Some p \<Longrightarrow> p_addr p = a"
  by (auto simp: bgp_router_find_peer_def bgp_peers_find_def find_Some_iff)

lemma find_peer_modify:
  assumes "\<And>p. p_addr (f p) = p_addr p"
  shows "bgp_router_find_peer (peer_modify a f router) b
       = map_option (\<lambda>p. if b = a then f p else p) (bgp_router_find_peer router b)"
proof -
  have "find (\<lambda>p. p_addr p = b) (map (\<lambda>p. if p_addr p = a then f p else p) ps)
      = map_option (\<lambda>p. if b = a then f p else p) (find (\<lambda>p. p_addr p = b) ps)" for ps
    by (induction ps) (auto simp: assms)
  then show ?thesis by (simp add: bgp_router_find_peer_def bgp_peers_find_def peer_modify_def)
qed

lemma map_p_addr_modify:
  "(\<And>p. p_addr (f p) = p_addr p) \<Longrightarrow> map p_addr (peers (peer_modify a f router)) = map p_addr (peers router)"
  by (auto simp: peer_modify_def)

lemma find_peer_outbox [simp]:
  "bgp_router_find_peer (router\<lparr>outbox := x\<rparr>) a = bgp_router_find_peer router a"
  "bgp_router_find_peer (router\<lparr>loc_rib := y\<rparr>) a = bgp_router_find_peer router a"
  "bgp_router_find_peer (router\<lparr>local_nets := z\<rparr>) a = bgp_router_find_peer router a"
  "bgp_router_find_peer (router\<lparr>node := n\<rparr>) a = bgp_router_find_peer router a"
  by (simp_all add: bgp_router_find_peer_def)

text \<open>What sending a message does: the message, numbered, is appended to the outbox unless the peer is
  virtual, and the sequence number of the peer is incremented.\<close>

lemma bgp_peer_send_effect:
  assumes "bgp_router_find_peer router a = Some p"
  obtains result where "bgp_peer_send env a msg router = Some (result,
      (peer_modify a (\<lambda>p. p\<lparr>send_seq_num := send_seq_num p + 1\<rparr>) router)
        \<lparr>outbox := outbox router @ (if bgp_peer_flag_get p PEER_FLAG_VIRTUAL then []
                                    else [(a, msg\<lparr>seq_num := send_seq_num p\<rparr>)])\<rparr>)"
proof (cases "bgp_peer_flag_get p PEER_FLAG_VIRTUAL")
  case True
  then show ?thesis
    by (intro that [of EBGP_PEER_INCOMPATIBLE]) (simp add: bgp_peer_send_def assms Let_def peer_modify_def)
next
  case False
  then show ?thesis
    by (intro that) (simp add: bgp_peer_send_def assms Let_def)
qed

end
