(* ===== verification/Dp_Rules.thy ===== *)
theory Dp_Rules
  imports Bgp_Types
begin

text \<open>
  The rules of the BGP decision process: \<open>src/bgp/dp_rules.c\<close>, \<open>src/bgp/tie_breaks.c\<close> and
  \<open>_bgp_router_decision_process_run\<close> of \<open>src/bgp/as.c\<close>.

  A rule takes the router and the list of candidate routes and removes routes from the list.  The
  candidates are pointers to routes of the Adj-RIBs-In of the router; the rule on the IGP cost marks
  them, so the rules of the table also return the router.  The abstract specification is the list
  \<open>dp_criteria\<close> of selections "keep the candidates with the lowest key"; the rules are shown to
  implement it, and the whole run to return the only candidate it leaves.
\<close>

unbundle bit_operations_syntax

section \<open>Loops\<close>

fun highest_loop :: "('a \<Rightarrow> 'k :: linorder) \<Rightarrow> 'k \<Rightarrow> 'a list \<Rightarrow> 'k" where
  "highest_loop key acc [] = acc"
| "highest_loop key acc (x # xs) = highest_loop key (if key x > acc then key x else acc) xs"

text \<open>The lowest key, then the removal of the elements with a higher key.\<close>

definition keep_lowest :: "('a \<Rightarrow> ('k :: linorder) option) \<Rightarrow> 'k \<Rightarrow> 'a list \<Rightarrow> 'a list option" where
  "keep_lowest key init xs = do {
     m \<leftarrow> lowest_loop key init xs;
     remove_loop (\<lambda>x. map_option (\<lambda>k. k > m) (key x)) 0 xs
   }"

definition route_peer_deref :: "('t, 'r) bgp_router \<Rightarrow> bgp_route \<Rightarrow> 'r bgp_peer option" where
  "route_peer_deref router route = do {
     addr \<leftarrow> peer route;
     bgp_router_find_peer router addr
   }"

section \<open>Rules\<close>

definition dp_rules_str2med_type :: "string \<Rightarrow> int \<times> bgp_med_type option" where
  "dp_rules_str2med_type str =
     (if str = ''deterministic'' then (ESUCCESS, Some BGP_MED_TYPE_DETERMINISTIC)
      else if str = ''always-compare'' then (ESUCCESS, Some BGP_MED_TYPE_ALWAYS_COMPARE)
      else (EUNSPECIFIED, None))"

text \<open>The generic rule: the first loop, the best route it finds (\<^term>\<open>None\<close> is NULL), the second loop.\<close>

function dp_generic_first ::
    "(bgp_route \<Rightarrow> bgp_route \<Rightarrow> int) \<Rightarrow> nat \<Rightarrow> bgp_route option \<Rightarrow> bgp_routes \<Rightarrow> bgp_route option \<times> bgp_routes" where
  "dp_generic_first compare index best_route routes =
     (if index < length routes then
        (let route = routes ! index in
         case best_route of
           None \<Rightarrow> dp_generic_first compare (Suc index) (Some route) routes
         | Some best \<Rightarrow>
             (let result = compare best route in
              if result < 0 then dp_generic_first compare (Suc index) (Some route) routes
              else if result > 0 then dp_generic_first compare index best_route (routes_list_remove_at routes index)
              else dp_generic_first compare (Suc index) best_route routes))
      else (best_route, routes))"
  by auto
termination
  by (relation "measure (\<lambda>(_, index, _, routes). length routes - index)")
    (auto simp: routes_list_remove_at_def length_remove_at)

declare dp_generic_first.simps [simp del]

definition bgp_dp_rule_generic ::
    "(bgp_route \<Rightarrow> bgp_route \<Rightarrow> int) \<Rightarrow> bgp_routes \<Rightarrow> bgp_routes option" where
  "bgp_dp_rule_generic compare routes =
     (let (best_route, routes) = dp_generic_first compare 0 None routes
      in remove_loop (\<lambda>route. map_option (\<lambda>best. compare route best < 0) best_route) 0 routes)"

definition bgp_dp_rule_local_route_cmp :: "bgp_route \<Rightarrow> bgp_route \<Rightarrow> int" where
  "bgp_dp_rule_local_route_cmp route1 route2 =
     (if route_flag_get route1 ROUTE_FLAG_INTERNAL then 1 else 0)
     - (if route_flag_get route2 ROUTE_FLAG_INTERNAL then 1 else 0)"

definition bgp_dp_rule_local :: "bgp_routes \<Rightarrow> bgp_routes option" where
  "bgp_dp_rule_local routes = bgp_dp_rule_generic bgp_dp_rule_local_route_cmp routes"

definition dp_rule_highest_pref :: "bgp_routes \<Rightarrow> bgp_routes option" where
  "dp_rule_highest_pref routes =
     (let highest = highest_loop route_localpref_get 0 routes
      in remove_loop (\<lambda>route. Some (route_localpref_get route < highest)) 0 routes)"

text \<open>The length is an int and the minimum an unsigned char that starts at 255; only values below 255
  are stored in it.\<close>

definition dp_rule_shortest_path :: "bgp_routes \<Rightarrow> bgp_routes option" where
  "dp_rule_shortest_path routes = keep_lowest route_path_length 255 routes"

definition dp_rule_lowest_origin :: "bgp_routes \<Rightarrow> bgp_routes option" where
  "dp_rule_lowest_origin routes =
     keep_lowest (\<lambda>route. Some (origin_value (route_get_origin route)))
       (origin_value BGP_ORIGIN_INCOMPLETE) routes"

text \<open>The inner loop of the deterministic comparison: the entries after the one of \<open>route\<close>; the result
  tells whether \<open>route\<close> itself is set to NULL, which ends the loop.\<close>

fun med_inner :: "bgp_route \<Rightarrow> int \<Rightarrow> bgp_route option list \<Rightarrow> (bool \<times> bgp_route option list) option" where
  "med_inner route last_as [] = Some (False, [])"
| "med_inner route last_as (None # rs) = do {
     (b, rs) \<leftarrow> med_inner route last_as rs;
     Some (b, None # rs)
   }"
| "med_inner route last_as (Some route2 # rs) = do {
     last_as2 \<leftarrow> route_path_last_as route2;
     if last_as = last_as2 \<and> med (attr route) > med (attr route2) then Some (True, Some route2 # rs)
     else do {
       (b, rs) \<leftarrow> med_inner route last_as rs;
       Some (b, (if last_as = last_as2 \<and> med (attr route) < med (attr route2) then None else Some route2) # rs)
     }
   }"

lemma med_inner_length: "med_inner r l rs = Some (b, rs') \<Longrightarrow> length rs' = length rs"
  by (induction r l rs arbitrary: b rs' rule: med_inner.induct)
    (auto simp: bind_eq_Some_conv split: if_splits)

function med_outer :: "bgp_route option list \<Rightarrow> bgp_route option list option" where
  "med_outer [] = Some []"
| "med_outer (None # rs) = map_option (\<lambda>rs. None # rs) (med_outer rs)"
| "med_outer (Some route # rs) = do {
     last_as \<leftarrow> route_path_last_as route;
     (b, rs) \<leftarrow> med_inner route last_as rs;
     rs \<leftarrow> med_outer rs;
     Some ((if b then None else Some route) # rs)
   }"
  by pat_completeness auto
termination
  by (relation "measure length") (auto dest: med_inner_length)

definition dp_rule_lowest_med ::
    "('t, 'r, 'z) bgp_env_scheme \<Rightarrow> bgp_routes \<Rightarrow> bgp_routes option" where
  "dp_rule_lowest_med env routes =
     (case med_type env of
        BGP_MED_TYPE_ALWAYS_COMPARE \<Rightarrow> keep_lowest (\<lambda>route. Some (route_med_get route)) (- 1) routes
      | BGP_MED_TYPE_DETERMINISTIC \<Rightarrow> do {
          rs \<leftarrow> med_outer (map Some routes);
          map_option (map the) (remove_loop (\<lambda>x. Some (x = None)) 0 rs)
        })"

fun detect_ebgp :: "('t, 'r) bgp_router \<Rightarrow> bgp_routes \<Rightarrow> bool option" where
  "detect_ebgp router [] = Some False"
| "detect_ebgp router (route # routes) = do {
     p \<leftarrow> route_peer_deref router route;
     if p_asn p \<noteq> r_asn router then Some True else detect_ebgp router routes
   }"

definition dp_rule_ebgp_over_ibgp :: "('t, 'r) bgp_router \<Rightarrow> bgp_routes \<Rightarrow> bgp_routes option" where
  "dp_rule_ebgp_over_ibgp router routes = do {
     ebgp \<leftarrow> detect_ebgp router routes;
     if ebgp then
       remove_loop (\<lambda>route. map_option (\<lambda>p. p_asn p = r_asn router) (route_peer_deref router route)) 0 routes
     else Some routes
   }"

definition dp_rule_igp_cost ::
    "('t, 'r, 'z) bgp_env_scheme \<Rightarrow> ('t, 'r) bgp_router \<Rightarrow> net_addr \<Rightarrow> 32 word option" where
  "dp_rule_igp_cost env router nh = do {
     rtinfo \<leftarrow> rt_find_best (rtenv env) (node_rt (node router)) nh NET_ROUTE_ANY;
     map_option metric rtinfo
   }"

text \<open>Setting a flag of a candidate, in the list and in the Adj-RIB-In it is a pointer into.\<close>

definition candidate_modify ::
    "('t, 'r, 'z) bgp_env_scheme \<Rightarrow> (bgp_route \<Rightarrow> bgp_route) \<Rightarrow> bgp_route \<Rightarrow> ('t, 'r) bgp_router
     \<Rightarrow> ('t, 'r) bgp_router" where
  "candidate_modify env f route router =
     (case peer route of None \<Rightarrow> router | Some addr \<Rightarrow> adj_in_modify env addr (pfx route) f router)"

definition candidates_modify ::
    "('t, 'r, 'z) bgp_env_scheme \<Rightarrow> (bgp_route \<Rightarrow> bgp_route) \<Rightarrow> bgp_routes \<Rightarrow> ('t, 'r) bgp_router
     \<Rightarrow> ('t, 'r) bgp_router" where
  "candidates_modify env f routes router = foldl (\<lambda>router route. candidate_modify env f route router) router routes"

definition dp_rule_nearest_next_hop ::
    "('t, 'r, 'z) bgp_env_scheme \<Rightarrow> ('t, 'r) bgp_router \<Rightarrow> bgp_routes
     \<Rightarrow> (('t, 'r) bgp_router \<times> bgp_routes) option" where
  "dp_rule_nearest_next_hop env router routes =
     (let cost = (\<lambda>route. dp_rule_igp_cost env router (next_hop (attr route)));
          mark = route_flag_set ROUTE_FLAG_DP_IGP True
      in do {
        lowest \<leftarrow> lowest_loop cost (- 1) routes;
        routes' \<leftarrow> remove_loop (\<lambda>route. map_option (\<lambda>c. c > lowest) (cost route)) 0 (map mark routes);
        Some (candidates_modify env mark routes router, routes')
      })"

definition dp_rule_router_id :: "('t, 'r) bgp_router \<Rightarrow> bgp_route \<Rightarrow> net_addr option" where
  "dp_rule_router_id router route =
     (case route_originator_get route of
        Some id' \<Rightarrow> Some id'
      | None \<Rightarrow> map_option router_id (route_peer_deref router route))"

definition dp_rule_lowest_router_id :: "('t, 'r) bgp_router \<Rightarrow> bgp_routes \<Rightarrow> bgp_routes option" where
  "dp_rule_lowest_router_id router routes = keep_lowest (dp_rule_router_id router) MAX_ADDR routes"

text \<open>The length is stored in an unsigned char when the minimum is computed, and compared at full
  length when routes are removed.\<close>

definition dp_rule_shortest_cluster_list :: "bgp_routes \<Rightarrow> bgp_routes option" where
  "dp_rule_shortest_cluster_list routes = do {
     min_len \<leftarrow> lowest_loop
       (\<lambda>route. Some (case cluster_list (attr route) of None \<Rightarrow> 0 | Some cl \<Rightarrow> length cl mod 256)) 255 routes;
     remove_loop (\<lambda>route. Some (case cluster_list (attr route) of None \<Rightarrow> False | Some cl \<Rightarrow> length cl > min_len))
       0 routes
   }"

definition dp_rule_lowest_neighbor_address :: "('t, 'r) bgp_router \<Rightarrow> bgp_routes \<Rightarrow> bgp_routes option" where
  "dp_rule_lowest_neighbor_address router routes =
     keep_lowest (\<lambda>route. map_option p_addr (route_peer_deref router route)) MAX_ADDR routes"

definition tie_break_next_hop :: "bgp_route \<Rightarrow> bgp_route \<Rightarrow> int" where
  "tie_break_next_hop route1 route2 =
     (if next_hop (attr route1) < next_hop (attr route2) then 1
      else if next_hop (attr route1) > next_hop (attr route2) then -1
      else 0)"

section \<open>The decision process\<close>

type_synonym ('t, 'r) dp_rule =
  "('t, 'r) bgp_router \<Rightarrow> bgp_routes \<Rightarrow> (('t, 'r) bgp_router \<times> bgp_routes) option"

definition DP_RULES :: "('t, 'r, 'z) bgp_env_scheme \<Rightarrow> ('t, 'r) dp_rule list" where
  "DP_RULES env =
     [\<lambda>router routes. map_option (Pair router) (dp_rule_highest_pref routes),
      \<lambda>router routes. map_option (Pair router) (dp_rule_shortest_path routes),
      \<lambda>router routes. map_option (Pair router) (dp_rule_lowest_origin routes),
      \<lambda>router routes. map_option (Pair router) (dp_rule_lowest_med env routes),
      \<lambda>router routes. map_option (Pair router) (dp_rule_ebgp_over_ibgp router routes),
      dp_rule_nearest_next_hop env,
      \<lambda>router routes. map_option (Pair router) (dp_rule_lowest_router_id router routes),
      \<lambda>router routes. map_option (Pair router) (dp_rule_shortest_cluster_list routes),
      \<lambda>router routes. map_option (Pair router) (dp_rule_lowest_neighbor_address router routes)]"

text \<open>The loop over the rules: the index reached, the router and the routes left.\<close>

fun dp_run_loop ::
    "('t, 'r) dp_rule list \<Rightarrow> nat \<Rightarrow> ('t, 'r) bgp_router \<Rightarrow> bgp_routes
     \<Rightarrow> (nat \<times> ('t, 'r) bgp_router \<times> bgp_routes) option" where
  "dp_run_loop [] index router routes = Some (index, router, routes)"
| "dp_run_loop (rule # rules) index router routes =
     (if length routes \<le> 1 then Some (index, router, routes)
      else do {
        (router, routes) \<leftarrow> rule router routes;
        dp_run_loop rules (Suc index) router routes
      })"

definition bgp_router_decision_process_run ::
    "('t, 'r, 'z) bgp_env_scheme \<Rightarrow> ('t, 'r) bgp_router \<Rightarrow> bgp_routes
     \<Rightarrow> (nat \<times> ('t, 'r) bgp_router \<times> bgp_routes) option" where
  "bgp_router_decision_process_run env router routes = do {
     (index, router, routes) \<leftarrow> dp_run_loop (DP_RULES env) 0 router routes;
     assert_opt (length routes \<le> 1);
     Some (index, router, routes)
   }"


section \<open>Specification\<close>

definition keep_min :: "('a \<Rightarrow> 'k :: linorder) \<Rightarrow> 'a list \<Rightarrow> 'a list" where
  "keep_min key xs = filter (\<lambda>x. \<forall>y\<in>set xs. key x \<le> key y) xs"

definition keep_max :: "('a \<Rightarrow> 'k :: linorder) \<Rightarrow> 'a list \<Rightarrow> 'a list" where
  "keep_max key xs = filter (\<lambda>x. \<forall>y\<in>set xs. key y \<le> key x) xs"

definition keep_med :: "bgp_med_type \<Rightarrow> bgp_routes \<Rightarrow> bgp_routes" where
  "keep_med mt rs =
     filter (\<lambda>r. \<forall>s\<in>set rs. mt = BGP_MED_TYPE_ALWAYS_COMPARE \<or> route_path_last_as s = route_path_last_as r
               \<longrightarrow> route_med_get r \<le> route_med_get s) rs"

abbreviation mark_igp :: "bgp_route \<Rightarrow> bgp_route" where
  "mark_igp \<equiv> route_flag_set ROUTE_FLAG_DP_IGP True"

abbreviation path_len :: "bgp_route \<Rightarrow> nat" where
  "path_len r \<equiv> the (route_path_length r)"

abbreviation cluster_len :: "bgp_route \<Rightarrow> nat" where
  "cluster_len r \<equiv> (case cluster_list (attr r) of None \<Rightarrow> 0 | Some cl \<Rightarrow> length cl)"

definition dp_criteria ::
    "('t, 'r, 'z) bgp_env_scheme \<Rightarrow> ('t, 'r) bgp_router \<Rightarrow> (bgp_routes \<Rightarrow> bgp_routes) list" where
  "dp_criteria env router =
     [keep_max route_localpref_get,
      keep_min path_len,
      keep_min (\<lambda>r. origin_value (route_get_origin r)),
      keep_med (med_type env),
      keep_min (\<lambda>r. p_asn (the (route_peer_deref router r)) = r_asn router),
      \<lambda>rs. keep_min (\<lambda>r. the (dp_rule_igp_cost env router (next_hop (attr r)))) (map mark_igp rs),
      keep_min (\<lambda>r. the (dp_rule_router_id router r)),
      keep_min cluster_len,
      keep_min (\<lambda>r. p_addr (the (route_peer_deref router r)))]"

fun dp_select :: "(bgp_routes \<Rightarrow> bgp_routes) list \<Rightarrow> nat \<Rightarrow> bgp_routes \<Rightarrow> nat \<times> bgp_routes" where
  "dp_select [] index rs = (index, rs)"
| "dp_select (c # cs) index rs =
     (if length rs \<le> 1 then (index, rs) else dp_select cs (Suc index) (c rs))"

text \<open>The candidates whose IGP cost is compared: those left by the first five criteria, when there are several.\<close>

definition igp_compared :: "('t, 'r, 'z) bgp_env_scheme \<Rightarrow> ('t, 'r) bgp_router \<Rightarrow> bgp_routes \<Rightarrow> bgp_routes" where
  "igp_compared env router rs =
     (let rs' = snd (dp_select (take 5 (dp_criteria env router)) 0 rs) in if length rs' \<le> 1 then [] else rs')"

text \<open>The candidates the rules can handle: the path has at most 255 hops and its last segment is a
  sequence, the peer is a peer of the router, the next hop is reachable and the cluster list has at
  most 255 identifiers.\<close>

definition dp_candidate ::
    "('t, 'r, 'z) bgp_env_scheme \<Rightarrow> ('t, 'r) bgp_router \<Rightarrow> bgp_route \<Rightarrow> bool" where
  "dp_candidate env router r \<longleftrightarrow>
     route_path_length r \<noteq> None \<and> path_len r \<le> 255 \<and> route_path_last_as r \<noteq> None
   \<and> route_peer_deref router r \<noteq> None
   \<and> dp_rule_igp_cost env router (next_hop (attr r)) \<noteq> None
   \<and> cluster_len r \<le> 255"

section \<open>Lemmas on the loops\<close>

lemma highest_loop_ge: "acc \<le> highest_loop key acc xs \<and> (\<forall>x\<in>set xs. key x \<le> highest_loop key acc xs)"
proof (induction xs arbitrary: acc)
  case (Cons x xs)
  from Cons [of "if key x > acc then key x else acc"]
  have ge: "(if key x > acc then key x else acc) \<le> highest_loop key acc (x # xs)"
    and xs: "\<forall>y\<in>set xs. key y \<le> highest_loop key acc (x # xs)" by auto
  from ge have "acc \<le> highest_loop key acc (x # xs)" "key x \<le> highest_loop key acc (x # xs)"
    by (auto simp del: highest_loop.simps split: if_splits)
  with xs show ?case by (simp del: highest_loop.simps)
qed simp

lemma highest_loop_mem:
  "highest_loop key acc xs = acc \<or> (\<exists>x\<in>set xs. highest_loop key acc xs = key x)"
proof (induction xs arbitrary: acc)
  case (Cons x xs)
  from Cons [of "if key x > acc then key x else acc"] show ?case by (auto split: if_splits)
qed simp

lemma keep_min_subset: "set (keep_min key xs) \<subseteq> set xs"
  by (auto simp: keep_min_def)

lemma keep_min_not_Nil: "xs \<noteq> [] \<Longrightarrow> keep_min key xs \<noteq> []"
proof -
  assume "xs \<noteq> []"
  then have "\<exists>x\<in>set xs. \<forall>y\<in>set xs. key x \<le> key y"
    using ex_min_if_finite [of "key ` set xs"] by (force simp: not_less)
  then show ?thesis by (auto simp: keep_min_def filter_empty_conv)
qed

lemma keep_max_not_Nil: "xs \<noteq> [] \<Longrightarrow> keep_max key xs \<noteq> []"
proof -
  assume "xs \<noteq> []"
  then have "\<exists>x\<in>set xs. \<forall>y\<in>set xs. key y \<le> key x"
    using Max_in [of "key ` set xs"] Max_ge [of "key ` set xs"] by fastforce
  then show ?thesis by (auto simp: keep_max_def filter_empty_conv)
qed

text \<open>The loops compute the selection when some key is at most the initial value of the minimum.\<close>

lemma lowest_loop_min:
  assumes "\<forall>x\<in>set xs. \<exists>k. key x = Some k" and "\<exists>x\<in>set xs. the (key x) \<le> init"
  obtains m where "lowest_loop key init xs = Some m" "\<exists>x\<in>set xs. key x = Some m"
    "\<And>x. x \<in> set xs \<Longrightarrow> m \<le> the (key x)"
proof -
  obtain m where m: "lowest_loop key init xs = Some m"
    using lowest_loop_None [of key init xs] assms(1) by fastforce
  have ge: "x \<in> set xs \<Longrightarrow> m \<le> the (key x)" for x
    using lowest_loop_Some(2) [OF m, of x] by auto
  obtain x where x: "x \<in> set xs" "the (key x) \<le> init" using assms(2) by blast
  have "\<exists>x\<in>set xs. key x = Some m"
    using lowest_loop_Some(3) [OF m]
  proof
    assume "m = init"
    with ge [OF x(1)] x(2) have "m = the (key x)" by simp
    with assms(1) x(1) show ?thesis by force
  qed
  from that [OF m this ge] show thesis .
qed

lemma keep_lowest_eq:
  assumes "\<forall>x\<in>set xs. \<exists>k. key x = Some k" and "xs = [] \<or> (\<exists>x\<in>set xs. the (key x) \<le> init)"
  shows "keep_lowest key init xs = Some (keep_min (\<lambda>x. the (key x)) xs)"
proof (cases "xs = []")
  case True
  then show ?thesis by (simp add: keep_lowest_def keep_min_def remove_loop.simps)
next
  case False
  with assms(2) have "\<exists>x\<in>set xs. the (key x) \<le> init" by blast
  from lowest_loop_min [OF assms(1) this] obtain m where
    m: "lowest_loop key init xs = Some m" "\<exists>x\<in>set xs. key x = Some m"
    "\<And>x. x \<in> set xs \<Longrightarrow> m \<le> the (key x)" by blast
  have "map_option (\<lambda>k. m < k) (key x) = Some False \<longleftrightarrow> (\<forall>y\<in>set xs. the (key x) \<le> the (key y))"
    if x: "x \<in> set xs" for x
  proof -
    obtain k where k: "key x = Some k" using assms(1) x by blast
    have "k \<le> m \<longleftrightarrow> (\<forall>y\<in>set xs. k \<le> the (key y))"
      using m(2,3) by (metis option.sel order_trans)
    with k show ?thesis by (simp add: not_less)
  qed
  moreover have "\<not> (\<exists>x\<in>set xs. map_option (\<lambda>k. m < k) (key x) = None)"
    using assms(1) by fastforce
  ultimately show ?thesis
    by (simp add: keep_lowest_def m(1) remove_loop_eq keep_min_def cong: filter_cong)
qed

text \<open>The deterministic comparison of MEDs.\<close>

definition med_better :: "bgp_route \<Rightarrow> bgp_route \<Rightarrow> bool" where
  "med_better s r \<longleftrightarrow> route_path_last_as s = route_path_last_as r \<and> med (attr s) < med (attr r)"

definition somes :: "'a option list \<Rightarrow> 'a list" where
  "somes xs = map the (filter (\<lambda>x. x \<noteq> None) xs)"

lemma somes_simps [simp]: "somes [] = []" "somes (None # xs) = somes xs" "somes (Some x # xs) = x # somes xs"
  by (simp_all add: somes_def)

lemma somes_map_Some [simp]: "somes (map Some xs) = xs"
  by (induction xs) simp_all

definition med_nulled :: "bgp_route \<Rightarrow> bgp_route option \<Rightarrow> bgp_route option \<Rightarrow> bool" where
  "med_nulled r x x' \<longleftrightarrow> x' = x \<or> (x' = None \<and> (\<exists>v. x = Some v \<and> med_better r v))"

lemma med_inner_spec:
  assumes "\<forall>s\<in>set (somes rs). route_path_last_as s \<noteq> None" "route_path_last_as r = Some l"
  shows "\<exists>b rs'. med_inner r l rs = Some (b, rs') \<and> list_all2 (med_nulled r) rs rs'
    \<and> (b \<longleftrightarrow> (\<exists>s\<in>set (somes rs). med_better s r)) \<and> (b \<or> (\<forall>s\<in>set (somes rs'). \<not> med_better r s))"
  using assms
proof (induction rs)
  case Nil
  then show ?case by (intro exI [of _ False] exI [of _ "[]"]) simp
next
  case (Cons x rs)
  then obtain b rs' where IH: "med_inner r l rs = Some (b, rs')" "list_all2 (med_nulled r) rs rs'"
    "b \<longleftrightarrow> (\<exists>s\<in>set (somes rs). med_better s r)" "b \<or> (\<forall>s\<in>set (somes rs'). \<not> med_better r s)"
    by (cases x) auto
  have refl: "list_all2 (med_nulled r) rs rs" by (simp add: list_all2_refl med_nulled_def)
  show ?case
  proof (cases x)
    case None
    moreover have "med_nulled r None None" by (simp add: med_nulled_def)
    ultimately show ?thesis using IH by simp
  next
    case (Some s)
    with Cons.prems obtain l2 where "route_path_last_as s = Some l2" by auto
    moreover have "med_nulled r (Some s) (Some s)" "med_better r s \<Longrightarrow> med_nulled r (Some s) None"
      by (simp_all add: med_nulled_def)
    moreover have "med_better s r \<longleftrightarrow> route_path_last_as s = Some l \<and> med (attr s) < med (attr r)"
      "med_better r s \<longleftrightarrow> route_path_last_as s = Some l \<and> med (attr r) < med (attr s)"
      using Cons.prems(2) by (auto simp: med_better_def)
    ultimately show ?thesis using Some IH refl by auto
  qed
qed

lemma filter_nulled:
  assumes "list_all2 (med_nulled r) rs rs'" "\<forall>v\<in>set (somes rs). med_better r v \<longrightarrow> \<not> P v"
  shows "filter P (somes rs') = filter P (somes rs)"
  using assms
proof (induction rule: list_all2_induct)
  case (Cons x xs y ys)
  then show ?case by (cases x; cases y) (auto simp: med_nulled_def)
qed simp

lemma nulled_sets:
  assumes "list_all2 (med_nulled r) rs rs'"
  shows "set (somes rs') \<subseteq> set (somes rs)" and "v \<in> set (somes rs) \<Longrightarrow> v \<in> set (somes rs') \<or> med_better r v"
proof -
  have "set (somes rs') \<subseteq> set (somes rs) \<and> (\<forall>v\<in>set (somes rs). v \<in> set (somes rs') \<or> med_better r v)"
    using assms
  proof (induction rule: list_all2_induct)
    case (Cons x xs y ys)
    then show ?case by (cases x; cases y) (auto simp: med_nulled_def)
  qed simp
  then show "set (somes rs') \<subseteq> set (somes rs)"
    and "v \<in> set (somes rs) \<Longrightarrow> v \<in> set (somes rs') \<or> med_better r v" by auto
qed

lemma med_better_trans: "med_better a b \<Longrightarrow> med_better b c \<Longrightarrow> med_better a c"
  by (auto simp: med_better_def)

lemma med_better_irrefl [simp]: "\<not> med_better a a"
  by (simp add: med_better_def)

lemma med_outer_spec:
  assumes "\<forall>s\<in>set (somes xs). route_path_last_as s \<noteq> None"
  shows "\<exists>ys. med_outer xs = Some ys
    \<and> somes ys = filter (\<lambda>r. \<not> (\<exists>s\<in>set (somes xs). med_better s r)) (somes xs)"
  using assms
proof (induction xs rule: length_induct)
  case (1 xs)
  show ?case
  proof (cases xs)
    case Nil
    then show ?thesis by simp
  next
    case (Cons x rs)
    show ?thesis
    proof (cases x)
      case None
      with 1 Cons show ?thesis by fastforce
    next
      case (Some r)
      let ?better = "\<lambda>S v. \<exists>s\<in>S. med_better s v"
      obtain l where l: "route_path_last_as r = Some l" using "1.prems" Cons Some by auto
      obtain b rs' where inner: "med_inner r l rs = Some (b, rs')" and nulled: "list_all2 (med_nulled r) rs rs'"
        and b: "b \<longleftrightarrow> (\<exists>s\<in>set (somes rs). med_better s r)" "b \<or> (\<forall>s\<in>set (somes rs'). \<not> med_better r s)"
        using med_inner_spec [OF _ l, of rs] "1.prems" Cons Some by auto
      note sets = nulled_sets [OF nulled]
      have "length rs' < length xs" using list_all2_lengthD [OF nulled] Cons by simp
      moreover have "\<forall>s\<in>set (somes rs'). route_path_last_as s \<noteq> None"
        using "1.prems" Cons Some sets(1) by auto
      ultimately obtain ys where ys: "med_outer rs' = Some ys"
        "somes ys = filter (\<lambda>v. \<not> ?better (set (somes rs')) v) (somes rs')"
        using "1.IH" by blast
      have same: "?better (set (somes rs')) v \<longleftrightarrow> ?better (insert r (set (somes rs))) v"
        if "v \<in> set (somes rs')" for v
      proof
        assume "?better (insert r (set (somes rs))) v"
        then consider "med_better r v" | s where "s \<in> set (somes rs)" "med_better s v" by blast
        then show "?better (set (somes rs')) v"
        proof cases
          case 1
          with b that obtain t where t: "t \<in> set (somes rs)" "med_better t r" by blast
          then have "\<not> med_better r t" using med_better_trans med_better_irrefl by blast
          with sets(2) t 1 show ?thesis using med_better_trans by blast
        next
          case 2
          show ?thesis
          proof (cases "s \<in> set (somes rs')")
            case False
            with sets(2) 2 have "med_better r v" using med_better_trans by blast
            with b that obtain t where t: "t \<in> set (somes rs)" "med_better t r" by blast
            then have "\<not> med_better r t" using med_better_trans med_better_irrefl by blast
            with sets(2) t \<open>med_better r v\<close> show ?thesis using med_better_trans by blast
          qed (use 2 in blast)
        qed
      qed (use sets(1) in blast)
      have "somes ys = filter (\<lambda>v. \<not> ?better (insert r (set (somes rs))) v) (somes rs')"
        unfolding ys(2) by (rule filter_cong) (simp_all add: same del: bex_simps)
      also have "\<dots> = filter (\<lambda>v. \<not> ?better (insert r (set (somes rs))) v) (somes rs)"
        by (rule filter_nulled [OF nulled]) blast
      finally have rest: "somes ys = filter (\<lambda>v. \<not> ?better (insert r (set (somes rs))) v) (somes rs)" .
      have "med_outer xs = Some ((if b then None else Some r) # ys)"
        using Cons Some l inner ys(1) by simp
      moreover have "somes ((if b then None else Some r) # ys)
          = filter (\<lambda>v. \<not> ?better (set (somes xs)) v) (somes xs)"
        using b(1) rest Cons Some by auto
      ultimately show ?thesis by blast
    qed
  qed
qed

section \<open>The rules implement the criteria\<close>

lemma dp_rule_highest_pref_eq: "dp_rule_highest_pref rs = Some (keep_max route_localpref_get rs)"
proof -
  let ?h = "highest_loop route_localpref_get 0 rs"
  have ge: "\<forall>s\<in>set rs. route_localpref_get s \<le> ?h"
    using highest_loop_ge [of 0 route_localpref_get rs] by simp
  have mem: "?h = 0 \<or> (\<exists>s\<in>set rs. ?h = route_localpref_get s)" by (rule highest_loop_mem)
  have "?h \<le> route_localpref_get r \<longleftrightarrow> (\<forall>s\<in>set rs. route_localpref_get s \<le> route_localpref_get r)" for r
    using ge mem by (auto intro: order_trans)
  then show ?thesis
    by (simp add: dp_rule_highest_pref_def Let_def remove_loop_eq keep_max_def not_less cong: filter_cong)
qed

lemma dp_rule_shortest_path_eq:
  assumes "\<forall>r\<in>set rs. route_path_length r \<noteq> None \<and> path_len r \<le> 255"
  shows "dp_rule_shortest_path rs = Some (keep_min path_len rs)"
  unfolding dp_rule_shortest_path_def
  by (rule keep_lowest_eq) (use assms in \<open>auto simp: neq_Nil_conv\<close>)

lemma dp_rule_lowest_origin_eq:
  "dp_rule_lowest_origin rs = Some (keep_min (\<lambda>r. origin_value (route_get_origin r)) rs)"
proof -
  have "origin_value o' \<le> origin_value BGP_ORIGIN_INCOMPLETE" for o'
    by (cases o') (simp_all add: origin_value_def)
  then show ?thesis
    unfolding dp_rule_lowest_origin_def by (subst keep_lowest_eq) (auto simp: neq_Nil_conv)
qed

lemma dp_rule_lowest_med_eq:
  assumes "\<forall>r\<in>set rs. route_path_last_as r \<noteq> None"
  shows "dp_rule_lowest_med env rs = Some (keep_med (med_type env) rs)"
proof (cases "med_type env")
  case BGP_MED_TYPE_DETERMINISTIC
  obtain ys where ys: "med_outer (map Some rs) = Some ys"
    "somes ys = filter (\<lambda>r. \<not> (\<exists>s\<in>set rs. med_better s r)) rs"
    using med_outer_spec [of "map Some rs"] assms by auto
  have "map_option (map the) (remove_loop (\<lambda>x. Some (x = None)) 0 ys) = Some (somes ys)"
    by (simp add: remove_loop_eq somes_def)
  moreover have "filter (\<lambda>r. \<not> (\<exists>s\<in>set rs. med_better s r)) rs = keep_med BGP_MED_TYPE_DETERMINISTIC rs"
    by (auto simp: keep_med_def med_better_def route_med_get_def not_less intro!: filter_cong)
  ultimately show ?thesis
    using BGP_MED_TYPE_DETERMINISTIC ys by (simp add: dp_rule_lowest_med_def)
next
  case BGP_MED_TYPE_ALWAYS_COMPARE
  moreover have "keep_lowest (\<lambda>r. Some (route_med_get r)) (- 1) rs
      = Some (keep_min (\<lambda>r. the (Some (route_med_get r))) rs)"
    by (rule keep_lowest_eq) (auto simp: neq_Nil_conv)
  ultimately show ?thesis by (simp add: dp_rule_lowest_med_def keep_med_def keep_min_def)
qed

lemma detect_ebgp_eq:
  assumes "\<forall>r\<in>set rs. route_peer_deref router r \<noteq> None"
  shows "detect_ebgp router rs = Some (\<exists>r\<in>set rs. p_asn (the (route_peer_deref router r)) \<noteq> r_asn router)"
  using assms by (induction rs) auto

lemma dp_rule_ebgp_over_ibgp_eq:
  assumes "\<forall>r\<in>set rs. route_peer_deref router r \<noteq> None"
  shows "dp_rule_ebgp_over_ibgp router rs
       = Some (keep_min (\<lambda>r. p_asn (the (route_peer_deref router r)) = r_asn router) rs)"
proof -
  have *: "map_option (\<lambda>p. p_asn p = r_asn router) (route_peer_deref router r)
      = Some (p_asn (the (route_peer_deref router r)) = r_asn router)" if "r \<in> set rs" for r
    using assms that by auto
  show ?thesis
    using assms
    by (auto simp: dp_rule_ebgp_over_ibgp_def detect_ebgp_eq remove_loop_eq keep_min_def *
        intro!: filter_cong filter_True [symmetric] cong: bex_cong)
qed

lemma dp_rule_lowest_router_id_eq:
  assumes "\<forall>r\<in>set rs. route_peer_deref router r \<noteq> None"
  shows "dp_rule_lowest_router_id router rs = Some (keep_min (\<lambda>r. the (dp_rule_router_id router r)) rs)"
  unfolding dp_rule_lowest_router_id_def MAX_ADDR_def
  by (rule keep_lowest_eq)
    (use assms in \<open>auto simp: dp_rule_router_id_def neq_Nil_conv split: option.splits\<close>)

lemma dp_rule_lowest_neighbor_address_eq:
  assumes "\<forall>r\<in>set rs. route_peer_deref router r \<noteq> None"
  shows "dp_rule_lowest_neighbor_address router rs
       = Some (keep_min (\<lambda>r. p_addr (the (route_peer_deref router r))) rs)"
proof -
  have "the (map_option p_addr (route_peer_deref router r)) = p_addr (the (route_peer_deref router r))"
    if "r \<in> set rs" for r using assms that by auto
  then have "keep_min (\<lambda>r. the (map_option p_addr (route_peer_deref router r))) rs
      = keep_min (\<lambda>r. p_addr (the (route_peer_deref router r))) rs"
    by (simp add: keep_min_def cong: filter_cong)
  then show ?thesis
    unfolding dp_rule_lowest_neighbor_address_def MAX_ADDR_def
    by (subst keep_lowest_eq) (use assms in \<open>auto simp: neq_Nil_conv\<close>)
qed

lemma dp_rule_shortest_cluster_list_eq:
  assumes "\<forall>r\<in>set rs. cluster_len r \<le> 255"
  shows "dp_rule_shortest_cluster_list rs = Some (keep_min cluster_len rs)"
proof -
  have low: "(case cluster_list (attr r) of None \<Rightarrow> 0 | Some cl \<Rightarrow> length cl mod 256) = cluster_len r"
    if "r \<in> set rs" for r
    using assms that by (fastforce split: option.splits)
  have loop: "lowest_loop (\<lambda>r. Some (case cluster_list (attr r) of None \<Rightarrow> 0 | Some cl \<Rightarrow> length cl mod 256)) acc rs'
      = lowest_loop (\<lambda>r. Some (cluster_len r)) acc rs'" if "set rs' \<subseteq> set rs" for acc rs'
    using that by (induction rs' arbitrary: acc) (simp_all add: low)
  have rem: "(case cluster_list (attr r) of None \<Rightarrow> False | Some cl \<Rightarrow> length cl > m) \<longleftrightarrow> cluster_len r > m"
    for r m by (simp split: option.splits)
  have "dp_rule_shortest_cluster_list rs = keep_lowest (\<lambda>r. Some (cluster_len r)) 255 rs"
    unfolding dp_rule_shortest_cluster_list_def keep_lowest_def loop [OF subset_refl] rem by simp
  also have "\<dots> = Some (keep_min cluster_len rs)"
    by (subst keep_lowest_eq) (use assms in \<open>auto simp: neq_Nil_conv\<close>)
  finally show ?thesis .
qed

text \<open>A router whose peers differ in their Adj-RIBs-In only.\<close>

definition adj_in_only :: "('t, 'r) bgp_router \<Rightarrow> ('t, 'r) bgp_router \<Rightarrow> bool" where
  "adj_in_only router router' \<longleftrightarrow>
     (\<exists>ps. router' = router\<lparr>peers := ps\<rparr>
         \<and> list_all2 (\<lambda>p p'. \<exists>rib. p' = p\<lparr>adj_rib_in := rib\<rparr>) (peers router) ps)"

lemma adj_in_only_refl [simp]: "adj_in_only router router"
proof -
  have "\<exists>rib. p = p\<lparr>adj_rib_in := rib\<rparr>" for p :: "'b bgp_peer"
    by (rule exI [of _ "adj_rib_in p"]) simp
  then show ?thesis
    unfolding adj_in_only_def by (intro exI [of _ "peers router"]) (simp add: list_all2_refl)
qed

lemma adj_in_only_trans: "adj_in_only r1 r2 \<Longrightarrow> adj_in_only r2 r3 \<Longrightarrow> adj_in_only r1 r3"
proof -
  assume "adj_in_only r1 r2" "adj_in_only r2 r3"
  then obtain ps qs where r: "r2 = r1\<lparr>peers := ps\<rparr>" "r3 = r2\<lparr>peers := qs\<rparr>"
    and ps: "list_all2 (\<lambda>p p'. \<exists>rib. p' = p\<lparr>adj_rib_in := rib\<rparr>) (peers r1) ps"
    and qs: "list_all2 (\<lambda>p p'. \<exists>rib. p' = p\<lparr>adj_rib_in := rib\<rparr>) (peers r2) qs"
    by (auto simp: adj_in_only_def)
  have "list_all2 (\<lambda>p p'. \<exists>rib. p' = p\<lparr>adj_rib_in := rib\<rparr>) (peers r1) qs"
    by (rule list_all2_trans [OF _ ps]) (use qs r(1) in auto)
  with r show ?thesis by (auto simp: adj_in_only_def)
qed

lemma adj_in_only_modify [simp]: "adj_in_only router (adj_in_modify env addr p f router)"
proof -
  have *: "\<exists>rib. (if p_addr q = addr then q\<lparr>adj_rib_in := rib_modify (rib_trie env) p f (adj_rib_in q)\<rparr> else q)
      = q\<lparr>adj_rib_in := rib\<rparr>" for q
    by (rule exI [of _ "if p_addr q = addr then rib_modify (rib_trie env) p f (adj_rib_in q) else adj_rib_in q"])
      simp
  show ?thesis
    unfolding adj_in_only_def adj_in_modify_def peer_modify_def
    by (rule exI, rule conjI, rule refl) (unfold list_all2_map2 list_all2_same, blast intro: *)
qed

lemma adj_in_only_candidates [simp]: "adj_in_only router (candidates_modify env f rs router)"
  unfolding candidates_modify_def
proof (induction rs arbitrary: router)
  case (Cons r rs)
  have "adj_in_only router (candidate_modify env f r router)"
    by (simp add: candidate_modify_def split: option.splits)
  with Cons show ?case by (auto intro: adj_in_only_trans)
qed simp

lemma adj_in_only_find:
  assumes "adj_in_only router router'"
  shows "rel_option (\<lambda>p p'. \<exists>rib. p' = p\<lparr>adj_rib_in := rib\<rparr>)
           (bgp_router_find_peer router a) (bgp_router_find_peer router' a)"
proof -
  obtain ps where r: "router' = router\<lparr>peers := ps\<rparr>"
    and "list_all2 (\<lambda>p p'. \<exists>rib. p' = p\<lparr>adj_rib_in := rib\<rparr>) (peers router) ps"
    using assms by (auto simp: adj_in_only_def)
  from this(2) have "rel_option (\<lambda>p p'. \<exists>rib. p' = p\<lparr>adj_rib_in := rib\<rparr>)
      (find (\<lambda>p. p_addr p = a) (peers router)) (find (\<lambda>p. p_addr p = a) ps)"
    by (induction rule: list_all2_induct) auto
  then show ?thesis by (simp add: r bgp_router_find_peer_def bgp_peers_find_def)
qed

lemma adj_in_only_deref:
  assumes "adj_in_only router router'"
  shows "route_peer_deref router' r = None \<longleftrightarrow> route_peer_deref router r = None"
    and "map_option p_asn (route_peer_deref router' r) = map_option p_asn (route_peer_deref router r)"
    and "map_option p_addr (route_peer_deref router' r) = map_option p_addr (route_peer_deref router r)"
    and "map_option router_id (route_peer_deref router' r) = map_option router_id (route_peer_deref router r)"
    and "r_asn router' = r_asn router" "node router' = node router"
  using assms adj_in_only_find [OF assms, of "the (peer r)"]
  by (cases "peer r"; auto simp: route_peer_deref_def adj_in_only_def option_rel_Some1 rel_option_iff
      split: option.splits)+

lemma candidates_modify_Nil [simp]: "candidates_modify env f [] router = router"
  by (simp add: candidates_modify_def)

lemma candidates_modify_append:
  "candidates_modify env f (xs @ ys) router = candidates_modify env f ys (candidates_modify env f xs router)"
  by (simp add: candidates_modify_def)

text \<open>The criteria do not read the Adj-RIBs-In, and the keys do not depend on the flags.\<close>

lemma adj_in_only_keys:
  assumes "adj_in_only router router'"
  shows "dp_rule_router_id router' r = dp_rule_router_id router r"
    and "dp_rule_igp_cost env router' nh = dp_rule_igp_cost env router nh"
    and "dp_candidate env router' r = dp_candidate env router r"
proof -
  note d = adj_in_only_deref [OF assms]
  show "dp_rule_router_id router' r = dp_rule_router_id router r"
    using d(4) [of r] by (simp add: dp_rule_router_id_def split: option.split)
  show cost: "dp_rule_igp_cost env router' nh = dp_rule_igp_cost env router nh" for nh
    by (simp add: dp_rule_igp_cost_def d(6))
  show "dp_candidate env router' r = dp_candidate env router r"
    by (simp add: dp_candidate_def d(1) cost)
qed

lemma mark_idem [simp]: "mark_igp (mark_igp r) = mark_igp r"
  by (simp add: route_flag_set_def)

lemma mark_keys [simp]:
  "route_path_length (mark_igp r) = route_path_length r"
  "route_path_last_as (mark_igp r) = route_path_last_as r"
  "route_peer_deref router (mark_igp r) = route_peer_deref router r"
  "dp_rule_router_id router (mark_igp r) = dp_rule_router_id router r"
  "dp_candidate env router (mark_igp r) = dp_candidate env router r"
  by (simp_all add: route_path_length_def route_path_last_as_def route_peer_deref_def
      dp_rule_router_id_def route_originator_get_def dp_candidate_def cong: option.case_cong)

lemma keep_min_cong: "(\<And>x. x \<in> set xs \<Longrightarrow> f x = g x) \<Longrightarrow> keep_min f xs = keep_min g xs"
  by (auto simp: keep_min_def intro!: filter_cong)

lemma the_map_option: "x \<noteq> None \<Longrightarrow> the (map_option f x) = f (the x)"
  by auto

lemma deref_keys:
  assumes "adj_in_only router router'" "route_peer_deref router r \<noteq> None"
  shows "p_asn (the (route_peer_deref router' r)) = p_asn (the (route_peer_deref router r))"
    and "p_addr (the (route_peer_deref router' r)) = p_addr (the (route_peer_deref router r))"
  using adj_in_only_deref(1-3) [OF assms(1), of r] assms(2)
  by (metis the_map_option)+

lemma dp_rule_nearest_next_hop_eq:
  assumes "\<forall>r\<in>set rs. dp_rule_igp_cost env router (next_hop (attr r)) \<noteq> None"
  shows "dp_rule_nearest_next_hop env router rs
       = Some (candidates_modify env mark_igp rs router,
               keep_min (\<lambda>r. the (dp_rule_igp_cost env router (next_hop (attr r)))) (map mark_igp rs))"
proof -
  let ?cost = "\<lambda>r. dp_rule_igp_cost env router (next_hop (attr r))"
  have "lowest_loop ?cost acc (map mark_igp rs') = lowest_loop ?cost acc rs'" for acc rs'
    by (induction rs' arbitrary: acc) (auto split: option.splits)
  then have "do { m \<leftarrow> lowest_loop ?cost (- 1) rs; remove_loop (\<lambda>r. map_option (\<lambda>c. c > m) (?cost r)) 0 (map mark_igp rs) }
      = keep_lowest ?cost (- 1) (map mark_igp rs)"
    by (simp add: keep_lowest_def)
  also have "\<dots> = Some (keep_min (\<lambda>r. the (?cost r)) (map mark_igp rs))"
    by (rule keep_lowest_eq) (use assms in \<open>(cases rs; fastforce)+\<close>)
  finally show ?thesis
    by (auto simp: dp_rule_nearest_next_hop_def Let_def bind_eq_Some_conv)
qed

text \<open>A rule implements a criterion: the rule that compares IGP costs marks all its routes, the others mark none,
  and the routes it leaves are candidates.\<close>

definition rule_implements ::
    "('t, 'r, 'z) bgp_env_scheme \<Rightarrow> ('t, 'r) bgp_router \<Rightarrow> ('t, 'r) dp_rule \<Rightarrow> bool \<times> (bgp_routes \<Rightarrow> bgp_routes) \<Rightarrow> bool" where
  "rule_implements env router rule mc \<longleftrightarrow>
     (\<forall>router' rs. adj_in_only router router' \<longrightarrow> (\<forall>r\<in>set rs. dp_candidate env router r) \<longrightarrow>
       rule router' rs = Some (candidates_modify env mark_igp (if fst mc then rs else []) router', snd mc rs)
       \<and> set (snd mc rs) \<subseteq> set rs \<union> mark_igp ` set rs)"

definition dp_marking :: "bool list" where
  "dp_marking = [False, False, False, False, False, True, False, False, False]"

lemma DP_RULES_implement:
  "list_all2 (rule_implements env router) (DP_RULES env) (zip dp_marking (dp_criteria env router))"
proof -
  note k = adj_in_only_keys and d = adj_in_only_deref
  have sub: "set (keep_min f xs) \<subseteq> set xs \<union> mark_igp ` set xs"
    "set (keep_max f xs) \<subseteq> set xs \<union> mark_igp ` set xs" "set (keep_med t rs) \<subseteq> set rs \<union> mark_igp ` set rs"
    for xs rs :: bgp_routes and f :: "bgp_route \<Rightarrow> 'k :: linorder" and t
    by (auto simp: keep_min_def keep_max_def keep_med_def)
  have 1: "rule_implements env router (\<lambda>router routes. map_option (Pair router) (f routes)) (False, c)"
    if "\<And>rs. \<forall>r\<in>set rs. dp_candidate env router r \<Longrightarrow> f rs = Some (c rs)"
      "\<And>rs. set (c rs) \<subseteq> set rs \<union> mark_igp ` set rs" for f c
    using that by (auto simp: rule_implements_def)
  have 2: "rule_implements env router (\<lambda>router routes. map_option (Pair router) (f router routes)) (False, keep_min (g router))"
    if "\<And>router' rs. adj_in_only router router' \<Longrightarrow> \<forall>r\<in>set rs. dp_candidate env router r \<Longrightarrow>
          f router' rs = Some (keep_min (g router') rs)"
      and "\<And>router' r. adj_in_only router router' \<Longrightarrow> dp_candidate env router r \<Longrightarrow> g router' r = g router r"
    for f and g :: "('a, 'b) bgp_router \<Rightarrow> bgp_route \<Rightarrow> 'k :: linorder"
    unfolding rule_implements_def
  proof (intro allI impI)
    fix router' rs
    assume a: "adj_in_only router router'" and rs: "\<forall>r\<in>set rs. dp_candidate env router r"
    have "keep_min (g router') rs = keep_min (g router) rs"
      by (rule keep_min_cong) (use that(2) a rs in blast)
    with that(1) [OF a rs] sub(1)
    show "map_option (Pair router') (f router' rs)
          = Some (candidates_modify env mark_igp (if fst (False, keep_min (g router)) then rs else []) router',
              snd (False, keep_min (g router)) rs)
        \<and> set (snd (False, keep_min (g router)) rs) \<subseteq> set rs \<union> mark_igp ` set rs"
      by auto
  qed
  have cand: "route_peer_deref router r \<noteq> None" if "dp_candidate env router r" for r
    using that by (simp add: dp_candidate_def)
  have 3: "rule_implements env router (dp_rule_nearest_next_hop env)
      (True, \<lambda>rs. keep_min (\<lambda>r. the (dp_rule_igp_cost env router (next_hop (attr r)))) (map mark_igp rs))"
    by (auto simp: rule_implements_def dp_rule_nearest_next_hop_eq k(2) dp_candidate_def keep_min_def)
  show ?thesis
    unfolding DP_RULES_def dp_criteria_def dp_marking_def zip_Cons_Cons zip_Nil
    by (intro list.rel_intros 3 1 2 sub)
      (auto simp: dp_rule_highest_pref_eq dp_rule_shortest_path_eq dp_rule_lowest_origin_eq dp_rule_lowest_med_eq
        dp_rule_ebgp_over_ibgp_eq dp_rule_lowest_router_id_eq dp_rule_shortest_cluster_list_eq
        dp_rule_lowest_neighbor_address_eq dp_candidate_def d(1,5) k(1) deref_keys)
qed

text \<open>The routes marked by a run, in the order of the marks.\<close>

fun dp_marked :: "(bool \<times> (bgp_routes \<Rightarrow> bgp_routes)) list \<Rightarrow> bgp_routes \<Rightarrow> bgp_routes" where
  "dp_marked [] rs = []"
| "dp_marked ((m, c) # mcs) rs =
     (if length rs \<le> 1 then [] else (if m then rs else []) @ dp_marked mcs (c rs))"

lemma dp_run_loop_eq:
  assumes "list_all2 (rule_implements env router) rules mcs"
    and "adj_in_only router router'" "\<forall>r\<in>set rs. dp_candidate env router r"
  shows "dp_run_loop rules i router' rs
           = Some (fst (dp_select (map snd mcs) i rs), candidates_modify env mark_igp (dp_marked mcs rs) router',
               snd (dp_select (map snd mcs) i rs))"
  using assms
proof (induction arbitrary: i router' rs rule: list_all2_induct)
  case (Cons rule rules mc mcs)
  obtain m c where mc: "mc = (m, c)" by (cases mc)
  show ?case
  proof (cases "length rs \<le> 1")
    case False
    let ?r = "candidates_modify env mark_igp (if m then rs else []) router'"
    have S: "rule router' rs = Some (?r, c rs)" and sub: "set (c rs) \<subseteq> set rs \<union> mark_igp ` set rs"
      using Cons.hyps(1) Cons.prems unfolding rule_implements_def mc by auto
    have "\<forall>r\<in>set (c rs). dp_candidate env router r" using sub Cons.prems(2) by auto
    from Cons.IH [OF adj_in_only_trans [OF Cons.prems(1) adj_in_only_candidates] this, of "Suc i" env mark_igp "if m then rs else []"]
    show ?thesis using S False by (cases m) (simp_all add: mc candidates_modify_append)
  qed (use Cons.prems in \<open>auto simp: mc\<close>)
qed simp

lemma dp_marked_criteria: "dp_marked (zip dp_marking (dp_criteria env router)) rs = igp_compared env router rs"
  unfolding dp_marking_def dp_criteria_def igp_compared_def Let_def by simp

text \<open>What a criterion does to a list: it keeps some of the routes, possibly marked, in order, and at
  least one.\<close>

definition selects :: "(bgp_routes \<Rightarrow> bgp_routes) \<Rightarrow> bool" where
  "selects c \<longleftrightarrow>
     (\<forall>rs. (\<exists>P. c rs = filter P rs \<or> c rs = filter P (map mark_igp rs)) \<and> (rs \<noteq> [] \<longrightarrow> c rs \<noteq> []))"

lemma keep_med_not_Nil: "rs \<noteq> [] \<Longrightarrow> keep_med t rs \<noteq> []"
  using keep_min_not_Nil [of rs route_med_get]
  by (auto simp: keep_min_def keep_med_def filter_empty_conv)

lemma selects_keep:
  "selects (keep_min f)" "selects (keep_max f)" "selects (keep_med t)" "selects (\<lambda>rs. keep_min f (map mark_igp rs))"
  unfolding selects_def
  using keep_min_not_Nil [of _ f] keep_max_not_Nil [of _ f] keep_med_not_Nil [of _ t] keep_min_not_Nil [of "map mark_igp _" f]
  by (fastforce simp: keep_min_def keep_max_def keep_med_def)+

lemma dp_criteria_select: "list_all selects (dp_criteria env router)"
  by (simp add: dp_criteria_def selects_keep)

lemma selects_props:
  assumes "selects c"
  shows "rs \<noteq> [] \<Longrightarrow> c rs \<noteq> []"
    and "set (c rs) \<subseteq> set rs \<union> mark_igp ` set rs"
    and "distinct (map peer rs) \<Longrightarrow> distinct (map peer (c rs))"
proof -
  obtain P where P: "c rs = filter P rs \<or> c rs = filter P (map mark_igp rs)"
    using assms by (auto simp: selects_def)
  have m: "map peer (map mark_igp rs) = map peer rs" by simp
  show "rs \<noteq> [] \<Longrightarrow> c rs \<noteq> []" using assms by (auto simp: selects_def)
  show "set (c rs) \<subseteq> set rs \<union> mark_igp ` set rs" using P by auto
  show "distinct (map peer rs) \<Longrightarrow> distinct (map peer (c rs))"
    using P m by (metis distinct_map_filter)
qed


lemma dp_select_all:
  assumes "list_all selects cs"
  shows "(rs \<noteq> [] \<longrightarrow> snd (dp_select cs i rs) \<noteq> [])
    \<and> set (snd (dp_select cs i rs)) \<subseteq> set rs \<union> mark_igp ` set rs
    \<and> (distinct (map peer rs) \<longrightarrow> distinct (map peer (snd (dp_select cs i rs))))"
  using assms
proof (induction cs arbitrary: i rs)
  case (Cons c cs)
  have c: "selects c" and cs: "list_all selects cs" using Cons.prems by auto
  note p = selects_props [OF c] and IH = Cons.IH [OF cs, of "c rs" "Suc i"]
  have "set (snd (dp_select cs (Suc i) (c rs))) \<subseteq> set rs \<union> mark_igp ` set rs"
    using IH p(2) [of rs] by fastforce
  then show ?case using IH p(1,3) by auto
qed auto

lemma dp_select_props:
  assumes "list_all selects cs"
  shows "rs \<noteq> [] \<Longrightarrow> snd (dp_select cs i rs) \<noteq> []"
    and "set (snd (dp_select cs i rs)) \<subseteq> set rs \<union> mark_igp ` set rs"
    and "distinct (map peer rs) \<Longrightarrow> distinct (map peer (snd (dp_select cs i rs)))"
  using dp_select_all [OF assms, of rs i] by auto

text \<open>The last criterion leaves one route per peer address, hence one route.\<close>

lemma dp_select_last:
  "length (snd (dp_select (cs @ [c]) i rs)) \<le> 1 \<or> snd (dp_select (cs @ [c]) i rs) = c (snd (dp_select cs i rs))"
  by (induction cs arbitrary: i rs) auto

lemma deref_addr: "route_peer_deref router r = Some p \<Longrightarrow> peer r = Some (p_addr p)"
  by (auto simp: route_peer_deref_def bgp_router_find_peer_def bgp_peers_find_def bind_eq_Some_conv
      find_Some_iff)

lemma length_le_1_if_all_equal: "distinct xs \<Longrightarrow> \<forall>x\<in>set xs. \<forall>y\<in>set xs. x = y \<Longrightarrow> length xs \<le> 1"
proof (rule ccontr)
  assume xs: "distinct xs" "\<forall>x\<in>set xs. \<forall>y\<in>set xs. x = y" and "\<not> length xs \<le> 1"
  then have "0 < length xs" "1 < length xs" by auto
  then have "xs ! 0 = xs ! 1" using xs(2) nth_mem by blast
  with \<open>1 < length xs\<close> xs(1) show False by (metis distinct_conv_nth \<open>0 < length xs\<close> zero_neq_one)
qed

lemma dp_select_single:
  assumes "\<forall>r\<in>set rs. dp_candidate env router r" "distinct (map peer rs)"
  shows "length (snd (dp_select (dp_criteria env router) i rs)) \<le> 1"
proof -
  define cs where "cs = butlast (dp_criteria env router)"
  have cs: "dp_criteria env router = cs @ [keep_min (\<lambda>r. p_addr (the (route_peer_deref router r)))]"
    by (simp add: cs_def dp_criteria_def)
  have sel: "list_all selects cs"
    using dp_criteria_select [of env router] unfolding cs by simp
  show ?thesis
    using dp_select_last [of cs "keep_min (\<lambda>r. p_addr (the (route_peer_deref router r)))" i rs]
  proof
    assume "snd (dp_select (cs @ [keep_min (\<lambda>r. p_addr (the (route_peer_deref router r)))]) i rs)
        = keep_min (\<lambda>r. p_addr (the (route_peer_deref router r))) (snd (dp_select cs i rs))"
    then have j: "snd (dp_select (dp_criteria env router) i rs)
        = keep_min (\<lambda>r. p_addr (the (route_peer_deref router r))) (snd (dp_select cs i rs))"
      unfolding cs .
    let ?rs = "snd (dp_select cs i rs)" and ?res = "snd (dp_select (dp_criteria env router) i rs)"
    have cand: "route_peer_deref router r \<noteq> None" if "r \<in> set ?rs" for r
      using dp_select_props(2) [OF sel, where i = i and rs = rs] assms(1) that by (auto simp: dp_candidate_def)
    have "peer r = Some (p_addr (the (route_peer_deref router r)))" if "r \<in> set ?rs" for r
      using cand [OF that] deref_addr by auto
    then have "\<forall>a\<in>set (map peer ?res). \<forall>b\<in>set (map peer ?res). a = b"
      unfolding j by (auto simp: keep_min_def intro: antisym)
    moreover have "distinct (map peer ?res)"
      by (rule dp_select_props(3) [OF dp_criteria_select assms(2)])
    ultimately have "length (map peer ?res) \<le> 1" using length_le_1_if_all_equal by blast
    then show ?thesis by simp
  qed (simp add: cs)
qed

lemma dp_select_best:
  assumes "rs \<noteq> []" "\<forall>r\<in>set rs. dp_candidate env router r" "distinct (map peer rs)"
  obtains b where "b \<in> set rs" "snd (dp_select (dp_criteria env router) i rs) = [b]
      \<or> snd (dp_select (dp_criteria env router) i rs) = [mark_igp b]"
proof -
  let ?res = "snd (dp_select (dp_criteria env router) i rs)"
  have "?res \<noteq> []" by (rule dp_select_props(1) [OF dp_criteria_select assms(1)])
  with dp_select_single [OF assms(2,3), of i] obtain b where b: "?res = [b]"
    by (cases ?res) auto
  with dp_select_props(2) [OF dp_criteria_select [of env router], where i = i and rs = rs] that show thesis by auto
qed

text \<open>The first three criteria in lexicographic order.\<close>

definition dp_prefers :: "bgp_route \<Rightarrow> bgp_route \<Rightarrow> bool" where
  "dp_prefers b s \<longleftrightarrow>
     route_localpref_get s < route_localpref_get b
   \<or> (route_localpref_get s = route_localpref_get b
      \<and> (path_len b < path_len s
         \<or> (path_len b = path_len s \<and> origin_value (route_get_origin b) \<le> origin_value (route_get_origin s))))"

lemma dp_prefers_refl [simp]: "dp_prefers b b" "dp_prefers (mark_igp b) b"
  by (simp_all add: dp_prefers_def route_localpref_get_def route_get_origin_def)

lemma mark_attr_keys [simp]:
  "route_localpref_get (mark_igp r) = route_localpref_get r" "route_get_origin (mark_igp r) = route_get_origin r"
  by (simp_all add: route_localpref_get_def route_get_origin_def)

lemma dp_select_prefers:
  assumes b: "b \<in> set (snd (dp_select (dp_criteria env router) i rs))" and s: "s \<in> set rs"
  shows "dp_prefers b s"
proof -
  let ?c1 = "keep_max route_localpref_get" and ?c2 = "keep_min path_len"
    and ?c3 = "keep_min (\<lambda>r. origin_value (route_get_origin r))"
  obtain cs where cs: "dp_criteria env router = ?c1 # ?c2 # ?c3 # cs" "list_all selects cs"
    using dp_criteria_select [of env router] by (auto simp: dp_criteria_def)
  have c: "list_all selects (?c2 # ?c3 # cs)" "list_all selects (?c3 # cs)"
    using dp_criteria_select [of env router] by (auto simp: cs(1))
  have single: ?thesis if "length rs \<le> 1" "b \<in> set rs" using that s by (cases rs) auto
  have 1: "\<exists>r\<in>set (?c1 rs). b = r \<or> b = mark_igp r" if "\<not> length rs \<le> 1"
    using b that dp_select_props(2) [OF c(1), where i = "Suc i" and rs = "?c1 rs"] unfolding cs(1) by auto
  have 2: "\<exists>r\<in>set (?c2 (?c1 rs)). b = r \<or> b = mark_igp r" if "\<not> length rs \<le> 1" "\<not> length (?c1 rs) \<le> 1"
    using b that dp_select_props(2) [OF c(2), where i = "Suc (Suc i)" and rs = "?c2 (?c1 rs)"] unfolding cs(1) by auto
  have 3: "\<exists>r\<in>set (?c3 (?c2 (?c1 rs))). b = r \<or> b = mark_igp r"
    if "\<not> length rs \<le> 1" "\<not> length (?c1 rs) \<le> 1" "\<not> length (?c2 (?c1 rs)) \<le> 1"
    using b that dp_select_props(2) [OF cs(2), where i = "Suc (Suc (Suc i))" and rs = "?c3 (?c2 (?c1 rs))"]
    unfolding cs(1) by auto
  have only: "x = y" if "length xs \<le> 1" "x \<in> set xs" "y \<in> set xs" for x y :: bgp_route and xs
    using that by (cases xs) auto
  show ?thesis
  proof (cases "length rs \<le> 1")
    case True
    with b show ?thesis unfolding cs(1) by (auto intro: single)
  next
    case F1: False
    obtain r1 where r1: "r1 \<in> set (?c1 rs)" "b = r1 \<or> b = mark_igp r1" using 1 [OF F1] by blast
    then have pref: "route_localpref_get s \<le> route_localpref_get b" using s by (auto simp: keep_max_def)
    show ?thesis
    proof (cases "route_localpref_get s < route_localpref_get b")
      case False
      with pref have "route_localpref_get s = route_localpref_get r1" using r1(2) by auto
      with r1(1) s have s1: "s \<in> set (?c1 rs)" by (auto simp: keep_max_def)
      show ?thesis
      proof (cases "length (?c1 rs) \<le> 1")
        case True
        from only [OF True r1(1) s1] r1(2) show ?thesis by auto
      next
        case F2: False
        obtain r2 where r2: "r2 \<in> set (?c2 (?c1 rs))" "b = r2 \<or> b = mark_igp r2" using 2 [OF F1 F2] by blast
        then have len: "path_len b \<le> path_len s" using s1 by (auto simp: keep_min_def)
        show ?thesis
        proof (cases "path_len b = path_len s")
          case True
          with r2 s1 have s2: "s \<in> set (?c2 (?c1 rs))" by (auto simp: keep_min_def)
          show ?thesis
          proof (cases "length (?c2 (?c1 rs)) \<le> 1")
            case True
            from only [OF True r2(1) s2] r2(2) show ?thesis by auto
          next
            case F3: False
            obtain r3 where "r3 \<in> set (?c3 (?c2 (?c1 rs)))" "b = r3 \<or> b = mark_igp r3" using 3 [OF F1 F2 F3] by blast
            then have "origin_value (route_get_origin b) \<le> origin_value (route_get_origin s)"
              using s2 by (auto simp: keep_min_def [of "\<lambda>r. origin_value (route_get_origin r)"])
            with False pref True show ?thesis by (simp add: dp_prefers_def)
          qed
        qed (use False pref len in \<open>auto simp: dp_prefers_def\<close>)
      qed
    qed (simp add: dp_prefers_def)
  qed
qed

text \<open>The generic rule.\<close>

lemma dp_generic_first_append:
  assumes cmp: "\<And>a b. compare a b < 0 \<longleftrightarrow> key a < (key b :: 'k :: linorder)" "\<And>a b. compare a b > 0 \<longleftrightarrow> key a > key b"
  shows "\<exists>best' xs'. dp_generic_first compare (length ys) (Some best) (ys @ xs) = (Some best', ys @ xs')
    \<and> key best \<le> key best' \<and> (\<forall>x\<in>set xs. key x \<le> key best') \<and> best' \<in> insert best (set xs)
    \<and> filter (\<lambda>r. key best' \<le> key r) xs' = filter (\<lambda>r. key best' \<le> key r) xs"
proof (induction xs arbitrary: ys best)
  case Nil
  then show ?case by (simp add: dp_generic_first.simps)
next
  case (Cons x xs)
  consider "key best < key x" | "key best > key x" | "key best = key x" by (meson linorder_cases)
  then show ?case
  proof cases
    case 1
    then have "dp_generic_first compare (length ys) (Some best) (ys @ x # xs)
        = dp_generic_first compare (length (ys @ [x])) (Some x) ((ys @ [x]) @ xs)"
      using cmp by (subst dp_generic_first.simps) (simp add: Let_def)
    moreover obtain best' xs' where
      "dp_generic_first compare (length (ys @ [x])) (Some x) ((ys @ [x]) @ xs) = (Some best', (ys @ [x]) @ xs')"
      "key x \<le> key best'" "\<forall>x\<in>set xs. key x \<le> key best'" "best' \<in> insert x (set xs)"
      "filter (\<lambda>r. key best' \<le> key r) xs' = filter (\<lambda>r. key best' \<le> key r) xs"
      using Cons [of "ys @ [x]" x] by blast
    ultimately show ?thesis using 1 by (intro exI [of _ best'] exI [of _ "x # xs'"]) auto
  next
    case 2
    then have "\<not> compare best x < 0" "compare best x > 0" using cmp by (auto simp: not_less)
    then have "dp_generic_first compare (length ys) (Some best) (ys @ x # xs)
        = dp_generic_first compare (length ys) (Some best) (ys @ xs)"
      by (subst dp_generic_first.simps) (simp add: Let_def routes_list_remove_at_def)
    moreover obtain best' xs' where "dp_generic_first compare (length ys) (Some best) (ys @ xs) = (Some best', ys @ xs')"
      "key best \<le> key best'" "\<forall>x\<in>set xs. key x \<le> key best'" "best' \<in> insert best (set xs)"
      "filter (\<lambda>r. key best' \<le> key r) xs' = filter (\<lambda>r. key best' \<le> key r) xs"
      using Cons [of ys best] by blast
    ultimately show ?thesis using 2 by (intro exI [of _ best'] exI [of _ xs']) auto
  next
    case 3
    then have "\<not> compare best x < 0" "\<not> compare best x > 0" using cmp by auto
    then have "dp_generic_first compare (length ys) (Some best) (ys @ x # xs)
        = dp_generic_first compare (length (ys @ [x])) (Some best) ((ys @ [x]) @ xs)"
      by (subst dp_generic_first.simps) (simp add: Let_def)
    moreover obtain best' xs' where
      "dp_generic_first compare (length (ys @ [x])) (Some best) ((ys @ [x]) @ xs) = (Some best', (ys @ [x]) @ xs')"
      "key best \<le> key best'" "\<forall>x\<in>set xs. key x \<le> key best'" "best' \<in> insert best (set xs)"
      "filter (\<lambda>r. key best' \<le> key r) xs' = filter (\<lambda>r. key best' \<le> key r) xs"
      using Cons [of "ys @ [x]" best] by blast
    ultimately show ?thesis using 3 by (intro exI [of _ best'] exI [of _ "x # xs'"]) auto
  qed
qed

lemma bgp_dp_rule_generic_eq:
  assumes cmp: "\<And>a b. compare a b < 0 \<longleftrightarrow> key a < (key b :: 'k :: linorder)" "\<And>a b. compare a b > 0 \<longleftrightarrow> key a > key b"
  shows "bgp_dp_rule_generic compare rs = Some (keep_max key rs)"
proof (cases rs)
  case Nil
  then show ?thesis
    by (simp add: bgp_dp_rule_generic_def dp_generic_first.simps remove_loop.simps keep_max_def)
next
  case (Cons x xs)
  obtain best xs' where b: "dp_generic_first compare (length [x]) (Some x) ([x] @ xs) = (Some best, [x] @ xs')"
    "key x \<le> key best" "\<forall>x\<in>set xs. key x \<le> key best" "best \<in> insert x (set xs)"
    "filter (\<lambda>r. key best \<le> key r) xs' = filter (\<lambda>r. key best \<le> key r) xs"
    using dp_generic_first_append [of compare key "[x]" x xs, OF cmp] by blast
  have "dp_generic_first compare 0 None rs = (Some best, x # xs')"
    using b(1) Cons by (subst dp_generic_first.simps) simp
  then have "bgp_dp_rule_generic compare rs = Some (filter (\<lambda>r. key best \<le> key r) (x # xs'))"
    using cmp(1) by (simp add: bgp_dp_rule_generic_def remove_loop_eq not_less cong: filter_cong)
  also have "filter (\<lambda>r. key best \<le> key r) (x # xs') = filter (\<lambda>r. key best \<le> key r) rs"
    using b(5) Cons by simp
  also have "\<dots> = keep_max key rs"
    unfolding keep_max_def using b(2-4) Cons by (intro filter_cong) (auto intro: order_trans)
  finally show ?thesis .
qed

text \<open>The run as its callers use it.\<close>

lemma dp_run_eq:
  assumes "\<forall>r\<in>set rs. dp_candidate env router r" "distinct (map peer rs)"
  shows "bgp_router_decision_process_run env router rs
      = Some (fst (dp_select (dp_criteria env router) 0 rs), candidates_modify env mark_igp (igp_compared env router rs) router,
          snd (dp_select (dp_criteria env router) 0 rs))"
proof -
  have "map snd (zip dp_marking (dp_criteria env router)) = dp_criteria env router"
    by (simp add: dp_marking_def dp_criteria_def)
  then have "dp_run_loop (DP_RULES env) 0 router rs
      = Some (fst (dp_select (dp_criteria env router) 0 rs), candidates_modify env mark_igp (igp_compared env router rs) router,
          snd (dp_select (dp_criteria env router) 0 rs))"
    using dp_run_loop_eq [OF DP_RULES_implement adj_in_only_refl assms(1), of 0] by (simp add: dp_marked_criteria)
  with dp_select_single [OF assms, of 0] show ?thesis
    by (auto simp: bgp_router_decision_process_run_def)
qed

lemma igp_compared_sub: "set (igp_compared env router rs) \<subseteq> set rs \<union> mark_igp ` set rs"
proof -
  have "list_all selects (take 5 (dp_criteria env router))"
    using dp_criteria_select [of env router] by (auto simp: list_all_iff dest: in_set_takeD)
  then show ?thesis using dp_select_props(2) by (auto simp: igp_compared_def Let_def)
qed

lemma dp_run_selects:
  assumes "\<forall>r\<in>set rs. dp_candidate env router r" "distinct (map peer rs)"
  obtains S where "bgp_router_decision_process_run env router rs
      = Some (fst (dp_select (dp_criteria env router) 0 rs), candidates_modify env mark_igp S router,
          snd (dp_select (dp_criteria env router) 0 rs))"
    "set S \<subseteq> set rs \<union> mark_igp ` set rs"
  by (rule that [OF dp_run_eq [OF assms] igp_compared_sub])

lemma dp_run_best:
  assumes "rs \<noteq> []" "\<forall>r\<in>set rs. dp_candidate env router r" "distinct (map peer rs)"
  obtains rank' S b best where
    "bgp_router_decision_process_run env router rs = Some (rank', candidates_modify env mark_igp S router, [best])"
    "set S \<subseteq> set rs \<union> mark_igp ` set rs" "b \<in> set rs" "best = b \<or> best = mark_igp b"
    "\<forall>s\<in>set rs. dp_prefers best s"
proof -
  let ?sel = "dp_select (dp_criteria env router) 0 rs"
  obtain S where run: "bgp_router_decision_process_run env router rs
      = Some (fst ?sel, candidates_modify env mark_igp S router, snd ?sel)"
    "set S \<subseteq> set rs \<union> mark_igp ` set rs"
    using assms(2,3) by (rule dp_run_selects)
  obtain b where b: "b \<in> set rs" "snd ?sel = [b] \<or> snd ?sel = [mark_igp b]"
    using dp_select_best [OF assms] by blast
  then obtain best where best: "snd ?sel = [best]" "best = b \<or> best = mark_igp b" by blast
  moreover have "\<forall>s\<in>set rs. dp_prefers best s"
    using dp_select_prefers [of best env router 0 rs] best(1) by simp
  ultimately show thesis using that run b(1) by simp
qed

section \<open>Properties\<close>

text \<open>A router with two peers, in AS 2 and AS 3, and a route to every address.\<close>

definition sample_env :: "((rt_info list) alist_trie, bgp_route alist_trie) bgp_env" where
  "sample_env =
     \<lparr>path_hash_add = path_hash_add (list_repository [] []), comm_hash_add = comm_hash_add (list_repository [] []),
      rtenv = alist_rt_env, path_exprs = [], filter_seqs = (\<lambda>_. []), filter_depth = 1,
      rib_trie = alist_trie_ops, peers_array_add = insort_unique bgp_peers_compare,
      node_send_msg = (\<lambda>_ _ _ _. 0), icmp_trace_ok = (\<lambda>_ _. True), icmp_ping_ok = (\<lambda>_ _. True),
      med_type = BGP_MED_TYPE_DETERMINISTIC, options_local_pref = 100\<rparr>"

definition sample_router :: "((rt_info list) alist_trie, bgp_route alist_trie) bgp_router" where
  "sample_router =
     (bgp_router_create sample_env 1 7
        \<lparr>node_rid = 9, ifaces = [], node_rt = [(\<lparr>network = 0, mask = 0\<rparr>, [rt_info_create \<lparr>network = 0, mask = 0\<rparr> 5 NET_ROUTE_IGP])], node_domains = []\<rparr>)
     \<lparr>peers := [bgp_peer_create sample_env 2 20, bgp_peer_create sample_env 3 30]\<rparr>"

definition sample_route :: "net_addr \<Rightarrow> 32 word \<Rightarrow> bgp_route" where
  "sample_route a m = route_med_set m (route_create \<lparr>network = 1, mask = 8\<rparr> (Some a) a BGP_ORIGIN_IGP)"

text \<open>C10: The decision process selects a best route: from a non-empty list of candidates of distinct
  peers exactly one is left, it is one of the candidates (perhaps with the IGP mark), and no candidate
  has a higher LOCAL-PREF, or the same LOCAL-PREF and a shorter AS-Path, or the same LOCAL-PREF and
  AS-Path length and a lower ORIGIN.\<close>

theorem decision_process_run_best:
  assumes "rs \<noteq> []" "\<forall>r\<in>set rs. dp_candidate env router r" "distinct (map peer rs)"
  shows "\<exists>rank' router' b best. bgp_router_decision_process_run env router rs = Some (rank', router', [best])
    \<and> b \<in> set rs \<and> (best = b \<or> best = route_flag_set ROUTE_FLAG_DP_IGP True b)
    \<and> (\<forall>s\<in>set rs. dp_prefers best s)"
  using assms by (rule dp_run_best) blast

theorem decision_process_run_best_witness:
  "\<exists>rank' router' b best. bgp_router_decision_process_run sample_env sample_router
        [sample_route 30 0, route_localpref_set 200 (sample_route 20 0)] = Some (rank', router', [best])
    \<and> b \<in> {sample_route 30 0, route_localpref_set 200 (sample_route 20 0)}
    \<and> (best = b \<or> best = route_flag_set ROUTE_FLAG_DP_IGP True b)
    \<and> dp_prefers best (sample_route 30 0)"
proof -
  let ?rs = "[sample_route 30 0, route_localpref_set 200 (sample_route 20 0)]"
  have 1: "?rs \<noteq> []" by simp
  have 2: "\<forall>r\<in>set ?rs. dp_candidate sample_env sample_router r" by code_simp
  have 3: "distinct (map peer ?rs)" by code_simp
  from decision_process_run_best [OF 1 2 3] show ?thesis by (auto simp del: dp_prefers_refl)
qed

text \<open>C15: The MED rule, a loop over pairs of candidates that sets entries of the array to NULL while it
  runs and ends early for an entry it has removed, keeps exactly the candidates that no candidate with the same
  last AS (with "always-compare": no candidate) beats by a lower MED, in their order.\<close>

theorem dp_rule_lowest_med_correct:
  assumes "\<forall>r\<in>set rs. route_path_last_as r \<noteq> None"
  shows "dp_rule_lowest_med env rs
       = Some (filter (\<lambda>r. \<not> (\<exists>s\<in>set rs. (med_type env = BGP_MED_TYPE_ALWAYS_COMPARE
                                        \<or> route_path_last_as s = route_path_last_as r)
                                    \<and> route_med_get s < route_med_get r)) rs)"
  unfolding dp_rule_lowest_med_eq [OF assms] keep_med_def
  by (auto simp: not_less intro!: filter_cong)

theorem dp_rule_lowest_med_correct_witness:
  "dp_rule_lowest_med sample_env [sample_route 30 4, sample_route 20 3, sample_route 30 3]
     = Some [sample_route 20 3, sample_route 30 3]"
proof -
  let ?rs = "[sample_route 30 4, sample_route 20 3, sample_route 30 3]"
  have "\<forall>r\<in>set ?rs. route_path_last_as r \<noteq> None" by code_simp
  from dp_rule_lowest_med_correct [OF this, of sample_env] show ?thesis
    by (rule trans) code_simp
qed

text \<open>The generic rule, which removes routes while it looks for the best one and then removes the
  rest in a second pass, keeps exactly the routes of the best value of the comparison, in their order,
  for every comparison function that orders routes by a key.\<close>

theorem bgp_dp_rule_generic_correct:
  assumes "\<And>a b. compare a b < 0 \<longleftrightarrow> key a < (key b :: 'k :: linorder)" "\<And>a b. compare a b > 0 \<longleftrightarrow> key a > key b"
  shows "bgp_dp_rule_generic compare rs = Some (filter (\<lambda>r. \<forall>s\<in>set rs. key s \<le> key r) rs)"
  using bgp_dp_rule_generic_eq [of compare key rs, OF assms] by (simp add: keep_max_def)

theorem bgp_dp_rule_generic_correct_witness:
  "\<forall>rs. bgp_dp_rule_generic bgp_dp_rule_local_route_cmp rs
     = Some (filter (\<lambda>r. \<forall>s\<in>set rs. route_flag_get s ROUTE_FLAG_INTERNAL \<le> route_flag_get r ROUTE_FLAG_INTERNAL) rs)"
  by (intro allI bgp_dp_rule_generic_correct) (auto simp: bgp_dp_rule_local_route_cmp_def)

text \<open>When every AS-Path has more than 255 hops, the rule on the AS-Path length removes every route.\<close>

lemma dp_rule_shortest_path_empties:
  assumes "\<forall>r\<in>set rs. \<exists>n. route_path_length r = Some n \<and> n > 255"
  shows "dp_rule_shortest_path rs = Some []"
proof -
  have "lowest_loop route_path_length 255 rs' = Some 255" if "set rs' \<subseteq> set rs" for rs'
    using that assms by (induction rs') (auto split: option.splits)
  with assms show ?thesis
    by (fastforce simp: dp_rule_shortest_path_def keep_lowest_def remove_loop_eq filter_empty_conv)
qed

end
