(* ===== verification/Bgp_Advertise.thy ===== *)
theory Bgp_Advertise
  imports Dp_Rules
begin

text \<open>
  Redistribution of routes to peers: \<open>bgp_router_ecomm_process\<close>, \<open>_bgp_router_advertise_to_peer\<close>,
  \<open>bgp_router_peer_rib_out_remove\<close>, \<open>bgp_router_decision_process_disseminate_to_peer\<close> and
  \<open>bgp_router_decision_process_disseminate\<close> of \<open>src/bgp/as.c\<close>.

  The properties are the rules of the redistribution matrix (what is never sent to whom, and what
  is set in a route that is sent) and the correspondence of an Adj-RIB-Out with the messages sent:
  a prefix is in the Adj-RIB-Out of a peer exactly when the last message about it was an UPDATE.
\<close>

unbundle bit_operations_syntax

section \<open>Extended communities\<close>

text \<open>The loop over the redistribution communities; the result \<^term>\<open>False\<close> is "ignore the route".\<close>

fun ecomm_process_loop ::
    "('t, 'r, 'z) bgp_env_scheme \<Rightarrow> ('t, 'r) bgp_router \<Rightarrow> 'r bgp_peer \<Rightarrow> bgp_ecomms \<Rightarrow> bgp_route
     \<Rightarrow> (bool \<times> bgp_route) option" where
  "ecomm_process_loop env router p [] route = Some (True, route)"
| "ecomm_process_loop env router p (comm # cs) route =
     (if type_high comm = ECOMM_RED \<and> ecomm_red_match comm (p_asn p) then
        (let action = drop_bit 3 (type_low comm) AND 7 in
         if action = ECOMM_RED_ACTION_PREPEND then do {
           (_, route) \<leftarrow> route_path_prepend env (r_asn router) (type_low comm AND 7) route;
           ecomm_process_loop env router p cs route
         }
         else if action = ECOMM_RED_ACTION_NO_EXPORT then do {
           (_, route) \<leftarrow> route_comm_append env COMM_NO_EXPORT route;
           ecomm_process_loop env router p cs route
         }
         else if action = ECOMM_RED_ACTION_IGNORE then Some (False, route)
         else None)
      else ecomm_process_loop env router p cs route)"

definition bgp_router_ecomm_process ::
    "('t, 'r, 'z) bgp_env_scheme \<Rightarrow> ('t, 'r) bgp_router \<Rightarrow> 'r bgp_peer \<Rightarrow> bgp_route \<Rightarrow> (bool \<times> bgp_route) option" where
  "bgp_router_ecomm_process env router p route =
     (case ecomms (attr route) of
        None \<Rightarrow> Some (True, route)
      | Some cs \<Rightarrow> ecomm_process_loop env router p cs route)"

section \<open>Advertisement\<close>

datatype location = INTERNAL | EXTERNAL | LOCAL

definition location_of :: "('t, 'r) bgp_router \<Rightarrow> 'r bgp_peer option \<Rightarrow> location" where
  "location_of router src =
     (case src of None \<Rightarrow> LOCAL | Some p \<Rightarrow> if r_asn router = p_asn p then INTERNAL else EXTERNAL)"

text \<open>The route-redistribution matrix; the inner \<^term>\<open>None\<close> is a route that is filtered out.\<close>

definition redistribution_matrix ::
    "('t, 'r) bgp_router \<Rightarrow> 'r bgp_peer \<Rightarrow> 'r bgp_peer option \<Rightarrow> bgp_route \<Rightarrow> bgp_route option option" where
  "redistribution_matrix router dst src new_route =
     (if location_of router (Some dst) = EXTERNAL then
        (if route_comm_contains new_route COMM_NO_EXPORT then Some None
         else if route_path_contains new_route (p_asn dst) then Some None
         else Some (Some (route_cluster_list_clear (route_originator_clear new_route))))
      else case location_of router src of
        EXTERNAL \<Rightarrow> Some (Some new_route)
      | INTERNAL \<Rightarrow>
          (if reflector router then
             (if \<not> route_flag_get new_route ROUTE_FLAG_RR_CLIENT \<and> \<not> bgp_peer_flag_get dst PEER_FLAG_RR_CLIENT
              then Some None
              else case route_originator_get new_route of
                None \<Rightarrow> do {
                  src \<leftarrow> src;
                  new_route \<leftarrow> route_originator_set (router_id src) new_route;
                  map_option Some (route_cluster_list_append (cluster_id router) new_route)
                }
              | Some _ \<Rightarrow>
                  (if originator_equals (originator (attr new_route)) (Some (router_id dst)) then Some None
                   else map_option Some (route_cluster_list_append (cluster_id router) new_route)))
           else Some None)
      | LOCAL \<Rightarrow>
          (if reflector router then map_option Some (route_originator_set (rid router) new_route)
           else Some (Some new_route)))"

text \<open>The update of the attributes before redistribution.\<close>

definition redistribution_update ::
    "('t, 'r, 'z) bgp_env_scheme \<Rightarrow> ('t, 'r) bgp_router \<Rightarrow> 'r bgp_peer \<Rightarrow> 'r bgp_peer option \<Rightarrow> bgp_route
     \<Rightarrow> bgp_route option" where
  "redistribution_update env router dst src new_route =
     (if location_of router (Some dst) = EXTERNAL then
        (let new_route = route_set_nexthop (if p_next_hop dst \<noteq> NET_ADDR_ANY then p_next_hop dst else rid router) new_route
         in map_option snd (route_path_prepend env (r_asn router) 1 new_route))
      else if location_of router src = EXTERNAL then do {
        p \<leftarrow> route_peer_deref router new_route;
        Some (if bgp_peer_flag_get p PEER_FLAG_NEXT_HOP_SELF then route_set_nexthop (rid router) new_route
              else if p_next_hop dst \<noteq> NET_ADDR_ANY then route_set_nexthop (p_next_hop dst) new_route
              else new_route)
      }
      else Some new_route)"

text \<open>From the removal of the non-transitive communities on, and from the output communities on, the
  rest of \<open>_bgp_router_advertise_to_peer\<close> as a function of the route: the route sent, or
  \<^term>\<open>Some None\<close> when the function returns -1.\<close>

definition advertised_filter ::
    "('t, 'r, 'z) bgp_env_scheme \<Rightarrow> ('t, 'r) bgp_router \<Rightarrow> 'r bgp_peer \<Rightarrow> 'r bgp_peer option \<Rightarrow> bgp_route
     \<Rightarrow> bgp_route option option" where
  "advertised_filter env router dst src new_route =
     (let new_route = route_ecomm_strip_non_transitive new_route;
          new_route = (if location_of router (Some dst) = EXTERNAL then route_med_clear new_route else new_route)
      in do {
        (accept, new_route) \<leftarrow> filter_apply env (filter_out dst) (flt_router_of router) new_route;
        if \<not> accept then Some None
        else map_option Some (redistribution_update env router dst src new_route)
      })"

definition advertised_rest ::
    "('t, 'r, 'z) bgp_env_scheme \<Rightarrow> ('t, 'r) bgp_router \<Rightarrow> 'r bgp_peer \<Rightarrow> 'r bgp_peer option \<Rightarrow> bgp_route option
     \<Rightarrow> bgp_route option option" where
  "advertised_rest env router dst src new_route =
     (case new_route of
        None \<Rightarrow> Some None
      | Some new_route \<Rightarrow> do {
          (accept, new_route) \<leftarrow> bgp_router_ecomm_process env router dst new_route;
          if \<not> accept then Some None else advertised_filter env router dst src new_route
        })"

definition advertised_route ::
    "('t, 'r, 'z) bgp_env_scheme \<Rightarrow> ('t, 'r) bgp_router \<Rightarrow> 'r bgp_peer \<Rightarrow> bgp_route \<Rightarrow> bgp_route option option" where
  "advertised_route env router dst route = do {
     src \<leftarrow> (case peer route of None \<Rightarrow> Some None | Some _ \<Rightarrow> map_option Some (route_peer_deref router route));
     if src \<noteq> None \<and> router_id dst = router_id (the src) then Some None
     else if route_comm_contains route COMM_NO_ADVERTISE then Some None
     else do {
       new_route \<leftarrow> route_copy env route;
       new_route \<leftarrow> redistribution_matrix router dst src new_route;
       advertised_rest env router dst src new_route
     }
   }"

definition bgp_router_advertise_to_peer ::
    "('t, 'r, 'z) bgp_env_scheme \<Rightarrow> ('t, 'r) bgp_router \<Rightarrow> net_addr \<Rightarrow> bgp_route
     \<Rightarrow> (int \<times> ('t, 'r) bgp_router) option" where
  "bgp_router_advertise_to_peer env router addr route = do {
     dst \<leftarrow> bgp_router_find_peer router addr;
     new_route \<leftarrow> advertised_route env router dst route;
     case new_route of
       None \<Rightarrow> Some (-1, router)
     | Some new_route \<Rightarrow> map_option (Pair 0) (bgp_peer_announce_route env addr new_route router)
   }"

section \<open>Dissemination\<close>

definition bgp_router_peer_rib_out_remove ::
    "('t, 'r, 'z) bgp_env_scheme \<Rightarrow> net_addr \<Rightarrow> ip_pfx \<Rightarrow> ('t, 'r) bgp_router \<Rightarrow> (bool \<times> ('t, 'r) bgp_router) option" where
  "bgp_router_peer_rib_out_remove env addr p router = do {
     pr \<leftarrow> bgp_router_find_peer router addr;
     if rib_find_exact (rib_trie env) (adj_rib_out pr) p \<noteq> None then
       Some (True, peer_modify addr
               (\<lambda>pr. pr\<lparr>adj_rib_out := snd (rib_remove_route (rib_trie env) (adj_rib_out pr) p)\<rparr>) router)
     else Some (False, router)
   }"

definition bgp_router_peer_rib_out_replace ::
    "('t, 'r, 'z) bgp_env_scheme \<Rightarrow> net_addr \<Rightarrow> bgp_route \<Rightarrow> ('t, 'r) bgp_router \<Rightarrow> ('t, 'r) bgp_router" where
  "bgp_router_peer_rib_out_replace env addr new_route router =
     peer_modify addr (\<lambda>pr. pr\<lparr>adj_rib_out := snd (rib_replace_route (rib_trie env) (adj_rib_out pr) new_route)\<rparr>) router"

text \<open>The explicit withdraw, when a route was advertised to the peer.\<close>

definition explicit_withdraw ::
    "('t, 'r, 'z) bgp_env_scheme \<Rightarrow> ip_pfx \<Rightarrow> net_addr \<Rightarrow> ('t, 'r) bgp_router \<Rightarrow> ('t, 'r) bgp_router option" where
  "explicit_withdraw env p addr router = do {
     (withdraw, router) \<leftarrow> bgp_router_peer_rib_out_remove env addr p router;
     if withdraw then bgp_peer_withdraw_prefix env addr p router else Some router
   }"

definition disseminate_to_peer ::
    "('t, 'r, 'z) bgp_env_scheme \<Rightarrow> ip_pfx \<Rightarrow> bgp_route option \<Rightarrow> net_addr \<Rightarrow> ('t, 'r) bgp_router
     \<Rightarrow> ('t, 'r) bgp_router option" where
  "disseminate_to_peer env p route addr router = do {
     pr \<leftarrow> bgp_router_find_peer router addr;
     if session_state pr \<noteq> SESSION_STATE_ESTABLISHED then Some router
     else case route of
       None \<Rightarrow> explicit_withdraw env p addr router
     | Some route \<Rightarrow> do {
         new_route \<leftarrow> route_copy env route;
         (result, router) \<leftarrow> bgp_router_advertise_to_peer env router addr new_route;
         if result = 0 then Some (bgp_router_peer_rib_out_replace env addr new_route router)
         else explicit_withdraw env p addr router
       }
   }"

fun disseminate_loop ::
    "('t, 'r, 'z) bgp_env_scheme \<Rightarrow> ip_pfx \<Rightarrow> bgp_route option \<Rightarrow> net_addr list \<Rightarrow> ('t, 'r) bgp_router
     \<Rightarrow> ('t, 'r) bgp_router option" where
  "disseminate_loop env p route [] router = Some router"
| "disseminate_loop env p route (addr # addrs) router = do {
     pr \<leftarrow> bgp_router_find_peer router addr;
     router \<leftarrow> (if bgp_peer_send_enabled pr then disseminate_to_peer env p route addr router else Some router);
     disseminate_loop env p route addrs router
   }"

definition disseminate ::
    "('t, 'r, 'z) bgp_env_scheme \<Rightarrow> ip_pfx \<Rightarrow> bgp_route option \<Rightarrow> ('t, 'r) bgp_router \<Rightarrow> ('t, 'r) bgp_router option" where
  "disseminate env p route router = disseminate_loop env p route (map p_addr (peers router)) router"

section \<open>Local networks\<close>

definition bgp_router_add_route ::
    "('t, 'r, 'z) bgp_env_scheme \<Rightarrow> bgp_route \<Rightarrow> ('t, 'r) bgp_router \<Rightarrow> (int \<times> ('t, 'r) bgp_router) option" where
  "bgp_router_add_route env route router = do {
     let router = router\<lparr>local_nets := routes_list_append (local_nets router) route\<rparr> in do {
       new_route \<leftarrow> route_copy env route;
       let router = router\<lparr>loc_rib := snd (rib_add_route (rib_trie env) (loc_rib router) new_route)\<rparr> in do {
         router \<leftarrow> disseminate env (pfx route) (Some route) router;
         Some (ESUCCESS, router)
       }
     }
   }"

text \<open>The search for a local network with the given prefix.\<close>

fun find_network :: "nat \<Rightarrow> ip_pfx \<Rightarrow> bgp_routes \<Rightarrow> nat option option" where
  "find_network index p [] = Some None"
| "find_network index p (route # routes) = do {
     c \<leftarrow> ip_prefix_cmp (pfx route) p;
     if c = 0 then Some (Some index) else find_network (Suc index) p routes
   }"

definition bgp_router_add_network ::
    "('t, 'r, 'z) bgp_env_scheme \<Rightarrow> ip_pfx \<Rightarrow> ('t, 'r) bgp_router \<Rightarrow> (int \<times> ('t, 'r) bgp_router) option" where
  "bgp_router_add_network env p router = do {
     found \<leftarrow> find_network 0 p (local_nets router);
     if found \<noteq> None then Some (EBGP_NETWORK_DUPLICATE, router)
     else let route = route_create p None (rid router) BGP_ORIGIN_IGP;
              route = route_flag_set ROUTE_FLAG_BEST True route;
              route = route_flag_set ROUTE_FLAG_FEASIBLE True route;
              route = route_flag_set ROUTE_FLAG_INTERNAL True route;
              route = route_localpref_set (options_local_pref env) route
          in bgp_router_add_route env route router
   }"

text \<open>The flag that the loop clears in the route found is not modelled: the route is removed and
  destroyed.\<close>

definition bgp_router_del_network ::
    "('t, 'r, 'z) bgp_env_scheme \<Rightarrow> ip_pfx \<Rightarrow> ('t, 'r) bgp_router \<Rightarrow> (int \<times> ('t, 'r) bgp_router) option" where
  "bgp_router_del_network env p router = do {
     found \<leftarrow> find_network 0 p (local_nets router);
     case found of
       None \<Rightarrow> Some (EUNSPECIFIED, router)
     | Some index \<Rightarrow>
         let router = router\<lparr>loc_rib := snd (rib_remove_route (rib_trie env) (loc_rib router) p)\<rparr>;
             router = router\<lparr>local_nets := routes_list_remove_at (local_nets router) index\<rparr>
         in do {
           router \<leftarrow> disseminate env p None router;
           Some (ESUCCESS, router)
         }
   }"


section \<open>Lemmas on advertisement\<close>

lemma bgp_attr_copy_Some: "bgp_attr_copy env a = Some b \<Longrightarrow> b = a"
  by (cases a)
    (auto simp: bgp_attr_copy_def bgp_attr_path_copy_def bgp_attr_comm_copy_def bgp_attr_create_def
      bind_eq_Some_conv)

lemma route_copy_Some: "route_copy env r = Some r' \<Longrightarrow> r' = r\<lparr>rank := 0\<rparr>"
  by (cases r) (auto simp: route_copy_def route_create2_def bind_eq_Some_conv dest: bgp_attr_copy_Some)

lemma comm_append_frame: "route_comm_append env c r = Some (x, r') \<Longrightarrow> filter_frame r r'"
  by (auto simp: route_comm_append_def bgp_attr_comm_append_def Let_def bind_eq_Some_conv filter_frame_def
      dest: bgp_attr_set_comm_frame split: if_splits)

lemma ecomm_process_loop_frame:
  "ecomm_process_loop env router p cs r = Some (b, r') \<Longrightarrow> filter_frame r r'"
proof (induction cs arbitrary: r)
  case (Cons c cs)
  then show ?case
    by (auto simp: Let_def bind_eq_Some_conv split: if_splits
        dest!: path_prepend_frame comm_append_frame intro: filter_frame_trans)
qed simp

lemma ecomm_process_frame: "bgp_router_ecomm_process env router p r = Some (b, r') \<Longrightarrow> filter_frame r r'"
  by (auto simp: bgp_router_ecomm_process_def split: option.splits intro: ecomm_process_loop_frame)

lemma filter_apply_keeps: "filter_apply env f router r = Some (b, r') \<Longrightarrow> filter_frame r r'"
  by (auto simp: filter_apply_def bind_eq_Some_conv split: option.splits intro: filter_call_frame)

lemma strip_med_frame:
  "filter_frame r (route_ecomm_strip_non_transitive r)" "filter_frame r (route_med_clear r)"
  by (simp_all add: filter_frame_def route_ecomm_strip_non_transitive_def route_med_clear_def)

text \<open>The stages of the advertisement of a route that is sent.\<close>

lemma advertised_route_stages:
  assumes "advertised_route env router dst route = Some (Some r')"
  obtains src r1 r2 where
    "(case peer route of None \<Rightarrow> Some None | Some _ \<Rightarrow> map_option Some (route_peer_deref router route)) = Some src"
    "src \<noteq> None \<longrightarrow> router_id dst \<noteq> router_id (the src)"
    "\<not> route_comm_contains route COMM_NO_ADVERTISE"
    "redistribution_matrix router dst src (route\<lparr>rank := 0\<rparr>) = Some (Some r1)"
    "filter_frame r1 r2" "redistribution_update env router dst src r2 = Some r'"
proof -
  from assms obtain src where src: "(case peer route of None \<Rightarrow> Some None
        | Some _ \<Rightarrow> map_option Some (route_peer_deref router route)) = Some src"
    and "(if src \<noteq> None \<and> router_id dst = router_id (the src) then Some None
     else if route_comm_contains route COMM_NO_ADVERTISE then Some None
     else do {
       r0 \<leftarrow> route_copy env route;
       m \<leftarrow> redistribution_matrix router dst src r0;
       advertised_rest env router dst src m
     }) = Some (Some r')"
    unfolding advertised_route_def by (rule bind_SomeE)
  then have a: "\<not> (src \<noteq> None \<and> router_id dst = router_id (the src))"
    and b: "\<not> route_comm_contains route COMM_NO_ADVERTISE"
    and c: "do {
       r0 \<leftarrow> route_copy env route;
       m \<leftarrow> redistribution_matrix router dst src r0;
       advertised_rest env router dst src m
     } = Some (Some r')"
    by (simp_all split: if_splits del: route_comm_contains_iff)
  from c obtain m where m: "redistribution_matrix router dst src (route\<lparr>rank := 0\<rparr>) = Some m"
    and rest: "advertised_rest env router dst src m = Some (Some r')"
    by (auto elim!: bind_SomeE dest!: route_copy_Some)
  then obtain r1 ac1 s1 where r1: "m = Some r1"
    and e: "bgp_router_ecomm_process env router dst r1 = Some (ac1, s1)"
    and rest': "(if \<not> ac1 then Some None else advertised_filter env router dst src s1) = Some (Some r')"
    unfolding advertised_rest_def by (auto split: option.splits elim!: bind_SomeE)
  obtain ac2 s2 where f: "filter_apply env (filter_out dst) (flt_router_of router)
        (if location_of router (Some dst) = EXTERNAL then route_med_clear (route_ecomm_strip_non_transitive s1)
         else route_ecomm_strip_non_transitive s1) = Some (ac2, s2)"
    and u: "redistribution_update env router dst src s2 = Some r'"
    using rest' unfolding advertised_filter_def Let_def by (auto split: if_splits elim!: bind_SomeE)
  note m = m [unfolded r1]
  have "filter_frame r1 s2"
  proof -
    have "filter_frame s1 (if location_of router (Some dst) = EXTERNAL
        then route_med_clear (route_ecomm_strip_non_transitive s1) else route_ecomm_strip_non_transitive s1)"
      using strip_med_frame(1) [of s1] strip_med_frame(2) [of "route_ecomm_strip_non_transitive s1"]
      by (auto intro: filter_frame_trans)
    from filter_frame_trans [OF ecomm_process_frame [OF e] filter_frame_trans [OF this filter_apply_keeps [OF f]]]
    show ?thesis .
  qed
  with that [OF src _ b m _ u] a show thesis by blast
qed

lemma prepend_one:
  assumes "attr_repository env" "route_path_prepend env a 1 r = Some (x, r')"
  shows "(\<exists>q. r' = r\<lparr>attr := (attr r)\<lparr>path_ref := q\<rparr>\<rparr> \<and> ref_asns q = ref_asns (path_ref (attr r)) @ [a])
    \<or> (r' = r \<and> (\<exists>segs. path_ref (attr r) = Some segs \<and> segs \<noteq> [] \<and> length (asns (last segs)) \<ge> 255))"
proof -
  let ?p = "case path_ref (attr r) of None \<Rightarrow> [] | Some p \<Rightarrow> p"
  have asns: "path_asns ?p = ref_asns (path_ref (attr r))"
    by (auto simp: path_asns_def ref_asns_def split: option.splits)
  obtain y att where pre: "bgp_attr_path_prepend env a 1 (attr r) = Some (y, att)" and r': "r' = r\<lparr>attr := att\<rparr>"
    using assms(2) by (auto simp: route_path_prepend_def bind_eq_Some_conv)
  obtain c p' where app: "path_append ?p a = Some (c, p')"
    using pre by (auto simp: bgp_attr_path_prepend_def split: option.splits)
  from app show ?thesis
  proof (cases rule: path_append_cases)
    case (full q s)
    then have "att = attr r" using pre app by (simp add: bgp_attr_path_prepend_def)
    with full r' show ?thesis by (auto split: option.splits)
  next
    case first
    then have "\<exists>q. att = (attr r)\<lparr>path_ref := q\<rparr> \<and> ref_asns q = path_asns p'"
      using pre app attr_repository.set_path_effect [OF assms(1), of p' "attr r"]
      by (auto simp: bgp_attr_path_prepend_def)
    with path_append_asns [OF app] first asns r' show ?thesis by auto
  next
    case (add q s)
    then have "\<exists>q. att = (attr r)\<lparr>path_ref := q\<rparr> \<and> ref_asns q = path_asns p'"
      using pre app attr_repository.set_path_effect [OF assms(1), of p' "attr r"]
      by (auto simp: bgp_attr_path_prepend_def)
    with path_append_asns [OF app] add asns r' show ?thesis by auto
  next
    case (new q s)
    then have "\<exists>q. att = (attr r)\<lparr>path_ref := q\<rparr> \<and> ref_asns q = path_asns p'"
      using pre app attr_repository.set_path_effect [OF assms(1), of p' "attr r"]
      by (auto simp: bgp_attr_path_prepend_def)
    with path_append_asns [OF app] new asns r' show ?thesis by auto
  qed
qed

lemma nexthop_fields [simp]:
  "pfx (route_set_nexthop nh r) = pfx r" "peer (route_set_nexthop nh r) = peer r"
  "next_hop (attr (route_set_nexthop nh r)) = nh"
  "originator (attr (route_set_nexthop nh r)) = originator (attr r)"
  "cluster_list (attr (route_set_nexthop nh r)) = cluster_list (attr r)"
  "path_ref (attr (route_set_nexthop nh r)) = path_ref (attr r)"
  by (simp_all add: route_set_nexthop_def bgp_attr_set_nexthop_def)

lemma update_external:
  assumes "attr_repository env" "p_asn dst \<noteq> r_asn router" "redistribution_update env router dst src r = Some r'"
  shows "pfx r' = pfx r"
    and "next_hop (attr r') = (if p_next_hop dst \<noteq> NET_ADDR_ANY then p_next_hop dst else rid router)"
    and "originator (attr r') = originator (attr r)" "cluster_list (attr r') = cluster_list (attr r)"
    and "(\<exists>q. ref_asns (path_ref (attr r')) = q @ [r_asn router])
       \<or> (\<exists>segs. path_ref (attr r') = Some segs \<and> segs \<noteq> [] \<and> length (asns (last segs)) \<ge> 255)"
proof -
  define nh where "nh = (if p_next_hop dst \<noteq> NET_ADDR_ANY then p_next_hop dst else rid router)"
  have "map_option snd (route_path_prepend env (r_asn router) 1 (route_set_nexthop nh r)) = Some r'"
    using assms(2,3) by (simp add: redistribution_update_def location_of_def Let_def nh_def)
  then obtain x where "route_path_prepend env (r_asn router) 1 (route_set_nexthop nh r) = Some (x, r')"
    by auto
  from prepend_one [OF assms(1) this]
  show "pfx r' = pfx r" "next_hop (attr r') = nh" "originator (attr r') = originator (attr r)"
    "cluster_list (attr r') = cluster_list (attr r)"
    "(\<exists>q. ref_asns (path_ref (attr r')) = q @ [r_asn router])
       \<or> (\<exists>segs. path_ref (attr r') = Some segs \<and> segs \<noteq> [] \<and> length (asns (last segs)) \<ge> 255)"
    by auto
qed

lemma update_internal:
  assumes "p_asn dst = r_asn router" "redistribution_update env router dst src r = Some r'"
  shows "pfx r' = pfx r" "originator (attr r') = originator (attr r)" "cluster_list (attr r') = cluster_list (attr r)"
    and "location_of router src \<noteq> EXTERNAL \<Longrightarrow> r' = r"
  using assms
  by (auto simp: redistribution_update_def location_of_def bind_eq_Some_conv split: if_splits)

lemma matrix_keeps:
  assumes "redistribution_matrix router dst src r = Some (Some r1)"
  shows "pfx r1 = pfx r" "peer r1 = peer r" "next_hop (attr r1) = next_hop (attr r)"
proof -
  have app: "pfx t = pfx s \<and> peer t = peer s \<and> next_hop (attr t) = next_hop (attr s)"
    if "route_cluster_list_append c s = Some t" for c s t
    using that
    by (cases "cluster_list (attr s)") (auto simp: route_cluster_list_append_def route_cluster_list_set_def)
  have set: "pfx t = pfx s \<and> peer t = peer s \<and> next_hop (attr t) = next_hop (attr s)"
    if "route_originator_set o' s = Some t" for o' s t
    using that by (auto simp: route_originator_set_def)
  have "pfx r1 = pfx r \<and> peer r1 = peer r \<and> next_hop (attr r1) = next_hop (attr r)"
  proof (cases "location_of router (Some dst) = EXTERNAL")
    case True
    with assms show ?thesis
      by (auto simp: redistribution_matrix_def route_cluster_list_clear_def route_originator_clear_def
          bgp_attr_originator_destroy_def bgp_attr_cluster_list_destroy_def split: if_splits)
  next
    case False
    with assms show ?thesis
      by (cases "location_of router src"; cases "route_originator_get r")
        (auto simp: redistribution_matrix_def dest!: app set split: if_splits elim!: bind_SomeE)
  qed
  then show "pfx r1 = pfx r" "peer r1 = peer r" "next_hop (attr r1) = next_hop (attr r)" by auto
qed

lemma matrix_external:
  assumes "redistribution_matrix router dst src r = Some (Some r1)" "p_asn dst \<noteq> r_asn router"
  shows "\<not> route_comm_contains r COMM_NO_EXPORT" "\<not> route_path_contains r (p_asn dst)"
    and "originator (attr r1) = None" "cluster_list (attr r1) = None"
  using assms
  by (auto simp: redistribution_matrix_def location_of_def route_cluster_list_clear_def
      route_originator_clear_def bgp_attr_originator_destroy_def bgp_attr_cluster_list_destroy_def
      split: if_splits)

lemma matrix_reflect:
  assumes "redistribution_matrix router dst (Some src) r = Some (Some r1)"
    and "p_asn dst = r_asn router" "p_asn src = r_asn router"
  shows "reflector router" "route_flag_get r ROUTE_FLAG_RR_CLIENT \<or> bgp_peer_flag_get dst PEER_FLAG_RR_CLIENT"
    and "originator (attr r) \<noteq> Some (router_id dst)"
    and "originator (attr r1) = Some (case originator (attr r) of None \<Rightarrow> router_id src | Some o' \<Rightarrow> o')"
    and "cluster_list (attr r1)
       = Some ((case cluster_list (attr r) of None \<Rightarrow> [] | Some cl \<Rightarrow> cl) @ [cluster_id router])"
proof -
  have app: "route_cluster_list_append c s = Some (s\<lparr>attr := (attr s)\<lparr>cluster_list :=
      Some ((case cluster_list (attr s) of None \<Rightarrow> [] | Some cl \<Rightarrow> cl) @ [c])\<rparr>\<rparr>)" for c s
    by (cases "cluster_list (attr s)")
      (simp_all add: route_cluster_list_append_def route_cluster_list_set_def cluster_list_append_def)
  note defs = redistribution_matrix_def location_of_def route_originator_get_def app
  show "reflector router" "route_flag_get r ROUTE_FLAG_RR_CLIENT \<or> bgp_peer_flag_get dst PEER_FLAG_RR_CLIENT"
    using assms by (simp_all add: defs split: if_splits)
  then show "originator (attr r) \<noteq> Some (router_id dst)"
    "originator (attr r1) = Some (case originator (attr r) of None \<Rightarrow> router_id src | Some o' \<Rightarrow> o')"
    "cluster_list (attr r1)
       = Some ((case cluster_list (attr r) of None \<Rightarrow> [] | Some cl \<Rightarrow> cl) @ [cluster_id router])"
    using assms
    by (cases "originator (attr r)"; auto simp: defs route_originator_set_def split: if_splits)+
qed

section \<open>Lemmas on dissemination\<close>

text \<open>Dissemination changes the Adj-RIBs-Out, the sequence numbers and the outbox only.\<close>

definition out_only :: "('t, 'r) bgp_router \<Rightarrow> ('t, 'r) bgp_router \<Rightarrow> bool" where
  "out_only router router' \<longleftrightarrow>
     (\<exists>ps ob. router' = router\<lparr>peers := ps, outbox := outbox router @ ob\<rparr>
        \<and> list_all2 (\<lambda>p p'. \<exists>n rib. p' = p\<lparr>send_seq_num := n, adj_rib_out := rib\<rparr>) (peers router) ps)"

lemma out_only_refl [simp]: "out_only router router"
proof -
  have "\<exists>n rib. p = p\<lparr>send_seq_num := n, adj_rib_out := rib\<rparr>" for p :: "'b bgp_peer"
    by (rule exI [of _ "send_seq_num p"], rule exI [of _ "adj_rib_out p"]) simp
  then show ?thesis
    unfolding out_only_def
    by (intro exI [of _ "peers router"] exI [of _ "[]"]) (simp add: list_all2_refl)
qed

lemma out_only_trans: "out_only r1 r2 \<Longrightarrow> out_only r2 r3 \<Longrightarrow> out_only r1 r3"
proof -
  let ?R = "\<lambda>p p'. \<exists>n rib. p' = p\<lparr>send_seq_num := n, adj_rib_out := rib\<rparr>"
  assume "out_only r1 r2" "out_only r2 r3"
  then obtain ps ob qs ob' where r: "r2 = r1\<lparr>peers := ps, outbox := outbox r1 @ ob\<rparr>"
    "r3 = r2\<lparr>peers := qs, outbox := outbox r2 @ ob'\<rparr>"
    and ps: "list_all2 ?R (peers r1) ps" and qs: "list_all2 ?R (peers r2) qs"
    unfolding out_only_def by blast
  have tr: "?R p p''" if R: "?R p p'" "?R p' p''" for p p' p'' :: "'b bgp_peer"
  proof -
    from R obtain n rib n' rib' where "p' = p\<lparr>send_seq_num := n, adj_rib_out := rib\<rparr>"
      "p'' = p'\<lparr>send_seq_num := n', adj_rib_out := rib'\<rparr>" by blast
    then have "p'' = p\<lparr>send_seq_num := n', adj_rib_out := rib'\<rparr>" by simp
    then show ?thesis by blast
  qed
  have "peers r2 = ps" using r(1) by simp
  with qs have "list_all2 ?R (peers r1) qs"
    by (intro list_all2_trans [OF tr ps]) simp_all
  with r show ?thesis
    unfolding out_only_def by (intro exI [of _ qs] exI [of _ "ob @ ob'"]) simp
qed

lemma out_only_modify:
  assumes "\<And>p. f p = p\<lparr>send_seq_num := g p, adj_rib_out := h p\<rparr>"
  shows "out_only router ((peer_modify a f router)\<lparr>outbox := outbox router @ ob\<rparr>)"
proof -
  have *: "\<exists>n rib. (if p_addr q = a then f q else q) = q\<lparr>send_seq_num := n, adj_rib_out := rib\<rparr>" for q
    by (rule exI [of _ "if p_addr q = a then g q else send_seq_num q"],
        rule exI [of _ "if p_addr q = a then h q else adj_rib_out q"]) (simp add: assms)
  show ?thesis
    unfolding out_only_def peer_modify_def
    by (intro exI [of _ "map (\<lambda>p. if p_addr p = a then f p else p) (peers router)"] exI [of _ ob] conjI)
      (simp, unfold list_all2_map2 list_all2_same, blast intro: *)
qed

lemma out_only_find:
  assumes "out_only router router'"
  shows "rel_option (\<lambda>p p'. \<exists>n rib. p' = p\<lparr>send_seq_num := n, adj_rib_out := rib\<rparr>)
           (bgp_router_find_peer router a) (bgp_router_find_peer router' a)"
proof -
  let ?R = "\<lambda>p p'. \<exists>n rib. p' = p\<lparr>send_seq_num := n, adj_rib_out := rib\<rparr>"
  obtain ps ob where r: "router' = router\<lparr>peers := ps, outbox := outbox router @ ob\<rparr>"
    and "list_all2 ?R (peers router) ps"
    using assms unfolding out_only_def by blast
  from this(2) have "rel_option ?R (find (\<lambda>p. p_addr p = a) (peers router)) (find (\<lambda>p. p_addr p = a) ps)"
    by (induction rule: list_all2_induct) auto
  then show ?thesis by (simp add: r bgp_router_find_peer_def bgp_peers_find_def)
qed

lemma out_only_fields:
  assumes "out_only router router'"
  shows "r_asn router' = r_asn router" "rid router' = rid router" "loc_rib router' = loc_rib router"
    "local_nets router' = local_nets router" "cluster_id router' = cluster_id router"
    "reflector router' = reflector router" "node router' = node router"
    "map p_addr (peers router') = map p_addr (peers router)"
proof -
  obtain ps ob where r: "router' = router\<lparr>peers := ps, outbox := outbox router @ ob\<rparr>"
    and l: "list_all2 (\<lambda>p p'. \<exists>n rib. p' = p\<lparr>send_seq_num := n, adj_rib_out := rib\<rparr>) (peers router) ps"
    using assms unfolding out_only_def by blast
  from l have "map p_addr ps = map p_addr (peers router)"
    by (induction rule: list_all2_induct) auto
  with r show "r_asn router' = r_asn router" "rid router' = rid router" "loc_rib router' = loc_rib router"
    "local_nets router' = local_nets router" "cluster_id router' = cluster_id router"
    "reflector router' = reflector router" "node router' = node router"
    "map p_addr (peers router') = map p_addr (peers router)" by simp_all
qed

text \<open>The effect of a dissemination to one peer: at most one message, to that peer, and an update of
  its Adj-RIB-Out.\<close>

definition peer_sent ::
    "net_addr \<Rightarrow> 'r bgp_peer \<Rightarrow> bgp_msg_payload list \<Rightarrow> ('r \<Rightarrow> 'r) \<Rightarrow> ('t, 'r) bgp_router \<Rightarrow> ('t, 'r) bgp_router \<Rightarrow> bool" where
  "peer_sent a pr pls f router router' \<longleftrightarrow>
     (\<exists>n. router' = (peer_modify a (\<lambda>p. p\<lparr>send_seq_num := send_seq_num p + n, adj_rib_out := f (adj_rib_out p)\<rparr>) router)
        \<lparr>outbox := outbox router @ (if bgp_peer_flag_get pr PEER_FLAG_VIRTUAL then []
           else map (\<lambda>pl. (a, \<lparr>peer_asn = r_asn router, seq_num = send_seq_num pr, payload = pl\<rparr>)) pls)\<rparr>)"

lemma peer_sent_out_only: "peer_sent a pr pls f router router' \<Longrightarrow> out_only router router'"
  unfolding peer_sent_def by (auto intro: out_only_modify)

lemma peer_modify_comp:
  "(\<And>p. p_addr (f p) = p_addr p) \<Longrightarrow> peer_modify a g (peer_modify a f router) = peer_modify a (\<lambda>p. g (f p)) router"
  by (auto simp: peer_modify_def)

lemma peer_modify_outbox: "peer_modify a f (router\<lparr>outbox := x\<rparr>) = (peer_modify a f router)\<lparr>outbox := x\<rparr>"
  by (simp add: peer_modify_def)

lemma peer_update_order:
  "p\<lparr>adj_rib_out := x, send_seq_num := y\<rparr> = p\<lparr>send_seq_num := y, adj_rib_out := x\<rparr>"
  by simp

lemma explicit_withdraw_effect:
  assumes "bgp_router_find_peer router a = Some pr"
  shows "\<exists>router'. explicit_withdraw env p a router = Some router'
    \<and> (if rib_find_exact (rib_trie env) (adj_rib_out pr) p \<noteq> None
       then peer_sent a pr [BGP_MSG_TYPE_WITHDRAW p] (\<lambda>rib. snd (rib_remove_route (rib_trie env) rib p)) router router'
       else router' = router)"
proof (cases "rib_find_exact (rib_trie env) (adj_rib_out pr) p")
  case None
  then show ?thesis
    by (simp add: explicit_withdraw_def bgp_router_peer_rib_out_remove_def assms)
next
  case (Some r)
  let ?f = "\<lambda>pr. pr\<lparr>adj_rib_out := snd (rib_remove_route (rib_trie env) (adj_rib_out pr) p)\<rparr>"
  let ?r1 = "peer_modify a ?f router"
  have "bgp_router_find_peer ?r1 a = Some (?f pr)" by (simp add: find_peer_modify assms)
  then obtain result where "bgp_peer_send env a (bgp_msg_withdraw_create (r_asn ?r1) p) ?r1 = Some (result,
      (peer_modify a (\<lambda>p. p\<lparr>send_seq_num := send_seq_num p + 1\<rparr>) ?r1)
        \<lparr>outbox := outbox ?r1 @ (if bgp_peer_flag_get (?f pr) PEER_FLAG_VIRTUAL then []
           else [(a, (bgp_msg_withdraw_create (r_asn ?r1) p)\<lparr>seq_num := send_seq_num (?f pr)\<rparr>)])\<rparr>)"
    by (rule bgp_peer_send_effect)
  then show ?thesis
    using Some
    by (auto simp: explicit_withdraw_def bgp_router_peer_rib_out_remove_def assms bgp_peer_withdraw_prefix_def
        bgp_msg_withdraw_create_def peer_sent_def peer_modify_comp bgp_peer_flag_get_def peer_update_order
        intro!: exI [of _ 1])
qed

lemma disseminate_to_peer_cases:
  assumes find: "bgp_router_find_peer router a = Some pr" and est: "session_state pr = SESSION_STATE_ESTABLISHED"
    and res: "disseminate_to_peer env p route a router = Some router'"
  obtains (update) r r' where "route = Some r" "advertised_route env router pr (r\<lparr>rank := 0\<rparr>) = Some (Some r')"
      "peer_sent a pr [BGP_MSG_TYPE_UPDATE (route_peer_set (Some a) r')]
         (\<lambda>rib. snd (rib_replace_route (rib_trie env) rib (r\<lparr>rank := 0\<rparr>))) router router'"
  | (withdraw) "rib_find_exact (rib_trie env) (adj_rib_out pr) p \<noteq> None"
      "\<And>r. route = Some r \<Longrightarrow> advertised_route env router pr (r\<lparr>rank := 0\<rparr>) = Some None"
      "peer_sent a pr [BGP_MSG_TYPE_WITHDRAW p] (\<lambda>rib. snd (rib_remove_route (rib_trie env) rib p)) router router'"
  | (nothing) "rib_find_exact (rib_trie env) (adj_rib_out pr) p = None"
      "\<And>r. route = Some r \<Longrightarrow> advertised_route env router pr (r\<lparr>rank := 0\<rparr>) = Some None" "router' = router"
proof -
  obtain rw where w: "explicit_withdraw env p a router = Some rw"
    "if rib_find_exact (rib_trie env) (adj_rib_out pr) p \<noteq> None
       then peer_sent a pr [BGP_MSG_TYPE_WITHDRAW p] (\<lambda>rib. snd (rib_remove_route (rib_trie env) rib p)) router rw
       else rw = router"
    using explicit_withdraw_effect [OF find] by blast
  show thesis
  proof (cases route)
    case None
    with res find est w(1) have rw: "rw = router'" by (simp add: disseminate_to_peer_def)
    note w' = w(2) [unfolded rw]
    show ?thesis
      by (cases "rib_find_exact (rib_trie env) (adj_rib_out pr) p = None")
        (rule nothing, use w' None in simp_all, rule withdraw, use w' None in simp_all)
  next
    case (Some r)
    let ?r = "r\<lparr>rank := 0\<rparr>"
    obtain result router1 where adv: "bgp_router_advertise_to_peer env router a ?r = Some (result, router1)"
      and rest: "(if result = 0 then Some (bgp_router_peer_rib_out_replace env a ?r router1)
         else explicit_withdraw env p a router1) = Some router'"
      using res find est Some
      by (auto simp: disseminate_to_peer_def elim!: bind_SomeE dest!: route_copy_Some)
    then obtain m where m: "advertised_route env router pr ?r = Some m"
      and m': "(case m of None \<Rightarrow> Some (-1, router)
         | Some r' \<Rightarrow> map_option (Pair 0) (bgp_peer_announce_route env a r' router)) = Some (result, router1)"
      using find by (auto simp: bgp_router_advertise_to_peer_def elim!: bind_SomeE)
    show ?thesis
    proof (cases m)
      case None
      with m' rest w(1) have rw: "rw = router'" by auto
      note w' = w(2) [unfolded rw]
      show ?thesis
        by (cases "rib_find_exact (rib_trie env) (adj_rib_out pr) p = None")
          (rule nothing, use w' None m Some in simp_all, rule withdraw, use w' None m Some in simp_all)
    next
      case (Some r')
      obtain n where "bgp_peer_send env a (bgp_msg_update_create (r_asn router) (route_peer_set (Some a) r')) router
        = Some (n, (peer_modify a (\<lambda>p. p\<lparr>send_seq_num := send_seq_num p + 1\<rparr>) router)
            \<lparr>outbox := outbox router @ (if bgp_peer_flag_get pr PEER_FLAG_VIRTUAL then []
               else [(a, (bgp_msg_update_create (r_asn router) (route_peer_set (Some a) r'))\<lparr>seq_num := send_seq_num pr\<rparr>)])\<rparr>)"
        using bgp_peer_send_effect [OF find] by blast
      with Some m' rest have "peer_sent a pr [BGP_MSG_TYPE_UPDATE (route_peer_set (Some a) r')]
         (\<lambda>rib. snd (rib_replace_route (rib_trie env) rib ?r)) router router'"
        by (auto simp: bgp_peer_announce_route_def peer_sent_def bgp_router_peer_rib_out_replace_def
            peer_modify_comp peer_modify_outbox bgp_msg_update_create_def intro!: exI [of _ 1])
      with update [OF \<open>route = Some r\<close>] m Some show ?thesis by blast
    qed
  qed
qed

text \<open>What the messages sent to a peer say about a prefix: whether the last one, since the OPEN that began
  the session, was an UPDATE.\<close>

definition msg_effect :: "net_addr \<Rightarrow> ip_pfx \<Rightarrow> bool \<Rightarrow> net_addr \<times> bgp_msg \<Rightarrow> bool" where
  "msg_effect a p up m =
     (if fst m = a then
        (case payload (snd m) of
           BGP_MSG_TYPE_UPDATE r \<Rightarrow> if pfx_norm (pfx r) = pfx_norm p then True else up
         | BGP_MSG_TYPE_WITHDRAW q \<Rightarrow> if pfx_norm q = pfx_norm p then False else up
         | BGP_MSG_TYPE_OPEN _ \<Rightarrow> False
         | BGP_MSG_TYPE_CLOSE \<Rightarrow> up)
      else up)"

definition announced :: "net_addr \<Rightarrow> ip_pfx \<Rightarrow> (net_addr \<times> bgp_msg) list \<Rightarrow> bool" where
  "announced a p msgs = foldl (msg_effect a p) False msgs"

text \<open>The Adj-RIB-Out of a peer that receives messages holds, in an established session, the prefixes
  announced to it.\<close>

definition rib_out_ok ::
    "('t, 'r, 'z) bgp_env_scheme \<Rightarrow> ('r \<Rightarrow> bool) \<Rightarrow> ('t, 'r) bgp_router \<Rightarrow> bool" where
  "rib_out_ok env rinv router \<longleftrightarrow>
     (\<forall>a pr. bgp_router_find_peer router a = Some pr \<longrightarrow> rinv (adj_rib_out pr)
        \<and> (\<not> bgp_peer_flag_get pr PEER_FLAG_VIRTUAL \<and> session_state pr = SESSION_STATE_ESTABLISHED \<longrightarrow>
            (\<forall>p. rib_find_exact (rib_trie env) (adj_rib_out pr) p \<noteq> None \<longleftrightarrow> announced a p (outbox router))))"

lemma rib_out_ok_sent:
  assumes ok: "rib_out_ok env rinv router" and find: "bgp_router_find_peer router a = Some pr"
    and est: "session_state pr = SESSION_STATE_ESTABLISHED"
    and sent: "peer_sent a pr [pl] f router router'"
    and f: "rinv (f (adj_rib_out pr))"
      "\<And>q. rib_find_exact (rib_trie env) (f (adj_rib_out pr)) q \<noteq> None
         \<longleftrightarrow> msg_effect a q (rib_find_exact (rib_trie env) (adj_rib_out pr) q \<noteq> None) (a, \<lparr>peer_asn = 0, seq_num = 0, payload = pl\<rparr>)"
  shows "rib_out_ok env rinv router'"
  unfolding rib_out_ok_def
proof (intro allI impI)
  fix b pr' assume b: "bgp_router_find_peer router' b = Some pr'"
  obtain n where r': "router' = (peer_modify a (\<lambda>p. p\<lparr>send_seq_num := send_seq_num p + n, adj_rib_out := f (adj_rib_out p)\<rparr>) router)
        \<lparr>outbox := outbox router @ (if bgp_peer_flag_get pr PEER_FLAG_VIRTUAL then []
           else [(a, \<lparr>peer_asn = r_asn router, seq_num = send_seq_num pr, payload = pl\<rparr>)])\<rparr>"
    using sent unfolding peer_sent_def list.map by blast
  have eff: "msg_effect a q x (a, \<lparr>peer_asn = k, seq_num = l, payload = pl\<rparr>)
      = msg_effect a q x (a, \<lparr>peer_asn = 0, seq_num = 0, payload = pl\<rparr>)" for q x k l
    by (simp add: msg_effect_def)
  show "rinv (adj_rib_out pr')
      \<and> (\<not> bgp_peer_flag_get pr' PEER_FLAG_VIRTUAL \<and> session_state pr' = SESSION_STATE_ESTABLISHED \<longrightarrow>
      (\<forall>p. rib_find_exact (rib_trie env) (adj_rib_out pr') p \<noteq> None \<longleftrightarrow> announced b p (outbox router')))"
  proof (cases "b = a")
    case True
    with b r' find have pr': "pr' = pr\<lparr>send_seq_num := send_seq_num pr + n, adj_rib_out := f (adj_rib_out pr)\<rparr>"
      by (simp add: find_peer_modify)
    have old: "rib_find_exact (rib_trie env) (adj_rib_out pr) p \<noteq> None \<longleftrightarrow> announced a p (outbox router)"
      if "\<not> bgp_peer_flag_get pr PEER_FLAG_VIRTUAL" for p
      using ok find that est by (auto simp: rib_out_ok_def)
    have "rib_find_exact (rib_trie env) (adj_rib_out pr') q \<noteq> None \<longleftrightarrow> announced a q (outbox router')"
      if nv: "\<not> bgp_peer_flag_get pr PEER_FLAG_VIRTUAL" for q
    proof -
      have "announced a q (outbox router')
          = msg_effect a q (announced a q (outbox router)) (a, \<lparr>peer_asn = 0, seq_num = 0, payload = pl\<rparr>)"
        using nv unfolding r' by (simp add: announced_def) (rule eff)
      also have "\<dots> \<longleftrightarrow> rib_find_exact (rib_trie env) (f (adj_rib_out pr)) q \<noteq> None"
        unfolding f(2) old [OF nv] ..
      finally show ?thesis by (simp add: pr')
    qed
    moreover have "rinv (adj_rib_out pr')" "bgp_peer_flag_get pr' = bgp_peer_flag_get pr"
      using f(1) by (simp_all add: pr' bgp_peer_flag_get_def fun_eq_iff)
    ultimately show ?thesis using True by simp
  next
    case False
    with b r' have "bgp_router_find_peer router b = Some pr'" by (simp add: find_peer_modify)
    moreover have "announced b p (outbox router') = announced b p (outbox router)" for p
      using False r' by (simp add: announced_def msg_effect_def)
    ultimately show ?thesis using ok by (simp add: rib_out_ok_def)
  qed
qed

lemma advertised_pfx:
  assumes "advertised_route env router dst route = Some (Some r')" "attr_repository env"
  shows "pfx r' = pfx route"
proof -
  from assms(1) obtain src r1 r2 where m: "redistribution_matrix router dst src (route\<lparr>rank := 0\<rparr>) = Some (Some r1)"
    and fr: "filter_frame r1 r2" and u: "redistribution_update env router dst src r2 = Some r'"
    by (rule advertised_route_stages)
  have "pfx r' = pfx r2"
    by (cases "p_asn dst = r_asn router")
      (use update_internal(1) [OF _ u] update_external(1) [OF assms(2) _ u] in blast)+
  with matrix_keeps(1) [OF m] fr show ?thesis by (simp add: filter_frame_def)
qed

text \<open>Dissemination of a prefix concerns that prefix only: every message sent is an UPDATE or a WITHDRAW of it,
  and the Adj-RIBs-Out keep their routes for the others.\<close>

definition msg_at :: "ip_pfx \<Rightarrow> bgp_msg \<Rightarrow> bool" where
  "msg_at p m \<longleftrightarrow> (case payload m of
       BGP_MSG_TYPE_UPDATE r \<Rightarrow> pfx_norm (pfx r) = pfx_norm p
     | BGP_MSG_TYPE_WITHDRAW q \<Rightarrow> pfx_norm q = pfx_norm p
     | _ \<Rightarrow> False)"

definition out_find ::
    "('t, 'r, 'z) bgp_env_scheme \<Rightarrow> ('t, 'r) bgp_router \<Rightarrow> net_addr \<Rightarrow> ip_pfx \<Rightarrow> bgp_route option" where
  "out_find env router a p = do {
     pr \<leftarrow> bgp_router_find_peer router a;
     rib_find_exact (rib_trie env) (adj_rib_out pr) p
   }"

definition out_at ::
    "('t, 'r, 'z) bgp_env_scheme \<Rightarrow> ip_pfx \<Rightarrow> ('t, 'r) bgp_router \<Rightarrow> ('t, 'r) bgp_router \<Rightarrow> bool" where
  "out_at env p router router' \<longleftrightarrow>
     (\<exists>ob. outbox router' = outbox router @ ob \<and> (\<forall>m\<in>set ob. msg_at p (snd m)))
   \<and> (\<forall>a q. pfx_norm q \<noteq> pfx_norm p \<longrightarrow> out_find env router' a q = out_find env router a q)"

lemma out_at_same:
  "outbox router' = outbox router \<Longrightarrow> (\<And>a q. out_find env router' a q = out_find env router a q)
    \<Longrightarrow> out_at env p router router'"
  by (simp add: out_at_def)

lemma out_at_refl [simp]: "out_at env p router router"
  by (simp add: out_at_same)

lemma out_at_trans:
  assumes "out_at env p r1 r2" "out_at env p r2 r3"
  shows "out_at env p r1 r3"
proof -
  from assms obtain ob ob' where "outbox r2 = outbox r1 @ ob" "\<forall>m\<in>set ob. msg_at p (snd m)"
    "outbox r3 = outbox r2 @ ob'" "\<forall>m\<in>set ob'. msg_at p (snd m)" unfolding out_at_def by blast
  then have "outbox r3 = outbox r1 @ (ob @ ob') \<and> (\<forall>m\<in>set (ob @ ob'). msg_at p (snd m))" by auto
  moreover have "\<forall>a q. pfx_norm q \<noteq> pfx_norm p \<longrightarrow> out_find env r3 a q = out_find env r1 a q"
    using assms unfolding out_at_def by metis
  ultimately show ?thesis unfolding out_at_def by blast
qed

lemma out_at_sent:
  assumes find: "bgp_router_find_peer router a = Some pr" and sent: "peer_sent a pr [pl] f router router'"
    and pl: "msg_at p \<lparr>peer_asn = 0, seq_num = 0, payload = pl\<rparr>"
    and f: "\<And>q. pfx_norm q \<noteq> pfx_norm p
      \<Longrightarrow> rib_find_exact (rib_trie env) (f (adj_rib_out pr)) q = rib_find_exact (rib_trie env) (adj_rib_out pr) q"
  shows "out_at env p router router'"
proof -
  let ?ob = "if bgp_peer_flag_get pr PEER_FLAG_VIRTUAL then []
           else [(a, \<lparr>peer_asn = r_asn router, seq_num = send_seq_num pr, payload = pl\<rparr>)]"
  obtain n where r': "router' = (peer_modify a (\<lambda>p. p\<lparr>send_seq_num := send_seq_num p + n, adj_rib_out := f (adj_rib_out p)\<rparr>) router)
        \<lparr>outbox := outbox router @ ?ob\<rparr>"
    using sent unfolding peer_sent_def list.map by blast
  have "\<forall>m\<in>set ?ob. msg_at p (snd m)" using pl by (simp add: msg_at_def)
  moreover have "outbox router' = outbox router @ ?ob" by (simp add: r')
  moreover have "out_find env router' b q = out_find env router b q" if "pfx_norm q \<noteq> pfx_norm p" for b q
    using find f [OF that] by (cases "bgp_router_find_peer router b") (auto simp: out_find_def r' find_peer_modify)
  ultimately show ?thesis unfolding out_at_def by blast
qed

lemma disseminate_to_peer_keeps:
  assumes rib: "bgp_rib (rib_trie env) rinv" and rep: "attr_repository env"
    and ok: "rib_out_ok env rinv router" and p: "pfx_wf p"
    and route: "\<And>r. route = Some r \<Longrightarrow> pfx_wf (pfx r) \<and> pfx_norm (pfx r) = pfx_norm p"
    and res: "disseminate_to_peer env p route a router = Some router'"
  shows "rib_out_ok env rinv router' \<and> out_only router router' \<and> out_at env p router router'"
proof -
  obtain pr where find: "bgp_router_find_peer router a = Some pr"
    using res by (auto simp: disseminate_to_peer_def elim: bind_SomeE)
  have rinv: "rinv (adj_rib_out pr)" using ok find by (auto simp: rib_out_ok_def)
  show ?thesis
  proof (cases "session_state pr = SESSION_STATE_ESTABLISHED")
    case False
    with res find ok show ?thesis by (simp add: disseminate_to_peer_def)
  next
    case True
    from find True res show ?thesis
    proof (cases rule: disseminate_to_peer_cases)
      case (update r r')
      note r = route [OF update(1)]
      have pfx: "pfx (route_peer_set (Some a) r') = pfx r"
        using advertised_pfx [OF update(2) rep] by (simp add: route_peer_set_def)
      have "pfx_wf (pfx (r\<lparr>rank := 0\<rparr>))" using r by simp
      from bgp_rib.rib_add_effect [OF rib rinv this] obtain rib' where rib': "rib_replace_route (rib_trie env) (adj_rib_out pr) (r\<lparr>rank := 0\<rparr>) = (0, rib')" "rinv rib'"
        "\<And>q. rib_find_exact (rib_trie env) rib' q
          = (if pfx_norm q = pfx_norm (pfx (r\<lparr>rank := 0\<rparr>)) then Some (r\<lparr>rank := 0\<rparr>)
             else rib_find_exact (rib_trie env) (adj_rib_out pr) q)"
        by blast
      have "rib_out_ok env rinv router'"
        by (rule rib_out_ok_sent [OF ok find True update(3)]) (simp_all add: rib' msg_effect_def pfx)
      moreover have "out_at env p router router'"
        by (rule out_at_sent [OF find update(3)]) (use r in \<open>simp_all add: msg_at_def pfx rib'\<close>)
      ultimately show ?thesis using peer_sent_out_only [OF update(3)] by simp
    next
      case withdraw
      obtain res rib' where rib': "rib_remove_route (rib_trie env) (adj_rib_out pr) p = (res, rib')" "rinv rib'"
        "res = 0 \<longleftrightarrow> rib_find_exact (rib_trie env) (adj_rib_out pr) p \<noteq> None"
        "\<And>q. rib_find_exact (rib_trie env) rib' q
          = (if pfx_norm q = pfx_norm p then None else rib_find_exact (rib_trie env) (adj_rib_out pr) q)"
        by (rule bgp_rib.rib_remove_effect [OF rib rinv p]) (rule that)
      have "rib_out_ok env rinv router'"
        by (rule rib_out_ok_sent [OF ok find True withdraw(3)]) (simp_all add: rib' msg_effect_def)
      moreover have "out_at env p router router'"
        by (rule out_at_sent [OF find withdraw(3)]) (simp_all add: msg_at_def rib')
      ultimately show ?thesis using peer_sent_out_only [OF withdraw(3)] by simp
    next
      case nothing
      with ok show ?thesis by simp
    qed
  qed
qed

text \<open>Dissemination leaves the Adj-RIB-Out of a peer without session, and sends nothing to it.\<close>

definition out_frame :: "('t, 'r) bgp_router \<Rightarrow> ('t, 'r) bgp_router \<Rightarrow> bool" where
  "out_frame router router' \<longleftrightarrow>
     (\<forall>a pr. bgp_router_find_peer router a = Some pr \<longrightarrow>
       (\<exists>pr'. bgp_router_find_peer router' a = Some pr' \<and> session_state pr' = session_state pr
          \<and> (session_state pr \<noteq> SESSION_STATE_ESTABLISHED \<longrightarrow> adj_rib_out pr' = adj_rib_out pr
               \<and> (\<forall>p. announced a p (outbox router') = announced a p (outbox router)))))"

lemma announced_append_other:
  "\<forall>m\<in>set ob. fst m = a \<Longrightarrow> b \<noteq> a \<Longrightarrow> announced b p (xs @ ob) = announced b p xs"
proof (induction ob rule: rev_induct)
  case (snoc m ob)
  then have "announced b p (xs @ ob) = announced b p xs" "fst m \<noteq> b" by auto
  then show ?case by (simp add: announced_def msg_effect_def append_assoc [symmetric] del: append_assoc)
qed simp

lemma out_frame_refl [simp]: "out_frame router router"
  by (simp add: out_frame_def)

lemma out_frame_trans:
  assumes "out_frame r1 r2" "out_frame r2 r3"
  shows "out_frame r1 r3"
  unfolding out_frame_def
proof (intro allI impI)
  fix a pr assume "bgp_router_find_peer r1 a = Some pr"
  with assms(1) obtain pr2 where 2: "bgp_router_find_peer r2 a = Some pr2" "session_state pr2 = session_state pr"
    "session_state pr \<noteq> SESSION_STATE_ESTABLISHED \<longrightarrow> adj_rib_out pr2 = adj_rib_out pr
       \<and> (\<forall>p. announced a p (outbox r2) = announced a p (outbox r1))"
    unfolding out_frame_def by blast
  with assms(2) obtain pr3 where 3: "bgp_router_find_peer r3 a = Some pr3" "session_state pr3 = session_state pr2"
    "session_state pr2 \<noteq> SESSION_STATE_ESTABLISHED \<longrightarrow> adj_rib_out pr3 = adj_rib_out pr2
       \<and> (\<forall>p. announced a p (outbox r3) = announced a p (outbox r2))"
    unfolding out_frame_def by blast
  from 2 3 show "\<exists>pr'. bgp_router_find_peer r3 a = Some pr' \<and> session_state pr' = session_state pr
      \<and> (session_state pr \<noteq> SESSION_STATE_ESTABLISHED \<longrightarrow> adj_rib_out pr' = adj_rib_out pr
           \<and> (\<forall>p. announced a p (outbox r3) = announced a p (outbox r1)))"
    by (intro exI [of _ pr3]) simp
qed

lemma out_frame_sent:
  assumes "bgp_router_find_peer router a = Some pr" "session_state pr = SESSION_STATE_ESTABLISHED"
    and "peer_sent a pr pls f router router'"
  shows "out_frame router router'"
proof -
  let ?g = "\<lambda>n p. p\<lparr>send_seq_num := send_seq_num p + n, adj_rib_out := f (adj_rib_out p)\<rparr>"
  obtain n where r': "router' = (peer_modify a (?g n) router)\<lparr>outbox := outbox router @ (if bgp_peer_flag_get pr PEER_FLAG_VIRTUAL then []
      else map (\<lambda>pl. (a, \<lparr>peer_asn = r_asn router, seq_num = send_seq_num pr, payload = pl\<rparr>)) pls)\<rparr>"
    using assms(3) unfolding peer_sent_def by blast
  then have "announced b p (outbox router') = announced b p (outbox router)" if "b \<noteq> a" for b p
    using announced_append_other [OF _ that, where ob = "if bgp_peer_flag_get pr PEER_FLAG_VIRTUAL then []
      else map (\<lambda>pl. (a, \<lparr>peer_asn = r_asn router, seq_num = send_seq_num pr, payload = pl\<rparr>)) pls"] by simp
  moreover have "bgp_router_find_peer (peer_modify a (?g n) router) b
      = map_option (\<lambda>p. if b = a then ?g n p else p) (bgp_router_find_peer router b)" for b
    by (rule find_peer_modify) simp
  ultimately show ?thesis using assms(1,2) r' by (auto simp: out_frame_def)
qed

lemma disseminate_to_peer_frame:
  assumes "disseminate_to_peer env p route a router = Some router'"
  shows "out_frame router router'"
proof -
  obtain pr where find: "bgp_router_find_peer router a = Some pr"
    using assms by (auto simp: disseminate_to_peer_def elim: bind_SomeE)
  show ?thesis
  proof (cases "session_state pr = SESSION_STATE_ESTABLISHED")
    case True
    from find True assms show ?thesis
      by (cases rule: disseminate_to_peer_cases) (auto intro: out_frame_sent [OF find True])
  qed (use assms find in \<open>simp add: disseminate_to_peer_def\<close>)
qed

lemma disseminate_loop_frame: "disseminate_loop env p route as router = Some router' \<Longrightarrow> out_frame router router'"
proof (induction as arbitrary: router)
  case (Cons a as)
  from Cons.prems obtain pr router1 where "bgp_router_find_peer router a = Some pr"
    "(if bgp_peer_send_enabled pr then disseminate_to_peer env p route a router else Some router)
      = Some router1" "disseminate_loop env p route as router1 = Some router'"
    unfolding disseminate_loop.simps by (elim bind_SomeE) (rule that)
  with Cons.IH show ?case by (auto intro: out_frame_trans disseminate_to_peer_frame split: if_splits)
qed simp

lemma disseminate_loop_keeps:
  assumes rib: "bgp_rib (rib_trie env) rinv" and rep: "attr_repository env" and p: "pfx_wf p"
    and route: "\<And>r. route = Some r \<Longrightarrow> pfx_wf (pfx r) \<and> pfx_norm (pfx r) = pfx_norm p"
  shows "rib_out_ok env rinv router \<Longrightarrow> disseminate_loop env p route as router = Some router' \<Longrightarrow>
    rib_out_ok env rinv router' \<and> out_only router router' \<and> out_at env p router router'"
proof (induction as arbitrary: router)
  case (Cons a as)
  from Cons.prems(2) obtain pr router1 where "bgp_router_find_peer router a = Some pr"
    and one: "(if bgp_peer_send_enabled pr then disseminate_to_peer env p route a router else Some router) = Some router1"
    and rest: "disseminate_loop env p route as router1 = Some router'"
    unfolding disseminate_loop.simps by (elim bind_SomeE) (rule that)
  have "rib_out_ok env rinv router1 \<and> out_only router router1 \<and> out_at env p router router1"
    using one disseminate_to_peer_keeps [OF rib rep Cons.prems(1) p route] Cons.prems(1)
    by (auto split: if_splits)
  with Cons.IH [OF _ rest] show ?case by (auto intro: out_only_trans out_at_trans)
qed simp

section \<open>Properties\<close>

text \<open>C11: Advertisement to an external peer: a route that is sent keeps its prefix, was not learned from
  a peer with the router-ID of the destination, carried neither NO_ADVERTISE nor NO_EXPORT, and its
  AS-Path did not contain the AS of the destination; the sent route has no originator and no
  cluster list, its next hop is the one configured for the peer or else the router-ID, and the
  AS of the router is the last in its AS-Path, unless the last segment is full (255 AS numbers),
  when the AS-Path is sent without it.\<close>

theorem advertise_external_safe:
  assumes "attr_repository env" "advertised_route env router dst route = Some (Some r')"
    and "p_asn dst \<noteq> r_asn router"
  shows "pfx r' = pfx route
    \<and> (\<forall>src. route_peer_deref router route = Some src \<longrightarrow> router_id src \<noteq> router_id dst)
    \<and> \<not> route_comm_contains route COMM_NO_ADVERTISE \<and> \<not> route_comm_contains route COMM_NO_EXPORT
    \<and> p_asn dst \<notin> set (ref_asns (path_ref (attr route)))
    \<and> originator (attr r') = None \<and> cluster_list (attr r') = None
    \<and> next_hop (attr r') = (if p_next_hop dst \<noteq> NET_ADDR_ANY then p_next_hop dst else rid router)
    \<and> ((\<exists>q. ref_asns (path_ref (attr r')) = q @ [r_asn router])
       \<or> (\<exists>segs. path_ref (attr r') = Some segs \<and> segs \<noteq> [] \<and> length (asns (last segs)) \<ge> 255))"
proof -
  from assms(2) obtain src r1 r2 where
    src: "(case peer route of None \<Rightarrow> Some None | Some _ \<Rightarrow> map_option Some (route_peer_deref router route)) = Some src"
      "src \<noteq> None \<longrightarrow> router_id dst \<noteq> router_id (the src)"
    and na: "\<not> route_comm_contains route COMM_NO_ADVERTISE"
    and m: "redistribution_matrix router dst src (route\<lparr>rank := 0\<rparr>) = Some (Some r1)"
    and fr: "filter_frame r1 r2" and u: "redistribution_update env router dst src r2 = Some r'"
    by (rule advertised_route_stages)
  have "\<forall>s. route_peer_deref router route = Some s \<longrightarrow> router_id s \<noteq> router_id dst"
    using src by (auto simp: route_peer_deref_def split: option.splits)
  moreover have "p_asn dst \<notin> set (ref_asns (path_ref (attr route)))"
    using matrix_external(2) [OF m assms(3)] by (simp add: route_path_contains_ref)
  ultimately show ?thesis
    using na matrix_external [OF m assms(3)] matrix_keeps [OF m] fr update_external [OF assms(1,3) u]
    by (simp add: filter_frame_def)
qed

definition sample_dst :: "(bgp_route alist_trie) bgp_peer" where
  "sample_dst = (bgp_peer_create sample_env 2 20)\<lparr>router_id := 20, session_state := SESSION_STATE_ESTABLISHED\<rparr>"

lemma sample_env_repository: "attr_repository sample_env"
proof -
  have "attr_repository (list_repository [] [])" by (rule list_repo.attr_repository_axioms)
  then show ?thesis by (simp add: attr_repository_def sample_env_def)
qed

theorem advertise_external_safe_witness:
  "\<exists>r'. advertised_route sample_env sample_router sample_dst (sample_route 30 0) = Some (Some r')
     \<and> next_hop (attr r') = 7"
proof -
  have "map_option (\<lambda>x. x \<noteq> None) (advertised_route sample_env sample_router sample_dst (sample_route 30 0)) = Some True"
    by code_simp
  then obtain r' where r': "advertised_route sample_env sample_router sample_dst (sample_route 30 0) = Some (Some r')"
    by (auto split: option.splits)
  have "p_asn sample_dst \<noteq> r_asn sample_router" by code_simp
  moreover have "p_next_hop sample_dst = NET_ADDR_ANY" "rid sample_router = 7" by code_simp+
  ultimately show ?thesis
    using advertise_external_safe [OF sample_env_repository r'] r' by auto
qed

text \<open>C12: Advertisement between internal peers: a route learned from an internal peer is sent to an
  internal peer only by a route reflector, and only from or to a client; the originator is that of
  the route, or the router-ID of the peer it was learned from, and never the destination; the cluster
  identifier of the router is appended to the cluster list and the next hop is not changed.\<close>

theorem advertise_internal_safe:
  assumes "attr_repository env" "advertised_route env router dst route = Some (Some r')"
    and "p_asn dst = r_asn router" "route_peer_deref router route = Some src" "p_asn src = r_asn router"
  shows "pfx r' = pfx route \<and> router_id src \<noteq> router_id dst
    \<and> reflector router
    \<and> (route_flag_get route ROUTE_FLAG_RR_CLIENT \<or> bgp_peer_flag_get dst PEER_FLAG_RR_CLIENT)
    \<and> originator (attr r') = Some (case originator (attr route) of None \<Rightarrow> router_id src | Some o' \<Rightarrow> o')
    \<and> originator (attr r') \<noteq> Some (router_id dst)
    \<and> cluster_list (attr r')
      = Some ((case cluster_list (attr route) of None \<Rightarrow> [] | Some cl \<Rightarrow> cl) @ [cluster_id router])
    \<and> next_hop (attr r') = next_hop (attr route)"
proof -
  from assms(2) obtain s r1 r2 where
    src: "(case peer route of None \<Rightarrow> Some None | Some _ \<Rightarrow> map_option Some (route_peer_deref router route)) = Some s"
      "s \<noteq> None \<longrightarrow> router_id dst \<noteq> router_id (the s)"
    and m: "redistribution_matrix router dst s (route\<lparr>rank := 0\<rparr>) = Some (Some r1)"
    and fr: "filter_frame r1 r2" and u: "redistribution_update env router dst s r2 = Some r'"
    by (rule advertised_route_stages)
  have s: "s = Some src"
    using src(1) assms(4) by (auto simp: route_peer_deref_def split: option.splits)
  note m = m [unfolded s] and u = u [unfolded s]
  have "r' = r2" using update_internal(4) [OF assms(3) u] assms(5) by (simp add: location_of_def)
  moreover have "route_flag_get (route\<lparr>rank := 0\<rparr>) f = route_flag_get route f" for f
    by (simp add: route_flag_get_def)
  ultimately show ?thesis
    using matrix_reflect [OF m assms(3,5)] matrix_keeps [OF m] fr src(2) s
    by (auto simp: filter_frame_def split: option.splits)
qed

text \<open>A route reflector in AS 1 with two internal peers.\<close>

definition sample_reflector :: "((rt_info list) alist_trie, bgp_route alist_trie) bgp_router" where
  "sample_reflector = sample_router\<lparr>reflector := True,
     peers := [(bgp_peer_create sample_env 1 20)\<lparr>router_id := 20, session_state := SESSION_STATE_ESTABLISHED\<rparr>,
               bgp_peer_flag_set PEER_FLAG_RR_CLIENT True
                 ((bgp_peer_create sample_env 1 30)\<lparr>router_id := 30, session_state := SESSION_STATE_ESTABLISHED\<rparr>)]\<rparr>"

theorem advertise_internal_safe_witness:
  "\<exists>r'. advertised_route sample_env sample_reflector (peers sample_reflector ! 1) (sample_route 20 0) = Some (Some r')
     \<and> cluster_list (attr r') = Some [7] \<and> originator (attr r') = Some 20"
proof -
  let ?dst = "peers sample_reflector ! 1" and ?src = "peers sample_reflector ! 0"
  have "map_option (\<lambda>x. x \<noteq> None) (advertised_route sample_env sample_reflector ?dst (sample_route 20 0)) = Some True"
    by code_simp
  then obtain r' where r': "advertised_route sample_env sample_reflector ?dst (sample_route 20 0) = Some (Some r')"
    by (auto split: option.splits)
  have c: "p_asn ?dst = r_asn sample_reflector" "route_peer_deref sample_reflector (sample_route 20 0) = Some ?src"
    "p_asn ?src = r_asn sample_reflector" "cluster_list (attr (sample_route 20 0)) = None"
    "originator (attr (sample_route 20 0)) = None" "cluster_id sample_reflector = 7" "router_id ?src = 20"
    by code_simp+
  show ?thesis
    using advertise_internal_safe [OF sample_env_repository r' c(1-3)] r' c(4-7) by auto
qed

text \<open>C14: A route that nothing excludes is sent to an external peer: it was not learned from a router
  with the router-ID of the peer, has neither NO_ADVERTISE nor NO_EXPORT, the AS of the peer is not in
  its AS-Path, it has no extended communities, and the peer has no output filter.\<close>

theorem advertise_external_live:
  assumes "attr_repository env" "route_wf env route" "p_asn dst \<noteq> r_asn router"
    and "peer route = None \<or> (\<exists>src. route_peer_deref router route = Some src \<and> router_id src \<noteq> router_id dst)"
    and "\<not> route_comm_contains route COMM_NO_ADVERTISE" "\<not> route_comm_contains route COMM_NO_EXPORT"
    and "p_asn dst \<notin> set (ref_asns (path_ref (attr route)))"
    and "ecomms (attr route) = None" "filter_out dst = None"
  shows "\<exists>r'. advertised_route env router dst route = Some (Some r')"
proof -
  let ?r0 = "route\<lparr>rank := 0\<rparr>"
  define r1 where "r1 = route_cluster_list_clear (route_originator_clear ?r0)"
  define r2 where "r2 = route_med_clear (route_ecomm_strip_non_transitive r1)"
  have copy: "route_copy env route = Some ?r0"
    using route_copy_interned [OF assms(1)] assms(2) by (simp add: route_wf_def)
  have m: "redistribution_matrix router dst src ?r0 = Some (Some r1)" for src
    using assms(3,6,7)
    by (simp add: redistribution_matrix_def location_of_def r1_def route_path_contains_ref)
  have e: "bgp_router_ecomm_process env router dst r1 = Some (True, r1)"
    using assms(8)
    by (simp add: bgp_router_ecomm_process_def r1_def route_cluster_list_clear_def route_originator_clear_def
        bgp_attr_originator_destroy_def bgp_attr_cluster_list_destroy_def)
  have "path_ref_wf (path_ref (attr (route_set_nexthop nh r2)))" for nh
    using assms(2)
    by (simp add: route_wf_def r2_def r1_def route_med_clear_def route_ecomm_strip_non_transitive_def
        route_cluster_list_clear_def route_originator_clear_def bgp_attr_originator_destroy_def
        bgp_attr_cluster_list_destroy_def)
  then have "\<exists>x a. bgp_attr_path_prepend env (r_asn router) 1 (attr (route_set_nexthop nh r2)) = Some (x, a)" for nh
    using attr_repository.prepend_effect [OF assms(1), of "attr (route_set_nexthop nh r2)" "r_asn router" 1] by blast
  then obtain x a where "bgp_attr_path_prepend env (r_asn router) 1
      (attr (route_set_nexthop (if p_next_hop dst \<noteq> NET_ADDR_ANY then p_next_hop dst else rid router) r2)) = Some (x, a)"
    by blast
  with assms(3) have u: "\<exists>r'. redistribution_update env router dst src r2 = Some r'" for src
    by (simp add: redistribution_update_def location_of_def Let_def route_path_prepend_def)
  have rest: "\<exists>r'. advertised_rest env router dst src (Some r1) = Some (Some r')" for src
    using u [of src] assms(3)
    by (auto simp: advertised_rest_def e advertised_filter_def filter_apply_def assms(9) location_of_def
        r2_def [symmetric])
  show ?thesis
  proof (cases "peer route")
    case None
    then show ?thesis using rest [of None] assms(5) by (simp add: advertised_route_def copy m)
  next
    case (Some a)
    with assms(4) obtain src where "route_peer_deref router route = Some src" "router_id src \<noteq> router_id dst"
      by auto
    with Some show ?thesis using rest [of "Some src"] assms(5) by (simp add: advertised_route_def copy m)
  qed
qed

theorem advertise_external_live_witness:
  "\<exists>r'. advertised_route sample_env sample_router sample_dst (sample_route 30 0) = Some (Some r')"
proof (rule advertise_external_live [OF sample_env_repository])
  show "route_wf sample_env (sample_route 30 0)"
    by (simp add: route_wf_def sample_route_def route_med_set_def route_create_def route_create2_def
        bgp_attr_create_def pfx_wf_def path_ref_wf_def interned_def sample_env_def list_repository_def)
  have "map_option router_id (route_peer_deref sample_router (sample_route 30 0)) = Some 0" "router_id sample_dst = 20"
    by code_simp+
  then show "peer (sample_route 30 0) = None
      \<or> (\<exists>src. route_peer_deref sample_router (sample_route 30 0) = Some src \<and> router_id src \<noteq> router_id sample_dst)"
    by auto
qed code_simp+

text \<open>C13: Dissemination keeps every Adj-RIB-Out in step with what was sent: a prefix is in the
  Adj-RIB-Out of a peer that is not virtual exactly when the session is established and the last message
  sent to the peer about this prefix was an UPDATE and not a WITHDRAW; so an explicit withdraw is sent
  exactly when the peer has been sent the prefix.  Nothing else of the router changes.\<close>

theorem disseminate_rib_out:
  assumes "bgp_rib (rib_trie env) rinv" "attr_repository env" "pfx_wf p"
    and "\<And>r. route = Some r \<Longrightarrow> pfx_wf (pfx r) \<and> pfx_norm (pfx r) = pfx_norm p"
    and "rib_out_ok env rinv router" "disseminate env p route router = Some router'"
  shows "rib_out_ok env rinv router' \<and> out_only router router'"
  using disseminate_loop_keeps [OF assms(1-3), of route router] assms(4-6) by (simp add: disseminate_def)

definition sample_speaker :: "((rt_info list) alist_trie, bgp_route alist_trie) bgp_router" where
  "sample_speaker = sample_router\<lparr>peers := [sample_dst,
     (bgp_peer_create sample_env 3 30)\<lparr>router_id := 30, session_state := SESSION_STATE_ESTABLISHED\<rparr>]\<rparr>"

lemma sample_speaker_ok: "rib_out_ok sample_env alist_trie_inv sample_speaker"
  by (auto simp: rib_out_ok_def sample_speaker_def bgp_router_find_peer_def bgp_peers_find_def sample_dst_def
      bgp_peer_create_def sample_env_def rib_create_def rib_find_exact_def alist_trie_ops_def alist_trie_inv_def
      announced_def sample_router_def bgp_router_create_def split: if_splits)

theorem disseminate_rib_out_witness:
  "\<exists>router'. disseminate sample_env \<lparr>network = 1, mask = 8\<rparr> (Some (sample_route 30 0)) sample_speaker = Some router'
     \<and> rib_out_ok sample_env alist_trie_inv router' \<and> map fst (outbox router') = [20]"
proof -
  let ?p = "\<lparr>network = 1, mask = 8\<rparr> :: ip_pfx"
  have "map_option (\<lambda>r. map fst (outbox r)) (disseminate sample_env ?p (Some (sample_route 30 0)) sample_speaker) = Some [20]"
    by code_simp
  then obtain router' where r: "disseminate sample_env ?p (Some (sample_route 30 0)) sample_speaker = Some router'"
    "map fst (outbox router') = [20]" by auto
  have rib: "bgp_rib (rib_trie sample_env) alist_trie_inv"
    by (simp add: sample_env_def alist_rib.bgp_rib_axioms)
  have p: "pfx_wf ?p" "pfx (sample_route 30 0) = ?p" by code_simp+
  have "rib_out_ok sample_env alist_trie_inv router' \<and> out_only sample_speaker router'"
    by (rule disseminate_rib_out [OF rib sample_env_repository p(1) _ sample_speaker_ok r(1)]) (use p in auto)
  with r show ?thesis by (intro exI [of _ router']) simp
qed

end
