(* ===== verification/Bgp_Decision.thy ===== *)
theory Bgp_Decision
  imports Bgp_Advertise
begin

text \<open>
  The decision process of a router: \<open>bgp_router_decision_process\<close> of \<open>src/bgp/as.c\<close> with the functions
  it is made of, and the installation of its result in the routing table of the node
  (\<open>src/bgp/dp_rt.c\<close>).

  The candidates are the eligible and feasible routes of the Adj-RIBs-In of the established peers.  A
  write through a candidate is a write to the Adj-RIB-In of its peer (\<open>candidate_modify\<close>), a write
  through the old best route is a write to the Loc-RIB (\<open>loc_rib_modify\<close>).  The invariant \<open>router_ok\<close>
  says what the process relies on; under it the process runs to its end and installs the route that the
  specification of the rules selects.
\<close>

section \<open>The routing table\<close>

definition set_node_rt :: "'t \<Rightarrow> ('t, 'r) bgp_router \<Rightarrow> ('t, 'r) bgp_router" where
  "set_node_rt rt router = router\<lparr>node := (node router)\<lparr>node_rt := rt\<rparr>\<rparr>"

definition bgp_router_rt_add_route ::
    "('t, 'r, 'z) bgp_env_scheme \<Rightarrow> bgp_route \<Rightarrow> ('t, 'r) bgp_router \<Rightarrow> ('t, 'r) bgp_router option" where
  "bgp_router_rt_add_route env route router = do {
     let rt = node_rt (node router) in do {
       old_rtinfo \<leftarrow> rt_find_exact (rtenv env) rt (pfx route) NET_ROUTE_BGP;
       rt \<leftarrow> (if old_rtinfo \<noteq> None
              then map_option snd (rt_del_route (rtenv env) rt (Some (pfx route)) None None NET_ROUTE_BGP)
              else Some rt);
       let (_, rtinfo) = rt_info_add_entry (rtenv env) (rt_info_create (pfx route) 0 NET_ROUTE_BGP)
             None (next_hop (attr route))
       in do {
         (result, rt) \<leftarrow> rt_add_route (rtenv env) rt (pfx route) rtinfo;
         assert_opt (result = ESUCCESS);
         Some (set_node_rt rt router)
       }
     }
   }"

definition bgp_router_rt_del_route ::
    "('t, 'r, 'z) bgp_env_scheme \<Rightarrow> ip_pfx \<Rightarrow> ('t, 'r) bgp_router \<Rightarrow> ('t, 'r) bgp_router option" where
  "bgp_router_rt_del_route env p router = do {
     (result, rt) \<leftarrow> rt_del_route (rtenv env) (node_rt (node router)) (Some p) None None NET_ROUTE_BGP;
     assert_opt (result = 0);
     Some (set_node_rt rt router)
   }"

section \<open>Candidates\<close>

definition bgp_router_best_flag_off ::
    "('t, 'r, 'z) bgp_env_scheme \<Rightarrow> ip_pfx \<Rightarrow> bgp_route \<Rightarrow> ('t, 'r) bgp_router \<Rightarrow> ('t, 'r) bgp_router option" where
  "bgp_router_best_flag_off env p old_route router = do {
     let router = loc_rib_modify env p (route_flag_set ROUTE_FLAG_BEST False) router in
     case peer old_route of
       None \<Rightarrow> Some router
     | Some addr \<Rightarrow> do {
         pr \<leftarrow> bgp_router_find_peer router addr;
         if rib_find_exact (rib_trie env) (adj_rib_in pr) (pfx old_route) \<noteq> None
         then Some (adj_in_modify env addr (pfx old_route) (route_flag_set ROUTE_FLAG_BEST False) router)
         else Some router
       }
   }"

definition bgp_router_feasible_route ::
    "('t, 'r, 'z) bgp_env_scheme \<Rightarrow> ('t, 'r) bgp_router \<Rightarrow> bgp_route \<Rightarrow> (bool \<times> bgp_route) option" where
  "bgp_router_feasible_route env router route = do {
     rtentries \<leftarrow> node_rt_lookup (rtenv env) (node_rt (node router)) (next_hop (attr route));
     if rtentries \<noteq> None then Some (True, route_flag_set ROUTE_FLAG_FEASIBLE True route)
     else Some (False, route_flag_set ROUTE_FLAG_FEASIBLE False route)
   }"

definition bgp_router_get_best_routes ::
    "('t, 'r, 'z) bgp_env_scheme \<Rightarrow> ('t, 'r) bgp_router \<Rightarrow> ip_pfx \<Rightarrow> bgp_routes" where
  "bgp_router_get_best_routes env router p =
     (case rib_find_exact (rib_trie env) (loc_rib router) p of
        None \<Rightarrow> []
      | Some route \<Rightarrow> routes_list_append [] route)"

fun get_feasible_loop ::
    "('t, 'r, 'z) bgp_env_scheme \<Rightarrow> ip_pfx \<Rightarrow> net_addr list \<Rightarrow> bgp_routes \<Rightarrow> ('t, 'r) bgp_router
     \<Rightarrow> (('t, 'r) bgp_router \<times> bgp_routes) option" where
  "get_feasible_loop env p [] routes router = Some (router, routes)"
| "get_feasible_loop env p (addr # addrs) routes router = do {
     pr \<leftarrow> bgp_router_find_peer router addr;
     if session_state pr = SESSION_STATE_ESTABLISHED then
       (case rib_find_exact (rib_trie env) (adj_rib_in pr) p of
          None \<Rightarrow> get_feasible_loop env p addrs routes router
        | Some route \<Rightarrow>
            if route_flag_get route ROUTE_FLAG_ELIGIBLE then do {
              (feasible, route) \<leftarrow> bgp_router_feasible_route env router route;
              let router = adj_in_modify env addr p (\<lambda>_. route) router in
              get_feasible_loop env p addrs (if feasible then routes_list_append routes route else routes) router
            }
            else get_feasible_loop env p addrs routes router)
     else get_feasible_loop env p addrs routes router
   }"

definition bgp_router_get_feasible_routes ::
    "('t, 'r, 'z) bgp_env_scheme \<Rightarrow> ip_pfx \<Rightarrow> ('t, 'r) bgp_router
     \<Rightarrow> (('t, 'r) bgp_router \<times> bgp_routes) option" where
  "bgp_router_get_feasible_routes env p router =
     get_feasible_loop env p (map p_addr (peers router)) [] router"

section \<open>The outcomes\<close>

definition decision_process_no_best_route ::
    "('t, 'r, 'z) bgp_env_scheme \<Rightarrow> ip_pfx \<Rightarrow> bgp_route option \<Rightarrow> ('t, 'r) bgp_router
     \<Rightarrow> ('t, 'r) bgp_router option" where
  "decision_process_no_best_route env p old_route router =
     (case old_route of
        None \<Rightarrow> Some router
      | Some old \<Rightarrow> do {
          router \<leftarrow> bgp_router_best_flag_off env p old router;
          let router = router\<lparr>loc_rib := snd (rib_remove_route (rib_trie env) (loc_rib router) p)\<rparr> in do {
            router \<leftarrow> bgp_router_rt_del_route env p router;
            disseminate env p None router
          }
        })"

text \<open>The copy \<open>route\<close> of the best route is destroyed afterwards.\<close>

definition decision_process_unchanged_best_route ::
    "('t, 'r, 'z) bgp_env_scheme \<Rightarrow> ip_pfx \<Rightarrow> bgp_route \<Rightarrow> bgp_route \<Rightarrow> nat \<Rightarrow> ('t, 'r) bgp_router
     \<Rightarrow> ('t, 'r) bgp_router option" where
  "decision_process_unchanged_best_route env p best route rank' router =
     (let route = route_flag_set ROUTE_FLAG_BEST True route;
          router = candidate_modify env (route_flag_set ROUTE_FLAG_BEST True) best router;
          router = loc_rib_modify env p
            (route_flag_set ROUTE_FLAG_DP_IGP (route_flag_get route ROUTE_FLAG_DP_IGP)) router;
          router = loc_rib_modify env p (\<lambda>r. r\<lparr>rank := of_nat rank'\<rparr>) router;
          router = candidate_modify env (\<lambda>r. r\<lparr>rank := of_nat rank'\<rparr>) best router
      in bgp_router_rt_add_route env route router)"

definition decision_process_update_best_route ::
    "('t, 'r, 'z) bgp_env_scheme \<Rightarrow> ip_pfx \<Rightarrow> bgp_route \<Rightarrow> bgp_route option \<Rightarrow> bgp_route \<Rightarrow> nat
     \<Rightarrow> ('t, 'r) bgp_router \<Rightarrow> ('t, 'r) bgp_router option" where
  "decision_process_update_best_route env p best old_route route rank' router = do {
     router \<leftarrow> (case old_route of
        None \<Rightarrow> Some router
      | Some old \<Rightarrow> bgp_router_best_flag_off env p old router);
     let route = route_flag_set ROUTE_FLAG_BEST True route;
         router = candidate_modify env (route_flag_set ROUTE_FLAG_BEST True) best router;
         route = route\<lparr>rank := of_nat rank'\<rparr>;
         router = candidate_modify env (\<lambda>r. r\<lparr>rank := of_nat rank'\<rparr>) best router;
         (result, rib) = rib_add_route (rib_trie env) (loc_rib router) route
     in do {
       assert_opt (result = 0);
       let router = router\<lparr>loc_rib := rib\<rparr> in do {
         router \<leftarrow> bgp_router_rt_add_route env route router;
         disseminate env p (Some route) router
       }
     }
   }"

section \<open>The decision process\<close>

text \<open>The loop that resets the flags of the candidates, and the mark of a single candidate.\<close>

definition reset_flags :: "bgp_route \<Rightarrow> bgp_route" where
  "reset_flags route =
     route_flag_set ROUTE_FLAG_BEST False (route_flag_set ROUTE_FLAG_DP_IGP False route)"

definition prepare_candidates ::
    "('t, 'r, 'z) bgp_env_scheme \<Rightarrow> bgp_routes \<Rightarrow> ('t, 'r) bgp_router \<Rightarrow> ('t, 'r) bgp_router \<times> bgp_routes" where
  "prepare_candidates env routes router =
     (let router = candidates_modify env reset_flags routes router;
          routes = map reset_flags routes;
          mark = route_flag_set ROUTE_FLAG_DP_IGP True
      in if length routes = 1
         then (candidates_modify env mark routes router, map mark routes)
         else (router, routes))"

text \<open>From the list of candidates to the single best one, with the number of rules applied.\<close>

definition decision_process_select ::
    "('t, 'r, 'z) bgp_env_scheme \<Rightarrow> ip_pfx \<Rightarrow> ('t, 'r) bgp_router
     \<Rightarrow> (nat \<times> ('t, 'r) bgp_router \<times> bgp_routes) option" where
  "decision_process_select env p router = do {
     (router, routes) \<leftarrow> bgp_router_get_feasible_routes env p router;
     let (router, routes) = prepare_candidates env routes router in do {
       (rank', router, routes) \<leftarrow> (if length routes > 1 then bgp_router_decision_process_run env router routes
                                  else Some (0, router, routes));
       assert_opt (length routes \<le> 1);
       Some (rank', router, routes)
     }
   }"

text \<open>The outcome when a best route was selected.\<close>

definition decision_process_install ::
    "('t, 'r, 'z) bgp_env_scheme \<Rightarrow> ip_pfx \<Rightarrow> bgp_route option \<Rightarrow> bgp_route \<Rightarrow> nat \<Rightarrow> ('t, 'r) bgp_router
     \<Rightarrow> ('t, 'r) bgp_router option" where
  "decision_process_install env p old_route best rank' router = do {
     route \<leftarrow> route_copy env best;
     equal \<leftarrow> (case old_route of None \<Rightarrow> Some False | Some old \<Rightarrow> route_equals old route);
     if equal then decision_process_unchanged_best_route env p best route rank' router
     else decision_process_update_best_route env p best old_route route rank' router
   }"

definition bgp_router_decision_process ::
    "('t, 'r, 'z) bgp_env_scheme \<Rightarrow> ip_pfx \<Rightarrow> ('t, 'r) bgp_router \<Rightarrow> ('t, 'r) bgp_router option" where
  "bgp_router_decision_process env p router = do {
     let old_route = rib_find_exact (rib_trie env) (loc_rib router) p in
     if old_route \<noteq> None \<and> route_flag_get (the old_route) ROUTE_FLAG_INTERNAL then Some router
     else do {
       (rank', router, routes) \<leftarrow> decision_process_select env p router;
       case routes of
         [] \<Rightarrow> decision_process_no_best_route env p old_route router
       | best # _ \<Rightarrow> decision_process_install env p old_route best rank' router
     }
   }"


section \<open>Writes to RIBs\<close>

context bgp_rib
begin

lemma rib_modify_effect:
  assumes "rinv rib" "pfx_wf p"
  shows "rinv (rib_modify ops p f rib)"
    and "rib_find_exact ops (rib_modify ops p f rib) q
       = (if pfx_norm q = pfx_norm p then map_option f (rib_find_exact ops rib p) else rib_find_exact ops rib q)"
proof -
  have "rinv (rib_modify ops p f rib)
      \<and> rib_find_exact ops (rib_modify ops p f rib) q
       = (if pfx_norm q = pfx_norm p then map_option f (rib_find_exact ops rib p) else rib_find_exact ops rib q)"
    using assms find_same_norm [OF assms(1), of q p]
    by (auto simp: rib_modify_def rib_find_exact_def find_insert inv_insert split: option.splits)
  then show "rinv (rib_modify ops p f rib)"
    "rib_find_exact ops (rib_modify ops p f rib) q
       = (if pfx_norm q = pfx_norm p then map_option f (rib_find_exact ops rib p) else rib_find_exact ops rib q)"
    by auto
qed

lemma rib_find_norm: "rinv rib \<Longrightarrow> pfx_norm q = pfx_norm p \<Longrightarrow> rib_find_exact ops rib q = rib_find_exact ops rib p"
  unfolding rib_find_exact_def by (rule find_same_norm)

end

text \<open>The route of an Adj-RIB-In, and the same route up to its flags and rank.\<close>

definition adj_find ::
    "('t, 'r, 'z) bgp_env_scheme \<Rightarrow> ('t, 'r) bgp_router \<Rightarrow> net_addr \<Rightarrow> ip_pfx \<Rightarrow> bgp_route option" where
  "adj_find env router a p = do {
     pr \<leftarrow> bgp_router_find_peer router a;
     rib_find_exact (rib_trie env) (adj_rib_in pr) p
   }"

definition loc_find :: "('t, 'r, 'z) bgp_env_scheme \<Rightarrow> ('t, 'r) bgp_router \<Rightarrow> ip_pfx \<Rightarrow> bgp_route option" where
  "loc_find env router p = rib_find_exact (rib_trie env) (loc_rib router) p"

definition same_route :: "bgp_route \<Rightarrow> bgp_route \<Rightarrow> bool" where
  "same_route r s \<longleftrightarrow> pfx s = pfx r \<and> peer s = peer r \<and> attr s = attr r
     \<and> (\<forall>f\<in>{ROUTE_FLAG_ELIGIBLE, ROUTE_FLAG_INTERNAL, ROUTE_FLAG_RR_CLIENT}. route_flag_get s f = route_flag_get r f)"

lemma same_route_refl [simp]: "same_route r r"
  by (simp add: same_route_def)

lemma same_route_trans [trans]: "same_route r s \<Longrightarrow> same_route s t \<Longrightarrow> same_route r t"
  by (auto simp: same_route_def)

lemma same_route_flag_set [simp]:
  assumes "f \<in> {ROUTE_FLAG_FEASIBLE, ROUTE_FLAG_BEST, ROUTE_FLAG_DP_IGP}"
  shows "same_route r (route_flag_set f b r)"
proof -
  have "route_flag_get (route_flag_set f b r) g = route_flag_get r g"
    if "g \<in> {ROUTE_FLAG_ELIGIBLE, ROUTE_FLAG_INTERNAL, ROUTE_FLAG_RR_CLIENT}" for g
    using assms that by (intro route_flag_get_set_other) (auto simp: route_flag_defs)
  then show ?thesis by (simp add: same_route_def)
qed

lemma same_route_rank [simp]: "same_route r (r\<lparr>rank := k\<rparr>)"
  by (simp add: same_route_def route_flag_get_def)

lemma same_route_reset [simp]: "same_route r (reset_flags r)"
  unfolding reset_flags_def by (rule same_route_trans [of _ "route_flag_set ROUTE_FLAG_DP_IGP False r"]) simp_all

text \<open>The Adj-RIBs-In of a router keep their invariant; a router whose Adj-RIBs-In hold the same routes, up to
  the marks of those for one prefix.\<close>

definition adj_ribs_ok :: "('r \<Rightarrow> bool) \<Rightarrow> ('t, 'r) bgp_router \<Rightarrow> bool" where
  "adj_ribs_ok rinv router \<longleftrightarrow> (\<forall>a pr. bgp_router_find_peer router a = Some pr \<longrightarrow> rinv (adj_rib_in pr))"

definition adj_marked ::
    "('t, 'r, 'z) bgp_env_scheme \<Rightarrow> ('r \<Rightarrow> bool) \<Rightarrow> ip_pfx \<Rightarrow> ('t, 'r) bgp_router \<Rightarrow> ('t, 'r) bgp_router \<Rightarrow> bool" where
  "adj_marked env rinv p router router' \<longleftrightarrow>
     adj_in_only router router' \<and> (adj_ribs_ok rinv router \<longrightarrow> adj_ribs_ok rinv router'
       \<and> (\<forall>a q. rel_option same_route (adj_find env router a q) (adj_find env router' a q)
            \<and> (pfx_norm q \<noteq> pfx_norm p \<longrightarrow> adj_find env router' a q = adj_find env router a q)))"

lemma adj_marked_refl [simp]: "adj_marked env rinv p router router"
  by (simp add: adj_marked_def option.rel_refl)

lemma adj_marked_trans:
  assumes "adj_marked env rinv p r1 r2" "adj_marked env rinv p r2 r3"
  shows "adj_marked env rinv p r1 r3"
proof -
  have tr: "rel_option same_route x z" if "rel_option same_route x y" "rel_option same_route y z" for x y z
    using that by (cases x; cases y; cases z) (auto intro: same_route_trans)
  from assms show ?thesis
    unfolding adj_marked_def by (metis adj_in_only_trans tr)
qed

lemma adj_marked_modify:
  assumes rib: "bgp_rib (rib_trie env) rinv" and p: "pfx_wf p" "pfx_norm p = pfx_norm p'"
    and f: "\<And>r. adj_find env router a p = Some r \<Longrightarrow> same_route r (f r)"
  shows "adj_marked env rinv p' router (adj_in_modify env a p f router)"
proof -
  let ?r' = "adj_in_modify env a p f router"
  have find: "bgp_router_find_peer ?r' b = map_option (\<lambda>pr. if b = a
      then pr\<lparr>adj_rib_in := rib_modify (rib_trie env) p f (adj_rib_in pr)\<rparr> else pr) (bgp_router_find_peer router b)" for b
    unfolding adj_in_modify_def by (rule find_peer_modify) simp
  have "adj_ribs_ok rinv ?r'" if ok: "adj_ribs_ok rinv router"
    unfolding adj_ribs_ok_def
  proof (intro allI impI)
    fix b pr assume "bgp_router_find_peer ?r' b = Some pr"
    then show "rinv (adj_rib_in pr)"
      using ok bgp_rib.rib_modify_effect(1) [OF rib _ p(1)] by (auto simp: find adj_ribs_ok_def split: if_splits)
  qed
  moreover have "rel_option same_route (adj_find env router b q) (adj_find env ?r' b q)
      \<and> (pfx_norm q \<noteq> pfx_norm p' \<longrightarrow> adj_find env ?r' b q = adj_find env router b q)"
    if ok: "adj_ribs_ok rinv router" for b q
  proof (cases "bgp_router_find_peer router b")
    case None
    then show ?thesis by (simp add: adj_find_def find)
  next
    case (Some pr)
    then have "rinv (adj_rib_in pr)" using ok by (simp add: adj_ribs_ok_def)
    note eff = bgp_rib.rib_modify_effect(2) [OF rib this p(1), of f q] and norm = bgp_rib.rib_find_norm [OF rib this, of q p]
    show ?thesis
    proof (cases "b = a \<and> pfx_norm q = pfx_norm p")
      case True
      have "rel_option same_route x (map_option f x)" if "x = adj_find env router a p" for x
        using f that [symmetric] by (cases x) auto
      with True Some p(2) show ?thesis by (simp add: adj_find_def find eff norm)
    next
      case False
      with Some show ?thesis by (auto simp: adj_find_def find eff option.rel_refl)
    qed
  qed
  ultimately show ?thesis by (simp add: adj_marked_def)
qed

text \<open>A route for a prefix, up to the bits beyond the mask.\<close>

definition route_at :: "ip_pfx \<Rightarrow> bgp_route \<Rightarrow> bool" where
  "route_at p r \<longleftrightarrow> pfx_wf (pfx r) \<and> pfx_norm (pfx r) = pfx_norm p"

lemma route_at_flag [simp]: "route_at p (route_flag_set f b r) = route_at p r"
  by (simp add: route_at_def)

lemma adj_marked_candidates:
  assumes rib: "bgp_rib (rib_trie env) rinv" and rs: "\<forall>r\<in>set rs. route_at p r" and f: "\<And>r. same_route r (f r)"
  shows "adj_marked env rinv p router (candidates_modify env f rs router)"
  using rs unfolding candidates_modify_def
proof (induction rs arbitrary: router)
  case (Cons r rs)
  have "adj_marked env rinv p router (candidate_modify env f r router)"
    using Cons.prems f adj_marked_modify [OF rib] by (auto simp: candidate_modify_def route_at_def split: option.split)
  with Cons show ?case by (auto intro: adj_marked_trans)
qed simp

text \<open>What a mark written through a list of candidates does to the Adj-RIBs-In.\<close>

lemma adj_in_modify_find:
  assumes rib: "bgp_rib (rib_trie env) rinv" and ok: "adj_ribs_ok rinv router" and p: "pfx_wf p"
  shows "adj_ribs_ok rinv (adj_in_modify env a p f router)"
    and "adj_find env (adj_in_modify env a p f router) b q
       = (if b = a \<and> pfx_norm q = pfx_norm p then map_option f (adj_find env router b q) else adj_find env router b q)"
proof -
  let ?r' = "adj_in_modify env a p f router"
  have find: "bgp_router_find_peer ?r' b = map_option (\<lambda>pr. if b = a
      then pr\<lparr>adj_rib_in := rib_modify (rib_trie env) p f (adj_rib_in pr)\<rparr> else pr) (bgp_router_find_peer router b)" for b
    unfolding adj_in_modify_def by (rule find_peer_modify) simp
  have rinv: "rinv (adj_rib_in pr)" if "bgp_router_find_peer router b = Some pr" for b pr
    using ok that by (simp add: adj_ribs_ok_def)
  show "adj_ribs_ok rinv ?r'"
    unfolding adj_ribs_ok_def using rinv bgp_rib.rib_modify_effect(1) [OF rib _ p] by (auto simp: find split: if_splits)
  show "adj_find env ?r' b q
       = (if b = a \<and> pfx_norm q = pfx_norm p then map_option f (adj_find env router b q) else adj_find env router b q)"
    using bgp_rib.rib_modify_effect(2) [OF rib rinv p, of b _ f q] bgp_rib.rib_find_norm [OF rib rinv, of b _ q p]
    by (cases "bgp_router_find_peer router b") (auto simp: adj_find_def find)
qed

lemma candidates_modify_find:
  assumes rib: "bgp_rib (rib_trie env) rinv" and f: "\<And>r. f (f r) = f r"
  shows "adj_ribs_ok rinv router \<Longrightarrow> \<forall>r\<in>set rs. pfx_wf (pfx r) \<Longrightarrow>
      adj_find env (candidates_modify env f rs router) a q
      = (if \<exists>r\<in>set rs. peer r = Some a \<and> pfx_norm (pfx r) = pfx_norm q
         then map_option f (adj_find env router a q) else adj_find env router a q)"
  unfolding candidates_modify_def
proof (induction rs arbitrary: router)
  case (Cons r rs)
  have "pfx_wf (pfx r)" using Cons.prems(2) by simp
  note step = adj_in_modify_find [OF rib Cons.prems(1) this]
  have idem: "map_option f (map_option f x) = map_option f x" for x by (cases x) (simp_all add: f)
  show ?case
  proof (cases "peer r")
    case None
    then show ?thesis using Cons by (simp add: candidate_modify_def)
  next
    case (Some b)
    then show ?thesis
      using Cons.IH [OF step(1) [of b f]] Cons.prems(2) by (auto simp: candidate_modify_def step(2) idem)
  qed
qed simp

section \<open>The candidates of a prefix\<close>

text \<open>The specification of \<open>bgp_router_get_feasible_routes\<close>: the eligible routes of the established peers
  whose next hop is reachable, in the order of the peers.\<close>

definition reachable :: "('t, 'r, 'z) bgp_env_scheme \<Rightarrow> ('t, 'r) bgp_router \<Rightarrow> net_addr \<Rightarrow> bool" where
  "reachable env router nh \<longleftrightarrow>
     (case rt_find_best (rtenv env) (node_rt (node router)) nh NET_ROUTE_ANY of Some (Some _) \<Rightarrow> True | _ \<Rightarrow> False)"

definition feasible_at ::
    "('t, 'r, 'z) bgp_env_scheme \<Rightarrow> ('t, 'r) bgp_router \<Rightarrow> ip_pfx \<Rightarrow> net_addr \<Rightarrow> bgp_route option" where
  "feasible_at env router p a = do {
     pr \<leftarrow> bgp_router_find_peer router a;
     r \<leftarrow> adj_find env router a p;
     if session_state pr = SESSION_STATE_ESTABLISHED \<and> route_flag_get r ROUTE_FLAG_ELIGIBLE
        \<and> reachable env router (next_hop (attr r))
     then Some r else None
   }"

definition feasible_routes ::
    "('t, 'r, 'z) bgp_env_scheme \<Rightarrow> ('t, 'r) bgp_router \<Rightarrow> ip_pfx \<Rightarrow> bgp_routes" where
  "feasible_routes env router p = List.map_filter (feasible_at env router p) (map p_addr (peers router))"

lemma map_filter_rel: "(\<And>x. rel_option R (f x) (g x)) \<Longrightarrow> list_all2 R (List.map_filter f xs) (List.map_filter g xs)"
proof (induction xs)
  case (Cons x xs)
  from Cons.prems [of x] Cons.IH [OF Cons.prems] show ?case
    by (cases "f x"; cases "g x") (auto simp: map_filter_simps)
qed (simp add: map_filter_simps)

lemma feasible_at_marked:
  assumes "adj_marked env rinv p' router router'" "adj_ribs_ok rinv router"
  shows "rel_option same_route (feasible_at env router p a) (feasible_at env router' p a)"
proof -
  have only: "adj_in_only router router'"
    and find: "rel_option same_route (adj_find env router a p) (adj_find env router' a p)"
    using assms by (auto simp: adj_marked_def)
  have "node router' = node router" using only by (auto simp: adj_in_only_def)
  then have reach: "reachable env router' = reachable env router"
    by (simp add: reachable_def fun_eq_iff)
  have pr: "rel_option (\<lambda>p p'. session_state p' = session_state p)
      (bgp_router_find_peer router a) (bgp_router_find_peer router' a)"
    by (rule option.rel_mono_strong [OF adj_in_only_find [OF only]]) auto
  show ?thesis
    using find pr
    by (cases "bgp_router_find_peer router a"; cases "bgp_router_find_peer router' a";
        cases "adj_find env router a p"; cases "adj_find env router' a p")
      (auto simp: feasible_at_def reach same_route_def)
qed

lemma feasible_route_eq:
  assumes "\<And>nh. rt_find_best (rtenv env) (node_rt (node router)) nh NET_ROUTE_ANY \<noteq> None"
  shows "bgp_router_feasible_route env router r
       = Some (reachable env router (next_hop (attr r)),
           route_flag_set ROUTE_FLAG_FEASIBLE (reachable env router (next_hop (attr r))) r)"
proof -
  obtain x where "rt_find_best (rtenv env) (node_rt (node router)) (next_hop (attr r)) NET_ROUTE_ANY = Some x"
    using assms by blast
  then show ?thesis
    by (cases x) (simp_all add: bgp_router_feasible_route_def node_rt_lookup_def reachable_def)
qed

lemma get_feasible_loop_eq:
  assumes rib: "bgp_rib (rib_trie env) rinv" and p: "pfx_wf p"
  shows "adj_ribs_ok rinv router \<Longrightarrow> \<forall>a\<in>set as. bgp_router_find_peer router a \<noteq> None
    \<Longrightarrow> (\<And>nh. rt_find_best (rtenv env) (node_rt (node router)) nh NET_ROUTE_ANY \<noteq> None)
    \<Longrightarrow> \<exists>router' rs. get_feasible_loop env p as routes router = Some (router', routes @ rs)
      \<and> adj_marked env rinv p router router'
      \<and> list_all2 same_route (List.map_filter (feasible_at env router p) as) rs"
proof (induction as arbitrary: routes router)
  case (Cons a as)
  obtain pr where pr: "bgp_router_find_peer router a = Some pr" using Cons.prems(2) by auto
  note feas = feasible_route_eq [OF Cons.prems(3)]
  show ?case
  proof (cases "session_state pr = SESSION_STATE_ESTABLISHED \<and> (\<exists>r. adj_find env router a p = Some r
      \<and> route_flag_get r ROUTE_FLAG_ELIGIBLE)")
    case False
    then have "get_feasible_loop env p (a # as) routes router = get_feasible_loop env p as routes router"
      "feasible_at env router p a = None"
      using pr
      by (cases "rib_find_exact (rib_trie env) (adj_rib_in pr) p"; auto simp: adj_find_def feasible_at_def)+
    with Cons.IH [of router routes] Cons.prems show ?thesis by (simp add: map_filter_simps)
  next
    case True
    then obtain r where r: "adj_find env router a p = Some r" "route_flag_get r ROUTE_FLAG_ELIGIBLE" by blast
    let ?ok = "reachable env router (next_hop (attr r))"
    let ?r' = "route_flag_set ROUTE_FLAG_FEASIBLE ?ok r"
    let ?router = "adj_in_modify env a p (\<lambda>_. ?r') router"
    have marked: "adj_marked env rinv p router ?router"
      using r by (intro adj_marked_modify [OF rib p]) simp_all
    then have only: "adj_in_only router ?router" and ok: "adj_ribs_ok rinv ?router"
      using Cons.prems(1) by (auto simp: adj_marked_def)
    have node: "node ?router = node router" using only by (auto simp: adj_in_only_def)
    have "\<forall>b\<in>set as. bgp_router_find_peer ?router b \<noteq> None"
    proof
      fix b assume "b \<in> set as"
      then show "bgp_router_find_peer ?router b \<noteq> None"
        using Cons.prems(2) adj_in_only_find [OF only, of b] by (auto simp: rel_option_iff split: option.splits)
    qed
    from Cons.IH [OF ok this, of "if ?ok then routes @ [?r'] else routes"] Cons.prems(3) node
    obtain router' rs where step: "get_feasible_loop env p as (if ?ok then routes @ [?r'] else routes) ?router
        = Some (router', (if ?ok then routes @ [?r'] else routes) @ rs)"
      and m: "adj_marked env rinv p ?router router'"
      and rs: "list_all2 same_route (List.map_filter (feasible_at env ?router p) as) rs" by auto
    have loop: "get_feasible_loop env p (a # as) routes router
        = Some (router', routes @ (if ?ok then ?r' # rs else rs))"
      using pr r True step by (auto simp: adj_find_def feas routes_list_append_def)
    have "list_all2 same_route (List.map_filter (feasible_at env router p) as) rs"
      by (rule list_all2_trans [OF same_route_trans map_filter_rel [OF feasible_at_marked [OF marked Cons.prems(1)]] rs])
    moreover have "feasible_at env router p a = (if ?ok then Some r else None)"
      using pr r True by (simp add: feasible_at_def)
    ultimately have "list_all2 same_route (List.map_filter (feasible_at env router p) (a # as))
        (if ?ok then ?r' # rs else rs)"
      by (simp add: map_filter_simps)
    with loop adj_marked_trans [OF marked m] show ?thesis by blast
  qed
qed (simp add: map_filter_simps)

section \<open>The selection\<close>

text \<open>The criteria do not read the flags the process changes.\<close>

definition flag_blind :: "(bgp_routes \<Rightarrow> bgp_routes) \<Rightarrow> bool" where
  "flag_blind c \<longleftrightarrow> (\<forall>rs rs'. list_all2 same_route rs rs' \<longrightarrow> list_all2 same_route (c rs) (c rs'))"

lemma list_all2_filter:
  "list_all2 R xs ys \<Longrightarrow> (\<And>x y. R x y \<Longrightarrow> P x = Q y) \<Longrightarrow> list_all2 R (filter P xs) (filter Q ys)"
  by (induction rule: list_all2_induct) auto

lemma list_all2_keys:
  "list_all2 R xs ys \<Longrightarrow> (\<And>x y. R x y \<Longrightarrow> key x = key y) \<Longrightarrow> key ` set xs = key ` set ys"
  by (induction rule: list_all2_induct) auto

lemma flag_blind_keep:
  assumes "\<And>r s. same_route r s \<Longrightarrow> key r = key s"
  shows "flag_blind (keep_min key)" "flag_blind (keep_max key)"
proof -
  have "list_all2 same_route (keep_min key rs) (keep_min key rs') \<and> list_all2 same_route (keep_max key rs) (keep_max key rs')"
    if rel: "list_all2 same_route rs rs'" for rs rs'
  proof -
    have keys: "key ` set rs = key ` set rs'" using rel assms by (rule list_all2_keys)
    have min: "keep_min key rs = filter (\<lambda>x. \<forall>k\<in>key ` set rs. key x \<le> k) rs"
      and max: "keep_max key rs = filter (\<lambda>x. \<forall>k\<in>key ` set rs. k \<le> key x) rs" for rs
      by (simp_all add: keep_min_def keep_max_def)
    have "list_all2 same_route (filter (\<lambda>x. \<forall>k\<in>K. key x \<le> k) rs) (filter (\<lambda>x. \<forall>k\<in>K. key x \<le> k) rs')"
      "list_all2 same_route (filter (\<lambda>x. \<forall>k\<in>K. k \<le> key x) rs) (filter (\<lambda>x. \<forall>k\<in>K. k \<le> key x) rs')" for K
      by (rule list_all2_filter [OF rel], simp add: assms)+
    with keys show ?thesis by (simp only: min max)
  qed
  then show "flag_blind (keep_min key)" "flag_blind (keep_max key)" by (auto simp: flag_blind_def)
qed

lemma flag_blind_keep_med: "flag_blind (keep_med t)"
proof -
  have keys: "route_path_last_as s = route_path_last_as r" "route_med_get s = route_med_get r"
    if "same_route r s" for r s
    using that by (simp_all add: same_route_def route_path_last_as_def route_med_get_def)
  let ?key = "\<lambda>r. (route_path_last_as r, route_med_get r)"
  let ?P = "\<lambda>K r. \<forall>k\<in>K. t = BGP_MED_TYPE_ALWAYS_COMPARE \<or> fst k = route_path_last_as r \<longrightarrow> route_med_get r \<le> snd k"
  have med: "keep_med t rs = filter (?P (?key ` set rs)) rs" for rs
    unfolding keep_med_def by (rule filter_cong) auto
  have "list_all2 same_route (keep_med t rs) (keep_med t rs')" if rel: "list_all2 same_route rs rs'" for rs rs'
  proof -
    have "?key ` set rs = ?key ` set rs'" by (rule list_all2_keys [OF rel]) (simp add: keys)
    moreover have "list_all2 same_route (filter (?P K) rs) (filter (?P K) rs')" for K
      by (rule list_all2_filter [OF rel]) (simp add: keys)
    ultimately show ?thesis by (simp only: med)
  qed
  then show ?thesis by (auto simp: flag_blind_def)
qed

lemma same_route_mark: "same_route r s \<Longrightarrow> same_route (mark_igp r) (mark_igp s)"
proof -
  assume rs: "same_route r s"
  have "route_flag_get (mark_igp t) g = route_flag_get t g"
    if "g \<in> {ROUTE_FLAG_ELIGIBLE, ROUTE_FLAG_INTERNAL, ROUTE_FLAG_RR_CLIENT}" for g t
    using that by (intro route_flag_get_set_other) (auto simp: route_flag_defs)
  with rs show ?thesis by (auto simp: same_route_def)
qed

lemma dp_criteria_flag_blind: "list_all flag_blind (dp_criteria env router)"
proof -
  have deref: "route_peer_deref router r = route_peer_deref router s" if "same_route r s" for r s
    using that by (simp add: same_route_def route_peer_deref_def)
  have keys: "path_len r = path_len s" "route_localpref_get r = route_localpref_get s"
      "route_get_origin r = route_get_origin s" "cluster_len r = cluster_len s"
      "dp_rule_router_id router r = dp_rule_router_id router s" "next_hop (attr r) = next_hop (attr s)"
    if "same_route r s" for r s
    using that deref [OF that]
    by (auto simp: same_route_def route_path_length_def route_localpref_get_def route_get_origin_def
        dp_rule_router_id_def route_originator_get_def split: option.split)
  have "flag_blind (\<lambda>rs. keep_min (\<lambda>r. the (dp_rule_igp_cost env router (next_hop (attr r)))) (map mark_igp rs))"
    unfolding flag_blind_def
  proof (intro allI impI)
    fix rs rs' assume "list_all2 same_route rs rs'"
    then have "list_all2 same_route (map mark_igp rs) (map mark_igp rs')"
      by (auto simp: list_all2_map1 list_all2_map2 intro: list_all2_mono same_route_mark)
    moreover have "flag_blind (keep_min (\<lambda>r. the (dp_rule_igp_cost env router (next_hop (attr r)))))"
      by (rule flag_blind_keep(1)) (simp add: keys)
    ultimately show "list_all2 same_route (keep_min (\<lambda>r. the (dp_rule_igp_cost env router (next_hop (attr r)))) (map mark_igp rs))
        (keep_min (\<lambda>r. the (dp_rule_igp_cost env router (next_hop (attr r)))) (map mark_igp rs'))"
      by (simp add: flag_blind_def)
  qed
  then show ?thesis
    unfolding dp_criteria_def list.pred_inject
    by (intro conjI TrueI flag_blind_keep flag_blind_keep_med; simp add: keys deref; fail)
qed

lemma dp_select_flag_blind:
  assumes "list_all flag_blind cs" "list_all2 same_route rs rs'"
  shows "fst (dp_select cs i rs) = fst (dp_select cs i rs')
    \<and> list_all2 same_route (snd (dp_select cs i rs)) (snd (dp_select cs i rs'))"
  using assms
proof (induction cs arbitrary: i rs rs')
  case (Cons c cs)
  then have "length rs = length rs'" "list_all2 same_route (c rs) (c rs')"
    by (simp_all add: list_all2_lengthD flag_blind_def)
  with Cons show ?case by simp
qed simp

lemma dp_criteria_adj_in:
  assumes "adj_in_only router router'"
  shows "dp_criteria env router' = dp_criteria env router"
proof -
  note d = adj_in_only_deref [OF assms] and k = adj_in_only_keys [OF assms]
  have the_f: "f (the (route_peer_deref router' r)) = f (the (route_peer_deref router r))"
    if "map_option f (route_peer_deref router' r) = map_option f (route_peer_deref router r)" for f r
    using that d(1) [of r] by (cases "route_peer_deref router r"; cases "route_peer_deref router' r") auto
  have "p_asn (the (route_peer_deref router' r)) = p_asn (the (route_peer_deref router r))"
    "p_addr (the (route_peer_deref router' r)) = p_addr (the (route_peer_deref router r))" for r
    by (rule the_f [OF d(2)]) (rule the_f [OF d(3)])
  then show ?thesis by (simp add: dp_criteria_def d k)
qed

text \<open>The specification of the whole selection.\<close>

definition dp_best :: "('t, 'r, 'z) bgp_env_scheme \<Rightarrow> ('t, 'r) bgp_router \<Rightarrow> ip_pfx \<Rightarrow> bgp_route option" where
  "dp_best env router p =
     (case snd (dp_select (dp_criteria env router) 0 (feasible_routes env router p)) of
        [] \<Rightarrow> None
      | b # _ \<Rightarrow> Some b)"

section \<open>The invariant\<close>

text \<open>A route of an Adj-RIB-In: it was received from that peer, is not a local route, and is one the rules
  can handle (at most 255 hops and cluster identifiers).\<close>

definition adj_route_ok :: "'e attr_env_scheme \<Rightarrow> net_addr \<Rightarrow> ip_pfx \<Rightarrow> bgp_route \<Rightarrow> bool" where
  "adj_route_ok env a p r \<longleftrightarrow>
     peer r = Some a \<and> pfx_norm (pfx r) = pfx_norm p \<and> route_wf env r \<and> ecomms (attr r) = None
   \<and> \<not> route_flag_get r ROUTE_FLAG_INTERNAL
   \<and> route_path_length r \<noteq> None \<and> path_len r \<le> 255 \<and> route_path_last_as r \<noteq> None \<and> cluster_len r \<le> 255"

text \<open>A route of the Loc-RIB that is not local was received from a peer of the router and is installed in
  the routing table of the node; a local one has neither peer nor originator.\<close>

definition loc_route_ok ::
    "('t, 'r, 'z) bgp_env_scheme \<Rightarrow> ('t, 'r) bgp_router \<Rightarrow> ip_pfx \<Rightarrow> bgp_route \<Rightarrow> bool" where
  "loc_route_ok env router p r \<longleftrightarrow>
     pfx_norm (pfx r) = pfx_norm p \<and> route_wf env r \<and> ecomms (attr r) = None
   \<and> (route_flag_get r ROUTE_FLAG_INTERNAL \<longrightarrow> peer r = None \<and> originator (attr r) = None)
   \<and> (\<not> route_flag_get r ROUTE_FLAG_INTERNAL \<longrightarrow>
        (\<exists>a. peer r = Some a \<and> bgp_router_find_peer router a \<noteq> None)
      \<and> (\<exists>i\<in>set (rt_routes (rtenv env) (node_rt (node router)) p). rt_type i = NET_ROUTE_BGP
            \<and> map gateway (entries i) = [next_hop (attr r)]))"

definition adj_ok :: "('t, 'r, 'z) bgp_env_scheme \<Rightarrow> ('r \<Rightarrow> bool) \<Rightarrow> ('t, 'r) bgp_router \<Rightarrow> bool" where
  "adj_ok env rinv router \<longleftrightarrow>
     adj_ribs_ok rinv router \<and> (\<forall>a p r. adj_find env router a p = Some r \<longrightarrow> adj_route_ok env a p r)"

definition loc_ok :: "('t, 'r, 'z) bgp_env_scheme \<Rightarrow> ('r \<Rightarrow> bool) \<Rightarrow> ('t, 'r) bgp_router \<Rightarrow> bool" where
  "loc_ok env rinv router \<longleftrightarrow>
     rinv (loc_rib router) \<and> (\<forall>p r. pfx_wf p \<and> loc_find env router p = Some r \<longrightarrow> loc_route_ok env router p r)"

text \<open>A filter that handles every route: it does not stop the process and leaves a well-formed AS-Path.\<close>

definition filter_total :: "('t, 'r, 'z) bgp_env_scheme \<Rightarrow> filter_ref option \<Rightarrow> bool" where
  "filter_total env f \<longleftrightarrow>
     (\<forall>fr r. route_wf env r \<and> ecomms (attr r) = None \<longrightarrow>
       (\<exists>b r'. filter_apply env f fr r = Some (b, r') \<and> path_ref_wf (path_ref (attr r'))))"

text \<open>A filter that keeps routes such that the rules can handle them.\<close>

definition route_handled :: "'e attr_env_scheme \<Rightarrow> bgp_route \<Rightarrow> bool" where
  "route_handled env r \<longleftrightarrow> route_wf env r \<and> ecomms (attr r) = None
     \<and> route_path_length r \<noteq> None \<and> path_len r \<le> 255 \<and> route_path_last_as r \<noteq> None \<and> cluster_len r \<le> 255"

definition filter_keeps :: "('t, 'r, 'z) bgp_env_scheme \<Rightarrow> filter_ref option \<Rightarrow> bool" where
  "filter_keeps env f \<longleftrightarrow>
     (\<forall>fr r. route_handled env r \<longrightarrow> (\<exists>b r'. filter_apply env f fr r = Some (b, r') \<and> route_handled env r'))"

definition peer_filters_ok :: "('t, 'r, 'z) bgp_env_scheme \<Rightarrow> 'r bgp_peer \<Rightarrow> bool" where
  "peer_filters_ok env pr \<longleftrightarrow> filter_total env (filter_out pr) \<and> filter_keeps env (filter_in pr)"

definition router_ok ::
    "('t, 'r, 'z) bgp_env_scheme \<Rightarrow> ('r \<Rightarrow> bool) \<Rightarrow> ('t \<Rightarrow> bool) \<Rightarrow> ('t, 'r) bgp_router \<Rightarrow> bool" where
  "router_ok env rinv tinv router \<longleftrightarrow>
     distinct (map p_addr (peers router)) \<and> adj_ok env rinv router \<and> loc_ok env rinv router
   \<and> rib_out_ok env rinv router
   \<and> tinv (node_rt (node router)) \<and> rt_inv (rtenv env) (node_rt (node router))
   \<and> (\<forall>a pr. bgp_router_find_peer router a = Some pr \<longrightarrow> peer_filters_ok env pr)"

text \<open>What the router assumes of its environment.\<close>

locale bgp_environment =
  rib: bgp_rib "rib_trie env" rinv + rt: routing_table "rtenv env" tinv + attrs: attr_repository env
  for env :: "('t, 'r, 'z) bgp_env_scheme" and rinv :: "'r \<Rightarrow> bool" and tinv :: "'t \<Rightarrow> bool" +
  assumes entries_add_empty: "entries_add (rtenv env) [] e = Some [e]"

lemma find_peer_in: "pr \<in> set (peers router) \<Longrightarrow> bgp_router_find_peer router (p_addr pr) \<noteq> None"
  by (auto simp: bgp_router_find_peer_def bgp_peers_find_def find_None_iff)

lemma same_route_ok: "same_route r s \<Longrightarrow> adj_route_ok env a p s = adj_route_ok env a p r"
  by (auto simp: same_route_def adj_route_ok_def route_wf_def route_path_length_def route_path_last_as_def)

lemma adj_ok_marked: "adj_ok env rinv router \<Longrightarrow> adj_marked env rinv p' router router' \<Longrightarrow> adj_ok env rinv router'"
proof -
  assume ok: "adj_ok env rinv router" and m: "adj_marked env rinv p' router router'"
  have "adj_route_ok env a p s" if s: "adj_find env router' a p = Some s" for a p s
  proof -
    have "rel_option same_route (adj_find env router a p) (adj_find env router' a p)"
      using ok m unfolding adj_ok_def adj_marked_def by blast
    then obtain r where "adj_find env router a p = Some r" "same_route r s"
      using s by (cases "adj_find env router a p") auto
    with ok show ?thesis by (simp add: adj_ok_def same_route_ok)
  qed
  with ok m show ?thesis unfolding adj_ok_def adj_marked_def by blast
qed

lemma feasible_routes_peers:
  assumes "adj_ok env rinv router" "distinct (map p_addr (peers router))"
  shows "distinct (map peer (feasible_routes env router p))"
proof -
  have peer: "peer r = Some a" if "feasible_at env router p a = Some r" for a r
    using that assms(1) by (auto simp: feasible_at_def adj_ok_def adj_route_ok_def elim!: bind_SomeE split: if_splits)
  have "map peer (List.map_filter (feasible_at env router p) as)
      = map Some (filter (\<lambda>a. feasible_at env router p a \<noteq> None) as)" for as
    by (induction as) (auto simp: map_filter_simps peer split: option.split)
  with assms(2) show ?thesis by (simp add: feasible_routes_def distinct_map)
qed

lemma feasible_routes_in:
  assumes "r \<in> set (feasible_routes env router p)"
  obtains a where "adj_find env router a p = Some r" "bgp_router_find_peer router a \<noteq> None"
    "reachable env router (next_hop (attr r))" "route_flag_get r ROUTE_FLAG_ELIGIBLE"
  using assms
  by (force simp: feasible_routes_def List.map_filter_def feasible_at_def elim!: bind_SomeE split: if_splits)

lemma feasible_candidate:
  assumes "adj_ok env rinv router" "r \<in> set (feasible_routes env router p)"
  shows "dp_candidate env router r"
proof -
  obtain a where a: "adj_find env router a p = Some r" "bgp_router_find_peer router a \<noteq> None"
    "reachable env router (next_hop (attr r))" using assms(2) by (rule feasible_routes_in)
  then have "adj_route_ok env a p r" using assms(1) by (simp add: adj_ok_def)
  moreover have "dp_rule_igp_cost env router (next_hop (attr r)) \<noteq> None"
    using a(3) by (auto simp: reachable_def dp_rule_igp_cost_def split: option.splits)
  ultimately show ?thesis using a(2) by (simp add: dp_candidate_def adj_route_ok_def route_peer_deref_def)
qed

text \<open>The selection leaves at most one route, the one of the specification.\<close>

definition dp_winner :: "('t, 'r, 'z) bgp_env_scheme \<Rightarrow> ('t, 'r) bgp_router \<Rightarrow> ip_pfx \<Rightarrow> bgp_routes" where
  "dp_winner env router p = snd (dp_select (dp_criteria env router) 0 (feasible_routes env router p))"

lemma dp_winner_length:
  assumes "adj_ok env rinv router" "distinct (map p_addr (peers router))"
  shows "length (dp_winner env router p) \<le> 1"
  unfolding dp_winner_def using feasible_candidate [OF assms(1)] feasible_routes_peers [OF assms]
  by (intro dp_select_single) auto

lemma dp_winner_best:
  assumes "adj_ok env rinv router" "distinct (map p_addr (peers router))"
  shows "dp_winner env router p = (case dp_best env router p of None \<Rightarrow> [] | Some b \<Rightarrow> [b])"
  using dp_winner_length [OF assms, of p] by (cases "dp_winner env router p") (auto simp: dp_best_def dp_winner_def)

lemma candidate_same:
  assumes "adj_in_only router router'" "same_route r s" "dp_candidate env router r"
  shows "dp_candidate env router' s"
proof -
  have "dp_candidate env router s"
    using assms(2,3)
    by (auto simp: dp_candidate_def same_route_def route_path_length_def route_path_last_as_def route_peer_deref_def)
  then show ?thesis by (simp add: adj_in_only_keys(3) [OF assms(1)])
qed

lemma prepare_effect:
  assumes rib: "bgp_rib (rib_trie env) rinv" and rs: "\<forall>r\<in>set rs. route_at p r"
  obtains router' rs' where "prepare_candidates env rs router = (router', rs')"
    "adj_marked env rinv p router router'" "list_all2 same_route rs rs'"
proof -
  let ?r1 = "candidates_modify env reset_flags rs router" and ?rs1 = "map reset_flags rs"
  have 1: "adj_marked env rinv p router ?r1" using adj_marked_candidates [OF rib rs] by simp
  have pfx: "\<forall>r\<in>set ?rs1. route_at p r" using rs by (simp add: reset_flags_def)
  have 2: "adj_marked env rinv p ?r1 (candidates_modify env mark_igp ?rs1 ?r1)"
    using adj_marked_candidates [OF rib pfx] by simp
  have rs1: "list_all2 same_route rs ?rs1" by (simp add: list_all2_map2 list_all2_refl)
  moreover have "list_all2 same_route rs (map mark_igp ?rs1)"
    by (simp add: list_all2_map2 list_all2_map1)
      (auto intro!: list_all2_refl intro: same_route_trans [OF same_route_reset])
  ultimately show thesis
    using that [of ?r1 ?rs1] that [of "candidates_modify env mark_igp ?rs1 ?r1" "map mark_igp ?rs1"]
      1 adj_marked_trans [OF 1 2]
    by (cases "length rs = 1") (simp_all add: prepare_candidates_def Let_def)
qed

lemma same_route_at: "same_route r s \<Longrightarrow> route_at p s = route_at p r"
  by (simp add: same_route_def route_at_def)

lemma list_all2_route_at:
  "list_all2 same_route rs rs' \<Longrightarrow> \<forall>r\<in>set rs. route_at p r \<Longrightarrow> \<forall>r\<in>set rs'. route_at p r"
  by (induction rule: list_all2_induct) (auto simp: same_route_at)

lemma list_all2_peers: "list_all2 same_route rs rs' \<Longrightarrow> map peer rs' = map peer rs"
  by (induction rule: list_all2_induct) (auto simp: same_route_def)

lemma list_all2_candidates:
  "list_all2 same_route rs rs' \<Longrightarrow> adj_in_only router router' \<Longrightarrow> \<forall>r\<in>set rs. dp_candidate env router r
    \<Longrightarrow> \<forall>r\<in>set rs'. dp_candidate env router' r"
  by (induction rule: list_all2_induct) (auto intro: candidate_same)

lemma run_effect:
  assumes rib: "bgp_rib (rib_trie env) rinv" and rs: "list_all2 same_route frs rs"
    and cand: "\<forall>r\<in>set frs. dp_candidate env router r" and dist: "distinct (map peer frs)"
    and wf: "\<forall>r\<in>set frs. route_at p r" and only: "adj_in_only router router1"
  obtains rank' router' rs' where
    "(if length rs > 1 then bgp_router_decision_process_run env router1 rs else Some (0, router1, rs)) = Some (rank', router', rs')"
    "adj_marked env rinv p router1 router'" "list_all2 same_route (snd (dp_select (dp_criteria env router) 0 frs)) rs'"
proof (cases "length rs > 1")
  case False
  then have "length frs \<le> 1" using rs by (simp add: list_all2_lengthD)
  then have "snd (dp_select (dp_criteria env router) 0 frs) = frs" by (simp add: dp_criteria_def)
  with False that rs show thesis by auto
next
  case True
  have "\<forall>r\<in>set rs. dp_candidate env router1 r" using list_all2_candidates [OF rs only cand] .
  moreover have "distinct (map peer rs)" using dist list_all2_peers [OF rs] by simp
  ultimately obtain S where run: "bgp_router_decision_process_run env router1 rs
      = Some (fst (dp_select (dp_criteria env router1) 0 rs), candidates_modify env mark_igp S router1,
          snd (dp_select (dp_criteria env router1) 0 rs))" "set S \<subseteq> set rs \<union> mark_igp ` set rs"
    by (rule dp_run_selects)
  have "\<forall>r\<in>set S. route_at p r" using run(2) list_all2_route_at [OF rs wf] by auto
  then have "adj_marked env rinv p router1 (candidates_modify env mark_igp S router1)"
    using adj_marked_candidates [OF rib] by simp
  with that run(1) True dp_select_flag_blind [OF dp_criteria_flag_blind rs, of env router 0]
  show thesis by (auto simp: dp_criteria_adj_in [OF only])
qed

context bgp_environment
begin

lemma lookup_total:
  "router_ok env rinv tinv router \<Longrightarrow> rt_find_best (rtenv env) (node_rt (node router)) nh NET_ROUTE_ANY \<noteq> None"
  using rt.find_best_total by (auto simp: router_ok_def)

lemma select_effect:
  assumes ok: "router_ok env rinv tinv router" and p: "pfx_wf p"
  obtains rank' router' rs where "decision_process_select env p router = Some (rank', router', rs)"
    "adj_marked env rinv p router router'" "list_all2 same_route (dp_winner env router p) rs"
proof -
  have aok: "adj_ok env rinv router" and dist: "distinct (map p_addr (peers router))"
    using ok by (auto simp: router_ok_def)
  let ?frs = "feasible_routes env router p"
  have cand: "\<forall>r\<in>set ?frs. dp_candidate env router r" using feasible_candidate [OF aok] by blast
  have wf: "\<forall>r\<in>set ?frs. route_at p r"
    using aok by (auto simp: adj_ok_def adj_route_ok_def route_wf_def route_at_def elim!: feasible_routes_in)
  have "adj_ribs_ok rinv router" "\<forall>a\<in>set (map p_addr (peers router)). bgp_router_find_peer router a \<noteq> None"
    using aok find_peer_in by (auto simp: adj_ok_def)
  from get_feasible_loop_eq [OF rib.bgp_rib_axioms p this lookup_total [OF ok], of "[]"]
  obtain router1 rs1 where get: "bgp_router_get_feasible_routes env p router = Some (router1, rs1)"
    and m1: "adj_marked env rinv p router router1" and rs1: "list_all2 same_route ?frs rs1"
    by (auto simp: bgp_router_get_feasible_routes_def feasible_routes_def)
  obtain router2 rs2 where prep: "prepare_candidates env rs1 router1 = (router2, rs2)"
    and m2: "adj_marked env rinv p router1 router2" and rs2: "list_all2 same_route rs1 rs2"
    using prepare_effect [OF rib.bgp_rib_axioms list_all2_route_at [OF rs1 wf]] .
  have m12: "adj_marked env rinv p router router2" using m1 m2 by (rule adj_marked_trans)
  then have only: "adj_in_only router router2" by (simp add: adj_marked_def)
  have rs12: "list_all2 same_route ?frs rs2" by (rule list_all2_trans [OF same_route_trans rs1 rs2])
  obtain rank' router3 rs3 where run: "(if length rs2 > 1 then bgp_router_decision_process_run env router2 rs2
      else Some (0, router2, rs2)) = Some (rank', router3, rs3)"
    and m3: "adj_marked env rinv p router2 router3" and rs3: "list_all2 same_route (dp_winner env router p) rs3"
    using run_effect [OF rib.bgp_rib_axioms rs12 cand feasible_routes_peers [OF aok dist] wf only]
    unfolding dp_winner_def .
  have "length rs3 \<le> 1" using dp_winner_length [OF aok dist, of p] list_all2_lengthD [OF rs3] by simp
  then have "decision_process_select env p router = Some (rank', router3, rs3)"
    using get prep run by (simp add: decision_process_select_def)
  then show thesis using adj_marked_trans [OF m12 m3] rs3 by (rule that)
qed

end

section \<open>Dissemination does not stop the process\<close>

lemma matrix_total:
  assumes "src = None \<longrightarrow> originator (attr r) = None"
  shows "\<exists>m. redistribution_matrix router dst src r = Some m \<and> (\<forall>r1. m = Some r1 \<longrightarrow>
     pfx r1 = pfx r \<and> peer r1 = peer r \<and> path_ref (attr r1) = path_ref (attr r)
     \<and> comms (attr r1) = comms (attr r) \<and> ecomms (attr r1) = ecomms (attr r))"
proof -
  have app: "route_cluster_list_append c s = Some (s\<lparr>attr := (attr s)\<lparr>cluster_list :=
      Some ((case cluster_list (attr s) of None \<Rightarrow> [] | Some cl \<Rightarrow> cl) @ [c])\<rparr>\<rparr>)" for c s
    by (cases "cluster_list (attr s)")
      (simp_all add: route_cluster_list_append_def route_cluster_list_set_def cluster_list_append_def)
  show ?thesis
  proof (cases src)
    case None
    with assms show ?thesis
      by (simp add: redistribution_matrix_def location_of_def route_originator_set_def
          route_cluster_list_clear_def route_originator_clear_def bgp_attr_originator_destroy_def
          bgp_attr_cluster_list_destroy_def)
  next
    case (Some s)
    then show ?thesis
      by (cases "originator (attr r)")
        (simp_all add: redistribution_matrix_def location_of_def route_originator_set_def app
          route_originator_get_def route_cluster_list_clear_def route_originator_clear_def
          bgp_attr_originator_destroy_def bgp_attr_cluster_list_destroy_def)
  qed
qed

text \<open>A route that can be advertised: well formed, without extended communities, and either received from a
  peer of the router or local and without originator.\<close>

definition route_sendable :: "('t, 'r, 'z) bgp_env_scheme \<Rightarrow> ('t, 'r) bgp_router \<Rightarrow> bgp_route \<Rightarrow> bool" where
  "route_sendable env router r \<longleftrightarrow>
     route_wf env r \<and> ecomms (attr r) = None
   \<and> (case peer r of None \<Rightarrow> originator (attr r) = None | Some a \<Rightarrow> bgp_router_find_peer router a \<noteq> None)"

lemma update_total:
  assumes "attr_repository env" "path_ref_wf (path_ref (attr r))" "src \<noteq> None \<longrightarrow> route_peer_deref router r \<noteq> None"
  shows "redistribution_update env router dst src r \<noteq> None"
proof -
  define nh where "nh = (if p_next_hop dst \<noteq> NET_ADDR_ANY then p_next_hop dst else rid router)"
  have prep: "\<exists>x. route_path_prepend env (r_asn router) 1 (route_set_nexthop nh r) = Some x"
    using attr_repository.prepend_effect [OF assms(1), of "attr (route_set_nexthop nh r)" "r_asn router" 1] assms(2)
    by (auto simp: route_path_prepend_def)
  show ?thesis
  proof (cases "location_of router (Some dst) = EXTERNAL")
    case True
    with prep show ?thesis by (auto simp: redistribution_update_def Let_def nh_def [symmetric])
  next
    case False
    then show ?thesis
      using assms(3) by (cases src) (auto simp: redistribution_update_def location_of_def split: if_splits)
  qed
qed

lemma advertised_total:
  assumes rep: "attr_repository env" and send: "route_sendable env router r" and flt: "filter_total env (filter_out dst)"
  shows "advertised_route env router dst r \<noteq> None"
proof -
  have wf: "route_wf env r" and ec: "ecomms (attr r) = None" using send by (auto simp: route_sendable_def)
  obtain src where src: "(case peer r of None \<Rightarrow> Some None | Some _ \<Rightarrow> map_option Some (route_peer_deref router r)) = Some src"
    and orig: "src = None \<longrightarrow> originator (attr r) = None" and deref: "src \<noteq> None \<longrightarrow> route_peer_deref router r \<noteq> None"
    using send by (cases "peer r") (auto simp: route_sendable_def route_peer_deref_def)
  let ?r0 = "r\<lparr>rank := 0\<rparr>"
  have copy: "route_copy env r = Some ?r0" using route_copy_interned [OF rep] wf by (simp add: route_wf_def)
  obtain m where m: "redistribution_matrix router dst src ?r0 = Some m" and r1: "\<And>r1. m = Some r1 \<Longrightarrow>
     pfx r1 = pfx r \<and> peer r1 = peer r \<and> path_ref (attr r1) = path_ref (attr r)
     \<and> comms (attr r1) = comms (attr r) \<and> ecomms (attr r1) = None"
    using matrix_total [of src ?r0 router dst] orig ec by auto
  have "advertised_rest env router dst src m \<noteq> None"
  proof (cases m)
    case (Some r1)
    note f = r1 [OF Some]
    let ?s = "if location_of router (Some dst) = EXTERNAL then route_med_clear (route_ecomm_strip_non_transitive r1)
         else route_ecomm_strip_non_transitive r1"
    have "route_wf env ?s \<and> ecomms (attr ?s) = None"
      using wf f
      by (simp add: route_wf_def interned_def route_med_clear_def route_ecomm_strip_non_transitive_def
          ecomms_strip_non_transitive_def)
    then obtain b s' where s': "filter_apply env (filter_out dst) (flt_router_of router) ?s = Some (b, s')"
      "path_ref_wf (path_ref (attr s'))" using flt unfolding filter_total_def by blast
    have "peer s' = peer r"
      using filter_apply_keeps [OF s'(1)] f
      by (auto simp: filter_frame_def route_med_clear_def route_ecomm_strip_non_transitive_def split: if_splits)
    then have "src \<noteq> None \<longrightarrow> route_peer_deref router s' \<noteq> None" using deref by (simp add: route_peer_deref_def)
    then have "redistribution_update env router dst src s' \<noteq> None" by (rule update_total [OF rep s'(2)])
    moreover have "advertised_rest env router dst src m = advertised_filter env router dst src r1"
      using f by (simp add: Some advertised_rest_def bgp_router_ecomm_process_def)
    ultimately show ?thesis using s'(1) by (simp add: advertised_filter_def Let_def)
  qed (simp add: advertised_rest_def)
  then show ?thesis using src copy m by (cases src) (simp_all add: advertised_route_def)
qed

lemma disseminate_to_peer_total:
  assumes rep: "attr_repository env" and find: "bgp_router_find_peer router a = Some pr"
    and flt: "filter_total env (filter_out pr)"
    and r: "\<And>r. route = Some r \<Longrightarrow> route_sendable env router r"
  shows "disseminate_to_peer env p route a router \<noteq> None"
proof -
  obtain rw where w: "explicit_withdraw env p a router = Some rw"
    using explicit_withdraw_effect [OF find, of env p] by blast
  show ?thesis
  proof (cases route)
    case None
    then show ?thesis using find w by (simp add: disseminate_to_peer_def)
  next
    case (Some s)
    let ?s = "s\<lparr>rank := 0\<rparr>"
    have send: "route_sendable env router s" using Some r by simp
    then have copy: "route_copy env s = Some ?s"
      using route_copy_interned [OF rep] by (simp add: route_sendable_def route_wf_def)
    have "route_sendable env router ?s" using send by (simp add: route_sendable_def route_wf_def split: option.splits)
    then obtain m where m: "advertised_route env router pr ?s = Some m"
      using advertised_total [OF rep _ flt] by blast
    have "bgp_router_advertise_to_peer env router a ?s = Some (-1, router)
        \<or> (\<exists>r1. bgp_router_advertise_to_peer env router a ?s = Some (0, r1))"
    proof (cases m)
      case (Some r')
      obtain x where "bgp_peer_send env a (bgp_msg_update_create (r_asn router) (route_peer_set (Some a) r')) router = Some x"
        using bgp_peer_send_effect [OF find] by blast
      with Some m find show ?thesis by (simp add: bgp_router_advertise_to_peer_def bgp_peer_announce_route_def)
    qed (use m find in \<open>simp add: bgp_router_advertise_to_peer_def\<close>)
    then show ?thesis using Some find copy w by (auto simp: disseminate_to_peer_def)
  qed
qed

lemma out_only_sendable: "out_only router router' \<Longrightarrow> route_sendable env router' r = route_sendable env router r"
  using out_only_find [of router router' "the (peer r)"]
  by (auto simp: route_sendable_def rel_option_iff split: option.splits)

lemma disseminate_loop_total:
  assumes rib: "bgp_rib (rib_trie env) rinv" and rep: "attr_repository env" and p: "pfx_wf p"
    and route: "\<And>r. route = Some r \<Longrightarrow> pfx_wf (pfx r) \<and> pfx_norm (pfx r) = pfx_norm p"
  shows "rib_out_ok env rinv router \<Longrightarrow> (\<And>r. route = Some r \<Longrightarrow> route_sendable env router r)
    \<Longrightarrow> \<forall>a\<in>set as. \<exists>pr. bgp_router_find_peer router a = Some pr \<and> filter_total env (filter_out pr)
    \<Longrightarrow> \<exists>router'. disseminate_loop env p route as router = Some router'"
proof (induction as arbitrary: router)
  case (Cons a as)
  obtain pr where pr: "bgp_router_find_peer router a = Some pr" "filter_total env (filter_out pr)"
    using Cons.prems(3) by auto
  obtain router1 where r1: "(if bgp_peer_send_enabled pr then disseminate_to_peer env p route a router
      else Some router) = Some router1"
    using disseminate_to_peer_total [OF rep pr Cons.prems(2)] by (cases "bgp_peer_send_enabled pr") auto
  then have out: "rib_out_ok env rinv router1" "out_only router router1"
    using disseminate_to_peer_keeps [OF rib rep Cons.prems(1) p route] Cons.prems(1) by (auto split: if_splits)
  have "\<exists>pr. bgp_router_find_peer router1 b = Some pr \<and> filter_total env (filter_out pr)" if "b \<in> set as" for b
  proof -
    obtain q where "bgp_router_find_peer router b = Some q" "filter_total env (filter_out q)"
      using Cons.prems(3) \<open>b \<in> set as\<close> by auto
    with out_only_find [OF out(2), of b] show ?thesis by (auto simp: option_rel_Some1)
  qed
  with Cons.IH [OF out(1)] Cons.prems(2) obtain router' where "disseminate_loop env p route as router1 = Some router'"
    by (auto simp: out_only_sendable [OF out(2)])
  with pr r1 show ?case by simp
qed simp


section \<open>The steps of the process keep the invariant\<close>

lemma adj_in_only_peers:
  assumes "adj_in_only router router'"
  shows "map p_addr (peers router') = map p_addr (peers router)" "loc_rib router' = loc_rib router"
    "node router' = node router" "outbox router' = outbox router"
    "rel_option (\<lambda>p p'. filter_out p' = filter_out p \<and> filter_in p' = filter_in p \<and> adj_rib_out p' = adj_rib_out p
       \<and> session_state p' = session_state p \<and> bgp_peer_flag_get p' = bgp_peer_flag_get p) (bgp_router_find_peer router a) (bgp_router_find_peer router' a)"
proof -
  obtain ps where r: "router' = router\<lparr>peers := ps\<rparr>"
    and "list_all2 (\<lambda>p p'. \<exists>rib. p' = p\<lparr>adj_rib_in := rib\<rparr>) (peers router) ps"
    using assms by (auto simp: adj_in_only_def)
  from this(2) have "map p_addr ps = map p_addr (peers router)" by (induction rule: list_all2_induct) auto
  with r show "map p_addr (peers router') = map p_addr (peers router)" "loc_rib router' = loc_rib router"
    "node router' = node router" "outbox router' = outbox router" by simp_all
  show "rel_option (\<lambda>p p'. filter_out p' = filter_out p \<and> filter_in p' = filter_in p \<and> adj_rib_out p' = adj_rib_out p
       \<and> session_state p' = session_state p \<and> bgp_peer_flag_get p' = bgp_peer_flag_get p) (bgp_router_find_peer router a) (bgp_router_find_peer router' a)"
    by (rule option.rel_mono_strong [OF adj_in_only_find [OF assms]]) (auto simp: bgp_peer_flag_get_def fun_eq_iff)
qed

lemma rel_option_Some2E: "rel_option R x (Some y) \<Longrightarrow> (\<And>z. x = Some z \<Longrightarrow> R z y \<Longrightarrow> P) \<Longrightarrow> P"
  by (cases x) auto

lemma rib_out_ok_adj_in:
  assumes "rib_out_ok env rinv router" "adj_in_only router router'"
  shows "rib_out_ok env rinv router'"
  unfolding rib_out_ok_def
proof (intro allI impI)
  fix a pr assume "bgp_router_find_peer router' a = Some pr"
  with adj_in_only_peers(5) [OF assms(2), of a] obtain q where "bgp_router_find_peer router a = Some q"
    "adj_rib_out pr = adj_rib_out q" "bgp_peer_flag_get pr = bgp_peer_flag_get q" "session_state pr = session_state q"
    by (auto elim: rel_option_Some2E)
  with assms(1) show "rinv (adj_rib_out pr)
      \<and> (\<not> bgp_peer_flag_get pr PEER_FLAG_VIRTUAL \<and> session_state pr = SESSION_STATE_ESTABLISHED \<longrightarrow>
      (\<forall>p. rib_find_exact (rib_trie env) (adj_rib_out pr) p \<noteq> None \<longleftrightarrow> announced a p (outbox router')))"
    by (simp add: rib_out_ok_def adj_in_only_peers(4) [OF assms(2)])
qed

lemma loc_ok_same_peers:
  assumes "loc_ok env rinv router" "loc_rib router' = loc_rib router" "node router' = node router"
    and "\<And>a. bgp_router_find_peer router' a = None \<longleftrightarrow> bgp_router_find_peer router a = None"
  shows "loc_ok env rinv router'"
  using assms by (simp add: loc_ok_def loc_find_def loc_route_ok_def del: not_None_eq)

lemma router_ok_marked:
  assumes ok: "router_ok env rinv tinv router" and m: "adj_marked env rinv p router router'"
  shows "router_ok env rinv tinv router'"
proof -
  have only: "adj_in_only router router'" using m by (simp add: adj_marked_def)
  note f = adj_in_only_peers [OF only]
  have none: "bgp_router_find_peer router' a = None \<longleftrightarrow> bgp_router_find_peer router a = None" for a
    using f(5) [of a] by (auto simp: rel_option_iff split: option.splits)
  have "adj_ok env rinv router'" using ok m by (auto simp: router_ok_def intro: adj_ok_marked)
  moreover have "loc_ok env rinv router'"
    by (rule loc_ok_same_peers [OF _ f(2,3) none]) (use ok in \<open>simp add: router_ok_def\<close>)
  moreover have "rib_out_ok env rinv router'" by (rule rib_out_ok_adj_in [OF _ only]) (use ok in \<open>simp add: router_ok_def\<close>)
  moreover have "peer_filters_ok env pr" if "bgp_router_find_peer router' a = Some pr" for a pr
    using f(5) [of a] that ok by (auto simp: router_ok_def peer_filters_ok_def elim!: rel_option_Some2E)
  ultimately show ?thesis using ok by (simp add: router_ok_def f(1,3))
qed

lemma router_ok_out:
  assumes ok: "router_ok env rinv tinv router" and out: "out_only router router'" "rib_out_ok env rinv router'"
  shows "router_ok env rinv tinv router'"
proof -
  note f = out_only_fields [OF out(1)] and find = out_only_find [OF out(1)]
  have none: "bgp_router_find_peer router' a = None \<longleftrightarrow> bgp_router_find_peer router a = None" for a
    using find [of a] by (auto simp: rel_option_iff split: option.splits)
  have some: "\<exists>q. bgp_router_find_peer router a = Some q \<and> adj_rib_in pr = adj_rib_in q
      \<and> filter_out pr = filter_out q \<and> filter_in pr = filter_in q"
    if "bgp_router_find_peer router' a = Some pr" for a pr
    using find [of a] that by (auto elim!: rel_option_Some2E)
  have "adj_find env router' a p = adj_find env router a p" for a p
    using some [of a] none [of a] by (cases "bgp_router_find_peer router' a") (auto simp: adj_find_def)
  then have "adj_ok env rinv router'"
    using ok some by (fastforce simp: router_ok_def adj_ok_def adj_ribs_ok_def)
  moreover have "loc_ok env rinv router'"
    by (rule loc_ok_same_peers [OF _ f(3,7) none]) (use ok in \<open>simp add: router_ok_def\<close>)
  moreover have "peer_filters_ok env pr" if "bgp_router_find_peer router' a = Some pr" for a pr
    using some [OF that] ok by (auto simp: router_ok_def peer_filters_ok_def)
  ultimately show ?thesis using ok out(2) by (simp add: router_ok_def f)
qed

text \<open>A change of the Loc-RIB and of the routing table at one prefix.\<close>

lemma router_ok_loc:
  assumes ok: "router_ok env rinv tinv router" and p: "pfx_wf p" and rt: "routing_table (rtenv env) tinv"
    and rib: "bgp_rib (rib_trie env) rinv" "rinv rib" "tinv rt'" "rt_inv (rtenv env) rt'"
    and other: "\<And>q. pfx_norm q \<noteq> pfx_norm p \<Longrightarrow> rib_find_exact (rib_trie env) rib q = loc_find env router q"
      "\<And>q. pfx_norm q \<noteq> pfx_norm p \<Longrightarrow> rt_routes (rtenv env) rt' q = rt_routes (rtenv env) (node_rt (node router)) q"
    and here: "\<And>r. rib_find_exact (rib_trie env) rib p = Some r
      \<Longrightarrow> loc_route_ok env (set_node_rt rt' (router\<lparr>loc_rib := rib\<rparr>)) p r"
  shows "router_ok env rinv tinv (set_node_rt rt' (router\<lparr>loc_rib := rib\<rparr>))"
proof -
  let ?router = "set_node_rt rt' (router\<lparr>loc_rib := rib\<rparr>)"
  have find: "bgp_router_find_peer ?router a = bgp_router_find_peer router a" for a
    by (simp add: set_node_rt_def)
  have f: "peers ?router = peers router" "loc_rib ?router = rib" "node_rt (node ?router) = rt'" "outbox ?router = outbox router"
    by (simp_all add: set_node_rt_def)
  have "loc_route_ok env ?router q r" if q: "pfx_wf q" "loc_find env ?router q = Some r" for q r
  proof (cases "pfx_norm q = pfx_norm p")
    case True
    have "rib_find_exact (rib_trie env) rib q = rib_find_exact (rib_trie env) rib p"
      by (rule bgp_rib.rib_find_norm [OF rib(1,2) True])
    then have "loc_route_ok env ?router p r" using q here by (simp add: loc_find_def f)
    moreover have "rt_routes (rtenv env) rt' q = rt_routes (rtenv env) rt' p"
      using gds_trie.find_same_norm [of "rt_trie (rtenv env)" tinv rt' q p] rib(3) True rt
      by (simp add: rt_routes_def routing_table_def)
    ultimately show ?thesis using True by (simp add: loc_route_ok_def f)
  next
    case False
    then have "loc_find env router q = Some r" using q other(1) by (simp add: loc_find_def f)
    then have "loc_route_ok env router q r" using ok q by (simp add: router_ok_def loc_ok_def)
    then show ?thesis by (simp add: loc_route_ok_def f other(2) [OF False] find)
  qed
  then have "loc_ok env rinv ?router" using rib(2) by (simp add: loc_ok_def f)
  moreover have "adj_ok env rinv ?router"
    using ok by (simp add: router_ok_def adj_ok_def adj_ribs_ok_def adj_find_def find)
  moreover have "rib_out_ok env rinv ?router" using ok by (simp add: router_ok_def rib_out_ok_def find f)
  ultimately show ?thesis using ok rib(3,4) by (simp add: router_ok_def f find)
qed

section \<open>Frames\<close>

text \<open>What dissemination and the decision process do not change of a peer.\<close>

definition peer_conf :: "'r bgp_peer \<Rightarrow> 'r bgp_peer" where
  "peer_conf p = p\<lparr>adj_rib_in := undefined, adj_rib_out := undefined, send_seq_num := 0\<rparr>"

lemma adj_in_only_conf: "adj_in_only router router' \<Longrightarrow> map peer_conf (peers router') = map peer_conf (peers router)"
proof -
  assume "adj_in_only router router'"
  then have "list_all2 (\<lambda>p p'. \<exists>rib. p' = p\<lparr>adj_rib_in := rib\<rparr>) (peers router) (peers router')"
    by (auto simp: adj_in_only_def)
  then show ?thesis by (induction rule: list_all2_induct) (auto simp: peer_conf_def)
qed

lemma out_only_conf: "out_only router router' \<Longrightarrow> map peer_conf (peers router') = map peer_conf (peers router)"
proof -
  assume "out_only router router'"
  then obtain ps ob where r: "router' = router\<lparr>peers := ps, outbox := outbox router @ ob\<rparr>"
    and "list_all2 (\<lambda>p p'. \<exists>n rib. p' = p\<lparr>send_seq_num := n, adj_rib_out := rib\<rparr>) (peers router) ps"
    unfolding out_only_def by blast
  from this(2) have "map peer_conf ps = map peer_conf (peers router)"
    by (induction rule: list_all2_induct) (auto simp: peer_conf_def)
  with r show ?thesis by simp
qed

lemma map_conf_addr:
  assumes "map peer_conf ps = map peer_conf qs"
  shows "map p_addr ps = map p_addr qs"
proof -
  have "p_addr (peer_conf p) = p_addr p" for p :: "'a bgp_peer" by (simp add: peer_conf_def)
  then have "map p_addr ps = map p_addr (map peer_conf ps)" for ps :: "'a bgp_peer list" by simp
  then show ?thesis using assms by metis
qed

text \<open>A step that concerns one prefix: for every other prefix the Loc-RIB, the routing table, the Adj-RIBs-In
  with their flags and the Adj-RIBs-Out are the same, the messages sent are of this prefix, and of the
  Adj-RIBs-In only marks change for the prefix itself.\<close>

definition changes_at ::
    "('t, 'r, 'z) bgp_env_scheme \<Rightarrow> ip_pfx \<Rightarrow> ('t, 'r) bgp_router \<Rightarrow> ('t, 'r) bgp_router \<Rightarrow> bool" where
  "changes_at env p router router' \<longleftrightarrow>
     (\<forall>q. pfx_norm q \<noteq> pfx_norm p \<longrightarrow> loc_find env router' q = loc_find env router q
        \<and> rt_routes (rtenv env) (node_rt (node router')) q = rt_routes (rtenv env) (node_rt (node router)) q
        \<and> (\<forall>a. adj_find env router' a q = adj_find env router a q))
   \<and> out_at env p router router'
   \<and> (\<forall>a q. rel_option same_route (adj_find env router a q) (adj_find env router' a q))
   \<and> local_nets router' = local_nets router \<and> map peer_conf (peers router') = map peer_conf (peers router)
   \<and> r_asn router' = r_asn router \<and> rid router' = rid router \<and> cluster_id router' = cluster_id router
   \<and> out_frame router router'"

lemma rel_option_same_trans:
  "rel_option same_route x y \<Longrightarrow> rel_option same_route y z \<Longrightarrow> rel_option same_route x z"
  by (cases x; cases y; cases z) (auto intro: same_route_trans)

lemma changes_at_refl [simp]: "changes_at env p router router"
  by (simp add: changes_at_def option.rel_refl)

lemma changes_at_trans: "changes_at env p r1 r2 \<Longrightarrow> changes_at env p r2 r3 \<Longrightarrow> changes_at env p r1 r3"
  unfolding changes_at_def
  by (elim conjE, intro conjI)
    (metis, erule out_at_trans, assumption, metis rel_option_same_trans, simp_all add: out_frame_trans [of r1 r2 r3])

lemma adj_in_only_frame:
  assumes "adj_in_only router router'"
  shows "out_frame router router'"
  unfolding out_frame_def
proof (intro allI impI)
  fix a pr assume "bgp_router_find_peer router a = Some pr"
  with adj_in_only_find [OF assms, of a]
  show "\<exists>pr'. bgp_router_find_peer router' a = Some pr' \<and> session_state pr' = session_state pr
      \<and> (session_state pr \<noteq> SESSION_STATE_ESTABLISHED \<longrightarrow> adj_rib_out pr' = adj_rib_out pr
           \<and> (\<forall>p. announced a p (outbox router') = announced a p (outbox router)))"
    using adj_in_only_peers(4) [OF assms] by (auto simp: option_rel_Some1)
qed

lemma adj_in_only_out_at:
  assumes "adj_in_only router router'"
  shows "out_at env p router router'"
proof (rule out_at_same)
  fix a q
  show "out_find env router' a q = out_find env router a q"
    using adj_in_only_peers(5) [OF assms, of a]
    by (cases "bgp_router_find_peer router a"; cases "bgp_router_find_peer router' a") (simp_all add: out_find_def)
qed (rule adj_in_only_peers(4) [OF assms])

lemma changes_at_marked:
  assumes "adj_marked env rinv p router router'" "adj_ok env rinv router"
  shows "changes_at env p router router'"
proof -
  have only: "adj_in_only router router'" and
    "\<forall>a q. rel_option same_route (adj_find env router a q) (adj_find env router' a q)"
    "\<forall>a q. pfx_norm q \<noteq> pfx_norm p \<longrightarrow> adj_find env router' a q = adj_find env router a q"
    using assms unfolding adj_marked_def adj_ok_def by blast+
  moreover have "local_nets router' = local_nets router" "r_asn router' = r_asn router" "rid router' = rid router"
    "cluster_id router' = cluster_id router" using only by (auto simp: adj_in_only_def)
  ultimately show ?thesis
    using adj_in_only_peers [OF only] adj_in_only_conf [OF only] adj_in_only_frame [OF only] adj_in_only_out_at [OF only]
    by (simp add: changes_at_def loc_find_def)
qed

lemma out_only_adj_find:
  assumes "out_only router router'"
  shows "adj_find env router' a q = adj_find env router a q"
  using out_only_find [OF assms, of a] by (cases "bgp_router_find_peer router' a") (auto simp: adj_find_def elim!: rel_option_Some2E)

lemma changes_at_out:
  assumes out: "out_only router router'" and frame: "out_frame router router'" "out_at env p router router'"
  shows "changes_at env p router router'"
  using out_only_fields [OF out] out_only_conf [OF out] frame
  by (simp add: changes_at_def loc_find_def out_only_adj_find [OF out] option.rel_refl)

lemma changes_at_loc:
  assumes "\<And>q. pfx_norm q \<noteq> pfx_norm p \<Longrightarrow> rib_find_exact (rib_trie env) rib q = loc_find env router q"
    and "\<And>q. pfx_norm q \<noteq> pfx_norm p \<Longrightarrow> rt_routes (rtenv env) rt' q = rt_routes (rtenv env) (node_rt (node router)) q"
  shows "changes_at env p router (set_node_rt rt' (router\<lparr>loc_rib := rib\<rparr>))"
  using assms by (simp add: changes_at_def set_node_rt_def loc_find_def adj_find_def option.rel_refl out_frame_def out_at_def out_find_def)

lemma set_node_rt_same [simp]: "set_node_rt (node_rt (node router)) router = router"
  "set_node_rt rt (set_node_rt rt' router) = set_node_rt rt router"
  by (simp_all add: set_node_rt_def)

lemma segs_equals_total: "list_all seg_wf ss \<Longrightarrow> segs_equals ss ts \<noteq> None"
  by (induction ss ts rule: segs_equals.induct)
    (auto simp: path_segment_equals_def seg_wf_def split: seg_type.splits)

lemma route_equals_total:
  assumes "route_wf env r" "route_wf env s"
  shows "route_equals r s \<noteq> None"
proof -
  have "path_equals (path_ref (attr r)) (path_ref (attr s)) \<noteq> None"
    using assms(1) segs_equals_total
    by (auto simp: path_equals_def route_wf_def path_ref_wf_def path_wf_def split: option.splits)
  then have "bgp_attr_cmp (attr r) (attr s) \<noteq> None" by (auto simp: bgp_attr_cmp_def)
  then show ?thesis
    using ip_prefix_cmp_defined [of "pfx r" "pfx s"] assms by (auto simp: route_equals_def route_wf_def)
qed

lemma route_equals_cong:
  "pfx r = pfx r' \<Longrightarrow> attr r = attr r' \<Longrightarrow> pfx s = pfx s' \<Longrightarrow> attr s = attr s' \<Longrightarrow> route_equals r s = route_equals r' s'"
  by (simp add: route_equals_def cong: if_cong)

section \<open>The outcomes\<close>

text \<open>The route installed in the routing table for a BGP route.\<close>

definition bgp_rt_info :: "bgp_route \<Rightarrow> rt_info" where
  "bgp_rt_info r = \<lparr>rt_prefix = pfx r, metric = 0, entries = [\<lparr>oif = None, gateway = next_hop (attr r)\<rparr>],
     rt_type = NET_ROUTE_BGP\<rparr>"

context bgp_environment
begin

lemma rt_add_effect:
  assumes rt: "tinv (node_rt (node router))" "rt_inv (rtenv env) (node_rt (node router))" and p: "pfx_wf (pfx r)"
  obtains rt' where "bgp_router_rt_add_route env r router = Some (set_node_rt rt' router)"
    "tinv rt'" "rt_inv (rtenv env) rt'"
    "\<And>q. pfx_norm q \<noteq> pfx_norm (pfx r)
       \<Longrightarrow> rt_routes (rtenv env) rt' q = rt_routes (rtenv env) (node_rt (node router)) q"
    "bgp_rt_info r \<in> set (rt_routes (rtenv env) rt' (pfx r))"
proof -
  let ?rt = "node_rt (node router)" and ?p = "pfx r"
  define old where "old = find (\<lambda>i. rt_type i AND NET_ROUTE_BGP \<noteq> 0) (rt_routes (rtenv env) ?rt ?p)"
  have find: "rt_find_exact (rtenv env) ?rt ?p NET_ROUTE_BGP = Some old"
    using rt.find_exact_total [OF rt(2)] by (simp add: old_def)
  obtain rt1 where rt1: "(if old \<noteq> None
      then map_option snd (rt_del_route (rtenv env) ?rt (Some ?p) None None NET_ROUTE_BGP) else Some ?rt) = Some rt1"
    "tinv rt1" "rt_inv (rtenv env) rt1"
    "\<forall>q. pfx_norm q \<noteq> pfx_norm ?p \<longrightarrow> rt_routes (rtenv env) rt1 q = rt_routes (rtenv env) ?rt q"
    "\<forall>i\<in>set (rt_routes (rtenv env) rt1 ?p). rt_type i \<noteq> NET_ROUTE_BGP"
  proof (cases "old = None")
    case True
    then have "\<forall>i\<in>set (rt_routes (rtenv env) ?rt ?p). rt_type i AND NET_ROUTE_BGP = 0"
      by (simp add: old_def find_None_iff)
    moreover have "NET_ROUTE_BGP AND NET_ROUTE_BGP \<noteq> 0" by (simp add: NET_ROUTE_BGP_def)
    ultimately have "\<forall>i\<in>set (rt_routes (rtenv env) ?rt ?p). rt_type i \<noteq> NET_ROUTE_BGP" by fastforce
    with True that rt show thesis by simp
  next
    case False
    have "NET_ROUTE_BGP \<noteq> NET_ROUTE_ANY" by (simp add: NET_ROUTE_BGP_def NET_ROUTE_ANY_def)
    with False that show thesis by (rule_tac rt.del_prefix_effect [OF rt p, of NET_ROUTE_BGP]) auto
  qed
  have add: "rt_info_add_entry (rtenv env) (rt_info_create ?p 0 NET_ROUTE_BGP) None (next_hop (attr r))
      = (ESUCCESS, bgp_rt_info r)"
    by (simp add: rt_info_add_entry_def rt_entries_add_def rt_info_create_def entries_add_empty bgp_rt_info_def)
  have "rt_type (bgp_rt_info r) = NET_ROUTE_BGP" by (simp add: bgp_rt_info_def)
  with rt1(5) obtain rt2 where "rt_add_route (rtenv env) rt1 ?p (bgp_rt_info r) = Some (ESUCCESS, rt2)" "tinv rt2"
    "rt_inv (rtenv env) rt2" "set (rt_routes (rtenv env) rt2 ?p) = insert (bgp_rt_info r) (set (rt_routes (rtenv env) rt1 ?p))"
    "\<forall>q. pfx_norm q \<noteq> pfx_norm ?p \<longrightarrow> rt_routes (rtenv env) rt2 q = rt_routes (rtenv env) rt1 q"
    by (rule_tac rt.add_route_effect [OF rt1(2,3) p, of "bgp_rt_info r"]) auto
  with rt1 find add that [of rt2] show thesis
    by (simp add: bgp_router_rt_add_route_def)
qed

lemma rt_del_effect:
  assumes rt: "tinv (node_rt (node router))" "rt_inv (rtenv env) (node_rt (node router))" and p: "pfx_wf p"
    and here: "rt_routes (rtenv env) (node_rt (node router)) p \<noteq> []"
  obtains rt' where "bgp_router_rt_del_route env p router = Some (set_node_rt rt' router)"
    "tinv rt'" "rt_inv (rtenv env) rt'"
    "\<And>q. pfx_norm q \<noteq> pfx_norm p
       \<Longrightarrow> rt_routes (rtenv env) rt' q = rt_routes (rtenv env) (node_rt (node router)) q"
    "\<forall>i\<in>set (rt_routes (rtenv env) rt' p). rt_type i \<noteq> NET_ROUTE_BGP"
proof -
  obtain rt' where "rt_del_route (rtenv env) (node_rt (node router)) (Some p) None None NET_ROUTE_BGP = Some (0, rt')"
    "tinv rt'" "rt_inv (rtenv env) rt'"
    "rt_routes (rtenv env) rt' p = filter (\<lambda>i. NET_ROUTE_BGP \<noteq> NET_ROUTE_ANY \<and> rt_type i \<noteq> NET_ROUTE_BGP)
       (rt_routes (rtenv env) (node_rt (node router)) p)"
    "\<forall>q. pfx_norm q \<noteq> pfx_norm p \<longrightarrow> rt_routes (rtenv env) rt' q = rt_routes (rtenv env) (node_rt (node router)) q"
    using rt.del_prefix_effect [OF rt p, of NET_ROUTE_BGP] here by auto
  then show thesis by (intro that [of rt']) (auto simp: bgp_router_rt_del_route_def)
qed

end

context bgp_environment
begin

lemmas axioms' = rib.bgp_rib_axioms rt.routing_table_axioms attrs.attr_repository_axioms

lemma loc_modify_effect:
  assumes ok: "router_ok env rinv tinv router" and p: "pfx_wf p" and f: "\<And>r. same_route r (f r)"
  shows "router_ok env rinv tinv (loc_rib_modify env p f router)"
    and "changes_at env p router (loc_rib_modify env p f router)"
    and "loc_find env (loc_rib_modify env p f router) p = map_option f (loc_find env router p)"
    and "node (loc_rib_modify env p f router) = node router"
proof -
  let ?rib = "rib_modify (rib_trie env) p f (loc_rib router)"
  have rinv: "rinv (loc_rib router)" using ok by (simp add: router_ok_def loc_ok_def)
  note eff = rib.rib_modify_effect [OF rinv p, of f]
  have eq: "loc_rib_modify env p f router = set_node_rt (node_rt (node router)) (router\<lparr>loc_rib := ?rib\<rparr>)"
    by (simp add: loc_rib_modify_def set_node_rt_def)
  have other: "rib_find_exact (rib_trie env) ?rib q = loc_find env router q" if "pfx_norm q \<noteq> pfx_norm p" for q
    using that by (simp add: eff loc_find_def)
  show "changes_at env p router (loc_rib_modify env p f router)"
    unfolding eq by (rule changes_at_loc) (simp_all add: other)
  show "loc_find env (loc_rib_modify env p f router) p = map_option f (loc_find env router p)"
    by (simp add: loc_rib_modify_def loc_find_def eff)
  show "node (loc_rib_modify env p f router) = node router" by (simp add: loc_rib_modify_def)
  have loc: "loc_route_ok env router p r" if "loc_find env router p = Some r" for r
    using ok p that by (simp add: router_ok_def loc_ok_def)
  have "loc_route_ok env (set_node_rt (node_rt (node router)) (router\<lparr>loc_rib := ?rib\<rparr>)) p s"
    if s: "rib_find_exact (rib_trie env) ?rib p = Some s" for s
  proof -
    from s obtain r where r: "loc_find env router p = Some r" "s = f r" by (auto simp: eff loc_find_def)
    with loc [OF r(1)] f [of r] show ?thesis
      by (simp add: loc_route_ok_def same_route_def route_wf_def set_node_rt_def)
  qed
  with ok p axioms'(2,1) eff(1) other show "router_ok env rinv tinv (loc_rib_modify env p f router)"
    unfolding eq by (intro router_ok_loc) (auto simp: router_ok_def)
qed

lemma candidate_effect:
  assumes ok: "router_ok env rinv tinv router" and b: "route_at p b" and f: "\<And>r. same_route r (f r)"
  shows "router_ok env rinv tinv (candidate_modify env f b router)"
    and "changes_at env p router (candidate_modify env f b router)"
    and "loc_rib (candidate_modify env f b router) = loc_rib router"
    and "node (candidate_modify env f b router) = node router"
proof -
  have m: "adj_marked env rinv p router (candidate_modify env f b router)"
    using adj_marked_candidates [OF axioms'(1), of "[b]"] b f by (simp add: candidates_modify_def)
  show "router_ok env rinv tinv (candidate_modify env f b router)" by (rule router_ok_marked [OF ok m])
  show "changes_at env p router (candidate_modify env f b router)"
    by (rule changes_at_marked [OF m]) (use ok in \<open>simp add: router_ok_def\<close>)
  show "loc_rib (candidate_modify env f b router) = loc_rib router"
    "node (candidate_modify env f b router) = node router"
    using adj_in_only_peers(2,3) m unfolding adj_marked_def by blast+
qed

lemma flag_off_effect:
  assumes ok: "router_ok env rinv tinv router" and p: "pfx_wf p"
    and old: "loc_find env router p = Some old" "\<not> route_flag_get old ROUTE_FLAG_INTERNAL"
  obtains router' where "bgp_router_best_flag_off env p old router = Some router'"
    "router_ok env rinv tinv router'" "changes_at env p router router'" "node router' = node router"
    "\<exists>r. loc_find env router' p = Some r \<and> \<not> route_flag_get r ROUTE_FLAG_INTERNAL"
proof -
  let ?f = "route_flag_set ROUTE_FLAG_BEST False"
  let ?r1 = "loc_rib_modify env p ?f router"
  have l: "loc_route_ok env router p old" using ok p old by (simp add: router_ok_def loc_ok_def)
  then obtain a pr where a: "peer old = Some a" "bgp_router_find_peer router a = Some pr"
    using old(2) by (auto simp: loc_route_ok_def)
  have wf: "route_at p old" using l by (simp add: loc_route_ok_def route_wf_def route_at_def)
  note r1 = loc_modify_effect [OF ok p, of ?f, simplified]
  have c: "candidate_modify env ?f old ?r1 = adj_in_modify env a (pfx old) ?f ?r1"
    using a by (simp add: candidate_modify_def)
  note r2 = candidate_effect [OF r1(1) wf, of ?f, simplified, unfolded c]
  have find: "bgp_router_find_peer ?r1 a = Some pr" using a by (simp add: loc_rib_modify_def)
  have "same_route old (?f old)" by simp
  then have "\<not> route_flag_get (?f old) ROUTE_FLAG_INTERNAL" using old(2) by (simp add: same_route_def)
  then have i: "\<exists>r. loc_find env ?r1 p = Some r \<and> \<not> route_flag_get r ROUTE_FLAG_INTERNAL"
    using r1(3) old(1) by simp
  show thesis
  proof (cases "rib_find_exact (rib_trie env) (adj_rib_in pr) (pfx old) = None")
    case True
    then show thesis
      using that [of ?r1] r1 i a find by (simp add: bgp_router_best_flag_off_def)
  next
    case False
    then show thesis
      using that [OF _ r2(1) changes_at_trans [OF r1(2) r2(2)]] r1(4) r2(3,4) i a find
      by (simp add: bgp_router_best_flag_off_def loc_find_def)
  qed
qed

lemma disseminate_effect:
  assumes ok: "router_ok env rinv tinv router" and p: "pfx_wf p"
    and route: "\<And>r. route = Some r \<Longrightarrow> pfx_norm (pfx r) = pfx_norm p \<and> route_sendable env router r"
  obtains router' where "disseminate env p route router = Some router'"
    "router_ok env rinv tinv router'" "changes_at env p router router'" "loc_rib router' = loc_rib router" "node router' = node router"
proof -
  have wf: "pfx_wf (pfx r) \<and> pfx_norm (pfx r) = pfx_norm p" if "route = Some r" for r
    using route [OF that] by (simp add: route_sendable_def route_wf_def)
  have out: "rib_out_ok env rinv router" using ok by (simp add: router_ok_def)
  have "\<exists>pr. bgp_router_find_peer router a = Some pr \<and> filter_total env (filter_out pr)"
    if a: "a \<in> set (map p_addr (peers router))" for a
  proof -
    obtain pr where "bgp_router_find_peer router a = Some pr" using a find_peer_in [of _ router] by auto
    with ok show ?thesis by (auto simp: router_ok_def peer_filters_ok_def)
  qed
  then obtain router' where r': "disseminate env p route router = Some router'"
    using disseminate_loop_total [OF axioms'(1,3) p wf out, of route "map p_addr (peers router)"] route
    by (auto simp: disseminate_def)
  have "rib_out_ok env rinv router' \<and> out_only router router' \<and> out_at env p router router'"
    using disseminate_loop_keeps [OF axioms'(1,3) p wf out] r' by (simp add: disseminate_def)
  then have out': "out_only router router'" "rib_out_ok env rinv router'" "out_at env p router router'" by simp_all
  have frame: "out_frame router router'" using disseminate_loop_frame r' by (simp add: disseminate_def)
  show thesis by (rule that [OF r' router_ok_out [OF ok out'(1,2)] changes_at_out [OF out'(1) frame out'(3)] out_only_fields(3,7) [OF out'(1)]])
qed

end

context bgp_environment
begin

lemma no_best_effect:
  assumes ok: "router_ok env rinv tinv router" and p: "pfx_wf p"
    and old: "\<And>o'. loc_find env router p = Some o' \<Longrightarrow> \<not> route_flag_get o' ROUTE_FLAG_INTERNAL"
  obtains router' where "decision_process_no_best_route env p (loc_find env router p) router = Some router'"
    "router_ok env rinv tinv router'" "changes_at env p router router'" "loc_find env router' p = None"
    "loc_find env router p \<noteq> None \<Longrightarrow>
       \<forall>i\<in>set (rt_routes (rtenv env) (node_rt (node router')) p). rt_type i \<noteq> NET_ROUTE_BGP"
proof (cases "loc_find env router p")
  case None
  with that [of router] ok show thesis by (simp add: decision_process_no_best_route_def)
next
  case (Some o')
  obtain r1 where r1: "bgp_router_best_flag_off env p o' router = Some r1" "router_ok env rinv tinv r1"
    "changes_at env p router r1" "node r1 = node router" "\<exists>r. loc_find env r1 p = Some r \<and> \<not> route_flag_get r ROUTE_FLAG_INTERNAL"
    using flag_off_effect [OF ok p Some old [OF Some]] .
  have rinv: "rinv (loc_rib r1)" using r1(2) by (simp add: router_ok_def loc_ok_def)
  obtain res rib where rib: "rib_remove_route (rib_trie env) (loc_rib r1) p = (res, rib)" "rinv rib"
    "\<And>q. rib_find_exact (rib_trie env) rib q = (if pfx_norm q = pfx_norm p then None else loc_find env r1 q)"
    by (rule rib.rib_remove_effect [OF rinv p]) (auto simp: loc_find_def)
  let ?r2 = "r1\<lparr>loc_rib := rib\<rparr>"
  have rt: "tinv (node_rt (node ?r2))" "rt_inv (rtenv env) (node_rt (node ?r2))"
    using r1(2) by (auto simp: router_ok_def)
  have "loc_route_ok env router p o'" using ok p Some by (simp add: router_ok_def loc_ok_def)
  then have here: "rt_routes (rtenv env) (node_rt (node ?r2)) p \<noteq> []"
    using old [OF Some] r1(4) by (auto simp: loc_route_ok_def)
  obtain rt' where rt': "bgp_router_rt_del_route env p ?r2 = Some (set_node_rt rt' ?r2)"
    "tinv rt'" "rt_inv (rtenv env) rt'"
    "\<And>q. pfx_norm q \<noteq> pfx_norm p \<Longrightarrow> rt_routes (rtenv env) rt' q = rt_routes (rtenv env) (node_rt (node r1)) q"
    "\<forall>i\<in>set (rt_routes (rtenv env) rt' p). rt_type i \<noteq> NET_ROUTE_BGP"
    by (rule rt_del_effect [OF rt p here]) (rule that, assumption+, simp, assumption)
  let ?r3 = "set_node_rt rt' ?r2"
  have r3: "router_ok env rinv tinv ?r3"
    by (rule router_ok_loc [OF r1(2) p axioms'(2,1) rib(2) rt'(2,3)]) (simp_all add: rib(3) rt'(4))
  have c3: "changes_at env p r1 ?r3" by (rule changes_at_loc) (simp_all add: rib(3) rt'(4))
  obtain r4 where r4: "disseminate env p None ?r3 = Some r4" "router_ok env rinv tinv r4" "changes_at env p ?r3 r4"
    "loc_rib r4 = loc_rib ?r3" "node r4 = node ?r3" using disseminate_effect [OF r3 p, of None] by auto
  show thesis
  proof (rule that [OF _ r4(2) changes_at_trans [OF r1(3) changes_at_trans [OF c3 r4(3)]]])
    show "decision_process_no_best_route env p (loc_find env router p) router = Some r4"
      by (simp add: decision_process_no_best_route_def Some r1(1) rib(1) rt'(1) r4(1))
    show "loc_find env r4 p = None" by (simp add: loc_find_def r4(4) set_node_rt_def rib(3))
    show "\<forall>i\<in>set (rt_routes (rtenv env) (node_rt (node r4)) p). rt_type i \<noteq> NET_ROUTE_BGP"
      using rt'(5) by (simp add: r4(5) set_node_rt_def)
  qed
qed

lemma install_effect:
  assumes ok: "router_ok env rinv tinv router" and p: "pfx_wf p"
    and rib: "rinv rib" "\<And>q. pfx_norm q \<noteq> pfx_norm p \<Longrightarrow> rib_find_exact (rib_trie env) rib q = loc_find env router q"
    and l: "rib_find_exact (rib_trie env) rib p = Some l" "pfx_norm (pfx l) = pfx_norm p" "route_wf env l"
      "peer l = Some a" "ecomms (attr l) = None" "\<not> route_flag_get l ROUTE_FLAG_INTERNAL"
      "bgp_router_find_peer router a \<noteq> None"
    and route: "pfx_norm (pfx route) = pfx_norm p" "pfx_wf (pfx route)" "next_hop (attr route) = next_hop (attr l)"
  obtains router' where "bgp_router_rt_add_route env route (router\<lparr>loc_rib := rib\<rparr>) = Some router'"
    "router_ok env rinv tinv router'" "changes_at env p router router'" "loc_rib router' = rib"
    "bgp_router_find_peer router' = bgp_router_find_peer router"
proof -
  let ?r1 = "router\<lparr>loc_rib := rib\<rparr>"
  have rt: "tinv (node_rt (node ?r1))" "rt_inv (rtenv env) (node_rt (node ?r1))"
    using ok by (auto simp: router_ok_def)
  obtain rt' where rt': "bgp_router_rt_add_route env route ?r1 = Some (set_node_rt rt' ?r1)" "tinv rt'" "rt_inv (rtenv env) rt'"
    "\<And>q. pfx_norm q \<noteq> pfx_norm p \<Longrightarrow> rt_routes (rtenv env) rt' q = rt_routes (rtenv env) (node_rt (node router)) q"
    "bgp_rt_info route \<in> set (rt_routes (rtenv env) rt' (pfx route))"
    by (rule rt_add_effect [OF rt route(2)]) (use route(1) in simp)
  have "rt_routes (rtenv env) rt' (pfx route) = rt_routes (rtenv env) rt' p"
    using rt.find_same_norm [OF rt'(2) route(1)] by (simp add: rt_routes_def)
  then have "\<exists>i\<in>set (rt_routes (rtenv env) rt' p). rt_type i = NET_ROUTE_BGP \<and> map gateway (entries i) = [next_hop (attr l)]"
    using rt'(5) route(3) by (intro bexI [of _ "bgp_rt_info route"]) (simp_all add: bgp_rt_info_def)
  then have "loc_route_ok env (set_node_rt rt' ?r1) p l"
    using l by (simp add: loc_route_ok_def set_node_rt_def)
  then have "router_ok env rinv tinv (set_node_rt rt' ?r1)"
    using l(1) by (intro router_ok_loc [OF ok p axioms'(2,1) rib(1) rt'(2,3)]) (simp_all add: rib(2) rt'(4))
  moreover have "changes_at env p router (set_node_rt rt' ?r1)" by (rule changes_at_loc) (simp_all add: rib(2) rt'(4))
  ultimately show thesis
    using that rt'(1) by (simp add: set_node_rt_def fun_eq_iff)
qed

end

lemma find_peer_iff: "bgp_router_find_peer router a \<noteq> None \<longleftrightarrow> a \<in> set (map p_addr (peers router))"
  by (auto simp: bgp_router_find_peer_def bgp_peers_find_def find_None_iff)

lemma changes_at_find:
  "changes_at env p router router' \<Longrightarrow> (bgp_router_find_peer router' a \<noteq> None) = (bgp_router_find_peer router a \<noteq> None)"
proof -
  assume "changes_at env p router router'"
  then have "map p_addr (peers router') = map p_addr (peers router)"
    by (intro map_conf_addr) (simp add: changes_at_def)
  then show ?thesis by (simp only: find_peer_iff)
qed

lemma loc_find_same: "loc_rib router' = loc_rib router \<Longrightarrow> loc_find env router' p = loc_find env router p"
  by (simp add: loc_find_def)

lemma same_route_wf: "same_route r s \<Longrightarrow> route_wf env s = route_wf env r"
  by (simp add: same_route_def route_wf_def)

context bgp_environment
begin

lemma unchanged_effect:
  assumes ok: "router_ok env rinv tinv router" and p: "pfx_wf p"
    and old: "loc_find env router p = Some old" "\<not> route_flag_get old ROUTE_FLAG_INTERNAL"
    and route: "pfx_norm (pfx route) = pfx_norm p" "pfx_wf (pfx route)" "next_hop (attr route) = next_hop (attr old)"
    and best: "route_at p best"
  obtains router' l where "decision_process_unchanged_best_route env p best route rank' router = Some router'"
    "router_ok env rinv tinv router'" "changes_at env p router router'" "loc_find env router' p = Some l" "same_route old l"
proof -
  let ?route = "route_flag_set ROUTE_FLAG_BEST True route"
  let ?f = "route_flag_set ROUTE_FLAG_DP_IGP (route_flag_get ?route ROUTE_FLAG_DP_IGP)"
  let ?g = "\<lambda>r. r\<lparr>rank := of_nat rank'\<rparr>"
  define r1 where "r1 = candidate_modify env (route_flag_set ROUTE_FLAG_BEST True) best router"
  define r2 where "r2 = loc_rib_modify env p ?f r1"
  define r3 where "r3 = loc_rib_modify env p ?g r2"
  define r4 where "r4 = candidate_modify env ?g best r3"
  note s1 = candidate_effect [OF ok best, of "route_flag_set ROUTE_FLAG_BEST True", folded r1_def, simplified]
  note s2 = loc_modify_effect [OF s1(1) p, of ?f, folded r2_def, simplified]
  note s3 = loc_modify_effect [OF s2(1) p, of ?g, folded r3_def, simplified]
  note s4 = candidate_effect [OF s3(1) best, of ?g, folded r4_def, simplified]
  have c: "changes_at env p router r4"
    by (rule changes_at_trans [OF s1(2) changes_at_trans [OF s2(2) changes_at_trans [OF s3(2) s4(2)]]])
  have l: "loc_find env r4 p = Some (?g (?f old))"
    unfolding loc_find_same [OF s4(3)] s3(3) s2(3) loc_find_same [OF s1(3)] old(1) by simp
  have same: "same_route old (?g (?f old))"
    using same_route_trans [OF same_route_flag_set same_route_rank] by simp
  have "loc_route_ok env router p old" using ok p old(1) by (simp add: router_ok_def loc_ok_def)
  then obtain a where a: "pfx_norm (pfx old) = pfx_norm p" "route_wf env old" "peer old = Some a" "ecomms (attr old) = None"
    "bgp_router_find_peer router a \<noteq> None" using old(2) by (auto simp: loc_route_ok_def)
  have l': "pfx_norm (pfx (?g (?f old))) = pfx_norm p" "route_wf env (?g (?f old))" "peer (?g (?f old)) = Some a"
    "ecomms (attr (?g (?f old))) = None" "\<not> route_flag_get (?g (?f old)) ROUTE_FLAG_INTERNAL"
    using a same old(2) by (simp_all add: same_route_wf [OF same]) (simp add: same_route_def)
  have find: "bgp_router_find_peer r4 a \<noteq> None" using a(5) changes_at_find [OF c] by blast
  have rinv: "rinv (loc_rib r4)" using s4(1) by (simp add: router_ok_def loc_ok_def)
  have add: "bgp_router_rt_add_route env ?route (r4\<lparr>loc_rib := loc_rib r4\<rparr>)
      = decision_process_unchanged_best_route env p best route rank' router"
    unfolding decision_process_unchanged_best_route_def Let_def r1_def [symmetric] r2_def [symmetric]
      r3_def [symmetric] r4_def [symmetric] by simp
  obtain r5 where r5: "bgp_router_rt_add_route env ?route (r4\<lparr>loc_rib := loc_rib r4\<rparr>) = Some r5"
    "router_ok env rinv tinv r5" "changes_at env p r4 r5" "loc_rib r5 = loc_rib r4"
    by (rule install_effect [OF s4(1) p rinv _ l [unfolded loc_find_def] l' find, of ?route])
      (use route in \<open>simp_all add: loc_find_def\<close>)
  show thesis
    by (rule that [OF r5(1) [unfolded add] r5(2) changes_at_trans [OF c r5(3)] _ same])
      (simp only: loc_find_same [OF r5(4)] l)
qed

lemma update_effect:
  assumes ok: "router_ok env rinv tinv router" and p: "pfx_wf p"
    and old: "\<And>o'. loc_find env router p = Some o' \<Longrightarrow> \<not> route_flag_get o' ROUTE_FLAG_INTERNAL"
    and route: "pfx_norm (pfx route) = pfx_norm p" "route_wf env route" "ecomms (attr route) = None"
      "peer route = Some a" "\<not> route_flag_get route ROUTE_FLAG_INTERNAL" "bgp_router_find_peer router a \<noteq> None"
    and best: "route_at p best"
  obtains router' l where "decision_process_update_best_route env p best (loc_find env router p) route rank' router = Some router'"
    "router_ok env rinv tinv router'" "changes_at env p router router'" "loc_find env router' p = Some l" "same_route route l"
proof -
  let ?f = "route_flag_set ROUTE_FLAG_BEST True" and ?g = "\<lambda>r. r\<lparr>rank := of_nat rank'\<rparr>"
  let ?route = "?g (?f route)"
  obtain r0 where r0: "(case loc_find env router p of None \<Rightarrow> Some router
        | Some old \<Rightarrow> bgp_router_best_flag_off env p old router) = Some r0"
    "router_ok env rinv tinv r0" "changes_at env p router r0"
  proof (cases "loc_find env router p")
    case (Some o')
    show thesis by (rule flag_off_effect [OF ok p Some old [OF Some]]) (rule that; simp add: Some)
  qed (use ok that in simp)
  define r1 where "r1 = candidate_modify env ?f best r0"
  define r2 where "r2 = candidate_modify env ?g best r1"
  note s1 = candidate_effect [OF r0(2) best, of ?f, folded r1_def, simplified]
  note s2 = candidate_effect [OF s1(1) best, of ?g, folded r2_def, simplified]
  have c: "changes_at env p router r2" by (rule changes_at_trans [OF r0(3) changes_at_trans [OF s1(2) s2(2)]])
  have same: "same_route route ?route" using same_route_trans [OF same_route_flag_set same_route_rank] by simp
  have l: "pfx_norm (pfx ?route) = pfx_norm p" "route_wf env ?route" "peer ?route = Some a" "ecomms (attr ?route) = None"
    "\<not> route_flag_get ?route ROUTE_FLAG_INTERNAL" "pfx_wf (pfx ?route)"
    using route same by (simp_all add: same_route_wf [OF same] route_wf_def [of env route]) (simp add: same_route_def)
  have find: "bgp_router_find_peer r2 a \<noteq> None" using route(6) changes_at_find [OF c] by blast
  have rinv: "rinv (loc_rib r2)" using s2(1) by (simp add: router_ok_def loc_ok_def)
  obtain rib where rib: "rib_add_route (rib_trie env) (loc_rib r2) ?route = (0, rib)" "rinv rib"
    "\<And>q. rib_find_exact (rib_trie env) rib q = (if pfx_norm q = pfx_norm p then Some ?route else loc_find env r2 q)"
    by (rule rib.rib_add_effect [OF rinv l(6)]) (rule that, assumption+, use route(1) in \<open>simp add: loc_find_def\<close>)
  obtain r3 where r3: "bgp_router_rt_add_route env ?route (r2\<lparr>loc_rib := rib\<rparr>) = Some r3"
    "router_ok env rinv tinv r3" "changes_at env p r2 r3" "loc_rib r3 = rib"
    "bgp_router_find_peer r3 = bgp_router_find_peer r2"
    by (rule install_effect [OF s2(1) p rib(2) _ _ l(1-5) find l(1,6) refl]) (simp_all add: rib(3))
  have send: "route_sendable env r3 ?route" unfolding route_sendable_def using l find r3(5) by simp
  obtain r4 where r4: "disseminate env p (Some ?route) r3 = Some r4" "router_ok env rinv tinv r4"
    "changes_at env p r3 r4" "loc_rib r4 = loc_rib r3"
    by (rule disseminate_effect [OF r3(2) p, of "Some ?route"]) (use l(1) send in auto)
  show thesis
  proof (rule that [OF _ r4(2) changes_at_trans [OF c changes_at_trans [OF r3(3) r4(3)]] _ same])
    show "decision_process_update_best_route env p best (loc_find env router p) route rank' router = Some r4"
      by (simp add: decision_process_update_best_route_def r0(1) r1_def [symmetric] r2_def [symmetric] rib(1) r3(1) r4(1))
    show "loc_find env r4 p = Some ?route" by (simp add: loc_find_def r4(4) r3(4) rib(3))
  qed
qed

end


section \<open>The process\<close>

lemma dp_winner_in:
  assumes "b \<in> set (dp_winner env router p)"
  obtains r a where "adj_find env router a p = Some r" "bgp_router_find_peer router a \<noteq> None" "same_route r b"
proof -
  have "set (dp_winner env router p) \<subseteq> set (feasible_routes env router p) \<union> mark_igp ` set (feasible_routes env router p)"
    unfolding dp_winner_def by (rule dp_select_props(2) [OF dp_criteria_select])
  with assms obtain r where "r \<in> set (feasible_routes env router p)" "same_route r b" by force
  with that show thesis by (auto elim: feasible_routes_in)
qed

context bgp_environment
begin

lemma best_route_effect:
  assumes ok: "router_ok env rinv tinv router" and p: "pfx_wf p"
    and ext: "\<And>old. loc_find env router p = Some old \<Longrightarrow> \<not> route_flag_get old ROUTE_FLAG_INTERNAL"
    and best: "adj_route_ok env a p best" "bgp_router_find_peer router a \<noteq> None"
  obtains router' l where "decision_process_install env p (loc_find env router p) best rank' router = Some router'"
    "router_ok env rinv tinv router'" "changes_at env p router router'"
    "loc_find env router' p = Some l" "\<not> route_flag_get l ROUTE_FLAG_INTERNAL" "route_equals l best = Some True"
proof -
  let ?route = "best\<lparr>rank := 0\<rparr>"
  have route: "pfx_norm (pfx ?route) = pfx_norm p" "route_wf env ?route" "ecomms (attr ?route) = None" "peer ?route = Some a"
      "\<not> route_flag_get ?route ROUTE_FLAG_INTERNAL" "pfx_wf (pfx ?route)" "route_at p best" "route_wf env best"
    using best(1) by (auto simp: route_at_def adj_route_ok_def route_wf_def route_flag_get_def)
  have copy: "route_copy env best = Some ?route"
    using route_copy_interned [OF axioms'(3), of best] route(8) by (simp add: route_wf_def)
  have eqb: "route_equals l ?route = route_equals l best" for l by (rule route_equals_cong) simp_all
  show thesis
  proof (cases "\<exists>old. loc_find env router p = Some old \<and> route_equals old ?route = Some True")
    case True
    then obtain old where old: "loc_find env router p = Some old" "route_equals old ?route = Some True" by blast
    have "pfx_wf (pfx old)" using ok p old(1) by (simp add: router_ok_def loc_ok_def loc_route_ok_def route_wf_def)
    then have "(attr ?route)\<lparr>path_ref := path_ref (attr old)\<rparr> = attr old"
      using route_equals_Some_True(2) [OF _ route(6) old(2)] by blast
    then have "next_hop ((attr ?route)\<lparr>path_ref := path_ref (attr old)\<rparr>) = next_hop (attr old)" by (rule arg_cong)
    then have nh: "next_hop (attr ?route) = next_hop (attr old)" by simp
    obtain r2 l where r2: "decision_process_unchanged_best_route env p best ?route rank' router = Some r2"
        "router_ok env rinv tinv r2" "changes_at env p router r2" "loc_find env r2 p = Some l" "same_route old l"
      using unchanged_effect [OF ok p old(1) ext [OF old(1)] route(1,6) nh route(7)] .
    have "route_equals l best = route_equals old ?route"
      unfolding eqb by (rule route_equals_cong) (use r2(5) in \<open>auto simp: same_route_def\<close>)
    moreover have "\<not> route_flag_get l ROUTE_FLAG_INTERNAL" using r2(5) ext [OF old(1)] by (simp add: same_route_def)
    ultimately show thesis
      using that [OF _ r2(2-4)] copy old r2(1) by (simp add: decision_process_install_def)
  next
    case False
    have total: "route_equals old ?route \<noteq> None" if "loc_find env router p = Some old" for old
      using that ok p route_equals_total [OF _ route(2)] by (simp add: router_ok_def loc_ok_def loc_route_ok_def)
    have neq: "(case loc_find env router p of None \<Rightarrow> Some False | Some old \<Rightarrow> route_equals old ?route) = Some False"
      using False total by (cases "loc_find env router p") auto
    obtain r2 l where r2: "decision_process_update_best_route env p best (loc_find env router p) ?route rank' router = Some r2"
      "router_ok env rinv tinv r2" "changes_at env p router r2" "loc_find env r2 p = Some l" "same_route ?route l"
      using update_effect [OF ok p ext route(1-5) best(2) route(7)] by blast
    have "route_equals l best = route_equals best best"
      by (rule route_equals_cong) (use r2(5) in \<open>auto simp: same_route_def\<close>)
    then have "route_equals l best = Some True" using route_equals_refl [OF route(8)] by simp
    moreover have "\<not> route_flag_get l ROUTE_FLAG_INTERNAL" using r2(5) route(5) by (simp add: same_route_def)
    ultimately show thesis
      using that [OF _ r2(2-4)] copy neq r2(1) by (simp add: decision_process_install_def)
  qed
qed

text \<open>What one run of the process achieves.\<close>

lemma process_effect:
  assumes ok: "router_ok env rinv tinv router" and p: "pfx_wf p"
    and ext: "\<And>old. loc_find env router p = Some old \<Longrightarrow> \<not> route_flag_get old ROUTE_FLAG_INTERNAL"
  obtains router' where "bgp_router_decision_process env p router = Some router'"
    "router_ok env rinv tinv router'" "changes_at env p router router'"
    "case dp_best env router p of
          None \<Rightarrow> loc_find env router' p = None \<and> (loc_find env router p \<noteq> None \<longrightarrow>
            (\<forall>i\<in>set (rt_routes (rtenv env) (node_rt (node router')) p). rt_type i \<noteq> NET_ROUTE_BGP))
        | Some b \<Rightarrow> \<exists>l. loc_find env router' p = Some l \<and> \<not> route_flag_get l ROUTE_FLAG_INTERNAL
            \<and> route_equals l b = Some True"
proof -
  have aok: "adj_ok env rinv router" and dist: "distinct (map p_addr (peers router))"
    using ok by (auto simp: router_ok_def)
  obtain rank' r1 rs where sel: "decision_process_select env p router = Some (rank', r1, rs)"
    "adj_marked env rinv p router r1" "list_all2 same_route (dp_winner env router p) rs"
    using select_effect [OF ok p] .
  have ok1: "router_ok env rinv tinv r1" by (rule router_ok_marked [OF ok sel(2)])
  have c1: "changes_at env p router r1" by (rule changes_at_marked [OF sel(2) aok])
  have "adj_in_only router r1" using sel(2) by (simp add: adj_marked_def)
  then have loc: "loc_find env r1 p = loc_find env router p" by (rule loc_find_same [OF adj_in_only_peers(2)])
  note ext1 = ext [folded loc]
  have run: "bgp_router_decision_process env p router = (case rs of
         [] \<Rightarrow> decision_process_no_best_route env p (loc_find env r1 p) r1
       | best # _ \<Rightarrow> decision_process_install env p (loc_find env r1 p) best rank' r1)"
    unfolding loc using ext sel(1)
    by (cases "loc_find env router p") (auto simp: bgp_router_decision_process_def loc_find_def [symmetric] Let_def split: list.split)
  show thesis
  proof (cases "dp_best env router p")
    case None
    then have "rs = []" using sel(3) dp_winner_best [OF aok dist, of p] by simp
    obtain r2 where "decision_process_no_best_route env p (loc_find env r1 p) r1 = Some r2"
      "router_ok env rinv tinv r2" "changes_at env p r1 r2" "loc_find env r2 p = None"
      "loc_find env r1 p \<noteq> None \<Longrightarrow>
        \<forall>i\<in>set (rt_routes (rtenv env) (node_rt (node r2)) p). rt_type i \<noteq> NET_ROUTE_BGP"
      using no_best_effect [OF ok1 p ext1] by blast
    with \<open>rs = []\<close> that [of r2] changes_at_trans [OF c1] None show thesis by (simp add: run loc)
  next
    case (Some b)
    then have w: "dp_winner env router p = [b]" by (simp add: dp_winner_best [OF aok dist, of p])
    then obtain best where rs: "rs = [best]" "same_route b best" using sel(3) by (auto simp: list_all2_Cons1)
    obtain r a where r: "adj_find env router a p = Some r" "bgp_router_find_peer router a \<noteq> None" "same_route r b"
      by (rule dp_winner_in [of b env router p]) (use w in simp, rule that)
    have "adj_route_ok env a p r" using aok r(1) by (simp add: adj_ok_def)
    then have bok: "adj_route_ok env a p best"
      using same_route_ok [OF same_route_trans [OF r(3) rs(2)], of env a p] by simp
    have find1: "bgp_router_find_peer r1 a \<noteq> None" using changes_at_find [OF c1] r(2) by blast
    obtain r2 l where r2: "decision_process_install env p (loc_find env r1 p) best rank' r1 = Some r2"
      "router_ok env rinv tinv r2" "changes_at env p r1 r2"
      "loc_find env r2 p = Some l" "\<not> route_flag_get l ROUTE_FLAG_INTERNAL" "route_equals l best = Some True"
      using best_route_effect [OF ok1 p ext1 bok find1] by blast
    have "route_equals l b = route_equals l best"
      by (rule route_equals_cong) (use rs(2) in \<open>auto simp: same_route_def\<close>)
    with r2 rs(1) that [OF _ r2(2) changes_at_trans [OF c1 r2(3)]] Some show thesis by (simp add: run)
  qed
qed

lemma process_internal:
  "loc_find env router p = Some old \<Longrightarrow> route_flag_get old ROUTE_FLAG_INTERNAL
   \<Longrightarrow> bgp_router_decision_process env p router = Some router"
  by (simp add: bgp_router_decision_process_def loc_find_def)

end

section \<open>Properties\<close>

text \<open>A router with two external peers; the peer 20 has announced the prefix 0.0.0.1/8.\<close>

definition sample_learned :: bgp_route where
  "sample_learned = route_flag_set ROUTE_FLAG_ELIGIBLE True (sample_route 20 0)"

definition sample_decider :: "((rt_info list) alist_trie, bgp_route alist_trie) bgp_router" where
  "sample_decider = sample_router\<lparr>peers :=
     [sample_dst\<lparr>adj_rib_in := [(\<lparr>network = 0, mask = 8\<rparr>, sample_learned)]\<rparr>,
      (bgp_peer_create sample_env 3 30)\<lparr>router_id := 30, session_state := SESSION_STATE_ESTABLISHED\<rparr>]\<rparr>"

interpretation sample: bgp_environment sample_env alist_trie_inv alist_trie_inv
proof -
  have "bgp_rib (rib_trie sample_env) alist_trie_inv" "routing_table (rtenv sample_env) alist_trie_inv"
    by (simp_all add: sample_env_def alist_rib.bgp_rib_axioms alist_rt.routing_table_axioms)
  moreover have "entries_add (rtenv sample_env) [] e = Some [e]" for e
    by (simp add: sample_env_def alist_rt_env_def)
  ultimately show "bgp_environment sample_env alist_trie_inv alist_trie_inv"
    by (simp add: bgp_environment_def bgp_environment_axioms_def sample_env_repository)
qed

lemma sample_learned_ok: "adj_route_ok sample_env 20 \<lparr>network = 0, mask = 8\<rparr> sample_learned"
proof -
  have "pfx_norm (pfx sample_learned) = pfx_norm \<lparr>network = 0, mask = 8\<rparr>" "\<not> route_flag_get sample_learned ROUTE_FLAG_INTERNAL"
    "route_path_length sample_learned \<noteq> None" "path_len sample_learned \<le> 255" "route_path_last_as sample_learned \<noteq> None"
    "cluster_len sample_learned \<le> 255" "peer sample_learned = Some 20" "ecomms (attr sample_learned) = None"
    by code_simp+
  moreover have "route_wf sample_env sample_learned"
    by (simp add: route_wf_def sample_learned_def sample_route_def route_med_set_def route_create_def route_create2_def
        bgp_attr_create_def pfx_wf_def path_ref_wf_def interned_def sample_env_def list_repository_def)
  ultimately show ?thesis by (simp add: adj_route_ok_def)
qed

lemma sample_decider_find:
  "bgp_router_find_peer sample_decider a = (if a = 20 then Some (peers sample_decider ! 0)
     else if a = 30 then Some (peers sample_decider ! 1) else None)"
  by (simp add: sample_decider_def bgp_router_find_peer_def bgp_peers_find_def sample_dst_def bgp_peer_create_def)

lemma sample_decider_ok: "router_ok sample_env alist_trie_inv alist_trie_inv sample_decider"
proof -
  have norm: "pfx_norm \<lparr>network = 0, mask = 8\<rparr> = \<lparr>network = 0, mask = 8\<rparr>" "pfx_norm \<lparr>network = 0, mask = 0\<rparr> = \<lparr>network = 0, mask = 0\<rparr>"
    by code_simp+
  have fields: "loc_rib sample_decider = []" "node_rt (node sample_decider)
      = [(\<lparr>network = 0, mask = 0\<rparr>, [rt_info_create \<lparr>network = 0, mask = 0\<rparr> 5 NET_ROUTE_IGP])]" "outbox sample_decider = []"
    "rib_trie sample_env = alist_trie_ops" "rtenv sample_env = alist_rt_env"
    by (simp_all add: sample_decider_def sample_router_def bgp_router_create_def sample_env_def rib_create_def alist_trie_ops_def)
  have peers: "peers sample_decider ! 0 = sample_dst\<lparr>adj_rib_in := [(\<lparr>network = 0, mask = 8\<rparr>, sample_learned)]\<rparr>"
    "peers sample_decider ! Suc 0 = (bgp_peer_create sample_env 3 30)\<lparr>router_id := 30, session_state := SESSION_STATE_ESTABLISHED\<rparr>"
    by (simp_all add: sample_decider_def)
  note pdefs = peers sample_dst_def bgp_peer_create_def rib_create_def alist_trie_ops_def fields
  have "distinct (map p_addr (peers sample_decider))"
    by (simp add: sample_decider_def sample_dst_def bgp_peer_create_def)
  moreover have "adj_ok sample_env alist_trie_inv sample_decider"
  proof -
    have "adj_ribs_ok alist_trie_inv sample_decider"
      by (auto simp: adj_ribs_ok_def sample_decider_find pdefs alist_trie_inv_def norm pfx_wf_def split: if_splits)
    moreover have "adj_route_ok sample_env a q r" if "adj_find sample_env sample_decider a q = Some r" for a q r
    proof -
      have "a = 20 \<and> pfx_norm q = \<lparr>network = 0, mask = 8\<rparr> \<and> r = sample_learned"
        using that by (auto simp: adj_find_def sample_decider_find pdefs rib_find_exact_def norm split: if_splits)
      with sample_learned_ok show ?thesis by (simp add: adj_route_ok_def norm)
    qed
    ultimately show ?thesis by (simp add: adj_ok_def)
  qed
  moreover have "loc_ok sample_env alist_trie_inv sample_decider"
    by (simp add: loc_ok_def loc_find_def fields alist_trie_inv_def rib_find_exact_def alist_trie_ops_def)
  moreover have "rib_out_ok sample_env alist_trie_inv sample_decider"
    by (auto simp: rib_out_ok_def sample_decider_find pdefs rib_find_exact_def alist_trie_inv_def announced_def split: if_splits)
  moreover have "alist_trie_inv (node_rt (node sample_decider))"
    by (simp add: fields alist_trie_inv_def norm pfx_wf_def)
  moreover have "rt_inv (rtenv sample_env) (node_rt (node sample_decider))"
    by (auto simp: rt_inv_def fields alist_rt_env_def alist_trie_ops_def infos_ok_def strict_sorted_by_def split: if_splits)
  moreover have "peer_filters_ok sample_env pr" if "bgp_router_find_peer sample_decider a = Some pr" for a pr
    using that by (auto simp: sample_decider_find pdefs peer_filters_ok_def filter_total_def filter_keeps_def
        filter_apply_def route_wf_def split: if_splits)
  ultimately show ?thesis by (simp add: router_ok_def)
qed

text \<open>C9: A run of the decision process implements its specification: on candidates the rules can handle it
  applies the nine criteria in the order of the table DP_RULES (highest LOCAL-PREF, shortest AS-Path,
  lowest ORIGIN, lowest MED, eBGP over iBGP, nearest next hop, lowest router-ID or originator,
  shortest cluster list, lowest neighbour address; the comment above the function swaps the seventh and
  the eighth), each keeping exactly the candidates with the best value in their order, until at most one
  is left; it does not stop the process and returns the number of rules applied.  The only writes are IGP
  marks: everything but the Adj-RIBs-In is the same, and a route of an Adj-RIB-In changes exactly when it is
  one of the routes compared by IGP cost (left by the first five criteria), when it is the same route
  with the mark.\<close>

theorem decision_process_run_refines:
  assumes "bgp_rib (rib_trie env) rinv" "adj_ribs_ok rinv router"
    and "\<forall>r\<in>set rs. dp_candidate env router r \<and> pfx_wf (pfx r)" "distinct (map peer rs)"
  shows "\<exists>router'. bgp_router_decision_process_run env router rs
      = Some (fst (dp_select (dp_criteria env router) 0 rs), router', snd (dp_select (dp_criteria env router) 0 rs))
    \<and> adj_in_only router router'
    \<and> (\<forall>a q. adj_find env router' a q
        = (if \<exists>r\<in>set (igp_compared env router rs). peer r = Some a \<and> pfx_norm (pfx r) = pfx_norm q
           then map_option (route_flag_set ROUTE_FLAG_DP_IGP True) (adj_find env router a q)
           else adj_find env router a q))"
proof -
  have wf: "\<forall>r\<in>set (igp_compared env router rs). pfx_wf (pfx r)"
    using igp_compared_sub [of env router rs] assms(3) by fastforce
  have "\<forall>r\<in>set rs. dp_candidate env router r" using assms(3) by blast
  note run = dp_run_eq [OF this assms(4)]
  show ?thesis
    by (rule exI, intro conjI allI, rule run, rule adj_in_only_candidates)
      (rule candidates_modify_find [OF assms(1) mark_idem assms(2) wf])
qed

definition sample_marked :: "((rt_info list) alist_trie, bgp_route alist_trie) bgp_router" where
  "sample_marked = sample_router\<lparr>peers :=
     [(bgp_peer_create sample_env 2 20)\<lparr>adj_rib_in := [(\<lparr>network = 0, mask = 8\<rparr>, sample_route 20 0)]\<rparr>,
      (bgp_peer_create sample_env 3 30)\<lparr>adj_rib_in := [(\<lparr>network = 0, mask = 8\<rparr>, sample_route 30 0)]\<rparr>]\<rparr>"

theorem decision_process_run_refines_witness:
  "\<exists>router'. bgp_router_decision_process_run sample_env sample_marked [sample_route 30 0, sample_route 20 0]
     = Some (9, router', [route_flag_set ROUTE_FLAG_DP_IGP True (sample_route 20 0)])
   \<and> adj_find sample_env router' 30 \<lparr>network = 1, mask = 8\<rparr>
       = Some (route_flag_set ROUTE_FLAG_DP_IGP True (sample_route 30 0))
   \<and> adj_find sample_env router' 30 \<lparr>network = 0, mask = 9\<rparr> = None"
proof -
  let ?rs = "[sample_route 30 0, sample_route 20 0]"
  have rib: "bgp_rib (rib_trie sample_env) alist_trie_inv" by (simp add: sample_env_def alist_rib.bgp_rib_axioms)
  have ok: "adj_ribs_ok alist_trie_inv sample_marked"
    by (auto simp: adj_ribs_ok_def sample_marked_def bgp_router_find_peer_def bgp_peers_find_def bgp_peer_create_def
        alist_trie_inv_def pfx_wf_def pfx_norm_def split: if_splits)
  have c: "\<forall>r\<in>set ?rs. dp_candidate sample_env sample_marked r \<and> pfx_wf (pfx r)" "distinct (map peer ?rs)"
    "dp_select (dp_criteria sample_env sample_marked) 0 ?rs = (9, [route_flag_set ROUTE_FLAG_DP_IGP True (sample_route 20 0)])"
    "adj_find sample_env sample_marked 30 \<lparr>network = 1, mask = 8\<rparr> = Some (sample_route 30 0)"
    "adj_find sample_env sample_marked 30 \<lparr>network = 0, mask = 9\<rparr> = None"
    "\<exists>r\<in>set (igp_compared sample_env sample_marked ?rs). peer r = Some 30 \<and> pfx_norm (pfx r) = pfx_norm \<lparr>network = 1, mask = 8\<rparr>"
    by code_simp+
  show ?thesis
    using decision_process_run_refines [OF rib ok c(1,2)] c(3-) by auto
qed

text \<open>C1: The decision process, run for a prefix without a local route, does not stop the process and
  implements its specification: afterwards the Loc-RIB has a route for the prefix exactly when an
  established peer has announced an eligible route with a reachable next hop, and this route is equal (for
  \<open>route_equals\<close>) to the one that the nine criteria select among these.  The route in the routing table of the
  node has the next hop of the selected route as gateway; when the last route is lost, the routing table
  has no BGP route left for the prefix.\<close>

theorem decision_process_correct:
  assumes "bgp_environment env rinv tinv" "router_ok env rinv tinv router" "pfx_wf p"
    and "\<And>old. loc_find env router p = Some old \<Longrightarrow> \<not> route_flag_get old ROUTE_FLAG_INTERNAL"
  shows "\<exists>router'. bgp_router_decision_process env p router = Some router'
    \<and> (case snd (dp_select (dp_criteria env router) 0 (feasible_routes env router p)) of
         [] \<Rightarrow> feasible_routes env router p = [] \<and> loc_find env router' p = None
           \<and> (loc_find env router p \<noteq> None \<longrightarrow>
              (\<forall>i\<in>set (rt_routes (rtenv env) (node_rt (node router')) p). rt_type i \<noteq> NET_ROUTE_BGP))
       | b # _ \<Rightarrow> \<exists>l. loc_find env router' p = Some l \<and> route_equals l b = Some True
           \<and> (\<exists>i\<in>set (rt_routes (rtenv env) (node_rt (node router')) p).
                rt_type i = NET_ROUTE_BGP \<and> map gateway (entries i) = [next_hop (attr b)]))"
proof -
  note env = bgp_environment.process_effect [OF assms(1-4)]
  obtain router' where r: "bgp_router_decision_process env p router = Some router'" "router_ok env rinv tinv router'"
    "case dp_best env router p of
          None \<Rightarrow> loc_find env router' p = None \<and> (loc_find env router p \<noteq> None \<longrightarrow>
            (\<forall>i\<in>set (rt_routes (rtenv env) (node_rt (node router')) p). rt_type i \<noteq> NET_ROUTE_BGP))
        | Some b \<Rightarrow> \<exists>l. loc_find env router' p = Some l \<and> \<not> route_flag_get l ROUTE_FLAG_INTERNAL
            \<and> route_equals l b = Some True" using env by blast
  show ?thesis
  proof (cases "snd (dp_select (dp_criteria env router) 0 (feasible_routes env router p))")
    case Nil
    then have "feasible_routes env router p = []" using dp_select_props(1) [OF dp_criteria_select] by blast
    with Nil r(1,3) show ?thesis by (simp add: dp_best_def)
  next
    case (Cons b bs)
    then obtain l where l: "loc_find env router' p = Some l" "\<not> route_flag_get l ROUTE_FLAG_INTERNAL" "route_equals l b = Some True"
      using r(3) by (auto simp: dp_best_def)
    have "loc_route_ok env router' p l" using r(2) assms(3) l(1) by (simp add: router_ok_def loc_ok_def)
    moreover have "next_hop (attr l) = next_hop (attr b)"
      using l(3) by (auto simp: route_equals_def bgp_attr_cmp_def elim!: bind_SomeE split: if_splits)
    ultimately show ?thesis using Cons r(1) l by (auto simp: loc_route_ok_def)
  qed
qed

theorem decision_process_correct_witness:
  "\<exists>router' l. bgp_router_decision_process sample_env \<lparr>network = 1, mask = 8\<rparr> sample_decider = Some router'
     \<and> loc_find sample_env router' \<lparr>network = 1, mask = 8\<rparr> = Some l \<and> route_equals l sample_learned = Some True"
proof -
  let ?p = "\<lparr>network = 1, mask = 8\<rparr> :: ip_pfx"
  have p: "pfx_wf ?p" "loc_find sample_env sample_decider ?p = None"
    "snd (dp_select (dp_criteria sample_env sample_decider) 0 (feasible_routes sample_env sample_decider ?p)) = [sample_learned]"
    by code_simp+
  show ?thesis
    using decision_process_correct [OF sample.bgp_environment_axioms sample_decider_ok p(1)] p(2,3) by auto
qed

text \<open>C2: The decision process keeps the invariant of the router: the peers stay distinct, every Adj-RIB-In
  holds routes of its peer, every Adj-RIB-Out mirrors what was sent, the routing table stays ordered, and every
  route of the Loc-RIB that is not local has its peer and a BGP route with its next hop in the routing table.\<close>

theorem decision_process_invariant:
  assumes "bgp_environment env rinv tinv" "router_ok env rinv tinv router" "pfx_wf p"
  shows "\<exists>router'. bgp_router_decision_process env p router = Some router' \<and> router_ok env rinv tinv router'"
proof (cases "\<exists>old. loc_find env router p = Some old \<and> route_flag_get old ROUTE_FLAG_INTERNAL")
  case True
  then show ?thesis using bgp_environment.process_internal [OF assms(1)] assms(2) by blast
next
  case False
  then show ?thesis using bgp_environment.process_effect [OF assms] by blast
qed

theorem decision_process_invariant_witness:
  "\<exists>router'. bgp_router_decision_process sample_env \<lparr>network = 1, mask = 8\<rparr> sample_decider = Some router'
     \<and> router_ok sample_env alist_trie_inv alist_trie_inv router'"
  by (rule decision_process_invariant [OF sample.bgp_environment_axioms sample_decider_ok]) code_simp

text \<open>C3: The decision process for one prefix does not touch the others: for every other prefix the Loc-RIB, the
  routing table, the Adj-RIBs-In with the flags of their routes and the Adj-RIBs-Out are the same, and every message
  sent is an UPDATE or a WITHDRAW of this prefix.  For the prefix itself the Adj-RIBs-In keep their
  routes up to the marks.  The local networks and the configuration of the peers stay; a peer without
  session is sent nothing and keeps its Adj-RIB-Out.  A local route is never overridden.\<close>

theorem decision_process_frame:
  assumes "bgp_environment env rinv tinv" "router_ok env rinv tinv router" "pfx_wf p"
  shows "\<exists>router'. bgp_router_decision_process env p router = Some router' \<and> changes_at env p router router'
    \<and> (\<forall>old. loc_find env router p = Some old \<longrightarrow> route_flag_get old ROUTE_FLAG_INTERNAL \<longrightarrow> router' = router)"
proof (cases "\<exists>old. loc_find env router p = Some old \<and> route_flag_get old ROUTE_FLAG_INTERNAL")
  case True
  then show ?thesis using bgp_environment.process_internal [OF assms(1)] by fastforce
next
  case False
  then obtain router' where "bgp_router_decision_process env p router = Some router'" "changes_at env p router router'"
    using bgp_environment.process_effect [OF assms] by blast
  with False show ?thesis by blast
qed

theorem decision_process_frame_witness:
  "\<exists>router'. bgp_router_decision_process sample_env \<lparr>network = 1, mask = 8\<rparr> sample_decider = Some router'
     \<and> changes_at sample_env \<lparr>network = 1, mask = 8\<rparr> sample_decider router'"
proof -
  have "pfx_wf \<lparr>network = 1, mask = 8\<rparr>" by code_simp
  from decision_process_frame [OF sample.bgp_environment_axioms sample_decider_ok this] show ?thesis by blast
qed

end
