(* ===== verification/Bgp_Session.thy ===== *)
theory Bgp_Session
  imports Bgp_Decision
begin

text \<open>
  BGP sessions and the handling of messages: \<open>src/bgp/peer.c\<close>, and the parts of \<open>src/bgp/as.c\<close> that
  receive a message, start and stop a router, or run the decision process for several prefixes.

  A message is handled in the router that receives it; the messages sent in reply are appended to its
  \<open>outbox\<close>.  \<open>abort\<close> and a failed \<open>assert\<close> are \<^term>\<open>None\<close>.  The functions that traverse a RIB
  (\<open>rib_for_each\<close>) visit the prefixes it holds at the beginning and read each route when it is
  visited; the callbacks neither add nor remove routes of the RIB they traverse.
\<close>

section \<open>Traversals\<close>

fun for_each :: "('a \<Rightarrow> 's \<Rightarrow> 's option) \<Rightarrow> 'a list \<Rightarrow> 's \<Rightarrow> 's option" where
  "for_each f [] s = Some s"
| "for_each f (x # xs) s = do { s \<leftarrow> f x s; for_each f xs s }"

section \<open>Adj-RIB-In\<close>

definition bgp_peer_disable_adjribin ::
    "('t, 'r, 'z) bgp_env_scheme \<Rightarrow> net_addr \<Rightarrow> ip_pfx \<Rightarrow> ('t, 'r) bgp_router \<Rightarrow> ('t, 'r) bgp_router option" where
  "bgp_peer_disable_adjribin env addr p router = do {
     pr \<leftarrow> bgp_router_find_peer router addr;
     route \<leftarrow> rib_find_exact (rib_trie env) (adj_rib_in pr) p;
     if route_flag_get route ROUTE_FLAG_BEST then bgp_router_decision_process env (pfx route) router
     else Some router
   }"

definition bgp_peer_enable_adjribin ::
    "('t, 'r, 'z) bgp_env_scheme \<Rightarrow> net_addr \<Rightarrow> ip_pfx \<Rightarrow> ('t, 'r) bgp_router \<Rightarrow> ('t, 'r) bgp_router option" where
  "bgp_peer_enable_adjribin env addr p router = do {
     pr \<leftarrow> bgp_router_find_peer router addr;
     route \<leftarrow> rib_find_exact (rib_trie env) (adj_rib_in pr) p;
     bgp_router_decision_process env (pfx route) router
   }"

definition bgp_peer_adjrib_clear ::
    "('t, 'r, 'z) bgp_env_scheme \<Rightarrow> net_addr \<Rightarrow> bgp_rib_dir \<Rightarrow> ('t, 'r) bgp_router \<Rightarrow> ('t, 'r) bgp_router" where
  "bgp_peer_adjrib_clear env addr dir router =
     peer_modify addr (\<lambda>p. case dir of
        RIB_IN \<Rightarrow> p\<lparr>adj_rib_in := rib_create (rib_trie env)\<rparr>
      | RIB_OUT \<Rightarrow> p\<lparr>adj_rib_out := rib_create (rib_trie env)\<rparr>) router"

text \<open>The direction is given as the number 1, which is \<open>RIB_OUT\<close>, although the comment says Adj-RIB-In.\<close>

definition bgp_peer_rescan_adjribin ::
    "('t, 'r, 'z) bgp_env_scheme \<Rightarrow> net_addr \<Rightarrow> bool \<Rightarrow> ('t, 'r) bgp_router \<Rightarrow> ('t, 'r) bgp_router option" where
  "bgp_peer_rescan_adjribin env addr clear router = do {
     pr \<leftarrow> bgp_router_find_peer router addr;
     let ps = map pfx (rib_routes (rib_trie env) (adj_rib_in pr)) in
     if session_state pr = SESSION_STATE_ESTABLISHED
     then for_each (bgp_peer_enable_adjribin env addr) ps router
     else do {
       router \<leftarrow> for_each (bgp_peer_disable_adjribin env addr) ps router;
       Some (if clear then bgp_peer_adjrib_clear env addr RIB_OUT router else router)
     }
   }"

section \<open>The session\<close>

text \<open>The initialisation of the sequence numbers and of the router-ID.\<close>

definition session_reset :: "'r bgp_peer \<Rightarrow> 'r bgp_peer" where
  "session_reset p = p\<lparr>router_id := NET_ADDR_ANY, send_seq_num := 0, recv_seq_num := 0\<rparr>"

definition bgp_peer_open_session ::
    "('t, 'r, 'z) bgp_env_scheme \<Rightarrow> net_addr \<Rightarrow> ('t, 'r) bgp_router \<Rightarrow> (int \<times> ('t, 'r) bgp_router) option" where
  "bgp_peer_open_session env addr router = do {
     pr \<leftarrow> bgp_router_find_peer router addr;
     if session_state pr \<noteq> SESSION_STATE_IDLE \<and> session_state pr \<noteq> SESSION_STATE_ACTIVE
     then Some (EBGP_PEER_INVALID_STATE, router)
     else let router = peer_modify addr session_reset router in
       if \<not> bgp_peer_flag_get pr PEER_FLAG_VIRTUAL then do {
         (error, router) \<leftarrow> bgp_peer_send env addr (bgp_msg_open_create (r_asn router) (rid router)) router;
         let router = (if error = ESUCCESS
               then peer_modify addr (\<lambda>p. p\<lparr>session_state := SESSION_STATE_OPENWAIT\<rparr>) router
               else peer_modify addr (\<lambda>p. session_reset (p\<lparr>session_state := SESSION_STATE_ACTIVE\<rparr>)) router)
         in Some (ESUCCESS, peer_modify addr (\<lambda>p. p\<lparr>last_error := error\<rparr>) router)
       }
       else if bgp_peer_session_ok env pr router then
         (let router = peer_modify addr
                (\<lambda>p. p\<lparr>session_state := SESSION_STATE_ESTABLISHED, router_id := p_addr p\<rparr>) router
          in do {
            router \<leftarrow> (if bgp_peer_flag_get pr PEER_FLAG_SOFT_RESTART
                       then bgp_peer_rescan_adjribin env addr False router else Some router);
            Some (ESUCCESS, peer_modify addr (\<lambda>p. p\<lparr>last_error := ESUCCESS\<rparr>) router)
          })
       else Some (ESUCCESS, peer_modify addr
              (\<lambda>p. p\<lparr>session_state := SESSION_STATE_ACTIVE, last_error := EBGP_PEER_UNREACHABLE\<rparr>) router)
   }"

definition bgp_peer_close_session ::
    "('t, 'r, 'z) bgp_env_scheme \<Rightarrow> net_addr \<Rightarrow> ('t, 'r) bgp_router \<Rightarrow> (int \<times> ('t, 'r) bgp_router) option" where
  "bgp_peer_close_session env addr router = do {
     pr \<leftarrow> bgp_router_find_peer router addr;
     if session_state pr = SESSION_STATE_IDLE then Some (EBGP_PEER_INVALID_STATE, router)
     else do {
       router \<leftarrow> (if (session_state pr = SESSION_STATE_OPENWAIT \<or> session_state pr = SESSION_STATE_ESTABLISHED)
                     \<and> \<not> bgp_peer_flag_get pr PEER_FLAG_VIRTUAL
                  then map_option snd (bgp_peer_send env addr (bgp_msg_close_create (r_asn router)) router)
                  else Some router);
       let router = peer_modify addr (\<lambda>p. session_reset (p\<lparr>session_state := SESSION_STATE_IDLE\<rparr>)) router in do {
         router \<leftarrow> bgp_peer_rescan_adjribin env addr
           (\<not> (bgp_peer_flag_get pr PEER_FLAG_VIRTUAL \<and> bgp_peer_flag_get pr PEER_FLAG_SOFT_RESTART)) router;
         Some (ESUCCESS, router)
       }
     }
   }"

definition bgp_peer_session_refresh ::
    "('t, 'r, 'z) bgp_env_scheme \<Rightarrow> net_addr \<Rightarrow> ('t, 'r) bgp_router \<Rightarrow> ('t, 'r) bgp_router option" where
  "bgp_peer_session_refresh env addr router = do {
     pr \<leftarrow> bgp_router_find_peer router addr;
     if session_state pr = SESSION_STATE_ESTABLISHED \<or> session_state pr = SESSION_STATE_OPENWAIT then
       (if \<not> bgp_peer_session_ok env pr router then do {
          (result, router) \<leftarrow> bgp_peer_close_session env addr router;
          assert_opt (result = 0);
          Some (peer_modify addr (\<lambda>p. p\<lparr>session_state := SESSION_STATE_ACTIVE\<rparr>) router)
        }
        else Some router)
     else if session_state pr = SESSION_STATE_ACTIVE \<and> bgp_peer_session_ok env pr router then do {
       (result, router) \<leftarrow> bgp_peer_open_session env addr router;
       assert_opt (result = 0);
       Some router
     }
     else Some router
   }"

section \<open>Messages of a session\<close>

text \<open>\<open>rib_for_each\<close> over the Loc-RIB with \<open>_bgp_peer_prefix_disseminate\<close>.\<close>

definition bgp_peer_prefix_disseminate ::
    "('t, 'r, 'z) bgp_env_scheme \<Rightarrow> net_addr \<Rightarrow> bgp_route \<Rightarrow> ('t, 'r) bgp_router \<Rightarrow> ('t, 'r) bgp_router option" where
  "bgp_peer_prefix_disseminate env addr route router = disseminate_to_peer env (pfx route) (Some route) addr router"

definition bgp_peer_session_open_rcvd ::
    "('t, 'r, 'z) bgp_env_scheme \<Rightarrow> net_addr \<Rightarrow> net_addr \<Rightarrow> ('t, 'r) bgp_router \<Rightarrow> ('t, 'r) bgp_router option" where
  "bgp_peer_session_open_rcvd env addr id' router = do {
     pr \<leftarrow> bgp_router_find_peer router addr;
     assert_opt (\<not> bgp_peer_flag_get pr PEER_FLAG_VIRTUAL);
     case session_state pr of
       SESSION_STATE_ACTIVE \<Rightarrow>
         (let router = peer_modify addr (\<lambda>p. p\<lparr>session_state := SESSION_STATE_ESTABLISHED\<rparr>) router in do {
            (_, router) \<leftarrow> bgp_peer_send env addr (bgp_msg_open_create (r_asn router) (rid router)) router;
            for_each (bgp_peer_prefix_disseminate env addr) (rib_routes (rib_trie env) (loc_rib router)) router
          })
     | SESSION_STATE_OPENWAIT \<Rightarrow>
         (let router = peer_modify addr
                (\<lambda>p. p\<lparr>session_state := SESSION_STATE_ESTABLISHED, router_id := id'\<rparr>) router
          in for_each (bgp_peer_prefix_disseminate env addr) (rib_routes (rib_trie env) (loc_rib router)) router)
     | _ \<Rightarrow> None
   }"

definition bgp_peer_session_close_rcvd ::
    "('t, 'r, 'z) bgp_env_scheme \<Rightarrow> net_addr \<Rightarrow> ('t, 'r) bgp_router \<Rightarrow> ('t, 'r) bgp_router option" where
  "bgp_peer_session_close_rcvd env addr router = do {
     pr \<leftarrow> bgp_router_find_peer router addr;
     assert_opt (\<not> bgp_peer_flag_get pr PEER_FLAG_VIRTUAL);
     if session_state pr = SESSION_STATE_ESTABLISHED \<or> session_state pr = SESSION_STATE_OPENWAIT then
       bgp_peer_rescan_adjribin env addr (\<not> bgp_peer_flag_get pr PEER_FLAG_VIRTUAL)
         (peer_modify addr (\<lambda>p. session_reset (p\<lparr>session_state := SESSION_STATE_ACTIVE\<rparr>)) router)
     else Some router
   }"

section \<open>UPDATE and WITHDRAW\<close>

definition peer_route_rr_client_update :: "'r bgp_peer \<Rightarrow> bgp_route \<Rightarrow> bgp_route" where
  "peer_route_rr_client_update pr route =
     route_flag_set ROUTE_FLAG_RR_CLIENT (bgp_peer_flag_get pr PEER_FLAG_RR_CLIENT) route"

text \<open>Without the experimental options, the communities are traversed and nothing is done.\<close>

definition peer_comm_process :: "bgp_route \<Rightarrow> bool" where
  "peer_comm_process route = True"

definition bgp_peer_route_eligible ::
    "('t, 'r, 'z) bgp_env_scheme \<Rightarrow> ('t, 'r) bgp_router \<Rightarrow> 'r bgp_peer \<Rightarrow> bgp_route \<Rightarrow> (bool \<times> bgp_route) option" where
  "bgp_peer_route_eligible env router pr route =
     (if route_path_contains route (r_asn router) then Some (False, route)
      else if originator (attr route) = Some (rid router) then Some (False, route)
      else if cluster_list (attr route) \<noteq> None \<and> route_cluster_list_contains route (cluster_id router)
      then Some (False, route)
      else do {
        (accept, route) \<leftarrow> filter_apply env (filter_in pr) (flt_router_of router) route;
        if \<not> accept then Some (False, route)
        else if \<not> peer_comm_process route then Some (False, route)
        else Some (True, route)
      })"

definition bgp_peer_route_feasible ::
    "('t, 'r, 'z) bgp_env_scheme \<Rightarrow> ('t, 'r) bgp_router \<Rightarrow> bgp_route \<Rightarrow> bool option" where
  "bgp_peer_route_feasible env router route =
     map_option (\<lambda>rtentries. rtentries \<noteq> None)
       (node_rt_lookup (rtenv env) (node_rt (node router)) (next_hop (attr route)))"

text \<open>The route of a message as it is checked and stored: first up to the flags, then with the flags.\<close>

definition received_route :: "('t, 'r, 'z) bgp_env_scheme \<Rightarrow> ('t, 'r) bgp_router \<Rightarrow> 'r bgp_peer \<Rightarrow> bgp_route \<Rightarrow> bgp_route" where
  "received_route env router pr route =
     (let route = route_peer_set (Some (p_addr pr)) route;
          route = (if p_asn pr \<noteq> r_asn router then route_localpref_set (options_local_pref env) route else route)
      in route_flag_set ROUTE_FLAG_INTERNAL False (route_flag_set ROUTE_FLAG_BEST False route))"

definition imported_route ::
    "('t, 'r, 'z) bgp_env_scheme \<Rightarrow> ('t, 'r) bgp_router \<Rightarrow> 'r bgp_peer \<Rightarrow> bgp_route \<Rightarrow> bgp_route option" where
  "imported_route env router pr route = do {
     (eligible, route) \<leftarrow> bgp_peer_route_eligible env router pr (received_route env router pr route);
     let route = route_flag_set ROUTE_FLAG_ELIGIBLE eligible route in do {
       feasible \<leftarrow> bgp_peer_route_feasible env router route;
       Some (peer_route_rr_client_update pr (route_flag_set ROUTE_FLAG_FEASIBLE feasible route))
     }
   }"

definition bgp_peer_process_update ::
    "('t, 'r, 'z) bgp_env_scheme \<Rightarrow> net_addr \<Rightarrow> bgp_route \<Rightarrow> ('t, 'r) bgp_router \<Rightarrow> ('t, 'r) bgp_router option" where
  "bgp_peer_process_update env addr route router = do {
     pr \<leftarrow> bgp_router_find_peer router addr;
     route \<leftarrow> imported_route env router pr route;
     let old_route = rib_find_exact (rib_trie env) (adj_rib_in pr) (pfx route);
         need_DP_run = ((old_route \<noteq> None \<and> route_flag_get (the old_route) ROUTE_FLAG_BEST)
                        \<or> route_flag_get route ROUTE_FLAG_ELIGIBLE)
     in do {
       router \<leftarrow> (if route_flag_get route ROUTE_FLAG_ELIGIBLE then
            (let (result, rib) = rib_replace_route (rib_trie env) (adj_rib_in pr) route in do {
               assert_opt (result = 0);
               Some (peer_modify addr (\<lambda>p. p\<lparr>adj_rib_in := rib\<rparr>) router)
             })
          else if old_route \<noteq> None then
            (let (result, rib) = rib_remove_route (rib_trie env) (adj_rib_in pr) (pfx route) in do {
               assert_opt (result = 0);
               Some (peer_modify addr (\<lambda>p. p\<lparr>adj_rib_in := rib\<rparr>) router)
             })
          else Some router);
       if need_DP_run then bgp_router_decision_process env (pfx route) router else Some router
     }
   }"

definition bgp_peer_process_withdraw ::
    "('t, 'r, 'z) bgp_env_scheme \<Rightarrow> net_addr \<Rightarrow> ip_pfx \<Rightarrow> ('t, 'r) bgp_router \<Rightarrow> ('t, 'r) bgp_router option" where
  "bgp_peer_process_withdraw env addr p router = do {
     pr \<leftarrow> bgp_router_find_peer router addr;
     if rib_find_exact (rib_trie env) (adj_rib_in pr) p = None then Some router
     else let router = adj_in_modify env addr p (route_flag_set ROUTE_FLAG_ELIGIBLE False) router in do {
       router \<leftarrow> bgp_router_decision_process env p router;
       pr \<leftarrow> bgp_router_find_peer router addr;
       let (result, rib) = rib_remove_route (rib_trie env) (adj_rib_in pr) p in do {
         assert_opt (result = 0);
         Some (peer_modify addr (\<lambda>p. p\<lparr>adj_rib_in := rib\<rparr>) router)
       }
     }
   }"

text \<open>The state in which UPDATE and WITHDRAW are accepted.\<close>

definition session_establish :: "net_addr \<Rightarrow> ('t, 'r) bgp_router \<Rightarrow> ('t, 'r) bgp_router option" where
  "session_establish addr router = do {
     pr \<leftarrow> bgp_router_find_peer router addr;
     case session_state pr of
       SESSION_STATE_OPENWAIT \<Rightarrow> Some (peer_modify addr (\<lambda>p. p\<lparr>session_state := SESSION_STATE_ESTABLISHED\<rparr>) router)
     | SESSION_STATE_ESTABLISHED \<Rightarrow> Some router
     | _ \<Rightarrow> None
   }"

definition bgp_peer_session_update_rcvd ::
    "('t, 'r, 'z) bgp_env_scheme \<Rightarrow> net_addr \<Rightarrow> bgp_route \<Rightarrow> ('t, 'r) bgp_router \<Rightarrow> ('t, 'r) bgp_router option" where
  "bgp_peer_session_update_rcvd env addr route router = do {
     router \<leftarrow> session_establish addr router;
     bgp_peer_process_update env addr route router
   }"

definition bgp_peer_session_withdraw_rcvd ::
    "('t, 'r, 'z) bgp_env_scheme \<Rightarrow> net_addr \<Rightarrow> ip_pfx \<Rightarrow> ('t, 'r) bgp_router \<Rightarrow> ('t, 'r) bgp_router option" where
  "bgp_peer_session_withdraw_rcvd env addr p router = do {
     router \<leftarrow> session_establish addr router;
     bgp_peer_process_withdraw env addr p router
   }"

section \<open>Messages\<close>

definition bgp_peer_seqnum_check :: "'r bgp_peer \<Rightarrow> bgp_msg \<Rightarrow> int" where
  "bgp_peer_seqnum_check pr msg =
     (if \<not> bgp_peer_flag_get pr PEER_FLAG_VIRTUAL \<and> recv_seq_num pr \<noteq> seq_num msg
         \<and> payload msg \<noteq> BGP_MSG_TYPE_CLOSE
      then -1 else 0)"

definition bgp_peer_handle_message ::
    "('t, 'r, 'z) bgp_env_scheme \<Rightarrow> net_addr \<Rightarrow> bgp_msg \<Rightarrow> ('t, 'r) bgp_router
     \<Rightarrow> (int \<times> ('t, 'r) bgp_router) option" where
  "bgp_peer_handle_message env addr msg router = do {
     pr \<leftarrow> bgp_router_find_peer router addr;
     if bgp_peer_seqnum_check pr msg < 0 then Some (EBGP_PEER_OUT_OF_SEQ, router)
     else let router = peer_modify addr (\<lambda>p. p\<lparr>recv_seq_num := recv_seq_num p + 1\<rparr>) router in
       map_option (Pair 0)
         (case payload msg of
            BGP_MSG_TYPE_UPDATE route \<Rightarrow> bgp_peer_session_update_rcvd env addr route router
          | BGP_MSG_TYPE_WITHDRAW p \<Rightarrow> bgp_peer_session_withdraw_rcvd env addr p router
          | BGP_MSG_TYPE_CLOSE \<Rightarrow> bgp_peer_session_close_rcvd env addr router
          | BGP_MSG_TYPE_OPEN id' \<Rightarrow> bgp_peer_session_open_rcvd env addr id' router)
   }"

text \<open>A message from an address that is not a peer is an error.\<close>

definition bgp_router_handle_message ::
    "('t, 'r, 'z) bgp_env_scheme \<Rightarrow> net_addr \<Rightarrow> bgp_msg \<Rightarrow> ('t, 'r) bgp_router
     \<Rightarrow> (int \<times> ('t, 'r) bgp_router) option" where
  "bgp_router_handle_message env src msg router =
     (if bgp_router_find_peer router src \<noteq> None then bgp_peer_handle_message env src msg router
      else Some (-1, router))"

section \<open>The router\<close>

text \<open>A loop over the peers that ends at the first result that is not 0.\<close>

fun peers_loop ::
    "(net_addr \<Rightarrow> ('t, 'r) bgp_router \<Rightarrow> (int \<times> ('t, 'r) bgp_router) option) \<Rightarrow> net_addr list \<Rightarrow> ('t, 'r) bgp_router
     \<Rightarrow> (int \<times> ('t, 'r) bgp_router) option" where
  "peers_loop f [] router = Some (ESUCCESS, router)"
| "peers_loop f (addr # addrs) router = do {
     (result, router) \<leftarrow> f addr router;
     if result \<noteq> 0 then Some (-1, router) else peers_loop f addrs router
   }"

definition bgp_router_start ::
    "('t, 'r, 'z) bgp_env_scheme \<Rightarrow> ('t, 'r) bgp_router \<Rightarrow> (int \<times> ('t, 'r) bgp_router) option" where
  "bgp_router_start env router = peers_loop (bgp_peer_open_session env) (map p_addr (peers router)) router"

definition bgp_router_stop ::
    "('t, 'r, 'z) bgp_env_scheme \<Rightarrow> ('t, 'r) bgp_router \<Rightarrow> (int \<times> ('t, 'r) bgp_router) option" where
  "bgp_router_stop env router = peers_loop (bgp_peer_close_session env) (map p_addr (peers router)) router"

definition bgp_router_reset ::
    "('t, 'r, 'z) bgp_env_scheme \<Rightarrow> ('t, 'r) bgp_router \<Rightarrow> (int \<times> ('t, 'r) bgp_router) option" where
  "bgp_router_reset env router = do {
     (result, router) \<leftarrow> bgp_router_stop env router;
     if result \<noteq> ESUCCESS then Some (result, router) else bgp_router_start env router
   }"

definition bgp_router_clear_adj_rib ::
    "('t, 'r, 'z) bgp_env_scheme \<Rightarrow> ('t, 'r) bgp_router \<Rightarrow> int \<times> ('t, 'r) bgp_router" where
  "bgp_router_clear_adj_rib env router =
     (0, router\<lparr>peers := map (\<lambda>p. p\<lparr>adj_rib_in := rib_create (rib_trie env),
                                   adj_rib_out := rib_create (rib_trie env)\<rparr>) (peers router)\<rparr>)"

definition bgp_router_clear_rib ::
    "('t, 'r, 'z) bgp_env_scheme \<Rightarrow> ('t, 'r) bgp_router \<Rightarrow> int \<times> ('t, 'r) bgp_router" where
  "bgp_router_clear_rib env router =
     (0, router\<lparr>loc_rib := rib_create (rib_trie env),
               peers := map (\<lambda>p. p\<lparr>adj_rib_in := rib_create (rib_trie env),
                                   adj_rib_out := rib_create (rib_trie env)\<rparr>) (peers router)\<rparr>)"

section \<open>Several prefixes\<close>

text \<open>The list of prefixes is a radix tree of libgds; \<open>radix\<close> gives the prefixes in the order of a traversal of
  the tree to which the argument was added.\<close>

definition bgp_router_get_peer_prefixes ::
    "('t, 'r, 'z) bgp_env_scheme \<Rightarrow> ('t, 'r) bgp_router \<Rightarrow> 'r bgp_peer option \<Rightarrow> ip_pfx list" where
  "bgp_router_get_peer_prefixes env router pr =
     (case pr of
        Some p \<Rightarrow> map pfx (rib_routes (rib_trie env) (adj_rib_in p))
      | None \<Rightarrow> concat (map (\<lambda>p. map pfx (rib_routes (rib_trie env) (adj_rib_in p))) (peers router)))"

definition bgp_router_get_local_prefixes ::
    "('t, 'r, 'z) bgp_env_scheme \<Rightarrow> ('t, 'r) bgp_router \<Rightarrow> ip_pfx list" where
  "bgp_router_get_local_prefixes env router = map pfx (rib_routes (rib_trie env) (loc_rib router))"

definition bgp_router_prefixes ::
    "(ip_pfx list \<Rightarrow> ip_pfx list) \<Rightarrow> ('t, 'r, 'z) bgp_env_scheme \<Rightarrow> ('t, 'r) bgp_router \<Rightarrow> ip_pfx list" where
  "bgp_router_prefixes radix env router =
     radix (bgp_router_get_peer_prefixes env router None @ bgp_router_get_local_prefixes env router)"

definition bgp_router_refresh_sessions ::
    "('t, 'r, 'z) bgp_env_scheme \<Rightarrow> ('t, 'r) bgp_router \<Rightarrow> ('t, 'r) bgp_router option" where
  "bgp_router_refresh_sessions env router = for_each (bgp_peer_session_refresh env) (map p_addr (peers router)) router"

text \<open>The function appends every prefix and returns; the code after the return is not reached.\<close>

definition bgp_router_scan_rib_for_each :: "ip_pfx \<Rightarrow> ip_pfx list \<Rightarrow> int \<times> ip_pfx list" where
  "bgp_router_scan_rib_for_each p ps = (0, ps @ [p])"

fun scan_rib_loop :: "ip_pfx list \<Rightarrow> ip_pfx list \<Rightarrow> int \<times> ip_pfx list" where
  "scan_rib_loop [] acc = (0, acc)"
| "scan_rib_loop (p # ps) acc =
     (let (result, acc) = bgp_router_scan_rib_for_each p acc in
      if result \<noteq> 0 then (result, acc) else scan_rib_loop ps acc)"

definition bgp_router_scan_rib ::
    "(ip_pfx list \<Rightarrow> ip_pfx list) \<Rightarrow> ('t, 'r, 'z) bgp_env_scheme \<Rightarrow> ('t, 'r) bgp_router
     \<Rightarrow> (int \<times> ('t, 'r) bgp_router) option" where
  "bgp_router_scan_rib radix env router = do {
     router \<leftarrow> bgp_router_refresh_sessions env router;
     let (result, ps) = scan_rib_loop (bgp_router_prefixes radix env router) [] in do {
       router \<leftarrow> (if result = 0 then for_each (bgp_router_decision_process env) ps router else Some router);
       Some (result, router)
     }
   }"

definition bgp_router_rerun ::
    "(ip_pfx list \<Rightarrow> ip_pfx list) \<Rightarrow> ('t, 'r, 'z) bgp_env_scheme \<Rightarrow> ip_pfx \<Rightarrow> ('t, 'r) bgp_router
     \<Rightarrow> (int \<times> ('t, 'r) bgp_router) option" where
  "bgp_router_rerun radix env p router =
     (let ps = (if mask p = 0 then bgp_router_prefixes radix env router else radix [p])
      in map_option (Pair 0) (for_each (bgp_router_decision_process env) ps router))"

definition bgp_router_peer_readv_prefix ::
    "('t, 'r, 'z) bgp_env_scheme \<Rightarrow> net_addr \<Rightarrow> ip_pfx \<Rightarrow> ('t, 'r) bgp_router
     \<Rightarrow> (int \<times> ('t, 'r) bgp_router) option" where
  "bgp_router_peer_readv_prefix env addr p router =
     (if mask p = 0 then Some (-1, router)
      else case rib_find_exact (rib_trie env) (loc_rib router) p of
        None \<Rightarrow> Some (0, router)
      | Some route \<Rightarrow> map_option (Pair 0) (disseminate_to_peer env p (Some route) addr router))"

section \<open>A change of one peer\<close>

lemma router_ok_peer:
  assumes ok: "router_ok env rinv tinv router" and find: "bgp_router_find_peer router a = Some pr"
    and addr: "\<And>p. p_addr (f p) = p_addr p"
    and adj: "rinv (adj_rib_in (f pr))"
      "\<And>p r. rib_find_exact (rib_trie env) (adj_rib_in (f pr)) p = Some r \<Longrightarrow> adj_route_ok env a p r"
    and out: "rinv (adj_rib_out (f pr))"
      "\<And>p. \<not> bgp_peer_flag_get (f pr) PEER_FLAG_VIRTUAL \<Longrightarrow> session_state (f pr) = SESSION_STATE_ESTABLISHED \<Longrightarrow>
        rib_find_exact (rib_trie env) (adj_rib_out (f pr)) p \<noteq> None \<longleftrightarrow> announced a p (outbox router @ ob)"
    and flt: "peer_filters_ok env (f pr)" and ob: "\<forall>m\<in>set ob. fst m = a"
  shows "router_ok env rinv tinv ((peer_modify a f router)\<lparr>outbox := outbox router @ ob\<rparr>)"
proof -
  let ?r = "(peer_modify a f router)\<lparr>outbox := outbox router @ ob\<rparr>"
  have find': "bgp_router_find_peer (peer_modify a f router) b
      = map_option (\<lambda>p. if b = a then f p else p) (bgp_router_find_peer router b)" for b
    by (rule find_peer_modify) (rule addr)
  have none: "bgp_router_find_peer ?r b = None \<longleftrightarrow> bgp_router_find_peer router b = None" for b
    by (simp add: find')
  have "adj_ribs_ok rinv ?r"
    using ok adj(1) find by (auto simp: adj_ribs_ok_def router_ok_def adj_ok_def find')
  moreover have "adj_route_ok env b p r" if "adj_find env ?r b p = Some r" for b p r
    using that ok adj(2) find
    by (cases "b = a") (auto simp: adj_find_def find' router_ok_def adj_ok_def elim!: bind_SomeE)
  ultimately have "adj_ok env rinv ?r" by (simp add: adj_ok_def)
  moreover have "loc_ok env rinv ?r"
    by (rule loc_ok_same_peers [OF _ _ _ none]) (use ok in \<open>simp_all add: router_ok_def\<close>)
  moreover have "rib_out_ok env rinv ?r"
    unfolding rib_out_ok_def
  proof (intro allI impI)
    fix b q assume b: "bgp_router_find_peer ?r b = Some q"
    show "rinv (adj_rib_out q) \<and> (\<not> bgp_peer_flag_get q PEER_FLAG_VIRTUAL \<and> session_state q = SESSION_STATE_ESTABLISHED \<longrightarrow>
      (\<forall>p. rib_find_exact (rib_trie env) (adj_rib_out q) p \<noteq> None \<longleftrightarrow> announced b p (outbox ?r)))"
    proof (cases "b = a")
      case True
      with b find have "q = f pr" by (simp add: find')
      with out True show ?thesis by simp
    next
      case False
      with b have "bgp_router_find_peer router b = Some q" by (simp add: find')
      with ok announced_append_other [OF ob False] show ?thesis by (simp add: router_ok_def rib_out_ok_def)
    qed
  qed
  moreover have "peer_filters_ok env q" if "bgp_router_find_peer ?r b = Some q" for b q
    using that ok flt find by (auto simp: find' router_ok_def split: if_splits)
  moreover have "map p_addr (peers ?r) = map p_addr (peers router)"
    using map_p_addr_modify [of f a router] addr by simp
  ultimately show ?thesis using ok by (simp add: router_ok_def)
qed

text \<open>What the invariant says of one peer.\<close>

lemma router_ok_found:
  assumes "router_ok env rinv tinv router" "bgp_router_find_peer router a = Some pr"
  shows "rinv (adj_rib_in pr)" "rinv (adj_rib_out pr)" "peer_filters_ok env pr"
    "\<And>p r. rib_find_exact (rib_trie env) (adj_rib_in pr) p = Some r \<Longrightarrow> adj_route_ok env a p r"
    "\<And>p. \<not> bgp_peer_flag_get pr PEER_FLAG_VIRTUAL \<Longrightarrow> session_state pr = SESSION_STATE_ESTABLISHED \<Longrightarrow>
       rib_find_exact (rib_trie env) (adj_rib_out pr) p \<noteq> None \<longleftrightarrow> announced a p (outbox router)"
  using assms by (auto simp: router_ok_def adj_ok_def adj_ribs_ok_def adj_find_def rib_out_ok_def)

text \<open>A change that keeps the RIBs, the filters and the flags; a session that it establishes starts with an
  empty Adj-RIB-Out.\<close>

lemma router_ok_session:
  assumes ok: "router_ok env rinv tinv router" and find: "bgp_router_find_peer router a = Some pr"
    and f: "\<And>p. p_addr (f p) = p_addr p" "adj_rib_in (f pr) = adj_rib_in pr" "adj_rib_out (f pr) = adj_rib_out pr"
      "filter_in (f pr) = filter_in pr" "filter_out (f pr) = filter_out pr" "p_flags (f pr) = p_flags pr"
    and state: "\<And>p. \<not> bgp_peer_flag_get pr PEER_FLAG_VIRTUAL \<Longrightarrow> session_state (f pr) = SESSION_STATE_ESTABLISHED \<Longrightarrow>
       rib_find_exact (rib_trie env) (adj_rib_out pr) p \<noteq> None \<longleftrightarrow> announced a p (outbox router @ ob)"
    and ob: "\<forall>m\<in>set ob. fst m = a"
  shows "router_ok env rinv tinv ((peer_modify a f router)\<lparr>outbox := outbox router @ ob\<rparr>)"
proof -
  note pr = router_ok_found [OF ok find]
  have flags: "bgp_peer_flag_get (f pr) = bgp_peer_flag_get pr" using f(6) by (simp add: bgp_peer_flag_get_def fun_eq_iff)
  show ?thesis
  proof (rule router_ok_peer [OF ok find f(1)])
    show "peer_filters_ok env (f pr)" using pr(3) f by (simp add: peer_filters_ok_def)
  qed (use pr state ob in \<open>auto simp: f flags\<close>)
qed

lemma outbox_id: "(peer_modify a f router)\<lparr>outbox := outbox router @ []\<rparr> = peer_modify a f router"
  by (simp add: peer_modify_def)

section \<open>Received routes\<close>

lemma route_handled_cong:
  assumes "pfx s = pfx r" "path_ref (attr s) = path_ref (attr r)" "comms (attr s) = comms (attr r)"
    "ecomms (attr s) = ecomms (attr r)" "cluster_list (attr s) = cluster_list (attr r)"
  shows "route_handled env s = route_handled env r"
  by (simp add: assms route_handled_def route_wf_def interned_def route_path_length_def route_path_last_as_def)

lemma received_route_fields:
  "pfx (received_route env router pr r) = pfx r" "peer (received_route env router pr r) = Some (p_addr pr)"
  "path_ref (attr (received_route env router pr r)) = path_ref (attr r)"
  "comms (attr (received_route env router pr r)) = comms (attr r)"
  "ecomms (attr (received_route env router pr r)) = ecomms (attr r)"
  "cluster_list (attr (received_route env router pr r)) = cluster_list (attr r)"
  "originator (attr (received_route env router pr r)) = originator (attr r)"
  "next_hop (attr (received_route env router pr r)) = next_hop (attr r)"
  by (simp_all add: received_route_def Let_def route_peer_set_def route_localpref_set_def)

lemma received_route_flags:
  "\<not> route_flag_get (received_route env router pr r) ROUTE_FLAG_INTERNAL"
  "\<not> route_flag_get (received_route env router pr r) ROUTE_FLAG_BEST"
proof -
  have "ROUTE_FLAG_INTERNAL AND ROUTE_FLAG_BEST = 0" by (simp add: route_flag_defs)
  then show "\<not> route_flag_get (received_route env router pr r) ROUTE_FLAG_INTERNAL"
    "\<not> route_flag_get (received_route env router pr r) ROUTE_FLAG_BEST"
    unfolding received_route_def Let_def by (simp_all add: route_flag_get_set route_flag_get_set_other)
qed

text \<open>A route without a loop: the AS of the router is not in its path, and the router neither originated nor
  reflected it.\<close>

definition loop_free :: "('t, 'r) bgp_router \<Rightarrow> bgp_route \<Rightarrow> bool" where
  "loop_free router r \<longleftrightarrow>
     r_asn router \<notin> set (ref_asns (path_ref (attr r))) \<and> originator (attr r) \<noteq> Some (rid router)
   \<and> \<not> route_cluster_list_contains r (cluster_id router)"

lemma eligible_effect:
  assumes "filter_keeps env (filter_in pr)" "route_handled env r"
  obtains b r' where "bgp_peer_route_eligible env router pr r = Some (b, r')" "route_handled env r'" "filter_frame r r'"
    "b \<Longrightarrow> loop_free router r" "b \<longleftrightarrow> loop_free router r
      \<and> (\<exists>s. filter_apply env (filter_in pr) (flt_router_of router) r = Some (True, s))"
proof -
  obtain b s where s: "filter_apply env (filter_in pr) (flt_router_of router) r = Some (b, s)" "route_handled env s"
    using assms unfolding filter_keeps_def by blast
  have cl: "cluster_list (attr r) = None \<Longrightarrow> \<not> route_cluster_list_contains r c" for c
    by (simp add: route_cluster_list_contains_def)
  show thesis
  proof (cases "loop_free router r")
    case True
    then have "bgp_peer_route_eligible env router pr r = Some (b, s)"
      using s(1)
      by (cases b) (simp_all add: bgp_peer_route_eligible_def loop_free_def route_path_contains_ref peer_comm_process_def)
    then show thesis
      by (rule that [OF _ s(2) filter_apply_keeps [OF s(1)]]) (use True s(1) in simp_all)
  next
    case False
    then have "bgp_peer_route_eligible env router pr r = Some (False, r)"
      using cl by (auto simp: bgp_peer_route_eligible_def loop_free_def route_path_contains_ref)
    with that [of False r] assms(2) False show thesis by simp
  qed
qed

lemma flag_get_others:
  assumes "f \<in> {ROUTE_FLAG_ELIGIBLE, ROUTE_FLAG_FEASIBLE, ROUTE_FLAG_RR_CLIENT}"
  shows "route_flag_get (route_flag_set f b r) ROUTE_FLAG_INTERNAL = route_flag_get r ROUTE_FLAG_INTERNAL"
    and "route_flag_get (route_flag_set f b r) ROUTE_FLAG_BEST = route_flag_get r ROUTE_FLAG_BEST"
  using assms by (auto intro!: route_flag_get_set_other simp: route_flag_defs)

lemma flag_get_eligible:
  "route_flag_get (route_flag_set ROUTE_FLAG_FEASIBLE b r) ROUTE_FLAG_ELIGIBLE = route_flag_get r ROUTE_FLAG_ELIGIBLE"
  "route_flag_get (route_flag_set ROUTE_FLAG_RR_CLIENT b r) ROUTE_FLAG_ELIGIBLE = route_flag_get r ROUTE_FLAG_ELIGIBLE"
  "route_flag_get (route_flag_set ROUTE_FLAG_ELIGIBLE b r) ROUTE_FLAG_ELIGIBLE = b"
  by (rule route_flag_get_set_other, simp add: route_flag_defs)+ (simp add: route_flag_get_set, simp add: route_flag_defs)

context bgp_environment
begin

lemma import_effect:
  assumes ok: "router_ok env rinv tinv router" and find: "bgp_router_find_peer router a = Some pr"
    and r: "route_handled env r"
  obtains r' where "imported_route env router pr r = Some r'" "adj_route_ok env a (pfx r) r'" "pfx r' = pfx r"
    "\<not> route_flag_get r' ROUTE_FLAG_BEST"
    "route_flag_get r' ROUTE_FLAG_ELIGIBLE \<longleftrightarrow> loop_free router r \<and>
       (\<exists>s. filter_apply env (filter_in pr) (flt_router_of router) (received_route env router pr r) = Some (True, s))"
proof -
  let ?r = "received_route env router pr r"
  have "filter_keeps env (filter_in pr)" using ok find by (auto simp: router_ok_def peer_filters_ok_def)
  moreover have "route_handled env ?r"
    using route_handled_cong [of ?r r env] r by (simp add: received_route_fields)
  ultimately obtain b s where s: "bgp_peer_route_eligible env router pr ?r = Some (b, s)" "route_handled env s"
    "filter_frame ?r s" "b \<longleftrightarrow> loop_free router ?r
      \<and> (\<exists>s. filter_apply env (filter_in pr) (flt_router_of router) ?r = Some (True, s))"
    by (rule eligible_effect)
  have lf: "loop_free router ?r = loop_free router r"
    by (simp add: loop_free_def received_route_fields route_cluster_list_contains_def)
  let ?s = "route_flag_set ROUTE_FLAG_ELIGIBLE b s"
  obtain x where "rt_find_best (rtenv env) (node_rt (node router)) (next_hop (attr ?s)) NET_ROUTE_ANY = Some x"
    using lookup_total [OF ok] by blast
  then obtain c where c: "bgp_peer_route_feasible env router ?s = Some c"
    by (simp add: bgp_peer_route_feasible_def node_rt_lookup_def)
  define r' where "r' = peer_route_rr_client_update pr (route_flag_set ROUTE_FLAG_FEASIBLE c ?s)"
  have imp: "imported_route env router pr r = Some r'"
    using s(1) c by (simp add: imported_route_def r'_def)
  have fields: "pfx r' = pfx r" "peer r' = Some a" "attr r' = attr s"
    using s(3) find_peer_addr [OF find]
    by (simp_all add: r'_def peer_route_rr_client_update_def filter_frame_def received_route_fields)
  have "route_flag_get s f = route_flag_get ?r f" for f
    using s(3) by (simp add: filter_frame_def route_flag_get_def)
  then have flags: "\<not> route_flag_get r' ROUTE_FLAG_INTERNAL" "\<not> route_flag_get r' ROUTE_FLAG_BEST"
    "route_flag_get r' ROUTE_FLAG_ELIGIBLE = b"
    by (simp_all add: r'_def peer_route_rr_client_update_def flag_get_others flag_get_eligible received_route_flags)
  have "route_handled env r'"
    using route_handled_cong [of r' s env] s(2,3) fields by (simp add: filter_frame_def received_route_fields)
  then have "adj_route_ok env a (pfx r) r'"
    using fields flags(1) by (simp add: adj_route_ok_def route_handled_def)
  with imp fields(1) flags s(4) lf that show thesis by blast
qed

end

section \<open>UPDATE and WITHDRAW\<close>

text \<open>The router after a change of one route of an Adj-RIB-In.\<close>

definition adj_updated ::
    "('t, 'r, 'z) bgp_env_scheme \<Rightarrow> net_addr \<Rightarrow> ip_pfx \<Rightarrow> bgp_route option \<Rightarrow> ('t, 'r) bgp_router
     \<Rightarrow> ('t, 'r) bgp_router \<Rightarrow> bool" where
  "adj_updated env a p x router router' \<longleftrightarrow>
     adj_in_only router router'
   \<and> (\<forall>b q. adj_find env router' b q = (if b = a \<and> pfx_norm q = pfx_norm p then x else adj_find env router b q))"

lemma adj_in_only_rib: "adj_in_only router (peer_modify a (\<lambda>p. p\<lparr>adj_rib_in := g p\<rparr>) router)"
proof -
  have *: "\<exists>rib'. (if p_addr q = a then q\<lparr>adj_rib_in := g q\<rparr> else q) = q\<lparr>adj_rib_in := rib'\<rparr>" for q
    by (rule exI [of _ "if p_addr q = a then g q else adj_rib_in q"]) simp
  show ?thesis
    unfolding adj_in_only_def peer_modify_def
    by (rule exI, rule conjI, rule refl) (unfold list_all2_map2 list_all2_same, blast intro: *)
qed

lemma adj_updated_rib:
  assumes "bgp_router_find_peer router a = Some pr"
    and "\<And>q. rib_find_exact (rib_trie env) (g pr) q
       = (if pfx_norm q = pfx_norm p then x else rib_find_exact (rib_trie env) (adj_rib_in pr) q)"
  shows "adj_updated env a p x router (peer_modify a (\<lambda>p. p\<lparr>adj_rib_in := g p\<rparr>) router)"
proof -
  have "bgp_router_find_peer (peer_modify a (\<lambda>p. p\<lparr>adj_rib_in := g p\<rparr>) router) b
      = map_option (\<lambda>p. if b = a then p\<lparr>adj_rib_in := g p\<rparr> else p) (bgp_router_find_peer router b)" for b
    by (rule find_peer_modify) simp
  with assms have "adj_find env (peer_modify a (\<lambda>p. p\<lparr>adj_rib_in := g p\<rparr>) router) b q
      = (if b = a \<and> pfx_norm q = pfx_norm p then x else adj_find env router b q)" for b q
    by (cases "bgp_router_find_peer router b") (auto simp: adj_find_def)
  with adj_in_only_rib show ?thesis by (simp add: adj_updated_def)
qed

lemma router_ok_updated:
  assumes ok: "router_ok env rinv tinv router" and find: "bgp_router_find_peer router a = Some pr"
    and rib: "rinv (g pr)" "\<And>q r. rib_find_exact (rib_trie env) (g pr) q = Some r \<Longrightarrow> adj_route_ok env a q r"
  shows "router_ok env rinv tinv (peer_modify a (\<lambda>p. p\<lparr>adj_rib_in := g p\<rparr>) router)"
proof -
  note pr = router_ok_found [OF ok find]
  have "router_ok env rinv tinv ((peer_modify a (\<lambda>p. p\<lparr>adj_rib_in := g p\<rparr>) router)\<lparr>outbox := outbox router @ []\<rparr>)"
    by (rule router_ok_peer [OF ok find])
      (use rib pr in \<open>auto simp: peer_filters_ok_def bgp_peer_flag_get_def\<close>)
  then show ?thesis unfolding outbox_id .
qed

context bgp_environment
begin

lemma process_total:
  assumes ok: "router_ok env rinv tinv router" and p: "pfx_wf p"
  obtains router' where "bgp_router_decision_process env p router = Some router'"
    "router_ok env rinv tinv router'" "changes_at env p router router'"
proof (cases "\<exists>old. loc_find env router p = Some old \<and> route_flag_get old ROUTE_FLAG_INTERNAL")
  case True
  then show thesis using that [of router] process_internal ok by auto
next
  case False
  then have ext: "\<And>old. loc_find env router p = Some old \<Longrightarrow> \<not> route_flag_get old ROUTE_FLAG_INTERNAL" by blast
  show thesis by (rule process_effect [OF ok p ext], assumption) (rule that)
qed

lemma adj_rib_props:
  assumes "router_ok env rinv tinv router" "bgp_router_find_peer router a = Some pr"
  shows "rinv (adj_rib_in pr)" "rib_find_exact (rib_trie env) (adj_rib_in pr) q = adj_find env router a q"
    and "rib_find_exact (rib_trie env) (adj_rib_in pr) q = Some r \<Longrightarrow> adj_route_ok env a q r"
  using assms by (auto simp: router_ok_def adj_ok_def adj_ribs_ok_def adj_find_def)

lemma update_rib_effect:
  assumes ok: "router_ok env rinv tinv router" and find: "bgp_router_find_peer router a = Some pr"
    and r: "adj_route_ok env a p r" "pfx r = p"
  obtains rib where "rib_replace_route (rib_trie env) (adj_rib_in pr) r = (0, rib)"
    "router_ok env rinv tinv (peer_modify a (\<lambda>p. p\<lparr>adj_rib_in := rib\<rparr>) router)"
    "adj_updated env a p (Some r) router (peer_modify a (\<lambda>p. p\<lparr>adj_rib_in := rib\<rparr>) router)"
proof -
  note pr = adj_rib_props [OF ok find]
  have wf: "pfx_wf (pfx r)" using r(1) by (simp add: adj_route_ok_def route_wf_def)
  obtain rib where rib: "rib_replace_route (rib_trie env) (adj_rib_in pr) r = (0, rib)" "rinv rib"
    "\<And>q. rib_find_exact (rib_trie env) rib q
       = (if pfx_norm q = pfx_norm (pfx r) then Some r else rib_find_exact (rib_trie env) (adj_rib_in pr) q)"
    by (rule rib.rib_add_effect [OF pr(1) wf]) (rule that)
  have "adj_route_ok env a q s" if "rib_find_exact (rib_trie env) rib q = Some s" for q s
    using that r pr(3) by (auto simp: rib(3) adj_route_ok_def split: if_splits)
  from router_ok_updated [OF ok find, of "\<lambda>_. rib", OF rib(2) this]
  show thesis by (rule that [OF rib(1) _ adj_updated_rib [OF find]]) (simp_all add: rib(3) r(2))
qed

lemma remove_rib_effect:
  assumes ok: "router_ok env rinv tinv router" and find: "bgp_router_find_peer router a = Some pr" and p: "pfx_wf p"
  obtains result rib where "rib_remove_route (rib_trie env) (adj_rib_in pr) p = (result, rib)"
    "result = 0 \<longleftrightarrow> adj_find env router a p \<noteq> None"
    "router_ok env rinv tinv (peer_modify a (\<lambda>p. p\<lparr>adj_rib_in := rib\<rparr>) router)"
    "adj_updated env a p None router (peer_modify a (\<lambda>p. p\<lparr>adj_rib_in := rib\<rparr>) router)"
proof -
  note pr = adj_rib_props [OF ok find]
  obtain result rib where rib: "rib_remove_route (rib_trie env) (adj_rib_in pr) p = (result, rib)" "rinv rib"
    "result = 0 \<longleftrightarrow> rib_find_exact (rib_trie env) (adj_rib_in pr) p \<noteq> None"
    "\<And>q. rib_find_exact (rib_trie env) rib q
       = (if pfx_norm q = pfx_norm p then None else rib_find_exact (rib_trie env) (adj_rib_in pr) q)"
    by (rule rib.rib_remove_effect [OF pr(1) p]) (rule that)
  have "adj_route_ok env a q s" if "rib_find_exact (rib_trie env) rib q = Some s" for q s
    using that pr(3) by (auto simp: rib(4) split: if_splits)
  from router_ok_updated [OF ok find, of "\<lambda>_. rib", OF rib(2) this] rib(3)
  show thesis by (intro that [OF rib(1) _ _ adj_updated_rib [OF find]]) (simp_all add: rib(4) pr(2))
qed

text \<open>What an UPDATE does: the route replaces the old one if it is eligible, otherwise the old one is removed; then
  the decision process runs, unless the old route was not the best and the new one is not eligible.\<close>

lemma process_update_effect:
  assumes ok: "router_ok env rinv tinv router" and find: "bgp_router_find_peer router a = Some pr"
    and r: "route_handled env r"
  obtains r' router1 router' where "imported_route env router pr r = Some r'"
    "bgp_peer_process_update env a r router = Some router'" "router_ok env rinv tinv router1" "router_ok env rinv tinv router'"
    "adj_updated env a (pfx r) (if route_flag_get r' ROUTE_FLAG_ELIGIBLE then Some r' else None) router router1"
    "changes_at env (pfx r) router1 router'"
    "route_flag_get r' ROUTE_FLAG_ELIGIBLE \<or> (\<exists>old. adj_find env router a (pfx r) = Some old \<and> route_flag_get old ROUTE_FLAG_BEST)
       \<Longrightarrow> bgp_router_decision_process env (pfx r) router1 = Some router'"
proof -
  obtain r' where imp: "imported_route env router pr r = Some r'" "adj_route_ok env a (pfx r) r'" "pfx r' = pfx r"
    using import_effect [OF ok find r] .
  have wf: "pfx_wf (pfx r)" using r by (simp add: route_handled_def route_wf_def)
  note old = adj_rib_props(2) [OF ok find]
  let ?e = "route_flag_get r' ROUTE_FLAG_ELIGIBLE"
  let ?x = "if ?e then Some r' else None"
  let ?upd = "if ?e then
            (let (result, rib) = rib_replace_route (rib_trie env) (adj_rib_in pr) r' in do {
               assert_opt (result = 0);
               Some (peer_modify a (\<lambda>p. p\<lparr>adj_rib_in := rib\<rparr>) router)
             })
          else if adj_find env router a (pfx r) \<noteq> None then
            (let (result, rib) = rib_remove_route (rib_trie env) (adj_rib_in pr) (pfx r) in do {
               assert_opt (result = 0);
               Some (peer_modify a (\<lambda>p. p\<lparr>adj_rib_in := rib\<rparr>) router)
             })
          else Some router"
  obtain router1 where r1: "?upd = Some router1" "router_ok env rinv tinv router1"
    "adj_updated env a (pfx r) ?x router router1"
  proof (cases ?e)
    case True
    show thesis by (rule update_rib_effect [OF ok find imp(2,3)]) (rule that; simp add: True)
  next
    case False
    show thesis
    proof (cases "adj_find env router a (pfx r)")
      case None
      have "adj_find env router a q = None" if "pfx_norm q = pfx_norm (pfx r)" for q
        using rib.rib_find_norm [OF adj_rib_props(1) [OF ok find] that] None old by simp
      then have "adj_updated env a (pfx r) None router router" by (auto simp: adj_updated_def)
      with False None ok that [of router] show thesis by simp
    next
      case (Some s)
      show thesis by (rule remove_rib_effect [OF ok find wf]) (rule that; simp add: False Some)
    qed
  qed
  let ?need = "(adj_find env router a (pfx r) \<noteq> None \<and> route_flag_get (the (adj_find env router a (pfx r))) ROUTE_FLAG_BEST) \<or> ?e"
  have run: "bgp_peer_process_update env a r router
      = (if ?need then bgp_router_decision_process env (pfx r) router1 else Some router1)"
    unfolding bgp_peer_process_update_def find imp(1) old imp(3) Option.bind.bind_lunit Let_def [of "adj_find env router a (pfx r)"]
      Let_def [of ?need] r1(1) ..
  obtain router2 where r2: "bgp_router_decision_process env (pfx r) router1 = Some router2" "router_ok env rinv tinv router2"
    "changes_at env (pfx r) router1 router2" using process_total [OF r1(2) wf] .
  show thesis
  proof (cases ?need)
    case True
    with run r2(1) have "bgp_peer_process_update env a r router = Some router2" by simp
    then show thesis by (rule that [OF imp(1) _ r1(2) r2(2) r1(3) r2(3)]) (rule r2(1))
  next
    case False
    with run have "bgp_peer_process_update env a r router = Some router1" by (auto split: if_splits)
    then show thesis by (rule that [OF imp(1) _ r1(2) r1(2) r1(3) changes_at_refl]) (use False in auto)
  qed
qed

end

end
