(* ===== verification/Bgp_Router.thy ===== *)
theory Bgp_Router
  imports Bgp_Session
begin

text \<open>
  The invariant of a router with its sessions, kept by every message and every operation of the configuration; the
  state machine of a session; and the runs of a router.
\<close>

section \<open>Frames\<close>

text \<open>What any number of decision processes keeps: the routes of the Adj-RIBs-In up to their marks, the
  configuration, and the sessions.\<close>

definition dp_frame :: "('t, 'r, 'z) bgp_env_scheme \<Rightarrow> ('t, 'r) bgp_router \<Rightarrow> ('t, 'r) bgp_router \<Rightarrow> bool" where
  "dp_frame env router router' \<longleftrightarrow>
     (\<forall>a q. rel_option same_route (adj_find env router a q) (adj_find env router' a q))
   \<and> local_nets router' = local_nets router \<and> map peer_conf (peers router') = map peer_conf (peers router)
   \<and> r_asn router' = r_asn router \<and> rid router' = rid router \<and> cluster_id router' = cluster_id router
   \<and> out_frame router router'"

lemma dp_frame_refl [simp]: "dp_frame env router router"
  by (simp add: dp_frame_def option.rel_refl)

lemma dp_frame_trans: "dp_frame env r1 r2 \<Longrightarrow> dp_frame env r2 r3 \<Longrightarrow> dp_frame env r1 r3"
  unfolding dp_frame_def by (metis rel_option_same_trans out_frame_trans)

lemma changes_at_dp_frame: "changes_at env p router router' \<Longrightarrow> dp_frame env router router'"
  unfolding changes_at_def dp_frame_def by blast

lemma out_only_dp_frame: "out_only router router' \<Longrightarrow> out_frame router router' \<Longrightarrow> dp_frame env router router'"
  using out_only_fields [of router router'] out_only_conf [of router router']
  by (simp add: dp_frame_def out_only_adj_find option.rel_refl)

text \<open>The peer at an address, in two routers with the same configuration.\<close>

lemma peer_conf_find:
  fixes router router' :: "('t, 'r) bgp_router"
  assumes "map peer_conf (peers router') = map peer_conf (peers router)"
  shows "map_option peer_conf (bgp_router_find_peer router' a) = map_option peer_conf (bgp_router_find_peer router a)"
proof -
  have addr: "p_addr (peer_conf p) = p_addr p" for p :: "'r bgp_peer" by (simp add: peer_conf_def)
  have "map_option peer_conf (find (\<lambda>p. p_addr p = a) ps) = find (\<lambda>p. p_addr p = a) (map peer_conf ps)" for ps :: "'r bgp_peer list"
    by (induction ps) (simp_all add: addr)
  then show ?thesis by (simp add: bgp_router_find_peer_def bgp_peers_find_def assms)
qed

lemma peer_conf_fields:
  assumes "peer_conf q = peer_conf p"
  shows "session_state q = session_state p" "p_flags q = p_flags p" "p_asn q = p_asn p" "p_addr q = p_addr p"
    "filter_in q = filter_in p" "filter_out q = filter_out p" "recv_seq_num q = recv_seq_num p" "router_id q = router_id p"
    "bgp_peer_flag_get q = bgp_peer_flag_get p" "src_addr q = src_addr p"
proof -
  from assms have "session_state (peer_conf q) = session_state (peer_conf p)" "p_flags (peer_conf q) = p_flags (peer_conf p)"
    "p_asn (peer_conf q) = p_asn (peer_conf p)" "p_addr (peer_conf q) = p_addr (peer_conf p)"
    "filter_in (peer_conf q) = filter_in (peer_conf p)" "filter_out (peer_conf q) = filter_out (peer_conf p)"
    "recv_seq_num (peer_conf q) = recv_seq_num (peer_conf p)" "router_id (peer_conf q) = router_id (peer_conf p)"
    "src_addr (peer_conf q) = src_addr (peer_conf p)"
    by simp_all
  then show "session_state q = session_state p" "p_flags q = p_flags p" "p_asn q = p_asn p" "p_addr q = p_addr p"
    "filter_in q = filter_in p" "filter_out q = filter_out p" "recv_seq_num q = recv_seq_num p" "router_id q = router_id p"
    "bgp_peer_flag_get q = bgp_peer_flag_get p" "src_addr q = src_addr p"
    by (simp_all add: peer_conf_def bgp_peer_flag_get_def fun_eq_iff)
qed

lemma dp_frame_find:
  assumes "dp_frame env router router'" "bgp_router_find_peer router a = Some pr"
  obtains pr' where "bgp_router_find_peer router' a = Some pr'" "peer_conf pr' = peer_conf pr"
proof -
  have "map_option peer_conf (bgp_router_find_peer router' a) = Some (peer_conf pr)"
    using peer_conf_find [of router' router a] assms by (simp add: dp_frame_def)
  then show thesis using that by auto
qed

lemma adj_updated_same:
  assumes "adj_updated env a p x router router'"
  shows "loc_find env router' q = loc_find env router q" "node router' = node router"
    "out_frame router router'" "map p_addr (peers router') = map p_addr (peers router)"
    "map peer_conf (peers router') = map peer_conf (peers router)" "dp_criteria env router' = dp_criteria env router"
    "outbox router' = outbox router"
  using assms adj_in_only_peers adj_in_only_frame adj_in_only_conf dp_criteria_adj_in
  by (fastforce simp: adj_updated_def loc_find_def)+

section \<open>Candidates after a change of one Adj-RIB-In\<close>

text \<open>The feasible routes of a router in which \<open>x\<close> replaces the route of the peer \<open>a\<close>.\<close>

definition feasible_with ::
    "('t, 'r, 'z) bgp_env_scheme \<Rightarrow> ('t, 'r) bgp_router \<Rightarrow> ip_pfx \<Rightarrow> net_addr \<Rightarrow> bgp_route option \<Rightarrow> bgp_routes" where
  "feasible_with env router p a x =
     List.map_filter (\<lambda>b. if b = a then do {
           pr \<leftarrow> bgp_router_find_peer router a;
           r \<leftarrow> x;
           if session_state pr = SESSION_STATE_ESTABLISHED \<and> route_flag_get r ROUTE_FLAG_ELIGIBLE
              \<and> reachable env router (next_hop (attr r))
           then Some r else None
         }
         else feasible_at env router p b) (map p_addr (peers router))"

lemma feasible_routes_updated:
  assumes "adj_updated env a p x router router'"
  shows "feasible_routes env router' p = feasible_with env router p a x"
proof -
  have only: "adj_in_only router router'" using assms by (simp add: adj_updated_def)
  have reach: "reachable env router' = reachable env router"
    by (simp add: fun_eq_iff reachable_def adj_in_only_peers(3) [OF only])
  have eq: "feasible_at env router' p b = (if b = a then do {
           pr \<leftarrow> bgp_router_find_peer router a;
           r \<leftarrow> x;
           if session_state pr = SESSION_STATE_ESTABLISHED \<and> route_flag_get r ROUTE_FLAG_ELIGIBLE
              \<and> reachable env router (next_hop (attr r))
           then Some r else None
         }
         else feasible_at env router p b)" for b
  proof -
    have adj: "adj_find env router' b p = (if b = a then x else adj_find env router b p)"
      using assms by (simp add: adj_updated_def)
    have "rel_option (\<lambda>p p'. session_state p' = session_state p) (bgp_router_find_peer router b) (bgp_router_find_peer router' b)"
      by (rule option.rel_mono_strong [OF adj_in_only_peers(5) [OF only]]) simp
    then show ?thesis
      by (cases "bgp_router_find_peer router b"; cases "bgp_router_find_peer router' b")
        (auto simp: feasible_at_def adj reach)
  qed
  show ?thesis
    unfolding feasible_routes_def feasible_with_def adj_in_only_peers(1) [OF only]
    by (rule arg_cong2 [where f = List.map_filter, OF ext refl]) (rule eq)
qed

lemma feasible_with_none:
  assumes "\<And>r. x = Some r \<Longrightarrow> \<not> route_flag_get r ROUTE_FLAG_ELIGIBLE"
  shows "feasible_with env router p a x
       = List.map_filter (feasible_at env router p) (filter (\<lambda>b. b \<noteq> a) (map p_addr (peers router)))"
proof -
  have "List.map_filter (\<lambda>b. if b = a then None else f b) xs = List.map_filter f (filter (\<lambda>b. b \<noteq> a) xs)"
    for f :: "net_addr \<Rightarrow> bgp_route option" and xs
    by (induction xs) (auto simp: List.map_filter_simps split: option.split)
  moreover have "(do {
           pr \<leftarrow> bgp_router_find_peer router a;
           r \<leftarrow> x;
           if session_state pr = SESSION_STATE_ESTABLISHED \<and> route_flag_get r ROUTE_FLAG_ELIGIBLE
              \<and> reachable env router (next_hop (attr r))
           then Some r else None
         }) = None"
    using assms by (cases "bgp_router_find_peer router a"; cases x) auto
  ultimately show ?thesis by (simp add: feasible_with_def cong: if_cong)
qed

section \<open>WITHDRAW\<close>

context bgp_environment
begin

lemma adj_modify_effect:
  assumes ok: "router_ok env rinv tinv router" and p: "pfx_wf p" and old: "adj_find env router a p = Some old"
    and f: "\<And>q. adj_route_ok env a q old \<Longrightarrow> adj_route_ok env a q (f old)"
  shows "router_ok env rinv tinv (adj_in_modify env a p f router)"
    and "adj_updated env a p (Some (f old)) router (adj_in_modify env a p f router)"
proof -
  obtain pr where find: "bgp_router_find_peer router a = Some pr"
    using old by (cases "bgp_router_find_peer router a") (simp_all add: adj_find_def)
  note pr = adj_rib_props [OF ok find]
  let ?g = "\<lambda>pr. rib_modify (rib_trie env) p f (adj_rib_in pr)"
  have eff: "rib_find_exact (rib_trie env) (?g pr) q
      = (if pfx_norm q = pfx_norm p then Some (f old) else rib_find_exact (rib_trie env) (adj_rib_in pr) q)" for q
    using rib.rib_modify_effect(2) [OF pr(1) p, of f q] old by (simp add: pr(2))
  have norm: "adj_route_ok env a q old" if "pfx_norm q = pfx_norm p" for q
    using pr(3) [of p old] old that by (simp add: pr(2) adj_route_ok_def)
  have "adj_route_ok env a q r" if "rib_find_exact (rib_trie env) (?g pr) q = Some r" for q r
    using that pr(3) f norm by (auto simp: eff split: if_splits)
  with rib.rib_modify_effect(1) [OF pr(1) p]
  show "router_ok env rinv tinv (adj_in_modify env a p f router)"
    unfolding adj_in_modify_def by (intro router_ok_updated [OF ok find]) auto
  show "adj_updated env a p (Some (f old)) router (adj_in_modify env a p f router)"
    unfolding adj_in_modify_def by (rule adj_updated_rib [OF find]) (rule eff)
qed

lemma process_withdraw_effect:
  assumes ok: "router_ok env rinv tinv router" and p: "pfx_wf p" and old: "adj_find env router a p = Some old"
  obtains router1 router2 router' where "bgp_peer_process_withdraw env a p router = Some router'"
    "adj_updated env a p (Some (route_flag_set ROUTE_FLAG_ELIGIBLE False old)) router router1" "router_ok env rinv tinv router1"
    "bgp_router_decision_process env p router1 = Some router2" "changes_at env p router1 router2"
    "adj_updated env a p None router2 router'" "router_ok env rinv tinv router'"
proof -
  obtain pr where find: "bgp_router_find_peer router a = Some pr"
    using old by (cases "bgp_router_find_peer router a") (simp_all add: adj_find_def)
  let ?r1 = "adj_in_modify env a p (route_flag_set ROUTE_FLAG_ELIGIBLE False) router"
  have f: "adj_route_ok env a q (route_flag_set ROUTE_FLAG_ELIGIBLE False old)" if "adj_route_ok env a q old" for q
    using that route_handled_cong [of "route_flag_set ROUTE_FLAG_ELIGIBLE False old" old env]
    by (simp add: adj_route_ok_def route_handled_def flag_get_others)
  note r1 = adj_modify_effect [where f = "route_flag_set ROUTE_FLAG_ELIGIBLE False", OF ok p old f]
  obtain r2 where r2: "bgp_router_decision_process env p ?r1 = Some r2" "router_ok env rinv tinv r2" "changes_at env p ?r1 r2"
    using process_total [OF r1(1) p] .
  have "adj_find env ?r1 a p \<noteq> None" using r1(2) by (simp add: adj_updated_def)
  then have some: "adj_find env r2 a p \<noteq> None"
    using r2(3) unfolding changes_at_def by (metis option.rel_distinct(2) option.exhaust)
  then obtain pr2 where find2: "bgp_router_find_peer r2 a = Some pr2"
    by (cases "bgp_router_find_peer r2 a") (simp_all add: adj_find_def)
  obtain result rib where rib: "rib_remove_route (rib_trie env) (adj_rib_in pr2) p = (result, rib)"
    "result = 0 \<longleftrightarrow> adj_find env r2 a p \<noteq> None"
    "router_ok env rinv tinv (peer_modify a (\<lambda>p. p\<lparr>adj_rib_in := rib\<rparr>) r2)"
    "adj_updated env a p None r2 (peer_modify a (\<lambda>p. p\<lparr>adj_rib_in := rib\<rparr>) r2)"
    by (rule remove_rib_effect [OF r2(2) find2 p]) (rule that)
  have "bgp_peer_process_withdraw env a p router = Some (peer_modify a (\<lambda>p. p\<lparr>adj_rib_in := rib\<rparr>) r2)"
    using old find some r2(1) find2 rib(1,2) by (simp add: bgp_peer_process_withdraw_def adj_find_def Let_def assert_opt_def)
  then show thesis by (rule that [OF _ r1(2,1) r2(1,3) rib(4,3)])
qed

end

section \<open>The invariant of the sessions\<close>

text \<open>A peer without session has an empty Adj-RIB-Out; a peer that was sent an OPEN has not been sent a route
  since.\<close>

definition idle_at :: "('t, 'r, 'z) bgp_env_scheme \<Rightarrow> ('t, 'r) bgp_router \<Rightarrow> net_addr \<Rightarrow> bool" where
  "idle_at env router a \<longleftrightarrow>
     (\<forall>pr. bgp_router_find_peer router a = Some pr \<longrightarrow> \<not> bgp_peer_flag_get pr PEER_FLAG_VIRTUAL
        \<longrightarrow> session_state pr \<noteq> SESSION_STATE_ESTABLISHED \<longrightarrow>
        (\<forall>p. rib_find_exact (rib_trie env) (adj_rib_out pr) p = None)
      \<and> (session_state pr = SESSION_STATE_OPENWAIT \<longrightarrow> (\<forall>p. \<not> announced a p (outbox router))))"

definition session_ok ::
    "('t, 'r, 'z) bgp_env_scheme \<Rightarrow> ('r \<Rightarrow> bool) \<Rightarrow> ('t \<Rightarrow> bool) \<Rightarrow> ('t, 'r) bgp_router \<Rightarrow> bool" where
  "session_ok env rinv tinv router \<longleftrightarrow> router_ok env rinv tinv router \<and> (\<forall>a. idle_at env router a)"

lemma idle_at_frame:
  assumes idle: "idle_at env router a" and frame: "out_frame router router'"
    and conf: "map peer_conf (peers router') = map peer_conf (peers router)"
  shows "idle_at env router' a"
proof (cases "bgp_router_find_peer router a")
  case None
  with peer_conf_find [OF conf, of a] show ?thesis by (simp add: idle_at_def)
next
  case (Some pr)
  with frame obtain pr' where pr': "bgp_router_find_peer router' a = Some pr'" "session_state pr' = session_state pr"
    "session_state pr \<noteq> SESSION_STATE_ESTABLISHED \<longrightarrow> adj_rib_out pr' = adj_rib_out pr
       \<and> (\<forall>p. announced a p (outbox router') = announced a p (outbox router))"
    unfolding out_frame_def by blast
  with peer_conf_find [OF conf, of a] Some have "peer_conf pr' = peer_conf pr" by simp
  then have "bgp_peer_flag_get pr' = bgp_peer_flag_get pr" by (rule peer_conf_fields)
  with idle Some pr' show ?thesis by (simp add: idle_at_def)
qed

lemma session_ok_dp_frame:
  "session_ok env rinv tinv router \<Longrightarrow> router_ok env rinv tinv router' \<Longrightarrow> dp_frame env router router'
   \<Longrightarrow> session_ok env rinv tinv router'"
  unfolding session_ok_def dp_frame_def by (blast intro: idle_at_frame)

text \<open>A change of one peer and messages to it.\<close>

lemma idle_at_other:
  assumes "\<forall>m\<in>set ob. fst m = a" "b \<noteq> a" "\<And>p. p_addr (f p) = p_addr p"
  shows "idle_at env ((peer_modify a f router)\<lparr>outbox := outbox router @ ob\<rparr>) b = idle_at env router b"
proof -
  have "bgp_router_find_peer (peer_modify a f router) b = bgp_router_find_peer router b"
    using find_peer_modify [of f a router b] assms(2,3) by (simp add: option.map_ident)
  with announced_append_other [OF assms(1,2)] show ?thesis by (simp add: idle_at_def)
qed

lemma session_ok_modify:
  assumes ok: "session_ok env rinv tinv router" and find: "bgp_router_find_peer router a = Some pr"
    and f: "\<And>p. p_addr (f p) = p_addr p" "adj_rib_in (f pr) = adj_rib_in pr" "adj_rib_out (f pr) = adj_rib_out pr"
      "filter_in (f pr) = filter_in pr" "filter_out (f pr) = filter_out pr" "p_flags (f pr) = p_flags pr"
    and ob: "\<forall>m\<in>set ob. fst m = a"
    and state: "\<And>p. \<not> bgp_peer_flag_get pr PEER_FLAG_VIRTUAL \<Longrightarrow>
      (case session_state (f pr) of
         SESSION_STATE_ESTABLISHED \<Rightarrow> rib_find_exact (rib_trie env) (adj_rib_out pr) p \<noteq> None \<longleftrightarrow> announced a p (outbox router @ ob)
       | SESSION_STATE_OPENWAIT \<Rightarrow> rib_find_exact (rib_trie env) (adj_rib_out pr) p = None \<and> \<not> announced a p (outbox router @ ob)
       | _ \<Rightarrow> rib_find_exact (rib_trie env) (adj_rib_out pr) p = None)"
  shows "session_ok env rinv tinv ((peer_modify a f router)\<lparr>outbox := outbox router @ ob\<rparr>)"
proof -
  let ?r = "(peer_modify a f router)\<lparr>outbox := outbox router @ ob\<rparr>"
  have rok: "router_ok env rinv tinv router" using ok by (simp add: session_ok_def)
  have "rib_find_exact (rib_trie env) (adj_rib_out pr) p \<noteq> None \<longleftrightarrow> announced a p (outbox router @ ob)"
    if "\<not> bgp_peer_flag_get pr PEER_FLAG_VIRTUAL" "session_state (f pr) = SESSION_STATE_ESTABLISHED" for p
    using state [OF that(1), of p] that(2) by simp
  then have "router_ok env rinv tinv ?r" by (rule router_ok_session [OF rok find f _ ob])
  moreover have "idle_at env ?r b" for b
  proof (cases "b = a")
    case True
    have flags: "bgp_peer_flag_get (f pr) = bgp_peer_flag_get pr" using f(6) by (simp add: bgp_peer_flag_get_def fun_eq_iff)
    have "bgp_router_find_peer ?r a = Some (f pr)" using find_peer_modify [of f a router a] f(1) find by simp
    then show ?thesis
      using state True unfolding idle_at_def
      by (cases "session_state (f pr)") (auto simp: flags f(3))
  next
    case False
    have "idle_at env router b" using ok by (simp add: session_ok_def)
    then show ?thesis unfolding idle_at_other [OF ob False f(1)] .
  qed
  ultimately show ?thesis by (simp add: session_ok_def)
qed

lemma session_ok_keep:
  assumes ok: "session_ok env rinv tinv router" and find: "bgp_router_find_peer router a = Some pr"
    and f: "\<And>p. p_addr (f p) = p_addr p" "adj_rib_in (f pr) = adj_rib_in pr" "adj_rib_out (f pr) = adj_rib_out pr"
      "filter_in (f pr) = filter_in pr" "filter_out (f pr) = filter_out pr" "p_flags (f pr) = p_flags pr"
      "session_state (f pr) = session_state pr"
  shows "session_ok env rinv tinv (peer_modify a f router)"
proof -
  have rok: "router_ok env rinv tinv router" and idle: "idle_at env router a" using ok by (simp_all add: session_ok_def)
  note out = router_ok_found(5) [OF rok find]
  have "session_ok env rinv tinv ((peer_modify a f router)\<lparr>outbox := outbox router @ []\<rparr>)"
    by (rule session_ok_modify [OF ok find f(1-6)])
      (use out idle find in \<open>auto simp: f(7) idle_at_def split: bgp_peer_state.split\<close>)
  then show ?thesis unfolding outbox_id .
qed

section \<open>Scans of an Adj-RIB-In\<close>

lemma for_each_effect:
  assumes "\<And>x s. x \<in> set xs \<Longrightarrow> P s \<Longrightarrow> \<exists>s'. f x s = Some s' \<and> P s'" "P s"
  shows "\<exists>s'. for_each f xs s = Some s' \<and> P s'"
  using assms
proof (induction xs arbitrary: s)
  case (Cons x xs)
  then obtain s1 where "f x s = Some s1" "P s1" by (meson list.set_intros(1))
  with Cons show ?case by fastforce
qed simp

context bgp_environment
begin

lemma rib_routes_adj:
  assumes ok: "router_ok env rinv tinv router" and find: "bgp_router_find_peer router a = Some pr"
    and p: "p \<in> set (map pfx (rib_routes (rib_trie env) (adj_rib_in pr)))"
  shows "adj_find env router a p \<noteq> None" "pfx_wf p"
proof -
  note pr = adj_rib_props [OF ok find]
  obtain r q where r: "p = pfx r" "rib_find_exact (rib_trie env) (adj_rib_in pr) q = Some r"
    using p rib.rib_routes_iff [OF pr(1)] by auto
  from pr(3) [OF this(2)] have "pfx_wf p" "pfx_norm p = pfx_norm q" by (simp_all add: r(1) adj_route_ok_def route_wf_def)
  with rib.rib_find_norm [OF pr(1) this(2)] r(2) show "adj_find env router a p \<noteq> None" "pfx_wf p" by (simp_all add: pr(2))
qed

lemma adjribin_effect:
  assumes ok: "router_ok env rinv tinv router" "adj_find env router a p \<noteq> None"
  shows "\<exists>router'. bgp_peer_enable_adjribin env a p router = Some router' \<and> router_ok env rinv tinv router' \<and> dp_frame env router router'"
    and "\<exists>router'. bgp_peer_disable_adjribin env a p router = Some router' \<and> router_ok env rinv tinv router' \<and> dp_frame env router router'"
proof -
  obtain pr r where find: "bgp_router_find_peer router a = Some pr" and r: "rib_find_exact (rib_trie env) (adj_rib_in pr) p = Some r"
    using assms(2) by (auto simp: adj_find_def elim: bind_SomeE)
  have "pfx_wf (pfx r)" using adj_rib_props(3) [OF ok(1) find r] by (simp add: adj_route_ok_def route_wf_def)
  then obtain router' where "bgp_router_decision_process env (pfx r) router = Some router'" "router_ok env rinv tinv router'"
    "dp_frame env router router'"
    using process_total [OF ok(1)] changes_at_dp_frame by metis
  with find r ok(1)
  show "\<exists>router'. bgp_peer_enable_adjribin env a p router = Some router' \<and> router_ok env rinv tinv router' \<and> dp_frame env router router'"
    "\<exists>router'. bgp_peer_disable_adjribin env a p router = Some router' \<and> router_ok env rinv tinv router' \<and> dp_frame env router router'"
    by (auto simp: bgp_peer_enable_adjribin_def bgp_peer_disable_adjribin_def)
qed

lemma rescan_effect:
  assumes ok: "router_ok env rinv tinv router" and find: "bgp_router_find_peer router a = Some pr"
  obtains router1 where "bgp_peer_rescan_adjribin env a clear router
      = Some (if session_state pr \<noteq> SESSION_STATE_ESTABLISHED \<and> clear then bgp_peer_adjrib_clear env a RIB_OUT router1 else router1)"
    "router_ok env rinv tinv router1" "dp_frame env router router1"
proof -
  let ?ps = "map pfx (rib_routes (rib_trie env) (adj_rib_in pr))"
  let ?P = "\<lambda>s. router_ok env rinv tinv s \<and> dp_frame env router s"
  have adj: "adj_find env s a p \<noteq> None" if "p \<in> set ?ps" "dp_frame env router s" for p s
    using rib_routes_adj(1) [OF ok find that(1)] that(2) unfolding dp_frame_def
    by (metis option.rel_distinct(2) option.exhaust)
  have "\<exists>s'. for_each (bgp_peer_enable_adjribin env a) ?ps router = Some s' \<and> ?P s'"
    by (rule for_each_effect [where P = ?P]) (use adjribin_effect(1) adj ok in \<open>blast intro: dp_frame_trans\<close>, simp add: ok)
  moreover have "\<exists>s'. for_each (bgp_peer_disable_adjribin env a) ?ps router = Some s' \<and> ?P s'"
    by (rule for_each_effect [where P = ?P]) (use adjribin_effect(2) adj ok in \<open>blast intro: dp_frame_trans\<close>, simp add: ok)
  ultimately obtain s1 s2 where "for_each (bgp_peer_enable_adjribin env a) ?ps router = Some s1" "?P s1"
    "for_each (bgp_peer_disable_adjribin env a) ?ps router = Some s2" "?P s2" by blast
  then show thesis
    using that [of s1] that [of s2] find
    by (cases "session_state pr = SESSION_STATE_ESTABLISHED") (simp_all add: bgp_peer_rescan_adjribin_def)
qed

end

section \<open>The state of the sessions\<close>

type_synonym session = "bgp_peer_state \<times> 32 word"

definition session_of :: "('t, 'r) bgp_router \<Rightarrow> net_addr \<rightharpoonup> session" where
  "session_of router a = map_option (\<lambda>p. (session_state p, recv_seq_num p)) (bgp_router_find_peer router a)"

lemma session_of_conf:
  fixes router router' :: "('t, 'r) bgp_router"
  assumes "map peer_conf (peers router') = map peer_conf (peers router)"
  shows "session_of router' = session_of router"
proof
  fix a
  from peer_conf_find [OF assms, of a] show "session_of router' a = session_of router a"
    by (cases "bgp_router_find_peer router a"; cases "bgp_router_find_peer router' a")
      (auto simp: session_of_def dest: peer_conf_fields)
qed

lemma session_of_modify:
  assumes "\<And>p. p_addr (f p) = p_addr p" "bgp_router_find_peer router a = Some pr"
  shows "session_of (peer_modify a f router) = (session_of router)(a \<mapsto> (session_state (f pr), recv_seq_num (f pr)))"
  using find_peer_modify [of f a router] assms by (auto simp: session_of_def fun_eq_iff option.map_comp comp_def)

lemma session_of_outbox [simp]: "session_of (router\<lparr>outbox := x\<rparr>) = session_of router"
  by (simp add: session_of_def fun_eq_iff bgp_router_find_peer_def)

lemma dp_frame_session: "dp_frame env router router' \<Longrightarrow> session_of router' = session_of router"
  unfolding dp_frame_def by (rule session_of_conf) blast

lemma session_of_find: "bgp_router_find_peer router a = Some pr \<Longrightarrow> session_of router a = Some (session_state pr, recv_seq_num pr)"
  by (simp add: session_of_def)

lemma session_of_id [simp]:
  "bgp_router_find_peer router a = Some pr \<Longrightarrow> (session_of router)(a \<mapsto> (session_state pr, recv_seq_num pr)) = session_of router"
  by (simp add: session_of_find fun_upd_idem)

lemma session_ok_updated:
  assumes "session_ok env rinv tinv router" "adj_updated env a p x router router'" "router_ok env rinv tinv router'"
  shows "session_ok env rinv tinv router'" "session_of router' = session_of router"
  using assms adj_updated_same(3,5) [OF assms(2)] idle_at_frame session_of_conf unfolding session_ok_def by blast+

context bgp_environment
begin

lemma process_update_session:
  assumes ok: "session_ok env rinv tinv router" and find: "bgp_router_find_peer router a = Some pr"
    and r: "route_handled env r"
  shows "\<exists>router'. bgp_peer_process_update env a r router = Some router' \<and> session_ok env rinv tinv router'
    \<and> session_of router' = session_of router"
proof -
  have rok: "router_ok env rinv tinv router" using ok by (simp add: session_ok_def)
  obtain x router1 router' where run: "bgp_peer_process_update env a r router = Some router'"
    "router_ok env rinv tinv router1" "router_ok env rinv tinv router'"
    "adj_updated env a (pfx r) x router router1" "changes_at env (pfx r) router1 router'"
    by (rule process_update_effect [OF rok find r]) (rule that)
  note r1 = session_ok_updated [OF ok run(4,2)] and frame = changes_at_dp_frame [OF run(5)]
  from session_ok_dp_frame [OF r1(1) run(3) frame] dp_frame_session [OF frame] r1(2) run(1) show ?thesis by simp
qed

lemma process_withdraw_session:
  assumes ok: "session_ok env rinv tinv router" and find: "bgp_router_find_peer router a = Some pr" and p: "pfx_wf p"
  shows "\<exists>router'. bgp_peer_process_withdraw env a p router = Some router' \<and> session_ok env rinv tinv router'
    \<and> session_of router' = session_of router"
proof (cases "adj_find env router a p")
  case None
  with find ok show ?thesis by (simp add: bgp_peer_process_withdraw_def adj_find_def)
next
  case (Some old)
  have rok: "router_ok env rinv tinv router" using ok by (simp add: session_ok_def)
  obtain router1 router2 router' where run: "bgp_peer_process_withdraw env a p router = Some router'"
    "adj_updated env a p (Some (route_flag_set ROUTE_FLAG_ELIGIBLE False old)) router router1" "router_ok env rinv tinv router1"
    "bgp_router_decision_process env p router1 = Some router2" "changes_at env p router1 router2"
    "adj_updated env a p None router2 router'" "router_ok env rinv tinv router'"
    using process_withdraw_effect [OF rok p Some] .
  obtain router3 where "bgp_router_decision_process env p router1 = Some router3" "router_ok env rinv tinv router3"
    using process_total [OF run(3) p] .
  with run(4) have "router_ok env rinv tinv router2" by simp
  note r1 = session_ok_updated [OF ok run(2,3)] and frame = changes_at_dp_frame [OF run(5)]
  note r2 = session_ok_dp_frame [OF r1(1) \<open>router_ok env rinv tinv router2\<close> frame]
  from session_ok_updated [OF r2 run(6,7)] dp_frame_session [OF frame] r1(2) run(1) show ?thesis by simp
qed

lemma establish_session:
  assumes ok: "session_ok env rinv tinv router" and find: "bgp_router_find_peer router a = Some pr"
    and state: "session_state pr = SESSION_STATE_OPENWAIT \<or> session_state pr = SESSION_STATE_ESTABLISHED"
  obtains router' pr' where "session_establish a router = Some router'" "session_ok env rinv tinv router'"
    "session_of router' = (session_of router)(a \<mapsto> (SESSION_STATE_ESTABLISHED, recv_seq_num pr))"
    "bgp_router_find_peer router' a = Some pr'"
proof (cases "session_state pr = SESSION_STATE_ESTABLISHED")
  case True
  with find ok that [of router pr] session_of_id [OF find] show thesis by (simp add: session_establish_def)
next
  case False
  with state have ow: "session_state pr = SESSION_STATE_OPENWAIT" by simp
  let ?f = "\<lambda>p. p\<lparr>session_state := SESSION_STATE_ESTABLISHED\<rparr>"
  have idle: "\<not> bgp_peer_flag_get pr PEER_FLAG_VIRTUAL \<Longrightarrow> rib_find_exact (rib_trie env) (adj_rib_out pr) p = None
      \<and> \<not> announced a p (outbox router)" for p
    using ok find ow by (simp add: session_ok_def idle_at_def)
  have "session_ok env rinv tinv ((peer_modify a ?f router)\<lparr>outbox := outbox router @ []\<rparr>)"
    by (rule session_ok_modify [OF ok find]) (use idle in auto)
  then have sok: "session_ok env rinv tinv (peer_modify a ?f router)" unfolding outbox_id .
  have "bgp_router_find_peer (peer_modify a ?f router) a = Some (?f pr)"
    using find_peer_modify [of ?f a router a] find by simp
  with sok session_of_modify [of ?f, OF _ find] find ow show thesis
    by (intro that [of "peer_modify a ?f router" "?f pr"]) (simp_all add: session_establish_def)
qed

lemma update_rcvd_session:
  assumes ok: "session_ok env rinv tinv router" and find: "bgp_router_find_peer router a = Some pr"
    and state: "session_state pr = SESSION_STATE_OPENWAIT \<or> session_state pr = SESSION_STATE_ESTABLISHED"
  shows "route_handled env r \<Longrightarrow> \<exists>router'. bgp_peer_session_update_rcvd env a r router = Some router' \<and> session_ok env rinv tinv router'
      \<and> session_of router' = (session_of router)(a \<mapsto> (SESSION_STATE_ESTABLISHED, recv_seq_num pr))"
    and "pfx_wf p \<Longrightarrow> \<exists>router'. bgp_peer_session_withdraw_rcvd env a p router = Some router' \<and> session_ok env rinv tinv router'
      \<and> session_of router' = (session_of router)(a \<mapsto> (SESSION_STATE_ESTABLISHED, recv_seq_num pr))"
proof -
  obtain router1 pr1 where r1: "session_establish a router = Some router1" "session_ok env rinv tinv router1"
    "session_of router1 = (session_of router)(a \<mapsto> (SESSION_STATE_ESTABLISHED, recv_seq_num pr))"
    "bgp_router_find_peer router1 a = Some pr1" using establish_session [OF ok find state] .
  show "\<exists>router'. bgp_peer_session_update_rcvd env a r router = Some router' \<and> session_ok env rinv tinv router'
      \<and> session_of router' = (session_of router)(a \<mapsto> (SESSION_STATE_ESTABLISHED, recv_seq_num pr))" if "route_handled env r"
    using process_update_session [OF r1(2,4) that] r1(1,3) by (simp add: bgp_peer_session_update_rcvd_def)
  show "\<exists>router'. bgp_peer_session_withdraw_rcvd env a p router = Some router' \<and> session_ok env rinv tinv router'
      \<and> session_of router' = (session_of router)(a \<mapsto> (SESSION_STATE_ESTABLISHED, recv_seq_num pr))" if "pfx_wf p"
    using process_withdraw_session [OF r1(2,4) that] r1(1,3) by (simp add: bgp_peer_session_withdraw_rcvd_def)
qed

end

section \<open>Closing and opening\<close>

context bgp_environment
begin

lemma adjrib_clear_ok:
  assumes ok: "router_ok env rinv tinv router" and find: "bgp_router_find_peer router a = Some pr"
    and st: "session_state pr \<noteq> SESSION_STATE_ESTABLISHED" "session_state pr \<noteq> SESSION_STATE_OPENWAIT"
    and idle: "\<And>b. b \<noteq> a \<Longrightarrow> idle_at env router b"
  shows "session_ok env rinv tinv (bgp_peer_adjrib_clear env a RIB_OUT router)"
    "session_of (bgp_peer_adjrib_clear env a RIB_OUT router) = session_of router"
proof -
  let ?f = "\<lambda>p. p\<lparr>adj_rib_out := rib_create (rib_trie env)\<rparr>"
  have eq: "bgp_peer_adjrib_clear env a RIB_OUT router = peer_modify a ?f router" by (simp add: bgp_peer_adjrib_clear_def)
  note pr = router_ok_found [OF ok find]
  have "rinv (rib_create (rib_trie env))" using rib.inv_create by (simp add: rib_create_def)
  then have "router_ok env rinv tinv ((peer_modify a ?f router)\<lparr>outbox := outbox router @ []\<rparr>)"
    by (intro router_ok_peer [OF ok find]) (use pr st in \<open>auto simp: peer_filters_ok_def bgp_peer_flag_get_def\<close>)
  then have rok: "router_ok env rinv tinv (peer_modify a ?f router)" unfolding outbox_id .
  have "idle_at env ((peer_modify a ?f router)\<lparr>outbox := outbox router @ []\<rparr>) b" for b
  proof (cases "b = a")
    case True
    then show ?thesis
      using find_peer_modify [of ?f a router a] find st by (simp add: idle_at_def)
  next
    case False
    have "idle_at env ((peer_modify a ?f router)\<lparr>outbox := outbox router @ []\<rparr>) b = idle_at env router b"
      by (rule idle_at_other [OF _ False]) simp_all
    with idle [OF False] show ?thesis by blast
  qed
  then have "\<forall>b. idle_at env (peer_modify a ?f router) b" unfolding outbox_id by blast
  with rok show "session_ok env rinv tinv (bgp_peer_adjrib_clear env a RIB_OUT router)" by (simp add: session_ok_def eq)
  show "session_of (bgp_peer_adjrib_clear env a RIB_OUT router) = session_of router"
    unfolding eq using session_of_modify [of ?f, OF _ find] session_of_id [OF find] by simp
qed

lemma close_common:
  assumes ok: "session_ok env rinv tinv router" and find: "bgp_router_find_peer router a = Some pr"
    and st: "st \<noteq> SESSION_STATE_ESTABLISHED" "st \<noteq> SESSION_STATE_OPENWAIT"
    and clear: "\<not> bgp_peer_flag_get pr PEER_FLAG_VIRTUAL \<Longrightarrow> clear"
  shows "\<exists>router'. bgp_peer_rescan_adjribin env a clear (peer_modify a (\<lambda>p. session_reset (p\<lparr>session_state := st\<rparr>)) router) = Some router'
    \<and> session_ok env rinv tinv router' \<and> session_of router' = (session_of router)(a \<mapsto> (st, 0))"
proof -
  let ?f = "\<lambda>p. session_reset (p\<lparr>session_state := st\<rparr>)"
  let ?r1 = "peer_modify a ?f router"
  have rok: "router_ok env rinv tinv router" using ok by (simp add: session_ok_def)
  have f: "p_addr (?f p) = p_addr p" for p by (simp add: session_reset_def)
  have "router_ok env rinv tinv (?r1\<lparr>outbox := outbox router @ []\<rparr>)"
    by (rule router_ok_session [OF rok find f]) (use st in \<open>simp_all add: session_reset_def\<close>)
  then have rok1: "router_ok env rinv tinv ?r1" unfolding outbox_id .
  have other: "idle_at env ?r1 b" if "b \<noteq> a" for b
  proof -
    have "idle_at env (?r1\<lparr>outbox := outbox router @ []\<rparr>) b = idle_at env router b"
      by (rule idle_at_other [OF _ that f]) simp
    with ok show ?thesis unfolding outbox_id session_ok_def by blast
  qed
  have find1: "bgp_router_find_peer ?r1 a = Some (?f pr)" by (simp add: find_peer_modify [OF f] find)
  have ses1: "session_of ?r1 = (session_of router)(a \<mapsto> (st, 0))"
    using session_of_modify [of ?f, OF f find] by (simp add: session_reset_def)
  obtain r2 where r2: "bgp_peer_rescan_adjribin env a clear ?r1
      = Some (if session_state (?f pr) \<noteq> SESSION_STATE_ESTABLISHED \<and> clear then bgp_peer_adjrib_clear env a RIB_OUT r2 else r2)"
    "router_ok env rinv tinv r2" "dp_frame env ?r1 r2" using rescan_effect [OF rok1 find1] .
  obtain pr2 where pr2: "bgp_router_find_peer r2 a = Some pr2" "peer_conf pr2 = peer_conf (?f pr)"
    using dp_frame_find [OF r2(3) find1] .
  note conf = peer_conf_fields [OF pr2(2)]
  have ses2: "session_of r2 = (session_of router)(a \<mapsto> (st, 0))" using dp_frame_session [OF r2(3)] ses1 by simp
  have idle2: "idle_at env r2 b" if "b \<noteq> a" for b
    using idle_at_frame [OF other [OF that]] r2(3) unfolding dp_frame_def by blast
  show ?thesis
  proof (cases clear)
    case True
    have st2: "session_state pr2 = st" using conf(1) by (simp add: session_reset_def)
    note c = adjrib_clear_ok [OF r2(2) pr2(1) _ _ idle2, unfolded st2, OF st]
    have "bgp_peer_rescan_adjribin env a clear ?r1 = Some (bgp_peer_adjrib_clear env a RIB_OUT r2)"
      using r2(1) True st by (simp add: session_reset_def)
    with c ses2 show ?thesis by simp
  next
    case False
    with clear have v: "bgp_peer_flag_get pr PEER_FLAG_VIRTUAL" by blast
    have "bgp_peer_flag_get pr2 PEER_FLAG_VIRTUAL"
      using conf(2) v by (simp add: bgp_peer_flag_get_def session_reset_def)
    then have "idle_at env r2 a" using pr2(1) by (simp add: idle_at_def)
    with idle2 have "\<forall>b. idle_at env r2 b" by metis
    then have sok: "session_ok env rinv tinv r2" using r2(2) by (simp add: session_ok_def)
    have "bgp_peer_rescan_adjribin env a clear ?r1 = Some r2" using r2(1) False by simp
    with sok ses2 show ?thesis by blast
  qed
qed

lemma loc_sendable:
  assumes ok: "router_ok env rinv tinv router" and r: "r \<in> set (rib_routes (rib_trie env) (loc_rib router))"
  shows "route_sendable env router r" "pfx_wf (pfx r)"
proof -
  have inv: "rinv (loc_rib router)" using ok by (simp add: router_ok_def loc_ok_def)
  obtain q where q: "pfx_wf q" "loc_find env router q = Some r"
    using r rib.rib_routes_iff [OF inv] by (auto simp: loc_find_def)
  then have l: "loc_route_ok env router q r" using ok by (simp add: router_ok_def loc_ok_def)
  then show "route_sendable env router r"
    by (cases "route_flag_get r ROUTE_FLAG_INTERNAL") (auto simp: route_sendable_def loc_route_ok_def)
  from l show "pfx_wf (pfx r)" by (simp add: loc_route_ok_def route_wf_def)
qed

lemma disseminate_all:
  assumes ok: "session_ok env rinv tinv router" and find: "bgp_router_find_peer router a = Some pr"
  shows "\<exists>router'. for_each (bgp_peer_prefix_disseminate env a) (rib_routes (rib_trie env) (loc_rib router)) router = Some router'
    \<and> session_ok env rinv tinv router' \<and> session_of router' = session_of router"
proof -
  let ?P = "\<lambda>s. router_ok env rinv tinv s \<and> out_only router s \<and> dp_frame env router s"
  have rok: "router_ok env rinv tinv router" using ok by (simp add: session_ok_def)
  have "\<exists>s'. bgp_peer_prefix_disseminate env a r s = Some s' \<and> ?P s'"
    if r: "r \<in> set (rib_routes (rib_trie env) (loc_rib router))" and s: "?P s" for r s
  proof -
    note send = loc_sendable [OF rok r]
    have send': "route_sendable env s r" using send(1) s out_only_sendable [of router s env r] by blast
    from s obtain q where q: "bgp_router_find_peer s a = Some q" using dp_frame_find [OF _ find] by blast
    have flt: "filter_total env (filter_out q)" using router_ok_found(3) [OF _ q] s by (auto simp: peer_filters_ok_def)
    have "disseminate_to_peer env (pfx r) (Some r) a s \<noteq> None"
      by (rule disseminate_to_peer_total [OF axioms'(3) q flt]) (use send' in simp)
    then obtain s' where s': "disseminate_to_peer env (pfx r) (Some r) a s = Some s'" by blast
    have "rib_out_ok env rinv s" using s by (simp add: router_ok_def)
    then have out: "rib_out_ok env rinv s'" "out_only s s'"
      using disseminate_to_peer_keeps [OF axioms'(1,3) _ send(2) _ s'] send(2) by auto
    have "dp_frame env s s'"
      by (rule out_only_dp_frame [OF out(2) disseminate_to_peer_frame [OF s']])
    with s' s out router_ok_out [OF _ out(2,1)] show ?thesis
      unfolding bgp_peer_prefix_disseminate_def by (blast intro: out_only_trans dp_frame_trans)
  qed
  with rok obtain router' where "for_each (bgp_peer_prefix_disseminate env a) (rib_routes (rib_trie env) (loc_rib router)) router = Some router'"
    "?P router'" using for_each_effect [where P = ?P and s = router] by (metis (no_types, lifting) out_only_refl dp_frame_refl)
  with session_ok_dp_frame [OF ok] dp_frame_session show ?thesis by blast
qed

end

section \<open>Messages of a session\<close>

lemma find_peer_modified:
  assumes "\<And>p. p_addr (f p) = p_addr p" "bgp_router_find_peer router a = Some pr"
  shows "bgp_router_find_peer (peer_modify a f router) a = Some (f pr)"
  by (simp add: find_peer_modify [OF assms(1)] assms(2))

lemma announced_snoc: "announced a p (xs @ [m]) = msg_effect a p (announced a p xs) m"
  by (simp add: announced_def)

text \<open>An OPEN to a peer without session, or a CLOSE.\<close>

lemma send_session:
  assumes ok: "session_ok env rinv tinv router" and find: "bgp_router_find_peer router a = Some pr"
    and msg: "payload msg = BGP_MSG_TYPE_CLOSE \<or> payload msg = BGP_MSG_TYPE_OPEN n \<and> session_state pr \<noteq> SESSION_STATE_ESTABLISHED"
  obtains result router' where "bgp_peer_send env a msg router = Some (result, router')" "session_ok env rinv tinv router'"
    "session_of router' = session_of router" "bgp_router_find_peer router' a = Some (pr\<lparr>send_seq_num := send_seq_num pr + 1\<rparr>)"
    "\<not> bgp_peer_flag_get pr PEER_FLAG_VIRTUAL \<Longrightarrow>
       result = node_send_msg env (node router) (src_addr pr) (p_addr pr) (msg\<lparr>seq_num := send_seq_num pr\<rparr>)"
    "\<And>p. \<not> bgp_peer_flag_get pr PEER_FLAG_VIRTUAL \<Longrightarrow> payload msg \<noteq> BGP_MSG_TYPE_CLOSE \<Longrightarrow> \<not> announced a p (outbox router')"
proof -
  let ?f = "\<lambda>p. p\<lparr>send_seq_num := send_seq_num p + 1\<rparr>"
  let ?ob = "if bgp_peer_flag_get pr PEER_FLAG_VIRTUAL then [] else [(a, msg\<lparr>seq_num := send_seq_num pr\<rparr>)]"
  let ?r = "(peer_modify a ?f router)\<lparr>outbox := outbox router @ ?ob\<rparr>"
  obtain result where send: "bgp_peer_send env a msg router = Some (result, ?r)"
    using bgp_peer_send_effect [OF find] .
  have rok: "router_ok env rinv tinv router" and idle: "idle_at env router a" using ok by (simp_all add: session_ok_def)
  have ann: "announced a p (outbox router @ ?ob)
      = (if payload msg = BGP_MSG_TYPE_CLOSE then announced a p (outbox router) else False)"
    if "\<not> bgp_peer_flag_get pr PEER_FLAG_VIRTUAL" for p
    using that msg by (auto simp: announced_snoc msg_effect_def)
  have ok': "session_ok env rinv tinv ?r"
  proof (rule session_ok_modify [OF ok find])
    fix p assume nv: "\<not> bgp_peer_flag_get pr PEER_FLAG_VIRTUAL"
    from router_ok_found(5) [OF rok find nv] idle find nv msg
    show "case session_state (?f pr) of
         SESSION_STATE_ESTABLISHED \<Rightarrow> rib_find_exact (rib_trie env) (adj_rib_out pr) p \<noteq> None \<longleftrightarrow> announced a p (outbox router @ ?ob)
       | SESSION_STATE_OPENWAIT \<Rightarrow> rib_find_exact (rib_trie env) (adj_rib_out pr) p = None \<and> \<not> announced a p (outbox router @ ?ob)
       | _ \<Rightarrow> rib_find_exact (rib_trie env) (adj_rib_out pr) p = None"
      unfolding ann [OF nv] by (cases "session_state pr") (simp_all add: idle_at_def)
  qed simp_all
  have "session_of (peer_modify a ?f router) = session_of router"
    using session_of_modify [of ?f, OF _ find] session_of_id [OF find] by simp
  moreover have "bgp_router_find_peer ?r a = Some (?f pr)" using find_peer_modified [of ?f, OF _ find] by simp
  moreover have "\<not> bgp_peer_flag_get pr PEER_FLAG_VIRTUAL \<Longrightarrow>
       result = node_send_msg env (node router) (src_addr pr) (p_addr pr) (msg\<lparr>seq_num := send_seq_num pr\<rparr>)"
    using send find by (simp add: bgp_peer_send_def Let_def)
  moreover have "\<not> announced a p (outbox ?r)" if "\<not> bgp_peer_flag_get pr PEER_FLAG_VIRTUAL" "payload msg \<noteq> BGP_MSG_TYPE_CLOSE" for p
    using ann [OF that(1), of p] that(2) by simp
  ultimately show thesis by (intro that [OF send ok']) simp_all
qed

text \<open>A session without Adj-RIB-Out changes its state; it may be established only after an OPEN.\<close>

lemma state_session:
  assumes ok: "session_ok env rinv tinv router" and find: "bgp_router_find_peer router a = Some pr"
    and f: "\<And>p. p_addr (f p) = p_addr p" "adj_rib_in (f pr) = adj_rib_in pr" "adj_rib_out (f pr) = adj_rib_out pr"
      "filter_in (f pr) = filter_in pr" "filter_out (f pr) = filter_out pr" "p_flags (f pr) = p_flags pr"
    and est: "session_state pr \<noteq> SESSION_STATE_ESTABLISHED"
    and ann: "\<And>p. \<not> bgp_peer_flag_get pr PEER_FLAG_VIRTUAL \<Longrightarrow>
      session_state (f pr) = SESSION_STATE_ESTABLISHED \<or> session_state (f pr) = SESSION_STATE_OPENWAIT \<Longrightarrow> \<not> announced a p (outbox router)"
  shows "session_ok env rinv tinv (peer_modify a f router)"
    "session_of (peer_modify a f router) = (session_of router)(a \<mapsto> (session_state (f pr), recv_seq_num (f pr)))"
    "bgp_router_find_peer (peer_modify a f router) a = Some (f pr)"
proof -
  have idle: "idle_at env router a" using ok by (simp add: session_ok_def)
  have "session_ok env rinv tinv ((peer_modify a f router)\<lparr>outbox := outbox router @ []\<rparr>)"
  proof (rule session_ok_modify [OF ok find f])
    fix p assume nv: "\<not> bgp_peer_flag_get pr PEER_FLAG_VIRTUAL"
    with idle find est ann [OF nv, of p]
    show "case session_state (f pr) of
         SESSION_STATE_ESTABLISHED \<Rightarrow> rib_find_exact (rib_trie env) (adj_rib_out pr) p \<noteq> None \<longleftrightarrow> announced a p (outbox router @ [])
       | SESSION_STATE_OPENWAIT \<Rightarrow> rib_find_exact (rib_trie env) (adj_rib_out pr) p = None \<and> \<not> announced a p (outbox router @ [])
       | _ \<Rightarrow> rib_find_exact (rib_trie env) (adj_rib_out pr) p = None"
      by (cases "session_state (f pr)") (simp_all add: idle_at_def)
  qed simp
  then show "session_ok env rinv tinv (peer_modify a f router)" unfolding outbox_id .
  show "session_of (peer_modify a f router) = (session_of router)(a \<mapsto> (session_state (f pr), recv_seq_num (f pr)))"
    by (rule session_of_modify [OF f(1) find])
  show "bgp_router_find_peer (peer_modify a f router) a = Some (f pr)" by (rule find_peer_modified [OF f(1) find])
qed

context bgp_environment
begin

lemma close_rcvd_session:
  assumes ok: "session_ok env rinv tinv router" and find: "bgp_router_find_peer router a = Some pr"
    and v: "\<not> bgp_peer_flag_get pr PEER_FLAG_VIRTUAL"
  shows "\<exists>router'. bgp_peer_session_close_rcvd env a router = Some router' \<and> session_ok env rinv tinv router'
    \<and> session_of router' = (session_of router)(a \<mapsto>
        (if session_state pr = SESSION_STATE_ESTABLISHED \<or> session_state pr = SESSION_STATE_OPENWAIT
         then (SESSION_STATE_ACTIVE, 0) else (session_state pr, recv_seq_num pr)))"
proof (cases "session_state pr = SESSION_STATE_ESTABLISHED \<or> session_state pr = SESSION_STATE_OPENWAIT")
  case True
  have "bgp_peer_session_close_rcvd env a router = bgp_peer_rescan_adjribin env a True
      (peer_modify a (\<lambda>p. session_reset (p\<lparr>session_state := SESSION_STATE_ACTIVE\<rparr>)) router)"
    using True find v by (simp add: bgp_peer_session_close_rcvd_def assert_opt_def)
  with True close_common [OF ok find, of SESSION_STATE_ACTIVE True] show ?thesis by simp
next
  case False
  have "bgp_peer_session_close_rcvd env a router = Some router"
    using False find v by (simp add: bgp_peer_session_close_rcvd_def assert_opt_def)
  with False ok session_of_id [OF find] show ?thesis by simp
qed

lemma open_rcvd_session:
  assumes ok: "session_ok env rinv tinv router" and find: "bgp_router_find_peer router a = Some pr"
    and v: "\<not> bgp_peer_flag_get pr PEER_FLAG_VIRTUAL"
    and st: "session_state pr = SESSION_STATE_ACTIVE \<or> session_state pr = SESSION_STATE_OPENWAIT"
  shows "\<exists>router'. bgp_peer_session_open_rcvd env a n router = Some router' \<and> session_ok env rinv tinv router'
    \<and> session_of router' = (session_of router)(a \<mapsto> (SESSION_STATE_ESTABLISHED, recv_seq_num pr))"
proof (cases "session_state pr = SESSION_STATE_OPENWAIT")
  case True
  let ?f = "\<lambda>p. p\<lparr>session_state := SESSION_STATE_ESTABLISHED, router_id := n\<rparr>"
  have ann: "\<not> announced a p (outbox router)" for p
    using ok find v True by (simp add: session_ok_def idle_at_def)
  note r1 = state_session [of env rinv tinv router a pr ?f, OF ok find]
  obtain router' where "for_each (bgp_peer_prefix_disseminate env a) (rib_routes (rib_trie env) (loc_rib router)) (peer_modify a ?f router) = Some router'"
    "session_ok env rinv tinv router'" "session_of router' = session_of (peer_modify a ?f router)"
    using disseminate_all [OF r1(1,3)] ann True by auto
  with r1(2) True find v ann show ?thesis
    by (simp add: bgp_peer_session_open_rcvd_def assert_opt_def)
next
  case False
  with st have act: "session_state pr = SESSION_STATE_ACTIVE" by simp
  let ?f = "\<lambda>p. p\<lparr>session_state := SESSION_STATE_ESTABLISHED\<rparr>" and ?g = "\<lambda>p. p\<lparr>send_seq_num := send_seq_num p + 1\<rparr>"
  let ?msg = "(bgp_msg_open_create (r_asn router) (rid router))\<lparr>seq_num := send_seq_num pr\<rparr>"
  let ?r1 = "(peer_modify a (\<lambda>p. ?g (?f p)) router)\<lparr>outbox := outbox router @ [(a, ?msg)]\<rparr>"
  have send: "\<exists>res. bgp_peer_send env a (bgp_msg_open_create (r_asn router) (rid router)) (peer_modify a ?f router) = Some (res, ?r1)"
    using find_peer_modified [of ?f, OF _ find] v peer_modify_comp [of ?f a ?g router]
    by (simp add: bgp_peer_send_def bgp_peer_flag_get_def Let_def)
  have "rib_find_exact (rib_trie env) (adj_rib_out pr) p = None" for p
    using ok find v act by (simp add: session_ok_def idle_at_def)
  then have ok1: "session_ok env rinv tinv ?r1"
    by (intro session_ok_modify [OF ok find])
      (simp_all add: announced_snoc msg_effect_def bgp_msg_open_create_def)
  have find1: "bgp_router_find_peer ?r1 a = Some (?g (?f pr))"
    using find_peer_modified [of "\<lambda>p. ?g (?f p)", OF _ find] by simp
  obtain router' where "for_each (bgp_peer_prefix_disseminate env a) (rib_routes (rib_trie env) (loc_rib ?r1)) ?r1 = Some router'"
    "session_ok env rinv tinv router'" "session_of router' = session_of ?r1"
    using disseminate_all [OF ok1 find1] by blast
  moreover have "session_of ?r1 = (session_of router)(a \<mapsto> (SESSION_STATE_ESTABLISHED, recv_seq_num pr))"
    using session_of_modify [of "\<lambda>p. ?g (?f p)", OF _ find] by simp
  ultimately show ?thesis
    using send find v act by (auto simp: bgp_peer_session_open_rcvd_def assert_opt_def Let_def)
qed

end

section \<open>The session state machine\<close>

text \<open>What a message does to the session of its sender, as a specification: the state and the number expected of
  the next message.  \<^term>\<open>None\<close> where the program stops.\<close>

definition session_receive :: "bool \<Rightarrow> bgp_msg_payload \<Rightarrow> session \<Rightarrow> session option" where
  "session_receive virt pl s =
     (case pl of
        BGP_MSG_TYPE_OPEN _ \<Rightarrow>
          if \<not> virt \<and> fst s \<in> {SESSION_STATE_ACTIVE, SESSION_STATE_OPENWAIT}
          then Some (SESSION_STATE_ESTABLISHED, snd s + 1) else None
      | BGP_MSG_TYPE_CLOSE \<Rightarrow>
          if virt then None
          else if fst s \<in> {SESSION_STATE_ESTABLISHED, SESSION_STATE_OPENWAIT} then Some (SESSION_STATE_ACTIVE, 0)
          else Some (fst s, snd s + 1)
      | _ \<Rightarrow>
          if fst s \<in> {SESSION_STATE_ESTABLISHED, SESSION_STATE_OPENWAIT}
          then Some (SESSION_STATE_ESTABLISHED, snd s + 1) else None)"

text \<open>The routes and prefixes of the messages that are considered.\<close>

definition payload_ok :: "'e attr_env_scheme \<Rightarrow> bgp_msg_payload \<Rightarrow> bool" where
  "payload_ok env pl =
     (case pl of BGP_MSG_TYPE_UPDATE r \<Rightarrow> route_handled env r | BGP_MSG_TYPE_WITHDRAW p \<Rightarrow> pfx_wf p | _ \<Rightarrow> True)"

context bgp_environment
begin

lemma handle_message_session:
  assumes ok: "session_ok env rinv tinv router" and find: "bgp_router_find_peer router a = Some pr"
    and pl: "payload_ok env (payload msg)" and seq: "bgp_peer_seqnum_check pr msg = 0"
  shows "case session_receive (bgp_peer_flag_get pr PEER_FLAG_VIRTUAL) (payload msg) (session_state pr, recv_seq_num pr) of
      None \<Rightarrow> bgp_peer_handle_message env a msg router = None
    | Some s \<Rightarrow> \<exists>router'. bgp_peer_handle_message env a msg router = Some (0, router')
        \<and> session_ok env rinv tinv router' \<and> session_of router' = (session_of router)(a \<mapsto> s)"
proof -
  let ?f = "\<lambda>p. p\<lparr>recv_seq_num := recv_seq_num p + 1\<rparr>"
  let ?r = "peer_modify a ?f router" and ?v = "bgp_peer_flag_get pr PEER_FLAG_VIRTUAL"
  have ok1: "session_ok env rinv tinv ?r" by (rule session_ok_keep [OF ok find]) simp_all
  have find1: "bgp_router_find_peer ?r a = Some (?f pr)" using find_peer_modified [of ?f, OF _ find] by simp
  have ses1: "session_of ?r = (session_of router)(a \<mapsto> (session_state pr, recv_seq_num pr + 1))"
    using session_of_modify [of ?f, OF _ find] by simp
  have virt: "bgp_peer_flag_get (?f pr) PEER_FLAG_VIRTUAL = ?v" by (simp add: bgp_peer_flag_get_def)
  have run: "bgp_peer_handle_message env a msg router = map_option (Pair 0)
      (case payload msg of
            BGP_MSG_TYPE_UPDATE route \<Rightarrow> bgp_peer_session_update_rcvd env a route ?r
          | BGP_MSG_TYPE_WITHDRAW p \<Rightarrow> bgp_peer_session_withdraw_rcvd env a p ?r
          | BGP_MSG_TYPE_CLOSE \<Rightarrow> bgp_peer_session_close_rcvd env a ?r
          | BGP_MSG_TYPE_OPEN id' \<Rightarrow> bgp_peer_session_open_rcvd env a id' ?r)"
    using seq find by (simp add: bgp_peer_handle_message_def Let_def)
  show ?thesis
  proof (cases "payload msg")
    case (BGP_MSG_TYPE_UPDATE r)
    then have "route_handled env r" using pl by (simp add: payload_ok_def)
    with update_rcvd_session(1) [OF ok1 find1] find1 show ?thesis
      by (cases "session_state pr") (auto simp: run BGP_MSG_TYPE_UPDATE session_receive_def ses1
          bgp_peer_session_update_rcvd_def session_establish_def)
  next
    case (BGP_MSG_TYPE_WITHDRAW p)
    then have "pfx_wf p" using pl by (simp add: payload_ok_def)
    with update_rcvd_session(2) [OF ok1 find1] find1 show ?thesis
      by (cases "session_state pr") (auto simp: run BGP_MSG_TYPE_WITHDRAW session_receive_def ses1
          bgp_peer_session_withdraw_rcvd_def session_establish_def)
  next
    case BGP_MSG_TYPE_CLOSE
    show ?thesis
    proof (cases ?v)
      case True
      with virt find1 show ?thesis
        by (simp add: run BGP_MSG_TYPE_CLOSE session_receive_def bgp_peer_session_close_rcvd_def assert_opt_def)
    next
      case False
      with close_rcvd_session [OF ok1 find1] virt show ?thesis
        by (cases "session_state pr") (auto simp: run BGP_MSG_TYPE_CLOSE session_receive_def ses1)
    qed
  next
    case (BGP_MSG_TYPE_OPEN n)
    show ?thesis
    proof (cases "\<not> ?v \<and> session_state pr \<in> {SESSION_STATE_ACTIVE, SESSION_STATE_OPENWAIT}")
      case True
      then have v: "\<not> ?v" and st: "session_state pr = SESSION_STATE_ACTIVE \<or> session_state pr = SESSION_STATE_OPENWAIT" by auto
      with open_rcvd_session [OF ok1 find1, of n] virt st show ?thesis
        by (auto simp: run BGP_MSG_TYPE_OPEN session_receive_def ses1)
    next
      case False
      with virt find1 show ?thesis
        by (cases "session_state pr")
          (auto simp: run BGP_MSG_TYPE_OPEN session_receive_def bgp_peer_session_open_rcvd_def assert_opt_def)
    qed
  qed
qed

end

section \<open>Opening a session\<close>

lemma session_reset_fields [simp]:
  "p_addr (session_reset p) = p_addr p" "session_state (session_reset p) = session_state p"
  "recv_seq_num (session_reset p) = 0" "adj_rib_in (session_reset p) = adj_rib_in p" "adj_rib_out (session_reset p) = adj_rib_out p"
  "filter_in (session_reset p) = filter_in p" "filter_out (session_reset p) = filter_out p" "p_flags (session_reset p) = p_flags p"
  "bgp_peer_flag_get (session_reset p) = bgp_peer_flag_get p" "src_addr (session_reset p) = src_addr p" "send_seq_num (session_reset p) = 0"
  by (simp_all add: session_reset_def bgp_peer_flag_get_def fun_eq_iff)

lemma reset_session:
  assumes ok: "session_ok env rinv tinv router" and find: "bgp_router_find_peer router a = Some pr"
  shows "session_ok env rinv tinv (peer_modify a session_reset router)"
    "bgp_router_find_peer (peer_modify a session_reset router) a = Some (session_reset pr)"
    "session_of (peer_modify a session_reset router) = (session_of router)(a \<mapsto> (session_state pr, 0))"
proof -
  show "session_ok env rinv tinv (peer_modify a session_reset router)" by (rule session_ok_keep [OF ok find]) simp_all
  show "bgp_router_find_peer (peer_modify a session_reset router) a = Some (session_reset pr)"
    by (rule find_peer_modified [OF _ find]) simp
  show "session_of (peer_modify a session_reset router) = (session_of router)(a \<mapsto> (session_state pr, 0))"
    using session_of_modify [of session_reset, OF _ find] by simp
qed

lemma last_error_session:
  assumes ok: "session_ok env rinv tinv router" and find: "bgp_router_find_peer router a = Some pr"
  shows "session_ok env rinv tinv (peer_modify a (\<lambda>p. p\<lparr>last_error := e\<rparr>) router)"
    "session_of (peer_modify a (\<lambda>p. p\<lparr>last_error := e\<rparr>) router) = session_of router"
proof -
  show "session_ok env rinv tinv (peer_modify a (\<lambda>p. p\<lparr>last_error := e\<rparr>) router)"
    by (rule session_ok_keep [OF ok find]) simp_all
  show "session_of (peer_modify a (\<lambda>p. p\<lparr>last_error := e\<rparr>) router) = session_of router"
    using session_of_modify [of "\<lambda>p. p\<lparr>last_error := e\<rparr>", OF _ find] session_of_id [OF find] by simp
qed

text \<open>The state of a session after it was opened.\<close>

definition opened_state ::
    "('t, 'r, 'z) bgp_env_scheme \<Rightarrow> 'r bgp_peer \<Rightarrow> ('t, 'r) bgp_router \<Rightarrow> bgp_peer_state" where
  "opened_state env pr router =
     (if bgp_peer_flag_get pr PEER_FLAG_VIRTUAL
      then (if bgp_peer_session_ok env pr router then SESSION_STATE_ESTABLISHED else SESSION_STATE_ACTIVE)
      else (if node_send_msg env (node router) (src_addr pr) (p_addr pr)
                 ((bgp_msg_open_create (r_asn router) (rid router))\<lparr>seq_num := 0\<rparr>) = ESUCCESS
            then SESSION_STATE_OPENWAIT else SESSION_STATE_ACTIVE))"

lemma open_session_real:
  assumes ok: "session_ok env rinv tinv router" and find: "bgp_router_find_peer router a = Some pr"
    and st: "session_state pr = SESSION_STATE_IDLE \<or> session_state pr = SESSION_STATE_ACTIVE"
    and v: "\<not> bgp_peer_flag_get pr PEER_FLAG_VIRTUAL"
  shows "\<exists>router'. bgp_peer_open_session env a router = Some (ESUCCESS, router') \<and> session_ok env rinv tinv router'
    \<and> session_of router' = (session_of router)(a \<mapsto> (opened_state env pr router, 0))"
proof -
  let ?msg = "bgp_msg_open_create (r_asn router) (rid router)"
  note r1 = reset_session [OF ok find]
  have ne: "session_state pr \<noteq> SESSION_STATE_ESTABLISHED" using st by auto
  have msg: "payload ?msg = BGP_MSG_TYPE_OPEN (rid router)" by (simp add: bgp_msg_open_create_def)
  let ?pr2 = "(session_reset pr)\<lparr>send_seq_num := 1\<rparr>"
  obtain res r2 where r2: "bgp_peer_send env a ?msg (peer_modify a session_reset router) = Some (res, r2)" "session_ok env rinv tinv r2"
    "session_of r2 = (session_of router)(a \<mapsto> (session_state pr, 0))" "bgp_router_find_peer r2 a = Some ?pr2"
    "res = node_send_msg env (node router) (src_addr pr) (p_addr pr) (?msg\<lparr>seq_num := 0\<rparr>)"
    "\<And>p. \<not> announced a p (outbox r2)"
    by (rule send_session [OF r1(1,2), of ?msg "rid router"]) (use ne msg v r1(3) in auto)
  have "bgp_peer_open_session env a router = Some (ESUCCESS, peer_modify a (\<lambda>p. p\<lparr>last_error := res\<rparr>)
      (if res = ESUCCESS then peer_modify a (\<lambda>p. p\<lparr>session_state := SESSION_STATE_OPENWAIT\<rparr>) r2
       else peer_modify a (\<lambda>p. session_reset (p\<lparr>session_state := SESSION_STATE_ACTIVE\<rparr>)) r2))"
    using st find v r2(1) by (auto simp: bgp_peer_open_session_def Let_def)
  moreover obtain r3 pr3 where r3: "r3 = (if res = ESUCCESS then peer_modify a (\<lambda>p. p\<lparr>session_state := SESSION_STATE_OPENWAIT\<rparr>) r2
       else peer_modify a (\<lambda>p. session_reset (p\<lparr>session_state := SESSION_STATE_ACTIVE\<rparr>)) r2)"
    "session_ok env rinv tinv r3" "bgp_router_find_peer r3 a = Some pr3"
    "session_of r3 = (session_of router)(a \<mapsto> (opened_state env pr router, 0))"
  proof (cases "res = ESUCCESS")
    case True
    let ?f = "\<lambda>p. p\<lparr>session_state := SESSION_STATE_OPENWAIT\<rparr>"
    from state_session [of env rinv tinv r2 a ?pr2 ?f, OF r2(2,4)] ne r2(3,5,6) True v
    show thesis by (intro that) (simp_all add: opened_state_def)
  next
    case False
    let ?f = "\<lambda>p. session_reset (p\<lparr>session_state := SESSION_STATE_ACTIVE\<rparr>)"
    from state_session [of env rinv tinv r2 a ?pr2 ?f, OF r2(2,4)] ne r2(3,5,6) False v
    show thesis by (intro that) (simp_all add: opened_state_def)
  qed
  ultimately show ?thesis using last_error_session [OF r3(2,3)] by simp
qed

context bgp_environment
begin

lemma rescan_session:
  assumes ok: "session_ok env rinv tinv router" and find: "bgp_router_find_peer router a = Some pr"
  obtains router' q where "bgp_peer_rescan_adjribin env a False router = Some router'" "session_ok env rinv tinv router'"
    "session_of router' = session_of router" "bgp_router_find_peer router' a = Some q"
proof -
  have "router_ok env rinv tinv router" using ok by (simp add: session_ok_def)
  from rescan_effect [OF this find, of False] obtain router' where r: "bgp_peer_rescan_adjribin env a False router = Some router'"
    "router_ok env rinv tinv router'" "dp_frame env router router'" by auto
  obtain q where "bgp_router_find_peer router' a = Some q" using dp_frame_find [OF r(3) find] .
  with that [OF r(1) session_ok_dp_frame [OF ok r(2,3)] dp_frame_session [OF r(3)]] show thesis by blast
qed

lemma open_session_virtual:
  assumes ok: "session_ok env rinv tinv router" and find: "bgp_router_find_peer router a = Some pr"
    and st: "session_state pr = SESSION_STATE_IDLE \<or> session_state pr = SESSION_STATE_ACTIVE"
    and v: "bgp_peer_flag_get pr PEER_FLAG_VIRTUAL"
  shows "\<exists>router'. bgp_peer_open_session env a router = Some (ESUCCESS, router') \<and> session_ok env rinv tinv router'
    \<and> session_of router' = (session_of router)(a \<mapsto> (opened_state env pr router, 0))"
proof -
  let ?r1 = "peer_modify a session_reset router"
  note r1 = reset_session [OF ok find]
  have ne: "session_state pr \<noteq> SESSION_STATE_ESTABLISHED" using st by auto
  have reach: "bgp_peer_session_ok env pr ?r1 = bgp_peer_session_ok env pr router" by (simp add: bgp_peer_session_ok_def)
  show ?thesis
  proof (cases "bgp_peer_session_ok env pr router")
    case True
    let ?f = "\<lambda>p. p\<lparr>session_state := SESSION_STATE_ESTABLISHED, router_id := p_addr p\<rparr>"
    have r2: "session_ok env rinv tinv (peer_modify a ?f ?r1)"
      "session_of (peer_modify a ?f ?r1) = (session_of router)(a \<mapsto> (SESSION_STATE_ESTABLISHED, 0))"
      "bgp_router_find_peer (peer_modify a ?f ?r1) a = Some (?f (session_reset pr))"
      using state_session [of env rinv tinv ?r1 a "session_reset pr" ?f, OF r1(1,2)] ne v r1(3) by simp_all
    obtain r3 q where r3: "(if bgp_peer_flag_get pr PEER_FLAG_SOFT_RESTART
           then bgp_peer_rescan_adjribin env a False (peer_modify a ?f ?r1) else Some (peer_modify a ?f ?r1)) = Some r3"
      "session_ok env rinv tinv r3" "session_of r3 = session_of (peer_modify a ?f ?r1)" "bgp_router_find_peer r3 a = Some q"
    proof (cases "bgp_peer_flag_get pr PEER_FLAG_SOFT_RESTART")
      case True
      show thesis by (rule rescan_session [OF r2(1,3)]) (rule that; simp add: True)
    next
      case False
      show thesis by (rule that [OF _ r2(1) refl r2(3)]) (simp add: False)
    qed
    have "bgp_peer_open_session env a router = Some (ESUCCESS, peer_modify a (\<lambda>p. p\<lparr>last_error := ESUCCESS\<rparr>) r3)"
      using st find True v r3(1) reach by (auto simp: bgp_peer_open_session_def Let_def)
    with last_error_session [OF r3(2,4)] r3(3) r2(2) v True show ?thesis by (simp add: opened_state_def)
  next
    case False
    let ?f = "\<lambda>p. p\<lparr>session_state := SESSION_STATE_ACTIVE, last_error := EBGP_PEER_UNREACHABLE\<rparr>"
    have "session_ok env rinv tinv (peer_modify a ?f ?r1)"
      "session_of (peer_modify a ?f ?r1) = (session_of router)(a \<mapsto> (SESSION_STATE_ACTIVE, 0))"
      using state_session [of env rinv tinv ?r1 a "session_reset pr" ?f, OF r1(1,2)] ne v r1(3) by simp_all
    moreover have "bgp_peer_open_session env a router = Some (ESUCCESS, peer_modify a ?f ?r1)"
      using st find v False reach by (auto simp: bgp_peer_open_session_def Let_def)
    ultimately show ?thesis using v False by (simp add: opened_state_def)
  qed
qed

lemma open_session_effect:
  assumes ok: "session_ok env rinv tinv router" and find: "bgp_router_find_peer router a = Some pr"
  shows "\<exists>result router'. bgp_peer_open_session env a router = Some (result, router') \<and> session_ok env rinv tinv router'
    \<and> (if session_state pr = SESSION_STATE_IDLE \<or> session_state pr = SESSION_STATE_ACTIVE
       then result = ESUCCESS \<and> session_of router' = (session_of router)(a \<mapsto> (opened_state env pr router, 0))
       else result = EBGP_PEER_INVALID_STATE \<and> router' = router)"
  using open_session_real [OF ok find] open_session_virtual [OF ok find] ok find
  by (cases "session_state pr = SESSION_STATE_IDLE \<or> session_state pr = SESSION_STATE_ACTIVE";
      cases "bgp_peer_flag_get pr PEER_FLAG_VIRTUAL") (auto simp: bgp_peer_open_session_def)

lemma close_session_effect:
  assumes ok: "session_ok env rinv tinv router" and find: "bgp_router_find_peer router a = Some pr"
  shows "\<exists>result router'. bgp_peer_close_session env a router = Some (result, router') \<and> session_ok env rinv tinv router'
    \<and> (if session_state pr = SESSION_STATE_IDLE then result = EBGP_PEER_INVALID_STATE \<and> router' = router
       else result = ESUCCESS \<and> session_of router' = (session_of router)(a \<mapsto> (SESSION_STATE_IDLE, 0)))"
proof (cases "session_state pr = SESSION_STATE_IDLE")
  case True
  with find ok show ?thesis by (simp add: bgp_peer_close_session_def)
next
  case False
  let ?sends = "(session_state pr = SESSION_STATE_OPENWAIT \<or> session_state pr = SESSION_STATE_ESTABLISHED)
                \<and> \<not> bgp_peer_flag_get pr PEER_FLAG_VIRTUAL"
  let ?msg = "bgp_msg_close_create (r_asn router)"
  have msg: "payload ?msg = BGP_MSG_TYPE_CLOSE" by (simp add: bgp_msg_close_create_def)
  obtain r1 pr1 where r1: "(if ?sends then map_option snd (bgp_peer_send env a ?msg router) else Some router) = Some r1"
    "session_ok env rinv tinv r1" "session_of r1 = session_of router" "bgp_router_find_peer r1 a = Some pr1"
    "p_flags pr1 = p_flags pr"
  proof (cases ?sends)
    case True
    show thesis
      by (rule send_session [OF ok find, of ?msg]) (use msg True in \<open>auto intro!: that\<close>)
  qed (use ok find that in auto)
  have flags: "bgp_peer_flag_get pr1 = bgp_peer_flag_get pr" using r1(5) by (simp add: bgp_peer_flag_get_def fun_eq_iff)
  let ?clear = "\<not> (bgp_peer_flag_get pr PEER_FLAG_VIRTUAL \<and> bgp_peer_flag_get pr PEER_FLAG_SOFT_RESTART)"
  obtain r2 where "bgp_peer_rescan_adjribin env a ?clear
      (peer_modify a (\<lambda>p. session_reset (p\<lparr>session_state := SESSION_STATE_IDLE\<rparr>)) r1) = Some r2"
    "session_ok env rinv tinv r2" "session_of r2 = (session_of r1)(a \<mapsto> (SESSION_STATE_IDLE, 0))"
    using close_common [OF r1(2,4), of SESSION_STATE_IDLE ?clear] flags by auto
  with False find r1(1,3) show ?thesis by (simp add: bgp_peer_close_session_def)
qed

end

section \<open>Configuration of a router\<close>

lemma peers_only_ok:
  assumes ok: "session_ok env rinv tinv router" and "router_ok env rinv tinv router'"
    and "peers router' = peers router" "outbox router' = outbox router"
  shows "session_ok env rinv tinv router'"
  using assms by (simp add: session_ok_def idle_at_def bgp_router_find_peer_def)

context bgp_environment
begin

lemma refresh_session:
  assumes ok: "session_ok env rinv tinv router" and find: "bgp_router_find_peer router a = Some pr"
  shows "\<exists>router'. bgp_peer_session_refresh env a router = Some router' \<and> session_ok env rinv tinv router'"
proof -
  have zero: "ESUCCESS = 0" by (simp add: ESUCCESS_def)
  consider (lost) "session_state pr = SESSION_STATE_ESTABLISHED \<or> session_state pr = SESSION_STATE_OPENWAIT" "\<not> bgp_peer_session_ok env pr router"
    | (up) "session_state pr = SESSION_STATE_ACTIVE" "bgp_peer_session_ok env pr router"
    | (same) "bgp_peer_session_refresh env a router = Some router"
    using find by (cases "session_state pr"; cases "bgp_peer_session_ok env pr router") (auto simp: bgp_peer_session_refresh_def)
  then show ?thesis
  proof cases
    case lost
    then obtain r1 where r1: "bgp_peer_close_session env a router = Some (ESUCCESS, r1)" "session_ok env rinv tinv r1"
      "session_of r1 = (session_of router)(a \<mapsto> (SESSION_STATE_IDLE, 0))"
      using close_session_effect [OF ok find] by auto
    then obtain pr1 where pr1: "bgp_router_find_peer r1 a = Some pr1" "session_state pr1 = SESSION_STATE_IDLE"
      by (auto simp: session_of_def fun_eq_iff split: if_splits dest: spec [of _ a])
    let ?f = "\<lambda>p. p\<lparr>session_state := SESSION_STATE_ACTIVE\<rparr>"
    have "session_ok env rinv tinv (peer_modify a ?f r1)"
      by (rule state_session(1) [OF r1(2) pr1(1)]) (simp_all add: pr1(2))
    moreover have "bgp_peer_session_refresh env a router = Some (peer_modify a ?f r1)"
      using lost find r1(1) by (auto simp: bgp_peer_session_refresh_def assert_opt_def zero)
    ultimately show ?thesis by blast
  next
    case up
    then obtain r1 where "bgp_peer_open_session env a router = Some (ESUCCESS, r1)" "session_ok env rinv tinv r1"
      using open_session_effect [OF ok find] by auto
    with up find show ?thesis by (auto simp: bgp_peer_session_refresh_def assert_opt_def zero)
  next
    case same
    with ok show ?thesis by blast
  qed
qed

lemma loc_change_session:
  assumes ok: "session_ok env rinv tinv router" and p: "pfx_wf p" and rib: "rinv rib"
    and other: "\<And>q. pfx_norm q \<noteq> pfx_norm p \<Longrightarrow> rib_find_exact (rib_trie env) rib q = loc_find env router q"
    and here: "\<And>r. rib_find_exact (rib_trie env) rib p = Some r \<Longrightarrow> loc_route_ok env (router\<lparr>loc_rib := rib\<rparr>) p r"
  shows "session_ok env rinv tinv (router\<lparr>loc_rib := rib, local_nets := nets\<rparr>)"
proof -
  have rok: "router_ok env rinv tinv router" using ok by (simp add: session_ok_def)
  have eq: "set_node_rt (node_rt (node router)) (router\<lparr>loc_rib := rib\<rparr>) = router\<lparr>loc_rib := rib\<rparr>"
    by (simp add: set_node_rt_def)
  have "router_ok env rinv tinv (set_node_rt (node_rt (node router)) (router\<lparr>loc_rib := rib\<rparr>))"
    by (rule router_ok_loc [OF rok p axioms'(2,1) rib _ _ other]) (use rok here in \<open>simp_all add: router_ok_def eq\<close>)
  then have "router_ok env rinv tinv (router\<lparr>loc_rib := rib, local_nets := nets\<rparr>)"
    by (simp add: eq router_ok_def adj_ok_def adj_ribs_ok_def adj_find_def loc_ok_def loc_find_def rib_out_ok_def
        bgp_router_find_peer_def loc_route_ok_def)
  then show ?thesis by (rule peers_only_ok [OF ok]) simp_all
qed

lemma disseminate_session:
  assumes ok: "session_ok env rinv tinv router" and p: "pfx_wf p"
    and route: "\<And>r. route = Some r \<Longrightarrow> pfx_norm (pfx r) = pfx_norm p \<and> route_sendable env router r"
  obtains router' where "disseminate env p route router = Some router'" "session_ok env rinv tinv router'"
    "loc_rib router' = loc_rib router"
proof -
  have rok: "router_ok env rinv tinv router" using ok by (simp add: session_ok_def)
  obtain router' where r: "disseminate env p route router = Some router'" "router_ok env rinv tinv router'"
    "changes_at env p router router'" "loc_rib router' = loc_rib router"
    by (rule disseminate_effect [OF rok p, where route = route]) (rule route, assumption, rule that)
  from that [OF r(1) session_ok_dp_frame [OF ok r(2) changes_at_dp_frame [OF r(3)]] r(4)] show thesis .
qed

lemma add_route_session:
  assumes ok: "session_ok env rinv tinv router" and wf: "route_wf env r" and r: "peer r = None" "ecomms (attr r) = None"
    "originator (attr r) = None" "route_flag_get r ROUTE_FLAG_INTERNAL"
  obtains router' where "bgp_router_add_route env r router = Some (ESUCCESS, router')" "session_ok env rinv tinv router'"
    "loc_find env router' (pfx r) = Some (r\<lparr>rank := 0\<rparr>)"
proof -
  let ?r = "r\<lparr>rank := 0\<rparr>"
  have p: "pfx_wf (pfx r)" using wf by (simp add: route_wf_def)
  have copy: "route_copy env r = Some ?r" using route_copy_interned [OF axioms'(3)] wf by (simp add: route_wf_def)
  have inv: "rinv (loc_rib router)" using ok by (simp add: session_ok_def router_ok_def loc_ok_def)
  obtain rib where rib: "rib_add_route (rib_trie env) (loc_rib router) ?r = (0, rib)" "rinv rib"
    "\<And>q. rib_find_exact (rib_trie env) rib q
       = (if pfx_norm q = pfx_norm (pfx r) then Some ?r else rib_find_exact (rib_trie env) (loc_rib router) q)"
    by (rule rib.rib_add_effect [OF inv, of ?r]) (use p in auto)
  let ?nets = "routes_list_append (local_nets router) r"
  let ?router = "router\<lparr>loc_rib := rib, local_nets := ?nets\<rparr>"
  have ok1: "session_ok env rinv tinv ?router"
    by (rule loc_change_session [OF ok p rib(2)])
      (use wf r in \<open>auto simp: rib(3) loc_find_def loc_route_ok_def route_wf_def route_flag_get_def split: if_splits\<close>)
  have send: "route_sendable env ?router r" using wf r by (simp add: route_sendable_def)
  obtain router' where r': "disseminate env (pfx r) (Some r) ?router = Some router'" "session_ok env rinv tinv router'"
    "loc_rib router' = loc_rib ?router"
    by (rule disseminate_session [OF ok1 p, of "Some r"]) (use send in auto)
  have "router\<lparr>local_nets := ?nets, loc_rib := rib\<rparr> = ?router" by simp
  with r'(1) have "disseminate env (pfx r) (Some r) (router\<lparr>local_nets := ?nets, loc_rib := rib\<rparr>) = Some router'" by metis
  then have "bgp_router_add_route env r router = Some (ESUCCESS, router')"
    using copy rib(1) by (simp add: bgp_router_add_route_def Let_def)
  then show thesis by (rule that [OF _ r'(2)]) (simp add: loc_find_def r'(3) rib(3))
qed

lemma network_session:
  assumes ok: "session_ok env rinv tinv router" and p: "pfx_wf p"
  shows "bgp_router_add_network env p router = Some (res, router') \<Longrightarrow> session_ok env rinv tinv router'"
    "bgp_router_del_network env p router = Some (res, router') \<Longrightarrow> session_ok env rinv tinv router'"
proof -
  let ?base = "route_flag_set ROUTE_FLAG_INTERNAL True (route_flag_set ROUTE_FLAG_FEASIBLE True
        (route_flag_set ROUTE_FLAG_BEST True (route_create p None (rid router) BGP_ORIGIN_IGP)))"
  let ?r = "route_localpref_set (options_local_pref env) ?base"
  have wf: "route_wf env ?r"
    using p by (simp add: route_wf_def route_localpref_set_def route_create_def route_create2_def bgp_attr_create_def
        path_ref_wf_def interned_def attrs.path_add_null attrs.comm_add_null)
  have "route_flag_get ?base ROUTE_FLAG_INTERNAL" unfolding route_flag_get_set by (simp add: route_flag_defs)
  then have int: "route_flag_get ?r ROUTE_FLAG_INTERNAL" by (simp add: route_localpref_set_def route_flag_get_def)
  obtain router1 where r1: "bgp_router_add_route env ?r router = Some (ESUCCESS, router1)" "session_ok env rinv tinv router1"
    by (rule add_route_session [OF ok wf _ _ _ int])
      (auto simp: route_localpref_set_def route_create_def route_create2_def bgp_attr_create_def)
  show "bgp_router_add_network env p router = Some (res, router') \<Longrightarrow> session_ok env rinv tinv router'"
    using ok r1 by (auto simp: bgp_router_add_network_def Let_def elim!: bind_SomeE split: if_splits)
  have inv: "rinv (loc_rib router)" using ok by (simp add: session_ok_def router_ok_def loc_ok_def)
  obtain result rib where rib: "rib_remove_route (rib_trie env) (loc_rib router) p = (result, rib)" "rinv rib"
    "\<And>q. rib_find_exact (rib_trie env) rib q = (if pfx_norm q = pfx_norm p then None else rib_find_exact (rib_trie env) (loc_rib router) q)"
    using rib.rib_remove_effect [OF inv p] by metis
  have ok2: "session_ok env rinv tinv (router\<lparr>loc_rib := rib, local_nets := nets\<rparr>)" for nets
    by (rule loc_change_session [OF ok p rib(2)]) (auto simp: rib(3) loc_find_def)
  have del: "session_ok env rinv tinv router2" if "disseminate env p None (router\<lparr>loc_rib := rib, local_nets := nets\<rparr>) = Some router2"
    for nets router2
    by (rule disseminate_session [OF ok2 [of nets] p, where route = None]) (use that in auto)
  assume "bgp_router_del_network env p router = Some (res, router')"
  then obtain found where f: "find_network 0 p (local_nets router) = Some found"
    and rest: "(case found of
       None \<Rightarrow> Some (EUNSPECIFIED, router)
     | Some index \<Rightarrow> do {
           router \<leftarrow> disseminate env p None (router\<lparr>loc_rib := rib, local_nets := routes_list_remove_at (local_nets router) index\<rparr>);
           Some (ESUCCESS, router)
         }) = Some (res, router')"
    unfolding bgp_router_del_network_def Let_def rib(1) snd_conv
    by (elim bind_SomeE) (simp cong: option.case_cong)
  show "session_ok env rinv tinv router'"
  proof (cases found)
    case None
    with rest ok show ?thesis by simp
  next
    case (Some index)
    with rest obtain router2 where "disseminate env p None
        (router\<lparr>loc_rib := rib, local_nets := routes_list_remove_at (local_nets router) index\<rparr>) = Some router2" "router' = router2"
      by (auto elim: bind_SomeE)
    with del show ?thesis by blast
  qed
qed

end

section \<open>Commands on all peers and all prefixes\<close>

text \<open>Partial correctness of the loops.\<close>

lemma for_each_keeps:
  assumes "\<And>x s s'. x \<in> set xs \<Longrightarrow> P s \<Longrightarrow> f x s = Some s' \<Longrightarrow> P s'"
  shows "P s \<Longrightarrow> for_each f xs s = Some s' \<Longrightarrow> P s'"
  using assms
proof (induction xs arbitrary: s)
  case (Cons x xs)
  from Cons.prems(2) obtain s1 where "f x s = Some s1" "for_each f xs s1 = Some s'"
    unfolding for_each.simps by (elim bind_SomeE) (rule that)
  with Cons show ?case by (metis list.set_intros)
qed simp

lemma peers_loop_keeps:
  assumes "\<And>a r x r'. P r \<Longrightarrow> f a r = Some (x, r') \<Longrightarrow> P r'"
  shows "P r \<Longrightarrow> peers_loop f as r = Some (x, r') \<Longrightarrow> P r'"
proof (induction as arbitrary: r)
  case (Cons a as)
  from Cons.prems(2) obtain y r1 where 1: "f a r = Some (y, r1)"
    and rest: "(if y \<noteq> 0 then Some (-1, r1) else peers_loop f as r1) = Some (x, r')"
    unfolding peers_loop.simps by (elim bind_SomeE) (auto intro: that)
  have "P r1" using assms Cons.prems(1) 1 by blast
  with rest Cons.IH show ?case by (auto split: if_splits)
qed simp

lemma open_close_find:
  "bgp_peer_open_session env a router = Some x \<Longrightarrow> \<exists>pr. bgp_router_find_peer router a = Some pr"
  "bgp_peer_close_session env a router = Some x \<Longrightarrow> \<exists>pr. bgp_router_find_peer router a = Some pr"
  "bgp_peer_session_refresh env a router = Some y \<Longrightarrow> \<exists>pr. bgp_router_find_peer router a = Some pr"
  unfolding bgp_peer_open_session_def bgp_peer_close_session_def bgp_peer_session_refresh_def
  by (elim bind_SomeE, blast)+

lemma peer_modify_none: "bgp_router_find_peer router a = None \<Longrightarrow> peer_modify a f router = router"
proof -
  assume "bgp_router_find_peer router a = None"
  then have "map (\<lambda>p. if p_addr p = a then f p else p) (peers router) = peers router"
    by (intro map_idI) (auto simp: bgp_router_find_peer_def bgp_peers_find_def find_None_iff)
  then show ?thesis by (simp add: peer_modify_def)
qed

lemma find_peer_map:
  "(\<And>p. p_addr (g p) = p_addr p) \<Longrightarrow> peers router' = map g (peers router)
    \<Longrightarrow> bgp_router_find_peer router' a = map_option g (bgp_router_find_peer router a)"
proof -
  assume "\<And>p. p_addr (g p) = p_addr p" "peers router' = map g (peers router)"
  moreover from this(1) have "find (\<lambda>p. p_addr p = a) (map g ps) = map_option g (find (\<lambda>p. p_addr p = a) ps)" for ps
    by (induction ps) auto
  ultimately show ?thesis by (simp add: bgp_router_find_peer_def bgp_peers_find_def)
qed

text \<open>A list of prefixes made from well-formed prefixes is well formed.\<close>

definition radix_ok :: "(ip_pfx list \<Rightarrow> ip_pfx list) \<Rightarrow> bool" where
  "radix_ok radix \<longleftrightarrow> (\<forall>ps. (\<forall>p\<in>set ps. pfx_wf p) \<longrightarrow> (\<forall>p\<in>set (radix ps). pfx_wf p))"

text \<open>A router without established session with a peer that receives messages.\<close>

definition no_session :: "('t, 'r) bgp_router \<Rightarrow> bool" where
  "no_session router \<longleftrightarrow>
     (\<forall>pr\<in>set (peers router). session_state pr = SESSION_STATE_ESTABLISHED \<longrightarrow> bgp_peer_flag_get pr PEER_FLAG_VIRTUAL)"

lemma scan_rib_loop_eq: "scan_rib_loop ps acc = (0, acc @ ps)"
  by (induction ps arbitrary: acc) (simp_all add: bgp_router_scan_rib_for_each_def)

context bgp_environment
begin

lemma session_steps:
  assumes ok: "session_ok env rinv tinv router"
  shows "bgp_peer_open_session env a router = Some (res, router') \<Longrightarrow> session_ok env rinv tinv router'"
    and "bgp_peer_close_session env a router = Some (res, router') \<Longrightarrow> session_ok env rinv tinv router'"
    and "bgp_peer_session_refresh env a router = Some router' \<Longrightarrow> session_ok env rinv tinv router'"
    and "pfx_wf p \<Longrightarrow> bgp_router_decision_process env p router = Some router' \<Longrightarrow> session_ok env rinv tinv router'"
proof -
  show "bgp_peer_open_session env a router = Some (res, router') \<Longrightarrow> session_ok env rinv tinv router'"
    using open_close_find(1) open_session_effect [OF ok] by fastforce
  show "bgp_peer_close_session env a router = Some (res, router') \<Longrightarrow> session_ok env rinv tinv router'"
    using open_close_find(2) close_session_effect [OF ok] by fastforce
  show "bgp_peer_session_refresh env a router = Some router' \<Longrightarrow> session_ok env rinv tinv router'"
    using open_close_find(3) refresh_session [OF ok] by fastforce
  assume p: "pfx_wf p" and run: "bgp_router_decision_process env p router = Some router'"
  have rok: "router_ok env rinv tinv router" using ok by (simp add: session_ok_def)
  obtain r where "bgp_router_decision_process env p router = Some r" "router_ok env rinv tinv r" "changes_at env p router r"
    using process_total [OF rok p] .
  with run ok show "session_ok env rinv tinv router'" by (auto intro: session_ok_dp_frame changes_at_dp_frame)
qed

lemma start_stop_reset_ok:
  assumes ok: "session_ok env rinv tinv router"
  shows "bgp_router_start env router = Some (res, router') \<Longrightarrow> session_ok env rinv tinv router'"
    and "bgp_router_stop env router = Some (res, router') \<Longrightarrow> session_ok env rinv tinv router'"
    and "bgp_router_reset env router = Some (res, router') \<Longrightarrow> session_ok env rinv tinv router'"
    and "bgp_router_refresh_sessions env router = Some router' \<Longrightarrow> session_ok env rinv tinv router'"
proof -
  have start: "session_ok env rinv tinv r'" if "session_ok env rinv tinv r" "bgp_router_start env r = Some (x, r')" for r x r'
    using peers_loop_keeps [where P = "session_ok env rinv tinv", OF session_steps(1) that(1)] that(2)
    by (auto simp: bgp_router_start_def)
  have stop: "session_ok env rinv tinv r'" if "session_ok env rinv tinv r" "bgp_router_stop env r = Some (x, r')" for r x r'
    using peers_loop_keeps [where P = "session_ok env rinv tinv", OF session_steps(2) that(1)] that(2)
    by (auto simp: bgp_router_stop_def)
  show "bgp_router_start env router = Some (res, router') \<Longrightarrow> session_ok env rinv tinv router'" by (rule start [OF ok])
  show "bgp_router_stop env router = Some (res, router') \<Longrightarrow> session_ok env rinv tinv router'" by (rule stop [OF ok])
  show "bgp_router_reset env router = Some (res, router') \<Longrightarrow> session_ok env rinv tinv router'"
  proof -
    assume "bgp_router_reset env router = Some (res, router')"
    then obtain x r1 where 1: "bgp_router_stop env router = Some (x, r1)"
      and rest: "(if x \<noteq> ESUCCESS then Some (x, r1) else bgp_router_start env r1) = Some (res, router')"
      unfolding bgp_router_reset_def by (cases "bgp_router_stop env router") auto
    with start [OF stop [OF ok 1]] stop [OF ok 1] show ?thesis by (cases "x = ESUCCESS") simp_all
  qed
  show "bgp_router_refresh_sessions env router = Some router' \<Longrightarrow> session_ok env rinv tinv router'"
    unfolding bgp_router_refresh_sessions_def
    by (rule for_each_keeps [where P = "session_ok env rinv tinv" and f = "bgp_peer_session_refresh env", OF session_steps(3) ok])
qed

lemma prefixes_wf:
  assumes ok: "session_ok env rinv tinv router" and radix: "radix_ok radix"
  shows "\<forall>p\<in>set (bgp_router_prefixes radix env router). pfx_wf p"
proof -
  have rok: "router_ok env rinv tinv router" using ok by (simp add: session_ok_def)
  have dist: "distinct (map p_addr (peers router))" using rok by (simp add: router_ok_def)
  have "pfx_wf p" if p: "p \<in> set (map pfx (rib_routes (rib_trie env) (adj_rib_in pr)))" and pr: "pr \<in> set (peers router)" for p pr
  proof -
    have "find (\<lambda>p. p_addr p = p_addr pr) ps = Some pr" if "distinct (map p_addr ps)" "pr \<in> set ps" for ps
      using that by (induction ps) (auto simp: image_iff)
    then have "bgp_router_find_peer router (p_addr pr) = Some pr"
      using dist pr by (simp add: bgp_router_find_peer_def bgp_peers_find_def)
    from rib_routes_adj(2) [OF rok this p] show ?thesis .
  qed
  moreover have "pfx_wf p" if "p \<in> set (map pfx (rib_routes (rib_trie env) (loc_rib router)))" for p
    using that loc_sendable(2) [OF rok] by auto
  ultimately have "\<forall>p\<in>set (bgp_router_get_peer_prefixes env router None @ bgp_router_get_local_prefixes env router). pfx_wf p"
    by (auto simp: bgp_router_get_peer_prefixes_def bgp_router_get_local_prefixes_def)
  with radix show ?thesis unfolding radix_ok_def bgp_router_prefixes_def by blast
qed

lemma decide_all_ok:
  "session_ok env rinv tinv router \<Longrightarrow> \<forall>p\<in>set ps. pfx_wf p \<Longrightarrow> for_each (bgp_router_decision_process env) ps router = Some router'
    \<Longrightarrow> session_ok env rinv tinv router'"
  using for_each_keeps [where P = "session_ok env rinv tinv" and f = "bgp_router_decision_process env" and xs = ps]
    session_steps(4) by blast

lemma scan_rerun_ok:
  assumes ok: "session_ok env rinv tinv router" and radix: "radix_ok radix"
  shows "bgp_router_scan_rib radix env router = Some (res, router') \<Longrightarrow> session_ok env rinv tinv router'"
    and "pfx_wf p \<Longrightarrow> bgp_router_rerun radix env p router = Some (res, router') \<Longrightarrow> session_ok env rinv tinv router'"
proof -
  assume "bgp_router_scan_rib radix env router = Some (res, router')"
  then obtain r1 where 1: "bgp_router_refresh_sessions env router = Some r1"
    and 2: "for_each (bgp_router_decision_process env) (bgp_router_prefixes radix env r1) r1 = Some router'"
    unfolding bgp_router_scan_rib_def by (elim bind_SomeE) (auto simp: scan_rib_loop_eq elim!: bind_SomeE)
  have "session_ok env rinv tinv r1" by (rule start_stop_reset_ok(4) [OF ok 1])
  from decide_all_ok [OF this prefixes_wf [OF this radix] 2] show "session_ok env rinv tinv router'" .
next
  assume p: "pfx_wf p" and "bgp_router_rerun radix env p router = Some (res, router')"
  then have "for_each (bgp_router_decision_process env)
      (if mask p = 0 then bgp_router_prefixes radix env router else radix [p]) router = Some router'"
    by (auto simp: bgp_router_rerun_def Let_def)
  moreover have "\<forall>q\<in>set [p]. pfx_wf q \<Longrightarrow> \<forall>q\<in>set (radix [p]). pfx_wf q" using radix unfolding radix_ok_def by blast
  ultimately show "session_ok env rinv tinv router'"
    using decide_all_ok [OF ok, of "if mask p = 0 then bgp_router_prefixes radix env router else radix [p]"] prefixes_wf [OF ok radix] p
    by (cases "mask p = 0") simp_all
qed

lemma readv_ok:
  assumes ok: "session_ok env rinv tinv router" and p: "pfx_wf p"
    and run: "bgp_router_peer_readv_prefix env a p router = Some (res, router')"
  shows "session_ok env rinv tinv router'"
proof (cases "mask p = 0 \<or> loc_find env router p = None")
  case True
  with run ok show ?thesis by (auto simp: bgp_router_peer_readv_prefix_def loc_find_def split: if_splits)
next
  case False
  then obtain r where r: "loc_find env router p = Some r" by blast
  have send: "disseminate_to_peer env p (Some r) a router = Some router'"
    using run False r by (auto simp: bgp_router_peer_readv_prefix_def loc_find_def)
  have rok: "router_ok env rinv tinv router" using ok by (simp add: session_ok_def)
  then have l: "loc_route_ok env router p r" and out: "rib_out_ok env rinv router" using p r by (simp_all add: router_ok_def loc_ok_def)
  have keeps: "rib_out_ok env rinv router'" "out_only router router'"
    using disseminate_to_peer_keeps [OF axioms'(1,3) out p _ send] l by (auto simp: loc_route_ok_def route_wf_def)
  from session_ok_dp_frame [OF ok router_ok_out [OF rok keeps(2,1)] out_only_dp_frame [OF keeps(2) disseminate_to_peer_frame [OF send]]]
  show ?thesis .
qed

lemma configure_ok:
  assumes ok: "session_ok env rinv tinv router"
  shows "bgp_peer_set_nexthop a nh router = (res, router') \<Longrightarrow> session_ok env rinv tinv router'"
    and "bgp_peer_set_source a src router = (res, router') \<Longrightarrow> session_ok env rinv tinv router'"
    and "filter_total env f \<Longrightarrow> filter_keeps env f \<Longrightarrow> bgp_router_peer_set_filter a dir f router = (res, router')
      \<Longrightarrow> session_ok env rinv tinv router'"
proof -
  have keep: "session_ok env rinv tinv (peer_modify a g router)"
    if "\<And>p. p_addr (g p) = p_addr p" "\<And>p. adj_rib_in (g p) = adj_rib_in p" "\<And>p. adj_rib_out (g p) = adj_rib_out p"
      "\<And>p. filter_in (g p) = filter_in p" "\<And>p. filter_out (g p) = filter_out p" "\<And>p. p_flags (g p) = p_flags p"
      "\<And>p. session_state (g p) = session_state p" for g
    by (cases "bgp_router_find_peer router a") (use ok session_ok_keep [OF ok, of a _ g] that in \<open>simp_all add: peer_modify_none\<close>)
  show "bgp_peer_set_nexthop a nh router = (res, router') \<Longrightarrow> session_ok env rinv tinv router'"
    using keep ok by (auto simp: bgp_peer_set_nexthop_def split: if_splits)
  show "bgp_peer_set_source a src router = (res, router') \<Longrightarrow> session_ok env rinv tinv router'"
    using keep by (auto simp: bgp_peer_set_source_def)
  assume f: "filter_total env f" "filter_keeps env f" and run: "bgp_router_peer_set_filter a dir f router = (res, router')"
  show "session_ok env rinv tinv router'"
  proof (cases "bgp_router_find_peer router a")
    case None
    with run ok show ?thesis by (simp add: bgp_router_peer_set_filter_def bgp_router_find_peer_def)
  next
    case (Some pr)
    let ?g = "bgp_peer_set_filter dir f"
    have g: "p_addr (?g p) = p_addr p" "adj_rib_in (?g p) = adj_rib_in p" "adj_rib_out (?g p) = adj_rib_out p"
      "bgp_peer_flag_get (?g p) = bgp_peer_flag_get p" "session_state (?g p) = session_state p" for p :: "'b bgp_peer"
      by (cases dir; simp add: bgp_peer_set_filter_def bgp_peer_flag_get_def fun_eq_iff)+
    have rok: "router_ok env rinv tinv router" and idle: "idle_at env router b" for b using ok by (simp_all add: session_ok_def)
    note pr = router_ok_found [OF rok Some]
    have "peer_filters_ok env (?g pr)" using pr(3) f by (cases dir) (simp_all add: peer_filters_ok_def bgp_peer_set_filter_def)
    then have "router_ok env rinv tinv ((peer_modify a ?g router)\<lparr>outbox := outbox router @ []\<rparr>)"
      using pr by (intro router_ok_peer [OF rok Some]) (simp_all add: g)
    then have "router_ok env rinv tinv (peer_modify a ?g router)" unfolding outbox_id .
    moreover have "idle_at env (peer_modify a ?g router) b" for b
      using idle [of b] find_peer_modify [of ?g a router b, OF g(1)]
      by (auto simp: idle_at_def g peer_modify_def split: if_splits)
    moreover have "router' = peer_modify a ?g router"
      using run Some by (simp add: bgp_router_peer_set_filter_def bgp_router_find_peer_def)
    ultimately show ?thesis by (simp add: session_ok_def)
  qed
qed

text \<open>The RIBs are cleared while no session is established.\<close>

lemma clear_ok:
  assumes ok: "session_ok env rinv tinv router" and none: "no_session router"
  shows "bgp_router_clear_adj_rib env router = (res, router') \<Longrightarrow> session_ok env rinv tinv router'"
    and "bgp_router_clear_rib env router = (res, router') \<Longrightarrow> session_ok env rinv tinv router'"
proof -
  let ?g = "\<lambda>p. p\<lparr>adj_rib_in := rib_create (rib_trie env), adj_rib_out := rib_create (rib_trie env)\<rparr>"
  have create: "rinv (rib_create (rib_trie env))" using rib.inv_create by (simp add: rib_create_def)
  have empty: "rib_find_exact (rib_trie env) (rib_create (rib_trie env)) q = None" for q
    using rib.find_create by (simp add: rib_create_def rib_find_exact_def)
  have rok: "router_ok env rinv tinv router" using ok by (simp add: session_ok_def)
  have idle: "idle_at env router b" for b using ok by (simp add: session_ok_def)
  have est: "p_flags pr AND PEER_FLAG_VIRTUAL \<noteq> 0"
    if "bgp_router_find_peer router a = Some pr" "session_state pr = SESSION_STATE_ESTABLISHED" for a pr
    using none that by (auto simp: no_session_def bgp_router_find_peer_def bgp_peers_find_def bgp_peer_flag_get_def find_Some_iff)
  have main: "session_ok env rinv tinv r'" if eq: "r' = router\<lparr>loc_rib := rib, peers := map ?g (peers router)\<rparr>"
    and rib: "rib = loc_rib router \<or> rib = rib_create (rib_trie env)" for r' rib
  proof -
    have find: "bgp_router_find_peer r' a = map_option ?g (bgp_router_find_peer router a)" for a
      by (rule find_peer_map) (simp_all add: eq)
    have adj: "adj_find env r' a p = None" for a p
      by (cases "bgp_router_find_peer router a") (simp_all add: adj_find_def find empty)
    then have "adj_ok env rinv r'" using create by (auto simp: adj_ok_def adj_ribs_ok_def find)
    moreover have "loc_ok env rinv r'"
    proof (cases "rib = loc_rib router")
      case True
      then show ?thesis
        using loc_ok_same_peers [of env rinv router r'] rok find by (auto simp: router_ok_def eq)
    next
      case False
      then have "loc_rib r' = rib_create (rib_trie env)" using rib by (simp add: eq)
      then show ?thesis using create empty by (simp add: loc_ok_def loc_find_def)
    qed
    moreover have "rib_out_ok env rinv r'"
      using est create by (auto simp: rib_out_ok_def find bgp_peer_flag_get_def)
    moreover have "peer_filters_ok env pr" if "bgp_router_find_peer r' a = Some pr" for a pr
      using that rok by (auto simp: find router_ok_def peer_filters_ok_def)
    moreover have "distinct (map p_addr (peers r'))" using rok by (simp add: eq router_ok_def comp_def)
    moreover have "node r' = node router" "outbox r' = outbox router" by (simp_all add: eq)
    ultimately have "router_ok env rinv tinv r'" and ob: "outbox r' = outbox router" using rok by (simp_all add: router_ok_def)
    moreover have "idle_at env r' b" for b
      using idle [of b] by (auto simp: idle_at_def find empty bgp_peer_flag_get_def ob)
    ultimately show ?thesis by (simp add: session_ok_def)
  qed
  show "bgp_router_clear_adj_rib env router = (res, router') \<Longrightarrow> session_ok env rinv tinv router'"
    using main [of _ "loc_rib router"] by (simp add: bgp_router_clear_adj_rib_def)
  show "bgp_router_clear_rib env router = (res, router') \<Longrightarrow> session_ok env rinv tinv router'"
    using main [of _ "rib_create (rib_trie env)"] by (simp add: bgp_router_clear_rib_def)
qed

end

section \<open>Runs of a router\<close>

text \<open>A configured router: nothing received, nothing sent, every session idle.\<close>

definition configured ::
    "('t, 'r, 'z) bgp_env_scheme \<Rightarrow> ('t \<Rightarrow> bool) \<Rightarrow> ('t, 'r) bgp_router \<Rightarrow> bool" where
  "configured env tinv router \<longleftrightarrow>
     distinct (map p_addr (peers router)) \<and> loc_rib router = rib_create (rib_trie env) \<and> outbox router = []
   \<and> tinv (node_rt (node router)) \<and> rt_inv (rtenv env) (node_rt (node router))
   \<and> (\<forall>pr\<in>set (peers router). adj_rib_in pr = rib_create (rib_trie env) \<and> adj_rib_out pr = rib_create (rib_trie env)
        \<and> session_state pr = SESSION_STATE_IDLE \<and> peer_filters_ok env pr)"

text \<open>The steps of a router: a message arrives, or a command acts on the router.  The RIBs are cleared only while no
  session is established: otherwise the routes sent to the peers would be forgotten without a WITHDRAW.\<close>

inductive router_step ::
    "('t, 'r, 'z) bgp_env_scheme \<Rightarrow> ('t, 'r) bgp_router \<Rightarrow> ('t, 'r) bgp_router \<Rightarrow> bool" for env where
  message: "payload_ok env (payload msg) \<Longrightarrow> bgp_router_handle_message env src msg router = Some (res, router')
    \<Longrightarrow> router_step env router router'"
| open_session: "bgp_peer_open_session env a router = Some (res, router') \<Longrightarrow> router_step env router router'"
| close_session: "bgp_peer_close_session env a router = Some (res, router') \<Longrightarrow> router_step env router router'"
| refresh: "bgp_peer_session_refresh env a router = Some router' \<Longrightarrow> router_step env router router'"
| start: "bgp_router_start env router = Some (res, router') \<Longrightarrow> router_step env router router'"
| stop: "bgp_router_stop env router = Some (res, router') \<Longrightarrow> router_step env router router'"
| reset: "bgp_router_reset env router = Some (res, router') \<Longrightarrow> router_step env router router'"
| refresh_all: "bgp_router_refresh_sessions env router = Some router' \<Longrightarrow> router_step env router router'"
| decide: "pfx_wf p \<Longrightarrow> bgp_router_decision_process env p router = Some router' \<Longrightarrow> router_step env router router'"
| scan_rib: "radix_ok radix \<Longrightarrow> bgp_router_scan_rib radix env router = Some (res, router') \<Longrightarrow> router_step env router router'"
| rerun: "radix_ok radix \<Longrightarrow> pfx_wf p \<Longrightarrow> bgp_router_rerun radix env p router = Some (res, router')
    \<Longrightarrow> router_step env router router'"
| readv: "pfx_wf p \<Longrightarrow> bgp_router_peer_readv_prefix env a p router = Some (res, router') \<Longrightarrow> router_step env router router'"
| add_network: "pfx_wf p \<Longrightarrow> bgp_router_add_network env p router = Some (res, router') \<Longrightarrow> router_step env router router'"
| del_network: "pfx_wf p \<Longrightarrow> bgp_router_del_network env p router = Some (res, router') \<Longrightarrow> router_step env router router'"
| set_nexthop: "bgp_peer_set_nexthop a nh router = (res, router') \<Longrightarrow> router_step env router router'"
| set_source: "bgp_peer_set_source a addr router = (res, router') \<Longrightarrow> router_step env router router'"
| set_filter: "filter_total env f \<Longrightarrow> filter_keeps env f \<Longrightarrow> bgp_router_peer_set_filter a dir f router = (res, router')
    \<Longrightarrow> router_step env router router'"
| clear_adj_rib: "no_session router \<Longrightarrow> bgp_router_clear_adj_rib env router = (res, router') \<Longrightarrow> router_step env router router'"
| clear_rib: "no_session router \<Longrightarrow> bgp_router_clear_rib env router = (res, router') \<Longrightarrow> router_step env router router'"

inductive router_run ::
    "('t, 'r, 'z) bgp_env_scheme \<Rightarrow> ('t, 'r) bgp_router \<Rightarrow> ('t, 'r) bgp_router \<Rightarrow> bool" for env where
  start: "router_run env router router"
| step: "router_run env router router1 \<Longrightarrow> router_step env router1 router2 \<Longrightarrow> router_run env router router2"

context bgp_environment
begin

lemma handle_message_ok:
  assumes ok: "session_ok env rinv tinv router" and pl: "payload_ok env (payload msg)"
    and run: "bgp_router_handle_message env src msg router = Some (res, router')"
  shows "session_ok env rinv tinv router'"
proof (cases "bgp_router_find_peer router src")
  case None
  with run ok show ?thesis by (simp add: bgp_router_handle_message_def)
next
  case (Some pr)
  then have hm: "bgp_peer_handle_message env src msg router = Some (res, router')"
    using run by (simp add: bgp_router_handle_message_def)
  show ?thesis
  proof (cases "bgp_peer_seqnum_check pr msg = 0")
    case True
    show ?thesis
      using handle_message_session [OF ok Some pl True] hm by (auto split: option.splits)
  next
    case False
    then have "bgp_peer_seqnum_check pr msg < 0" by (simp add: bgp_peer_seqnum_check_def split: if_splits)
    with hm Some ok show ?thesis by (simp add: bgp_peer_handle_message_def)
  qed
qed

lemma router_step_ok:
  assumes "router_step env router router'" "session_ok env rinv tinv router"
  shows "session_ok env rinv tinv router'"
  using assms
proof (induction rule: router_step.induct)
  case (message msg src router res router')
  then show ?case by (blast intro: handle_message_ok)
qed (blast intro: session_steps start_stop_reset_ok scan_rerun_ok readv_ok network_session configure_ok clear_ok)+

lemma configured_ok:
  assumes "configured env tinv router"
  shows "session_ok env rinv tinv router"
proof -
  have create: "rinv (rib_create (rib_trie env))" using rib.inv_create by (simp add: rib_create_def)
  have pr: "adj_rib_in pr = rib_create (rib_trie env) \<and> adj_rib_out pr = rib_create (rib_trie env)
      \<and> session_state pr = SESSION_STATE_IDLE \<and> peer_filters_ok env pr" if "bgp_router_find_peer router a = Some pr" for a pr
    using that assms by (auto simp: configured_def bgp_router_find_peer_def bgp_peers_find_def find_Some_iff)
  have "adj_find env router a p = None" for a p
    by (cases "bgp_router_find_peer router a") (simp_all add: adj_find_def pr)
  moreover have "adj_ribs_ok rinv router" using pr create by (simp add: adj_ribs_ok_def)
  ultimately have "adj_ok env rinv router" by (simp add: adj_ok_def)
  moreover have "loc_ok env rinv router" using assms create by (simp add: loc_ok_def loc_find_def configured_def)
  moreover have "rib_out_ok env rinv router" using pr create by (auto simp: rib_out_ok_def)
  ultimately have "router_ok env rinv tinv router" using assms pr by (auto simp: router_ok_def configured_def)
  moreover have "idle_at env router a" for a using pr by (simp add: idle_at_def)
  ultimately show ?thesis by (simp add: session_ok_def)
qed

lemma router_run_ok: "router_run env router router' \<Longrightarrow> session_ok env rinv tinv router \<Longrightarrow> session_ok env rinv tinv router'"
  by (induction rule: router_run.induct) (auto intro: router_step_ok)

end

section \<open>The Loc-RIB after a change\<close>

text \<open>The Loc-RIB holds the route that the nine criteria select among some candidates.\<close>

definition selected_from ::
    "('t, 'r, 'z) bgp_env_scheme \<Rightarrow> ('t, 'r) bgp_router \<Rightarrow> bgp_routes \<Rightarrow> ip_pfx \<Rightarrow> ('t, 'r) bgp_router \<Rightarrow> bool" where
  "selected_from env router rs p router' \<longleftrightarrow>
     (case snd (dp_select (dp_criteria env router) 0 rs) of
        [] \<Rightarrow> loc_find env router' p = None
      | b # _ \<Rightarrow> \<exists>l. loc_find env router' p = Some l \<and> route_equals l b = Some True)"

context bgp_environment
begin

lemma updated_selected:
  assumes upd: "adj_updated env a p x router router1" and ok: "router_ok env rinv tinv router1" and p: "pfx_wf p"
    and ext: "\<And>old. loc_find env router p = Some old \<Longrightarrow> \<not> route_flag_get old ROUTE_FLAG_INTERNAL"
    and run: "bgp_router_decision_process env p router1 = Some router'"
  shows "selected_from env router (feasible_with env router p a x) p router'"
proof -
  have ext1: "\<And>old. loc_find env router1 p = Some old \<Longrightarrow> \<not> route_flag_get old ROUTE_FLAG_INTERNAL"
    using ext adj_updated_same(1) [OF upd] by simp
  obtain r where r: "bgp_router_decision_process env p router1 = Some r"
    "case dp_best env router1 p of
          None \<Rightarrow> loc_find env r p = None \<and> (loc_find env router1 p \<noteq> None \<longrightarrow>
            (\<forall>i\<in>set (rt_routes (rtenv env) (node_rt (node r)) p). rt_type i \<noteq> NET_ROUTE_BGP))
        | Some b \<Rightarrow> \<exists>l. loc_find env r p = Some l \<and> \<not> route_flag_get l ROUTE_FLAG_INTERNAL
            \<and> route_equals l b = Some True"
    by (rule process_effect [OF ok p ext1]) (assumption, rule that)
  have "dp_best env router1 p = (case snd (dp_select (dp_criteria env router) 0 (feasible_with env router p a x)) of
        [] \<Rightarrow> None | b # _ \<Rightarrow> Some b)"
    by (simp add: dp_best_def adj_updated_same(6) [OF upd] feasible_routes_updated [OF upd])
  with r run show ?thesis by (auto simp: selected_from_def split: list.splits)
qed

end

section \<open>Properties\<close>

lemma sample_decider_session: "session_ok sample_env alist_trie_inv alist_trie_inv sample_decider"
proof -
  have "session_state (peers sample_decider ! 0) = SESSION_STATE_ESTABLISHED"
    "session_state (peers sample_decider ! 1) = SESSION_STATE_ESTABLISHED" by code_simp+
  then have "idle_at sample_env sample_decider a" for a
    by (auto simp: idle_at_def sample_decider_find split: if_splits)
  with sample_decider_ok show ?thesis by (simp add: session_ok_def)
qed

text \<open>A route that the peer 30 announces for the same prefix.\<close>

definition sample_update :: bgp_route where
  "sample_update = (sample_route 30 0)"

lemma sample_update_handled: "route_handled sample_env sample_update"
proof -
  have "route_path_length sample_update \<noteq> None" "path_len sample_update \<le> 255" "route_path_last_as sample_update \<noteq> None"
    "cluster_len sample_update \<le> 255" "ecomms (attr sample_update) = None"
    by code_simp+
  moreover have "route_wf sample_env sample_update"
    by (simp add: route_wf_def sample_update_def sample_route_def route_med_set_def route_create_def route_create2_def
        bgp_attr_create_def pfx_wf_def path_ref_wf_def interned_def sample_env_def list_repository_def)
  ultimately show ?thesis by (simp add: route_handled_def)
qed

text \<open>C4: An UPDATE from a peer, for a prefix without a local route.  The route becomes eligible exactly when it has no
  loop (the AS of the router is not in its AS-Path, the router is not its originator, its cluster is not in the
  cluster list) and the input filter accepts it.  Afterwards the Adj-RIB-In of the peer has the imported route, or
  no route for the prefix if it is not eligible.  If it is eligible, or the route it replaces was the best,
  the Loc-RIB has the route the nine criteria select among the feasible routes, with the new route in the place of
  the old one.\<close>

theorem process_update_correct:
  assumes "bgp_environment env rinv tinv" "router_ok env rinv tinv router" "bgp_router_find_peer router a = Some pr"
    and "route_handled env r"
    and "\<And>old. loc_find env router (pfx r) = Some old \<Longrightarrow> \<not> route_flag_get old ROUTE_FLAG_INTERNAL"
  shows "\<exists>r' router'. imported_route env router pr r = Some r' \<and> bgp_peer_process_update env a r router = Some router'
    \<and> (route_flag_get r' ROUTE_FLAG_ELIGIBLE \<longleftrightarrow> loop_free router r \<and>
         (\<exists>s. filter_apply env (filter_in pr) (flt_router_of router) (received_route env router pr r) = Some (True, s)))
    \<and> rel_option same_route (if route_flag_get r' ROUTE_FLAG_ELIGIBLE then Some r' else None) (adj_find env router' a (pfx r))
    \<and> (route_flag_get r' ROUTE_FLAG_ELIGIBLE
         \<or> (\<exists>old. adj_find env router a (pfx r) = Some old \<and> route_flag_get old ROUTE_FLAG_BEST) \<longrightarrow>
       selected_from env router (feasible_with env router (pfx r) a
         (if route_flag_get r' ROUTE_FLAG_ELIGIBLE then Some r' else None)) (pfx r) router')"
proof -
  obtain r' router1 router' where imp: "imported_route env router pr r = Some r'"
    and run: "bgp_peer_process_update env a r router = Some router'" and ok1: "router_ok env rinv tinv router1"
    and upd: "adj_updated env a (pfx r) (if route_flag_get r' ROUTE_FLAG_ELIGIBLE then Some r' else None) router router1"
    and ch: "changes_at env (pfx r) router1 router'"
    and dp: "route_flag_get r' ROUTE_FLAG_ELIGIBLE \<or> (\<exists>old. adj_find env router a (pfx r) = Some old \<and> route_flag_get old ROUTE_FLAG_BEST)
       \<Longrightarrow> bgp_router_decision_process env (pfx r) router1 = Some router'"
    by (rule bgp_environment.process_update_effect [OF assms(1-4)]) (rule that)
  obtain r2 where r2: "imported_route env router pr r = Some r2"
    "route_flag_get r2 ROUTE_FLAG_ELIGIBLE \<longleftrightarrow> loop_free router r \<and>
       (\<exists>s. filter_apply env (filter_in pr) (flt_router_of router) (received_route env router pr r) = Some (True, s))"
    by (rule bgp_environment.import_effect [OF assms(1-4)]) (rule that)
  have p: "pfx_wf (pfx r)" using assms(4) by (simp add: route_handled_def route_wf_def)
  have "adj_find env router1 a (pfx r) = (if route_flag_get r' ROUTE_FLAG_ELIGIBLE then Some r' else None)"
    using upd by (simp add: adj_updated_def)
  moreover have "rel_option same_route (adj_find env router1 a (pfx r)) (adj_find env router' a (pfx r))"
    using ch unfolding changes_at_def by blast
  ultimately have adj: "rel_option same_route (if route_flag_get r' ROUTE_FLAG_ELIGIBLE then Some r' else None) (adj_find env router' a (pfx r))"
    by simp
  have elig: "route_flag_get r' ROUTE_FLAG_ELIGIBLE \<longleftrightarrow> loop_free router r \<and>
       (\<exists>s. filter_apply env (filter_in pr) (flt_router_of router) (received_route env router pr r) = Some (True, s))"
    using imp r2 by simp
  note sel = bgp_environment.updated_selected [OF assms(1) upd ok1 p assms(5) dp]
  show ?thesis
    by (intro exI conjI impI) (rule imp, rule run, rule elig, rule adj, rule sel, assumption+)
qed

theorem process_update_correct_witness:
  "\<exists>router'. bgp_peer_process_update sample_env 30 sample_update sample_decider = Some router'
     \<and> (\<exists>l. loc_find sample_env router' \<lparr>network = 1, mask = 8\<rparr> = Some l \<and> route_equals l (mark_igp sample_learned) = Some True)"
proof -
  let ?pr = "peers sample_decider ! 1" and ?p = "\<lparr>network = 1, mask = 8\<rparr> :: ip_pfx"
  have find: "bgp_router_find_peer sample_decider 30 = Some ?pr" by (simp add: sample_decider_find)
  define r' where "r' = the (imported_route sample_env sample_decider ?pr sample_update)"
  have imp: "imported_route sample_env sample_decider ?pr sample_update = Some r'" "route_flag_get r' ROUTE_FLAG_ELIGIBLE"
    "snd (dp_select (dp_criteria sample_env sample_decider) 0
        (feasible_with sample_env sample_decider (pfx sample_update) 30 (Some r'))) = [mark_igp sample_learned]"
    unfolding r'_def by code_simp+
  have pfx: "pfx sample_update = ?p" by code_simp
  have "loc_find sample_env sample_decider (pfx sample_update) = None" by code_simp
  then obtain r2 router' where "imported_route sample_env sample_decider ?pr sample_update = Some r2"
    "bgp_peer_process_update sample_env 30 sample_update sample_decider = Some router'"
    "route_flag_get r2 ROUTE_FLAG_ELIGIBLE \<longrightarrow> selected_from sample_env sample_decider
        (feasible_with sample_env sample_decider (pfx sample_update) 30 (if route_flag_get r2 ROUTE_FLAG_ELIGIBLE then Some r2 else None))
        (pfx sample_update) router'"
    using process_update_correct [OF sample.bgp_environment_axioms sample_decider_ok find sample_update_handled] by auto
  with imp pfx show ?thesis by (auto simp: selected_from_def)
qed

text \<open>C5: A WITHDRAW from a peer that had announced the prefix, for a prefix without a local route: the route leaves the
  Adj-RIB-In of the peer, and the Loc-RIB has the route that the nine criteria select among the feasible routes of
  the other peers.  A WITHDRAW of a prefix the peer had not announced changes nothing.\<close>

theorem process_withdraw_correct:
  assumes "bgp_environment env rinv tinv" "router_ok env rinv tinv router" "bgp_router_find_peer router a = Some pr"
    and "pfx_wf p" and "\<And>old. loc_find env router p = Some old \<Longrightarrow> \<not> route_flag_get old ROUTE_FLAG_INTERNAL"
  shows "\<exists>router'. bgp_peer_process_withdraw env a p router = Some router'
    \<and> adj_find env router' a p = None
    \<and> (if adj_find env router a p = None then router' = router
       else selected_from env router (List.map_filter (feasible_at env router p)
              (filter (\<lambda>b. b \<noteq> a) (map p_addr (peers router)))) p router')"
proof (cases "adj_find env router a p")
  case None
  with assms(3) show ?thesis by (simp add: bgp_peer_process_withdraw_def adj_find_def)
next
  case (Some old)
  let ?old = "route_flag_set ROUTE_FLAG_ELIGIBLE False old"
  obtain router1 router2 router' where run: "bgp_peer_process_withdraw env a p router = Some router'"
    "adj_updated env a p (Some ?old) router router1" "router_ok env rinv tinv router1"
    "bgp_router_decision_process env p router1 = Some router2" "adj_updated env a p None router2 router'"
    by (rule bgp_environment.process_withdraw_effect [OF assms(1,2,4) Some]) (rule that)
  have "selected_from env router (feasible_with env router p a (Some ?old)) p router2"
    by (rule bgp_environment.updated_selected [OF assms(1) run(2,3) assms(4,5) run(4)])
  then have "selected_from env router (feasible_with env router p a (Some ?old)) p router'"
    unfolding selected_from_def adj_updated_same(1) [OF run(5)] .
  moreover have "feasible_with env router p a (Some ?old)
      = List.map_filter (feasible_at env router p) (filter (\<lambda>b. b \<noteq> a) (map p_addr (peers router)))"
    by (rule feasible_with_none) (auto simp: flag_get_eligible)
  moreover have "adj_find env router' a p = None" using run(5) by (simp add: adj_updated_def)
  ultimately show ?thesis using run(1) Some by simp
qed

theorem process_withdraw_correct_witness:
  "\<exists>router'. bgp_peer_process_withdraw sample_env 20 \<lparr>network = 1, mask = 8\<rparr> sample_decider = Some router'
     \<and> adj_find sample_env router' 20 \<lparr>network = 1, mask = 8\<rparr> = None
     \<and> loc_find sample_env router' \<lparr>network = 1, mask = 8\<rparr> = None"
proof -
  let ?p = "\<lparr>network = 1, mask = 8\<rparr> :: ip_pfx"
  have find: "bgp_router_find_peer sample_decider 20 = Some (peers sample_decider ! 0)" by (simp add: sample_decider_find)
  have p: "pfx_wf ?p" "loc_find sample_env sample_decider ?p = None" "adj_find sample_env sample_decider 20 ?p = Some sample_learned"
    "List.map_filter (feasible_at sample_env sample_decider ?p)
       (filter (\<lambda>b. b \<noteq> 20) (map p_addr (peers sample_decider))) = []" by code_simp+
  have "selected_from sample_env sample_decider [] ?p router' \<longleftrightarrow> loc_find sample_env router' ?p = None" for router'
    using dp_select_props(2) [OF dp_criteria_select, of sample_env sample_decider 0 "[]"] by (simp add: selected_from_def)
  with process_withdraw_correct [OF sample.bgp_environment_axioms sample_decider_ok find p(1)] p(2-4) show ?thesis by auto
qed

text \<open>C6: A message refines the state machine of a session.  A message from the peer \<open>a\<close> that carries the expected number
  moves the session of \<open>a\<close> as the state machine says, keeps the invariant of the router, and leaves every other
  session as it is; where the state machine has no transition, the program stops.\<close>

theorem handle_message_refines:
  assumes "bgp_environment env rinv tinv" "session_ok env rinv tinv router" "bgp_router_find_peer router a = Some pr"
    and "payload_ok env (payload msg)" "bgp_peer_seqnum_check pr msg = 0"
  shows "case session_receive (bgp_peer_flag_get pr PEER_FLAG_VIRTUAL) (payload msg) (session_state pr, recv_seq_num pr) of
      None \<Rightarrow> bgp_router_handle_message env a msg router = None
    | Some s \<Rightarrow> \<exists>router'. bgp_router_handle_message env a msg router = Some (0, router')
        \<and> session_ok env rinv tinv router' \<and> session_of router' = (session_of router)(a \<mapsto> s)"
proof -
  have "bgp_router_handle_message env a msg router = bgp_peer_handle_message env a msg router"
    using assms(3) by (simp add: bgp_router_handle_message_def)
  with bgp_environment.handle_message_session [OF assms] show ?thesis by metis
qed

theorem handle_message_refines_witness:
  "(\<exists>router'. bgp_router_handle_message sample_env 30 \<lparr>peer_asn = 3, seq_num = 0, payload = BGP_MSG_TYPE_CLOSE\<rparr> sample_decider
      = Some (0, router') \<and> session_of router' 30 = Some (SESSION_STATE_ACTIVE, 0))
   \<and> bgp_router_handle_message sample_env 30 \<lparr>peer_asn = 3, seq_num = 0, payload = BGP_MSG_TYPE_OPEN 30\<rparr> sample_decider = None"
proof -
  let ?pr = "peers sample_decider ! 1"
  let ?close = "\<lparr>peer_asn = 3, seq_num = 0, payload = BGP_MSG_TYPE_CLOSE\<rparr>" and ?open = "\<lparr>peer_asn = 3, seq_num = 0, payload = BGP_MSG_TYPE_OPEN 30\<rparr>"
  have find: "bgp_router_find_peer sample_decider 30 = Some ?pr" by (simp add: sample_decider_find)
  have close: "bgp_peer_seqnum_check ?pr ?close = 0"
    "session_receive (bgp_peer_flag_get ?pr PEER_FLAG_VIRTUAL) (payload ?close) (session_state ?pr, recv_seq_num ?pr) = Some (SESSION_STATE_ACTIVE, 0)"
    by code_simp+
  have opn: "bgp_peer_seqnum_check ?pr ?open = 0"
    "session_receive (bgp_peer_flag_get ?pr PEER_FLAG_VIRTUAL) (payload ?open) (session_state ?pr, recv_seq_num ?pr) = None"
    by code_simp+
  have "\<exists>router'. bgp_router_handle_message sample_env 30 ?close sample_decider = Some (0, router')
      \<and> session_of router' 30 = Some (SESSION_STATE_ACTIVE, 0)"
    using handle_message_refines [OF sample.bgp_environment_axioms sample_decider_session find _ close(1)] close(2)
    by (auto simp: payload_ok_def)
  moreover have "bgp_router_handle_message sample_env 30 ?open sample_decider = None"
    using handle_message_refines [OF sample.bgp_environment_axioms sample_decider_session find _ opn(1)] opn(2)
    by (simp add: payload_ok_def)
  ultimately show ?thesis by blast
qed

text \<open>Messages that are refused leave the router as it is: a message from an address that is not a peer gives the
  error -1, and a message of a peer that is not virtual whose number is not the expected one, unless it is a
  CLOSE, gives the error \<open>EBGP_PEER_OUT_OF_SEQ\<close>; the former always, the latter exactly in this case.\<close>

theorem handle_message_errors:
  "bgp_router_handle_message env src msg router =
     (case bgp_router_find_peer router src of
        None \<Rightarrow> Some (-1, router)
      | Some pr \<Rightarrow>
          if \<not> bgp_peer_flag_get pr PEER_FLAG_VIRTUAL \<and> seq_num msg \<noteq> recv_seq_num pr \<and> payload msg \<noteq> BGP_MSG_TYPE_CLOSE
          then Some (EBGP_PEER_OUT_OF_SEQ, router)
          else map_option (\<lambda>router'. (0, router')) (map_option snd (bgp_peer_handle_message env src msg router)))"
proof (cases "bgp_router_find_peer router src")
  case None
  then show ?thesis by (simp add: bgp_router_handle_message_def)
next
  case (Some pr)
  show ?thesis
  proof (cases "\<not> bgp_peer_flag_get pr PEER_FLAG_VIRTUAL \<and> seq_num msg \<noteq> recv_seq_num pr \<and> payload msg \<noteq> BGP_MSG_TYPE_CLOSE")
    case True
    with Some show ?thesis
      by (auto simp: bgp_router_handle_message_def bgp_peer_handle_message_def bgp_peer_seqnum_check_def)
  next
    case False
    then have "bgp_peer_seqnum_check pr msg = 0" by (auto simp: bgp_peer_seqnum_check_def)
    with Some have "\<exists>y. bgp_peer_handle_message env src msg router = map_option (Pair 0) y"
      by (auto simp: bgp_peer_handle_message_def Let_def)
    then obtain y where "bgp_peer_handle_message env src msg router = map_option (Pair 0) y" ..
    with Some False show ?thesis
      by (cases y) (auto simp: bgp_router_handle_message_def)
  qed
qed

text \<open>C7: The invariant holds in every run of a configured router.  The steps of a run are: any message whose route
  can be handled (well formed, at most 255 hops and cluster identifiers, no extended communities) or whose withdrawn
  prefix is well formed; opening, closing or refreshing one session or all of them, start, stop and reset;
  the decision process for a prefix, a scan of the RIB, a rerun, sending a prefix to a peer again; adding or removing a
  local network; setting the next hop, the source or a filter that handles every route; and clearing the Adj-RIBs or
  all RIBs while no session with a peer that receives messages is established (on an established session the
  clear breaks the invariant).  Peers are added before the run.  In every state of the run the peers stay distinct, the Adj-RIBs-In hold routes of their peers, the
  Loc-RIB agrees with the routing table, the Adj-RIB-Out of an established session holds exactly the
  prefixes that were announced on it and not withdrawn, and that of a session that is down is empty.\<close>

theorem router_run_invariant:
  assumes "bgp_environment env rinv tinv" "configured env tinv router" "router_run env router router'"
  shows "session_ok env rinv tinv router'"
  using bgp_environment.router_run_ok [OF assms(1,3)] bgp_environment.configured_ok [OF assms(1,2)] by blast

lemma sample_configured: "configured sample_env alist_trie_inv sample_router"
proof -
  have f: "node_rt (node sample_router) = node_rt (node sample_decider)"
    by (simp add: sample_decider_def)
  have "alist_trie_inv (node_rt (node sample_router))" "rt_inv (rtenv sample_env) (node_rt (node sample_router))"
    using sample_decider_ok unfolding f by (simp_all add: router_ok_def)
  moreover have "filter_total sample_env None" "filter_keeps sample_env None"
    by (auto simp: filter_total_def filter_keeps_def filter_apply_def route_wf_def)
  ultimately show ?thesis
    by (simp add: configured_def sample_router_def bgp_router_create_def bgp_peer_create_def peer_filters_ok_def)
qed

theorem router_run_invariant_witness:
  "\<exists>router'. bgp_peer_open_session sample_env 20 sample_router = Some (ESUCCESS, router')
     \<and> session_ok sample_env alist_trie_inv alist_trie_inv router'"
proof -
  let ?run = "bgp_peer_open_session sample_env 20 sample_router"
  have "map_option fst ?run = Some ESUCCESS" by code_simp
  then obtain router' where r: "?run = Some (ESUCCESS, router')" by auto
  have "router_run sample_env sample_router router'"
    by (rule router_run.step [OF router_run.start router_step.open_session [OF r]])
  from router_run_invariant [OF sample.bgp_environment_axioms sample_configured this] r show ?thesis by blast
qed

text \<open>C8: Opening and closing a session: a session that is idle or active is opened and becomes established (virtual
  peer that is reachable), waits for an OPEN (the OPEN was sent), or becomes active (the peer cannot be reached); a
  session that is not idle is closed and becomes idle.  Both start the numbers of messages again at 0 and keep the
  invariant; in the other states they are refused with \<open>EBGP_PEER_INVALID_STATE\<close> and change nothing.\<close>

theorem open_close_session:
  assumes "bgp_environment env rinv tinv" "session_ok env rinv tinv router" "bgp_router_find_peer router a = Some pr"
  shows "(if session_state pr = SESSION_STATE_IDLE \<or> session_state pr = SESSION_STATE_ACTIVE
      then \<exists>router'. bgp_peer_open_session env a router = Some (ESUCCESS, router') \<and> session_ok env rinv tinv router'
        \<and> session_of router' = (session_of router)(a \<mapsto> (opened_state env pr router, 0))
      else bgp_peer_open_session env a router = Some (EBGP_PEER_INVALID_STATE, router))
    \<and> (if session_state pr \<noteq> SESSION_STATE_IDLE
      then \<exists>router'. bgp_peer_close_session env a router = Some (ESUCCESS, router') \<and> session_ok env rinv tinv router'
        \<and> session_of router' = (session_of router)(a \<mapsto> (SESSION_STATE_IDLE, 0))
      else bgp_peer_close_session env a router = Some (EBGP_PEER_INVALID_STATE, router))"
  using bgp_environment.open_session_effect [OF assms] bgp_environment.close_session_effect [OF assms]
  by (auto split: if_splits)

theorem open_close_session_witness:
  "(\<exists>router'. bgp_peer_close_session sample_env 30 sample_decider = Some (ESUCCESS, router')
      \<and> session_of router' 30 = Some (SESSION_STATE_IDLE, 0))
   \<and> bgp_peer_open_session sample_env 30 sample_decider = Some (EBGP_PEER_INVALID_STATE, sample_decider)"
proof -
  have find: "bgp_router_find_peer sample_decider 30 = Some (peers sample_decider ! 1)" by (simp add: sample_decider_find)
  have "session_state (peers sample_decider ! 1) = SESSION_STATE_ESTABLISHED" by code_simp
  with open_close_session [OF sample.bgp_environment_axioms sample_decider_session find] show ?thesis by auto
qed

text \<open>Three established peers: 10 and 30 in AS 2, 20 in AS 3.  The peers announce a prefix in turn; then 30
  announces it with the AS of the router in the path.\<close>

definition med_router :: "((rt_info list) alist_trie, bgp_route alist_trie) bgp_router" where
  "med_router = sample_router\<lparr>peers :=
     [(bgp_peer_create sample_env 2 10)\<lparr>router_id := 10, session_state := SESSION_STATE_ESTABLISHED\<rparr>,
      (bgp_peer_create sample_env 3 20)\<lparr>router_id := 20, session_state := SESSION_STATE_ESTABLISHED\<rparr>,
      (bgp_peer_create sample_env 2 30)\<lparr>router_id := 30, session_state := SESSION_STATE_ESTABLISHED\<rparr>]\<rparr>"

definition med_route :: "net_addr \<Rightarrow> asn list \<Rightarrow> 32 word \<Rightarrow> bgp_route" where
  "med_route nh as m = (sample_route nh m)\<lparr>attr := (attr (sample_route nh m))
     \<lparr>path_ref := Some [\<lparr>seg_type = AS_PATH_SEGMENT_SEQUENCE, asns = as\<rparr>]\<rparr>\<rparr>"

definition med_run :: "((rt_info list) alist_trie, bgp_route alist_trie) bgp_router option" where
  "med_run = do {
     r \<leftarrow> bgp_peer_process_update sample_env 10 (med_route 10 [2] 10) med_router;
     r \<leftarrow> bgp_peer_process_update sample_env 20 (med_route 20 [3] 0) r;
     r \<leftarrow> bgp_peer_process_update sample_env 30 (med_route 30 [2] 5) r;
     bgp_peer_process_update sample_env 30 (med_route 30 [1, 2] 5) r
   }"

text \<open>An UPDATE that is not eligible and replaces a route that was not the best removes that route without running
  the decision process.  With deterministic MED this leaves a Loc-RIB that is not the selection: here
  the route of 30 hid the one of 10, which has a higher MED and comes from the same AS; once 30 has no route, the
  criteria select the route of 10, but the Loc-RIB still has the one of 20.\<close>

theorem update_leaves_stale_best:
  "\<exists>router'. med_run = Some router'
     \<and> map_option (\<lambda>r. next_hop (attr r)) (loc_find sample_env router' \<lparr>network = 1, mask = 8\<rparr>) = Some 20
     \<and> map_option (\<lambda>r. next_hop (attr r)) (dp_best sample_env router' \<lparr>network = 1, mask = 8\<rparr>) = Some 10"
proof -
  let ?p = "\<lparr>network = 1, mask = 8\<rparr> :: ip_pfx"
  have "map_option (\<lambda>router'. (map_option (\<lambda>r. next_hop (attr r)) (loc_find sample_env router' ?p),
      map_option (\<lambda>r. next_hop (attr r)) (dp_best sample_env router' ?p))) med_run = Some (Some 20, Some 10)"
    by code_simp
  then show ?thesis by auto
qed

end
