(* ===== verification/Sim_Scheduler.thy ===== *)
theory Sim_Scheduler
  imports Complex_Main Cbgp_Prelude
begin

text \<open>
  The static event scheduler of the simulator, \<open>src/sim/static_scheduler.c\<close> (one FIFO), and \<open>src/sim/simulator.c\<close>.

  An event is handled by its callback, which acts on the state of the network (\<open>'w\<close>), posts further events
  and may cancel the run; its effect is the value of a handler.  A callback that stops the program (a failed
  \<open>assert\<close>), like a run that never ends, is \<^term>\<open>None\<close>.

  The queue is a ring buffer of libgds, whose fields the scheduler reads; \<open>fifo_push\<close> and \<open>fifo_pop\<close> are
  parameters with the laws of a queue.
\<close>

section \<open>Queues\<close>

record 'e gds_fifo =
  current_depth :: nat
  max_depth :: nat
  start_index :: nat
  items :: "'e option list"

record 'e fifo_ops =
  fifo_create :: "nat \<Rightarrow> 'e gds_fifo"
  fifo_push :: "'e gds_fifo \<Rightarrow> 'e \<Rightarrow> int \<times> 'e gds_fifo"
  fifo_pop :: "'e gds_fifo \<Rightarrow> ('e \<times> 'e gds_fifo) option"

definition fifo_slot :: "'e gds_fifo \<Rightarrow> nat \<Rightarrow> 'e option" where
  "fifo_slot q i = items q ! ((start_index q + i) mod max_depth q)"

definition fifo_list :: "'e gds_fifo \<Rightarrow> 'e list" where
  "fifo_list q = map (\<lambda>i. the (fifo_slot q i)) [0..<current_depth q]"

definition fifo_wf :: "'e gds_fifo \<Rightarrow> bool" where
  "fifo_wf q \<longleftrightarrow> start_index q < max_depth q \<and> length (items q) = max_depth q \<and> current_depth q \<le> max_depth q
     \<and> (\<forall>i<current_depth q. fifo_slot q i \<noteq> None)"

locale gds_fifo_laws =
  fixes ops :: "'e fifo_ops"
  assumes create: "0 < n \<Longrightarrow> fifo_wf (fifo_create ops n) \<and> fifo_list (fifo_create ops n) = []"
    and push: "fifo_wf q \<Longrightarrow> \<exists>q'. fifo_push ops q x = (0, q') \<and> fifo_wf q' \<and> fifo_list q' = fifo_list q @ [x]"
    and pop_empty: "fifo_wf q \<Longrightarrow> fifo_list q = [] \<Longrightarrow> fifo_pop ops q = None"
    and pop: "fifo_wf q \<Longrightarrow> fifo_list q = x # xs \<Longrightarrow> \<exists>q'. fifo_pop ops q = Some (x, q') \<and> fifo_wf q' \<and> fifo_list q' = xs"

section \<open>The static scheduler\<close>

text \<open>What a callback does: its result, the new state, the events it posts (in this order), and whether it
  cancels the run.\<close>

type_synonym ('e, 'w) handler = "'e \<Rightarrow> 'w \<Rightarrow> (int \<times> 'w \<times> 'e list \<times> bool) option"

record 'e sched_static =
  events :: "'e gds_fifo"
  cur_time :: "32 word"
  cancelled :: bool

definition EVENT_QUEUE_DEPTH :: nat where "EVENT_QUEUE_DEPTH = 256"

definition static_cancel :: "'e sched_static \<Rightarrow> 'e sched_static" where
  "static_cancel sched = sched\<lparr>cancelled := True\<rparr>"

definition static_clear :: "'e fifo_ops \<Rightarrow> 'e sched_static \<Rightarrow> 'e sched_static" where
  "static_clear ops sched = sched\<lparr>events := fifo_create ops EVENT_QUEUE_DEPTH\<rparr>"

definition static_post :: "'e fifo_ops \<Rightarrow> 'e \<Rightarrow> 'e sched_static \<Rightarrow> int \<times> 'e sched_static" where
  "static_post ops ev sched = (let (result, q) = fifo_push ops (events sched) ev in (result, sched\<lparr>events := q\<rparr>))"

text \<open>The events that a callback posts; the caller asserts that each post returns 0.\<close>

fun post_all :: "'e fifo_ops \<Rightarrow> 'e list \<Rightarrow> 'e sched_static \<Rightarrow> 'e sched_static option" where
  "post_all ops [] sched = Some sched"
| "post_all ops (ev # evs) sched =
     (let (result, sched) = static_post ops ev sched in if result = 0 then post_all ops evs sched else None)"

text \<open>The loop of \<open>_run\<close>: \<open>max_time\<close> is the field of the simulator.\<close>

partial_function (option) static_run_loop ::
    "'e fifo_ops \<Rightarrow> ('e, 'w) handler \<Rightarrow> rat \<Rightarrow> 32 word \<Rightarrow> 'w \<Rightarrow> 'e sched_static \<Rightarrow> (int \<times> 'w \<times> 'e sched_static) option" where
  "static_run_loop ops h max_time num_steps w sched =
     (if cancelled sched then Some (ESUCCESS, w, sched)
      else case fifo_pop ops (events sched) of
        None \<Rightarrow> Some (ESUCCESS, w, sched)
      | Some (ev, q) \<Rightarrow> do {
          (error, w, posts, cancel) \<leftarrow> h ev w;
          sched \<leftarrow> post_all ops posts (sched\<lparr>events := q, cancelled := cancel\<rparr>);
          if error \<noteq> ESUCCESS then Some (error, w, sched)
          else let sched = sched\<lparr>cur_time := cur_time sched + 1\<rparr> in
            if max_time > 0 \<and> of_nat (unat (cur_time sched)) \<ge> max_time then Some (ESIM_TIME_LIMIT, w, sched)
            else if num_steps > 0 then
              (if num_steps - 1 = 0 then Some (ESUCCESS, w, sched)
               else static_run_loop ops h max_time (num_steps - 1) w sched)
            else static_run_loop ops h max_time num_steps w sched
        })"

definition static_run ::
    "'e fifo_ops \<Rightarrow> ('e, 'w) handler \<Rightarrow> rat \<Rightarrow> 32 word \<Rightarrow> 'w \<Rightarrow> 'e sched_static \<Rightarrow> (int \<times> 'w \<times> 'e sched_static) option" where
  "static_run ops h max_time num_steps w sched = static_run_loop ops h max_time num_steps w (sched\<lparr>cancelled := False\<rparr>)"

definition static_num_events :: "'e sched_static \<Rightarrow> nat" where
  "static_num_events sched = current_depth (events sched)"

definition static_event_at :: "'e sched_static \<Rightarrow> nat \<Rightarrow> 'e option" where
  "static_event_at sched index =
     (if index \<ge> current_depth (events sched) then None
      else items (events sched) ! ((start_index (events sched) + index) mod max_depth (events sched)))"

definition sched_static_create :: "'e fifo_ops \<Rightarrow> 'e sched_static" where
  "sched_static_create ops = \<lparr>events = fifo_create ops EVENT_QUEUE_DEPTH, cur_time = 0, cancelled = False\<rparr>"

section \<open>The simulator with the static scheduler\<close>

record 'e simulator =
  sched :: "'e sched_static"
  max_time :: rat
  running :: bool

definition sim_create :: "'e fifo_ops \<Rightarrow> 'e simulator" where
  "sim_create ops = \<lparr>sched = sched_static_create ops, max_time = 0, running = False\<rparr>"

definition sim_cancel :: "'e simulator \<Rightarrow> 'e simulator" where
  "sim_cancel sim = sim\<lparr>sched := static_cancel (sched sim)\<rparr>"

definition sim_clear :: "'e fifo_ops \<Rightarrow> 'e simulator \<Rightarrow> 'e simulator" where
  "sim_clear ops sim = sim\<lparr>sched := static_clear ops (sched sim)\<rparr>"

text \<open>The number of steps is \<open>(unsigned int) -1\<close>.\<close>

definition sim_run :: "'e fifo_ops \<Rightarrow> ('e, 'w) handler \<Rightarrow> 'w \<Rightarrow> 'e simulator \<Rightarrow> (int \<times> 'w \<times> 'e simulator) option" where
  "sim_run ops h w sim = do {
     (result, w, s) \<leftarrow> static_run ops h (max_time sim) (-1) w (sched sim);
     Some (result, w, sim\<lparr>sched := s, running := False\<rparr>)
   }"

definition sim_is_running :: "'e simulator \<Rightarrow> bool" where
  "sim_is_running sim = running sim"

definition sim_step ::
    "'e fifo_ops \<Rightarrow> ('e, 'w) handler \<Rightarrow> 32 word \<Rightarrow> 'w \<Rightarrow> 'e simulator \<Rightarrow> (int \<times> 'w \<times> 'e simulator) option" where
  "sim_step ops h num_steps w sim = do {
     (result, w, s) \<leftarrow> static_run ops h (max_time sim) num_steps w (sched sim);
     Some (result, w, sim\<lparr>sched := s\<rparr>)
   }"

definition sim_get_num_events :: "'e simulator \<Rightarrow> nat" where
  "sim_get_num_events sim = static_num_events (sched sim)"

definition sim_get_event :: "'e simulator \<Rightarrow> nat \<Rightarrow> 'e option" where
  "sim_get_event sim index = static_event_at (sched sim) index"

definition sim_post_event :: "'e fifo_ops \<Rightarrow> 'e \<Rightarrow> 'e simulator \<Rightarrow> int \<times> 'e simulator" where
  "sim_post_event ops ev sim = (let (result, s) = static_post ops ev (sched sim) in (result, sim\<lparr>sched := s\<rparr>))"

definition sim_get_time :: "'e simulator \<Rightarrow> rat" where
  "sim_get_time sim = of_nat (unat (cur_time (sched sim)))"

definition sim_set_max_time :: "'e simulator \<Rightarrow> rat \<Rightarrow> 'e simulator" where
  "sim_set_max_time sim t = sim\<lparr>max_time := t\<rparr>"

datatype sched_type = SCHEDULER_STATIC | SCHEDULER_DYNAMIC

definition SCHEDULERS :: "(string \<times> sched_type) list" where
  "SCHEDULERS = [(''static'', SCHEDULER_STATIC), (''dynamic'', SCHEDULER_DYNAMIC)]"

fun sim_sched2str :: "sched_type \<Rightarrow> string" where
  "sim_sched2str SCHEDULER_STATIC = ''static''"
| "sim_sched2str SCHEDULER_DYNAMIC = ''dynamic''"

definition sim_str2sched :: "string \<Rightarrow> sched_type option" where
  "sim_str2sched str = map_of SCHEDULERS str"

section \<open>The ring buffer as a queue\<close>

text \<open>A ring buffer that doubles its size when it is full.\<close>

definition ring_grow :: "'e gds_fifo \<Rightarrow> 'e gds_fifo" where
  "ring_grow q = \<lparr>current_depth = current_depth q, max_depth = 2 * max_depth q, start_index = 0,
     items = map Some (fifo_list q) @ replicate (2 * max_depth q - current_depth q) None\<rparr>"

definition ring_put :: "'e gds_fifo \<Rightarrow> 'e \<Rightarrow> 'e gds_fifo" where
  "ring_put q x = q\<lparr>items := (items q)[(start_index q + current_depth q) mod max_depth q := Some x],
     current_depth := current_depth q + 1\<rparr>"

definition ring_ops :: "'e fifo_ops" where
  "ring_ops = \<lparr>
     fifo_create = (\<lambda>n. \<lparr>current_depth = 0, max_depth = n, start_index = 0, items = replicate n None\<rparr>),
     fifo_push = (\<lambda>q x. (0, ring_put (if current_depth q = max_depth q then ring_grow q else q) x)),
     fifo_pop = (\<lambda>q. if current_depth q = 0 then None
        else Some (the (fifo_slot q 0),
          q\<lparr>start_index := (start_index q + 1) mod max_depth q, current_depth := current_depth q - 1\<rparr>))\<rparr>"

lemma fifo_list_length [simp]: "length (fifo_list q) = current_depth q"
  by (simp add: fifo_list_def)

lemma ring_index_inj:
  fixes s i j m :: nat
  assumes "i < m" "j < m" "(s + i) mod m = (s + j) mod m"
  shows "i = j"
proof -
  have dist: "j = i" if "i \<le> j" "j < m" "(s + j) mod m = (s + i) mod m" for i j
  proof -
    have "m dvd (s + j) - (s + i)" using that mod_eq_dvd_iff_nat [of "s + i" "s + j" m] by simp
    then have "m dvd j - i" by simp
    then have "j - i = 0" using nat_dvd_not_less [of "j - i" m] that(2) by fastforce
    with that(1) show ?thesis by simp
  qed
  show ?thesis
  proof (cases "i \<le> j")
    case True
    show ?thesis by (rule dist [OF True assms(2) assms(3) [symmetric], symmetric])
  next
    case False
    then have "j \<le> i" by simp
    from dist [OF this assms(1,3)] show ?thesis .
  qed
qed

lemma ring_put_effect:
  assumes "fifo_wf q" "current_depth q < max_depth q"
  shows "fifo_wf (ring_put q x) \<and> fifo_list (ring_put q x) = fifo_list q @ [x]"
proof -
  let ?k = "(start_index q + current_depth q) mod max_depth q"
  have m: "0 < max_depth q" using assms(2) by linarith
  have len: "length (items q) = max_depth q" using assms(1) by (simp add: fifo_wf_def)
  have k: "?k < length (items q)" using m len by simp
  have new: "fifo_slot (ring_put q x) (current_depth q) = Some x"
    using k by (simp add: fifo_slot_def ring_put_def)
  have old: "fifo_slot (ring_put q x) i = fifo_slot q i" if i: "i < current_depth q" for i
  proof -
    have "(start_index q + i) mod max_depth q \<noteq> ?k"
      using ring_index_inj [of i "max_depth q" "current_depth q" "start_index q"] i assms(2) by auto
    then show ?thesis by (simp add: fifo_slot_def ring_put_def)
  qed
  have "fifo_wf (ring_put q x)"
    unfolding fifo_wf_def
  proof (intro conjI allI impI)
    fix i assume "i < current_depth (ring_put q x)"
    then have "i = current_depth q \<or> i < current_depth q" by (auto simp: ring_put_def)
    then show "fifo_slot (ring_put q x) i \<noteq> None" using new old assms(1) by (auto simp: fifo_wf_def)
  qed (use assms len in \<open>auto simp: fifo_wf_def ring_put_def\<close>)
  moreover have "fifo_list (ring_put q x) = map (\<lambda>i. the (fifo_slot (ring_put q x) i)) ([0..<current_depth q] @ [current_depth q])"
    by (simp add: fifo_list_def ring_put_def)
  then have "fifo_list (ring_put q x) = fifo_list q @ [x]"
    using new old by (simp add: fifo_list_def)
  ultimately show ?thesis by simp
qed

lemma ring_grow_effect:
  assumes "fifo_wf q"
  shows "fifo_wf (ring_grow q) \<and> fifo_list (ring_grow q) = fifo_list q \<and> current_depth (ring_grow q) < max_depth (ring_grow q)"
proof -
  have m: "0 < max_depth q" "current_depth q \<le> max_depth q" using assms by (auto simp: fifo_wf_def)
  have "fifo_slot (ring_grow q) i = Some (fifo_list q ! i)" if "i < current_depth q" for i
    using that m by (simp add: fifo_slot_def ring_grow_def nth_append)
  moreover have f: "current_depth (ring_grow q) = current_depth q" "max_depth (ring_grow q) = 2 * max_depth q"
    "start_index (ring_grow q) = 0" "length (items (ring_grow q)) = 2 * max_depth q"
    using m by (simp_all add: ring_grow_def)
  ultimately have "fifo_wf (ring_grow q)" "fifo_list (ring_grow q) = map (\<lambda>i. fifo_list q ! i) [0..<current_depth q]"
    using m by (simp_all add: fifo_wf_def fifo_list_def [of "ring_grow q"])
  moreover have "map (\<lambda>i. fifo_list q ! i) [0..<current_depth q] = fifo_list q"
    using map_nth [of "fifo_list q"] by simp
  ultimately show ?thesis using m by (simp add: ring_grow_def)
qed

interpretation ring: gds_fifo_laws ring_ops
proof
  fix n :: nat assume "0 < n"
  then show "fifo_wf (fifo_create ring_ops n) \<and> fifo_list (fifo_create ring_ops n) = []"
    by (simp add: ring_ops_def fifo_wf_def fifo_list_def)
next
  fix q :: "'a gds_fifo" and x assume q: "fifo_wf q"
  let ?q = "if current_depth q = max_depth q then ring_grow q else q"
  have "fifo_wf ?q" "fifo_list ?q = fifo_list q" "current_depth ?q < max_depth ?q"
    using q ring_grow_effect [OF q] by (auto simp: fifo_wf_def)
  with ring_put_effect [of ?q x]
  show "\<exists>q'. fifo_push ring_ops q x = (0, q') \<and> fifo_wf q' \<and> fifo_list q' = fifo_list q @ [x]"
    by (simp add: ring_ops_def)
next
  fix q :: "'a gds_fifo" assume "fifo_list q = []"
  then have "current_depth q = 0" using fifo_list_length [of q] by simp
  then show "fifo_pop ring_ops q = None" by (simp add: ring_ops_def)
next
  fix q :: "'a gds_fifo" and x xs assume q: "fifo_wf q" "fifo_list q = x # xs"
  let ?q = "q\<lparr>start_index := (start_index q + 1) mod max_depth q, current_depth := current_depth q - 1\<rparr>"
  obtain d where d: "current_depth q = Suc d" using q(2) fifo_list_length [of q] by (metis length_Cons)
  have slot: "fifo_slot ?q i = fifo_slot q (Suc i)" for i by (simp add: fifo_slot_def mod_simps)
  have "fifo_list q = the (fifo_slot q 0) # map (\<lambda>i. the (fifo_slot q (Suc i))) [0..<d]"
    unfolding fifo_list_def d by (simp only: upt_conv_Cons map_Suc_upt [symmetric] list.map list.map_comp comp_def zero_less_Suc)
  moreover have "fifo_list ?q = map (\<lambda>i. the (fifo_slot q (Suc i))) [0..<d]"
    unfolding fifo_list_def [of ?q] slot by (simp add: d)
  ultimately have "the (fifo_slot q 0) = x" "fifo_list ?q = xs" using q(2) by simp_all
  moreover have "fifo_wf ?q" using q(1) d slot by (auto simp: fifo_wf_def)
  ultimately show "\<exists>q'. fifo_pop ring_ops q = Some (x, q') \<and> fifo_wf q' \<and> fifo_list q' = xs"
    using d by (simp add: ring_ops_def)
qed

section \<open>Runs of the static scheduler\<close>

text \<open>The specification: the state after a sequence of events, and the events they post.\<close>

fun run_events :: "('e, 'w) handler \<Rightarrow> 'e list \<Rightarrow> 'w \<Rightarrow> ('w \<times> 'e list) option" where
  "run_events h [] w = Some (w, [])"
| "run_events h (ev # evs) w = do {
     (error, w, posts, cancel) \<leftarrow> h ev w;
     (w, rest) \<leftarrow> run_events h evs w;
     Some (w, posts @ rest)
   }"

text \<open>What a run that returns has done, for the events \<open>evs\<close> that it handled.\<close>

definition static_ran ::
    "('e, 'w) handler \<Rightarrow> 32 word \<Rightarrow> 'e list \<Rightarrow> 'w \<Rightarrow> 'e sched_static \<Rightarrow> int \<times> 'w \<times> 'e sched_static \<Rightarrow> bool" where
  "static_ran h n evs w s r \<longleftrightarrow>
     (case r of (error, w', s') \<Rightarrow>
        (\<exists>posts. run_events h evs w = Some (w', posts) \<and> evs @ fifo_list (events s') = fifo_list (events s) @ posts)
      \<and> fifo_wf (events s') \<and> (n \<noteq> 0 \<longrightarrow> length evs \<le> unat n)
      \<and> (error = ESUCCESS \<longrightarrow> cur_time s' = cur_time s + of_nat (length evs)
           \<and> (fifo_list (events s') = [] \<or> cancelled s' \<or> n \<noteq> 0 \<and> length evs = unat n)))"

lemma static_ran_step:
  assumes ev: "h ev w = Some (error, w1, posts, cancel)"
    and s1: "fifo_list (events s) = ev # q" "fifo_list (events s1) = q @ posts" "cur_time s1 = cur_time s + 1"
    and rest: "static_ran h n' evs w1 s1 r"
    and n: "n \<noteq> 0 \<Longrightarrow> n' \<noteq> 0 \<and> unat n = Suc (unat n')" "n = 0 \<Longrightarrow> n' = 0"
  shows "static_ran h n (ev # evs) w s r"
proof -
  obtain e w' s' where r: "r = (e, w', s')" by (cases r)
  with rest obtain posts' where p: "run_events h evs w1 = Some (w', posts')"
    "evs @ fifo_list (events s') = (q @ posts) @ posts'" by (auto simp: static_ran_def s1(2))
  have run: "run_events h (ev # evs) w = Some (w', posts @ posts')" using ev p(1) by simp
  have q: "(ev # evs) @ fifo_list (events s') = fifo_list (events s) @ (posts @ posts')"
    using p(2) by (simp add: s1(1))
  have wf: "fifo_wf (events s')" and len: "n' \<noteq> 0 \<Longrightarrow> length evs \<le> unat n'"
    and ok: "e = ESUCCESS \<Longrightarrow> cur_time s' = cur_time s1 + of_nat (length evs)
       \<and> (fifo_list (events s') = [] \<or> cancelled s' \<or> n' \<noteq> 0 \<and> length evs = unat n')"
    using rest by (simp_all add: static_ran_def r)
  have len': "n \<noteq> 0 \<Longrightarrow> length (ev # evs) \<le> unat n" using n len by simp
  have last: "n \<noteq> 0 \<and> length (ev # evs) = unat n" if "n' \<noteq> 0" "length evs = unat n'"
    using n that by (cases "n = 0") auto
  have time: "cur_time s1 + of_nat (length evs) = cur_time s + of_nat (length (ev # evs))" by (simp add: s1(3))
  show ?thesis
    unfolding static_ran_def r prod.case
  proof (intro conjI exI impI)
    assume e: "e = ESUCCESS"
    show "cur_time s' = cur_time s + of_nat (length (ev # evs))" using ok [OF e] time by simp
    show "fifo_list (events s') = [] \<or> cancelled s' \<or> n \<noteq> 0 \<and> length (ev # evs) = unat n" using ok [OF e] last by blast
  qed (rule run q wf len', assumption?)+
qed

lemma static_ran_one:
  assumes ev: "h ev w = Some (error, w1, posts, cancel)"
    and s1: "fifo_list (events s) = ev # q" "fifo_list (events s1) = q @ posts" "fifo_wf (events s1)"
    and n: "n \<noteq> 0 \<Longrightarrow> 1 \<le> unat n"
    and e: "e = ESUCCESS \<Longrightarrow> cur_time s1 = cur_time s + 1 \<and> n = 1"
  shows "static_ran h n [ev] w s (e, w1, s1)"
  using ev s1 n e by (auto simp: static_ran_def)

context gds_fifo_laws
begin

lemma post_all_effect:
  "fifo_wf (events s) \<Longrightarrow> \<exists>s'. post_all ops evs s = Some s' \<and> fifo_wf (events s')
    \<and> fifo_list (events s') = fifo_list (events s) @ evs \<and> cur_time s' = cur_time s \<and> cancelled s' = cancelled s"
proof (induction evs arbitrary: s)
  case (Cons ev evs)
  obtain q where q: "fifo_push ops (events s) ev = (0, q)" "fifo_wf q" "fifo_list q = fifo_list (events s) @ [ev]"
    using push [OF Cons.prems] by blast
  from Cons.IH [of "s\<lparr>events := q\<rparr>"] q show ?case by (simp add: static_post_def)
qed simp

text \<open>One turn of the loop.\<close>

lemma turn_cases:
  assumes "fifo_wf (events s)"
  obtains (stop) "cancelled s \<or> fifo_list (events s) = []"
      "(if cancelled s then Some (ESUCCESS, w, s) else case fifo_pop ops (events s) of None \<Rightarrow> Some (ESUCCESS, w, s)
        | Some (ev, q) \<Rightarrow> k ev q) = Some (ESUCCESS, w, s)"
    | (turn) ev rest q where "\<not> cancelled s" "fifo_list (events s) = ev # rest" "fifo_wf q" "fifo_list q = rest"
      "(if cancelled s then Some (ESUCCESS, w, s) else case fifo_pop ops (events s) of None \<Rightarrow> Some (ESUCCESS, w, s)
        | Some (ev, q) \<Rightarrow> k ev q) = k ev q"
proof (cases "cancelled s \<or> fifo_list (events s) = []")
  case True
  then show thesis using stop pop_empty [OF assms] by (cases "cancelled s") auto
next
  case False
  then obtain ev rest where l: "fifo_list (events s) = ev # rest" by (auto simp: neq_Nil_conv)
  from pop [OF assms l] obtain q where "fifo_pop ops (events s) = Some (ev, q)" "fifo_wf q" "fifo_list q = rest" by blast
  with False l turn show thesis by simp
qed

end

text \<open>The events that a turn leaves in the queue.\<close>

lemma static_turn:
  assumes "gds_fifo_laws ops" "fifo_wf q" "fifo_list q = rest" "cur_time s0 = t"
  obtains s1 where "post_all ops posts (s0\<lparr>events := q, cancelled := c\<rparr>) = Some s1" "fifo_wf (events s1)"
    "fifo_list (events s1) = rest @ posts" "cur_time s1 = t"
  using gds_fifo_laws.post_all_effect [OF assms(1), of "s0\<lparr>events := q, cancelled := c\<rparr>" posts] assms(2-4) by auto

lemma word_minus_one: "(n :: 32 word) > 0 \<Longrightarrow> unat n = Suc (unat (n - 1))"
  by (simp add: unat_minus_one word_neq_0_conv unat_gt_0)

lemma static_loop_fifo:
  assumes "static_run_loop ops h mt n w s = Some r" "gds_fifo_laws ops" "fifo_wf (events s)"
  shows "\<exists>evs. static_ran h n evs w s r"
proof -
  have "gds_fifo_laws ops \<longrightarrow> fifo_wf (events s) \<longrightarrow> (\<exists>evs. static_ran h n evs w s r)"
  proof (rule static_run_loop.raw_induct [where P = "\<lambda>ops h mt n w s r. gds_fifo_laws ops \<longrightarrow> fifo_wf (events s) \<longrightarrow> (\<exists>evs. static_ran h n evs w s r)", OF _ assms(1)], intro impI)
    fix loop ops h mt n w s r
    assume IH: "\<And>ops h mt n w s r. loop ops h mt n w s = Some r \<Longrightarrow>
        gds_fifo_laws ops \<longrightarrow> fifo_wf (events s) \<longrightarrow> (\<exists>evs. static_ran h n evs w s r)"
      and body: "(if cancelled s then Some (ESUCCESS, w, s)
      else case fifo_pop ops (events s) of
        None \<Rightarrow> Some (ESUCCESS, w, s)
      | Some (ev, q) \<Rightarrow> do {
          (error, w, posts, cancel) \<leftarrow> h ev w;
          sched \<leftarrow> post_all ops posts (s\<lparr>events := q, cancelled := cancel\<rparr>);
          if error \<noteq> ESUCCESS then Some (error, w, sched)
          else let sched = sched\<lparr>cur_time := cur_time sched + 1\<rparr> in
            if mt > 0 \<and> of_nat (unat (cur_time sched)) \<ge> mt then Some (ESIM_TIME_LIMIT, w, sched)
            else if n > 0 then
              (if n - 1 = 0 then Some (ESUCCESS, w, sched) else loop ops h mt (n - 1) w sched)
            else loop ops h mt n w sched
        }) = Some r"
      and laws: "gds_fifo_laws ops" and wf: "fifo_wf (events s)"
    let ?k = "\<lambda>ev q. do {
          (error, w, posts, cancel) \<leftarrow> h ev w;
          sched \<leftarrow> post_all ops posts (s\<lparr>events := q, cancelled := cancel\<rparr>);
          if error \<noteq> ESUCCESS then Some (error, w, sched)
          else let sched = sched\<lparr>cur_time := cur_time sched + 1\<rparr> in
            if mt > 0 \<and> of_nat (unat (cur_time sched)) \<ge> mt then Some (ESIM_TIME_LIMIT, w, sched)
            else if n > 0 then
              (if n - 1 = 0 then Some (ESUCCESS, w, sched) else loop ops h mt (n - 1) w sched)
            else loop ops h mt n w sched
        }"
    show "\<exists>evs. static_ran h n evs w s r"
    proof (rule gds_fifo_laws.turn_cases [OF laws wf, of w ?k])
      assume "cancelled s \<or> fifo_list (events s) = []" and "(if cancelled s then Some (ESUCCESS, w, s) else case fifo_pop ops (events s) of None \<Rightarrow> Some (ESUCCESS, w, s)
        | Some (ev, q) \<Rightarrow> ?k ev q) = Some (ESUCCESS, w, s)"
      with body have "r = (ESUCCESS, w, s)" by simp
      with wf \<open>cancelled s \<or> fifo_list (events s) = []\<close> have "static_ran h n [] w s r" by (auto simp: static_ran_def)
      then show ?thesis ..
    next
      fix ev rest q
      assume t: "fifo_list (events s) = ev # rest" "fifo_wf q" "fifo_list q = rest"
        and "(if cancelled s then Some (ESUCCESS, w, s) else case fifo_pop ops (events s) of None \<Rightarrow> Some (ESUCCESS, w, s)
        | Some (ev, q) \<Rightarrow> ?k ev q) = ?k ev q"
      with body have k: "?k ev q = Some r" by simp
      then obtain error w1 posts c where ev: "h ev w = Some (error, w1, posts, c)"
        by (cases "h ev w") auto
      obtain s1 where s1: "post_all ops posts (s\<lparr>events := q, cancelled := c\<rparr>) = Some s1" "fifo_wf (events s1)"
        "fifo_list (events s1) = rest @ posts" "cur_time s1 = cur_time s"
        using static_turn [OF laws t(2,3) refl] .
      let ?s = "s1\<lparr>cur_time := cur_time s1 + 1\<rparr>"
      have s2: "fifo_wf (events ?s)" "fifo_list (events ?s) = rest @ posts" "cur_time ?s = cur_time s + 1" using s1 by simp_all
      note one = static_ran_one [where h = h and ev = ev and w = w and s = s, OF ev t(1)]
        and step = static_ran_step [where h = h and ev = ev and w = w and s = s, OF ev t(1) s2(2,3)]
      have pos: "n \<noteq> 0 \<Longrightarrow> 1 \<le> unat n" by (simp add: Suc_le_eq unat_gt_0)
      consider (error) "error \<noteq> ESUCCESS" "r = (error, w1, s1)"
        | (limit) "r = (ESIM_TIME_LIMIT, w1, ?s)"
        | (last) "n = 1" "r = (ESUCCESS, w1, ?s)"
        | (count) "n > 0" "n - 1 \<noteq> 0" "loop ops h mt (n - 1) w1 ?s = Some r"
        | (free) "n = 0" "loop ops h mt n w1 ?s = Some r"
        using k ev s1(1) by (auto simp: Let_def word_neq_0_conv [symmetric] split: if_splits)
      then show ?thesis
      proof cases
        case error
        with one [of s1 n error] s1(2,3) pos show ?thesis by blast
      next
        case limit
        with one [of ?s n ESIM_TIME_LIMIT] s2 pos show ?thesis by (auto simp: ESIM_TIME_LIMIT_def ESUCCESS_def)
      next
        case last
        with one [of ?s n ESUCCESS] s2 pos show ?thesis by auto
      next
        case count
        then obtain evs where "static_ran h (n - 1) evs w1 ?s r" using IH laws s2(1) by blast
        from step [OF this, of n] count word_minus_one [OF count(1)] show ?thesis by (auto simp: word_neq_0_conv)
      next
        case free
        then obtain evs where "static_ran h n evs w1 ?s r" using IH laws s2(1) by blast
        from step [OF this, of n] free(1) show ?thesis by auto
      qed
    qed
  qed
  with assms(2,3) show ?thesis by blast
qed

text \<open>A run ends: the number of steps is limited, or the simulation time is.\<close>

lemma static_loop_turn:
  assumes laws: "gds_fifo_laws ops" and wf: "fifo_wf (events s)" and total: "\<And>ev w. h ev w \<noteq> None"
  obtains r where "static_run_loop ops h mt n w s = Some r"
  | w1 s1 where "fifo_wf (events s1)" "cur_time s1 = cur_time s + 1"
      "\<not> (mt > 0 \<and> of_nat (unat (cur_time s1)) \<ge> mt)" "n \<noteq> 1"
      "static_run_loop ops h mt n w s = static_run_loop ops h mt (if n > 0 then n - 1 else n) w1 s1"
proof -
  let ?k = "\<lambda>ev q. do {
          (error, w, posts, cancel) \<leftarrow> h ev w;
          sched \<leftarrow> post_all ops posts (s\<lparr>events := q, cancelled := cancel\<rparr>);
          if error \<noteq> ESUCCESS then Some (error, w, sched)
          else let sched = sched\<lparr>cur_time := cur_time sched + 1\<rparr> in
            if mt > 0 \<and> of_nat (unat (cur_time sched)) \<ge> mt then Some (ESIM_TIME_LIMIT, w, sched)
            else if n > 0 then
              (if n - 1 = 0 then Some (ESUCCESS, w, sched) else static_run_loop ops h mt (n - 1) w sched)
            else static_run_loop ops h mt n w sched
        }"
  have eq: "static_run_loop ops h mt n w s = (if cancelled s then Some (ESUCCESS, w, s)
      else case fifo_pop ops (events s) of None \<Rightarrow> Some (ESUCCESS, w, s) | Some (ev, q) \<Rightarrow> ?k ev q)"
    by (subst static_run_loop.simps) (rule refl)
  show thesis
  proof (rule gds_fifo_laws.turn_cases [OF laws wf, of w ?k])
    fix ev rest q
    assume t: "fifo_wf q" "fifo_list q = rest"
      and "(if cancelled s then Some (ESUCCESS, w, s) else case fifo_pop ops (events s) of None \<Rightarrow> Some (ESUCCESS, w, s)
        | Some (ev, q) \<Rightarrow> ?k ev q) = ?k ev q"
    with eq have k: "static_run_loop ops h mt n w s = ?k ev q" by simp
    obtain error w1 posts c where ev: "h ev w = Some (error, w1, posts, c)" using total [of ev w] by auto
    obtain s1 where s1: "post_all ops posts (s\<lparr>events := q, cancelled := c\<rparr>) = Some s1" "fifo_wf (events s1)"
      "cur_time s1 = cur_time s"
      using static_turn [OF laws t refl] .
    let ?s = "s1\<lparr>cur_time := cur_time s1 + 1\<rparr>"
    show thesis
    proof (cases "error = ESUCCESS \<and> \<not> (mt > 0 \<and> of_nat (unat (cur_time ?s)) \<ge> mt) \<and> n \<noteq> 1")
      case True
      with k ev s1 have "static_run_loop ops h mt n w s = static_run_loop ops h mt (if n > 0 then n - 1 else n) w1 ?s"
        by (auto simp: Let_def)
      with that(2) [of ?s w1] True s1 show thesis by simp
    next
      case False
      with k ev s1 that(1) show thesis by (auto simp: Let_def split: if_splits)
    qed
  qed (use eq that(1) in auto)
qed

lemma static_loop_counted:
  assumes laws: "gds_fifo_laws ops" and total: "\<And>ev w. h ev w \<noteq> None"
  shows "fifo_wf (events s) \<Longrightarrow> n \<noteq> 0 \<Longrightarrow> \<exists>r. static_run_loop ops h mt n w s = Some r"
proof (induction "unat n" arbitrary: n w s rule: less_induct)
  case less
  from laws less.prems(1) total show ?case
  proof (rule static_loop_turn [of ops s h mt n w])
    fix w1 s1 assume t: "fifo_wf (events s1)" "n \<noteq> 1"
      "static_run_loop ops h mt n w s = static_run_loop ops h mt (if n > 0 then n - 1 else n) w1 s1"
    have "n > 0" using less.prems(2) by (simp add: word_neq_0_conv)
    moreover have "unat (n - 1) < unat n" using word_minus_one [OF \<open>n > 0\<close>] by simp
    ultimately show ?thesis using less.hyps [of "n - 1" s1 w1] t by simp
  qed blast
qed

lemma static_loop_limited:
  assumes laws: "gds_fifo_laws ops" and total: "\<And>ev w. h ev w \<noteq> None" and mt: "0 < mt" "mt \<le> 2 ^ 32 - 1"
  shows "fifo_wf (events s) \<Longrightarrow> \<exists>r. static_run_loop ops h mt n w s = Some r"
proof (induction "2 ^ 32 - unat (cur_time s + 1)" arbitrary: n w s rule: less_induct)
  case less
  from laws less.prems(1) total show ?case
  proof (rule static_loop_turn [of ops s h mt n w])
    fix w1 s1 assume t: "fifo_wf (events s1)" "cur_time s1 = cur_time s + 1" "\<not> (mt > 0 \<and> of_nat (unat (cur_time s1)) \<ge> mt)"
      "static_run_loop ops h mt n w s = static_run_loop ops h mt (if n > 0 then n - 1 else n) w1 s1"
    have "of_nat (unat (cur_time s1)) < (2 ^ 32 - 1 :: rat)" using t(3) mt by linarith
    then have lt: "unat (cur_time s1) < 2 ^ 32 - 1" by (simp add: of_nat_less_iff [where 'a = rat, symmetric])
    then have "unat (cur_time s1 + 1) = unat (cur_time s1) + 1" by (simp add: unat_word_ariths)
    then have "2 ^ 32 - unat (cur_time s1 + 1) < 2 ^ 32 - unat (cur_time s + 1)" using lt t(2) by simp
    then show ?thesis using less.hyps [of s1 _ w1] t(1,4) by simp
  qed blast
qed

section \<open>Properties\<close>

text \<open>C28: The static scheduler is a FIFO.  When a run returns, the events it handled were, in this order, the oldest events of
  the queue followed by the events that these posted; what is left in the queue is the rest.  At most
  \<open>num_steps\<close> events are handled (if it is not 0); without error the time has advanced by one for each of them,
  modulo \<open>2\<^sup>3\<^sup>2\<close>, and the run stopped because the queue is empty, because it was cancelled, or because the number of
  steps was reached.\<close>

theorem static_run_fifo:
  assumes "gds_fifo_laws ops" "fifo_wf (events s)" "static_run ops h mt n w s = Some (error, w', s')"
  shows "\<exists>evs posts. run_events h evs w = Some (w', posts)
    \<and> evs @ fifo_list (events s') = fifo_list (events s) @ posts
    \<and> (n \<noteq> 0 \<longrightarrow> length evs \<le> unat n)
    \<and> (error = ESUCCESS \<longrightarrow> cur_time s' = cur_time s + of_nat (length evs)
         \<and> (static_num_events s' = 0 \<or> cancelled s' \<or> n \<noteq> 0 \<and> length evs = unat n))"
proof -
  obtain evs where "static_ran h n evs w (s\<lparr>cancelled := False\<rparr>) (error, w', s')"
    using static_loop_fifo [OF assms(3) [unfolded static_run_def] assms(1)] assms(2) by auto
  moreover have "fifo_list (events s') = [] \<longleftrightarrow> static_num_events s' = 0"
    by (metis fifo_list_length length_0_conv static_num_events_def)
  ultimately show ?thesis by (auto simp: static_ran_def)
qed

text \<open>An event carries a number; the event \<open>n\<close> posts the event \<open>n - 1\<close>, down to 0.\<close>

definition countdown :: "(nat, nat list) handler" where
  "countdown ev seen = Some (ESUCCESS, seen @ [ev], if ev = 0 then [] else [ev - 1], False)"

definition countdown_sched :: "nat sched_static" where
  "countdown_sched = the (post_all ring_ops [2, 7] (sched_static_create ring_ops))"

lemma countdown_queue: "fifo_wf (events countdown_sched)" "fifo_list (events countdown_sched) = [2, 7]"
proof -
  have wf: "fifo_wf (events (sched_static_create ring_ops :: nat sched_static))"
    "fifo_list (events (sched_static_create ring_ops :: nat sched_static)) = []"
    by (simp_all add: sched_static_create_def EVENT_QUEUE_DEPTH_def ring.create)
  from ring.post_all_effect [OF wf(1), of "[2, 7]"] wf(2)
  show "fifo_wf (events countdown_sched)" "fifo_list (events countdown_sched) = [2, 7]"
    by (auto simp: countdown_sched_def)
qed

theorem static_run_fifo_witness:
  "\<exists>error seen s. static_run ring_ops countdown 0 4 [] countdown_sched = Some (error, seen, s)
     \<and> (\<exists>evs posts. run_events countdown evs [] = Some (seen, posts) \<and> evs @ fifo_list (events s) = [2, 7] @ posts \<and> length evs \<le> 4)"
proof -
  have "countdown ev w \<noteq> None" for ev w by (simp add: countdown_def)
  then obtain r where "static_run_loop ring_ops countdown 0 4 [] (countdown_sched\<lparr>cancelled := False\<rparr>) = Some r"
    using static_loop_counted [OF ring.gds_fifo_laws_axioms, of countdown "countdown_sched\<lparr>cancelled := False\<rparr>" 4 0 "[]"]
      countdown_queue(1) by auto
  moreover obtain error seen s where "r = (error, seen, s)" by (cases r)
  ultimately have run: "static_run ring_ops countdown 0 4 [] countdown_sched = Some (error, seen, s)"
    by (simp add: static_run_def)
  from static_run_fifo [OF ring.gds_fifo_laws_axioms countdown_queue(1) run] countdown_queue(2) run show ?thesis by fastforce
qed

text \<open>The events handled by a run of at most \<open>k\<close> steps: the oldest events of the queue followed by those that they posted, no more
  than \<open>k\<close>, and, without error or cancellation, exactly \<open>k\<close> or as many as there are.\<close>

definition ran_within :: "('e, 'w) handler \<Rightarrow> nat \<Rightarrow> 'w \<Rightarrow> 'e sched_static \<Rightarrow> int \<Rightarrow> 'w \<Rightarrow> 'e sched_static \<Rightarrow> bool" where
  "ran_within h k w s result w' s' \<longleftrightarrow>
     (\<exists>evs posts. run_events h evs w = Some (w', posts) \<and> evs @ fifo_list (events s') = fifo_list (events s) @ posts
        \<and> length evs \<le> k \<and> (result = ESUCCESS \<and> \<not> cancelled s' \<longrightarrow> length evs = k \<or> static_num_events s' = 0))"

lemma static_run_within:
  assumes "gds_fifo_laws ops" "fifo_wf (events s)" "static_run ops h mt n w s = Some (result, w', s')" "n \<noteq> 0"
  shows "ran_within h (unat n) w s result w' s'"
proof -
  obtain evs where "static_ran h n evs w (s\<lparr>cancelled := False\<rparr>) (result, w', s')"
    using static_loop_fifo [OF assms(3) [unfolded static_run_def] assms(1)] assms(2) by auto
  moreover have "fifo_list (events s') = [] \<longleftrightarrow> static_num_events s' = 0"
    by (metis fifo_list_length length_0_conv static_num_events_def)
  ultimately show ?thesis using assms(4) unfolding ran_within_def by (auto simp: static_ran_def)
qed

text \<open>C29: A run of the simulation returns, for callbacks that return: \<open>sim_run\<close> passes -1 as the unsigned number of
  steps, so it handles the events in the order of the queue until the queue is empty or exactly \<open>2\<^sup>3\<^sup>2 - 1\<close> events have
  been handled, unless a callback fails or cancels the run or the time limit is reached, and then the simulator is
  not running; \<open>sim_step\<close> with \<open>n\<close> steps returns in the same way after at most \<open>n\<close> events, and \<open>sim_step\<close> without limit
  (0 steps) returns when the simulation time is limited to at most \<open>2\<^sup>3\<^sup>2 - 1\<close>.\<close>

theorem sim_run_returns:
  assumes "gds_fifo_laws ops" "fifo_wf (events (sched sim))" "\<And>ev w. h ev w \<noteq> None"
    and "n \<noteq> 0 \<or> 0 < max_time sim \<and> max_time sim \<le> 2 ^ 32 - 1"
  shows "(\<exists>result w' sim'. sim_run ops h w sim = Some (result, w', sim') \<and> \<not> sim_is_running sim'
        \<and> ran_within h (2 ^ 32 - 1) w (sched sim) result w' (sched sim'))
    \<and> (\<exists>result w' sim'. sim_step ops h n w sim = Some (result, w', sim')
        \<and> (n \<noteq> 0 \<longrightarrow> ran_within h (unat n) w (sched sim) result w' (sched sim')))"
proof -
  let ?s = "(sched sim)\<lparr>cancelled := False\<rparr>"
  have wf: "fifo_wf (events ?s)" using assms(2) by simp
  have max: "unat (- 1 :: 32 word) = 2 ^ 32 - 1" by (simp add: unsigned_minus_1_eq_mask mask_eq_exp_minus_1)
  obtain result w' s' where run: "static_run ops h (max_time sim) (-1) w (sched sim) = Some (result, w', s')"
    using static_loop_counted [where h = h, OF assms(1,3) wf, of "-1" "max_time sim" w] by (auto simp: static_run_def)
  obtain r where "static_run_loop ops h (max_time sim) n w ?s = Some r"
    using static_loop_counted [where h = h, OF assms(1,3) wf, of n] static_loop_limited [where h = h, OF assms(1,3) _ _ wf] assms(4) by blast
  then obtain result2 w2 s2 where step: "static_run ops h (max_time sim) n w (sched sim) = Some (result2, w2, s2)"
    by (cases r) (simp add: static_run_def)
  have "ran_within h (2 ^ 32 - 1) w (sched sim) result w' s'" using static_run_within [OF assms(1,2) run] by (simp add: max)
  moreover have "n \<noteq> 0 \<Longrightarrow> ran_within h (unat n) w (sched sim) result2 w2 s2" by (rule static_run_within [OF assms(1,2) step])
  ultimately show ?thesis
    using run step by (simp add: sim_run_def sim_step_def sim_is_running_def)
qed

theorem sim_run_returns_witness:
  "(\<exists>result w' sim'. sim_run ring_ops countdown [] \<lparr>sched = countdown_sched, max_time = 10, running = False\<rparr> = Some (result, w', sim')
      \<and> ran_within countdown (2 ^ 32 - 1) [] countdown_sched result w' (sched sim'))
   \<and> (\<exists>result w' sim'. sim_step ring_ops countdown 0 [] \<lparr>sched = countdown_sched, max_time = 10, running = False\<rparr> = Some (result, w', sim'))"
proof -
  have total: "countdown ev w \<noteq> None" for ev w by (simp add: countdown_def)
  let ?sim = "\<lparr>sched = countdown_sched, max_time = 10, running = False\<rparr>"
  have "fifo_wf (events (sched ?sim))" "(0 :: 32 word) \<noteq> 0 \<or> 0 < max_time ?sim \<and> max_time ?sim \<le> 2 ^ 32 - 1"
    using countdown_queue(1) by simp_all
  from sim_run_returns [where h = countdown, OF ring.gds_fifo_laws_axioms this(1) total this(2), of "[]"] show ?thesis
    unfolding simulator.select_convs by blast
qed

end
