(* ===== verification/Sim_Dynamic.thy ===== *)
theory Sim_Dynamic
  imports Sim_Scheduler Gds_Trie "HOL-Library.Log_Nat"
begin

text \<open>
  The dynamic event scheduler, \<open>src/sim/scheduler.c\<close>: a list of FIFOs ordered by time, each with the fixed size the program
  creates it with.  Times are floating-point numbers, modelled as rationals with the rounding of the conversions and sums.
\<close>

section \<open>Times\<close>

text \<open>A time is a \<open>double\<close> or, for the current time of the scheduler, a \<open>float\<close>: a rational number that has 53 or 24 significant
  bits.  A conversion or a sum rounds to the nearest such number, ties to even; the limits of the exponents, infinities and NaN are
  left aside.\<close>

definition ilog2 :: "rat \<Rightarrow> int" where
  "ilog2 x =
     (let (a, b) = quotient_of x; k = int (floorlog 2 (nat a)) - int (floorlog 2 (nat b))
      in if 2 powi k \<le> x then k else k - 1)"

definition round_even :: "rat \<Rightarrow> int" where
  "round_even x = (let n = \<lfloor>x\<rfloor>; r = x - of_int n in if 2 * r < 1 \<or> 2 * r = 1 \<and> even n then n else n + 1)"

definition round_bits :: "nat \<Rightarrow> rat \<Rightarrow> rat" where
  "round_bits p x =
     (if x = 0 then 0
      else let u = 2 powi (ilog2 \<bar>x\<bar> - int p + 1) in of_int (round_even (x / u)) * u)"

definition to_float :: "rat \<Rightarrow> rat" where
  "to_float = round_bits 24"

definition to_double :: "rat \<Rightarrow> rat" where
  "to_double = round_bits 53"

lemma powi_less: "a < b \<Longrightarrow> (2 :: rat) powi a < 2 powi b"
  by (simp add: power_int_strict_increasing)

lemma ilog2_bounds:
  assumes "0 < x"
  shows "2 powi ilog2 x \<le> x" "x < 2 powi (ilog2 x + 1)"
proof -
  obtain a b where q: "quotient_of x = (a, b)" by fastforce
  have b: "0 < b" by (rule quotient_of_denom_pos [OF q])
  have x: "x = of_int a / of_int b" by (rule quotient_of_div [OF q])
  with assms b have a: "0 < a" by (simp add: zero_less_divide_iff)
  let ?A = "floorlog 2 (nat a)" and ?B = "floorlog 2 (nat b)"
  have bits: "2 ^ (floorlog 2 n - 1) \<le> n \<and> n < 2 ^ floorlog 2 n" if "0 < n" for n
    using floorlog_bounds [of n 2] that by simp
  have pow: "(2 :: rat) powi (int (floorlog 2 (nat c)) - 1) \<le> of_int c \<and> of_int c < (2 :: rat) powi int (floorlog 2 (nat c))" if c: "0 < c" for c
  proof -
    have l: "0 < floorlog 2 (nat c)" using c by (simp add: floorlog_def)
    have "of_nat (2 ^ (floorlog 2 (nat c) - 1)) \<le> (of_nat (nat c) :: rat)" "of_nat (nat c) < (of_nat (2 ^ floorlog 2 (nat c)) :: rat)"
      using bits [of "nat c"] c unfolding zero_less_nat_eq by (simp_all only: of_nat_le_iff of_nat_less_iff)
    moreover have "int (floorlog 2 (nat c)) - 1 = int (floorlog 2 (nat c) - 1)" using l by simp
    ultimately show ?thesis using c by (simp only: power_int_of_nat) simp
  qed
  have pos: "0 < (2 :: rat) powi k" for k by simp
  let ?k = "int ?A - int ?B"
  have A: "(2 :: rat) powi (int ?A - 1) \<le> of_int a" "of_int a < (2 :: rat) powi int ?A" using pow [OF a] by simp_all
  have B: "(2 :: rat) powi (int ?B - 1) \<le> of_int b" "of_int b < (2 :: rat) powi int ?B" using pow [OF b] by simp_all
  have "x * 2 powi (int ?B - 1) \<le> x * of_int b" using B(1) assms by (intro mult_left_mono) simp_all
  also have "\<dots> = of_int a" using b by (simp add: x)
  finally have "x * 2 powi (int ?B - 1) < 2 powi int ?A" using A(2) by (rule le_less_trans)
  then have "x < 2 powi int ?A / 2 powi (int ?B - 1)" by (simp only: pos_less_divide_eq [OF pos])
  also have "\<dots> = 2 powi (int ?A - (int ?B - 1))" by (rule power_int_diff [symmetric]) simp
  also have "int ?A - (int ?B - 1) = ?k + 1" by simp
  finally have up: "x < 2 powi (?k + 1)" .
  have "of_int a = x * of_int b" using b by (simp add: x)
  also have "\<dots> \<le> x * 2 powi int ?B" using B(2) assms by (intro mult_left_mono) simp_all
  finally have "2 powi (int ?A - 1) / 2 powi int ?B \<le> x" using A(1) by (simp only: pos_divide_le_eq [OF pos])
  moreover have "2 powi (int ?A - 1) / 2 powi int ?B = (2 :: rat) powi (int ?A - 1 - int ?B)" by (rule power_int_diff [symmetric]) simp
  moreover have "int ?A - 1 - int ?B = ?k - 1" by simp
  ultimately have low: "2 powi (?k - 1) \<le> x" by metis
  have e: "ilog2 x = (if 2 powi ?k \<le> x then ?k else ?k - 1)" by (simp add: ilog2_def q Let_def)
  show "2 powi ilog2 x \<le> x" "x < 2 powi (ilog2 x + 1)" using up low by (auto simp: e)
qed

lemma ilog2_between:
  assumes "2 powi j \<le> x" "x < 2 powi k"
  shows "j \<le> ilog2 x" "ilog2 x < k"
proof -
  have "0 < x" by (rule less_le_trans [OF _ assms(1)]) simp
  note b = ilog2_bounds [OF this]
  show "j \<le> ilog2 x"
  proof (rule ccontr)
    assume "\<not> j \<le> ilog2 x"
    then have "(2 :: rat) powi (ilog2 x + 1) \<le> 2 powi j" by (intro power_int_increasing) simp_all
    with b(2) assms(1) show False by simp
  qed
  show "ilog2 x < k"
  proof (rule ccontr)
    assume "\<not> ilog2 x < k"
    then have "(2 :: rat) powi k \<le> 2 powi ilog2 x" by (intro power_int_increasing) simp_all
    with b(1) assms(2) show False by simp
  qed
qed

lemma round_even_int [simp]: "round_even (of_int n) = n"
  by (simp add: round_even_def)

lemma round_even_between:
  assumes "of_int a \<le> x" "x < of_int b"
  shows "a \<le> round_even x" "round_even x \<le> b"
proof -
  have "a \<le> \<lfloor>x\<rfloor>" "\<lfloor>x\<rfloor> < b" using assms by (simp_all add: le_floor_iff floor_less_iff)
  then show "a \<le> round_even x" "round_even x \<le> b" by (auto simp: round_even_def Let_def)
qed

text \<open>A \<open>float\<close> is a \<open>double\<close>.\<close>

lemma float_is_double:
  assumes "0 \<le> t"
  shows "to_double (to_float t) = to_float t" "0 \<le> to_float t"
proof -
  have "to_double (to_float t) = to_float t \<and> 0 \<le> to_float t"
  proof (cases "t = 0")
    case True
    then show ?thesis by (simp add: to_double_def to_float_def round_bits_def)
  next
    case False
    with assms have t: "0 < t" by simp
    define k where "k = ilog2 t"
    define u where "u = (2 :: rat) powi (k - 23)"
    define n where "n = round_even (t / u)"
    have u: "0 < u" by (simp add: u_def)
    have y: "to_float t = of_int n * u" using t by (simp add: to_float_def round_bits_def k_def u_def n_def Let_def)
    have pk: "(2 :: rat) powi k = 2 ^ 23 * u" "(2 :: rat) powi (k + 1) = 2 ^ 24 * u"
      by (simp_all add: u_def power_int_diff power_int_add)
    have "of_int (2 ^ 23) \<le> t / u" "t / u < of_int (2 ^ 24)"
      using ilog2_bounds [OF t] u pk by (simp_all add: k_def pos_le_divide_eq pos_divide_less_eq)
    from round_even_between [OF this] have "2 ^ 23 \<le> n" "n \<le> 2 ^ 24" by (simp_all add: n_def)
    then have "of_int (2 ^ 23) \<le> (of_int n :: rat)" "(of_int n :: rat) \<le> of_int (2 ^ 24)" unfolding of_int_le_iff .
    then have n: "2 ^ 23 \<le> (of_int n :: rat)" "(of_int n :: rat) \<le> 2 ^ 24" by simp_all
    have "2 powi k \<le> to_float t" unfolding y pk(1) using n(1) u by (intro mult_right_mono) simp_all
    moreover have "to_float t < 2 powi (k + 2)"
    proof -
      have "to_float t \<le> 2 powi (k + 1)" unfolding y pk(2) using n(2) u by (intro mult_right_mono) simp_all
      also have "\<dots> < 2 powi (k + 2)" by (rule powi_less) simp
      finally show ?thesis .
    qed
    ultimately have j: "k \<le> ilog2 (to_float t)" "ilog2 (to_float t) < k + 2" by (rule ilog2_between)+
    have pos: "0 < to_float t" using \<open>2 powi k \<le> to_float t\<close> by (rule less_le_trans [rotated]) simp
    let ?u = "(2 :: rat) powi (ilog2 (to_float t) - 52)" and ?m = "nat (k + 29 - ilog2 (to_float t))"
    have up: "0 < ?u" by simp
    have "u = 2 ^ ?m * ?u"
      using j by (simp add: u_def power_int_of_nat [symmetric] power_int_add [symmetric])
    then have v: "to_float t = of_int (n * 2 ^ ?m) * ?u" using y by (simp only: of_int_mult of_int_power of_int_numeral mult.assoc)
    define v where "v = ?u"
    have "v \<noteq> 0" using up unfolding v_def by simp
    from iffD2 [OF nonzero_divide_eq_eq [OF this] v [folded v_def]] have q: "to_float t / v = of_int (n * 2 ^ ?m)" .
    have "ilog2 \<bar>to_float t\<bar> - int 53 + 1 = ilog2 (to_float t) - 52" using pos by simp
    then have "to_double (to_float t) = of_int (round_even (to_float t / v)) * v"
      using pos by (simp add: to_double_def round_bits_def Let_def v_def)
    also have "\<dots> = to_float t" unfolding q round_even_int using v [folded v_def] by (rule sym)
    finally have "to_double (to_float t) = to_float t" .
    with pos show ?thesis by simp
  qed
  then show "to_double (to_float t) = to_float t" "0 \<le> to_float t" by simp_all
qed

section \<open>The dynamic scheduler\<close>

datatype sim_time = SIM_TIME_ABS | SIM_TIME_REL

record 'e bucket =
  b_time :: rat
  b_events :: "'e gds_fifo"

record 'e sched_dynamic =
  buckets :: "'e bucket list"
  d_time :: rat

definition DYNAMIC_QUEUE_DEPTH :: nat where "DYNAMIC_QUEUE_DEPTH = 40000000"

definition bucket_list_item_cmp :: "'e bucket \<Rightarrow> 'e bucket \<Rightarrow> int" where
  "bucket_list_item_cmp bucket1 bucket2 =
     (if b_time bucket2 < b_time bucket1 then 1 else if b_time bucket2 > b_time bucket1 then -1 else 0)"

definition bucket_create :: "'e fifo_ops \<Rightarrow> rat \<Rightarrow> 'e bucket" where
  "bucket_create ops time = \<lparr>b_time = time, b_events = fifo_create ops DYNAMIC_QUEUE_DEPTH\<rparr>"

definition bucket_push :: "'e fifo_ops \<Rightarrow> 'e bucket \<Rightarrow> 'e \<Rightarrow> 'e bucket option" where
  "bucket_push ops bucket ev =
     (let (result, q) = fifo_push ops (b_events bucket) ev in if result \<ge> 0 then Some (bucket\<lparr>b_events := q\<rparr>) else None)"

text \<open>\<open>list_index_of\<close> of libgds on a sorted list: a result that is negative when no item is equal to the key,
  and the index of the item or of the place where the key belongs.\<close>

type_synonym 'e index_of = "'e bucket list \<Rightarrow> 'e bucket \<Rightarrow> int \<times> nat"

definition insert_at :: "'a list \<Rightarrow> nat \<Rightarrow> 'a \<Rightarrow> 'a list" where
  "insert_at xs i x = take i xs @ x # drop i xs"

definition dynamic_clear :: "'e sched_dynamic \<Rightarrow> 'e sched_dynamic" where
  "dynamic_clear sd = sd\<lparr>buckets := []\<rparr>"

definition dynamic_post ::
    "'e fifo_ops \<Rightarrow> 'e index_of \<Rightarrow> 'e \<Rightarrow> rat \<Rightarrow> sim_time \<Rightarrow> 'e sched_dynamic \<Rightarrow> (int \<times> 'e sched_dynamic) option" where
  "dynamic_post ops index_of ev time time_type sd =
     (let time = (if time_type = SIM_TIME_REL then to_double (d_time sd + time) else time);
          bucket = \<lparr>b_time = time, b_events = \<lparr>current_depth = 0, max_depth = 0, start_index = 0, items = []\<rparr>\<rparr>
      in if time < 0 \<or> time_type = SIM_TIME_ABS \<and> time < d_time sd then None
         else let (result, index) = index_of (buckets sd) bucket;
                  bs = (if result < 0 then insert_at (buckets sd) index (bucket_create ops time) else buckets sd)
              in do {
                b \<leftarrow> bucket_push ops (bs ! index) ev;
                Some (0, sd\<lparr>buckets := bs[index := b]\<rparr>)
              })"

text \<open>What a callback does: the new state and the events it posts.  The result of a callback is ignored.\<close>

type_synonym ('e, 'w) dhandler = "'e \<Rightarrow> 'w \<Rightarrow> ('w \<times> ('e \<times> rat \<times> sim_time) list) option"

fun dynamic_post_all ::
    "'e fifo_ops \<Rightarrow> 'e index_of \<Rightarrow> ('e \<times> rat \<times> sim_time) list \<Rightarrow> 'e sched_dynamic \<Rightarrow> 'e sched_dynamic option" where
  "dynamic_post_all ops index_of [] sd = Some sd"
| "dynamic_post_all ops index_of ((ev, time, time_type) # evs) sd = do {
     (result, sd) \<leftarrow> dynamic_post ops index_of ev time time_type sd;
     if result = 0 then dynamic_post_all ops index_of evs sd else None
   }"

text \<open>The loop over the events of the bucket with time \<open>t\<close>, to which the program keeps a pointer; the first result tells whether
  the number of steps was reached.\<close>

definition bucket_at :: "rat \<Rightarrow> 'e sched_dynamic \<Rightarrow> 'e bucket option" where
  "bucket_at t sd = find (\<lambda>b. b_time b = t) (buckets sd)"

partial_function (option) dynamic_bucket_loop ::
    "'e fifo_ops \<Rightarrow> 'e index_of \<Rightarrow> ('e, 'w) dhandler \<Rightarrow> rat \<Rightarrow> 32 word \<Rightarrow> 'w \<Rightarrow> 'e sched_dynamic
     \<Rightarrow> (bool \<times> 32 word \<times> 'w \<times> 'e sched_dynamic) option" where
  "dynamic_bucket_loop ops index_of h t num_steps w sd = do {
     bucket \<leftarrow> bucket_at t sd;
     if current_depth (b_events bucket) = 0 then Some (False, num_steps, w, sd)
     else do {
       (ev, q) \<leftarrow> fifo_pop ops (b_events bucket);
       let sd = sd\<lparr>buckets := map (\<lambda>b. if b_time b = t then b\<lparr>b_events := q\<rparr> else b) (buckets sd)\<rparr> in do {
         (w, posts) \<leftarrow> h ev w;
         sd \<leftarrow> dynamic_post_all ops index_of posts sd;
         if num_steps > 0 then
           (if num_steps - 1 = 0 then Some (True, 0, w, sd)
            else dynamic_bucket_loop ops index_of h t (num_steps - 1) w sd)
         else dynamic_bucket_loop ops index_of h t num_steps w sd
       }
     }
   }"

partial_function (option) dynamic_run ::
    "'e fifo_ops \<Rightarrow> 'e index_of \<Rightarrow> ('e, 'w) dhandler \<Rightarrow> rat \<Rightarrow> 32 word \<Rightarrow> 'w \<Rightarrow> 'e sched_dynamic
     \<Rightarrow> (int \<times> 'w \<times> 'e sched_dynamic) option" where
  "dynamic_run ops index_of h mt num_steps w sd =
     (case buckets sd of
        [] \<Rightarrow> Some (0, w, sd)
      | bucket # _ \<Rightarrow>
          let sd = sd\<lparr>d_time := to_float (b_time bucket)\<rparr> in
          if mt > 0 \<and> d_time sd \<ge> mt then Some (ESIM_TIME_LIMIT, w, sd)
          else do {
            (stop, num_steps, w, sd) \<leftarrow> dynamic_bucket_loop ops index_of h (b_time bucket) num_steps w sd;
            if stop then Some (ESUCCESS, w, sd)
            else dynamic_run ops index_of h mt num_steps w (sd\<lparr>buckets := tl (buckets sd)\<rparr>)
          })"

definition dynamic_num_events :: "'e sched_dynamic \<Rightarrow> nat" where
  "dynamic_num_events sd = sum_list (map (\<lambda>b. current_depth (b_events b)) (buckets sd))"

fun event_at_loop :: "'e bucket list \<Rightarrow> nat \<Rightarrow> 'e option" where
  "event_at_loop [] index = None"
| "event_at_loop (b # bs) index =
     (if index < current_depth (b_events b) then Some (fifo_list (b_events b) ! index)
      else event_at_loop bs (index - current_depth (b_events b)))"

definition dynamic_event_at :: "'e sched_dynamic \<Rightarrow> nat \<Rightarrow> 'e option" where
  "dynamic_event_at sd index = event_at_loop (buckets sd) index"

definition sched_dynamic_create :: "'e sched_dynamic" where
  "sched_dynamic_create = \<lparr>buckets = [], d_time = 0\<rparr>"

section \<open>Queues of a fixed size\<close>

text \<open>Without the option to grow, \<open>fifo_push\<close> of libgds refuses an item when the queue is full.\<close>

locale gds_bounded_fifo =
  fixes ops :: "'e fifo_ops"
  assumes create: "0 < n \<Longrightarrow> fifo_wf (fifo_create ops n) \<and> fifo_list (fifo_create ops n) = [] \<and> max_depth (fifo_create ops n) = n"
    and push: "fifo_wf q \<Longrightarrow> current_depth q < max_depth q \<Longrightarrow>
      \<exists>q'. fifo_push ops q x = (0, q') \<and> fifo_wf q' \<and> fifo_list q' = fifo_list q @ [x] \<and> max_depth q' = max_depth q"
    and push_full: "fifo_wf q \<Longrightarrow> current_depth q = max_depth q \<Longrightarrow> fst (fifo_push ops q x) < 0"
    and pop: "fifo_wf q \<Longrightarrow> fifo_list q = x # xs \<Longrightarrow>
      \<exists>q'. fifo_pop ops q = Some (x, q') \<and> fifo_wf q' \<and> fifo_list q' = xs \<and> max_depth q' = max_depth q"

definition bounded_ops :: "'e fifo_ops" where
  "bounded_ops = ring_ops\<lparr>fifo_push := \<lambda>q x. if current_depth q = max_depth q then (-1, q) else (0, ring_put q x)\<rparr>"

interpretation bounded: gds_bounded_fifo bounded_ops
proof
  fix n :: nat assume "0 < n"
  then show "fifo_wf (fifo_create bounded_ops n) \<and> fifo_list (fifo_create bounded_ops n) = [] \<and> max_depth (fifo_create bounded_ops n) = n"
    by (simp add: bounded_ops_def ring_ops_def fifo_wf_def fifo_list_def)
next
  fix q :: "'a gds_fifo" and x assume "fifo_wf q" "current_depth q < max_depth q"
  with ring_put_effect [of q x]
  show "\<exists>q'. fifo_push bounded_ops q x = (0, q') \<and> fifo_wf q' \<and> fifo_list q' = fifo_list q @ [x] \<and> max_depth q' = max_depth q"
    by (simp add: bounded_ops_def ring_put_def)
next
  fix q :: "'a gds_fifo" and x :: 'a assume "current_depth q = max_depth q"
  then show "fst (fifo_push bounded_ops q x) < 0" by (simp add: bounded_ops_def)
next
  fix q :: "'a gds_fifo" and x xs assume "fifo_wf q" "fifo_list q = x # xs"
  from ring.pop [OF this] show "\<exists>q'. fifo_pop bounded_ops q = Some (x, q') \<and> fifo_wf q' \<and> fifo_list q' = xs \<and> max_depth q' = max_depth q"
    by (auto simp: bounded_ops_def) (auto simp: ring_ops_def split: if_splits)
qed

section \<open>Posting to the dynamic scheduler\<close>

locale gds_index_of =
  fixes index_of :: "'e index_of"
  assumes found: "strict_sorted_by bucket_list_item_cmp bs \<Longrightarrow> \<exists>b\<in>set bs. b_time b = b_time k \<Longrightarrow>
      \<exists>result i. index_of bs k = (result, i) \<and> result \<ge> 0 \<and> i < length bs \<and> b_time (bs ! i) = b_time k"
    and not_found: "strict_sorted_by bucket_list_item_cmp bs \<Longrightarrow> \<forall>b\<in>set bs. b_time b \<noteq> b_time k \<Longrightarrow>
      \<exists>result i. index_of bs k = (result, i) \<and> result < 0 \<and> i \<le> length bs
        \<and> (\<forall>b\<in>set (take i bs). b_time b < b_time k) \<and> (\<forall>b\<in>set (drop i bs). b_time k < b_time b)"

text \<open>The events of a scheduler by time.\<close>

definition events_at :: "'e sched_dynamic \<Rightarrow> rat \<Rightarrow> 'e list" where
  "events_at sd t = (case bucket_at t sd of None \<Rightarrow> [] | Some b \<Rightarrow> fifo_list (b_events b))"

definition dynamic_ok :: "'e sched_dynamic \<Rightarrow> bool" where
  "dynamic_ok sd \<longleftrightarrow> strict_sorted_by bucket_list_item_cmp (buckets sd)
     \<and> (\<forall>b\<in>set (buckets sd). fifo_wf (b_events b) \<and> max_depth (b_events b) = DYNAMIC_QUEUE_DEPTH)"

lemma sorted_buckets: "strict_sorted_by bucket_list_item_cmp bs \<longleftrightarrow> sorted_wrt (<) (map b_time bs)"
proof -
  have "bucket_list_item_cmp a b < 0 \<longleftrightarrow> b_time a < b_time b" for a b :: "'a bucket"
    by (simp add: bucket_list_item_cmp_def)
  then show ?thesis by (simp add: strict_sorted_by_def sorted_wrt_map)
qed

lemma find_time:
  "sorted_wrt (<) (map b_time bs) \<Longrightarrow> i < length bs \<Longrightarrow> find (\<lambda>b. b_time b = b_time (bs ! i)) bs = Some (bs ! i)"
proof (induction bs arbitrary: i)
  case (Cons b bs)
  show ?case
  proof (cases i)
    case (Suc j)
    then have "b_time (bs ! j) \<in> b_time ` set bs" using Cons.prems(2) by simp
    with Cons.prems(1) have "b_time b \<noteq> b_time (bs ! j)" by auto
    with Suc Cons show ?thesis by simp
  qed simp
qed simp

lemma find_update_time:
  assumes "sorted_wrt (<) (map b_time bs)" "i < length bs" "b_time b = b_time (bs ! i)"
  shows "find (\<lambda>b. b_time b = t) (bs[i := b]) = (if t = b_time b then Some b else find (\<lambda>b. b_time b = t) bs)"
proof -
  have times: "map b_time (bs[i := b]) = map b_time bs" using assms(2,3) by (simp add: map_update list_update_same_conv)
  show ?thesis
  proof (cases "t = b_time b")
    case True
    with find_time [of "bs[i := b]" i] times assms show ?thesis by simp
  next
    case False
    have "find (\<lambda>b. b_time b = t) (bs[i := b]) = find (\<lambda>b. b_time b = t) bs"
      using assms(2,3) False
    proof (induction bs arbitrary: i)
      case (Cons a bs)
      then show ?case by (cases i) auto
    qed simp
    with False show ?thesis by simp
  qed
qed

lemma find_insert_at:
  fixes bs :: "'e bucket list"
  assumes "\<forall>b\<in>set (take i bs). b_time b \<noteq> b_time x"
  shows "find (\<lambda>b. b_time b = t) (insert_at bs i x) = (if t = b_time x then Some x else find (\<lambda>b. b_time b = t) bs)"
proof -
  have app: "find P (xs @ ys) = (case find P xs of None \<Rightarrow> find P ys | Some z \<Rightarrow> Some z)" for P :: "'e bucket \<Rightarrow> bool" and xs ys
    by (induction xs) auto
  have none: "find (\<lambda>b. b_time b = b_time x) (take i bs) = None" using assms by (auto simp: find_None_iff)
  have "find (\<lambda>b. b_time b = t) bs = find (\<lambda>b. b_time b = t) (take i bs @ drop i bs)" by simp
  then have bs: "find (\<lambda>b. b_time b = t) bs
      = (case find (\<lambda>b. b_time b = t) (take i bs) of None \<Rightarrow> find (\<lambda>b. b_time b = t) (drop i bs) | Some z \<Rightarrow> Some z)"
    unfolding app .
  show ?thesis using none by (auto simp: insert_at_def app bs split: option.splits)
qed

lemma sorted_insert_at:
  assumes "sorted_wrt (<) (map b_time bs)" "\<forall>b\<in>set (take i bs). b_time b < b_time x" "\<forall>b\<in>set (drop i bs). b_time x < b_time b"
  shows "sorted_wrt (<) (map b_time (insert_at bs i x))"
proof -
  have "sorted_wrt (<) (map b_time (take i bs @ drop i bs))" using assms(1) by simp
  then have "sorted_wrt (<) (map b_time (take i bs))" "sorted_wrt (<) (map b_time (drop i bs))"
    "\<forall>a\<in>set (take i bs). \<forall>b\<in>set (drop i bs). b_time a < b_time b"
    unfolding map_append sorted_wrt_append by auto
  with assms(2,3) show ?thesis by (auto simp: insert_at_def sorted_wrt_append)
qed

lemma dynamic_push_effect:
  assumes laws: "gds_bounded_fifo ops" and ok: "dynamic_ok (sd\<lparr>buckets := bs\<rparr>)" and i: "i < length bs"
    and room: "current_depth (b_events (bs ! i)) < DYNAMIC_QUEUE_DEPTH"
  obtains b where "bucket_push ops (bs ! i) ev = Some b" "dynamic_ok (sd\<lparr>buckets := bs[i := b]\<rparr>)"
    "map b_time (bs[i := b]) = map b_time bs"
    "\<And>t. events_at (sd\<lparr>buckets := bs[i := b]\<rparr>) t = (if t = b_time (bs ! i) then events_at (sd\<lparr>buckets := bs\<rparr>) t @ [ev]
       else events_at (sd\<lparr>buckets := bs\<rparr>) t)"
proof -
  have srt: "sorted_wrt (<) (map b_time bs)" and wf: "\<forall>b\<in>set bs. fifo_wf (b_events b) \<and> max_depth (b_events b) = DYNAMIC_QUEUE_DEPTH"
    using ok by (simp_all add: dynamic_ok_def sorted_buckets)
  have "fifo_wf (b_events (bs ! i))" "current_depth (b_events (bs ! i)) < max_depth (b_events (bs ! i))" using wf i room by simp_all
  from gds_bounded_fifo.push [OF laws this, of ev] obtain q where q: "fifo_push ops (b_events (bs ! i)) ev = (0, q)" "fifo_wf q"
    "fifo_list q = fifo_list (b_events (bs ! i)) @ [ev]" "max_depth q = max_depth (b_events (bs ! i))" by blast
  let ?b = "(bs ! i)\<lparr>b_events := q\<rparr>"
  have same: "b_time ?b = b_time (bs ! i)" by simp
  have times: "map b_time (bs[i := ?b]) = map b_time bs" using i by (simp add: map_update list_update_same_conv)
  moreover have "\<forall>b\<in>set (bs[i := ?b]). fifo_wf (b_events b) \<and> max_depth (b_events b) = DYNAMIC_QUEUE_DEPTH"
    using wf q(2,4) i set_update_subset_insert [of bs i ?b] by (auto dest!: subsetD)
  ultimately have ok': "dynamic_ok (sd\<lparr>buckets := bs[i := ?b]\<rparr>)" using srt by (simp add: dynamic_ok_def sorted_buckets)
  have "bucket_push ops (bs ! i) ev = Some ?b" using q(1) by (simp add: bucket_push_def)
  then show thesis
  proof (rule that [OF _ ok' times])
    fix t
    show "events_at (sd\<lparr>buckets := bs[i := ?b]\<rparr>) t = (if t = b_time (bs ! i) then events_at (sd\<lparr>buckets := bs\<rparr>) t @ [ev]
       else events_at (sd\<lparr>buckets := bs\<rparr>) t)"
      using find_update_time [OF srt i same, of t] find_time [OF srt i] q(3) by (simp add: events_at_def bucket_at_def)
  qed
qed

text \<open>The place of a new event: the bucket of its time, which is created if there is none.\<close>

lemma dynamic_post_place:
  assumes laws: "gds_bounded_fifo ops" "gds_index_of index_of" and ok: "dynamic_ok sd"
    and time: "time' = (if time_type = SIM_TIME_REL then to_double (d_time sd + time) else time)" "0 \<le> time'"
      "time_type = SIM_TIME_ABS \<Longrightarrow> d_time sd \<le> time'"
  obtains i bs where "i < length bs" "b_time (bs ! i) = time'" "dynamic_ok (sd\<lparr>buckets := bs\<rparr>)"
    "\<And>t. events_at (sd\<lparr>buckets := bs\<rparr>) t = events_at sd t" "set (map b_time bs) = insert time' (set (map b_time (buckets sd)))"
    "\<And>ev. dynamic_post ops index_of ev time time_type sd
       = do { b \<leftarrow> bucket_push ops (bs ! i) ev; Some (0, sd\<lparr>buckets := bs[i := b]\<rparr>) }"
proof -
  let ?bs = "buckets sd" and ?key = "\<lparr>b_time = time', b_events = \<lparr>current_depth = 0, max_depth = 0, start_index = 0, items = []\<rparr>\<rparr>"
  have srt: "strict_sorted_by bucket_list_item_cmp ?bs"
    and wf: "\<forall>b\<in>set ?bs. fifo_wf (b_events b) \<and> max_depth (b_events b) = DYNAMIC_QUEUE_DEPTH"
    using ok by (simp_all add: dynamic_ok_def)
  have past: "\<not> (time' < 0 \<or> time_type = SIM_TIME_ABS \<and> time' < d_time sd)" using time(2,3) by auto
  have post: "dynamic_post ops index_of ev time time_type sd
       = do { b \<leftarrow> bucket_push ops (bs ! i) ev; Some (0, sd\<lparr>buckets := bs[i := b]\<rparr>) }"
    if idx: "index_of ?bs ?key = (result, i)" "bs = (if result < 0 then insert_at ?bs i (bucket_create ops time') else ?bs)" for result i bs ev
    unfolding dynamic_post_def Let_def time(1) [symmetric] idx(1) prod.case idx(2) [symmetric] if_not_P [OF past] by simp
  show thesis
  proof (cases "\<exists>b\<in>set ?bs. b_time b = time'")
    case True
    with gds_index_of.found [OF laws(2) srt, of ?key] obtain result i where
      i: "index_of ?bs ?key = (result, i)" "result \<ge> 0" "i < length ?bs" "b_time (?bs ! i) = time'" by auto
    have "set (map b_time ?bs) = insert time' (set (map b_time ?bs))" using True by auto
    from that [OF i(3,4) _ _ this post [OF i(1)]] i(2) ok show thesis by simp
  next
    case False
    with gds_index_of.not_found [OF laws(2) srt, of ?key] obtain result i where r: "index_of ?bs ?key = (result, i)" "result < 0" "i \<le> length ?bs"
      "\<forall>b\<in>set (take i ?bs). b_time b < time'" "\<forall>b\<in>set (drop i ?bs). time' < b_time b" by auto
    let ?b = "bucket_create ops time'" and ?bs' = "insert_at ?bs i (bucket_create ops time')"
    have new: "fifo_wf (b_events ?b)" "fifo_list (b_events ?b) = []" "b_time ?b = time'" "max_depth (b_events ?b) = DYNAMIC_QUEUE_DEPTH"
      using gds_bounded_fifo.create [OF laws(1), of DYNAMIC_QUEUE_DEPTH] by (simp_all add: bucket_create_def DYNAMIC_QUEUE_DEPTH_def)
    have find: "find (\<lambda>b. b_time b = t) ?bs' = (if t = time' then Some ?b else find (\<lambda>b. b_time b = t) ?bs)" for t
      using find_insert_at [of i ?bs ?b t] r(4) new(3) by (metis less_irrefl)
    have "find (\<lambda>b. b_time b = time') ?bs = None" using False by (auto simp: find_None_iff)
    then have ev: "events_at (sd\<lparr>buckets := ?bs'\<rparr>) t = events_at sd t" for t
      using find [of t] new(2) by (simp add: events_at_def bucket_at_def)
    have "sorted_wrt (<) (map b_time ?bs')"
      by (rule sorted_insert_at) (use srt r(4,5) new(3) in \<open>simp_all add: sorted_buckets\<close>)
    then have ok': "dynamic_ok (sd\<lparr>buckets := ?bs'\<rparr>)"
      using wf new(1,4) by (auto simp: dynamic_ok_def sorted_buckets insert_at_def dest: in_set_takeD in_set_dropD)
    have i: "i < length ?bs'" "b_time (?bs' ! i) = time'" using r(3) new(3) by (simp_all add: insert_at_def nth_append)
    have "set ?bs = set (take i ?bs) \<union> set (drop i ?bs)" by (metis append_take_drop_id set_append)
    then have "set (map b_time ?bs') = insert time' (set (map b_time ?bs))" using new(3) by (simp add: insert_at_def image_Un)
    from that [OF i ok' ev this post [OF r(1)]] r(2) show thesis by simp
  qed
qed

lemma dynamic_post_effect:
  assumes laws: "gds_bounded_fifo ops" "gds_index_of index_of" and ok: "dynamic_ok sd"
    and time: "time' = (if time_type = SIM_TIME_REL then to_double (d_time sd + time) else time)" "0 \<le> time'"
      "time_type = SIM_TIME_ABS \<Longrightarrow> d_time sd \<le> time'"
    and room: "length (events_at sd time') < DYNAMIC_QUEUE_DEPTH"
  obtains sd' where "dynamic_post ops index_of ev time time_type sd = Some (0, sd')" "dynamic_ok sd'" "d_time sd' = d_time sd"
    "\<And>t. events_at sd' t = (if t = time' then events_at sd t @ [ev] else events_at sd t)"
    "set (map b_time (buckets sd')) = insert time' (set (map b_time (buckets sd)))"
proof (rule dynamic_post_place [OF laws ok time], assumption)
  fix i bs
  assume i: "i < length bs" "b_time (bs ! i) = time'" and bs: "dynamic_ok (sd\<lparr>buckets := bs\<rparr>)"
    and ev: "\<And>t. events_at (sd\<lparr>buckets := bs\<rparr>) t = events_at sd t"
    and times: "set (map b_time bs) = insert time' (set (map b_time (buckets sd)))"
    and post: "\<And>ev. dynamic_post ops index_of ev time time_type sd
       = do { b \<leftarrow> bucket_push ops (bs ! i) ev; Some (0, sd\<lparr>buckets := bs[i := b]\<rparr>) }"
  have "events_at (sd\<lparr>buckets := bs\<rparr>) time' = fifo_list (b_events (bs ! i))"
    using find_time [OF _ i(1)] bs i(2) by (simp add: events_at_def bucket_at_def dynamic_ok_def sorted_buckets)
  then have "current_depth (b_events (bs ! i)) < DYNAMIC_QUEUE_DEPTH" using room ev [of time'] by (metis fifo_list_length)
  then obtain b where b: "bucket_push ops (bs ! i) ev = Some b" "dynamic_ok (sd\<lparr>buckets := bs[i := b]\<rparr>)" "map b_time (bs[i := b]) = map b_time bs"
    "\<And>t. events_at (sd\<lparr>buckets := bs[i := b]\<rparr>) t = (if t = b_time (bs ! i) then events_at (sd\<lparr>buckets := bs\<rparr>) t @ [ev]
       else events_at (sd\<lparr>buckets := bs\<rparr>) t)" by (rule dynamic_push_effect [OF laws(1) bs i(1), of ev]) (rule that)
  have "dynamic_post ops index_of ev time time_type sd = Some (0, sd\<lparr>buckets := bs[i := b]\<rparr>)" by (simp add: post b(1))
  have times': "set (map b_time (bs[i := b])) = insert time' (set (map b_time (buckets sd)))" using times b(3) by metis
  note post' = \<open>dynamic_post ops index_of ev time time_type sd = Some (0, sd\<lparr>buckets := bs[i := b]\<rparr>)\<close>
  show thesis
  proof (rule that [OF post' b(2)])
    show "set (map b_time (buckets (sd\<lparr>buckets := bs[i := b]\<rparr>))) = insert time' (set (map b_time (buckets sd)))"
      by (simp add: times' [simplified] del: map_update)
  qed (simp_all add: b(4) i(2) ev)
qed

lemma dynamic_post_full:
  assumes laws: "gds_bounded_fifo ops" "gds_index_of index_of" and ok: "dynamic_ok sd"
    and time: "time' = (if time_type = SIM_TIME_REL then to_double (d_time sd + time) else time)" "0 \<le> time'"
      "time_type = SIM_TIME_ABS \<Longrightarrow> d_time sd \<le> time'"
    and full: "length (events_at sd time') = DYNAMIC_QUEUE_DEPTH"
  shows "dynamic_post ops index_of ev time time_type sd = None"
proof (rule dynamic_post_place [OF laws ok time], assumption)
  fix i bs
  assume i: "i < length bs" "b_time (bs ! i) = time'" and bs: "dynamic_ok (sd\<lparr>buckets := bs\<rparr>)"
    and ev: "\<And>t. events_at (sd\<lparr>buckets := bs\<rparr>) t = events_at sd t"
    and post: "\<And>ev. dynamic_post ops index_of ev time time_type sd
       = do { b \<leftarrow> bucket_push ops (bs ! i) ev; Some (0, sd\<lparr>buckets := bs[i := b]\<rparr>) }"
  have wf: "fifo_wf (b_events (bs ! i))" "max_depth (b_events (bs ! i)) = DYNAMIC_QUEUE_DEPTH" using bs i(1) by (simp_all add: dynamic_ok_def)
  have "events_at (sd\<lparr>buckets := bs\<rparr>) time' = fifo_list (b_events (bs ! i))"
    using find_time [OF _ i(1)] bs i(2) by (simp add: events_at_def bucket_at_def dynamic_ok_def sorted_buckets)
  then have "current_depth (b_events (bs ! i)) = max_depth (b_events (bs ! i))" using full ev [of time'] wf(2) by (metis fifo_list_length)
  from gds_bounded_fifo.push_full [OF laws(1) wf(1) this, of ev] have "bucket_push ops (bs ! i) ev = None"
    by (auto simp: bucket_push_def Let_def split: prod.splits)
  then show ?thesis by (simp add: post)
qed

lemma events_at_depth: "dynamic_ok sd \<Longrightarrow> length (events_at sd t) \<le> DYNAMIC_QUEUE_DEPTH"
  by (auto simp: events_at_def bucket_at_def dynamic_ok_def fifo_wf_def find_Some_iff split: option.split) (metis nth_mem)

section \<open>Runs of the dynamic scheduler\<close>

lemma bucket_at_iff: "dynamic_ok sd \<Longrightarrow> bucket_at t sd \<noteq> None \<longleftrightarrow> t \<in> set (map b_time (buckets sd))"
  by (auto simp: bucket_at_def find_None_iff)

lemma bucket_loop_empty:
  assumes "dynamic_ok sd" "t \<in> set (map b_time (buckets sd))" "events_at sd t = []"
  shows "dynamic_bucket_loop ops index_of h t n w sd = Some (False, n, w, sd)"
proof -
  obtain b where b: "bucket_at t sd = Some b" using bucket_at_iff [OF assms(1), of t] assms(2) by blast
  then have "current_depth (b_events b) = 0" using assms(3) by (metis events_at_def fifo_list_length list.size(3) option.case(2))
  with b show ?thesis by (subst dynamic_bucket_loop.simps) simp
qed

lemma bucket_loop_step:
  assumes laws: "gds_bounded_fifo ops" and ok: "dynamic_ok sd" and evs: "events_at sd t = ev # evs" and h: "h ev w = Some (w', posts)"
  obtains sd' where "dynamic_ok sd'" "map b_time (buckets sd') = map b_time (buckets sd)" "d_time sd' = d_time sd"
    "\<And>u. events_at sd' u = (if u = t then evs else events_at sd u)"
    "dynamic_bucket_loop ops index_of h t 0 w sd = do {
       sd \<leftarrow> dynamic_post_all ops index_of posts sd';
       dynamic_bucket_loop ops index_of h t 0 w' sd }"
proof -
  obtain b where b: "bucket_at t sd = Some b" "fifo_list (b_events b) = ev # evs"
    using evs by (auto simp: events_at_def split: option.splits)
  then have "b \<in> set (buckets sd)" "b_time b = t" by (auto simp: bucket_at_def find_Some_iff)
  then have wf: "fifo_wf (b_events b)" "max_depth (b_events b) = DYNAMIC_QUEUE_DEPTH" using ok by (simp_all add: dynamic_ok_def)
  obtain q where q: "fifo_pop ops (b_events b) = Some (ev, q)" "fifo_wf q" "fifo_list q = evs" "max_depth q = DYNAMIC_QUEUE_DEPTH"
    using gds_bounded_fifo.pop [OF laws wf(1) b(2)] wf(2) by auto
  have depth: "current_depth (b_events b) \<noteq> 0" using b(2) fifo_list_length [of "b_events b"] by auto
  let ?f = "\<lambda>b. if b_time b = t then b\<lparr>b_events := q\<rparr> else b"
  let ?sd = "sd\<lparr>buckets := map ?f (buckets sd)\<rparr>"
  have same: "b_time (?f c) = b_time c" for c :: "'a bucket" by simp
  have times: "map b_time (buckets ?sd) = map b_time (buckets sd)" by (auto simp: same)
  have "dynamic_ok ?sd" using ok q(2,4) times by (auto simp: dynamic_ok_def sorted_buckets simp del: map_map)
  moreover have "find (\<lambda>b. b_time b = u) (map ?f bs) = map_option ?f (find (\<lambda>b. b_time b = u) bs)" for u bs by (induction bs) auto
  then have at: "bucket_at u ?sd = map_option ?f (bucket_at u sd)" for u by (simp add: bucket_at_def)
  have "events_at ?sd u = (if u = t then evs else events_at sd u)" for u
  proof (cases "bucket_at u sd")
    case None
    then show ?thesis using at [of u] b(1) by (auto simp: events_at_def)
  next
    case (Some c)
    then have "b_time c = u" by (auto simp: bucket_at_def find_Some_iff)
    then show ?thesis using Some at [of u] q(3) by (simp add: events_at_def)
  qed
  moreover have "dynamic_bucket_loop ops index_of h t 0 w sd = do {
       sd \<leftarrow> dynamic_post_all ops index_of posts ?sd;
       dynamic_bucket_loop ops index_of h t 0 w' sd }"
    using b(1) depth q(1) h by (subst dynamic_bucket_loop.simps) (simp add: Let_def)
  ultimately show thesis using times by (intro that [of ?sd]) simp_all
qed

lemma dynamic_run_bucket:
  assumes "map b_time (buckets sd) = t # ts"
    "dynamic_bucket_loop ops index_of h t 0 w (sd\<lparr>d_time := to_float t\<rparr>) = Some (False, 0, w', sd')"
  shows "dynamic_run ops index_of h 0 0 w sd = dynamic_run ops index_of h 0 0 w' (sd'\<lparr>buckets := tl (buckets sd')\<rparr>)"
proof -
  obtain b bs where "buckets sd = b # bs" "b_time b = t" using assms(1) by auto
  then show ?thesis using assms(2) by (subst dynamic_run.simps) (simp add: Let_def)
qed

text \<open>The rest of the buckets, after the first one.\<close>

lemma dynamic_ok_tl:
  assumes "dynamic_ok sd" "map b_time (buckets sd) = t # ts"
  shows "dynamic_ok (sd\<lparr>buckets := tl (buckets sd)\<rparr>)" "map b_time (buckets (sd\<lparr>buckets := tl (buckets sd)\<rparr>)) = ts"
    "u \<in> set ts \<Longrightarrow> events_at (sd\<lparr>buckets := tl (buckets sd)\<rparr>) u = events_at sd u"
proof -
  obtain b bs where bs: "buckets sd = b # bs" "b_time b = t" "map b_time bs = ts" using assms(2) by auto
  then show "dynamic_ok (sd\<lparr>buckets := tl (buckets sd)\<rparr>)" "map b_time (buckets (sd\<lparr>buckets := tl (buckets sd)\<rparr>)) = ts"
    using assms(1) by (simp_all add: dynamic_ok_def sorted_buckets)
  assume u: "u \<in> set ts"
  then have "u \<noteq> t" using assms(1) bs by (auto simp: dynamic_ok_def sorted_buckets)
  then show "events_at (sd\<lparr>buckets := tl (buckets sd)\<rparr>) u = events_at sd u" using bs by (simp add: events_at_def bucket_at_def)
qed

lemma events_at_time [simp]: "events_at (sd\<lparr>d_time := t\<rparr>) u = events_at sd u" "dynamic_ok (sd\<lparr>d_time := t\<rparr>) = dynamic_ok sd"
  by (simp_all add: events_at_def bucket_at_def dynamic_ok_def)

text \<open>A last bucket that is empty, or has one event that posts nothing.\<close>

lemma dynamic_run_last:
  assumes laws: "gds_bounded_fifo ops" and ok: "dynamic_ok sd" and ts: "map b_time (buckets sd) = [t]"
  shows "events_at sd t = [] \<Longrightarrow> \<exists>sd'. dynamic_run ops index_of h 0 0 w sd = Some (0, w, sd') \<and> buckets sd' = []"
    and "events_at sd t = [ev] \<Longrightarrow> h ev w = Some (w', []) \<Longrightarrow>
      \<exists>sd'. dynamic_run ops index_of h 0 0 w sd = Some (0, w', sd') \<and> buckets sd' = []"
proof -
  let ?sd = "sd\<lparr>d_time := to_float t\<rparr>"
  have stop: "\<exists>sd''. dynamic_run ops index_of h 0 0 w'' (sd'\<lparr>buckets := tl (buckets sd')\<rparr>) = Some (0, w'', sd'') \<and> buckets sd'' = []"
    if "map b_time (buckets sd') = [t]" for w'' and sd' :: "'a sched_dynamic"
  proof -
    have "buckets (sd'\<lparr>buckets := tl (buckets sd')\<rparr>) = []" using that by auto
    then show ?thesis by (subst dynamic_run.simps) simp
  qed
  have in_ts: "t \<in> set (map b_time (buckets ?sd))" using ts by simp
  show "\<exists>sd'. dynamic_run ops index_of h 0 0 w sd = Some (0, w, sd') \<and> buckets sd' = []" if e: "events_at sd t = []"
  proof -
    have "dynamic_bucket_loop ops index_of h t 0 w ?sd = Some (False, 0, w, ?sd)"
      by (rule bucket_loop_empty [OF _ in_ts]) (use ok e in simp_all)
    from dynamic_run_bucket [OF ts this] stop [of ?sd w] ts show ?thesis by simp
  qed
  assume e: "events_at sd t = [ev]" and h: "h ev w = Some (w', [])"
  have ok': "dynamic_ok ?sd" and e': "events_at ?sd t = [ev]" using ok e by simp_all
  obtain sd' where s: "dynamic_ok sd'" "map b_time (buckets sd') = map b_time (buckets ?sd)" "\<And>u. events_at sd' u = (if u = t then [] else events_at ?sd u)"
    "dynamic_bucket_loop ops index_of h t 0 w ?sd = do { sd \<leftarrow> dynamic_post_all ops index_of [] sd'; dynamic_bucket_loop ops index_of h t 0 w' sd }"
    by (rule bucket_loop_step [where h = h, OF laws ok' e' h, of index_of]) (rule that)
  have "dynamic_bucket_loop ops index_of h t 0 w' sd' = Some (False, 0, w', sd')"
    by (rule bucket_loop_empty [OF s(1)]) (use s(2,3) ts in simp_all)
  with s(4) have "dynamic_bucket_loop ops index_of h t 0 w ?sd = Some (False, 0, w', sd')" by simp
  from dynamic_run_bucket [OF ts this] stop [of sd' w'] s(2) ts
  show "\<exists>sd'. dynamic_run ops index_of h 0 0 w sd = Some (0, w', sd') \<and> buckets sd' = []" by simp
qed

section \<open>Properties of the dynamic scheduler\<close>

text \<open>A linear search is an instance of \<open>list_index_of\<close>.\<close>

fun bucket_search :: "nat \<Rightarrow> 'e bucket list \<Rightarrow> 'e bucket \<Rightarrow> int \<times> nat" where
  "bucket_search n [] k = (-1, n)"
| "bucket_search n (b # bs) k =
     (if bucket_list_item_cmp b k = 0 then (0, n)
      else if bucket_list_item_cmp b k > 0 then (-1, n)
      else bucket_search (Suc n) bs k)"

lemma bucket_cmp [simp]:
  "bucket_list_item_cmp a b = 0 \<longleftrightarrow> b_time a = b_time b" "bucket_list_item_cmp a b > 0 \<longleftrightarrow> b_time b < b_time a"
  by (simp_all add: bucket_list_item_cmp_def)

lemma bucket_search_found:
  "sorted_wrt (<) (map b_time bs) \<Longrightarrow> \<exists>b\<in>set bs. b_time b = b_time k \<Longrightarrow>
    \<exists>i. bucket_search n bs k = (0, n + i) \<and> i < length bs \<and> b_time (bs ! i) = b_time k"
proof (induction bs arbitrary: n)
  case (Cons b bs)
  show ?case
  proof (cases "b_time b = b_time k")
    case True
    then show ?thesis by (intro exI [of _ 0]) simp
  next
    case False
    then obtain c where c: "c \<in> set bs" "b_time c = b_time k" using Cons.prems(2) by auto
    then have "b_time b < b_time k" using Cons.prems(1) by auto
    moreover obtain i where "bucket_search (Suc n) bs k = (0, Suc n + i)" "i < length bs" "b_time (bs ! i) = b_time k"
      using Cons.IH [of "Suc n"] Cons.prems(1) c by auto
    ultimately show ?thesis using False by (intro exI [of _ "Suc i"]) simp
  qed
qed simp

lemma bucket_search_not_found:
  "sorted_wrt (<) (map b_time bs) \<Longrightarrow> \<forall>b\<in>set bs. b_time b \<noteq> b_time k \<Longrightarrow>
    \<exists>i. bucket_search n bs k = (-1, n + i) \<and> i \<le> length bs
      \<and> (\<forall>b\<in>set (take i bs). b_time b < b_time k) \<and> (\<forall>b\<in>set (drop i bs). b_time k < b_time b)"
proof (induction bs arbitrary: n)
  case (Cons b bs)
  show ?case
  proof (cases "b_time k < b_time b")
    case True
    with Cons.prems show ?thesis by (intro exI [of _ 0]) auto
  next
    case False
    with Cons.prems(2) have "b_time b < b_time k" by auto
    moreover obtain i where "bucket_search (Suc n) bs k = (-1, Suc n + i)" "i \<le> length bs"
      "\<forall>b\<in>set (take i bs). b_time b < b_time k" "\<forall>b\<in>set (drop i bs). b_time k < b_time b"
      using Cons.IH [of "Suc n"] Cons.prems by auto
    ultimately show ?thesis by (intro exI [of _ "Suc i"]) simp
  qed
qed simp

interpretation search: gds_index_of "bucket_search 0"
proof
  fix bs :: "'a bucket list" and k
  assume s: "strict_sorted_by bucket_list_item_cmp bs"
  show "\<exists>b\<in>set bs. b_time b = b_time k \<Longrightarrow>
      \<exists>result i. bucket_search 0 bs k = (result, i) \<and> result \<ge> 0 \<and> i < length bs \<and> b_time (bs ! i) = b_time k"
    using bucket_search_found [of bs k 0] s by (auto simp: sorted_buckets)
  show "\<forall>b\<in>set bs. b_time b \<noteq> b_time k \<Longrightarrow>
      \<exists>result i. bucket_search 0 bs k = (result, i) \<and> result < 0 \<and> i \<le> length bs
        \<and> (\<forall>b\<in>set (take i bs). b_time b < b_time k) \<and> (\<forall>b\<in>set (drop i bs). b_time k < b_time b)"
    using bucket_search_not_found [of bs k 0] s by (auto simp: sorted_buckets)
qed

text \<open>C30: Posting to the dynamic scheduler: an event in the past, and an event for a time that has already 40000000 events, stop
  the program; every other is added after the events with the same time, no other time is affected, and the buckets
  stay ordered by time, one for each time.  The time of a relative event is the sum with the current time, rounded to a double.\<close>

theorem dynamic_post_correct:
  assumes "gds_bounded_fifo ops" "gds_index_of index_of" "dynamic_ok sd"
    and "time' = (if time_type = SIM_TIME_REL then to_double (d_time sd + time) else time)"
  shows "if time' < 0 \<or> time_type = SIM_TIME_ABS \<and> time' < d_time sd \<or> length (events_at sd time') = DYNAMIC_QUEUE_DEPTH
    then dynamic_post ops index_of ev time time_type sd = None
    else \<exists>sd'. dynamic_post ops index_of ev time time_type sd = Some (0, sd') \<and> dynamic_ok sd' \<and> d_time sd' = d_time sd
      \<and> (\<forall>t. events_at sd' t = (if t = time' then events_at sd t @ [ev] else events_at sd t))"
proof (cases "time' < 0 \<or> time_type = SIM_TIME_ABS \<and> time' < d_time sd")
  case True
  then show ?thesis using assms(4) by (auto simp: dynamic_post_def Let_def)
next
  case False
  then have t: "0 \<le> time'" "time_type = SIM_TIME_ABS \<Longrightarrow> d_time sd \<le> time'" by auto
  show ?thesis
  proof (cases "length (events_at sd time') = DYNAMIC_QUEUE_DEPTH")
    case True
    then show ?thesis using dynamic_post_full [OF assms t(1)] t(2) by simp
  next
    case full: False
    then have "length (events_at sd time') < DYNAMIC_QUEUE_DEPTH" using events_at_depth [OF assms(3), of time'] by simp
    from dynamic_post_effect [OF assms t this, of ev]
    obtain sd' where "dynamic_post ops index_of ev time time_type sd = Some (0, sd')" "dynamic_ok sd'" "d_time sd' = d_time sd"
      "\<And>t. events_at sd' t = (if t = time' then events_at sd t @ [ev] else events_at sd t)" by metis
    with False full show ?thesis by auto
  qed
qed

theorem dynamic_post_correct_witness:
  "\<exists>sd'. dynamic_post bounded_ops (bucket_search 0) (5 :: nat) 3 SIM_TIME_ABS sched_dynamic_create = Some (0, sd')
     \<and> events_at sd' 3 = [5] \<and> dynamic_ok sd'"
proof -
  have "dynamic_ok (sched_dynamic_create :: nat sched_dynamic)" by (simp add: dynamic_ok_def sched_dynamic_create_def strict_sorted_by_def)
  from dynamic_post_correct [OF bounded.gds_bounded_fifo_axioms search.gds_index_of_axioms this refl, of SIM_TIME_ABS 3 5]
  show ?thesis by (auto simp: sched_dynamic_create_def events_at_def bucket_at_def DYNAMIC_QUEUE_DEPTH_def)
qed

text \<open>The only event, at time \<open>t\<close>, posts another one for the current time: the queue of the current bucket is left empty or has the new event.\<close>

lemma repost_effect:
  assumes "gds_bounded_fifo ops" "gds_index_of index_of" "dynamic_ok sd" "map b_time (buckets sd) = [t]" "events_at sd t = [ev]" "0 \<le> t"
    and "h ev w = Some (w', [(ev', 0, SIM_TIME_REL)])"
  obtains s2 where "dynamic_bucket_loop ops index_of h t 0 w (sd\<lparr>d_time := to_float t\<rparr>) = dynamic_bucket_loop ops index_of h t 0 w' s2"
    "dynamic_ok s2" "\<And>u. events_at s2 u = (if u = to_float t then [ev'] else [])" "set (map b_time (buckets s2)) = {to_float t, t}"
proof -
  let ?f = "to_float t" and ?sd = "sd\<lparr>d_time := to_float t\<rparr>"
  note laws = assms(1,2)
  have ok: "dynamic_ok ?sd" and e: "events_at ?sd t = [ev]" using assms(3,5) by simp_all
  obtain s1 where s1: "dynamic_ok s1" "map b_time (buckets s1) = map b_time (buckets ?sd)" "d_time s1 = d_time ?sd"
    "\<And>u. events_at s1 u = (if u = t then [] else events_at ?sd u)"
    "dynamic_bucket_loop ops index_of h t 0 w ?sd = do { sd \<leftarrow> dynamic_post_all ops index_of [(ev', 0, SIM_TIME_REL)] s1;
       dynamic_bucket_loop ops index_of h t 0 w' sd }"
    by (rule bucket_loop_step [where h = h, OF laws(1) ok e assms(7), of index_of]) (rule that)
  have ts1: "map b_time (buckets s1) = [t]" using s1(2) assms(4) by simp
  have time: "?f = (if SIM_TIME_REL = SIM_TIME_REL then to_double (d_time s1 + 0) else 0)" "0 \<le> ?f" "SIM_TIME_REL = SIM_TIME_ABS \<Longrightarrow> d_time s1 \<le> ?f"
    using float_is_double [OF assms(6)] s1(3) by simp_all
  have none: "events_at s1 u = []" for u
  proof (cases "u = t")
    case False
    then have "bucket_at u sd = None" using bucket_at_iff [OF assms(3), of u] assms(4) by auto
    then have "events_at sd u = []" by (simp add: events_at_def)
    with False show ?thesis by (simp add: s1(4))
  qed (simp add: s1(4))
  have room: "length (events_at s1 ?f) < DYNAMIC_QUEUE_DEPTH" by (simp add: none DYNAMIC_QUEUE_DEPTH_def)
  obtain s2 where s2: "dynamic_post ops index_of ev' 0 SIM_TIME_REL s1 = Some (0, s2)" "dynamic_ok s2"
    "\<And>u. events_at s2 u = (if u = ?f then events_at s1 u @ [ev'] else events_at s1 u)"
    "set (map b_time (buckets s2)) = insert ?f (set (map b_time (buckets s1)))"
    using dynamic_post_effect [OF laws s1(1) time room, of ev'] by metis
  have loop: "dynamic_bucket_loop ops index_of h t 0 w ?sd = dynamic_bucket_loop ops index_of h t 0 w' s2" by (simp add: s1(5) s2(1))
  show thesis by (rule that [OF loop s2(2)]) (use s2(3,4) ts1 none in simp_all)
qed

text \<open>C31: The dynamic scheduler loses events.  The current time is a \<open>float\<close>, the time of a bucket a \<open>double\<close>.  Let an event be
  the only one, at the time \<open>t\<close>, and let its callback post an event for the current time.  When the conversion to \<open>float\<close>
  rounds \<open>t\<close> down, the new event goes into a new bucket before the current one; when the current bucket is empty, the first bucket is
  removed, which is the new one, and the new event is never handled.  When \<open>t\<close> is a \<open>float\<close>, or is rounded up, the new event is
  handled.  The limits of the exponent of a \<open>float\<close> are left aside.\<close>

theorem dynamic_run_loses_event:
  assumes "gds_bounded_fifo ops" "gds_index_of index_of" "dynamic_ok sd" "map b_time (buckets sd) = [t]" "events_at sd t = [ev]" "0 \<le> t"
    and "h ev w = Some (w', [(ev', 0, SIM_TIME_REL)])" "h ev' w' = Some (w'', [])"
  shows "\<exists>sd'. dynamic_run ops index_of h 0 0 w sd = Some (0, if to_float t < t then w' else w'', sd') \<and> buckets sd' = []"
proof -
  let ?f = "to_float t"
  note laws = assms(1,2)
  obtain s2 where s2: "dynamic_bucket_loop ops index_of h t 0 w (sd\<lparr>d_time := ?f\<rparr>) = dynamic_bucket_loop ops index_of h t 0 w' s2"
    "dynamic_ok s2" "\<And>u. events_at s2 u = (if u = ?f then [ev'] else [])" "set (map b_time (buckets s2)) = {?f, t}"
    by (rule repost_effect [where h = h, OF assms(1-7)]) (rule that)
  have srt: "sorted_wrt (<) (map b_time (buckets s2))" using s2(2) by (simp add: dynamic_ok_def sorted_buckets)
  note set2 = s2(4) and loop = s2(1)
  have times: "map b_time (buckets s2) = ts" if "sorted_wrt (<) ts" "set ts = {?f, t}" for ts
    using strict_sorted_equal [OF srt that(1)] set2 that(2) by simp
  consider (down) "?f < t" | (same) "?f = t" | (up) "t < ?f" by linarith
  then show ?thesis
  proof cases
    case down
    then have ts: "map b_time (buckets s2) = [?f, t]" by (intro times) auto
    have "dynamic_bucket_loop ops index_of h t 0 w' s2 = Some (False, 0, w', s2)"
      by (rule bucket_loop_empty [OF s2(2)]) (use set2 down in \<open>simp_all add: s2(3)\<close>)
    then have run: "dynamic_run ops index_of h 0 0 w sd = dynamic_run ops index_of h 0 0 w' (s2\<lparr>buckets := tl (buckets s2)\<rparr>)"
      using dynamic_run_bucket [OF assms(4)] loop by simp
    note tl = dynamic_ok_tl [OF s2(2) ts]
    have "events_at (s2\<lparr>buckets := tl (buckets s2)\<rparr>) t = []" using tl(3) [of t] down by (simp add: s2(3))
    from dynamic_run_last(1) [OF laws(1) tl(1,2) this, of index_of h w'] run down show ?thesis by simp
  next
    case same
    then have ts: "map b_time (buckets s2) = [t]" by (intro times) auto
    have e2: "events_at s2 t = [ev']" using same by (simp add: s2(3))
    obtain s3 where s3: "dynamic_ok s3" "map b_time (buckets s3) = map b_time (buckets s2)" "\<And>u. events_at s3 u = (if u = t then [] else events_at s2 u)"
      "dynamic_bucket_loop ops index_of h t 0 w' s2 = do { sd \<leftarrow> dynamic_post_all ops index_of [] s3; dynamic_bucket_loop ops index_of h t 0 w'' sd }"
      by (rule bucket_loop_step [where h = h, OF laws(1) s2(2) e2 assms(8), of index_of]) (rule that)
    have "dynamic_bucket_loop ops index_of h t 0 w'' s3 = Some (False, 0, w'', s3)"
      by (rule bucket_loop_empty [OF s3(1)]) (use s3(2,3) ts in simp_all)
    then have run: "dynamic_run ops index_of h 0 0 w sd = dynamic_run ops index_of h 0 0 w'' (s3\<lparr>buckets := tl (buckets s3)\<rparr>)"
      using dynamic_run_bucket [OF assms(4)] loop s3(4) by simp
    have "buckets (s3\<lparr>buckets := tl (buckets s3)\<rparr>) = []" using s3(2) ts by auto
    then show ?thesis using run same by (subst (asm) (2) dynamic_run.simps) simp
  next
    case up
    then have ts: "map b_time (buckets s2) = [t, ?f]" by (intro times) auto
    have "dynamic_bucket_loop ops index_of h t 0 w' s2 = Some (False, 0, w', s2)"
      by (rule bucket_loop_empty [OF s2(2)]) (use set2 up in \<open>simp_all add: s2(3)\<close>)
    then have run: "dynamic_run ops index_of h 0 0 w sd = dynamic_run ops index_of h 0 0 w' (s2\<lparr>buckets := tl (buckets s2)\<rparr>)"
      using dynamic_run_bucket [OF assms(4)] loop by simp
    note tl = dynamic_ok_tl [OF s2(2) ts]
    have "events_at (s2\<lparr>buckets := tl (buckets s2)\<rparr>) ?f = [ev']" using tl(3) [of ?f] up by (simp add: s2(3))
    from dynamic_run_last(2) [where h = h, OF laws(1) tl(1,2) this assms(8), of index_of] run up show ?thesis by simp
  qed
qed

lemma to_float_late: "to_float 16777217 = 16777216" "to_float 16777216 = 16777216"
proof -
  have "ilog2 16777217 = 24" "ilog2 16777216 = 24"
    using ilog2_between [of 24 16777217 25] ilog2_between [of 24 16777216 25] by simp_all
  moreover have "\<lfloor>16777217 / 2 :: rat\<rfloor> = 8388608" by (simp add: floor_eq_iff)
  ultimately show "to_float 16777217 = 16777216" "to_float 16777216 = 16777216"
    by (simp_all add: to_float_def round_bits_def round_even_def Let_def)
qed

text \<open>The event 0 posts the event 1 for the current time.\<close>

definition now_handler :: "(nat, nat list) dhandler" where
  "now_handler ev seen = Some (seen @ [ev], if ev = 0 then [(1, 0, SIM_TIME_REL)] else [])"

theorem dynamic_run_loses_event_witness:
  "\<exists>sd sd'. dynamic_post bounded_ops (bucket_search 0) 0 16777217 SIM_TIME_ABS sched_dynamic_create = Some (0, sd)
     \<and> dynamic_run bounded_ops (bucket_search 0) now_handler 0 0 [] sd = Some (0, [0], sd') \<and> buckets sd' = []"
proof -
  have ok: "dynamic_ok (sched_dynamic_create :: nat sched_dynamic)" by (simp add: dynamic_ok_def sched_dynamic_create_def strict_sorted_by_def)
  have e: "events_at sched_dynamic_create u = ([] :: nat list)" for u by (simp add: events_at_def bucket_at_def sched_dynamic_create_def)
  obtain sd where sd: "dynamic_post bounded_ops (bucket_search 0) (0 :: nat) 16777217 SIM_TIME_ABS sched_dynamic_create = Some (0, sd)" "dynamic_ok sd"
    "\<And>t. events_at sd t = (if t = 16777217 then events_at sched_dynamic_create t @ [0] else events_at sched_dynamic_create t)"
    "set (map b_time (buckets sd)) = insert 16777217 (set (map b_time (buckets (sched_dynamic_create :: nat sched_dynamic))))"
    by (rule dynamic_post_effect [OF bounded.gds_bounded_fifo_axioms search.gds_index_of_axioms ok, where time = 16777217 and time_type = SIM_TIME_ABS
          and time' = 16777217 and ev = 0])
      (use that e in \<open>simp_all add: sched_dynamic_create_def DYNAMIC_QUEUE_DEPTH_def\<close>)
  have "sorted_wrt (<) (map b_time (buckets sd))" using sd(2) by (simp add: dynamic_ok_def sorted_buckets)
  then have ts: "map b_time (buckets sd) = [16777217]"
    using strict_sorted_equal [of "map b_time (buckets sd)" "[16777217]"] sd(4) by (simp add: sched_dynamic_create_def)
  have h: "now_handler 0 [] = Some ([0], [(1, 0, SIM_TIME_REL)])" "now_handler 1 [0] = Some ([0, 1], [])" by (simp_all add: now_handler_def)
  have "events_at sd 16777217 = [0]" by (simp add: sd(3) e)
  from dynamic_run_loses_event [where h = now_handler, OF bounded.gds_bounded_fifo_axioms search.gds_index_of_axioms sd(2) ts this _ h] sd(1)
  show ?thesis by (auto simp: to_float_late)
qed

end
