(* ===== verification/Net_Topology.thy ===== *)
theory Net_Topology
  imports Net_Types
begin

text \<open>
  The topology of the network: interfaces (\<open>src/net/iface.c\<close>, \<open>iface_rtr.c\<close>, \<open>iface_ptp.c\<close>, \<open>iface_ptmp.c\<close>), their weights
  (\<open>link_attr.c\<close>), lists of interfaces (\<open>link-list.c\<close>), links (\<open>link.c\<close>), subnets (\<open>subnet.c\<close>), and the parts of \<open>node.c\<close> and
  \<open>network.c\<close> that build a network and search it.

  An operation on an object of the network takes the network and returns it updated, with the error code of the program;
  \<^term>\<open>None\<close> is a stopped process, reached by an argument that is no object of the network or by reading a union that was
  never written.  The invariant \<open>topo_ok\<close> is kept by every operation (locale \<open>net_arrays\<close>, on the laws of the sorted arrays), and so by
  every sequence of commands (\<open>topo_run\<close>).
\<close>

unbundle bit_operations_syntax

section \<open>Weights\<close>

definition IGP_MAX_WEIGHT :: "32 word" where "IGP_MAX_WEIGHT = -1"
definition NET_LINK_MAX_LOAD :: "32 word" where "NET_LINK_MAX_LOAD = -1"
definition NET_LINK_MAX_DEPTH :: nat where "NET_LINK_MAX_DEPTH = 10"
definition NET_LINK_FLAG_UP :: "8 word" where "NET_LINK_FLAG_UP = 0x01"

definition net_igp_weights_create :: "nat \<Rightarrow> 32 word \<Rightarrow> 32 word list option" where
  "net_igp_weights_create depth dflt = do {
     assert_opt (depth > 0 \<and> depth < NET_LINK_MAX_DEPTH);
     Some (replicate depth dflt)
   }"

definition net_igp_add_weights :: "32 word \<Rightarrow> 32 word \<Rightarrow> 32 word" where
  "net_igp_add_weights weight1 weight2 =
     (let big_weight = (ucast weight1 :: 64 word) + ucast weight2 in
      if big_weight > ucast IGP_MAX_WEIGHT then IGP_MAX_WEIGHT else ucast big_weight)"

section \<open>Interfaces\<close>

definition IFACE_TYPES :: "(iface_type \<times> string \<times> string) list" where
  "IFACE_TYPES =
     [(NET_IFACE_LOOPBACK, ''loopback'', ''lo''),
      (NET_IFACE_RTR, ''router-to-router'', ''rtr''),
      (NET_IFACE_PTP, ''point-to-point'', ''ptp''),
      (NET_IFACE_PTMP, ''point-to-multipoint'', ''ptmp''),
      (NET_IFACE_VIRTUAL, ''virtual'', ''tun'')]"

definition net_iface_new :: "iface_type \<Rightarrow> net_iface option" where
  "net_iface_new type = do {
     let dflt_weight = (if type = NET_IFACE_LOOPBACK \<or> type = NET_IFACE_VIRTUAL then 0 else IGP_MAX_WEIGHT);
     weights \<leftarrow> net_igp_weights_create 1 dflt_weight;
     Some \<lparr>iface_type = type, iface_addr = 0, iface_mask = 0, iface_connected = False, iface_dest = None,
           iface_delay = 0, iface_capacity = 0, iface_load = 0, iface_flags = NET_LINK_FLAG_UP, iface_weights = weights\<rparr>
   }"

definition iface_new_loopback :: "net_addr \<Rightarrow> net_iface option" where
  "iface_new_loopback addr = map_option (\<lambda>i. i\<lparr>iface_addr := addr, iface_mask := 32\<rparr>) (net_iface_new NET_IFACE_LOOPBACK)"

definition iface_new_virtual :: "net_addr \<Rightarrow> net_iface option" where
  "iface_new_virtual addr = map_option (\<lambda>i. i\<lparr>iface_addr := addr, iface_mask := 32\<rparr>) (net_iface_new NET_IFACE_VIRTUAL)"

definition net_iface_new_rtr :: "net_addr \<Rightarrow> net_iface option" where
  "net_iface_new_rtr addr = map_option (\<lambda>i. i\<lparr>iface_addr := addr, iface_mask := 32\<rparr>) (net_iface_new NET_IFACE_RTR)"

definition net_iface_new_ptp :: "ip_pfx \<Rightarrow> net_iface option" where
  "net_iface_new_ptp pfx = map_option (\<lambda>i. i\<lparr>iface_addr := network pfx, iface_mask := mask pfx\<rparr>) (net_iface_new NET_IFACE_PTP)"

definition net_iface_new_ptmp :: "ip_pfx \<Rightarrow> net_iface option" where
  "net_iface_new_ptmp pfx = map_option (\<lambda>i. i\<lparr>iface_addr := network pfx, iface_mask := mask pfx\<rparr>) (net_iface_new NET_IFACE_PTMP)"

definition net_iface_factory :: "ip_pfx \<Rightarrow> iface_type \<Rightarrow> (int + net_iface) option" where
  "net_iface_factory ifid type =
     (case type of
        NET_IFACE_LOOPBACK \<Rightarrow>
          if mask ifid \<noteq> 32 then Some (Inl ENET_IFACE_INVALID_ID) else map_option Inr (iface_new_loopback (network ifid))
      | NET_IFACE_RTR \<Rightarrow>
          if mask ifid \<noteq> 32 then Some (Inl ENET_IFACE_INVALID_ID) else map_option Inr (net_iface_new_rtr (network ifid))
      | NET_IFACE_PTP \<Rightarrow>
          if mask ifid \<ge> 32 then Some (Inl ENET_IFACE_INVALID_ID) else map_option Inr (net_iface_new_ptp ifid)
      | NET_IFACE_PTMP \<Rightarrow>
          if mask ifid \<ge> 32 then Some (Inl ENET_IFACE_INVALID_ID) else map_option Inr (net_iface_new_ptmp ifid)
      | NET_IFACE_VIRTUAL \<Rightarrow>
          if mask ifid \<noteq> 32 then Some (Inl ENET_IFACE_INVALID_ID) else map_option Inr (iface_new_virtual (network ifid)))"

definition net_iface_id :: "net_iface \<Rightarrow> ip_pfx" where
  "net_iface_id iface = \<lparr>network = iface_addr iface, mask = iface_mask iface\<rparr>"

definition net_iface_id_addr :: "net_addr \<Rightarrow> ip_pfx" where
  "net_iface_id_addr addr = \<lparr>network = addr, mask = 32\<rparr>"

definition net_iface_dst_prefix :: "net_iface \<Rightarrow> ip_pfx" where
  "net_iface_dst_prefix iface = net_iface_id iface"

definition net_iface_has_prefix :: "net_iface \<Rightarrow> ip_pfx \<Rightarrow> bool option" where
  "net_iface_has_prefix iface prefix =
     (if iface_type iface = NET_IFACE_RTR then Some False
      else map_option (\<lambda>c. c = 0) (ip_prefix_cmp (net_iface_dst_prefix iface) prefix))"

definition net_iface_src_address :: "iface_ptr \<Rightarrow> net_iface \<Rightarrow> net_addr" where
  "net_iface_src_address ptr iface = (if iface_type iface = NET_IFACE_RTR then fst ptr else iface_addr iface)"

definition net_iface_is_connected :: "net_iface \<Rightarrow> bool" where
  "net_iface_is_connected iface = iface_connected iface"

definition net_iface_get_flag :: "net_iface \<Rightarrow> 8 word \<Rightarrow> bool" where
  "net_iface_get_flag iface flag \<longleftrightarrow> (iface_flags iface AND flag) \<noteq> 0"

definition net_iface_set_flag :: "8 word \<Rightarrow> bool \<Rightarrow> net_iface \<Rightarrow> net_iface" where
  "net_iface_set_flag flag state iface =
     iface\<lparr>iface_flags := (if state then iface_flags iface OR flag else iface_flags iface AND NOT flag)\<rparr>"

definition net_iface_is_enabled :: "net_iface \<Rightarrow> bool" where
  "net_iface_is_enabled iface = net_iface_get_flag iface NET_LINK_FLAG_UP"

definition net_iface_get_metric :: "net_iface \<Rightarrow> nat \<Rightarrow> 32 word option" where
  "net_iface_get_metric iface tos = do {
     assert_opt (tos < length (iface_weights iface));
     Some (iface_weights iface ! tos)
   }"

definition net_iface_add_load :: "32 word \<Rightarrow> net_iface \<Rightarrow> net_iface" where
  "net_iface_add_load inc_load iface =
     (let big_load = (ucast (iface_load iface) :: 64 word) + ucast inc_load in
      iface\<lparr>iface_load := (if big_load > ucast NET_LINK_MAX_LOAD then NET_LINK_MAX_LOAD else ucast big_load)\<rparr>)"

definition net_iface_str2type :: "string \<Rightarrow> int + iface_type" where
  "net_iface_str2type str =
     (case find (\<lambda>(type, name, short_name). str = name \<or> str = short_name) IFACE_TYPES of
        Some (type, _, _) \<Rightarrow> Inr type
      | None \<Rightarrow> Inl ENET_IFACE_INVALID_TYPE)"

definition net_iface_type2str :: "iface_type \<Rightarrow> string option" where
  "net_iface_type2str type = map_option (\<lambda>(_, _, short_name). short_name) (find (\<lambda>(t, _, _). t = type) IFACE_TYPES)"

definition net_dest_to_prefix :: "ip_dest \<Rightarrow> ip_pfx option" where
  "net_dest_to_prefix dest =
     (case dest of
        NET_DEST_ADDRESS addr \<Rightarrow> Some \<lparr>network = addr, mask = 32\<rparr>
      | NET_DEST_PREFIX prefix \<Rightarrow> Some prefix
      | _ \<Rightarrow> None)"

definition net_iface_str2id :: "string \<Rightarrow> (int + ip_pfx) option" where
  "net_iface_str2id str =
     (let (ifid, result) = ip_string_to_dest str in
      if result < 0 \<or> ifid = NET_DEST_ANY \<or> ifid = NET_DEST_INVALID then Some (Inl ENET_IFACE_INVALID_ID)
      else if (case ifid of NET_DEST_ADDRESS addr \<Rightarrow> addr = IP_ADDR_ANY | NET_DEST_PREFIX prefix \<Rightarrow> network prefix = IP_ADDR_ANY | _ \<Rightarrow> False)
      then Some (Inl ENET_IFACE_INVALID_ID)
      else map_option Inr (net_dest_to_prefix ifid))"

section \<open>The network\<close>

text \<open>The two sorted arrays of interfaces: those of a node and those of a subnet.\<close>

record net_env =
  ifaces_add :: "net_iface sorted_add"
  subnet_ifaces_add :: "iface_ptr sorted_add"

definition net_links_link_compare :: "net_iface \<Rightarrow> net_iface \<Rightarrow> int" where
  "net_links_link_compare iface1 iface2 =
     (if iface_addr iface1 > iface_addr iface2 then 1
      else if iface_addr iface1 < iface_addr iface2 then -1
      else 0)"

definition net_subnet_link_compare :: "iface_ptr \<Rightarrow> iface_ptr \<Rightarrow> int" where
  "net_subnet_link_compare link1 link2 =
     (if snd link1 > snd link2 then 1
      else if snd link1 < snd link2 then -1
      else 0)"

text \<open>The interface behind a pointer, and the update of one of its fields.\<close>

definition net_links_find :: "net_iface list \<Rightarrow> ip_pfx \<Rightarrow> net_iface option" where
  "net_links_find is ifid = find (\<lambda>i. iface_addr i = network ifid) is"

definition iface_at :: "'t network_t \<Rightarrow> iface_ptr \<Rightarrow> net_iface option" where
  "iface_at net ptr = do {
     node \<leftarrow> net_nodes net (fst ptr);
     net_links_find (ifaces node) (net_iface_id_addr (snd ptr))
   }"

definition iface_modify :: "iface_ptr \<Rightarrow> (net_iface \<Rightarrow> net_iface) \<Rightarrow> 't network_t \<Rightarrow> 't network_t" where
  "iface_modify ptr f net =
     net\<lparr>net_nodes := (net_nodes net)(fst ptr :=
       map_option (\<lambda>node. node\<lparr>ifaces := map (\<lambda>i. if iface_addr i = snd ptr then f i else i) (ifaces node)\<rparr>)
         (net_nodes net (fst ptr)))\<rparr>"

text \<open>A sequence of steps of which each returns an error code and the first error ends the sequence.\<close>

definition on_success :: "(int \<times> 'n) option \<Rightarrow> ('n \<Rightarrow> (int \<times> 'n) option) \<Rightarrow> (int \<times> 'n) option" where
  "on_success m f = do {
     (error, net) \<leftarrow> m;
     if error \<noteq> ESUCCESS then Some (error, net) else f net
   }"

definition net_links_add :: "net_env \<Rightarrow> net_iface list \<Rightarrow> net_iface \<Rightarrow> int \<times> net_iface list" where
  "net_links_add env is iface =
     (case ifaces_add env is iface of None \<Rightarrow> (ENET_IFACE_DUPLICATE, is) | Some is' \<Rightarrow> (ESUCCESS, is'))"

definition node_add_iface2 :: "net_env \<Rightarrow> net_addr \<Rightarrow> net_iface \<Rightarrow> 't network_t \<Rightarrow> (int \<times> 't network_t) option" where
  "node_add_iface2 env r iface net = do {
     node \<leftarrow> net_nodes net r;
     let (error, is) = net_links_add env (ifaces node) iface in
     Some (error, net\<lparr>net_nodes := (net_nodes net)(r \<mapsto> node\<lparr>ifaces := is\<rparr>)\<rparr>)
   }"

definition node_add_iface :: "net_env \<Rightarrow> net_addr \<Rightarrow> ip_pfx \<Rightarrow> iface_type \<Rightarrow> 't network_t \<Rightarrow> (int \<times> 't network_t) option" where
  "node_add_iface env r ifid type net = do {
     result \<leftarrow> net_iface_factory ifid type;
     case result of Inl error \<Rightarrow> Some (error, net) | Inr iface \<Rightarrow> node_add_iface2 env r iface net
   }"

definition node_find_iface :: "'t network_t \<Rightarrow> net_addr \<Rightarrow> ip_pfx \<Rightarrow> net_iface option option" where
  "node_find_iface net r ifid = do {
     node \<leftarrow> net_nodes net r;
     Some (net_links_find (ifaces node) ifid)
   }"

definition node_create :: "net_env \<Rightarrow> 't \<Rightarrow> net_addr \<Rightarrow> bool \<Rightarrow> (int + 't net_node) option" where
  "node_create env rt r loopback =
     (if r = IP_ADDR_ANY then Some (Inl ENET_NODE_INVALID_ID)
      else let node = \<lparr>node_rid = r, ifaces = [], node_rt = rt, node_domains = []\<rparr> in
        if loopback then do {
          result \<leftarrow> net_iface_factory (net_iface_id_addr r) NET_IFACE_LOOPBACK;
          case result of
            Inl error \<Rightarrow> Some (Inl error)
          | Inr iface \<Rightarrow>
              (let (error, is) = net_links_add env (ifaces node) iface in
               Some (if error \<noteq> ESUCCESS then Inl error else Inr (node\<lparr>ifaces := is\<rparr>)))
        }
        else Some (Inr node))"

definition network_create :: "'t network_t" where
  "network_create = \<lparr>net_nodes = Map.empty, net_subnets = Map.empty\<rparr>"

definition network_find_node :: "'t network_t \<Rightarrow> net_addr \<Rightarrow> 't net_node option" where
  "network_find_node net addr = net_nodes net addr"

definition network_add_node :: "'t net_node \<Rightarrow> 't network_t \<Rightarrow> int \<times> 't network_t" where
  "network_add_node node net =
     (if network_find_node net (node_rid node) \<noteq> None then (ENET_NODE_DUPLICATE, net)
      else (ESUCCESS, net\<lparr>net_nodes := (net_nodes net)(node_rid node \<mapsto> node)\<rparr>))"

definition subnet_create :: "net_addr \<Rightarrow> net_mask \<Rightarrow> subnet_type \<Rightarrow> net_subnet option" where
  "subnet_create addr m type = do {
     assert_opt (m < 32);
     prefix \<leftarrow> ip_prefix_mask \<lparr>network = addr, mask = m\<rparr>;
     Some \<lparr>subnet_prefix = prefix, subnet_type = type, subnet_ifaces = []\<rparr>
   }"

definition network_find_subnet :: "'t network_t \<Rightarrow> ip_pfx \<Rightarrow> net_subnet option option" where
  "network_find_subnet net prefix = map_option (net_subnets net) (ip_prefix_mask prefix)"

definition network_add_subnet :: "net_subnet \<Rightarrow> 't network_t \<Rightarrow> (int \<times> 't network_t) option" where
  "network_add_subnet subnet net = do {
     found \<leftarrow> network_find_subnet net (subnet_prefix subnet);
     Some (if found \<noteq> None then (ENET_SUBNET_DUPLICATE, net)
           else (ESUCCESS, net\<lparr>net_subnets := (net_subnets net)(subnet_prefix subnet \<mapsto> subnet)\<rparr>))
   }"

definition subnet_add_link :: "net_env \<Rightarrow> ip_pfx \<Rightarrow> iface_ptr \<Rightarrow> 't network_t \<Rightarrow> (int \<times> 't network_t) option" where
  "subnet_add_link env p ptr net = do {
     subnet \<leftarrow> net_subnets net p;
     Some (case subnet_ifaces_add env (subnet_ifaces subnet) ptr of
             None \<Rightarrow> (ENET_LINK_DUPLICATE, net)
           | Some is \<Rightarrow> (ESUCCESS, net\<lparr>net_subnets := (net_subnets net)(p \<mapsto> subnet\<lparr>subnet_ifaces := is\<rparr>)\<rparr>))
   }"

definition subnet_is_transit :: "net_subnet \<Rightarrow> bool" where
  "subnet_is_transit subnet \<longleftrightarrow> subnet_type subnet = NET_SUBNET_TYPE_TRANSIT"

definition net_subnet_find_link :: "net_subnet \<Rightarrow> net_addr \<Rightarrow> iface_ptr option" where
  "net_subnet_find_link subnet dst_addr = find (\<lambda>ptr. snd ptr = dst_addr) (subnet_ifaces subnet)"

definition subnet_find_iface_to :: "net_subnet \<Rightarrow> net_elem \<Rightarrow> iface_ptr option" where
  "subnet_find_iface_to subnet to =
     (case to of NODE r \<Rightarrow> find (\<lambda>ptr. fst ptr = r) (subnet_ifaces subnet) | _ \<Rightarrow> None)"

section \<open>Links\<close>

datatype iface_dir = UNIDIR | BIDIR

definition net_iface_connect_iface :: "iface_ptr \<Rightarrow> iface_ptr \<Rightarrow> 't network_t \<Rightarrow> (int \<times> 't network_t) option" where
  "net_iface_connect_iface ptr dst net = do {
     i \<leftarrow> iface_at net ptr;
     d \<leftarrow> iface_at net dst;
     Some
       (if iface_connected i then (ENET_IFACE_CONNECTED, net)
        else if iface_connected d \<and> iface_dest d \<noteq> Some (DstIface ptr) then (ENET_IFACE_CONNECTED, net)
        else if iface_type i \<noteq> iface_type d then (ENET_IFACE_INCOMPATIBLE, net)
        else if iface_type i \<noteq> NET_IFACE_RTR \<and> iface_type i \<noteq> NET_IFACE_PTP then (ENET_IFACE_INCOMPATIBLE, net)
        else if iface_addr i = iface_addr d \<or> fst ptr = fst dst then (ENET_LINK_LOOP, net)
        else (ESUCCESS, iface_modify ptr (\<lambda>i. i\<lparr>iface_dest := Some (DstIface dst), iface_connected := True\<rparr>) net))
   }"

definition net_iface_connect_subnet :: "iface_ptr \<Rightarrow> ip_pfx \<Rightarrow> 't network_t \<Rightarrow> (int \<times> 't network_t) option" where
  "net_iface_connect_subnet ptr dst net = do {
     i \<leftarrow> iface_at net ptr;
     Some
       (if iface_connected i then (ENET_IFACE_CONNECTED, net)
        else if iface_type i \<noteq> NET_IFACE_PTMP then (ENET_IFACE_INCOMPATIBLE, net)
        else (ESUCCESS, iface_modify ptr (\<lambda>i. i\<lparr>iface_dest := Some (DstSubnet dst), iface_connected := True\<rparr>) net))
   }"

definition net_iface_disconnect :: "iface_ptr \<Rightarrow> 't network_t \<Rightarrow> int \<times> 't network_t" where
  "net_iface_disconnect ptr net = (ESUCCESS, iface_modify ptr (\<lambda>i. i\<lparr>iface_connected := False\<rparr>) net)"

definition net_link_create_iface ::
    "net_env \<Rightarrow> net_addr \<Rightarrow> ip_pfx \<Rightarrow> iface_type \<Rightarrow> 't network_t \<Rightarrow> (int \<times> 't network_t) option" where
  "net_link_create_iface env r ifid type net = do {
     found \<leftarrow> node_find_iface net r ifid;
     case found of
       None \<Rightarrow> do {
         result \<leftarrow> net_iface_factory ifid type;
         case result of
           Inl error \<Rightarrow> Some (error, net)
         | Inr iface \<Rightarrow> node_add_iface2 env r iface net
       }
     | Some i \<Rightarrow> Some (if iface_type i \<noteq> type then ENET_IFACE_INCOMPATIBLE else ESUCCESS, net)
   }"

text \<open>The pointer the program returns through \<open>iface_ref\<close> is the interface of the source node with the given
  address, as \<open>_net_link_create_iface\<close> found or created it.\<close>

definition net_link_connect :: "iface_ptr \<Rightarrow> iface_ptr \<Rightarrow> iface_dir \<Rightarrow> 't network_t \<Rightarrow> (int \<times> 't network_t) option" where
  "net_link_connect src_iface dst_iface dir net =
     on_success (net_iface_connect_iface src_iface dst_iface net) (\<lambda>net.
       if dir = BIDIR then net_iface_connect_iface dst_iface src_iface net else Some (ESUCCESS, net))"

definition net_link_create_rtr ::
    "net_env \<Rightarrow> net_addr \<Rightarrow> net_addr \<Rightarrow> iface_dir \<Rightarrow> 't network_t \<Rightarrow> (int \<times> 't network_t) option" where
  "net_link_create_rtr env src dst dir net =
     (if src = dst then Some (ENET_LINK_LOOP, net)
      else on_success (net_link_create_iface env src (net_iface_id_addr dst) NET_IFACE_RTR net) (\<lambda>net.
           on_success (net_link_create_iface env dst (net_iface_id_addr src) NET_IFACE_RTR net) (\<lambda>net.
             net_link_connect (src, dst) (dst, src) dir net)))"

definition net_link_create_ptp ::
    "net_env \<Rightarrow> net_addr \<Rightarrow> ip_pfx \<Rightarrow> net_addr \<Rightarrow> ip_pfx \<Rightarrow> iface_dir \<Rightarrow> 't network_t \<Rightarrow> (int \<times> 't network_t) option" where
  "net_link_create_ptp env src src_id dst dst_id dir net =
     (if src = dst then Some (ENET_LINK_LOOP, net)
      else if mask src_id \<noteq> mask dst_id then Some (EUNEXPECTED, net)
      else do {
        c \<leftarrow> ip_prefix_cmp src_id dst_id;
        if c \<noteq> 0 then Some (EUNEXPECTED, net)
        else if network src_id = network dst_id then Some (EUNEXPECTED, net)
        else on_success (net_link_create_iface env src src_id NET_IFACE_PTP net) (\<lambda>net.
             on_success (net_link_create_iface env dst dst_id NET_IFACE_PTP net) (\<lambda>net.
               net_link_connect (src, network src_id) (dst, network dst_id) dir net))
      })"

definition net_link_create_ptmp ::
    "net_env \<Rightarrow> net_addr \<Rightarrow> ip_pfx \<Rightarrow> net_addr \<Rightarrow> 't network_t \<Rightarrow> (int \<times> 't network_t) option" where
  "net_link_create_ptmp env src p addr net = do {
     subnet \<leftarrow> net_subnets net p;
     result \<leftarrow> net_iface_factory \<lparr>network = addr, mask = mask (subnet_prefix subnet)\<rparr> NET_IFACE_PTMP;
     case result of
       Inl error \<Rightarrow> Some (error, net)
     | Inr iface \<Rightarrow>
         on_success (node_add_iface2 env src iface net) (\<lambda>net.
         on_success (net_iface_connect_subnet (src, addr) p net) (\<lambda>net.
           subnet_add_link env p (src, addr) net))
   }"

section \<open>Attributes of links\<close>

definition net_iface_set_enabled :: "iface_ptr \<Rightarrow> bool \<Rightarrow> 't network_t \<Rightarrow> 't network_t" where
  "net_iface_set_enabled ptr enabled net = iface_modify ptr (net_iface_set_flag NET_LINK_FLAG_UP enabled) net"

definition net_iface_is_bidir :: "net_iface \<Rightarrow> bool" where
  "net_iface_is_bidir iface \<longleftrightarrow> iface_type iface = NET_IFACE_RTR \<or> iface_type iface = NET_IFACE_PTP"

text \<open>The pointer read from the destination of a connected interface: reading it as an interface when the union
  holds something else stops the process.\<close>

definition net_iface_get_reverse :: "net_iface \<Rightarrow> (int + iface_ptr) option" where
  "net_iface_get_reverse iface =
     (if \<not> net_iface_is_bidir iface then Some (Inl ENET_IFACE_NOT_SUPPORTED)
      else if \<not> net_iface_is_connected iface then Some (Inl ENET_IFACE_NOT_CONNECTED)
      else case iface_dest iface of Some (DstIface ptr) \<Rightarrow> Some (Inr ptr) | _ \<Rightarrow> None)"

text \<open>The functions that set an attribute in one or both directions have the same shape: the other direction is set first,
  by a call of the function itself for one direction.\<close>

definition iface_set_attr ::
    "(net_iface \<Rightarrow> bool) \<Rightarrow> (net_iface \<Rightarrow> net_iface) \<Rightarrow> iface_ptr \<Rightarrow> iface_dir \<Rightarrow> 't network_t \<Rightarrow> (int \<times> 't network_t) option" where
  "iface_set_attr ok f ptr dir net = do {
     i \<leftarrow> iface_at net ptr;
     assert_opt (ok i);
     if dir = BIDIR then do {
       rev \<leftarrow> net_iface_get_reverse i;
       case rev of
         Inl error \<Rightarrow> Some (error, net)
       | Inr rev_ptr \<Rightarrow> do {
           r \<leftarrow> iface_at net rev_ptr;
           assert_opt (ok r);
           Some (ESUCCESS, iface_modify ptr f (iface_modify rev_ptr f net))
         }
     }
     else Some (ESUCCESS, iface_modify ptr f net)
   }"

definition net_iface_set_metric ::
    "iface_ptr \<Rightarrow> nat \<Rightarrow> 32 word \<Rightarrow> iface_dir \<Rightarrow> 't network_t \<Rightarrow> (int \<times> 't network_t) option" where
  "net_iface_set_metric ptr tos weight dir net =
     iface_set_attr (\<lambda>i. tos < length (iface_weights i)) (\<lambda>i. i\<lparr>iface_weights := (iface_weights i)[tos := weight]\<rparr>) ptr dir net"

definition net_iface_set_delay :: "iface_ptr \<Rightarrow> 32 word \<Rightarrow> iface_dir \<Rightarrow> 't network_t \<Rightarrow> (int \<times> 't network_t) option" where
  "net_iface_set_delay ptr delay dir net = iface_set_attr (\<lambda>i. True) (\<lambda>i. i\<lparr>iface_delay := delay\<rparr>) ptr dir net"

definition net_iface_set_capacity :: "iface_ptr \<Rightarrow> 32 word \<Rightarrow> iface_dir \<Rightarrow> 't network_t \<Rightarrow> (int \<times> 't network_t) option" where
  "net_iface_set_capacity ptr capacity dir net = iface_set_attr (\<lambda>i. True) (\<lambda>i. i\<lparr>iface_capacity := capacity\<rparr>) ptr dir net"

definition net_link_set_phys_attr ::
    "iface_ptr \<Rightarrow> 32 word \<Rightarrow> 32 word \<Rightarrow> iface_dir \<Rightarrow> 't network_t \<Rightarrow> (int \<times> 't network_t) option" where
  "net_link_set_phys_attr ptr delay capacity dir net =
     on_success (net_iface_set_delay ptr delay dir net) (net_iface_set_capacity ptr capacity dir)"

definition node_ifaces_load_clear :: "'t net_node \<Rightarrow> 't net_node" where
  "node_ifaces_load_clear node = node\<lparr>ifaces := map (\<lambda>i. i\<lparr>iface_load := 0\<rparr>) (ifaces node)\<rparr>"

definition network_ifaces_load_clear :: "'t network_t \<Rightarrow> 't network_t" where
  "network_ifaces_load_clear net = net\<lparr>net_nodes := map_option node_ifaces_load_clear \<circ> net_nodes net\<rparr>"

section \<open>Searches of a node\<close>

definition node_has_prefix :: "'t net_node \<Rightarrow> ip_pfx \<Rightarrow> bool option" where
  "node_has_prefix node prefix =
     fold (\<lambda>i found. do { b \<leftarrow> found; if b then Some True else net_iface_has_prefix i prefix }) (ifaces node) (Some False)"

text \<open>Reading the owner of the interface at the other end of a link.\<close>

definition dest_owner :: "net_iface \<Rightarrow> net_addr option" where
  "dest_owner iface = (case iface_dest iface of Some (DstIface ptr) \<Rightarrow> Some (fst ptr) | _ \<Rightarrow> None)"

definition iface_leads_to :: "net_elem \<Rightarrow> net_iface \<Rightarrow> bool option" where
  "iface_leads_to to iface =
     (if \<not> net_iface_is_connected iface then Some False
      else case to of
        LINK ptr \<Rightarrow> Some (iface_type iface = NET_IFACE_PTP \<and> iface_dest iface = Some (DstIface ptr))
      | NODE r \<Rightarrow>
          if iface_type iface \<noteq> NET_IFACE_RTR then Some False else map_option (\<lambda>owner. owner = r) (dest_owner iface)
      | SUBNET p \<Rightarrow> Some (iface_type iface = NET_IFACE_PTMP \<and> iface_dest iface = Some (DstSubnet p)))"

fun find_iface_to :: "net_iface list \<Rightarrow> net_elem \<Rightarrow> net_iface option option" where
  "find_iface_to [] to = Some None"
| "find_iface_to (i # is) to = do {
     b \<leftarrow> iface_leads_to to i;
     if b then Some (Some i) else find_iface_to is to
   }"

definition node_find_iface_to :: "'t net_node \<Rightarrow> net_elem \<Rightarrow> net_iface option option" where
  "node_find_iface_to node to = find_iface_to (ifaces node) to"

definition net_ifaces_get_smallest :: "net_addr \<Rightarrow> net_iface list \<Rightarrow> int + net_addr" where
  "net_ifaces_get_smallest owner is =
     (case fold (\<lambda>i smallest. let a = net_iface_src_address (owner, iface_addr i) i in
                  case smallest of None \<Rightarrow> Some a | Some s \<Rightarrow> if a < s then Some a else Some s) is None of
        None \<Rightarrow> Inl ENET_IFACE_UNKNOWN
      | Some a \<Rightarrow> Inr a)"

definition net_ifaces_get_highest :: "net_addr \<Rightarrow> net_iface list \<Rightarrow> int + net_addr" where
  "net_ifaces_get_highest owner is =
     (case fold (\<lambda>i highest. let a = net_iface_src_address (owner, iface_addr i) i in
                  case highest of None \<Rightarrow> Some a | Some s \<Rightarrow> if a > s then Some a else Some s) is None of
        None \<Rightarrow> Inl ENET_IFACE_UNKNOWN
      | Some a \<Rightarrow> Inr a)"

section \<open>The invariant of the network\<close>

text \<open>The lists of interfaces are ordered without duplicates.  A connected router-to-router interface is named after the
  node it leads to and leads to the interface of that node named after its owner.  The two ends of a point-to-point link
  are connected to each other.  A connected point-to-multipoint interface leads to a subnet
  that has a port with its address; the ports of a subnet are interfaces connected to it.\<close>

definition nodes_ok :: "'t network_t \<Rightarrow> bool" where
  "nodes_ok net \<longleftrightarrow> finite (dom (net_nodes net))
     \<and> (\<forall>r n. net_nodes net r = Some n \<longrightarrow> node_rid n = r \<and> strict_sorted_by net_links_link_compare (ifaces n))"

definition port_ok :: "'t network_t \<Rightarrow> ip_pfx \<Rightarrow> iface_ptr \<Rightarrow> bool" where
  "port_ok net p q \<longleftrightarrow>
     (\<exists>i. iface_at net q = Some i \<and> iface_type i = NET_IFACE_PTMP \<and> iface_connected i \<and> iface_dest i = Some (DstSubnet p))"

definition subnets_ok :: "'t network_t \<Rightarrow> bool" where
  "subnets_ok net \<longleftrightarrow> finite (dom (net_subnets net))
     \<and> (\<forall>p s. net_subnets net p = Some s \<longrightarrow> subnet_prefix s = p \<and> pfx_norm p = p \<and> mask p < 32
          \<and> strict_sorted_by net_subnet_link_compare (subnet_ifaces s) \<and> (\<forall>q\<in>set (subnet_ifaces s). port_ok net p q))"

definition ptp_end :: "iface_ptr \<Rightarrow> net_iface \<Rightarrow> bool" where
  "ptp_end q j \<longleftrightarrow> iface_type j = NET_IFACE_PTP \<and> iface_connected j \<and> iface_dest j = Some (DstIface q)"

definition iface_ok :: "'t network_t \<Rightarrow> iface_ptr \<Rightarrow> net_iface \<Rightarrow> bool" where
  "iface_ok net q i \<longleftrightarrow> length (iface_weights i) = 1 \<and>
     (case iface_type i of
        NET_IFACE_LOOPBACK \<Rightarrow> iface_mask i = 32
      | NET_IFACE_VIRTUAL \<Rightarrow> iface_mask i = 32
      | NET_IFACE_RTR \<Rightarrow> iface_mask i = 32
          \<and> (iface_connected i \<longrightarrow> snd q \<noteq> fst q \<and> iface_dest i = Some (DstIface (snd q, fst q))
               \<and> (\<exists>j. iface_at net (snd q, fst q) = Some j \<and> iface_type j = NET_IFACE_RTR))
      | NET_IFACE_PTP \<Rightarrow> iface_mask i < 32
          \<and> (iface_connected i \<longrightarrow> (\<exists>q' j. fst q' \<noteq> fst q \<and> snd q' \<noteq> snd q \<and> iface_dest i = Some (DstIface q')
               \<and> iface_at net q' = Some j \<and> ptp_end q j))
      | NET_IFACE_PTMP \<Rightarrow> iface_mask i < 32
          \<and> (iface_connected i \<longrightarrow> (\<exists>p s. iface_dest i = Some (DstSubnet p) \<and> net_subnets net p = Some s
               \<and> iface_mask i = mask p \<and> snd q \<in> snd ` set (subnet_ifaces s))))"

definition topo_ok :: "'t network_t \<Rightarrow> bool" where
  "topo_ok net \<longleftrightarrow> nodes_ok net \<and> subnets_ok net \<and> (\<forall>q i. iface_at net q = Some i \<longrightarrow> iface_ok net q i)"

text \<open>What no operation takes back: interfaces stay, connected ones stay connected to the same destination.\<close>

definition iface_le :: "net_iface \<Rightarrow> net_iface \<Rightarrow> bool" where
  "iface_le i j \<longleftrightarrow> iface_type j = iface_type i \<and> iface_addr j = iface_addr i \<and> iface_mask j = iface_mask i
     \<and> (iface_connected i \<longrightarrow> iface_connected j \<and> iface_dest j = iface_dest i)"

definition net_le :: "'t network_t \<Rightarrow> 't network_t \<Rightarrow> bool" where
  "net_le net net' \<longleftrightarrow> (\<forall>q i. iface_at net q = Some i \<longrightarrow> (\<exists>j. iface_at net' q = Some j \<and> iface_le i j))
     \<and> (\<forall>p s. net_subnets net p = Some s \<longrightarrow>
          (\<exists>s'. net_subnets net' p = Some s' \<and> set (subnet_ifaces s) \<subseteq> set (subnet_ifaces s')))"

lemma iface_le_refl [simp]: "iface_le i i"
  by (simp add: iface_le_def)

lemma net_le_refl [simp]: "net_le net net"
  by (simp add: net_le_def)

lemma iface_le_trans: "iface_le i j \<Longrightarrow> iface_le j k \<Longrightarrow> iface_le i k"
  unfolding iface_le_def by auto

lemma net_le_trans: "net_le net net' \<Longrightarrow> net_le net' net'' \<Longrightarrow> net_le net net''"
  unfolding net_le_def by (meson iface_le_trans subset_trans)

lemma net_leD:
  assumes "net_le net net'" "iface_at net q = Some i"
  obtains j where "iface_at net' q = Some j" "iface_le i j"
  using assms unfolding net_le_def by blast

lemma port_ok_mono:
  assumes "port_ok net p q" "net_le net net'"
  shows "port_ok net' p q"
proof -
  obtain i where i: "iface_at net q = Some i" "iface_type i = NET_IFACE_PTMP" "iface_connected i" "iface_dest i = Some (DstSubnet p)"
    using assms(1) unfolding port_ok_def by blast
  obtain j where "iface_at net' q = Some j" "iface_le i j" by (rule net_leD [OF assms(2) i(1)])
  with i show ?thesis by (simp add: port_ok_def iface_le_def)
qed

lemma iface_ok_mono:
  assumes "iface_ok net q i" "net_le net net'"
  shows "iface_ok net' q i"
proof (cases "iface_type i")
  case NET_IFACE_RTR
  have "\<exists>j'. iface_at net' q' = Some j' \<and> iface_type j' = NET_IFACE_RTR" if j: "iface_at net q' = Some j" "iface_type j = NET_IFACE_RTR" for q' j
  proof -
    obtain j' where "iface_at net' q' = Some j'" "iface_le j j'" by (rule net_leD [OF assms(2) j(1)])
    with j(2) show ?thesis by (simp add: iface_le_def)
  qed
  with assms(1) NET_IFACE_RTR show ?thesis unfolding iface_ok_def by auto
next
  case NET_IFACE_PTP
  have "\<exists>j'. iface_at net' q' = Some j' \<and> ptp_end q j'" if j: "iface_at net q' = Some j" "ptp_end q j" for q' j
  proof -
    obtain j' where "iface_at net' q' = Some j'" "iface_le j j'" by (rule net_leD [OF assms(2) j(1)])
    with j(2) show ?thesis by (auto simp: iface_le_def ptp_end_def)
  qed
  with assms(1) NET_IFACE_PTP show ?thesis unfolding iface_ok_def by auto
next
  case NET_IFACE_PTMP
  then show ?thesis using assms unfolding iface_ok_def net_le_def by simp (meson image_mono subsetD)
qed (use assms in \<open>auto simp: iface_ok_def\<close>)

lemma topo_ok_step:
  assumes "topo_ok net" "net_le net net'" "nodes_ok net'" "subnets_ok net'"
    and "\<And>q i. iface_at net' q = Some i \<Longrightarrow> iface_at net q \<noteq> Some i \<Longrightarrow> iface_ok net' q i"
  shows "topo_ok net'"
  using assms iface_ok_mono unfolding topo_ok_def by metis

lemma subnets_ok_mono:
  assumes "subnets_ok net" "net_le net net'" "net_subnets net' = net_subnets net"
  shows "subnets_ok net'"
  using assms port_ok_mono [OF _ assms(2)] by (auto simp: subnets_ok_def)

section \<open>Updates of an interface\<close>

lemma find_map_same:
  "(\<And>x. P (g x) = P x) \<Longrightarrow> find P (map g xs) = map_option g (find P xs)"
  by (induction xs) auto

lemma find_addr_modify:
  assumes "\<And>i. iface_addr (f i) = iface_addr i"
  shows "find (\<lambda>i. iface_addr i = a) (map (\<lambda>i. if iface_addr i = b then f i else i) is)
    = (if a = b then map_option f (find (\<lambda>i. iface_addr i = a) is) else find (\<lambda>i. iface_addr i = a) is)"
  by (induction "is") (auto simp: assms)

lemma iface_at_addr: "iface_at net q = Some i \<Longrightarrow> iface_addr i = snd q"
  by (auto simp: iface_at_def net_links_find_def net_iface_id_addr_def find_Some_iff elim!: bind_SomeE)

lemma iface_at_modify:
  assumes "\<And>i. iface_addr (f i) = iface_addr i"
  shows "iface_at (iface_modify p f net) q = (if q = p then map_option f (iface_at net p) else iface_at net q)"
  by (cases p; cases q; cases "net_nodes net (fst p)")
    (auto simp: iface_at_def iface_modify_def net_links_find_def net_iface_id_addr_def find_addr_modify [OF assms])

lemma modify_subnets [simp]: "net_subnets (iface_modify p f net) = net_subnets net"
  by (simp add: iface_modify_def)

lemma strict_sorted_addr: "strict_sorted_by net_links_link_compare is \<longleftrightarrow> sorted_wrt (<) (map iface_addr is)"
  by (auto simp: strict_sorted_by_def sorted_wrt_map net_links_link_compare_def elim!: sorted_wrt_mono_rel [rotated]
      split: if_splits)

lemma nodes_ok_modify:
  assumes "nodes_ok net" "\<And>i. iface_addr (f i) = iface_addr i"
  shows "nodes_ok (iface_modify p f net)"
proof -
  have "map iface_addr (map (\<lambda>i. if iface_addr i = snd p then f i else i) is) = map iface_addr is" for "is"
    using assms(2) by auto
  then have "strict_sorted_by net_links_link_compare (map (\<lambda>i. if iface_addr i = snd p then f i else i) is)
      = strict_sorted_by net_links_link_compare is" for "is"
    by (simp only: strict_sorted_addr)
  moreover have "dom (net_nodes (iface_modify p f net)) = dom (net_nodes net)"
    by (auto simp: iface_modify_def split: if_splits)
  ultimately show ?thesis using assms(1) by (auto simp: nodes_ok_def iface_modify_def split: if_splits)
qed

lemma net_le_modify:
  assumes "\<And>i. iface_at net p = Some i \<Longrightarrow> iface_le i (f i)" "\<And>i. iface_addr (f i) = iface_addr i"
  shows "net_le net (iface_modify p f net)"
  using assms(1) by (auto simp: net_le_def iface_at_modify [OF assms(2)])

lemma topo_ok_modify:
  assumes "topo_ok net" "\<And>i. iface_addr (f i) = iface_addr i"
    and "\<And>i. iface_at net p = Some i \<Longrightarrow> iface_le i (f i)"
    and "\<And>i. iface_at net p = Some i \<Longrightarrow> iface_ok (iface_modify p f net) p (f i)"
  shows "topo_ok (iface_modify p f net)"
proof (rule topo_ok_step [OF assms(1)])
  show le: "net_le net (iface_modify p f net)" by (rule net_le_modify [OF assms(3,2)])
  show "nodes_ok (iface_modify p f net)" using assms(1,2) by (simp add: nodes_ok_modify topo_ok_def)
  show "subnets_ok (iface_modify p f net)" using assms(1) le by (auto simp: topo_ok_def intro: subnets_ok_mono)
  show "iface_ok (iface_modify p f net) q i" if "iface_at (iface_modify p f net) q = Some i" "iface_at net q \<noteq> Some i" for q i
    using that assms(4) by (auto simp: iface_at_modify [OF assms(2)] split: if_splits)
qed

text \<open>Changing the attributes of an interface keeps the invariant.\<close>

definition attr_change :: "(net_iface \<Rightarrow> net_iface) \<Rightarrow> bool" where
  "attr_change f \<longleftrightarrow> (\<forall>i. iface_type (f i) = iface_type i \<and> iface_addr (f i) = iface_addr i \<and> iface_mask (f i) = iface_mask i
     \<and> iface_connected (f i) = iface_connected i \<and> iface_dest (f i) = iface_dest i
     \<and> length (iface_weights (f i)) = length (iface_weights i))"

lemma topo_ok_attr:
  assumes "topo_ok net" "attr_change f"
  shows "topo_ok (iface_modify p f net)"
proof (rule topo_ok_modify [OF assms(1)])
  show addr: "iface_addr (f i) = iface_addr i" for i using assms(2) by (simp add: attr_change_def)
  show le: "iface_le i (f i)" for i using assms(2) by (simp add: attr_change_def iface_le_def)
  fix i assume "iface_at net p = Some i"
  then have "iface_ok net p i" using assms(1) unfolding topo_ok_def by blast
  then have "iface_ok (iface_modify p f net) p i" by (rule iface_ok_mono) (rule net_le_modify [OF le addr])
  then show "iface_ok (iface_modify p f net) p (f i)"
    using assms(2) by (simp add: attr_change_def iface_ok_def split: iface_type.splits)
qed

section \<open>The operations keep the invariant\<close>

text \<open>The two arrays of interfaces behave as sorted arrays.\<close>

locale net_arrays =
  node_array: gds_sorted_array net_links_link_compare "ifaces_add env"
  + subnet_array: gds_sorted_array net_subnet_link_compare "subnet_ifaces_add env"
  for env :: net_env

lemma links_cmp_on: "cmp_on net_links_link_compare A"
  by (auto simp: cmp_on_def net_links_link_compare_def)

lemma subnet_cmp_on: "cmp_on net_subnet_link_compare A"
  by (auto simp: cmp_on_def net_subnet_link_compare_def)

lemma net_iface_new_Some:
  "net_iface_new type = Some \<lparr>iface_type = type, iface_addr = 0, iface_mask = 0, iface_connected = False, iface_dest = None,
     iface_delay = 0, iface_capacity = 0, iface_load = 0, iface_flags = NET_LINK_FLAG_UP,
     iface_weights = [if type = NET_IFACE_LOOPBACK \<or> type = NET_IFACE_VIRTUAL then 0 else IGP_MAX_WEIGHT]\<rparr>"
  by (simp add: net_iface_new_def net_igp_weights_create_def NET_LINK_MAX_DEPTH_def)

definition fresh_iface :: "ip_pfx \<Rightarrow> iface_type \<Rightarrow> net_iface" where
  "fresh_iface ifid type = \<lparr>iface_type = type, iface_addr = network ifid, iface_mask = mask ifid, iface_connected = False,
     iface_dest = None, iface_delay = 0, iface_capacity = 0, iface_load = 0, iface_flags = NET_LINK_FLAG_UP,
     iface_weights = [if type = NET_IFACE_LOOPBACK \<or> type = NET_IFACE_VIRTUAL then 0 else IGP_MAX_WEIGHT]\<rparr>"

definition mask_allowed :: "iface_type \<Rightarrow> net_mask \<Rightarrow> bool" where
  "mask_allowed type m \<longleftrightarrow> (if type = NET_IFACE_PTP \<or> type = NET_IFACE_PTMP then m < 32 else m = 32)"

lemma net_iface_factory_eq:
  "net_iface_factory ifid type =
     Some (if mask_allowed type (mask ifid) then Inr (fresh_iface ifid type) else Inl ENET_IFACE_INVALID_ID)"
  by (cases type) (auto simp: net_iface_factory_def mask_allowed_def fresh_iface_def net_iface_new_Some
      iface_new_loopback_def iface_new_virtual_def net_iface_new_rtr_def net_iface_new_ptp_def net_iface_new_ptmp_def)

lemma fresh_iface_simps [simp]:
  "iface_type (fresh_iface ifid type) = type" "iface_addr (fresh_iface ifid type) = network ifid"
  "iface_mask (fresh_iface ifid type) = mask ifid" "iface_connected (fresh_iface ifid type) = False"
  "iface_dest (fresh_iface ifid type) = None" "length (iface_weights (fresh_iface ifid type)) = 1"
  by (simp_all add: fresh_iface_def)

lemma fresh_iface_ok: "mask_allowed type (mask ifid) \<Longrightarrow> iface_ok net q (fresh_iface ifid type)"
  by (auto simp: iface_ok_def mask_allowed_def split: iface_type.splits)

lemma find_insert_addr:
  "find (\<lambda>i. iface_addr i = a) (ys @ x # zs) =
     (if iface_addr x = a \<and> (\<forall>y\<in>set ys. iface_addr y \<noteq> a) then Some x else find (\<lambda>i. iface_addr i = a) (ys @ zs))"
  by (induction ys) auto

lemma find_None_addr: "find (\<lambda>i. iface_addr i = a) is = None \<longleftrightarrow> (\<forall>i\<in>set is. iface_addr i \<noteq> a)"
  by (auto simp: find_None_iff)

context net_arrays
begin

lemma add_iface_effect:
  assumes "topo_ok net" "net_nodes net r = Some node" "mask_allowed type (mask ifid)"
  obtains "iface_at net (r, network ifid) \<noteq> None" "node_add_iface2 env r (fresh_iface ifid type) net = Some (ENET_IFACE_DUPLICATE, net)"
  | net' where "iface_at net (r, network ifid) = None" "node_add_iface2 env r (fresh_iface ifid type) net = Some (ESUCCESS, net')"
    "topo_ok net'" "net_le net net'" "net_subnets net' = net_subnets net" "dom (net_nodes net') = dom (net_nodes net)"
    "\<And>q. iface_at net' q = (if q = (r, network ifid) then Some (fresh_iface ifid type) else iface_at net q)"
proof -
  let ?i = "fresh_iface ifid type"
  have sorted: "strict_sorted_by net_links_link_compare (ifaces node)" and rid: "node_rid node = r"
    using assms(1,2) by (auto simp: topo_ok_def nodes_ok_def)
  have at: "iface_at net (r, a) = find (\<lambda>i. iface_addr i = a) (ifaces node)" for a
    using assms(2) by (simp add: iface_at_def net_links_find_def net_iface_id_addr_def)
  have cmp: "net_links_link_compare y ?i = 0 \<longleftrightarrow> iface_addr y = network ifid" for y
    by (auto simp: net_links_link_compare_def)
  show thesis
  proof (cases "\<exists>y\<in>set (ifaces node). iface_addr y = network ifid")
    case True
    then have "ifaces_add env (ifaces node) ?i = None"
      using node_array.add_duplicate [OF sorted links_cmp_on] by (simp add: cmp)
    then have "node_add_iface2 env r ?i net = Some (ENET_IFACE_DUPLICATE, net)"
      using assms(2) by (simp add: node_add_iface2_def net_links_add_def fun_upd_idem)
    moreover have "iface_at net (r, network ifid) \<noteq> None" using True by (auto simp: at find_None_addr)
    ultimately show thesis using that(1) by blast
  next
    case False
    then obtain ys zs where split: "ifaces node = ys @ zs" "ifaces_add env (ifaces node) ?i = Some (ys @ ?i # zs)"
      and sorted': "strict_sorted_by net_links_link_compare (ys @ ?i # zs)"
      using node_array.add_new [OF sorted links_cmp_on, of ?i] by (auto simp: cmp)
    define net' where "net' = net\<lparr>net_nodes := (net_nodes net)(r \<mapsto> node\<lparr>ifaces := ys @ ?i # zs\<rparr>)\<rparr>"
    have run: "node_add_iface2 env r ?i net = Some (ESUCCESS, net')"
      using assms(2) split(2) by (simp add: node_add_iface2_def net_links_add_def net'_def)
    have at': "iface_at net' q = (if q = (r, network ifid) then Some ?i else iface_at net q)" for q
    proof (cases "fst q = r")
      case True
      with False split(1) assms(2) show ?thesis
        by (cases q) (auto simp: net'_def iface_at_def net_links_find_def net_iface_id_addr_def find_insert_addr)
    next
      case False
      then show ?thesis by (cases q) (auto simp: net'_def iface_at_def)
    qed
    have none: "iface_at net (r, network ifid) = None" using False by (auto simp: at find_None_addr)
    have sub: "net_subnets net' = net_subnets net" by (simp add: net'_def)
    have le: "net_le net net'" using none by (auto simp: net_le_def at' sub)
    have dom: "dom (net_nodes net') = dom (net_nodes net)" using assms(2) by (auto simp: net'_def)
    have "topo_ok net'"
    proof (rule topo_ok_step [OF assms(1) le])
      show "nodes_ok net'" using assms(1) sorted' rid dom by (auto simp: topo_ok_def nodes_ok_def net'_def)
      show "subnets_ok net'" using assms(1) le sub by (auto simp: topo_ok_def intro: subnets_ok_mono)
      show "iface_ok net' q i" if "iface_at net' q = Some i" "iface_at net q \<noteq> Some i" for q i
        using that fresh_iface_ok [OF assms(3)] by (auto simp: at' split: if_splits)
    qed
    with that(2) [OF none run _ le sub dom at'] show thesis by blast
  qed
qed

end

text \<open>What the operations on the topology keep of a network.\<close>

definition grown :: "'t network_t \<Rightarrow> 't network_t \<Rightarrow> bool" where
  "grown net net' \<longleftrightarrow> topo_ok net' \<and> net_le net net' \<and> dom (net_nodes net) \<subseteq> dom (net_nodes net')
     \<and> dom (net_subnets net) \<subseteq> dom (net_subnets net')"

lemma grown_refl [simp]: "topo_ok net \<Longrightarrow> grown net net"
  by (simp add: grown_def)

lemma grown_trans: "grown net net' \<Longrightarrow> grown net' net'' \<Longrightarrow> grown net net''"
  unfolding grown_def by (blast intro: net_le_trans)

lemma dom_modify [simp]: "dom (net_nodes (iface_modify p f net)) = dom (net_nodes net)"
  by (auto simp: iface_modify_def split: if_splits)

lemma on_success_SomeI:
  assumes "m = Some (e, net1)" "P e net1" "e = ESUCCESS \<Longrightarrow> \<exists>e' net2. f net1 = Some (e', net2) \<and> P e' net2"
  shows "\<exists>e' net2. on_success m f = Some (e', net2) \<and> P e' net2"
  using assms by (auto simp: on_success_def)

lemma connect_iface_cases:
  assumes "iface_at net p = Some i" "iface_at net d = Some j"
  obtains e where "net_iface_connect_iface p d net = Some (e, net)" "e \<noteq> ESUCCESS"
  | "net_iface_connect_iface p d net
      = Some (ESUCCESS, iface_modify p (\<lambda>i. i\<lparr>iface_dest := Some (DstIface d), iface_connected := True\<rparr>) net)"
    "\<not> iface_connected i" "iface_connected j \<longrightarrow> iface_dest j = Some (DstIface p)" "iface_type j = iface_type i"
    "iface_type i = NET_IFACE_RTR \<or> iface_type i = NET_IFACE_PTP" "snd p \<noteq> snd d" "fst p \<noteq> fst d"
proof (cases "\<not> iface_connected i \<and> (iface_connected j \<longrightarrow> iface_dest j = Some (DstIface p)) \<and> iface_type j = iface_type i
    \<and> (iface_type i = NET_IFACE_RTR \<or> iface_type i = NET_IFACE_PTP) \<and> snd p \<noteq> snd d \<and> fst p \<noteq> fst d")
  case True
  with assms iface_at_addr [OF assms(1)] iface_at_addr [OF assms(2)] show thesis
    by (intro that(2)) (auto simp: net_iface_connect_iface_def)
next
  case False
  with assms iface_at_addr [OF assms(1)] iface_at_addr [OF assms(2)]
  have "\<exists>e. net_iface_connect_iface p d net = Some (e, net) \<and> e \<noteq> ESUCCESS"
    by (auto simp: net_iface_connect_iface_def error_codes net_error_codes)
  with that(1) show thesis by blast
qed

lemma connect_rtr:
  assumes "topo_ok net" "iface_at net (a, b) = Some i" "iface_at net (b, a) = Some j" "iface_type i = NET_IFACE_RTR"
  shows "\<exists>e net'. net_iface_connect_iface (a, b) (b, a) net = Some (e, net') \<and> grown net net'"
proof (cases rule: connect_iface_cases [OF assms(2,3)])
  case 1
  with assms(1) show ?thesis by auto
next
  case 2
  let ?f = "\<lambda>i. i\<lparr>iface_dest := Some (DstIface (b, a)), iface_connected := True\<rparr>"
  let ?net = "iface_modify (a, b) ?f net"
  have addr: "iface_addr (?f i) = iface_addr i" for i by simp
  have le: "iface_le i' (?f i')" if "iface_at net (a, b) = Some i'" for i'
    using that assms(2) 2(2) by (simp add: iface_le_def)
  have "iface_ok net (a, b) i" using assms(1,2) unfolding topo_ok_def by blast
  then have "iface_ok ?net (a, b) (?f i)"
    using 2(4,6,7) assms(3,4) by (auto simp: iface_ok_def iface_at_modify)
  then have "topo_ok ?net" using assms(2) by (intro topo_ok_modify [OF assms(1) addr le]) auto
  moreover have "net_le net ?net" by (rule net_le_modify [OF le addr])
  ultimately show ?thesis using 2(1) by (simp add: grown_def)
qed

lemma link_connect_rtr:
  assumes "topo_ok net" "iface_at net (a, b) = Some i" "iface_at net (b, a) = Some j"
    "iface_type i = NET_IFACE_RTR" "iface_type j = NET_IFACE_RTR"
  shows "\<exists>e net'. net_link_connect (a, b) (b, a) dir net = Some (e, net') \<and> grown net net'"
proof -
  obtain e net1 where c: "net_iface_connect_iface (a, b) (b, a) net = Some (e, net1)" "grown net net1"
    using connect_rtr [OF assms(1-4)] by blast
  have le: "net_le net net1" and ok: "topo_ok net1" using c(2) by (auto simp: grown_def)
  obtain i' where i': "iface_at net1 (a, b) = Some i'" "iface_le i i'" by (rule net_leD [OF le assms(2)])
  obtain j' where j': "iface_at net1 (b, a) = Some j'" "iface_le j j'" by (rule net_leD [OF le assms(3)])
  have "\<exists>e net'. net_iface_connect_iface (b, a) (a, b) net1 = Some (e, net') \<and> grown net1 net'"
    using connect_rtr [OF ok j'(1) i'(1)] j'(2) assms(5) by (simp add: iface_le_def)
  then show ?thesis unfolding net_link_connect_def
    by (intro on_success_SomeI [OF c(1)]) (use c(2) in \<open>auto intro: grown_trans\<close>)
qed

lemma link_connect_ptp:
  assumes "topo_ok net" "iface_at net p = Some i" "iface_at net d = Some j" "iface_type i = NET_IFACE_PTP" "iface_type j = NET_IFACE_PTP"
  shows "\<exists>e net'. net_link_connect p d BIDIR net = Some (e, net') \<and> grown net net'"
proof (cases rule: connect_iface_cases [OF assms(2,3)])
  case 1
  with assms(1) show ?thesis by (auto simp: net_link_connect_def on_success_def)
next
  case 2
  let ?f = "\<lambda>dst i. i\<lparr>iface_dest := Some (DstIface dst), iface_connected := True\<rparr>"
  let ?net1 = "iface_modify p (?f d) net" and ?net = "iface_modify d (?f p) (iface_modify p (?f d) net)"
  have pd: "p \<noteq> d" using 2(7) by auto
  have "iface_ok net d j" and ok_i: "iface_ok net p i" using assms(1-3) unfolding topo_ok_def by blast+
  then have free: "\<not> iface_connected j"
    using 2(2,3) assms(2,5) by (auto simp: iface_ok_def ptp_end_def)
  have at1: "iface_at ?net1 q = (if q = p then Some (?f d i) else iface_at net q)" for q
    using assms(2) by (simp add: iface_at_modify)
  have at: "iface_at ?net q = (if q = d then Some (?f p j) else if q = p then Some (?f d i) else iface_at net q)" for q
    using assms(2,3) pd by (simp add: iface_at_modify)
  have "iface_addr i \<noteq> iface_addr j" using 2(6) iface_at_addr [OF assms(2)] iface_at_addr [OF assms(3)] by simp
  then have "net_iface_connect_iface d p ?net1 = Some (ESUCCESS, ?net)"
    using pd free assms(3-5) 2(7) by (simp add: net_iface_connect_iface_def at1)
  then have run: "net_link_connect p d BIDIR net = Some (ESUCCESS, ?net)"
    using 2(1) by (simp add: net_link_connect_def on_success_def)
  have le: "net_le net ?net"
    using 2(2) free assms(2,3) by (auto simp: net_le_def at iface_le_def)
  have "topo_ok ?net"
  proof (rule topo_ok_step [OF assms(1) le])
    show "nodes_ok ?net" using assms(1) by (intro nodes_ok_modify) (auto simp: topo_ok_def)
    show "subnets_ok ?net" using assms(1) le by (auto simp: topo_ok_def intro: subnets_ok_mono)
    have "iface_mask i < 32" "iface_mask j < 32" "length (iface_weights i) = 1" "length (iface_weights j) = 1"
      using \<open>iface_ok net d j\<close> ok_i assms(4,5) by (auto simp: iface_ok_def)
    then have "iface_ok ?net d (?f p j)" "iface_ok ?net p (?f d i)"
      using assms(4,5) 2(6,7) pd by (simp_all add: iface_ok_def at ptp_end_def del: split_paired_Ex)
    then show "iface_ok ?net q i'" if "iface_at ?net q = Some i'" "iface_at net q \<noteq> Some i'" for q i'
      using that by (auto simp: at split: if_splits)
  qed
  then show ?thesis using run le by (simp add: grown_def)
qed

context net_arrays
begin

lemma create_iface_effect:
  assumes "topo_ok net" "net_nodes net r \<noteq> None"
  obtains e where "net_link_create_iface env r ifid type net = Some (e, net)" "e \<noteq> ESUCCESS"
  | net' i where "net_link_create_iface env r ifid type net = Some (ESUCCESS, net')" "grown net net'"
    "iface_at net' (r, network ifid) = Some i" "iface_type i = type"
    "iface_at net (r, network ifid) \<in> {None, Some i}"
    "\<And>q. q \<noteq> (r, network ifid) \<Longrightarrow> iface_at net' q = iface_at net q"
proof -
  obtain node where node: "net_nodes net r = Some node" using assms(2) by blast
  have found: "net_links_find (ifaces node) ifid = iface_at net (r, network ifid)"
    by (simp add: node iface_at_def net_links_find_def net_iface_id_addr_def)
  show thesis
  proof (cases "iface_at net (r, network ifid)")
    case (Some i)
    then have "net_link_create_iface env r ifid type net = Some (if iface_type i \<noteq> type then ENET_IFACE_INCOMPATIBLE else ESUCCESS, net)"
      by (simp add: net_link_create_iface_def node_find_iface_def node found)
    with that Some assms(1) show thesis by (cases "iface_type i = type") (auto simp: error_codes net_error_codes)
  next
    case None
    then have run: "net_link_create_iface env r ifid type net = (if mask_allowed type (mask ifid)
        then node_add_iface2 env r (fresh_iface ifid type) net else Some (ENET_IFACE_INVALID_ID, net))"
      by (simp add: net_link_create_iface_def node_find_iface_def node found net_iface_factory_eq)
    show thesis
    proof (cases "mask_allowed type (mask ifid)")
      case True
      show thesis
      proof (rule add_iface_effect [OF assms(1) node True])
        assume "iface_at net (r, network ifid) \<noteq> None"
        with None show thesis by simp
      next
        fix net'
        assume "node_add_iface2 env r (fresh_iface ifid type) net = Some (ESUCCESS, net')" "topo_ok net'" "net_le net net'"
          "net_subnets net' = net_subnets net" "dom (net_nodes net') = dom (net_nodes net)"
          "\<And>q. iface_at net' q = (if q = (r, network ifid) then Some (fresh_iface ifid type) else iface_at net q)"
        with None run True show thesis by (intro that(2) [of net' "fresh_iface ifid type"]) (simp_all add: grown_def)
      qed
    qed (use that(1) run in \<open>auto simp: error_codes net_error_codes\<close>)
  qed
qed

lemma create_rtr_grown:
  assumes "topo_ok net" "net_nodes net src \<noteq> None" "net_nodes net dst \<noteq> None"
  shows "\<exists>e net'. net_link_create_rtr env src dst dir net = Some (e, net') \<and> grown net net'"
proof (cases "src = dst")
  case False
  show ?thesis
  proof (rule create_iface_effect [OF assms(1,2), of "net_iface_id_addr dst" NET_IFACE_RTR])
    fix e assume "net_link_create_iface env src (net_iface_id_addr dst) NET_IFACE_RTR net = Some (e, net)" "e \<noteq> ESUCCESS"
    then show ?thesis using False assms(1) by (simp add: net_link_create_rtr_def on_success_def)
  next
    fix net1 i
    assume 1: "net_link_create_iface env src (net_iface_id_addr dst) NET_IFACE_RTR net = Some (ESUCCESS, net1)" "grown net net1"
      "iface_at net1 (src, network (net_iface_id_addr dst)) = Some i" "iface_type i = NET_IFACE_RTR"
    have ok1: "topo_ok net1" and dst: "net_nodes net1 dst \<noteq> None" using 1(2) assms(3) by (auto simp: grown_def)
    show ?thesis
    proof (rule create_iface_effect [OF ok1 dst, of "net_iface_id_addr src" NET_IFACE_RTR])
      fix e assume "net_link_create_iface env dst (net_iface_id_addr src) NET_IFACE_RTR net1 = Some (e, net1)" "e \<noteq> ESUCCESS"
      then show ?thesis using False 1 by (simp add: net_link_create_rtr_def on_success_def)
    next
      fix net2 j
      assume 2: "net_link_create_iface env dst (net_iface_id_addr src) NET_IFACE_RTR net1 = Some (ESUCCESS, net2)" "grown net1 net2"
        "iface_at net2 (dst, network (net_iface_id_addr src)) = Some j" "iface_type j = NET_IFACE_RTR"
        "\<And>q. q \<noteq> (dst, network (net_iface_id_addr src)) \<Longrightarrow> iface_at net2 q = iface_at net1 q"
      have "iface_at net2 (src, dst) = Some i" "iface_at net2 (dst, src) = Some j"
        using 2(3,5) 1(3) False by (auto simp: net_iface_id_addr_def)
      then obtain e net3 where "net_link_connect (src, dst) (dst, src) dir net2 = Some (e, net3)" "grown net2 net3"
        using link_connect_rtr [of net2 src dst i j dir] 1(4) 2(2,4) by (auto simp: grown_def)
      then show ?thesis using False 1(1,2) 2(1,2)
        by (auto simp: net_link_create_rtr_def on_success_def intro: grown_trans)
    qed
  qed
qed (use assms(1) in \<open>simp add: net_link_create_rtr_def\<close>)

end

context net_arrays
begin

lemma create_ptp_grown:
  assumes "topo_ok net" "net_nodes net src \<noteq> None" "net_nodes net dst \<noteq> None" "pfx_wf src_id" "pfx_wf dst_id"
  shows "\<exists>e net'. net_link_create_ptp env src src_id dst dst_id BIDIR net = Some (e, net') \<and> grown net net'"
proof (cases "src \<noteq> dst \<and> mask src_id = mask dst_id \<and> ip_prefix_cmp src_id dst_id = Some 0 \<and> network src_id \<noteq> network dst_id")
  case True
  then have run: "net_link_create_ptp env src src_id dst dst_id BIDIR net =
      on_success (net_link_create_iface env src src_id NET_IFACE_PTP net) (\<lambda>net.
      on_success (net_link_create_iface env dst dst_id NET_IFACE_PTP net) (\<lambda>net.
        net_link_connect (src, network src_id) (dst, network dst_id) BIDIR net))"
    by (simp add: net_link_create_ptp_def)
  show ?thesis
  proof (rule create_iface_effect [OF assms(1,2), of src_id NET_IFACE_PTP])
    fix e assume "net_link_create_iface env src src_id NET_IFACE_PTP net = Some (e, net)" "e \<noteq> ESUCCESS"
    then show ?thesis using run assms(1) by (simp add: on_success_def)
  next
    fix net1 i
    assume 1: "net_link_create_iface env src src_id NET_IFACE_PTP net = Some (ESUCCESS, net1)" "grown net net1"
      "iface_at net1 (src, network src_id) = Some i" "iface_type i = NET_IFACE_PTP"
    have ok1: "topo_ok net1" and dst: "net_nodes net1 dst \<noteq> None" using 1(2) assms(3) by (auto simp: grown_def)
    show ?thesis
    proof (rule create_iface_effect [OF ok1 dst, of dst_id NET_IFACE_PTP])
      fix e assume "net_link_create_iface env dst dst_id NET_IFACE_PTP net1 = Some (e, net1)" "e \<noteq> ESUCCESS"
      then show ?thesis using run 1 by (simp add: on_success_def)
    next
      fix net2 j
      assume 2: "net_link_create_iface env dst dst_id NET_IFACE_PTP net1 = Some (ESUCCESS, net2)" "grown net1 net2"
        "iface_at net2 (dst, network dst_id) = Some j" "iface_type j = NET_IFACE_PTP"
        "\<And>q. q \<noteq> (dst, network dst_id) \<Longrightarrow> iface_at net2 q = iface_at net1 q"
      have "iface_at net2 (src, network src_id) = Some i" using 2(5) 1(3) True by auto
      note link_connect_ptp [OF _ this 2(3) 1(4) 2(4)]
      with 2(2) obtain e net3 where "net_link_connect (src, network src_id) (dst, network dst_id) BIDIR net2 = Some (e, net3)" "grown net2 net3"
        unfolding grown_def by blast
      then show ?thesis using run 1(1,2) 2(1,2) by (auto simp: on_success_def intro: grown_trans)
    qed
  qed
next
  case False
  with assms(1) ip_prefix_cmp_wf [OF assms(4,5)] show ?thesis
    by (auto simp: net_link_create_ptp_def split: if_splits)
qed

lemma create_ptmp_grown:
  assumes "topo_ok net" "net_nodes net src \<noteq> None" "net_subnets net p \<noteq> None"
  shows "\<exists>e net'. net_link_create_ptmp env src p addr net = Some (e, net') \<and> grown net net'"
proof -
  obtain node s where node: "net_nodes net src = Some node" and s: "net_subnets net p = Some s" using assms(2,3) by blast
  have s_ok: "subnet_prefix s = p" "mask p < 32" "strict_sorted_by net_subnet_link_compare (subnet_ifaces s)"
    using assms(1) s by (auto simp: topo_ok_def subnets_ok_def)
  let ?id = "\<lparr>network = addr, mask = mask p\<rparr>" and ?q = "(src, addr)"
  have allowed: "mask_allowed NET_IFACE_PTMP (mask ?id)" using s_ok(2) by (simp add: mask_allowed_def)
  have run: "net_link_create_ptmp env src p addr net =
      on_success (node_add_iface2 env src (fresh_iface ?id NET_IFACE_PTMP) net) (\<lambda>net.
      on_success (net_iface_connect_subnet ?q p net) (\<lambda>net. subnet_add_link env p ?q net))"
    using s s_ok(1) allowed by (simp add: net_link_create_ptmp_def net_iface_factory_eq)
  show ?thesis
  proof (rule add_iface_effect [OF assms(1) node allowed])
    assume "node_add_iface2 env src (fresh_iface ?id NET_IFACE_PTMP) net = Some (ENET_IFACE_DUPLICATE, net)"
    then show ?thesis using run assms(1) by (simp add: on_success_def error_codes net_error_codes)
  next
    fix net1
    assume 1: "iface_at net (src, network ?id) = None"
      "node_add_iface2 env src (fresh_iface ?id NET_IFACE_PTMP) net = Some (ESUCCESS, net1)" "topo_ok net1" "net_le net net1"
      "net_subnets net1 = net_subnets net" "dom (net_nodes net1) = dom (net_nodes net)"
      "\<And>q. iface_at net1 q = (if q = (src, network ?id) then Some (fresh_iface ?id NET_IFACE_PTMP) else iface_at net q)"
    let ?f = "\<lambda>i. i\<lparr>iface_dest := Some (DstSubnet p), iface_connected := True\<rparr>"
    let ?i = "?f (fresh_iface ?id NET_IFACE_PTMP)"
    let ?net2 = "iface_modify ?q ?f net1"
    have at2: "iface_at ?net2 q = (if q = ?q then Some ?i else iface_at net q)" for q
      using 1(7) by (simp add: iface_at_modify)
    have conn: "net_iface_connect_subnet ?q p net1 = Some (ESUCCESS, ?net2)"
      using 1(7) by (simp add: net_iface_connect_subnet_def)
    have nodes2: "nodes_ok ?net2" using 1(3) by (intro nodes_ok_modify) (simp_all add: topo_ok_def)
    have sub2: "net_subnets ?net2 = net_subnets net" using 1(5) by simp
    show ?thesis
    proof (cases "subnet_ifaces_add env (subnet_ifaces s) ?q")
      case None
      then have dup: "snd ?q \<in> snd ` set (subnet_ifaces s)"
        using subnet_array.add_new [OF s_ok(3) subnet_cmp_on, of ?q]
        by (force simp: net_subnet_link_compare_def split: if_splits)
      have le: "net_le net ?net2" using 1(1) by (auto simp: net_le_def at2 1(5))
      have "topo_ok ?net2"
      proof (rule topo_ok_step [OF assms(1) le nodes2])
        show "subnets_ok ?net2" using assms(1) le sub2 by (auto simp: topo_ok_def intro: subnets_ok_mono)
        show "iface_ok ?net2 q i" if "iface_at ?net2 q = Some i" "iface_at net q \<noteq> Some i" for q i
        proof -
          have "q = ?q" "i = ?i" using that by (auto simp: at2 split: if_splits)
          with dup s s_ok(2) show ?thesis by (simp add: iface_ok_def 1(5))
        qed
      qed
      then have "grown net ?net2" using le 1(5,6) by (simp add: grown_def)
      moreover have "subnet_add_link env p ?q ?net2 = Some (ENET_LINK_DUPLICATE, ?net2)"
        using None s 1(5) by (simp add: subnet_add_link_def)
      ultimately show ?thesis using run 1(2) conn by (simp add: on_success_def)
    next
      case (Some qs)
      then have qs: "set qs = insert ?q (set (subnet_ifaces s))" "strict_sorted_by net_subnet_link_compare qs"
        using subnet_array.add_Some [OF s_ok(3) subnet_cmp_on Some] by auto
      define net3 where "net3 = ?net2\<lparr>net_subnets := (net_subnets ?net2)(p \<mapsto> s\<lparr>subnet_ifaces := qs\<rparr>)\<rparr>"
      have at3: "iface_at net3 q = (if q = ?q then Some ?i else iface_at net q)" for q
        using at2 [of q] by (simp add: iface_at_def net3_def)
      have sub3: "net_subnets net3 = (net_subnets net)(p \<mapsto> s\<lparr>subnet_ifaces := qs\<rparr>)" by (simp add: net3_def 1(5))
      have le: "net_le net net3" using 1(1) s qs(1) by (auto simp: net_le_def at3 sub3)
      have ports: "port_ok net3 p' q'" if "net_subnets net p' = Some s'" "q' \<in> set (subnet_ifaces s')" for p' s' q'
        using that assms(1) by (intro port_ok_mono [OF _ le]) (auto simp: topo_ok_def subnets_ok_def)
      have "topo_ok net3"
      proof (rule topo_ok_step [OF assms(1) le])
        show "nodes_ok net3" using nodes2 by (simp add: nodes_ok_def net3_def)
        have "port_ok net3 p ?q" by (simp add: port_ok_def at3)
        then show "subnets_ok net3"
          using assms(1) s s_ok qs ports by (auto simp: topo_ok_def subnets_ok_def sub3)
        show "iface_ok net3 q i" if "iface_at net3 q = Some i" "iface_at net q \<noteq> Some i" for q i
          using that qs s s_ok(2) by (auto simp: at3 iface_ok_def sub3 image_iff split: if_splits)
      qed
      then have "grown net net3" using le 1(6) sub3 by (auto simp: grown_def net3_def)
      moreover have "subnet_add_link env p ?q ?net2 = Some (ESUCCESS, net3)"
        using Some s 1(5) by (simp add: subnet_add_link_def net3_def)
      ultimately show ?thesis using run 1(2) conn by (simp add: on_success_def)
    qed
  qed
qed

end

lemma set_attr_grown:
  assumes "topo_ok net" "iface_at net p = Some i" "attr_change f" "\<And>q i. iface_at net q = Some i \<Longrightarrow> ok i"
  shows "\<exists>e net'. iface_set_attr ok f p dir net = Some (e, net') \<and> grown net net'"
proof -
  have addr: "iface_addr (f i) = iface_addr i" and le: "iface_le i (f i)" for i
    using assms(3) by (simp_all add: attr_change_def iface_le_def)
  have step: "grown net' (iface_modify q f net')" if "topo_ok net'" for net' q
    using topo_ok_attr [OF that assms(3)] net_le_modify [OF le addr] by (simp add: grown_def)
  have rev: "\<exists>r. net_iface_get_reverse i = Some r \<and> (\<forall>q. r = Inr q \<longrightarrow> iface_at net q \<noteq> None)"
  proof -
    have "iface_ok net p i" using assms(1,2) unfolding topo_ok_def by blast
    then show ?thesis by (auto simp: net_iface_get_reverse_def net_iface_is_bidir_def net_iface_is_connected_def iface_ok_def)
  qed
  then obtain r where r: "net_iface_get_reverse i = Some r" "\<And>q. r = Inr q \<Longrightarrow> iface_at net q \<noteq> None" by blast
  have both: "grown net (iface_modify p f (iface_modify q f net))" for q
    by (rule grown_trans [OF step [OF assms(1)] step [OF topo_ok_attr [OF assms(1,3)]]])
  show ?thesis
  proof (cases "dir = BIDIR \<and> (\<exists>q. r = Inr q)")
    case True
    then obtain q j where "r = Inr q" "iface_at net q = Some j" using r(2) by blast
    with True r(1) both assms(2,4) show ?thesis by (auto simp: iface_set_attr_def)
  next
    case False
    with r(1) step [OF assms(1)] assms(1,2,4) show ?thesis
      by (cases dir; cases r) (auto simp: iface_set_attr_def)
  qed
qed

lemma load_clear_grown:
  assumes "topo_ok net"
  shows "grown net (network_ifaces_load_clear net)"
proof -
  let ?f = "\<lambda>i. i\<lparr>iface_load := 0\<rparr>"
  let ?net = "network_ifaces_load_clear net"
  have find: "find (\<lambda>i. iface_addr i = a) (map ?f is) = map_option ?f (find (\<lambda>i. iface_addr i = a) is)" for a "is"
    by (rule find_map_same) simp
  have at: "iface_at ?net q = map_option ?f (iface_at net q)" for q
    by (cases "net_nodes net (fst q)")
      (simp_all add: iface_at_def network_ifaces_load_clear_def node_ifaces_load_clear_def net_links_find_def find)
  have sub: "net_subnets ?net = net_subnets net" by (simp add: network_ifaces_load_clear_def)
  have dom: "dom (net_nodes ?net) = dom (net_nodes net)" by (auto simp: network_ifaces_load_clear_def)
  have le: "net_le net ?net" by (auto simp: net_le_def at sub iface_le_def)
  have "strict_sorted_by net_links_link_compare (map ?f is) = strict_sorted_by net_links_link_compare is" for "is"
    by (simp add: strict_sorted_addr comp_def)
  then have "nodes_ok ?net"
    using assms dom by (auto simp: topo_ok_def nodes_ok_def network_ifaces_load_clear_def node_ifaces_load_clear_def)
  moreover have "subnets_ok ?net" using assms le sub by (auto simp: topo_ok_def intro: subnets_ok_mono)
  moreover have "iface_ok ?net q i" if i: "iface_at ?net q = Some i" for q i
  proof -
    obtain j where j: "iface_at net q = Some j" "i = ?f j" using i by (auto simp: at)
    have "iface_ok net q j" using assms j(1) unfolding topo_ok_def by blast
    then have "iface_ok ?net q j" by (rule iface_ok_mono [OF _ le])
    then show ?thesis by (simp add: j(2) iface_ok_def split: iface_type.splits)
  qed
  ultimately show ?thesis using le dom sub by (simp add: grown_def topo_ok_def)
qed

lemma ip_prefix_mask_norm: "pfx_wf p \<Longrightarrow> ip_prefix_mask p = Some (pfx_norm p)"
  using ip_address_mask_Some [of "mask p"] and_ip_address_mask [of "mask p"]
  by (auto simp: ip_prefix_mask_def pfx_norm_def pfx_wf_def)

lemma add_subnet_grown:
  assumes "topo_ok net" "subnet_create addr m type = Some s"
  shows "\<exists>e net'. network_add_subnet s net = Some (e, net') \<and> grown net net'"
proof -
  let ?p = "pfx_norm \<lparr>network = addr, mask = m\<rparr>"
  have m: "m < 32" and s: "s = \<lparr>subnet_prefix = ?p, subnet_type = type, subnet_ifaces = []\<rparr>"
    using assms(2) by (auto simp: subnet_create_def ip_prefix_mask_norm pfx_wf_def elim!: bind_SomeE)
  have wf: "pfx_wf ?p" using m by (simp add: pfx_wf_def pfx_norm_def)
  have mp: "mask ?p = m" by (simp add: pfx_norm_def)
  show ?thesis
  proof (cases "net_subnets net ?p")
    case None
    let ?net = "net\<lparr>net_subnets := (net_subnets net)(?p \<mapsto> s)\<rparr>"
    have run: "network_add_subnet s net = Some (ESUCCESS, ?net)"
      using None wf by (simp add: network_add_subnet_def network_find_subnet_def s ip_prefix_mask_norm)
    have at: "iface_at ?net q = iface_at net q" for q by (simp add: iface_at_def)
    have le: "net_le net ?net" using None by (auto simp: net_le_def at)
    have "port_ok ?net p q = port_ok net p q" for p q by (simp add: port_ok_def at)
    then have "subnets_ok ?net" using assms(1) m mp by (auto simp: topo_ok_def subnets_ok_def s strict_sorted_by_def)
    moreover have "nodes_ok ?net" using assms(1) by (simp add: topo_ok_def nodes_ok_def)
    ultimately have "topo_ok ?net" using assms(1) by (intro topo_ok_step [OF assms(1) le]) (auto simp: at)
    with run le show ?thesis by (auto simp: grown_def)
  qed (use assms(1) wf in \<open>simp add: network_add_subnet_def network_find_subnet_def s ip_prefix_mask_norm\<close>)
qed

context net_arrays
begin

lemma node_create_Inr:
  assumes "node_create env rt r loopback = Some (Inr node)"
  shows "node_rid node = r \<and> ifaces node = (if loopback then [fresh_iface (net_iface_id_addr r) NET_IFACE_LOOPBACK] else [])"
proof -
  let ?i = "fresh_iface (net_iface_id_addr r) NET_IFACE_LOOPBACK"
  have "ifaces_add env [] ?i = Some [?i]"
    using node_array.add_new [of "[]" ?i] links_cmp_on by (simp add: strict_sorted_by_def)
  with assms show ?thesis
    by (auto simp: node_create_def net_iface_factory_eq mask_allowed_def net_iface_id_addr_def net_links_add_def split: if_splits)
qed

lemma add_node_grown:
  assumes "topo_ok net" "node_create env rt r loopback = Some (Inr node)"
  shows "grown net (snd (network_add_node node net))"
proof (cases "net_nodes net r")
  case None
  note node = node_create_Inr [OF assms(2)]
  let ?net = "net\<lparr>net_nodes := (net_nodes net)(r \<mapsto> node)\<rparr>"
  let ?i = "fresh_iface (net_iface_id_addr r) NET_IFACE_LOOPBACK"
  have run: "network_add_node node net = (ESUCCESS, ?net)"
    using None node by (simp add: network_add_node_def network_find_node_def)
  have at: "iface_at ?net q = (if fst q = r then if loopback \<and> snd q = r then Some ?i else None else iface_at net q)" for q
    using node by (auto simp: iface_at_def net_links_find_def net_iface_id_addr_def)
  have le: "net_le net ?net"
    using None by (auto simp: net_le_def at iface_at_def)
  have "nodes_ok ?net" using assms(1) node by (auto simp: topo_ok_def nodes_ok_def strict_sorted_by_def)
  moreover have "subnets_ok ?net" using assms(1) le by (auto simp: topo_ok_def intro: subnets_ok_mono)
  moreover have "iface_ok ?net q i" if "iface_at ?net q = Some i" "iface_at net q \<noteq> Some i" for q i
    using that by (auto simp: at mask_allowed_def net_iface_id_addr_def intro!: fresh_iface_ok split: if_splits)
  ultimately have "topo_ok ?net" by (rule topo_ok_step [OF assms(1) le])
  with run le show ?thesis by (auto simp: grown_def)
next
  case (Some n)
  with node_create_Inr [OF assms(2)] assms(1) show ?thesis by (simp add: network_add_node_def network_find_node_def)
qed

lemma node_add_iface_grown:
  assumes "topo_ok net" "net_nodes net r \<noteq> None"
  shows "\<exists>e net'. node_add_iface env r ifid type net = Some (e, net') \<and> grown net net'"
proof (cases "mask_allowed type (mask ifid)")
  case True
  obtain node where node: "net_nodes net r = Some node" using assms(2) by blast
  show ?thesis
    by (rule add_iface_effect [OF assms(1) node True])
      (use assms(1) True in \<open>simp_all add: node_add_iface_def net_iface_factory_eq grown_def\<close>)
qed (use assms(1) in \<open>simp add: node_add_iface_def net_iface_factory_eq\<close>)

end

section \<open>Building a network\<close>

text \<open>The commands that build a network, with the arguments the callers check (nodes and subnets are looked up before they
  are used).  Point-to-point links are always created in both directions.  A command that fails is a step too.\<close>

inductive topo_step :: "net_env \<Rightarrow> 't network_t \<Rightarrow> 't network_t \<Rightarrow> bool" for env :: net_env where
  step_node: "node_create env rt r loopback = Some (Inr node) \<Longrightarrow> topo_step env net (snd (network_add_node node net))"
| step_subnet: "subnet_create addr m type = Some s \<Longrightarrow> network_add_subnet s net = Some (e, net') \<Longrightarrow> topo_step env net net'"
| step_iface: "net_nodes net r \<noteq> None \<Longrightarrow> node_add_iface env r ifid itype net = Some (e, net') \<Longrightarrow> topo_step env net net'"
| step_rtr: "net_nodes net src \<noteq> None \<Longrightarrow> net_nodes net dst \<noteq> None \<Longrightarrow>
    net_link_create_rtr env src dst dir net = Some (e, net') \<Longrightarrow> topo_step env net net'"
| step_ptp: "net_nodes net src \<noteq> None \<Longrightarrow> net_nodes net dst \<noteq> None \<Longrightarrow> pfx_wf src_id \<Longrightarrow> pfx_wf dst_id \<Longrightarrow>
    net_link_create_ptp env src src_id dst dst_id BIDIR net = Some (e, net') \<Longrightarrow> topo_step env net net'"
| step_ptmp: "net_nodes net src \<noteq> None \<Longrightarrow> net_subnets net p \<noteq> None \<Longrightarrow>
    net_link_create_ptmp env src p addr net = Some (e, net') \<Longrightarrow> topo_step env net net'"
| step_enabled: "topo_step env net (net_iface_set_enabled ptr b net)"
| step_metric: "iface_at net ptr = Some i \<Longrightarrow> net_iface_set_metric ptr 0 w dir net = Some (e, net') \<Longrightarrow> topo_step env net net'"
| step_delay: "iface_at net ptr = Some i \<Longrightarrow> net_iface_set_delay ptr w dir net = Some (e, net') \<Longrightarrow> topo_step env net net'"
| step_capacity: "iface_at net ptr = Some i \<Longrightarrow> net_iface_set_capacity ptr w dir net = Some (e, net') \<Longrightarrow> topo_step env net net'"
| step_load: "topo_step env net (network_ifaces_load_clear net)"

inductive topo_run :: "net_env \<Rightarrow> 't network_t \<Rightarrow> bool" for env :: net_env where
  run_create: "topo_run env network_create"
| run_step: "topo_run env net \<Longrightarrow> topo_step env net net' \<Longrightarrow> topo_run env net'"

lemma attr_changes:
  "attr_change (net_iface_set_flag flag b)" "attr_change (\<lambda>i. i\<lparr>iface_weights := (iface_weights i)[tos := w]\<rparr>)"
  "attr_change (\<lambda>i. i\<lparr>iface_delay := w\<rparr>)" "attr_change (\<lambda>i. i\<lparr>iface_capacity := w\<rparr>)"
  by (simp_all add: attr_change_def net_iface_set_flag_def)

lemma topo_weights: "topo_ok net \<Longrightarrow> iface_at net q = Some i \<Longrightarrow> length (iface_weights i) = 1"
  unfolding topo_ok_def iface_ok_def by blast

lemma set_attrs_grown:
  assumes "topo_ok net" "iface_at net p = Some i"
  shows "\<exists>e net'. net_iface_set_metric p 0 w dir net = Some (e, net') \<and> grown net net'"
    "\<exists>e net'. net_iface_set_delay p w dir net = Some (e, net') \<and> grown net net'"
    "\<exists>e net'. net_iface_set_capacity p w dir net = Some (e, net') \<and> grown net net'"
  unfolding net_iface_set_metric_def net_iface_set_delay_def net_iface_set_capacity_def
  by (rule set_attr_grown [OF assms attr_changes(2)], use topo_weights [OF assms(1)] in force,
      rule set_attr_grown [OF assms attr_changes(3) TrueI], rule set_attr_grown [OF assms attr_changes(4) TrueI])

lemma network_create_ok: "topo_ok network_create"
  by (simp add: topo_ok_def nodes_ok_def subnets_ok_def network_create_def iface_at_def)

context net_arrays
begin

lemma topo_step_grown: "topo_step env net net' \<Longrightarrow> topo_ok net \<Longrightarrow> grown net net'"
proof (induction rule: topo_step.induct)
  case (step_node rt r loopback node net)
  then show ?case by (intro add_node_grown)
next
  case (step_enabled net ptr b)
  then show ?case
    unfolding net_iface_set_enabled_def
    using topo_ok_attr [OF step_enabled attr_changes(1)] net_le_modify [of net ptr "net_iface_set_flag NET_LINK_FLAG_UP b"]
    by (simp add: grown_def iface_le_def net_iface_set_flag_def)
next
  case (step_load net)
  then show ?case by (rule load_clear_grown)
next
  case (step_rtr net src dst dir e net')
  then show ?case using create_rtr_grown [OF step_rtr(4,1,2), of dir] by auto
next
  case (step_ptp net src dst src_id dst_id e net')
  then show ?case using create_ptp_grown [OF step_ptp(6,1,2,3,4)] by auto
next
  case (step_ptmp net src p addr e net')
  then show ?case using create_ptmp_grown [OF step_ptmp(4,1,2), of addr] by auto
next
  case (step_iface net r ifid itype e net')
  then show ?case using node_add_iface_grown [OF step_iface(3,1), of ifid itype] by auto
next
  case (step_subnet addr m type s net e net')
  then show ?case using add_subnet_grown [OF step_subnet(3,1)] by auto
next
  case (step_metric net ptr i w dir e net')
  then show ?case using set_attrs_grown(1) [OF step_metric(3,1), of w dir] by auto
next
  case (step_delay net ptr i w dir e net')
  then show ?case using set_attrs_grown(2) [OF step_delay(3,1), of w dir] by auto
next
  case (step_capacity net ptr i w dir e net')
  then show ?case using set_attrs_grown(3) [OF step_capacity(3,1), of w dir] by auto
qed

lemma topo_run_ok: "topo_run env net \<Longrightarrow> topo_ok net"
  by (induction rule: topo_run.induct) (auto simp: network_create_ok grown_def dest: topo_step_grown)

lemma create_rtr_links:
  assumes "topo_ok net" "net_nodes net src \<noteq> None" "net_nodes net dst \<noteq> None" "src \<noteq> dst"
    and "iface_at net (src, dst) = None" "iface_at net (dst, src) = None"
  obtains net' i j where "net_link_create_rtr env src dst BIDIR net = Some (ESUCCESS, net')" "grown net net'"
    "iface_at net' (src, dst) = Some i" "iface_connected i" "iface_dest i = Some (DstIface (dst, src))"
    "iface_at net' (dst, src) = Some j" "iface_connected j" "iface_dest j = Some (DstIface (src, dst))"
    "\<And>q. q \<notin> {(src, dst), (dst, src)} \<Longrightarrow> iface_at net' q = iface_at net q"
proof -
  obtain n1 where n1: "net_nodes net src = Some n1" using assms(2) by blast
  let ?a = "fresh_iface (net_iface_id_addr dst) NET_IFACE_RTR" and ?b = "fresh_iface (net_iface_id_addr src) NET_IFACE_RTR"
  have m: "mask_allowed NET_IFACE_RTR (mask (net_iface_id_addr a))" for a
    by (simp add: mask_allowed_def net_iface_id_addr_def)
  have run: "net_link_create_iface env r (net_iface_id_addr a) NET_IFACE_RTR n = node_add_iface2 env r (fresh_iface (net_iface_id_addr a) NET_IFACE_RTR) n"
    if "iface_at n (r, a) = None" "net_nodes n r \<noteq> None" for n :: "'a network_t" and r a
    using that m by (auto simp: net_link_create_iface_def node_find_iface_def net_iface_factory_eq iface_at_def
        net_links_find_def net_iface_id_addr_def)
  show thesis
  proof (rule add_iface_effect [OF assms(1) n1 m [of dst]], use assms(5) in \<open>simp add: net_iface_id_addr_def\<close>)
    fix net1
    assume 1: "node_add_iface2 env src ?a net = Some (ESUCCESS, net1)" "topo_ok net1" "net_le net net1"
      "dom (net_nodes net1) = dom (net_nodes net)"
      "\<And>q. iface_at net1 q = (if q = (src, network (net_iface_id_addr dst)) then Some ?a else iface_at net q)"
    have at1: "iface_at net1 q = (if q = (src, dst) then Some ?a else iface_at net q)" for q
      using 1(5) by (simp add: net_iface_id_addr_def)
    obtain n2 where n2: "net_nodes net1 dst = Some n2" using assms(3) 1(4) by (metis domD domI option.exhaust)
    show thesis
    proof (rule add_iface_effect [OF 1(2) n2 m [of src]], use assms(4,6) at1 in \<open>simp add: net_iface_id_addr_def\<close>)
      fix net2
      assume 2: "node_add_iface2 env dst ?b net1 = Some (ESUCCESS, net2)" "topo_ok net2" "net_le net1 net2"
        "\<And>q. iface_at net2 q = (if q = (dst, network (net_iface_id_addr src)) then Some ?b else iface_at net1 q)"
      have at2: "iface_at net2 q = (if q = (dst, src) then Some ?b else if q = (src, dst) then Some ?a else iface_at net q)" for q
        using 2(4) at1 by (simp add: net_iface_id_addr_def)
      let ?f = "\<lambda>d i. i\<lparr>iface_dest := Some (DstIface d), iface_connected := True\<rparr>"
      let ?net3 = "iface_modify (dst, src) (?f (src, dst)) (iface_modify (src, dst) (?f (dst, src)) net2)"
      have at3: "iface_at ?net3 q = (if q = (dst, src) then Some (?f (src, dst) ?b)
          else if q = (src, dst) then Some (?f (dst, src) ?a) else iface_at net q)" for q
        using assms(4) by (simp add: iface_at_modify at2)
      have c: "net_link_connect (src, dst) (dst, src) BIDIR net2 = Some (ESUCCESS, ?net3)"
        using assms(4) by (simp add: net_link_connect_def on_success_def net_iface_connect_iface_def at2 iface_at_modify net_iface_id_addr_def)
      have "net_link_create_rtr env src dst BIDIR net = Some (ESUCCESS, ?net3)"
        using assms run [of net src dst] run [of net1 dst src] at1 n2 1(1) 2(1) c
        by (simp add: net_link_create_rtr_def on_success_def)
      moreover from this have "grown net ?net3" using create_rtr_grown [OF assms(1-3), of BIDIR] by simp
      ultimately show thesis using assms(4) by (intro that [of ?net3 "?f (dst, src) ?a" "?f (src, dst) ?b"]) (simp_all add: at3)
    qed
  qed
qed

end

definition sample_net_env :: net_env where
  "sample_net_env = \<lparr>ifaces_add = insort_unique net_links_link_compare, subnet_ifaces_add = insort_unique net_subnet_link_compare\<rparr>"

interpretation sample_arrays: net_arrays sample_net_env
  by (simp add: net_arrays_def sample_net_env_def insort.gds_sorted_array_axioms)

section \<open>Properties\<close>

text \<open>C21: Every network built by the following commands, failed ones included, satisfies the invariant of the topology: adding a
  node, a subnet or an interface, creating a router-to-router link, a bidirectional point-to-point link or a link to a subnet,
  enabling and disabling an interface, setting a metric, delay or capacity, and clearing the loads.  Tunnels
  and the unidirectional point-to-point links of the Java interface are not among the commands.  The
  invariant says that the lists of interfaces are ordered, links of router-to-router interfaces are named after their ends,
  point-to-point links are connected at both ends, and subnets and their ports refer to each other.\<close>

theorem topology_invariant:
  assumes "net_arrays env" "topo_run env net"
  shows "topo_ok net"
  by (rule net_arrays.topo_run_ok [OF assms])

definition sample_node :: "net_addr \<Rightarrow> unit net_node" where
  "sample_node r = \<lparr>node_rid = r, ifaces = [fresh_iface (net_iface_id_addr r) NET_IFACE_LOOPBACK], node_rt = (), node_domains = []\<rparr>"

definition sample_pair :: "unit network_t" where
  "sample_pair = snd (network_add_node (sample_node 2) (snd (network_add_node (sample_node 1) network_create)))"

lemma sample_node_create: "r \<noteq> 0 \<Longrightarrow> node_create sample_net_env () r True = Some (Inr (sample_node r))"
  by (simp add: node_create_def sample_node_def net_iface_factory_eq mask_allowed_def net_iface_id_addr_def net_links_add_def
      sample_net_env_def IP_ADDR_ANY_def)

lemma sample_pair_run: "topo_run sample_net_env sample_pair"
  unfolding sample_pair_def
  by (rule run_step [OF run_step [OF run_create step_node [OF sample_node_create]] step_node [OF sample_node_create]]) simp_all

lemma sample_pair_nodes: "net_nodes sample_pair 1 = Some (sample_node 1)" "net_nodes sample_pair 2 = Some (sample_node 2)"
  by (simp_all add: sample_pair_def network_add_node_def network_find_node_def network_create_def sample_node_def)

theorem topology_invariant_witness:
  "\<exists>net e. net_link_create_rtr sample_net_env 1 2 BIDIR sample_pair = Some (e, net) \<and> topo_ok net"
proof -
  obtain e net where run: "net_link_create_rtr sample_net_env 1 2 BIDIR sample_pair = Some (e, net)"
    using sample_arrays.create_rtr_grown [OF sample_arrays.topo_run_ok [OF sample_pair_run], of 1 2 BIDIR]
    by (auto simp: sample_pair_nodes)
  have "topo_run sample_net_env net"
    by (rule run_step [OF sample_pair_run step_rtr [OF _ _ run]]) (simp_all add: sample_pair_nodes)
  from topology_invariant [OF sample_arrays.net_arrays_axioms this] run show ?thesis by blast
qed

text \<open>C22: Creating a router-to-router link between two nodes never stops the program and keeps the invariant; a loop is refused
  without effect; between two different nodes that have no interface for each other it succeeds, connects the two new interfaces to each
  other and changes no other interface.\<close>

theorem create_rtr_correct:
  assumes "net_arrays env" "topo_ok net" "net_nodes net src \<noteq> None" "net_nodes net dst \<noteq> None"
  shows "\<exists>e net'. net_link_create_rtr env src dst BIDIR net = Some (e, net') \<and> topo_ok net'
    \<and> (src = dst \<longrightarrow> e = ENET_LINK_LOOP \<and> net' = net)
    \<and> (src \<noteq> dst \<and> iface_at net (src, dst) = None \<and> iface_at net (dst, src) = None \<longrightarrow> e = ESUCCESS
       \<and> (\<exists>i j. iface_at net' (src, dst) = Some i \<and> iface_connected i \<and> iface_dest i = Some (DstIface (dst, src))
            \<and> iface_at net' (dst, src) = Some j \<and> iface_connected j \<and> iface_dest j = Some (DstIface (src, dst)))
       \<and> (\<forall>q. q \<notin> {(src, dst), (dst, src)} \<longrightarrow> iface_at net' q = iface_at net q))"
proof (cases "src \<noteq> dst \<and> iface_at net (src, dst) = None \<and> iface_at net (dst, src) = None")
  case True
  then have new: "src \<noteq> dst" "iface_at net (src, dst) = None" "iface_at net (dst, src) = None" by blast+
  show ?thesis
    by (rule net_arrays.create_rtr_links [OF assms new]) (use new(1) in \<open>auto simp: grown_def\<close>)
next
  case False
  obtain e net' where run: "net_link_create_rtr env src dst BIDIR net = Some (e, net')" "grown net net'"
    using net_arrays.create_rtr_grown [OF assms] by blast
  moreover have "src = dst \<Longrightarrow> net_link_create_rtr env src dst BIDIR net = Some (ENET_LINK_LOOP, net)"
    by (simp add: net_link_create_rtr_def)
  ultimately show ?thesis using False by (auto simp: grown_def)
qed

theorem create_rtr_correct_witness:
  "\<exists>net' i. net_link_create_rtr sample_net_env 1 2 BIDIR sample_pair = Some (ESUCCESS, net') \<and> topo_ok net'
     \<and> iface_at net' (1, 2) = Some i \<and> iface_dest i = Some (DstIface (2, 1))"
proof -
  have "iface_at sample_pair (1, 2) = None" "iface_at sample_pair (2, 1) = None"
    by (simp_all add: iface_at_def sample_pair_nodes sample_node_def net_links_find_def net_iface_id_addr_def)
  with create_rtr_correct [OF sample_arrays.net_arrays_axioms sample_arrays.topo_run_ok [OF sample_pair_run], of 1 2]
  show ?thesis by (auto simp: sample_pair_nodes)
qed

end

