(* ===== verification/Igp_Spt.thy ===== *)
theory Igp_Spt imports Net_Topology begin

text \<open>
  Shortest paths inside an IGP domain (\<open>src/net/igp.c\<close>, \<open>src/net/spt.h\<close>).  A vertex of the tree is a router, a subnet or a point-to-point
  link; its identifier is the prefix of that element.  Predecessors and successors are arrays of pointers, kept sorted and without
  duplicates by the library; they are named here by the identifiers of the vertices, and the insertion is a parameter with the contract
  of the locale \<open>gds_ptr_array\<close>.  The search is the loop of \<open>spt_bfs\<close> over the queue of contexts: a vertex whose weight improves is
  pushed again, so that the loop is a label-correcting one, and its result is \<^term>\<open>None\<close> when the queue overflows.

  The graph of a domain, its paths and their lengths are stated independently of the search.  The lemmas give the effect of one relaxation,
  of one visit and of the loop: every weight is the length of a path; when no point-to-point link takes part, every edge is relaxed
  when the loop ends, so that the weights are minimal and the predecessors are exactly those on shortest paths.
\<close>

unbundle bit_operations_syntax

section \<open>Elements\<close>

type_synonym spt_vertices = "ip_pfx list"

record spt_vertex =
  preds :: spt_vertices
  succs :: spt_vertices
  weight :: "32 word"
  elem :: net_elem
  vertex_id :: ip_pfx

type_synonym spt_tree = "ip_pfx \<rightharpoonup> spt_vertex"

record spt_context =
  ctx_iif :: "iface_ptr option"
  ctx_vertex :: ip_pfx

record spt_comp =
  spt :: spt_tree
  fifo :: "spt_context list"

definition igp_domain_contains_router_by_addr :: "net_addr list \<Rightarrow> net_addr \<Rightarrow> bool" where
  "igp_domain_contains_router_by_addr domain addr = (addr \<in> set domain)"

definition igp_domain_contains_router :: "net_addr list \<Rightarrow> net_addr \<Rightarrow> bool" where
  "igp_domain_contains_router domain r = igp_domain_contains_router_by_addr domain r"

definition net_elem_prefix :: "'t network_t \<Rightarrow> net_elem \<Rightarrow> ip_pfx option" where
  "net_elem_prefix net el =
     (case el of
        LINK ptr \<Rightarrow> map_option net_iface_dst_prefix (iface_at net ptr)
      | NODE r \<Rightarrow> Some (net_iface_id_addr r)
      | SUBNET p \<Rightarrow> map_option subnet_prefix (net_subnets net p))"

section \<open>The shortest-path tree\<close>

text \<open>The key of the radix tree is the masked prefix.  \<open>vadd\<close> adds to an array of pointers that is sorted by address
  and has no duplicates.\<close>

definition spt_vertex_create :: "'t network_t \<Rightarrow> net_elem \<Rightarrow> 32 word \<Rightarrow> spt_vertex option" where
  "spt_vertex_create net el w = do {
     prefix \<leftarrow> net_elem_prefix net el;
     vid \<leftarrow> ip_prefix_mask prefix;
     Some \<lparr>preds = [], succs = [], weight = w, elem = el, vertex_id = vid\<rparr>
   }"

definition spt_get_vertex :: "spt_tree \<Rightarrow> ip_pfx \<Rightarrow> spt_vertex option" where
  "spt_get_vertex tree prefix = tree (pfx_norm prefix)"

definition spt_set_vertex :: "spt_vertex \<Rightarrow> spt_tree \<Rightarrow> spt_tree" where
  "spt_set_vertex vertex tree = tree(pfx_norm (vertex_id vertex) \<mapsto> vertex)"

definition spt_vertex_add_pred :: "ip_pfx sorted_add \<Rightarrow> ip_pfx \<Rightarrow> ip_pfx \<Rightarrow> spt_tree \<Rightarrow> spt_tree option" where
  "spt_vertex_add_pred vadd v pred tree = do {
     vertex \<leftarrow> tree v;
     case vadd (preds vertex) pred of
       None \<Rightarrow> Some tree
     | Some ps \<Rightarrow>
         let tree = tree(v \<mapsto> vertex\<lparr>preds := ps\<rparr>) in do {
         pred_vertex \<leftarrow> tree pred;
         ss \<leftarrow> vadd (succs pred_vertex) v;
         Some (tree(pred \<mapsto> pred_vertex\<lparr>succs := ss\<rparr>))
       }
   }"

fun clear_preds_loop :: "ip_pfx \<Rightarrow> spt_vertices \<Rightarrow> spt_tree \<Rightarrow> spt_tree option" where
  "clear_preds_loop v [] tree = Some tree"
| "clear_preds_loop v (pred # ps) tree = do {
     pred_vertex \<leftarrow> tree pred;
     index2 \<leftarrow> find_index_from 0 (\<lambda>s. s = v) (succs pred_vertex);
     clear_preds_loop v ps (tree(pred \<mapsto> pred_vertex\<lparr>succs := remove_at index2 (succs pred_vertex)\<rparr>))
   }"

definition spt_vertex_clear_preds :: "ip_pfx \<Rightarrow> spt_tree \<Rightarrow> spt_tree option" where
  "spt_vertex_clear_preds v tree = do {
     vertex \<leftarrow> tree v;
     tree \<leftarrow> clear_preds_loop v (preds vertex) tree;
     vertex \<leftarrow> tree v;
     Some (tree(v \<mapsto> vertex\<lparr>preds := []\<rparr>))
   }"

definition spt_create :: "'t network_t \<Rightarrow> net_addr \<Rightarrow> (ip_pfx \<times> spt_tree) option" where
  "spt_create net root = do {
     vertex \<leftarrow> spt_vertex_create net (NODE root) 0;
     Some (net_iface_id_addr root, [net_iface_id_addr root \<mapsto> vertex])
   }"

section \<open>The search\<close>

text \<open>The vertex to visit again, if any, and the tree.\<close>

definition spt_update_node ::
    "'t network_t \<Rightarrow> ip_pfx sorted_add \<Rightarrow> net_elem \<Rightarrow> ip_pfx \<Rightarrow> 32 word \<Rightarrow> spt_tree \<Rightarrow> (ip_pfx option \<times> spt_tree) option" where
  "spt_update_node net vadd el prev w tree = do {
     prefix \<leftarrow> net_elem_prefix net el;
     case spt_get_vertex tree prefix of
       None \<Rightarrow> do {
         vertex \<leftarrow> spt_vertex_create net el w;
         tree \<leftarrow> spt_vertex_add_pred vadd (vertex_id vertex) prev (spt_set_vertex vertex tree);
         Some (Some (vertex_id vertex), tree)
       }
     | Some vertex \<Rightarrow>
         let v = vertex_id vertex in
         if weight vertex > w then do {
           tree \<leftarrow> spt_vertex_clear_preds v (tree(v \<mapsto> vertex\<lparr>weight := w\<rparr>));
           tree \<leftarrow> spt_vertex_add_pred vadd v prev tree;
           Some (Some v, tree)
         }
         else if weight vertex = w then do {
           tree \<leftarrow> spt_vertex_add_pred vadd v prev tree;
           Some (None, tree)
         }
         else Some (None, tree)
   }"

definition SPT_FIFO_DEPTH :: nat where "SPT_FIFO_DEPTH = 100000"

definition spt_push :: "nat \<Rightarrow> iface_ptr option \<Rightarrow> ip_pfx \<Rightarrow> spt_comp \<Rightarrow> spt_comp option" where
  "spt_push depth iif v sc = do {
     assert_opt (length (fifo sc) < depth);
     Some (sc\<lparr>fifo := fifo sc @ [\<lparr>ctx_iif = iif, ctx_vertex = v\<rparr>]\<rparr>)
   }"

text \<open>Copying the destination of an interface that was never connected: the element is not used, because the link is skipped for
  not being connected.\<close>

definition unset :: "net_iface \<Rightarrow> net_elem option option" where
  "unset iface = (if net_iface_is_connected iface then None else Some None)"

definition link_get_next_elem :: "'t network_t \<Rightarrow> net_elem \<Rightarrow> iface_ptr \<Rightarrow> net_elem option option" where
  "link_get_next_elem net from link = do {
     iface \<leftarrow> iface_at net link;
     case from of
       NODE r \<Rightarrow>
         (case iface_type iface of
            NET_IFACE_LOOPBACK \<Rightarrow> Some None
          | NET_IFACE_VIRTUAL \<Rightarrow> Some None
          | NET_IFACE_PTMP \<Rightarrow> (case iface_dest iface of Some (DstSubnet p) \<Rightarrow> Some (Some (SUBNET p)) | _ \<Rightarrow> unset iface)
          | NET_IFACE_RTR \<Rightarrow> map_option (\<lambda>owner. Some (NODE owner)) (dest_owner iface)
          | NET_IFACE_PTP \<Rightarrow> (case iface_dest iface of Some (DstIface ptr) \<Rightarrow> Some (Some (LINK ptr)) | _ \<Rightarrow> unset iface))
     | SUBNET p \<Rightarrow> Some (Some (NODE (fst link)))
     | LINK ptr \<Rightarrow> map_option (\<lambda>owner. Some (NODE owner)) (dest_owner iface)
   }"

definition link_traverse ::
    "'t network_t \<Rightarrow> net_addr list \<Rightarrow> ip_pfx sorted_add \<Rightarrow> nat \<Rightarrow> spt_context \<Rightarrow> iface_ptr \<Rightarrow> spt_comp \<Rightarrow> spt_comp option" where
  "link_traverse net domain vadd depth context link sc = do {
     vertex \<leftarrow> spt sc (ctx_vertex context);
     next_elem \<leftarrow> link_get_next_elem net (elem vertex) link;
     case next_elem of
       None \<Rightarrow> Some sc
     | Some next_elem \<Rightarrow>
         if (case next_elem of NODE r \<Rightarrow> \<not> igp_domain_contains_router domain r | _ \<Rightarrow> False) then Some sc
         else do {
           back \<leftarrow> (case ctx_iif context of
                      None \<Rightarrow> Some False
                    | Some iif \<Rightarrow> map_option (\<lambda>i. iface_dest i = Some (DstIface link)) (iface_at net iif));
           if back then Some sc
           else do {
             iface \<leftarrow> iface_at net link;
             if \<not> net_iface_is_enabled iface \<or> \<not> net_iface_is_connected iface then Some sc
             else do {
               w \<leftarrow> (case elem vertex of LINK _ \<Rightarrow> Some 0 | _ \<Rightarrow> net_iface_get_metric iface 0);
               if (case elem vertex of LINK _ \<Rightarrow> False | _ \<Rightarrow> w = 0 \<or> w = IGP_MAX_WEIGHT) then Some sc
               else
                 let w = (case elem vertex of SUBNET _ \<Rightarrow> weight vertex | _ \<Rightarrow> net_igp_add_weights (weight vertex) w) in
                 if (case elem vertex of SUBNET _ \<Rightarrow> False | _ \<Rightarrow> w = IGP_MAX_WEIGHT) then Some sc
                 else do {
                   (next_vertex, tree) \<leftarrow> spt_update_node net vadd next_elem (ctx_vertex context) w (spt sc);
                   case next_vertex of
                     None \<Rightarrow> Some (sc\<lparr>spt := tree\<rparr>)
                   | Some v \<Rightarrow> spt_push depth (Some link) v (sc\<lparr>spt := tree\<rparr>)
                 }
             }
           }
         }
   }"

fun traverse_all ::
    "'t network_t \<Rightarrow> net_addr list \<Rightarrow> ip_pfx sorted_add \<Rightarrow> nat \<Rightarrow> spt_context \<Rightarrow> iface_ptr list \<Rightarrow> spt_comp \<Rightarrow> spt_comp option" where
  "traverse_all net domain vadd depth context [] sc = Some sc"
| "traverse_all net domain vadd depth context (link # links) sc = do {
     sc \<leftarrow> link_traverse net domain vadd depth context link sc;
     traverse_all net domain vadd depth context links sc
   }"

text \<open>The links that leave an element.\<close>

definition elem_links :: "'t network_t \<Rightarrow> net_elem \<Rightarrow> iface_ptr list option" where
  "elem_links net el =
     (case el of
        NODE r \<Rightarrow> map_option (\<lambda>node. map (\<lambda>i. (r, iface_addr i)) (ifaces node)) (net_nodes net r)
      | SUBNET p \<Rightarrow> map_option (\<lambda>subnet. if subnet_is_transit subnet then subnet_ifaces subnet else []) (net_subnets net p)
      | LINK ptr \<Rightarrow> do {
          i \<leftarrow> iface_at net ptr;
          case iface_dest i of Some (DstIface link) \<Rightarrow> Some [link] | _ \<Rightarrow> None
        })"

partial_function (option) spt_bfs_loop ::
    "'t network_t \<Rightarrow> net_addr list \<Rightarrow> ip_pfx sorted_add \<Rightarrow> nat \<Rightarrow> spt_comp \<Rightarrow> spt_tree option" where
  "spt_bfs_loop net domain vadd depth sc =
     (case fifo sc of
        [] \<Rightarrow> Some (spt sc)
      | context # rest \<Rightarrow> do {
          vertex \<leftarrow> spt sc (ctx_vertex context);
          links \<leftarrow> elem_links net (elem vertex);
          sc \<leftarrow> traverse_all net domain vadd depth context links (sc\<lparr>fifo := rest\<rparr>);
          spt_bfs_loop net domain vadd depth sc
        })"

text \<open>The depth of the queue, beyond which the program stops, is an argument; the only caller, \<open>igp_compute_domain\<close>, computes with the
  depth \<open>SPT_FIFO_DEPTH\<close> that the source fixes.\<close>

definition spt_bfs :: "'t network_t \<Rightarrow> ip_pfx sorted_add \<Rightarrow> nat \<Rightarrow> net_addr \<Rightarrow> net_addr list \<Rightarrow> spt_tree option" where
  "spt_bfs net vadd depth root domain = do {
     (v, tree) \<leftarrow> spt_create net root;
     sc \<leftarrow> spt_push depth None v \<lparr>spt = tree, fifo = []\<rparr>;
     spt_bfs_loop net domain vadd depth sc
   }"

section \<open>Arrays of vertices\<close>

locale gds_ptr_array =
  fixes vadd :: "'a sorted_add"
  assumes add_new: "distinct xs \<Longrightarrow> x \<notin> set xs \<Longrightarrow> \<exists>ys. vadd xs x = Some ys \<and> set ys = insert x (set xs) \<and> distinct ys"
    and add_present: "distinct xs \<Longrightarrow> x \<in> set xs \<Longrightarrow> vadd xs x = None"

text \<open>The predecessors of a vertex, and the vertex without the arrays.\<close>

definition pset :: "spt_tree \<Rightarrow> ip_pfx \<Rightarrow> ip_pfx set" where
  "pset tree p = (case tree p of None \<Rightarrow> {} | Some v \<Rightarrow> set (preds v))"

definition core :: "spt_tree \<Rightarrow> ip_pfx \<Rightarrow> spt_vertex option" where
  "core tree p = map_option (\<lambda>v. v\<lparr>preds := [], succs := []\<rparr>) (tree p)"

definition sset :: "spt_tree \<Rightarrow> ip_pfx \<Rightarrow> ip_pfx set" where
  "sset tree p = (case tree p of None \<Rightarrow> {} | Some v \<Rightarrow> set (succs v))"

definition dag_ok :: "spt_tree \<Rightarrow> bool" where
  "dag_ok tree \<longleftrightarrow> (\<forall>p v. tree p = Some v \<longrightarrow> distinct (preds v) \<and> distinct (succs v))
     \<and> (\<forall>p u. u \<in> pset tree p \<longleftrightarrow> p \<in> sset tree u)"

lemma core_dom: "core tree p = None \<longleftrightarrow> tree p = None"
  by (simp add: core_def)

lemma pset_dom: "u \<in> pset tree p \<Longrightarrow> \<exists>v. tree p = Some v"
  by (simp add: pset_def split: option.splits)

lemma sset_dom: "u \<in> sset tree p \<Longrightarrow> \<exists>v. tree p = Some v"
  by (simp add: sset_def split: option.splits)

lemma dag_ok_pset_dom: "dag_ok tree \<Longrightarrow> u \<in> pset tree p \<Longrightarrow> \<exists>v. tree u = Some v"
  unfolding dag_ok_def by (metis sset_dom)

lemma core_fields:
  assumes "core tree' p = core tree p" "tree p = Some v"
  obtains v' where "tree' p = Some v'" "weight v' = weight v" "elem v' = elem v" "vertex_id v' = vertex_id v"
proof -
  from assms obtain v' where v': "tree' p = Some v'" "v'\<lparr>preds := [], succs := []\<rparr> = v\<lparr>preds := [], succs := []\<rparr>"
    by (auto simp: core_def)
  show thesis
    by (rule that [OF v'(1)]) (use arg_cong [OF v'(2), of weight] arg_cong [OF v'(2), of elem] arg_cong [OF v'(2), of vertex_id] in simp_all)
qed

context gds_ptr_array
begin

lemma add_cases:
  assumes "distinct xs"
  obtains "x \<in> set xs" "vadd xs x = None"
  | ys where "x \<notin> set xs" "vadd xs x = Some ys" "set ys = insert x (set xs)" "distinct ys"
proof (cases "x \<in> set xs")
  case True
  show thesis by (rule that(1) [OF True add_present [OF assms True]])
next
  case False
  from add_new [OF assms False] show thesis using that(2) [OF False] by blast
qed

end

text \<open>Replacing the arrays of one vertex.\<close>

lemma upd_views:
  assumes "tree v = Some vx" "weight vx' = weight vx" "elem vx' = elem vx" "vertex_id vx' = vertex_id vx"
  shows "core (tree(v \<mapsto> vx')) = core tree"
    and "pset (tree(v \<mapsto> vx')) = (pset tree)(v := set (preds vx'))"
    and "sset (tree(v \<mapsto> vx')) = (sset tree)(v := set (succs vx'))"
proof -
  have "vx'\<lparr>preds := [], succs := []\<rparr> = vx\<lparr>preds := [], succs := []\<rparr>" using assms(2-) by (cases vx; cases vx') simp
  then show "core (tree(v \<mapsto> vx')) = core tree" using assms(1) by (auto simp: core_def fun_eq_iff)
qed (auto simp: pset_def sset_def fun_eq_iff)

lemma add_pred_effect:
  assumes "gds_ptr_array vadd" "dag_ok tree" "tree v = Some vx" "tree u = Some ux"
  obtains tree' where "spt_vertex_add_pred vadd v u tree = Some tree'" "dag_ok tree'" "core tree' = core tree"
    "pset tree' = (pset tree)(v := insert u (pset tree v))"
proof -
  have dist: "distinct (preds vx)" "distinct (succs ux)" and sym: "u \<in> set (preds vx) \<longleftrightarrow> v \<in> set (succs ux)"
    using assms(2-) by (auto simp: dag_ok_def pset_def sset_def split: option.splits)
  have pv: "pset tree v = set (preds vx)" using assms(3) by (simp add: pset_def)
  have su: "sset tree u = set (succs ux)" using assms(4) by (simp add: sset_def)
  show thesis
  proof (cases rule: gds_ptr_array.add_cases [OF assms(1) dist(1), of u])
    case 1
    then show thesis using assms(2,3) pv
      by (intro that [of tree]) (auto simp: spt_vertex_add_pred_def fun_eq_iff)
  next
    case (2 ps)
    then have "v \<notin> set (succs ux)" using sym by simp
    with gds_ptr_array.add_new [OF assms(1) dist(2)] obtain ss where ss: "vadd (succs ux) v = Some ss"
      "set ss = insert v (set (succs ux))" "distinct ss" by blast
    define vx' where "vx' = vx\<lparr>preds := ps\<rparr>"
    define tree1 where "tree1 = tree(v \<mapsto> vx')"
    define ux1 where "ux1 = (if u = v then vx' else ux)"
    define ux' where "ux' = ux1\<lparr>succs := ss\<rparr>"
    have ux1: "tree1 u = Some ux1" "succs ux1 = succs ux"
      using assms(3,4) by (auto simp: tree1_def ux1_def vx'_def)
    have run: "spt_vertex_add_pred vadd v u tree = Some (tree1(u \<mapsto> ux'))"
      using assms(3) 2(2) ss(1) ux1 by (simp add: spt_vertex_add_pred_def tree1_def [symmetric] vx'_def [symmetric] Let_def ux'_def)
    have v1: "core tree1 = core tree" "pset tree1 = (pset tree)(v := insert u (pset tree v))" "sset tree1 = sset tree"
      using upd_views [of tree v vx vx', OF assms(3)] assms(3) 2(3) pv
      by (auto simp: tree1_def vx'_def fun_eq_iff sset_def)
    have v2: "core (tree1(u \<mapsto> ux')) = core tree1" "pset (tree1(u \<mapsto> ux')) = pset tree1"
      "sset (tree1(u \<mapsto> ux')) = (sset tree)(u := insert v (sset tree u))"
      using upd_views [of tree1 u ux1 ux', OF ux1(1)] ux1(1) ss(2) v1(3) su by (auto simp: ux'_def fun_eq_iff pset_def)
    have "dag_ok (tree1(u \<mapsto> ux'))"
    proof -
      have "distinct (preds x) \<and> distinct (succs x)" if "(tree1(u \<mapsto> ux')) p = Some x" for p x
        using that assms(2-4) 2(4) ss(3) by (auto simp: dag_ok_def tree1_def ux'_def ux1_def vx'_def split: if_splits)
      moreover have "w \<in> pset (tree1(u \<mapsto> ux')) p \<longleftrightarrow> p \<in> sset (tree1(u \<mapsto> ux')) w" for p w
        using assms(2) by (auto simp: v1 v2 dag_ok_def)
      ultimately show ?thesis by (auto simp: dag_ok_def)
    qed
    then show thesis using v1 v2 by (intro that [OF run]) simp_all
  qed
qed

lemma clear_loop_effect:
  assumes "distinct ps" "\<forall>u\<in>set ps. v \<in> sset tree u" "\<forall>p x. tree p = Some x \<longrightarrow> distinct (succs x)"
  shows "\<exists>tree'. clear_preds_loop v ps tree = Some tree' \<and> core tree' = core tree \<and> (\<forall>p. map_option preds (tree' p) = map_option preds (tree p))
    \<and> (\<forall>p x. tree' p = Some x \<longrightarrow> distinct (succs x)) \<and> (\<forall>u. sset tree' u = (if u \<in> set ps then sset tree u - {v} else sset tree u))"
  using assms
proof (induction ps arbitrary: tree)
  case (Cons u ps)
  obtain ux where ux: "tree u = Some ux" "v \<in> set (succs ux)" using Cons.prems(2) by (auto simp: sset_def split: option.splits)
  then obtain k where k: "find_index_from 0 (\<lambda>s. s = v) (succs ux) = Some k" by (cases "find_index_from 0 (\<lambda>s. s = v) (succs ux)") (auto simp: find_index_from_None)
  obtain ys y zs where s: "succs ux = ys @ y # zs" "k = length ys" "y = v" using find_index_from_Some [OF k] by auto
  have ss: "remove_at k (succs ux) = ys @ zs" by (simp add: s)
  have dist: "distinct (ys @ v # zs)" using Cons.prems(3) ux(1) s by metis
  let ?ux' = "ux\<lparr>succs := ys @ zs\<rparr>"
  let ?tree = "tree(u \<mapsto> ?ux')"
  have views: "core ?tree = core tree" "sset ?tree = (sset tree)(u := sset tree u - {v})"
    using upd_views [of tree u ux ?ux', OF ux(1)] ux(1) dist s by (auto simp: fun_eq_iff sset_def)
  have "\<forall>u'\<in>set ps. v \<in> sset ?tree u'" using Cons.prems(1,2) by (auto simp: views)
  moreover have "\<forall>p x. ?tree p = Some x \<longrightarrow> distinct (succs x)" using Cons.prems(3) dist by auto
  moreover have "distinct ps" using Cons.prems(1) by simp
  ultimately obtain tree' where t: "clear_preds_loop v ps ?tree = Some tree'" "core tree' = core ?tree"
    "\<forall>p. map_option preds (tree' p) = map_option preds (?tree p)" "\<forall>p x. tree' p = Some x \<longrightarrow> distinct (succs x)"
    "\<forall>u. sset tree' u = (if u \<in> set ps then sset ?tree u - {v} else sset ?tree u)"
    using Cons.IH [of ?tree] by blast
  have "clear_preds_loop v (u # ps) tree = Some tree'" using ux(1) k t(1) ss by simp
  moreover have "map_option preds (tree' p) = map_option preds (tree p)" for p using t(3) ux(1) by (auto split: if_splits)
  ultimately show ?case using t(2,4,5) views Cons.prems(1) by auto
qed simp

lemma clear_preds_effect:
  assumes "dag_ok tree" "tree v = Some vx"
  obtains tree' where "spt_vertex_clear_preds v tree = Some tree'" "dag_ok tree'" "core tree' = core tree"
    "pset tree' = (pset tree)(v := {})"
proof -
  have vx: "pset tree v = set (preds vx)" using assms(2) by (simp add: pset_def)
  obtain tree1 where t: "clear_preds_loop v (preds vx) tree = Some tree1" "core tree1 = core tree"
    "\<forall>p. map_option preds (tree1 p) = map_option preds (tree p)" "\<forall>p x. tree1 p = Some x \<longrightarrow> distinct (succs x)"
    "\<forall>u. sset tree1 u = (if u \<in> set (preds vx) then sset tree u - {v} else sset tree u)"
  proof -
    have "distinct (preds vx)" "\<forall>u\<in>set (preds vx). v \<in> sset tree u" "\<forall>p x. tree p = Some x \<longrightarrow> distinct (succs x)"
      using assms vx unfolding dag_ok_def by blast+
    from clear_loop_effect [OF this] show thesis using that by blast
  qed
  obtain vx1 where vx1: "tree1 v = Some vx1" using t(2) assms(2) core_dom [of tree1 v] core_dom [of tree v] by force
  let ?tree = "tree1(v \<mapsto> vx1\<lparr>preds := []\<rparr>)"
  have p1: "pset tree1 = pset tree"
  proof
    fix p show "pset tree1 p = pset tree p" using t(3) by (cases "tree p"; cases "tree1 p") (auto simp: pset_def dest: spec [of _ p])
  qed
  have views: "core ?tree = core tree" "pset ?tree = (pset tree)(v := {})" "sset ?tree = sset tree1"
    using upd_views [of tree1 v vx1 "vx1\<lparr>preds := []\<rparr>", OF vx1] t(2) p1 vx1 by (auto simp: fun_eq_iff sset_def)
  have "distinct (preds x)" if "tree1 p = Some x" for p x
    using that t(3) assms(1) by (cases "tree p") (auto simp: dag_ok_def dest: spec [of _ p])
  then have "distinct (preds x) \<and> distinct (succs x)" if "?tree p = Some x" for p x
    using that t(4) vx1 by (auto split: if_splits)
  moreover have "w \<in> pset ?tree p \<longleftrightarrow> p \<in> sset ?tree w" for p w
    using assms(1) vx t(5) by (auto simp: views dag_ok_def)
  ultimately have "dag_ok ?tree" by (auto simp: dag_ok_def)
  with assms(2) t(1) vx1 views show thesis by (intro that) (simp_all add: spt_vertex_clear_preds_def)
qed

section \<open>The graph of a domain\<close>

definition elem_id :: "'t network_t \<Rightarrow> net_elem \<Rightarrow> ip_pfx option" where
  "elem_id net el = map_option pfx_norm (net_elem_prefix net el)"

text \<open>Where a link leads from an element and at which cost; \<^term>\<open>None\<close> when it cannot be used.\<close>

definition link_edge :: "'t network_t \<Rightarrow> net_addr list \<Rightarrow> net_elem \<Rightarrow> iface_ptr \<Rightarrow> (net_elem \<times> nat) option" where
  "link_edge net domain el link = do {
     to \<leftarrow> link_get_next_elem net el link;
     to \<leftarrow> to;
     assert_opt (\<forall>r. to = NODE r \<longrightarrow> r \<in> set domain);
     iface \<leftarrow> iface_at net link;
     assert_opt (net_iface_is_enabled iface \<and> net_iface_is_connected iface);
     w \<leftarrow> net_iface_get_metric iface 0;
     assert_opt ((\<exists>q. el = LINK q) \<or> w \<noteq> 0 \<and> w \<noteq> IGP_MAX_WEIGHT);
     Some (to, case el of NODE _ \<Rightarrow> unat w | _ \<Rightarrow> 0)
   }"

text \<open>The elements a search of a domain can reach.\<close>

definition elem_in :: "'t network_t \<Rightarrow> net_addr list \<Rightarrow> net_elem \<Rightarrow> bool" where
  "elem_in net domain el =
     (case el of
        NODE r \<Rightarrow> r \<in> set domain
      | SUBNET p \<Rightarrow> net_subnets net p \<noteq> None
      | LINK q \<Rightarrow> (\<exists>i. iface_at net q = Some i \<and> iface_type i = NET_IFACE_PTP \<and> iface_connected i))"

definition spt_edge :: "'t network_t \<Rightarrow> net_addr list \<Rightarrow> ip_pfx \<Rightarrow> ip_pfx \<Rightarrow> nat \<Rightarrow> bool" where
  "spt_edge net domain p q c \<longleftrightarrow>
     (\<exists>el links link to. elem_in net domain el \<and> elem_id net el = Some p \<and> elem_links net el = Some links \<and> link \<in> set links
        \<and> link_edge net domain el link = Some (to, c) \<and> elem_id net to = Some q)"

inductive spt_path :: "'t network_t \<Rightarrow> net_addr list \<Rightarrow> ip_pfx \<Rightarrow> ip_pfx \<Rightarrow> nat \<Rightarrow> bool"
  for net :: "'t network_t" and domain root where
  path_root: "spt_path net domain root root 0"
| path_edge: "spt_path net domain root p d \<Longrightarrow> spt_edge net domain p q c \<Longrightarrow> spt_path net domain root q (d + c)"

text \<open>What the search needs of the network and of a domain: its routers are nodes, and their router-to-router interfaces are
  connected.\<close>

definition domain_ok :: "'t network_t \<Rightarrow> net_addr list \<Rightarrow> bool" where
  "domain_ok net domain \<longleftrightarrow> topo_ok net
     \<and> (\<forall>r\<in>set domain. net_nodes net r \<noteq> None
          \<and> (\<forall>a i. iface_at net (r, a) = Some i \<and> iface_type i = NET_IFACE_RTR \<longrightarrow> iface_connected i))"

lemma up_unat: "unat (ucast (a :: 32 word) :: 64 word) = unat a"
  by transfer (simp add: take_bit_eq_mod)

lemma unat_less_32: "unat (a :: 32 word) < 2 ^ 32"
  by (rule order.strict_trans2 [OF unsigned_less]) simp

lemma max_weight_unat: "unat IGP_MAX_WEIGHT = 2 ^ 32 - 1"
  by (simp add: IGP_MAX_WEIGHT_def unsigned_minus_1_eq_mask mask_eq_exp_minus_1)

lemma add_weights_unat: "unat (net_igp_add_weights a b) = min (unat a + unat b) (2 ^ 32 - 1)"
proof -
  note ab = unat_less_32 [of a] unat_less_32 [of b]
  have u: "unat (ucast a + ucast b :: 64 word) = unat a + unat b"
    using ab by (simp add: unat_word_ariths up_unat)
  have m: "unat (ucast IGP_MAX_WEIGHT :: 64 word) = 2 ^ 32 - 1" by (simp add: up_unat max_weight_unat)
  have gt: "(ucast a + ucast b :: 64 word) > ucast IGP_MAX_WEIGHT \<longleftrightarrow> unat a + unat b > 2 ^ 32 - 1"
    by (simp only: word_less_nat_alt u m)
  show ?thesis
  proof (cases "unat a + unat b > 2 ^ 32 - 1")
    case True
    then have "net_igp_add_weights a b = IGP_MAX_WEIGHT" using gt by (simp add: net_igp_add_weights_def Let_def)
    with True show ?thesis by (simp add: max_weight_unat)
  next
    case False
    then have "net_igp_add_weights a b = ucast (ucast a + ucast b :: 64 word)" using gt by (simp add: net_igp_add_weights_def Let_def)
    moreover have "unat (ucast (ucast a + ucast b :: 64 word) :: 32 word) = unat a + unat b"
      using False by (simp add: unsigned_ucast_eq u take_bit_nat_eq_self)
    ultimately show ?thesis using False by simp
  qed
qed

lemma iface_of_node:
  assumes "topo_ok net" "net_nodes net r = Some node" "link \<in> set (map (\<lambda>i. (r, iface_addr i)) (ifaces node))"
  obtains i where "iface_at net link = Some i"
proof -
  obtain i where "i \<in> set (ifaces node)" "link = (r, iface_addr i)" using assms(3) by auto
  then have "find (\<lambda>j. iface_addr j = iface_addr i) (ifaces node) \<noteq> None" by (auto simp: find_None_addr)
  then show thesis using that assms(2) \<open>link = _\<close>
    by (auto simp: iface_at_def net_links_find_def net_iface_id_addr_def)
qed

lemma topo_okD:
  assumes "topo_ok net" "iface_at net q = Some i"
  shows "iface_ok net q i"
  using assms unfolding topo_ok_def by blast

lemma elem_links_total:
  assumes "domain_ok net domain" "elem_in net domain el"
  shows "\<exists>links. elem_links net el = Some links"
proof (cases el)
  case (LINK q)
  then obtain i where i: "iface_at net q = Some i" "iface_type i = NET_IFACE_PTP" "iface_connected i"
    using assms(2) by (auto simp: elem_in_def)
  have "iface_ok net q i" by (rule topo_okD) (use assms(1) i in \<open>simp_all add: domain_ok_def\<close>)
  with i show ?thesis by (auto simp: LINK elem_links_def iface_ok_def)
qed (use assms in \<open>auto simp: elem_in_def elem_links_def domain_ok_def\<close>)

lemma ptp_dest:
  assumes "iface_ok net q i" "iface_type i = NET_IFACE_PTP" "iface_connected i"
  obtains q' j where "iface_dest i = Some (DstIface q')" "iface_at net q' = Some j" "iface_type j = NET_IFACE_PTP"
    "iface_connected j" "iface_dest j = Some (DstIface q)"
  using assms by (auto simp: iface_ok_def ptp_end_def simp del: split_paired_Ex)

text \<open>From an element of the domain every link can be read, and a link that can be used leads to an element of the domain.\<close>

lemma next_elem_total:
  assumes "domain_ok net domain" "elem_in net domain el" "elem_links net el = Some links" "link \<in> set links"
  obtains i m to where "iface_at net link = Some i" "net_iface_get_metric i 0 = Some m" "link_get_next_elem net el link = Some to"
    "\<And>to'. to = Some to' \<Longrightarrow> iface_connected i \<Longrightarrow> (\<And>r. to' = NODE r \<Longrightarrow> r \<in> set domain) \<Longrightarrow> elem_in net domain to'"
proof -
  have topo: "topo_ok net" using assms(1) by (simp add: domain_ok_def)
  have metric: "\<exists>m. net_iface_get_metric i 0 = Some m" if "iface_at net q = Some i" for q i
    using topo_weights [OF topo that] by (simp add: net_iface_get_metric_def)
  show thesis
  proof (cases el)
    case (NODE r)
    then obtain node where node: "net_nodes net r = Some node" "links = map (\<lambda>i. (r, iface_addr i)) (ifaces node)"
      using assms(3) by (auto simp: elem_links_def)
    have link: "fst link = r" and r: "r \<in> set domain" using assms(2,4) node(2) NODE by (auto simp: elem_in_def)
    obtain i where i: "iface_at net link = Some i" using assms(4) iface_of_node [OF topo node(1)] node(2) by metis
    have ok: "iface_ok net link i" by (rule topo_okD [OF topo i])
    have rtr: "iface_type i = NET_IFACE_RTR \<Longrightarrow> iface_connected i"
      using assms(1) r i link unfolding domain_ok_def by (metis prod.collapse)
    obtain m where m: "net_iface_get_metric i 0 = Some m" using metric [OF i] by blast
    show thesis
    proof (cases "iface_type i")
      case NET_IFACE_RTR
      with ok rtr have "iface_dest i = Some (DstIface (snd link, fst link))" by (simp add: iface_ok_def)
      then show thesis using NET_IFACE_RTR i NODE
        by (intro that [OF i m, of "Some (NODE (snd link))"]) (auto simp: link_get_next_elem_def dest_owner_def elem_in_def)
    next
      case NET_IFACE_PTP
      show thesis
      proof (cases "iface_connected i")
        case True
        show thesis
          by (rule ptp_dest [OF ok NET_IFACE_PTP True])
            (rule that [OF i m], use NET_IFACE_PTP i NODE in \<open>auto simp: link_get_next_elem_def elem_in_def\<close>)
      next
        case False
        then have "\<exists>to. link_get_next_elem net el link = Some to"
          using NET_IFACE_PTP i NODE by (auto simp: link_get_next_elem_def unset_def net_iface_is_connected_def split: option.splits iface_dst.splits)
        with that [OF i m] False show thesis by blast
      qed
    next
      case NET_IFACE_PTMP
      show thesis
      proof (cases "iface_connected i")
        case True
        then obtain p s where "iface_dest i = Some (DstSubnet p)" "net_subnets net p = Some s"
          using ok NET_IFACE_PTMP by (auto simp: iface_ok_def)
        then show thesis
          by (intro that [OF i m, of "Some (SUBNET p)"]) (use NET_IFACE_PTMP i NODE in \<open>auto simp: link_get_next_elem_def elem_in_def\<close>)
      next
        case False
        then have "\<exists>to. link_get_next_elem net el link = Some to"
          using NET_IFACE_PTMP i NODE by (auto simp: link_get_next_elem_def unset_def net_iface_is_connected_def split: option.splits iface_dst.splits)
        with that [OF i m] False show thesis by blast
      qed
    qed (use i m NODE that [of i m None] in \<open>simp_all add: link_get_next_elem_def\<close>)
  next
    case (SUBNET p)
    then obtain s where s: "net_subnets net p = Some s" "link \<in> set (subnet_ifaces s)"
      using assms(3,4) by (auto simp: elem_links_def split: if_splits)
    then have "port_ok net p link" using topo by (auto simp: topo_ok_def subnets_ok_def)
    then obtain i where i: "iface_at net link = Some i" by (auto simp: port_ok_def)
    obtain m where m: "net_iface_get_metric i 0 = Some m" using metric [OF i] by blast
    show thesis
      by (rule that [OF i m, of "Some (NODE (fst link))"]) (use i SUBNET in \<open>auto simp: link_get_next_elem_def elem_in_def\<close>)
  next
    case (LINK q)
    then obtain i where i: "iface_at net q = Some i" "iface_type i = NET_IFACE_PTP" "iface_connected i"
      using assms(2) by (auto simp: elem_in_def)
    show thesis
    proof (rule ptp_dest [OF topo_okD [OF topo i(1)] i(2,3)])
      fix q' j
      assume q': "iface_dest i = Some (DstIface q')" "iface_at net q' = Some j" "iface_dest j = Some (DstIface q)"
      have link: "link = q'" using assms(3,4) LINK i(1) q'(1) by (auto simp: elem_links_def)
      obtain m where m: "net_iface_get_metric j 0 = Some m" using metric [OF q'(2)] by blast
      show thesis
        by (rule that [of j m "Some (NODE (fst q))"])
          (use q' m LINK link in \<open>auto simp: link_get_next_elem_def elem_in_def dest_owner_def\<close>)
    qed
  qed
qed

section \<open>One step of the search\<close>

lemma elem_in_prefix:
  assumes "domain_ok net domain" "elem_in net domain el"
  obtains p where "net_elem_prefix net el = Some p" "pfx_wf p"
proof (cases el)
  case (LINK q)
  then obtain i where i: "iface_at net q = Some i" "iface_type i = NET_IFACE_PTP"
    using assms(2) by (auto simp: elem_in_def)
  have "iface_ok net q i" by (rule topo_okD) (use assms(1) i in \<open>simp_all add: domain_ok_def\<close>)
  with i LINK show thesis
    by (intro that [of "net_iface_dst_prefix i"]) (auto simp: net_elem_prefix_def iface_ok_def pfx_wf_def net_iface_dst_prefix_def net_iface_id_def)
next
  case (NODE r)
  then show thesis by (intro that [of "net_iface_id_addr r"]) (simp_all add: net_elem_prefix_def pfx_wf_def net_iface_id_addr_def)
next
  case (SUBNET p)
  then obtain s where "net_subnets net p = Some s" using assms(2) by (auto simp: elem_in_def)
  moreover from this have "subnet_prefix s = p" "mask p < 32" using assms(1) by (auto simp: domain_ok_def topo_ok_def subnets_ok_def)
  ultimately show thesis using SUBNET by (intro that [of p]) (simp_all add: net_elem_prefix_def pfx_wf_def)
qed

definition ids_ok :: "spt_tree \<Rightarrow> bool" where
  "ids_ok tree \<longleftrightarrow> (\<forall>p v. tree p = Some v \<longrightarrow> vertex_id v = p)"

lemma dag_ok_same_arrays:
  assumes "dag_ok tree" "tree q = None \<and> preds x = [] \<and> succs x = [] \<or> (\<exists>vx. tree q = Some vx \<and> preds x = preds vx \<and> succs x = succs vx)"
  shows "dag_ok (tree(q \<mapsto> x))" "pset (tree(q \<mapsto> x)) = pset tree"
proof -
  have views: "pset (tree(q \<mapsto> x)) = pset tree" "sset (tree(q \<mapsto> x)) = sset tree"
    using assms(2) by (auto simp: pset_def sset_def fun_eq_iff)
  moreover have "distinct (preds y) \<and> distinct (succs y)" if "(tree(q \<mapsto> x)) p = Some y" for p y
    using that assms by (auto simp: dag_ok_def split: if_splits)
  ultimately show "dag_ok (tree(q \<mapsto> x))" "pset (tree(q \<mapsto> x)) = pset tree" using assms(1) by (auto simp: dag_ok_def)
qed

lemma update_node_effect:
  assumes "gds_ptr_array vadd" "dag_ok tree" "ids_ok tree" "net_elem_prefix net el = Some p" "pfx_wf p" "pfx_norm p = q"
    and "tree prev = Some pv"
  obtains
    (improved) tree' x where "tree q = None \<and> elem x = el \<or> (\<exists>vx. tree q = Some vx \<and> w < weight vx \<and> elem x = elem vx)"
      "spt_update_node net vadd el prev w tree = Some (Some q, tree')" "dag_ok tree'"
      "core tree' = (core tree)(q \<mapsto> x)" "weight x = w" "vertex_id x = q" "pset tree' = (pset tree)(q := {prev})"
  | (equal) tree' vx where "tree q = Some vx" "weight vx = w" "spt_update_node net vadd el prev w tree = Some (None, tree')"
      "dag_ok tree'" "core tree' = core tree" "pset tree' = (pset tree)(q := insert prev (pset tree q))"
  | (worse) vx where "tree q = Some vx" "weight vx < w" "spt_update_node net vadd el prev w tree = Some (None, tree)"
proof (cases "tree q")
  case None
  let ?x = "\<lparr>preds = [], succs = [], weight = w, elem = el, vertex_id = q\<rparr>"
  let ?tree = "tree(q \<mapsto> ?x)"
  have new: "spt_vertex_create net el w = Some ?x" using assms(4-6) by (simp add: spt_vertex_create_def ip_prefix_mask_norm)
  have qq: "pfx_norm q = q" using assms(6) by auto
  have dag: "dag_ok ?tree" "pset ?tree = pset tree" using dag_ok_same_arrays [OF assms(2), of q ?x] None by simp_all
  have "prev \<noteq> q" using None assms(7) by auto
  then have prev: "?tree prev = Some pv" using assms(7) by simp
  show thesis
  proof (rule add_pred_effect [OF assms(1) dag(1) _ prev, of q ?x])
    fix tree' assume t: "spt_vertex_add_pred vadd q prev ?tree = Some tree'" "dag_ok tree'" "core tree' = core ?tree"
      "pset tree' = (pset ?tree)(q := insert prev (pset ?tree q))"
    have "spt_update_node net vadd el prev w tree = Some (Some q, tree')"
      using assms(4,6) None new t(1) qq by (simp add: spt_update_node_def spt_get_vertex_def spt_set_vertex_def)
    moreover have "core ?tree = (core tree)(q \<mapsto> ?x)" by (auto simp: core_def fun_eq_iff)
    moreover have "pset tree q = {}" using None by (simp add: pset_def)
    ultimately show thesis using t dag(2) None by (intro improved [of ?x tree']) simp_all
  qed simp
next
  case (Some vx)
  have vid: "vertex_id vx = q" using assms(3) Some by (simp add: ids_ok_def)
  have get: "spt_get_vertex tree p = Some vx" using Some assms(6) by (simp add: spt_get_vertex_def)
  consider "weight vx > w" | "weight vx = w" | "weight vx < w" by (rule linorder_cases)
  then show thesis
  proof cases
    case 1
    let ?x = "vx\<lparr>weight := w\<rparr>"
    let ?tree = "tree(q \<mapsto> ?x)"
    have dag: "dag_ok ?tree" "pset ?tree = pset tree" using dag_ok_same_arrays [OF assms(2), of q ?x] Some by simp_all
    show thesis
    proof (rule clear_preds_effect [OF dag(1), of q ?x])
      fix tree1 assume t1: "spt_vertex_clear_preds q ?tree = Some tree1" "dag_ok tree1" "core tree1 = core ?tree" "pset tree1 = (pset ?tree)(q := {})"
      obtain vx1 where vx1: "tree1 q = Some vx1" using core_dom [of tree1 q] core_dom [of ?tree q] t1(3) by auto
      obtain pv1 where pv1: "tree1 prev = Some pv1"
        using core_dom [of tree1 prev] core_dom [of ?tree prev] t1(3) assms(7) by (auto split: if_splits)
      show thesis
      proof (rule add_pred_effect [OF assms(1) t1(2) vx1 pv1])
        fix tree' assume t: "spt_vertex_add_pred vadd q prev tree1 = Some tree'" "dag_ok tree'" "core tree' = core tree1"
          "pset tree' = (pset tree1)(q := insert prev (pset tree1 q))"
        have "spt_update_node net vadd el prev w tree = Some (Some q, tree')"
          using assms(4) get 1 vid t1(1) t(1) by (simp add: spt_update_node_def Let_def)
        moreover have "core ?tree = (core tree)(q \<mapsto> ?x\<lparr>preds := [], succs := []\<rparr>)" by (auto simp: core_def fun_eq_iff)
        ultimately show thesis using 1 t t1 dag(2) Some vid by (intro improved [of "?x\<lparr>preds := [], succs := []\<rparr>" tree']) simp_all
      qed
    qed simp
  next
    case 2
    show thesis
    proof (rule add_pred_effect [OF assms(1,2) Some assms(7)])
      fix tree' assume t: "spt_vertex_add_pred vadd q prev tree = Some tree'" "dag_ok tree'" "core tree' = core tree"
        "pset tree' = (pset tree)(q := insert prev (pset tree q))"
      have "spt_update_node net vadd el prev w tree = Some (None, tree')"
        using assms(4) get 2 vid t(1) by (simp add: spt_update_node_def Let_def)
      with t Some 2 show thesis by (intro equal) simp_all
    qed
  next
    case 3
    have "spt_update_node net vadd el prev w tree = Some (None, tree)"
      using assms(4) get 3 by (auto simp: spt_update_node_def Let_def dest: less_asym)
    with Some 3 show thesis by (rule worse)
  qed
qed

text \<open>A context blocks the link back to the element from which its vertex was reached.\<close>

definition blocked :: "'t network_t \<Rightarrow> spt_context \<Rightarrow> iface_ptr \<Rightarrow> bool" where
  "blocked net ctx link \<longleftrightarrow> (\<exists>iif i. ctx_iif ctx = Some iif \<and> iface_at net iif = Some i \<and> iface_dest i = Some (DstIface link))"

definition relax :: "'t network_t \<Rightarrow> ip_pfx sorted_add \<Rightarrow> nat \<Rightarrow> ip_pfx \<Rightarrow> iface_ptr \<Rightarrow> net_elem \<Rightarrow> 32 word \<Rightarrow> spt_comp \<Rightarrow> spt_comp option" where
  "relax net vadd depth prev link to w sc = do {
     (next_vertex, tree) \<leftarrow> spt_update_node net vadd to prev w (spt sc);
     case next_vertex of
       None \<Rightarrow> Some (sc\<lparr>spt := tree\<rparr>)
     | Some v \<Rightarrow> spt_push depth (Some link) v (sc\<lparr>spt := tree\<rparr>)
   }"

lemma link_traverse_eq:
  assumes "domain_ok net domain" "elem_in net domain (elem v)" "elem_links net (elem v) = Some links" "link \<in> set links"
    and "spt sc (ctx_vertex ctx) = Some v" "\<And>iif. ctx_iif ctx = Some iif \<Longrightarrow> iface_at net iif \<noteq> None" "unat (weight v) < 2 ^ 32 - 1"
  shows "blocked net ctx link \<and> link_traverse net domain vadd depth ctx link sc = Some sc
    \<or> \<not> blocked net ctx link \<and> (case link_edge net domain (elem v) link of
         None \<Rightarrow> link_traverse net domain vadd depth ctx link sc = Some sc
       | Some (to, c) \<Rightarrow> elem_in net domain to \<and>
           (if unat (weight v) + c < 2 ^ 32 - 1
            then \<exists>w. unat w = unat (weight v) + c
              \<and> link_traverse net domain vadd depth ctx link sc = relax net vadd depth (ctx_vertex ctx) link to w sc
            else link_traverse net domain vadd depth ctx link sc = Some sc))"
proof (rule next_elem_total [OF assms(1-4)])
  fix i m to
  assume i: "iface_at net link = Some i" "net_iface_get_metric i 0 = Some m" and to: "link_get_next_elem net (elem v) link = Some to"
    and inside: "\<And>to'. to = Some to' \<Longrightarrow> iface_connected i \<Longrightarrow> (\<And>r. to' = NODE r \<Longrightarrow> r \<in> set domain) \<Longrightarrow> elem_in net domain to'"
  define bk where "bk = (case ctx_iif ctx of None \<Rightarrow> Some False
    | Some iif \<Rightarrow> map_option (\<lambda>i. iface_dest i = Some (DstIface link)) (iface_at net iif))"
  have bk: "bk = Some (blocked net ctx link)"
    using assms(6) by (auto simp: bk_def blocked_def split: option.splits)
  note run = link_traverse_def [of net domain vadd depth ctx link sc, folded bk_def, unfolded bk]
  note simps = assms(5) to i igp_domain_contains_router_def igp_domain_contains_router_by_addr_def
  show ?thesis
  proof (cases to)
    case None
    then show ?thesis by (simp add: run simps link_edge_def)
  next
    case (Some to')
    show ?thesis
    proof (cases "(\<forall>r. to' = NODE r \<longrightarrow> r \<in> set domain) \<and> net_iface_is_enabled i \<and> net_iface_is_connected i")
      case False
      then have "link_traverse net domain vadd depth ctx link sc = Some sc"
        by (cases to') (auto simp: run simps Some)
      moreover have "link_edge net domain (elem v) link = None" using False by (auto simp: link_edge_def to Some i assert_opt_def)
      ultimately show ?thesis by simp
    next
      case True
      then have ein: "elem_in net domain to'" using inside [OF Some] by (simp add: net_iface_is_connected_def)
      have filt: "(case to' of NODE r \<Rightarrow> \<not> igp_domain_contains_router domain r | _ \<Rightarrow> False) = False"
        using True by (cases to') (auto simp: igp_domain_contains_router_def igp_domain_contains_router_by_addr_def)
      have up: "net_igp_add_weights (weight v) w = IGP_MAX_WEIGHT \<longleftrightarrow> \<not> unat (weight v) + unat w < 2 ^ 32 - 1" for w
        unfolding word_unat_eq_iff max_weight_unat add_weights_unat by auto
      have sum: "unat (weight v) + unat w < 2 ^ 32 - 1 \<Longrightarrow> unat (net_igp_add_weights (weight v) w) = unat (weight v) + unat w" for w
        by (simp add: add_weights_unat)
      show ?thesis
      proof (cases "elem v")
        case (NODE r)
        show ?thesis using True NODE to [unfolded NODE] ein filt
          by (auto simp: run simps Some link_edge_def assert_opt_def relax_def up Let_def intro!: exI [of _ "net_igp_add_weights (weight v) m"] sum)
      next
        case (SUBNET p)
        show ?thesis using True SUBNET to [unfolded SUBNET] ein filt assms(7)
          by (auto simp: run simps Some link_edge_def assert_opt_def relax_def Let_def)
      next
        case (LINK q)
        show ?thesis using True LINK to [unfolded LINK] ein filt assms(7)
          by (auto simp: run simps Some link_edge_def assert_opt_def relax_def up Let_def add_weights_unat intro!: exI [of _ "net_igp_add_weights (weight v) 0"])
      qed
    qed
  qed
qed

section \<open>The invariant of the search\<close>

text \<open>The greatest weight of an edge of the domain.\<close>

definition max_cost :: "'t network_t \<Rightarrow> net_addr list \<Rightarrow> nat" where
  "max_cost net domain = Max (insert 0 {c. \<exists>p q. spt_edge net domain p q c})"

lemma max_cost_le:
  "\<forall>p q c. spt_edge net domain p q c \<longrightarrow> c \<le> w \<Longrightarrow> max_cost net domain \<le> w"
  "spt_edge net domain p q c \<Longrightarrow> c \<le> max_cost net domain"
proof -
  let ?C = "{c. \<exists>p q. spt_edge net domain p q c}"
  have "c < 2 ^ 32" if "c \<in> ?C" for c
    using that unat_less_32 by (auto simp: spt_edge_def link_edge_def elim!: bind_SomeE split: net_elem.splits)
  then have fin: "finite (insert 0 ?C)" by (intro finite.insertI finite_subset [of ?C "{..<2 ^ 32}"]) auto
  show "\<forall>p q c. spt_edge net domain p q c \<longrightarrow> c \<le> w \<Longrightarrow> max_cost net domain \<le> w"
    unfolding max_cost_def using fin by (subst Max_le_iff) auto
  show "spt_edge net domain p q c \<Longrightarrow> c \<le> max_cost net domain"
    unfolding max_cost_def using fin by (intro Max_ge) auto
qed

text \<open>A vertex that joins the tree is one edge away from a vertex of the tree, and later its weight only decreases.\<close>

definition labels_ok :: "'t network_t \<Rightarrow> net_addr list \<Rightarrow> spt_tree \<Rightarrow> bool" where
  "labels_ok net domain tree \<longleftrightarrow>
     (\<forall>p v. tree p = Some v \<longrightarrow> unat (weight v) \<le> (card (dom tree) - 1) * max_cost net domain)"

definition spt_inv :: "'t network_t \<Rightarrow> net_addr list \<Rightarrow> ip_pfx \<Rightarrow> spt_comp \<Rightarrow> bool" where
  "spt_inv net domain root sc \<longleftrightarrow> dag_ok (spt sc) \<and> ids_ok (spt sc)
     \<and> (\<forall>p v. spt sc p = Some v \<longrightarrow> elem_in net domain (elem v) \<and> elem_id net (elem v) = Some p
          \<and> unat (weight v) < 2 ^ 32 - 1 \<and> spt_path net domain root p (unat (weight v)))
     \<and> (\<forall>p u. u \<in> pset (spt sc) p \<longrightarrow> (\<exists>vp vu c. spt sc p = Some vp \<and> spt sc u = Some vu \<and> spt_edge net domain u p c
          \<and> unat (weight vu) + c \<le> unat (weight vp)))
     \<and> (\<forall>ctx\<in>set (fifo sc). spt sc (ctx_vertex ctx) \<noteq> None \<and> (\<forall>iif. ctx_iif ctx = Some iif \<longrightarrow> iface_at net iif \<noteq> None))
     \<and> (\<exists>v. spt sc root = Some v \<and> weight v = 0) \<and> labels_ok net domain (spt sc)"

text \<open>The identifiers a vertex can have, and a measure that no step increases and every visit of a vertex decreases.\<close>

definition spt_ids :: "'t network_t \<Rightarrow> net_addr list \<Rightarrow> ip_pfx set" where
  "spt_ids net domain = {p. \<exists>el. elem_in net domain el \<and> elem_id net el = Some p}"

definition label_max :: "'t network_t \<Rightarrow> net_addr list \<Rightarrow> nat" where
  "label_max net domain = (card (spt_ids net domain) - 1) * max_cost net domain + 1"

definition vertex_measure :: "nat \<Rightarrow> spt_vertex option \<Rightarrow> nat" where
  "vertex_measure m vo = (case vo of None \<Rightarrow> m | Some v \<Rightarrow> unat (weight v))"

definition spt_measure :: "'t network_t \<Rightarrow> net_addr list \<Rightarrow> spt_comp \<Rightarrow> nat" where
  "spt_measure net domain sc = (\<Sum>p\<in>spt_ids net domain. vertex_measure (label_max net domain) (core (spt sc) p)) + length (fifo sc)"

lemma finite_spt_ids:
  assumes "domain_ok net domain"
  shows "finite (spt_ids net domain)"
proof -
  let ?links = "\<Union>r\<in>dom (net_nodes net). (\<lambda>i. (r, iface_addr i)) ` set (ifaces (the (net_nodes net r)))"
  let ?elems = "NODE ` set domain \<union> SUBNET ` dom (net_subnets net) \<union> LINK ` ?links"
  have "finite (dom (net_nodes net))" "finite (dom (net_subnets net))"
    using assms by (auto simp: domain_ok_def topo_ok_def nodes_ok_def subnets_ok_def)
  then have "finite ?elems" by auto
  moreover have inside: "el \<in> ?elems" if el: "elem_in net domain el" for el
  proof (cases el)
    case (LINK q)
    then obtain i where "iface_at net q = Some i" using el by (auto simp: elem_in_def)
    then have "q \<in> ?links"
      by (cases q) (force simp: iface_at_def net_links_find_def net_iface_id_addr_def find_Some_iff elim!: bind_SomeE)
    then show ?thesis using LINK by blast
  qed (use el in \<open>auto simp: elem_in_def\<close>)
  have "spt_ids net domain \<subseteq> (\<lambda>el. the (elem_id net el)) ` ?elems"
  proof
    fix p assume "p \<in> spt_ids net domain"
    then obtain el where el: "elem_in net domain el" "elem_id net el = Some p" unfolding spt_ids_def by blast
    show "p \<in> (\<lambda>el. the (elem_id net el)) ` ?elems"
      by (rule image_eqI [where x = el, OF _ inside [OF el(1)]]) (simp add: el(2))
  qed
  ultimately show ?thesis using finite_subset by blast
qed

lemma spt_inv_dom:
  assumes "domain_ok net domain" "spt_inv net domain root sc"
  shows "dom (spt sc) \<subseteq> spt_ids net domain" "finite (dom (spt sc))"
proof -
  show "dom (spt sc) \<subseteq> spt_ids net domain" using assms(2) by (auto simp: spt_inv_def spt_ids_def)
  then show "finite (dom (spt sc))" using finite_spt_ids [OF assms(1)] by (rule finite_subset)
qed

lemma labels_same:
  assumes "core tree' = core tree" "labels_ok net domain tree"
  shows "labels_ok net domain tree'"
proof -
  have d: "dom tree' = dom tree" using core_dom [of tree'] core_dom [of tree] assms(1) by (auto simp: dom_def)
  have "unat (weight v') \<le> (card (dom tree) - 1) * max_cost net domain" if v': "tree' p = Some v'" for p v'
    by (rule core_fields [OF fun_cong [OF assms(1) [symmetric]] v']) (use assms(2) [unfolded labels_ok_def] in metis)
  then show ?thesis by (simp add: labels_ok_def d)
qed

lemma core_lookup:
  assumes "core tree' = (core tree)(q \<mapsto> x)" "tree' p = Some v'"
  shows "if p = q then weight v' = weight x \<and> elem v' = elem x \<and> vertex_id v' = vertex_id x
    else (\<exists>v. tree p = Some v \<and> weight v' = weight v \<and> elem v' = elem v \<and> vertex_id v' = vertex_id v)"
proof -
  have c: "Some (v'\<lparr>preds := [], succs := []\<rparr>) = (if p = q then Some x else core tree p)"
    using fun_cong [OF assms(1), of p] assms(2) by (auto simp: core_def)
  show ?thesis
  proof (cases "p = q")
    case True
    with c have "x = v'\<lparr>preds := [], succs := []\<rparr>" by simp
    with True show ?thesis by simp
  next
    case False
    with c obtain v where v: "tree p = Some v" "v'\<lparr>preds := [], succs := []\<rparr> = v\<lparr>preds := [], succs := []\<rparr>"
      by (cases "tree p") (auto simp: core_def)
    with False show ?thesis
      using arg_cong [OF v(2), of weight] arg_cong [OF v(2), of elem] arg_cong [OF v(2), of vertex_id] by simp
  qed
qed

lemma core_lookup_rev:
  assumes "core tree' = (core tree)(q \<mapsto> x)" "tree p = Some v \<or> p = q"
  obtains v' where "tree' p = Some v'" "if p = q then weight v' = weight x else weight v' = weight v"
proof -
  have "core tree' p \<noteq> None" using assms core_dom [of tree p] by (auto simp: fun_upd_def)
  then obtain v' where v': "tree' p = Some v'" using core_dom [of tree' p] by (cases "tree' p") auto
  from core_lookup [OF assms(1) v'] assms(2) show thesis by (intro that [OF v']) (auto split: if_splits)
qed

lemma labels_improved:
  assumes "finite (dom tree)" "labels_ok net domain tree" "core tree' = (core tree)(q \<mapsto> x)" "weight x = w"
    and "tree q = None \<or> (\<exists>vq. tree q = Some vq \<and> w < weight vq)"
    and "tree p = Some v" "unat w = unat (weight v) + c" "c \<le> max_cost net domain"
  shows "labels_ok net domain tree'" "tree q = None \<Longrightarrow> unat w \<le> card (dom tree) * max_cost net domain"
proof -
  let ?k = "card (dom tree)" and ?c = "max_cost net domain"
  have pos: "0 < ?k" using assms(1,6) by (auto simp: card_gt_0_iff)
  then have step: "(?k - 1) * ?c + ?c = ?k * ?c" by (cases ?k) simp_all
  have old: "unat (weight u) \<le> (?k - 1) * ?c" if "tree p' = Some u" for p' u using assms(2) that by (simp add: labels_ok_def)
  show w: "unat w \<le> ?k * ?c" if "tree q = None" using old [OF assms(6)] assms(7,8) step by simp
  have "core tree' p' = None \<longleftrightarrow> p' \<noteq> q \<and> core tree p' = None" for p' using assms(3) by simp
  then have d: "dom tree' = insert q (dom tree)" using core_dom [of tree'] core_dom [of tree] by (auto simp: dom_def)
  show "labels_ok net domain tree'"
  proof (cases "tree q")
    case None
    then have "card (dom tree') - 1 = ?k" using d assms(1) by (simp add: domIff)
    moreover have "unat (weight v') \<le> ?k * ?c" if "tree' p' = Some v'" for p' v'
      using core_lookup [OF assms(3) that] w [OF None] old step assms(4) by (fastforce split: if_splits)
    ultimately show ?thesis by (simp add: labels_ok_def)
  next
    case (Some vq)
    then have "card (dom tree') = ?k" using d by (simp add: insert_absorb domI)
    moreover have "unat w \<le> (?k - 1) * ?c" using Some assms(5) old [OF Some] by (simp add: word_less_nat_alt)
    ultimately show ?thesis
      using core_lookup [OF assms(3)] old assms(4) unfolding labels_ok_def by (metis (full_types))
  qed
qed

lemma relax_step:
  assumes arr: "gds_ptr_array vadd" and dom: "domain_ok net domain" and inv: "spt_inv net domain root sc"
    and v: "spt sc p = Some v" and links: "elem_links net (elem v) = Some links" "link \<in> set links"
    and edge: "link_edge net domain (elem v) link = Some (to, c)" "elem_in net domain to" "elem_id net to = Some q"
    and w: "unat w = unat (weight v) + c" "unat w < 2 ^ 32 - 1"
  obtains (overflow) "relax net vadd depth p link to w sc = None" "depth \<le> length (fifo sc)"
  | (improved) sc' x where "relax net vadd depth p link to w sc = Some sc'" "spt_inv net domain root sc'"
      "spt_measure net domain sc' \<le> spt_measure net domain sc"
      "spt sc q = None \<and> elem x = to \<or> (\<exists>vq. spt sc q = Some vq \<and> w < weight vq \<and> elem x = elem vq)"
      "core (spt sc') = (core (spt sc))(q \<mapsto> x)" "weight x = w" "pset (spt sc') = (pset (spt sc))(q := {p})"
      "fifo sc' = fifo sc @ [\<lparr>ctx_iif = Some link, ctx_vertex = q\<rparr>]"
  | (kept) sc' vq where "relax net vadd depth p link to w sc = Some sc'" "spt_inv net domain root sc'"
      "spt_measure net domain sc' \<le> spt_measure net domain sc"
      "spt sc q = Some vq" "weight vq \<le> w" "core (spt sc') = core (spt sc)" "fifo sc' = fifo sc"
      "pset (spt sc') = (pset (spt sc))(q := (if weight vq = w then insert p (pset (spt sc) q) else pset (spt sc) q))"
proof -
  let ?tree = "spt sc"
  have dag: "dag_ok ?tree" and ids: "ids_ok ?tree" using inv by (auto simp: spt_inv_def)
  have vertex: "elem_in net domain (elem v') \<and> elem_id net (elem v') = Some p' \<and> unat (weight v') < 2 ^ 32 - 1
      \<and> spt_path net domain root p' (unat (weight v'))" if "?tree p' = Some v'" for p' v'
    using inv that by (simp add: spt_inv_def)
  have pred: "\<exists>vp vu c. ?tree p' = Some vp \<and> ?tree u = Some vu \<and> spt_edge net domain u p' c \<and> unat (weight vu) + c \<le> unat (weight vp)"
    if "u \<in> pset ?tree p'" for p' u using inv that by (simp add: spt_inv_def)
  obtain r where r: "?tree root = Some r" "weight r = 0" using inv by (auto simp: spt_inv_def)
  have spt_edge: "spt_edge net domain p q c" using vertex [OF v] links edge unfolding spt_edge_def by blast
  have path: "spt_path net domain root q (unat w)" unfolding w(1) using vertex [OF v] spt_edge by (blast intro: path_edge)
  obtain pq where pq: "net_elem_prefix net to = Some pq" "pfx_wf pq" by (rule elem_in_prefix [OF dom edge(2)])
  then have norm: "pfx_norm pq = q" using edge(3) by (simp add: elem_id_def)
  have iif: "iface_at net link \<noteq> None" by (rule next_elem_total [OF dom _ links]) (use vertex [OF v] in auto)
  have qin: "q \<in> spt_ids net domain" using edge(2,3) by (auto simp: spt_ids_def)
  have fin: "finite (spt_ids net domain)" by (rule finite_spt_ids [OF dom])
  show thesis
  proof (cases rule: update_node_effect [OF arr dag ids pq norm v, of w])
    case (1 tree' x)
    note improved = this
    show thesis
    proof (cases "length (fifo sc) < depth")
      case False
      then have "relax net vadd depth p link to w sc = None"
        using improved(2) by (simp add: relax_def spt_push_def)
      with False overflow show thesis by simp
    next
      case True
      define sc' where "sc' = \<lparr>spt = tree', fifo = fifo sc @ [\<lparr>ctx_iif = Some link, ctx_vertex = q\<rparr>]\<rparr>"
      have run: "relax net vadd depth p link to w sc = Some sc'"
        using improved(2) True by (simp add: relax_def spt_push_def sc'_def)
      have old: "w < weight vq" if "?tree q = Some vq" for vq using improved(1) that by auto
      have pq': "p \<noteq> q" using old [of v] v w(1) by (auto simp: word_less_nat_alt)
      have rq: "root \<noteq> q" using old [of r] r by auto
      have ex: "elem_in net domain (elem x)" "elem_id net (elem x) = Some q"
        using improved(1) edge(2,3) vertex by auto
      have look: "if p' = q then weight v' = w \<and> elem v' = elem x \<and> vertex_id v' = q
          else (\<exists>v. ?tree p' = Some v \<and> weight v' = weight v \<and> elem v' = elem v \<and> vertex_id v' = vertex_id v)"
        if "tree' p' = Some v'" for p' v' using core_lookup [OF improved(4) that] improved(5,6) by auto
      have grow: "\<exists>v'. tree' p' = Some v' \<and> unat (weight v') \<le> unat (weight v)" if t: "?tree p' = Some v" for p' v
      proof (rule core_lookup_rev [OF improved(4) disjI1 [OF t]])
        fix v' assume "tree' p' = Some v'" "if p' = q then weight v' = weight x else weight v' = weight v"
        then show ?thesis using old [of v] t improved(5) by (auto simp: word_less_nat_alt split: if_splits)
      qed
      have "ids_ok tree'" using look ids by (fastforce simp: ids_ok_def split: if_splits)
      moreover have "elem_in net domain (elem v') \<and> elem_id net (elem v') = Some p' \<and> unat (weight v') < 2 ^ 32 - 1
          \<and> spt_path net domain root p' (unat (weight v'))" if "tree' p' = Some v'" for p' v'
        using look [OF that] ex path w(2) vertex by (auto split: if_splits)
      moreover have "\<exists>vp vu c. tree' p' = Some vp \<and> tree' u = Some vu \<and> spt_edge net domain u p' c \<and> unat (weight vu) + c \<le> unat (weight vp)"
        if u: "u \<in> pset tree' p'" for p' u
      proof (cases "p' = q")
        case True
        then have "u = p" using u improved(7) by simp
        obtain vq where vq: "tree' q = Some vq" using core_lookup_rev [OF improved(4), of q v] by auto
        obtain vp where vp: "tree' p = Some vp" using core_lookup_rev [OF improved(4) disjI1 [OF v]] by auto
        have "weight vp = weight v" "weight vq = w" using look [OF vp] look [OF vq] pq' v by auto
        then show ?thesis using True \<open>u = p\<close> vq vp spt_edge w(1) by auto
      next
        case False
        then have "u \<in> pset ?tree p'" using u improved(7) by simp
        from pred [OF this] obtain vp vu c' where old: "?tree p' = Some vp" "?tree u = Some vu" "spt_edge net domain u p' c'"
          "unat (weight vu) + c' \<le> unat (weight vp)" by blast
        obtain vp' where vp': "tree' p' = Some vp'" using grow [OF old(1)] by blast
        have "weight vp' = weight vp" using look [OF vp'] False old(1) by auto
        moreover obtain vu' where vu': "tree' u = Some vu'" "unat (weight vu') \<le> unat (weight vu)" using grow [OF old(2)] by blast
        moreover have "unat (weight vu') + c' \<le> unat (weight vp)" using vu'(2) old(4) by simp
        ultimately show ?thesis using vp' vu'(1) old(3) by auto
      qed
      moreover have "\<forall>ctx\<in>set (fifo sc'). tree' (ctx_vertex ctx) \<noteq> None \<and> (\<forall>iif. ctx_iif ctx = Some iif \<longrightarrow> iface_at net iif \<noteq> None)"
      proof -
        have "tree' q \<noteq> None" using core_lookup_rev [OF improved(4), of q v] by auto
        moreover have "tree' p' \<noteq> None" if "?tree p' \<noteq> None" for p' using grow that by force
        moreover have "\<forall>ctx\<in>set (fifo sc). ?tree (ctx_vertex ctx) \<noteq> None \<and> (\<forall>iif. ctx_iif ctx = Some iif \<longrightarrow> iface_at net iif \<noteq> None)"
          using inv by (simp add: spt_inv_def)
        ultimately show ?thesis using iif by (auto simp: sc'_def)
      qed
      moreover have "\<exists>v. tree' root = Some v \<and> weight v = 0"
        using core_lookup_rev [OF improved(4) disjI1 [OF r(1)]] rq r(2) by auto
      moreover have lab: "labels_ok net domain tree'" "?tree q = None \<Longrightarrow> unat w \<le> card (dom ?tree) * max_cost net domain"
        using labels_improved [OF spt_inv_dom(2) [OF dom inv] _ improved(4,5) _ v w(1) max_cost_le(2) [OF spt_edge]] inv improved(1)
        by (auto simp: spt_inv_def)
      ultimately have "spt_inv net domain root sc'" unfolding spt_inv_def using improved(3) by (simp add: sc'_def)
      moreover have "spt_measure net domain sc' \<le> spt_measure net domain sc"
      proof -
        let ?m = "vertex_measure (label_max net domain)"
        have "unat w < label_max net domain" if "?tree q = None"
        proof -
          have "dom ?tree \<subseteq> spt_ids net domain - {q}" using spt_inv_dom(1) [OF dom inv] that by auto
          then have "card (dom ?tree) \<le> card (spt_ids net domain) - 1"
            using card_mono [of "spt_ids net domain - {q}" "dom ?tree"] fin qin by simp
          then have "card (dom ?tree) * max_cost net domain \<le> (card (spt_ids net domain) - 1) * max_cost net domain" by (rule mult_le_mono1)
          from le_trans [OF lab(2) [OF that] this] show ?thesis by (simp add: label_max_def)
        qed
        then have "?m (core tree' q) < ?m (core ?tree q)"
          using improved(1,4,5) by (auto simp: vertex_measure_def core_def word_less_nat_alt)
        moreover have "?m (core tree' p') = ?m (core ?tree p')" if "p' \<noteq> q" for p'
          using improved(4) that by simp
        ultimately have "(\<Sum>p\<in>spt_ids net domain. ?m (core tree' p)) < (\<Sum>p\<in>spt_ids net domain. ?m (core ?tree p))"
          by (intro sum_strict_mono_ex1 [OF fin]) (metis less_imp_le order_refl, use qin in blast)
        then show ?thesis by (simp add: spt_measure_def sc'_def)
      qed
      ultimately show thesis
        using run improved by (intro that(2) [of sc' x]) (simp_all add: sc'_def)
    qed
  next
    case (2 tree' vq)
    note equal = this
    define sc' where "sc' = sc\<lparr>spt := tree'\<rparr>"
    have run: "relax net vadd depth p link to w sc = Some sc'" using equal(3) by (simp add: relax_def sc'_def)
    have same: "\<exists>v'. tree' p' = Some v' \<and> weight v' = weight v \<and> elem v' = elem v \<and> vertex_id v' = vertex_id v" if t: "?tree p' = Some v" for p' v
      by (rule core_fields [OF fun_cong [OF equal(5)] t]) blast
    have same': "\<exists>v. ?tree p' = Some v \<and> weight v' = weight v \<and> elem v' = elem v \<and> vertex_id v' = vertex_id v" if t: "tree' p' = Some v'" for p' v'
      by (rule core_fields [OF fun_cong [OF equal(5) [symmetric]] t]) metis
    have "ids_ok tree'" using same' ids by (fastforce simp: ids_ok_def)
    moreover have "elem_in net domain (elem v') \<and> elem_id net (elem v') = Some p' \<and> unat (weight v') < 2 ^ 32 - 1
          \<and> spt_path net domain root p' (unat (weight v'))" if "tree' p' = Some v'" for p' v'
      using same' [OF that] vertex by metis
    moreover have "\<exists>vp vu c. tree' p' = Some vp \<and> tree' u = Some vu \<and> spt_edge net domain u p' c \<and> unat (weight vu) + c \<le> unat (weight vp)"
      if u: "u \<in> pset tree' p'" for p' u
    proof -
      have "u \<in> pset ?tree p' \<or> p' = q \<and> u = p" using u equal(6) by (auto split: if_splits)
      then obtain vp vu c' where "?tree p' = Some vp" "?tree u = Some vu" "spt_edge net domain u p' c'" "unat (weight vu) + c' \<le> unat (weight vp)"
        using pred [of u p'] equal(1,2) v spt_edge w(1) by auto
      then show ?thesis using same [of p' vp] same [of u vu] by force
    qed
    moreover have "\<forall>ctx\<in>set (fifo sc). tree' (ctx_vertex ctx) \<noteq> None \<and> (\<forall>iif. ctx_iif ctx = Some iif \<longrightarrow> iface_at net iif \<noteq> None)"
      using inv same by (force simp: spt_inv_def)
    moreover have "\<exists>v. tree' root = Some v \<and> weight v = 0" using same [OF r(1)] r(2) by auto
    moreover have "labels_ok net domain tree'" by (rule labels_same [OF equal(5)]) (use inv in \<open>simp add: spt_inv_def\<close>)
    ultimately have "spt_inv net domain root sc'" unfolding spt_inv_def using equal(4) by (simp add: sc'_def)
    moreover have "spt_measure net domain sc' \<le> spt_measure net domain sc" using equal(5) by (simp add: spt_measure_def sc'_def)
    ultimately show thesis using run equal by (intro kept [of sc' vq]) (simp_all add: sc'_def)
  next
    case (3 vq)
    note worse = this
    then have "relax net vadd depth p link to w sc = Some sc" by (simp add: relax_def)
    then show thesis using inv worse by (intro kept [of sc vq]) (auto simp: fun_eq_iff)
  qed
qed

section \<open>Vertices that are settled\<close>

text \<open>Without point-to-point links the element of a vertex is determined by its identifier.\<close>

definition ptp_free :: "'t network_t \<Rightarrow> bool" where
  "ptp_free net \<longleftrightarrow> (\<forall>q i. iface_at net q = Some i \<longrightarrow> iface_type i \<noteq> NET_IFACE_PTP)"

definition relaxed :: "spt_tree \<Rightarrow> ip_pfx \<Rightarrow> spt_vertex \<Rightarrow> ip_pfx \<Rightarrow> nat \<Rightarrow> bool" where
  "relaxed tree p v q c \<longleftrightarrow> (\<exists>x. tree q = Some x \<and> (unat (weight x) < unat (weight v) + c
     \<or> unat (weight x) = unat (weight v) + c \<and> p \<in> pset tree q))"

definition usable_edge :: "'t network_t \<Rightarrow> net_addr list \<Rightarrow> spt_vertex \<Rightarrow> iface_ptr \<Rightarrow> ip_pfx \<Rightarrow> nat \<Rightarrow> bool" where
  "usable_edge net domain v link q c \<longleftrightarrow>
     (\<exists>links to. elem_links net (elem v) = Some links \<and> link \<in> set links \<and> link_edge net domain (elem v) link = Some (to, c)
        \<and> elem_id net to = Some q \<and> unat (weight v) + c < 2 ^ 32 - 1)"

text \<open>Every edge is relaxed, or will be looked at again: by a context of the queue or, during the visit of a vertex, among the links
  not yet traversed.\<close>

definition settled :: "'t network_t \<Rightarrow> net_addr list \<Rightarrow> spt_context \<Rightarrow> iface_ptr list \<Rightarrow> spt_comp \<Rightarrow> bool" where
  "settled net domain cur rest sc \<longleftrightarrow>
     (\<forall>p v link q c. spt sc p = Some v \<and> usable_edge net domain v link q c \<longrightarrow>
        relaxed (spt sc) p v q c
        \<or> (\<exists>ctx\<in>set (fifo sc). ctx_vertex ctx = p \<and> \<not> blocked net ctx link)
        \<or> ctx_vertex cur = p \<and> link \<in> set rest \<and> \<not> blocked net cur link)"

lemma elem_of_id:
  assumes "domain_ok net domain" "ptp_free net" "elem_in net domain el" "elem_id net el = Some p"
  shows "el = (if mask p = 32 then NODE (network p) else SUBNET p)"
proof (cases el)
  case (NODE r)
  then have "p = net_iface_id_addr r" using assms(4) by (simp add: elem_id_def net_elem_prefix_def pfx_norm_def net_iface_id_addr_def)
  then show ?thesis by (simp add: NODE net_iface_id_addr_def)
next
  case (SUBNET s)
  then obtain sn where "net_subnets net s = Some sn" using assms(3) by (auto simp: elem_in_def)
  moreover from this have "subnet_prefix sn = s" "pfx_norm s = s" "mask s < 32"
    using assms(1) by (auto simp: domain_ok_def topo_ok_def subnets_ok_def)
  ultimately show ?thesis using assms(4) SUBNET by (auto simp: elem_id_def net_elem_prefix_def)
next
  case (LINK q)
  then show ?thesis using assms(2,3) by (auto simp: elem_in_def ptp_free_def simp del: split_paired_All)
qed

lemma back_edge:
  assumes "domain_ok net domain" "ptp_free net" "elem_in net domain el" "elem_links net el = Some links" "link \<in> set links"
    and "link_edge net domain el link = Some (to, c)" "blocked net \<lparr>ctx_iif = Some link, ctx_vertex = q\<rparr> link2"
    and "link_edge net domain to link2 = Some (to2, c2)"
  shows "to2 = el \<and> 0 < c2"
proof -
  have topo: "topo_ok net" using assms(1) by (simp add: domain_ok_def)
  obtain i where i: "iface_at net link = Some i" "iface_dest i = Some (DstIface link2)"
    using assms(7) by (auto simp: blocked_def)
  have ok: "iface_ok net link i" by (rule topo_okD [OF topo i(1)])
  have conn: "iface_connected i" using assms(6) i(1) by (auto simp: link_edge_def net_iface_is_connected_def elim!: bind_SomeE)
  show ?thesis
  proof (cases el)
    case (NODE r)
    have link: "fst link = r" using assms(4,5) NODE by (auto simp: elem_links_def)
    have "iface_type i \<noteq> NET_IFACE_PTP" using assms(2) i(1) unfolding ptp_free_def by blast
    moreover have "iface_type i \<noteq> NET_IFACE_PTMP" using ok conn i(2) by (auto simp: iface_ok_def)
    moreover have "iface_type i \<noteq> NET_IFACE_LOOPBACK" "iface_type i \<noteq> NET_IFACE_VIRTUAL"
      using assms(6) i(1) NODE by (auto simp: link_edge_def link_get_next_elem_def elim!: bind_SomeE)
    ultimately have rtr: "iface_type i = NET_IFACE_RTR" by (cases "iface_type i") auto
    then have l2: "link2 = (snd link, r)" using ok conn i(2) link by (simp add: iface_ok_def)
    have to: "to = NODE (snd link)"
      using assms(6) i NODE rtr l2 by (auto simp: link_edge_def link_get_next_elem_def dest_owner_def elim!: bind_SomeE)
    obtain j where j: "iface_at net link2 = Some j" "iface_type j = NET_IFACE_RTR"
      using ok conn rtr l2 link by (auto simp: iface_ok_def)
    have jc: "iface_connected j" using assms(8) j(1) by (auto simp: link_edge_def net_iface_is_connected_def elim!: bind_SomeE)
    then have "iface_dest j = Some (DstIface (r, snd link))" using topo_okD [OF topo j(1)] j(2) l2 by (simp add: iface_ok_def)
    then show ?thesis
      using assms(8) to j NODE by (auto simp: link_edge_def link_get_next_elem_def dest_owner_def unat_gt_0 elim!: bind_SomeE)
  next
    case (SUBNET p)
    then obtain s where "net_subnets net p = Some s" "link \<in> set (subnet_ifaces s)"
      using assms(4,5) by (auto simp: elem_links_def split: if_splits)
    then have "port_ok net p link" using topo by (auto simp: topo_ok_def subnets_ok_def)
    then show ?thesis using i by (simp add: port_ok_def)
  next
    case (LINK l)
    then show ?thesis using assms(2,3) by (auto simp: elem_in_def ptp_free_def simp del: split_paired_All)
  qed
qed

lemma settled_improved:
  assumes dom: "domain_ok net domain" "ptp_free net" and inv: "spt_inv net domain root sc" "spt_inv net domain root sc'"
    and set: "settled net domain cur (link # rest) sc" and v: "spt sc p = Some v" "ctx_vertex cur = p"
    and links: "elem_links net (elem v) = Some links" "link \<in> set links"
    and edge: "link_edge net domain (elem v) link = Some (to, c)" "elem_in net domain to" "elem_id net to = Some q"
    and w: "unat w = unat (weight v) + c"
    and upd: "spt sc q = None \<or> (\<exists>vq. spt sc q = Some vq \<and> w < weight vq)"
      "core (spt sc') = (core (spt sc))(q \<mapsto> x)" "weight x = w" "pset (spt sc') = (pset (spt sc))(q := {p})"
      "fifo sc' = fifo sc @ [\<lparr>ctx_iif = Some link, ctx_vertex = q\<rparr>]"
  shows "settled net domain cur rest sc'"
  unfolding settled_def
proof (intro allI impI, elim conjE)
  fix p' v' link' q' c'
  assume v': "spt sc' p' = Some v'" and use: "usable_edge net domain v' link' q' c'"
  have old: "w < weight vq" if "spt sc q = Some vq" for vq using upd(1) that by auto
  have pq: "p \<noteq> q" using old [of v] v(1) w by (auto simp: word_less_nat_alt)
  note look = core_lookup [OF upd(2)]
  obtain vq where vq: "spt sc' q = Some vq" using core_lookup_rev [OF upd(2), of q v] by auto
  have wq: "weight vq = w" using look [OF vq] upd(3) by simp
  obtain vp where vp: "spt sc' p = Some vp" "weight vp = weight v"
    by (rule core_lookup_rev [OF upd(2) disjI1 [OF v(1)]]) (use pq in auto)
  let ?ctx = "\<lparr>ctx_iif = Some link, ctx_vertex = q\<rparr>"
  show "relaxed (spt sc') p' v' q' c' \<or> (\<exists>ctx\<in>set (fifo sc'). ctx_vertex ctx = p' \<and> \<not> blocked net ctx link')
    \<or> ctx_vertex cur = p' \<and> link' \<in> set rest \<and> \<not> blocked net cur link'"
  proof (cases "p' = q")
    case True
    show ?thesis
    proof (cases "blocked net ?ctx link'")
      case False
      then show ?thesis using True upd(5) by auto
    next
      case blk: True
      obtain to' where to': "link_edge net domain (elem v') link' = Some (to', c')" "elem_id net to' = Some q'"
        using use by (auto simp: usable_edge_def)
      have elv: "elem_in net domain (elem v)" "elem_id net (elem v) = Some p" using inv(1) v(1) by (auto simp: spt_inv_def)
      have elv': "elem_in net domain (elem v')" "elem_id net (elem v') = Some q" using inv(2) v' True by (auto simp: spt_inv_def)
      have "elem v' = to" using elem_of_id [OF dom elv'] elem_of_id [OF dom edge(2,3)] by simp
      then have "to' = elem v" "0 < c'" using back_edge [OF dom elv(1) links edge(1) blk] to'(1) by auto
      then have "q' = p" using to'(2) elv(2) by simp
      moreover have "weight v' = w" using look [OF v'] True upd(3) by simp
      ultimately have "relaxed (spt sc') p' v' q' c'" using vp w \<open>0 < c'\<close> by (auto simp: relaxed_def)
      then show ?thesis by blast
    qed
  next
    case False
    obtain v0 where v0: "spt sc p' = Some v0" "weight v' = weight v0" "elem v' = elem v0" using look [OF v'] False by auto
    have use0: "usable_edge net domain v0 link' q' c'" using use v0 by (simp add: usable_edge_def)
    from set v0(1) use0 consider "relaxed (spt sc) p' v0 q' c'" | "\<exists>ctx\<in>set (fifo sc). ctx_vertex ctx = p' \<and> \<not> blocked net ctx link'"
      | "ctx_vertex cur = p'" "link' = link" | "ctx_vertex cur = p'" "link' \<in> set rest" "\<not> blocked net cur link'"
      unfolding settled_def by (metis set_ConsD)
    then show ?thesis
    proof cases
      case 1
      then obtain y where y: "spt sc q' = Some y" "unat (weight y) < unat (weight v0) + c' \<or> unat (weight y) = unat (weight v0) + c' \<and> p' \<in> pset (spt sc) q'"
        by (auto simp: relaxed_def)
      have "relaxed (spt sc') p' v' q' c'"
      proof (cases "q' = q")
        case True
        with y vq wq v0(2) old [of y] show ?thesis by (auto simp: relaxed_def word_less_nat_alt)
      next
        case False
        obtain y' where "spt sc' q' = Some y'" "weight y' = weight y"
          by (rule core_lookup_rev [OF upd(2) disjI1 [OF y(1)]]) (use False in auto)
        with y(2) False v0(2) show ?thesis by (auto simp: relaxed_def upd(4))
      qed
      then show ?thesis by blast
    next
      case 2
      then show ?thesis using upd(5) by auto
    next
      case 3
      then have "q' = q" "c' = c" "v0 = v" using use0 v edge v0(1) by (auto simp: usable_edge_def)
      then have "relaxed (spt sc') p' v' q' c'" using vq wq w v0(2) 3(1) v(2) by (auto simp: relaxed_def upd(4))
      then show ?thesis by blast
    next
      case 4
      then show ?thesis by blast
    qed
  qed
qed

lemma settled_kept:
  assumes set: "settled net domain cur (link # rest) sc" and v: "spt sc p = Some v" "ctx_vertex cur = p"
    and edge: "link_edge net domain (elem v) link = Some (to, c)" "elem_id net to = Some q" and w: "unat w = unat (weight v) + c"
    and kept: "spt sc q = Some vq" "weight vq \<le> w" "core (spt sc') = core (spt sc)" "fifo sc' = fifo sc"
      "pset (spt sc') = (pset (spt sc))(q := (if weight vq = w then insert p (pset (spt sc) q) else pset (spt sc) q))"
  shows "settled net domain cur rest sc'"
  unfolding settled_def
proof (intro allI impI, elim conjE)
  fix p' v' link' q' c'
  assume v': "spt sc' p' = Some v'" and use: "usable_edge net domain v' link' q' c'"
  obtain v0 where v0: "spt sc p' = Some v0" "weight v0 = weight v'" "elem v0 = elem v'"
    by (rule core_fields [OF fun_cong [OF kept(3) [symmetric]] v'])
  have use0: "usable_edge net domain v0 link' q' c'" using use v0 by (simp add: usable_edge_def)
  have mono: "relaxed (spt sc) p' v0 q' c' \<Longrightarrow> relaxed (spt sc') p' v' q' c'"
  proof -
    assume "relaxed (spt sc) p' v0 q' c'"
    then obtain y where y: "spt sc q' = Some y" "unat (weight y) < unat (weight v0) + c' \<or> unat (weight y) = unat (weight v0) + c' \<and> p' \<in> pset (spt sc) q'"
      by (auto simp: relaxed_def)
    obtain y' where "spt sc' q' = Some y'" "weight y' = weight y" by (rule core_fields [OF fun_cong [OF kept(3)] y(1)])
    with y(2) v0(2) show ?thesis by (auto simp: relaxed_def kept(5))
  qed
  have this_edge: "relaxed (spt sc') p' v' q' c'" if "p' = p" "link' = link"
  proof -
    have e: "q' = q" "c' = c" "v0 = v" using that use0 v edge v0(1) by (auto simp: usable_edge_def)
    obtain vq' where "spt sc' q = Some vq'" "weight vq' = weight vq" by (rule core_fields [OF fun_cong [OF kept(3)] kept(1)])
    then show ?thesis using e w kept(2) v0(2) that(1)
      by (auto simp: relaxed_def kept(5) word_le_nat_alt word_unat_eq_iff)
  qed
  from set v0(1) use0 show "relaxed (spt sc') p' v' q' c' \<or> (\<exists>ctx\<in>set (fifo sc'). ctx_vertex ctx = p' \<and> \<not> blocked net ctx link')
      \<or> ctx_vertex cur = p' \<and> link' \<in> set rest \<and> \<not> blocked net cur link'"
    unfolding settled_def using mono this_edge v(2) kept(4) by (metis set_ConsD)
qed

section \<open>The whole search\<close>

lemma traverse_step:
  assumes arr: "gds_ptr_array vadd" and dom: "domain_ok net domain" and inv: "spt_inv net domain root sc"
    and v: "spt sc (ctx_vertex cur) = Some v" and links: "elem_links net (elem v) = Some links" "link \<in> set links"
    and iif: "\<And>iif. ctx_iif cur = Some iif \<Longrightarrow> iface_at net iif \<noteq> None"
    and set: "ptp_free net \<Longrightarrow> settled net domain cur (link # rest) sc"
  obtains (overflow) "link_traverse net domain vadd depth cur link sc = None" "depth \<le> spt_measure net domain sc"
  | (step) sc' v' where "link_traverse net domain vadd depth cur link sc = Some sc'" "spt_inv net domain root sc'"
      "spt_measure net domain sc' \<le> spt_measure net domain sc" "spt sc' (ctx_vertex cur) = Some v'" "elem v' = elem v"
      "ptp_free net \<Longrightarrow> settled net domain cur rest sc'"
proof -
  have ein: "elem_in net domain (elem v)" and wv: "unat (weight v) < 2 ^ 32 - 1" using inv v by (auto simp: spt_inv_def)
  note eq = link_traverse_eq [OF dom ein links v iif wv, of vadd depth]
  have skip: thesis if "link_traverse net domain vadd depth cur link sc = Some sc"
    "\<And>q c. usable_edge net domain v link q c \<Longrightarrow> blocked net cur link"
  proof -
    have "settled net domain cur rest sc" if "ptp_free net"
      using set [OF that] \<open>\<And>q c. usable_edge net domain v link q c \<Longrightarrow> blocked net cur link\<close> v
      unfolding settled_def by (metis option.inject set_ConsD)
    with that(1) inv v show thesis by (intro step [of sc v]) auto
  qed
  show thesis
  proof (cases "blocked net cur link")
    case True
    with eq skip show thesis by auto
  next
    case False
    show thesis
    proof (cases "link_edge net domain (elem v) link")
      case None
      with eq skip False show thesis by (auto simp: usable_edge_def)
    next
      case (Some tc)
      obtain to c where tc: "tc = (to, c)" by (cases tc)
      have toin: "elem_in net domain to" using eq False Some tc by auto
      obtain pq where "net_elem_prefix net to = Some pq" by (rule elem_in_prefix [OF dom toin])
      then obtain q where q: "elem_id net to = Some q" by (simp add: elem_id_def)
      show thesis
      proof (cases "unat (weight v) + c < 2 ^ 32 - 1")
        case False
        then show thesis using eq skip \<open>\<not> blocked net cur link\<close> Some tc by (auto simp: usable_edge_def)
      next
        case True
        then obtain w where w: "unat w = unat (weight v) + c"
          and run: "link_traverse net domain vadd depth cur link sc = relax net vadd depth (ctx_vertex cur) link to w sc"
          using eq False Some tc by auto
        note edge = Some [unfolded tc] toin q
        show thesis
        proof (cases rule: relax_step [OF arr dom inv v links edge w, of depth])
          case 2
          then show thesis using overflow run by (simp add: spt_measure_def)
        next
          case (3 sc' x)
          have ne: "ctx_vertex cur \<noteq> q" using 3(4) v w by (auto simp: word_less_nat_alt)
          obtain v' where v': "spt sc' (ctx_vertex cur) = Some v'"
            by (rule core_lookup_rev [OF 3(5) disjI1 [OF v]])
          have el: "elem v' = elem v" using core_lookup [OF 3(5) v'] ne v by auto
          have "settled net domain cur rest sc'" if "ptp_free net"
            by (rule settled_improved [OF dom that inv 3(2) set [OF that] v refl links edge w _ 3(5-8)]) (use 3(4) in auto)
          then show thesis by (intro step [OF _ 3(2,3) v' el]) (simp_all add: run 3(1))
        next
          case (4 sc' vq)
          obtain v' where v': "spt sc' (ctx_vertex cur) = Some v'" "elem v' = elem v"
            by (rule core_fields [OF fun_cong [OF 4(6)] v])
          have "settled net domain cur rest sc'" if "ptp_free net"
            by (rule settled_kept [OF set [OF that] v refl edge(1,3) w 4(4-8)])
          then show thesis by (intro step [OF _ 4(2,3) v']) (simp_all add: run 4(1))
        qed (use True w in simp)
      qed
    qed
  qed
qed

lemma traverse_all_effect:
  assumes "gds_ptr_array vadd" "domain_ok net domain" "spt_inv net domain root sc"
    and "spt sc (ctx_vertex cur) = Some v" "elem_links net (elem v) = Some links" "set rest \<subseteq> set links"
    and "\<And>iif. ctx_iif cur = Some iif \<Longrightarrow> iface_at net iif \<noteq> None"
    and "ptp_free net \<Longrightarrow> settled net domain cur rest sc"
  shows "(traverse_all net domain vadd depth cur rest sc = None \<and> depth \<le> spt_measure net domain sc)
    \<or> (\<exists>sc'. traverse_all net domain vadd depth cur rest sc = Some sc' \<and> spt_inv net domain root sc'
        \<and> spt_measure net domain sc' \<le> spt_measure net domain sc \<and> (ptp_free net \<longrightarrow> settled net domain cur [] sc'))"
  using assms
proof (induction rest arbitrary: sc v)
  case Nil
  then show ?case by simp
next
  case (Cons link rest)
  have link: "link \<in> set links" using Cons.prems(6) by simp
  show ?case
  proof (cases rule: traverse_step [OF Cons.prems(1-5) link Cons.prems(7,8), of depth])
    case 3
    then show ?thesis by simp
  next
    case (4 sc' v')
    have "(traverse_all net domain vadd depth cur rest sc' = None \<and> depth \<le> spt_measure net domain sc')
      \<or> (\<exists>sc''. traverse_all net domain vadd depth cur rest sc' = Some sc'' \<and> spt_inv net domain root sc''
        \<and> spt_measure net domain sc'' \<le> spt_measure net domain sc' \<and> (ptp_free net \<longrightarrow> settled net domain cur [] sc''))"
      by (rule Cons.IH [OF Cons.prems(1,2) 4(2,4)]) (use Cons.prems(5-7) 4(5,6) in auto)
    then show ?thesis using 4(1,3) by auto
  qed simp_all
qed

text \<open>One visit, as the loop performs it.\<close>

lemma visit_effect:
  assumes "gds_ptr_array vadd" "domain_ok net domain" "spt_inv net domain root sc" "fifo sc = ctx # rest"
    and "ptp_free net \<Longrightarrow> settled net domain cur [] sc"
  obtains v links where "spt sc (ctx_vertex ctx) = Some v" "elem_links net (elem v) = Some links"
    "(traverse_all net domain vadd depth ctx links (sc\<lparr>fifo := rest\<rparr>) = None \<and> depth \<le> spt_measure net domain sc)
    \<or> (\<exists>sc'. traverse_all net domain vadd depth ctx links (sc\<lparr>fifo := rest\<rparr>) = Some sc' \<and> spt_inv net domain root sc'
        \<and> spt_measure net domain sc' < spt_measure net domain sc \<and> (ptp_free net \<longrightarrow> settled net domain ctx [] sc'))"
proof -
  obtain v where v: "spt sc (ctx_vertex ctx) = Some v" and iif: "\<And>iif. ctx_iif ctx = Some iif \<Longrightarrow> iface_at net iif \<noteq> None"
    using assms(3,4) by (auto simp: spt_inv_def)
  have "elem_in net domain (elem v)" using assms(3) v by (auto simp: spt_inv_def)
  then obtain links where links: "elem_links net (elem v) = Some links" using elem_links_total [OF assms(2)] by blast
  let ?sc = "sc\<lparr>fifo := rest\<rparr>"
  have inv: "spt_inv net domain root ?sc" using assms(3,4) by (simp add: spt_inv_def)
  have set: "settled net domain ctx links ?sc" if "ptp_free net"
    using assms(5) [OF that] v links unfolding settled_def
    by (fastforce simp: assms(4) usable_edge_def)
  have m: "spt_measure net domain sc = Suc (spt_measure net domain ?sc)" by (simp add: spt_measure_def assms(4))
  have v': "spt ?sc (ctx_vertex ctx) = Some v" using v by simp
  show thesis
    by (rule that [OF v links])
      (use traverse_all_effect [OF assms(1,2) inv v' links order_refl iif set, of depth] m in auto)
qed

lemma bfs_loop_result:
  assumes "spt_bfs_loop net domain vadd depth sc = Some tree" "gds_ptr_array vadd" "domain_ok net domain"
    and "spt_inv net domain root sc" "ptp_free net \<longrightarrow> (\<exists>cur. settled net domain cur [] sc)"
  shows "spt_inv net domain root \<lparr>spt = tree, fifo = []\<rparr> \<and> (ptp_free net \<longrightarrow> (\<exists>cur. settled net domain cur [] \<lparr>spt = tree, fifo = []\<rparr>))"
proof -
  have "gds_ptr_array vadd \<longrightarrow> domain_ok net domain \<longrightarrow> spt_inv net domain root sc \<longrightarrow> (ptp_free net \<longrightarrow> (\<exists>cur. settled net domain cur [] sc))
    \<longrightarrow> spt_inv net domain root \<lparr>spt = tree, fifo = []\<rparr> \<and> (ptp_free net \<longrightarrow> (\<exists>cur. settled net domain cur [] \<lparr>spt = tree, fifo = []\<rparr>))"
  proof (rule spt_bfs_loop.raw_induct [where P = "\<lambda>net domain vadd depth sc tree. gds_ptr_array vadd \<longrightarrow> domain_ok net domain \<longrightarrow>
      spt_inv net domain root sc \<longrightarrow> (ptp_free net \<longrightarrow> (\<exists>cur. settled net domain cur [] sc)) \<longrightarrow> spt_inv net domain root \<lparr>spt = tree, fifo = []\<rparr>
      \<and> (ptp_free net \<longrightarrow> (\<exists>cur. settled net domain cur [] \<lparr>spt = tree, fifo = []\<rparr>))", OF _ assms(1)], intro impI)
    fix loop and net :: "'a network_t" and domain vadd depth sc tree
    assume IH: "\<And>(net :: 'a network_t) domain vadd depth sc tree. loop net domain vadd depth sc = Some tree \<Longrightarrow> gds_ptr_array vadd \<longrightarrow> domain_ok net domain \<longrightarrow>
        spt_inv net domain root sc \<longrightarrow> (ptp_free net \<longrightarrow> (\<exists>cur. settled net domain cur [] sc)) \<longrightarrow> spt_inv net domain root \<lparr>spt = tree, fifo = []\<rparr>
        \<and> (ptp_free net \<longrightarrow> (\<exists>cur. settled net domain cur [] \<lparr>spt = tree, fifo = []\<rparr>))"
      and run: "(case fifo sc of [] \<Rightarrow> Some (spt sc)
        | ctx # rest \<Rightarrow> do {
            vertex \<leftarrow> spt sc (ctx_vertex ctx);
            links \<leftarrow> elem_links net (elem vertex);
            sc \<leftarrow> traverse_all net domain vadd depth ctx links (sc\<lparr>fifo := rest\<rparr>);
            loop net domain vadd depth sc
          }) = Some tree"
      and arr: "gds_ptr_array vadd" and dom: "domain_ok net domain" and inv: "spt_inv net domain root sc"
      and set: "ptp_free net \<longrightarrow> (\<exists>cur. settled net domain cur [] sc)"
    show "spt_inv net domain root \<lparr>spt = tree, fifo = []\<rparr> \<and> (ptp_free net \<longrightarrow> (\<exists>cur. settled net domain cur [] \<lparr>spt = tree, fifo = []\<rparr>))"
    proof (cases "fifo sc")
      case Nil
      then have "sc = \<lparr>spt = tree, fifo = []\<rparr>" using run by (cases sc) simp
      with inv set show ?thesis by simp
    next
      case (Cons ctx rest)
      obtain cur where cur: "ptp_free net \<Longrightarrow> settled net domain cur [] sc" using set by blast
      show ?thesis
      proof (rule visit_effect [OF arr dom inv Cons cur, of depth], assumption)
        fix v links
        assume v: "spt sc (ctx_vertex ctx) = Some v" "elem_links net (elem v) = Some links"
          and eff: "(traverse_all net domain vadd depth ctx links (sc\<lparr>fifo := rest\<rparr>) = None \<and> depth \<le> spt_measure net domain sc)
            \<or> (\<exists>sc'. traverse_all net domain vadd depth ctx links (sc\<lparr>fifo := rest\<rparr>) = Some sc' \<and> spt_inv net domain root sc'
              \<and> spt_measure net domain sc' < spt_measure net domain sc \<and> (ptp_free net \<longrightarrow> settled net domain ctx [] sc'))"
        obtain sc' where sc': "traverse_all net domain vadd depth ctx links (sc\<lparr>fifo := rest\<rparr>) = Some sc'" "loop net domain vadd depth sc' = Some tree"
          using run v by (auto simp: Cons elim!: bind_SomeE)
        with eff have "spt_inv net domain root sc'" "ptp_free net \<longrightarrow> (\<exists>cur. settled net domain cur [] sc')" by auto
        with IH [OF sc'(2)] arr dom show ?thesis by blast
      qed
    qed
  qed
  with assms(2-5) show ?thesis by blast
qed

lemma bfs_loop_returns:
  assumes "gds_ptr_array vadd" "domain_ok net domain"
  shows "spt_inv net domain root sc \<Longrightarrow> (ptp_free net \<Longrightarrow> settled net domain cur [] sc) \<Longrightarrow> spt_measure net domain sc < depth
    \<Longrightarrow> \<exists>tree. spt_bfs_loop net domain vadd depth sc = Some tree"
proof (induction "spt_measure net domain sc" arbitrary: sc cur rule: less_induct)
  case less
  show ?case
  proof (cases "fifo sc")
    case Nil
    then show ?thesis by (simp add: spt_bfs_loop.simps)
  next
    case (Cons ctx rest)
    show ?thesis
    proof (rule visit_effect [OF assms less.prems(1) Cons less.prems(2), of depth], assumption)
      fix v links
      assume v: "spt sc (ctx_vertex ctx) = Some v" "elem_links net (elem v) = Some links"
        and "(traverse_all net domain vadd depth ctx links (sc\<lparr>fifo := rest\<rparr>) = None \<and> depth \<le> spt_measure net domain sc)
          \<or> (\<exists>sc'. traverse_all net domain vadd depth ctx links (sc\<lparr>fifo := rest\<rparr>) = Some sc' \<and> spt_inv net domain root sc'
            \<and> spt_measure net domain sc' < spt_measure net domain sc \<and> (ptp_free net \<longrightarrow> settled net domain ctx [] sc'))"
      then obtain sc' where sc': "traverse_all net domain vadd depth ctx links (sc\<lparr>fifo := rest\<rparr>) = Some sc'" "spt_inv net domain root sc'"
        "spt_measure net domain sc' < spt_measure net domain sc" "ptp_free net \<Longrightarrow> settled net domain ctx [] sc'"
        using less.prems(3) by auto
      have "\<exists>tree. spt_bfs_loop net domain vadd depth sc' = Some tree"
        by (rule less.hyps [OF sc'(3,2,4)]) (use sc'(3) less.prems(3) in auto)
      then show ?thesis using Cons v sc'(1) by (subst spt_bfs_loop.simps) simp
    qed
  qed
qed

definition spt_start :: "net_addr \<Rightarrow> spt_comp" where
  "spt_start root = \<lparr>spt = [net_iface_id_addr root \<mapsto>
       \<lparr>preds = [], succs = [], weight = 0, elem = NODE root, vertex_id = net_iface_id_addr root\<rparr>],
     fifo = [\<lparr>ctx_iif = None, ctx_vertex = net_iface_id_addr root\<rparr>]\<rparr>"

lemma spt_bfs_start: "0 < depth \<Longrightarrow> spt_bfs net vadd depth root domain = spt_bfs_loop net domain vadd depth (spt_start root)"
proof -
  have "pfx_wf (net_iface_id_addr root)" "pfx_norm (net_iface_id_addr root) = net_iface_id_addr root"
    by (simp_all add: net_iface_id_addr_def pfx_wf_def pfx_norm_def)
  then have "ip_prefix_mask (net_iface_id_addr root) = Some (net_iface_id_addr root)" by (simp add: ip_prefix_mask_norm)
  then show "0 < depth \<Longrightarrow> ?thesis"
    by (simp add: spt_bfs_def spt_create_def spt_vertex_create_def net_elem_prefix_def spt_push_def spt_start_def)
qed

lemma spt_start_inv:
  assumes "root \<in> set domain"
  shows "spt_inv net domain (net_iface_id_addr root) (spt_start root)" "settled net domain cur [] (spt_start root)"
proof -
  have id: "elem_id net (NODE root) = Some (net_iface_id_addr root)"
    by (simp add: elem_id_def net_elem_prefix_def pfx_norm_def net_iface_id_addr_def)
  have "pset (spt (spt_start root)) p = {}" "sset (spt (spt_start root)) p = {}" for p
    by (simp_all add: spt_start_def pset_def sset_def)
  then show "spt_inv net domain (net_iface_id_addr root) (spt_start root)"
    using assms id by (auto simp: spt_inv_def dag_ok_def ids_ok_def spt_start_def elem_in_def labels_ok_def intro: path_root split: if_splits)
  show "settled net domain cur [] (spt_start root)"
    by (auto simp: settled_def spt_start_def blocked_def split: if_splits)
qed

lemma spt_start_measure:
  assumes "domain_ok net domain"
  shows "spt_measure net domain (spt_start root) \<le> card (spt_ids net domain) * label_max net domain + 1"
proof -
  let ?m = "\<lambda>p. vertex_measure (label_max net domain) (core (spt (spt_start root)) p)"
  have "?m p \<le> label_max net domain" for p
    by (simp add: vertex_measure_def core_def spt_start_def)
  then have "(\<Sum>p\<in>spt_ids net domain. ?m p) \<le> card (spt_ids net domain) * label_max net domain"
    using sum_bounded_above [of "spt_ids net domain" ?m "label_max net domain"] by simp
  then show ?thesis by (simp add: spt_measure_def spt_start_def)
qed

text \<open>The number of visits of a search of a domain of at most \<open>n\<close> elements whose edges weigh at most \<open>w\<close>.\<close>

definition search_bound :: "nat \<Rightarrow> nat \<Rightarrow> nat" where
  "search_bound n w = n * ((n - 1) * w + 1) + 1"

lemma spt_start_bound:
  assumes "domain_ok net domain" "card (spt_ids net domain) \<le> n" "\<forall>p q c. spt_edge net domain p q c \<longrightarrow> c \<le> w"
  shows "spt_measure net domain (spt_start root) \<le> search_bound n w"
proof -
  have "(card (spt_ids net domain) - 1) * max_cost net domain \<le> (n - 1) * w"
    using assms(2) max_cost_le(1) [OF assms(3)] by (intro mult_le_mono) simp_all
  then have "card (spt_ids net domain) * label_max net domain \<le> n * ((n - 1) * w + 1)"
    using assms(2) unfolding label_max_def by (intro mult_le_mono) simp_all
  with spt_start_measure [OF assms(1), of root] show ?thesis by (simp add: search_bound_def)
qed

lemma spt_bfs_total:
  assumes "gds_ptr_array vadd" "domain_ok net domain" "root \<in> set domain" "card (spt_ids net domain) \<le> n"
    and "\<forall>p q c. spt_edge net domain p q c \<longrightarrow> c \<le> w" "search_bound n w < depth"
  obtains tree where "spt_bfs net vadd depth root domain = Some tree"
proof -
  have "\<exists>tree. spt_bfs_loop net domain vadd depth (spt_start root) = Some tree"
    by (rule bfs_loop_returns [OF assms(1,2) spt_start_inv [OF assms(3)]])
      (rule le_less_trans [OF spt_start_bound [OF assms(2,4,5)] assms(6)])
  then show thesis using that assms(6) by (auto simp: spt_bfs_start)
qed

lemma spt_bfs_depth: "spt_bfs net vadd depth root domain = Some tree \<Longrightarrow> 0 < depth"
  by (auto simp: spt_bfs_def spt_push_def elim!: bind_SomeE split: prod.splits)

lemma spt_bfs_result:
  assumes "gds_ptr_array vadd" "domain_ok net domain" "root \<in> set domain" "spt_bfs net vadd depth root domain = Some tree"
  shows "spt_inv net domain (net_iface_id_addr root) \<lparr>spt = tree, fifo = []\<rparr>"
    "ptp_free net \<Longrightarrow> \<exists>cur. settled net domain cur [] \<lparr>spt = tree, fifo = []\<rparr>"
  using bfs_loop_result [OF assms(4) [unfolded spt_bfs_start [OF spt_bfs_depth [OF assms(4)]]] assms(1,2) spt_start_inv(1) [OF assms(3)]]
    spt_start_inv(2) [OF assms(3)] by blast+

text \<open>When the queue is empty every edge is relaxed.\<close>

lemma settled_relaxed:
  assumes "domain_ok net domain" "ptp_free net" "spt_inv net domain root \<lparr>spt = tree, fifo = []\<rparr>"
    and "settled net domain cur [] \<lparr>spt = tree, fifo = []\<rparr>"
    and "tree p = Some v" "spt_edge net domain p q c" "unat (weight v) + c < 2 ^ 32 - 1"
  shows "relaxed tree p v q c"
proof -
  obtain el links link to where e: "elem_in net domain el" "elem_id net el = Some p" "elem_links net el = Some links" "link \<in> set links"
    "link_edge net domain el link = Some (to, c)" "elem_id net to = Some q"
    using assms(6) unfolding spt_edge_def by blast
  have "elem_in net domain (elem v)" "elem_id net (elem v) = Some p" using assms(3,5) by (auto simp: spt_inv_def)
  then have "elem v = el" using elem_of_id [OF assms(1,2)] e(1,2) by metis
  then have "usable_edge net domain v link q c" unfolding usable_edge_def using e assms(7) by blast
  then show ?thesis using assms(4,5) unfolding settled_def by fastforce
qed

lemma path_bound:
  assumes "domain_ok net domain" "ptp_free net" "spt_inv net domain root \<lparr>spt = tree, fifo = []\<rparr>"
    and "settled net domain cur [] \<lparr>spt = tree, fifo = []\<rparr>" "spt_path net domain root q d"
  shows "d < 2 ^ 32 - 1 \<Longrightarrow> \<exists>v. tree q = Some v \<and> unat (weight v) \<le> d"
  using assms(5)
proof (induction rule: spt_path.induct)
  case path_root
  then show ?case using assms(3) by (auto simp: spt_inv_def)
next
  case (path_edge p d q c)
  then obtain v where v: "tree p = Some v" "unat (weight v) \<le> d" by auto
  have "relaxed tree p v q c"
    by (rule settled_relaxed [OF assms(1-4) v(1) path_edge.hyps(2)]) (use v(2) path_edge.prems in simp)
  then show ?case using v(2) by (auto simp: relaxed_def)
qed

lemma pset_tight:
  assumes "domain_ok net domain" "ptp_free net" "spt_inv net domain root \<lparr>spt = tree, fifo = []\<rparr>"
    and "settled net domain cur [] \<lparr>spt = tree, fifo = []\<rparr>" "tree q = Some v"
  shows "set (preds v) = {u. \<exists>vu c. tree u = Some vu \<and> spt_edge net domain u q c \<and> unat (weight vu) + c = unat (weight v)}"
proof -
  have max: "unat (weight v) < 2 ^ 32 - 1" using assms(3,5) by (auto simp: spt_inv_def)
  have pset: "pset tree q = set (preds v)" using assms(5) by (simp add: pset_def)
  show ?thesis
  proof (intro subset_antisym subsetI CollectI)
    fix u assume "u \<in> set (preds v)"
    then obtain vu c where u: "tree u = Some vu" "spt_edge net domain u q c" "unat (weight vu) + c \<le> unat (weight v)"
      using assms(3,5) pset by (fastforce simp: spt_inv_def)
    have "relaxed tree u vu q c" by (rule settled_relaxed [OF assms(1-4) u(1,2)]) (use u(3) max in simp)
    then have "unat (weight v) \<le> unat (weight vu) + c" using assms(5) by (auto simp: relaxed_def)
    with u show "\<exists>vu c. tree u = Some vu \<and> spt_edge net domain u q c \<and> unat (weight vu) + c = unat (weight v)" by (metis le_antisym)
  next
    fix u assume "u \<in> {u. \<exists>vu c. tree u = Some vu \<and> spt_edge net domain u q c \<and> unat (weight vu) + c = unat (weight v)}"
    then obtain vu c where u: "tree u = Some vu" "spt_edge net domain u q c" "unat (weight vu) + c = unat (weight v)" by blast
    have "relaxed tree u vu q c" by (rule settled_relaxed [OF assms(1-4) u(1,2)]) (use u(3) max in simp)
    then show "u \<in> set (preds v)" using u(3) assms(5) pset by (auto simp: relaxed_def)
  qed
qed

section \<open>Evaluation\<close>

text \<open>The search with a bound on the number of visits, and its independence from the depth of the queue.\<close>

fun bfs_turns :: "nat \<Rightarrow> 't network_t \<Rightarrow> net_addr list \<Rightarrow> ip_pfx sorted_add \<Rightarrow> nat \<Rightarrow> spt_comp \<Rightarrow> spt_tree option" where
  "bfs_turns 0 net domain vadd depth sc = None"
| "bfs_turns (Suc k) net domain vadd depth sc =
     (case fifo sc of
        [] \<Rightarrow> Some (spt sc)
      | ctx # rest \<Rightarrow> do {
          vertex \<leftarrow> spt sc (ctx_vertex ctx);
          links \<leftarrow> elem_links net (elem vertex);
          sc \<leftarrow> traverse_all net domain vadd depth ctx links (sc\<lparr>fifo := rest\<rparr>);
          bfs_turns k net domain vadd depth sc
        })"

lemma push_mono: "spt_push depth iif v sc = Some sc' \<Longrightarrow> depth \<le> depth' \<Longrightarrow> spt_push depth' iif v sc = Some sc'"
  by (auto simp: spt_push_def)

lemma bind_mono:
  assumes "m \<bind> f = Some y" "\<And>x. m = Some x \<Longrightarrow> f x = Some y \<Longrightarrow> g x = Some y"
  shows "m \<bind> g = Some y"
  using assms by (cases m) auto

lemma link_traverse_mono:
  assumes "link_traverse net domain vadd depth ctx link sc = Some sc'" "depth \<le> depth'"
  shows "link_traverse net domain vadd depth' ctx link sc = Some sc'"
proof -
  have push: "spt_push depth' iif v sc'' = Some sc'" if "spt_push depth iif v sc'' = Some sc'" for iif v sc''
    by (rule push_mono [OF that assms(2)])
  show ?thesis
    using assms(1) unfolding link_traverse_def Let_def
    apply (elim bind_mono)
    subgoal for v next_elem
      apply (cases next_elem)
       apply simp
      subgoal for to
        apply (cases "case to of NODE r \<Rightarrow> \<not> igp_domain_contains_router domain r | _ \<Rightarrow> False")
         apply simp
        apply (simp only: option.case if_False)
        apply (elim bind_mono)
        subgoal for bk
          apply (cases bk)
           apply simp
          apply (simp only: if_False)
          apply (elim bind_mono)
          subgoal for iface
            apply (cases "\<not> net_iface_is_enabled iface \<or> \<not> net_iface_is_connected iface")
             apply simp
            apply (simp only: if_False)
            apply (elim bind_mono)
            apply (split if_split_asm, simp)
            apply (simp only: if_False)
            apply (split if_split_asm, simp)
            apply (simp only: if_False)
            apply (elim bind_mono)
            apply (auto split: option.splits intro: push)
            done
          done
        done
      done
    done
qed

lemma traverse_all_mono:
  "traverse_all net domain vadd depth ctx links sc = Some sc' \<Longrightarrow> depth \<le> depth' \<Longrightarrow>
     traverse_all net domain vadd depth' ctx links sc = Some sc'"
  by (induction links arbitrary: sc) (auto elim!: bind_SomeE dest: link_traverse_mono)

lemma bfs_turns_loop:
  "bfs_turns k net domain vadd depth sc = Some tree \<Longrightarrow> depth \<le> depth' \<Longrightarrow> spt_bfs_loop net domain vadd depth' sc = Some tree"
proof (induction k arbitrary: sc)
  case (Suc k)
  then show ?case
    by (subst spt_bfs_loop.simps) (auto elim!: bind_SomeE dest: traverse_all_mono split: list.splits)
qed simp

lemma link_edge_code [code]:
  "link_edge net domain el link = do {
     to \<leftarrow> link_get_next_elem net el link;
     to \<leftarrow> to;
     assert_opt (case to of NODE r \<Rightarrow> r \<in> set domain | _ \<Rightarrow> True);
     iface \<leftarrow> iface_at net link;
     assert_opt (net_iface_is_enabled iface \<and> net_iface_is_connected iface);
     w \<leftarrow> net_iface_get_metric iface 0;
     assert_opt (case el of LINK _ \<Rightarrow> True | _ \<Rightarrow> w \<noteq> 0 \<and> w \<noteq> IGP_MAX_WEIGHT);
     Some (to, case el of NODE _ \<Rightarrow> unat w | _ \<Rightarrow> 0)
   }"
proof -
  have "(\<forall>r. to = NODE r \<longrightarrow> r \<in> set domain) = (case to of NODE r \<Rightarrow> r \<in> set domain | _ \<Rightarrow> True)" for to
    by (simp split: net_elem.splits)
  moreover have "((\<exists>q. el = LINK q) \<or> P) = (case el of LINK _ \<Rightarrow> True | _ \<Rightarrow> P)" for P by (simp split: net_elem.splits)
  ultimately show ?thesis by (simp add: link_edge_def)
qed

definition pfx_order :: "ip_pfx \<Rightarrow> ip_pfx \<Rightarrow> int" where
  "pfx_order p q =
     (if network p < network q then -1 else if network p > network q then 1
      else if mask p < mask q then -1 else if mask p > mask q then 1 else 0)"

definition vertices_add :: "ip_pfx sorted_add" where
  "vertices_add xs x = (if x \<in> set xs then None else insort_unique pfx_order xs x)"

lemma pfx_order_0: "pfx_order p q = 0 \<longleftrightarrow> p = q"
  by (cases p; cases q) (auto simp: pfx_order_def)

lemma insort_order_new:
  "distinct xs \<Longrightarrow> x \<notin> set xs \<Longrightarrow> \<exists>ys. insort_unique pfx_order xs x = Some ys \<and> set ys = insert x (set xs) \<and> distinct ys"
  by (induction xs) (auto simp: pfx_order_0)

interpretation vertices: gds_ptr_array vertices_add
  by unfold_locales (auto simp: vertices_add_def insort_order_new)

text \<open>Networks built by a sequence of commands that all succeed.\<close>

fun build :: "('t network_t \<Rightarrow> (int \<times> 't network_t) option) list \<Rightarrow> 't network_t \<Rightarrow> 't network_t option" where
  "build [] net = Some net"
| "build (cmd # cmds) net = do {
     (error, net) \<leftarrow> cmd net;
     if error = ESUCCESS then build cmds net else None
   }"

definition add_node_cmd :: "net_addr \<Rightarrow> unit network_t \<Rightarrow> (int \<times> unit network_t) option" where
  "add_node_cmd r net = Some (network_add_node (sample_node r) net)"

definition topo_cmd :: "('t network_t \<Rightarrow> (int \<times> 't network_t) option) \<Rightarrow> bool" where
  "topo_cmd cmd \<longleftrightarrow> (\<forall>net net'. cmd net = Some (ESUCCESS, net') \<longrightarrow> topo_step sample_net_env net net')"

lemma build_run:
  "build cmds net = Some net' \<Longrightarrow> list_all topo_cmd cmds \<Longrightarrow> topo_run sample_net_env net \<Longrightarrow> topo_run sample_net_env net'"
proof (induction cmds arbitrary: net)
  case (Cons cmd cmds)
  then obtain net1 where "cmd net = Some (ESUCCESS, net1)" "build cmds net1 = Some net'"
    by (auto elim!: bind_SomeE split: if_splits)
  moreover from this have "topo_run sample_net_env net1"
    by (intro run_step [OF Cons.prems(3)]) (use Cons.prems(2) in \<open>simp add: topo_cmd_def\<close>)
  ultimately show ?case using Cons by simp
qed simp

lemma create_iface_node:
  assumes "net_link_create_iface env r ifid type net = Some (e, net1)"
  shows "net_nodes net r \<noteq> None" "x \<noteq> r \<Longrightarrow> net_nodes net1 x = net_nodes net x"
  using assms by (auto simp: net_link_create_iface_def node_find_iface_def net_iface_factory_eq node_add_iface2_def
      elim!: bind_SomeE split: option.splits if_splits prod.splits)

lemma topo_cmds:
  "r \<noteq> 0 \<Longrightarrow> topo_cmd (add_node_cmd r)"
  "topo_cmd (net_link_create_rtr sample_net_env src dst BIDIR :: unit network_t \<Rightarrow> _)"
  "pfx_wf p \<Longrightarrow> pfx_wf q \<Longrightarrow> topo_cmd (net_link_create_ptp sample_net_env src p dst q BIDIR :: unit network_t \<Rightarrow> _)"
  "topo_cmd (net_iface_set_metric ptr 0 w BIDIR :: unit network_t \<Rightarrow> _)"
proof -
  show "topo_cmd (add_node_cmd r)" if "r \<noteq> 0"
    using step_node [OF sample_node_create [OF that]] by (metis add_node_cmd_def option.inject snd_conv topo_cmd_def)
  have ends: "net_nodes net src \<noteq> None \<and> net_nodes net dst \<noteq> None"
    if run: "on_success (net_link_create_iface env src i t net) (\<lambda>net. on_success (net_link_create_iface env dst j t net) f) = Some (ESUCCESS, net')" and ne: "src \<noteq> dst"
    for env i j t f and net net' :: "unit network_t"
  proof -
    obtain e1 net1 where 1: "net_link_create_iface env src i t net = Some (e1, net1)" using run by (auto simp: on_success_def elim!: bind_SomeE)
    obtain e2 net2 where 2: "net_link_create_iface env dst j t net1 = Some (e2, net2)"
      using run by (auto simp: on_success_def 1 elim!: bind_SomeE split: if_splits)
    show ?thesis using create_iface_node [OF 1] create_iface_node(1) [OF 2] ne by metis
  qed
  show "topo_cmd (net_link_create_rtr sample_net_env src dst BIDIR :: unit network_t \<Rightarrow> _)"
    unfolding topo_cmd_def
  proof (intro allI impI)
    fix net net' :: "unit network_t" assume run: "net_link_create_rtr sample_net_env src dst BIDIR net = Some (ESUCCESS, net')"
    then have "net_nodes net src \<noteq> None \<and> net_nodes net dst \<noteq> None"
      by (intro ends) (auto simp: net_link_create_rtr_def error_codes net_error_codes split: if_splits)
    then show "topo_step sample_net_env net net'" using run by (blast intro: step_rtr)
  qed
  show "topo_cmd (net_link_create_ptp sample_net_env src p dst q BIDIR :: unit network_t \<Rightarrow> _)" if wf: "pfx_wf p" "pfx_wf q"
    unfolding topo_cmd_def
  proof (intro allI impI)
    fix net net' :: "unit network_t" assume run: "net_link_create_ptp sample_net_env src p dst q BIDIR net = Some (ESUCCESS, net')"
    then have "net_nodes net src \<noteq> None \<and> net_nodes net dst \<noteq> None"
      by (intro ends) (auto simp: net_link_create_ptp_def error_codes net_error_codes elim!: bind_SomeE split: if_splits)
    then show "topo_step sample_net_env net net'" using run wf by (blast intro: step_ptp)
  qed
  show "topo_cmd (net_iface_set_metric ptr 0 w BIDIR :: unit network_t \<Rightarrow> _)"
    unfolding topo_cmd_def
  proof (intro allI impI)
    fix net net' :: "unit network_t" assume run: "net_iface_set_metric ptr 0 w BIDIR net = Some (ESUCCESS, net')"
    then obtain i where "iface_at net ptr = Some i" by (auto simp: net_iface_set_metric_def iface_set_attr_def elim!: bind_SomeE)
    then show "topo_step sample_net_env net net'" using run by (rule step_metric)
  qed
qed

section \<open>Two networks\<close>

text \<open>A triangle of router-to-router links, and a square one side of which is a point-to-point link.\<close>

definition triangle_cmds :: "(unit network_t \<Rightarrow> (int \<times> unit network_t) option) list" where
  "triangle_cmds =
     [add_node_cmd 1, add_node_cmd 2, add_node_cmd 3,
      net_link_create_rtr sample_net_env 1 2 BIDIR, net_iface_set_metric (1, 2) 0 5 BIDIR,
      net_link_create_rtr sample_net_env 1 3 BIDIR, net_iface_set_metric (1, 3) 0 1 BIDIR,
      net_link_create_rtr sample_net_env 3 2 BIDIR, net_iface_set_metric (3, 2) 0 2 BIDIR]"

definition triangle :: "unit network_t" where "triangle = the (build triangle_cmds network_create)"

definition square_cmds :: "(unit network_t \<Rightarrow> (int \<times> unit network_t) option) list" where
  "square_cmds =
     [add_node_cmd 1, add_node_cmd 2, add_node_cmd 3, add_node_cmd 4,
      net_link_create_rtr sample_net_env 1 2 BIDIR, net_iface_set_metric (1, 2) 0 8 BIDIR,
      net_link_create_rtr sample_net_env 1 3 BIDIR, net_iface_set_metric (1, 3) 0 1 BIDIR,
      net_link_create_rtr sample_net_env 3 4 BIDIR, net_iface_set_metric (3, 4) 0 2 BIDIR,
      net_link_create_ptp sample_net_env 2 \<lparr>network = 0xA000001, mask = 30\<rparr> 4 \<lparr>network = 0xA000002, mask = 30\<rparr> BIDIR,
      net_iface_set_metric (2, 0xA000001) 0 2 BIDIR]"

definition square :: "unit network_t" where "square = the (build square_cmds network_create)"


lemma sample_built:
  "build triangle_cmds network_create = Some triangle" "build square_cmds network_create = Some square"
proof -
  have "build triangle_cmds network_create \<noteq> None" "build square_cmds network_create \<noteq> None" by code_simp+
  then show "build triangle_cmds network_create = Some triangle" "build square_cmds network_create = Some square"
    by (auto simp: triangle_def square_def)
qed

lemma sample_runs: "topo_run sample_net_env triangle" "topo_run sample_net_env square"
  by (rule build_run [OF sample_built(1) _ run_create], simp add: triangle_cmds_def topo_cmds)
    (rule build_run [OF sample_built(2) _ run_create], simp add: square_cmds_def topo_cmds pfx_wf_def)

text \<open>Checks over the lists of interfaces of the routers.\<close>

definition ifaces_all :: "(net_iface \<Rightarrow> bool) \<Rightarrow> net_addr list \<Rightarrow> 't network_t \<Rightarrow> bool" where
  "ifaces_all P rs net = list_all (\<lambda>r. case net_nodes net r of None \<Rightarrow> False | Some node \<Rightarrow> list_all P (ifaces node)) rs"

lemma ifaces_allD:
  assumes "ifaces_all P rs net" "r \<in> set rs"
  shows "net_nodes net r \<noteq> None" "iface_at net (r, a) = Some i \<Longrightarrow> P i"
proof -
  from assms obtain node where "net_nodes net r = Some node" "list_all P (ifaces node)"
    unfolding ifaces_all_def list_all_iff by (auto split: option.splits)
  then show "net_nodes net r \<noteq> None" "iface_at net (r, a) = Some i \<Longrightarrow> P i"
    by (auto simp: iface_at_def net_links_find_def list_all_iff find_Some_iff)
qed

lemma domain_ok_check:
  assumes "topo_ok net" "ifaces_all (\<lambda>i. iface_type i = NET_IFACE_RTR \<longrightarrow> iface_connected i) domain net"
  shows "domain_ok net domain"
  using assms(1) ifaces_allD [OF assms(2)] unfolding domain_ok_def by blast

lemma sample_domains: "domain_ok triangle [1, 2, 3]" "domain_ok square [1, 2, 3, 4]"
proof -
  have "ifaces_all (\<lambda>i. iface_type i = NET_IFACE_RTR \<longrightarrow> iface_connected i) [1, 2, 3] triangle"
    "ifaces_all (\<lambda>i. iface_type i = NET_IFACE_RTR \<longrightarrow> iface_connected i) [1, 2, 3, 4] square" by code_simp+
  then show "domain_ok triangle [1, 2, 3]" "domain_ok square [1, 2, 3, 4]"
    using sample_runs by (simp_all add: domain_ok_check sample_arrays.topo_run_ok)
qed

text \<open>Only adding a node changes which nodes there are.\<close>

definition keeps_none :: "net_addr \<Rightarrow> ('t network_t \<Rightarrow> (int \<times> 't network_t) option) \<Rightarrow> bool" where
  "keeps_none x cmd \<longleftrightarrow> (\<forall>net e net'. cmd net = Some (e, net') \<and> net_nodes net x = None \<longrightarrow> net_nodes net' x = None)"

lemma iface_modify_none: "net_nodes net x = None \<Longrightarrow> net_nodes (iface_modify ptr f net) x = None"
  by (auto simp: iface_modify_def)

lemma keeps_on_success: "keeps_none x cmd \<Longrightarrow> keeps_none x f \<Longrightarrow> keeps_none x (\<lambda>net. on_success (cmd net) f)"
  unfolding keeps_none_def
proof (intro allI impI, elim conjE)
  fix net e net'
  assume keep: "\<forall>net e net'. cmd net = Some (e, net') \<and> net_nodes net x = None \<longrightarrow> net_nodes net' x = None"
    "\<forall>net e net'. f net = Some (e, net') \<and> net_nodes net x = None \<longrightarrow> net_nodes net' x = None"
    and run: "on_success (cmd net) f = Some (e, net')" and none: "net_nodes net x = None"
  obtain e1 net1 where 1: "cmd net = Some (e1, net1)" using run by (cases "cmd net") (auto simp: on_success_def)
  with keep(1) none have "net_nodes net1 x = None" by blast
  with keep(2) run show "net_nodes net' x = None" by (auto simp: on_success_def 1 split: if_splits)
qed

lemma keeps_create_iface: "keeps_none x (net_link_create_iface env r ifid type)"
  unfolding keeps_none_def
proof (intro allI impI, elim conjE)
  fix net e net' assume "net_link_create_iface env r ifid type net = Some (e, net')" "net_nodes net x = None"
  with create_iface_node [OF this(1)] show "net_nodes net' x = None" by (cases "x = r") auto
qed

lemma keeps_connect: "keeps_none x (net_iface_connect_iface ptr dst)"
proof -
  have "net_nodes net' x = None" if run: "net_iface_connect_iface ptr dst net = Some (e, net')" and none: "net_nodes net x = None" for net e and net' :: "'a network_t"
  proof -
    have "net' = net \<or> (\<exists>f. net' = iface_modify ptr f net)"
      using run by (cases "iface_at net ptr"; cases "iface_at net dst") (auto simp: net_iface_connect_iface_def split: if_split_asm)
    with none show ?thesis by (auto intro: iface_modify_none)
  qed
  then show ?thesis unfolding keeps_none_def by blast
qed

lemma keeps_none_if: "keeps_none x f \<Longrightarrow> keeps_none x g \<Longrightarrow> keeps_none x (\<lambda>net. if b then f net else g net)"
  by (cases b) simp_all

lemma keeps_none_Some: "keeps_none x (\<lambda>net. Some (e, net))"
  by (simp add: keeps_none_def)

lemma keeps_nones:
  "x \<noteq> r \<Longrightarrow> keeps_none x (add_node_cmd r)"
  "keeps_none x (net_link_create_rtr env src dst dir)"
  "keeps_none x (net_iface_set_metric ptr tos w dir)"
proof -
  show "keeps_none x (add_node_cmd r)" if "x \<noteq> r"
    using that by (auto simp: keeps_none_def add_node_cmd_def network_add_node_def sample_node_def split: if_splits option.splits)
  show "keeps_none x (net_link_create_rtr env src dst dir)"
    unfolding net_link_create_rtr_def net_link_connect_def
    by (intro keeps_none_if keeps_none_Some keeps_on_success keeps_create_iface keeps_connect)
  show "keeps_none x (net_iface_set_metric ptr tos w dir)"
    by (auto simp: keeps_none_def net_iface_set_metric_def iface_set_attr_def iface_modify_none elim!: bind_SomeE split: if_splits sum.splits)
qed

lemma build_none: "build cmds net = Some net' \<Longrightarrow> list_all (keeps_none x) cmds \<Longrightarrow> net_nodes net x = None \<Longrightarrow> net_nodes net' x = None"
  by (induction cmds arbitrary: net) (fastforce simp: keeps_none_def elim!: bind_SomeE split: if_splits)+

lemma triangle_ptp_free: "ptp_free triangle"
  unfolding ptp_free_def
proof (intro allI impI)
  fix q i assume i: "iface_at triangle q = Some i"
  have "fst q \<in> set [1, 2, 3]"
  proof (rule ccontr)
    assume "fst q \<notin> set [1, 2, 3]"
    then have "net_nodes triangle (fst q) = None"
      by (intro build_none [OF sample_built(1)]) (simp_all add: triangle_cmds_def keeps_nones network_create_def)
    with i show False by (simp add: iface_at_def)
  qed
  moreover have "ifaces_all (\<lambda>i. iface_type i \<noteq> NET_IFACE_PTP) [1, 2, 3] triangle" by code_simp
  ultimately show "iface_type i \<noteq> NET_IFACE_PTP" using i ifaces_allD(2) by (cases q) fastforce
qed

text \<open>Bounds on the elements and on the weights of a domain.\<close>

lemma edge_cost_check:
  assumes "ifaces_all (\<lambda>i. case net_iface_get_metric i 0 of None \<Rightarrow> True | Some w \<Rightarrow> unat w \<le> k) domain net" "spt_edge net domain p q c"
  shows "c \<le> k"
proof -
  obtain el links link to where el: "elem_in net domain el" "elem_links net el = Some links" "link \<in> set links"
    "link_edge net domain el link = Some (to, c)" using assms(2) unfolding spt_edge_def by blast
  then obtain i w where i: "iface_at net link = Some i" "net_iface_get_metric i 0 = Some w" "c = (case el of NODE _ \<Rightarrow> unat w | _ \<Rightarrow> 0)"
    unfolding link_edge_def by (elim bind_SomeE) (auto elim!: bind_SomeE)
  show ?thesis
  proof (cases el)
    case (NODE r)
    then have "r \<in> set domain" "fst link = r" using el(1-3) by (auto simp: elem_in_def elem_links_def)
    then show ?thesis using ifaces_allD(2) [OF assms(1), of r "snd link" i] i NODE by (cases link) simp
  qed (use i in simp_all)
qed

lemma spt_ids_routers:
  assumes "ptp_free net" "net_subnets net = Map.empty"
  shows "card (spt_ids net domain) \<le> length domain"
proof -
  have "p \<in> net_iface_id_addr ` set domain" if "p \<in> spt_ids net domain" for p
  proof -
    obtain el where el: "elem_in net domain el" "elem_id net el = Some p" using \<open>p \<in> spt_ids net domain\<close> by (auto simp: spt_ids_def)
    show ?thesis
    proof (cases el)
      case (NODE r)
      then show ?thesis using el by (auto simp: elem_in_def elem_id_def net_elem_prefix_def pfx_norm_def net_iface_id_addr_def)
    qed (use el(1) assms in \<open>auto simp: elem_in_def ptp_free_def simp del: split_paired_All\<close>)
  qed
  then have "card (spt_ids net domain) \<le> card (net_iface_id_addr ` set domain)" by (intro card_mono) auto
  also have "\<dots> \<le> card (set domain)" by (rule card_image_le) simp
  also have "\<dots> \<le> length domain" by (rule card_length)
  finally show ?thesis .
qed

definition keeps_subnets :: "('t network_t \<Rightarrow> (int \<times> 't network_t) option) \<Rightarrow> bool" where
  "keeps_subnets cmd \<longleftrightarrow> (\<forall>net e net'. cmd net = Some (e, net') \<longrightarrow> net_subnets net' = net_subnets net)"

lemma keeps_subnets_intros:
  "keeps_subnets (\<lambda>net. Some (e, net))"
  "keeps_subnets f \<Longrightarrow> keeps_subnets g \<Longrightarrow> keeps_subnets (\<lambda>net. if b then f net else g net)"
  "keeps_subnets cmd \<Longrightarrow> keeps_subnets f \<Longrightarrow> keeps_subnets (\<lambda>net. on_success (cmd net) f)"
  by (auto simp: keeps_subnets_def on_success_def elim!: bind_SomeE split: if_splits)

lemma keeps_subnets_cmds:
  "keeps_subnets (add_node_cmd r)" "keeps_subnets (net_link_create_iface env r ifid type)" "keeps_subnets (net_iface_connect_iface ptr ptr')"
  "keeps_subnets (net_iface_set_metric ptr tos w dir)" "keeps_subnets (net_link_create_rtr env src dst dir')"
proof -
  have modify: "net_subnets (iface_modify ptr f net) = net_subnets net" for ptr f and net :: "'t network_t"
    by (simp add: iface_modify_def split: option.split)
  show "keeps_subnets (add_node_cmd r)"
    by (auto simp: keeps_subnets_def add_node_cmd_def network_add_node_def split: if_splits option.splits)
  show create: "keeps_subnets (net_link_create_iface env r ifid type)" for env r ifid type
    by (auto simp: keeps_subnets_def net_link_create_iface_def node_find_iface_def net_iface_factory_eq node_add_iface2_def
        elim!: bind_SomeE split: option.splits if_splits prod.splits)
  show connect: "keeps_subnets (net_iface_connect_iface ptr ptr')" for ptr ptr'
    by (auto simp: keeps_subnets_def net_iface_connect_iface_def modify elim!: bind_SomeE split: if_splits)
  show "keeps_subnets (net_iface_set_metric ptr tos w dir)"
    by (auto simp: keeps_subnets_def net_iface_set_metric_def iface_set_attr_def modify elim!: bind_SomeE split: if_splits sum.splits)
  show "keeps_subnets (net_link_create_rtr env src dst dir')"
    unfolding net_link_create_rtr_def net_link_connect_def by (intro keeps_subnets_intros create connect)
qed

lemma build_subnets: "build cmds net = Some net' \<Longrightarrow> list_all keeps_subnets cmds \<Longrightarrow> net_subnets net' = net_subnets net"
  by (induction cmds arbitrary: net) (fastforce simp: keeps_subnets_def elim!: bind_SomeE split: if_splits)+

lemma triangle_bounds: "card (spt_ids triangle [1, 2, 3]) \<le> 3" "\<forall>p q c. spt_edge triangle [1, 2, 3] p q c \<longrightarrow> c \<le> 5"
proof -
  have "net_subnets triangle = net_subnets (network_create :: unit network_t)"
    by (rule build_subnets [OF sample_built(1)]) (simp add: triangle_cmds_def keeps_subnets_cmds)
  then have "net_subnets triangle = Map.empty" by (simp add: network_create_def)
  from spt_ids_routers [OF triangle_ptp_free this, of "[1, 2, 3]"] show "card (spt_ids triangle [1, 2, 3]) \<le> 3" by simp
  have "ifaces_all (\<lambda>i. case net_iface_get_metric i 0 of None \<Rightarrow> True | Some w \<Rightarrow> unat w \<le> 5) [1, 2, 3] triangle" by code_simp
  then show "\<forall>p q c. spt_edge triangle [1, 2, 3] p q c \<longrightarrow> c \<le> 5" using edge_cost_check by blast
qed

lemma path_from_ids:
  assumes "elem_in net domain el" "elem_id net el = Some p" "elem_links net el = Some links" "link \<in> set links"
    "link_edge net domain el link = Some (to, c)" "elem_id net to = Some q" "spt_path net domain root p d"
  shows "spt_path net domain root q (d + c)"
  using assms by (blast intro: path_edge spt_edge_def [THEN iffD2])

section \<open>Properties\<close>

text \<open>C19: In a network without point-to-point links the tree computed by \<open>spt_bfs\<close> is the shortest-path tree of the domain: its
  vertices are the elements that have a path from the root of a length the weights can represent, the weight of a vertex is the least
  length of such a path, and its predecessors are exactly the vertices from which an edge of a shortest path leads to it.\<close>

theorem spt_bfs_shortest:
  assumes "gds_ptr_array vadd" "domain_ok net domain" "ptp_free net" "root \<in> set domain"
    and "spt_bfs net vadd depth root domain = Some tree"
  shows "case tree q of
      None \<Rightarrow> \<nexists>d. spt_path net domain (net_iface_id_addr root) q d \<and> d < 2 ^ 32 - 1
    | Some v \<Rightarrow> spt_path net domain (net_iface_id_addr root) q (unat (weight v))
        \<and> (\<forall>d. spt_path net domain (net_iface_id_addr root) q d \<longrightarrow> unat (weight v) \<le> d)
        \<and> set (preds v) = {u. \<exists>vu c. tree u = Some vu \<and> spt_edge net domain u q c \<and> unat (weight vu) + c = unat (weight v)}"
proof -
  note inv = spt_bfs_result(1) [OF assms(1,2,4,5)]
  obtain cur where cur: "settled net domain cur [] \<lparr>spt = tree, fifo = []\<rparr>" using spt_bfs_result(2) [OF assms(1,2,4,5,3)] by blast
  note bound = path_bound [OF assms(2,3) inv cur]
  show ?thesis
  proof (cases "tree q")
    case None
    with bound [of q] show ?thesis by auto
  next
    case (Some v)
    with inv have v: "spt_path net domain (net_iface_id_addr root) q (unat (weight v))" "unat (weight v) < 2 ^ 32 - 1" by (auto simp: spt_inv_def)
    have "unat (weight v) \<le> d" if "spt_path net domain (net_iface_id_addr root) q d" for d
      using bound [OF that] Some v(2) by (cases "d < 2 ^ 32 - 1") auto
    with v(1) pset_tight [OF assms(2,3) inv cur Some] Some show ?thesis by simp
  qed
qed

lemma triangle_bfs:
  obtains tree where "spt_bfs triangle vertices_add SPT_FIFO_DEPTH 1 [1, 2, 3] = Some tree"
    "map (\<lambda>r. map_option weight (tree (net_iface_id_addr r))) [1, 2, 3] = [Some 0, Some 3, Some 1]"
proof -
  let ?run = "bfs_turns 20 triangle [1, 2, 3] vertices_add 20 (spt_start 1)"
  have "map_option (\<lambda>tree. map (\<lambda>r. map_option weight (tree (net_iface_id_addr r))) [1, 2, 3]) ?run = Some [Some 0, Some 3, Some 1]" by code_simp
  then obtain tree where tree: "?run = Some tree"
    "map (\<lambda>r. map_option weight (tree (net_iface_id_addr r))) [1, 2, 3] = [Some 0, Some 3, Some 1]" by (cases ?run) simp_all
  have "spt_bfs triangle vertices_add SPT_FIFO_DEPTH 1 [1, 2, 3] = Some tree"
    using bfs_turns_loop [OF tree(1), of SPT_FIFO_DEPTH] by (simp add: spt_bfs_start SPT_FIFO_DEPTH_def)
  with tree(2) show thesis by (intro that)
qed

theorem spt_bfs_shortest_witness:
  "\<exists>tree v. spt_bfs triangle vertices_add SPT_FIFO_DEPTH 1 [1, 2, 3] = Some tree \<and> tree (net_iface_id_addr 2) = Some v
     \<and> spt_path triangle [1, 2, 3] (net_iface_id_addr 1) (net_iface_id_addr 2) 3
     \<and> (\<forall>d. spt_path triangle [1, 2, 3] (net_iface_id_addr 1) (net_iface_id_addr 2) d \<longrightarrow> 3 \<le> d)"
proof (rule triangle_bfs)
  fix tree
  assume run: "spt_bfs triangle vertices_add SPT_FIFO_DEPTH 1 [1, 2, 3] = Some tree"
    and "map (\<lambda>r. map_option weight (tree (net_iface_id_addr r))) [1, 2, 3] = [Some 0, Some 3, Some 1]"
  then obtain v where v: "tree (net_iface_id_addr 2) = Some v" "weight v = 3" by auto
  with spt_bfs_shortest [OF vertices.gds_ptr_array_axioms sample_domains(1) triangle_ptp_free _ run, of "net_iface_id_addr 2"] run
  show ?thesis by auto
qed

text \<open>C20: The search returns a tree, whatever the kinds of links, when the domain is small enough for the queue of 100000 contexts that the
  program creates: a domain of \<open>n\<close> elements (routers, subnets and point-to-point links) whose edges weigh at most \<open>w\<close> needs at
  most \<open>n * ((n - 1) * w + 1) + 1\<close> visits, because a vertex joins the tree one edge away from a vertex of the tree and its
  weight only decreases afterwards.  The weight of every vertex is the length of a path from the root, at most \<open>(n - 1) * w\<close>.\<close>

theorem spt_bfs_returns:
  assumes "gds_ptr_array vadd" "domain_ok net domain" "root \<in> set domain"
    and "card (spt_ids net domain) \<le> n" "\<forall>p q c. spt_edge net domain p q c \<longrightarrow> c \<le> w"
    and "n * ((n - 1) * w + 1) + 1 < SPT_FIFO_DEPTH"
  shows "\<exists>tree. spt_bfs net vadd SPT_FIFO_DEPTH root domain = Some tree
    \<and> (\<forall>q v. tree q = Some v \<longrightarrow> unat (weight v) \<le> (n - 1) * w \<and> spt_path net domain (net_iface_id_addr root) q (unat (weight v)))"
proof -
  obtain tree where tree: "spt_bfs net vadd SPT_FIFO_DEPTH root domain = Some tree"
    using spt_bfs_total [OF assms(1-5), where depth = SPT_FIFO_DEPTH] assms(6) unfolding search_bound_def by blast
  note inv = spt_bfs_result(1) [OF assms(1-3) tree]
  have "card (dom tree) \<le> n"
    using card_mono [OF finite_spt_ids [OF assms(2)] spt_inv_dom(1) [OF assms(2) inv]] assms(4) by simp
  then have bound: "(card (dom tree) - 1) * max_cost net domain \<le> (n - 1) * w"
    using max_cost_le(1) [OF assms(5)] by (intro mult_le_mono) simp_all
  have "unat (weight v) \<le> (n - 1) * w \<and> spt_path net domain (net_iface_id_addr root) q (unat (weight v))" if "tree q = Some v" for q v
    using inv that bound by (fastforce simp: spt_inv_def labels_ok_def)
  with tree show ?thesis by blast
qed

theorem spt_bfs_returns_witness:
  "\<exists>tree. spt_bfs triangle vertices_add SPT_FIFO_DEPTH 1 [1, 2, 3] = Some tree \<and> (\<forall>q v. tree q = Some v \<longrightarrow> unat (weight v) \<le> 10)"
proof -
  have "3 * ((3 - 1) * 5 + 1) + 1 < SPT_FIFO_DEPTH" by (simp add: SPT_FIFO_DEPTH_def)
  from spt_bfs_returns [OF vertices.gds_ptr_array_axioms sample_domains(1) _ triangle_bounds this, of 1] show ?thesis by auto
qed
lemma square_bfs:
  obtains tree v where "spt_bfs square vertices_add SPT_FIFO_DEPTH 1 [1, 2, 3, 4] = Some tree"
    "tree (net_iface_id_addr 2) = Some v" "weight v = 8"
proof -
  let ?run = "bfs_turns 20 square [1, 2, 3, 4] vertices_add 20 (spt_start 1)"
  have "map_option (\<lambda>tree. map_option weight (tree (net_iface_id_addr 2))) ?run = Some (Some 8)" by code_simp
  then obtain tree v where tree: "?run = Some tree" "tree (net_iface_id_addr 2) = Some v" "weight v = 8" by auto
  have "spt_bfs square vertices_add SPT_FIFO_DEPTH 1 [1, 2, 3, 4] = Some tree"
    using bfs_turns_loop [OF tree(1), of SPT_FIFO_DEPTH] by (simp add: spt_bfs_start SPT_FIFO_DEPTH_def)
  with tree show thesis by (intro that)
qed

definition node_hop :: "'t network_t \<Rightarrow> net_addr list \<Rightarrow> net_elem \<Rightarrow> iface_ptr \<Rightarrow> net_elem \<Rightarrow> nat \<Rightarrow> bool" where
  "node_hop net domain el link to c \<longleftrightarrow>
     (case elem_links net el of None \<Rightarrow> False | Some links \<Rightarrow> link \<in> set links) \<and> link_edge net domain el link = Some (to, c)"

lemma node_hop_path:
  assumes "node_hop net domain el link to c" "elem_in net domain el" "elem_id net el = Some p" "elem_id net to = Some q"
    "spt_path net domain root p d"
  shows "spt_path net domain root q (d + c)"
proof -
  obtain links where "elem_links net el = Some links" "link \<in> set links" "link_edge net domain el link = Some (to, c)"
    using assms(1) unfolding node_hop_def by (cases "elem_links net el") auto
  then show ?thesis using path_from_ids assms(2-5) by blast
qed

lemma square_path: "spt_path square [1, 2, 3, 4] (net_iface_id_addr 1) (net_iface_id_addr 2) 5"
proof -
  have ids: "elem_id square (NODE r) = Some (net_iface_id_addr r)" for r
    by (simp add: elem_id_def net_elem_prefix_def pfx_norm_def net_iface_id_addr_def)
  have inside: "elem_in square [1, 2, 3, 4] (NODE r)" if "r \<in> {1, 3, 4}" for r using that by (auto simp: elem_in_def)
  let ?l = "LINK (2, 0xA000001)" and ?p = "\<lparr>network = 0xA000000, mask = 30\<rparr>"
  have l: "elem_in square [1, 2, 3, 4] ?l"
  proof -
    have "(case iface_at square (2, 0xA000001) of None \<Rightarrow> False | Some i \<Rightarrow> iface_type i = NET_IFACE_PTP \<and> iface_connected i)" by code_simp
    then show ?thesis by (auto simp: elem_in_def split: option.splits)
  qed
  have lid: "elem_id square ?l = Some ?p" by code_simp
  have hops: "node_hop square [1, 2, 3, 4] (NODE 1) (1, 3) (NODE 3) 1" "node_hop square [1, 2, 3, 4] (NODE 3) (3, 4) (NODE 4) 2"
    "node_hop square [1, 2, 3, 4] (NODE 4) (4, 0xA000002) ?l 2" "node_hop square [1, 2, 3, 4] ?l (4, 0xA000002) (NODE 2) 0"
    by code_simp+
  have "spt_path square [1, 2, 3, 4] (net_iface_id_addr 1) (net_iface_id_addr 2) (0 + 1 + 2 + 2 + 0)"
    by (rule node_hop_path [OF hops(4) l lid ids node_hop_path [OF hops(3) inside ids lid node_hop_path [OF hops(2) inside ids ids
      node_hop_path [OF hops(1) inside ids ids path_root]]]]) simp_all
  moreover have "0 + 1 + 2 + 2 + 0 = (5 :: nat)" by simp
  ultimately show ?thesis by metis
qed

text \<open>With point-to-point links the weights need not be minimal.  The two interfaces of such a link have the same prefix, hence one
  vertex, which keeps the element of the interface it was first reached through: from the vertex the search goes on to one of the two
  ends only, even when the link was reached again, and at a lower weight, from the other side.  In the square, router 2 gets
  weight 8 although it has a path of length 5.\<close>

theorem spt_bfs_ptp_not_shortest:
  "domain_ok square [1, 2, 3, 4]
    \<and> (\<exists>tree v. spt_bfs square vertices_add SPT_FIFO_DEPTH 1 [1, 2, 3, 4] = Some tree \<and> tree (net_iface_id_addr 2) = Some v
         \<and> weight v = 8 \<and> spt_path square [1, 2, 3, 4] (net_iface_id_addr 1) (net_iface_id_addr 2) 5)"
  using sample_domains(2) square_path square_bfs by metis

end
