(* ===== verification/Net_Forward.thy ===== *)
theory Net_Forward imports Net_Topology Sim_Scheduler begin

text \<open>
  The forwarding of messages: \<open>src/net/network.c\<close> (input, output, local delivery), the send and receive functions of interfaces
  (\<open>src/net/iface.c\<close>, \<open>iface_rtr.c\<close>, \<open>iface_ptp.c\<close>, \<open>iface_ptmp.c\<close>), protocols (\<open>src/net/protocol.c\<close>), messages (\<open>src/net/message.c\<close>), ICMP with
  ping and traceroute (\<open>src/net/icmp.c\<close>) and tunnels (\<open>src/net/ipip.c\<close>).

  Messages carry no IP options here; the hooks of \<open>src/net/icmp_options.c\<close> then do nothing.  Putting a message on a link posts an event of the
  simulator; the events are handled by the static scheduler of \<open>Sim_Scheduler\<close>.  Sending and receiving call each other, through
  local delivery, ICMP errors and tunnels: each C function is a definition over the two functions it calls back, and \<open>ip_send\<close> and \<open>ip_recv\<close> close
  the recursion with the depth of the stack as a bound.

  The specification of forwarding is the path of a message through the routing tables and links (\<open>walk\<close>, \<open>journey\<close>) and, for ICMP, the message that
  is received last (\<open>icmp_outcome\<close>).  The lemmas reduce sending, receiving and whole runs of the simulator to it; without tunnels a depth
  of three and 1024 events are enough for a ping.
\<close>

unbundle bit_operations_syntax

section \<open>Messages\<close>

definition ENET_PROTO_UNKNOWN :: int where "ENET_PROTO_UNKNOWN = -202"
definition ENET_PROTO_DUPLICATE :: int where "ENET_PROTO_DUPLICATE = -203"
definition ENET_ICMP_NET_UNREACH :: int where "ENET_ICMP_NET_UNREACH = -601"
definition ENET_ICMP_HOST_UNREACH :: int where "ENET_ICMP_HOST_UNREACH = -602"
definition ENET_ICMP_PROTO_UNREACH :: int where "ENET_ICMP_PROTO_UNREACH = -603"
definition ENET_ICMP_TIME_EXCEEDED :: int where "ENET_ICMP_TIME_EXCEEDED = -604"
definition ENET_NO_REPLY :: int where "ENET_NO_REPLY = -606"

lemmas icmp_error_codes = ENET_ICMP_NET_UNREACH_def ENET_ICMP_HOST_UNREACH_def ENET_ICMP_PROTO_UNREACH_def
  ENET_ICMP_TIME_EXCEEDED_def ENET_NO_REPLY_def

datatype net_protocol_id = NET_PROTOCOL_RAW | NET_PROTOCOL_DEBUG | NET_PROTOCOL_ICMP | NET_PROTOCOL_BGP | NET_PROTOCOL_IPIP

datatype icmp_error_type = ICMP_ERROR_NET_UNREACH | ICMP_ERROR_HOST_UNREACH | ICMP_ERROR_PROTO_UNREACH | ICMP_ERROR_TIME_EXCEEDED

text \<open>The subtype of a message is meaningful for errors only.\<close>

datatype icmp_msg_type = ICMP_ECHO_REQUEST | ICMP_ECHO_REPLY | ICMP_ERROR icmp_error_type | ICMP_TRACE

record icmp_msg =
  icmp_type :: icmp_msg_type
  icmp_node :: net_addr

text \<open>A message without IP options.  The protocol of a message determines what its payload points to; \<open>'p\<close> is the payload of the
  protocols other than ICMP and IPIP.\<close>

datatype 'p net_msg =
  NetMsg (src_addr: net_addr) (dst_addr: net_addr) (ttl: "8 word") (payload: "'p net_payload")
and 'p net_payload = IcmpMsg icmp_msg | IpipMsg "'p net_msg" | BgpMsg 'p | DebugMsg 'p | RawMsg 'p

fun protocol :: "'p net_msg \<Rightarrow> net_protocol_id" where
  "protocol (NetMsg s d t (IcmpMsg m)) = NET_PROTOCOL_ICMP"
| "protocol (NetMsg s d t (IpipMsg m)) = NET_PROTOCOL_IPIP"
| "protocol (NetMsg s d t (BgpMsg p)) = NET_PROTOCOL_BGP"
| "protocol (NetMsg s d t (DebugMsg p)) = NET_PROTOCOL_DEBUG"
| "protocol (NetMsg s d t (RawMsg p)) = NET_PROTOCOL_RAW"

definition message_create :: "net_addr \<Rightarrow> net_addr \<Rightarrow> 8 word \<Rightarrow> 'p net_payload \<Rightarrow> 'p net_msg" where
  "message_create src dst t p = NetMsg src dst t p"

definition is_icmp_error :: "'p net_msg \<Rightarrow> bool" where
  "is_icmp_error msg = (case payload msg of IcmpMsg m \<Rightarrow> (case icmp_type m of ICMP_ERROR _ \<Rightarrow> True | _ \<Rightarrow> False) | _ \<Rightarrow> False)"

definition icmp_msg_create :: "icmp_msg_type \<Rightarrow> net_addr \<Rightarrow> 'p net_payload" where
  "icmp_msg_create type r = IcmpMsg \<lparr>icmp_type = type, icmp_node = r\<rparr>"

section \<open>Protocols of a node\<close>

definition protocols_add :: "net_protocol_id list \<Rightarrow> net_protocol_id \<Rightarrow> int \<times> net_protocol_id list" where
  "protocols_add ps p = (if p \<in> set ps then (ENET_PROTO_DUPLICATE, ps) else (ESUCCESS, p # ps))"

definition protocols_get :: "net_protocol_id list \<Rightarrow> net_protocol_id \<Rightarrow> net_protocol_id option" where
  "protocols_get ps p = (if p \<in> set ps then Some p else None)"

definition PROTOCOL_DEFS :: "(net_protocol_id \<times> string) list" where
  "PROTOCOL_DEFS = [(NET_PROTOCOL_RAW, ''raw''), (NET_PROTOCOL_DEBUG, ''debug''), (NET_PROTOCOL_ICMP, ''icmp''),
     (NET_PROTOCOL_BGP, ''bgp''), (NET_PROTOCOL_IPIP, ''ipip'')]"

definition net_protocol2str :: "net_protocol_id \<Rightarrow> string option" where
  "net_protocol2str p = map_of PROTOCOL_DEFS p"

definition net_str2protocol :: "string \<Rightarrow> int + net_protocol_id" where
  "net_str2protocol str =
     (case find (\<lambda>(p, name). name = str) PROTOCOL_DEFS of None \<Rightarrow> Inl ENET_PROTO_UNKNOWN | Some (p, name) \<Rightarrow> Inr p)"

section \<open>The state\<close>

record ipip_data =
  ipip_oif :: "iface_ptr option"
  ipip_src_addr :: net_addr

text \<open>What forwarding reads: the topology with the routing tables, the protocols registered on the nodes, the tunnels, and the handlers of
  the protocols other than ICMP and IPIP, which act on a state of their own and name the messages they send.\<close>

record ('t, 'p, 'u) ip_env =
  ip_rt :: "'t rt_env"
  ip_network :: "'t network_t"
  ip_protocols :: "net_addr \<Rightarrow> net_protocol_id list"
  ip_tunnels :: "iface_ptr \<Rightarrow> ipip_data option"
  ip_upper :: "net_addr \<Rightarrow> 'p net_msg \<Rightarrow> 'u \<Rightarrow> (int \<times> 'u \<times> (net_addr \<times> net_addr \<times> 8 word \<times> 'p net_payload) list) option"

text \<open>The last ICMP message received (\<open>_rcvd_ctx\<close>); \<^term>\<open>None\<close> when its flag \<open>received\<close> is off.\<close>

record rcvd_ctx =
  rc_node :: net_addr
  rc_src :: net_addr
  rc_dst :: net_addr
  rc_msg :: icmp_msg

text \<open>What forwarding changes: the events posted, in order, the last ICMP message and the state of the other protocols.\<close>

record ('p, 'u) ip_world =
  posted :: "(iface_ptr \<times> 'p net_msg) list"
  rcvd :: "rcvd_ctx option"
  upper :: 'u

type_synonym ('p, 'u) ip_result = "(int \<times> ('p, 'u) ip_world) option"
type_synonym ('p, 'u) ip_sender = "net_addr \<Rightarrow> 'p net_msg \<Rightarrow> ('p, 'u) ip_world \<Rightarrow> ('p, 'u) ip_result"
type_synonym ('p, 'u) ip_receiver = "iface_ptr \<Rightarrow> 'p net_msg \<Rightarrow> ('p, 'u) ip_world \<Rightarrow> ('p, 'u) ip_result"

section \<open>Sending messages of a protocol\<close>

text \<open>The functions below call each other.  Each has the function \<open>node_send\<close>, and where needed \<open>net_iface_recv\<close>, as a parameter; the
  recursion is closed at the end of the section.\<close>

definition node_send_msg ::
    "('p, 'u) ip_sender \<Rightarrow> net_addr \<Rightarrow> net_addr \<Rightarrow> net_addr \<Rightarrow> 8 word \<Rightarrow> 'p net_payload \<Rightarrow> ('p, 'u) ip_world \<Rightarrow> ('p, 'u) ip_result" where
  "node_send_msg send r src dst t p w = send r (message_create src dst (if t = 0 then 255 else t) p) w"

definition icmp_send_error ::
    "('p, 'u) ip_sender \<Rightarrow> net_addr \<Rightarrow> net_addr \<Rightarrow> net_addr \<Rightarrow> icmp_error_type \<Rightarrow> ('p, 'u) ip_world \<Rightarrow> ('p, 'u) ip_result" where
  "icmp_send_error send r src dst error w = node_send_msg send r src dst 255 (icmp_msg_create (ICMP_ERROR error) r) w"

definition icmp_send_echo_request ::
    "('p, 'u) ip_sender \<Rightarrow> net_addr \<Rightarrow> net_addr \<Rightarrow> net_addr \<Rightarrow> 8 word \<Rightarrow> ('p, 'u) ip_world \<Rightarrow> ('p, 'u) ip_result" where
  "icmp_send_echo_request send r src dst t w = node_send_msg send r src dst t (icmp_msg_create ICMP_ECHO_REQUEST r) w"

definition icmp_send_echo_reply ::
    "('p, 'u) ip_sender \<Rightarrow> net_addr \<Rightarrow> net_addr \<Rightarrow> net_addr \<Rightarrow> 8 word \<Rightarrow> ('p, 'u) ip_world \<Rightarrow> ('p, 'u) ip_result" where
  "icmp_send_echo_reply send r src dst t w = node_send_msg send r src dst t (icmp_msg_create ICMP_ECHO_REPLY r) w"

definition icmp_proto_handle ::
    "('p, 'u) ip_sender \<Rightarrow> net_addr \<Rightarrow> 'p net_msg \<Rightarrow> icmp_msg \<Rightarrow> ('p, 'u) ip_world \<Rightarrow> ('p, 'u) ip_result" where
  "icmp_proto_handle send r msg m w =
     (let w = w\<lparr>rcvd := Some \<lparr>rc_node = r, rc_src = src_addr msg, rc_dst = dst_addr msg, rc_msg = m\<rparr>\<rparr> in
      case icmp_type m of
        ICMP_ECHO_REQUEST \<Rightarrow> do {
          (error, w) \<leftarrow> icmp_send_echo_reply send r (dst_addr msg) (src_addr msg) 255 w;
          Some (0, w)
        }
      | _ \<Rightarrow> Some (0, w))"

fun send_all ::
    "('p, 'u) ip_sender \<Rightarrow> net_addr \<Rightarrow> (net_addr \<times> net_addr \<times> 8 word \<times> 'p net_payload) list \<Rightarrow> ('p, 'u) ip_world \<Rightarrow> ('p, 'u) ip_world option" where
  "send_all send r [] w = Some w"
| "send_all send r ((src, dst, t, p) # sends) w = do {
     (error, w) \<leftarrow> node_send_msg send r src dst t p w;
     send_all send r sends w
   }"

definition protocol_recv ::
    "('t, 'p, 'u) ip_env \<Rightarrow> ('p, 'u) ip_sender \<Rightarrow> net_addr \<Rightarrow> 'p net_msg \<Rightarrow> ('p, 'u) ip_world \<Rightarrow> ('p, 'u) ip_result" where
  "protocol_recv env send r msg w =
     (case payload msg of
        IcmpMsg m \<Rightarrow> icmp_proto_handle send r msg m w
      | IpipMsg m \<Rightarrow> Some (ESUCCESS, w)
      | RawMsg p \<Rightarrow> Some (ESUCCESS, w)
      | _ \<Rightarrow> do {
          (error, u, sends) \<leftarrow> ip_upper env r msg (upper w);
          w \<leftarrow> send_all send r sends (w\<lparr>upper := u\<rparr>);
          Some (error, w)
        })"

section \<open>Forwarding\<close>

definition node_ip_fwd_error ::
    "('p, 'u) ip_sender \<Rightarrow> net_addr \<Rightarrow> 'p net_msg \<Rightarrow> int \<Rightarrow> icmp_error_type option \<Rightarrow> ('p, 'u) ip_world \<Rightarrow> ('p, 'u) ip_result" where
  "node_ip_fwd_error send r msg error icmp_error w =
     (case icmp_error of
        Some e \<Rightarrow>
          if is_icmp_error msg then Some (error, w)
          else do {
            (ignored, w) \<leftarrow> icmp_send_error send r IP_ADDR_ANY (src_addr msg) e w;
            Some (error, w)
          }
      | None \<Rightarrow> Some (error, w))"

definition node_ip_process_msg ::
    "('t, 'p, 'u) ip_env \<Rightarrow> ('p, 'u) ip_sender \<Rightarrow> net_addr \<Rightarrow> 'p net_msg \<Rightarrow> ('p, 'u) ip_world \<Rightarrow> ('p, 'u) ip_result" where
  "node_ip_process_msg env send r msg w =
     (case protocols_get (ip_protocols env r) (protocol msg) of
        None \<Rightarrow> node_ip_fwd_error send r msg ENET_PROTO_UNREACH (Some ICMP_ERROR_PROTO_UNREACH) w
      | Some proto \<Rightarrow> protocol_recv env send r msg w)"

definition node_ip_input ::
    "('t, 'p, 'u) ip_env \<Rightarrow> ('p, 'u) ip_sender \<Rightarrow> ('p, 'u) ip_receiver \<Rightarrow> net_addr \<Rightarrow> iface_ptr \<Rightarrow> iface_ptr \<Rightarrow> 'p net_msg \<Rightarrow>
       ('p, 'u) ip_world \<Rightarrow> ('p, 'u) ip_result" where
  "node_ip_input env send recv r iif lif msg w =
     (if iif = lif then node_ip_process_msg env send r msg w else recv lif msg w)"

text \<open>The event is delivered to the interface; its delay is read, so the interface must exist.\<close>

definition network_send :: "('t, 'p, 'u) ip_env \<Rightarrow> iface_ptr \<Rightarrow> 'p net_msg \<Rightarrow> ('p, 'u) ip_world \<Rightarrow> ('p, 'u) ip_world option" where
  "network_send env dst_iface msg w = do {
     i \<leftarrow> iface_at (ip_network env) dst_iface;
     Some (w\<lparr>posted := posted w @ [(dst_iface, msg)]\<rparr>)
   }"

definition net_iface_rtr_send ::
    "('t, 'p, 'u) ip_env \<Rightarrow> net_iface \<Rightarrow> 'p net_msg \<Rightarrow> ('p, 'u) ip_world \<Rightarrow> ('p, 'u) ip_result" where
  "net_iface_rtr_send env self msg w =
     (case iface_dest self of
        Some (DstIface d) \<Rightarrow> map_option (\<lambda>w. (ESUCCESS, w)) (network_send env d msg w)
      | _ \<Rightarrow> None)"

definition net_iface_ptp_send ::
    "('t, 'p, 'u) ip_env \<Rightarrow> net_iface \<Rightarrow> 'p net_msg \<Rightarrow> ('p, 'u) ip_world \<Rightarrow> ('p, 'u) ip_result" where
  "net_iface_ptp_send env self msg w =
     (case iface_dest self of
        Some (DstIface d) \<Rightarrow> map_option (\<lambda>w. (ESUCCESS, w)) (network_send env d msg w)
      | _ \<Rightarrow> None)"

definition net_iface_ptmp_send ::
    "('t, 'p, 'u) ip_env \<Rightarrow> net_iface \<Rightarrow> net_addr \<Rightarrow> 'p net_msg \<Rightarrow> ('p, 'u) ip_world \<Rightarrow> ('p, 'u) ip_result" where
  "net_iface_ptmp_send env self l2_addr msg w =
     (case iface_dest self of
        Some (DstSubnet p) \<Rightarrow> do {
          subnet \<leftarrow> net_subnets (ip_network env) p;
          case net_subnet_find_link subnet l2_addr of
            None \<Rightarrow> Some (ENET_HOST_UNREACH, w)
          | Some dst_iface \<Rightarrow> do {
              d \<leftarrow> iface_at (ip_network env) dst_iface;
              if \<not> net_iface_is_enabled d then Some (ENET_LINK_DOWN, w)
              else map_option (\<lambda>w. (ESUCCESS, w)) (network_send env dst_iface msg w)
            }
        }
      | _ \<Rightarrow> None)"

definition ipip_iface_send ::
    "('p, 'u) ip_sender \<Rightarrow> ipip_data \<Rightarrow> iface_ptr \<Rightarrow> net_iface \<Rightarrow> 'p net_msg \<Rightarrow> ('p, 'u) ip_world \<Rightarrow> ('p, 'u) ip_result" where
  "ipip_iface_send send ctx self i msg w =
     (if ipip_oif ctx \<noteq> None then Some (EUNSUPPORTED, w)
      else case iface_dest i of
        Some (DstEndPoint end_point) \<Rightarrow> do {
          (error, w) \<leftarrow> send (fst self) (message_create (ipip_src_addr ctx) end_point 255 (IpipMsg msg)) w;
          Some (ESUCCESS, w)
        }
      | _ \<Rightarrow> None)"

definition net_iface_send ::
    "('t, 'p, 'u) ip_env \<Rightarrow> ('p, 'u) ip_sender \<Rightarrow> iface_ptr \<Rightarrow> net_addr \<Rightarrow> 'p net_msg \<Rightarrow> ('p, 'u) ip_world \<Rightarrow> ('p, 'u) ip_result" where
  "net_iface_send env send ptr l2_addr msg w = do {
     iface \<leftarrow> iface_at (ip_network env) ptr;
     assert_opt (iface_type iface \<in> {NET_IFACE_RTR, NET_IFACE_PTP, NET_IFACE_PTMP} \<or> ip_tunnels env ptr \<noteq> None);
     if \<not> net_iface_is_connected iface \<or> \<not> net_iface_is_enabled iface then Some (ENET_LINK_DOWN, w)
     else case ip_tunnels env ptr of
       Some ctx \<Rightarrow> ipip_iface_send send ctx ptr iface msg w
     | None \<Rightarrow>
         (case iface_type iface of
            NET_IFACE_RTR \<Rightarrow> net_iface_rtr_send env iface msg w
          | NET_IFACE_PTP \<Rightarrow> net_iface_ptp_send env iface msg w
          | _ \<Rightarrow> net_iface_ptmp_send env iface l2_addr msg w)
   }"

text \<open>The route is passed instead of its entries: two entries without interface are the same object exactly when they are the first
  entry of the same route.\<close>

definition node_ip_output ::
    "('t, 'p, 'u) ip_env \<Rightarrow> ('p, 'u) ip_sender \<Rightarrow> net_addr \<Rightarrow> rt_info \<Rightarrow> 'p net_msg \<Rightarrow> ('p, 'u) ip_world \<Rightarrow> ('p, 'u) ip_result" where
  "node_ip_output env send r rtinfo msg w = do {
     assert_opt (entries rtinfo \<noteq> []);
     let rtentry = entries rtinfo ! 0;
     node \<leftarrow> net_nodes (ip_network env) r;
     found \<leftarrow> (case oif rtentry of
        Some oi \<Rightarrow> Some (Some (oi, gateway rtentry, dst_addr msg))
      | None \<Rightarrow> do {
          next_rtinfo \<leftarrow> node_rt_lookup2 (ip_rt env) (node_rt node) (gateway rtentry);
          case next_rtinfo of
            None \<Rightarrow> Some None
          | Some next_rtinfo \<Rightarrow> do {
              assert_opt (entries next_rtinfo \<noteq> []);
              if next_rtinfo = rtinfo then Some None
              else do {
                oi \<leftarrow> oif (entries next_rtinfo ! 0);
                Some (Some (oi, gateway (entries next_rtinfo ! 0), gateway rtentry))
              }
            }
        });
     case found of
       None \<Rightarrow> node_ip_fwd_error send r msg ENET_HOST_UNREACH None w
     | Some (oi, l2_addr, dst) \<Rightarrow> do {
         iface \<leftarrow> iface_at (ip_network env) (r, if_addr oi);
         let msg = (if src_addr msg = IP_ADDR_ANY
                    then NetMsg (net_iface_src_address (r, if_addr oi) iface) (dst_addr msg) (ttl msg) (payload msg) else msg);
         let l2_addr = (if iface_type iface = NET_IFACE_PTMP \<and> l2_addr = IP_ADDR_ANY then dst else l2_addr);
         (error, w) \<leftarrow> net_iface_send env send (r, if_addr oi) l2_addr msg w;
         Some (if error = ENET_HOST_UNREACH then error else ESUCCESS, w)
       }
   }"

text \<open>The first interface of a node that has an address (\<open>node_has_address\<close>).\<close>

definition node_local_iface :: "'t net_node \<Rightarrow> net_addr \<Rightarrow> net_iface option" where
  "node_local_iface node a = find (\<lambda>iface. net_iface_has_address iface a) (ifaces node)"

definition node_recv_msg ::
    "('t, 'p, 'u) ip_env \<Rightarrow> ('p, 'u) ip_sender \<Rightarrow> ('p, 'u) ip_receiver \<Rightarrow> net_addr \<Rightarrow> iface_ptr \<Rightarrow> 'p net_msg \<Rightarrow>
       ('p, 'u) ip_world \<Rightarrow> ('p, 'u) ip_result" where
  "node_recv_msg env send recv r iif msg w = do {
     assert_opt (ttl msg > 0);
     node \<leftarrow> net_nodes (ip_network env) r;
     case node_local_iface node (dst_addr msg) of
       Some lif \<Rightarrow> node_ip_input env send recv r iif (r, iface_addr lif) msg w
     | None \<Rightarrow>
         if ttl msg \<le> 1 then do {
           (error, w) \<leftarrow> node_ip_fwd_error send r msg ENET_TIME_EXCEEDED (Some ICMP_ERROR_TIME_EXCEEDED) w;
           Some (ESUCCESS, w)
         }
         else let msg = NetMsg (src_addr msg) (dst_addr msg) (ttl msg - 1) (payload msg) in do {
           rtinfo \<leftarrow> node_rt_lookup2 (ip_rt env) (node_rt node) (dst_addr msg);
           case rtinfo of
             None \<Rightarrow> do {
               (error, w) \<leftarrow> node_ip_fwd_error send r msg ENET_HOST_UNREACH (Some ICMP_ERROR_HOST_UNREACH) w;
               Some (ESUCCESS, w)
             }
           | Some rtinfo \<Rightarrow> node_ip_output env send r rtinfo msg w
         }
   }"

definition node_send ::
    "('t, 'p, 'u) ip_env \<Rightarrow> ('p, 'u) ip_sender \<Rightarrow> ('p, 'u) ip_receiver \<Rightarrow> net_addr \<Rightarrow> 'p net_msg \<Rightarrow>
       ('p, 'u) ip_world \<Rightarrow> ('p, 'u) ip_result" where
  "node_send env send recv r msg w = do {
     node \<leftarrow> net_nodes (ip_network env) r;
     case node_local_iface node (dst_addr msg) of
       Some lif \<Rightarrow>
         let msg = (if src_addr msg = IP_ADDR_ANY then NetMsg (iface_addr lif) (dst_addr msg) (ttl msg) (payload msg) else msg)
         in node_ip_input env send recv r (r, iface_addr lif) (r, iface_addr lif) msg w
     | None \<Rightarrow> do {
         rtinfo \<leftarrow> node_rt_lookup2 (ip_rt env) (node_rt node) (dst_addr msg);
         case rtinfo of
           None \<Rightarrow> node_ip_fwd_error send r msg ENET_HOST_UNREACH None w
         | Some rtinfo \<Rightarrow> node_ip_output env send r rtinfo msg w
       }
   }"

definition ipip_iface_recv ::
    "('t, 'p, 'u) ip_env \<Rightarrow> ('p, 'u) ip_sender \<Rightarrow> ('p, 'u) ip_receiver \<Rightarrow> iface_ptr \<Rightarrow> 'p net_msg \<Rightarrow>
       ('p, 'u) ip_world \<Rightarrow> ('p, 'u) ip_result" where
  "ipip_iface_recv env send recv self msg w =
     (case payload msg of
        IpipMsg inner_msg \<Rightarrow> node_recv_msg env send recv (fst self) self inner_msg w
      | _ \<Rightarrow> Some (-1, w))"

definition net_iface_recv ::
    "('t, 'p, 'u) ip_env \<Rightarrow> ('p, 'u) ip_sender \<Rightarrow> ('p, 'u) ip_receiver \<Rightarrow> iface_ptr \<Rightarrow> 'p net_msg \<Rightarrow>
       ('p, 'u) ip_world \<Rightarrow> ('p, 'u) ip_result" where
  "net_iface_recv env send recv iface msg w =
     (case ip_tunnels env iface of
        Some ctx \<Rightarrow> ipip_iface_recv env send recv iface msg w
      | None \<Rightarrow> node_recv_msg env send recv (fst iface) iface msg w)"

text \<open>The recursion, with the depth of the C stack as its bound.\<close>

fun ip_send :: "nat \<Rightarrow> ('t, 'p, 'u) ip_env \<Rightarrow> ('p, 'u) ip_sender"
  and ip_recv :: "nat \<Rightarrow> ('t, 'p, 'u) ip_env \<Rightarrow> ('p, 'u) ip_receiver" where
  "ip_send 0 env r msg w = None"
| "ip_send (Suc n) env r msg w = node_send env (ip_send n env) (ip_recv n env) r msg w"
| "ip_recv 0 env iface msg w = None"
| "ip_recv (Suc n) env iface msg w = net_iface_recv env (ip_send n env) (ip_recv n env) iface msg w"

section \<open>The simulator over the network\<close>

text \<open>The callback of a message event.\<close>

definition network_send_callback :: "nat \<Rightarrow> ('t, 'p, 'u) ip_env \<Rightarrow> (iface_ptr \<times> 'p net_msg, ('p, 'u) ip_world) handler" where
  "network_send_callback depth env ev w = do {
     (error, w) \<leftarrow> ip_recv depth env (fst ev) (snd ev) (w\<lparr>posted := []\<rparr>);
     Some (error, w\<lparr>posted := []\<rparr>, posted w, False)
   }"

section \<open>Ping and traceroute\<close>

text \<open>The result for the last ICMP message received.\<close>

definition ping_reply :: "net_addr \<Rightarrow> rcvd_ctx option \<Rightarrow> int" where
  "ping_reply r received =
     (case received of
        None \<Rightarrow> ENET_NO_REPLY
      | Some ctx \<Rightarrow>
          if rc_node ctx \<noteq> r then ENET_NO_REPLY
          else case icmp_type (rc_msg ctx) of
            ICMP_ECHO_REPLY \<Rightarrow> ESUCCESS
          | ICMP_ERROR ICMP_ERROR_NET_UNREACH \<Rightarrow> ENET_ICMP_NET_UNREACH
          | ICMP_ERROR ICMP_ERROR_HOST_UNREACH \<Rightarrow> ENET_ICMP_HOST_UNREACH
          | ICMP_ERROR ICMP_ERROR_PROTO_UNREACH \<Rightarrow> ENET_ICMP_PROTO_UNREACH
          | ICMP_ERROR ICMP_ERROR_TIME_EXCEEDED \<Rightarrow> ENET_ICMP_TIME_EXCEEDED
          | _ \<Rightarrow> ENET_NO_REPLY)"

definition icmp_ping_send_recv ::
    "(iface_ptr \<times> 'p net_msg) fifo_ops \<Rightarrow> nat \<Rightarrow> ('t, 'p, 'u) ip_env \<Rightarrow> net_addr \<Rightarrow> net_addr \<Rightarrow> net_addr \<Rightarrow> 8 word \<Rightarrow>
       ('p, 'u) ip_world \<Rightarrow> ('p, 'u) ip_result" where
  "icmp_ping_send_recv ops depth env r src dst t w = do {
     let sim = sim_create ops;
     (error, w) \<leftarrow> icmp_send_echo_request (ip_send depth env) r src dst t (w\<lparr>rcvd := None, posted := []\<rparr>);
     if error = ESUCCESS then do {
       s \<leftarrow> post_all ops (posted w) (sched sim);
       (result, w, sim) \<leftarrow> sim_run ops (network_send_callback depth env) (w\<lparr>posted := []\<rparr>) (sim\<lparr>sched := s\<rparr>);
       Some (ping_reply r (rcvd w), w)
     }
     else Some (error, w)
   }"

definition icmp_ping ::
    "(iface_ptr \<times> 'p net_msg) fifo_ops \<Rightarrow> nat \<Rightarrow> ('t, 'p, 'u) ip_env \<Rightarrow> net_addr \<Rightarrow> net_addr \<Rightarrow> net_addr \<Rightarrow> 8 word \<Rightarrow>
       ('p, 'u) ip_world \<Rightarrow> ('p, 'u) ip_result" where
  "icmp_ping ops depth env r src dst t w = icmp_ping_send_recv ops depth env r src dst (if t = 0 then 255 else t) w"

text \<open>A hop of the trace: the node that answered and its interface with the source address of the answer.\<close>

type_synonym trace_hop = "(net_addr \<times> net_iface option) option"

definition trace_route_hop :: "('t, 'p, 'u) ip_env \<Rightarrow> int \<Rightarrow> ('p, 'u) ip_world \<Rightarrow> trace_hop option" where
  "trace_route_hop env error w =
     (if error \<in> {ESUCCESS, ENET_ICMP_NET_UNREACH, ENET_ICMP_HOST_UNREACH, ENET_ICMP_PROTO_UNREACH, ENET_ICMP_TIME_EXCEEDED} then do {
        ctx \<leftarrow> rcvd w;
        node \<leftarrow> net_nodes (ip_network env) (icmp_node (rc_msg ctx));
        Some (Some (icmp_node (rc_msg ctx), net_links_find (ifaces node) (net_iface_id_addr (rc_src ctx))))
      }
      else Some None)"

partial_function (option) trace_route_loop ::
    "(iface_ptr \<times> 'p net_msg) fifo_ops \<Rightarrow> nat \<Rightarrow> ('t, 'p, 'u) ip_env \<Rightarrow> net_addr \<Rightarrow> net_addr \<Rightarrow> net_addr \<Rightarrow> 8 word \<Rightarrow> 8 word \<Rightarrow>
       int \<Rightarrow> trace_hop list \<Rightarrow> ('p, 'u) ip_world \<Rightarrow> (int \<times> trace_hop list \<times> ('p, 'u) ip_world) option" where
  "trace_route_loop ops depth env r src dst max_ttl t error trace w =
     (if t \<le> max_ttl then do {
        (error, w) \<leftarrow> icmp_ping_send_recv ops depth env r src dst t w;
        hop \<leftarrow> trace_route_hop env error w;
        if error \<noteq> ENET_ICMP_TIME_EXCEEDED then Some (error, trace @ [hop], w)
        else trace_route_loop ops depth env r src dst max_ttl (t + 1) error (trace @ [hop]) w
      }
      else Some (error, trace, w))"

definition icmp_trace_route ::
    "(iface_ptr \<times> 'p net_msg) fifo_ops \<Rightarrow> nat \<Rightarrow> ('t, 'p, 'u) ip_env \<Rightarrow> net_addr \<Rightarrow> net_addr \<Rightarrow> net_addr \<Rightarrow> 8 word \<Rightarrow>
       ('p, 'u) ip_world \<Rightarrow> (int \<times> trace_hop list \<times> ('p, 'u) ip_world) option" where
  "icmp_trace_route ops depth env r src dst max_ttl w =
     trace_route_loop ops depth env r src dst (if max_ttl = 0 then 255 else max_ttl) 1 EUNEXPECTED [Some (r, None)] w"

section \<open>Tunnels\<close>

definition ipip_link_create ::
    "('t, 'p, 'u) ip_env \<Rightarrow> net_addr \<Rightarrow> net_addr \<Rightarrow> net_addr \<Rightarrow> iface_ptr option \<Rightarrow> net_addr \<Rightarrow> (int + net_iface \<times> ipip_data) option" where
  "ipip_link_create env r end_point addr oi src = do {
     found \<leftarrow> (if src = IP_ADDR_ANY then Some (Some src)
               else map_option (map_option iface_addr) (node_find_iface (ip_network env) r (net_iface_id_addr src)));
     assert_opt (found \<noteq> None);
     result \<leftarrow> net_iface_factory (net_iface_id_addr addr) NET_IFACE_VIRTUAL;
     case result of
       Inl error \<Rightarrow> Some (Inl error)
     | Inr tunnel \<Rightarrow>
         Some (Inr (tunnel\<lparr>iface_dest := Some (DstEndPoint end_point), iface_connected := True\<rparr>, \<lparr>ipip_oif = oi, ipip_src_addr = src\<rparr>))
   }"

definition node_add_tunnel ::
    "net_env \<Rightarrow> net_addr \<Rightarrow> net_addr \<Rightarrow> net_addr \<Rightarrow> ip_pfx option \<Rightarrow> net_addr \<Rightarrow> ('t, 'p, 'u) ip_env \<Rightarrow> (int \<times> ('t, 'p, 'u) ip_env) option" where
  "node_add_tunnel nenv r dst_point addr oif_id src env = do {
     oi \<leftarrow> (case oif_id of
        None \<Rightarrow> Some (Some None)
      | Some ifid \<Rightarrow> map_option (map_option (\<lambda>i. Some (r, iface_addr i))) (node_find_iface (ip_network env) r ifid));
     case oi of
       None \<Rightarrow> Some (ENET_IFACE_UNKNOWN, env)
     | Some oi \<Rightarrow> do {
         result \<leftarrow> ipip_link_create env r dst_point addr oi src;
         case result of
           Inl error \<Rightarrow> Some (error, env)
         | Inr (tunnel, ctx) \<Rightarrow> do {
             (error, net) \<leftarrow> node_add_iface2 nenv r tunnel (ip_network env);
             Some (error, if error = ESUCCESS
               then env\<lparr>ip_network := net, ip_tunnels := (ip_tunnels env)((r, addr) \<mapsto> ctx)\<rparr> else env)
           }
       }
   }"

definition node_register_protocol :: "net_addr \<Rightarrow> net_protocol_id \<Rightarrow> ('t, 'p, 'u) ip_env \<Rightarrow> int \<times> ('t, 'p, 'u) ip_env" where
  "node_register_protocol r p env =
     (let (error, ps) = protocols_add (ip_protocols env r) p in (error, env\<lparr>ip_protocols := (ip_protocols env)(r := ps)\<rparr>))"

definition node_ipip_enable :: "net_addr \<Rightarrow> ('t, 'p, 'u) ip_env \<Rightarrow> int \<times> ('t, 'p, 'u) ip_env" where
  "node_ipip_enable r env = node_register_protocol r NET_PROTOCOL_IPIP env"

section \<open>The path of a message\<close>

text \<open>The specification: what becomes of a message that leaves a node, in terms of the routing tables and the links only.\<close>

definition rt_lookup :: "('t, 'p, 'u) ip_env \<Rightarrow> net_addr \<Rightarrow> net_addr \<Rightarrow> rt_info option" where
  "rt_lookup env r a = the (node_rt_lookup2 (ip_rt env) (node_rt (the (net_nodes (ip_network env) r))) a)"

definition is_local :: "('t, 'p, 'u) ip_env \<Rightarrow> net_addr \<Rightarrow> net_addr \<Rightarrow> bool" where
  "is_local env r a = node_has_address (the (net_nodes (ip_network env) r)) a"

text \<open>The outgoing interface and the address of the next hop on it, after at most one recursive lookup.\<close>

definition egress :: "('t, 'p, 'u) ip_env \<Rightarrow> net_addr \<Rightarrow> net_addr \<Rightarrow> rt_info \<Rightarrow> (net_addr \<times> net_addr) option" where
  "egress env r dst info =
     (let entry = entries info ! 0; toward = (\<lambda>e a. (if_addr (the (oif e)), if gateway e = IP_ADDR_ANY then a else gateway e)) in
      if oif entry \<noteq> None then Some (toward entry dst)
      else case rt_lookup env r (gateway entry) of
        None \<Rightarrow> None
      | Some info' \<Rightarrow> if info' = info then None else Some (toward (entries info' ! 0) (gateway entry)))"

datatype departure = To iface_ptr | LinkDown | NoHost | NoRoute

text \<open>The other end of an interface.\<close>

definition link_end :: "('t, 'p, 'u) ip_env \<Rightarrow> iface_ptr \<Rightarrow> net_addr \<Rightarrow> departure" where
  "link_end env ptr l2 =
     (case iface_at (ip_network env) ptr of
        None \<Rightarrow> LinkDown
      | Some i \<Rightarrow>
          if \<not> net_iface_is_connected i \<or> \<not> net_iface_is_enabled i then LinkDown
          else case iface_dest i of
            Some (DstIface d) \<Rightarrow> To d
          | Some (DstSubnet p) \<Rightarrow>
              (case net_subnet_find_link (the (net_subnets (ip_network env) p)) l2 of
                 None \<Rightarrow> NoHost
               | Some d \<Rightarrow> if net_iface_is_enabled (the (iface_at (ip_network env) d)) then To d else LinkDown)
          | _ \<Rightarrow> LinkDown)"

definition depart :: "('t, 'p, 'u) ip_env \<Rightarrow> net_addr \<Rightarrow> net_addr \<Rightarrow> departure" where
  "depart env r dst =
     (case rt_lookup env r dst of
        None \<Rightarrow> NoRoute
      | Some info \<Rightarrow> (case egress env r dst info of None \<Rightarrow> NoHost | Some (a, l2) \<Rightarrow> link_end env (r, a) l2))"

datatype fate = Arrived net_addr | Expired net_addr | Unreachable net_addr | Vanished

text \<open>The fate of a message that reaches a node with a time-to-live.\<close>

fun walk :: "('t, 'p, 'u) ip_env \<Rightarrow> nat \<Rightarrow> net_addr \<Rightarrow> net_addr \<Rightarrow> fate" where
  "walk env 0 r dst = Expired r"
| "walk env (Suc t) r dst =
     (if is_local env r dst then Arrived r
      else if t = 0 then Expired r
      else case depart env r dst of
        To q \<Rightarrow> walk env t (fst q) dst
      | NoRoute \<Rightarrow> Unreachable r
      | _ \<Rightarrow> Vanished)"

text \<open>The fate of a message sent by a node.\<close>

definition journey :: "('t, 'p, 'u) ip_env \<Rightarrow> nat \<Rightarrow> net_addr \<Rightarrow> net_addr \<Rightarrow> fate" where
  "journey env t r dst =
     (if is_local env r dst then Arrived r
      else case depart env r dst of To q \<Rightarrow> walk env t (fst q) dst | _ \<Rightarrow> Vanished)"

text \<open>The source address of a message that names none: the destination itself when it is local, else an address of the outgoing
  interface.\<close>

definition source_addr :: "('t, 'p, 'u) ip_env \<Rightarrow> net_addr \<Rightarrow> net_addr \<Rightarrow> net_addr \<Rightarrow> net_addr" where
  "source_addr env r src dst =
     (if src \<noteq> IP_ADDR_ANY then src
      else if is_local env r dst then dst
      else let a = fst (the (egress env r dst (the (rt_lookup env r dst)))) in
        net_iface_src_address (r, a) (the (iface_at (ip_network env) (r, a))))"

definition icmp_failure :: "icmp_msg \<Rightarrow> bool" where
  "icmp_failure m = (case icmp_type m of ICMP_ERROR _ \<Rightarrow> True | _ \<Rightarrow> False)"

text \<open>The last ICMP message received when an ICMP message has met its fate and what it causes has happened: a request causes a reply, a
  failure an error except for errors themselves, so that three levels are enough.\<close>

fun icmp_outcome :: "nat \<Rightarrow> ('t, 'p, 'u) ip_env \<Rightarrow> icmp_msg \<Rightarrow> net_addr \<Rightarrow> net_addr \<Rightarrow> fate \<Rightarrow> rcvd_ctx option \<Rightarrow> rcvd_ctx option"
  and icmp_sent :: "nat \<Rightarrow> ('t, 'p, 'u) ip_env \<Rightarrow> icmp_msg \<Rightarrow> net_addr \<Rightarrow> net_addr \<Rightarrow> net_addr \<Rightarrow> nat \<Rightarrow> rcvd_ctx option \<Rightarrow> rcvd_ctx option" where
  "icmp_outcome 0 env m s d fate rc = rc"
| "icmp_outcome (Suc n) env m s d fate rc =
     (let failed = (\<lambda>x e. if icmp_failure m then rc
                          else icmp_sent n env \<lparr>icmp_type = ICMP_ERROR e, icmp_node = x\<rparr> x IP_ADDR_ANY s 255 rc) in
      case fate of
        Arrived x \<Rightarrow>
          (let rc = Some \<lparr>rc_node = x, rc_src = s, rc_dst = d, rc_msg = m\<rparr> in
           if icmp_type m = ICMP_ECHO_REQUEST then icmp_sent n env \<lparr>icmp_type = ICMP_ECHO_REPLY, icmp_node = x\<rparr> x d s 255 rc else rc)
      | Expired x \<Rightarrow> failed x ICMP_ERROR_TIME_EXCEEDED
      | Unreachable x \<Rightarrow> failed x ICMP_ERROR_HOST_UNREACH
      | Vanished \<Rightarrow> rc)"
| "icmp_sent 0 env m r src dst t rc = rc"
| "icmp_sent (Suc n) env m r src dst t rc = icmp_outcome (Suc n) env m (source_addr env r src dst) dst (journey env t r dst) rc"

section \<open>Networks that forward\<close>

text \<open>An interface a route can use: it has a send function and an address.\<close>

definition sends_on :: "('t, 'p, 'u) ip_env \<Rightarrow> net_addr \<Rightarrow> iface_ref option \<Rightarrow> bool" where
  "sends_on env r oi \<longleftrightarrow>
     (\<exists>o' i. oi = Some o' \<and> iface_at (ip_network env) (r, if_addr o') = Some i
        \<and> iface_type i \<in> {NET_IFACE_RTR, NET_IFACE_PTP, NET_IFACE_PTMP} \<and> net_iface_src_address (r, if_addr o') i \<noteq> IP_ADDR_ANY)"

definition route_ok :: "('t, 'p, 'u) ip_env \<Rightarrow> net_addr \<Rightarrow> rt_info \<Rightarrow> bool" where
  "route_ok env r info \<longleftrightarrow> entries info \<noteq> []
     \<and> (if oif (entries info ! 0) \<noteq> None then sends_on env r (oif (entries info ! 0))
        else case rt_lookup env r (gateway (entries info ! 0)) of
          None \<Rightarrow> True
        | Some info' \<Rightarrow> entries info' \<noteq> [] \<and> (info' = info \<or> sends_on env r (oif (entries info' ! 0))))"

text \<open>Networks without tunnels whose nodes understand ICMP and whose routes can be used.\<close>

definition fwd_ok :: "('t, 'p, 'u) ip_env \<Rightarrow> bool" where
  "fwd_ok env \<longleftrightarrow> topo_ok (ip_network env) \<and> (\<forall>q. ip_tunnels env q = None)
     \<and> (\<forall>r. NET_PROTOCOL_ICMP \<in> set (ip_protocols env r))
     \<and> (\<forall>r node a. net_nodes (ip_network env) r = Some node \<longrightarrow>
          node_rt_lookup2 (ip_rt env) (node_rt node) a \<noteq> None
          \<and> (\<forall>info. rt_lookup env r a = Some info \<longrightarrow> route_ok env r info))"

lemma fwd_okD:
  assumes "fwd_ok env"
  shows "topo_ok (ip_network env)" "ip_tunnels env q = None" "NET_PROTOCOL_ICMP \<in> set (ip_protocols env r)"
    "net_nodes (ip_network env) r = Some node \<Longrightarrow> node_rt_lookup2 (ip_rt env) (node_rt node) a = Some (rt_lookup env r a)"
    "net_nodes (ip_network env) r = Some node \<Longrightarrow> rt_lookup env r a = Some info \<Longrightarrow> route_ok env r info"
  using assms by (auto simp: fwd_ok_def rt_lookup_def simp del: split_paired_All)

lemma local_iface:
  assumes "net_nodes (ip_network env) r = Some node"
  shows "is_local env r a \<longleftrightarrow> (\<exists>lif. node_local_iface node a = Some lif)"
    "node_local_iface node a = Some lif \<Longrightarrow> iface_addr lif = a"
proof -
  have "is_local env r a \<longleftrightarrow> node_local_iface node a \<noteq> None"
    using assms by (simp add: is_local_def node_has_address_def node_local_iface_def list_ex_iff find_None_iff Bex_def del: not_None_eq)
  then show "is_local env r a \<longleftrightarrow> (\<exists>lif. node_local_iface node a = Some lif)" by simp
  show "node_local_iface node a = Some lif \<Longrightarrow> iface_addr lif = a"
    by (auto simp: node_local_iface_def find_Some_iff net_iface_has_address_def split: if_splits)
qed

text \<open>Putting a message on an interface.\<close>

lemma send_eq:
  assumes ok: "fwd_ok env" and oi: "sends_on env r (Some oi)"
  shows "net_iface_send env send (r, if_addr oi) l2 msg w =
      (case link_end env (r, if_addr oi) l2 of
         To q \<Rightarrow> Some (ESUCCESS, w\<lparr>posted := posted w @ [(q, msg)]\<rparr>)
       | LinkDown \<Rightarrow> Some (ENET_LINK_DOWN, w)
       | _ \<Rightarrow> Some (ENET_HOST_UNREACH, w))
    \<and> link_end env (r, if_addr oi) l2 \<noteq> NoRoute
    \<and> (\<forall>q. link_end env (r, if_addr oi) l2 = To q \<longrightarrow> iface_at (ip_network env) q \<noteq> None)"
proof -
  let ?net = "ip_network env" and ?p = "(r, if_addr oi)"
  obtain i where i: "iface_at ?net ?p = Some i" "iface_type i \<in> {NET_IFACE_RTR, NET_IFACE_PTP, NET_IFACE_PTMP}"
    using oi by (auto simp: sends_on_def)
  have iok: "iface_ok ?net ?p i" using fwd_okD(1) [OF ok] i(1) by (auto simp: topo_ok_def)
  note tun = fwd_okD(2) [OF ok]
  show ?thesis
  proof (cases "net_iface_is_connected i \<and> net_iface_is_enabled i")
    case False
    then show ?thesis using i tun by (auto simp: net_iface_send_def link_end_def)
  next
    case True
    then have up: "net_iface_is_connected i" "net_iface_is_enabled i" "iface_connected i" by (auto simp: net_iface_is_connected_def)
    consider (rtr) "iface_type i = NET_IFACE_RTR" | (ptp) "iface_type i = NET_IFACE_PTP" | (ptmp) "iface_type i = NET_IFACE_PTMP"
      using i(2) by auto
    then show ?thesis
    proof cases
      case rtr
      then obtain d j where "iface_dest i = Some (DstIface d)" "iface_at ?net d = Some j"
        using iok up by (auto simp: iface_ok_def)
      then show ?thesis using i up rtr tun by (simp add: net_iface_send_def link_end_def net_iface_rtr_send_def network_send_def)
    next
      case ptp
      then obtain d j where "iface_dest i = Some (DstIface d)" "iface_at ?net d = Some j"
        using iok up by (auto simp: iface_ok_def)
      then show ?thesis using i up ptp tun by (simp add: net_iface_send_def link_end_def net_iface_ptp_send_def network_send_def)
    next
      case ptmp
      then obtain p s where s: "iface_dest i = Some (DstSubnet p)" "net_subnets ?net p = Some s"
        using iok up by (auto simp: iface_ok_def)
      have port: "\<exists>j. iface_at ?net d = Some j" if "net_subnet_find_link s l2 = Some d" for d
      proof -
        have "d \<in> set (subnet_ifaces s)" using that by (auto simp: net_subnet_find_link_def find_Some_iff)
        then show ?thesis using fwd_okD(1) [OF ok] s(2) unfolding topo_ok_def subnets_ok_def port_ok_def by blast
      qed
      show ?thesis
      proof (cases "net_subnet_find_link s l2")
        case None
        then show ?thesis using i up ptmp tun s by (simp add: net_iface_send_def link_end_def net_iface_ptmp_send_def)
      next
        case (Some d)
        from port [OF this] obtain j where "iface_at ?net d = Some j" by blast
        with Some show ?thesis using i up ptmp tun s
          by (simp add: net_iface_send_def link_end_def net_iface_ptmp_send_def network_send_def del: split_paired_All)
      qed
    qed
  qed
qed

definition with_source :: "('t, 'p, 'u) ip_env \<Rightarrow> net_addr \<Rightarrow> 'p net_msg \<Rightarrow> 'p net_msg" where
  "with_source env r msg = NetMsg (source_addr env r (src_addr msg) (dst_addr msg)) (dst_addr msg) (ttl msg) (payload msg)"

lemma egress_resolved:
  assumes "fwd_ok env" "net_nodes (ip_network env) r = Some node" "rt_lookup env r dst = Some info" "egress env r dst info = Some (a, l2)"
  obtains oi e dst' where "a = if_addr oi" "sends_on env r (Some oi)" "oif e = Some oi" "l2 = (if gateway e = IP_ADDR_ANY then dst' else gateway e)"
    "oif (entries info ! 0) \<noteq> None \<and> e = entries info ! 0 \<and> dst' = dst
     \<or> oif (entries info ! 0) = None \<and> dst' = gateway (entries info ! 0)
       \<and> (\<exists>info'. rt_lookup env r (gateway (entries info ! 0)) = Some info' \<and> info' \<noteq> info \<and> entries info' \<noteq> [] \<and> e = entries info' ! 0)"
proof -
  note r = fwd_okD(5) [OF assms(1,2,3), unfolded route_ok_def]
  show thesis
  proof (cases "oif (entries info ! 0)")
    case None
    then obtain info' where info': "rt_lookup env r (gateway (entries info ! 0)) = Some info'" "info' \<noteq> info"
      "a = if_addr (the (oif (entries info' ! 0)))"
      "l2 = (if gateway (entries info' ! 0) = IP_ADDR_ANY then gateway (entries info ! 0) else gateway (entries info' ! 0))"
      using assms(4) by (auto simp: egress_def Let_def split: option.splits if_splits)
    with r None have s: "entries info' \<noteq> []" "sends_on env r (oif (entries info' ! 0))" by auto
    then obtain oi where "oif (entries info' ! 0) = Some oi" by (auto simp: sends_on_def)
    with info' s None show thesis by (intro that [of oi "entries info' ! 0" "gateway (entries info ! 0)"]) auto
  next
    case (Some oi)
    with r assms(4) show thesis
      by (intro that [of oi "entries info ! 0" dst]) (auto simp: egress_def Let_def)
  qed
qed

lemma output_eq:
  assumes ok: "fwd_ok env" and node: "net_nodes (ip_network env) r = Some node" and info: "rt_lookup env r (dst_addr msg) = Some info"
    and far: "\<not> is_local env r (dst_addr msg)"
  shows "node_ip_output env send r info msg w =
      (case depart env r (dst_addr msg) of
         To q \<Rightarrow> Some (ESUCCESS, w\<lparr>posted := posted w @ [(q, with_source env r msg)]\<rparr>)
       | LinkDown \<Rightarrow> Some (ESUCCESS, w)
       | _ \<Rightarrow> Some (ENET_HOST_UNREACH, w))"
proof -
  note look = fwd_okD(4) [OF ok node]
  have nonempty: "entries info \<noteq> []" using fwd_okD(5) [OF ok node info] by (simp add: route_ok_def)
  show ?thesis
  proof (cases "egress env r (dst_addr msg) info")
    case None
    then have oif: "oif (entries info ! 0) = None" by (auto simp: egress_def Let_def split: if_splits)
    have "entries info' \<noteq> []" if "rt_lookup env r (gateway (entries info ! 0)) = Some info'" for info'
      using fwd_okD(5) [OF ok node that] by (simp add: route_ok_def)
    then have "node_ip_output env send r info msg w = Some (ENET_HOST_UNREACH, w)"
      using None oif nonempty node look
      by (auto simp: node_ip_output_def egress_def Let_def node_ip_fwd_error_def split: option.splits if_splits)
    moreover have "depart env r (dst_addr msg) = NoHost" using info None by (simp add: depart_def)
    ultimately show ?thesis by simp
  next
    case (Some al)
    obtain a l2 where al: "al = (a, l2)" by (cases al)
    show ?thesis
    proof (rule egress_resolved [OF ok node info Some [unfolded al]])
      fix oi e dst'
      assume a: "a = if_addr oi" and sends: "sends_on env r (Some oi)" and e: "oif e = Some oi"
        and l2: "l2 = (if gateway e = IP_ADDR_ANY then dst' else gateway e)"
        and from_info: "oif (entries info ! 0) \<noteq> None \<and> e = entries info ! 0 \<and> dst' = dst_addr msg
          \<or> oif (entries info ! 0) = None \<and> dst' = gateway (entries info ! 0)
            \<and> (\<exists>info'. rt_lookup env r (gateway (entries info ! 0)) = Some info' \<and> info' \<noteq> info \<and> entries info' \<noteq> [] \<and> e = entries info' ! 0)"
      obtain i where i: "iface_at (ip_network env) (r, if_addr oi) = Some i" using sends by (auto simp: sends_on_def)
      have src: "(if src_addr msg = IP_ADDR_ANY then NetMsg (net_iface_src_address (r, if_addr oi) i) (dst_addr msg) (ttl msg) (payload msg) else msg)
          = with_source env r msg"
        using far info Some al a i by (cases msg) (simp add: with_source_def source_addr_def)
      define l2' where "l2' = (if iface_type i = NET_IFACE_PTMP \<and> gateway e = IP_ADDR_ANY then dst' else gateway e)"
      have end_eq: "link_end env (r, if_addr oi) l2' = link_end env (r, if_addr oi) l2"
      proof (cases "iface_type i = NET_IFACE_PTMP")
        case True
        then show ?thesis by (simp add: l2'_def l2)
      next
        case False
        have "iface_ok (ip_network env) (r, if_addr oi) i" using fwd_okD(1) [OF ok] i by (auto simp: topo_ok_def)
        then have "\<not> iface_connected i \<or> (\<exists>d. iface_dest i = Some (DstIface d))"
          using False sends i by (auto simp: sends_on_def iface_ok_def)
        then show ?thesis by (auto simp: link_end_def i net_iface_is_connected_def)
      qed
      have "node_ip_output env send r info msg w = do {
          (error, w) \<leftarrow> net_iface_send env send (r, if_addr oi) l2' (with_source env r msg) w;
          Some (if error = ENET_HOST_UNREACH then error else ESUCCESS, w)
        }"
        using from_info
      proof (elim disjE conjE exE)
        assume "oif (entries info ! 0) \<noteq> None" "e = entries info ! 0" "dst' = dst_addr msg"
        then show ?thesis using nonempty node e i by (simp add: node_ip_output_def Let_def src l2'_def)
      next
        fix info'
        assume "oif (entries info ! 0) = None" "dst' = gateway (entries info ! 0)"
          "rt_lookup env r (gateway (entries info ! 0)) = Some info'" "info' \<noteq> info" "entries info' \<noteq> []" "e = entries info' ! 0"
        then show ?thesis using nonempty node e i look by (simp add: node_ip_output_def Let_def src l2'_def)
      qed
      moreover have "depart env r (dst_addr msg) = link_end env (r, if_addr oi) l2'"
        using info Some al a end_eq by (simp add: depart_def)
      ultimately show ?thesis using send_eq [OF ok sends, of send l2' "with_source env r msg" w]
        by (auto simp: net_error_codes error_codes split: departure.splits)
    qed
  qed
qed

lemma depart_iface:
  assumes ok: "fwd_ok env" and node: "net_nodes (ip_network env) r = Some node" and to: "depart env r dst = To q"
  shows "iface_at (ip_network env) q \<noteq> None"
proof -
  obtain info a l2 where info: "rt_lookup env r dst = Some info" "egress env r dst info = Some (a, l2)" "link_end env (r, a) l2 = To q"
    using to by (auto simp: depart_def split: option.splits)
  show ?thesis
  proof (rule egress_resolved [OF ok node info(1,2)])
    fix oi assume "a = if_addr oi" "sends_on env r (Some oi)"
    with send_eq [OF ok this(2)] info(3) show ?thesis by blast
  qed
qed

lemma source_set:
  assumes ok: "fwd_ok env" and node: "net_nodes (ip_network env) r = Some node" and far: "\<not> is_local env r dst" and to: "depart env r dst = To q"
  shows "source_addr env r src dst \<noteq> IP_ADDR_ANY"
proof -
  obtain info a l2 where info: "rt_lookup env r dst = Some info" "egress env r dst info = Some (a, l2)"
    using to by (auto simp: depart_def split: option.splits)
  show ?thesis
  proof (rule egress_resolved [OF ok node info])
    fix oi assume "a = if_addr oi" "sends_on env r (Some oi)"
    then show ?thesis using info far by (auto simp: source_addr_def sends_on_def)
  qed
qed

lemma with_source_fixed: "src_addr msg \<noteq> IP_ADDR_ANY \<Longrightarrow> with_source env r msg = msg"
  by (cases msg) (simp add: with_source_def source_addr_def)

text \<open>A node with an interface.\<close>

lemma iface_node: "iface_at net q \<noteq> None \<Longrightarrow> \<exists>node. net_nodes net (fst q) = Some node"
  by (auto simp: iface_at_def elim!: bind_SomeE)

section \<open>ICMP messages\<close>

lemma process_icmp:
  assumes "fwd_ok env"
  shows "node_ip_process_msg env send r (NetMsg s d t (IcmpMsg m)) w = icmp_proto_handle send r (NetMsg s d t (IcmpMsg m)) m w"
  using fwd_okD(3) [OF assms, of r] by (simp add: node_ip_process_msg_def protocols_get_def protocol_recv_def)

lemma send_icmp:
  assumes ok: "fwd_ok env" and node: "net_nodes (ip_network env) r = Some node"
  shows "node_send env send recv r (NetMsg src dst t (IcmpMsg m)) w =
    (let msg = NetMsg (source_addr env r src dst) dst t (IcmpMsg m) in
     if is_local env r dst then icmp_proto_handle send r msg m w
     else case depart env r dst of
       To q \<Rightarrow> Some (ESUCCESS, w\<lparr>posted := posted w @ [(q, msg)]\<rparr>)
     | LinkDown \<Rightarrow> Some (ESUCCESS, w)
     | _ \<Rightarrow> Some (ENET_HOST_UNREACH, w))"
proof (cases "is_local env r dst")
  case True
  then obtain lif where lif: "node_local_iface node dst = Some lif" "iface_addr lif = dst" using local_iface [OF node] by blast
  then show ?thesis using node True process_icmp [OF ok]
    by (simp add: node_send_def node_ip_input_def source_addr_def Let_def)
next
  case False
  then have none: "node_local_iface node dst = None" using local_iface(1) [OF node, of dst] by (cases "node_local_iface node dst") auto
  show ?thesis
  proof (cases "rt_lookup env r dst")
    case None
    then show ?thesis using False none node fwd_okD(4) [OF ok node]
      by (simp add: node_send_def node_ip_fwd_error_def depart_def Let_def)
  next
    case (Some info)
    show ?thesis using output_eq [OF ok node, of "NetMsg src dst t (IcmpMsg m)" info, unfolded with_source_def net_msg.sel] Some False none node
        fwd_okD(4) [OF ok node]
      by (simp add: node_send_def Let_def)
  qed
qed

lemma recv_icmp:
  assumes ok: "fwd_ok env" and node: "net_nodes (ip_network env) (fst q) = Some node" and src: "s \<noteq> IP_ADDR_ANY" and t: "0 < t"
    and msg: "msg = NetMsg s d t (IcmpMsg m)"
  obtains (local) k' where "is_local env (fst q) d" "k \<le> k'"
      "ip_recv (Suc (Suc k)) env q msg w = icmp_proto_handle (ip_send k' env) (fst q) msg m w"
  | (far) "\<not> is_local env (fst q) d"
      "ip_recv (Suc (Suc k)) env q msg w =
        (let failed = (\<lambda>e. do {
           (error, w) \<leftarrow> node_ip_fwd_error (ip_send (Suc k) env) (fst q) msg 0 (Some e) w;
           Some (ESUCCESS, w) }) in
         if t \<le> 1 then failed ICMP_ERROR_TIME_EXCEEDED
         else case depart env (fst q) d of
           To q' \<Rightarrow> Some (ESUCCESS, w\<lparr>posted := posted w @ [(q', NetMsg s d (t - 1) (IcmpMsg m))]\<rparr>)
         | LinkDown \<Rightarrow> Some (ESUCCESS, w)
         | NoHost \<Rightarrow> Some (ENET_HOST_UNREACH, w)
         | NoRoute \<Rightarrow> failed ICMP_ERROR_HOST_UNREACH)"
proof (cases "is_local env (fst q) d")
  case True
  then obtain lif where lif: "node_local_iface node d = Some lif" "iface_addr lif = d" using local_iface [OF node] by blast
  have recv: "ip_recv (Suc j) env p msg w = node_ip_input env (ip_send j env) (ip_recv j env) (fst q) p (fst q, d) msg w" if "fst p = fst q" for j p
    using that t lif node fwd_okD(2) [OF ok] by (simp add: net_iface_recv_def node_recv_msg_def msg)
  show thesis
  proof (cases "q = (fst q, d)")
    case True': True
    show thesis
      by (rule local [of "Suc k"]) (use True recv [of q "Suc k"] True' process_icmp [OF ok] in \<open>simp_all add: node_ip_input_def msg\<close>)
  next
    case False
    then have "q \<noteq> (fst q, d)" .
    then have "ip_recv (Suc (Suc k)) env q msg w = ip_recv (Suc k) env (fst q, d) msg w"
      using recv [of q "Suc k"] by (simp only: node_ip_input_def if_False)
    also have "\<dots> = icmp_proto_handle (ip_send k env) (fst q) msg m w"
      using recv [of "(fst q, d)" k] process_icmp [OF ok] by (simp add: node_ip_input_def msg)
    finally show thesis by (intro local [of k] True) simp_all
  qed
next
  case False
  then have none: "node_local_iface node d = None" using local_iface(1) [OF node, of d] by (cases "node_local_iface node d") auto
  have "ip_recv (Suc (Suc k)) env q msg w = node_recv_msg env (ip_send (Suc k) env) (ip_recv (Suc k) env) (fst q) q msg w"
    using fwd_okD(2) [OF ok] by (simp add: net_iface_recv_def del: ip_send.simps)
  also have "\<dots> = (let failed = (\<lambda>e. do {
         (error, w) \<leftarrow> node_ip_fwd_error (ip_send (Suc k) env) (fst q) msg 0 (Some e) w;
         Some (ESUCCESS, w) }) in
       if t \<le> 1 then failed ICMP_ERROR_TIME_EXCEEDED
       else case depart env (fst q) d of
         To q' \<Rightarrow> Some (ESUCCESS, w\<lparr>posted := posted w @ [(q', NetMsg s d (t - 1) (IcmpMsg m))]\<rparr>)
       | LinkDown \<Rightarrow> Some (ESUCCESS, w)
       | NoHost \<Rightarrow> Some (ENET_HOST_UNREACH, w)
       | NoRoute \<Rightarrow> failed ICMP_ERROR_HOST_UNREACH)"
  proof -
    have err: "do { (error, w) \<leftarrow> node_ip_fwd_error send r (NetMsg s d t' (IcmpMsg m)) code (Some e) w; Some (ESUCCESS, w) }
        = do { (error, w) \<leftarrow> node_ip_fwd_error send r msg 0 (Some e) w; Some (ESUCCESS, w) }" for send r t' code e
      by (auto simp: node_ip_fwd_error_def msg is_icmp_error_def split: option.splits prod.splits bind_split)
    have fixed: "with_source env (fst q) (NetMsg s d t' p) = NetMsg s d t' p" for t' and p :: "'b net_payload"
      by (rule with_source_fixed) (use src in simp)
    show ?thesis
    proof (cases "rt_lookup env (fst q) d")
      case None
      then show ?thesis using none t node fwd_okD(4) [OF ok node] err
        by (simp add: node_recv_msg_def msg depart_def Let_def)
    next
      case (Some info)
      then have "depart env (fst q) d \<noteq> NoRoute"
        using egress_resolved [OF ok node Some] send_eq [OF ok]
        by (auto simp: depart_def split: option.splits prod.splits) metis
      with Some output_eq [OF ok node, of "NetMsg s d (t - 1) (IcmpMsg m)" info] False none t node fwd_okD(4) [OF ok node] err fixed
      show ?thesis by (auto simp: node_recv_msg_def msg Let_def split: departure.splits)
    qed
  qed
  finally show thesis by (rule far [OF False])
qed

section \<open>Runs of the simulator\<close>

text \<open>Runs that end in a state, with a bound on the number of events.\<close>

definition runs ::
    "(iface_ptr \<times> 'p net_msg) fifo_ops \<Rightarrow> nat \<Rightarrow> ('t, 'p, 'u) ip_env \<Rightarrow> nat \<Rightarrow> ('p, 'u) ip_world \<Rightarrow> (iface_ptr \<times> 'p net_msg) list \<Rightarrow>
       ('p, 'u) ip_world \<Rightarrow> bool" where
  "runs ops depth env k w evs w' \<longleftrightarrow>
     (\<forall>s n. fifo_wf (events s) \<and> fifo_list (events s) = evs \<and> \<not> cancelled s \<and> k < unat n \<longrightarrow>
        (\<exists>error s'. static_run_loop ops (network_send_callback depth env) 0 n w s = Some (error, w', s')))"

lemma runs_mono:
  fixes ops :: "(iface_ptr \<times> 'p net_msg) fifo_ops"
  assumes "runs ops depth env k w evs w'" "k \<le> k'"
  shows "runs ops depth env k' w evs w'"
  unfolding runs_def
proof (intro allI impI)
  fix s :: "(iface_ptr \<times> 'p net_msg) sched_static" and n :: "32 word"
  assume "fifo_wf (events s) \<and> fifo_list (events s) = evs \<and> \<not> cancelled s \<and> k' < unat n"
  with assms show "\<exists>error s'. static_run_loop ops (network_send_callback depth env) 0 n w s = Some (error, w', s')"
    unfolding runs_def by (auto dest: le_less_trans)
qed

lemma world_clean [simp]: "posted w = [] \<Longrightarrow> w\<lparr>posted := []\<rparr> = w"
  by (cases w) simp

lemma runs_nil:
  fixes ops :: "(iface_ptr \<times> 'p net_msg) fifo_ops"
  assumes laws: "gds_fifo_laws ops"
  shows "runs ops depth env k w [] w"
  unfolding runs_def
proof (intro allI impI, elim conjE)
  fix s :: "(iface_ptr \<times> 'p net_msg) sched_static" and n :: "32 word"
  assume s: "fifo_wf (events s)" "fifo_list (events s) = []" "\<not> cancelled s"
  show "\<exists>error s'. static_run_loop ops (network_send_callback depth env) 0 n w s = Some (error, w, s')"
    using gds_fifo_laws.pop_empty [OF laws s(1,2)] s(3) by (subst static_run_loop.simps) simp
qed

lemma runs_step:
  fixes ops :: "(iface_ptr \<times> 'p net_msg) fifo_ops"
  assumes laws: "gds_fifo_laws ops"
    and ev: "network_send_callback depth env ev w = Some (error, w1, posts, False)"
    and rest: "error = ESUCCESS \<Longrightarrow> runs ops depth env k w1 posts w'" and stop: "error \<noteq> ESUCCESS \<Longrightarrow> w' = w1"
  shows "runs ops depth env (Suc k) w [ev] w'"
  unfolding runs_def
proof (intro allI impI, elim conjE)
  fix s :: "(iface_ptr \<times> 'p net_msg) sched_static" and n :: "32 word"
  assume s: "fifo_wf (events s)" "fifo_list (events s) = [ev]" "\<not> cancelled s" and n: "Suc k < unat n"
  obtain q where q: "fifo_pop ops (events s) = Some (ev, q)" "fifo_wf q" "fifo_list q = []"
    using gds_fifo_laws.pop [OF laws s(1,2)] by blast
  obtain s1 where s1: "post_all ops posts (s\<lparr>events := q, cancelled := False\<rparr>) = Some s1" "fifo_wf (events s1)"
    "fifo_list (events s1) = posts" "\<not> cancelled s1"
    using gds_fifo_laws.post_all_effect [OF laws, of "s\<lparr>events := q, cancelled := False\<rparr>" posts] q by auto
  have pos: "n > 0" using n by (simp add: word_greater_zero_iff unat_gt_0 [symmetric])
  from word_minus_one [OF this] n have k: "k < unat (n - 1)" by simp
  then have "n - 1 \<noteq> 0" by auto
  show "\<exists>error s'. static_run_loop ops (network_send_callback depth env) 0 n w s = Some (error, w', s')"
  proof (cases "error = ESUCCESS")
    case True
    from rest [OF True, unfolded runs_def, rule_format, of "s1\<lparr>cur_time := cur_time s1 + 1\<rparr>" "n - 1"] s1 k
    obtain e s' where "static_run_loop ops (network_send_callback depth env) 0 (n - 1) w1 (s1\<lparr>cur_time := cur_time s1 + 1\<rparr>) = Some (e, w', s')"
      by auto
    with True show ?thesis using s(3) q(1) ev s1(1) pos \<open>n - 1 \<noteq> 0\<close> by (subst static_run_loop.simps) (simp add: Let_def)
  next
    case False
    with stop show ?thesis using s(3) q(1) ev s1(1) by (subst static_run_loop.simps) simp
  qed
qed

text \<open>The number of messages that an ICMP message can cause, itself included.\<close>

definition icmp_rank :: "icmp_msg \<Rightarrow> nat" where
  "icmp_rank m = (case icmp_type m of ICMP_ECHO_REQUEST \<Rightarrow> 3 | ICMP_ERROR _ \<Rightarrow> 1 | _ \<Rightarrow> 2)"

definition flies ::
    "(iface_ptr \<times> 'p net_msg) fifo_ops \<Rightarrow> nat \<Rightarrow> ('t, 'p, 'u) ip_env \<Rightarrow> nat \<Rightarrow> bool" where
  "flies ops depth env n \<longleftrightarrow>
     (\<forall>m s d t q w. icmp_rank m \<le> n \<and> s \<noteq> IP_ADDR_ANY \<and> 0 < t \<and> iface_at (ip_network env) q \<noteq> None \<and> posted w = [] \<longrightarrow>
        runs ops depth env (256 * (n - 1) + unat t) w [(q, NetMsg s d t (IcmpMsg m))]
          (w\<lparr>rcvd := icmp_outcome n env m s d (walk env (unat t) (fst q) d) (rcvd w)\<rparr>))"

lemma rank_pos: "0 < icmp_rank m"
  by (simp add: icmp_rank_def split: icmp_msg_type.splits)

lemma emit_runs:
  assumes laws: "gds_fifo_laws ops" and ok: "fwd_ok env" and fl: "flies ops depth env n"
    and m: "icmp_rank m \<le> n" "icmp_type m \<noteq> ICMP_ECHO_REQUEST" and node: "net_nodes (ip_network env) r = Some node" and w: "posted w = []"
  shows "\<exists>e w1. node_send_msg (ip_send (Suc k) env) r src dst 255 (IcmpMsg m) w = Some (e, w1)
    \<and> runs ops depth env (256 * n) (w1\<lparr>posted := []\<rparr>) (posted w1) (w\<lparr>rcvd := icmp_sent n env m r src dst 255 (rcvd w)\<rparr>)"
proof -
  obtain n' where n: "n = Suc n'" using rank_pos [of m] m(1) by (cases n) auto
  let ?s = "source_addr env r src dst"
  note run = send_icmp [OF ok node, of "ip_send k env" "ip_recv k env" src dst 255 m w]
  show ?thesis
  proof (cases "is_local env r dst")
    case True
    have "icmp_proto_handle (ip_send k env) r (NetMsg ?s dst 255 (IcmpMsg m)) m w
        = Some (0, w\<lparr>rcvd := Some \<lparr>rc_node = r, rc_src = ?s, rc_dst = dst, rc_msg = m\<rparr>\<rparr>)"
      using m(2) by (simp add: icmp_proto_handle_def Let_def split: icmp_msg_type.splits)
    then show ?thesis using run True m(2) n w runs_nil [OF laws]
      by (simp add: node_send_msg_def message_create_def journey_def Let_def)
  next
    case False
    show ?thesis
    proof (cases "depart env r dst")
      case (To q)
      have "runs ops depth env (256 * (n - 1) + unat (255 :: 8 word)) w [(q, NetMsg ?s dst 255 (IcmpMsg m))]
          (w\<lparr>rcvd := icmp_outcome n env m ?s dst (walk env (unat (255 :: 8 word)) (fst q) dst) (rcvd w)\<rparr>)"
        using fl [unfolded flies_def, rule_format, of m ?s 255 q w dst] m(1) source_set [OF ok node False To] depart_iface [OF ok node To] w
        by (simp del: split_paired_All)
      from runs_mono [OF this, of "256 * n"]
      have "runs ops depth env (256 * n) w [(q, NetMsg ?s dst 255 (IcmpMsg m))]
          (w\<lparr>rcvd := icmp_outcome n env m ?s dst (walk env 255 (fst q) dst) (rcvd w)\<rparr>)" by (simp add: n)
      then show ?thesis using run False To n w
        by (simp add: node_send_msg_def message_create_def journey_def Let_def)
    qed (use run False n w runs_nil [OF laws] in \<open>simp_all add: node_send_msg_def message_create_def journey_def Let_def\<close>)
  qed
qed

lemma callback_result:
  "posted w = [] \<Longrightarrow> ip_recv depth env q msg w = Some (e, w1) \<Longrightarrow>
     network_send_callback depth env (q, msg) w = Some (e, w1\<lparr>posted := []\<rparr>, posted w1, False)"
  by (simp add: network_send_callback_def)

text \<open>A failure at a node: errors are dropped, other messages cause an error.\<close>

lemma failed_runs:
  assumes laws: "gds_fifo_laws ops" and ok: "fwd_ok env" and fl: "flies ops depth env n" and rank: "icmp_rank m \<le> Suc n"
    and node: "net_nodes (ip_network env) r = Some node" and w: "posted w = []" and msg: "msg = NetMsg s d t (IcmpMsg m)"
  shows "\<exists>w1. do { (error, w) \<leftarrow> node_ip_fwd_error (ip_send (Suc k) env) r msg 0 (Some e) w; Some (ESUCCESS, w) } = Some (ESUCCESS, w1)
    \<and> runs ops depth env (256 * n) (w1\<lparr>posted := []\<rparr>) (posted w1)
        (w\<lparr>rcvd := if icmp_failure m then rcvd w else icmp_sent n env \<lparr>icmp_type = ICMP_ERROR e, icmp_node = r\<rparr> r IP_ADDR_ANY s 255 (rcvd w)\<rparr>)"
proof (cases "icmp_failure m")
  case True
  then show ?thesis using w by (simp add: runs_nil [OF laws] node_ip_fwd_error_def msg is_icmp_error_def icmp_failure_def)
next
  case False
  then have "1 \<le> n" using rank by (auto simp: icmp_rank_def icmp_failure_def split: icmp_msg_type.splits)
  then have "icmp_rank \<lparr>icmp_type = ICMP_ERROR e, icmp_node = r\<rparr> \<le> n" by (simp add: icmp_rank_def)
  from emit_runs [OF laws ok fl this _ node w, of k IP_ADDR_ANY s] False show ?thesis
    by (auto simp: node_ip_fwd_error_def msg is_icmp_error_def icmp_failure_def icmp_send_error_def icmp_msg_create_def)
qed

lemma handled_runs:
  assumes laws: "gds_fifo_laws ops" and ok: "fwd_ok env" and fl: "flies ops depth env n" and rank: "icmp_rank m \<le> Suc n"
    and node: "net_nodes (ip_network env) r = Some node" and w: "posted w = []" and msg: "msg = NetMsg s d t (IcmpMsg m)"
  shows "\<exists>w1. icmp_proto_handle (ip_send (Suc k) env) r msg m w = Some (ESUCCESS, w1)
    \<and> runs ops depth env (256 * n) (w1\<lparr>posted := []\<rparr>) (posted w1) (w\<lparr>rcvd := icmp_outcome (Suc n) env m s d (Arrived r) (rcvd w)\<rparr>)"
proof (cases "icmp_type m = ICMP_ECHO_REQUEST")
  case True
  then have "2 \<le> n" using rank by (simp add: icmp_rank_def)
  then have "icmp_rank \<lparr>icmp_type = ICMP_ECHO_REPLY, icmp_node = r\<rparr> \<le> n" by (simp add: icmp_rank_def)
  from emit_runs [OF laws ok fl this _ node, of "w\<lparr>rcvd := Some \<lparr>rc_node = r, rc_src = s, rc_dst = d, rc_msg = m\<rparr>\<rparr>" k d s] w True
  show ?thesis by (auto simp: icmp_proto_handle_def msg Let_def icmp_send_echo_reply_def icmp_msg_create_def error_codes)
next
  case False
  then have "icmp_proto_handle (ip_send (Suc k) env) r msg m w = Some (ESUCCESS, w\<lparr>rcvd := Some \<lparr>rc_node = r, rc_src = s, rc_dst = d, rc_msg = m\<rparr>\<rparr>)"
    by (simp add: icmp_proto_handle_def msg Let_def error_codes split: icmp_msg_type.splits)
  then show ?thesis using False w by (simp add: runs_nil [OF laws] Let_def)
qed

lemma flies_step:
  assumes laws: "gds_fifo_laws ops" and ok: "fwd_ok env" and fl: "flies ops (Suc (Suc (Suc k))) env n"
    and m: "icmp_rank m \<le> Suc n" and s: "s \<noteq> IP_ADDR_ANY"
  shows "0 < t \<Longrightarrow> iface_at (ip_network env) q \<noteq> None \<Longrightarrow> posted w = [] \<Longrightarrow>
    runs ops (Suc (Suc (Suc k))) env (256 * n + unat t) w [(q, NetMsg s d t (IcmpMsg m))]
      (w\<lparr>rcvd := icmp_outcome (Suc n) env m s d (walk env (unat t) (fst q) d) (rcvd w)\<rparr>)"
proof (induction "unat t" arbitrary: t q)
  case 0
  then have "t = 0" by (simp add: unat_eq_zero)
  with "0.prems"(1) show ?case by simp
next
  case (Suc t')
  let ?D = "Suc (Suc (Suc k))"
  obtain node where node: "net_nodes (ip_network env) (fst q) = Some node" using iface_node [OF Suc.prems(2)] by blast
  have bound: "256 * n + unat t = Suc (256 * n + t')" using Suc.hyps(2) by simp
  note step = runs_step [OF laws callback_result [OF Suc.prems(3)], where k = "256 * n + t'", folded bound]
  note mono = runs_mono [where k = "256 * n" and k' = "256 * n + t'", OF _ le_add1]
  show ?case
  proof (rule recv_icmp [OF ok node s Suc.prems(1) refl, where m = m and d = d and w = w and k = "Suc k"])
    fix k' assume here: "is_local env (fst q) d" "Suc k \<le> k'"
      "ip_recv ?D env q (NetMsg s d t (IcmpMsg m)) w = icmp_proto_handle (ip_send k' env) (fst q) (NetMsg s d t (IcmpMsg m)) m w"
    obtain k'' where k'': "k' = Suc k''" using here(2) by (cases k') auto
    obtain w1 where w1: "icmp_proto_handle (ip_send k' env) (fst q) (NetMsg s d t (IcmpMsg m)) m w = Some (ESUCCESS, w1)"
      "runs ops ?D env (256 * n) (w1\<lparr>posted := []\<rparr>) (posted w1) (w\<lparr>rcvd := icmp_outcome (Suc n) env m s d (Arrived (fst q)) (rcvd w)\<rparr>)"
      using handled_runs [OF laws ok fl m node Suc.prems(3) refl] unfolding k'' by blast
    have "walk env (unat t) (fst q) d = Arrived (fst q)" using here(1) Suc.hyps(2) [symmetric] by simp
    then show ?thesis using step [of ?D env q "NetMsg s d t (IcmpMsg m)" ESUCCESS w1] here(3) w1(1) mono [OF w1(2)] by simp
  next
    assume far: "\<not> is_local env (fst q) d"
      and recv: "ip_recv ?D env q (NetMsg s d t (IcmpMsg m)) w =
        (let failed = (\<lambda>e. do {
           (error, w) \<leftarrow> node_ip_fwd_error (ip_send (Suc (Suc k)) env) (fst q) (NetMsg s d t (IcmpMsg m)) 0 (Some e) w;
           Some (ESUCCESS, w) }) in
         if t \<le> 1 then failed ICMP_ERROR_TIME_EXCEEDED
         else case depart env (fst q) d of
           To q' \<Rightarrow> Some (ESUCCESS, w\<lparr>posted := posted w @ [(q', NetMsg s d (t - 1) (IcmpMsg m))]\<rparr>)
         | LinkDown \<Rightarrow> Some (ESUCCESS, w)
         | NoHost \<Rightarrow> Some (ENET_HOST_UNREACH, w)
         | NoRoute \<Rightarrow> failed ICMP_ERROR_HOST_UNREACH)"
    have t1: "t \<le> 1 \<longleftrightarrow> t' = 0" using Suc.hyps(2) by (simp add: word_le_nat_alt) linarith
    have fail: ?thesis
      if walk: "walk env (unat t) (fst q) d = fate" and fate: "fate = Expired (fst q) \<and> e = ICMP_ERROR_TIME_EXCEEDED \<or> fate = Unreachable (fst q) \<and> e = ICMP_ERROR_HOST_UNREACH"
        and r: "ip_recv ?D env q (NetMsg s d t (IcmpMsg m)) w = do {
           (error, w) \<leftarrow> node_ip_fwd_error (ip_send (Suc (Suc k)) env) (fst q) (NetMsg s d t (IcmpMsg m)) 0 (Some e) w;
           Some (ESUCCESS, w) }" for fate e
    proof -
      obtain w1 where w1: "ip_recv ?D env q (NetMsg s d t (IcmpMsg m)) w = Some (ESUCCESS, w1)"
        "runs ops ?D env (256 * n) (w1\<lparr>posted := []\<rparr>) (posted w1)
          (w\<lparr>rcvd := if icmp_failure m then rcvd w else icmp_sent n env \<lparr>icmp_type = ICMP_ERROR e, icmp_node = fst q\<rparr> (fst q) IP_ADDR_ANY s 255 (rcvd w)\<rparr>)"
        using failed_runs [OF laws ok fl m node Suc.prems(3) refl, of "Suc k" s d t e] unfolding r by blast
      then show ?thesis using step [OF w1(1)] mono [OF w1(2)] fate walk by (auto simp: Let_def)
    qed
    show ?thesis
    proof (cases "t' = 0")
      case True
      then show ?thesis using fail [of "Expired (fst q)"] recv t1 far Suc.hyps(2) [symmetric] by (simp add: Let_def)
    next
      case False
      have "t \<noteq> 0" using Suc.prems(1) by auto
      then have t: "unat (t - 1) = t'" "0 < t - 1"
        using Suc.hyps(2) False unat_minus_one [of t] by (auto simp: word_less_nat_alt)
      show ?thesis
      proof (cases "depart env (fst q) d")
        case (To q')
        have "runs ops ?D env (256 * n + unat (t - 1)) w [(q', NetMsg s d (t - 1) (IcmpMsg m))]
            (w\<lparr>rcvd := icmp_outcome (Suc n) env m s d (walk env (unat (t - 1)) (fst q') d) (rcvd w)\<rparr>)"
          by (rule Suc.hyps(1) [OF _ t(2) depart_iface [OF ok node To] Suc.prems(3)]) (use t(1) in simp)
        then show ?thesis using step [of ?D env q "NetMsg s d t (IcmpMsg m)" ESUCCESS "w\<lparr>posted := [(q', NetMsg s d (t - 1) (IcmpMsg m))]\<rparr>"]
            recv To far False t1 t(1) Suc.hyps(2) [symmetric] Suc.prems(3) by (simp add: Let_def)
      next
        case NoRoute
        then show ?thesis using fail [of "Unreachable (fst q)"] recv t1 False far Suc.hyps(2) [symmetric] by (simp add: Let_def)
      next
        case LinkDown
        then show ?thesis using step [of ?D env q "NetMsg s d t (IcmpMsg m)" ESUCCESS w] recv far False t1 Suc.hyps(2) [symmetric] Suc.prems(3)
          by (simp add: Let_def runs_nil [OF laws])
      next
        case NoHost
        then show ?thesis using step [of ?D env q "NetMsg s d t (IcmpMsg m)" ENET_HOST_UNREACH w] recv far False t1 Suc.hyps(2) [symmetric] Suc.prems(3)
          by (simp add: Let_def error_codes net_error_codes)
      qed
    qed
  qed
qed

lemma flies_all: "gds_fifo_laws ops \<Longrightarrow> fwd_ok env \<Longrightarrow> flies ops (Suc (Suc (Suc k))) env n"
proof (induction n)
  case 0
  then show ?case by (auto simp: flies_def icmp_rank_def split: icmp_msg_type.splits)
next
  case (Suc n)
  then show ?case using flies_step [OF Suc.prems Suc.IH [OF Suc.prems]] unfolding flies_def by simp
qed

section \<open>Ping\<close>

text \<open>Whether the sender itself reports that the destination cannot be reached.\<close>

definition unsendable :: "('t, 'p, 'u) ip_env \<Rightarrow> net_addr \<Rightarrow> net_addr \<Rightarrow> bool" where
  "unsendable env r dst \<longleftrightarrow> \<not> is_local env r dst \<and> depart env r dst \<in> {NoRoute, NoHost}"

lemma ping_eq:
  assumes laws: "gds_fifo_laws ops" and ok: "fwd_ok env" and node: "net_nodes (ip_network env) r = Some node" and depth: "3 \<le> depth"
  obtains w' where "icmp_ping_send_recv ops depth env r src dst t w =
      Some (if unsendable env r dst then ENET_HOST_UNREACH else ping_reply r (rcvd w'), w')"
    "rcvd w' = icmp_sent 3 env \<lparr>icmp_type = ICMP_ECHO_REQUEST, icmp_node = r\<rparr> r src dst (if t = 0 then 255 else unat t) None"
proof -
  note finish = that
  obtain k where "depth = 3 + k" using le_Suc_ex [OF depth] by blast
  then have k: "depth = Suc (Suc (Suc k))" by simp
  let ?m = "\<lparr>icmp_type = ICMP_ECHO_REQUEST, icmp_node = r\<rparr>" and ?w = "w\<lparr>rcvd := None, posted := []\<rparr>"
  define t' :: "8 word" where "t' = (if t = 0 then 255 else t)"
  have t': "0 < t'" "unat t' = (if t = 0 then 255 else unat t)" by (simp_all add: t'_def word_greater_zero_iff)
  let ?s = "source_addr env r src dst"
  have rank: "icmp_rank ?m \<le> Suc 2" by (simp add: icmp_rank_def)
  have three: "icmp_sent 3 env ?m r src dst x None = icmp_outcome 3 env ?m ?s dst (journey env x r dst) None" for x
    by (simp add: numeral_3_eq_3)
  have send: "icmp_send_echo_request (ip_send depth env) r src dst t ?w =
      (let msg = NetMsg ?s dst t' (IcmpMsg ?m) in
       if is_local env r dst then icmp_proto_handle (ip_send (Suc (Suc k)) env) r msg ?m ?w
       else case depart env r dst of
         To q \<Rightarrow> Some (ESUCCESS, ?w\<lparr>posted := posted ?w @ [(q, msg)]\<rparr>)
       | LinkDown \<Rightarrow> Some (ESUCCESS, ?w)
       | _ \<Rightarrow> Some (ENET_HOST_UNREACH, ?w))"
    unfolding icmp_send_echo_request_def node_send_msg_def message_create_def k icmp_msg_create_def t'_def [symmetric]
    by (simp only: ip_send.simps send_icmp [OF ok node])
  have sim: ?thesis
    if sent: "icmp_send_echo_request (ip_send depth env) r src dst t ?w = Some (ESUCCESS, wa)" and able: "\<not> unsendable env r dst"
      and run: "runs ops depth env 1024 (wa\<lparr>posted := []\<rparr>) (posted wa) wb"
      and result: "rcvd wb = icmp_sent 3 env ?m r src dst (if t = 0 then 255 else unat t) None" for wa wb
  proof -
    have "fifo_wf (fifo_create ops EVENT_QUEUE_DEPTH)" "fifo_list (fifo_create ops EVENT_QUEUE_DEPTH) = []"
      using gds_fifo_laws.create [OF laws, of EVENT_QUEUE_DEPTH] by (simp_all add: EVENT_QUEUE_DEPTH_def)
    then obtain s where s: "post_all ops (posted wa) (sched_static_create ops) = Some s" "fifo_wf (events s)" "fifo_list (events s) = posted wa"
        "\<not> cancelled s"
      using gds_fifo_laws.post_all_effect [OF laws, of "sched_static_create ops" "posted wa"] by (auto simp: sched_static_create_def)
    have big: "1024 < unat (- 1 :: 32 word)" by (simp add: unsigned_minus_1_eq_mask mask_eq_exp_minus_1)
    obtain e s' where "static_run_loop ops (network_send_callback depth env) 0 (-1) (wa\<lparr>posted := []\<rparr>) s = Some (e, wb, s')"
      using run [unfolded runs_def, rule_format, of s "-1"] s big by auto
    moreover have "s\<lparr>cancelled := False\<rparr> = s" using s(4) by (cases s) simp
    ultimately have "icmp_ping_send_recv ops depth env r src dst t w = Some (ping_reply r (rcvd wb), wb)"
      using sent s(1) by (simp add: icmp_ping_send_recv_def sim_create_def sim_run_def static_run_def)
    with able result show ?thesis by (intro finish [of wb]) simp_all
  qed
  show ?thesis
  proof (cases "is_local env r dst")
    case True
    obtain w1 where w1: "icmp_proto_handle (ip_send (Suc (Suc k)) env) r (NetMsg ?s dst t' (IcmpMsg ?m)) ?m ?w = Some (ESUCCESS, w1)"
      "runs ops depth env (256 * 2) (w1\<lparr>posted := []\<rparr>) (posted w1) (?w\<lparr>rcvd := icmp_outcome (Suc 2) env ?m ?s dst (Arrived r) (rcvd ?w)\<rparr>)"
      using handled_runs [OF laws ok flies_all [OF laws ok, of k 2] rank node, of ?w] unfolding k by fastforce
    show ?thesis
      by (rule sim [OF _ _ runs_mono [OF w1(2)]])
        (use True send w1(1) three in \<open>simp_all add: unsendable_def journey_def Let_def del: icmp_outcome.simps\<close>)
  next
    case False
    show ?thesis
    proof (cases "depart env r dst")
      case (To q)
      have "runs ops depth env (256 * 2 + unat t') ?w [(q, NetMsg ?s dst t' (IcmpMsg ?m))]
          (?w\<lparr>rcvd := icmp_outcome (Suc 2) env ?m ?s dst (walk env (unat t') (fst q) dst) (rcvd ?w)\<rparr>)"
        unfolding k by (rule flies_step [OF laws ok flies_all [OF laws ok] rank source_set [OF ok node False To] t'(1) depart_iface [OF ok node To]]) simp
      moreover have "unat t' < 256" using unsigned_less [of t'] by simp
      moreover have "Suc 2 = 3" by simp
      ultimately have "runs ops depth env 1024 ?w [(q, NetMsg ?s dst t' (IcmpMsg ?m))]
          (?w\<lparr>rcvd := icmp_outcome 3 env ?m ?s dst (walk env (unat t') (fst q) dst) None\<rparr>)"
        by (auto intro: runs_mono simp del: icmp_outcome.simps)
      then show ?thesis
        by (intro sim [where wa = "?w\<lparr>posted := [(q, NetMsg ?s dst t' (IcmpMsg ?m))]\<rparr>"
            and wb = "?w\<lparr>rcvd := icmp_outcome 3 env ?m ?s dst (walk env (unat t') (fst q) dst) None\<rparr>"])
          (use False To send three t'(2) in \<open>simp_all add: unsendable_def journey_def Let_def del: icmp_outcome.simps\<close>)
    next
      case LinkDown
      show ?thesis
        by (rule sim [where wa = ?w and wb = ?w])
          (use runs_nil [OF laws] False LinkDown send three in \<open>simp_all add: unsendable_def journey_def Let_def numeral_3_eq_3\<close>)
    next
      case NoHost
      then show ?thesis using False send three
        by (intro finish [of ?w]) (simp_all add: icmp_ping_send_recv_def unsendable_def journey_def Let_def error_codes net_error_codes numeral_3_eq_3)
    next
      case NoRoute
      then show ?thesis using False send three
        by (intro finish [of ?w]) (simp_all add: icmp_ping_send_recv_def unsendable_def journey_def Let_def error_codes net_error_codes numeral_3_eq_3)
    qed
  qed
qed

lemma depart_node:
  assumes "fwd_ok env" "net_nodes (ip_network env) r = Some node" "depart env r dst = To q"
  shows "net_nodes (ip_network env) (fst q) \<noteq> None"
  using depart_iface [OF assms] by (cases "net_nodes (ip_network env) (fst q)") (simp_all add: iface_at_def)

lemma walk_node:
  assumes ok: "fwd_ok env"
  shows "net_nodes (ip_network env) r \<noteq> None \<Longrightarrow> walk env t r dst \<in> {Arrived x, Expired x, Unreachable x} \<Longrightarrow> net_nodes (ip_network env) x \<noteq> None"
proof (induction t arbitrary: r)
  case (Suc t)
  obtain node where node: "net_nodes (ip_network env) r = Some node" using Suc.prems(1) by blast
  have "net_nodes (ip_network env) (fst q) \<noteq> None" if "depart env r dst = To q" for q
    by (rule depart_node [OF ok node that])
  with Suc show ?case by (auto split: if_splits departure.splits)
qed auto

lemma journey_node:
  assumes ok: "fwd_ok env" and node: "net_nodes (ip_network env) r \<noteq> None"
    and fate: "journey env t r dst \<in> {Arrived x, Expired x, Unreachable x}"
  shows "net_nodes (ip_network env) x \<noteq> None"
proof (cases "is_local env r dst")
  case True
  then show ?thesis using fate node by (simp add: journey_def)
next
  case False
  then obtain q where q: "depart env r dst = To q" "walk env t (fst q) dst \<in> {Arrived x, Expired x, Unreachable x}"
    using fate by (auto simp: journey_def split: departure.splits)
  obtain n where n: "net_nodes (ip_network env) r = Some n" using node by blast
  have "net_nodes (ip_network env) (fst q) \<noteq> None"
    by (rule depart_node [OF ok n q(1)])
  then show ?thesis using walk_node [OF ok] q(2) by blast
qed

text \<open>The sender of the last ICMP message received is a node.\<close>

lemma sent_sender:
  assumes ok: "fwd_ok env"
  shows "net_nodes (ip_network env) r \<noteq> None \<Longrightarrow> net_nodes (ip_network env) (icmp_node m) \<noteq> None \<Longrightarrow>
      icmp_sent n env m r src dst t rc = Some ctx \<Longrightarrow> rc = Some ctx \<or> net_nodes (ip_network env) (icmp_node (rc_msg ctx)) \<noteq> None"
proof (induction n arbitrary: m r src dst t rc)
  case (Suc n)
  let ?s = "source_addr env r src dst"
  have out: "icmp_outcome (Suc n) env m ?s dst (journey env t r dst) rc = Some ctx" using Suc.prems(3) by simp
  have IH: "rc' = Some ctx \<or> net_nodes (ip_network env) (icmp_node (rc_msg ctx)) \<noteq> None"
    if "journey env t r dst \<in> {Arrived x, Expired x, Unreachable x}"
      "icmp_sent n env \<lparr>icmp_type = ty, icmp_node = x\<rparr> x s' d' 255 rc' = Some ctx" for x ty s' d' rc'
    using Suc.IH [of x "\<lparr>icmp_type = ty, icmp_node = x\<rparr>" s' d' 255 rc'] journey_node [OF ok Suc.prems(1) that(1)] that(2) by simp
  show ?case
  proof (cases "journey env t r dst")
    case (Arrived x)
    let ?rc = "Some \<lparr>rc_node = x, rc_src = ?s, rc_dst = dst, rc_msg = m\<rparr>"
    have "?rc = Some ctx \<or> net_nodes (ip_network env) (icmp_node (rc_msg ctx)) \<noteq> None"
      using out Arrived IH [of x ICMP_ECHO_REPLY dst ?s ?rc] by (auto simp: Let_def split: if_splits)
    then show ?thesis using Suc.prems(2) by auto
  next
    case (Expired x)
    then show ?thesis using out IH [of x] by (auto simp: Let_def split: if_splits)
  next
    case (Unreachable x)
    then show ?thesis using out IH [of x] by (auto simp: Let_def split: if_splits)
  next
    case Vanished
    then show ?thesis using out by (simp add: Let_def)
  qed
qed simp

lemmas ping_codes = icmp_error_codes net_error_codes error_codes

text \<open>The last message received by a ping, for each fate of the request.\<close>

lemma sent_request:
  fixes env :: "('t, 'p, 'u) ip_env"
  defines "sent \<equiv> \<lambda>r src dst t. icmp_sent 3 env \<lparr>icmp_type = ICMP_ECHO_REQUEST, icmp_node = r\<rparr> r src dst t None"
  shows "ping_reply r (sent r src dst t) = ESUCCESS \<longleftrightarrow>
      (\<exists>x. journey env t r dst = Arrived x \<and> journey env 255 x (source_addr env r src dst) = Arrived r)"
    "journey env t r dst = Expired x \<Longrightarrow> journey env 255 x (source_addr env r src dst) = Arrived r \<Longrightarrow>
      ping_reply r (sent r src dst t) = ENET_ICMP_TIME_EXCEEDED"
proof -
  let ?s = "source_addr env r src dst"
  let ?error = "\<lambda>x e n d rc. icmp_sent n env \<lparr>icmp_type = ICMP_ERROR e, icmp_node = x\<rparr> x IP_ADDR_ANY d 255 rc"
  have err: "?error x e (Suc n) d rc = (case journey env 255 x d of
      Arrived y \<Rightarrow> Some \<lparr>rc_node = y, rc_src = source_addr env x IP_ADDR_ANY d, rc_dst = d, rc_msg = \<lparr>icmp_type = ICMP_ERROR e, icmp_node = x\<rparr>\<rparr>
    | _ \<Rightarrow> rc)" for x e n d rc
    by (simp add: icmp_failure_def Let_def split: fate.splits)
  have rep: "ping_reply r (icmp_sent (Suc (Suc 0)) env \<lparr>icmp_type = ICMP_ECHO_REPLY, icmp_node = x\<rparr> x dst d 255
        (Some \<lparr>rc_node = x, rc_src = d, rc_dst = dst, rc_msg = \<lparr>icmp_type = ICMP_ECHO_REQUEST, icmp_node = r\<rparr>\<rparr>)) = ESUCCESS
      \<longleftrightarrow> journey env 255 x d = Arrived r" for x d
    by (simp add: Let_def icmp_failure_def ping_reply_def ping_codes err del: icmp_outcome.simps(2)
        split: fate.splits icmp_error_type.splits)
       (auto simp: Let_def icmp_failure_def err ping_reply_def ping_codes split: fate.splits icmp_error_type.splits)
  show "ping_reply r (sent r src dst t) = ESUCCESS \<longleftrightarrow>
      (\<exists>x. journey env t r dst = Arrived x \<and> journey env 255 x ?s = Arrived r)"
    by (cases "journey env t r dst")
      (simp_all add: sent_def numeral_3_eq_3 Let_def rep icmp_failure_def, auto simp: err ping_reply_def ping_codes split: fate.splits)
  show "ping_reply r (sent r src dst t) = ENET_ICMP_TIME_EXCEEDED"
    if "journey env t r dst = Expired x" "journey env 255 x ?s = Arrived r"
    using that by (simp add: sent_def numeral_3_eq_3 Let_def icmp_failure_def ping_reply_def ping_codes)
qed

lemma ping_result:
  assumes "gds_fifo_laws ops" "fwd_ok env" "net_nodes (ip_network env) r = Some node" "3 \<le> depth"
  shows "\<exists>e w'. icmp_ping ops depth env r src dst t w = Some (e, w')
    \<and> (e = ESUCCESS \<longleftrightarrow> (\<exists>x. journey env (if t = 0 then 255 else unat t) r dst = Arrived x
                          \<and> journey env 255 x (source_addr env r src dst) = Arrived r))"
proof -
  let ?t = "if t = 0 then 255 else t"
  have t: "?t \<noteq> 0" "unat ?t = (if t = 0 then 255 else unat t)" by simp_all
  obtain w' where w': "icmp_ping_send_recv ops depth env r src dst ?t w =
      Some (if unsendable env r dst then ENET_HOST_UNREACH else ping_reply r (rcvd w'), w')"
    "rcvd w' = icmp_sent 3 env \<lparr>icmp_type = ICMP_ECHO_REQUEST, icmp_node = r\<rparr> r src dst (if ?t = 0 then 255 else unat ?t) None"
    by (rule ping_eq [OF assms])
  have stuck: "unsendable env r dst \<Longrightarrow> journey env n r dst = Vanished" for n
    by (auto simp: unsendable_def journey_def split: departure.splits)
  have "(if unsendable env r dst then ENET_HOST_UNREACH else ping_reply r (rcvd w')) = ESUCCESS \<longleftrightarrow>
      (\<exists>x. journey env (unat ?t) r dst = Arrived x \<and> journey env 255 x (source_addr env r src dst) = Arrived r)"
    unfolding w'(2) using t(1) stuck sent_request(1) [of r env src dst "unat ?t"] by (auto simp: ping_codes simp del: icmp_sent.simps)
  with w'(1) show ?thesis unfolding t(2) icmp_ping_def by blast
qed

section \<open>Traceroute\<close>

lemma ping_hop:
  assumes laws: "gds_fifo_laws ops" and ok: "fwd_ok env" and node: "net_nodes (ip_network env) r = Some node" and depth: "3 \<le> depth"
  shows "\<exists>error w' hop. icmp_ping_send_recv ops depth env r src dst t w = Some (error, w') \<and> trace_route_hop env error w' = Some hop"
proof -
  let ?m = "\<lparr>icmp_type = ICMP_ECHO_REQUEST, icmp_node = r\<rparr>"
  obtain w' where w': "icmp_ping_send_recv ops depth env r src dst t w =
      Some (if unsendable env r dst then ENET_HOST_UNREACH else ping_reply r (rcvd w'), w')"
    "rcvd w' = icmp_sent 3 env ?m r src dst (if t = 0 then 255 else unat t) None"
    by (rule ping_eq [OF assms])
  have sender: "net_nodes (ip_network env) (icmp_node (rc_msg ctx)) \<noteq> None" if "rcvd w' = Some ctx" for ctx
    using sent_sender [OF ok, of r ?m 3 src dst _ None ctx] node that w'(2) by auto
  have silent: "trace_route_hop env e w' = Some None" if "e = ENET_HOST_UNREACH \<or> e = ENET_NO_REPLY" for e
    using that by (auto simp: trace_route_hop_def ping_codes)
  have "\<exists>hop. trace_route_hop env (ping_reply r (rcvd w')) w' = Some hop"
  proof (cases "rcvd w'")
    case None
    then show ?thesis using silent by (simp add: ping_reply_def)
  next
    case (Some ctx)
    then show ?thesis using sender [OF Some] by (auto simp: trace_route_hop_def)
  qed
  then show ?thesis using w'(1) silent by (cases "unsendable env r dst") simp_all
qed

text \<open>The result of the probe with a time to live.\<close>

definition probe_error :: "('t, 'p, 'u) ip_env \<Rightarrow> net_addr \<Rightarrow> net_addr \<Rightarrow> net_addr \<Rightarrow> nat \<Rightarrow> int" where
  "probe_error env r src dst t =
     (if unsendable env r dst then ENET_HOST_UNREACH
      else ping_reply r (icmp_sent 3 env \<lparr>icmp_type = ICMP_ECHO_REQUEST, icmp_node = r\<rparr> r src dst t None))"

lemma ping_probe:
  assumes "gds_fifo_laws ops" "fwd_ok env" "net_nodes (ip_network env) r = Some node" "3 \<le> depth" "t \<noteq> 0"
  obtains w' hop where "icmp_ping_send_recv ops depth env r src dst t w = Some (probe_error env r src dst (unat t), w')"
    "trace_route_hop env (probe_error env r src dst (unat t)) w' = Some hop"
proof -
  obtain w1 where w1: "icmp_ping_send_recv ops depth env r src dst t w =
      Some (if unsendable env r dst then ENET_HOST_UNREACH else ping_reply r (rcvd w1), w1)"
    "rcvd w1 = icmp_sent 3 env \<lparr>icmp_type = ICMP_ECHO_REQUEST, icmp_node = r\<rparr> r src dst (if t = 0 then 255 else unat t) None"
    by (rule ping_eq [OF assms(1-4)])
  then have "icmp_ping_send_recv ops depth env r src dst t w = Some (probe_error env r src dst (unat t), w1)"
    using assms(5) by (simp add: probe_error_def)
  moreover obtain error w2 hop where "icmp_ping_send_recv ops depth env r src dst t w = Some (error, w2)" "trace_route_hop env error w2 = Some hop"
    using ping_hop [OF assms(1-4)] by blast
  ultimately show thesis by (intro that) auto
qed

lemma trace_loop_returns:
  assumes laws: "gds_fifo_laws ops" and ok: "fwd_ok env" and node: "net_nodes (ip_network env) r = Some node" and depth: "3 \<le> depth"
    and max: "max_ttl \<noteq> (255 :: 8 word)" and start: "t \<noteq> 0" "t \<le> max_ttl"
  shows "\<exists>k hops w'. trace_route_loop ops depth env r src dst max_ttl t error trace w = Some (probe_error env r src dst k, trace @ hops, w')
    \<and> unat t \<le> k \<and> k \<le> unat max_ttl \<and> length hops = Suc k - unat t
    \<and> (\<forall>i\<in>{unat t..<k}. probe_error env r src dst i = ENET_ICMP_TIME_EXCEEDED)
    \<and> (probe_error env r src dst k \<noteq> ENET_ICMP_TIME_EXCEEDED \<or> k = unat max_ttl)"
  using start
proof (induction "unat max_ttl - unat t" arbitrary: t error trace w rule: less_induct)
  case less
  let ?probe = "probe_error env r src dst"
  have le: "unat t \<le> unat max_ttl" using less.prems(2) by (simp add: word_le_nat_alt)
  moreover have "unat max_ttl \<noteq> 255" "unat max_ttl < 256" using max unsigned_less [of max_ttl] by (simp_all add: word_unat_eq_iff)
  ultimately have t1: "unat (t + 1) = Suc (unat t)" by (simp add: unat_word_ariths)
  obtain w1 hop where ping: "icmp_ping_send_recv ops depth env r src dst t w = Some (?probe (unat t), w1)"
    "trace_route_hop env (?probe (unat t)) w1 = Some hop" by (rule ping_probe [OF laws ok node depth less.prems(1)])
  have step: "trace_route_loop ops depth env r src dst max_ttl t error trace w =
      (if ?probe (unat t) \<noteq> ENET_ICMP_TIME_EXCEEDED then Some (?probe (unat t), trace @ [hop], w1)
       else trace_route_loop ops depth env r src dst max_ttl (t + 1) (?probe (unat t)) (trace @ [hop]) w1)"
    using ping less.prems(2) by (subst trace_route_loop.simps) simp
  consider (ends) "?probe (unat t) \<noteq> ENET_ICMP_TIME_EXCEEDED" | (limit) "?probe (unat t) = ENET_ICMP_TIME_EXCEEDED" "t = max_ttl"
    | (next_hop) "?probe (unat t) = ENET_ICMP_TIME_EXCEEDED" "unat t < unat max_ttl"
    using le by (metis le_neq_implies_less word_unat_eq_iff)
  then show ?case
  proof cases
    case ends
    then show ?thesis using step le by (intro exI [of _ "unat t"] exI [of _ "[hop]"] exI [of _ w1]) simp
  next
    case limit
    then have "\<not> t + 1 \<le> max_ttl" using t1 by (simp add: word_le_nat_alt)
    then have "trace_route_loop ops depth env r src dst max_ttl (t + 1) (?probe (unat t)) (trace @ [hop]) w1
        = Some (?probe (unat t), trace @ [hop], w1)" by (subst trace_route_loop.simps) simp
    with step limit show ?thesis by (intro exI [of _ "unat t"] exI [of _ "[hop]"] exI [of _ w1]) simp
  next
    case next_hop
    have "unat max_ttl - unat (t + 1) < unat max_ttl - unat t" "t + 1 \<noteq> 0" "t + 1 \<le> max_ttl"
      using next_hop(2) t1 by (auto simp: word_le_nat_alt word_unat_eq_iff simp del: unat_eq_0)
    from less.hyps [OF this, of "?probe (unat t)" "trace @ [hop]" w1] obtain k hops w' where
      k: "trace_route_loop ops depth env r src dst max_ttl (t + 1) (?probe (unat t)) (trace @ [hop]) w1 = Some (?probe k, (trace @ [hop]) @ hops, w')"
        "Suc (unat t) \<le> k" "k \<le> unat max_ttl" "length hops = Suc k - Suc (unat t)"
        "\<forall>i\<in>{Suc (unat t)..<k}. ?probe i = ENET_ICMP_TIME_EXCEEDED" "?probe k \<noteq> ENET_ICMP_TIME_EXCEEDED \<or> k = unat max_ttl"
      unfolding t1 by blast
    have "?probe i = ENET_ICMP_TIME_EXCEEDED" if "unat t \<le> i" "i < k" for i
      using k(5) next_hop(1) that by (cases "i = unat t") auto
    with k(1-4,6) step next_hop(1) show ?thesis by (intro exI [of _ k] exI [of _ "hop # hops"] exI [of _ w']) auto
  qed
qed

text \<open>When every probe expires and the error comes back, the loop runs for all values of the counter.\<close>

lemma trace_loop_forever:
  fixes ops :: "(iface_ptr \<times> 'p net_msg) fifo_ops" and env :: "('t, 'p, 'u) ip_env"
  assumes laws: "gds_fifo_laws ops" and ok: "fwd_ok env" and node: "net_nodes (ip_network env) r = Some node" and depth: "3 \<le> depth"
    and lost: "\<And>t. \<exists>x. journey env t r dst = Expired x \<and> journey env 255 x (source_addr env r src dst) = Arrived r"
  shows "trace_route_loop ops depth env r src dst 255 t error trace w = None"
proof -
  have able: "\<not> unsendable env r dst" using lost [of 0] by (auto simp: unsendable_def journey_def)
  have ping: "\<exists>w'. icmp_ping_send_recv ops depth env r src dst t w = Some (ENET_ICMP_TIME_EXCEEDED, w')" for t and w :: "('p, 'u) ip_world"
    by (rule ping_eq [OF laws ok node depth, of src dst t w]) (use able lost sent_request(2) in fastforce)
  define same where "same = (\<lambda>ops' d env' r' src' dst' max (t :: 8 word) (error :: int) (trace :: trace_hop list) (w :: ('p, 'u) ip_world)
    (res :: int \<times> trace_hop list \<times> ('p, 'u) ip_world). \<not> (ops' = ops \<and> d = depth \<and> env' = env \<and> r' = r \<and> src' = src \<and> dst' = dst \<and> max = (255 :: 8 word)))"
  have "same ops depth env r src dst 255 t error trace w res"
    if "trace_route_loop ops depth env r src dst 255 t error trace w = Some res" for res
  proof (rule trace_route_loop.raw_induct [of same, OF _ that])
    fix loop ops' d env' r' src' dst' max t error trace w res
    assume IH: "\<And>ops d env r src dst max t error trace w res. loop ops d env r src dst max t error trace w = Some res \<Longrightarrow>
        same ops d env r src dst max t error trace w res"
      and step: "(if t \<le> max then do {
          (error, w) \<leftarrow> icmp_ping_send_recv ops' d env' r' src' dst' t w;
          hop \<leftarrow> trace_route_hop env' error w;
          if error \<noteq> ENET_ICMP_TIME_EXCEEDED then Some (error, trace @ [hop], w)
          else loop ops' d env' r' src' dst' max (t + 1) error (trace @ [hop]) w
        } else Some (error, trace, w)) = Some res"
    show "same ops' d env' r' src' dst' max t error trace w res"
      unfolding same_def
    proof
      assume eq: "ops' = ops \<and> d = depth \<and> env' = env \<and> r' = r \<and> src' = src \<and> dst' = dst \<and> max = 255"
      obtain w1 where "icmp_ping_send_recv ops depth env r src dst t w = Some (ENET_ICMP_TIME_EXCEEDED, w1)" using ping by blast
      moreover have "t \<le> 255" using unsigned_less [of t, where ?'a = nat] by (simp add: word_le_nat_alt)
      ultimately obtain hop where "loop ops depth env r src dst 255 (t + 1) ENET_ICMP_TIME_EXCEEDED (trace @ [hop]) w1 = Some res"
        using step eq by (auto elim!: bind_SomeE split: if_splits)
      from IH [OF this] show False by (simp add: same_def)
    qed
  qed
  moreover have "\<not> same ops depth env r src dst 255 t error trace w res" for res by (simp add: same_def)
  ultimately show ?thesis by (cases "trace_route_loop ops depth env r src dst 255 t error trace w") blast+
qed

section \<open>Two routers\<close>

text \<open>Two routers, numbered 1 and 2, with the given routing tables, joined by a link.\<close>

definition duo_link :: "net_addr \<Rightarrow> net_addr \<Rightarrow> net_iface" where
  "duo_link r q = (fresh_iface (net_iface_id_addr q) NET_IFACE_RTR)\<lparr>iface_dest := Some (DstIface (q, r)), iface_connected := True\<rparr>"

definition duo_loop :: "net_addr \<Rightarrow> net_iface" where
  "duo_loop r = fresh_iface (net_iface_id_addr r) NET_IFACE_LOOPBACK"

definition duo_nodes :: "'t \<Rightarrow> 't \<Rightarrow> 't network_t" where
  "duo_nodes t1 t2 = \<lparr>net_nodes = [1 \<mapsto> \<lparr>node_rid = 1, ifaces = [duo_loop 1], node_rt = t1, node_domains = []\<rparr>,
     2 \<mapsto> \<lparr>node_rid = 2, ifaces = [duo_loop 2], node_rt = t2, node_domains = []\<rparr>], net_subnets = Map.empty\<rparr>"

definition duo :: "'t \<Rightarrow> 't \<Rightarrow> 't network_t" where
  "duo t1 t2 = \<lparr>net_nodes = [1 \<mapsto> \<lparr>node_rid = 1, ifaces = [duo_loop 1, duo_link 1 2], node_rt = t1, node_domains = []\<rparr>,
     2 \<mapsto> \<lparr>node_rid = 2, ifaces = [duo_link 2 1, duo_loop 2], node_rt = t2, node_domains = []\<rparr>], net_subnets = Map.empty\<rparr>"

lemma duo_nodes_run: "topo_run sample_net_env (duo_nodes t1 t2)"
proof -
  have create: "node_create sample_net_env t r True = Some (Inr \<lparr>node_rid = r, ifaces = [duo_loop r], node_rt = t, node_domains = []\<rparr>)"
    if "r \<noteq> 0" for r and t :: 't
    using that by (simp add: node_create_def duo_loop_def net_iface_factory_eq mask_allowed_def net_iface_id_addr_def net_links_add_def
        sample_net_env_def IP_ADDR_ANY_def)
  have "duo_nodes t1 t2 = snd (network_add_node \<lparr>node_rid = 2, ifaces = [duo_loop 2], node_rt = t2, node_domains = []\<rparr>
      (snd (network_add_node \<lparr>node_rid = 1, ifaces = [duo_loop 1], node_rt = t1, node_domains = []\<rparr> network_create)))"
    by (simp add: duo_nodes_def network_add_node_def network_find_node_def network_create_def)
  then show ?thesis
    by (auto intro!: run_step [OF run_step [OF run_create step_node [OF create]] step_node [OF create]])
qed

lemma duo_built: "net_link_create_rtr sample_net_env 1 2 BIDIR (duo_nodes t1 t2) = Some (ESUCCESS, duo t1 t2)"
  by (simp add: net_link_create_rtr_def on_success_def net_link_create_iface_def node_find_iface_def duo_nodes_def duo_def duo_loop_def duo_link_def
     net_links_find_def net_iface_id_addr_def fresh_iface_def net_iface_factory_eq mask_allowed_def node_add_iface2_def net_links_add_def sample_net_env_def
     net_links_link_compare_def net_link_connect_def net_iface_connect_iface_def iface_at_def iface_modify_def)

text \<open>Both have a default route to the other one.\<close>

definition default_route :: "net_addr \<Rightarrow> rt_info" where
  "default_route a = \<lparr>rt_prefix = \<lparr>network = 0, mask = 0\<rparr>, metric = 0, entries = [\<lparr>oif = Some \<lparr>if_id = 0, if_addr = a\<rparr>, gateway = 0\<rparr>],
     rt_type = NET_ROUTE_STATIC\<rparr>"

definition duo_env :: "(rt_info list alist_trie, unit, unit) ip_env" where
  "duo_env = \<lparr>ip_rt = alist_rt_env,
     ip_network = duo [(\<lparr>network = 0, mask = 0\<rparr>, [default_route 2])] [(\<lparr>network = 0, mask = 0\<rparr>, [default_route 1])],
     ip_protocols = (\<lambda>_. [NET_PROTOCOL_ICMP]), ip_tunnels = (\<lambda>_. None), ip_upper = (\<lambda>_ _ _. None)\<rparr>"

definition duo_world :: "(unit, unit) ip_world" where
  "duo_world = \<lparr>posted = [], rcvd = None, upper = ()\<rparr>"

lemma duo_lookup:
  "node_rt_lookup2 alist_rt_env [(\<lparr>network = 0, mask = 0\<rparr>, [default_route a])] dst = Some (Some (default_route a))"
  by (simp add: node_rt_lookup2_def rt_find_best_def alist_rt_env_def alist_trie_ops_def first_of_type_def default_route_def
      NET_ROUTE_STATIC_def NET_ROUTE_ANY_def pfx_covers_def ip_prefix_in_prefix_def)

lemma duo_ifaces:
  "iface_at (ip_network duo_env) (1, 2) = Some (duo_link 1 2)" "iface_at (ip_network duo_env) (2, 1) = Some (duo_link 2 1)"
  "is_local duo_env 1 a \<longleftrightarrow> a = 1" "is_local duo_env 2 a \<longleftrightarrow> a = 2"
  by (auto simp: duo_env_def duo_def duo_link_def duo_loop_def fresh_iface_def net_iface_id_addr_def iface_at_def net_links_find_def
      is_local_def node_has_address_def net_iface_has_address_def)

lemma duo_route: "rt_lookup duo_env 1 a = Some (default_route 2)" "rt_lookup duo_env 2 a = Some (default_route 1)"
  by (simp_all add: rt_lookup_def duo_env_def duo_def duo_lookup)

lemma duo_fwd_ok: "fwd_ok duo_env"
proof -
  have "topo_run sample_net_env (ip_network duo_env)"
    unfolding duo_env_def by (simp, rule run_step [OF duo_nodes_run step_rtr [OF _ _ duo_built]]) (simp_all add: duo_nodes_def)
  then have "topo_ok (ip_network duo_env)" by (rule sample_arrays.topo_run_ok)
  moreover have "route_ok duo_env 1 (default_route 2)" "route_ok duo_env 2 (default_route 1)"
    by (simp_all add: route_ok_def default_route_def sends_on_def duo_ifaces duo_link_def fresh_iface_def net_iface_src_address_def IP_ADDR_ANY_def)
  moreover have "node_rt_lookup2 (ip_rt duo_env) (node_rt node) a \<noteq> None" "r = 1 \<or> r = 2"
    if "net_nodes (ip_network duo_env) r = Some node" for r node a
    using that by (auto simp: duo_env_def duo_def duo_lookup split: if_splits)
  moreover have "ip_tunnels duo_env q = None" "NET_PROTOCOL_ICMP \<in> set (ip_protocols duo_env r)" for q r
    by (simp_all add: duo_env_def)
  ultimately show ?thesis
    unfolding fwd_ok_def by (metis (lifting) duo_route option.inject)
qed

lemma duo_depart: "depart duo_env 1 a = To (2, 1)" "depart duo_env 2 a = To (1, 2)"
  by (simp_all add: depart_def duo_route egress_def default_route_def link_end_def duo_ifaces duo_link_def fresh_iface_def
      net_iface_is_connected_def net_iface_is_enabled_def net_iface_get_flag_def NET_LINK_FLAG_UP_def)

lemma duo_walk: "walk duo_env t 1 9 \<in> {Expired 1, Expired 2} \<and> walk duo_env t 2 9 \<in> {Expired 1, Expired 2}"
  by (induction t) (auto simp: duo_ifaces duo_depart)

lemma duo_back: "x = 1 \<or> x = 2 \<Longrightarrow> journey duo_env 255 x 1 = Arrived 1" "journey duo_env 255 1 2 = Arrived 2"
  by (auto simp: journey_def duo_ifaces duo_depart numeral_eq_Suc)

lemma duo_source: "source_addr duo_env 1 0 2 = 1" "source_addr duo_env 1 0 9 = 1"
  by (simp_all add: source_addr_def IP_ADDR_ANY_def duo_ifaces duo_route egress_def default_route_def net_iface_src_address_def duo_link_def fresh_iface_def)

lemma duo_node: "\<exists>node. net_nodes (ip_network duo_env) 1 = Some node"
  by (simp add: duo_env_def duo_def)

section \<open>Properties\<close>

text \<open>C23: A ping over a network without tunnels returns, with a stack of three nested sends and at most 1024 events: its result is the one the
  path of the request, of its reply and of the errors they cause determine.\<close>

theorem ping_refines:
  assumes "gds_fifo_laws ops" "fwd_ok env" "net_nodes (ip_network env) r = Some node" "3 \<le> depth"
  shows "\<exists>w'. icmp_ping_send_recv ops depth env r src dst t w =
      Some (if unsendable env r dst then ENET_HOST_UNREACH
            else ping_reply r (icmp_sent 3 env \<lparr>icmp_type = ICMP_ECHO_REQUEST, icmp_node = r\<rparr> r src dst (if t = 0 then 255 else unat t) None), w')"
  by (rule ping_eq [OF assms, of src dst t w]) auto

theorem ping_refines_witness:
  "\<exists>w'. icmp_ping_send_recv ring_ops 3 duo_env 1 0 2 0 duo_world = Some (ESUCCESS, w')"
proof -
  obtain node where "net_nodes (ip_network duo_env) 1 = Some node" using duo_node by blast
  from ping_refines [OF ring.gds_fifo_laws_axioms duo_fwd_ok this, of 3 0 2 0 duo_world]
  show ?thesis
    using sent_request(1) [of 1 duo_env 0 2 255] duo_back by (auto simp: unsendable_def duo_depart duo_source simp del: icmp_sent.simps)
qed

text \<open>C24: In a network without tunnels, with ICMP on every node and routes whose interfaces and gateways can be resolved, a ping succeeds
  exactly when the request arrives at a node and a message from there to the source address of the request arrives at the sender.\<close>

theorem ping_success:
  assumes "gds_fifo_laws ops" "fwd_ok env" "net_nodes (ip_network env) r = Some node" "3 \<le> depth"
  shows "\<exists>e w'. icmp_ping ops depth env r src dst t w = Some (e, w')
    \<and> (e = ESUCCESS \<longleftrightarrow> (\<exists>x. journey env (if t = 0 then 255 else unat t) r dst = Arrived x
                          \<and> journey env 255 x (source_addr env r src dst) = Arrived r))"
  by (rule ping_result [OF assms])

theorem ping_success_witness:
  "\<exists>w'. icmp_ping ring_ops 3 duo_env 1 0 2 0 duo_world = Some (ESUCCESS, w')"
proof -
  obtain node where "net_nodes (ip_network duo_env) 1 = Some node" using duo_node by blast
  from ping_success [OF ring.gds_fifo_laws_axioms duo_fwd_ok this, of 3 0 2 0 duo_world]
  show ?thesis using duo_back by (auto simp: duo_source)
qed

text \<open>C25: In a network without tunnels, with ICMP on every node and routes whose interfaces and gateways can be resolved, a traceroute
  with a limit between 1 and 254 returns.  It sends probes with the times to live from 1 up to some \<open>k\<close> within the limit and records one
  hop for each after the sender; all probes before the last one expire, the result is that of the last one, and this one does not expire
  unless the limit is reached.  The result of a probe is that of a ping with its time to live.  Without these conditions on the network
  a probe need not return, and with the limit 255 the loop need not end.\<close>

theorem trace_route_returns:
  assumes "gds_fifo_laws ops" "fwd_ok env" "net_nodes (ip_network env) r = Some node" "3 \<le> depth" "max_ttl \<noteq> 0" "max_ttl \<noteq> 255"
  shows "\<exists>k hops w'. icmp_trace_route ops depth env r src dst max_ttl w = Some (probe_error env r src dst k, Some (r, None) # hops, w')
    \<and> 1 \<le> k \<and> k \<le> unat max_ttl \<and> length hops = k
    \<and> (\<forall>i. 1 \<le> i \<longrightarrow> i < k \<longrightarrow> probe_error env r src dst i = ENET_ICMP_TIME_EXCEEDED)
    \<and> (probe_error env r src dst k \<noteq> ENET_ICMP_TIME_EXCEEDED \<or> k = unat max_ttl)"
proof -
  have "1 \<le> max_ttl" using assms(5) by (simp add: word_le_nat_alt Suc_le_eq word_greater_zero_iff [symmetric] word_less_nat_alt)
  from trace_loop_returns [OF assms(1-4,6) _ this, of src dst EUNEXPECTED "[Some (r, None)]" w]
  show ?thesis using assms(5) by (auto simp: icmp_trace_route_def)
qed

theorem trace_route_returns_witness:
  "\<exists>k hops w'. icmp_trace_route ring_ops 3 duo_env 1 0 9 30 duo_world = Some (probe_error duo_env 1 0 9 k, Some (1, None) # hops, w')
    \<and> 1 \<le> k \<and> k \<le> 30 \<and> length hops = k"
proof -
  obtain node where "net_nodes (ip_network duo_env) 1 = Some node" using duo_node by blast
  from trace_route_returns [OF ring.gds_fifo_laws_axioms duo_fwd_ok this, of 3 30 0 9 duo_world] show ?thesis by auto
qed

text \<open>C26: A traceroute with the default limit never returns when every probe expires and the error comes back, as in a forwarding
  loop: the eight-bit counter never exceeds 255.\<close>

theorem trace_route_never_returns:
  assumes "gds_fifo_laws ops" "fwd_ok env" "net_nodes (ip_network env) r = Some node" "3 \<le> depth" "max_ttl \<in> {0, 255}"
    "\<And>t. \<exists>x. journey env t r dst = Expired x \<and> journey env 255 x (source_addr env r src dst) = Arrived r"
  shows "icmp_trace_route ops depth env r src dst max_ttl w = None"
  using trace_loop_forever [OF assms(1-4,6)] assms(5) by (auto simp: icmp_trace_route_def)

theorem trace_route_never_returns_witness:
  "icmp_trace_route ring_ops 3 duo_env 1 0 9 0 duo_world = None"
proof -
  obtain node where node: "net_nodes (ip_network duo_env) 1 = Some node" using duo_node by blast
  have lost: "\<exists>x. journey duo_env t 1 9 = Expired x \<and> journey duo_env 255 x (source_addr duo_env 1 0 9) = Arrived 1" for t
  proof -
    obtain x where "x = 1 \<or> x = 2" "walk duo_env t 2 9 = Expired x" using duo_walk [of t] by blast
    then show ?thesis using duo_back(1) [of x] by (intro exI [of _ x]) (simp add: journey_def duo_ifaces duo_depart duo_source)
  qed
  show ?thesis by (rule trace_route_never_returns [OF ring.gds_fifo_laws_axioms duo_fwd_ok node _ _ lost]) simp_all
qed

text \<open>A tunnel whose end point is itself routed through the tunnel.\<close>

definition tunnel_loop :: "('t, 'p, 'u) ip_env \<Rightarrow> net_addr \<Rightarrow> net_addr \<Rightarrow> bool" where
  "tunnel_loop env r end_point \<longleftrightarrow>
     (\<exists>node info e oi i ctx. net_nodes (ip_network env) r = Some node \<and> node_local_iface node end_point = None
        \<and> node_rt_lookup2 (ip_rt env) (node_rt node) end_point = Some (Some info) \<and> entries info \<noteq> [] \<and> e = entries info ! 0 \<and> oif e = Some oi
        \<and> iface_at (ip_network env) (r, if_addr oi) = Some i \<and> net_iface_is_connected i \<and> net_iface_is_enabled i
        \<and> iface_dest i = Some (DstEndPoint end_point) \<and> ip_tunnels env (r, if_addr oi) = Some ctx \<and> ipip_oif ctx = None)"

lemma tunnel_step:
  assumes "tunnel_loop env r end_point" "dst_addr msg = end_point"
  obtains msg' where "dst_addr msg' = end_point"
    "ip_send (Suc n) env r msg w = map_option (\<lambda>(e, w). (ESUCCESS, w)) (ip_send n env r msg' w)"
proof -
  note finish = that
  obtain node info oi i ctx where t: "net_nodes (ip_network env) r = Some node" "node_local_iface node end_point = None"
      "node_rt_lookup2 (ip_rt env) (node_rt node) end_point = Some (Some info)" "entries info \<noteq> []" "oif (entries info ! 0) = Some oi"
      "iface_at (ip_network env) (r, if_addr oi) = Some i" "net_iface_is_connected i" "net_iface_is_enabled i"
      "iface_dest i = Some (DstEndPoint end_point)" "ip_tunnels env (r, if_addr oi) = Some ctx" "ipip_oif ctx = None"
    using assms(1) unfolding tunnel_loop_def by blast
  define inner where "inner = (if src_addr msg = IP_ADDR_ANY
      then NetMsg (net_iface_src_address (r, if_addr oi) i) (dst_addr msg) (ttl msg) (payload msg) else msg)"
  have "node_send env (ip_send n env) (ip_recv n env) r msg w =
      ip_send n env r (NetMsg (ipip_src_addr ctx) end_point 255 (IpipMsg inner)) w \<bind> (\<lambda>(e, w). Some (ESUCCESS, w))"
    using t assms(2)
    by (simp add: node_send_def node_ip_output_def net_iface_send_def ipip_iface_send_def message_create_def Let_def inner_def
        case_prod_unfold error_codes net_error_codes)
  then show thesis
    by (intro finish [of "NetMsg (ipip_src_addr ctx) end_point 255 (IpipMsg inner)"])
      (auto simp: map_option_case split: option.splits)
qed

text \<open>C27: A message for the end point of a tunnel that is routed through the tunnel itself is encapsulated again without end: every send
  needs another one for the same address, and no depth of the stack is enough.\<close>

theorem tunnel_recursion:
  assumes "tunnel_loop env r (dst_addr msg)"
  shows "ip_send n env r msg w = None
    \<and> (\<exists>msg'. dst_addr msg' = dst_addr msg
         \<and> ip_send (Suc n) env r msg w = map_option (\<lambda>(e, w). (ESUCCESS, w)) (ip_send n env r msg' w))"
proof
  show "\<exists>msg'. dst_addr msg' = dst_addr msg \<and> ip_send (Suc n) env r msg w = map_option (\<lambda>(e, w). (ESUCCESS, w)) (ip_send n env r msg' w)"
    by (rule tunnel_step [OF assms refl]) blast
  show "ip_send n env r msg w = None"
    using assms
  proof (induction n arbitrary: msg)
    case (Suc n)
    show ?case by (rule tunnel_step [OF Suc.prems refl, of n w]) (use Suc in simp)
  qed simp
qed

definition loop_env :: "(rt_info list alist_trie, unit, unit) ip_env" where
  "loop_env = snd (the (node_add_tunnel sample_net_env 1 5 9 None 0
     (duo_env\<lparr>ip_network := duo [(\<lparr>network = 0, mask = 0\<rparr>, [default_route 9])] []\<rparr>)))"

theorem tunnel_recursion_witness:
  "ip_send 1000 loop_env 1 (NetMsg 0 5 255 (RawMsg ())) duo_world = None"
proof -
  let ?tunnel = "(fresh_iface (net_iface_id_addr 9) NET_IFACE_VIRTUAL)\<lparr>iface_dest := Some (DstEndPoint 5), iface_connected := True\<rparr>"
  let ?rt = "[(\<lparr>network = 0, mask = 0\<rparr>, [default_route 9])]"
  have env: "ip_rt loop_env = alist_rt_env" "ip_tunnels loop_env (1, 9) = Some \<lparr>ipip_oif = None, ipip_src_addr = 0\<rparr>"
    "net_nodes (ip_network loop_env) 1 = Some \<lparr>node_rid = 1, ifaces = [duo_loop 1, duo_link 1 2, ?tunnel], node_rt = ?rt, node_domains = []\<rparr>"
    by (simp_all add: loop_env_def duo_env_def duo_def duo_loop_def duo_link_def fresh_iface_def net_iface_id_addr_def node_add_tunnel_def
        ipip_link_create_def IP_ADDR_ANY_def net_iface_factory_eq mask_allowed_def node_add_iface2_def net_links_add_def sample_net_env_def
        net_links_link_compare_def)
  have look: "node_rt_lookup2 alist_rt_env ?rt 5 = Some (Some (default_route 9))" by (rule duo_lookup)
  have "tunnel_loop loop_env 1 5"
    unfolding tunnel_loop_def
    by (intro exI [of _ "default_route 9"] exI [of _ "entries (default_route 9) ! 0"] exI [of _ "\<lparr>if_id = 0, if_addr = 9\<rparr>"]
        exI [of _ ?tunnel] exI [of _ "\<lparr>ipip_oif = None, ipip_src_addr = 0\<rparr>"]
        exI [of _ "\<lparr>node_rid = 1, ifaces = [duo_loop 1, duo_link 1 2, ?tunnel], node_rt = ?rt, node_domains = []\<rparr>"])
      (simp add: env look, simp add: default_route_def node_local_iface_def iface_at_def env net_links_find_def duo_loop_def duo_link_def
        fresh_iface_def net_iface_id_addr_def net_iface_has_address_def net_iface_is_connected_def net_iface_is_enabled_def
        net_iface_get_flag_def NET_LINK_FLAG_UP_def)
  with tunnel_recursion [of loop_env 1 "NetMsg 0 5 255 (RawMsg ())" 1000 duo_world] show ?thesis by simp
qed

end
