(* ===== verification/Igp_Routes.thy ===== *)
theory Igp_Routes imports Igp_Spt Net_Forward begin

text \<open>
  The routes an IGP domain installs (the second half of \<open>src/net/igp.c\<close>) and the domains themselves (\<open>src/net/igp_domain.c\<close>).  For every router of
  the domain the IGP routes are removed, the shortest-path tree is computed (\<open>Igp_Spt\<close>), a temporary table is filled by a traversal of the
  tree from its root along successors, and its routes are added to the routing table of the router (\<open>Net_Routing\<close>).  The temporary table,
  a radix tree of libgds, has the interface of the other tries; the stack of the traversal is a list with a bound.

  The lemmas are about domains of router-to-router links.  They relate the tables to distances in the graph of the domain, then forwarding
  (\<open>Net_Forward\<close>) to the tables: messages follow shortest paths and arrive, so that a ping between routers of the domain succeeds.
\<close>

unbundle bit_operations_syntax

section \<open>Domains\<close>

datatype igp_domain_type = IGP_DOMAIN_IGP | IGP_DOMAIN_OSPF

text \<open>The set of routers is a trie of nodes, a parameter like the other tries.\<close>

record 'd igp_domain =
  domain_id :: "16 word"
  domain_type :: igp_domain_type
  domain_routers :: 'd

definition igp_domain_create :: "('d, net_addr) trie_ops \<Rightarrow> 16 word \<Rightarrow> igp_domain_type \<Rightarrow> 'd igp_domain" where
  "igp_domain_create dops i type = \<lparr>domain_id = i, domain_type = type, domain_routers = trie_create dops\<rparr>"

text \<open>The identifiers of the domains of a node are a sorted array without duplicates; the result of adding to it is the result.\<close>

definition node_igp_domain_add :: "16 word sorted_add \<Rightarrow> net_addr \<Rightarrow> 16 word \<Rightarrow> 't network_t \<Rightarrow> (bool \<times> 't network_t) option" where
  "node_igp_domain_add iadd r i net = do {
     node \<leftarrow> net_nodes net r;
     case iadd (node_domains node) i of
       None \<Rightarrow> Some (False, net)
     | Some ids \<Rightarrow> Some (True, net\<lparr>net_nodes := (net_nodes net)(r \<mapsto> node\<lparr>node_domains := ids\<rparr>)\<rparr>)
   }"

definition node_belongs_to_igp_domain :: "'t net_node \<Rightarrow> 16 word \<Rightarrow> bool" where
  "node_belongs_to_igp_domain node i \<longleftrightarrow> i \<in> set (node_domains node)"

definition igp_domain_add_router ::
    "('d, net_addr) trie_ops \<Rightarrow> 16 word sorted_add \<Rightarrow> net_addr \<Rightarrow> 'd igp_domain \<Rightarrow> 't network_t \<Rightarrow> (bool \<times> 'd igp_domain \<times> 't network_t) option" where
  "igp_domain_add_router dops iadd r domain net = do {
     node \<leftarrow> net_nodes net r;
     let domain = domain\<lparr>domain_routers := fst (trie_insert dops (domain_routers domain) \<lparr>network = node_rid node, mask = 32\<rparr> r False)\<rparr>;
     (added, net) \<leftarrow> node_igp_domain_add iadd r (domain_id domain) net;
     Some (added, domain, net)
   }"

definition routers_of :: "('d, net_addr) trie_ops \<Rightarrow> 'd igp_domain \<Rightarrow> net_addr list" where
  "routers_of dops domain = map snd (trie_entries dops (domain_routers domain))"

definition igp_domains_cmp :: "'d igp_domain \<Rightarrow> 'd igp_domain \<Rightarrow> int" where
  "igp_domains_cmp domain1 domain2 =
     (if domain_id domain1 > domain_id domain2 then 1 else if domain_id domain1 < domain_id domain2 then -1 else 0)"

definition igp_domains_find :: "'d igp_domain list \<Rightarrow> 16 word \<Rightarrow> 'd igp_domain option" where
  "igp_domains_find domains i = find (\<lambda>domain. domain_id domain = i) domains"

definition igp_domains_add :: "'d igp_domain sorted_add \<Rightarrow> 'd igp_domain list \<Rightarrow> 'd igp_domain \<Rightarrow> int \<times> 'd igp_domain list" where
  "igp_domains_add dadd domains domain = (case dadd domains domain of None \<Rightarrow> (-1, domains) | Some ds \<Rightarrow> (0, ds))"

definition ENET_IGP_DOMAIN_DUPLICATE :: int where "ENET_IGP_DOMAIN_DUPLICATE = -205"

definition network_add_igp_domain :: "'d igp_domain sorted_add \<Rightarrow> 'd igp_domain list \<Rightarrow> 'd igp_domain \<Rightarrow> int \<times> 'd igp_domain list" where
  "network_add_igp_domain dadd domains domain =
     (if igp_domains_find domains (domain_id domain) \<noteq> None then (ENET_IGP_DOMAIN_DUPLICATE, domains)
      else let (result, domains) = igp_domains_add dadd domains domain in (if result < 0 then EUNEXPECTED else ESUCCESS, domains))"

section \<open>Routes of a tree\<close>

text \<open>The containers the computation uses: the routing tables, the temporary table of the routes of a router, and the arrays of
  vertices.\<close>

record ('t, 'f) igp_env =
  igp_rt :: "'t rt_env"
  igp_fib :: "('f, rt_info) trie_ops"
  igp_vadd :: "ip_pfx sorted_add"

text \<open>The size of the stack of the traversal of a tree.\<close>

definition FIB_STACK_DEPTH :: nat where "FIB_STACK_DEPTH = 10000"

text \<open>Within its node an interface is identified by its address.\<close>

definition iface_ref_of :: "net_addr \<Rightarrow> iface_ref" where
  "iface_ref_of a = \<lparr>if_id = unat a, if_addr = a\<rparr>"

definition rt_entry_create :: "net_addr \<Rightarrow> net_addr \<Rightarrow> rt_entry" where
  "rt_entry_create a gw = \<lparr>oif = Some (iface_ref_of a), gateway = gw\<rparr>"

text \<open>The route is changed in place: a change is a replacement in the table.\<close>

definition spt_install_fib_entry :: "('t, 'f) igp_env \<Rightarrow> 'f \<Rightarrow> ip_pfx \<Rightarrow> 32 word \<Rightarrow> rt_entry \<Rightarrow> 'f option" where
  "spt_install_fib_entry env fib prefix w rtentry = do {
     prefix \<leftarrow> ip_prefix_mask prefix;
     (fib, rtinfo) \<leftarrow> (case trie_find_exact (igp_fib env) fib prefix of
        Some rtinfo \<Rightarrow> Some (fib, rtinfo)
      | None \<Rightarrow>
          let rtinfo = rt_info_create prefix w NET_ROUTE_IGP; (fib, result) = trie_insert (igp_fib env) fib prefix rtinfo False in do {
          assert_opt (result \<ge> 0);
          Some (fib, rtinfo)
        });
     let (result, es) = rt_entries_add (igp_rt env) (entries rtinfo) rtentry;
     Some (fst (trie_insert (igp_fib env) fib prefix (rtinfo\<lparr>entries := es\<rparr>) True))
   }"

fun install_ifaces :: "('t, 'f) igp_env \<Rightarrow> 32 word \<Rightarrow> rt_entry \<Rightarrow> net_iface list \<Rightarrow> 'f \<Rightarrow> 'f option" where
  "install_ifaces env w rtentry [] fib = Some fib"
| "install_ifaces env w rtentry (iface # is) fib =
     (if iface_type iface \<noteq> NET_IFACE_LOOPBACK \<and> iface_type iface \<noteq> NET_IFACE_VIRTUAL then install_ifaces env w rtentry is fib
      else do {
        m \<leftarrow> net_iface_get_metric iface 0;
        fib \<leftarrow> spt_install_fib_entry env fib (net_iface_dst_prefix iface) (net_igp_add_weights w m) rtentry;
        install_ifaces env w rtentry is fib
      })"

definition spt_install_fib :: "('t, 'f) igp_env \<Rightarrow> 't network_t \<Rightarrow> spt_vertex \<Rightarrow> rt_entry \<Rightarrow> 'f \<Rightarrow> 'f option" where
  "spt_install_fib env net vertex rtentry fib =
     (case elem vertex of
        NODE r \<Rightarrow> do {
          node \<leftarrow> net_nodes net r;
          install_ifaces env (weight vertex) rtentry (ifaces node) fib
        }
      | _ \<Rightarrow> spt_install_fib_entry env fib (vertex_id vertex) (weight vertex) rtentry)"

text \<open>The entry for a successor: the first interface on the path, and the address on the subnet when the path starts with one.\<close>

definition succ_entry :: "'t network_t \<Rightarrow> net_addr \<Rightarrow> spt_vertex \<Rightarrow> rt_entry option \<Rightarrow> spt_vertex \<Rightarrow> rt_entry option" where
  "succ_entry net rid vertex rtentry succ =
     (case rtentry of
        None \<Rightarrow>
          (case elem vertex of
             NODE r \<Rightarrow> do {
               node \<leftarrow> net_nodes net r;
               iface \<leftarrow> node_find_iface_to node (elem succ);
               iface \<leftarrow> iface;
               Some (rt_entry_create (iface_addr iface) IP_ADDR_ANY)
             }
           | _ \<Rightarrow> None)
      | Some rtentry \<Rightarrow> do {
          o' \<leftarrow> oif rtentry;
          i \<leftarrow> iface_at net (rid, if_addr o');
          if iface_type i = NET_IFACE_PTMP \<and> gateway rtentry = IP_ADDR_ANY
          then (case elem vertex of
                  SUBNET p \<Rightarrow> do {
                    subnet \<leftarrow> net_subnets net p;
                    iface \<leftarrow> subnet_find_iface_to subnet (elem succ);
                    Some (rt_entry_create (if_addr o') (snd iface))
                  }
                | _ \<Rightarrow> None)
          else Some rtentry
        })"

fun fib_succs ::
    "('t, 'f) igp_env \<Rightarrow> 't network_t \<Rightarrow> net_addr \<Rightarrow> spt_tree \<Rightarrow> spt_vertex \<Rightarrow> rt_entry option \<Rightarrow> ip_pfx list \<Rightarrow>
       'f \<times> (ip_pfx \<times> rt_entry option) list \<Rightarrow> ('f \<times> (ip_pfx \<times> rt_entry option) list) option" where
  "fib_succs env net rid tree vertex rtentry [] (fib, stack) = Some (fib, stack)"
| "fib_succs env net rid tree vertex rtentry (s # ss) (fib, stack) = do {
     succ \<leftarrow> tree s;
     new_rtentry \<leftarrow> succ_entry net rid vertex rtentry succ;
     fib \<leftarrow> spt_install_fib env net succ new_rtentry fib;
     assert_opt (length stack < FIB_STACK_DEPTH);
     fib_succs env net rid tree vertex rtentry ss (fib, (s, Some new_rtentry) # stack)
   }"

partial_function (option) compute_fib_loop ::
    "('t, 'f) igp_env \<Rightarrow> 't network_t \<Rightarrow> net_addr \<Rightarrow> spt_tree \<Rightarrow> 'f \<Rightarrow> (ip_pfx \<times> rt_entry option) list \<Rightarrow> 'f option" where
  "compute_fib_loop env net rid tree fib stack =
     (case stack of
        [] \<Rightarrow> Some fib
      | (v, rtentry) # stack \<Rightarrow> do {
          vertex \<leftarrow> tree v;
          (fib, stack) \<leftarrow> fib_succs env net rid tree vertex rtentry (succs vertex) (fib, stack);
          compute_fib_loop env net rid tree fib stack
        })"

definition spt_compute_fib :: "('t, 'f) igp_env \<Rightarrow> 't network_t \<Rightarrow> net_addr \<Rightarrow> spt_tree \<Rightarrow> 'f option" where
  "spt_compute_fib env net rid tree = do {
     assert_opt (0 < FIB_STACK_DEPTH);
     compute_fib_loop env net rid tree (trie_create (igp_fib env)) [(net_iface_id_addr rid, None)]
   }"

section \<open>Routes of a domain\<close>

text \<open>The traversal of the temporary table; it ends at the first route that is refused.\<close>

fun igp_compute_prefixes :: "('t, 'f) igp_env \<Rightarrow> (ip_pfx \<times> rt_info) list \<Rightarrow> 't \<Rightarrow> (int \<times> 't) option" where
  "igp_compute_prefixes env [] rt = Some (0, rt)"
| "igp_compute_prefixes env ((prefix, rtinfo) # es) rt = do {
     (result, rt) \<leftarrow> rt_add_route (igp_rt env) rt prefix rtinfo;
     if result \<noteq> 0 then Some (result, rt) else igp_compute_prefixes env es rt
   }"

definition node_set_rt :: "net_addr \<Rightarrow> 't \<Rightarrow> 't network_t \<Rightarrow> 't network_t" where
  "node_set_rt r rt net = net\<lparr>net_nodes := (net_nodes net)(r := map_option (\<lambda>node. node\<lparr>node_rt := rt\<rparr>) (net_nodes net r))\<rparr>"

text \<open>One turn of the loop of \<open>igp_compute_domain\<close>.  The tree a node may keep is read by dumps only.\<close>

definition igp_compute_router :: "('t, 'f) igp_env \<Rightarrow> net_addr list \<Rightarrow> net_addr \<Rightarrow> 't network_t \<Rightarrow> (int \<times> 't network_t) option" where
  "igp_compute_router env domain r net = do {
     node \<leftarrow> net_nodes net r;
     (_, rt) \<leftarrow> rt_del_route (igp_rt env) (node_rt node) None None None NET_ROUTE_IGP;
     let net = node_set_rt r rt net;
     tree \<leftarrow> spt_bfs net (igp_vadd env) SPT_FIFO_DEPTH r domain;
     fib \<leftarrow> spt_compute_fib env net r tree;
     (result, rt) \<leftarrow> igp_compute_prefixes env (trie_entries (igp_fib env) fib) rt;
     Some (result, node_set_rt r rt net)
   }"

fun igp_compute_routers :: "('t, 'f) igp_env \<Rightarrow> net_addr list \<Rightarrow> net_addr list \<Rightarrow> 't network_t \<Rightarrow> (int \<times> 't network_t) option" where
  "igp_compute_routers env domain [] net = Some (ESUCCESS, net)"
| "igp_compute_routers env domain (r # rs) net = do {
     (result, net) \<leftarrow> igp_compute_router env domain r net;
     if result = ESUCCESS then igp_compute_routers env domain rs net else Some (result, net)
   }"

definition igp_compute_domain :: "('t, 'f) igp_env \<Rightarrow> ('d, net_addr) trie_ops \<Rightarrow> 'd igp_domain \<Rightarrow> 't network_t \<Rightarrow> (int \<times> 't network_t) option" where
  "igp_compute_domain env dops domain net = igp_compute_routers env (routers_of dops domain) (routers_of dops domain) net"

definition igp_domain_compute :: "('t, 'f) igp_env \<Rightarrow> ('d, net_addr) trie_ops \<Rightarrow> 'd igp_domain \<Rightarrow> 't network_t \<Rightarrow> (int \<times> 't network_t) option" where
  "igp_domain_compute env dops domain net =
     (case domain_type domain of
        IGP_DOMAIN_IGP \<Rightarrow> igp_compute_domain env dops domain net
      | IGP_DOMAIN_OSPF \<Rightarrow> Some (-1, net))"

section \<open>Removing the routes of a type\<close>

context routing_table
begin

text \<open>What the removal of all routes of type \<open>t\<close> keeps of a list of routes.\<close>

lemma filter_list_del:
  assumes "flt_prefix flt = None" "flt_oif flt = None" "flt_gateway flt = None" "flt_type flt = t"
  defines "keep \<equiv> filter (\<lambda>i. t \<noteq> NET_ROUTE_ANY \<and> rt_type i \<noteq> t)"
  obtains flt' where "rt_del_for_each k (Some v) flt = Some (0, Some (keep v), flt')"
    "flt_prefix flt' = None" "flt_oif flt' = None" "flt_gateway flt' = None" "flt_type flt' = t"
    "del_list flt' = (if keep v = [] then Some ((case del_list flt of None \<Rightarrow> [] | Some ps \<Rightarrow> ps) @ [k]) else del_list flt)"
proof -
  have test: "rt_filter_test flt i = Some (t = NET_ROUTE_ANY \<or> rt_type i = t)" for i
    using assms(1-4) by (auto simp: rt_filter_test_def assert_opt_def Let_def)
  have loop: "remove_loop (rt_filter_test flt) 0 v = Some (keep v)"
    by (auto simp: remove_loop_eq test keep_def intro: filter_cong)
  define flt' where "flt' = (let flt' = flt\<lparr>matches := matches flt + (length v - length (keep v))\<rparr>
      in if keep v = [] then net_info_schedule_removal flt' k else flt')"
  have "rt_del_for_each k (Some v) flt = Some (0, Some (keep v), flt')"
    using assms(1) by (simp add: rt_del_for_each_def rt_info_list_del_def loop Let_def flt'_def)
  then show thesis
    by (rule that) (use assms(1-4) in \<open>simp_all add: flt'_def Let_def net_info_schedule_removal_def\<close>)
qed

lemma del_all_effect:
  assumes "flt_prefix flt = None" "flt_oif flt = None" "flt_gateway flt = None" "flt_type flt = t" "tinv rt"
    and "distinct (map fst es)" "\<forall>(k, v)\<in>set es. pfx_wf k \<and> pfx_norm k = k \<and> trie_find_exact (rt_trie env) rt k = Some v"
  defines "keep \<equiv> filter (\<lambda>i. t \<noteq> NET_ROUTE_ANY \<and> rt_type i \<noteq> t)"
  shows "\<exists>rt' flt'. rt_del_all env es rt flt = Some (0, rt', flt') \<and> tinv rt'
    \<and> (\<forall>q. trie_find_exact (rt_trie env) rt' q =
         (case map_of es (pfx_norm q) of Some v \<Rightarrow> Some (keep v) | None \<Rightarrow> trie_find_exact (rt_trie env) rt q))
    \<and> (case del_list flt' of None \<Rightarrow> [] | Some ps \<Rightarrow> ps) =
        (case del_list flt of None \<Rightarrow> [] | Some ps \<Rightarrow> ps) @ map fst (filter (\<lambda>(k, v). keep v = []) es)"
  using assms(1-7)
proof (induction es arbitrary: rt flt)
  case (Cons e es)
  obtain k v where e: "e = (k, v)" by (cases e)
  have kv: "pfx_wf k" "pfx_norm k = k" "k \<notin> fst ` set es" using Cons.prems by (auto simp: e)
  obtain flt1 where flt1: "rt_del_for_each k (Some v) flt = Some (0, Some (keep v), flt1)"
    "flt_prefix flt1 = None" "flt_oif flt1 = None" "flt_gateway flt1 = None" "flt_type flt1 = t"
    "del_list flt1 = (if keep v = [] then Some ((case del_list flt of None \<Rightarrow> [] | Some ps \<Rightarrow> ps) @ [k]) else del_list flt)"
    unfolding keep_def by (rule filter_list_del [OF Cons.prems(1-4)])
  define rt1 where "rt1 = fst (trie_insert (rt_trie env) rt k (keep v) True)"
  have find1: "trie_find_exact (rt_trie env) rt1 q =
      (if pfx_norm q = k then Some (keep v) else trie_find_exact (rt_trie env) rt q)" for q
    using Cons.prems(5) kv(1,2) by (simp add: rt1_def find_insert)
  have t1: "tinv rt1" using Cons.prems(5) kv(1) by (simp add: rt1_def inv_insert)
  have "\<forall>(k', v')\<in>set es. pfx_wf k' \<and> pfx_norm k' = k' \<and> trie_find_exact (rt_trie env) rt1 k' = Some v'"
    using Cons.prems(7) kv(3) by (force simp: e find1)
  with Cons.IH [OF flt1(2-5) t1] Cons.prems(6) obtain rt' flt' where
    IH: "rt_del_all env es rt1 flt1 = Some (0, rt', flt')" "tinv rt'"
      "\<forall>q. trie_find_exact (rt_trie env) rt' q =
         (case map_of es (pfx_norm q) of Some v \<Rightarrow> Some (keep v) | None \<Rightarrow> trie_find_exact (rt_trie env) rt1 q)"
      "(case del_list flt' of None \<Rightarrow> [] | Some ps \<Rightarrow> ps) =
        (case del_list flt1 of None \<Rightarrow> [] | Some ps \<Rightarrow> ps) @ map fst (filter (\<lambda>(k, v). keep v = []) es)"
    by auto
  have none: "map_of es k = None" using kv(3) by (simp add: map_of_eq_None_iff)
  show ?case
  proof (intro exI conjI)
    show "rt_del_all env (e # es) rt flt = Some (0, rt', flt')"
      using IH(1) flt1(1) by (simp add: e write_back_def rt1_def)
    show "tinv rt'" by (rule IH(2))
    show "\<forall>q. trie_find_exact (rt_trie env) rt' q =
         (case map_of (e # es) (pfx_norm q) of Some v \<Rightarrow> Some (keep v) | None \<Rightarrow> trie_find_exact (rt_trie env) rt q)"
      using IH(3) none by (auto simp: e find1 split: option.splits)
    show "(case del_list flt' of None \<Rightarrow> [] | Some ps \<Rightarrow> ps) =
        (case del_list flt of None \<Rightarrow> [] | Some ps \<Rightarrow> ps) @ map fst (filter (\<lambda>(k, v). keep v = []) (e # es))"
      using IH(4) flt1(6) by (simp add: e)
  qed
qed simp

lemma removal_effect:
  assumes "tinv rt" "distinct ps" "\<forall>p\<in>set ps. pfx_wf p \<and> pfx_norm p = p \<and> trie_find_exact (rt_trie env) rt p \<noteq> None"
  shows "tinv (net_info_removal_loop env ps rt)
    \<and> (\<forall>q. trie_find_exact (rt_trie env) (net_info_removal_loop env ps rt) q =
         (if pfx_norm q \<in> set ps then None else trie_find_exact (rt_trie env) rt q))"
  using assms
proof (induction ps arbitrary: rt)
  case (Cons p ps)
  define rt1 where "rt1 = fst (trie_remove (rt_trie env) rt p)"
  have p: "pfx_wf p" "pfx_norm p = p" "trie_find_exact (rt_trie env) rt p \<noteq> None" using Cons.prems(3) by simp_all
  have res: "snd (trie_remove (rt_trie env) rt p) = 0" using remove_result [OF Cons.prems(1) p(1)] p(3) by simp
  have find1: "trie_find_exact (rt_trie env) rt1 q = (if pfx_norm q = p then None else trie_find_exact (rt_trie env) rt q)" for q
    using find_remove [OF Cons.prems(1) p(1)] p(2) by (simp add: rt1_def)
  have t1: "tinv rt1" using inv_remove [OF Cons.prems(1) p(1)] by (simp add: rt1_def)
  have ps: "\<forall>p\<in>set ps. pfx_wf p \<and> pfx_norm p = p \<and> trie_find_exact (rt_trie env) rt1 p \<noteq> None"
    using Cons.prems(2,3) by (auto simp: find1)
  have loop: "net_info_removal_loop env (p # ps) rt = net_info_removal_loop env ps rt1"
    using res by (auto simp: rt1_def case_prod_beta Let_def)
  have "distinct ps" using Cons.prems(2) by simp
  from Cons.IH [OF t1 this ps] show ?case unfolding loop by (auto simp: find1)
qed simp

lemma del_type_effect:
  assumes rt: "tinv rt" "rt_inv env rt"
  obtains rt' where "rt_del_route env rt None None None t = Some (0, rt')" "tinv rt'" "rt_inv env rt'"
    "\<And>q. pfx_wf q \<Longrightarrow> rt_routes env rt' q = filter (\<lambda>i. t \<noteq> NET_ROUTE_ANY \<and> rt_type i \<noteq> t) (rt_routes env rt q)"
proof -
  define flt where "flt = rt_filter_create\<lparr>flt_prefix := None, flt_oif := None, flt_gateway := None, flt_type := t\<rparr>"
  define es where "es = trie_entries (rt_trie env) rt"
  define keep where "keep = filter (\<lambda>i :: rt_info. t \<noteq> NET_ROUTE_ANY \<and> rt_type i \<noteq> t)"
  have fields: "flt_prefix flt = None" "flt_oif flt = None" "flt_gateway flt = None" "flt_type flt = t" "del_list flt = None"
    by (simp_all add: flt_def rt_filter_create_def)
  have es: "distinct (map fst es)" "\<And>k v. (k, v) \<in> set es \<longleftrightarrow> pfx_wf k \<and> pfx_norm k = k \<and> trie_find_exact (rt_trie env) rt k = Some v"
    by (simp_all add: es_def entries_distinct entries_iff rt(1))
  have "\<forall>(k, v)\<in>set es. pfx_wf k \<and> pfx_norm k = k \<and> trie_find_exact (rt_trie env) rt k = Some v" using es(2) by blast
  from del_all_effect [OF fields(1-4) rt(1) es(1) this]
  obtain rt1 flt' where run: "rt_del_all env es rt flt = Some (0, rt1, flt')" "tinv rt1"
    and find1: "\<And>q. trie_find_exact (rt_trie env) rt1 q =
         (case map_of es (pfx_norm q) of Some v \<Rightarrow> Some (keep v) | None \<Rightarrow> trie_find_exact (rt_trie env) rt q)"
    and dl: "(case del_list flt' of None \<Rightarrow> [] | Some ps \<Rightarrow> ps) = map fst (filter (\<lambda>(k, v). keep v = []) es)"
    unfolding keep_def using fields(5) by auto
  define ps where "ps = map fst (filter (\<lambda>(k, v). keep v = []) es)"
  have rm: "net_info_removal env flt' rt1 = net_info_removal_loop env ps rt1"
    using dl by (cases "del_list flt'") (simp_all add: net_info_removal_def ps_def)
  have dist: "distinct ps" unfolding ps_def using es(1) by (simp add: distinct_map_filter)
  have map_es: "map_of es k = Some v \<longleftrightarrow> (k, v) \<in> set es" for k v using es(1) by (simp add: map_of_eq_Some_iff)
  have mem: "k \<in> set ps \<longleftrightarrow> (\<exists>v. (k, v) \<in> set es \<and> keep v = [])" for k by (force simp: ps_def)
  have "\<forall>p\<in>set ps. pfx_wf p \<and> pfx_norm p = p \<and> trie_find_exact (rt_trie env) rt1 p \<noteq> None"
  proof
    fix p assume "p \<in> set ps"
    then obtain v where v: "(p, v) \<in> set es" using mem by blast
    then have "pfx_wf p" "pfx_norm p = p" "map_of es p = Some v" using es(2) map_es by blast+
    then show "pfx_wf p \<and> pfx_norm p = p \<and> trie_find_exact (rt_trie env) rt1 p \<noteq> None" by (simp add: find1)
  qed
  from removal_effect [OF run(2) dist this]
  have final: "tinv (net_info_removal_loop env ps rt1)" "\<And>q. trie_find_exact (rt_trie env) (net_info_removal_loop env ps rt1) q =
      (if pfx_norm q \<in> set ps then None else trie_find_exact (rt_trie env) rt1 q)" by auto
  have found: "trie_find_exact (rt_trie env) (net_info_removal_loop env ps rt1) q =
      (case trie_find_exact (rt_trie env) rt q of None \<Rightarrow> None | Some v \<Rightarrow> if keep v = [] then None else Some (keep v))" if "pfx_wf q" for q
  proof (cases "trie_find_exact (rt_trie env) rt q")
    case None
    then have "map_of es (pfx_norm q) = None" using es(2) map_es find_norm [OF rt(1)] by (metis not_None_eq)
    with None show ?thesis by (simp add: final(2) find1)
  next
    case (Some v)
    then have "(pfx_norm q, v) \<in> set es" using that es(2) find_norm [OF rt(1)] by (simp add: es(2))
    moreover from this have "map_of es (pfx_norm q) = Some v" by (simp add: map_es)
    moreover have "pfx_norm q \<in> set ps \<longleftrightarrow> keep v = []" using calculation(1,2) by (auto simp: mem simp flip: map_es)
    ultimately show ?thesis using Some by (simp add: final(2) find1)
  qed
  show thesis
  proof (rule that)
    show "rt_del_route env rt None None None t = Some (0, net_info_removal_loop env ps rt1)"
      using run(1) by (simp add: rt_del_route_def flt_def [symmetric] rt_del_routes_def fields(1) es_def [symmetric] rm)
    show "tinv (net_info_removal_loop env ps rt1)" by (rule final(1))
    show "rt_routes env (net_info_removal_loop env ps rt1) q = filter (\<lambda>i. t \<noteq> NET_ROUTE_ANY \<and> rt_type i \<noteq> t) (rt_routes env rt q)"
      if "pfx_wf q" for q using found [OF that] by (simp add: rt_routes_def keep_def split: option.splits)
    show "rt_inv env (net_info_removal_loop env ps rt1)"
      unfolding rt_inv_def
    proof (intro allI impI)
      fix q infos assume f: "trie_find_exact (rt_trie env) (net_info_removal_loop env ps rt1) q = Some infos"
      then have "pfx_norm q \<notin> set ps" "trie_find_exact (rt_trie env) rt1 q = Some infos" by (auto simp: final(2) split: if_splits)
      then consider v where "(pfx_norm q, v) \<in> set es" "infos = keep v" "keep v \<noteq> []" | "trie_find_exact (rt_trie env) rt q = Some infos"
        by (auto simp: find1 mem map_es split: option.splits)
      then show "infos_ok infos"
      proof cases
        case 1
        then show ?thesis using es(2) find_ok [OF rt(2)] by (auto simp: infos_ok_def keep_def strict_sorted_filter)
      next
        case 2
        then show ?thesis by (rule find_ok [OF rt(2)])
      qed
    qed
  qed
qed

end

section \<open>Networks of router-to-router links\<close>

definition rtr_net :: "'t network_t \<Rightarrow> bool" where
  "rtr_net net \<longleftrightarrow> (\<forall>r node. net_nodes net r = Some node \<longrightarrow>
     (\<exists>i\<in>set (ifaces node). iface_type i = NET_IFACE_LOOPBACK)
     \<and> (\<forall>i\<in>set (ifaces node). iface_type i = NET_IFACE_LOOPBACK \<and> iface_addr i = r \<or> iface_type i = NET_IFACE_RTR))"

text \<open>A link that can be used, between two routers of the domain.\<close>

definition hop :: "'t network_t \<Rightarrow> net_addr list \<Rightarrow> net_addr \<Rightarrow> net_addr \<Rightarrow> nat \<Rightarrow> bool" where
  "hop net domain x y c \<longleftrightarrow> x \<in> set domain \<and> y \<in> set domain
     \<and> (\<exists>i w. iface_at net (x, y) = Some i \<and> iface_type i = NET_IFACE_RTR \<and> iface_connected i \<and> net_iface_is_enabled i
          \<and> iface_weights i = [w] \<and> c = unat w \<and> w \<noteq> 0 \<and> w \<noteq> IGP_MAX_WEIGHT)"

abbreviation (input) pid :: "net_addr \<Rightarrow> ip_pfx" where "pid \<equiv> net_iface_id_addr"

lemma pid_simps [simp]: "pid x = pid y \<longleftrightarrow> x = y" "pfx_norm (pid x) = pid x" "pfx_wf (pid x)"
  by (simp_all add: net_iface_id_addr_def pfx_norm_def pfx_wf_def)

lemma elem_id_node: "elem_id net (NODE x) = Some (pid x)"
  by (simp add: elem_id_def net_elem_prefix_def)

lemma iface_at_mem:
  "iface_at net (x, a) = Some i \<longleftrightarrow> (\<exists>node. net_nodes net x = Some node \<and> find (\<lambda>i. iface_addr i = a) (ifaces node) = Some i)"
  by (auto simp: iface_at_def net_links_find_def net_iface_id_addr_def elim!: bind_SomeE)

lemma iface_at_kind:
  assumes "rtr_net net" "iface_at net (x, a) = Some i"
  shows "iface_type i = NET_IFACE_LOOPBACK \<and> a = x \<or> iface_type i = NET_IFACE_RTR"
proof -
  obtain node where "net_nodes net x = Some node" "i \<in> set (ifaces node)" "iface_addr i = a"
    using assms(2) by (auto simp: iface_at_mem find_Some_iff)
  then show ?thesis using assms(1) by (auto simp: rtr_net_def)
qed

lemma edge_node:
  assumes topo: "topo_ok net" and rtr: "rtr_net net" and e: "spt_edge net domain p q c"
  obtains x y where "p = pid x" "q = pid y" "hop net domain x y c"
proof -
  obtain el links link to where el: "elem_in net domain el" "elem_id net el = Some p" "elem_links net el = Some links" "link \<in> set links"
    "link_edge net domain el link = Some (to, c)" "elem_id net to = Some q" using e unfolding spt_edge_def by blast
  obtain x where x: "el = NODE x"
  proof (cases el)
    case (LINK l)
    then have "\<exists>i. iface_at net l = Some i \<and> iface_type i = NET_IFACE_PTP" using el(1) by (auto simp: elem_in_def)
    then show ?thesis using iface_at_kind [OF rtr, of "fst l" "snd l"] by auto
  next
    case (SUBNET s)
    then obtain sn where "net_subnets net s = Some sn" "link \<in> set (subnet_ifaces sn)"
      using el by (auto simp: elem_links_def split: if_splits)
    then have "port_ok net s link" using topo unfolding topo_ok_def subnets_ok_def by blast
    then show ?thesis using iface_at_kind [OF rtr, of "fst link" "snd link"] by (auto simp: port_ok_def)
  qed (use that in auto)
  obtain node where node: "net_nodes net x = Some node" "links = map (\<lambda>i. (x, iface_addr i)) (ifaces node)"
    using el(3) by (auto simp: x elem_links_def)
  obtain y where y: "link = (x, y)" using el(4) node(2) by auto
  obtain to' i w where to: "link_get_next_elem net el link = Some to'" "to' = Some to" "\<forall>r. to = NODE r \<longrightarrow> r \<in> set domain"
    "iface_at net link = Some i" "net_iface_is_enabled i \<and> net_iface_is_connected i" "net_iface_get_metric i 0 = Some w"
    "w \<noteq> 0 \<and> w \<noteq> IGP_MAX_WEIGHT" "c = unat w"
    using el(5) by (auto simp: link_edge_def x elim!: bind_SomeE)
  have ok: "iface_ok net link i" by (rule topo_okD [OF topo to(4)])
  have type: "iface_type i = NET_IFACE_RTR"
    using iface_at_kind [OF rtr to(4) [unfolded y]] to(1,2,4) by (auto simp: link_get_next_elem_def x)
  then have "iface_dest i = Some (DstIface (y, x))" "length (iface_weights i) = 1"
    using ok to(5) by (auto simp: iface_ok_def y net_iface_is_connected_def)
  moreover from this have "iface_weights i = [w]" using to(6) by (cases "iface_weights i") (auto simp: net_iface_get_metric_def)
  ultimately have "to = NODE y" "hop net domain x y c"
    using to type el(1) by (auto simp: link_get_next_elem_def x y dest_owner_def hop_def elem_in_def net_iface_is_connected_def)
  then show thesis using el(2,6) by (intro that [of x y]) (simp_all add: x elem_id_node)
qed

lemma hop_edge:
  assumes dom: "domain_ok net domain" and h: "hop net domain x y c"
  shows "spt_edge net domain (pid x) (pid y) c"
proof -
  obtain i w where i: "x \<in> set domain" "y \<in> set domain" "iface_at net (x, y) = Some i" "iface_type i = NET_IFACE_RTR" "iface_connected i"
    "net_iface_is_enabled i" "iface_weights i = [w]" "c = unat w" "w \<noteq> 0" "w \<noteq> IGP_MAX_WEIGHT" using h by (auto simp: hop_def)
  have "iface_ok net (x, y) i" using topo_okD dom i(3) by (auto simp: domain_ok_def)
  then have dest: "iface_dest i = Some (DstIface (y, x))" using i by (simp add: iface_ok_def)
  obtain node where node: "net_nodes net x = Some node" "i \<in> set (ifaces node)" "iface_addr i = y"
    using i(3) by (auto simp: iface_at_mem find_Some_iff)
  have "link_edge net domain (NODE x) (x, y) = Some (NODE y, c)"
    using i dest by (simp add: link_edge_def link_get_next_elem_def dest_owner_def net_iface_is_connected_def net_iface_get_metric_def)
  moreover have "elem_links net (NODE x) = Some (map (\<lambda>i. (x, iface_addr i)) (ifaces node))" using node by (simp add: elem_links_def)
  moreover have "(x, y) \<in> set (map (\<lambda>i. (x, iface_addr i)) (ifaces node))" using node by auto
  moreover have "elem_in net domain (NODE x)" using i(1) by (simp add: elem_in_def)
  ultimately show ?thesis unfolding spt_edge_def using elem_id_node by blast
qed

text \<open>Lengths of paths between routers, and the least one.\<close>

definition route_len :: "'t network_t \<Rightarrow> net_addr list \<Rightarrow> net_addr \<Rightarrow> net_addr \<Rightarrow> nat \<Rightarrow> bool" where
  "route_len net domain x y d \<longleftrightarrow> spt_path net domain (pid x) (pid y) d"

definition distance :: "'t network_t \<Rightarrow> net_addr list \<Rightarrow> net_addr \<Rightarrow> net_addr \<Rightarrow> nat \<Rightarrow> bool" where
  "distance net domain x y d \<longleftrightarrow> route_len net domain x y d \<and> (\<forall>d'. route_len net domain x y d' \<longrightarrow> d \<le> d')"

lemma path_before:
  assumes "spt_path net domain q p d" "spt_edge net domain r q c"
  shows "spt_path net domain r p (c + d)"
  using assms(1)
proof (induction rule: spt_path.induct)
  case path_root
  then show ?case using path_edge [OF spt_path.path_root assms(2)] by simp
next
  case (path_edge p d p' c')
  then show ?case using spt_path.path_edge [OF path_edge.IH path_edge.hyps(2)] by (simp add: add.assoc)
qed

lemma route_len_hop:
  assumes "domain_ok net domain"
  shows "hop net domain x h c \<Longrightarrow> route_len net domain h y d \<Longrightarrow> route_len net domain x y (c + d)"
    "route_len net domain x y d \<Longrightarrow> hop net domain y z c \<Longrightarrow> route_len net domain x z (d + c)" "route_len net domain x x 0"
  using hop_edge [OF assms] by (auto simp: route_len_def intro: path_before path_edge path_root)

lemma distance_unique: "distance net domain x y d \<Longrightarrow> distance net domain x y d' \<Longrightarrow> d = d'"
  by (auto simp: distance_def intro: le_antisym)

lemma hop_pos: "hop net domain x y c \<Longrightarrow> 0 < c"
  by (auto simp: hop_def word_greater_zero_iff unat_gt_0)

text \<open>The rest of a shortest path is a shortest path.\<close>

lemma distance_rest:
  assumes "domain_ok net domain" "hop net domain x h c" "route_len net domain h y d" "distance net domain x y (c + d)"
  shows "distance net domain h y d"
  using assms route_len_hop(1) [OF assms(1,2)] by (fastforce simp: distance_def)

lemma route_len_distance: "route_len net domain x y d \<Longrightarrow> \<exists>d'\<le>d. distance net domain x y d'"
  unfolding distance_def by (rule exI [of _ "LEAST d. route_len net domain x y d"]) (auto intro: LeastI Least_le)

section \<open>The tree of a router\<close>

definition good_tree :: "'t network_t \<Rightarrow> net_addr list \<Rightarrow> net_addr \<Rightarrow> spt_tree \<Rightarrow> bool" where
  "good_tree net domain r tree \<longleftrightarrow>
     (\<forall>p v. tree p = Some v \<longrightarrow> (\<exists>x. p = pid x \<and> elem v = NODE x \<and> x \<in> set domain \<and> distance net domain r x (unat (weight v))))
     \<and> (\<forall>p v. tree p = Some v \<longrightarrow> distinct (succs v))
     \<and> (\<forall>x d. route_len net domain r x d \<and> d < 2 ^ 32 - 1 \<longrightarrow> tree (pid x) \<noteq> None)
     \<and> (\<forall>p v s. tree p = Some v \<and> s \<in> set (succs v) \<longrightarrow>
          (\<exists>vs x y c. tree s = Some vs \<and> p = pid x \<and> s = pid y \<and> hop net domain x y c \<and> unat (weight vs) = unat (weight v) + c))
     \<and> (\<forall>p v. tree p = Some v \<and> p \<noteq> pid r \<longrightarrow> (\<exists>u vu. tree u = Some vu \<and> p \<in> set (succs vu) \<and> unat (weight vu) < unat (weight v)))
     \<and> (\<exists>v. tree (pid r) = Some v \<and> weight v = 0)"

lemma rtr_ptp_free: "rtr_net net \<Longrightarrow> ptp_free net"
  unfolding ptp_free_def using iface_at_kind by fastforce

lemma path_node:
  assumes "topo_ok net" "rtr_net net" "r \<in> set domain" "spt_path net domain (pid r) p d"
  obtains x where "p = pid x" "x \<in> set domain"
  using assms(4)
proof cases
  case path_root
  then show thesis using that assms(3) by blast
next
  case (path_edge u d c)
  show thesis by (rule edge_node [OF assms(1,2) path_edge(3)]) (use that in \<open>auto simp: hop_def\<close>)
qed

lemma spt_bfs_good:
  assumes arr: "gds_ptr_array vadd" and dom: "domain_ok net domain" and rtr: "rtr_net net" and r: "r \<in> set domain"
    and run: "spt_bfs net vadd depth r domain = Some tree"
  shows "good_tree net domain r tree"
proof -
  have topo: "topo_ok net" using dom by (simp add: domain_ok_def)
  note free = rtr_ptp_free [OF rtr]
  note inv = spt_bfs_result(1) [OF arr dom r run]
  obtain cur where cur: "settled net domain cur [] \<lparr>spt = tree, fifo = []\<rparr>" using spt_bfs_result(2) [OF arr dom r run free] by blast
  note bound = path_bound [OF dom free inv cur]
  have tree: "spt_path net domain (pid r) p (unat (weight v))" "unat (weight v) < 2 ^ 32 - 1" "elem_in net domain (elem v)"
    "elem_id net (elem v) = Some p" if "tree p = Some v" for p v using inv that by (auto simp: spt_inv_def)
  have least: "unat (weight v) \<le> d" if "tree p = Some v" "spt_path net domain (pid r) p d" for p v d
    using bound [OF that(2)] that(1) tree(2) [OF that(1)] by (cases "d < 2 ^ 32 - 1") auto
  have tight: "u \<in> set (preds v) \<longleftrightarrow> (\<exists>vu c. tree u = Some vu \<and> spt_edge net domain u p c \<and> unat (weight vu) + c = unat (weight v))"
    if "tree p = Some v" for p u v using pset_tight [OF dom free inv cur that] by blast
  have sym: "s \<in> set (succs v) \<longleftrightarrow> (\<exists>vs. tree s = Some vs \<and> p \<in> set (preds vs))" if "tree p = Some v" for p s v
  proof -
    have "s \<in> sset tree p \<longleftrightarrow> p \<in> pset tree s" using inv by (auto simp: spt_inv_def dag_ok_def)
    then show ?thesis using that by (auto simp: sset_def pset_def split: option.splits)
  qed
  have "\<exists>x. p = pid x \<and> elem v = NODE x \<and> x \<in> set domain \<and> distance net domain r x (unat (weight v))" if v: "tree p = Some v" for p v
  proof -
    obtain x where x: "p = pid x" "x \<in> set domain" by (rule path_node [OF topo rtr r tree(1) [OF v]])
    have "elem v = NODE x"
      using elem_of_id [OF dom free tree(3,4) [OF v]] x(1) by (simp add: net_iface_id_addr_def)
    then show ?thesis using x tree(1) [OF v] least [OF v] by (auto simp: distance_def route_len_def)
  qed
  moreover have "distinct (succs v)" if "tree p = Some v" for p v using inv that by (auto simp: spt_inv_def dag_ok_def)
  moreover have "tree (pid x) \<noteq> None" if "route_len net domain r x d" "d < 2 ^ 32 - 1" for x d
    using bound [OF that [unfolded route_len_def]] by auto
  moreover have "\<exists>vs x y c. tree s = Some vs \<and> p = pid x \<and> s = pid y \<and> hop net domain x y c \<and> unat (weight vs) = unat (weight v) + c"
    if v: "tree p = Some v" and s: "s \<in> set (succs v)" for p v s
  proof -
    obtain vs c where "tree s = Some vs" "spt_edge net domain p s c" "unat (weight v) + c = unat (weight vs)"
      using sym [OF v] s tight v by fastforce
    then show ?thesis using edge_node [OF topo rtr, of domain p s c] by metis
  qed
  moreover have "\<exists>u vu. tree u = Some vu \<and> p \<in> set (succs vu) \<and> unat (weight vu) < unat (weight v)" if v: "tree p = Some v" and p: "p \<noteq> pid r" for p v
    using tree(1) [OF v]
  proof cases
    case path_root
    then show ?thesis using p by simp
  next
    case (path_edge u d c)
    then have pos: "0 < c" using edge_node [OF topo rtr path_edge(3)] hop_pos by metis
    have d: "d < 2 ^ 32 - 1" using path_edge(1) tree(2) [OF v] by simp
    obtain vu where vu: "tree u = Some vu" "unat (weight vu) \<le> d" using bound [OF path_edge(2) d] by blast
    have "unat (weight v) \<le> unat (weight vu) + c" by (rule least [OF v spt_path.path_edge [OF tree(1) [OF vu(1)] path_edge(3)]])
    then have "unat (weight vu) + c = unat (weight v)" using vu(2) path_edge(1) by simp
    then have "u \<in> set (preds v)" using tight [OF v] vu(1) path_edge(3) by blast
    then show ?thesis using sym [OF vu(1)] v vu path_edge(1) pos by (intro exI [of _ u] exI [of _ vu]) auto
  qed
  moreover have "\<exists>v. tree (pid r) = Some v \<and> weight v = 0" using inv by (auto simp: spt_inv_def)
  ultimately show ?thesis unfolding good_tree_def by blast
qed

lemma good_treeD:
  assumes "good_tree net domain r tree"
  shows "tree p = Some v \<Longrightarrow> \<exists>x. p = pid x \<and> elem v = NODE x \<and> x \<in> set domain \<and> distance net domain r x (unat (weight v))"
    "route_len net domain r x d \<Longrightarrow> d < 2 ^ 32 - 1 \<Longrightarrow> tree (pid x) \<noteq> None"
    "tree p = Some v \<Longrightarrow> s \<in> set (succs v) \<Longrightarrow>
      \<exists>vs x y c. tree s = Some vs \<and> p = pid x \<and> s = pid y \<and> hop net domain x y c \<and> unat (weight vs) = unat (weight v) + c"
    "tree p = Some v \<Longrightarrow> p \<noteq> pid r \<Longrightarrow> \<exists>u vu. tree u = Some vu \<and> p \<in> set (succs vu) \<and> unat (weight vu) < unat (weight v)"
    "\<exists>v. tree (pid r) = Some v \<and> weight v = 0" "tree p = Some v \<Longrightarrow> distinct (succs v)"
  using assms unfolding good_tree_def by blast+

text \<open>The number of paths along successors, which bounds the traversal.\<close>

fun succ_paths :: "nat \<Rightarrow> spt_tree \<Rightarrow> ip_pfx \<Rightarrow> nat" where
  "succ_paths 0 tree p = 0"
| "succ_paths (Suc n) tree p = Suc (sum_list (map (succ_paths n tree) (case tree p of None \<Rightarrow> [] | Some v \<Rightarrow> succs v)))"

lemma succ_paths_stable:
  assumes "good_tree net domain r tree"
  shows "tree p = Some v \<Longrightarrow> 2 ^ 32 - unat (weight v) \<le> n \<Longrightarrow> 2 ^ 32 - unat (weight v) \<le> m \<Longrightarrow> succ_paths n tree p = succ_paths m tree p"
proof (induction n arbitrary: m p v)
  case 0
  then show ?case using unat_less_32 [of "weight v"] by simp
next
  case (Suc n)
  then obtain m' where m': "m = Suc m'" using unat_less_32 [of "weight v"] by (cases m) simp_all
  have "succ_paths n tree s = succ_paths m' tree s" if s: "s \<in> set (succs v)" for s
  proof -
    obtain vs x y c where vs: "tree s = Some vs" "hop net domain x y c" "unat (weight vs) = unat (weight v) + c"
      using good_treeD(3) [OF assms Suc.prems(1) s] by blast
    have "0 < c" by (rule hop_pos [OF vs(2)])
    then have "2 ^ 32 - unat (weight vs) < 2 ^ 32 - unat (weight v)" using vs(3) unat_less_32 [of "weight v"] by simp
    then show ?thesis using Suc.prems(2,3) m' by (intro Suc.IH [OF vs(1)]) simp_all
  qed
  then show ?case using Suc.prems(1) m' by (simp cong: map_cong)
qed

definition visits :: "spt_tree \<Rightarrow> ip_pfx \<Rightarrow> nat" where
  "visits tree p = succ_paths (2 ^ 32) tree p"

lemma visits_eq:
  assumes "good_tree net domain r tree" "tree p = Some v"
  shows "visits tree p = Suc (sum_list (map (visits tree) (succs v)))"
proof -
  define n :: nat where "n = 2 ^ 32 - 1"
  have n: "2 ^ 32 = Suc n" by (simp add: n_def)
  have "succ_paths n tree s = succ_paths (Suc n) tree s" if s: "s \<in> set (succs v)" for s
  proof -
    obtain vs x y c where vs: "tree s = Some vs" "hop net domain x y c" "unat (weight vs) = unat (weight v) + c"
      using good_treeD(3) [OF assms s] by blast
    have "0 < c" by (rule hop_pos [OF vs(2)])
    then show ?thesis by (intro succ_paths_stable [OF assms(1) vs(1)]) (use vs(3) in \<open>simp_all add: n_def\<close>)
  qed
  then show ?thesis unfolding visits_def n using assms(2) by (simp cong: map_cong)
qed

section \<open>The routes of a router\<close>

locale igp_tables =
  routing_table "igp_rt env" tinv + fib: gds_trie "igp_fib env" finv + ents: gds_sorted_array rt_entry_compare "entries_add (igp_rt env)"
    + verts: gds_ptr_array "igp_vadd env"
  for env :: "('t, 'f) igp_env" and tinv :: "'t \<Rightarrow> bool" and finv :: "'f \<Rightarrow> bool"

text \<open>A first hop on a shortest path.\<close>

definition first_hop :: "'t network_t \<Rightarrow> net_addr list \<Rightarrow> net_addr \<Rightarrow> net_addr \<Rightarrow> net_addr \<Rightarrow> bool" where
  "first_hop net domain r x h \<longleftrightarrow> (\<exists>c d. hop net domain r h c \<and> route_len net domain h x d \<and> distance net domain r x (c + d))"

definition igp_route :: "'t network_t \<Rightarrow> net_addr list \<Rightarrow> net_addr \<Rightarrow> net_addr \<Rightarrow> rt_info \<Rightarrow> bool" where
  "igp_route net domain r x info \<longleftrightarrow> rt_type info = NET_ROUTE_IGP \<and> entries info \<noteq> []
     \<and> strict_sorted_by rt_entry_compare (entries info)
     \<and> (\<forall>e\<in>set (entries info). \<exists>h. e = rt_entry_create h IP_ADDR_ANY \<and> first_hop net domain r x h)"

definition fib_sound :: "('t, 'f) igp_env \<Rightarrow> 't network_t \<Rightarrow> net_addr list \<Rightarrow> net_addr \<Rightarrow> 'f \<Rightarrow> bool" where
  "fib_sound env net domain r fib \<longleftrightarrow>
     (\<forall>k info. trie_find_exact (igp_fib env) fib k = Some info \<longrightarrow> (\<exists>x. pfx_norm k = pid x \<and> igp_route net domain r x info))"

lemma entry_cmp_on: "\<forall>e\<in>A. oif e \<noteq> None \<Longrightarrow> cmp_on rt_entry_compare A"
  unfolding cmp_on_def rt_entry_compare_def by (auto split: option.splits if_splits)

context igp_tables
begin

lemma install_entry_effect:
  assumes fib: "finv f" "fib_sound env net domain r f" and h: "first_hop net domain r x h"
  obtains f' where "spt_install_fib_entry env f (pid x) w (rt_entry_create h IP_ADDR_ANY) = Some f'" "finv f'" "fib_sound env net domain r f'"
    "\<forall>k. trie_find_exact (igp_fib env) f' k \<noteq> None \<longleftrightarrow> pfx_norm k = pid x \<or> trie_find_exact (igp_fib env) f k \<noteq> None"
proof -
  let ?e = "rt_entry_create h IP_ADDR_ANY" and ?find = "trie_find_exact (igp_fib env)"
  have mask: "ip_prefix_mask (pid x) = Some (pid x)" by (simp add: ip_prefix_mask_norm)
  obtain f1 info where f1: "finv f1" "?find f1 (pid x) = Some info" "\<And>k. pfx_norm k \<noteq> pid x \<Longrightarrow> ?find f1 k = ?find f k"
    "rt_type info = NET_ROUTE_IGP" "strict_sorted_by rt_entry_compare (entries info)"
    "\<forall>e\<in>set (entries info). \<exists>h. e = rt_entry_create h IP_ADDR_ANY \<and> first_hop net domain r x h"
    "(case ?find f (pid x) of
        Some rtinfo \<Rightarrow> Some (f, rtinfo)
      | None \<Rightarrow>
          let rtinfo = rt_info_create (pid x) w NET_ROUTE_IGP; (fib, result) = trie_insert (igp_fib env) f (pid x) rtinfo False in do {
          assert_opt (result \<ge> 0);
          Some (fib, rtinfo)
        }) = Some (f1, info)"
  proof (cases "?find f (pid x)")
    case None
    let ?i = "rt_info_create (pid x) w NET_ROUTE_IGP"
    let ?f = "fst (trie_insert (igp_fib env) f (pid x) ?i False)"
    have "snd (trie_insert (igp_fib env) f (pid x) ?i False) = 0" using fib.insert_result [OF fib(1)] None by simp
    then show thesis
      using None fib(1) by (intro that [of ?f ?i])
        (auto simp: fib.inv_insert fib.find_insert rt_info_create_def strict_sorted_by_def Let_def case_prod_beta)
  next
    case (Some info)
    then have "\<exists>y. pfx_norm (pid x) = pid y \<and> igp_route net domain r y info" using fib(2) unfolding fib_sound_def by blast
    then have "igp_route net domain r x info" by auto
    then show thesis using Some fib(1) by (intro that [of f info]) (auto simp: igp_route_def)
  qed
  obtain es where es: "snd (rt_entries_add (igp_rt env) (entries info) ?e) = es" "es \<noteq> []" "strict_sorted_by rt_entry_compare es"
    "set es \<subseteq> insert ?e (set (entries info))"
  proof -
    have on: "cmp_on rt_entry_compare (insert ?e (set (entries info)))"
      by (rule entry_cmp_on) (use f1(6) in \<open>auto simp: rt_entry_create_def\<close>)
    show thesis
    proof (cases "entries_add (igp_rt env) (entries info) ?e")
      case None
      have "entries info \<noteq> []"
      proof
        assume "entries info = []"
        then show False using ents.add_new [OF f1(5) on] None by auto
      qed
      then show thesis using None f1(5) by (intro that [of "entries info"]) (auto simp: rt_entries_add_def)
    next
      case (Some es)
      from ents.add_Some [OF f1(5) on Some] Some show thesis by (intro that [of es]) (auto simp: rt_entries_add_def)
    qed
  qed
  let ?f' = "fst (trie_insert (igp_fib env) f1 (pid x) (info\<lparr>entries := es\<rparr>) True)"
  have find': "?find ?f' k = (if pfx_norm k = pid x then Some (info\<lparr>entries := es\<rparr>) else ?find f k)" for k
    using fib.find_insert [OF f1(1), of "pid x" True] f1(3) by simp
  have route: "igp_route net domain r x (info\<lparr>entries := es\<rparr>)"
    unfolding igp_route_def using es f1(4,6) h by auto
  show thesis
  proof (rule that)
    show "spt_install_fib_entry env f (pid x) w ?e = Some ?f'"
      unfolding spt_install_fib_entry_def using mask f1(7) es(1) by (simp add: case_prod_beta Let_def)
    show "finv ?f'" using fib.inv_insert [OF f1(1)] by simp
    show "fib_sound env net domain r ?f'"
      unfolding fib_sound_def
    proof (intro allI impI)
      fix k i assume f: "?find ?f' k = Some i"
      show "\<exists>x. pfx_norm k = pid x \<and> igp_route net domain r x i"
      proof (cases "pfx_norm k = pid x")
        case True
        then show ?thesis using f find' [of k] route by auto
      next
        case False
        then show ?thesis using f find' [of k] fib(2) unfolding fib_sound_def by auto
      qed
    qed
    show "\<forall>k. ?find ?f' k \<noteq> None \<longleftrightarrow> pfx_norm k = pid x \<or> ?find f k \<noteq> None"
      by (simp add: find' del: not_None_eq)
  qed
qed

end

lemma find_sorted_member:
  "sorted_wrt (<) (map f xs) \<Longrightarrow> x \<in> set xs \<Longrightarrow> find (\<lambda>y. f y = (f x :: 'a :: order)) xs = Some x"
  by (induction xs) auto

lemma iface_at_member:
  assumes "topo_ok net" "net_nodes net x = Some node" "i \<in> set (ifaces node)"
  shows "iface_at net (x, iface_addr i) = Some i"
proof -
  have "sorted_wrt (<) (map iface_addr (ifaces node))" using assms(1,2) by (auto simp: topo_ok_def nodes_ok_def strict_sorted_addr)
  then show ?thesis using find_sorted_member assms(2,3) by (auto simp: iface_at_mem)
qed

text \<open>The interface towards a neighbour.\<close>

lemma find_iface_to_hop:
  assumes topo: "topo_ok net" and rtr: "rtr_net net" and node: "net_nodes net r = Some node" and h: "hop net domain r h c"
  shows "\<exists>i. node_find_iface_to node (NODE h) = Some (Some i) \<and> iface_addr i = h"
proof -
  have lead: "iface_leads_to (NODE h) i = Some (iface_connected i \<and> iface_type i = NET_IFACE_RTR \<and> iface_addr i = h)" if "i \<in> set (ifaces node)" for i
  proof -
    have "iface_ok net (r, iface_addr i) i" by (rule topo_okD [OF topo iface_at_member [OF topo node that]])
    then show ?thesis by (auto simp: iface_leads_to_def iface_ok_def dest_owner_def net_iface_is_connected_def)
  qed
  have "find_iface_to is (NODE h) = Some (find (\<lambda>i. iface_connected i \<and> iface_type i = NET_IFACE_RTR \<and> iface_addr i = h) is)"
    if "set is \<subseteq> set (ifaces node)" for "is"
    using that by (induction "is") (simp_all add: lead)
  then have eq: "node_find_iface_to node (NODE h) = Some (find (\<lambda>i. iface_connected i \<and> iface_type i = NET_IFACE_RTR \<and> iface_addr i = h) (ifaces node))"
    by (simp add: node_find_iface_to_def)
  obtain i where "iface_at net (r, h) = Some i" "iface_type i = NET_IFACE_RTR" "iface_connected i" using h by (auto simp: hop_def)
  then have "\<exists>i\<in>set (ifaces node). iface_connected i \<and> iface_type i = NET_IFACE_RTR \<and> iface_addr i = h"
    using node by (auto simp: iface_at_mem find_Some_iff)
  then show ?thesis using eq
    by (cases "find (\<lambda>i. iface_connected i \<and> iface_type i = NET_IFACE_RTR \<and> iface_addr i = h) (ifaces node)")
      (auto simp: find_None_iff find_Some_iff)
qed

context igp_tables
begin

lemma install_ifaces_effect:
  assumes "\<forall>i\<in>set is. iface_type i = NET_IFACE_LOOPBACK \<and> net_iface_dst_prefix i = pid x \<and> length (iface_weights i) = 1 \<or> iface_type i = NET_IFACE_RTR"
    and "finv f" "fib_sound env net domain r f" "first_hop net domain r x h"
  shows "\<exists>f'. install_ifaces env w (rt_entry_create h IP_ADDR_ANY) is f = Some f' \<and> finv f' \<and> fib_sound env net domain r f'
    \<and> (\<forall>k. trie_find_exact (igp_fib env) f' k \<noteq> None \<longleftrightarrow>
         pfx_norm k = pid x \<and> (\<exists>i\<in>set is. iface_type i = NET_IFACE_LOOPBACK) \<or> trie_find_exact (igp_fib env) f k \<noteq> None)"
  using assms(1,2,3)
proof (induction "is" arbitrary: f)
  case (Cons i "is")
  show ?case
  proof (cases "iface_type i = NET_IFACE_LOOPBACK")
    case True
    then have i: "net_iface_dst_prefix i = pid x" "length (iface_weights i) = 1" using Cons.prems(1) by simp_all
    obtain m where m: "net_iface_get_metric i 0 = Some m" using i(2) by (simp add: net_iface_get_metric_def)
    obtain f1 where f1: "spt_install_fib_entry env f (pid x) (net_igp_add_weights w m) (rt_entry_create h IP_ADDR_ANY) = Some f1" "finv f1"
      "fib_sound env net domain r f1"
      "\<forall>k. trie_find_exact (igp_fib env) f1 k \<noteq> None \<longleftrightarrow> pfx_norm k = pid x \<or> trie_find_exact (igp_fib env) f k \<noteq> None"
      by (rule install_entry_effect [OF Cons.prems(2,3) assms(4), where w = "net_igp_add_weights w m"])
    obtain f' where "install_ifaces env w (rt_entry_create h IP_ADDR_ANY) is f1 = Some f'" "finv f'" "fib_sound env net domain r f'"
      "\<forall>k. trie_find_exact (igp_fib env) f' k \<noteq> None \<longleftrightarrow>
         pfx_norm k = pid x \<and> (\<exists>i\<in>set is. iface_type i = NET_IFACE_LOOPBACK) \<or> trie_find_exact (igp_fib env) f1 k \<noteq> None"
      using Cons.IH [OF _ f1(2,3)] Cons.prems(1) by auto
    then show ?thesis using True i(1) m f1(1,4) by (intro exI [of _ f']) (auto simp del: not_None_eq)
  next
    case False
    then show ?thesis using Cons by auto
  qed
qed simp

lemma install_fib_effect:
  assumes topo: "topo_ok net" and rtr: "rtr_net net" and el: "elem v = NODE x" and x: "net_nodes net x \<noteq> None"
    and f: "finv f" "fib_sound env net domain r f" and h: "first_hop net domain r x h"
  obtains f' where "spt_install_fib env net v (rt_entry_create h IP_ADDR_ANY) f = Some f'" "finv f'" "fib_sound env net domain r f'"
    "\<forall>k. trie_find_exact (igp_fib env) f' k \<noteq> None \<longleftrightarrow> pfx_norm k = pid x \<or> trie_find_exact (igp_fib env) f k \<noteq> None"
proof -
  obtain node where node: "net_nodes net x = Some node" using x by blast
  have kind: "iface_type i = NET_IFACE_LOOPBACK \<and> net_iface_dst_prefix i = pid x \<and> length (iface_weights i) = 1 \<or> iface_type i = NET_IFACE_RTR"
    if "i \<in> set (ifaces node)" for i
  proof -
    have "iface_ok net (x, iface_addr i) i" by (rule topo_okD [OF topo iface_at_member [OF topo node that]])
    moreover have "iface_type i = NET_IFACE_LOOPBACK \<and> iface_addr i = x \<or> iface_type i = NET_IFACE_RTR"
      using rtr node that by (auto simp: rtr_net_def)
    ultimately show ?thesis by (auto simp: iface_ok_def net_iface_dst_prefix_def net_iface_id_def net_iface_id_addr_def)
  qed
  moreover have "\<exists>i\<in>set (ifaces node). iface_type i = NET_IFACE_LOOPBACK" using rtr node by (auto simp: rtr_net_def)
  ultimately show thesis
    using install_ifaces_effect [OF _ f h, of "ifaces node" "weight v"] that node el by (auto simp: spt_install_fib_def simp del: not_None_eq)
qed

end

text \<open>What the traversal knows of an entry of its stack.\<close>

definition hop_entry :: "'t network_t \<Rightarrow> net_addr list \<Rightarrow> net_addr \<Rightarrow> ip_pfx \<Rightarrow> rt_entry option \<Rightarrow> bool" where
  "hop_entry net domain r p e \<longleftrightarrow>
     (case e of None \<Rightarrow> p = pid r
      | Some e \<Rightarrow> \<exists>x h. p = pid x \<and> e = rt_entry_create h IP_ADDR_ANY \<and> first_hop net domain r x h)"

lemma succ_entry_hop:
  assumes dom: "domain_ok net domain" and rtr: "rtr_net net" and good: "good_tree net domain r tree"
    and v: "tree p = Some v" and e: "hop_entry net domain r p e" and s: "s \<in> set (succs v)"
  obtains vs y h where "tree s = Some vs" "s = pid y" "elem vs = NODE y" "y \<in> set domain" "first_hop net domain r y h"
    "succ_entry net r v e vs = Some (rt_entry_create h IP_ADDR_ANY)"
proof -
  have topo: "topo_ok net" using dom by (simp add: domain_ok_def)
  obtain vs x y c where vs: "tree s = Some vs" "p = pid x" "s = pid y" "hop net domain x y c" "unat (weight vs) = unat (weight v) + c"
    using good_treeD(3) [OF good v s] by blast
  have x: "elem v = NODE x" "distance net domain r x (unat (weight v))" using good_treeD(1) [OF good v] vs(2) by auto
  have y: "elem vs = NODE y" "y \<in> set domain" "distance net domain r y (unat (weight v) + c)"
    using good_treeD(1) [OF good vs(1)] vs(3,5) by auto
  note finish = that [OF vs(1,3) y(1,2)]
  show thesis
  proof (cases e)
    case None
    then have r: "x = r" using e vs(2) by (simp add: hop_entry_def)
    then have "weight v = 0" using good_treeD(5) [OF good] v vs(2) by auto
    then have "first_hop net domain r y y"
      unfolding first_hop_def using vs(4) y(3) route_len_hop(3) [OF dom] r by (intro exI [of _ c] exI [of _ 0]) simp
    moreover have "r \<in> set domain" using vs(4) r by (simp add: hop_def)
    then obtain node where node: "net_nodes net r = Some node" using dom by (auto simp: domain_ok_def)
    obtain i where "node_find_iface_to node (NODE y) = Some (Some i)" "iface_addr i = y"
      using find_iface_to_hop [OF topo rtr node vs(4) [unfolded r]] by blast
    ultimately show thesis using finish [of y] None x(1) y(1) r node by (simp add: succ_entry_def)
  next
    case (Some e')
    then obtain h where h: "e' = rt_entry_create h IP_ADDR_ANY" "first_hop net domain r x h" using e vs(2) by (auto simp: hop_entry_def)
    then obtain c0 d where d: "hop net domain r h c0" "route_len net domain h x d" "distance net domain r x (c0 + d)" by (auto simp: first_hop_def)
    have "unat (weight v) = c0 + d" by (rule distance_unique [OF x(2) d(3)])
    then have "distance net domain r y (c0 + (d + c))" using y(3) by (simp add: add.assoc)
    then have "first_hop net domain r y h" unfolding first_hop_def using d(1) route_len_hop(2) [OF dom d(2) vs(4)] by blast
    moreover obtain i where "iface_at net (r, h) = Some i" "iface_type i = NET_IFACE_RTR" using d(1) by (auto simp: hop_def)
    ultimately show thesis using finish [of h] Some h(1) by (simp add: succ_entry_def rt_entry_create_def iface_ref_of_def)
  qed
qed

definition fib_closed :: "('t, 'f) igp_env \<Rightarrow> net_addr \<Rightarrow> spt_tree \<Rightarrow> 'f \<Rightarrow> ip_pfx set \<Rightarrow> bool" where
  "fib_closed env r tree fib open' \<longleftrightarrow>
     (\<forall>p v s. tree p = Some v \<and> (p = pid r \<or> trie_find_exact (igp_fib env) fib p \<noteq> None) \<and> s \<in> set (succs v) \<longrightarrow>
        trie_find_exact (igp_fib env) fib s \<noteq> None \<or> p \<in> open')"

text \<open>The stack consists of groups of successors of vertices whose weights increase towards the top.\<close>

definition layered :: "net_addr \<Rightarrow> spt_tree \<Rightarrow> (ip_pfx \<times> 'e) list \<Rightarrow> bool" where
  "layered r tree stack \<longleftrightarrow> map fst stack = [pid r]
     \<or> (\<exists>gs. stack = concat (map snd gs)
          \<and> sorted_wrt (\<lambda>a b. unat (weight (the (tree (fst b)))) < unat (weight (the (tree (fst a))))) gs
          \<and> (\<forall>(p, its)\<in>set gs. \<exists>v. tree p = Some v \<and> distinct (map fst its) \<and> fst ` set its \<subseteq> set (succs v)))"

lemma layered_step:
  assumes good: "good_tree net domain r tree" and lay: "layered r tree ((p, e) # rest)" and v: "tree p = Some v" and its_eq: "map fst its0 = rev (succs v)"
  shows "layered r tree (its0 @ rest)"
proof -
  have new: "distinct (map fst its0) \<and> fst ` set its0 \<subseteq> set (succs v)"
  proof -
    have "fst ` set its0 = set (succs v)" using arg_cong [OF its_eq, of set] by simp
    then show ?thesis using good_treeD(6) [OF good v] its_eq by simp
  qed
  from lay consider (start) "p = pid r" "rest = []"
    | (deep) gs where "(p, e) # rest = concat (map snd gs)"
        "sorted_wrt (\<lambda>a b. unat (weight (the (tree (fst b)))) < unat (weight (the (tree (fst a))))) gs"
        "\<forall>(p, its)\<in>set gs. \<exists>v. tree p = Some v \<and> distinct (map fst its) \<and> fst ` set its \<subseteq> set (succs v)"
    unfolding layered_def by auto
  then show ?thesis
  proof cases
    case start
    then show ?thesis using new v unfolding layered_def by (intro disjI2 exI [of _ "[(p, its0)]"]) simp
  next
    case deep
    then show ?thesis
    proof (induction gs)
      case (Cons g gs)
      obtain q its where g: "g = (q, its)" by (cases g)
      show ?case
      proof (cases its)
        case Nil
        then show ?thesis using Cons by (simp add: g)
      next
        case (Cons it its')
        then have it: "it = (p, e)" "rest = its' @ concat (map snd gs)" using Cons.prems(1) by (simp_all add: g)
        obtain vq where vq: "tree q = Some vq" "p \<in> set (succs vq)" "distinct (map fst its')" "fst ` set its' \<subseteq> set (succs vq)"
          using Cons.prems(3) Cons it(1) by (auto simp: g)
        obtain c where "unat (weight v) = unat (weight vq) + c" "0 < c"
          using good_treeD(3) [OF good vq(1,2)] v hop_pos by fastforce
        then have "unat (weight vq) < unat (weight v)" by simp
        then show ?thesis
          unfolding layered_def
          by (intro disjI2 exI [of _ "(p, its0) # (q, its') # gs"]) (use Cons.prems(2,3) vq v new it(2) in \<open>auto simp: g\<close>)
      qed
    qed simp
  qed
qed

lemma layered_length:
  assumes good: "good_tree net domain r tree" and r: "r \<in> set domain" and lay: "layered r tree stack"
  shows "length stack \<le> card (set domain) * card (set domain)"
proof -
  let ?n = "card (set domain)"
  have bound: "length ps \<le> ?n" if "distinct ps" "\<forall>p\<in>set ps. tree p \<noteq> None" for ps
  proof -
    have "set ps \<subseteq> pid ` set domain" using that(2) good_treeD(1) [OF good] by fastforce
    then have "card (set ps) \<le> card (pid ` set domain)" by (intro card_mono) simp_all
    also have "\<dots> \<le> ?n" by (rule card_image_le) simp
    finally show ?thesis using distinct_card [OF that(1)] by simp
  qed
  have pos: "0 < ?n" using r by (auto simp: card_gt_0_iff)
  consider (1) "length stack = 1" | (2) gs where "stack = concat (map snd gs)"
      "sorted_wrt (\<lambda>a b. unat (weight (the (tree (fst b)))) < unat (weight (the (tree (fst a))))) gs"
      "\<forall>(p, its)\<in>set gs. \<exists>v. tree p = Some v \<and> distinct (map fst its) \<and> fst ` set its \<subseteq> set (succs v)"
  proof -
    have "length stack = 1" if "map fst stack = [pid r]" using arg_cong [OF that, of length] by simp
    then show ?thesis using lay that unfolding layered_def by blast
  qed
  then show ?thesis
  proof cases
    case 1
    then show ?thesis using pos by (simp add: Suc_le_eq)
  next
    case (2 gs)
    have "length its \<le> ?n" if mem: "(p, its) \<in> set gs" for p its
    proof -
      obtain v where v: "tree p = Some v" "distinct (map fst its)" "fst ` set its \<subseteq> set (succs v)"
        using bspec [OF 2(3) mem] by auto
      have "\<forall>s\<in>set (map fst its). tree s \<noteq> None" 
      proof
        fix s assume "s \<in> set (map fst its)"
        then have "s \<in> set (succs v)" using v(3) by auto
        then show "tree s \<noteq> None" using good_treeD(3) [OF good v(1)] by blast
      qed
      from bound [OF v(2) this] show ?thesis by simp
    qed
    then have "length (concat (map snd gs)) \<le> length gs * ?n"
    proof (induction gs)
      case (Cons g gs)
      have "length (snd g) \<le> ?n" by (rule Cons.prems [of "fst g"]) simp
      moreover have "length (concat (map snd gs)) \<le> length gs * ?n" by (rule Cons.IH) (use Cons.prems in auto)
      ultimately show ?case by simp
    qed simp
    moreover have "distinct (map fst gs)" using 2(2) by (induction gs) auto
    then have "length (map fst gs) \<le> ?n" by (rule bound) (use 2(3) in auto)
    then have "length gs * ?n \<le> ?n * ?n" by simp
    ultimately show ?thesis unfolding 2(1) by (rule order.trans)
  qed
qed

context igp_tables
begin

lemma fib_succs_effect:
  assumes dom: "domain_ok net domain" and rtr: "rtr_net net" and good: "good_tree net domain r tree"
    and v: "tree p = Some v" and e: "hop_entry net domain r p e"
    and "set ss \<subseteq> set (succs v)" "finv f" "fib_sound env net domain r f"
  shows "fib_succs env net r tree v e ss (f, stack) = None \<and> FIB_STACK_DEPTH < length stack + length ss
    \<or> (\<exists>f' items. fib_succs env net r tree v e ss (f, stack) = Some (f', items @ stack) \<and> map fst items = rev ss
        \<and> (\<forall>it\<in>set items. hop_entry net domain r (fst it) (snd it)) \<and> finv f' \<and> fib_sound env net domain r f'
        \<and> (\<forall>k. trie_find_exact (igp_fib env) f' k \<noteq> None \<longleftrightarrow> pfx_norm k \<in> set ss \<or> trie_find_exact (igp_fib env) f k \<noteq> None))"
  using assms(6-8)
proof (induction ss arbitrary: f stack)
  case (Cons s ss)
  have s: "s \<in> set (succs v)" and ss: "set ss \<subseteq> set (succs v)" using Cons.prems(1) by simp_all
  obtain vs y h where vs: "tree s = Some vs" "s = pid y" "elem vs = NODE y" "y \<in> set domain" "first_hop net domain r y h"
    "succ_entry net r v e vs = Some (rt_entry_create h IP_ADDR_ANY)"
    by (rule succ_entry_hop [OF dom rtr good v e s])
  have topo: "topo_ok net" and node: "net_nodes net y \<noteq> None" using dom vs(4) by (auto simp: domain_ok_def)
  obtain f1 where f1: "spt_install_fib env net vs (rt_entry_create h IP_ADDR_ANY) f = Some f1" "finv f1" "fib_sound env net domain r f1"
    "\<forall>k. trie_find_exact (igp_fib env) f1 k \<noteq> None \<longleftrightarrow> pfx_norm k = s \<or> trie_find_exact (igp_fib env) f k \<noteq> None"
    unfolding vs(2) by (rule install_fib_effect [OF topo rtr vs(3) node Cons.prems(2,3) vs(5)])
  let ?it = "(s, Some (rt_entry_create h IP_ADDR_ANY))"
  show ?case
  proof (cases "length stack < FIB_STACK_DEPTH")
    case False
    then show ?thesis using vs(1,6) f1(1) by (intro disjI1) simp
  next
    case True
    then have step: "fib_succs env net r tree v e (s # ss) (f, stack) = fib_succs env net r tree v e ss (f1, ?it # stack)"
      using vs(1,6) f1(1) by simp
    have it: "hop_entry net domain r s (Some (rt_entry_create h IP_ADDR_ANY))" using vs(2,5) by (auto simp: hop_entry_def)
    from Cons.IH [OF ss f1(2,3), of "?it # stack"] show ?thesis
    proof
      assume "\<exists>f' items. fib_succs env net r tree v e ss (f1, ?it # stack) = Some (f', items @ ?it # stack) \<and> map fst items = rev ss
        \<and> (\<forall>it\<in>set items. hop_entry net domain r (fst it) (snd it)) \<and> finv f' \<and> fib_sound env net domain r f'
        \<and> (\<forall>k. trie_find_exact (igp_fib env) f' k \<noteq> None \<longleftrightarrow> pfx_norm k \<in> set ss \<or> trie_find_exact (igp_fib env) f1 k \<noteq> None)"
      then obtain f' items where "fib_succs env net r tree v e ss (f1, ?it # stack) = Some (f', items @ ?it # stack)" "map fst items = rev ss"
        "\<forall>it\<in>set items. hop_entry net domain r (fst it) (snd it)" "finv f'" "fib_sound env net domain r f'"
        "\<forall>k. trie_find_exact (igp_fib env) f' k \<noteq> None \<longleftrightarrow> pfx_norm k \<in> set ss \<or> trie_find_exact (igp_fib env) f1 k \<noteq> None" by blast
      then show ?thesis unfolding step using it f1(4)
        by (intro disjI2 exI [of _ f'] exI [of _ "items @ [?it]"]) (auto simp del: not_None_eq)
    next
      assume "fib_succs env net r tree v e ss (f1, ?it # stack) = None \<and> FIB_STACK_DEPTH < length (?it # stack) + length ss"
      then show ?thesis unfolding step by simp
    qed
  qed
qed simp

lemma compute_loop_effect:
  assumes dom: "domain_ok net domain" and rtr: "rtr_net net" and good: "good_tree net domain r tree"
    and r: "r \<in> set domain"
  shows "\<forall>it\<in>set stack. hop_entry net domain r (fst it) (snd it) \<and> tree (fst it) \<noteq> None \<Longrightarrow> finv f \<Longrightarrow> fib_sound env net domain r f \<Longrightarrow>
      fib_closed env r tree f (fst ` set stack) \<Longrightarrow> layered r tree stack \<Longrightarrow>
      compute_fib_loop env net r tree f stack = None \<and> FIB_STACK_DEPTH < card (set domain) * card (set domain)
      \<or> (\<exists>f'. compute_fib_loop env net r tree f stack = Some f' \<and> finv f' \<and> fib_sound env net domain r f' \<and> fib_closed env r tree f' {})"
proof (induction "sum_list (map (visits tree \<circ> fst) stack)" arbitrary: stack f rule: less_induct)
  case less
  show ?case
  proof (cases stack)
    case Nil
    then show ?thesis using less.prems by (intro disjI2 exI [of _ f]) (simp add: compute_fib_loop.simps)
  next
    case (Cons it rest)
    obtain p e where it: "it = (p, e)" by (cases it)
    obtain v where v: "tree p = Some v" using less.prems(1) by (auto simp: Cons it)
    have e: "hop_entry net domain r p e" using less.prems(1) by (simp add: Cons it)
    have loop: "compute_fib_loop env net r tree f stack =
        fib_succs env net r tree v e (succs v) (f, rest) \<bind> (\<lambda>(fib, stack). compute_fib_loop env net r tree fib stack)"
      by (subst compute_fib_loop.simps) (simp add: Cons it v)
    have succs: "\<forall>q\<in>set (succs v). tree q \<noteq> None" using good_treeD(3) [OF good v] by blast
    have total: "sum_list (map (visits tree \<circ> fst) stack) = Suc (sum_list (map (visits tree) (succs v)) + sum_list (map (visits tree \<circ> fst) rest))"
      by (simp add: Cons it visits_eq [OF good v])
    from fib_succs_effect [OF dom rtr good v e subset_refl less.prems(2,3), of rest] show ?thesis
    proof
      assume none: "fib_succs env net r tree v e (succs v) (f, rest) = None \<and> FIB_STACK_DEPTH < length rest + length (succs v)"
      have "layered r tree (map (\<lambda>s. (s, e)) (rev (succs v)) @ rest)"
        by (rule layered_step [OF good less.prems(5) [unfolded Cons it] v]) (simp add: comp_def)
      from layered_length [OF good r this] have "FIB_STACK_DEPTH < card (set domain) * card (set domain)" using none by simp
      then show ?thesis using none by (simp add: loop)
    next
      assume "\<exists>f' items. fib_succs env net r tree v e (succs v) (f, rest) = Some (f', items @ rest) \<and> map fst items = rev (succs v)
        \<and> (\<forall>it\<in>set items. hop_entry net domain r (fst it) (snd it)) \<and> finv f' \<and> fib_sound env net domain r f'
        \<and> (\<forall>k. trie_find_exact (igp_fib env) f' k \<noteq> None \<longleftrightarrow> pfx_norm k \<in> set (succs v) \<or> trie_find_exact (igp_fib env) f k \<noteq> None)"
      then obtain f' items where f': "fib_succs env net r tree v e (succs v) (f, rest) = Some (f', items @ rest)" "map fst items = rev (succs v)"
        "\<forall>it\<in>set items. hop_entry net domain r (fst it) (snd it)" "finv f'" "fib_sound env net domain r f'"
        "\<And>k. trie_find_exact (igp_fib env) f' k \<noteq> None \<longleftrightarrow> pfx_norm k \<in> set (succs v) \<or> trie_find_exact (igp_fib env) f k \<noteq> None" by blast
      have items: "fst ` set items = set (succs v)" using arg_cong [OF f'(2), of set] by simp
      have "map (visits tree \<circ> fst) items = rev (map (visits tree) (succs v))" using arg_cong [OF f'(2), of "map (visits tree)"] by (simp add: rev_map)
      then have sum: "sum_list (map (visits tree \<circ> fst) items) = sum_list (map (visits tree) (succs v))" by (simp add: sum_list_rev)
      have smaller: "sum_list (map (visits tree \<circ> fst) (items @ rest)) < sum_list (map (visits tree \<circ> fst) stack)" by (simp add: sum total)
      have norm: "pfx_norm q = q" if "tree q \<noteq> None" for q using that good_treeD(1) [OF good, of q] by auto
      have closed: "fib_closed env r tree f' (fst ` set (items @ rest))"
        unfolding fib_closed_def
      proof (intro allI impI, elim conjE)
        fix q w s assume q: "tree q = Some w" "q = pid r \<or> trie_find_exact (igp_fib env) f' q \<noteq> None" "s \<in> set (succs w)"
        have ns: "pfx_norm s = s" "pfx_norm q = q" using norm good_treeD(3) [OF good q(1,3)] q(1) by auto
        show "trie_find_exact (igp_fib env) f' s \<noteq> None \<or> q \<in> fst ` set (items @ rest)"
        proof (cases "q \<in> set (succs v)")
          case True
          then show ?thesis by (simp add: image_Un items)
        next
          case False
          then have "q = pid r \<or> trie_find_exact (igp_fib env) f q \<noteq> None" using q(2) f'(6) ns(2) by simp
          then have "trie_find_exact (igp_fib env) f s \<noteq> None \<or> q \<in> fst ` set stack"
            using less.prems(4) q(1,3) unfolding fib_closed_def by blast
          then show ?thesis using f'(6) [of s] q(1,3) v ns(1) by (auto simp: Cons it image_Un simp del: not_None_eq)
        qed
      qed
      have "\<forall>it\<in>set (items @ rest). hop_entry net domain r (fst it) (snd it) \<and> tree (fst it) \<noteq> None"
        using f'(3) items succs less.prems(1) by (auto simp: Cons simp del: not_None_eq)
      from less.hyps [OF smaller this f'(4,5) closed layered_step [OF good less.prems(5) [unfolded Cons it] v f'(2)]] show ?thesis
        using f'(1) unfolding loop by (auto simp del: not_None_eq)
    qed
  qed
qed

end

section \<open>The routes of a domain\<close>

text \<open>Networks that differ in the routing tables only.\<close>

definition same_topo :: "'t network_t \<Rightarrow> 't network_t \<Rightarrow> bool" where
  "same_topo net net' \<longleftrightarrow> net_subnets net' = net_subnets net
     \<and> (\<forall>r. map_option (\<lambda>n. (node_rid n, ifaces n)) (net_nodes net' r) = map_option (\<lambda>n. (node_rid n, ifaces n)) (net_nodes net r))"

lemma same_topo_refl: "same_topo net net"
  by (simp add: same_topo_def)

lemma same_topo_trans: "same_topo a b \<Longrightarrow> same_topo b c \<Longrightarrow> same_topo a c"
  by (simp add: same_topo_def)

lemma same_topo_set_rt: "same_topo net (node_set_rt r rt net)"
  by (simp add: same_topo_def node_set_rt_def option.map_comp comp_def)

lemma same_topo_node:
  assumes "same_topo net net'"
  shows "net_nodes net' r = None \<longleftrightarrow> net_nodes net r = None"
    "net_nodes net' r = Some n' \<Longrightarrow> \<exists>n. net_nodes net r = Some n \<and> node_rid n = node_rid n' \<and> ifaces n = ifaces n'"
    "net_nodes net r = Some n \<Longrightarrow> \<exists>n'. net_nodes net' r = Some n' \<and> node_rid n' = node_rid n \<and> ifaces n' = ifaces n"
proof -
  have eq: "map_option (\<lambda>n. (node_rid n, ifaces n)) (net_nodes net' r) = map_option (\<lambda>n. (node_rid n, ifaces n)) (net_nodes net r)"
    using assms by (simp add: same_topo_def)
  then show "net_nodes net' r = None \<longleftrightarrow> net_nodes net r = None" by (cases "net_nodes net' r"; cases "net_nodes net r") simp_all
  show "net_nodes net' r = Some n' \<Longrightarrow> \<exists>n. net_nodes net r = Some n \<and> node_rid n = node_rid n' \<and> ifaces n = ifaces n'"
    using eq by (cases "net_nodes net r") auto
  show "net_nodes net r = Some n \<Longrightarrow> \<exists>n'. net_nodes net' r = Some n' \<and> node_rid n' = node_rid n \<and> ifaces n' = ifaces n"
    using eq by (cases "net_nodes net' r") auto
qed

lemma same_topo_views:
  assumes same: "same_topo net net'"
  shows "net_subnets net' = net_subnets net" "iface_at net' = iface_at net" "elem_links net' = elem_links net"
proof -
  show subnets: "net_subnets net' = net_subnets net" using same by (simp add: same_topo_def)
  show ifaces: "iface_at net' = iface_at net"
  proof
    fix q show "iface_at net' q = iface_at net q"
      using same_topo_node [OF same, of "fst q"] by (cases "net_nodes net (fst q)") (auto simp: iface_at_def)
  qed
  show "elem_links net' = elem_links net"
  proof
    fix el show "elem_links net' el = elem_links net el"
    proof (cases el)
      case (NODE r)
      then show ?thesis using same_topo_node [OF same, of r] by (cases "net_nodes net r") (auto simp: elem_links_def)
    qed (simp_all add: elem_links_def subnets ifaces)
  qed
qed

text \<open>A domain small enough for the queue of the search.\<close>

definition search_fits :: "'t network_t \<Rightarrow> net_addr list \<Rightarrow> bool" where
  "search_fits net domain \<longleftrightarrow> search_bound (card (spt_ids net domain)) (max_cost net domain) < SPT_FIFO_DEPTH"

lemma search_fits_hops:
  assumes "topo_ok net" "rtr_net net" "card (spt_ids net domain) \<le> n" "\<forall>x y c. hop net domain x y c \<longrightarrow> c \<le> w"
    and "n * ((n - 1) * w + 1) + 1 < SPT_FIFO_DEPTH"
  shows "search_fits net domain"
proof -
  have "max_cost net domain \<le> w"
    by (rule max_cost_le(1)) (use assms(4) edge_node [OF assms(1,2)] in metis)
  then have "(card (spt_ids net domain) - 1) * max_cost net domain \<le> (n - 1) * w" using assms(3) by (intro mult_le_mono) simp_all
  from mult_le_mono [OF assms(3) add_le_mono1 [OF this, of 1]]
  have "search_bound (card (spt_ids net domain)) (max_cost net domain) \<le> n * ((n - 1) * w + 1) + 1"
    unfolding search_bound_def by (rule add_le_mono1)
  with assms(5) show ?thesis by (simp add: search_fits_def)
qed

lemma same_topo_graph:
  assumes same: "same_topo net net'"
  shows "topo_ok net' = topo_ok net" "domain_ok net' domain = domain_ok net domain" "rtr_net net' = rtr_net net" "hop net' = hop net"
    "spt_path net' = spt_path net" "spt_ids net' = spt_ids net" "search_fits net' = search_fits net"
proof -
  note views = same_topo_views [OF same]
  have dom: "dom (net_nodes net') = dom (net_nodes net)" using same_topo_node(1) [OF same] by (auto simp: dom_def simp del: not_None_eq)
  have node: "(\<forall>r n. net_nodes net' r = Some n \<longrightarrow> P r (node_rid n) (ifaces n)) \<longleftrightarrow> (\<forall>r n. net_nodes net r = Some n \<longrightarrow> P r (node_rid n) (ifaces n))" for P
    using same_topo_node(2,3) [OF same] by metis
  have "nodes_ok net' = nodes_ok net"
    unfolding nodes_ok_def dom using node [of "\<lambda>r rid is. rid = r \<and> strict_sorted_by net_links_link_compare is"] by simp
  moreover have "iface_ok net' = iface_ok net" "port_ok net' = port_ok net"
    unfolding iface_ok_def [abs_def] port_ok_def [abs_def] views by (rule refl)+
  ultimately show topo: "topo_ok net' = topo_ok net" by (simp add: topo_ok_def subnets_ok_def views)
  show "domain_ok net' domain = domain_ok net domain"
    by (simp add: domain_ok_def topo views same_topo_node(1) [OF same] del: not_None_eq)
  show "rtr_net net' = rtr_net net"
    unfolding rtr_net_def using node [of "\<lambda>r rid is. (\<exists>i\<in>set is. iface_type i = NET_IFACE_LOOPBACK)
      \<and> (\<forall>i\<in>set is. iface_type i = NET_IFACE_LOOPBACK \<and> iface_addr i = r \<or> iface_type i = NET_IFACE_RTR)"] by simp
  show "hop net' = hop net" by (intro ext, unfold hop_def views, rule refl)
  have el: "elem_in net' = elem_in net" "net_elem_prefix net' = net_elem_prefix net" 
    unfolding elem_in_def [abs_def] net_elem_prefix_def [abs_def] views by (rule refl)+
  then have id: "elem_id net' = elem_id net" by (intro ext) (simp add: elem_id_def)
  have edge: "spt_edge net' = spt_edge net"
    by (intro ext, unfold spt_edge_def link_edge_def link_get_next_elem_def views el id, rule refl)
  have "spt_path net' domain q p d = spt_path net domain q p d" for domain q p d
  proof
    show "spt_path net domain q p d" if "spt_path net' domain q p d"
      using that by (induction rule: spt_path.induct) (auto intro: spt_path.intros simp: edge)
    show "spt_path net' domain q p d" if "spt_path net domain q p d"
      using that by (induction rule: spt_path.induct) (auto intro: spt_path.intros simp: edge)
  qed
  then show "spt_path net' = spt_path net" by (simp add: fun_eq_iff)
  show ids: "spt_ids net' = spt_ids net" by (intro ext, unfold spt_ids_def el id, rule refl)
  show "search_fits net' = search_fits net" by (intro ext, unfold search_fits_def max_cost_def ids edge, rule refl)
qed

lemma same_topo_routes:
  assumes "same_topo net net'"
  shows "distance net' = distance net" "route_len net' = route_len net" "igp_route net' = igp_route net"
  unfolding distance_def [abs_def] route_len_def [abs_def] igp_route_def [abs_def] first_hop_def [abs_def] same_topo_graph [OF assms] by (rule refl)+

text \<open>The routing table of a router: routes exactly towards the routers that have a shortest path of a length the weights can represent, each
  over first hops of such paths.\<close>

definition igp_table :: "('t, 'f) igp_env \<Rightarrow> 't network_t \<Rightarrow> net_addr list \<Rightarrow> net_addr \<Rightarrow> 't \<Rightarrow> bool" where
  "igp_table env net domain r rt \<longleftrightarrow> rt_inv (igp_rt env) rt
     \<and> (\<forall>q i. pfx_wf q \<and> i \<in> set (rt_routes (igp_rt env) rt q) \<longrightarrow> (\<exists>x. pfx_norm q = pid x \<and> igp_route net domain r x i))
     \<and> (\<forall>x d. x \<noteq> r \<and> route_len net domain r x d \<and> d < 2 ^ 32 - 1 \<longrightarrow> rt_routes (igp_rt env) rt (pid x) \<noteq> [])"

definition igp_only :: "('t, 'f) igp_env \<Rightarrow> 't \<Rightarrow> bool" where
  "igp_only env rt \<longleftrightarrow> rt_inv (igp_rt env) rt
     \<and> (\<forall>q i. pfx_wf q \<and> i \<in> set (rt_routes (igp_rt env) rt q) \<longrightarrow> rt_type i = NET_ROUTE_IGP)"

context igp_tables
begin

lemma compute_fib_effect:
  assumes dom: "domain_ok net domain" and rtr: "rtr_net net" and good: "good_tree net domain r tree" and r: "r \<in> set domain"
  shows "spt_compute_fib env net r tree = None \<and> FIB_STACK_DEPTH < card (set domain) * card (set domain)
    \<or> (\<exists>f. spt_compute_fib env net r tree = Some f \<and> finv f \<and> fib_sound env net domain r f
         \<and> (\<forall>p v. tree p = Some v \<and> p \<noteq> pid r \<longrightarrow> trie_find_exact (igp_fib env) f p \<noteq> None))"
proof -
  let ?f = "trie_create (igp_fib env)" and ?stack = "[(pid r, None :: rt_entry option)]"
  have pos: "0 < card (set domain) * card (set domain)" using r by (auto simp: card_gt_0_iff)
  have items: "\<forall>it\<in>set ?stack. hop_entry net domain r (fst it) (snd it) \<and> tree (fst it) \<noteq> None"
    using good_treeD(5) [OF good] by (auto simp: hop_entry_def)
  have empty: "trie_find_exact (igp_fib env) ?f k = None" for k by (rule fib.find_create)
  have "fib_sound env net domain r ?f" "fib_closed env r tree ?f (fst ` set ?stack)" "layered r tree ?stack"
    by (simp_all add: fib_sound_def fib_closed_def layered_def empty)
  from compute_loop_effect [OF dom rtr good r items fib.inv_create this]
  consider "compute_fib_loop env net r tree ?f ?stack = None" "FIB_STACK_DEPTH < card (set domain) * card (set domain)"
    | f where "compute_fib_loop env net r tree ?f ?stack = Some f" "finv f" "fib_sound env net domain r f" "fib_closed env r tree f {}" by (elim disjE exE conjE)
  then show ?thesis
  proof cases
    case 1
    then show ?thesis by (simp add: spt_compute_fib_def)
  next
    case (2 f)
    have "trie_find_exact (igp_fib env) f p \<noteq> None" if "tree p = Some v" "p \<noteq> pid r" for p v
      using that
    proof (induction "unat (weight v)" arbitrary: p v rule: less_induct)
      case less
      obtain u vu where u: "tree u = Some vu" "p \<in> set (succs vu)" "unat (weight vu) < unat (weight v)"
        using good_treeD(4) [OF good less.prems] by blast
      have "u = pid r \<or> trie_find_exact (igp_fib env) f u \<noteq> None" using less.hyps [OF u(3,1)] by blast
      then show ?case using 2(4) u(1,2) unfolding fib_closed_def by blast
    qed
    then show ?thesis using 2 pos by (cases "0 < FIB_STACK_DEPTH") (auto simp: spt_compute_fib_def simp del: not_None_eq)
  qed
qed

lemma prefixes_effect:
  assumes "tinv rt" "rt_inv (igp_rt env) rt" "distinct (map fst es)"
    "\<forall>(k, i)\<in>set es. pfx_wf k \<and> pfx_norm k = k \<and> rt_routes (igp_rt env) rt k = []"
  shows "\<exists>rt'. igp_compute_prefixes env es rt = Some (0, rt') \<and> tinv rt' \<and> rt_inv (igp_rt env) rt'
    \<and> (\<forall>q. pfx_wf q \<longrightarrow> set (rt_routes (igp_rt env) rt' q) =
         (case map_of es (pfx_norm q) of Some i \<Rightarrow> {i} | None \<Rightarrow> set (rt_routes (igp_rt env) rt q)))"
  using assms
proof (induction es arbitrary: rt)
  case (Cons e es)
  obtain k i where e: "e = (k, i)" by (cases e)
  have k: "pfx_wf k" "pfx_norm k = k" "rt_routes (igp_rt env) rt k = []" "k \<notin> fst ` set es" using Cons.prems(3,4) by (auto simp: e)
  obtain rt1 where rt1: "rt_add_route (igp_rt env) rt k i = Some (ESUCCESS, rt1)" "tinv rt1" "rt_inv (igp_rt env) rt1"
      "set (rt_routes (igp_rt env) rt1 k) = {i}"
      "\<forall>q. pfx_norm q \<noteq> k \<longrightarrow> rt_routes (igp_rt env) rt1 q = rt_routes (igp_rt env) rt q"
    by (rule add_route_effect [OF Cons.prems(1,2) k(1), of i]) (use k(2,3) in simp_all)
  have "\<forall>(k', i)\<in>set es. pfx_wf k' \<and> pfx_norm k' = k' \<and> rt_routes (igp_rt env) rt1 k' = []"
    using Cons.prems(4) k(4) rt1(5) by (force simp: e)
  with Cons.IH [OF rt1(2,3)] Cons.prems(3) obtain rt' where rt': "igp_compute_prefixes env es rt1 = Some (0, rt')" "tinv rt'"
      "rt_inv (igp_rt env) rt'" "\<forall>q. pfx_wf q \<longrightarrow> set (rt_routes (igp_rt env) rt' q) =
         (case map_of es (pfx_norm q) of Some i \<Rightarrow> {i} | None \<Rightarrow> set (rt_routes (igp_rt env) rt1 q))" by auto
  have same: "rt_routes (igp_rt env) rt1 q = rt_routes (igp_rt env) rt1 k" if "pfx_norm q = k" for q
    using fib.find_norm find_same_norm [OF rt1(2), of q k] that k(2) by (simp add: rt_routes_def)
  have none: "map_of es k = None" using k(4) by (simp add: map_of_eq_None_iff)
  show ?case
  proof (intro exI conjI allI impI)
    show "igp_compute_prefixes env (e # es) rt = Some (0, rt')" using rt1(1) rt'(1) by (simp add: e error_codes)
    show "set (rt_routes (igp_rt env) rt' q) = (case map_of (e # es) (pfx_norm q) of Some i \<Rightarrow> {i} | None \<Rightarrow> set (rt_routes (igp_rt env) rt q))"
      if q: "pfx_wf q" for q
    proof (cases "pfx_norm q = k")
      case True
      then show ?thesis using rt'(4) q none same [OF True] rt1(4) by (simp add: e)
    next
      case False
      then show ?thesis using rt'(4) q rt1(5) by (simp add: e split: option.splits)
    qed
  qed (rule rt'(2), rule rt'(3))
qed simp

lemma compute_router_effect:
  assumes dom: "domain_ok net domain" and rtr: "rtr_net net" and r: "r \<in> set domain" and node: "net_nodes net r = Some node"
    and rt: "tinv (node_rt node)" "igp_only env (node_rt node)"
  shows "igp_compute_router env domain r net = None
      \<and> (FIB_STACK_DEPTH < card (set domain) * card (set domain) \<or> \<not> search_fits net domain)
    \<or> (\<exists>rt'. igp_compute_router env domain r net = Some (ESUCCESS, node_set_rt r rt' net) \<and> tinv rt' \<and> igp_table env net domain r rt')"
proof -
  obtain rt1 where rt1: "rt_del_route (igp_rt env) (node_rt node) None None None NET_ROUTE_IGP = Some (0, rt1)" "tinv rt1" "rt_inv (igp_rt env) rt1"
    "\<And>q. pfx_wf q \<Longrightarrow> rt_routes (igp_rt env) rt1 q =
       filter (\<lambda>i. NET_ROUTE_IGP \<noteq> NET_ROUTE_ANY \<and> rt_type i \<noteq> NET_ROUTE_IGP) (rt_routes (igp_rt env) (node_rt node) q)"
    using del_type_effect [OF rt(1)] rt(2) unfolding igp_only_def by metis
  have empty: "rt_routes (igp_rt env) rt1 q = []" if "pfx_wf q" for q
    using rt1(4) [OF that] rt(2) that by (auto simp: igp_only_def filter_empty_conv)
  define net1 where "net1 = node_set_rt r rt1 net"
  have same: "same_topo net net1" unfolding net1_def by (rule same_topo_set_rt)
  note graph = same_topo_graph [OF same] same_topo_routes [OF same]
  have dom1: "domain_ok net1 domain" "rtr_net net1" using dom rtr by (simp_all add: graph)
  have run: "igp_compute_router env domain r net = do {
      tree \<leftarrow> spt_bfs net1 (igp_vadd env) SPT_FIFO_DEPTH r domain;
      fib \<leftarrow> spt_compute_fib env net1 r tree;
      (result, rt) \<leftarrow> igp_compute_prefixes env (trie_entries (igp_fib env) fib) rt1;
      Some (result, node_set_rt r rt net1) }"
    using node rt1(1) by (simp add: igp_compute_router_def net1_def Let_def)
  show ?thesis
  proof (cases "spt_bfs net1 (igp_vadd env) SPT_FIFO_DEPTH r domain")
    case None
    have "\<not> search_fits net1 domain"
    proof
      assume "search_fits net1 domain"
      then have fit: "search_bound (card (spt_ids net1 domain)) (max_cost net1 domain) < SPT_FIFO_DEPTH" by (simp add: search_fits_def)
      have "\<forall>p q c. spt_edge net1 domain p q c \<longrightarrow> c \<le> max_cost net1 domain" using max_cost_le(2) by blast
      from spt_bfs_total [OF verts.gds_ptr_array_axioms dom1(1) r order_refl this fit] None show False by auto
    qed
    then have "\<not> search_fits net domain" by (simp add: graph)
    then show ?thesis using None by (simp add: run)
  next
    case (Some tree)
    have good: "good_tree net1 domain r tree" by (rule spt_bfs_good [OF verts.gds_ptr_array_axioms dom1 r Some])
    from compute_fib_effect [OF dom1 good r] consider "spt_compute_fib env net1 r tree = None" "FIB_STACK_DEPTH < card (set domain) * card (set domain)"
      | f where "spt_compute_fib env net1 r tree = Some f" "finv f" "fib_sound env net1 domain r f"
        "\<forall>p v. tree p = Some v \<and> p \<noteq> pid r \<longrightarrow> trie_find_exact (igp_fib env) f p \<noteq> None" by (elim disjE exE conjE)
    then show ?thesis
    proof cases
      case 1
      then show ?thesis using Some by (simp add: run)
    next
      case (2 f)
      define es where "es = trie_entries (igp_fib env) f"
      have es: "distinct (map fst es)" "\<And>k i. (k, i) \<in> set es \<longleftrightarrow> pfx_wf k \<and> pfx_norm k = k \<and> trie_find_exact (igp_fib env) f k = Some i"
        by (simp_all add: es_def fib.entries_distinct fib.entries_iff 2(2))
      have "\<forall>(k, i)\<in>set es. pfx_wf k \<and> pfx_norm k = k \<and> rt_routes (igp_rt env) rt1 k = []" using es(2) empty by auto
      from prefixes_effect [OF rt1(2,3) es(1) this] obtain rt2 where rt2: "igp_compute_prefixes env es rt1 = Some (0, rt2)" "tinv rt2"
        "rt_inv (igp_rt env) rt2" and routes2: "\<forall>q. pfx_wf q \<longrightarrow> set (rt_routes (igp_rt env) rt2 q) =
           (case map_of es (pfx_norm q) of Some i \<Rightarrow> {i} | None \<Rightarrow> set (rt_routes (igp_rt env) rt1 q))" by blast
      have routes: "set (rt_routes (igp_rt env) rt2 q) = (case map_of es (pfx_norm q) of Some i \<Rightarrow> {i} | None \<Rightarrow> {})" if "pfx_wf q" for q
        using routes2 that empty [OF that] by (simp split: option.splits)
      have map_es: "map_of es k = Some i \<longleftrightarrow> (k, i) \<in> set es" for k i using es(1) by (simp add: map_of_eq_Some_iff)
      have "\<exists>x. pfx_norm q = pid x \<and> igp_route net domain r x i" if "pfx_wf q" "i \<in> set (rt_routes (igp_rt env) rt2 q)" for q i
      proof -
        have "map_of es (pfx_norm q) = Some i" using routes [OF that(1)] that(2) by (auto split: option.splits)
        then have "trie_find_exact (igp_fib env) f (pfx_norm q) = Some i" using map_es es(2) by blast
        then show ?thesis using 2(3) unfolding fib_sound_def graph by fastforce
      qed
      moreover have "rt_routes (igp_rt env) rt2 (pid x) \<noteq> []" if ne: "x \<noteq> r" and len: "route_len net domain r x d" "d < 2 ^ 32 - 1" for x d
      proof -
        have "tree (pid x) \<noteq> None" by (rule good_treeD(2) [OF good _ len(2)]) (use len(1) in \<open>simp add: graph\<close>)
        then have "trie_find_exact (igp_fib env) f (pid x) \<noteq> None" using 2(4) ne by auto
        then obtain i where "trie_find_exact (igp_fib env) f (pid x) = Some i" by blast
        then have "map_of es (pid x) = Some i" by (simp add: map_es es(2))
        then have "set (rt_routes (igp_rt env) rt2 (pid x)) = {i}" using routes [of "pid x"] by simp
        then show ?thesis by auto
      qed
      ultimately have "igp_table env net domain r rt2" unfolding igp_table_def using rt2(3) by blast
      moreover have "node_set_rt r rt2 net1 = node_set_rt r rt2 net"
        using node by (simp add: net1_def node_set_rt_def)
      ultimately show ?thesis using Some 2(1) rt2(1,2) by (intro disjI2 exI [of _ rt2]) (simp add: run es_def [symmetric] error_codes)
    qed
  qed
qed

lemma compute_routers_effect:
  assumes "distinct rs" "set rs \<subseteq> set domain" "domain_ok net domain" "rtr_net net"
    and "\<forall>r node. r \<in> set rs \<and> net_nodes net r = Some node \<longrightarrow> tinv (node_rt node) \<and> igp_only env (node_rt node)"
  shows "igp_compute_routers env domain rs net = None
      \<and> (FIB_STACK_DEPTH < card (set domain) * card (set domain) \<or> \<not> search_fits net domain)
    \<or> (\<exists>net'. igp_compute_routers env domain rs net = Some (ESUCCESS, net') \<and> same_topo net net'
         \<and> (\<forall>r. r \<notin> set rs \<longrightarrow> net_nodes net' r = net_nodes net r)
         \<and> (\<forall>r\<in>set rs. \<exists>node. net_nodes net' r = Some node \<and> tinv (node_rt node) \<and> igp_table env net domain r (node_rt node)))"
  using assms
proof (induction rs arbitrary: net)
  case (Cons r rs)
  have r: "r \<in> set domain" "r \<notin> set rs" using Cons.prems(1,2) by auto
  obtain node where node: "net_nodes net r = Some node" using Cons.prems(3) r(1) by (auto simp: domain_ok_def)
  have rt: "tinv (node_rt node)" "igp_only env (node_rt node)" using Cons.prems(5) node by auto
  from compute_router_effect [OF Cons.prems(3,4) r(1) node rt] show ?case
  proof
    assume "\<exists>rt'. igp_compute_router env domain r net = Some (ESUCCESS, node_set_rt r rt' net) \<and> tinv rt' \<and> igp_table env net domain r rt'"
    then obtain rt' where rt': "igp_compute_router env domain r net = Some (ESUCCESS, node_set_rt r rt' net)" "tinv rt'" "igp_table env net domain r rt'"
      by blast
    let ?net = "node_set_rt r rt' net"
    have same: "same_topo net ?net" by (rule same_topo_set_rt)
    note graph = same_topo_graph [OF same] same_topo_routes [OF same]
    have step: "igp_compute_routers env domain (r # rs) net = igp_compute_routers env domain rs ?net" using rt'(1) by simp
    have others: "net_nodes ?net x = net_nodes net x" if "x \<noteq> r" for x using that by (simp add: node_set_rt_def)
    have table: "igp_table env ?net = igp_table env net" unfolding igp_table_def [abs_def] graph by (rule refl)
    have this_node: "net_nodes ?net r = Some (node\<lparr>node_rt := rt'\<rparr>)" using node by (simp add: node_set_rt_def)
    have "igp_compute_routers env domain rs ?net = None
        \<and> (FIB_STACK_DEPTH < card (set domain) * card (set domain) \<or> \<not> search_fits ?net domain)
      \<or> (\<exists>net'. igp_compute_routers env domain rs ?net = Some (ESUCCESS, net') \<and> same_topo ?net net'
           \<and> (\<forall>r. r \<notin> set rs \<longrightarrow> net_nodes net' r = net_nodes ?net r)
           \<and> (\<forall>r\<in>set rs. \<exists>node. net_nodes net' r = Some node \<and> tinv (node_rt node) \<and> igp_table env ?net domain r (node_rt node)))"
    proof (rule Cons.IH)
      show "\<forall>x node. x \<in> set rs \<and> net_nodes ?net x = Some node \<longrightarrow> tinv (node_rt node) \<and> igp_only env (node_rt node)"
        using Cons.prems(5) r(2) others by (metis list.set_intros(2))
    qed (use Cons.prems in \<open>simp_all add: graph\<close>)
    then show ?thesis
    proof
      assume "\<exists>net'. igp_compute_routers env domain rs ?net = Some (ESUCCESS, net') \<and> same_topo ?net net'
           \<and> (\<forall>r. r \<notin> set rs \<longrightarrow> net_nodes net' r = net_nodes ?net r)
           \<and> (\<forall>r\<in>set rs. \<exists>node. net_nodes net' r = Some node \<and> tinv (node_rt node) \<and> igp_table env ?net domain r (node_rt node))"
      then obtain net' where net': "igp_compute_routers env domain rs ?net = Some (ESUCCESS, net')" "same_topo ?net net'"
        "\<forall>r. r \<notin> set rs \<longrightarrow> net_nodes net' r = net_nodes ?net r"
        "\<forall>r\<in>set rs. \<exists>node. net_nodes net' r = Some node \<and> tinv (node_rt node) \<and> igp_table env ?net domain r (node_rt node)" by blast
      have "net_nodes net' r = Some (node\<lparr>node_rt := rt'\<rparr>)" using net'(3) r(2) this_node by simp
      then show ?thesis using net' rt' same_topo_trans [OF same net'(2)] others
        by (intro disjI2 exI [of _ net']) (auto simp: step table)
    next
      assume "igp_compute_routers env domain rs ?net = None
        \<and> (FIB_STACK_DEPTH < card (set domain) * card (set domain) \<or> \<not> search_fits ?net domain)"
      then show ?thesis unfolding step graph by blast
    qed
  next
    assume "igp_compute_router env domain r net = None
      \<and> (FIB_STACK_DEPTH < card (set domain) * card (set domain) \<or> \<not> search_fits net domain)"
    then show ?thesis by simp
  qed
qed (simp add: same_topo_refl)

end

section \<open>Forwarding over the routes of a domain\<close>

text \<open>A network whose routers all belong to a domain and have the routes of the domain.\<close>

definition igp_routed :: "('t, 'f) igp_env \<Rightarrow> ('t \<Rightarrow> bool) \<Rightarrow> net_addr list \<Rightarrow> ('t, 'p, 'u) ip_env \<Rightarrow> bool" where
  "igp_routed env tinv domain ip \<longleftrightarrow> ip_rt ip = igp_rt env \<and> domain_ok (ip_network ip) domain \<and> rtr_net (ip_network ip)
     \<and> dom (net_nodes (ip_network ip)) = set domain \<and> 0 \<notin> set domain
     \<and> (\<forall>q. ip_tunnels ip q = None) \<and> (\<forall>r. NET_PROTOCOL_ICMP \<in> set (ip_protocols ip r))
     \<and> (\<forall>r node. net_nodes (ip_network ip) r = Some node \<longrightarrow>
          tinv (node_rt node) \<and> igp_table env (ip_network ip) domain r (node_rt node))"

lemma addrs_pid:
  assumes "pfx_wf q" "pfx_norm q = pid x" "a \<in> pfx_addrs q"
  shows "a = x"
proof -
  have "pfx_addrs q = pfx_addrs (pid x)" using pfx_addrs_norm [OF assms(1)] assms(2) by simp
  then show ?thesis using assms(3) pfx_addrs_host [of x] by (simp add: net_iface_id_addr_def)
qed

context igp_tables
begin

lemma igp_lookup:
  assumes rt: "tinv rt" and table: "igp_table env net domain r rt"
  obtains (none) "node_rt_lookup2 (igp_rt env) rt a = Some None" "\<And>d. a \<noteq> r \<Longrightarrow> route_len net domain r a d \<Longrightarrow> \<not> d < 2 ^ 32 - 1"
  | (some) info where "node_rt_lookup2 (igp_rt env) rt a = Some (Some info)" "igp_route net domain r a info"
proof -
  have inv: "rt_inv (igp_rt env) rt" using table by (simp add: igp_table_def)
  have host: "pfx_wf (pid a)" "a \<in> pfx_addrs (pid a)" using pfx_addrs_host [of a] by (simp_all add: net_iface_id_addr_def pfx_wf_def)
  show thesis
  proof (cases rule: find_best_cases [OF rt inv, of a])
    case 1
    then have "rt_routes (igp_rt env) rt (pid a) = []" using host by blast
    then show thesis using that(1) 1(1) table unfolding igp_table_def
      by (simp add: node_rt_lookup2_def rt_find_best_def) blast
  next
    case (2 q)
    have x: "igp_route net domain r a i" if "i \<in> set (rt_routes (igp_rt env) rt q)" for i
      using table 2(2,3) that addrs_pid [OF 2(2) _ 2(3)] unfolding igp_table_def by metis
    obtain i "is" where "rt_routes (igp_rt env) rt q = i # is" using 2(4) by (cases "rt_routes (igp_rt env) rt q") (auto simp: infos_ok_def)
    moreover from this have i: "igp_route net domain r a i" using x by simp
    moreover have "rt_type i \<noteq> 0" using i by (simp add: igp_route_def NET_ROUTE_IGP_def)
    ultimately have "node_rt_lookup2 (igp_rt env) rt a = Some (Some i)"
      using 2 by (simp add: node_rt_lookup2_def rt_find_best_def first_of_type_ok and_any)
    then show thesis using that(2) i by blast
  qed
qed

lemma igp_routedD:
  assumes "igp_routed env tinv domain ip"
  shows "domain_ok (ip_network ip) domain" "topo_ok (ip_network ip)" "rtr_net (ip_network ip)" "r \<in> set domain \<Longrightarrow> r \<noteq> 0"
    "r \<in> set domain \<Longrightarrow> \<exists>node. net_nodes (ip_network ip) r = Some node"
    "net_nodes (ip_network ip) r = Some node \<Longrightarrow> r \<in> set domain"
  using assms by (auto simp: igp_routed_def domain_ok_def)

lemma igp_routed_lookup:
  assumes ip: "igp_routed env tinv domain ip" and node: "net_nodes (ip_network ip) r = Some node"
  obtains (none) "node_rt_lookup2 (ip_rt ip) (node_rt node) a = Some None" "rt_lookup ip r a = None"
      "\<And>d. a \<noteq> r \<Longrightarrow> route_len (ip_network ip) domain r a d \<Longrightarrow> \<not> d < 2 ^ 32 - 1"
  | (some) info h where "node_rt_lookup2 (ip_rt ip) (node_rt node) a = Some (Some info)" "rt_lookup ip r a = Some info"
      "entries info \<noteq> []" "entries info ! 0 = rt_entry_create h IP_ADDR_ANY" "first_hop (ip_network ip) domain r a h"
proof -
  have rt: "tinv (node_rt node)" "igp_table env (ip_network ip) domain r (node_rt node)" "ip_rt ip = igp_rt env"
    using ip node by (auto simp: igp_routed_def)
  show thesis
  proof (cases rule: igp_lookup [OF rt(1,2), of a])
    case 1
    then show thesis using node rt(3) by (intro none) (auto simp: rt_lookup_def)
  next
    case (2 info)
    then have e: "entries info \<noteq> []" "\<forall>e\<in>set (entries info). \<exists>h. e = rt_entry_create h IP_ADDR_ANY \<and> first_hop (ip_network ip) domain r a h"
      by (auto simp: igp_route_def)
    then obtain h where "entries info ! 0 = rt_entry_create h IP_ADDR_ANY" "first_hop (ip_network ip) domain r a h"
      by (meson length_greater_0_conv nth_mem)
    then show thesis using 2 e(1) node rt(3) by (intro some [of info h]) (simp_all add: rt_lookup_def)
  qed
qed

lemma igp_fwd_ok:
  assumes ip: "igp_routed env tinv domain ip"
  shows "fwd_ok ip"
proof -
  have "node_rt_lookup2 (ip_rt ip) (node_rt node) a \<noteq> None \<and> (\<forall>info. rt_lookup ip r a = Some info \<longrightarrow> route_ok ip r info)"
    if node: "net_nodes (ip_network ip) r = Some node" for r node a
  proof (cases rule: igp_routed_lookup [OF ip node, of a])
    case 1
    then show ?thesis by simp
  next
    case (2 info h)
    obtain i where "iface_at (ip_network ip) (r, h) = Some i" "iface_type i = NET_IFACE_RTR" using 2(5) by (auto simp: first_hop_def hop_def)
    moreover have "r \<noteq> 0" using igp_routedD(4,6) [OF ip] node by blast
    ultimately have "route_ok ip r info"
      using 2(3,4) by (auto simp: route_ok_def rt_entry_create_def iface_ref_of_def sends_on_def net_iface_src_address_def IP_ADDR_ANY_def)
    then show ?thesis using 2(1,2) by simp
  qed
  then show ?thesis using ip igp_routedD(2) [OF ip] unfolding fwd_ok_def igp_routed_def by blast
qed

lemma igp_local:
  assumes ip: "igp_routed env tinv domain ip" and r: "r \<in> set domain"
  shows "is_local ip r a \<longleftrightarrow> a = r"
proof -
  obtain node where node: "net_nodes (ip_network ip) r = Some node" using igp_routedD(5) [OF ip r] by blast
  obtain i where i: "i \<in> set (ifaces node)" "iface_type i = NET_IFACE_LOOPBACK"
    and kind: "\<forall>i\<in>set (ifaces node). iface_type i = NET_IFACE_LOOPBACK \<and> iface_addr i = r \<or> iface_type i = NET_IFACE_RTR"
    using igp_routedD(3) [OF ip] node unfolding rtr_net_def by blast
  have "iface_addr i = r" using i kind by auto
  then have "(\<exists>i\<in>set (ifaces node). iface_type i \<noteq> NET_IFACE_RTR \<and> iface_addr i = a) \<longleftrightarrow> a = r"
    using i kind by (metis iface_type.distinct(1))
  then show ?thesis using node by (auto simp: is_local_def node_has_address_def list_ex_iff net_iface_has_address_def)
qed

text \<open>A router sends a message for another router to the first hop of a shortest path.\<close>

lemma igp_depart:
  assumes ip: "igp_routed env tinv domain ip" and r: "r \<in> set domain" and a: "a \<noteq> r"
    and dist: "distance (ip_network ip) domain r a d" "d < 2 ^ 32 - 1"
  obtains h c d' where "depart ip r a = To (h, r)" "source_addr ip r IP_ADDR_ANY a = r" "hop (ip_network ip) domain r h c"
    "distance (ip_network ip) domain h a d'" "d = c + d'"
proof -
  obtain node where node: "net_nodes (ip_network ip) r = Some node" using igp_routedD(5) [OF ip r] by blast
  show thesis
  proof (cases rule: igp_routed_lookup [OF ip node, of a])
    case 1
    then show thesis using a dist by (auto simp: distance_def)
  next
    case (2 info h)
    obtain c d' where c: "hop (ip_network ip) domain r h c" "route_len (ip_network ip) domain h a d'" "distance (ip_network ip) domain r a (c + d')"
      using 2(5) by (auto simp: first_hop_def)
    obtain i where i: "iface_at (ip_network ip) (r, h) = Some i" "iface_type i = NET_IFACE_RTR" "iface_connected i" "net_iface_is_enabled i"
      using c(1) by (auto simp: hop_def)
    have "iface_dest i = Some (DstIface (h, r))" using topo_okD [OF igp_routedD(2) [OF ip] i(1)] i by (simp add: iface_ok_def)
    then have "depart ip r a = To (h, r)"
      using 2(2,4) i by (simp add: depart_def egress_def rt_entry_create_def iface_ref_of_def link_end_def net_iface_is_connected_def)
    moreover have "source_addr ip r IP_ADDR_ANY a = r"
      using 2(2,4) i igp_local [OF ip r] a
      by (simp add: source_addr_def egress_def rt_entry_create_def iface_ref_of_def net_iface_src_address_def)
    moreover have "distance (ip_network ip) domain h a d'" by (rule distance_rest [OF igp_routedD(1) [OF ip] c])
    moreover have "d = c + d'" by (rule distance_unique [OF dist(1) c(3)])
    ultimately show thesis using c(1) by (intro that)
  qed
qed

end

text \<open>The routers nearer to a destination than a given one.\<close>

definition nearer :: "'t network_t \<Rightarrow> net_addr list \<Rightarrow> net_addr \<Rightarrow> nat \<Rightarrow> net_addr set" where
  "nearer net domain a d = {y \<in> set domain. \<exists>d'. distance net domain y a d' \<and> d' < d}"

lemma nearer_hop:
  assumes "hop net domain r h c" "distance net domain h a d'"
  shows "card (nearer net domain a d') < card (nearer net domain a (c + d'))"
proof (rule psubset_card_mono)
  show "finite (nearer net domain a (c + d'))" by (simp add: nearer_def)
  have "h \<in> nearer net domain a (c + d')" using assms hop_pos [OF assms(1)] by (auto simp: nearer_def hop_def)
  moreover have "h \<notin> nearer net domain a d'" using distance_unique [OF assms(2)] by (auto simp: nearer_def)
  moreover have "nearer net domain a d' \<subseteq> nearer net domain a (c + d')" by (auto simp: nearer_def)
  ultimately show "nearer net domain a d' \<subset> nearer net domain a (c + d')" by blast
qed

context igp_tables
begin

lemma igp_walk:
  assumes ip: "igp_routed env tinv domain ip" and a: "a \<in> set domain"
  shows "x \<in> set domain \<Longrightarrow> distance (ip_network ip) domain x a d \<Longrightarrow> d < 2 ^ 32 - 1 \<Longrightarrow>
    card (nearer (ip_network ip) domain a d) < t \<Longrightarrow> walk ip t x a = Arrived a"
proof (induction t arbitrary: x d)
  case (Suc t)
  show ?case
  proof (cases "a = x")
    case True
    then show ?thesis using igp_local [OF ip Suc.prems(1)] by simp
  next
    case False
    obtain h c d' where h: "depart ip x a = To (h, x)" "hop (ip_network ip) domain x h c" "distance (ip_network ip) domain h a d'" "d = c + d'"
      by (rule igp_depart [OF ip Suc.prems(1) False Suc.prems(2,3)])
    have "card (nearer (ip_network ip) domain a d') < t" using nearer_hop [OF h(2,3)] Suc.prems(4) h(4) by simp
    moreover from this have "walk ip t h a = Arrived a"
      using Suc.IH [of h d'] h Suc.prems(3) by (simp add: hop_def)
    ultimately show ?thesis using h(1) False igp_local [OF ip Suc.prems(1)] by simp
  qed
qed simp

lemma igp_journey:
  assumes ip: "igp_routed env tinv domain ip" and small: "card (set domain) \<le> 256" and r: "r \<in> set domain" and a: "a \<in> set domain"
    and len: "route_len (ip_network ip) domain r a d" "d < 2 ^ 32 - 1"
  shows "journey ip 255 r a = Arrived a" "source_addr ip r IP_ADDR_ANY a = r"
proof -
  obtain d' where d': "distance (ip_network ip) domain r a d'" "d' < 2 ^ 32 - 1" using route_len_distance [OF len(1)] len(2) by force
  have "journey ip 255 r a = Arrived a \<and> source_addr ip r IP_ADDR_ANY a = r"
  proof (cases "a = r")
    case True
    then show ?thesis using igp_local [OF ip r] by (simp add: journey_def source_addr_def)
  next
    case False
    obtain h c e where h: "depart ip r a = To (h, r)" "source_addr ip r IP_ADDR_ANY a = r" "hop (ip_network ip) domain r h c"
      "distance (ip_network ip) domain h a e" "d' = c + e"
      by (rule igp_depart [OF ip r False d'])
    let ?n = "nearer (ip_network ip) domain a"
    have "r \<notin> ?n d'" using distance_unique [OF d'(1)] by (auto simp: nearer_def)
    then have "?n d' \<subseteq> set domain - {r}" by (auto simp: nearer_def)
    then have "card (?n d') \<le> card (set domain - {r})" by (intro card_mono) simp_all
    then have "card (?n d') < 256" using r small by (simp add: card_Diff_singleton)
    then have "card (?n e) < 255" using nearer_hop [OF h(3,4)] h(5) by simp
    then have "walk ip 255 h a = Arrived a" by (intro igp_walk [OF ip a _ h(4)]) (use h(3,5) d'(2) in \<open>simp_all add: hop_def\<close>)
    then show ?thesis using h(1,2) False igp_local [OF ip r] by (simp add: journey_def)
  qed
  then show "journey ip 255 r a = Arrived a" "source_addr ip r IP_ADDR_ANY a = r" by simp_all
qed

end

text \<open>The set of routers of a domain: every router is stored under its own address.\<close>

definition domain_keys :: "('d, net_addr) trie_ops \<Rightarrow> ('d \<Rightarrow> bool) \<Rightarrow> 'd igp_domain \<Rightarrow> bool" where
  "domain_keys dops dinv domain \<longleftrightarrow> dinv (domain_routers domain)
     \<and> (\<forall>k r. trie_find_exact dops (domain_routers domain) k = Some r \<longrightarrow> pfx_norm k = pid r)"

text \<open>The trie of the routers of a domain; an insertion that may not replace leaves a trie with the key as it is.\<close>

locale igp_domains = gds_trie ops inv for ops :: "('d, net_addr) trie_ops" and inv :: "'d \<Rightarrow> bool" +
  assumes insert_present: "inv t \<Longrightarrow> pfx_wf p \<Longrightarrow> trie_find_exact ops t p \<noteq> None \<Longrightarrow> fst (trie_insert ops t p v False) = t"
begin

lemma domain_keys_create: "domain_keys ops inv (igp_domain_create ops i type)" "set (routers_of ops (igp_domain_create ops i type)) = {}"
proof -
  have "(k, v) \<notin> set (trie_entries ops (trie_create ops))" for k v by (simp add: entries_iff [OF inv_create] find_create)
  then have "trie_entries ops (trie_create ops) = []" by (cases "trie_entries ops (trie_create ops)") (simp, metis list.set_intros(1) prod.collapse)
  then show "domain_keys ops inv (igp_domain_create ops i type)" "set (routers_of ops (igp_domain_create ops i type)) = {}"
    by (simp_all add: domain_keys_def igp_domain_create_def inv_create find_create routers_of_def)
qed

lemma domain_keys_routers:
  assumes "domain_keys ops inv domain"
  shows "distinct (routers_of ops domain)" "r \<in> set (routers_of ops domain) \<longleftrightarrow> trie_find_exact ops (domain_routers domain) (pid r) = Some r"
proof -
  let ?es = "trie_entries ops (domain_routers domain)"
  have inv: "inv (domain_routers domain)" using assms by (simp add: domain_keys_def)
  have mem: "(k, x) \<in> set ?es \<longleftrightarrow> k = pid x \<and> trie_find_exact ops (domain_routers domain) k = Some x" for k x
    using assms by (auto simp: entries_iff [OF inv] domain_keys_def)
  have "map fst ?es = map pid (map snd ?es)" using mem by (auto simp: comp_def)
  then have "distinct (map pid (routers_of ops domain))" using entries_distinct [OF inv] by (simp add: routers_of_def del: map_map)
  then show "distinct (routers_of ops domain)" by (simp add: distinct_map)
  show "r \<in> set (routers_of ops domain) \<longleftrightarrow> trie_find_exact ops (domain_routers domain) (pid r) = Some r"
    using mem by (force simp: routers_of_def)
qed

lemma domain_keys_add:
  assumes keys: "domain_keys ops inv domain" and node: "net_nodes net r = Some node" "node_rid node = r"
    and add: "igp_domain_add_router ops iadd r domain net = Some (added, domain', net')"
  shows "domain_keys ops inv domain'" "set (routers_of ops domain') = insert r (set (routers_of ops domain))"
proof -
  let ?t = "domain_routers domain"
  have inv: "inv ?t" using keys by (simp add: domain_keys_def)
  have d': "domain_routers domain' = fst (trie_insert ops ?t (pid r) r False)"
    using add node by (auto simp: igp_domain_add_router_def net_iface_id_addr_def Let_def elim!: bind_SomeE)
  have find: "trie_find_exact ops (domain_routers domain') k = (if pfx_norm k = pid r then Some r else trie_find_exact ops ?t k)" for k
  proof (cases "trie_find_exact ops ?t (pid r)")
    case None
    then show ?thesis by (simp add: d' find_insert [OF inv])
  next
    case (Some x)
    then have "pfx_norm (pid r) = pid x" using keys unfolding domain_keys_def by blast
    then have "x = r" by simp
    then show ?thesis using Some insert_present [OF inv, of "pid r"] find_norm [OF inv, of k] by (auto simp: d')
  qed
  have "inv (domain_routers domain')" by (simp add: d' inv_insert [OF inv])
  then show keys': "domain_keys ops inv domain'" using keys by (auto simp: domain_keys_def find)
  show "set (routers_of ops domain') = insert r (set (routers_of ops domain))"
  proof (rule set_eqI)
    fix x show "x \<in> set (routers_of ops domain') \<longleftrightarrow> x \<in> insert r (set (routers_of ops domain))"
      by (cases "x = r") (simp_all add: domain_keys_routers(2) [OF keys] domain_keys_routers(2) [OF keys'] find)
  qed
qed

end

interpretation alist_domains: igp_domains alist_trie_ops alist_trie_inv
  by unfold_locales (auto simp: alist_trie_ops_def)

section \<open>Two routers with routes\<close>

definition alist_igp_env :: "(rt_info list alist_trie, rt_info alist_trie) igp_env" where
  "alist_igp_env = \<lparr>igp_rt = alist_rt_env, igp_fib = alist_trie_ops, igp_vadd = vertices_add\<rparr>"

interpretation alist_igp: igp_tables alist_igp_env alist_trie_inv alist_trie_inv
  unfolding igp_tables_def
  by (simp add: alist_igp_env_def alist_rt.routing_table_axioms alist.gds_trie_axioms vertices.gds_ptr_array_axioms)
    (simp add: alist_rt_env_def insort.gds_sorted_array_axioms)

text \<open>The two routers of \<open>duo\<close> with the weight 5 on their link and empty routing tables.\<close>

definition duo_weighted :: "rt_info list alist_trie network_t" where
  "duo_weighted = \<lparr>net_nodes =
     [1 \<mapsto> \<lparr>node_rid = 1, ifaces = [duo_loop 1, (duo_link 1 2)\<lparr>iface_weights := [5]\<rparr>], node_rt = [], node_domains = []\<rparr>,
      2 \<mapsto> \<lparr>node_rid = 2, ifaces = [(duo_link 2 1)\<lparr>iface_weights := [5]\<rparr>, duo_loop 2], node_rt = [], node_domains = []\<rparr>],
     net_subnets = Map.empty\<rparr>"

lemma duo_weighted_built: "net_iface_set_metric (1, 2) 0 5 BIDIR (duo [] []) = Some (ESUCCESS, duo_weighted)"
  by (simp add: net_iface_set_metric_def iface_set_attr_def iface_at_def duo_def duo_weighted_def net_links_find_def duo_loop_def duo_link_def
      fresh_iface_def net_iface_id_addr_def iface_modify_def on_success_def error_codes net_iface_get_reverse_def net_iface_is_bidir_def net_iface_is_connected_def fun_eq_iff)

definition duo_domain :: "net_addr alist_trie igp_domain" where
  "duo_domain = \<lparr>domain_id = 1, domain_type = IGP_DOMAIN_IGP, domain_routers = [(pid 1, 1), (pid 2, 2)]\<rparr>"

definition duo_ip :: "(rt_info list alist_trie, unit, unit) ip_env" where
  "duo_ip = duo_env\<lparr>ip_network := duo_weighted\<rparr>"

lemma duo_domain_keys: "domain_keys alist_trie_ops alist_trie_inv duo_domain" "routers_of alist_trie_ops duo_domain = [1, 2]"
  by (auto simp: domain_keys_def duo_domain_def alist_trie_ops_def alist_trie_inv_def routers_of_def split: if_splits)

lemma duo_weighted_ok: "domain_ok duo_weighted [1, 2]" "rtr_net duo_weighted"
proof -
  have at: "\<exists>i. iface_at (duo [] []) (1, 2) = Some i" by (simp add: iface_at_def duo_def net_links_find_def duo_loop_def duo_link_def fresh_iface_def net_iface_id_addr_def)
  have "topo_run sample_net_env (duo [] [])"
    by (rule run_step [OF duo_nodes_run step_rtr [OF _ _ duo_built]]) (simp_all add: duo_nodes_def)
  then have "topo_run sample_net_env duo_weighted" using at step_metric [OF _ duo_weighted_built] by (blast intro: run_step)
  then have "topo_ok duo_weighted" by (rule sample_arrays.topo_run_ok)
  moreover have "iface_connected i" if "iface_at duo_weighted (r, a) = Some i" "iface_type i = NET_IFACE_RTR" for r a i
    using that by (auto simp: iface_at_mem duo_weighted_def duo_loop_def duo_link_def fresh_iface_def split: if_splits)
  moreover have "net_nodes duo_weighted r \<noteq> None" if "r \<in> set [1, 2]" for r using that by (auto simp: duo_weighted_def)
  ultimately show "domain_ok duo_weighted [1, 2]" unfolding domain_ok_def by blast
  show "rtr_net duo_weighted"
    by (auto simp: rtr_net_def duo_weighted_def duo_loop_def duo_link_def fresh_iface_def net_iface_id_addr_def split: if_splits)
qed

lemma duo_hops: "hop duo_weighted [1, 2] 1 2 5" "hop duo_weighted [1, 2] 2 1 5"
  by (simp_all add: hop_def iface_at_mem duo_weighted_def duo_loop_def duo_link_def fresh_iface_def net_iface_id_addr_def net_iface_is_enabled_def
      net_iface_get_flag_def NET_LINK_FLAG_UP_def IGP_MAX_WEIGHT_def)

lemma duo_lengths: "route_len duo_weighted [1, 2] 1 2 5" "route_len duo_weighted [1, 2] 2 1 5"
  using route_len_hop(2) [OF duo_weighted_ok(1) route_len_hop(3) [OF duo_weighted_ok(1)] duo_hops(1)]
    route_len_hop(2) [OF duo_weighted_ok(1) route_len_hop(3) [OF duo_weighted_ok(1)] duo_hops(2)] by simp_all

lemma duo_tables: "net_nodes duo_weighted r = Some node \<Longrightarrow> alist_trie_inv (node_rt node) \<and> igp_only alist_igp_env (node_rt node)"
  by (auto simp: duo_weighted_def igp_only_def rt_inv_def rt_routes_def alist_igp_env_def alist_rt_env_def alist_trie_ops_def alist_trie_inv_def
      split: if_splits)

lemma duo_ids: "card (spt_ids duo_weighted [1, 2]) \<le> 2"
proof -
  have "spt_ids duo_weighted [1, 2] \<subseteq> {pid 1, pid 2}"
  proof
    fix p assume "p \<in> spt_ids duo_weighted [1, 2]"
    then obtain el where el: "elem_in duo_weighted [1, 2] el" "elem_id duo_weighted el = Some p" by (auto simp: spt_ids_def)
    show "p \<in> {pid 1, pid 2}"
    proof (cases el)
      case (NODE x)
      then show ?thesis using el by (auto simp: elem_in_def elem_id_node)
    next
      case (LINK q)
      then show ?thesis using el(1) rtr_ptp_free [OF duo_weighted_ok(2)] by (auto simp: elem_in_def ptp_free_def simp del: split_paired_All)
    next
      case (SUBNET s)
      then show ?thesis using el(1) by (simp add: elem_in_def duo_weighted_def)
    qed
  qed
  then have "card (spt_ids duo_weighted [1, 2]) \<le> card {pid 1, pid 2}" by (intro card_mono) simp_all
  then show ?thesis by simp
qed

section \<open>Properties\<close>

text \<open>C17: The routes computed for a domain of a network in which every interface is a loopback or an end of a router-to-router link (no
  point-to-point links and no subnets, with which the search need not find shortest paths) and every routing table has only IGP routes.
  When the computation returns, every router of the domain has a route for the address of every other router that it has a path to of
  length below \<open>2 ^ 32 - 1\<close>, the greatest weight, and all entries of its routes lead over a link to the first router of a shortest
  path.\<close>

theorem igp_routes_correct:
  assumes "igp_tables env tinv finv" "igp_domains dops dinv" "domain_keys dops dinv domain"
    and "domain_ok net (routers_of dops domain)" "rtr_net net"
    and "\<forall>r node. net_nodes net r = Some node \<longrightarrow> tinv (node_rt node) \<and> igp_only env (node_rt node)"
    and "igp_compute_domain env dops domain net = Some (result, net')" "r \<in> set (routers_of dops domain)"
  shows "result = ESUCCESS
    \<and> (\<exists>node. net_nodes net' r = Some node \<and> (\<forall>a. \<exists>found. node_rt_lookup2 (igp_rt env) (node_rt node) a = Some found
         \<and> (\<forall>info. found = Some info \<longrightarrow> entries info \<noteq> []
              \<and> (\<forall>e\<in>set (entries info). \<exists>h. e = rt_entry_create h IP_ADDR_ANY \<and> first_hop net (routers_of dops domain) r a h))
         \<and> (\<forall>d. a \<noteq> r \<and> route_len net (routers_of dops domain) r a d \<and> d < 2 ^ 32 - 1 \<longrightarrow> found \<noteq> None)))"
proof -
  let ?rs = "routers_of dops domain"
  have dist: "distinct ?rs" by (rule igp_domains.domain_keys_routers(1) [OF assms(2,3)])
  have rts: "\<forall>r node. r \<in> set ?rs \<and> net_nodes net r = Some node \<longrightarrow> tinv (node_rt node) \<and> igp_only env (node_rt node)" using assms(6) by blast
  obtain node where node: "net_nodes net' r = Some node" "tinv (node_rt node)" "igp_table env net ?rs r (node_rt node)" "result = ESUCCESS"
    using igp_tables.compute_routers_effect [OF assms(1) dist subset_refl assms(4,5) rts] assms(7,8) by (auto simp: igp_compute_domain_def)
  have "\<exists>found. node_rt_lookup2 (igp_rt env) (node_rt node) a = Some found
         \<and> (\<forall>info. found = Some info \<longrightarrow> entries info \<noteq> []
              \<and> (\<forall>e\<in>set (entries info). \<exists>h. e = rt_entry_create h IP_ADDR_ANY \<and> first_hop net ?rs r a h))
         \<and> (\<forall>d. a \<noteq> r \<and> route_len net ?rs r a d \<and> d < 2 ^ 32 - 1 \<longrightarrow> found \<noteq> None)" for a
    by (rule igp_tables.igp_lookup [OF assms(1) node(2,3), of a]) (auto simp: igp_route_def)
  then show ?thesis using node(1,4) by blast
qed

text \<open>C18: The computation of the routes of a domain of router-to-router links, with IGP routes only in the routing tables, returns for
  every domain that is small enough for the queue of 100000 contexts and the stack of 10000 vertices that the program creates: when the
  network has at most \<open>n\<close> routers of the domain and subnets, the links weigh at most \<open>w\<close>, \<open>n * ((n - 1) * w + 1) + 1\<close> is
  below 100000, and there are at most 100 routers.  So a domain of 100 routers and links of weight at most 9 is always computed.\<close>

theorem igp_compute_returns:
  assumes "igp_tables env tinv finv" "igp_domains dops dinv" "domain_keys dops dinv domain"
    and "domain_ok net (routers_of dops domain)" "rtr_net net"
    and "\<forall>r node. net_nodes net r = Some node \<longrightarrow> tinv (node_rt node) \<and> igp_only env (node_rt node)"
    and "card (spt_ids net (routers_of dops domain)) \<le> n" "\<forall>x y c. hop net (routers_of dops domain) x y c \<longrightarrow> c \<le> w"
    and "n * ((n - 1) * w + 1) + 1 < SPT_FIFO_DEPTH" "card (set (routers_of dops domain)) \<le> 100"
  shows "\<exists>net'. igp_compute_domain env dops domain net = Some (ESUCCESS, net')"
proof -
  let ?rs = "routers_of dops domain"
  have dist: "distinct ?rs" by (rule igp_domains.domain_keys_routers(1) [OF assms(2,3)])
  have rts: "\<forall>r node. r \<in> set ?rs \<and> net_nodes net r = Some node \<longrightarrow> tinv (node_rt node) \<and> igp_only env (node_rt node)" using assms(6) by blast
  have "topo_ok net" using assms(4) by (simp add: domain_ok_def)
  from search_fits_hops [OF this assms(5,7-9)] have fits: "search_fits net ?rs" .
  have "card (set ?rs) * card (set ?rs) \<le> 100 * 100" using assms(10) by (rule mult_le_mono [OF _ assms(10)])
  then have "card (set ?rs) * card (set ?rs) \<le> FIB_STACK_DEPTH" by (simp add: FIB_STACK_DEPTH_def)
  then show ?thesis
    using igp_tables.compute_routers_effect [OF assms(1) dist subset_refl assms(4,5) rts] fits by (auto simp: igp_compute_domain_def)
qed

text \<open>C16: In a network that consists of one domain of at most 256 routers, joined by router-to-router links only, without tunnels, with ICMP
  on every router and IGP routes only in the routing tables: after the computation of the routes of the domain a ping from a
  router to another one succeeds when each has a path to the other of length below \<open>2 ^ 32 - 1\<close>, the greatest weight.\<close>

theorem igp_ping:
  assumes "igp_tables env tinv finv" "igp_domains dops dinv" "domain_keys dops dinv domain" "gds_fifo_laws ops" "3 \<le> depth"
    and "ip_rt ip = igp_rt env" "\<forall>q. ip_tunnels ip q = None" "\<forall>r. NET_PROTOCOL_ICMP \<in> set (ip_protocols ip r)"
    and "domain_ok (ip_network ip) (routers_of dops domain)" "rtr_net (ip_network ip)"
    and "dom (net_nodes (ip_network ip)) = set (routers_of dops domain)" "0 \<notin> set (routers_of dops domain)" "card (set (routers_of dops domain)) \<le> 256"
    and "\<forall>r node. net_nodes (ip_network ip) r = Some node \<longrightarrow> tinv (node_rt node) \<and> igp_only env (node_rt node)"
    and "igp_compute_domain env dops domain (ip_network ip) = Some (result, net')"
    and "r \<in> set (routers_of dops domain)" "q \<in> set (routers_of dops domain)"
    and "route_len (ip_network ip) (routers_of dops domain) r q d" "d < 2 ^ 32 - 1"
    and "route_len (ip_network ip) (routers_of dops domain) q r d'" "d' < 2 ^ 32 - 1"
  shows "\<exists>w'. icmp_ping ops depth (ip\<lparr>ip_network := net'\<rparr>) r IP_ADDR_ANY q 0 w = Some (ESUCCESS, w')"
proof -
  let ?rs = "routers_of dops domain" and ?ip = "ip\<lparr>ip_network := net'\<rparr>"
  have dist: "distinct ?rs" by (rule igp_domains.domain_keys_routers(1) [OF assms(2,3)])
  have rts: "\<forall>r node. r \<in> set ?rs \<and> net_nodes (ip_network ip) r = Some node \<longrightarrow> tinv (node_rt node) \<and> igp_only env (node_rt node)" using assms(14) by blast
  have net': "same_topo (ip_network ip) net'"
    "\<forall>r\<in>set ?rs. \<exists>node. net_nodes net' r = Some node \<and> tinv (node_rt node) \<and> igp_table env (ip_network ip) ?rs r (node_rt node)"
    using igp_tables.compute_routers_effect [OF assms(1) dist subset_refl assms(9,10) rts] assms(15) by (auto simp: igp_compute_domain_def)
  note graph = same_topo_graph [OF net'(1)] same_topo_routes [OF net'(1)]
  have doms: "dom (net_nodes net') = set ?rs" using same_topo_node(1) [OF net'(1)] assms(11) by (auto simp: dom_def simp del: not_None_eq)
  have table: "igp_table env net' = igp_table env (ip_network ip)" unfolding igp_table_def [abs_def] graph by (rule refl)
  have "tinv (node_rt node) \<and> igp_table env net' ?rs r (node_rt node)" if "net_nodes net' r = Some node" for r node
  proof -
    have "r \<in> set ?rs" using doms that by blast
    then show ?thesis using net'(2) that by (auto simp: table)
  qed
  then have ip: "igp_routed env tinv ?rs ?ip" unfolding igp_routed_def using assms(6-12) doms by (simp add: graph)
  note go = igp_tables.igp_journey [OF assms(1) ip assms(13)]
  have there: "journey ?ip 255 r q = Arrived q" "source_addr ?ip r IP_ADDR_ANY q = r"
    using go [OF assms(16,17), of d] assms(18,19) by (simp_all add: graph)
  have home: "journey ?ip 255 q r = Arrived r" using go(1) [OF assms(17,16), of d'] assms(20,21) by (simp add: graph)
  obtain node where "net_nodes net' r = Some node" using net'(2) assms(16) by blast
  then have "net_nodes (ip_network ?ip) r = Some node" by simp
  from ping_result [OF assms(4) igp_tables.igp_fwd_ok [OF assms(1) ip] this assms(5), of IP_ADDR_ANY q 0 w] there home
  show ?thesis by auto
qed

lemma duo_hop_bound: "\<forall>x y c. hop duo_weighted [1, 2] x y c \<longrightarrow> c \<le> 5"
  by (auto simp: hop_def iface_at_mem duo_weighted_def duo_loop_def duo_link_def fresh_iface_def net_iface_id_addr_def split: if_splits)

lemma duo_computes: "\<exists>net'. igp_compute_domain alist_igp_env alist_trie_ops duo_domain duo_weighted = Some (ESUCCESS, net')"
proof -
  have "topo_ok duo_weighted" using duo_weighted_ok(1) by (simp add: domain_ok_def)
  from search_fits_hops [OF this duo_weighted_ok(2) duo_ids duo_hop_bound]
  have fits: "search_fits duo_weighted [1, 2]" by (simp add: SPT_FIFO_DEPTH_def)
  have rts: "\<forall>r node. r \<in> set [1, 2] \<and> net_nodes duo_weighted r = Some node \<longrightarrow> alist_trie_inv (node_rt node) \<and> igp_only alist_igp_env (node_rt node)"
    using duo_tables by blast
  show ?thesis
    using alist_igp.compute_routers_effect [OF _ subset_refl duo_weighted_ok rts] fits
    by (auto simp: igp_compute_domain_def duo_domain_keys alist_igp_env_def FIB_STACK_DEPTH_def)
qed

theorem igp_routes_correct_witness:
  "\<exists>net' node info. igp_compute_domain alist_igp_env alist_trie_ops duo_domain duo_weighted = Some (ESUCCESS, net')
     \<and> net_nodes net' 1 = Some node \<and> node_rt_lookup2 alist_rt_env (node_rt node) 2 = Some (Some info)"
proof -
  obtain net' where run: "igp_compute_domain alist_igp_env alist_trie_ops duo_domain duo_weighted = Some (ESUCCESS, net')" using duo_computes by blast
  have tables: "\<forall>r node. net_nodes duo_weighted r = Some node \<longrightarrow> alist_trie_inv (node_rt node) \<and> igp_only alist_igp_env (node_rt node)"
    using duo_tables by blast
  have "domain_ok duo_weighted (routers_of alist_trie_ops duo_domain)" "(1 :: net_addr) \<in> set (routers_of alist_trie_ops duo_domain)"
    using duo_weighted_ok(1) by (simp_all add: duo_domain_keys)
  from igp_routes_correct [OF alist_igp.igp_tables_axioms alist_domains.igp_domains_axioms duo_domain_keys(1) this(1) duo_weighted_ok(2) tables run this(2)]
  obtain node where node: "net_nodes net' 1 = Some node"
    and "\<forall>a. \<exists>found. node_rt_lookup2 (igp_rt alist_igp_env) (node_rt node) a = Some found
      \<and> (\<forall>info. found = Some info \<longrightarrow> entries info \<noteq> []
           \<and> (\<forall>e\<in>set (entries info). \<exists>h. e = rt_entry_create h IP_ADDR_ANY
                \<and> first_hop duo_weighted (routers_of alist_trie_ops duo_domain) 1 a h))
      \<and> (\<forall>d. a \<noteq> 1 \<and> route_len duo_weighted (routers_of alist_trie_ops duo_domain) 1 a d \<and> d < 2 ^ 32 - 1 \<longrightarrow> found \<noteq> None)"
    by (elim conjE exE)
  from spec [OF this(2), of 2] obtain found where "node_rt_lookup2 (igp_rt alist_igp_env) (node_rt node) 2 = Some found"
    "\<forall>d. (2 :: net_addr) \<noteq> 1 \<and> route_len duo_weighted (routers_of alist_trie_ops duo_domain) 1 2 d \<and> d < 2 ^ 32 - 1 \<longrightarrow> found \<noteq> None"
    by (elim conjE exE)
  moreover from this(2) have "found \<noteq> None" using duo_lengths(1) by (auto simp: duo_domain_keys)
  ultimately show ?thesis using run node by (auto simp: alist_igp_env_def)
qed

theorem igp_compute_returns_witness:
  "\<exists>net'. igp_compute_domain alist_igp_env alist_trie_ops duo_domain duo_weighted = Some (ESUCCESS, net')"
  by (rule igp_compute_returns [OF alist_igp.igp_tables_axioms alist_domains.igp_domains_axioms duo_domain_keys(1), where n = 2 and w = 5])
    (use duo_weighted_ok duo_tables duo_ids duo_hop_bound in \<open>simp_all add: duo_domain_keys SPT_FIFO_DEPTH_def\<close>)

theorem igp_ping_witness:
  "\<exists>net' w'. igp_compute_domain alist_igp_env alist_trie_ops duo_domain duo_weighted = Some (ESUCCESS, net')
     \<and> icmp_ping ring_ops 3 (duo_ip\<lparr>ip_network := net'\<rparr>) 1 IP_ADDR_ANY 2 0 duo_world = Some (ESUCCESS, w')"
proof -
  obtain net' where run: "igp_compute_domain alist_igp_env alist_trie_ops duo_domain duo_weighted = Some (ESUCCESS, net')" using duo_computes by blast
  have "\<exists>w'. icmp_ping ring_ops 3 (duo_ip\<lparr>ip_network := net'\<rparr>) 1 IP_ADDR_ANY 2 0 duo_world = Some (ESUCCESS, w')"
    by (rule igp_ping [OF alist_igp.igp_tables_axioms alist_domains.igp_domains_axioms duo_domain_keys(1) ring.gds_fifo_laws_axioms, where d = 5 and d' = 5])
      (use run duo_weighted_ok duo_tables duo_lengths in \<open>simp_all add: duo_domain_keys duo_ip_def duo_env_def alist_igp_env_def\<close>,
       auto simp: duo_weighted_def)
  then show ?thesis using run by blast
qed

end
