(* ===== verification/As_Level.thy ===== *)
theory As_Level
  imports Bgp_Filter
begin

text \<open>
  Topologies of domains: \<open>src/bgp/aslevel/as-level.c\<close>, \<open>filter.c\<close>, \<open>rexford.c\<close>, \<open>caida.c\<close> and \<open>meulle.c\<close>.  A topology is a sorted array
  of domains, each with a sorted array of links that carry a business relationship; it is loaded from a file, checked, filtered, and
  gives the policies (input and output filters) of the routers of its domains.

  A pointer to a domain is its AS number; a domain that was freed is not in the array any more, so that reading through a pointer to it
  stops the program (the program itself reads freed memory).  The array of libgds, the tokenizer and the readers of numbers are
  parameters; the stack is a list, and \<open>stack_get_at\<close> counts from its bottom.  Printing to streams is left out, or returns the data that is printed.  The construction of a network from a topology
  (\<open>aslevel_topo_build_network\<close>, \<open>_install\<close>, \<open>_policies\<close>, \<open>_run\<close>), the recording of routes and the GraphViz output are not
  modelled.
\<close>

unbundle bit_operations_syntax

section \<open>Types and constants\<close>

type_synonym peer_type = "8 word"

definition ASLEVEL_PEER_TYPE_CUSTOMER :: peer_type where "ASLEVEL_PEER_TYPE_CUSTOMER = 0"
definition ASLEVEL_PEER_TYPE_PROVIDER :: peer_type where "ASLEVEL_PEER_TYPE_PROVIDER = 1"
definition ASLEVEL_PEER_TYPE_PEER :: peer_type where "ASLEVEL_PEER_TYPE_PEER = 2"
definition ASLEVEL_PEER_TYPE_SIBLING :: peer_type where "ASLEVEL_PEER_TYPE_SIBLING = 3"
definition ASLEVEL_PEER_TYPE_UNKNOWN :: peer_type where "ASLEVEL_PEER_TYPE_UNKNOWN = 255"

lemmas peer_types = ASLEVEL_PEER_TYPE_CUSTOMER_def ASLEVEL_PEER_TYPE_PROVIDER_def ASLEVEL_PEER_TYPE_PEER_def
  ASLEVEL_PEER_TYPE_SIBLING_def ASLEVEL_PEER_TYPE_UNKNOWN_def

definition ASLEVEL_SUCCESS :: int where "ASLEVEL_SUCCESS = 0"
definition ASLEVEL_ERROR_UNEXPECTED :: int where "ASLEVEL_ERROR_UNEXPECTED = -1"
definition ASLEVEL_ERROR_OPEN :: int where "ASLEVEL_ERROR_OPEN = -2"
definition ASLEVEL_ERROR_NUM_PARAMS :: int where "ASLEVEL_ERROR_NUM_PARAMS = -3"
definition ASLEVEL_ERROR_INVALID_ASNUM :: int where "ASLEVEL_ERROR_INVALID_ASNUM = -4"
definition ASLEVEL_ERROR_INVALID_RELATION :: int where "ASLEVEL_ERROR_INVALID_RELATION = -5"
definition ASLEVEL_ERROR_INVALID_DELAY :: int where "ASLEVEL_ERROR_INVALID_DELAY = -6"
definition ASLEVEL_ERROR_DUPLICATE_LINK :: int where "ASLEVEL_ERROR_DUPLICATE_LINK = -7"
definition ASLEVEL_ERROR_LOOP_LINK :: int where "ASLEVEL_ERROR_LOOP_LINK = -8"
definition ASLEVEL_ERROR_NODE_EXISTS :: int where "ASLEVEL_ERROR_NODE_EXISTS = -9"
definition ASLEVEL_ERROR_NO_TOPOLOGY :: int where "ASLEVEL_ERROR_NO_TOPOLOGY = -10"
definition ASLEVEL_ERROR_TOPOLOGY_LOADED :: int where "ASLEVEL_ERROR_TOPOLOGY_LOADED = -11"
definition ASLEVEL_ERROR_UNKNOWN_FORMAT :: int where "ASLEVEL_ERROR_UNKNOWN_FORMAT = -12"
definition ASLEVEL_ERROR_UNKNOWN_ADDRSCH :: int where "ASLEVEL_ERROR_UNKNOWN_ADDRSCH = -13"
definition ASLEVEL_ERROR_CYCLE_DETECTED :: int where "ASLEVEL_ERROR_CYCLE_DETECTED = -14"
definition ASLEVEL_ERROR_DISCONNECTED :: int where "ASLEVEL_ERROR_DISCONNECTED = -15"
definition ASLEVEL_ERROR_INCONSISTENT :: int where "ASLEVEL_ERROR_INCONSISTENT = -16"
definition ASLEVEL_ERROR_UNKNOWN_FILTER :: int where "ASLEVEL_ERROR_UNKNOWN_FILTER = -17"
definition ASLEVEL_ERROR_NOT_INSTALLED :: int where "ASLEVEL_ERROR_NOT_INSTALLED = -19"
definition ASLEVEL_ERROR_ALREADY_INSTALLED :: int where "ASLEVEL_ERROR_ALREADY_INSTALLED = -20"
definition ASLEVEL_ERROR_ALREADY_RUNNING :: int where "ASLEVEL_ERROR_ALREADY_RUNNING = -21"

lemmas aslevel_errors = ASLEVEL_SUCCESS_def ASLEVEL_ERROR_UNEXPECTED_def ASLEVEL_ERROR_OPEN_def ASLEVEL_ERROR_NUM_PARAMS_def
  ASLEVEL_ERROR_INVALID_ASNUM_def ASLEVEL_ERROR_INVALID_RELATION_def ASLEVEL_ERROR_INVALID_DELAY_def ASLEVEL_ERROR_DUPLICATE_LINK_def
  ASLEVEL_ERROR_LOOP_LINK_def ASLEVEL_ERROR_NODE_EXISTS_def ASLEVEL_ERROR_NO_TOPOLOGY_def ASLEVEL_ERROR_TOPOLOGY_LOADED_def
  ASLEVEL_ERROR_UNKNOWN_FORMAT_def ASLEVEL_ERROR_UNKNOWN_ADDRSCH_def ASLEVEL_ERROR_CYCLE_DETECTED_def ASLEVEL_ERROR_DISCONNECTED_def
  ASLEVEL_ERROR_INCONSISTENT_def ASLEVEL_ERROR_UNKNOWN_FILTER_def ASLEVEL_ERROR_NOT_INSTALLED_def ASLEVEL_ERROR_ALREADY_INSTALLED_def
  ASLEVEL_ERROR_ALREADY_RUNNING_def

definition ASLEVEL_STATE_LOADED :: "8 word" where "ASLEVEL_STATE_LOADED = 0"
definition ASLEVEL_STATE_INSTALLED :: "8 word" where "ASLEVEL_STATE_INSTALLED = 1"
definition ASLEVEL_STATE_POLICIES :: "8 word" where "ASLEVEL_STATE_POLICIES = 2"
definition ASLEVEL_STATE_RUNNING :: "8 word" where "ASLEVEL_STATE_RUNNING = 3"

lemmas aslevel_states = ASLEVEL_STATE_LOADED_def ASLEVEL_STATE_INSTALLED_def ASLEVEL_STATE_POLICIES_def ASLEVEL_STATE_RUNNING_def

definition ASLEVEL_ADDR_SCH_GLOBAL :: "8 word" where "ASLEVEL_ADDR_SCH_GLOBAL = 0"
definition ASLEVEL_ADDR_SCH_LOCAL :: "8 word" where "ASLEVEL_ADDR_SCH_LOCAL = 1"

definition ASLEVEL_FORMAT_REXFORD :: "8 word" where "ASLEVEL_FORMAT_REXFORD = 0"
definition ASLEVEL_FORMAT_CAIDA :: "8 word" where "ASLEVEL_FORMAT_CAIDA = 1"
definition ASLEVEL_FORMAT_MEULLE :: "8 word" where "ASLEVEL_FORMAT_MEULLE = 2"

lemmas aslevel_formats = ASLEVEL_FORMAT_REXFORD_def ASLEVEL_FORMAT_CAIDA_def ASLEVEL_FORMAT_MEULLE_def
  ASLEVEL_ADDR_SCH_GLOBAL_def ASLEVEL_ADDR_SCH_LOCAL_def

definition ASLEVEL_TOPO_AS_CACHE_SIZE :: nat where "ASLEVEL_TOPO_AS_CACHE_SIZE = 2"

record as_level_link =
  lk_neighbor :: asn
  lk_peer :: "net_addr option"
  lk_type :: peer_type

record as_level_domain =
  as_asn :: asn
  as_neighbors :: "as_level_link list"
  as_router :: "net_addr option"

record as_level_topo =
  tp_domains :: "as_level_domain list"
  tp_cached :: "asn option list"
  tp_addr_mapper :: "asn \<Rightarrow> net_addr"
  tp_state :: "8 word"

text \<open>The sorted arrays of libgds: domains, links, and references to domains.\<close>

record as_env =
  as_domains_add :: "as_level_domain sorted_add"
  as_links_add :: "as_level_link sorted_add"
  as_refs_add :: "asn sorted_add"

text \<open>Reading and writing through a pointer to a domain; a domain that was freed is not in the array any more.\<close>

definition domain_at :: "as_level_topo \<Rightarrow> asn \<Rightarrow> as_level_domain option" where
  "domain_at topo a = find (\<lambda>d. as_asn d = a) (tp_domains topo)"

definition domain_modify :: "asn \<Rightarrow> (as_level_domain \<Rightarrow> as_level_domain) \<Rightarrow> as_level_topo \<Rightarrow> as_level_topo" where
  "domain_modify a f topo = topo\<lparr>tp_domains := map (\<lambda>d. if as_asn d = a then f d else d) (tp_domains topo)\<rparr>"

section \<open>Links and domains\<close>

definition aslevel_check_peer_type :: "peer_type \<Rightarrow> int" where
  "aslevel_check_peer_type t =
     (if t = ASLEVEL_PEER_TYPE_CUSTOMER \<or> t = ASLEVEL_PEER_TYPE_PEER \<or> t = ASLEVEL_PEER_TYPE_PROVIDER \<or> t = ASLEVEL_PEER_TYPE_SIBLING
      then ASLEVEL_SUCCESS else ASLEVEL_ERROR_INVALID_RELATION)"

definition aslevel_link_create :: "asn \<Rightarrow> peer_type \<Rightarrow> as_level_link" where
  "aslevel_link_create neighbor t = \<lparr>lk_neighbor = neighbor, lk_peer = None, lk_type = t\<rparr>"

definition aslevel_as_compare_link :: "as_level_link \<Rightarrow> as_level_link \<Rightarrow> int" where
  "aslevel_as_compare_link link1 link2 =
     (if lk_neighbor link1 < lk_neighbor link2 then -1 else if lk_neighbor link1 > lk_neighbor link2 then 1 else 0)"

definition aslevel_as_create :: "asn \<Rightarrow> as_level_domain" where
  "aslevel_as_create a = \<lparr>as_asn = a, as_neighbors = [], as_router = None\<rparr>"

definition aslevel_topo_compare_as :: "as_level_domain \<Rightarrow> as_level_domain \<Rightarrow> int" where
  "aslevel_topo_compare_as domain1 domain2 =
     (if as_asn domain1 < as_asn domain2 then -1 else if as_asn domain1 > as_asn domain2 then 1 else 0)"

definition aslevel_strerror :: "int \<Rightarrow> string option" where
  "aslevel_strerror error = map_of
     [(ASLEVEL_SUCCESS, ''success''), (ASLEVEL_ERROR_UNEXPECTED, ''unexpected error''), (ASLEVEL_ERROR_OPEN, ''file open error''),
      (ASLEVEL_ERROR_NUM_PARAMS, ''invalid number of parameters''), (ASLEVEL_ERROR_INVALID_ASNUM, ''invalid ASN''),
      (ASLEVEL_ERROR_INVALID_RELATION, ''invalid business relationship''), (ASLEVEL_ERROR_INVALID_DELAY, ''invalid delay''),
      (ASLEVEL_ERROR_DUPLICATE_LINK, ''duplicate link''), (ASLEVEL_ERROR_LOOP_LINK, ''loop link''),
      (ASLEVEL_ERROR_NODE_EXISTS, ''node already exists''), (ASLEVEL_ERROR_NO_TOPOLOGY, ''no topology loaded''),
      (ASLEVEL_ERROR_TOPOLOGY_LOADED, ''topology already loaded''), (ASLEVEL_ERROR_UNKNOWN_FORMAT, ''unknown topology format''),
      (ASLEVEL_ERROR_CYCLE_DETECTED, ''topology contains cycle(s)''), (ASLEVEL_ERROR_DISCONNECTED, ''topology is not connected''),
      (ASLEVEL_ERROR_INCONSISTENT, ''topology is not consistent''), (ASLEVEL_ERROR_UNKNOWN_FILTER, ''unknown topology filter''),
      (ASLEVEL_ERROR_NOT_INSTALLED, ''topology is not installed''), (ASLEVEL_ERROR_ALREADY_INSTALLED, ''topology is already installed''),
      (ASLEVEL_ERROR_ALREADY_RUNNING, ''topology is already running'')] error"

section \<open>Addressing schemes\<close>

definition aslevel_addr_sch_default_get :: "asn \<Rightarrow> net_addr" where
  "aslevel_addr_sch_default_get a = push_bit 16 (ucast a)"

definition aslevel_addr_sch_local_get :: "asn \<Rightarrow> net_addr" where
  "aslevel_addr_sch_local_get a = ucast a"

definition aslevel_str2addr_sch :: "string \<Rightarrow> int + 8 word" where
  "aslevel_str2addr_sch str =
     (if str = ''global'' \<or> str = ''default'' then Inr ASLEVEL_ADDR_SCH_GLOBAL
      else if str = ''local'' then Inr ASLEVEL_ADDR_SCH_LOCAL
      else Inl ASLEVEL_ERROR_UNKNOWN_ADDRSCH)"

section \<open>Topologies\<close>

definition aslevel_topo_cache_init :: "as_level_topo \<Rightarrow> as_level_topo" where
  "aslevel_topo_cache_init topo = topo\<lparr>tp_cached := replicate ASLEVEL_TOPO_AS_CACHE_SIZE None\<rparr>"

definition aslevel_topo_cache_invalidate :: "as_level_topo \<Rightarrow> as_level_topo" where
  "aslevel_topo_cache_invalidate topo = aslevel_topo_cache_init topo"

definition aslevel_topo_cache_update_as :: "asn \<Rightarrow> as_level_topo \<Rightarrow> as_level_topo" where
  "aslevel_topo_cache_update_as a topo = topo\<lparr>tp_cached := take (ASLEVEL_TOPO_AS_CACHE_SIZE - 1) (drop 1 (tp_cached topo)) @ [Some a]\<rparr>"

text \<open>The loop over the cache, from its end.  The entries are dereferenced: an entry for a freed domain stops the program.\<close>

fun cache_lookup :: "as_level_topo \<Rightarrow> asn \<Rightarrow> nat \<Rightarrow> asn option option" where
  "cache_lookup topo a 0 = Some None"
| "cache_lookup topo a (Suc index) =
     (case tp_cached topo ! index of
        None \<Rightarrow> Some None
      | Some p \<Rightarrow> do {
          domain \<leftarrow> domain_at topo p;
          if as_asn domain = a then Some (Some p) else cache_lookup topo a index
        })"

definition aslevel_topo_cache_lookup_as :: "as_level_topo \<Rightarrow> asn \<Rightarrow> asn option option" where
  "aslevel_topo_cache_lookup_as topo a = cache_lookup topo a ASLEVEL_TOPO_AS_CACHE_SIZE"

definition aslevel_topo_create :: "8 word \<Rightarrow> as_level_topo option" where
  "aslevel_topo_create addr_scheme = do {
     mapper \<leftarrow> (if addr_scheme = ASLEVEL_ADDR_SCH_GLOBAL then Some aslevel_addr_sch_default_get
                else if addr_scheme = ASLEVEL_ADDR_SCH_LOCAL then Some aslevel_addr_sch_local_get
                else None);
     Some (aslevel_topo_cache_init \<lparr>tp_domains = [], tp_cached = [], tp_addr_mapper = mapper, tp_state = ASLEVEL_STATE_LOADED\<rparr>)
   }"

definition aslevel_topo_num_nodes :: "as_level_topo \<Rightarrow> nat" where
  "aslevel_topo_num_nodes topo = length (tp_domains topo)"

definition aslevel_topo_num_edges :: "as_level_topo \<Rightarrow> nat" where
  "aslevel_topo_num_edges topo = sum_list (map (\<lambda>domain. length (as_neighbors domain)) (tp_domains topo)) div 2"

definition aslevel_topo_add_as :: "as_env \<Rightarrow> asn \<Rightarrow> as_level_topo \<Rightarrow> asn option \<times> as_level_topo" where
  "aslevel_topo_add_as env a topo =
     (case as_domains_add env (tp_domains topo) (aslevel_as_create a) of
        None \<Rightarrow> (None, topo)
      | Some ds \<Rightarrow> (Some a, aslevel_topo_cache_update_as a (topo\<lparr>tp_domains := ds\<rparr>)))"

text \<open>The loop over the links of a removed domain: the link in the other direction is removed, and the program stops when there is none.\<close>

definition neighbors_of :: "as_level_topo \<Rightarrow> asn \<Rightarrow> as_level_link list" where
  "neighbors_of topo a = (case domain_at topo a of None \<Rightarrow> [] | Some domain \<Rightarrow> as_neighbors domain)"

definition remove_reverse_link :: "asn \<Rightarrow> asn \<Rightarrow> as_level_topo \<Rightarrow> as_level_topo option" where
  "remove_reverse_link a b topo = do {
     domain \<leftarrow> domain_at topo b;
     index3 \<leftarrow> find_index_from 0 (\<lambda>link. lk_neighbor link = a) (as_neighbors domain);
     Some (domain_modify b (\<lambda>d. d\<lparr>as_neighbors := remove_at index3 (as_neighbors d)\<rparr>) topo)
   }"

lemma find_map_key: "(\<And>x. k (f x) = k x) \<Longrightarrow> find (\<lambda>x. k x = a) (map f xs) = map_option f (find (\<lambda>x. k x = a) xs)"
  by (induction xs) auto

lemma domain_at_modify:
  assumes "\<And>d. as_asn (f d) = as_asn d"
  shows "domain_at (domain_modify a f topo) b = map_option (\<lambda>d. if b = a then f d else d) (domain_at topo b)"
proof -
  have "find (\<lambda>d. as_asn d = b) xs = Some d \<Longrightarrow> as_asn d = b" for xs d by (induction xs) (auto split: if_splits)
  then show ?thesis unfolding domain_at_def domain_modify_def
    by (simp add: find_map_key assms) (cases "find (\<lambda>d. as_asn d = b) (tp_domains topo)"; auto)
qed

lemma length_remove_at_le: "length (remove_at i xs) \<le> length xs"
  by (simp add: remove_at_def min_def)

lemma remove_reverse_link_length:
  assumes "remove_reverse_link a b topo = Some topo'"
  shows "length (neighbors_of topo' c) \<le> length (neighbors_of topo c)"
  using assms by (auto simp: remove_reverse_link_def bind_eq_Some_conv neighbors_of_def domain_at_modify length_remove_at_le split: option.splits)

function remove_links_loop :: "asn \<Rightarrow> nat \<Rightarrow> as_level_topo \<Rightarrow> as_level_topo option" where
  "remove_links_loop a index2 topo =
     (if index2 < length (neighbors_of topo a) then
        (case remove_reverse_link a (lk_neighbor (neighbors_of topo a ! index2)) topo of
           None \<Rightarrow> None
         | Some topo' \<Rightarrow> remove_links_loop a (Suc index2) topo')
      else Some topo)"
  by auto
termination
proof (relation "measure (\<lambda>(a, index2, topo). length (neighbors_of topo a) - index2)", goal_cases)
  case (2 a index2 topo topo')
  then show ?case using remove_reverse_link_length [of a _ topo topo' a] by fastforce
qed simp

declare remove_links_loop.simps [simp del]

definition aslevel_topo_remove_as :: "asn \<Rightarrow> as_level_topo \<Rightarrow> (int \<times> as_level_topo) option" where
  "aslevel_topo_remove_as a topo =
     (case find_index_from 0 (\<lambda>d. as_asn d = a) (tp_domains topo) of
        None \<Rightarrow> Some (ASLEVEL_ERROR_INVALID_ASNUM, topo)
      | Some index \<Rightarrow> do {
          topo \<leftarrow> remove_links_loop a 0 (aslevel_topo_cache_invalidate topo);
          Some (ASLEVEL_SUCCESS, topo\<lparr>tp_domains := remove_at index (tp_domains topo)\<rparr>)
        })"

definition aslevel_topo_get_as :: "asn \<Rightarrow> as_level_topo \<Rightarrow> (asn option \<times> as_level_topo) option" where
  "aslevel_topo_get_as a topo = do {
     cached \<leftarrow> aslevel_topo_cache_lookup_as topo a;
     case cached of
       Some p \<Rightarrow> Some (Some p, topo)
     | None \<Rightarrow> (case domain_at topo a of
         Some domain \<Rightarrow> Some (Some (as_asn domain), aslevel_topo_cache_update_as (as_asn domain) topo)
       | None \<Rightarrow> Some (None, topo))
   }"

definition aslevel_as_num_customers :: "as_level_domain \<Rightarrow> nat" where
  "aslevel_as_num_customers domain = length (filter (\<lambda>link. lk_type link = ASLEVEL_PEER_TYPE_CUSTOMER) (as_neighbors domain))"

definition aslevel_as_num_providers :: "as_level_domain \<Rightarrow> nat" where
  "aslevel_as_num_providers domain = length (filter (\<lambda>link. lk_type link = ASLEVEL_PEER_TYPE_PROVIDER) (as_neighbors domain))"

definition aslevel_as_add_link :: "as_env \<Rightarrow> asn \<Rightarrow> asn \<Rightarrow> peer_type \<Rightarrow> as_level_topo \<Rightarrow> (int \<times> as_level_topo) option" where
  "aslevel_as_add_link env a b t topo = do {
     domain1 \<leftarrow> domain_at topo a;
     domain2 \<leftarrow> domain_at topo b;
     if aslevel_check_peer_type t \<noteq> ASLEVEL_SUCCESS then Some (ASLEVEL_ERROR_INVALID_RELATION, topo)
     else if as_asn domain1 = as_asn domain2 then Some (ASLEVEL_ERROR_LOOP_LINK, topo)
     else (case as_links_add env (as_neighbors domain1) (aslevel_link_create b t) of
         None \<Rightarrow> Some (ASLEVEL_ERROR_DUPLICATE_LINK, topo)
       | Some ls \<Rightarrow> Some (ASLEVEL_SUCCESS, domain_modify a (\<lambda>d. d\<lparr>as_neighbors := ls\<rparr>) topo))
   }"

definition aslevel_as_get_link :: "as_level_domain \<Rightarrow> asn \<Rightarrow> as_level_link option" where
  "aslevel_as_get_link domain1 b = find (\<lambda>link. lk_neighbor link = b) (as_neighbors domain1)"

definition aslevel_as_get_link_by_index :: "as_level_domain \<Rightarrow> int \<Rightarrow> as_level_link option" where
  "aslevel_as_get_link_by_index domain index =
     (if unat (word_of_int index :: 32 word) < length (as_neighbors domain) then Some (as_neighbors domain ! unat (word_of_int index :: 32 word))
      else None)"

definition aslevel_as_get_num_links :: "as_level_domain \<Rightarrow> nat" where
  "aslevel_as_get_num_links domain = length (as_neighbors domain)"

definition aslevel_topo_get_top :: "as_env \<Rightarrow> as_level_topo \<Rightarrow> asn list" where
  "aslevel_topo_get_top env topo =
     fold (\<lambda>domain array. if aslevel_as_num_providers domain = 0
                          then (case as_refs_add env array (as_asn domain) of None \<Rightarrow> array | Some array \<Rightarrow> array)
                          else array)
       (tp_domains topo) []"

section \<open>Traversals\<close>

text \<open>The stack of a traversal, top first, holds for each domain the index of its next link.\<close>

type_synonym gt_stack = "(asn \<times> nat) list"

function connect_loop :: "nat \<Rightarrow> as_level_topo \<Rightarrow> asn set \<Rightarrow> gt_stack \<Rightarrow> asn set option" where
  "connect_loop depth topo visited [] = Some visited"
| "connect_loop depth topo visited ((a, index) # stack) =
     (case domain_at topo a of
        None \<Rightarrow> None
      | Some domain \<Rightarrow>
          if index < length (as_neighbors domain) then
            (if lk_neighbor (as_neighbors domain ! index) \<notin> visited then
               (if Suc (length stack) < depth
                then connect_loop depth topo (insert (lk_neighbor (as_neighbors domain ! index)) visited)
                       ((lk_neighbor (as_neighbors domain ! index), 0) # (a, Suc index) # stack)
                else None)
             else connect_loop depth topo visited ((a, Suc index) # stack))
          else connect_loop depth topo visited stack)"
  by pat_completeness auto
termination
proof (relation "measures [\<lambda>(depth, topo, visited, stack). card (- visited),
    \<lambda>(depth, topo, visited, stack). (\<Sum>(a, index)\<leftarrow>stack. Suc (length (neighbors_of topo a) - index))]", goal_cases)
  case (2 depth topo visited a index stack domain)
  then have "- insert (lk_neighbor (as_neighbors domain ! index)) visited \<subset> - visited" by auto
  then show ?case by (simp add: psubset_card_mono)
qed (auto simp: neighbors_of_def)

definition aslevel_topo_check_connectedness :: "as_level_topo \<Rightarrow> int option" where
  "aslevel_topo_check_connectedness topo =
     (if aslevel_topo_num_nodes topo = 0 then Some ASLEVEL_SUCCESS
      else let domain = tp_domains topo ! 0 in do {
        visited \<leftarrow> connect_loop MAX_AS topo {as_asn domain} [(as_asn domain, 0)];
        Some (if list_all (\<lambda>d. as_asn d \<in> visited) (tp_domains topo) then ASLEVEL_SUCCESS else ASLEVEL_ERROR_DISCONNECTED)
      })"

text \<open>The members of a cycle that the link from the top of the stack to \<open>b\<close> closes: the domains of the stack from \<open>b\<close> upwards.\<close>

definition cycle_members :: "asn \<Rightarrow> gt_stack \<Rightarrow> asn list" where
  "cycle_members b stack = dropWhile (\<lambda>a. a \<noteq> b) (rev (map fst stack))"

text \<open>A bound for the work left: each level of the stack weighs more than all levels above it can.\<close>

definition max_degree :: "as_level_topo \<Rightarrow> nat" where
  "max_degree topo = fold max (map (\<lambda>d. length (as_neighbors d)) (tp_domains topo)) 0"

fun stack_work :: "nat \<Rightarrow> as_level_topo \<Rightarrow> gt_stack \<Rightarrow> nat" where
  "stack_work depth topo [] = 0"
| "stack_work depth topo ((a, index) # stack) =
     Suc (length (neighbors_of topo a) - index) * (max_degree topo + 2) ^ (depth - length stack) + stack_work depth topo stack"

lemma fold_max_ge: "x \<in> set xs \<Longrightarrow> x \<le> fold max xs (m :: nat)" "m \<le> fold max xs m"
proof -
  show ge: "m \<le> fold max xs m" for m :: nat and xs
  proof (induction xs arbitrary: m)
    case (Cons x xs)
    then show ?case by (metis fold_simps(2) max.bounded_iff)
  qed simp
  show "x \<in> set xs \<Longrightarrow> x \<le> fold max xs m"
  proof (induction xs arbitrary: m)
    case (Cons y xs)
    then show ?case using ge [of "max y m" xs] by auto
  qed simp
qed

lemma neighbors_max_degree: "length (neighbors_of topo a) \<le> max_degree topo"
proof (cases "domain_at topo a")
  case (Some d)
  then have "d \<in> set (tp_domains topo)" by (auto simp: domain_at_def find_Some_iff in_set_conv_nth)
  then show ?thesis using Some by (auto simp: neighbors_of_def max_degree_def intro!: fold_max_ge(1))
qed (simp add: neighbors_of_def)

lemma stack_work_push:
  assumes "index < length (neighbors_of topo a)" "Suc (length stack) < depth"
  shows "stack_work depth topo ((b, 0) # (a, Suc index) # stack) < stack_work depth topo ((a, index) # stack)"
proof -
  let ?n = "max_degree topo" and ?l = "depth - Suc (length stack)" and ?k = "length (neighbors_of topo a) - index"
  have l: "depth - length stack = Suc ?l" using assms(2) by simp
  have "Suc (length (neighbors_of topo b)) * (?n + 2) ^ ?l < (?n + 2) * (?n + 2) ^ ?l"
    using neighbors_max_degree [of topo b] by (intro mult_strict_right_mono) auto
  moreover have k: "?k = Suc (length (neighbors_of topo a) - Suc index)" using assms(1) by simp
  moreover have "Suc ?k * ((?n + 2) * (?n + 2) ^ ?l) = (?n + 2) * (?n + 2) ^ ?l + ?k * ((?n + 2) * (?n + 2) ^ ?l)" by simp
  ultimately show ?thesis unfolding stack_work.simps l power_Suc by simp
qed

function cycle_loop :: "nat \<Rightarrow> as_level_topo \<Rightarrow> asn set \<Rightarrow> asn set \<Rightarrow> nat \<Rightarrow> gt_stack \<Rightarrow> (asn set \<times> nat) option" where
  "cycle_loop depth topo in_cycle visited num_cycles [] = Some (in_cycle, num_cycles)"
| "cycle_loop depth topo in_cycle visited num_cycles ((a, index) # stack) =
     (case domain_at topo a of
        None \<Rightarrow> None
      | Some domain \<Rightarrow>
          if index < length (as_neighbors domain) then
            (let link = as_neighbors domain ! index; b = lk_neighbor link in
             if b \<notin> in_cycle \<and> lk_type link = ASLEVEL_PEER_TYPE_CUSTOMER then
               (if b \<in> visited \<and> b \<in> fst ` set ((a, index) # stack)
                then cycle_loop depth topo (in_cycle \<union> set (cycle_members b ((a, index) # stack))) visited (Suc num_cycles) ((a, Suc index) # stack)
                else if Suc (length stack) < depth
                then cycle_loop depth topo in_cycle (insert b visited) num_cycles ((b, 0) # (a, Suc index) # stack)
                else None)
             else cycle_loop depth topo in_cycle visited num_cycles ((a, Suc index) # stack))
          else cycle_loop depth topo in_cycle (visited - {a}) num_cycles stack)"
  by pat_completeness auto
termination
proof (relation "measure (\<lambda>(depth, topo, in_cycle, visited, num_cycles, stack). stack_work depth topo stack)", goal_cases)
  case (3 depth topo in_cycle visited num_cycles a index stack domain link b)
  then show ?case using stack_work_push [of index topo a stack depth b] by (simp add: neighbors_of_def)
qed (auto simp: neighbors_of_def diff_less_mono2)

text \<open>One traversal from each top domain.\<close>

fun cycle_tops :: "nat \<Rightarrow> as_level_topo \<Rightarrow> asn set \<Rightarrow> nat \<Rightarrow> asn list \<Rightarrow> nat option" where
  "cycle_tops depth topo in_cycle num_cycles [] = Some num_cycles"
| "cycle_tops depth topo in_cycle num_cycles (a # as) =
     (case cycle_loop depth topo in_cycle {a} num_cycles [(a, 0)] of
        None \<Rightarrow> None
      | Some (in_cycle, num_cycles) \<Rightarrow> cycle_tops depth topo in_cycle num_cycles as)"

definition CYCLE_QUEUE_SIZE :: nat where "CYCLE_QUEUE_SIZE = 100"

definition aslevel_topo_check_cycle :: "as_env \<Rightarrow> as_level_topo \<Rightarrow> int option" where
  "aslevel_topo_check_cycle env topo =
     (if aslevel_topo_num_nodes topo = 0 then Some ASLEVEL_SUCCESS
      else let top_domains = aslevel_topo_get_top env topo in
        if top_domains = [] then Some ASLEVEL_ERROR_CYCLE_DETECTED
        else do {
          num_cycles \<leftarrow> cycle_tops CYCLE_QUEUE_SIZE topo {} 0 top_domains;
          Some (if num_cycles > 0 then ASLEVEL_ERROR_CYCLE_DETECTED else ASLEVEL_SUCCESS)
        })"

section \<open>Relationships\<close>

definition aslevel_reverse_relation :: "peer_type \<Rightarrow> peer_type" where
  "aslevel_reverse_relation t =
     (if t = ASLEVEL_PEER_TYPE_CUSTOMER then ASLEVEL_PEER_TYPE_PROVIDER
      else if t = ASLEVEL_PEER_TYPE_PROVIDER then ASLEVEL_PEER_TYPE_CUSTOMER
      else if t = ASLEVEL_PEER_TYPE_PEER then ASLEVEL_PEER_TYPE_PEER
      else if t = ASLEVEL_PEER_TYPE_SIBLING then ASLEVEL_PEER_TYPE_SIBLING
      else ASLEVEL_PEER_TYPE_UNKNOWN)"

definition aslevel_str2peer_type :: "string \<Rightarrow> peer_type" where
  "aslevel_str2peer_type str =
     (if str = ''customer'' then ASLEVEL_PEER_TYPE_CUSTOMER
      else if str = ''peer'' then ASLEVEL_PEER_TYPE_PEER
      else if str = ''provider'' then ASLEVEL_PEER_TYPE_PROVIDER
      else if str = ''sibling'' then ASLEVEL_PEER_TYPE_SIBLING
      else ASLEVEL_PEER_TYPE_UNKNOWN)"

definition aslevel_peer_type2str :: "peer_type \<Rightarrow> string" where
  "aslevel_peer_type2str t =
     (if t = ASLEVEL_PEER_TYPE_CUSTOMER then ''customer''
      else if t = ASLEVEL_PEER_TYPE_PEER then ''peer''
      else if t = ASLEVEL_PEER_TYPE_PROVIDER then ''provider''
      else if t = ASLEVEL_PEER_TYPE_SIBLING then ''sibling''
      else ''unknown'')"

definition link_consistent :: "as_level_topo \<Rightarrow> asn \<Rightarrow> as_level_link \<Rightarrow> bool option" where
  "link_consistent topo a link1 = do {
     domain2 \<leftarrow> domain_at topo (lk_neighbor link1);
     case aslevel_as_get_link domain2 a of
       None \<Rightarrow> Some False
     | Some link2 \<Rightarrow> Some (lk_type link1 = aslevel_reverse_relation (lk_type link2))
   }"

fun links_consistent :: "as_level_topo \<Rightarrow> (asn \<times> as_level_link) list \<Rightarrow> int option" where
  "links_consistent topo [] = Some ASLEVEL_SUCCESS"
| "links_consistent topo ((a, link) # links) = do {
     ok \<leftarrow> link_consistent topo a link;
     if ok then links_consistent topo links else Some ASLEVEL_ERROR_INCONSISTENT
   }"

definition aslevel_topo_check_consistency :: "as_level_topo \<Rightarrow> int option" where
  "aslevel_topo_check_consistency topo =
     links_consistent topo (concat (map (\<lambda>d. map (Pair (as_asn d)) (as_neighbors d)) (tp_domains topo)))"

section \<open>Filters of topologies\<close>

definition ASLEVEL_FILTER_STUBS :: "8 word" where "ASLEVEL_FILTER_STUBS = 0"
definition ASLEVEL_FILTER_SHSTUBS :: "8 word" where "ASLEVEL_FILTER_SHSTUBS = 1"
definition ASLEVEL_FILTER_P2P :: "8 word" where "ASLEVEL_FILTER_P2P = 2"
definition ASLEVEL_FILTER_KEEP_TOP :: "8 word" where "ASLEVEL_FILTER_KEEP_TOP = 3"


definition aslevel_filter_str2filter :: "string \<Rightarrow> int + 8 word" where
  "aslevel_filter_str2filter str =
     (if str = ''stubs'' then Inr ASLEVEL_FILTER_STUBS
      else if str = ''single-homed-stubs'' then Inr ASLEVEL_FILTER_SHSTUBS
      else if str = ''peer-to-peer'' then Inr ASLEVEL_FILTER_P2P
      else if str = ''keep-top'' then Inr ASLEVEL_FILTER_KEEP_TOP
      else Inl ASLEVEL_ERROR_UNKNOWN_FILTER)"

text \<open>The removal of peer-to-peer links of a domain: it ends at the first neighbour without provider.\<close>

function p2p_links :: "as_level_topo \<Rightarrow> nat \<Rightarrow> as_level_link list \<Rightarrow> as_level_link list option" where
  "p2p_links topo index2 links =
     (if index2 < length links then
        (case domain_at topo (lk_neighbor (links ! index2)) of
           None \<Rightarrow> None
         | Some neighbor \<Rightarrow>
             if aslevel_as_num_providers neighbor = 0 then Some links
             else if lk_type (links ! index2) = ASLEVEL_PEER_TYPE_PEER then p2p_links topo index2 (remove_at index2 links)
             else p2p_links topo (Suc index2) links)
      else Some links)"
  by auto
termination
  by (relation "measure (\<lambda>(_, index2, links). length links - index2)") (auto simp: length_remove_at)

declare p2p_links.simps [simp del]

fun filter_identify :: "8 word \<Rightarrow> asn list \<Rightarrow> as_level_topo \<Rightarrow> asn set \<Rightarrow> (int \<times> asn set \<times> as_level_topo) option" where
  "filter_identify flt [] topo marked = Some (ASLEVEL_SUCCESS, marked, topo)"
| "filter_identify flt (a # as) topo marked =
     (case domain_at topo a of
        None \<Rightarrow> None
      | Some domain \<Rightarrow>
          let num_customers = aslevel_as_num_customers domain; num_providers = aslevel_as_num_providers domain in
          if flt = ASLEVEL_FILTER_STUBS then
            filter_identify flt as topo (if num_customers = 0 then insert a marked else marked)
          else if flt = ASLEVEL_FILTER_SHSTUBS then
            filter_identify flt as topo (if num_customers = 0 \<and> num_providers = 1 then insert a marked else marked)
          else if flt = ASLEVEL_FILTER_P2P then
            (if num_providers = 0 then filter_identify flt as topo marked
             else (case p2p_links topo 0 (as_neighbors domain) of
                 None \<Rightarrow> None
               | Some links \<Rightarrow> filter_identify flt as (domain_modify a (\<lambda>d. d\<lparr>as_neighbors := links\<rparr>) topo)
                                 (if links = [] then insert a marked else marked)))
          else if flt = ASLEVEL_FILTER_KEEP_TOP then
            filter_identify flt as topo (if num_providers > 0 then insert a marked else marked)
          else Some (ASLEVEL_ERROR_UNKNOWN_FILTER, marked, topo))"

definition filter_links :: "asn set \<Rightarrow> as_level_domain \<Rightarrow> as_level_domain option" where
  "filter_links marked domain =
     map_option (\<lambda>ls. domain\<lparr>as_neighbors := ls\<rparr>) (remove_loop (\<lambda>link. Some (lk_neighbor link \<in> marked)) 0 (as_neighbors domain))"

definition aslevel_filter_topo :: "8 word \<Rightarrow> as_level_topo \<Rightarrow> (int \<times> as_level_topo) option" where
  "aslevel_filter_topo flt topo = do {
     (result, marked, topo) \<leftarrow> filter_identify flt (map as_asn (tp_domains topo)) topo {};
     if result \<noteq> ASLEVEL_SUCCESS then Some (result, topo)
     else do {
       ds \<leftarrow> those (map (filter_links marked) (tp_domains topo));
       ds \<leftarrow> remove_loop (\<lambda>domain. Some (as_asn domain \<in> marked)) 0 ds;
       Some (ASLEVEL_SUCCESS, topo\<lparr>tp_domains := ds\<rparr>)
     }
   }"

section \<open>Parsers\<close>

text \<open>What the parsers use of libgds: the tokenizer and the readers of numbers.\<close>

record parse_env =
  tokenizer_run :: "string \<Rightarrow> string list option"
  str_as_uint :: "string \<Rightarrow> nat option"
  tokens_get_uint :: "string \<Rightarrow> nat option"
  tokens_get_int :: "string \<Rightarrow> int option"

text \<open>\<open>fgets\<close> with a buffer of 80 bytes: at most 79 characters, up to a newline.\<close>

fun fgets :: "nat \<Rightarrow> string \<Rightarrow> string \<times> string" where
  "fgets 0 s = ([], s)"
| "fgets (Suc n) [] = ([], [])"
| "fgets (Suc n) (c # s) = (if c = CHR 0x0A then ([c], s) else let (line, rest) = fgets n s in (c # line, rest))"

lemma fgets_length: "fgets n s = (line, rest) \<Longrightarrow> length rest \<le> length s"
  by (induction n s arbitrary: line rest rule: fgets.induct) (fastforce split: if_splits prod.splits)+

function file_lines :: "string \<Rightarrow> string list" where
  "file_lines s = (if s = [] then [] else fst (fgets 79 s) # file_lines (snd (fgets 79 s)))"
  by auto
termination
proof (relation "measure length", goal_cases)
  case (2 s)
  then obtain c t where s: "s = c # t" by (cases s) auto
  have "length (snd (fgets 78 t)) \<le> length t" by (metis fgets_length prod.collapse)
  moreover have "fgets 79 s = (if c = CHR 0x0A then ([c], t) else let (line, rest) = fgets 78 t in (c # line, rest))"
    using fgets.simps(3) [of 78 c t] s by simp
  ultimately show ?case by (simp add: s case_prod_beta Let_def)
qed simp

declare file_lines.simps [simp del]

definition str2delay :: "(string \<Rightarrow> nat option) \<Rightarrow> string \<Rightarrow> (32 word) option" where
  "str2delay as_uint str = map_option of_nat (as_uint str)"

text \<open>A domain that is looked up and added when it is not there.\<close>

definition get_or_add_as :: "as_env \<Rightarrow> asn \<Rightarrow> as_level_topo \<Rightarrow> (asn option \<times> as_level_topo) option" where
  "get_or_add_as env a topo = do {
     (domain, topo) \<leftarrow> aslevel_topo_get_as a topo;
     Some (if domain \<noteq> None then (domain, topo) else aslevel_topo_add_as env a topo)
   }"

text \<open>The end of the three loop bodies: the domains, then the link, in one or in both directions.\<close>

definition add_relation :: "as_env \<Rightarrow> bool \<Rightarrow> asn \<Rightarrow> asn \<Rightarrow> peer_type \<Rightarrow> as_level_topo \<Rightarrow> (int \<times> as_level_topo) option" where
  "add_relation env both asn1 asn2 t topo = do {
     (domain1, topo) \<leftarrow> get_or_add_as env asn1 topo;
     case domain1 of
       None \<Rightarrow> Some (ASLEVEL_ERROR_UNEXPECTED, topo)
     | Some domain1 \<Rightarrow> do {
         (domain2, topo) \<leftarrow> get_or_add_as env asn2 topo;
         case domain2 of
           None \<Rightarrow> Some (ASLEVEL_ERROR_UNEXPECTED, topo)
         | Some domain2 \<Rightarrow> do {
             (error, topo) \<leftarrow> aslevel_as_add_link env domain1 domain2 t topo;
             if error \<noteq> ASLEVEL_SUCCESS \<or> \<not> both then Some (error, topo)
             else aslevel_as_add_link env domain2 domain1 (aslevel_reverse_relation t) topo
           }
       }
   }"

definition rexford_relation_to_peer_type :: "nat \<Rightarrow> peer_type option" where
  "rexford_relation_to_peer_type relation =
     (if relation = 1 then Some ASLEVEL_PEER_TYPE_CUSTOMER
      else if relation = 0 then Some ASLEVEL_PEER_TYPE_PEER
      else None)"

definition rexford_line :: "as_env \<Rightarrow> parse_env \<Rightarrow> string \<Rightarrow> as_level_topo \<Rightarrow> (int \<times> as_level_topo) option" where
  "rexford_line env pe line topo =
     (if line \<noteq> [] \<and> hd line = CHR ''#'' then Some (ASLEVEL_SUCCESS, topo)
      else case tokenizer_run pe line of
        None \<Rightarrow> Some (ASLEVEL_ERROR_UNEXPECTED, topo)
      | Some tokens \<Rightarrow>
          if length tokens < 3 then Some (ASLEVEL_ERROR_NUM_PARAMS, topo)
          else (case (str2asn (str_as_uint pe) (tokens ! 0), str2asn (str_as_uint pe) (tokens ! 1)) of
              (Some asn1, Some asn2) \<Rightarrow>
                (case Option.bind (tokens_get_uint pe (tokens ! 2)) rexford_relation_to_peer_type of
                   None \<Rightarrow> Some (ASLEVEL_ERROR_INVALID_RELATION, topo)
                 | Some t \<Rightarrow>
                     if length tokens > 3 \<and> str2delay (str_as_uint pe) (tokens ! 3) = None then Some (ASLEVEL_ERROR_INVALID_DELAY, topo)
                     else if length tokens > 4 then Some (ASLEVEL_ERROR_NUM_PARAMS, topo)
                     else add_relation env True asn1 asn2 t topo)
            | _ \<Rightarrow> Some (ASLEVEL_ERROR_INVALID_ASNUM, topo)))"

definition caida_relation_to_peer_type :: "int \<Rightarrow> peer_type option" where
  "caida_relation_to_peer_type relation =
     (if relation = -1 then Some ASLEVEL_PEER_TYPE_PROVIDER
      else if relation = 1 then Some ASLEVEL_PEER_TYPE_CUSTOMER
      else if relation = 0 then Some ASLEVEL_PEER_TYPE_PEER
      else if relation = 2 then Some ASLEVEL_PEER_TYPE_SIBLING
      else None)"

definition caida_line :: "as_env \<Rightarrow> parse_env \<Rightarrow> string \<Rightarrow> as_level_topo \<Rightarrow> (int \<times> as_level_topo) option" where
  "caida_line env pe line topo =
     (if line \<noteq> [] \<and> hd line = CHR ''#'' then Some (ASLEVEL_SUCCESS, topo)
      else case tokenizer_run pe line of
        None \<Rightarrow> Some (ASLEVEL_ERROR_UNEXPECTED, topo)
      | Some tokens \<Rightarrow>
          if length tokens \<noteq> 3 then Some (ASLEVEL_ERROR_NUM_PARAMS, topo)
          else (case (str2asn (str_as_uint pe) (tokens ! 0), str2asn (str_as_uint pe) (tokens ! 1)) of
              (Some asn1, Some asn2) \<Rightarrow>
                (case Option.bind (tokens_get_int pe (tokens ! 2)) caida_relation_to_peer_type of
                   None \<Rightarrow> Some (ASLEVEL_ERROR_INVALID_RELATION, topo)
                 | Some t \<Rightarrow> add_relation env False asn1 asn2 t topo)
            | _ \<Rightarrow> Some (ASLEVEL_ERROR_INVALID_ASNUM, topo)))"

definition meulle_asn :: "parse_env \<Rightarrow> string \<Rightarrow> asn option" where
  "meulle_asn pe str = (if take 2 str = ''AS'' then str2asn (str_as_uint pe) (drop 2 str) else None)"

definition meulle_relation :: "string \<Rightarrow> peer_type option" where
  "meulle_relation relation =
     (if relation = ''PEER'' then Some ASLEVEL_PEER_TYPE_PEER
      else if relation = ''P2C'' then Some ASLEVEL_PEER_TYPE_CUSTOMER
      else if relation = ''C2P'' then Some ASLEVEL_PEER_TYPE_PROVIDER
      else None)"

definition meulle_line :: "as_env \<Rightarrow> parse_env \<Rightarrow> string \<Rightarrow> as_level_topo \<Rightarrow> (int \<times> as_level_topo) option" where
  "meulle_line env pe line topo =
     (if line \<noteq> [] \<and> hd line = CHR ''#'' then Some (ASLEVEL_SUCCESS, topo)
      else case tokenizer_run pe line of
        None \<Rightarrow> Some (ASLEVEL_ERROR_UNEXPECTED, topo)
      | Some tokens \<Rightarrow>
          if length tokens \<noteq> 3 then Some (ASLEVEL_ERROR_NUM_PARAMS, topo)
          else (case (meulle_asn pe (tokens ! 0), meulle_asn pe (tokens ! 1)) of
              (Some asn1, Some asn2) \<Rightarrow>
                (case meulle_relation (tokens ! 2) of
                   None \<Rightarrow> Some (ASLEVEL_ERROR_INVALID_RELATION, topo)
                 | Some t \<Rightarrow> add_relation env False asn1 asn2 t topo)
            | _ \<Rightarrow> Some (ASLEVEL_ERROR_INVALID_ASNUM, topo)))"

text \<open>The loop of the parsers: it ends with the file or with the first error, at the number of the last line read.\<close>

fun parse_lines :: "(string \<Rightarrow> as_level_topo \<Rightarrow> (int \<times> as_level_topo) option) \<Rightarrow> string list \<Rightarrow> nat \<Rightarrow> as_level_topo
    \<Rightarrow> (int \<times> nat \<times> as_level_topo) option" where
  "parse_lines parse [] line_number topo = Some (ASLEVEL_SUCCESS, line_number, topo)"
| "parse_lines parse (line # lines) line_number topo = do {
     (error, topo) \<leftarrow> parse line topo;
     if error \<noteq> ASLEVEL_SUCCESS then Some (error, Suc line_number, topo)
     else parse_lines parse lines (Suc line_number) topo
   }"

definition rexford_parser :: "as_env \<Rightarrow> parse_env \<Rightarrow> string \<Rightarrow> as_level_topo \<Rightarrow> (int \<times> nat \<times> as_level_topo) option" where
  "rexford_parser env pe file topo = parse_lines (rexford_line env pe) (file_lines file) 0 topo"

definition caida_parser :: "as_env \<Rightarrow> parse_env \<Rightarrow> string \<Rightarrow> as_level_topo \<Rightarrow> (int \<times> nat \<times> as_level_topo) option" where
  "caida_parser env pe file topo = parse_lines (caida_line env pe) (file_lines file) 0 topo"

definition meulle_parser :: "as_env \<Rightarrow> parse_env \<Rightarrow> string \<Rightarrow> as_level_topo \<Rightarrow> (int \<times> nat \<times> as_level_topo) option" where
  "meulle_parser env pe file topo = parse_lines (meulle_line env pe) (file_lines file) 0 topo"

section \<open>Operations on the loaded topology\<close>

definition aslevel_topo_str2format :: "string \<Rightarrow> int + 8 word" where
  "aslevel_topo_str2format str =
     (if str = ''default'' \<or> str = ''rexford'' then Inr ASLEVEL_FORMAT_REXFORD
      else if str = ''caida'' then Inr ASLEVEL_FORMAT_CAIDA
      else if str = ''meulle'' then Inr ASLEVEL_FORMAT_MEULLE
      else Inl ASLEVEL_ERROR_UNKNOWN_FORMAT)"

text \<open>Loading a topology: the result, the line number when it is written, and the loaded topology.  A file that cannot be opened is
  \<^term>\<open>None\<close>.\<close>

definition aslevel_topo_load ::
    "as_env \<Rightarrow> parse_env \<Rightarrow> string option \<Rightarrow> 8 word \<Rightarrow> 8 word \<Rightarrow> as_level_topo option \<Rightarrow> (int \<times> int option \<times> as_level_topo option) option" where
  "aslevel_topo_load env pe file fmt addr_scheme the_topo =
     (if the_topo \<noteq> None then Some (ASLEVEL_ERROR_TOPOLOGY_LOADED, None, the_topo)
      else case file of
        None \<Rightarrow> Some (ASLEVEL_ERROR_OPEN, None, None)
      | Some file \<Rightarrow> do {
          topo \<leftarrow> aslevel_topo_create addr_scheme;
          (result, line_num, topo) \<leftarrow>
            (if fmt = ASLEVEL_FORMAT_REXFORD then map_option (map_prod (\<lambda>r. r) (map_prod int (\<lambda>t. t))) (rexford_parser env pe file topo)
             else if fmt = ASLEVEL_FORMAT_CAIDA then map_option (map_prod (\<lambda>r. r) (map_prod int (\<lambda>t. t))) (caida_parser env pe file topo)
             else if fmt = ASLEVEL_FORMAT_MEULLE then map_option (map_prod (\<lambda>r. r) (map_prod int (\<lambda>t. t))) (meulle_parser env pe file topo)
             else Some (ASLEVEL_ERROR_UNKNOWN_FORMAT, -1, topo));
          if result \<noteq> 0 then Some (result, Some line_num, None)
          else do {
            result \<leftarrow> aslevel_topo_check_consistency topo;
            Some (result, Some line_num, Some topo)
          }
        })"

definition aslevel_topo_check :: "as_env \<Rightarrow> as_level_topo option \<Rightarrow> int option" where
  "aslevel_topo_check env the_topo =
     (case the_topo of
        None \<Rightarrow> Some ASLEVEL_ERROR_NO_TOPOLOGY
      | Some topo \<Rightarrow> do {
          result \<leftarrow> aslevel_topo_check_connectedness topo;
          if result \<noteq> ASLEVEL_SUCCESS then Some result else aslevel_topo_check_cycle env topo
        })"

definition aslevel_topo_filter_as :: "asn \<Rightarrow> as_level_topo option \<Rightarrow> (int \<times> as_level_topo option) option" where
  "aslevel_topo_filter_as a the_topo =
     (case the_topo of
        None \<Rightarrow> Some (ASLEVEL_ERROR_NO_TOPOLOGY, None)
      | Some topo \<Rightarrow>
          if tp_state topo > ASLEVEL_STATE_LOADED then Some (ASLEVEL_ERROR_ALREADY_INSTALLED, Some topo)
          else map_option (map_prod (\<lambda>r. r) Some) (aslevel_topo_remove_as a topo))"

definition aslevel_topo_filter_group :: "8 word \<Rightarrow> as_level_topo option \<Rightarrow> (int \<times> as_level_topo option) option" where
  "aslevel_topo_filter_group flt the_topo =
     (case the_topo of
        None \<Rightarrow> Some (ASLEVEL_ERROR_NO_TOPOLOGY, None)
      | Some topo \<Rightarrow>
          if tp_state topo > ASLEVEL_STATE_LOADED then Some (ASLEVEL_ERROR_ALREADY_INSTALLED, Some topo)
          else map_option (map_prod (\<lambda>r. r) Some) (aslevel_filter_topo flt topo))"

text \<open>The counters that \<open>aslevel_topo_info\<close> prints: edges, provider-customer, peer and sibling edges, unknown relationships.\<close>

definition aslevel_topo_info :: "as_level_topo option \<Rightarrow> int + nat \<times> nat \<times> nat \<times> nat \<times> nat \<times> nat" where
  "aslevel_topo_info the_topo =
     (case the_topo of
        None \<Rightarrow> Inl ASLEVEL_ERROR_NO_TOPOLOGY
      | Some topo \<Rightarrow>
          let links = concat (map as_neighbors (tp_domains topo));
              num = (\<lambda>P. length (filter (\<lambda>link. P (lk_type link)) links))
          in Inr (length (tp_domains topo), length links div 2,
               num (\<lambda>t. t = ASLEVEL_PEER_TYPE_CUSTOMER \<or> t = ASLEVEL_PEER_TYPE_PROVIDER) div 2, num (\<lambda>t. t = ASLEVEL_PEER_TYPE_PEER) div 2,
               num (\<lambda>t. t = ASLEVEL_PEER_TYPE_SIBLING) div 2,
               num (\<lambda>t. t \<notin> {ASLEVEL_PEER_TYPE_CUSTOMER, ASLEVEL_PEER_TYPE_PROVIDER, ASLEVEL_PEER_TYPE_PEER, ASLEVEL_PEER_TYPE_SIBLING})))"

text \<open>The lines of \<open>aslevel_topo_dump\<close>: each link in the direction of increasing numbers, with its relationship.\<close>

definition aslevel_topo_dump :: "as_level_topo option \<Rightarrow> int + (asn \<times> asn \<times> peer_type) list" where
  "aslevel_topo_dump the_topo =
     (case the_topo of
        None \<Rightarrow> Inl ASLEVEL_ERROR_NO_TOPOLOGY
      | Some topo \<Rightarrow> Inr (concat (map (\<lambda>domain.
          map (\<lambda>link. (as_asn domain, lk_neighbor link, lk_type link))
            (filter (\<lambda>link. as_asn domain < lk_neighbor link) (as_neighbors domain))) (tp_domains topo))))"

text \<open>The lines of \<open>aslevel_topo_dump_stubs\<close>: each domain without customers with its neighbours.\<close>

definition aslevel_topo_dump_stubs :: "as_level_topo option \<Rightarrow> int + (asn \<times> asn list) list" where
  "aslevel_topo_dump_stubs the_topo =
     (case the_topo of
        None \<Rightarrow> Inl ASLEVEL_ERROR_NO_TOPOLOGY
      | Some topo \<Rightarrow> Inr (map (\<lambda>domain. (as_asn domain, map lk_neighbor (as_neighbors domain)))
          (filter (\<lambda>domain. aslevel_as_num_customers domain = 0) (tp_domains topo))))"

section \<open>Policies\<close>

definition COMM_PROV :: bgp_comm where "COMM_PROV = 1"
definition COMM_PEER :: bgp_comm where "COMM_PEER = 10"
definition ASLEVEL_PREF_PROV :: "32 word" where "ASLEVEL_PREF_PROV = 60"
definition ASLEVEL_PREF_PEER :: "32 word" where "ASLEVEL_PREF_PEER = 80"
definition ASLEVEL_PREF_CUST :: "32 word" where "ASLEVEL_PREF_CUST = 100"

definition aslevel_filter_in :: "peer_type \<Rightarrow> bgp_filter option" where
  "aslevel_filter_in t =
     (if t = ASLEVEL_PEER_TYPE_CUSTOMER then Some (filter_add_rule [] None [FT_ACTION_PREF_SET ASLEVEL_PREF_CUST])
      else if t = ASLEVEL_PEER_TYPE_PROVIDER then
        Some (filter_add_rule (filter_add_rule [] None [FT_ACTION_COMM_APPEND COMM_PROV]) None [FT_ACTION_PREF_SET ASLEVEL_PREF_PROV])
      else if t = ASLEVEL_PEER_TYPE_PEER then
        Some (filter_add_rule (filter_add_rule [] None [FT_ACTION_COMM_APPEND COMM_PEER]) None [FT_ACTION_PREF_SET ASLEVEL_PREF_PEER])
      else None)"

text \<open>The output filter; the outer option is the stopped program (an assertion in the construction of a predicate).\<close>

definition aslevel_filter_out :: "peer_type \<Rightarrow> bgp_filter option option" where
  "aslevel_filter_out t =
     (if t = ASLEVEL_PEER_TYPE_CUSTOMER then
        Some (Some (filter_add_rule (filter_add_rule [] None [FT_ACTION_COMM_REMOVE COMM_PROV]) None [FT_ACTION_COMM_REMOVE COMM_PEER]))
      else if t = ASLEVEL_PEER_TYPE_PROVIDER \<or> t = ASLEVEL_PEER_TYPE_PEER then do {
        m \<leftarrow> filter_match_or (Some (FT_MATCH_COMM_CONTAINS COMM_PROV)) (Some (FT_MATCH_COMM_CONTAINS COMM_PEER));
        Some (Some (filter_add_rule (filter_add_rule (filter_add_rule [] m [FT_ACTION_DENY])
          None [FT_ACTION_COMM_REMOVE COMM_PROV]) None [FT_ACTION_COMM_REMOVE COMM_PEER]))
      }
      else Some None)"

section \<open>The invariant\<close>

text \<open>A well-formed topology: domains and links in order and without duplicates, links to other domains of the topology with a valid
  relationship, and a cache of domains of the topology.\<close>

definition asns_of :: "as_level_topo \<Rightarrow> asn set" where
  "asns_of topo = as_asn ` set (tp_domains topo)"

definition as_links_ok :: "asn set \<Rightarrow> asn \<Rightarrow> as_level_link list \<Rightarrow> bool" where
  "as_links_ok A a links \<longleftrightarrow> sorted_wrt (<) (map lk_neighbor links)
     \<and> (\<forall>link\<in>set links. lk_neighbor link \<in> A - {a} \<and> aslevel_check_peer_type (lk_type link) = ASLEVEL_SUCCESS)"

definition cache_ok :: "as_level_topo \<Rightarrow> bool" where
  "cache_ok topo \<longleftrightarrow> length (tp_cached topo) = ASLEVEL_TOPO_AS_CACHE_SIZE \<and> (\<forall>a. Some a \<in> set (tp_cached topo) \<longrightarrow> a \<in> asns_of topo)"

definition as_topo_ok :: "as_level_topo \<Rightarrow> bool" where
  "as_topo_ok topo \<longleftrightarrow> sorted_wrt (<) (map as_asn (tp_domains topo))
     \<and> (\<forall>d\<in>set (tp_domains topo). as_links_ok (asns_of topo) (as_asn d) (as_neighbors d)) \<and> cache_ok topo"

text \<open>Every link exists in both directions, with matching relationships.\<close>

definition consistent :: "as_level_topo \<Rightarrow> bool" where
  "consistent topo \<longleftrightarrow> (\<forall>a. \<forall>link\<in>set (neighbors_of topo a). \<exists>link'\<in>set (neighbors_of topo (lk_neighbor link)).
     lk_neighbor link' = a \<and> lk_type link = aslevel_reverse_relation (lk_type link'))"

lemma sorted_key_find:
  "sorted_wrt (<) (map k xs) \<Longrightarrow> x \<in> set xs \<Longrightarrow> find (\<lambda>y. k y = (k x :: 'a :: order)) xs = Some x"
  by (induction xs) auto

lemma find_SomeD: "find P xs = Some x \<Longrightarrow> x \<in> set xs \<and> P x"
  by (induction xs) (auto split: if_splits)

lemma domain_at_mem: "domain_at topo a = Some d \<Longrightarrow> d \<in> set (tp_domains topo) \<and> as_asn d = a"
  unfolding domain_at_def by (drule find_SomeD) simp

lemma domain_at_None: "domain_at topo a = None \<longleftrightarrow> a \<notin> asns_of topo"
  by (auto simp: domain_at_def asns_of_def find_None_iff)

lemma domain_at_in:
  assumes "sorted_wrt (<) (map as_asn (tp_domains topo))" "d \<in> set (tp_domains topo)"
  shows "domain_at topo (as_asn d) = Some d"
  using sorted_key_find [OF assms] by (simp add: domain_at_def)

lemma asns_of_SomeE:
  assumes "a \<in> asns_of topo"
  obtains d where "domain_at topo a = Some d" "as_asn d = a"
  using assms domain_at_None [of topo a] domain_at_mem by fastforce

text \<open>The invariant in terms of the links of each number.\<close>

lemma as_topo_ok_iff:
  "as_topo_ok topo \<longleftrightarrow> sorted_wrt (<) (map as_asn (tp_domains topo))
     \<and> (\<forall>a. as_links_ok (asns_of topo) a (neighbors_of topo a)) \<and> cache_ok topo"
proof -
  have "(\<forall>d\<in>set (tp_domains topo). as_links_ok (asns_of topo) (as_asn d) (as_neighbors d))
      \<longleftrightarrow> (\<forall>a. as_links_ok (asns_of topo) a (neighbors_of topo a))"
    if "sorted_wrt (<) (map as_asn (tp_domains topo))"
    using domain_at_in [OF that] domain_at_mem by (fastforce simp: neighbors_of_def as_links_ok_def split: option.splits)
  then show ?thesis unfolding as_topo_ok_def by blast
qed

lemma as_topo_okD:
  assumes "as_topo_ok topo"
  shows "sorted_wrt (<) (map as_asn (tp_domains topo))" "as_links_ok (asns_of topo) a (neighbors_of topo a)" "cache_ok topo"
  using assms by (simp_all add: as_topo_ok_iff)

lemma link_target:
  assumes "as_topo_ok topo" "link \<in> set (neighbors_of topo a)"
  shows "lk_neighbor link \<in> asns_of topo" "lk_neighbor link \<noteq> a" "aslevel_check_peer_type (lk_type link) = ASLEVEL_SUCCESS"
  using as_topo_okD(2) [OF assms(1), of a] assms(2) by (auto simp: as_links_ok_def)

text \<open>How the fields depend on each other.\<close>

lemma asns_of_modify [simp]:
  assumes "\<And>d. as_asn (f d) = as_asn d"
  shows "asns_of (domain_modify a f topo) = asns_of topo" "map as_asn (tp_domains (domain_modify a f topo)) = map as_asn (tp_domains topo)"
    "cache_ok (domain_modify a f topo) = cache_ok topo"
proof -
  show asns: "map as_asn (tp_domains (domain_modify a f topo)) = map as_asn (tp_domains topo)"
    using assms by (simp add: domain_modify_def)
  show dom: "asns_of (domain_modify a f topo) = asns_of topo" unfolding asns_of_def set_map [symmetric] asns ..
  show "cache_ok (domain_modify a f topo) = cache_ok topo" unfolding cache_ok_def dom by (simp add: domain_modify_def)
qed

lemma domain_modify_state [simp]: "tp_state (domain_modify a f topo) = tp_state topo" "tp_addr_mapper (domain_modify a f topo) = tp_addr_mapper topo"
  by (simp_all add: domain_modify_def)

lemma neighbors_of_modify:
  "neighbors_of (domain_modify a (\<lambda>d. d\<lparr>as_neighbors := g (as_neighbors d)\<rparr>) topo) b =
     (if b = a \<and> a \<in> asns_of topo then g (neighbors_of topo a) else neighbors_of topo b)"
  using domain_at_None [of topo b] by (auto simp: neighbors_of_def domain_at_modify split: option.splits)

lemma as_topo_ok_modify:
  assumes "as_topo_ok topo" "as_links_ok (asns_of topo) a (g (neighbors_of topo a))"
  shows "as_topo_ok (domain_modify a (\<lambda>d. d\<lparr>as_neighbors := g (as_neighbors d)\<rparr>) topo)"
  using assms unfolding as_topo_ok_iff by (auto simp: neighbors_of_modify)

lemma cache_update_fields [simp]:
  "tp_domains (aslevel_topo_cache_update_as a topo) = tp_domains topo" "domain_at (aslevel_topo_cache_update_as a topo) = domain_at topo"
  "neighbors_of (aslevel_topo_cache_update_as a topo) = neighbors_of topo" "asns_of (aslevel_topo_cache_update_as a topo) = asns_of topo"
  "tp_state (aslevel_topo_cache_update_as a topo) = tp_state topo" "tp_addr_mapper (aslevel_topo_cache_update_as a topo) = tp_addr_mapper topo"
  by (simp_all add: aslevel_topo_cache_update_as_def domain_at_def [abs_def] neighbors_of_def [abs_def] asns_of_def)

lemma cache_update_ok: "cache_ok topo \<Longrightarrow> a \<in> asns_of topo \<Longrightarrow> cache_ok (aslevel_topo_cache_update_as a topo)"
  by (auto simp: cache_ok_def aslevel_topo_cache_update_as_def asns_of_def ASLEVEL_TOPO_AS_CACHE_SIZE_def dest: in_set_takeD in_set_dropD)

lemma cache_invalidate_fields [simp]:
  "tp_domains (aslevel_topo_cache_invalidate topo) = tp_domains topo" "domain_at (aslevel_topo_cache_invalidate topo) = domain_at topo"
  "neighbors_of (aslevel_topo_cache_invalidate topo) = neighbors_of topo" "asns_of (aslevel_topo_cache_invalidate topo) = asns_of topo"
  "cache_ok (aslevel_topo_cache_invalidate topo)" "tp_state (aslevel_topo_cache_invalidate topo) = tp_state topo"
  "tp_cached (aslevel_topo_cache_invalidate topo) = replicate ASLEVEL_TOPO_AS_CACHE_SIZE None"
  by (simp_all add: aslevel_topo_cache_invalidate_def aslevel_topo_cache_init_def domain_at_def [abs_def] neighbors_of_def [abs_def]
      asns_of_def cache_ok_def)

section \<open>The cache\<close>

lemma cache_lookup_eq:
  assumes "index \<le> length (tp_cached topo)" "\<forall>a. Some a \<in> set (tp_cached topo) \<longrightarrow> a \<in> asns_of topo"
  shows "cache_lookup topo a index = Some None \<or> a \<in> asns_of topo \<and> cache_lookup topo a index = Some (Some a)"
  using assms(1)
proof (induction index)
  case (Suc index)
  show ?case
  proof (cases "tp_cached topo ! index")
    case (Some p)
    then have "p \<in> asns_of topo" using assms(2) Suc.prems by (metis Suc_le_lessD nth_mem)
    then obtain d where "domain_at topo p = Some d" "as_asn d = p" by (rule asns_of_SomeE)
    with \<open>p \<in> asns_of topo\<close> show ?thesis using Some Suc by auto
  qed simp
qed simp

lemma get_as_search:
  assumes "cache_ok topo"
  shows "\<exists>topo'. aslevel_topo_get_as a topo = Some (if a \<in> asns_of topo then Some a else None, topo')
    \<and> (topo' = topo \<or> a \<in> asns_of topo \<and> topo' = aslevel_topo_cache_update_as a topo)"
proof -
  have "aslevel_topo_cache_lookup_as topo a = Some None \<or> a \<in> asns_of topo \<and> aslevel_topo_cache_lookup_as topo a = Some (Some a)"
    unfolding aslevel_topo_cache_lookup_as_def by (rule cache_lookup_eq) (use assms in \<open>auto simp: cache_ok_def\<close>)
  then show ?thesis
    using domain_at_None [of topo a] domain_at_mem [of topo a] by (auto simp: aslevel_topo_get_as_def split: option.splits)
qed

section \<open>Building a topology\<close>

text \<open>The arrays of libgds, ordered by AS number.\<close>

lemma key_cmp_on:
  fixes k :: "'a \<Rightarrow> 'b :: linorder"
  assumes "\<And>x y. cmp x y = (if k x < k y then -1 else if k x > k y then 1 else (0 :: int))"
  shows "cmp_on cmp A" "strict_sorted_by cmp xs \<longleftrightarrow> sorted_wrt (<) (map k xs)"
  unfolding cmp_on_def strict_sorted_by_def sorted_wrt_map assms by (auto elim!: sorted_wrt_mono_rel [rotated] split: if_splits)

text \<open>A sorted array whose elements are compared by a key.\<close>

lemma key_array:
  fixes k :: "'a \<Rightarrow> 'b :: linorder"
  assumes arr: "gds_sorted_array cmp add" and cmp: "\<And>x y. cmp x y = (if k x < k y then -1 else if k x > k y then 1 else (0 :: int))"
    and sorted: "sorted_wrt (<) (map k xs)"
  shows "add xs x = None \<longleftrightarrow> k x \<in> k ` set xs"
    "add xs x = Some ys \<Longrightarrow> set ys = insert x (set xs) \<and> sorted_wrt (<) (map k ys)"
proof -
  have s: "strict_sorted_by cmp xs" using sorted by (simp add: key_cmp_on(2) [of cmp k, OF cmp])
  note on = key_cmp_on(1) [of cmp k, OF cmp]
  show "add xs x = None \<longleftrightarrow> k x \<in> k ` set xs"
  proof
    assume "add xs x = None"
    then have "\<exists>y\<in>set xs. cmp y x = 0" using gds_sorted_array.add_new [OF arr s on, of x] by auto
    then show "k x \<in> k ` set xs" by (auto simp: cmp image_iff not_less_iff_gr_or_eq split: if_splits)
  next
    assume "k x \<in> k ` set xs"
    then have "\<exists>y\<in>set xs. cmp y x = 0" by (auto simp: cmp)
    then show "add xs x = None" by (rule gds_sorted_array.add_duplicate [OF arr s on])
  qed
  show "add xs x = Some ys \<Longrightarrow> set ys = insert x (set xs) \<and> sorted_wrt (<) (map k ys)"
    using gds_sorted_array.add_Some [OF arr s on] by (simp add: key_cmp_on(2) [of cmp k, OF cmp])
qed

definition refs_compare :: "asn \<Rightarrow> asn \<Rightarrow> int" where
  "refs_compare a b = (if a < b then -1 else if a > b then 1 else 0)"

locale as_arrays =
  ds: gds_sorted_array aslevel_topo_compare_as "as_domains_add env" + ls: gds_sorted_array aslevel_as_compare_link "as_links_add env"
  + rs: gds_sorted_array refs_compare "as_refs_add env" for env :: as_env
begin

lemmas domains_add = key_array [of aslevel_topo_compare_as "as_domains_add env" as_asn, OF ds.gds_sorted_array_axioms aslevel_topo_compare_as_def]
lemmas links_add = key_array [of aslevel_as_compare_link "as_links_add env" lk_neighbor, OF ls.gds_sorted_array_axioms aslevel_as_compare_link_def]
lemmas refs_add = key_array [of refs_compare "as_refs_add env" "\<lambda>a. a", OF rs.gds_sorted_array_axioms refs_compare_def]

lemma get_top_set: "set (aslevel_topo_get_top env topo) = as_asn ` {d \<in> set (tp_domains topo). aslevel_as_num_providers d = 0}"
proof -
  let ?f = "\<lambda>domain array. if aslevel_as_num_providers domain = 0
       then (case as_refs_add env array (as_asn domain) of None \<Rightarrow> array | Some array \<Rightarrow> array) else array"
  have step: "sorted_wrt (<) (map (\<lambda>a. a) (?f d xs))
      \<and> set (?f d xs) = set xs \<union> (if aslevel_as_num_providers d = 0 then {as_asn d} else {})"
    if s: "sorted_wrt (<) (map (\<lambda>a. a) xs)" for d xs
  proof (cases "as_refs_add env xs (as_asn d)")
    case None
    then have "as_asn d \<in> set xs" using refs_add(1) [OF s, of "as_asn d"] by auto
    then show ?thesis using s None by auto
  next
    case (Some ys)
    then show ?thesis using s refs_add(2) [OF s Some] by auto
  qed
  have "sorted_wrt (<) (map (\<lambda>a. a) xs) \<Longrightarrow>
      set (fold ?f ds xs) = set xs \<union> as_asn ` {d \<in> set ds. aslevel_as_num_providers d = 0}" for ds xs
  proof (induction ds arbitrary: xs)
    case (Cons d ds)
    have "set (fold ?f (d # ds) xs) = set (?f d xs) \<union> as_asn ` {d \<in> set ds. aslevel_as_num_providers d = 0}"
      using Cons.IH step [OF Cons.prems, of d] by (simp only: fold_simps)
    also have "\<dots> = set xs \<union> as_asn ` {e \<in> set (d # ds). aslevel_as_num_providers e = 0}"
      using step [OF Cons.prems, of d] by auto
    finally show ?case .
  qed simp
  from this [of "[]"] show ?thesis by (simp add: aslevel_topo_get_top_def)
qed

end

lemma domain_at_iff:
  assumes "sorted_wrt (<) (map as_asn (tp_domains topo))"
  shows "domain_at topo a = Some d \<longleftrightarrow> d \<in> set (tp_domains topo) \<and> as_asn d = a"
  using domain_at_in [OF assms] domain_at_mem by blast

lemma as_links_ok_mono: "as_links_ok A a links \<Longrightarrow> A \<subseteq> B \<Longrightarrow> as_links_ok B a links"
  by (auto simp: as_links_ok_def)

lemma neighbors_outside: "a \<notin> asns_of topo \<Longrightarrow> neighbors_of topo a = []"
  using domain_at_None [of topo a] by (simp add: neighbors_of_def)

context as_arrays
begin

lemma add_as_ok:
  assumes ok: "as_topo_ok topo" and a: "a \<notin> asns_of topo"
  shows "\<exists>topo'. aslevel_topo_add_as env a topo = (Some a, topo') \<and> as_topo_ok topo' \<and> asns_of topo' = insert a (asns_of topo)
    \<and> neighbors_of topo' = neighbors_of topo \<and> tp_state topo' = tp_state topo"
proof -
  note sorted = as_topo_okD(1) [OF ok]
  obtain ds where ds: "as_domains_add env (tp_domains topo) (aslevel_as_create a) = Some ds"
    using domains_add(1) [OF sorted, of "aslevel_as_create a"] a by (auto simp: asns_of_def aslevel_as_create_def)
  from domains_add(2) [OF sorted ds] have set: "set ds = insert (aslevel_as_create a) (set (tp_domains topo))"
    and sorted': "sorted_wrt (<) (map as_asn ds)" by auto
  let ?t = "topo\<lparr>tp_domains := ds\<rparr>"
  have asns: "asns_of ?t = insert a (asns_of topo)" using set by (simp add: asns_of_def aslevel_as_create_def)
  have "neighbors_of ?t b = neighbors_of topo b" for b
  proof (cases "domain_at topo b")
    case (Some d)
    then have "domain_at ?t b = Some d"
      using domain_at_iff [OF sorted] domain_at_iff [of ?t b d] sorted' set by simp
    then show ?thesis using Some by (simp add: neighbors_of_def)
  next
    case None
    then have "domain_at ?t b = Some d \<Longrightarrow> d = aslevel_as_create a" for d
      using domain_at_iff [of ?t b d] sorted' set domain_at_iff [OF sorted, of b d] by auto
    then show ?thesis using None by (cases "domain_at ?t b") (auto simp: neighbors_of_def aslevel_as_create_def)
  qed
  then have nb: "neighbors_of ?t = neighbors_of topo" by blast
  have "cache_ok ?t" using as_topo_okD(3) [OF ok] asns by (simp add: cache_ok_def)
  then have "as_topo_ok (aslevel_topo_cache_update_as a ?t)"
    using cache_update_ok [of ?t a] sorted' as_topo_okD(2) [OF ok] asns nb unfolding as_topo_ok_iff
    by (auto intro: as_links_ok_mono)
  then show ?thesis using ds asns nb by (simp add: aslevel_topo_add_as_def)
qed

lemma get_or_add_ok:
  assumes ok: "as_topo_ok topo"
  shows "\<exists>topo'. get_or_add_as env a topo = Some (Some a, topo') \<and> as_topo_ok topo' \<and> asns_of topo' = insert a (asns_of topo)
    \<and> neighbors_of topo' = neighbors_of topo \<and> tp_state topo' = tp_state topo"
proof -
  from get_as_search [OF as_topo_okD(3) [OF ok], of a] obtain topo1 where
    get: "aslevel_topo_get_as a topo = Some (if a \<in> asns_of topo then Some a else None, topo1)"
    and topo1: "topo1 = topo \<or> a \<in> asns_of topo \<and> topo1 = aslevel_topo_cache_update_as a topo" by blast
  show ?thesis
  proof (cases "a \<in> asns_of topo")
    case True
    have "as_topo_ok topo1"
      using topo1 ok cache_update_ok [of topo a] by (auto simp: as_topo_ok_iff)
    then show ?thesis using True get topo1 by (auto simp: get_or_add_as_def)
  next
    case False
    then show ?thesis using add_as_ok [OF ok False] get topo1 by (auto simp: get_or_add_as_def)
  qed
qed

lemma add_link_ok:
  assumes ok: "as_topo_ok topo" and a: "a \<in> asns_of topo" and b: "b \<in> asns_of topo"
  shows "\<exists>e topo'. aslevel_as_add_link env a b t topo = Some (e, topo') \<and> as_topo_ok topo' \<and> asns_of topo' = asns_of topo
    \<and> tp_state topo' = tp_state topo
    \<and> e = (if aslevel_check_peer_type t \<noteq> ASLEVEL_SUCCESS then ASLEVEL_ERROR_INVALID_RELATION
           else if a = b then ASLEVEL_ERROR_LOOP_LINK
           else if b \<in> lk_neighbor ` set (neighbors_of topo a) then ASLEVEL_ERROR_DUPLICATE_LINK else ASLEVEL_SUCCESS)
    \<and> (e \<noteq> ASLEVEL_SUCCESS \<longrightarrow> topo' = topo)
    \<and> (e = ASLEVEL_SUCCESS \<longrightarrow> a \<noteq> b \<and> set (neighbors_of topo' a) = insert (aslevel_link_create b t) (set (neighbors_of topo a))
         \<and> (\<forall>c. c \<noteq> a \<longrightarrow> neighbors_of topo' c = neighbors_of topo c))"
proof -
  obtain d where d: "domain_at topo a = Some d" "as_asn d = a" using a by (rule asns_of_SomeE)
  obtain d2 where d2: "domain_at topo b = Some d2" "as_asn d2 = b" using b by (rule asns_of_SomeE)
  have nb: "neighbors_of topo a = as_neighbors d" using d by (simp add: neighbors_of_def)
  have sorted: "sorted_wrt (<) (map lk_neighbor (as_neighbors d))" using as_topo_okD(2) [OF ok, of a] nb by (simp add: as_links_ok_def)
  note add1 = links_add(1) [OF sorted, of "aslevel_link_create b t"]
  consider (1) "aslevel_check_peer_type t \<noteq> ASLEVEL_SUCCESS \<or> a = b \<or> b \<in> lk_neighbor ` set (neighbors_of topo a)"
    | (2) "aslevel_check_peer_type t = ASLEVEL_SUCCESS" "a \<noteq> b" "b \<notin> lk_neighbor ` set (neighbors_of topo a)" by blast
  then show ?thesis
  proof cases
    case 1
    then show ?thesis using ok d d2 add1 nb by (auto simp: aslevel_as_add_link_def aslevel_link_create_def aslevel_errors)
  next
    case 2
    then obtain ls where ls: "as_links_add env (as_neighbors d) (aslevel_link_create b t) = Some ls"
      using add1 nb by (auto simp: aslevel_link_create_def)
    note add2 = links_add(2) [OF sorted ls]
    let ?t = "domain_modify a (\<lambda>d. d\<lparr>as_neighbors := ls\<rparr>) topo"
    have "as_topo_ok ?t"
      using as_topo_ok_modify [OF ok, of a "\<lambda>_. ls"] as_topo_okD(2) [OF ok, of a] add2 nb 2 b
      by (auto simp: as_links_ok_def aslevel_link_create_def)
    then show ?thesis
      using 2 d d2 ls add2 nb a neighbors_of_modify [of a "\<lambda>_. ls" topo]
      by (auto simp: aslevel_as_add_link_def aslevel_errors)
  qed
qed

text \<open>Adding a relation keeps the invariant, and in both directions it keeps consistency.\<close>

lemma add_relation_ok:
  assumes ok: "as_topo_ok topo"
  shows "\<exists>e topo'. add_relation env both a b t topo = Some (e, topo') \<and> as_topo_ok topo' \<and> tp_state topo' = tp_state topo
    \<and> (both \<and> t = aslevel_reverse_relation (aslevel_reverse_relation t) \<and> e = ASLEVEL_SUCCESS \<and> consistent topo \<longrightarrow> consistent topo')"
proof -
  obtain topo1 where topo1: "get_or_add_as env a topo = Some (Some a, topo1)" "as_topo_ok topo1" "asns_of topo1 = insert a (asns_of topo)"
    "neighbors_of topo1 = neighbors_of topo" "tp_state topo1 = tp_state topo" using get_or_add_ok [OF ok] by blast
  obtain topo2 where topo2: "get_or_add_as env b topo1 = Some (Some b, topo2)" "as_topo_ok topo2" "asns_of topo2 = insert b (asns_of topo1)"
    "neighbors_of topo2 = neighbors_of topo" "tp_state topo2 = tp_state topo" using get_or_add_ok [OF topo1(2)] topo1(4,5) by metis
  have ab: "a \<in> asns_of topo2" "b \<in> asns_of topo2" using topo1(3) topo2(3) by auto
  from add_link_ok [OF topo2(2) ab, of t] obtain e3 topo3 where
    topo3: "aslevel_as_add_link env a b t topo2 = Some (e3, topo3)" "as_topo_ok topo3" "asns_of topo3 = asns_of topo2" "tp_state topo3 = tp_state topo2"
    "e3 = ASLEVEL_SUCCESS \<Longrightarrow> a \<noteq> b" "e3 = ASLEVEL_SUCCESS \<Longrightarrow> set (neighbors_of topo3 a) = insert (aslevel_link_create b t) (set (neighbors_of topo2 a))"
    "\<And>c. e3 = ASLEVEL_SUCCESS \<Longrightarrow> c \<noteq> a \<Longrightarrow> neighbors_of topo3 c = neighbors_of topo2 c"
    by blast
  show ?thesis
  proof (cases "both \<and> e3 = ASLEVEL_SUCCESS")
    case False
    then show ?thesis using topo1 topo2 topo3 by (auto simp: add_relation_def)
  next
    case True
    let ?r = "aslevel_reverse_relation t"
    from add_link_ok [OF topo3(2), of b a ?r] ab topo3(3) obtain e4 topo4 where
      topo4: "aslevel_as_add_link env b a ?r topo3 = Some (e4, topo4)" "as_topo_ok topo4" "tp_state topo4 = tp_state topo3"
      "e4 = ASLEVEL_SUCCESS \<Longrightarrow> set (neighbors_of topo4 b) = insert (aslevel_link_create a ?r) (set (neighbors_of topo3 b))"
      "\<And>c. e4 = ASLEVEL_SUCCESS \<Longrightarrow> c \<noteq> b \<Longrightarrow> neighbors_of topo4 c = neighbors_of topo3 c"
      by metis
    have "consistent topo4" if e4: "e4 = ASLEVEL_SUCCESS" and con: "consistent topo" and t: "t = aslevel_reverse_relation ?r"
    proof -
      have nb: "set (neighbors_of topo4 c) = (if c = a then insert (aslevel_link_create b t) (set (neighbors_of topo a))
          else if c = b then insert (aslevel_link_create a ?r) (set (neighbors_of topo b)) else set (neighbors_of topo c))" for c
        using True topo3(5-7) topo4(4,5) e4 topo2(4) by auto
      show ?thesis unfolding consistent_def
      proof (intro allI ballI)
        fix c link assume "link \<in> set (neighbors_of topo4 c)"
        then consider (1) "link \<in> set (neighbors_of topo c)" | (2) "c = a" "link = aslevel_link_create b t" | (3) "c = b" "link = aslevel_link_create a ?r"
          unfolding nb by (auto split: if_splits)
        then show "\<exists>link'\<in>set (neighbors_of topo4 (lk_neighbor link)). lk_neighbor link' = c \<and> lk_type link = aslevel_reverse_relation (lk_type link')"
        proof cases
          case 1
          then show ?thesis using con unfolding consistent_def nb by (auto split: if_splits)
        qed (use True topo3(5) t in \<open>auto simp: nb aslevel_link_create_def\<close>)
      qed
    qed
    then show ?thesis using True topo1 topo2 topo3 topo4 by (auto simp: add_relation_def)
  qed
qed

end

section \<open>Consistency and loading\<close>

lemma reverse_reverse:
  "aslevel_check_peer_type t = ASLEVEL_SUCCESS \<Longrightarrow> aslevel_reverse_relation (aslevel_reverse_relation t) = t"
  by (auto simp: aslevel_check_peer_type_def aslevel_reverse_relation_def peer_types aslevel_errors split: if_splits)

lemma link_back:
  assumes "as_topo_ok topo" "link' \<in> set (neighbors_of topo b)"
  shows "find (\<lambda>link. lk_neighbor link = lk_neighbor link') (neighbors_of topo b) = Some link'"
  using as_topo_okD(2) [OF assms(1), of b] assms(2) by (intro sorted_key_find) (auto simp: as_links_ok_def)

lemma link_consistent_eq:
  assumes ok: "as_topo_ok topo" and link: "link \<in> set (neighbors_of topo a)"
  shows "link_consistent topo a link = Some (\<exists>link'\<in>set (neighbors_of topo (lk_neighbor link)).
    lk_neighbor link' = a \<and> lk_type link = aslevel_reverse_relation (lk_type link'))"
proof -
  obtain d where d: "domain_at topo (lk_neighbor link) = Some d" using link_target(1) [OF assms] by (rule asns_of_SomeE)
  then have nb: "neighbors_of topo (lk_neighbor link) = as_neighbors d" by (simp add: neighbors_of_def)
  show ?thesis
  proof (cases "aslevel_as_get_link d a")
    case None
    then have "\<forall>link'\<in>set (as_neighbors d). lk_neighbor link' \<noteq> a" by (simp add: aslevel_as_get_link_def find_None_iff)
    then show ?thesis using d nb None by (simp add: link_consistent_def)
  next
    case (Some l)
    then have l: "l \<in> set (as_neighbors d)" "lk_neighbor l = a" by (auto simp: aslevel_as_get_link_def dest: find_SomeD)
    have "link' = l" if link': "link' \<in> set (as_neighbors d)" "lk_neighbor link' = a" for link'
    proof -
      have "find (\<lambda>x. lk_neighbor x = a) (as_neighbors d) = Some link'"
        using link_back [OF ok, of link' "lk_neighbor link"] link' unfolding nb by blast
      then show ?thesis using Some by (simp add: aslevel_as_get_link_def)
    qed
    then have "(\<exists>link'\<in>set (as_neighbors d). lk_neighbor link' = a \<and> lk_type link = aslevel_reverse_relation (lk_type link'))
        \<longleftrightarrow> lk_type link = aslevel_reverse_relation (lk_type l)" using l by blast
    then show ?thesis using d nb Some by (simp add: link_consistent_def)
  qed
qed

lemma check_consistency_eq:
  assumes ok: "as_topo_ok topo"
  shows "aslevel_topo_check_consistency topo = Some (if consistent topo then ASLEVEL_SUCCESS else ASLEVEL_ERROR_INCONSISTENT)"
proof -
  let ?good = "\<lambda>(a, link). \<exists>link'\<in>set (neighbors_of topo (lk_neighbor link)). lk_neighbor link' = a \<and> lk_type link = aslevel_reverse_relation (lk_type link')"
  let ?ls = "concat (map (\<lambda>d. map (Pair (as_asn d)) (as_neighbors d)) (tp_domains topo))"
  have "link \<in> set (neighbors_of topo a) \<longleftrightarrow> (\<exists>d\<in>set (tp_domains topo). as_asn d = a \<and> link \<in> set (as_neighbors d))" for a link
  proof
    show "link \<in> set (neighbors_of topo a) \<Longrightarrow> \<exists>d\<in>set (tp_domains topo). as_asn d = a \<and> link \<in> set (as_neighbors d)"
      using domain_at_mem [of topo a] by (cases "domain_at topo a") (auto simp: neighbors_of_def)
  next
    assume "\<exists>d\<in>set (tp_domains topo). as_asn d = a \<and> link \<in> set (as_neighbors d)"
    then obtain d where "domain_at topo a = Some d" "link \<in> set (as_neighbors d)" using domain_at_in [OF as_topo_okD(1) [OF ok]] by blast
    then show "link \<in> set (neighbors_of topo a)" by (simp add: neighbors_of_def)
  qed
  then have links: "set ?ls = {(a, link). link \<in> set (neighbors_of topo a)}" by auto
  have "set ls \<subseteq> {(a, link). link \<in> set (neighbors_of topo a)} \<Longrightarrow>
      links_consistent topo ls = Some (if \<forall>x\<in>set ls. ?good x then ASLEVEL_SUCCESS else ASLEVEL_ERROR_INCONSISTENT)" for ls
  proof (induction ls)
    case (Cons x ls)
    obtain a link where x: "x = (a, link)" by (cases x)
    have "link_consistent topo a link = Some (?good x)" using link_consistent_eq [OF ok, of link a] Cons.prems x by auto
    then show ?case using Cons by (auto simp: x)
  qed simp
  from this [of ?ls] have "aslevel_topo_check_consistency topo = Some (if \<forall>x\<in>set ?ls. ?good x then ASLEVEL_SUCCESS else ASLEVEL_ERROR_INCONSISTENT)"
    unfolding aslevel_topo_check_consistency_def using links by blast
  moreover have "(\<forall>x\<in>set ?ls. ?good x) \<longleftrightarrow> consistent topo" unfolding links consistent_def by auto
  ultimately show ?thesis by simp
qed

text \<open>A parser whose body keeps a property of the topology keeps it.\<close>

lemma parse_lines_keeps:
  assumes step: "\<And>line topo. I topo \<Longrightarrow> \<exists>e topo'. parse line topo = Some (e, topo') \<and> J topo' \<and> (e = ASLEVEL_SUCCESS \<longrightarrow> I topo')"
    and "I topo" "\<And>topo. I topo \<Longrightarrow> J topo"
  shows "\<exists>e m topo'. parse_lines parse lines n topo = Some (e, m, topo') \<and> J topo' \<and> (e = ASLEVEL_SUCCESS \<longrightarrow> I topo')"
  using assms(2)
proof (induction lines arbitrary: n topo)
  case Nil
  then show ?case using assms(3) by simp
next
  case (Cons line lines)
  obtain e topo' where "parse line topo = Some (e, topo')" "J topo'" "e = ASLEVEL_SUCCESS \<longrightarrow> I topo'" using step [OF Cons.prems] by blast
  then show ?case using Cons.IH [of topo' "Suc n"] by auto
qed

lemma empty_topo_ok:
  assumes "aslevel_topo_create scheme = Some topo"
  shows "as_topo_ok topo" "consistent topo" "tp_state topo = ASLEVEL_STATE_LOADED" "tp_domains topo = []"
  using assms by (auto simp: aslevel_topo_create_def as_topo_ok_def cache_ok_def asns_of_def aslevel_topo_cache_init_def consistent_def
      neighbors_of_def domain_at_def bind_eq_Some_conv)

definition loaded_ok :: "as_level_topo \<Rightarrow> bool" where
  "loaded_ok topo \<longleftrightarrow> as_topo_ok topo \<and> tp_state topo = ASLEVEL_STATE_LOADED"

context as_arrays
begin

lemma add_relation_loaded: "loaded_ok topo \<Longrightarrow> \<exists>e topo'. add_relation env both a b t topo = Some (e, topo') \<and> loaded_ok topo'"
  using add_relation_ok [of topo both a b t] by (auto simp: loaded_ok_def)

lemma parse_line_loaded:
  assumes "loaded_ok topo"
  shows "\<exists>e topo'. caida_line env pe line topo = Some (e, topo') \<and> loaded_ok topo'"
    "\<exists>e topo'. meulle_line env pe line topo = Some (e, topo') \<and> loaded_ok topo'"
  using assms add_relation_loaded [OF assms] by (auto simp: caida_line_def meulle_line_def split: option.splits)

lemma rexford_line_loaded:
  assumes "loaded_ok topo" "consistent topo"
  shows "\<exists>e topo'. rexford_line env pe line topo = Some (e, topo') \<and> loaded_ok topo' \<and> (e = ASLEVEL_SUCCESS \<longrightarrow> loaded_ok topo' \<and> consistent topo')"
proof -
  have rev: "t = aslevel_reverse_relation (aslevel_reverse_relation t)" if "rexford_relation_to_peer_type r = Some t" for r t
    using that by (auto simp: rexford_relation_to_peer_type_def aslevel_reverse_relation_def peer_types split: if_splits)
  have add: "\<exists>e topo'. add_relation env True a b t topo = Some (e, topo') \<and> loaded_ok topo' \<and> (e = ASLEVEL_SUCCESS \<longrightarrow> loaded_ok topo' \<and> consistent topo')"
    if "Option.bind (tokens_get_uint pe x) rexford_relation_to_peer_type = Some t" for a b t x
    using add_relation_ok [of topo True a b t] assms rev that by (auto simp: loaded_ok_def bind_eq_Some_conv)
  show ?thesis using assms add by (auto simp: rexford_line_def split: option.splits)
qed

lemma parser_loaded:
  assumes ok: "loaded_ok topo" and con: "consistent topo"
  shows "\<exists>e m topo'. rexford_parser env pe file topo = Some (e, m, topo') \<and> loaded_ok topo' \<and> (e = ASLEVEL_SUCCESS \<longrightarrow> consistent topo')"
    "\<exists>e m topo'. caida_parser env pe file topo = Some (e, m, topo') \<and> loaded_ok topo'"
    "\<exists>e m topo'. meulle_parser env pe file topo = Some (e, m, topo') \<and> loaded_ok topo'"
proof -
  show "\<exists>e m topo'. rexford_parser env pe file topo = Some (e, m, topo') \<and> loaded_ok topo' \<and> (e = ASLEVEL_SUCCESS \<longrightarrow> consistent topo')"
    using parse_lines_keeps [of "\<lambda>t. loaded_ok t \<and> consistent t" "rexford_line env pe" loaded_ok topo "file_lines file" 0] rexford_line_loaded ok con
    by (fastforce simp: rexford_parser_def)
  show "\<exists>e m topo'. caida_parser env pe file topo = Some (e, m, topo') \<and> loaded_ok topo'"
    using parse_lines_keeps [of loaded_ok "caida_line env pe" loaded_ok topo "file_lines file" 0] parse_line_loaded(1) ok
    by (fastforce simp: caida_parser_def)
  show "\<exists>e m topo'. meulle_parser env pe file topo = Some (e, m, topo') \<and> loaded_ok topo'"
    using parse_lines_keeps [of loaded_ok "meulle_line env pe" loaded_ok topo "file_lines file" 0] parse_line_loaded(2) ok
    by (fastforce simp: meulle_parser_def)
qed

lemma load_result:
  assumes "scheme \<in> {ASLEVEL_ADDR_SCH_GLOBAL, ASLEVEL_ADDR_SCH_LOCAL}"
  shows "\<exists>r line the. aslevel_topo_load env pe (Some file) fmt scheme None = Some (r, line, the)
    \<and> (case the of
         None \<Rightarrow> r \<noteq> ASLEVEL_SUCCESS
       | Some topo \<Rightarrow> as_topo_ok topo \<and> tp_state topo = ASLEVEL_STATE_LOADED
           \<and> r = (if consistent topo then ASLEVEL_SUCCESS else ASLEVEL_ERROR_INCONSISTENT)
           \<and> (fmt = ASLEVEL_FORMAT_REXFORD \<longrightarrow> consistent topo))"
proof -
  obtain topo where create: "aslevel_topo_create scheme = Some topo" using assms by (auto simp: aslevel_topo_create_def aslevel_formats)
  note topo = empty_topo_ok [OF create]
  then have l: "loaded_ok topo" by (simp add: loaded_ok_def)
  let ?p = "\<lambda>p. map_option (map_prod (\<lambda>r. r) (map_prod int (\<lambda>t. t))) p"
  let ?parsed = "if fmt = ASLEVEL_FORMAT_REXFORD then ?p (rexford_parser env pe file topo)
      else if fmt = ASLEVEL_FORMAT_CAIDA then ?p (caida_parser env pe file topo)
      else if fmt = ASLEVEL_FORMAT_MEULLE then ?p (meulle_parser env pe file topo)
      else Some (ASLEVEL_ERROR_UNKNOWN_FORMAT, -1, topo)"
  have "\<exists>e m topo'. ?parsed = Some (e, m, topo') \<and> loaded_ok topo' \<and> (fmt = ASLEVEL_FORMAT_REXFORD \<and> e = ASLEVEL_SUCCESS \<longrightarrow> consistent topo')"
    using parser_loaded [OF l topo(2), of pe "file"] l by fastforce
  then obtain e m topo' where p: "?parsed = Some (e, m, topo')" "as_topo_ok topo'" "tp_state topo' = ASLEVEL_STATE_LOADED"
    "fmt = ASLEVEL_FORMAT_REXFORD \<and> e = ASLEVEL_SUCCESS \<longrightarrow> consistent topo'" by (auto simp: loaded_ok_def)
  have "aslevel_topo_load env pe (Some file) fmt scheme None = (if e \<noteq> 0 then Some (e, Some m, None)
      else Some (if consistent topo' then ASLEVEL_SUCCESS else ASLEVEL_ERROR_INCONSISTENT, Some m, Some topo'))"
    unfolding aslevel_topo_load_def create using p(1) check_consistency_eq [OF p(2)] by simp
  then show ?thesis using p by (auto simp: aslevel_errors)
qed

end

section \<open>Connectedness\<close>

definition as_edges :: "as_level_topo \<Rightarrow> (asn \<times> asn) set" where
  "as_edges topo = {(a, b). b \<in> lk_neighbor ` set (neighbors_of topo a)}"

lemma as_edges_closed: "as_topo_ok topo \<Longrightarrow> (a, b) \<in> as_edges topo \<Longrightarrow> b \<in> asns_of topo"
  using link_target(1) by (auto simp: as_edges_def)

text \<open>The state of the traversal: visited domains can be reached, a visited domain whose links were all seen has visited neighbours only.\<close>

definition connect_inv :: "as_level_topo \<Rightarrow> asn \<Rightarrow> asn set \<Rightarrow> gt_stack \<Rightarrow> bool" where
  "connect_inv topo start visited stack \<longleftrightarrow>
     start \<in> visited \<and> visited \<subseteq> (as_edges topo)\<^sup>* `` {start} \<and> visited \<subseteq> asns_of topo
   \<and> fst ` set stack \<subseteq> visited \<and> distinct (map fst stack)
   \<and> (\<forall>v\<in>visited. v \<in> fst ` set stack \<or> as_edges topo `` {v} \<subseteq> visited)
   \<and> (\<forall>(a, index)\<in>set stack. \<forall>link\<in>set (take index (neighbors_of topo a)). lk_neighbor link \<in> visited)"

lemma connect_inv_pop:
  assumes "connect_inv topo start visited ((a, index) # stack)" "\<not> index < length (neighbors_of topo a)"
  shows "connect_inv topo start visited stack"
proof -
  have "as_edges topo `` {a} \<subseteq> visited" using assms by (auto simp: connect_inv_def as_edges_def)
  then show ?thesis using assms(1) by (auto simp: connect_inv_def)
qed

lemma connect_inv_skip:
  assumes "connect_inv topo start visited ((a, index) # stack)" "index < length (neighbors_of topo a)"
    "lk_neighbor (neighbors_of topo a ! index) \<in> visited"
  shows "connect_inv topo start visited ((a, Suc index) # stack)"
  using assms by (auto simp: connect_inv_def take_Suc_conv_app_nth)

lemma connect_inv_push:
  assumes inv: "connect_inv topo start visited ((a, index) # stack)" and ok: "as_topo_ok topo" and i: "index < length (neighbors_of topo a)"
    and b: "b = lk_neighbor (neighbors_of topo a ! index)" "b \<notin> visited"
  shows "connect_inv topo start (insert b visited) ((b, 0) # (a, Suc index) # stack)"
proof -
  have e: "(a, b) \<in> as_edges topo" using i b(1) by (auto simp: as_edges_def)
  have a: "(start, a) \<in> (as_edges topo)\<^sup>*" "a \<in> visited" using inv by (auto simp: connect_inv_def)
  have "(start, b) \<in> (as_edges topo)\<^sup>*" using a(1) e by (rule rtrancl_into_rtrancl)
  moreover have "b \<notin> fst ` set ((a, index) # stack)" using inv b(2) unfolding connect_inv_def by blast
  moreover have "b \<in> asns_of topo" by (rule as_edges_closed [OF ok e])
  moreover have "\<forall>link\<in>set (take (Suc index) (neighbors_of topo a)). lk_neighbor link \<in> insert b visited"
    using inv i b(1) by (auto simp: connect_inv_def take_Suc_conv_app_nth)
  ultimately show ?thesis using inv unfolding connect_inv_def by auto
qed

lemma connect_loop_eq:
  assumes "as_topo_ok topo" "connect_inv topo start visited stack" "MAX_AS \<le> depth"
  shows "connect_loop depth topo visited stack = Some ((as_edges topo)\<^sup>* `` {start})"
  using assms
proof (induction depth topo visited stack rule: connect_loop.induct)
  case (1 depth topo visited)
  have "v \<in> visited" if "(start, v) \<in> (as_edges topo)\<^sup>*" for v
    using that by induction (use 1(2) in \<open>auto simp: connect_inv_def\<close>)
  then show ?case using 1(2) by (auto simp: connect_inv_def)
next
  case (2 depth topo visited a index stack)
  note inv = "2.prems"(2)
  have "a \<in> asns_of topo" using inv by (auto simp: connect_inv_def)
  then obtain d where d: "domain_at topo a = Some d" "as_asn d = a" by (rule asns_of_SomeE)
  then have nb: "neighbors_of topo a = as_neighbors d" by (simp add: neighbors_of_def)
  show ?case
  proof (cases "index < length (as_neighbors d)")
    case False
    then show ?thesis using "2.IH"(3) [OF d(1)] connect_inv_pop [OF inv] "2.prems" d nb by simp
  next
    case i: True
    let ?b = "lk_neighbor (as_neighbors d ! index)"
    show ?thesis
    proof (cases "?b \<in> visited")
      case True
      then show ?thesis using "2.IH"(2) [OF d(1) i] connect_inv_skip [OF inv] "2.prems" d nb i by simp
    next
      case False
      have "length (?b # map fst ((a, index) # stack)) = card (set (?b # map fst ((a, index) # stack)))"
        using inv False by (subst distinct_card) (auto simp: connect_inv_def)
      also have "\<dots> \<le> card (UNIV :: asn set)" by (rule card_mono) auto
      also have "\<dots> = MAX_AS" by (simp add: card_word MAX_AS_def)
      finally have "Suc (length stack) < depth" using "2.prems"(3) by simp
      then show ?thesis
        using "2.IH"(1) [OF d(1) i False] connect_inv_push [OF inv "2.prems"(1) _ _ False] "2.prems" d nb i False by simp
    qed
  qed
qed

lemma check_connectedness_eq:
  assumes ok: "as_topo_ok topo"
  shows "aslevel_topo_check_connectedness topo = Some
    (if \<forall>a\<in>asns_of topo. tp_domains topo \<noteq> [] \<longrightarrow> (as_asn (tp_domains topo ! 0), a) \<in> (as_edges topo)\<^sup>*
     then ASLEVEL_SUCCESS else ASLEVEL_ERROR_DISCONNECTED)"
proof (cases "tp_domains topo")
  case Nil
  then show ?thesis by (simp add: aslevel_topo_check_connectedness_def aslevel_topo_num_nodes_def asns_of_def)
next
  case (Cons d ds)
  then have "connect_inv topo (as_asn d) {as_asn d} [(as_asn d, 0)]" by (auto simp: connect_inv_def asns_of_def)
  from connect_loop_eq [OF ok this order_refl] show ?thesis
    using Cons by (auto simp: aslevel_topo_check_connectedness_def aslevel_topo_num_nodes_def asns_of_def list_all_iff)
qed

lemma consistent_sym: "consistent topo \<Longrightarrow> sym (as_edges topo)"
  unfolding consistent_def as_edges_def by (rule symI) force

section \<open>Cycles\<close>

definition p2c :: "as_level_topo \<Rightarrow> (asn \<times> asn) set" where
  "p2c topo = {(a, b). \<exists>link\<in>set (neighbors_of topo a). lk_neighbor link = b \<and> lk_type link = ASLEVEL_PEER_TYPE_CUSTOMER}"

abbreviation p2c_walk :: "as_level_topo \<Rightarrow> asn list \<Rightarrow> bool" where
  "p2c_walk topo \<equiv> successively (\<lambda>a b. (a, b) \<in> p2c topo)"

lemma walk_rtrancl: "p2c_walk topo (a # xs) \<Longrightarrow> b \<in> set (a # xs) \<Longrightarrow> (a, b) \<in> (p2c topo)\<^sup>*"
proof (induction xs arbitrary: a)
  case (Cons x xs)
  then show ?case by (cases "b = a") (auto intro: converse_rtrancl_into_rtrancl)
qed simp

lemma rtrancl_walk: "(a, b) \<in> (p2c topo)\<^sup>* \<Longrightarrow> \<exists>xs. p2c_walk topo (a # xs) \<and> last (a # xs) = b"
proof (induction rule: converse_rtrancl_induct)
  case base
  show ?case by (intro exI [of _ "[]"]) simp
next
  case (step a c)
  then obtain xs where "p2c_walk topo (c # xs)" "last (c # xs) = b" by blast
  with step(1) show ?case by (intro exI [of _ "c # xs"]) simp
qed

text \<open>The stack is a walk from the top domain to the domain on its top.\<close>

definition cycle_inv :: "as_level_topo \<Rightarrow> asn \<Rightarrow> asn set \<Rightarrow> gt_stack \<Rightarrow> bool" where
  "cycle_inv topo start visited stack \<longleftrightarrow>
     fst ` set stack \<subseteq> visited \<and> fst ` set stack \<subseteq> asns_of topo \<and> distinct (map fst stack)
   \<and> p2c_walk topo (rev (map fst stack)) \<and> (stack \<noteq> [] \<longrightarrow> fst (last stack) = start)"

lemma cycle_inv_pop: "cycle_inv topo start visited ((a, index) # stack) \<Longrightarrow> cycle_inv topo start (visited - {a}) stack"
  by (auto simp: cycle_inv_def successively_append_iff split: if_splits)

lemma cycle_inv_skip: "cycle_inv topo start visited ((a, index) # stack) \<Longrightarrow> cycle_inv topo start visited ((a, Suc index) # stack)"
  by (auto simp: cycle_inv_def split: if_splits)

lemma cycle_inv_push:
  assumes "cycle_inv topo start visited ((a, index) # stack)" "(a, b) \<in> p2c topo" "b \<in> asns_of topo" "b \<notin> fst ` set ((a, index) # stack)"
  shows "cycle_inv topo start (insert b visited) ((b, 0) # (a, Suc index) # stack)"
  using assms by (auto simp: cycle_inv_def successively_append_iff split: if_splits)

lemma p2c_edges: "p2c topo \<subseteq> as_edges topo"
  by (auto simp: p2c_def as_edges_def)

lemma p2c_nth: "index < length (neighbors_of topo a) \<Longrightarrow> lk_type (neighbors_of topo a ! index) = ASLEVEL_PEER_TYPE_CUSTOMER
    \<Longrightarrow> (a, lk_neighbor (neighbors_of topo a ! index)) \<in> p2c topo"
  by (auto simp: p2c_def)

lemma cycle_loop_step:
  assumes d: "domain_at topo a = Some d"
  shows "\<not> index < length (as_neighbors d) \<Longrightarrow>
      cycle_loop depth topo in_cycle visited n ((a, index) # stack) = cycle_loop depth topo in_cycle (visited - {a}) n stack"
    "index < length (as_neighbors d) \<Longrightarrow> link = as_neighbors d ! index \<Longrightarrow> b = lk_neighbor link \<Longrightarrow>
      \<not> (b \<notin> in_cycle \<and> lk_type link = ASLEVEL_PEER_TYPE_CUSTOMER) \<Longrightarrow>
      cycle_loop depth topo in_cycle visited n ((a, index) # stack) = cycle_loop depth topo in_cycle visited n ((a, Suc index) # stack)"
    "index < length (as_neighbors d) \<Longrightarrow> link = as_neighbors d ! index \<Longrightarrow> b = lk_neighbor link \<Longrightarrow>
      b \<notin> in_cycle \<and> lk_type link = ASLEVEL_PEER_TYPE_CUSTOMER \<Longrightarrow> b \<in> visited \<and> b \<in> fst ` set ((a, index) # stack) \<Longrightarrow>
      cycle_loop depth topo in_cycle visited n ((a, index) # stack) =
        cycle_loop depth topo (in_cycle \<union> set (cycle_members b ((a, index) # stack))) visited (Suc n) ((a, Suc index) # stack)"
    "index < length (as_neighbors d) \<Longrightarrow> link = as_neighbors d ! index \<Longrightarrow> b = lk_neighbor link \<Longrightarrow>
      b \<notin> in_cycle \<and> lk_type link = ASLEVEL_PEER_TYPE_CUSTOMER \<Longrightarrow> \<not> (b \<in> visited \<and> b \<in> fst ` set ((a, index) # stack)) \<Longrightarrow>
      cycle_loop depth topo in_cycle visited n ((a, index) # stack) =
        (if Suc (length stack) < depth then cycle_loop depth topo in_cycle (insert b visited) n ((b, 0) # (a, Suc index) # stack) else None)"
  unfolding cycle_loop.simps(2) [of depth topo in_cycle visited n a index stack] d by (simp_all only: option.case if_True if_False Let_def simp_thms)

declare cycle_loop.simps(2) [simp del]

text \<open>A traversal returns when no walk of distinct domains is longer than its stack, and what it counts are cycles below the top domain.\<close>

lemma cycle_loop_returns:
  assumes "as_topo_ok topo" "cycle_inv topo start visited stack" "\<forall>xs. p2c_walk topo xs \<and> distinct xs \<longrightarrow> length xs \<le> depth"
  shows "\<exists>ic n'. cycle_loop depth topo in_cycle visited n stack = Some (ic, n') \<and> n \<le> n'
    \<and> (n < n' \<longrightarrow> (\<exists>x. (start, x) \<in> (p2c topo)\<^sup>* \<and> (x, x) \<in> (p2c topo)\<^sup>+))"
  using assms
proof (induction depth topo in_cycle visited n stack rule: cycle_loop.induct)
  case (2 depth topo in_cycle visited n a index stack)
  note inv = "2.prems"(2)
  have "a \<in> asns_of topo" using inv by (auto simp: cycle_inv_def)
  then obtain d where d: "domain_at topo a = Some d" "as_asn d = a" by (rule asns_of_SomeE)
  then have nb: "neighbors_of topo a = as_neighbors d" by (simp add: neighbors_of_def)
  show ?case
  proof (cases "index < length (as_neighbors d)")
    case False
    then show ?thesis using "2.IH"(4) [OF d(1) False "2.prems"(1) cycle_inv_pop [OF inv] "2.prems"(3)]
      by (simp only: cycle_loop_step(1) [OF d(1) False])
  next
    case i: True
    define link b where "link = as_neighbors d ! index" and "b = lk_neighbor link"
    show ?thesis
    proof (cases "b \<notin> in_cycle \<and> lk_type link = ASLEVEL_PEER_TYPE_CUSTOMER")
      case False
      then show ?thesis
        using "2.IH"(3) [OF d(1) i link_def b_def False "2.prems"(1) cycle_inv_skip [OF inv] "2.prems"(3)]
        by (simp only: cycle_loop_step(2) [OF d(1) i link_def b_def False])
    next
      case c: True
      have ab: "(a, b) \<in> p2c topo" using p2c_nth [of index topo a] c i nb by (simp add: link_def b_def)
      have b: "b \<in> asns_of topo" using as_edges_closed [OF "2.prems"(1)] ab p2c_edges by blast
      show ?thesis
      proof (cases "b \<in> visited \<and> b \<in> fst ` set ((a, index) # stack)")
        case True
        have "hd (rev (map fst ((a, index) # stack))) = start" using inv unfolding cycle_inv_def hd_rev by (metis last_map list.discI)
        then obtain ys where ys: "rev (map fst ((a, index) # stack)) = start # ys"
          by (metis list.collapse list.discI list.map_disc_iff rev_is_Nil_conv)
        then have walk: "p2c_walk topo (start # ys)" using inv unfolding cycle_inv_def by metis
        have "(start, b) \<in> (p2c topo)\<^sup>*" using walk_rtrancl [OF walk] True ys by (metis image_set set_rev)
        moreover have "(b, b) \<in> (p2c topo)\<^sup>+"
        proof -
          obtain us vs where split: "rev (map fst ((a, index) # stack)) = us @ b # vs" using True by (metis image_set set_rev split_list)
          have "last (b # vs) = a" using arg_cong [OF split, of last] by simp
          moreover have "p2c_walk topo (b # vs)" using walk unfolding ys [symmetric] split by (auto simp: successively_append_iff)
          ultimately have "(b, a) \<in> (p2c topo)\<^sup>*" using walk_rtrancl [of topo b vs a] by (metis last_in_set list.distinct(1))
          then show ?thesis using ab by (rule rtrancl_into_trancl1)
        qed
        ultimately show ?thesis
          using "2.IH"(1) [OF d(1) i link_def b_def c True "2.prems"(1) cycle_inv_skip [OF inv] "2.prems"(3)]
          unfolding cycle_loop_step(3) [OF d(1) i link_def b_def c True] by (meson Suc_leD)
      next
        case False
        then have nin: "b \<notin> fst ` set ((a, index) # stack)" using inv by (auto simp: cycle_inv_def)
        note inv' = cycle_inv_push [OF inv ab b nin]
        then have "p2c_walk topo (rev (map fst ((b, 0) # (a, Suc index) # stack)))" "distinct (rev (map fst ((b, 0) # (a, Suc index) # stack)))"
          unfolding cycle_inv_def by auto
        then have "length (rev (map fst ((b, 0) # (a, Suc index) # stack))) \<le> depth" using "2.prems"(3) by blast
        then have len: "Suc (length stack) < depth" by simp
        show ?thesis
          using "2.IH"(2) [OF d(1) i link_def b_def c False len "2.prems"(1) inv' "2.prems"(3)] len
          by (simp only: cycle_loop_step(4) [OF d(1) i link_def b_def c False] if_True)
      qed
    qed
  qed
qed simp

text \<open>All walks from a domain visit distinct domains, none of them in a given set.\<close>

definition safe_below :: "as_level_topo \<Rightarrow> asn set \<Rightarrow> asn \<Rightarrow> bool" where
  "safe_below topo S b \<longleftrightarrow> (\<forall>ys. p2c_walk topo (b # ys) \<longrightarrow> distinct (b # ys) \<and> set (b # ys) \<inter> S = {})"

lemma safe_below_step:
  assumes "b \<notin> S" "\<And>c. (b, c) \<in> p2c topo \<Longrightarrow> safe_below topo (insert b S) c"
  shows "safe_below topo S b"
  unfolding safe_below_def
proof (intro allI impI)
  fix ys assume walk: "p2c_walk topo (b # ys)"
  show "distinct (b # ys) \<and> set (b # ys) \<inter> S = {}"
  proof (cases ys)
    case (Cons c zs)
    then have "safe_below topo (insert b S) c" "p2c_walk topo (c # zs)" using assms(2) walk by auto
    then have "distinct (c # zs) \<and> set (c # zs) \<inter> insert b S = {}" unfolding safe_below_def by blast
    then show ?thesis using Cons assms(1) by auto
  qed (use assms(1) in simp)
qed

text \<open>A traversal that counts no cycle has seen every walk from the domains on its stack.\<close>

definition seen_below :: "as_level_topo \<Rightarrow> gt_stack \<Rightarrow> bool" where
  "seen_below topo stack \<longleftrightarrow> (\<forall>us a index rest. stack = us @ (a, index) # rest \<longrightarrow>
     (\<forall>link\<in>set (drop index (neighbors_of topo a)). lk_type link = ASLEVEL_PEER_TYPE_CUSTOMER \<longrightarrow>
        safe_below topo (fst ` set ((a, index) # rest)) (lk_neighbor link)))"

lemma seen_below_Cons:
  "seen_below topo ((a, index) # stack) \<longleftrightarrow> seen_below topo stack
     \<and> (\<forall>link\<in>set (drop index (neighbors_of topo a)). lk_type link = ASLEVEL_PEER_TYPE_CUSTOMER \<longrightarrow>
          safe_below topo (fst ` set ((a, index) # stack)) (lk_neighbor link))"
  unfolding seen_below_def by (auto simp: Cons_eq_append_conv)

lemma cycle_loop_complete:
  assumes "as_topo_ok topo" "cycle_inv topo start visited stack" "\<forall>xs. p2c_walk topo xs \<and> distinct xs \<longrightarrow> length xs \<le> depth"
    "cycle_loop depth topo in_cycle visited n stack = Some (ic, 0)" "in_cycle = {}"
  shows "seen_below topo stack \<and> ic = {}"
  using assms
proof (induction depth topo in_cycle visited n stack rule: cycle_loop.induct)
  case (1 depth topo in_cycle visited n)
  then show ?case by (simp add: seen_below_def)
next
  case (2 depth topo in_cycle visited n a index stack)
  note inv = "2.prems"(2) and res = "2.prems"(4)
  have "a \<in> asns_of topo" using inv by (auto simp: cycle_inv_def)
  then obtain d where d: "domain_at topo a = Some d" "as_asn d = a" by (rule asns_of_SomeE)
  then have nb: "neighbors_of topo a = as_neighbors d" by (simp add: neighbors_of_def)
  show ?case
  proof (cases "index < length (as_neighbors d)")
    case False
    then show ?thesis
      using "2.IH"(4) [OF d(1) False "2.prems"(1) cycle_inv_pop [OF inv] "2.prems"(3)] res "2.prems"(5)
      by (simp add: cycle_loop_step(1) [OF d(1) False] seen_below_Cons nb)
  next
    case i: True
    define link b where "link = as_neighbors d ! index" and "b = lk_neighbor link"
    have drop: "drop index (neighbors_of topo a) = link # drop (Suc index) (neighbors_of topo a)"
      using i nb by (simp add: link_def Cons_nth_drop_Suc)
    show ?thesis
    proof (cases "b \<notin> in_cycle \<and> lk_type link = ASLEVEL_PEER_TYPE_CUSTOMER")
      case False
      then have "seen_below topo ((a, Suc index) # stack) \<and> ic = {}"
        using "2.IH"(3) [OF d(1) i link_def b_def False "2.prems"(1) cycle_inv_skip [OF inv] "2.prems"(3) _ "2.prems"(5)] res
        unfolding cycle_loop_step(2) [OF d(1) i link_def b_def False] by blast
      then show ?thesis using False "2.prems"(5) by (auto simp: seen_below_Cons drop)
    next
      case c: True
      have ab: "(a, b) \<in> p2c topo" using p2c_nth [of index topo a] c i nb by (simp add: link_def b_def)
      have b: "b \<in> asns_of topo" using as_edges_closed [OF "2.prems"(1)] ab p2c_edges by blast
      show ?thesis
      proof (cases "b \<in> visited \<and> b \<in> fst ` set ((a, index) # stack)")
        case True
        have False using cycle_loop_returns [OF "2.prems"(1) cycle_inv_skip [OF inv] "2.prems"(3),
              of "in_cycle \<union> set (cycle_members b ((a, index) # stack))" "Suc n"] res
          unfolding cycle_loop_step(3) [OF d(1) i link_def b_def c True] by auto
        then show ?thesis ..
      next
        case False
        then have nin: "b \<notin> fst ` set ((a, index) # stack)" using inv by (auto simp: cycle_inv_def)
        have len: "Suc (length stack) < depth" using res by (simp add: cycle_loop_step(4) [OF d(1) i link_def b_def c False] split: if_splits)
        have "seen_below topo ((b, 0) # (a, Suc index) # stack) \<and> ic = {}"
          using "2.IH"(2) [OF d(1) i link_def b_def c False len "2.prems"(1) cycle_inv_push [OF inv ab b nin] "2.prems"(3) _ "2.prems"(5)] res len
          unfolding cycle_loop_step(4) [OF d(1) i link_def b_def c False] by simp
        then have seen: "seen_below topo ((a, Suc index) # stack)" "ic = {}"
          and below: "\<And>c. (b, c) \<in> p2c topo \<Longrightarrow> safe_below topo (insert b (fst ` set ((a, index) # stack))) c"
          by (auto simp: seen_below_Cons [of topo b] p2c_def)
        have "safe_below topo (fst ` set ((a, index) # stack)) b" by (rule safe_below_step [OF nin below])
        then show ?thesis using seen by (auto simp: seen_below_Cons drop b_def)
      qed
    qed
  qed
qed

lemma safe_below_no_cycle:
  assumes "safe_below topo {} a" "(a, x) \<in> (p2c topo)\<^sup>*"
  shows "(x, x) \<notin> (p2c topo)\<^sup>+"
proof
  assume "(x, x) \<in> (p2c topo)\<^sup>+"
  then obtain y where y: "(x, y) \<in> p2c topo" "(y, x) \<in> (p2c topo)\<^sup>*" by (meson tranclD)
  obtain us where us: "p2c_walk topo (a # us)" "last (a # us) = x" using rtrancl_walk [OF assms(2)] by blast
  obtain vs where vs: "p2c_walk topo (y # vs)" "last (y # vs) = x" using rtrancl_walk [OF y(2)] by blast
  have "p2c_walk topo ((a # us) @ y # vs)" unfolding successively_append_iff using us vs y(1) by simp
  then have "distinct ((a # us) @ y # vs)" using assms(1) unfolding safe_below_def append_Cons by blast
  moreover have "x \<in> set (a # us)" "x \<in> set (y # vs)" using us(2) vs(2) by (metis last_in_set list.distinct(1))+
  ultimately show False by auto
qed

lemma cycle_tops_eq:
  assumes ok: "as_topo_ok topo" and bound: "\<forall>xs. p2c_walk topo xs \<and> distinct xs \<longrightarrow> length xs \<le> depth"
    and tops: "set tops \<subseteq> asns_of topo" and n0: "n = 0 \<Longrightarrow> in_cycle = {}"
  shows "\<exists>n'. cycle_tops depth topo in_cycle n tops = Some n' \<and> n \<le> n'
    \<and> (n = 0 \<longrightarrow> (n' > 0 \<longleftrightarrow> (\<exists>a\<in>set tops. \<exists>x. (a, x) \<in> (p2c topo)\<^sup>* \<and> (x, x) \<in> (p2c topo)\<^sup>+)))"
  using tops n0
proof (induction tops arbitrary: in_cycle n)
  case (Cons a tops)
  have inv: "cycle_inv topo a {a} [(a, 0)]" using Cons.prems(1) by (simp add: cycle_inv_def)
  from cycle_loop_returns [OF ok inv bound, of in_cycle n] obtain ic m where
    m: "cycle_loop depth topo in_cycle {a} n [(a, 0)] = Some (ic, m)" "n \<le> m"
      "n < m \<Longrightarrow> \<exists>x. (a, x) \<in> (p2c topo)\<^sup>* \<and> (x, x) \<in> (p2c topo)\<^sup>+" by blast
  have none: "ic = {} \<and> safe_below topo {} a" if "m = 0"
  proof -
    have "seen_below topo [(a, 0)] \<and> ic = {}" using cycle_loop_complete [OF ok inv bound, of in_cycle n ic] m that Cons.prems(2) by simp
    then have "(a, c) \<in> p2c topo \<Longrightarrow> safe_below topo (insert a {}) c" "ic = {}" for c by (auto simp: seen_below_Cons p2c_def)
    then show ?thesis using safe_below_step [of a "{}" topo] by blast
  qed
  obtain n' where n': "cycle_tops depth topo ic m tops = Some n'" "m \<le> n'"
    "m = 0 \<longrightarrow> (n' > 0 \<longleftrightarrow> (\<exists>a\<in>set tops. \<exists>x. (a, x) \<in> (p2c topo)\<^sup>* \<and> (x, x) \<in> (p2c topo)\<^sup>+))"
    using Cons.IH [of m ic] Cons.prems(1) none by auto
  have "n' > 0 \<longleftrightarrow> (\<exists>b\<in>set (a # tops). \<exists>x. (b, x) \<in> (p2c topo)\<^sup>* \<and> (x, x) \<in> (p2c topo)\<^sup>+)" if "n = 0"
  proof (cases "m = 0")
    case True
    then show ?thesis using n'(3) none safe_below_no_cycle by fastforce
  next
    case False
    then show ?thesis using m(3) n'(2) that by auto
  qed
  then show ?case using m n' by auto
qed simp

context as_arrays
begin

lemma check_cycle_eq:
  assumes ok: "as_topo_ok topo" and bound: "\<forall>xs. p2c_walk topo xs \<and> distinct xs \<longrightarrow> length xs \<le> CYCLE_QUEUE_SIZE"
    and dom: "tp_domains topo \<noteq> []"
  shows "aslevel_topo_check_cycle env topo = Some
    (if aslevel_topo_get_top env topo = []
       \<or> (\<exists>a\<in>set (aslevel_topo_get_top env topo). \<exists>x. (a, x) \<in> (p2c topo)\<^sup>* \<and> (x, x) \<in> (p2c topo)\<^sup>+)
     then ASLEVEL_ERROR_CYCLE_DETECTED else ASLEVEL_SUCCESS)"
proof -
  have "set (aslevel_topo_get_top env topo) \<subseteq> asns_of topo" unfolding get_top_set asns_of_def by blast
  from cycle_tops_eq [OF ok bound this, of 0 "{}"] show ?thesis
    using dom by (auto simp: aslevel_topo_check_cycle_def aslevel_topo_num_nodes_def Let_def)
qed

end

text \<open>A consistent topology without top domain has a cycle: every domain has a provider.\<close>

lemma no_top_cycle:
  assumes ok: "as_topo_ok topo" and con: "consistent topo" and dom: "tp_domains topo \<noteq> []"
    and prov: "\<forall>d\<in>set (tp_domains topo). aslevel_as_num_providers d \<noteq> 0"
  shows "\<exists>x. (x, x) \<in> (p2c topo)\<^sup>+"
proof (rule ccontr)
  assume "\<nexists>x. (x, x) \<in> (p2c topo)\<^sup>+"
  then have "acyclic (p2c topo)" by (auto simp: acyclic_def)
  then have wf: "wf (p2c topo)" by (intro finite_acyclic_wf) (rule finite)
  obtain d where "d \<in> set (tp_domains topo)" using dom by (cases "tp_domains topo") auto
  then have "as_asn d \<in> asns_of topo" by (simp add: asns_of_def)
  then obtain a where a: "a \<in> asns_of topo" "\<And>b. (b, a) \<in> p2c topo \<Longrightarrow> b \<notin> asns_of topo" by (rule wfE_min [OF wf]) blast
  from a(1) obtain e where e: "domain_at topo a = Some e" "as_asn e = a" by (rule asns_of_SomeE)
  then have "e \<in> set (tp_domains topo)" using domain_at_mem by blast
  then obtain link where link: "link \<in> set (neighbors_of topo a)" "lk_type link = ASLEVEL_PEER_TYPE_PROVIDER"
    using prov e by (auto simp: aslevel_as_num_providers_def neighbors_of_def filter_empty_conv)
  then obtain l where l: "l \<in> set (neighbors_of topo (lk_neighbor link))" "lk_neighbor l = a"
    "ASLEVEL_PEER_TYPE_PROVIDER = aslevel_reverse_relation (lk_type l)" using con unfolding consistent_def by fastforce
  have "lk_type l = ASLEVEL_PEER_TYPE_CUSTOMER" using l(3) by (auto simp: aslevel_reverse_relation_def peer_types split: if_splits)
  then have "(lk_neighbor link, a) \<in> p2c topo" using l by (auto simp: p2c_def)
  then show False using a(2) link_target(1) [OF ok link(1)] by blast
qed

section \<open>Removing domains\<close>

lemma remove_at_key:
  "sorted_wrt (<) (map k xs) \<Longrightarrow> find_index_from i (\<lambda>x. k x = (a :: 'a :: order)) xs = Some j \<Longrightarrow>
     remove_at (j - i) xs = filter (\<lambda>x. k x \<noteq> a) xs"
proof (induction xs arbitrary: i)
  case (Cons x xs)
  show ?case
  proof (cases "k x = a")
    case True
    have "filter (\<lambda>y. k y \<noteq> a) xs = xs" using Cons.prems(1) True by (auto simp: filter_id_conv)
    then show ?thesis using Cons.prems True by simp
  next
    case False
    then have f: "find_index_from (Suc i) (\<lambda>x. k x = a) xs = Some j" using Cons.prems(2) by simp
    then have "Suc i \<le> j" by (auto dest!: find_index_from_Some)
    then have "j - i = Suc (j - Suc i)" by simp
    then show ?thesis using Cons.IH [OF _ f] Cons.prems(1) False by simp
  qed
qed simp

lemma find_index_keys: "find_index_from i (\<lambda>x. k x = a) xs = find_index_from i (\<lambda>y. y = a) (map k xs)"
  by (induction xs arbitrary: i) auto

text \<open>What is left of a topology without some of its domains.\<close>

definition without :: "asn set \<Rightarrow> as_level_topo \<Rightarrow> as_level_topo" where
  "without A topo = topo\<lparr>tp_domains := map (\<lambda>d. d\<lparr>as_neighbors := filter (\<lambda>link. lk_neighbor link \<notin> A) (as_neighbors d)\<rparr>)
     (filter (\<lambda>d. as_asn d \<notin> A) (tp_domains topo))\<rparr>"

lemma sorted_map_filter: "sorted_wrt R (map k xs) \<Longrightarrow> sorted_wrt R (map k (filter P xs))"
  by (induction xs) auto

lemma asns_of_without: "asns_of (without A topo) = asns_of topo - A"
  by (auto simp: asns_of_def without_def image_iff)

lemma find_filter: "(\<And>x. P x \<Longrightarrow> Q x) \<Longrightarrow> find P (filter Q xs) = find P xs"
  by (induction xs) auto

lemma neighbors_of_without:
  "neighbors_of (without A topo) a = (if a \<in> A then [] else filter (\<lambda>link. lk_neighbor link \<notin> A) (neighbors_of topo a))"
proof (cases "a \<in> A")
  case True
  then show ?thesis using neighbors_outside [of a "without A topo"] by (simp add: asns_of_without)
next
  case False
  then have "domain_at (without A topo) a = map_option (\<lambda>d. d\<lparr>as_neighbors := filter (\<lambda>link. lk_neighbor link \<notin> A) (as_neighbors d)\<rparr>) (domain_at topo a)"
    unfolding domain_at_def without_def by (simp add: find_map_key) (subst find_filter; auto)
  then show ?thesis using False by (cases "domain_at topo a") (simp_all add: neighbors_of_def)
qed

text \<open>Everything of the invariant but the cache.\<close>

definition graph_ok :: "as_level_topo \<Rightarrow> bool" where
  "graph_ok topo \<longleftrightarrow> sorted_wrt (<) (map as_asn (tp_domains topo)) \<and> (\<forall>a. as_links_ok (asns_of topo) a (neighbors_of topo a))"

lemma as_topo_ok_graph: "as_topo_ok topo \<longleftrightarrow> graph_ok topo \<and> cache_ok topo"
  by (simp add: as_topo_ok_iff graph_ok_def)

lemma graph_ok_without:
  assumes "graph_ok topo"
  shows "graph_ok (without A topo)"
proof -
  have "as_links_ok (asns_of topo - A) a (neighbors_of (without A topo) a)" for a
    using assms by (auto simp: graph_ok_def as_links_ok_def neighbors_of_without sorted_map_filter)
  moreover have "sorted_wrt (<) (map as_asn (tp_domains (without A topo)))"
    using assms by (simp add: graph_ok_def without_def comp_def sorted_map_filter)
  ultimately show ?thesis by (simp add: graph_ok_def asns_of_without)
qed

lemma consistent_without:
  assumes "consistent topo"
  shows "consistent (without A topo)"
  unfolding consistent_def
proof (intro allI ballI)
  fix a link assume l: "link \<in> set (neighbors_of (without A topo) a)"
  then have link: "link \<in> set (neighbors_of topo a)" "a \<notin> A" "lk_neighbor link \<notin> A" by (auto simp: neighbors_of_without split: if_splits)
  then obtain link' where "link' \<in> set (neighbors_of topo (lk_neighbor link))" "lk_neighbor link' = a"
    "lk_type link = aslevel_reverse_relation (lk_type link')" using assms unfolding consistent_def by blast
  then show "\<exists>link'\<in>set (neighbors_of (without A topo) (lk_neighbor link)). lk_neighbor link' = a \<and> lk_type link = aslevel_reverse_relation (lk_type link')"
    using link by (auto simp: neighbors_of_without)
qed

text \<open>The loop over the links of the removed domain: the links back to it are removed, one after the other.\<close>

definition drop_links :: "asn \<Rightarrow> asn set \<Rightarrow> as_level_topo \<Rightarrow> as_level_topo" where
  "drop_links a B topo = topo\<lparr>tp_domains := map (\<lambda>d. if as_asn d \<in> B then d\<lparr>as_neighbors := filter (\<lambda>link. lk_neighbor link \<noteq> a) (as_neighbors d)\<rparr> else d)
     (tp_domains topo)\<rparr>"

lemma drop_links_empty [simp]: "drop_links a {} topo = topo"
  by (simp add: drop_links_def)

lemma drop_links_insert: "b \<notin> B \<Longrightarrow> drop_links a B (drop_links a {b} topo) = drop_links a (insert b B) topo"
  by (auto simp: drop_links_def)

lemma drop_links_asns: "asns_of (drop_links a B topo) = asns_of topo" "map as_asn (tp_domains (drop_links a B topo)) = map as_asn (tp_domains topo)"
proof -
  show m: "map as_asn (tp_domains (drop_links a B topo)) = map as_asn (tp_domains topo)" by (simp add: drop_links_def)
  show "asns_of (drop_links a B topo) = asns_of topo" unfolding asns_of_def set_map [symmetric] m ..
qed

lemma neighbors_of_drop:
  "neighbors_of (drop_links a B topo) c = (if c \<in> B then filter (\<lambda>link. lk_neighbor link \<noteq> a) (neighbors_of topo c) else neighbors_of topo c)"
proof -
  have "domain_at (drop_links a B topo) c
      = map_option (\<lambda>d. if as_asn d \<in> B then d\<lparr>as_neighbors := filter (\<lambda>link. lk_neighbor link \<noteq> a) (as_neighbors d)\<rparr> else d) (domain_at topo c)"
    unfolding domain_at_def drop_links_def by (simp add: find_map_key)
  then show ?thesis using domain_at_mem [of topo c] by (cases "domain_at topo c") (auto simp: neighbors_of_def)
qed

lemma remove_reverse_link_eq:
  assumes b: "b \<in> asns_of topo" and link: "a \<in> lk_neighbor ` set (neighbors_of topo b)" and sorted: "sorted_wrt (<) (map lk_neighbor (neighbors_of topo b))"
    and dom: "sorted_wrt (<) (map as_asn (tp_domains topo))"
  shows "remove_reverse_link a b topo = Some (drop_links a {b} topo)"
proof -
  obtain d where d: "domain_at topo b = Some d" "as_asn d = b" using b by (rule asns_of_SomeE)
  then have nb: "neighbors_of topo b = as_neighbors d" by (simp add: neighbors_of_def)
  obtain j where j: "find_index_from 0 (\<lambda>link. lk_neighbor link = a) (as_neighbors d) = Some j"
    using link nb find_index_from_None [of 0 "\<lambda>link. lk_neighbor link = a" "as_neighbors d"] by (cases "find_index_from 0 (\<lambda>link. lk_neighbor link = a) (as_neighbors d)") auto
  have rm: "remove_at j (as_neighbors d) = filter (\<lambda>link. lk_neighbor link \<noteq> a) (as_neighbors d)"
    using remove_at_key [of lk_neighbor "as_neighbors d" 0 a j] sorted j nb by simp
  have uniq: "e = d" if "e \<in> set (tp_domains topo)" "as_asn e = b" for e using domain_at_in [OF dom that(1)] d that by simp
  have "(if as_asn e = b then e\<lparr>as_neighbors := remove_at j (as_neighbors e)\<rparr> else e)
      = (if as_asn e \<in> {b} then e\<lparr>as_neighbors := filter (\<lambda>link. lk_neighbor link \<noteq> a) (as_neighbors e)\<rparr> else e)"
    if e: "e \<in> set (tp_domains topo)" for e
  proof (cases "as_asn e = b")
    case True
    then have "e = d" by (rule uniq [OF e])
    then show ?thesis using d(2) rm by simp
  qed simp
  then have "map (\<lambda>e. if as_asn e = b then e\<lparr>as_neighbors := remove_at j (as_neighbors e)\<rparr> else e) (tp_domains topo)
      = map (\<lambda>e. if as_asn e \<in> {b} then e\<lparr>as_neighbors := filter (\<lambda>link. lk_neighbor link \<noteq> a) (as_neighbors e)\<rparr> else e) (tp_domains topo)"
    by (intro map_cong refl)
  then have "domain_modify b (\<lambda>d. d\<lparr>as_neighbors := remove_at j (as_neighbors d)\<rparr>) topo = drop_links a {b} topo"
    by (simp only: domain_modify_def drop_links_def)
  then show ?thesis using d j by (simp add: remove_reverse_link_def)
qed

lemma remove_links_loop_eq:
  assumes "\<And>b. b \<in> lk_neighbor ` set (drop i (neighbors_of topo a)) \<Longrightarrow> b \<noteq> a \<and> b \<in> asns_of topo
       \<and> a \<in> lk_neighbor ` set (neighbors_of topo b) \<and> sorted_wrt (<) (map lk_neighbor (neighbors_of topo b))"
    "sorted_wrt (<) (map as_asn (tp_domains topo))" "distinct (map lk_neighbor (neighbors_of topo a))"
  shows "remove_links_loop a i topo = Some (drop_links a (lk_neighbor ` set (drop i (neighbors_of topo a))) topo)"
  using assms
proof (induction "length (neighbors_of topo a) - i" arbitrary: i topo)
  case 0
  then show ?case by (simp add: remove_links_loop.simps)
next
  case (Suc n)
  let ?N = "neighbors_of topo a" and ?b = "lk_neighbor (neighbors_of topo a ! i)"
  have i: "i < length ?N" using Suc.hyps(2) by simp
  have drop: "drop i ?N = ?N ! i # drop (Suc i) ?N" using i by (simp add: Cons_nth_drop_Suc)
  have b: "?b \<noteq> a" "?b \<in> asns_of topo" "a \<in> lk_neighbor ` set (neighbors_of topo ?b)" "sorted_wrt (<) (map lk_neighbor (neighbors_of topo ?b))"
    using Suc.prems(1) [of ?b] by (simp_all add: drop)
  let ?t = "drop_links a {?b} topo"
  have N: "neighbors_of ?t a = ?N" using b(1) by (simp add: neighbors_of_drop)
  have fresh: "?b \<notin> lk_neighbor ` set (drop (Suc i) ?N)"
  proof -
    have "distinct (map lk_neighbor (drop i ?N))" using Suc.prems(3) by (metis distinct_drop drop_map)
    then show ?thesis by (simp add: drop)
  qed
  note asns = drop_links_asns [of a "{?b}" topo]
  have "remove_links_loop a (Suc i) ?t = Some (drop_links a (lk_neighbor ` set (drop (Suc i) ?N)) ?t)"
  proof (rule Suc.hyps(1) [of ?t "Suc i", unfolded N])
    fix c assume c: "c \<in> lk_neighbor ` set (drop (Suc i) ?N)"
    then have "c \<noteq> ?b" using fresh by blast
    then show "c \<noteq> a \<and> c \<in> asns_of ?t \<and> a \<in> lk_neighbor ` set (neighbors_of ?t c) \<and> sorted_wrt (<) (map lk_neighbor (neighbors_of ?t c))"
      using Suc.prems(1) [of c] c by (simp add: drop asns(1) neighbors_of_drop)
  qed (use Suc.prems(2,3) Suc.hyps(2) asns in simp_all)
  then show ?case
    using i remove_reverse_link_eq [OF b(2-4) Suc.prems(2)] drop_links_insert [OF fresh, of a topo]
    by (subst remove_links_loop.simps) (simp add: drop)
qed

lemma remove_as_eq:
  assumes ok: "as_topo_ok topo" and con: "consistent topo" and a: "a \<in> asns_of topo"
  shows "aslevel_topo_remove_as a topo = Some (ASLEVEL_SUCCESS, without {a} (aslevel_topo_cache_invalidate topo))"
proof -
  let ?t = "aslevel_topo_cache_invalidate topo" and ?B = "lk_neighbor ` set (neighbors_of topo a)"
  note sorted = as_topo_okD(1) [OF ok]
  have links: "sorted_wrt (<) (map lk_neighbor (neighbors_of topo b))" for b using as_topo_okD(2) [OF ok, of b] by (simp add: as_links_ok_def)
  have backlink: "a \<in> lk_neighbor ` set (neighbors_of topo b) \<longleftrightarrow> b \<in> ?B" for b
    using consistent_sym [OF con] by (auto simp: as_edges_def sym_def)
  have "remove_links_loop a 0 ?t = Some (drop_links a (lk_neighbor ` set (drop 0 (neighbors_of ?t a))) ?t)"
  proof (rule remove_links_loop_eq)
    fix b assume "b \<in> lk_neighbor ` set (drop 0 (neighbors_of ?t a))"
    then have b: "b \<in> ?B" by simp
    then show "b \<noteq> a \<and> b \<in> asns_of ?t \<and> a \<in> lk_neighbor ` set (neighbors_of ?t b) \<and> sorted_wrt (<) (map lk_neighbor (neighbors_of ?t b))"
      using link_target(1,2) [OF ok, of _ a] backlink links by auto
  qed (use sorted links in \<open>simp_all add: strict_sorted_iff\<close>)
  then have loop: "remove_links_loop a 0 ?t = Some (drop_links a ?B ?t)" by simp
  obtain j where j: "find_index_from 0 (\<lambda>d. as_asn d = a) (tp_domains topo) = Some j"
    using a find_index_from_None [of 0 "\<lambda>d. as_asn d = a" "tp_domains topo"]
    by (cases "find_index_from 0 (\<lambda>d. as_asn d = a) (tp_domains topo)") (auto simp: asns_of_def)
  have j': "find_index_from 0 (\<lambda>d. as_asn d = a) (tp_domains (drop_links a ?B ?t)) = Some j"
    using j unfolding find_index_keys [of _ as_asn a] drop_links_asns(2) by simp
  have "remove_at j (tp_domains (drop_links a ?B ?t)) = filter (\<lambda>d. as_asn d \<noteq> a) (tp_domains (drop_links a ?B ?t))"
    using remove_at_key [OF _ j'] sorted by (simp add: drop_links_def comp_def if_distrib [of as_asn] cong: if_cong)
  also have "\<dots> = tp_domains (without {a} ?t)"
  proof -
    have same: "filter (\<lambda>link. lk_neighbor link \<noteq> a) (as_neighbors d) = as_neighbors d" if d: "d \<in> set (tp_domains topo)" "as_asn d \<notin> ?B" for d
    proof -
      have "neighbors_of topo (as_asn d) = as_neighbors d" using domain_at_in [OF sorted d(1)] by (simp add: neighbors_of_def)
      then have "a \<notin> lk_neighbor ` set (as_neighbors d)" using backlink [of "as_asn d"] d(2) by simp
      then show ?thesis by (intro filter_True) auto
    qed
    have "(if as_asn d \<in> ?B then d\<lparr>as_neighbors := filter (\<lambda>link. lk_neighbor link \<noteq> a) (as_neighbors d)\<rparr> else d)
        = d\<lparr>as_neighbors := filter (\<lambda>link. lk_neighbor link \<noteq> a) (as_neighbors d)\<rparr>" if "d \<in> set (tp_domains topo)" for d
      using same [OF that] by (cases d) simp
    then show ?thesis by (simp add: drop_links_def without_def filter_map comp_def if_distrib [of as_asn] cong: if_cong)
  qed
  finally show ?thesis using j loop by (simp add: aslevel_topo_remove_as_def drop_links_def without_def)
qed

section \<open>Filtering a topology\<close>






section \<open>Valley-free paths\<close>

text \<open>The values of the communities of a route.\<close>

definition comm_values :: "bgp_route \<Rightarrow> bgp_comm list" where
  "comm_values route = (case comms (attr route) of None \<Rightarrow> [] | Some vs \<Rightarrow> vs)"

definition tagged :: "bgp_route \<Rightarrow> bool" where
  "tagged route \<longleftrightarrow> COMM_PROV \<in> set (comm_values route) \<or> COMM_PEER \<in> set (comm_values route)"

definition untagged :: "bgp_comm list \<Rightarrow> bgp_comm list" where
  "untagged vs = filter (\<lambda>c. c \<noteq> COMM_PROV \<and> c \<noteq> COMM_PEER) vs"

lemma comms_contains_values: "comms_contains (comms (attr route)) c \<longleftrightarrow> c \<in> set (comm_values route)"
  by (auto simp: comms_contains_def comm_values_def list_ex_iff split: option.splits)

context attr_repository
begin

lemma comm_add_values: "(case comm_hash_add env c of None \<Rightarrow> [] | Some vs \<Rightarrow> vs) = (case c of None \<Rightarrow> [] | Some vs \<Rightarrow> vs)"
  using comm_add_cmp [of c] by (simp add: comms_cmp_0_iff)

lemma set_comm_values:
  "\<exists>d. bgp_attr_set_comm env c a = Some (a\<lparr>comms := d\<rparr>) \<and> (case d of None \<Rightarrow> [] | Some vs \<Rightarrow> vs) = (case c of None \<Rightarrow> [] | Some vs \<Rightarrow> vs)"
  using comm_add_some comm_add_values [of c] by (cases c) (auto simp: bgp_attr_set_comm_def)

lemma route_comm_append_values:
  assumes "length (comm_values route) < 255"
  shows "\<exists>a. route_comm_append env c route = Some (0, route\<lparr>attr := a\<rparr>) \<and> comm_values (route\<lparr>attr := a\<rparr>) = comm_values route @ [c]"
proof -
  obtain d where "bgp_attr_set_comm env (Some (comm_values route @ [c])) (attr route) = Some (attr route\<lparr>comms := d\<rparr>)"
    "(case d of None \<Rightarrow> [] | Some vs \<Rightarrow> vs) = comm_values route @ [c]" using set_comm_values [of "Some (comm_values route @ [c])" "attr route"] by auto
  then show ?thesis using assms
    by (intro exI [of _ "attr route\<lparr>comms := d\<rparr>"])
      (simp add: route_comm_append_def bgp_attr_comm_append_def comms_add_def comm_values_def assert_opt_def)
qed

lemma route_comm_remove_values:
  "\<exists>a. route_comm_remove env c route = Some (route\<lparr>attr := a\<rparr>) \<and> comm_values (route\<lparr>attr := a\<rparr>) = filter (\<lambda>x. x \<noteq> c) (comm_values route)"
proof (cases "comms (attr route)")
  case None
  then show ?thesis by (intro exI [of _ "attr route"]) (simp add: route_comm_remove_def bgp_attr_comm_remove_def comm_values_def)
next
  case (Some vs)
  obtain d where d: "bgp_attr_set_comm env (comms_remove (Some vs) c) (attr route) = Some (attr route\<lparr>comms := d\<rparr>)"
    "(case d of None \<Rightarrow> [] | Some vs \<Rightarrow> vs) = (case comms_remove (Some vs) c of None \<Rightarrow> [] | Some vs \<Rightarrow> vs)"
    using set_comm_values by blast
  have "length (filter (\<lambda>x. x \<noteq> c) vs) = length vs \<Longrightarrow> filter (\<lambda>x. x \<noteq> c) vs = vs"
    by (metis filter_True length_filter_less less_irrefl)
  then have "(case comms_remove (Some vs) c of None \<Rightarrow> [] | Some vs \<Rightarrow> vs) = filter (\<lambda>x. x \<noteq> c) vs"
    by (auto simp: comms_remove_def Let_def)
  then show ?thesis using Some d
    by (intro exI [of _ "attr route\<lparr>comms := d\<rparr>"]) (simp add: route_comm_remove_def bgp_attr_comm_remove_def comm_values_def)
qed

end

text \<open>Filter \<open>f\<close> of the environment has the rules of a policy; no filter at all is NULL.\<close>

definition has_policy :: "('t, 'z) flt_env_scheme \<Rightarrow> filter_ref option \<Rightarrow> bgp_filter option \<Rightarrow> bool" where
  "has_policy env f policy \<longleftrightarrow> (case (f, policy) of
       (None, None) \<Rightarrow> True
     | (Some f, Some rules) \<Rightarrow> filter_seqs env f = rules \<and> filter_depth env > 0
     | _ \<Rightarrow> False)"

lemma policy_apply:
  assumes "has_policy env f policy"
  shows "filter_apply env f router route = (case policy of
      None \<Rightarrow> Some (True, route)
    | Some rules \<Rightarrow> map_option (\<lambda>(r, route). (r \<noteq> 0, route))
        (rules_apply (filter_call (filter_depth env - 1) env router) env router rules route))"
proof (cases f)
  case (Some f')
  then obtain rules where p: "policy = Some rules" "filter_seqs env f' = rules" "filter_depth env > 0"
    using assms by (auto simp: has_policy_def split: option.splits)
  then obtain n where "filter_depth env = Suc n" by (cases "filter_depth env") auto
  then show ?thesis using Some p
    by (simp add: filter_apply_def) (cases "rules_apply (filter_call n env router) env router rules route"; auto)
qed (use assms in \<open>auto simp: has_policy_def filter_apply_def split: option.splits\<close>)

definition in_tag :: "peer_type \<Rightarrow> bgp_comm list" where
  "in_tag t = (if t = ASLEVEL_PEER_TYPE_PROVIDER then [COMM_PROV] else if t = ASLEVEL_PEER_TYPE_PEER then [COMM_PEER] else [])"

definition in_pref :: "peer_type \<Rightarrow> 32 word \<Rightarrow> 32 word" where
  "in_pref t pref = (if t = ASLEVEL_PEER_TYPE_CUSTOMER then 100 else if t = ASLEVEL_PEER_TYPE_PROVIDER then 60
     else if t = ASLEVEL_PEER_TYPE_PEER then 80 else pref)"

text \<open>The input filter tags the route and sets its preference.\<close>

lemma policy_in:
  assumes repo: "attr_repository env" and pol: "has_policy env f (aslevel_filter_in t)" and len: "length (comm_values route) < 255"
  shows "\<exists>r. filter_apply env f router route = Some (True, r) \<and> comm_values r = comm_values route @ in_tag t
    \<and> local_pref (attr r) = in_pref t (local_pref (attr route))"
proof -
  have pref: "comm_values (route_localpref_set p r) = comm_values r" "local_pref (attr (route_localpref_set p r)) = p" for p r
    by (simp_all add: route_localpref_set_def comm_values_def)
  note app = attr_repository.route_comm_append_values [OF repo len]
  obtain a where "route_comm_append env COMM_PROV route = Some (0, route\<lparr>attr := a\<rparr>)" "comm_values (route\<lparr>attr := a\<rparr>) = comm_values route @ [COMM_PROV]"
    using app by blast
  moreover obtain b where "route_comm_append env COMM_PEER route = Some (0, route\<lparr>attr := b\<rparr>)" "comm_values (route\<lparr>attr := b\<rparr>) = comm_values route @ [COMM_PEER]"
    using app by blast
  ultimately show ?thesis
    unfolding policy_apply [OF pol]
    by (auto simp: aslevel_filter_in_def filter_add_rule_def filter_matcher_apply_def in_tag_def in_pref_def pref
        ASLEVEL_PREF_CUST_def ASLEVEL_PREF_PEER_def ASLEVEL_PREF_PROV_def peer_types)
qed

lemma untagged_twice: "filter (\<lambda>x. x \<noteq> COMM_PEER) (filter (\<lambda>x. x \<noteq> COMM_PROV) vs) = untagged vs"
  by (simp add: untagged_def conj_commute)

text \<open>The output filter: it refuses tagged routes towards providers and peers, and removes the tags.\<close>

lemma policy_out:
  assumes repo: "attr_repository env" and out: "aslevel_filter_out t = Some policy" and pol: "has_policy env f policy"
    and t: "t \<in> {ASLEVEL_PEER_TYPE_CUSTOMER, ASLEVEL_PEER_TYPE_PROVIDER, ASLEVEL_PEER_TYPE_PEER}"
  shows "\<exists>r. filter_apply env f router route = Some (t = ASLEVEL_PEER_TYPE_CUSTOMER \<or> \<not> tagged route, r)
    \<and> (t = ASLEVEL_PEER_TYPE_CUSTOMER \<or> \<not> tagged route \<longrightarrow> comm_values r = untagged (comm_values route))"
proof -
  note rem = attr_repository.route_comm_remove_values [OF repo]
  obtain a where a: "route_comm_remove env COMM_PROV route = Some (route\<lparr>attr := a\<rparr>)"
    "comm_values (route\<lparr>attr := a\<rparr>) = filter (\<lambda>x. x \<noteq> COMM_PROV) (comm_values route)" using rem by blast
  obtain b where b: "route_comm_remove env COMM_PEER (route\<lparr>attr := a\<rparr>) = Some (route\<lparr>attr := b\<rparr>)"
    "comm_values (route\<lparr>attr := b\<rparr>) = untagged (comm_values route)"
    using rem [of COMM_PEER "route\<lparr>attr := a\<rparr>"] a(2) untagged_twice by auto
  show ?thesis
    using out a b t unfolding policy_apply [OF pol]
    by (auto simp: aslevel_filter_out_def filter_add_rule_def filter_matcher_apply_def filter_match_or_def ft_match_compound2_def
        ft_header_size_def BGP_FT_MATCHER_SIZE_MAX_def comms_contains_values tagged_def peer_types split: if_splits)
qed

lemma policy_sibling:
  assumes "has_policy env f policy" "policy = aslevel_filter_in ASLEVEL_PEER_TYPE_SIBLING \<or> aslevel_filter_out ASLEVEL_PEER_TYPE_SIBLING = Some policy"
  shows "filter_apply env f router route = Some (True, route)"
  using assms(2) unfolding policy_apply [OF assms(1)] by (auto simp: aslevel_filter_in_def aslevel_filter_out_def peer_types)

text \<open>A hop of a route between two domains: the type the sender gives its neighbour, the output filter of the sender, what the sender does
  to the route before it sends it, and the input filter of the receiver.\<close>

record 't as_hop =
  hop_type :: peer_type
  hop_from :: "'t flt_router"
  hop_out :: "filter_ref option"
  hop_relay :: "bgp_route \<Rightarrow> bgp_route"
  hop_to :: "'t flt_router"
  hop_in :: "filter_ref option"

fun carry :: "('t, 'z) flt_env_scheme \<Rightarrow> 't as_hop list \<Rightarrow> bgp_route \<Rightarrow> bgp_route option option" where
  "carry env [] route = Some (Some route)"
| "carry env (h # hs) route = do {
     (sent, route) \<leftarrow> filter_apply env (hop_out h) (hop_from h) route;
     if \<not> sent then Some None
     else do {
       (accepted, route) \<leftarrow> filter_apply env (hop_in h) (hop_to h) (hop_relay h route);
       if \<not> accepted then Some None else carry env hs route
     }
   }"

text \<open>The policies of the topology are installed for a hop, and the relay leaves the communities as they are.\<close>

definition hop_ok :: "('t, 'z) flt_env_scheme \<Rightarrow> 't as_hop \<Rightarrow> bool" where
  "hop_ok env h \<longleftrightarrow> aslevel_check_peer_type (hop_type h) = ASLEVEL_SUCCESS
     \<and> (\<exists>policy. aslevel_filter_out (hop_type h) = Some policy \<and> has_policy env (hop_out h) policy)
     \<and> has_policy env (hop_in h) (aslevel_filter_in (aslevel_reverse_relation (hop_type h)))
     \<and> (\<forall>r. comms (attr (hop_relay h r)) = comms (attr r))"

text \<open>A path goes up to providers, crosses at most one peer link, and goes down to customers; siblings do not count.  The flag says that
  the path has started to go down.\<close>

fun valley_free :: "bool \<Rightarrow> peer_type list \<Rightarrow> bool" where
  "valley_free down [] = True"
| "valley_free down (t # ts) =
     (if t = ASLEVEL_PEER_TYPE_SIBLING then valley_free down ts
      else if t = ASLEVEL_PEER_TYPE_CUSTOMER then valley_free True ts
      else \<not> down \<and> valley_free (t = ASLEVEL_PEER_TYPE_PEER) ts)"

lemma untagged_app [simp]: "untagged (xs @ ys) = untagged xs @ untagged ys" "untagged (untagged xs) = untagged xs"
  "untagged (in_tag t) = []"
  by (auto simp: untagged_def in_tag_def)

lemma hop_types:
  assumes "hop_ok env h"
  obtains "hop_type h = ASLEVEL_PEER_TYPE_SIBLING" | "hop_type h \<in> {ASLEVEL_PEER_TYPE_CUSTOMER, ASLEVEL_PEER_TYPE_PROVIDER, ASLEVEL_PEER_TYPE_PEER}"
  using assms by (auto simp: hop_ok_def aslevel_check_peer_type_def aslevel_errors split: if_splits)

lemma hop_carry:
  assumes repo: "attr_repository env" and h: "hop_ok env h" and len: "length (untagged (comm_values route)) < 255"
    and t: "hop_type h \<in> {ASLEVEL_PEER_TYPE_CUSTOMER, ASLEVEL_PEER_TYPE_PROVIDER, ASLEVEL_PEER_TYPE_PEER}"
  shows "if hop_type h = ASLEVEL_PEER_TYPE_CUSTOMER \<or> \<not> tagged route
    then \<exists>r. carry env (h # hs) route = carry env hs r \<and> untagged (comm_values r) = untagged (comm_values route)
      \<and> (tagged r \<longleftrightarrow> hop_type h \<noteq> ASLEVEL_PEER_TYPE_PROVIDER)
      \<and> local_pref (attr r) = in_pref (aslevel_reverse_relation (hop_type h)) 0
    else carry env (h # hs) route = Some None"
proof -
  obtain policy where policy: "aslevel_filter_out (hop_type h) = Some policy" "has_policy env (hop_out h) policy"
    and inp: "has_policy env (hop_in h) (aslevel_filter_in (aslevel_reverse_relation (hop_type h)))"
    and relay: "\<And>r. comms (attr (hop_relay h r)) = comms (attr r)" using h by (auto simp: hop_ok_def)
  obtain r1 where r1: "filter_apply env (hop_out h) (hop_from h) route = Some (hop_type h = ASLEVEL_PEER_TYPE_CUSTOMER \<or> \<not> tagged route, r1)"
    "hop_type h = ASLEVEL_PEER_TYPE_CUSTOMER \<or> \<not> tagged route \<Longrightarrow> comm_values r1 = untagged (comm_values route)"
    using policy_out [OF repo policy t, of "hop_from h" route] by blast
  show ?thesis
  proof (cases "hop_type h = ASLEVEL_PEER_TYPE_CUSTOMER \<or> \<not> tagged route")
    case True
    have vals: "comm_values (hop_relay h r1) = untagged (comm_values route)" using r1(2) [OF True] relay by (simp add: comm_values_def)
    then have "length (comm_values (hop_relay h r1)) < 255" using len by simp
    from policy_in [OF repo inp this, of "hop_to h"] obtain r where
      r: "filter_apply env (hop_in h) (hop_to h) (hop_relay h r1) = Some (True, r)"
        "comm_values r = untagged (comm_values route) @ in_tag (aslevel_reverse_relation (hop_type h))"
        "local_pref (attr r) = in_pref (aslevel_reverse_relation (hop_type h)) (local_pref (attr (hop_relay h r1)))"
      unfolding vals by blast
    have "tagged r \<longleftrightarrow> hop_type h \<noteq> ASLEVEL_PEER_TYPE_PROVIDER"
      using t r(2) by (auto simp: tagged_def untagged_def in_tag_def aslevel_reverse_relation_def peer_types)
    moreover have "local_pref (attr r) = in_pref (aslevel_reverse_relation (hop_type h)) 0"
      using t r(3) by (auto simp: in_pref_def aslevel_reverse_relation_def peer_types)
    moreover have "carry env (h # hs) route = carry env hs r" using r1(1) r(1) True by simp
    moreover have "untagged (comm_values r) = untagged (comm_values route)" by (simp add: r(2))
    ultimately show ?thesis using True by auto
  next
    case False
    then show ?thesis using r1(1) by simp
  qed
qed

lemma sibling_carry:
  assumes h: "hop_ok env h" and t: "hop_type h = ASLEVEL_PEER_TYPE_SIBLING"
  shows "carry env (h # hs) route = carry env hs (hop_relay h route)" "comm_values (hop_relay h route) = comm_values route"
proof -
  obtain policy where policy: "aslevel_filter_out (hop_type h) = Some policy" "has_policy env (hop_out h) policy"
    and inp: "has_policy env (hop_in h) (aslevel_filter_in (aslevel_reverse_relation (hop_type h)))" using h by (auto simp: hop_ok_def)
  have "aslevel_reverse_relation (hop_type h) = ASLEVEL_PEER_TYPE_SIBLING" using t by (simp add: aslevel_reverse_relation_def peer_types)
  then show "carry env (h # hs) route = carry env hs (hop_relay h route)"
    using policy_sibling [OF policy(2), of "hop_from h"] policy_sibling [OF inp, of "hop_to h"] policy(1) t by simp
  show "comm_values (hop_relay h route) = comm_values route" using h by (simp add: hop_ok_def comm_values_def)
qed

lemma carry_valley_free:
  assumes repo: "attr_repository env" and "\<forall>h\<in>set hs. hop_ok env h" "length (untagged (comm_values route)) < 255"
  shows "if valley_free (tagged route) (map hop_type hs) then \<exists>r. carry env hs route = Some (Some r) else carry env hs route = Some None"
  using assms(2,3)
proof (induction hs arbitrary: route)
  case (Cons h hs)
  then have h: "hop_ok env h" by simp
  show ?case
  proof (cases rule: hop_types [OF h])
    case 1
    have "tagged (hop_relay h route) = tagged route" using sibling_carry(2) [OF h 1] by (simp add: tagged_def)
    then show ?thesis using Cons.IH [of "hop_relay h route"] Cons.prems sibling_carry [OF h 1] 1 by (simp del: carry.simps)
  next
    case 2
    show ?thesis
    proof (cases "hop_type h = ASLEVEL_PEER_TYPE_CUSTOMER \<or> \<not> tagged route")
      case True
      then obtain r where r: "carry env (h # hs) route = carry env hs r" "untagged (comm_values r) = untagged (comm_values route)"
        "tagged r \<longleftrightarrow> hop_type h \<noteq> ASLEVEL_PEER_TYPE_PROVIDER" using hop_carry [OF repo h Cons.prems(2) 2, of hs] by auto
      have "valley_free (tagged route) (map hop_type (h # hs)) = valley_free (tagged r) (map hop_type hs)"
        using 2 True r(3) by (auto simp: peer_types)
      then show ?thesis using Cons.IH [of r] Cons.prems r by (simp del: carry.simps valley_free.simps)
    next
      case False
      then show ?thesis using hop_carry [OF repo h Cons.prems(2) 2, of hs] 2 by (auto simp: peer_types simp del: carry.simps)
    qed
  qed
qed simp

section \<open>Instances\<close>

definition sorted_env :: as_env where
  "sorted_env = \<lparr>as_domains_add = insort_unique aslevel_topo_compare_as, as_links_add = insort_unique aslevel_as_compare_link,
     as_refs_add = insort_unique refs_compare\<rparr>"

interpretation as_sorted: as_arrays sorted_env
proof -
  show "as_arrays sorted_env"
    unfolding as_arrays_def sorted_env_def as_env.simps by (intro conjI insort.gds_sorted_array_axioms)
qed

text \<open>A tokenizer and a reader of numbers.\<close>

fun words_of :: "string \<Rightarrow> string \<Rightarrow> string list" where
  "words_of w [] = (if w = [] then [] else [rev w])"
| "words_of w (c # cs) = (if isspace c then (if w = [] then words_of [] cs else rev w # words_of [] cs) else words_of (c # w) cs)"

definition number_of :: "string \<Rightarrow> nat option" where
  "number_of s = (if s \<noteq> [] \<and> snd (read_digits 0 s) = [] then Some (fst (read_digits 0 s)) else None)"

definition words_env :: parse_env where
  "words_env = \<lparr>tokenizer_run = (\<lambda>s. Some (words_of [] s)), str_as_uint = number_of, tokens_get_uint = number_of,
     tokens_get_int = (\<lambda>s. map_option int (number_of s))\<rparr>"

text \<open>Domain 1 is the provider of 2 and 3, which are peers; 4 is a customer of 2.\<close>

definition sample_file :: string where
  "sample_file = ''1 2 1'' @ [CHR 0x0A] @ ''1 3 1'' @ [CHR 0x0A] @ ''2 3 0'' @ [CHR 0x0A] @ ''2 4 1'' @ [CHR 0x0A]"

definition sample_load :: "(int \<times> int option \<times> as_level_topo option) option" where
  "sample_load = aslevel_topo_load sorted_env words_env (Some sample_file) ASLEVEL_FORMAT_REXFORD ASLEVEL_ADDR_SCH_GLOBAL None"

definition lk :: "asn \<Rightarrow> peer_type \<Rightarrow> as_level_link" where
  "lk a t = \<lparr>lk_neighbor = a, lk_peer = None, lk_type = t\<rparr>"

definition dm :: "asn \<Rightarrow> as_level_link list \<Rightarrow> as_level_domain" where
  "dm a ls = \<lparr>as_asn = a, as_neighbors = ls, as_router = None\<rparr>"

definition topo_of :: "as_level_domain list \<Rightarrow> asn option list \<Rightarrow> as_level_topo" where
  "topo_of ds cached = \<lparr>tp_domains = ds, tp_cached = cached, tp_addr_mapper = aslevel_addr_sch_default_get, tp_state = ASLEVEL_STATE_LOADED\<rparr>"

definition sample_topo :: as_level_topo where
  "sample_topo = topo_of [dm 1 [lk 2 0, lk 3 0], dm 2 [lk 1 1, lk 3 2, lk 4 0], dm 3 [lk 1 1, lk 2 2], dm 4 [lk 2 1]] [Some 3, Some 4]"

definition sample_lines :: "string list" where
  "sample_lines = [''1 2 1'' @ [CHR 0x0A], ''1 3 1'' @ [CHR 0x0A], ''2 3 0'' @ [CHR 0x0A], ''2 4 1'' @ [CHR 0x0A]]"

lemma sample_file_lines: "file_lines sample_file = sample_lines"
  by code_simp

lemma sample_numbers [simp]:
  "str2asn number_of ''1'' = Some 1" "str2asn number_of ''2'' = Some 2" "str2asn number_of ''3'' = Some 3" "str2asn number_of ''4'' = Some 4"
  "number_of ''0'' = Some 0" "number_of ''1'' = Some 1"
proof -
  have "number_of ''0'' = Some 0" "number_of ''1'' = Some 1" "number_of ''2'' = Some 2" "number_of ''3'' = Some 3" "number_of ''4'' = Some 4"
    by code_simp+
  then show "str2asn number_of ''1'' = Some 1" "str2asn number_of ''2'' = Some 2" "str2asn number_of ''3'' = Some 3"
    "str2asn number_of ''4'' = Some 4" "number_of ''0'' = Some 0" "number_of ''1'' = Some 1"
    by (simp_all add: str2asn_def MAX_AS_def)
qed

lemma sample_words:
  "words_of [] (''1 2 1'' @ [CHR 0x0A]) = [''1'', ''2'', ''1'']" "words_of [] (''1 3 1'' @ [CHR 0x0A]) = [''1'', ''3'', ''1'']"
  "words_of [] (''2 3 0'' @ [CHR 0x0A]) = [''2'', ''3'', ''0'']" "words_of [] (''2 4 1'' @ [CHR 0x0A]) = [''2'', ''4'', ''1'']"
  by code_simp+

lemma sample_steps:
  "rexford_line sorted_env words_env (''1 2 1'' @ [CHR 0x0A]) topo = add_relation sorted_env True 1 2 0 topo"
  "rexford_line sorted_env words_env (''1 3 1'' @ [CHR 0x0A]) topo = add_relation sorted_env True 1 3 0 topo"
  "rexford_line sorted_env words_env (''2 3 0'' @ [CHR 0x0A]) topo = add_relation sorted_env True 2 3 2 topo"
  "rexford_line sorted_env words_env (''2 4 1'' @ [CHR 0x0A]) topo = add_relation sorted_env True 2 4 0 topo"
  unfolding rexford_line_def words_env_def parse_env.simps sample_words
  by (simp_all add: rexford_relation_to_peer_type_def peer_types)

lemma cache_lookup_unfold:
  "aslevel_topo_cache_lookup_as topo a = (case tp_cached topo ! 1 of None \<Rightarrow> Some None
     | Some p \<Rightarrow> domain_at topo p \<bind> (\<lambda>domain. if as_asn domain = a then Some (Some p) else cache_lookup topo a 1))"
  "cache_lookup topo a 1 = (case tp_cached topo ! 0 of None \<Rightarrow> Some None
     | Some p \<Rightarrow> domain_at topo p \<bind> (\<lambda>domain. if as_asn domain = a then Some (Some p) else Some None))"
  unfolding aslevel_topo_cache_lookup_as_def ASLEVEL_TOPO_AS_CACHE_SIZE_def numeral_2_eq_2 One_nat_def cache_lookup.simps by (rule refl)+

lemmas topo_eval = add_relation_def get_or_add_as_def aslevel_topo_get_as_def cache_lookup_unfold ASLEVEL_TOPO_AS_CACHE_SIZE_def
  domain_at_def topo_of_def dm_def lk_def aslevel_topo_add_as_def sorted_env_def aslevel_as_create_def aslevel_topo_compare_as_def
  aslevel_topo_cache_update_as_def aslevel_as_add_link_def aslevel_check_peer_type_def peer_types aslevel_errors aslevel_link_create_def
  domain_modify_def aslevel_as_compare_link_def aslevel_reverse_relation_def

lemma sample_relations:
  "add_relation sorted_env True 1 2 0 (topo_of [] [None, None]) = Some (0, topo_of [dm 1 [lk 2 0], dm 2 [lk 1 1]] [Some 1, Some 2])"
  "add_relation sorted_env True 1 3 0 (topo_of [dm 1 [lk 2 0], dm 2 [lk 1 1]] [Some 1, Some 2])
     = Some (0, topo_of [dm 1 [lk 2 0, lk 3 0], dm 2 [lk 1 1], dm 3 [lk 1 1]] [Some 2, Some 3])"
  "add_relation sorted_env True 2 3 2 (topo_of [dm 1 [lk 2 0, lk 3 0], dm 2 [lk 1 1], dm 3 [lk 1 1]] [Some 2, Some 3])
     = Some (0, topo_of [dm 1 [lk 2 0, lk 3 0], dm 2 [lk 1 1, lk 3 2], dm 3 [lk 1 1, lk 2 2]] [Some 2, Some 3])"
  "add_relation sorted_env True 2 4 0 (topo_of [dm 1 [lk 2 0, lk 3 0], dm 2 [lk 1 1, lk 3 2], dm 3 [lk 1 1, lk 2 2]] [Some 2, Some 3])
     = Some (0, topo_of [dm 1 [lk 2 0, lk 3 0], dm 2 [lk 1 1, lk 3 2, lk 4 0], dm 3 [lk 1 1, lk 2 2], dm 4 [lk 2 1]] [Some 3, Some 4])"
  by (simp_all add: topo_eval)

lemma sample_load_eq: "sample_load = Some (ASLEVEL_SUCCESS, Some 4, Some sample_topo)"
proof -
  have create: "aslevel_topo_create ASLEVEL_ADDR_SCH_GLOBAL = Some (topo_of [] [None, None])"
    by (simp add: aslevel_topo_create_def aslevel_topo_cache_init_def ASLEVEL_TOPO_AS_CACHE_SIZE_def topo_of_def numeral_2_eq_2)
  have "rexford_parser sorted_env words_env sample_file (topo_of [] [None, None]) = Some (0, 4, sample_topo)"
    unfolding rexford_parser_def sample_file_lines sample_lines_def parse_lines.simps sample_steps
    by (simp add: sample_relations aslevel_errors sample_topo_def)
  moreover have "aslevel_topo_check_consistency sample_topo = Some 0"
    by (simp add: aslevel_topo_check_consistency_def link_consistent_def aslevel_as_get_link_def sample_topo_def topo_eval)
  ultimately show ?thesis by (simp add: sample_load_def aslevel_topo_load_def create aslevel_errors)
qed

lemma sample_ok: "as_topo_ok sample_topo" "consistent sample_topo"
  using as_sorted.load_result [of ASLEVEL_ADDR_SCH_GLOBAL words_env sample_file ASLEVEL_FORMAT_REXFORD]
  unfolding sample_load_def [symmetric] sample_load_eq by auto

lemma sample_neighbors:
  "neighbors_of sample_topo 1 = [lk 2 0, lk 3 0]" "neighbors_of sample_topo 2 = [lk 1 1, lk 3 2, lk 4 0]"
  "neighbors_of sample_topo 3 = [lk 1 1, lk 2 2]" "neighbors_of sample_topo 4 = [lk 2 1]"
  by (simp_all add: neighbors_of_def domain_at_def sample_topo_def topo_of_def dm_def)

text \<open>In a topology of at most as many domains as the stack is deep, no walk is too long.\<close>

lemma small_topo_walks:
  assumes ok: "as_topo_ok topo" and len: "length (tp_domains topo) \<le> depth" "0 < depth" and walk: "p2c_walk topo xs" "distinct xs"
  shows "length xs \<le> depth"
proof -
  have "p2c_walk topo (x # xs) \<Longrightarrow> xs = [] \<or> set (x # xs) \<subseteq> asns_of topo" for x xs
  proof (induction xs arbitrary: x)
    case (Cons y ys)
    then have xy: "(x, y) \<in> p2c topo" by simp
    then have "neighbors_of topo x \<noteq> []" by (auto simp: p2c_def)
    then have "x \<in> asns_of topo" using neighbors_outside by blast
    moreover have "y \<in> asns_of topo" using as_edges_closed [OF ok] xy p2c_edges by blast
    ultimately show ?case using Cons.IH [of y] Cons.prems by auto
  qed simp
  then consider "length xs \<le> 1" | "set xs \<subseteq> asns_of topo" using walk(1) by (cases xs) fastforce+
  then show ?thesis
  proof cases
    case 2
    have "length xs = card (set xs)" using walk(2) by (simp add: distinct_card)
    also have "\<dots> \<le> card (asns_of topo)" by (rule card_mono [OF _ 2]) (simp add: asns_of_def)
    also have "\<dots> \<le> length (tp_domains topo)" unfolding asns_of_def using card_image_le [of "set (tp_domains topo)" as_asn] card_length [of "tp_domains topo"] by auto
    finally show ?thesis using len(1) by simp
  qed (use len(2) in simp)
qed

section \<open>Properties\<close>

text \<open>C33: Loading a topology returns.  Either nothing is loaded and the result is an error, or the topology is well formed and the result says
  whether every link exists in both directions with matching relationships; a file in the Rexford format that is accepted always gives a
  consistent topology.\<close>

theorem topo_load_correct:
  assumes "as_arrays env" "scheme \<in> {ASLEVEL_ADDR_SCH_GLOBAL, ASLEVEL_ADDR_SCH_LOCAL}"
  shows "\<exists>r line the. aslevel_topo_load env pe (Some file) fmt scheme None = Some (r, line, the)
    \<and> (case the of
         None \<Rightarrow> r \<noteq> ASLEVEL_SUCCESS
       | Some topo \<Rightarrow> as_topo_ok topo \<and> tp_state topo = ASLEVEL_STATE_LOADED
           \<and> r = (if consistent topo then ASLEVEL_SUCCESS else ASLEVEL_ERROR_INCONSISTENT)
           \<and> (fmt = ASLEVEL_FORMAT_REXFORD \<longrightarrow> consistent topo))"
  by (rule as_arrays.load_result [OF assms])

theorem topo_load_correct_witness:
  "\<exists>topo. sample_load = Some (ASLEVEL_SUCCESS, Some 4, Some topo) \<and> consistent topo"
proof -
  have "as_arrays sorted_env" "ASLEVEL_ADDR_SCH_GLOBAL \<in> {ASLEVEL_ADDR_SCH_GLOBAL, ASLEVEL_ADDR_SCH_LOCAL}"
    by (rule as_sorted.as_arrays_axioms) simp
  from topo_load_correct [OF this, of words_env sample_file ASLEVEL_FORMAT_REXFORD]
  show ?thesis unfolding sample_load_def [symmetric] sample_load_eq by auto
qed

text \<open>C38: Looking up a domain through the cache gives the same result as a search in the array, and keeps the invariant.\<close>

theorem topo_get_as_correct:
  assumes "as_topo_ok topo"
  shows "\<exists>topo'. aslevel_topo_get_as a topo = Some (map_option as_asn (domain_at topo a), topo')
    \<and> as_topo_ok topo' \<and> tp_domains topo' = tp_domains topo"
proof -
  obtain topo' where get: "aslevel_topo_get_as a topo = Some (if a \<in> asns_of topo then Some a else None, topo')"
    and topo': "topo' = topo \<or> a \<in> asns_of topo \<and> topo' = aslevel_topo_cache_update_as a topo"
    using get_as_search [OF as_topo_okD(3) [OF assms], of a] by blast
  have "as_topo_ok topo'" using topo' assms cache_update_ok [of topo a] by (auto simp: as_topo_ok_iff)
  moreover have "(if a \<in> asns_of topo then Some a else None) = map_option as_asn (domain_at topo a)"
    using domain_at_None [of topo a] domain_at_mem [of topo a] by (cases "domain_at topo a") auto
  ultimately show ?thesis using get topo' by auto
qed

theorem topo_get_as_correct_witness: "\<exists>topo'. aslevel_topo_get_as 2 sample_topo = Some (Some 2, topo')"
  using topo_get_as_correct [OF sample_ok(1), of 2] by (auto simp: sample_topo_def topo_of_def domain_at_def dm_def)

text \<open>C36: Removing a domain from a consistent topology never stops the program; the domain and all links with it are gone, nothing else
  changes, and the topology stays well formed and consistent.\<close>

theorem topo_remove_as_correct:
  assumes "as_topo_ok topo" "consistent topo"
  shows "\<exists>r topo'. aslevel_topo_remove_as a topo = Some (r, topo') \<and> as_topo_ok topo' \<and> consistent topo'
    \<and> (r = ASLEVEL_SUCCESS \<longleftrightarrow> a \<in> asns_of topo) \<and> asns_of topo' = asns_of topo - {a}
    \<and> (\<forall>b. b \<noteq> a \<longrightarrow> neighbors_of topo' b = filter (\<lambda>link. lk_neighbor link \<noteq> a) (neighbors_of topo b))"
proof (cases "a \<in> asns_of topo")
  case True
  let ?t = "aslevel_topo_cache_invalidate topo"
  have "graph_ok ?t" "consistent ?t" using assms by (simp_all add: as_topo_ok_graph graph_ok_def consistent_def)
  moreover have "cache_ok (without {a} ?t)" by (simp add: cache_ok_def without_def)
  ultimately show ?thesis
    using True remove_as_eq [OF assms True] graph_ok_without [of ?t "{a}"] consistent_without [of ?t "{a}"]
    by (simp add: as_topo_ok_graph asns_of_without neighbors_of_without)
next
  case False
  have "find_index_from 0 (\<lambda>d. as_asn d = a) (tp_domains topo) = None" using False by (auto simp: find_index_from_None asns_of_def)
  moreover have "filter (\<lambda>link. lk_neighbor link \<noteq> a) (neighbors_of topo b) = neighbors_of topo b" for b
    using link_target(1) [OF assms(1), of _ b] False by (intro filter_True) auto
  ultimately show ?thesis using assms False by (simp add: aslevel_topo_remove_as_def aslevel_errors)
qed

theorem topo_remove_as_correct_witness:
  "\<exists>topo'. aslevel_topo_remove_as 3 sample_topo = Some (ASLEVEL_SUCCESS, topo') \<and> consistent topo' \<and> asns_of topo' = {1, 2, 4}"
proof -
  have "asns_of sample_topo = {1, 2, 3, 4}" by (auto simp: asns_of_def sample_topo_def topo_of_def dm_def)
  then show ?thesis using topo_remove_as_correct [OF sample_ok, of 3] by auto
qed

text \<open>C35: The check of connectedness of a consistent topology returns, and succeeds exactly when every domain can be reached from every other.\<close>

theorem check_connectedness_correct:
  assumes "as_topo_ok topo" "consistent topo"
  shows "aslevel_topo_check_connectedness topo = Some (if \<forall>a\<in>asns_of topo. \<forall>b\<in>asns_of topo. (a, b) \<in> (as_edges topo)\<^sup>*
     then ASLEVEL_SUCCESS else ASLEVEL_ERROR_DISCONNECTED)"
proof -
  have "sym ((as_edges topo)\<^sup>*)" by (rule sym_rtrancl [OF consistent_sym [OF assms(2)]])
  then have "(\<forall>a\<in>asns_of topo. tp_domains topo \<noteq> [] \<longrightarrow> (as_asn (tp_domains topo ! 0), a) \<in> (as_edges topo)\<^sup>*)
      \<longleftrightarrow> (\<forall>a\<in>asns_of topo. \<forall>b\<in>asns_of topo. (a, b) \<in> (as_edges topo)\<^sup>*)"
    by (cases "tp_domains topo") (auto simp: asns_of_def sym_def, meson rtrancl_trans)
  then show ?thesis using check_connectedness_eq [OF assms(1)] by simp
qed

theorem check_connectedness_correct_witness:
  "aslevel_topo_check_connectedness sample_topo = Some ASLEVEL_SUCCESS"
proof -
  have e: "(1, 2) \<in> as_edges sample_topo" "(1, 3) \<in> as_edges sample_topo" "(2, 4) \<in> as_edges sample_topo"
    "(2, 1) \<in> as_edges sample_topo" "(3, 1) \<in> as_edges sample_topo" "(4, 2) \<in> as_edges sample_topo"
    by (simp_all add: as_edges_def sample_neighbors lk_def)
  have "(1, a) \<in> (as_edges sample_topo)\<^sup>* \<and> (a, 1) \<in> (as_edges sample_topo)\<^sup>*" if "a \<in> {1, 2, 3, 4}" for a
    using that e by (auto intro: rtrancl_trans)
  moreover have "asns_of sample_topo = {1, 2, 3, 4}" by (auto simp: asns_of_def sample_topo_def topo_of_def dm_def)
  ultimately have "\<forall>a\<in>asns_of sample_topo. \<forall>b\<in>asns_of sample_topo. (a, b) \<in> (as_edges sample_topo)\<^sup>*"
    by (metis rtrancl_trans)
  then show ?thesis using check_connectedness_correct [OF sample_ok] by simp
qed

text \<open>C34: The check for cycles of providers and customers, for topologies in which no chain of different domains, each a customer of the one
  before, is longer than the stack of 100 of the program.  The check returns, and reports a cycle exactly when every domain has a provider
  or a domain without provider has a cycle below it.  In a consistent topology a reported cycle exists; a cycle that no domain without
  provider reaches is not reported when there is such a domain.\<close>

theorem check_cycle_correct:
  assumes "as_arrays env" "as_topo_ok topo" "consistent topo" "tp_domains topo \<noteq> []"
    and "\<forall>xs. p2c_walk topo xs \<and> distinct xs \<longrightarrow> length xs \<le> CYCLE_QUEUE_SIZE"
  shows "\<exists>r. aslevel_topo_check_cycle env topo = Some r
    \<and> r = (if (\<forall>d\<in>set (tp_domains topo). aslevel_as_num_providers d > 0)
        \<or> (\<exists>d\<in>set (tp_domains topo). aslevel_as_num_providers d = 0 \<and> (\<exists>x. (as_asn d, x) \<in> (p2c topo)\<^sup>* \<and> (x, x) \<in> (p2c topo)\<^sup>+))
      then ASLEVEL_ERROR_CYCLE_DETECTED else ASLEVEL_SUCCESS)
    \<and> (r = ASLEVEL_ERROR_CYCLE_DETECTED \<longrightarrow> (\<exists>x. (x, x) \<in> (p2c topo)\<^sup>+))"
proof -
  have tops: "set (aslevel_topo_get_top env topo) = as_asn ` {d \<in> set (tp_domains topo). aslevel_as_num_providers d = 0}"
    by (rule as_arrays.get_top_set [OF assms(1)])
  then have none: "aslevel_topo_get_top env topo = [] \<longleftrightarrow> (\<forall>d\<in>set (tp_domains topo). aslevel_as_num_providers d > 0)"
    unfolding set_empty [symmetric] by auto
  have "\<exists>x. (x, x) \<in> (p2c topo)\<^sup>+" if "\<forall>d\<in>set (tp_domains topo). aslevel_as_num_providers d > 0"
    using no_top_cycle [OF assms(2-4)] that by simp
  then show ?thesis
    unfolding as_arrays.check_cycle_eq [OF assms(1,2,5,4)] none tops
    by (simp add: aslevel_errors) blast
qed

lemma sample_topo_domains:
  "tp_domains sample_topo = [dm 1 [lk 2 0, lk 3 0], dm 2 [lk 1 1, lk 3 2, lk 4 0], dm 3 [lk 1 1, lk 2 2], dm 4 [lk 2 1]]"
  by (simp add: sample_topo_def topo_of_def)

lemma sample_p2c: "p2c sample_topo \<subseteq> {(a, b). a < b}"
proof -
  have "a < b" if e: "(a, b) \<in> p2c sample_topo" for a b
  proof -
    obtain link where link: "link \<in> set (neighbors_of sample_topo a)" "lk_neighbor link = b" "lk_type link = 0"
      using e by (auto simp: p2c_def peer_types)
    then have "a \<in> asns_of sample_topo" using neighbors_outside [of a sample_topo] by force
    then have "a \<in> {1, 2, 3, 4}" by (auto simp: asns_of_def sample_topo_domains dm_def)
    then show ?thesis using link by (auto simp: sample_neighbors lk_def)
  qed
  then show ?thesis by auto
qed

theorem check_cycle_correct_witness: "aslevel_topo_check_cycle sorted_env sample_topo = Some ASLEVEL_SUCCESS"
proof -
  have "length xs \<le> CYCLE_QUEUE_SIZE" if "p2c_walk sample_topo xs" "distinct xs" for xs
    using small_topo_walks [OF sample_ok(1) _ _ that] by (simp add: sample_topo_domains CYCLE_QUEUE_SIZE_def)
  moreover have "(x, x) \<notin> (p2c sample_topo)\<^sup>+" for x
  proof
    assume "(x, x) \<in> (p2c sample_topo)\<^sup>+"
    then have "(x, x) \<in> {(a, b). a < b}\<^sup>+" using trancl_mono [OF _ sample_p2c] by blast
    moreover have "trans {(a, b). a < (b :: asn)}" by (auto simp: trans_def)
    ultimately show False by simp
  qed
  moreover have "aslevel_as_num_providers (dm 1 [lk 2 0, lk 3 0]) = 0" by (simp add: aslevel_as_num_providers_def dm_def lk_def peer_types)
  ultimately show ?thesis
    using check_cycle_correct [OF as_sorted.as_arrays_axioms sample_ok] by (auto simp: sample_topo_domains)
qed



text \<open>The preference of a route that has arrived is that of the last relationship.\<close>

lemma carry_pref:
  assumes repo: "attr_repository env" and "\<forall>x\<in>set (hs @ [h]). hop_ok env x" "length (untagged (comm_values route)) < 255"
    and "hop_type h \<noteq> ASLEVEL_PEER_TYPE_SIBLING" "carry env (hs @ [h]) route = Some (Some r)"
  shows "local_pref (attr r) = in_pref (aslevel_reverse_relation (hop_type h)) 0"
  using assms(2,3,5)
proof (induction hs arbitrary: route)
  case Nil
  have h: "hop_ok env h" using Nil.prems(1) by simp
  have t: "hop_type h \<in> {ASLEVEL_PEER_TYPE_CUSTOMER, ASLEVEL_PEER_TYPE_PROVIDER, ASLEVEL_PEER_TYPE_PEER}"
    using assms(4) by (cases rule: hop_types [OF h]) simp_all
  show ?case using hop_carry [OF repo h Nil.prems(2) t, of "[]"] Nil.prems(3) by (auto split: if_splits)
next
  case (Cons x hs)
  then have x: "hop_ok env x" by simp
  show ?case
  proof (cases rule: hop_types [OF x])
    case 1
    show ?thesis using Cons.IH [of "hop_relay x route"] Cons.prems sibling_carry(1) [OF x 1, of "hs @ [h]" route] sibling_carry(2) [OF x 1, of route] by (simp del: carry.simps)
  next
    case 2
    then obtain r' where "carry env (x # hs @ [h]) route = carry env (hs @ [h]) r'" "untagged (comm_values r') = untagged (comm_values route)"
      using hop_carry [OF repo x Cons.prems(2) 2, of "hs @ [h]"] Cons.prems(3) by (auto split: if_splits simp del: carry.simps)
    then show ?thesis using Cons.IH [of r'] Cons.prems by (simp del: carry.simps)
  qed
qed

text \<open>C32: The policies of a topology make routes follow valley-free paths.  Let a route be passed along a path of domains, through the output
  filter of each sender and the input filter of the next domain, where what the routers do between the two filters leaves the communities
  as they are.  The filters never stop the program, and the route arrives at the end exactly when the path goes up to providers, crosses at
  most one link between peers, and goes down to customers (siblings do not count), and only goes down when the
  route was learned from a provider or a peer before.  A route that arrives has the preference 100, 80 or 60 when it was learned from a customer, a peer or a
  provider.  The route has fewer than 255 communities of its own.\<close>

theorem policies_valley_free:
  assumes "attr_repository env" "\<forall>h\<in>set hs. hop_ok env h" "length (untagged (comm_values route)) < 255"
  shows "if valley_free (tagged route) (map hop_type hs)
    then \<exists>r. carry env hs route = Some (Some r)
      \<and> (hs \<noteq> [] \<and> hop_type (last hs) \<noteq> ASLEVEL_PEER_TYPE_SIBLING \<longrightarrow>
           local_pref (attr r) = in_pref (aslevel_reverse_relation (hop_type (last hs))) 0)
    else carry env hs route = Some None"
proof -
  have "local_pref (attr r) = in_pref (aslevel_reverse_relation (hop_type (last hs))) 0"
    if r: "carry env hs route = Some (Some r)" "hs \<noteq> []" "hop_type (last hs) \<noteq> ASLEVEL_PEER_TYPE_SIBLING" for r
    using carry_pref [OF assms(1) _ assms(3) r(3), of "butlast hs" r] r(1,2) assms(2) by (simp add: append_butlast_last_id)
  then show ?thesis using carry_valley_free [OF assms] by auto
qed

text \<open>An environment with the policies: the output filter for relationship \<open>t\<close> has the number \<open>2 * t\<close>, the input filter \<open>2 * t + 1\<close>.\<close>

definition policy_rules :: "nat \<Rightarrow> bgp_filter" where
  "policy_rules f =
     (if even f then (case aslevel_filter_out (of_nat (f div 2)) of Some (Some rules) \<Rightarrow> rules | _ \<Rightarrow> [])
      else (case aslevel_filter_in (of_nat (f div 2)) of Some rules \<Rightarrow> rules | None \<Rightarrow> []))"

definition policy_env :: "(rt_info list) alist_trie flt_env" where
  "policy_env = attr_env.extend (list_repository [] [])
     \<lparr>rtenv = alist_rt_env, path_exprs = [], filter_seqs = policy_rules, filter_depth = 1\<rparr>"

definition policy_hop :: "peer_type \<Rightarrow> (rt_info list) alist_trie as_hop" where
  "policy_hop t =
     (let r = \<lparr>flt_asn = 1, flt_node = \<lparr>node_rid = 9, ifaces = [], node_rt = [], node_domains = []\<rparr>\<rparr>
      in \<lparr>hop_type = t, hop_from = r, hop_out = Some (2 * unat t), hop_relay = (\<lambda>route. route), hop_to = r,
          hop_in = Some (2 * unat (aslevel_reverse_relation t) + 1)\<rparr>)"

lemma policy_env_repository: "attr_repository policy_env"
proof -
  have "attr_repository (list_repository [] [])" by (rule list_repo.attr_repository_axioms)
  then show ?thesis by (simp add: attr_repository_def policy_env_def attr_env.defs)
qed

lemma policy_hop_ok:
  assumes "t \<in> {ASLEVEL_PEER_TYPE_CUSTOMER, ASLEVEL_PEER_TYPE_PROVIDER, ASLEVEL_PEER_TYPE_PEER}"
  shows "hop_ok policy_env (policy_hop t)"
proof -
  have seqs: "filter_seqs policy_env = policy_rules" "filter_depth policy_env = 1" by (simp_all add: policy_env_def attr_env.defs)
  have rt: "aslevel_reverse_relation t \<in> {ASLEVEL_PEER_TYPE_CUSTOMER, ASLEVEL_PEER_TYPE_PROVIDER, ASLEVEL_PEER_TYPE_PEER}"
    using assms by (auto simp: aslevel_reverse_relation_def peer_types)
  have inp: "aslevel_filter_in s \<noteq> None" if "s \<in> {ASLEVEL_PEER_TYPE_CUSTOMER, ASLEVEL_PEER_TYPE_PROVIDER, ASLEVEL_PEER_TYPE_PEER}" for s
    using that by (auto simp: aslevel_filter_in_def)
  obtain m where "filter_match_or (Some (FT_MATCH_COMM_CONTAINS COMM_PROV)) (Some (FT_MATCH_COMM_CONTAINS COMM_PEER)) = Some m"
    by (simp add: filter_match_or_def ft_match_compound2_def ft_header_size_def BGP_FT_MATCHER_SIZE_MAX_def)
  then have "\<exists>rules. aslevel_filter_out t = Some (Some rules)" using assms by (auto simp: aslevel_filter_out_def)
  then obtain rules where "aslevel_filter_out t = Some (Some rules)" ..
  moreover obtain rules' where "aslevel_filter_in (aslevel_reverse_relation t) = Some rules'" using inp [OF rt] by blast
  ultimately show ?thesis
    using assms by (auto simp: hop_ok_def policy_hop_def has_policy_def seqs policy_rules_def aslevel_check_peer_type_def Let_def)
qed

definition plain_route :: bgp_route where
  "plain_route = route_create \<lparr>network = 1, mask = 8\<rparr> None 7 BGP_ORIGIN_IGP"

theorem policies_valley_free_witness:
  "(\<exists>r. carry policy_env (map policy_hop [1, 2, 0]) plain_route = Some (Some r) \<and> local_pref (attr r) = 60)
    \<and> carry policy_env (map policy_hop [2, 1]) plain_route = Some None"
proof -
  have vals: "comm_values plain_route = []" by (simp add: comm_values_def plain_route_def route_create_def route_create2_def bgp_attr_create_def)
  then have t: "tagged plain_route = False" "length (untagged (comm_values plain_route)) < 255" by (simp_all add: tagged_def untagged_def)
  have hops: "\<forall>h\<in>set (map policy_hop ts). hop_ok policy_env h" if "set ts \<subseteq> {0, 1, 2}" for ts
    using that policy_hop_ok by (auto simp: peer_types)
  have types: "map hop_type (map policy_hop ts) = ts" for ts by (induction ts) (simp_all add: policy_hop_def Let_def)
  have "hop_type (last (map policy_hop [1, 2, 0])) = 0" by (simp add: policy_hop_def Let_def)
  moreover have "in_pref (aslevel_reverse_relation 0) 0 = 60" by (simp add: in_pref_def aslevel_reverse_relation_def peer_types)
  moreover have "valley_free False [1, 2, 0]" "\<not> valley_free False [2, 1]" by (simp_all add: peer_types)
  ultimately show ?thesis
    using policies_valley_free [OF policy_env_repository hops t(2), of "[1, 2, 0]"] policies_valley_free [OF policy_env_repository hops t(2), of "[2, 1]"]
    unfolding types t(1) by (simp add: peer_types del: carry.simps)
qed

end
