(* ===== verification/Spec2Isabelle.thy ===== *)
theory Spec2Isabelle
  imports Bgp_Router Sim_Dynamic Igp_Routes As_Level
begin

text \<open>
  A verification development for C-BGP, a BGP routing solver.

  \<^bold>\<open>The program.\<close>  C-BGP simulates a network of routers.  Nodes have interfaces, joined by links or attached to
  subnets; inside an IGP domain a shortest-path search from each router gives the distances and routes to the others.  A BGP router runs
  on a node: it has peers, a session with each of them, an Adj-RIB-In and an Adj-RIB-Out per peer and one Loc-RIB.
  A message from a peer changes the session and the Adj-RIB-In; the decision process selects a route among the feasible routes of all
  peers, installs it in the Loc-RIB and in the routing table of the node, and sends the change to the peers through their output filters.
  Messages between routers are events of a simulator, which hands them to the routers one after the other.  A topology of whole domains with
  business relationships can be loaded from a file; it gives each router the filters of these relationships.

  \<^bold>\<open>Theories and sources\<close> (all paths are below \<open>src/\<close> of the sources).

  \<^item> \<open>Cbgp_Prelude\<close>: error codes, assertions, list operations and the sorted arrays of libgds as an interface.
  \<^item> \<open>Net_Prefix\<close>: \<open>net/ip.h\<close>, \<open>net/prefix.c\<close>; addresses and prefixes, comparison, containment, parsing and printing.
  \<^item> \<open>Bgp_Path\<close>, \<open>Bgp_Comm\<close>, \<open>Bgp_Attr\<close>: \<open>bgp/attr/*.c\<close>, \<open>bgp/attr.c\<close>, \<open>bgp/route_reflector.c\<close>; AS-Paths, communities, the
    attribute record.  The global tables that share equal paths and communities are an interning function of an environment;
    the assertion of the table of paths that a printed path fits 1024 characters is not part of it.
  \<^item> \<open>Gds_Trie\<close>: the Patricia trie of libgds as a locale with the laws of a finite map and of the longest match.
  \<^item> \<open>Net_Routing\<close>: \<open>net/routing.c\<close>, \<open>net/rt_filter.c\<close>; the routing table of a node.
  \<^item> \<open>Net_Types\<close>, \<open>Net_Topology\<close>: \<open>net/net_types.h\<close>, \<open>net/iface*.c\<close>, \<open>net/link*.c\<close>, \<open>net/subnet.c\<close>, and the parts of \<open>net/node.c\<close> and
    \<open>net/network.c\<close> that build the topology.  A pointer to a node is its router-ID, to a subnet its prefix, to an interface the pair of
    its node and its address.
  \<^item> \<open>Net_Forward\<close>: \<open>net/network.c\<close>, \<open>net/icmp.c\<close>, \<open>net/ipip.c\<close>, \<open>net/protocol.c\<close>, \<open>net/message.c\<close> and the send and receive
    operations of \<open>net/iface*.c\<close>; forwarding of messages, ping, traceroute and tunnels.
  \<^item> \<open>Igp_Spt\<close>: the first half of \<open>net/igp.c\<close>, \<open>net/spt.h\<close>; the shortest-path tree of a domain.
  \<^item> \<open>Igp_Routes\<close>: the second half of \<open>net/igp.c\<close>, \<open>net/igp_domain.c\<close>; IGP domains, the forwarding entries of a tree, the routes
    installed in the routers of a domain.
  \<^item> \<open>Bgp_Route\<close>: \<open>bgp/route.c\<close>, \<open>bgp/routes_list.c\<close>, \<open>bgp/rib.c\<close>.
  \<^item> \<open>Bgp_Filter\<close>: \<open>bgp/filter/filter.c\<close>; predicates, actions, rules.
  \<^item> \<open>Bgp_Types\<close>: \<open>bgp/types.h\<close>, \<open>bgp/peer.h\<close>, \<open>bgp/message.c\<close>; the records of routers, peers and messages.
  \<^item> \<open>Dp_Rules\<close>: \<open>bgp/dp_rules.c\<close>, \<open>bgp/tie_breaks.c\<close>; the rules of the decision process.
  \<^item> \<open>Bgp_Advertise\<close>, \<open>Bgp_Decision\<close>: \<open>bgp/as.c\<close>, \<open>bgp/dp_rt.c\<close>; redistribution to peers, the decision process, installation of routes.
  \<^item> \<open>Bgp_Session\<close>, \<open>Bgp_Router\<close>: \<open>bgp/peer.c\<close> and the message handling of \<open>bgp/as.c\<close>; sessions and whole runs of a router.
  \<^item> \<open>Sim_Scheduler\<close>, \<open>Sim_Dynamic\<close>: \<open>sim/*.c\<close>; the two schedulers and the simulator.  Times of the dynamic scheduler are rationals
    with the rounding of \<open>float\<close> and \<open>double\<close> written out.
  \<^item> \<open>As_Level\<close>: \<open>bgp/aslevel/as-level.c\<close>, \<open>filter.c\<close>, \<open>rexford.c\<close>, \<open>caida.c\<close>, \<open>meulle.c\<close>; topologies of domains, their checks and
    filters, the parsers of their files, and the policies of their relationships.

  \<^bold>\<open>How code is read.\<close>  A C function becomes a HOL function that passes the state it changes.  A function that can stop the process (a
  failed assertion, \<open>abort\<close>, a null dereference) returns an option, and \<^term>\<open>None\<close> is the stop; error codes are values.  Machine integers
  are words of their width where wrap-around or saturation matters.  Containers of libgds (trie, sorted array, FIFO) and functions the
  repository does not contain are parameters; their contracts are locales, interpreted on list implementations.

  \<^bold>\<open>What is shown.\<close>

  \<^item> Decision process (\<open>Dp_Rules\<close>, \<open>Bgp_Decision\<close>): the rules compute the selection specified by the nine criteria; the process installs
    that selection in the Loc-RIB and the routing table, touches no other prefix in any table or message, and keeps the invariant of the
    router.
  \<^item> Redistribution (\<open>Bgp_Advertise\<close>): which routes reach external and internal peers, and that the Adj-RIB-Out records what
    was sent.
  \<^item> Sessions (\<open>Bgp_Router\<close>): handling a message refines the state machine of a session; UPDATE and WITHDRAW have their specified
    effect; messages out of order change nothing; the invariant holds after any run of the messages and commands listed there.  A run with deterministic MED shows that an
    ineligible UPDATE can leave a stale best route.
  \<^item> Topology (\<open>Net_Topology\<close>): well-formedness of every network built by the commands; creation of links on every branch.
  \<^item> Shortest paths (\<open>Igp_Spt\<close>): the search returns on domains small enough for its queue, its weights are path lengths, and without point-to-point links they are minimal with
    exactly the predecessors on shortest paths; a square with a point-to-point link shows that they need not be minimal otherwise.
  \<^item> Forwarding (\<open>Net_Forward\<close>): a ping follows the walk of the routing tables and has the outcome specified for it; without tunnels a traceroute
    with a limit below 255 returns, and with the limit 255 never in a forwarding loop; a tunnel whose far end is reached through itself recurses without end.
  \<^item> IGP routes (\<open>Igp_Routes\<close>): the computation returns on domains small enough for its queue and stack, the routes of each router are those of its shortest-path tree, and after it a
    ping between two routers of the domain that reach each other succeeds.
  \<^item> Schedulers: events are handled in the order of posting, runs return, posting keeps the dynamic scheduler in order, and its float clock loses
    an event exactly when it rounds down.
  \<^item> AS-level topologies (\<open>As_Level\<close>): loading gives well-formed topologies; removal, filters and the checks of connectedness and cycles do
    what they should, or exactly what is stated where they do not; the policies let routes pass along valley-free paths only.
  \<^item> Tables, filters and attributes: routing tables and RIBs are finite maps with longest match; filters run the first matching rule and
    touch only what their actions name; comparison, parsing and printing of prefixes and paths.  (The laws of tables and of the rules of
    filters are lemmas of the library, not properties of their own.)

  \<^bold>\<open>Bounds and fuel.\<close>  Filters call filters through \<open>call\<close> and \<open>jump\<close>: their interpreter has a depth, and with acyclic references every depth
  above the rank of a filter gives the same result.  The run of the static scheduler and the search for shortest paths are partial
  functions into option: not returning is \<^term>\<open>None\<close>.  For the scheduler, a run with a number of steps or a time limit is shown to return; for the
  search, the queue of 100000 contexts that the program creates is shown to be enough when \<open>n * ((n - 1) * w + 1) + 1\<close> is below that
  number, for \<open>n\<close> elements of the domain and weights of at most \<open>w\<close>; the program stops when the queue is exceeded.  The forwarding entries
  of a tree are computed with a stack of 10000, again a partial function: \<open>n\<^sup>2\<close> entries for \<open>n\<close> vertices are shown to be enough, hence
  100 routers.  The traversals of an AS-level topology terminate, and stop the program when their stack (65536 domains for connectedness,
  100 for cycles) is exceeded.  Sending and receiving on a tunnel call each other, so they have a
  depth, and a result at one depth is the result at every greater one; a ping needs three nested sends and
  at most 1024 events of the simulator.  The loop of traceroute is a partial function.

  \<^bold>\<open>Not modelled.\<close>  Input and output: the command line, dumps and logs, file formats (MRT, Cisco, NTF), the Java bindings, the
  terminal.  OSPF, the Walton and QoS variants, compiled only as experiments.  Regular expressions (PCRE) and the bgpdump library are
  third-party code: the match of a path is a parameter of the filters.  IP options, the
  recorded paths and traces of forwarded messages, the installation of an AS-level topology as a network, route maps and the queries over BGP domains are not modelled.
\<close>

end
